(* ===== verification/BDX_Prelude.thy ===== *)
theory BDX_Prelude
  imports Main "HOL-Library.Word"
begin

text \<open>
  Shared vocabulary of the development: the machine types of \<open>Common/Defines.h\<close>
  (bytes, 64-bit words, 128-bit SSE blocks), the lane-wise SSE operations the sources use on
  blocks, the exceptions as an error type, and the generic facts about xor, words and lists
  that the component theories share.
\<close>

unbundle bit_operations_syntax

named_theorems xor_norm "normalisation of xor sums"
named_theorems block_bits "bit-level characterisations of block operations"

type_synonym u8 = "8 word"
type_synonym u32 = "32 word"
type_synonym u64 = "64 word"
type_synonym block = "128 word"

text \<open>The two parties: \<open>enum Role\<close> of \<open>Common/Defines.h\<close>.\<close>

datatype role = First | Second

fun role_idx :: "role \<Rightarrow> nat" where
  "role_idx First = 0"
| "role_idx Second = 1"

fun other :: "role \<Rightarrow> role" where
  "other First = Second"
| "other Second = First"

lemma role_idx_other: "role_idx (other r) = 1 - role_idx r"
  by (cases r) simp_all

text \<open>
  Exceptions the library throws (\<open>Common/Exceptions.h\<close> and the standard ones). A throwing
  function returns \<open>bdx_error + 'a\<close>. \<open>Aborted\<close> is a call of \<open>abort()\<close>, \<open>Blocked\<close> stands for a thread that waits forever,
  \<open>UndefinedBehaviour\<close> for an access outside a buffer.
\<close>

datatype bdx_error =
    RuntimeError
  | InvalidArgument
  | InvalidCommitment
  | InvalidLength
  | NotImplemented
  | ParameterMismatch
  | BadReceiveBufferSize
  | LengthError
  | FutureError
  | MaxModSzTooSmall
  | Aborted
  | Blocked
  | UndefinedBehaviour

type_synonym 'a result = "bdx_error + 'a"

fun bind_r :: "'a result \<Rightarrow> ('a \<Rightarrow> 'b result) \<Rightarrow> 'b result" where
  "bind_r (Inl e) f = Inl e"
| "bind_r (Inr x) f = f x"

lemma bind_r_Inr: "bind_r m f = Inr y \<longleftrightarrow> (\<exists>x. m = Inr x \<and> f x = Inr y)"
  by (cases m) simp_all

text \<open>A throwing check: continue only when the condition holds.\<close>

definition require :: "bool \<Rightarrow> bdx_error \<Rightarrow> unit result" where
  "require b e = (if b then Inr () else Inl e)"

lemma require_simps [simp]:
  "require True e = Inr ()"
  "require False e = Inl e"
  by (simp_all add: require_def)

lemma require_Inr [simp]: "require b e = Inr u \<longleftrightarrow> b"
  by (simp add: require_def)

text \<open>A throwing loop over a list, first failure wins.\<close>

fun each_r :: "('a \<Rightarrow> unit result) \<Rightarrow> 'a list \<Rightarrow> unit result" where
  "each_r f [] = Inr ()"
| "each_r f (x # xs) = bind_r (f x) (\<lambda>_. each_r f xs)"

lemma each_r_Inr: "each_r f xs = Inr u \<longleftrightarrow> (\<forall>x\<in>set xs. f x = Inr ())"
  by (induction xs) (auto simp: bind_r_Inr)

lemma each_r_error:
  "each_r f xs = Inl e \<Longrightarrow> \<exists>x\<in>set xs. f x = Inl e"
proof (induction xs)
  case (Cons x xs)
  then show ?case by (cases "f x") auto
qed simp

lemma each_r_cong: "(\<And>x. x \<in> set xs \<Longrightarrow> f x = g x) \<Longrightarrow> each_r f xs = each_r g xs"
  by (induction xs) simp_all

text \<open>What the senders of the library hand to \<open>asyncSend\<close>: \<open>BtIOService::dispatch\<close> throws for a message of no
  bytes, and the rest of the operation is not run.\<close>

definition send_msgs :: "u8 list list \<Rightarrow> unit result" where
  "send_msgs msgs = each_r (\<lambda>m. require (m \<noteq> []) RuntimeError) msgs"

lemma send_msgs_Inr [simp]: "send_msgs msgs = Inr u \<longleftrightarrow> [] \<notin> set msgs"
  by (auto simp: send_msgs_def each_r_Inr)

lemma send_msgs_cases: "send_msgs msgs = (if [] \<in> set msgs then Inl RuntimeError else Inr ())"
  by (induction msgs) (simp_all add: send_msgs_def require_def)

text \<open>A throwing loop that carries a state.\<close>

fun fold_r :: "('a \<Rightarrow> 's \<Rightarrow> 's result) \<Rightarrow> 'a list \<Rightarrow> 's \<Rightarrow> 's result" where
  "fold_r f [] s = Inr s"
| "fold_r f (x # xs) s = bind_r (f x s) (fold_r f xs)"

lemma fold_r_append: "fold_r f (xs @ ys) s = bind_r (fold_r f xs s) (fold_r f ys)"
proof (induction xs arbitrary: s)
  case (Cons x xs)
  then show ?case by (cases "f x s") simp_all
qed simp

lemma fold_r_invariant:
  assumes "I 0 s" and "\<And>i s. i < length xs \<Longrightarrow> I i s \<Longrightarrow> \<exists>s'. f (xs ! i) s = Inr s' \<and> I (Suc i) s'"
  shows "\<exists>s'. fold_r f xs s = Inr s' \<and> I (length xs) s'"
  using assms
proof (induction xs arbitrary: I s)
  case (Cons x xs)
  obtain s1 where s1: "f x s = Inr s1" "I (Suc 0) s1" using Cons.prems(2) [of 0 s] Cons.prems(1) by auto
  have "\<exists>s'. fold_r f xs s1 = Inr s' \<and> I (Suc (length xs)) s'"
    using Cons.IH [of "\<lambda>i. I (Suc i)" s1] s1(2) Cons.prems(2) [of "Suc _"] by auto
  then show ?case using s1(1) by simp
qed simp

section \<open>Xor on words\<close>

lemma xor_cancel_left [simp]: "(a :: 'a::len word) XOR (a XOR b) = b"
  by (simp add: xor.assoc [symmetric])

lemma xor_cancel_right [simp]: "((b :: 'a::len word) XOR a) XOR a = b"
  by (simp add: xor.assoc)

lemma xor_cancel_outer [simp]: "(a :: 'a::len word) XOR (b XOR a) = b"
  by (simp add: xor.commute [of b])

lemma xor_eq_0_iff [simp]: "(a :: 'a::len word) XOR b = 0 \<longleftrightarrow> a = b"
  by (metis xor_cancel_right xor.left_neutral xor_self_eq)

lemma xor_left_inject [simp]: "(a :: 'a::len word) XOR b = a XOR c \<longleftrightarrow> b = c"
  by (metis xor_cancel_left)

lemma xor_right_inject [simp]: "(b :: 'a::len word) XOR a = c XOR a \<longleftrightarrow> b = c"
  by (metis xor_cancel_right)

lemmas xor_ac [xor_norm] = xor.assoc xor.commute xor.left_commute

text \<open>
  Selection by a bit, the source's idiom \<open>zeroAndGlobalOffset[bit]\<close> and
  \<open>correction[bit]\<close>: an offset that is added only when the bit is set.
\<close>

definition sel :: "'a::len word \<Rightarrow> bool \<Rightarrow> 'a word" where
  "sel d b = (if b then d else 0)"

lemma sel_simps [simp]: "sel d False = 0" "sel d True = d"
  by (simp_all add: sel_def)

lemma sel_xor [simp]: "sel d a XOR sel d b = sel d (a \<noteq> b)"
  by (cases a; cases b) simp_all

lemma sel_xor_left [simp]: "sel d a XOR (sel d b XOR x) = sel d (a \<noteq> b) XOR x"
  by (simp add: xor.assoc [symmetric])

lemma xor_and_distrib: "(a XOR b) AND (c :: 'a::len word) = (a AND c) XOR (b AND c)"
  by (rule bit_word_eqI) (auto simp: bit_simps)

lemma sel_and: "sel d b AND c = sel (d AND c) b"
  by (cases b) simp_all

text \<open>The source's accumulation loops \<open>acc = acc ^ x\<close>.\<close>

definition xor_fold :: "'a::len word \<Rightarrow> 'a word list \<Rightarrow> 'a word" where
  "xor_fold a xs = fold (\<lambda>x acc. acc XOR x) xs a"

lemma xor_fold_Nil [simp]: "xor_fold a [] = a"
  by (simp add: xor_fold_def)

lemma xor_fold_Cons [simp]: "xor_fold a (x # xs) = xor_fold (a XOR x) xs"
  by (simp add: xor_fold_def)

lemma xor_fold_acc: "xor_fold a xs = a XOR xor_fold 0 xs"
proof (induction xs arbitrary: a)
  case (Cons x xs)
  show ?case
    using Cons.IH [of "a XOR x"] Cons.IH [of x] by (simp add: xor_norm)
qed simp

lemma xor_fold_append: "xor_fold a (xs @ ys) = xor_fold (xor_fold a xs) ys"
  by (simp add: xor_fold_def)

lemma xor_fold_map_xor:
  "xor_fold 0 (map (\<lambda>i. f i XOR g i) xs) = xor_fold 0 (map f xs) XOR xor_fold 0 (map g xs)"
proof (induction xs)
  case (Cons x xs)
  then show ?case
    by (simp add: xor_fold_acc [of "f x XOR g x"] xor_fold_acc [of "f x"]
        xor_fold_acc [of "g x"] xor_norm)
qed simp

definition parity_of :: "bool list \<Rightarrow> bool" where
  "parity_of bs = odd (length (filter id bs))"

lemma parity_of_simps [simp]:
  "parity_of [] = False"
  "parity_of (b # bs) = (b \<noteq> parity_of bs)"
  by (cases b; simp add: parity_of_def)+

lemma parity_of_append [simp]: "parity_of (xs @ ys) = (parity_of xs \<noteq> parity_of ys)"
  by (induction xs) auto

lemma xor_fold_sel:
  "xor_fold 0 (map (\<lambda>i. sel d (p i)) xs) = sel d (parity_of (map p xs))"
proof (induction xs)
  case (Cons x xs)
  then show ?case by (simp add: xor_fold_acc [of "sel d (p x)"])
qed simp

section \<open>Blocks: lanes, bytes and the SSE operations\<close>

definition lo64 :: "block \<Rightarrow> u64" where
  "lo64 b = ucast b"

definition hi64 :: "block \<Rightarrow> u64" where
  "hi64 b = ucast (drop_bit 64 b)"

text \<open>\<open>_mm_set_epi64x (hi, lo)\<close>\<close>

definition set_epi64x :: "u64 \<Rightarrow> u64 \<Rightarrow> block" where
  "set_epi64x hi lo = push_bit 64 (ucast hi) OR ucast lo"

lemma bit_lo64 [block_bits]: "bit (lo64 b) n \<longleftrightarrow> n < 64 \<and> bit b n"
  by (auto simp: lo64_def bit_simps)

lemma bit_hi64 [block_bits]: "bit (hi64 b) n \<longleftrightarrow> n < 64 \<and> bit b (n + 64)"
  by (auto simp: hi64_def bit_simps add.commute)

lemma bit_set_epi64x [block_bits]:
  "bit (set_epi64x h l) n \<longleftrightarrow> (if n < 64 then bit l n else n < 128 \<and> bit h (n - 64))"
  by (auto simp: set_epi64x_def bit_simps dest: bit_imp_le_length)

lemma lanes_id [simp]: "set_epi64x (hi64 b) (lo64 b) = b"
  by (rule bit_word_eqI) (auto simp: block_bits)

lemma lo64_set [simp]: "lo64 (set_epi64x h l) = l"
  by (rule bit_word_eqI) (auto simp: block_bits)

lemma hi64_set [simp]: "hi64 (set_epi64x h l) = h"
  by (rule bit_word_eqI) (auto simp: block_bits)

lemma block_eq_lanes: "a = b \<longleftrightarrow> lo64 a = lo64 b \<and> hi64 a = hi64 b"
  by (metis lanes_id)

text \<open>\<open>_mm_set1_epi64x\<close>, \<open>_mm_slli_epi64\<close> and \<open>_mm_add_epi64\<close> work per lane.\<close>

definition set1_epi64x :: "u64 \<Rightarrow> block" where
  "set1_epi64x x = set_epi64x x x"

definition slli_epi64 :: "block \<Rightarrow> nat \<Rightarrow> block" where
  "slli_epi64 b n = set_epi64x (push_bit n (hi64 b)) (push_bit n (lo64 b))"

definition add_epi64 :: "block \<Rightarrow> block \<Rightarrow> block" where
  "add_epi64 a b = set_epi64x (hi64 a + hi64 b) (lo64 a + lo64 b)"

definition ZeroBlock :: block where
  "ZeroBlock = set_epi64x 0 0"

definition OneBlock :: block where
  "OneBlock = set_epi64x 0 1"

lemma ZeroBlock_0 [simp]: "ZeroBlock = 0"
  by (simp add: ZeroBlock_def set_epi64x_def)

lemma lanes_add [simp]:
  "lo64 (add_epi64 a b) = lo64 a + lo64 b"
  "hi64 (add_epi64 a b) = hi64 a + hi64 b"
  by (simp_all add: add_epi64_def)

lemma lanes_OneBlock [simp]: "lo64 OneBlock = 1" "hi64 OneBlock = 0"
  by (simp_all add: OneBlock_def)

lemma lanes_0 [simp]: "lo64 0 = 0" "hi64 0 = 0"
  by (simp_all add: lo64_def hi64_def)

text \<open>Bytes of a block in memory order (little endian), as \<open>ByteArray\<close> sees them.\<close>

definition block_byte :: "block \<Rightarrow> nat \<Rightarrow> u8" where
  "block_byte b i = ucast (drop_bit (8 * i) b)"

definition ByteArray :: "block \<Rightarrow> u8 list" where
  "ByteArray b = map (block_byte b) [0..<16]"

fun of_bytes :: "u8 list \<Rightarrow> 'a::len word" where
  "of_bytes [] = 0"
| "of_bytes (x # xs) = ucast x OR push_bit 8 (of_bytes xs)"

definition block_of_bytes :: "u8 list \<Rightarrow> block" where
  "block_of_bytes bs = of_bytes (take 16 bs)"

lemma length_ByteArray [simp]: "length (ByteArray b) = 16"
  by (simp add: ByteArray_def)

lemma bit_block_byte [block_bits]: "bit (block_byte b i) j \<longleftrightarrow> j < 8 \<and> bit b (8 * i + j)"
  by (auto simp: block_byte_def bit_simps)

lemma bit_of_bytes:
  "bit (of_bytes bs :: 'a::len word) n \<longleftrightarrow>
     n < LENGTH('a) \<and> n div 8 < length bs \<and> bit (bs ! (n div 8)) (n mod 8)"
proof (induction bs arbitrary: n)
  case (Cons x xs)
  show ?case
  proof (cases "n < 8")
    case True
    then show ?thesis by (auto simp: bit_simps)
  next
    case False
    then have d: "n div 8 = Suc ((n - 8) div 8)" and m: "n mod 8 = (n - 8) mod 8"
      by (simp_all add: div_if mod_if)
    from False have x: "\<not> bit x n" by (auto dest: bit_imp_le_length)
    show ?thesis
      using False x by (auto simp: bit_simps Cons.IH d m)
  qed
qed simp

lemma ByteArray_nth [simp]: "i < 16 \<Longrightarrow> ByteArray b ! i = block_byte b i"
  by (simp add: ByteArray_def)

lemma block_of_ByteArray [simp]: "block_of_bytes (ByteArray b) = b"
proof (rule bit_word_eqI)
  fix n :: nat
  assume "n < LENGTH(128)"
  then have n: "n < 128" by simp
  have d: "n div 8 < 16" using n by (simp add: div_less_iff_less_mult)
  have "8 * (n div 8) + n mod 8 = n" by simp
  then show "bit (block_of_bytes (ByteArray b)) n \<longleftrightarrow> bit b n"
    using n d by (simp add: block_of_bytes_def bit_of_bytes block_bits)
qed

lemma ByteArray_of_bytes: "length bs = 16 \<Longrightarrow> ByteArray (block_of_bytes bs) = bs"
proof (rule nth_equalityI)
  fix i
  assume l: "length bs = 16" and "i < length (ByteArray (block_of_bytes bs))"
  then have i: "i < 16" by simp
  show "ByteArray (block_of_bytes bs) ! i = bs ! i"
    by (rule bit_word_eqI) (use l i in \<open>simp add: block_bits block_of_bytes_def bit_of_bytes\<close>)
qed simp

lemma ByteArray_inject [simp]: "ByteArray a = ByteArray b \<longleftrightarrow> a = b"
  by (metis block_of_ByteArray)

text \<open>\<open>PermuteBit\<close> of \<open>Circuit/Wire.h\<close>: the low bit of the first byte.\<close>

definition PermuteBit :: "block \<Rightarrow> bool" where
  "PermuteBit b = bit (ByteArray b ! 0) 0"

lemma PermuteBit_bit: "PermuteBit b = bit b 0"
  by (simp add: PermuteBit_def block_bits)

lemma PermuteBit_xor [simp]: "PermuteBit (a XOR b) = (PermuteBit a \<noteq> PermuteBit b)"
  by (auto simp: PermuteBit_bit bit_simps)

lemma PermuteBit_0 [simp]: "\<not> PermuteBit 0"
  by (simp add: PermuteBit_bit)

lemma PermuteBit_sel: "PermuteBit d \<Longrightarrow> PermuteBit (sel d b) = b"
  by (cases b) (simp_all add: PermuteBit_bit)

lemma PermuteBit_or_1 [simp]: "PermuteBit (a OR 1)"
  by (simp add: PermuteBit_bit bit_simps)

section \<open>Lists\<close>

text \<open>\<open>std::vector::resize\<close>: truncate, or pad with value-initialised elements.\<close>

definition vec_resize :: "'a \<Rightarrow> nat \<Rightarrow> 'a list \<Rightarrow> 'a list" where
  "vec_resize z n xs = take n xs @ replicate (n - length xs) z"

lemma length_vec_resize [simp]: "length (vec_resize z n xs) = n"
  by (auto simp: vec_resize_def)

lemma nth_vec_resize: "i < n \<Longrightarrow> vec_resize z n xs ! i = (if i < length xs then xs ! i else z)"
  by (auto simp: vec_resize_def nth_append)

text \<open>\<open>memcpy (d + at, s, |s|)\<close> into an array.\<close>

definition blit :: "'a list \<Rightarrow> nat \<Rightarrow> 'a list \<Rightarrow> 'a list" where
  "blit d at s = take at d @ s @ drop (at + length s) d"

lemma length_blit [simp]: "at + length s \<le> length d \<Longrightarrow> length (blit d at s) = length d"
  by (auto simp: blit_def)

lemma nth_blit:
  "at + length s \<le> length d \<Longrightarrow> i < length d \<Longrightarrow>
   blit d at s ! i = (if at \<le> i \<and> i < at + length s then s ! (i - at) else d ! i)"
  by (auto simp: blit_def nth_append min_def)

lemma take_blit_prefix: "at + length s \<le> length d \<Longrightarrow> take (at + length s) (blit d at s) = take at d @ s"
  by (simp add: blit_def)

lemma fold_invariant_list:
  assumes "P s" and "\<And>x s. x \<in> set xs \<Longrightarrow> P s \<Longrightarrow> P (f x s)"
  shows "P (fold f xs s)"
  using assms by (induction xs arbitrary: s) auto

end
