(* ===== verification/BDX_BitVector.thy ===== *)
theory BDX_BitVector
  imports BDX_Prelude "HOL-Library.Signed_Division"
begin

text \<open>
  \<open>Common/BitVector.{h,cpp}\<close>: a growable vector of bits over a byte buffer.
  \<open>mAllocBytes\<close> is the length of \<open>bv_data\<close>. Bits are numbered from the low bit of
  byte 0. Assertions are not part of the release build; indices are in range where the
  lemmas need it.
\<close>

record bitvec =
  bv_data :: "u8 list"
  bv_bits :: nat

section \<open>Representation\<close>

definition bv_empty :: bitvec where
  "bv_empty = \<lparr>bv_data = [], bv_bits = 0\<rparr>"

definition bv_sizeBytes :: "bitvec \<Rightarrow> nat" where
  "bv_sizeBytes v = (bv_bits v + 7) div 8"

text \<open>\<open>BitReference\<close>: a byte, the mask \<open>1 << shift\<close> and the shift.\<close>

definition bitref_get :: "u8 \<Rightarrow> nat \<Rightarrow> u8" where
  "bitref_get byte shift = drop_bit shift (byte AND push_bit shift 1)"

definition bitref_set :: "u8 \<Rightarrow> nat \<Rightarrow> bool \<Rightarrow> u8" where
  "bitref_set byte shift val =
     (if val then byte OR push_bit shift 1 else byte AND NOT (push_bit shift 1))"

text \<open>\<open>v[i]\<close> read as a bit, and the assignment \<open>v[i] = val\<close>.\<close>

definition bv_get :: "bitvec \<Rightarrow> nat \<Rightarrow> bool" where
  "bv_get v i = (bitref_get (bv_data v ! (i div 8)) (i mod 8) \<noteq> 0)"

definition bv_put :: "bitvec \<Rightarrow> nat \<Rightarrow> bool \<Rightarrow> bitvec" where
  "bv_put v i val =
     v\<lparr>bv_data := (bv_data v)[i div 8 := bitref_set (bv_data v ! (i div 8)) (i mod 8) val]\<rparr>"

section \<open>Allocation\<close>

text \<open>
  \<open>DIV_CEIL((int)newSize, 8)\<close> stored in a \<open>size_t\<close>: the size is cut to a signed 32-bit
  value, divided rounding to zero, and converted back to 64 bits.
\<close>

definition div_ceil_int8 :: "nat \<Rightarrow> nat" where
  "div_ceil_int8 n =
     nat (((sint (word_of_nat n :: u32) + 8 - 1) sdiv 8) mod 2 ^ 64)"

definition bv_resize :: "bitvec \<Rightarrow> nat \<Rightarrow> bitvec" where
  "bv_resize v newSize =
     (let new_nbytes = div_ceil_int8 newSize in
      if length (bv_data v) < new_nbytes
      then \<lparr>bv_data = take (bv_sizeBytes v) (bv_data v)
                      @ replicate (new_nbytes - bv_sizeBytes v) 0,
            bv_bits = newSize\<rparr>
      else v\<lparr>bv_bits := newSize\<rparr>)"

definition bv_reserve :: "bitvec \<Rightarrow> nat \<Rightarrow> bitvec" where
  "bv_reserve v bits = (let curBits = bv_bits v in (bv_resize v bits)\<lparr>bv_bits := curBits\<rparr>)"

definition bv_reset :: "bitvec \<Rightarrow> nat \<Rightarrow> bitvec" where
  "bv_reset v new_nbits =
     (let newSize = (new_nbits + 7) div 8 in
      if newSize > length (bv_data v)
      then \<lparr>bv_data = replicate newSize 0, bv_bits = new_nbits\<rparr>
      else v\<lparr>bv_data := blit (bv_data v) 0 (replicate newSize 0), bv_bits := new_nbits\<rparr>)"

section \<open>Copying and appending\<close>

definition bv_append :: "bitvec \<Rightarrow> u8 list \<Rightarrow> nat \<Rightarrow> nat \<Rightarrow> bitvec" where
  "bv_append v d len off =
     (let bitIdx = bv_bits v;
          destOffset = bv_bits v mod 8; destIdx = bv_bits v div 8;
          srcOffset = off mod 8; srcIdx = off div 8;
          byteLength = (len + 7) div 8;
          w = bv_resize v (bv_bits v + len)
      in if srcOffset \<noteq> 0 \<or> destOffset \<noteq> 0
         then fold (\<lambda>i u. bv_put u (bitIdx + i)
                           (d ! ((off + i) div 8) AND push_bit ((off + i) mod 8) 1 \<noteq> 0))
                [0..<len] w
         else w\<lparr>bv_data := blit (bv_data w) destIdx (take byteLength (drop srcIdx d))\<rparr>)"

definition bv_of_bytes :: "u8 list \<Rightarrow> nat \<Rightarrow> bitvec" where
  "bv_of_bytes d len = bv_append bv_empty d len 0"

definition bv_copy :: "bitvec \<Rightarrow> bitvec \<Rightarrow> nat \<Rightarrow> nat \<Rightarrow> bitvec" where
  "bv_copy v src idx len = bv_append (bv_resize v 0) (bv_data src) len idx"

definition bv_assign :: "bitvec \<Rightarrow> bitvec \<Rightarrow> bitvec" where
  "bv_assign v k =
     (let w = bv_reset v (bv_bits k)
      in w\<lparr>bv_data := blit (bv_data w) 0 (take (bv_sizeBytes w) (bv_data k))\<rparr>)"

definition bv_assign_block :: "bitvec \<Rightarrow> block \<Rightarrow> bitvec" where
  "bv_assign_block v b =
     (let w = bv_reset v 128
      in w\<lparr>bv_data := blit (bv_data w) 0 (take (bv_sizeBytes w) (ByteArray b))\<rparr>)"

definition bv_ToBlock :: "bitvec \<Rightarrow> block" where
  "bv_ToBlock v = block_of_bytes (bv_data v)"

definition bv_assign_zero :: "bitvec \<Rightarrow> bitvec" where
  "bv_assign_zero v = v\<lparr>bv_data := blit (bv_data v) 0 (replicate (bv_sizeBytes v) 0)\<rparr>"

text \<open>\<open>randomize\<close> overwrites the buffer with bytes of the generator.\<close>

definition bv_randomize :: "bitvec \<Rightarrow> u8 list \<Rightarrow> bitvec" where
  "bv_randomize v rnd = v\<lparr>bv_data := blit (bv_data v) 0 (take (bv_sizeBytes v) rnd)\<rparr>"

definition bv_set_byte :: "bitvec \<Rightarrow> nat \<Rightarrow> u8 \<Rightarrow> bitvec" where
  "bv_set_byte v i b = v\<lparr>bv_data := (bv_data v)[i := b]\<rparr>"

definition bv_set_u64 :: "bitvec \<Rightarrow> nat \<Rightarrow> u64 \<Rightarrow> bitvec" where
  "bv_set_u64 v i w =
     v\<lparr>bv_data := blit (bv_data v) (8 * i) (map (\<lambda>k. ucast (drop_bit (8 * k) w)) [0..<8])\<rparr>"

definition bv_get_u64 :: "bitvec \<Rightarrow> nat \<Rightarrow> u64" where
  "bv_get_u64 v i = of_bytes (take 8 (drop (i * 8) (bv_data v)))"

section \<open>Bitwise operators, comparison and parity\<close>

definition bv_xor_assign :: "bitvec \<Rightarrow> bitvec \<Rightarrow> bitvec" where
  "bv_xor_assign v a =
     v\<lparr>bv_data := fold (\<lambda>i d. d[i := d ! i XOR bv_data a ! i]) [0..<bv_sizeBytes v] (bv_data v)\<rparr>"

definition bv_and_assign :: "bitvec \<Rightarrow> bitvec \<Rightarrow> bitvec" where
  "bv_and_assign v a =
     v\<lparr>bv_data := fold (\<lambda>i d. d[i := d ! i AND bv_data a ! i]) [0..<bv_sizeBytes v] (bv_data v)\<rparr>"

definition bv_xor :: "bitvec \<Rightarrow> bitvec \<Rightarrow> bitvec" where
  "bv_xor v b = bv_xor_assign (bv_assign bv_empty v) b"

definition bv_equals :: "bitvec \<Rightarrow> bitvec \<Rightarrow> bool" where
  "bv_equals v rhs =
     (let lastByte = bv_sizeBytes v - 1;
          rem = bv_bits v mod 8;
          mask = drop_bit (8 - rem) (255 :: u8)
      in (\<forall>i\<in>set [0..<lastByte]. bv_data v ! i = bv_data rhs ! i)
         \<and> bv_data v ! lastByte AND mask = bv_data rhs ! lastByte AND mask)"

definition byte_parity :: "u8 \<Rightarrow> nat \<Rightarrow> bool" where
  "byte_parity b k = fold (\<lambda>j acc. acc \<noteq> (drop_bit j b AND 1 \<noteq> 0)) [0..<k] False"

definition bv_parity :: "bitvec \<Rightarrow> bool" where
  "bv_parity v =
     (let lastByte = bv_bits v div 8;
          lastBits = bv_bits v - lastByte * 8;
          whole = fold (\<lambda>i acc. acc \<noteq> byte_parity (bv_data v ! i) 8) [0..<lastByte] False
      in whole \<noteq> byte_parity (bv_data v ! lastByte) lastBits)"

section \<open>Abstraction: the list of bits\<close>

definition bv_list :: "bitvec \<Rightarrow> bool list" where
  "bv_list v = map (bv_get v) [0..<bv_bits v]"

definition bv_wf :: "bitvec \<Rightarrow> bool" where
  "bv_wf v \<longleftrightarrow> bv_sizeBytes v \<le> length (bv_data v)"

text \<open>Sizes for which the 32-bit rounding of \<open>resize\<close> is exact.\<close>

definition bv_fits :: "nat \<Rightarrow> bool" where
  "bv_fits n \<longleftrightarrow> n < 2 ^ 31 - 8"

lemma length_bv_list [simp]: "length (bv_list v) = bv_bits v"
  by (simp add: bv_list_def)

lemma nth_bv_list [simp]: "i < bv_bits v \<Longrightarrow> bv_list v ! i = bv_get v i"
  by (simp add: bv_list_def)

lemma bv_listI: "bv_bits v = length xs \<Longrightarrow> (\<And>i. i < length xs \<Longrightarrow> bv_get v i = xs ! i) \<Longrightarrow> bv_list v = xs"
  by (auto intro: nth_equalityI)

lemma bitref_get_bit: "s < 8 \<Longrightarrow> bitref_get b s \<noteq> 0 \<longleftrightarrow> bit b s"
  unfolding bit_eq_iff [of "bitref_get b s"]
  by (auto simp: bitref_get_def bit_simps)

lemma bit_bitref_set: "s < 8 \<Longrightarrow> bit (bitref_set b s x) n \<longleftrightarrow> (if n = s then x else bit b n)"
  by (auto simp: bitref_set_def bit_simps bit_1_iff dest: bit_imp_le_length)

lemma bv_get_bit: "bv_get v i = bit (bv_data v ! (i div 8)) (i mod 8)"
  by (simp add: bv_get_def bitref_get_bit)

lemma and_mask_bit: "s < 8 \<Longrightarrow> (b :: u8) AND push_bit s 1 \<noteq> 0 \<longleftrightarrow> bit b s"
  unfolding bit_eq_iff [of "b AND push_bit s 1"]
  by (auto simp: bit_simps)

lemma byte_idx_less: "i < n \<Longrightarrow> i div 8 < (n + 7) div (8::nat)"
  by (simp add: div_less_iff_less_mult)

lemma byte_index_in_range: "bv_wf v \<Longrightarrow> i < bv_bits v \<Longrightarrow> i div 8 < length (bv_data v)"
  using byte_idx_less [of i "bv_bits v"] by (auto simp: bv_wf_def bv_sizeBytes_def)

lemma div_ceil_int8_fits: "bv_fits n \<Longrightarrow> div_ceil_int8 n = (n + 7) div 8"
proof -
  assume f: "bv_fits n"
  then have n: "n < 2 ^ 31 - 8" by (simp add: bv_fits_def)
  have "sint (word_of_nat n :: u32) = int n"
    using n by (simp add: signed_of_nat signed_take_bit_int_eq_self)
  moreover have "(int n + 8 - 1) sdiv 8 = (int n + 7) div 8"
    by (simp add: signed_divide_int_def)
  moreover have "((int n + 7) div 8) mod 2 ^ 64 = (int n + 7) div 8"
    using n by simp
  ultimately show ?thesis
    by (simp add: div_ceil_int8_def nat_div_distrib)
qed

lemma bv_fits_mono: "bv_fits n \<Longrightarrow> m \<le> n \<Longrightarrow> bv_fits m"
  by (simp add: bv_fits_def)

section \<open>The bit-array interface\<close>

text \<open>
  What the clients (circuit evaluation, the k-probe matrix, translation tables) need of a bit
  container: reading a bit after an assignment. \<open>BitVector\<close> and \<open>std::vector<bool>\<close> both
  provide it; loops that assign a range of bits are analysed once.
\<close>

locale bit_array =
  fixes test :: "'v \<Rightarrow> nat \<Rightarrow> bool"
    and put :: "'v \<Rightarrow> nat \<Rightarrow> bool \<Rightarrow> 'v"
    and size_of :: "'v \<Rightarrow> nat"
    and ok :: "'v \<Rightarrow> bool"
  assumes size_put: "size_of (put v i x) = size_of v"
    and ok_put: "ok v \<Longrightarrow> ok (put v i x)"
    and test_put: "ok v \<Longrightarrow> i < size_of v \<Longrightarrow> test (put v i x) j = (if j = i then x else test v j)"
begin

lemma fill_size: "size_of (fold (\<lambda>i u. put u (a + i) (f i)) is v) = size_of v"
  by (induction "is" arbitrary: v) (simp_all add: size_put)

lemma fill_ok: "ok v \<Longrightarrow> ok (fold (\<lambda>i u. put u (a + i) (f i)) is v)"
  by (induction "is" arbitrary: v) (simp_all add: ok_put)

lemma fill_test:
  assumes "ok v" and "a + n \<le> size_of v"
  shows "test (fold (\<lambda>i u. put u (a + i) (f i)) [0..<n] v) j
         = (if a \<le> j \<and> j < a + n then f (j - a) else test v j)"
  using assms
proof (induction n)
  case (Suc n)
  have "ok (fold (\<lambda>i u. put u (a + i) (f i)) [0..<n] v)"
    using Suc.prems by (simp add: fill_ok)
  with Suc show ?case by (auto simp: test_put fill_size)
qed auto

lemma fill_test0:
  assumes "ok v" and "n \<le> size_of v"
  shows "test (fold (\<lambda>i u. put u i (f i)) [0..<n] v) j = (if j < n then f j else test v j)"
  using fill_test [of v 0 n f j] assms by simp

lemma fill_size0: "size_of (fold (\<lambda>i u. put u i (f i)) is v) = size_of v"
  using fill_size [of 0 f "is" v] by simp

lemma fill_ok0: "ok v \<Longrightarrow> ok (fold (\<lambda>i u. put u i (f i)) is v)"
  using fill_ok [of v 0 f "is"] by simp

end

lemma bv_bits_put [simp]: "bv_bits (bv_put v i x) = bv_bits v"
  by (simp add: bv_put_def)

lemma bv_wf_put: "bv_wf v \<Longrightarrow> bv_wf (bv_put v i x)"
  by (simp add: bv_wf_def bv_put_def bv_sizeBytes_def)

lemma bv_get_put:
  assumes "bv_wf v" and "i < bv_bits v"
  shows "bv_get (bv_put v i x) j = (if j = i then x else bv_get v j)"
proof -
  have d: "i div 8 < length (bv_data v)" using assms by (rule byte_index_in_range)
  show ?thesis
  proof (cases "j div 8 = i div 8")
    case True
    then have "j mod 8 = i mod 8 \<longleftrightarrow> j = i" by (metis div_mult_mod_eq)
    with True d show ?thesis
      by (simp add: bv_get_bit bv_put_def bit_bitref_set)
  next
    case False
    then have "j \<noteq> i" by auto
    with False show ?thesis by (simp add: bv_get_bit bv_put_def)
  qed
qed

interpretation bva: bit_array bv_get bv_put bv_bits bv_wf
  by unfold_locales (simp_all add: bv_wf_put bv_get_put)

interpretation vba: bit_array "\<lambda>xs i. (xs :: bool list) ! i" "\<lambda>xs i x. xs[i := x]" length "\<lambda>_. True"
  by unfold_locales simp_all

section \<open>Allocation keeps or clears the bits\<close>

lemma bv_sizeBytes_mono: "n \<le> m \<Longrightarrow> (n + 7) div (8::nat) \<le> (m + 7) div 8"
  by (simp add: div_le_mono)

lemma bv_bits_resize [simp]: "bv_bits (bv_resize v n) = n"
  by (simp add: bv_resize_def Let_def)

lemma bv_wf_resize: "bv_wf v \<Longrightarrow> bv_fits n \<Longrightarrow> bv_wf (bv_resize v n)"
  by (auto simp: bv_wf_def bv_resize_def Let_def div_ceil_int8_fits bv_sizeBytes_def)

lemma bv_get_resize:
  assumes "bv_wf v" and "bv_fits n" and "i < bv_bits v"
  shows "bv_get (bv_resize v n) i = bv_get v i"
proof -
  have "i div 8 < bv_sizeBytes v"
    using assms byte_idx_less by (simp add: bv_sizeBytes_def)
  then show ?thesis
    using assms by (auto simp: bv_resize_def Let_def bv_get_bit nth_append bv_wf_def)
qed

lemma bv_bits_reset [simp]: "bv_bits (bv_reset v n) = n"
  by (simp add: bv_reset_def Let_def)

lemma bv_wf_reset: "bv_wf (bv_reset v n)"
  by (auto simp: bv_wf_def bv_reset_def Let_def bv_sizeBytes_def)

lemma bv_sizeBytes_reset [simp]: "bv_sizeBytes (bv_reset v n) = (n + 7) div 8"
  by (simp add: bv_sizeBytes_def)

lemma bv_data_reset: "i < (n + 7) div 8 \<Longrightarrow> bv_data (bv_reset v n) ! i = 0"
  by (auto simp: bv_reset_def Let_def nth_blit)

lemma bv_get_reset: "i < n \<Longrightarrow> \<not> bv_get (bv_reset v n) i"
  by (simp add: bv_get_bit bv_data_reset byte_idx_less)

lemma bv_list_reset: "bv_list (bv_reset v n) = replicate n False"
  by (rule bv_listI) (simp_all add: bv_get_reset)

lemma bv_list_resize_shrink:
  "bv_wf v \<Longrightarrow> bv_fits n \<Longrightarrow> n \<le> bv_bits v \<Longrightarrow> bv_list (bv_resize v n) = take n (bv_list v)"
  by (rule bv_listI) (simp_all add: bv_get_resize)

lemma bv_wf_empty [simp]: "bv_wf bv_empty"
  by (simp add: bv_wf_def bv_sizeBytes_def bv_empty_def)

lemma bv_bits_empty [simp]: "bv_bits bv_empty = 0"
  by (simp add: bv_empty_def)

section \<open>Appending and copying bits\<close>

lemma bv_append_bits [simp]: "bv_bits (bv_append v d len off) = bv_bits v + len"
  by (simp add: bv_append_def Let_def bva.fill_size)

lemma bv_get_append_shifted:
  assumes "bv_wf v" and "bv_fits (bv_bits v + len)"
    and "off mod 8 \<noteq> 0 \<or> bv_bits v mod 8 \<noteq> 0" and "j < bv_bits v + len"
  shows "bv_wf (bv_append v d len off) \<and>
    bv_get (bv_append v d len off) j =
     (if j < bv_bits v then bv_get v j
      else bit (d ! ((off + (j - bv_bits v)) div 8)) ((off + (j - bv_bits v)) mod 8))"
  using assms
  by (auto simp: bv_append_def Let_def bva.fill_ok bva.fill_test bv_wf_resize bv_get_resize
      and_exp_eq_0_iff_not_bit)

lemma bv_get_append_aligned:
  assumes wf: "bv_wf v" and fits: "bv_fits (bv_bits v + len)"
    and al: "off mod 8 = 0" "bv_bits v mod 8 = 0" and j: "j < bv_bits v + len"
    and src: "(off + len + 7) div 8 \<le> length d"
  shows "bv_wf (bv_append v d len off) \<and>
    bv_get (bv_append v d len off) j =
     (if j < bv_bits v then bv_get v j
      else bit (d ! ((off + (j - bv_bits v)) div 8)) ((off + (j - bv_bits v)) mod 8))"
proof -
  let ?n = "bv_bits v" and ?w = "bv_resize v (bv_bits v + len)"
  let ?s = "take ((len + 7) div 8) (drop (off div 8) d)"
  obtain a b where ab: "?n = 8 * a" "off = 8 * b" using al by (metis mod_0_imp_dvd dvdE)
  have wfw: "bv_wf ?w" using wf fits by (rule bv_wf_resize)
  have ls: "length ?s = (len + 7) div 8" using src ab by simp
  have room: "a + (len + 7) div 8 \<le> length (bv_data ?w)"
    using wfw ab by (simp add: bv_wf_def bv_sizeBytes_def)
  have ap: "bv_append v d len off = ?w\<lparr>bv_data := blit (bv_data ?w) a ?s\<rparr>"
    using al ab by (simp add: bv_append_def Let_def)
  have wfa: "bv_wf (bv_append v d len off)"
    using wfw room ls by (simp add: ap bv_wf_def bv_sizeBytes_def)
  show ?thesis
  proof (cases "j < ?n")
    case True
    then have "j div 8 < a" using ab by (simp add: div_less_iff_less_mult)
    moreover have "bv_get ?w j = bv_get v j" using True wf fits by (simp add: bv_get_resize)
    ultimately show ?thesis
      using True wfa room ls by (simp add: ap bv_get_bit nth_blit)
  next
    case False
    then obtain k where k: "j = ?n + k" "k < len" using j less_imp_add_positive
      by (metis add_less_cancel_left le_iff_add not_less)
    have jd: "j div 8 = a + k div 8" "j mod 8 = k mod 8" using k ab by simp_all
    have kd: "k div 8 < (len + 7) div 8" using k(2) by (rule byte_idx_less)
    have o: "(off + k) div 8 = b + k div 8" "(off + k) mod 8 = k mod 8" using ab by simp_all
    have b8: "off div 8 = b" using ab by simp
    have "b + (len + 7) div 8 \<le> length d" using src ab by simp
    then have "bv_data (bv_append v d len off) ! (a + k div 8) = d ! (b + k div 8)"
      unfolding ap using room kd ls b8 by (simp add: nth_blit)
    then show ?thesis
      using False wfa jd o k(1) by (simp add: bv_get_bit)
  qed
qed

lemma bv_get_append:
  assumes "bv_wf v" and "bv_fits (bv_bits v + len)" and "(off + len + 7) div 8 \<le> length d"
    and "j < bv_bits v + len"
  shows "bv_get (bv_append v d len off) j =
     (if j < bv_bits v then bv_get v j
      else bit (d ! ((off + (j - bv_bits v)) div 8)) ((off + (j - bv_bits v)) mod 8))"
proof (cases "off mod 8 = 0 \<and> bv_bits v mod 8 = 0")
  case True
  then show ?thesis using bv_get_append_aligned [OF assms(1,2) _ _ assms(4,3)] by simp
next
  case False
  then show ?thesis using bv_get_append_shifted [OF assms(1,2) _ assms(4)] by simp
qed

lemma bv_wf_append:
  assumes "bv_wf v" and "bv_fits (bv_bits v + len)" and "(off + len + 7) div 8 \<le> length d"
  shows "bv_wf (bv_append v d len off)"
proof (cases "len = 0 \<and> bv_bits v = 0")
  case True
  then show ?thesis by (simp add: bv_wf_def bv_sizeBytes_def)
next
  case False
  then have j: "0 < bv_bits v + len" by auto
  show ?thesis
    using bv_get_append_aligned [OF assms(1,2) _ _ j assms(3)]
      bv_get_append_shifted [OF assms(1,2) _ j, of off d]
    by argo
qed

text \<open>The bits stored in a raw byte buffer.\<close>

definition buf_bits :: "u8 list \<Rightarrow> nat \<Rightarrow> nat \<Rightarrow> bool list" where
  "buf_bits d off len = map (\<lambda>i. bit (d ! (i div 8)) (i mod 8)) [off..<off + len]"

lemma length_buf_bits [simp]: "length (buf_bits d off len) = len"
  by (simp add: buf_bits_def)

lemma nth_buf_bits: "i < len \<Longrightarrow> buf_bits d off len ! i = bit (d ! ((off + i) div 8)) ((off + i) mod 8)"
  by (simp add: buf_bits_def)

lemma bv_list_append:
  assumes "bv_wf v" and "bv_fits (bv_bits v + len)" and "(off + len + 7) div 8 \<le> length d"
  shows "bv_list (bv_append v d len off) = bv_list v @ buf_bits d off len"
  by (rule bv_listI) (use assms in \<open>simp_all add: bv_get_append nth_append nth_buf_bits\<close>)

lemma buf_bits_bitvec:
  "off + len \<le> bv_bits src \<Longrightarrow> buf_bits (bv_data src) off len = take len (drop off (bv_list src))"
  by (rule nth_equalityI) (simp_all add: nth_buf_bits bv_get_bit)

lemma buf_bits_ByteArray: "n \<le> 128 \<Longrightarrow> buf_bits (ByteArray b) 0 n = map (bit b) [0..<n]"
proof (rule nth_equalityI)
  fix i
  assume n: "n \<le> 128" and "i < length (buf_bits (ByteArray b) 0 n)"
  then have i: "i < n" "i div 8 < 16" by (simp_all add: div_less_iff_less_mult)
  then show "buf_bits (ByteArray b) 0 n ! i = map (bit b) [0..<n] ! i"
    by (simp add: nth_buf_bits block_bits)
qed simp

lemma bv_src_bytes:
  "bv_wf src \<Longrightarrow> off + len \<le> bv_bits src \<Longrightarrow> (off + len + 7) div 8 \<le> length (bv_data src)"
  using bv_sizeBytes_mono [of "off + len" "bv_bits src"]
  by (simp add: bv_wf_def bv_sizeBytes_def)

lemma bv_copy_list:
  assumes "bv_wf v" and "bv_wf src" and "off + len \<le> bv_bits src" and "bv_fits len"
  shows "bv_list (bv_copy v src off len) = take len (drop off (bv_list src))"
    and "bv_wf (bv_copy v src off len)"
proof -
  have w: "bv_wf (bv_resize v 0)" using assms by (simp add: bv_wf_resize bv_fits_def)
  have b: "(off + len + 7) div 8 \<le> length (bv_data src)"
    using assms by (simp add: bv_src_bytes)
  have z: "bv_list (bv_resize v 0) = []" by (simp add: bv_list_def)
  show "bv_list (bv_copy v src off len) = take len (drop off (bv_list src))"
    using bv_list_append [of "bv_resize v 0" len off "bv_data src"] w b assms z
    by (simp add: bv_copy_def buf_bits_bitvec)
  show "bv_wf (bv_copy v src off len)"
    using bv_wf_append [of "bv_resize v 0" len off "bv_data src"] w b assms by (simp add: bv_copy_def)
qed

lemma bv_bits_copy [simp]: "bv_bits (bv_copy v src off len) = len"
  by (simp add: bv_copy_def)

lemma bv_of_bytes_block:
  assumes "n \<le> 128"
  shows "bv_list (bv_of_bytes (ByteArray b) n) = map (bit b) [0..<n]"
    and "bv_wf (bv_of_bytes (ByteArray b) n)"
proof -
  have f: "bv_fits n" using assms by (simp add: bv_fits_def)
  have l: "(n + 7) div 8 \<le> 16" using bv_sizeBytes_mono [of n 128] assms by simp
  have e: "bv_list bv_empty = []" by (simp add: bv_list_def)
  show "bv_list (bv_of_bytes (ByteArray b) n) = map (bit b) [0..<n]"
    using bv_list_append [of bv_empty n 0 "ByteArray b"] f l e assms
    by (simp add: bv_of_bytes_def buf_bits_ByteArray)
  show "bv_wf (bv_of_bytes (ByteArray b) n)"
    using bv_wf_append [of bv_empty n 0 "ByteArray b"] f l by (simp add: bv_of_bytes_def)
qed

lemma bv_bits_of_bytes [simp]: "bv_bits (bv_of_bytes d n) = n"
  by (simp add: bv_of_bytes_def)

section \<open>Bitwise operators\<close>

lemma fold_update_length: "length (fold (\<lambda>i d. d[i := g (d ! i) i]) is d) = length d"
  by (induction "is" arbitrary: d) simp_all

lemma fold_update_nth:
  "m \<le> length d \<Longrightarrow>
   fold (\<lambda>i d. d[i := g (d ! i) i]) [0..<m] d ! j = (if j < m then g (d ! j) j else d ! j)"
  by (induction m arbitrary: j) (auto simp: nth_list_update fold_update_length)

lemmas fold_xor_bytes =
  fold_update_length [where g = "\<lambda>x i. x XOR bv_data a ! i" for a]
  fold_update_nth [where g = "\<lambda>x i. x XOR bv_data a ! i" for a]

lemmas fold_and_bytes =
  fold_update_length [where g = "\<lambda>x i. x AND bv_data a ! i" for a]
  fold_update_nth [where g = "\<lambda>x i. x AND bv_data a ! i" for a]

lemma bv_xor_assign_simps [simp]:
  "bv_bits (bv_xor_assign v a) = bv_bits v"
  "bv_wf (bv_xor_assign v a) = bv_wf v"
  by (simp_all add: bv_xor_assign_def bv_wf_def bv_sizeBytes_def fold_xor_bytes)

lemma bv_and_assign_simps [simp]:
  "bv_bits (bv_and_assign v a) = bv_bits v"
  "bv_wf (bv_and_assign v a) = bv_wf v"
  by (simp_all add: bv_and_assign_def bv_wf_def bv_sizeBytes_def fold_and_bytes)

lemma bv_get_xor_assign:
  "bv_wf v \<Longrightarrow> i < bv_bits v \<Longrightarrow> bv_get (bv_xor_assign v a) i = (bv_get v i \<noteq> bv_get a i)"
  using byte_idx_less [of i "bv_bits v"]
  by (simp add: bv_xor_assign_def bv_get_bit fold_xor_bytes bv_wf_def bv_sizeBytes_def bit_simps)

lemma bv_get_and_assign:
  "bv_wf v \<Longrightarrow> i < bv_bits v \<Longrightarrow> bv_get (bv_and_assign v a) i = (bv_get v i \<and> bv_get a i)"
  using byte_idx_less [of i "bv_bits v"]
  by (simp add: bv_and_assign_def bv_get_bit fold_and_bytes bv_wf_def bv_sizeBytes_def bit_simps)

lemma bv_list_xor_assign:
  "bv_wf v \<Longrightarrow> bv_bits a = bv_bits v \<Longrightarrow>
   bv_list (bv_xor_assign v a) = map2 (\<noteq>) (bv_list v) (bv_list a)"
  by (rule bv_listI) (simp_all add: bv_get_xor_assign)

lemma bv_list_and_assign:
  "bv_wf v \<Longrightarrow> bv_bits a = bv_bits v \<Longrightarrow>
   bv_list (bv_and_assign v a) = map2 (\<and>) (bv_list v) (bv_list a)"
  by (rule bv_listI) (simp_all add: bv_get_and_assign)

lemma bv_assign_bits [simp]: "bv_bits (bv_assign v k) = bv_bits k"
  by (simp add: bv_assign_def Let_def)

lemma bv_wf_assign: "bv_wf k \<Longrightarrow> bv_wf (bv_assign v k)"
  using bv_wf_reset [of v "bv_bits k"]
  by (auto simp: bv_wf_def bv_assign_def Let_def bv_sizeBytes_def)

lemma bv_get_assign:
  assumes "bv_wf k" and "i < bv_bits k"
  shows "bv_get (bv_assign v k) i = bv_get k i"
proof -
  have "bv_sizeBytes k \<le> length (bv_data (bv_reset v (bv_bits k)))"
    using bv_wf_reset [of v "bv_bits k"] by (simp add: bv_wf_def bv_sizeBytes_def)
  then show ?thesis
    using assms byte_idx_less [of i "bv_bits k"]
    by (simp add: bv_assign_def Let_def bv_get_bit nth_blit bv_wf_def bv_sizeBytes_def)
qed

lemma bv_list_assign: "bv_wf k \<Longrightarrow> bv_list (bv_assign v k) = bv_list k"
  by (rule bv_listI) (simp_all add: bv_get_assign)

lemma bv_wf_xor: "bv_wf v \<Longrightarrow> bv_wf (bv_xor v b)"
  by (simp add: bv_xor_def bv_wf_assign)

lemma bv_list_xor:
  "bv_wf v \<Longrightarrow> bv_bits b = bv_bits v \<Longrightarrow> bv_list (bv_xor v b) = map2 (\<noteq>) (bv_list v) (bv_list b)"
  by (simp add: bv_xor_def bv_list_xor_assign bv_wf_assign bv_list_assign)

section \<open>Parity\<close>

lemma fold_parity: "fold (\<lambda>i acc. acc \<noteq> P i) is a = (a \<noteq> parity_of (map P is))"
  by (induction "is" arbitrary: a) auto

lemma drop_bit_and_1: "drop_bit j (b :: u8) AND 1 \<noteq> 0 \<longleftrightarrow> bit b j"
  by (simp add: and_one_eq mod_2_eq_odd bit_iff_odd_drop_bit)

lemma byte_parity_bits: "byte_parity b k = parity_of (map (bit b) [0..<k])"
  unfolding byte_parity_def fold_parity by (simp add: drop_bit_and_1 cong: map_cong)

lemma upt_bytes: "[0..<8 * Suc m] = [0..<8 * m] @ map (\<lambda>j. 8 * m + j) [0..<8]"
proof -
  have "map (\<lambda>j. 8 * m + j) [0..<8] = [8 * m..<8 * m + 8]"
    by (simp add: map_add_upt add.commute)
  moreover have "[0..<8 * Suc m] = [0..<8 * m] @ [8 * m..<8 * m + 8]"
    using upt_add_eq_append [of 0 "8 * m" 8] by (simp add: add.commute)
  ultimately show ?thesis by simp
qed

lemma parity_of_bytes:
  "parity_of (map (\<lambda>i. parity_of (map (bit (d ! i)) [0..<8])) [0..<m])
   = parity_of (map (\<lambda>i. bit (d ! (i div 8)) (i mod 8)) [0..<8 * m])"
proof (induction m)
  case (Suc m)
  have "map (\<lambda>i. bit (d ! (i div 8)) (i mod 8)) (map (\<lambda>j. 8 * m + j) [0..<8])
        = map (bit (d ! m)) [0..<8]"
    by simp
  with Suc.IH show ?case
    by (simp only: upt_bytes map_append parity_of_append upt_Suc_append zero_le list.map
        parity_of_simps) simp
qed simp

lemma bv_parity_correct: "bv_parity v = parity_of (bv_list v)"
proof -
  define n m where "n = bv_bits v" and "m = n div 8"
  let ?bit = "\<lambda>i. bit (bv_data v ! (i div 8)) (i mod 8)"
  have nm: "n = 8 * m + (n - m * 8)" "n - m * 8 < 8" by (simp_all add: m_def)
  have "[0..<n] = [0..<8 * m] @ [8 * m..<8 * m + (n - m * 8)]"
    using upt_add_eq_append [of 0 "8 * m" "n - m * 8"] nm(1) by simp
  also have "[8 * m..<8 * m + (n - m * 8)] = map (\<lambda>j. 8 * m + j) [0..<n - m * 8]"
    by (simp add: map_add_upt add.commute)
  finally have u: "[0..<n] = [0..<8 * m] @ map (\<lambda>j. 8 * m + j) [0..<n - m * 8]" .
  have "map ?bit (map (\<lambda>j. 8 * m + j) [0..<n - m * 8]) = map (bit (bv_data v ! m)) [0..<n - m * 8]"
    using nm(2) by simp
  then have "parity_of (map ?bit [0..<n])
      = (parity_of (map ?bit [0..<8 * m]) \<noteq> parity_of (map (bit (bv_data v ! m)) [0..<n - m * 8]))"
    by (simp only: u map_append parity_of_append)
  moreover have "bv_parity v
      = (parity_of (map ?bit [0..<8 * m]) \<noteq> parity_of (map (bit (bv_data v ! m)) [0..<n - m * 8]))"
    unfolding bv_parity_def Let_def fold_parity byte_parity_bits parity_of_bytes n_def m_def by simp
  moreover have "bv_list v = map ?bit [0..<n]"
    by (simp add: bv_list_def bv_get_bit n_def)
  ultimately show ?thesis by simp
qed

section \<open>Comparison\<close>

text \<open>The number of leading bits that \<open>equals\<close> really compares.\<close>

definition equals_range :: "nat \<Rightarrow> nat" where
  "equals_range n = 8 * ((n + 7) div 8 - 1) + n mod 8"

lemma equals_range_partial: "n mod 8 \<noteq> 0 \<Longrightarrow> equals_range n = n"
proof -
  assume n: "n mod 8 \<noteq> 0"
  define q r where "q = n div 8" and "r = n mod 8"
  have nqr: "n = 8 * q + r" by (simp add: q_def r_def)
  have "0 < r" "r < 8" using n by (simp_all add: r_def)
  then have "(r + 7) div 8 = 1" by linarith
  moreover have "(8 * q + r + 7) div 8 = q + (r + 7) div 8" by (simp add: add.assoc)
  ultimately have "(8 * q + r + 7) div 8 = Suc q" by simp
  then have "(n + 7) div 8 = Suc q" by (simp only: nqr [symmetric])
  then have "(n + 7) div 8 = Suc (n div 8)" by (simp add: q_def)
  then show ?thesis by (simp add: equals_range_def)
qed

lemma equals_range_whole: "n mod 8 = 0 \<Longrightarrow> equals_range n = n - 8"
  by (auto simp: equals_range_def elim!: dvdE dest!: mod_0_imp_dvd)

lemma mask_bit: "r < 8 \<Longrightarrow> bit (drop_bit (8 - r) (255 :: u8)) k \<longleftrightarrow> k < r"
proof -
  assume r: "r < 8"
  have m: "(255 :: u8) = mask 8" by (simp add: mask_eq_exp_minus_1)
  show ?thesis using r by (auto simp: m bit_simps)
qed

lemma and_mask_eq:
  assumes r: "r < 8" and m: "\<And>k. bit (m :: u8) k \<longleftrightarrow> k < r"
  shows "a AND m = b AND m \<longleftrightarrow> (\<forall>k<r. bit a k = bit b k)"
  by (simp add: bit_eq_iff [of "a AND m"] bit_simps m) (meson less_trans r)

lemma bv_equals_prefix:
  "bv_bits rhs = bv_bits v \<Longrightarrow> 0 < bv_bits v \<Longrightarrow>
   bv_equals v rhs = (\<forall>j<equals_range (bv_bits v). bv_get v j = bv_get rhs j)"
proof -
  assume b: "bv_bits rhs = bv_bits v" and n: "0 < bv_bits v"
  let ?l = "bv_sizeBytes v - 1" and ?r = "bv_bits v mod 8"
  have split: "(\<forall>j<8 * ?l + ?r. P j) \<longleftrightarrow>
      (\<forall>i<?l. \<forall>k<8. P (8 * i + k)) \<and> (\<forall>k<?r. P (8 * ?l + k))" for P :: "nat \<Rightarrow> bool"
  proof (intro iffI conjI allI impI)
    fix i k assume "\<forall>j<8 * ?l + ?r. P j" "i < ?l" "k < (8::nat)"
    moreover have "8 * i + k < 8 * ?l" using \<open>i < ?l\<close> \<open>k < 8\<close> by linarith
    ultimately show "P (8 * i + k)" by simp
  next
    fix j assume a: "(\<forall>i<?l. \<forall>k<8. P (8 * i + k)) \<and> (\<forall>k<?r. P (8 * ?l + k))"
      and j: "j < 8 * ?l + ?r"
    show "P j"
    proof (cases "j < 8 * ?l")
      case True
      then have "j div 8 < ?l" by (simp add: div_less_iff_less_mult)
      moreover have "j mod 8 < 8" by simp
      ultimately have "P (8 * (j div 8) + j mod 8)" using a by blast
      then show ?thesis by simp
    next
      case False
      with j have "j - 8 * ?l < ?r" by linarith
      with a have "P (8 * ?l + (j - 8 * ?l))" by blast
      with False show ?thesis by simp
    qed
  qed simp
  have byte: "x = y \<longleftrightarrow> (\<forall>k<8. bit x k = bit y k)" for x y :: u8
    by (auto intro: bit_word_eqI)
  have "bv_equals v rhs \<longleftrightarrow> (\<forall>i<?l. \<forall>k<8. bit (bv_data v ! i) k = bit (bv_data rhs ! i) k) \<and>
      (\<forall>k<?r. bit (bv_data v ! ?l) k = bit (bv_data rhs ! ?l) k)"
    by (simp add: bv_equals_def Let_def and_mask_eq [OF _ mask_bit] byte [symmetric]
        atLeast0LessThan Ball_def)
  also have "\<dots> \<longleftrightarrow> (\<forall>j<8 * ?l + ?r. bv_get v j = bv_get rhs j)"
    unfolding split by (simp add: bv_get_bit cong: conj_cong)
  finally show ?thesis by (simp add: equals_range_def bv_sizeBytes_def)
qed

section \<open>Properties\<close>

text \<open>\<open>append\<close> and the copy constructor from raw memory: the bit-by-bit path and the
  \<open>memcpy\<close> path both add exactly the requested bits of the source after the existing ones.\<close>

theorem bv_append_refines:
  assumes "bv_wf v" and "bv_fits (bv_bits v + len)" and "(off + len + 7) div 8 \<le> length d"
  shows "bv_list (bv_append v d len off) = bv_list v @ buf_bits d off len
         \<and> bv_wf (bv_append v d len off)"
  using bv_list_append [OF assms] bv_wf_append [OF assms] by blast

theorem bv_append_refines_witness:
  "bv_list (bv_append (bv_of_bytes [5] 3) [0xF0] 4 4) = bv_list (bv_of_bytes [5] 3) @ buf_bits [0xF0] 4 4
   \<and> buf_bits [0xF0] 4 4 = [True, True, True, True]"
proof -
  have "bv_wf (bv_of_bytes [5] 3)"
    unfolding bv_of_bytes_def by (rule bv_wf_append) (simp_all add: bv_fits_def)
  then have "bv_list (bv_append (bv_of_bytes [5] 3) [0xF0] 4 4)
      = bv_list (bv_of_bytes [5] 3) @ buf_bits [0xF0] 4 4 \<and> bv_wf (bv_append (bv_of_bytes [5] 3) [0xF0] 4 4)"
    by (rule bv_append_refines) (simp_all add: bv_fits_def)
  then show ?thesis by (simp add: buf_bits_def upt_rec)
qed

text \<open>\<open>parity\<close>, the byte loop with its tail of single bits, is the parity of the number
  of set bits of the vector; bits of the last byte past the end do not count.\<close>

theorem bv_parity_refines: "bv_parity v = odd (length (filter id (bv_list v)))"
  by (simp add: bv_parity_correct parity_of_def)

text \<open>\<open>equals\<close> compares the vectors bit for bit only when the length is not a multiple
  of 8. On a whole number of bytes the mask of the last byte is 0 and that byte is skipped.\<close>

theorem bv_equals_compares:
  assumes "bv_bits rhs = bv_bits v" and "0 < bv_bits v"
  shows "bv_equals v rhs \<longleftrightarrow>
    (if bv_bits v mod 8 \<noteq> 0 then bv_list v = bv_list rhs
     else take (bv_bits v - 8) (bv_list v) = take (bv_bits v - 8) (bv_list rhs))"
proof -
  have "take k (bv_list v) = take k (bv_list rhs) \<longleftrightarrow> (\<forall>j<k. bv_get v j = bv_get rhs j)"
    if "k \<le> bv_bits v" for k
    using that assms(1) by (auto simp: list_eq_iff_nth_eq min_def)
  from this [of "bv_bits v"] this [of "bv_bits v - 8"] show ?thesis
    using bv_equals_prefix [OF assms] assms(1)
    by (simp add: equals_range_partial equals_range_whole)
qed

theorem bv_equals_compares_witness:
  "bv_equals \<lparr>bv_data = [1], bv_bits = 8\<rparr> \<lparr>bv_data = [2], bv_bits = 8\<rparr>
   \<and> bv_list \<lparr>bv_data = [1], bv_bits = 8\<rparr> \<noteq> bv_list \<lparr>bv_data = [2], bv_bits = 8\<rparr>"
proof
  show "bv_equals \<lparr>bv_data = [1], bv_bits = 8\<rparr> \<lparr>bv_data = [2], bv_bits = 8\<rparr>"
    by (subst bv_equals_compares) simp_all
  show "bv_list \<lparr>bv_data = [1], bv_bits = 8\<rparr> \<noteq> bv_list \<lparr>bv_data = [2], bv_bits = 8\<rparr>"
    by (simp add: bv_list_def bv_get_bit upt_rec)
qed

end
