(* ===== verification/BDX_Circuit.thy ===== *)
theory BDX_Circuit
  imports BDX_BitVector
begin

text \<open>
  \<open>Circuit/Gate.h\<close>, \<open>Circuit/Circuit.{h,cpp}\<close>: boolean circuits, their construction gate by gate,
  their evaluation on both bit containers, and the xor-sharing of inputs. The reference
  semantics is a function from wires to bits.
\<close>

section \<open>Gates\<close>

text \<open>\<open>enum class GateType\<close>; the value of a type is its truth table.\<close>

datatype GateType =
    gt_Zero | gt_Nor | gt_nb_And | gt_nb | gt_na_And | gt_na | gt_Xor | gt_Nand
  | gt_And | gt_Nxor | gt_a | gt_nb_Or | gt_b | gt_na_Or | gt_Or | gt_One

fun gt_code :: "GateType \<Rightarrow> nat" where
  "gt_code gt_Zero = 0"
| "gt_code gt_Nor = 1"
| "gt_code gt_nb_And = 2"
| "gt_code gt_nb = 3"
| "gt_code gt_na_And = 4"
| "gt_code gt_na = 5"
| "gt_code gt_Xor = 6"
| "gt_code gt_Nand = 7"
| "gt_code gt_And = 8"
| "gt_code gt_Nxor = 9"
| "gt_code gt_a = 10"
| "gt_code gt_nb_Or = 11"
| "gt_code gt_b = 12"
| "gt_code gt_na_Or = 13"
| "gt_code gt_Or = 14"
| "gt_code gt_One = 15"

record Gate =
  mInput0 :: nat
  mInput1 :: nat
  mOutput :: nat
  mType :: GateType
  mAAlpha :: bool
  mBAlpha :: bool
  mCAlpha :: bool

definition mk_Gate :: "nat \<Rightarrow> nat \<Rightarrow> nat \<Rightarrow> GateType \<Rightarrow> Gate" where
  "mk_Gate input0 input1 output gt =
     \<lparr>mInput0 = input0, mInput1 = input1, mOutput = output, mType = gt,
      mAAlpha = (gt = gt_Nor \<or> gt = gt_na_And \<or> gt = gt_nb_Or \<or> gt = gt_Or),
      mBAlpha = (gt = gt_Nor \<or> gt = gt_nb_And \<or> gt = gt_na_Or \<or> gt = gt_Or),
      mCAlpha = (gt = gt_Nand \<or> gt = gt_nb_Or \<or> gt = gt_na_Or \<or> gt = gt_Or)\<rparr>"

definition Gate_eval :: "Gate \<Rightarrow> nat \<Rightarrow> bool" where
  "Gate_eval g i = bit (gt_code (mType g)) i"

text \<open>The row \<open>a | b\<close> of the truth table that \<open>Circuit::evaluate\<close> computes from two labels.\<close>

definition row_of :: "bool \<Rightarrow> bool \<Rightarrow> nat" where
  "row_of x y = (if x then 1 else 0) OR (if y then 2 else 0)"

definition is_xor :: "GateType \<Rightarrow> bool" where
  "is_xor gt \<longleftrightarrow> gt = gt_Xor \<or> gt = gt_Nxor"

section \<open>Circuits\<close>

record Circuit =
  mWireCount :: nat
  mNonXorGateCount :: nat
  mOutputCount :: nat
  mInputs :: "nat \<times> nat"
  mGates :: "Gate list"
  mOutputs :: "nat list"

definition Circuit_new :: "nat \<times> nat \<Rightarrow> Circuit" where
  "Circuit_new inputs =
     \<lparr>mWireCount = fst inputs + snd inputs, mNonXorGateCount = 0, mOutputCount = 0,
      mInputs = inputs, mGates = [], mOutputs = []\<rparr>"

definition InputWireCount :: "Circuit \<Rightarrow> nat" where
  "InputWireCount c = fst (mInputs c) + snd (mInputs c)"

definition Inputs :: "Circuit \<Rightarrow> role \<Rightarrow> nat" where
  "Inputs c r = (case r of First \<Rightarrow> fst (mInputs c) | Second \<Rightarrow> snd (mInputs c))"

definition AddGate :: "Circuit \<Rightarrow> nat \<Rightarrow> nat \<Rightarrow> GateType \<Rightarrow> (nat \<times> Circuit) result" where
  "AddGate c input0 input1 gt =
     (if input0 > mWireCount c then Inl RuntimeError
      else if input1 > mWireCount c \<and> (gt \<noteq> gt_na \<or> input1 \<noteq> 2 ^ 64 - 1) then Inl RuntimeError
      else if gt = gt_a \<or> gt = gt_b \<or> gt = gt_nb \<or> gt = gt_One \<or> gt = gt_Zero then Inl RuntimeError
      else Inr (mWireCount c,
        c\<lparr>mNonXorGateCount := mNonXorGateCount c + (if gt \<noteq> gt_Xor \<and> gt \<noteq> gt_Nxor then 1 else 0),
          mGates := mGates c @ [mk_Gate input0 input1 (mWireCount c) gt],
          mWireCount := mWireCount c + 1\<rparr>))"

definition AddOutputWire :: "Circuit \<Rightarrow> nat \<Rightarrow> Circuit result" where
  "AddOutputWire c i =
     (if i \<ge> mWireCount c then Inl RuntimeError
      else Inr (c\<lparr>mOutputs := mOutputs c @ [i], mOutputCount := mOutputCount c + 1\<rparr>))"

text \<open>\<open>evaluate\<close> and \<open>translate\<close>, on \<open>std::vector<bool>\<close> and on \<open>BitVector\<close>.\<close>

definition evaluate_vec :: "Circuit \<Rightarrow> bool list \<Rightarrow> bool list" where
  "evaluate_vec c labels =
     fold (\<lambda>g l. l[mOutput g := Gate_eval g (row_of (l ! mInput0 g) (l ! mInput1 g))])
       (mGates c) (vec_resize False (mWireCount c) labels)"

definition translate_vec :: "Circuit \<Rightarrow> bool list \<Rightarrow> bool list \<Rightarrow> bool list" where
  "translate_vec c labels output =
     fold (\<lambda>i out. out[i := labels ! (mOutputs c ! i)])
       [0..<length (mOutputs c)] (vec_resize False (mOutputCount c) output)"

definition evaluate_bv :: "Circuit \<Rightarrow> bitvec \<Rightarrow> bitvec" where
  "evaluate_bv c labels =
     fold (\<lambda>g l. bv_put l (mOutput g) (Gate_eval g (row_of (bv_get l (mInput0 g)) (bv_get l (mInput1 g)))))
       (mGates c) (bv_resize labels (mWireCount c))"

definition translate_bv :: "Circuit \<Rightarrow> bitvec \<Rightarrow> bitvec \<Rightarrow> bitvec" where
  "translate_bv c labels output =
     fold (\<lambda>i out. bv_put out i (bv_get labels (mOutputs c ! i)))
       [0..<length (mOutputs c)] (bv_reset output (mOutputCount c))"

definition xorShareInputs :: "Circuit \<Rightarrow> Circuit" where
  "xorShareInputs c =
     (let wiresAdded = fst (mInputs c) + snd (mInputs c);
          in0 = fst (mInputs c) + snd (mInputs c);
          in1 = in0;
          share = map (\<lambda>i. mk_Gate i (in0 + i) (in0 + in1 + i) gt_Xor);
          shares = share [0..<fst (mInputs c)]
            @ share [fst (mInputs c)..<fst (mInputs c) + snd (mInputs c)];
          offset = 2 * wiresAdded
      in c\<lparr>mInputs := (in0, in1),
           mWireCount := mWireCount c + offset,
           mGates := shares @ map (\<lambda>g. mk_Gate (mInput0 g + offset) (mInput1 g + offset)
                                          (mOutput g + offset) (mType g)) (mGates c),
           mOutputs := map (\<lambda>w. w + offset) (mOutputs c)\<rparr>)"

section \<open>Reference semantics\<close>

definition gate_value :: "Gate \<Rightarrow> (nat \<Rightarrow> bool) \<Rightarrow> bool" where
  "gate_value g w = Gate_eval g (row_of (w (mInput0 g)) (w (mInput1 g)))"

definition plain_run :: "Gate list \<Rightarrow> (nat \<Rightarrow> bool) \<Rightarrow> nat \<Rightarrow> bool" where
  "plain_run gs w = fold (\<lambda>g v. v(mOutput g := gate_value g v)) gs w"

definition circuit_sem :: "Circuit \<Rightarrow> (nat \<Rightarrow> bool) \<Rightarrow> bool list" where
  "circuit_sem c x = map (plain_run (mGates c) x) (mOutputs c)"

text \<open>Gates in topological order, each defining the next wire, with modifiers as constructed.\<close>

fun gates_topo :: "nat \<Rightarrow> Gate list \<Rightarrow> bool" where
  "gates_topo n [] \<longleftrightarrow> True"
| "gates_topo n (g # gs) \<longleftrightarrow>
     mInput0 g < n \<and> mInput1 g < n \<and> g = mk_Gate (mInput0 g) (mInput1 g) n (mType g)
     \<and> gates_topo (Suc n) gs"

definition circuit_wf :: "Circuit \<Rightarrow> bool" where
  "circuit_wf c \<longleftrightarrow>
     gates_topo (InputWireCount c) (mGates c)
     \<and> mWireCount c = InputWireCount c + length (mGates c)
     \<and> mNonXorGateCount c = length (filter (\<lambda>g. \<not> is_xor (mType g)) (mGates c))
     \<and> mOutputCount c = length (mOutputs c)
     \<and> (\<forall>i\<in>set (mOutputs c). i < mWireCount c)"

section \<open>Gate modifiers\<close>

lemma mk_Gate_simps [simp]:
  "mInput0 (mk_Gate i j k t) = i" "mInput1 (mk_Gate i j k t) = j"
  "mOutput (mk_Gate i j k t) = k" "mType (mk_Gate i j k t) = t"
  by (simp_all add: mk_Gate_def)

text \<open>The two-input truth table of a type.\<close>

definition gt_eval :: "GateType \<Rightarrow> bool \<Rightarrow> bool \<Rightarrow> bool" where
  "gt_eval t x y = bit (gt_code t) (row_of x y)"

lemma Gate_eval_row: "Gate_eval g (row_of x y) = gt_eval (mType g) x y"
  by (simp add: Gate_eval_def gt_eval_def)

lemma row_of_simps: "row_of x y = (if x then 1 else 0) + (if y then 2 else 0)"
  by (cases x; cases y) (simp_all add: row_of_def)

lemma gt_eval_xor [simp]: "gt_eval gt_Xor x y = (x \<noteq> y)" "gt_eval gt_Nxor x y = (x = y)"
  by (cases x; cases y; simp add: gt_eval_def row_of_simps bit_nat_def)+

definition and_like :: "GateType \<Rightarrow> bool" where
  "and_like t \<longleftrightarrow> t \<in> {gt_Nor, gt_nb_And, gt_na_And, gt_Nand, gt_And, gt_nb_Or, gt_na_Or, gt_Or}"

lemma alphas_correct:
  assumes "and_like t"
  shows "gt_eval t x y
    = (((x \<noteq> mAAlpha (mk_Gate i j k t)) \<and> (y \<noteq> mBAlpha (mk_Gate i j k t))) \<noteq> mCAlpha (mk_Gate i j k t))"
  using assms
  by (cases x; cases y)
    (auto simp: and_like_def mk_Gate_def gt_eval_def row_of_simps bit_nat_def)

section \<open>Running gates\<close>

lemma plain_run_simps [simp]:
  "plain_run [] w = w"
  "plain_run (g # gs) w = plain_run gs (w(mOutput g := gate_value g w))"
  by (simp_all add: plain_run_def)

lemma plain_run_append: "plain_run (gs @ hs) w = plain_run hs (plain_run gs w)"
  by (simp add: plain_run_def)

lemma gates_topo_append:
  "gates_topo n (gs @ hs) \<longleftrightarrow> gates_topo n gs \<and> gates_topo (n + length gs) hs"
  by (induction gs arbitrary: n) auto

lemma gates_topo_output: "gates_topo n (g # gs) \<Longrightarrow> mOutput g = n"
  by (metis gates_topo.simps(2) mk_Gate_simps(3))

text \<open>A well-formed circuit never changes a wire it has already defined.\<close>

lemma plain_run_keeps: "gates_topo n gs \<Longrightarrow> i < n \<Longrightarrow> plain_run gs w i = w i"
proof (induction gs arbitrary: n w)
  case (Cons g gs)
  have o: "mOutput g = n" using Cons.prems(1) by (rule gates_topo_output)
  have "plain_run gs (w(n := gate_value g w)) i = (w(n := gate_value g w)) i"
    by (rule Cons.IH [of "Suc n"]) (use Cons.prems in simp_all)
  then show ?case using o Cons.prems by simp
qed simp

lemma plain_run_cong:
  "gates_topo n gs \<Longrightarrow> (\<And>i. i < n \<Longrightarrow> v i = w i) \<Longrightarrow> i < n + length gs \<Longrightarrow> plain_run gs v i = plain_run gs w i"
proof (induction gs arbitrary: n v w)
  case (Cons g gs)
  have o: "mOutput g = n" using Cons.prems(1) by (rule gates_topo_output)
  have "gate_value g v = gate_value g w" using Cons.prems by (simp add: gate_value_def)
  then have "plain_run gs (v(n := gate_value g v)) i = plain_run gs (w(n := gate_value g w)) i"
    by (intro Cons.IH [of "Suc n"]) (use Cons.prems in auto)
  then show ?case using o by simp
qed simp

definition gates_in :: "nat \<Rightarrow> Gate list \<Rightarrow> bool" where
  "gates_in n gs \<longleftrightarrow> (\<forall>g\<in>set gs. mInput0 g < n \<and> mInput1 g < n \<and> mOutput g < n)"

lemma gates_topo_in: "gates_topo n gs \<Longrightarrow> gates_in (n + length gs) gs"
proof (induction gs arbitrary: n)
  case (Cons g gs)
  have "mOutput g = n" using Cons.prems by (rule gates_topo_output)
  moreover have "gates_in (Suc n + length gs) gs"
    using Cons.IH [of "Suc n"] Cons.prems by simp
  ultimately show ?case using Cons.prems by (simp add: gates_in_def)
qed (simp add: gates_in_def)

text \<open>One simulation for every bit container.\<close>

context bit_array
begin

lemma run_gates:
  assumes "ok v" and "gates_in (size_of v) gs" and "\<And>i. i < size_of v \<Longrightarrow> test v i = w i"
  shows "let u = fold (\<lambda>g l. put l (mOutput g)
                        (Gate_eval g (row_of (test l (mInput0 g)) (test l (mInput1 g))))) gs v
         in size_of u = size_of v \<and> ok u \<and> (\<forall>i < size_of v. test u i = plain_run gs w i)"
  using assms
proof (induction gs arbitrary: v w)
  case (Cons g gs)
  have in_v: "mInput0 g < size_of v" "mInput1 g < size_of v" "mOutput g < size_of v"
    using Cons.prems(2) by (simp_all add: gates_in_def)
  let ?v = "put v (mOutput g) (Gate_eval g (row_of (test v (mInput0 g)) (test v (mInput1 g))))"
  let ?w = "w(mOutput g := gate_value g w)"
  have t: "test ?v i = ?w i" if "i < size_of ?v" for i
    using Cons.prems in_v that by (simp add: size_put test_put gate_value_def)
  have "ok ?v" "gates_in (size_of ?v) gs"
    using Cons.prems by (simp_all add: size_put ok_put gates_in_def)
  from Cons.IH [OF this t] show ?case
    unfolding Let_def fold_simps comp_def plain_run_simps size_put .
qed (simp add: Let_def)

end

lemma circuit_wf_gates_in: "circuit_wf c \<Longrightarrow> gates_in (mWireCount c) (mGates c)"
  using gates_topo_in by (auto simp: circuit_wf_def)

lemma circuit_sem_cong:
  assumes "circuit_wf c" and "\<And>i. i < InputWireCount c \<Longrightarrow> x i = y i"
  shows "circuit_sem c x = circuit_sem c y"
  using assms plain_run_cong [of "InputWireCount c" "mGates c" x y]
  by (auto simp: circuit_sem_def circuit_wf_def)

lemma circuit_wire_cong:
  assumes "circuit_wf c" and "\<And>i. i < InputWireCount c \<Longrightarrow> x i = y i" and "i < mWireCount c"
  shows "plain_run (mGates c) x i = plain_run (mGates c) y i"
  using assms plain_run_cong [of "InputWireCount c" "mGates c" x y] by (auto simp: circuit_wf_def)

lemma evaluate_vec_wires:
  assumes "circuit_wf c" and "length x = InputWireCount c"
  shows "length (evaluate_vec c x) = mWireCount c"
    and "i < mWireCount c \<Longrightarrow> evaluate_vec c x ! i = plain_run (mGates c) ((!) x) i"
proof -
  let ?v = "vec_resize False (mWireCount c) x"
  note run = vba.run_gates [of ?v "mGates c" "(!) ?v", unfolded Let_def]
  have n: "InputWireCount c \<le> mWireCount c" using assms(1) by (simp add: circuit_wf_def)
  show "length (evaluate_vec c x) = mWireCount c"
    using run circuit_wf_gates_in [OF assms(1)] by (simp add: evaluate_vec_def)
  show "evaluate_vec c x ! i = plain_run (mGates c) ((!) x) i" if "i < mWireCount c"
    using run circuit_wf_gates_in [OF assms(1)] that
      circuit_wire_cong [OF assms(1), of "(!) ?v" "(!) x" i] n assms(2)
    by (simp add: evaluate_vec_def nth_vec_resize)
qed

lemma evaluate_bv_wires:
  assumes "circuit_wf c" and "bv_wf x" and "bv_bits x = InputWireCount c" and "bv_fits (mWireCount c)"
  shows "bv_bits (evaluate_bv c x) = mWireCount c"
    and "i < mWireCount c \<Longrightarrow> bv_get (evaluate_bv c x) i = plain_run (mGates c) (bv_get x) i"
proof -
  let ?v = "bv_resize x (mWireCount c)"
  note run = bva.run_gates [of ?v "mGates c" "bv_get ?v", unfolded Let_def]
  have n: "InputWireCount c \<le> mWireCount c" using assms(1) by (simp add: circuit_wf_def)
  have ok: "bv_wf ?v" using assms by (simp add: bv_wf_resize)
  show "bv_bits (evaluate_bv c x) = mWireCount c"
    using run ok circuit_wf_gates_in [OF assms(1)] by (simp add: evaluate_bv_def)
  show "bv_get (evaluate_bv c x) i = plain_run (mGates c) (bv_get x) i" if "i < mWireCount c"
    using run ok circuit_wf_gates_in [OF assms(1)] that
      circuit_wire_cong [OF assms(1), of "bv_get ?v" "bv_get x" i] n assms
    by (simp add: evaluate_bv_def bv_get_resize)
qed

lemma translate_vec_eq:
  assumes "mOutputCount c = length (mOutputs c)"
  shows "translate_vec c labels out = map ((!) labels) (mOutputs c)"
proof (rule nth_equalityI)
  show l: "length (translate_vec c labels out) = length (map ((!) labels) (mOutputs c))"
    using assms by (simp add: translate_vec_def vba.fill_size0)
  fix i assume "i < length (translate_vec c labels out)"
  then show "translate_vec c labels out ! i = map ((!) labels) (mOutputs c) ! i"
    using l assms vba.fill_test0 [where v = "vec_resize False (mOutputCount c) out" and n = "length (mOutputs c)"
        and f = "\<lambda>i. labels ! (mOutputs c ! i)" and j = i]
    by (simp add: translate_vec_def)
qed

lemma translate_bv_eq:
  assumes "mOutputCount c = length (mOutputs c)"
  shows "bv_list (translate_bv c labels out) = map (bv_get labels) (mOutputs c)"
proof -
  have wf: "bv_wf (bv_reset out (mOutputCount c))" by (rule bv_wf_reset)
  have b: "bv_bits (translate_bv c labels out) = length (mOutputs c)"
    using assms by (simp add: translate_bv_def bva.fill_size0 bv_reset_def Let_def)
  show ?thesis
  proof (rule nth_equalityI)
    fix i assume "i < length (bv_list (translate_bv c labels out))"
    then show "bv_list (translate_bv c labels out) ! i = map (bv_get labels) (mOutputs c) ! i"
      using b assms wf bva.fill_test0 [of "bv_reset out (mOutputCount c)" "length (mOutputs c)"
          "\<lambda>i. bv_get labels (mOutputs c ! i)" i]
      by (simp add: bv_list_def translate_bv_def bva.fill_size0 bv_reset_def Let_def)
  qed (simp add: b bv_list_def)
qed

section \<open>Building circuits\<close>

lemma circuit_wf_new: "circuit_wf (Circuit_new inputs)"
  by (simp add: circuit_wf_def Circuit_new_def InputWireCount_def)

definition addable :: "GateType \<Rightarrow> bool" where
  "addable gt \<longleftrightarrow> gt \<notin> {gt_a, gt_b, gt_nb, gt_One, gt_Zero}"

lemma addable_cases: "addable gt \<Longrightarrow> gt = gt_na \<or> is_xor gt \<or> and_like gt"
  by (cases gt) (simp_all add: addable_def is_xor_def and_like_def)

lemma AddGate_ok:
  assumes "circuit_wf c" and "i < mWireCount c" and "j < mWireCount c" and "addable gt"
  defines "c' \<equiv> c\<lparr>mNonXorGateCount := mNonXorGateCount c + (if gt \<noteq> gt_Xor \<and> gt \<noteq> gt_Nxor then 1 else 0),
                mGates := mGates c @ [mk_Gate i j (mWireCount c) gt],
                mWireCount := mWireCount c + 1\<rparr>"
  shows "AddGate c i j gt = Inr (mWireCount c, c')" and "circuit_wf c'"
    and "plain_run (mGates c') x (mWireCount c)
         = gt_eval gt (plain_run (mGates c) x i) (plain_run (mGates c) x j)"
proof -
  show "AddGate c i j gt = Inr (mWireCount c, c')"
    using assms by (simp add: AddGate_def addable_def)
  show "circuit_wf c'"
    using assms by (auto simp: circuit_wf_def gates_topo_append InputWireCount_def is_xor_def less_Suc_eq)
  show "plain_run (mGates c') x (mWireCount c)
      = gt_eval gt (plain_run (mGates c) x i) (plain_run (mGates c) x j)"
    by (simp add: c'_def plain_run_append gate_value_def Gate_eval_row)
qed

lemma AddGate_rejects:
  "\<not> addable gt \<or> i > mWireCount c \<or> (j > mWireCount c \<and> gt \<noteq> gt_na) \<Longrightarrow> AddGate c i j gt = Inl RuntimeError"
  by (auto simp: AddGate_def addable_def)

text \<open>The bound check uses \<open>>\<close>: a gate that reads the wire it defines is accepted.\<close>

lemma AddGate_own_output:
  "\<exists>c'. AddGate c (mWireCount c) 0 gt_And = Inr (mWireCount c, c') \<and> \<not> circuit_wf c'"
  by (auto simp: AddGate_def circuit_wf_def gates_topo_append InputWireCount_def)

lemma AddOutputWire_wf: "circuit_wf c \<Longrightarrow> AddOutputWire c i = Inr c' \<Longrightarrow> circuit_wf c'"
  by (auto simp: AddOutputWire_def circuit_wf_def InputWireCount_def split: if_splits)

section \<open>Xor-shared inputs\<close>

definition shift_gate :: "nat \<Rightarrow> Gate \<Rightarrow> Gate" where
  "shift_gate off g = mk_Gate (mInput0 g + off) (mInput1 g + off) (mOutput g + off) (mType g)"

lemma gates_topo_shift: "gates_topo n gs \<Longrightarrow> gates_topo (n + off) (map (shift_gate off) gs)"
proof (induction gs arbitrary: n)
  case (Cons g gs)
  have "mOutput g = n" using Cons.prems by (rule gates_topo_output)
  then show ?case using Cons.IH [of "Suc n"] Cons.prems by (simp add: shift_gate_def)
qed simp

lemma shift_gate_simps [simp]:
  "mOutput (shift_gate off g) = mOutput g + off"
  "mType (shift_gate off g) = mType g"
  by (simp_all add: shift_gate_def)

lemma plain_run_shift:
  "plain_run (map (shift_gate off) gs) w (i + off) = plain_run gs (\<lambda>k. w (k + off)) i"
proof (induction gs arbitrary: w)
  case (Cons g gs)
  let ?v = "gate_value g (\<lambda>k. w (k + off))"
  have v: "gate_value (shift_gate off g) w = ?v"
    by (simp add: gate_value_def shift_gate_def Gate_eval_def)
  have "plain_run (map (shift_gate off) (g # gs)) w (i + off)
      = plain_run (map (shift_gate off) gs) (w(mOutput g + off := ?v)) (i + off)"
    by (simp only: list.map plain_run_simps shift_gate_simps v)
  also have "\<dots> = plain_run gs (\<lambda>k. (w(mOutput g + off := ?v)) (k + off)) i"
    by (rule Cons.IH)
  also have "(\<lambda>k. (w(mOutput g + off := ?v)) (k + off)) = (\<lambda>k. w (k + off))(mOutput g := ?v)"
    by auto
  finally show ?case by (simp only: plain_run_simps)
qed simp

definition share_gates :: "nat \<Rightarrow> nat \<Rightarrow> Gate list" where
  "share_gates n m = map (\<lambda>i. mk_Gate i (n + i) (n + n + i) gt_Xor) [0..<m]"

lemma gates_topo_share: "m \<le> n \<Longrightarrow> gates_topo (2 * n) (share_gates n m)"
  by (induction m) (simp_all add: share_gates_def gates_topo_append mult_2)

lemma plain_run_share:
  assumes "m \<le> n" and "i < 2 * n + m"
  shows "plain_run (share_gates n m) x i = (if i < 2 * n then x i else x (i - 2 * n) \<noteq> x (i - n))"
  using assms
proof (induction m arbitrary: i)
  case (Suc m)
  let ?w = "plain_run (share_gates n m) x"
  have "share_gates n (Suc m) = share_gates n m @ [mk_Gate m (n + m) (2 * n + m) gt_Xor]"
    by (simp add: share_gates_def mult_2)
  then have "plain_run (share_gates n (Suc m)) x = ?w(2 * n + m := ?w m \<noteq> ?w (n + m))"
    by (simp add: plain_run_append gate_value_def Gate_eval_row)
  moreover have "?w m = x m" "?w (n + m) = x (n + m)" using Suc by simp_all
  ultimately show ?case using Suc by auto
qed (simp add: share_gates_def)

lemma xorShareInputs_gates:
  "mGates (xorShareInputs c)
   = share_gates (InputWireCount c) (InputWireCount c)
     @ map (shift_gate (2 * InputWireCount c)) (mGates c)"
proof -
  have "[0..<fst (mInputs c) + snd (mInputs c)]
      = [0..<fst (mInputs c)] @ [fst (mInputs c)..<fst (mInputs c) + snd (mInputs c)]"
    by (rule upt_add_eq_append) simp
  then show ?thesis
    by (simp add: xorShareInputs_def Let_def InputWireCount_def share_gates_def
        shift_gate_def [abs_def])
qed

lemma xorShareInputs_InputWireCount [simp]:
  "InputWireCount (xorShareInputs c) = 2 * InputWireCount c"
  by (simp add: xorShareInputs_def Let_def InputWireCount_def)

lemma xorShareInputs_simps [simp]:
  "mWireCount (xorShareInputs c) = mWireCount c + 2 * InputWireCount c"
  "mOutputs (xorShareInputs c) = map (\<lambda>w. w + 2 * InputWireCount c) (mOutputs c)"
  "mOutputCount (xorShareInputs c) = mOutputCount c"
  "mNonXorGateCount (xorShareInputs c) = mNonXorGateCount c"
  by (simp_all add: xorShareInputs_def Let_def InputWireCount_def)

lemma circuit_wf_xorShare:
  assumes "circuit_wf c"
  shows "circuit_wf (xorShareInputs c)"
proof -
  let ?n = "InputWireCount c"
  have "gates_topo (2 * ?n) (mGates (xorShareInputs c))"
    using assms gates_topo_share [of ?n ?n] gates_topo_shift [of ?n "mGates c" "2 * ?n"]
    by (simp add: xorShareInputs_gates gates_topo_append circuit_wf_def share_gates_def add.commute)
  moreover have "length (filter (\<lambda>g. \<not> is_xor (mType g)) (mGates (xorShareInputs c)))
      = length (filter (\<lambda>g. \<not> is_xor (mType g)) (mGates c))"
    by (simp add: xorShareInputs_gates share_gates_def is_xor_def filter_map comp_def shift_gate_def)
  moreover have "length (mGates (xorShareInputs c)) = ?n + length (mGates c)"
    by (simp add: xorShareInputs_gates share_gates_def)
  ultimately show ?thesis
    using assms by (auto simp: circuit_wf_def)
qed

lemma circuit_sem_xorShare:
  assumes "circuit_wf c"
  shows "circuit_sem (xorShareInputs c) x
         = circuit_sem c (\<lambda>i. x i \<noteq> x (InputWireCount c + i))"
proof -
  let ?n = "InputWireCount c"
  let ?w = "plain_run (share_gates ?n ?n) x"
  have "plain_run (mGates (xorShareInputs c)) x (i + 2 * ?n)
      = plain_run (mGates c) (\<lambda>k. ?w (k + 2 * ?n)) i" for i
    by (simp add: xorShareInputs_gates plain_run_append plain_run_shift)
  moreover have "?w (k + 2 * ?n) = (x k \<noteq> x (?n + k))" if "k < ?n" for k
    using plain_run_share [of ?n ?n "k + 2 * ?n" x] that by (simp add: add.commute)
  then have "circuit_sem c (\<lambda>k. ?w (k + 2 * ?n)) = circuit_sem c (\<lambda>i. x i \<noteq> x (?n + i))"
    by (rule circuit_sem_cong [OF assms])
  ultimately show ?thesis by (simp add: circuit_sem_def)
qed

text \<open>A concrete circuit for the instances below: the half adder of one bit of each party.\<close>

definition half_adder :: Circuit where
  "half_adder =
     \<lparr>mWireCount = 4, mNonXorGateCount = 1, mOutputCount = 2, mInputs = (1, 1),
      mGates = [mk_Gate 0 1 2 gt_Xor, mk_Gate 0 1 3 gt_And], mOutputs = [2, 3]\<rparr>"

lemma half_adder_wf: "circuit_wf half_adder"
  by (simp add: half_adder_def circuit_wf_def InputWireCount_def is_xor_def
      numeral_2_eq_2 numeral_3_eq_3)

lemma half_adder_inputs [simp]: "InputWireCount half_adder = 2" "mWireCount half_adder = 4"
  by (simp_all add: half_adder_def InputWireCount_def)

lemma half_adder_sem: "circuit_sem half_adder x = [x 0 \<noteq> x 1, x 0 \<and> x 1]"
proof -
  have "gt_eval gt_And y z = (y \<and> z)" for y z
    by (subst alphas_correct) (simp_all add: and_like_def mk_Gate_def)
  then show ?thesis
    by (simp add: half_adder_def circuit_sem_def gate_value_def Gate_eval_row)
qed

section \<open>Properties\<close>

text \<open>Evaluating and translating a well-formed circuit computes its reference semantics, and does
  so identically on \<open>std::vector<bool>\<close> and on \<open>BitVector\<close> (whose resize leaves old bytes behind).\<close>

theorem circuit_evaluate_correct:
  assumes "circuit_wf c" and "bv_wf x" and "bv_bits x = InputWireCount c" and "bv_fits (mWireCount c)"
  shows "bv_list (translate_bv c (evaluate_bv c x) out) = circuit_sem c (bv_get x)
         \<and> translate_vec c (evaluate_vec c (bv_list x)) out' = circuit_sem c (bv_get x)"
proof -
  have o: "mOutputCount c = length (mOutputs c)" "\<And>i. i \<in> set (mOutputs c) \<Longrightarrow> i < mWireCount c"
    using assms(1) unfolding circuit_wf_def by blast+
  have l: "length (bv_list x) = InputWireCount c" using assms(3) by (simp add: bv_list_def)
  have s: "circuit_sem c ((!) (bv_list x)) = circuit_sem c (bv_get x)"
    by (rule circuit_sem_cong [OF assms(1)]) (simp add: bv_list_def assms(3))
  have "bv_list (translate_bv c (evaluate_bv c x) out) = circuit_sem c (bv_get x)"
    using evaluate_bv_wires(2) [OF assms] o by (simp add: translate_bv_eq circuit_sem_def)
  moreover have "translate_vec c (evaluate_vec c (bv_list x)) out' = circuit_sem c ((!) (bv_list x))"
    using evaluate_vec_wires(2) [OF assms(1) l] o by (simp add: translate_vec_eq circuit_sem_def)
  ultimately show ?thesis using s by simp
qed

theorem circuit_evaluate_correct_witness:
  "bv_list (translate_bv half_adder (evaluate_bv half_adder (bv_put (bv_reset bv_empty 2) 0 True)) bv_empty)
     = circuit_sem half_adder (bv_get (bv_put (bv_reset bv_empty 2) 0 True))
   \<and> translate_vec half_adder (evaluate_vec half_adder (bv_list (bv_put (bv_reset bv_empty 2) 0 True))) []
     = circuit_sem half_adder (bv_get (bv_put (bv_reset bv_empty 2) 0 True))"
  by (rule circuit_evaluate_correct)
    (simp_all add: half_adder_wf bv_wf_put bv_wf_reset bv_fits_def)

text \<open>C38. The circuit with xor-shared inputs is well-formed and computes the original function on the
  xor of the two parties' shares, for every pair of shares.\<close>

theorem xorShareInputs_correct:
  assumes "circuit_wf c"
  shows "circuit_wf (xorShareInputs c)
         \<and> mInputs (xorShareInputs c) = (InputWireCount c, InputWireCount c)
         \<and> circuit_sem (xorShareInputs c) x = circuit_sem c (\<lambda>i. x i \<noteq> x (InputWireCount c + i))"
  using circuit_wf_xorShare [OF assms] circuit_sem_xorShare [OF assms]
  by (simp add: xorShareInputs_def Let_def InputWireCount_def)

theorem xorShareInputs_correct_witness:
  "circuit_wf (xorShareInputs half_adder)
   \<and> mInputs (xorShareInputs half_adder) = (InputWireCount half_adder, InputWireCount half_adder)
   \<and> circuit_sem (xorShareInputs half_adder) (\<lambda>i. i \<noteq> 2)
     = circuit_sem half_adder (\<lambda>i. (i \<noteq> 2) \<noteq> (InputWireCount half_adder + i \<noteq> 2))"
  by (rule xorShareInputs_correct) (rule half_adder_wf)

text \<open>\<open>AddGate\<close> on defined wires and a binary gate type (or \<open>na\<close>) succeeds, numbers the new wire
  \<open>mWireCount\<close>, keeps the circuit well-formed, and the new wire carries the gate's truth table of
  the two input wires, for every input of the circuit.\<close>

theorem AddGate_extends:
  assumes "circuit_wf c" and "i < mWireCount c" and "j < mWireCount c" and "addable gt"
  shows "\<exists>c'. AddGate c i j gt = Inr (mWireCount c, c') \<and> circuit_wf c'
         \<and> mWireCount c' = mWireCount c + 1
         \<and> (\<forall>x. plain_run (mGates c') x (mWireCount c)
              = gt_eval gt (plain_run (mGates c) x i) (plain_run (mGates c) x j))"
  using AddGate_ok [OF assms] by simp

theorem AddGate_extends_witness:
  "\<exists>c'. AddGate half_adder 2 3 gt_Or = Inr (mWireCount half_adder, c') \<and> circuit_wf c'
   \<and> mWireCount c' = mWireCount half_adder + 1
   \<and> (\<forall>x. plain_run (mGates c') x (mWireCount half_adder)
        = gt_eval gt_Or (plain_run (mGates half_adder) x 2) (plain_run (mGates half_adder) x 3))"
  by (rule AddGate_extends) (simp_all add: half_adder_wf addable_def)

end
