(* ===== verification/BDX_Garbling.thy ===== *)
theory BDX_Garbling
  imports BDX_Circuit
begin

text \<open>
  The contract between a garbling scheme and the protocols that use it (\<open>Circuit/GarbledCircuit.h\<close>
  and the class with the same operations that does not inherit from it): whoever holds, for every
  input wire, the label of a bit obtains exactly the circuit's outputs on these bits. \<open>run\<close> stands
  for garbling from the material \<open>'s\<close> (a seed and what goes with it), evaluating and translating.
\<close>

definition labels_for :: "Circuit \<Rightarrow> (nat \<Rightarrow> bool \<Rightarrow> block) \<Rightarrow> (nat \<Rightarrow> bool) \<Rightarrow> block list" where
  "labels_for c label_of x = map (\<lambda>i. label_of i (x i)) [0..<InputWireCount c]"

locale garbling_scheme =
  fixes valid :: "Circuit \<Rightarrow> 's \<Rightarrow> bool"
    and label_of :: "Circuit \<Rightarrow> 's \<Rightarrow> nat \<Rightarrow> bool \<Rightarrow> block"
    and run :: "Circuit \<Rightarrow> 's \<Rightarrow> block list \<Rightarrow> bool list result"
  assumes valid_wf: "valid c s \<Longrightarrow> circuit_wf c"
    and run_labels: "valid c s \<Longrightarrow> length L = InputWireCount c \<Longrightarrow>
      (\<And>i. i < InputWireCount c \<Longrightarrow> L ! i = label_of c s i (x i)) \<Longrightarrow>
      run c s L = Inr (circuit_sem c x)"
begin

lemma run_labels_for: "valid c s \<Longrightarrow> run c s (labels_for c (label_of c s) x) = Inr (circuit_sem c x)"
  by (rule run_labels) (simp_all add: labels_for_def)

text \<open>Dual execution: garblings of one circuit from different seeds agree on the same inputs.\<close>

lemma dual_agree:
  assumes "valid c s" and "valid c s'"
  shows "run c s (labels_for c (label_of c s) x) = run c s' (labels_for c (label_of c s') x)"
  using assms by (simp add: run_labels_for)

text \<open>Shares of the inputs: the garbled shared circuit computes the function of the xor.\<close>

lemma run_shared:
  assumes "valid (xorShareInputs c) s" and "circuit_wf c"
    and "length x0 = InputWireCount c" and "length x1 = InputWireCount c"
  shows "run (xorShareInputs c) s (labels_for (xorShareInputs c) (label_of (xorShareInputs c) s) ((!) (x0 @ x1)))
         = Inr (circuit_sem c (\<lambda>i. x0 ! i \<noteq> x1 ! i))"
proof -
  have "circuit_sem c (\<lambda>i. (x0 @ x1) ! i \<noteq> (x0 @ x1) ! (InputWireCount c + i))
      = circuit_sem c (\<lambda>i. x0 ! i \<noteq> x1 ! i)"
    by (rule circuit_sem_cong [OF assms(2)]) (use assms(3) in \<open>simp add: nth_append\<close>)
  then show ?thesis
    using assms(1,2) by (simp add: run_labels_for circuit_sem_xorShare)
qed

end

end
