(* ===== verification/BDX_AES.thy ===== *)
theory BDX_AES
  imports BDX_Prelude
begin

text \<open>
  \<open>Crypto/AES.{h,cpp}\<close>: AES-128 in electronic code book mode on the AES-NI instructions. The
  instructions (\<open>wmmintrin.h\<close>) are modelled on the bytes of a block as the processor manual and
  FIPS-197 define them: the S-box as a table, \<open>ShiftRows\<close> and \<open>MixColumns\<close> on the column-major
  state whose byte \<open>r + 4 c\<close> is row \<open>r\<close> of column \<open>c\<close>.
\<close>

section \<open>The AES-NI instructions\<close>

definition sbox :: "u8 list" where
  "sbox = [
   0x63, 0x7c, 0x77, 0x7b, 0xf2, 0x6b, 0x6f, 0xc5, 0x30, 0x01, 0x67, 0x2b, 0xfe, 0xd7, 0xab, 0x76,
   0xca, 0x82, 0xc9, 0x7d, 0xfa, 0x59, 0x47, 0xf0, 0xad, 0xd4, 0xa2, 0xaf, 0x9c, 0xa4, 0x72, 0xc0,
   0xb7, 0xfd, 0x93, 0x26, 0x36, 0x3f, 0xf7, 0xcc, 0x34, 0xa5, 0xe5, 0xf1, 0x71, 0xd8, 0x31, 0x15,
   0x04, 0xc7, 0x23, 0xc3, 0x18, 0x96, 0x05, 0x9a, 0x07, 0x12, 0x80, 0xe2, 0xeb, 0x27, 0xb2, 0x75,
   0x09, 0x83, 0x2c, 0x1a, 0x1b, 0x6e, 0x5a, 0xa0, 0x52, 0x3b, 0xd6, 0xb3, 0x29, 0xe3, 0x2f, 0x84,
   0x53, 0xd1, 0x00, 0xed, 0x20, 0xfc, 0xb1, 0x5b, 0x6a, 0xcb, 0xbe, 0x39, 0x4a, 0x4c, 0x58, 0xcf,
   0xd0, 0xef, 0xaa, 0xfb, 0x43, 0x4d, 0x33, 0x85, 0x45, 0xf9, 0x02, 0x7f, 0x50, 0x3c, 0x9f, 0xa8,
   0x51, 0xa3, 0x40, 0x8f, 0x92, 0x9d, 0x38, 0xf5, 0xbc, 0xb6, 0xda, 0x21, 0x10, 0xff, 0xf3, 0xd2,
   0xcd, 0x0c, 0x13, 0xec, 0x5f, 0x97, 0x44, 0x17, 0xc4, 0xa7, 0x7e, 0x3d, 0x64, 0x5d, 0x19, 0x73,
   0x60, 0x81, 0x4f, 0xdc, 0x22, 0x2a, 0x90, 0x88, 0x46, 0xee, 0xb8, 0x14, 0xde, 0x5e, 0x0b, 0xdb,
   0xe0, 0x32, 0x3a, 0x0a, 0x49, 0x06, 0x24, 0x5c, 0xc2, 0xd3, 0xac, 0x62, 0x91, 0x95, 0xe4, 0x79,
   0xe7, 0xc8, 0x37, 0x6d, 0x8d, 0xd5, 0x4e, 0xa9, 0x6c, 0x56, 0xf4, 0xea, 0x65, 0x7a, 0xae, 0x08,
   0xba, 0x78, 0x25, 0x2e, 0x1c, 0xa6, 0xb4, 0xc6, 0xe8, 0xdd, 0x74, 0x1f, 0x4b, 0xbd, 0x8b, 0x8a,
   0x70, 0x3e, 0xb5, 0x66, 0x48, 0x03, 0xf6, 0x0e, 0x61, 0x35, 0x57, 0xb9, 0x86, 0xc1, 0x1d, 0x9e,
   0xe1, 0xf8, 0x98, 0x11, 0x69, 0xd9, 0x8e, 0x94, 0x9b, 0x1e, 0x87, 0xe9, 0xce, 0x55, 0x28, 0xdf,
   0x8c, 0xa1, 0x89, 0x0d, 0xbf, 0xe6, 0x42, 0x68, 0x41, 0x99, 0x2d, 0x0f, 0xb0, 0x54, 0xbb, 0x16]"

definition inv_sbox :: "u8 list" where
  "inv_sbox = [
   0x52, 0x09, 0x6a, 0xd5, 0x30, 0x36, 0xa5, 0x38, 0xbf, 0x40, 0xa3, 0x9e, 0x81, 0xf3, 0xd7, 0xfb,
   0x7c, 0xe3, 0x39, 0x82, 0x9b, 0x2f, 0xff, 0x87, 0x34, 0x8e, 0x43, 0x44, 0xc4, 0xde, 0xe9, 0xcb,
   0x54, 0x7b, 0x94, 0x32, 0xa6, 0xc2, 0x23, 0x3d, 0xee, 0x4c, 0x95, 0x0b, 0x42, 0xfa, 0xc3, 0x4e,
   0x08, 0x2e, 0xa1, 0x66, 0x28, 0xd9, 0x24, 0xb2, 0x76, 0x5b, 0xa2, 0x49, 0x6d, 0x8b, 0xd1, 0x25,
   0x72, 0xf8, 0xf6, 0x64, 0x86, 0x68, 0x98, 0x16, 0xd4, 0xa4, 0x5c, 0xcc, 0x5d, 0x65, 0xb6, 0x92,
   0x6c, 0x70, 0x48, 0x50, 0xfd, 0xed, 0xb9, 0xda, 0x5e, 0x15, 0x46, 0x57, 0xa7, 0x8d, 0x9d, 0x84,
   0x90, 0xd8, 0xab, 0x00, 0x8c, 0xbc, 0xd3, 0x0a, 0xf7, 0xe4, 0x58, 0x05, 0xb8, 0xb3, 0x45, 0x06,
   0xd0, 0x2c, 0x1e, 0x8f, 0xca, 0x3f, 0x0f, 0x02, 0xc1, 0xaf, 0xbd, 0x03, 0x01, 0x13, 0x8a, 0x6b,
   0x3a, 0x91, 0x11, 0x41, 0x4f, 0x67, 0xdc, 0xea, 0x97, 0xf2, 0xcf, 0xce, 0xf0, 0xb4, 0xe6, 0x73,
   0x96, 0xac, 0x74, 0x22, 0xe7, 0xad, 0x35, 0x85, 0xe2, 0xf9, 0x37, 0xe8, 0x1c, 0x75, 0xdf, 0x6e,
   0x47, 0xf1, 0x1a, 0x71, 0x1d, 0x29, 0xc5, 0x89, 0x6f, 0xb7, 0x62, 0x0e, 0xaa, 0x18, 0xbe, 0x1b,
   0xfc, 0x56, 0x3e, 0x4b, 0xc6, 0xd2, 0x79, 0x20, 0x9a, 0xdb, 0xc0, 0xfe, 0x78, 0xcd, 0x5a, 0xf4,
   0x1f, 0xdd, 0xa8, 0x33, 0x88, 0x07, 0xc7, 0x31, 0xb1, 0x12, 0x10, 0x59, 0x27, 0x80, 0xec, 0x5f,
   0x60, 0x51, 0x7f, 0xa9, 0x19, 0xb5, 0x4a, 0x0d, 0x2d, 0xe5, 0x7a, 0x9f, 0x93, 0xc9, 0x9c, 0xef,
   0xa0, 0xe0, 0x3b, 0x4d, 0xae, 0x2a, 0xf5, 0xb0, 0xc8, 0xeb, 0xbb, 0x3c, 0x83, 0x53, 0x99, 0x61,
   0x17, 0x2b, 0x04, 0x7e, 0xba, 0x77, 0xd6, 0x26, 0xe1, 0x69, 0x14, 0x63, 0x55, 0x21, 0x0c, 0x7d]"

definition SubByte :: "u8 \<Rightarrow> u8" where
  "SubByte b = sbox ! unat b"

definition InvSubByte :: "u8 \<Rightarrow> u8" where
  "InvSubByte b = inv_sbox ! unat b"

definition ShiftRows :: "u8 list \<Rightarrow> u8 list" where
  "ShiftRows s = map (\<lambda>i. s ! ((i + 4 * (i mod 4)) mod 16)) [0..<16]"

definition InvShiftRows :: "u8 list \<Rightarrow> u8 list" where
  "InvShiftRows s = map (\<lambda>i. s ! ((i + 12 * (i mod 4)) mod 16)) [0..<16]"

definition xtime :: "u8 \<Rightarrow> u8" where
  "xtime b = push_bit 1 b XOR sel 0x1b (bit b 7)"

fun MixColumns :: "u8 list \<Rightarrow> u8 list" where
  "MixColumns (a # b # c # d # s) =
     [xtime a XOR xtime b XOR b XOR c XOR d,
      a XOR xtime b XOR xtime c XOR c XOR d,
      a XOR b XOR xtime c XOR xtime d XOR d,
      xtime a XOR a XOR b XOR c XOR xtime d] @ MixColumns s"
| "MixColumns _ = []"

text \<open>Multiplication by 14, 11, 13 and 9.\<close>

definition mul9 :: "u8 \<Rightarrow> u8" where
  "mul9 b = xtime (xtime (xtime b)) XOR b"

definition mul11 :: "u8 \<Rightarrow> u8" where
  "mul11 b = xtime (xtime (xtime b)) XOR xtime b XOR b"

definition mul13 :: "u8 \<Rightarrow> u8" where
  "mul13 b = xtime (xtime (xtime b)) XOR xtime (xtime b) XOR b"

definition mul14 :: "u8 \<Rightarrow> u8" where
  "mul14 b = xtime (xtime (xtime b)) XOR xtime (xtime b) XOR xtime b"

fun InvMixColumns :: "u8 list \<Rightarrow> u8 list" where
  "InvMixColumns (a # b # c # d # s) =
     [mul14 a XOR mul11 b XOR mul13 c XOR mul9 d,
      mul9 a XOR mul14 b XOR mul11 c XOR mul13 d,
      mul13 a XOR mul9 b XOR mul14 c XOR mul11 d,
      mul11 a XOR mul13 b XOR mul9 c XOR mul14 d] @ InvMixColumns s"
| "InvMixColumns _ = []"

definition mm_aesenc :: "block \<Rightarrow> block \<Rightarrow> block" where
  "mm_aesenc a k = block_of_bytes (MixColumns (map SubByte (ShiftRows (ByteArray a)))) XOR k"

definition mm_aesenclast :: "block \<Rightarrow> block \<Rightarrow> block" where
  "mm_aesenclast a k = block_of_bytes (map SubByte (ShiftRows (ByteArray a))) XOR k"

definition mm_aesdec :: "block \<Rightarrow> block \<Rightarrow> block" where
  "mm_aesdec a k = block_of_bytes (InvMixColumns (map InvSubByte (InvShiftRows (ByteArray a)))) XOR k"

definition mm_aesdeclast :: "block \<Rightarrow> block \<Rightarrow> block" where
  "mm_aesdeclast a k = block_of_bytes (map InvSubByte (InvShiftRows (ByteArray a))) XOR k"

definition mm_aesimc :: "block \<Rightarrow> block" where
  "mm_aesimc a = block_of_bytes (InvMixColumns (ByteArray a))"

text \<open>\<open>aeskeygenassist\<close>: \<open>SubWord\<close> of the odd 32-bit lanes, and its rotation with the round constant.\<close>

definition mm_aeskeygenassist :: "block \<Rightarrow> u8 \<Rightarrow> block" where
  "mm_aeskeygenassist a rcon =
     (let b = map SubByte (ByteArray a) in
      block_of_bytes
        [b!4, b!5, b!6, b!7, b!5 XOR rcon, b!6, b!7, b!4,
         b!12, b!13, b!14, b!15, b!13 XOR rcon, b!14, b!15, b!12])"

text \<open>\<open>_mm_shuffle_epi32 (a, _MM_SHUFFLE (3,3,3,3))\<close> and \<open>_mm_slli_si128 (a, 4)\<close>.\<close>

definition mm_shuffle_3333 :: "block \<Rightarrow> block" where
  "mm_shuffle_3333 a = block_of_bytes (concat (replicate 4 (drop 12 (ByteArray a))))"

definition mm_slli_si128 :: "block \<Rightarrow> nat \<Rightarrow> block" where
  "mm_slli_si128 a n = push_bit (8 * n) a"

section \<open>Key schedules\<close>

record AES_Key =
  mRoundKey :: "block list"

definition Expansion :: "block \<Rightarrow> block \<Rightarrow> block" where
  "Expansion k0 keyRcon0 =
     (let keyRcon = mm_shuffle_3333 keyRcon0;
          key = k0 XOR mm_slli_si128 k0 4;
          key = key XOR mm_slli_si128 key 4;
          key = key XOR mm_slli_si128 key 4
      in key XOR keyRcon)"

definition EncKeyGen :: "block \<Rightarrow> AES_Key" where
  "EncKeyGen userKey =
     (let r0 = userKey;
          r1 = Expansion r0 (mm_aeskeygenassist r0 0x01);
          r2 = Expansion r1 (mm_aeskeygenassist r1 0x02);
          r3 = Expansion r2 (mm_aeskeygenassist r2 0x04);
          r4 = Expansion r3 (mm_aeskeygenassist r3 0x08);
          r5 = Expansion r4 (mm_aeskeygenassist r4 0x10);
          r6 = Expansion r5 (mm_aeskeygenassist r5 0x20);
          r7 = Expansion r6 (mm_aeskeygenassist r6 0x40);
          r8 = Expansion r7 (mm_aeskeygenassist r7 0x80);
          r9 = Expansion r8 (mm_aeskeygenassist r8 0x1B);
          r10 = Expansion r9 (mm_aeskeygenassist r9 0x36)
      in \<lparr>mRoundKey = [r0, r1, r2, r3, r4, r5, r6, r7, r8, r9, r10]\<rparr>)"

definition DecKeyGen :: "block \<Rightarrow> AES_Key" where
  "DecKeyGen userKey =
     (let v0 = userKey;
          v1 = Expansion v0 (mm_aeskeygenassist v0 0x01);
          v2 = Expansion v1 (mm_aeskeygenassist v1 0x02);
          v3 = Expansion v2 (mm_aeskeygenassist v2 0x04);
          v4 = Expansion v3 (mm_aeskeygenassist v3 0x08);
          v5 = Expansion v4 (mm_aeskeygenassist v4 0x10);
          v6 = Expansion v5 (mm_aeskeygenassist v5 0x20);
          v7 = Expansion v6 (mm_aeskeygenassist v6 0x40);
          v8 = Expansion v7 (mm_aeskeygenassist v7 0x80);
          v9 = Expansion v8 (mm_aeskeygenassist v8 0x1B);
          v10 = Expansion v9 (mm_aeskeygenassist v9 0x36)
      in \<lparr>mRoundKey = [v10, mm_aesimc v9, mm_aesimc v8, mm_aesimc v7, mm_aesimc v6, mm_aesimc v5,
                      mm_aesimc v4, mm_aesimc v3, mm_aesimc v2, mm_aesimc v1, v0]\<rparr>)"

definition mAesFixedKey :: AES_Key where
  "mAesFixedKey =
     EncKeyGen (block_of_bytes
       (rev [36, -100, 50, -22, 92, -26, 49, 9, -82, -86, -51, -96, 98, -20, 29, -13]))"

section \<open>Encryption and decryption of blocks\<close>

definition EcbEncBlock :: "AES_Key \<Rightarrow> block \<Rightarrow> block" where
  "EcbEncBlock key src =
     (let rk = mRoundKey key;
          dest = src XOR rk!0;
          dest = mm_aesenc dest (rk!1);
          dest = mm_aesenc dest (rk!2);
          dest = mm_aesenc dest (rk!3);
          dest = mm_aesenc dest (rk!4);
          dest = mm_aesenc dest (rk!5);
          dest = mm_aesenc dest (rk!6);
          dest = mm_aesenc dest (rk!7);
          dest = mm_aesenc dest (rk!8);
          dest = mm_aesenc dest (rk!9)
      in mm_aesenclast dest (rk!10))"

definition EcbDecBlock :: "AES_Key \<Rightarrow> block \<Rightarrow> block" where
  "EcbDecBlock key src =
     (let rk = mRoundKey key;
          dest = src XOR rk!0;
          dest = mm_aesdec dest (rk!1);
          dest = mm_aesdec dest (rk!2);
          dest = mm_aesdec dest (rk!3);
          dest = mm_aesdec dest (rk!4);
          dest = mm_aesdec dest (rk!5);
          dest = mm_aesdec dest (rk!6);
          dest = mm_aesdec dest (rk!7);
          dest = mm_aesdec dest (rk!8);
          dest = mm_aesdec dest (rk!9)
      in mm_aesdeclast dest (rk!10))"

text \<open>The interleaved variants, one instruction per lane and round as in the source.\<close>

definition EcbEncTwoBlocks :: "AES_Key \<Rightarrow> block list \<Rightarrow> block list" where
  "EcbEncTwoBlocks key src =
     (let rk = mRoundKey key;
          d0 = src!0 XOR rk!0;
          d1 = src!1 XOR rk!0;
          d0 = mm_aesenc d0 (rk!1);
          d1 = mm_aesenc d1 (rk!1);
          d0 = mm_aesenc d0 (rk!2);
          d1 = mm_aesenc d1 (rk!2);
          d0 = mm_aesenc d0 (rk!3);
          d1 = mm_aesenc d1 (rk!3);
          d0 = mm_aesenc d0 (rk!4);
          d1 = mm_aesenc d1 (rk!4);
          d0 = mm_aesenc d0 (rk!5);
          d1 = mm_aesenc d1 (rk!5);
          d0 = mm_aesenc d0 (rk!6);
          d1 = mm_aesenc d1 (rk!6);
          d0 = mm_aesenc d0 (rk!7);
          d1 = mm_aesenc d1 (rk!7);
          d0 = mm_aesenc d0 (rk!8);
          d1 = mm_aesenc d1 (rk!8);
          d0 = mm_aesenc d0 (rk!9);
          d1 = mm_aesenc d1 (rk!9);
          d0 = mm_aesenclast d0 (rk!10);
          d1 = mm_aesenclast d1 (rk!10)
      in [d0, d1])"

definition EcbEncFourBlocks :: "AES_Key \<Rightarrow> block list \<Rightarrow> block list" where
  "EcbEncFourBlocks key src =
     (let rk = mRoundKey key;
          d0 = src!0 XOR rk!0;
          d1 = src!1 XOR rk!0;
          d2 = src!2 XOR rk!0;
          d3 = src!3 XOR rk!0;
          d0 = mm_aesenc d0 (rk!1);
          d1 = mm_aesenc d1 (rk!1);
          d2 = mm_aesenc d2 (rk!1);
          d3 = mm_aesenc d3 (rk!1);
          d0 = mm_aesenc d0 (rk!2);
          d1 = mm_aesenc d1 (rk!2);
          d2 = mm_aesenc d2 (rk!2);
          d3 = mm_aesenc d3 (rk!2);
          d0 = mm_aesenc d0 (rk!3);
          d1 = mm_aesenc d1 (rk!3);
          d2 = mm_aesenc d2 (rk!3);
          d3 = mm_aesenc d3 (rk!3);
          d0 = mm_aesenc d0 (rk!4);
          d1 = mm_aesenc d1 (rk!4);
          d2 = mm_aesenc d2 (rk!4);
          d3 = mm_aesenc d3 (rk!4);
          d0 = mm_aesenc d0 (rk!5);
          d1 = mm_aesenc d1 (rk!5);
          d2 = mm_aesenc d2 (rk!5);
          d3 = mm_aesenc d3 (rk!5);
          d0 = mm_aesenc d0 (rk!6);
          d1 = mm_aesenc d1 (rk!6);
          d2 = mm_aesenc d2 (rk!6);
          d3 = mm_aesenc d3 (rk!6);
          d0 = mm_aesenc d0 (rk!7);
          d1 = mm_aesenc d1 (rk!7);
          d2 = mm_aesenc d2 (rk!7);
          d3 = mm_aesenc d3 (rk!7);
          d0 = mm_aesenc d0 (rk!8);
          d1 = mm_aesenc d1 (rk!8);
          d2 = mm_aesenc d2 (rk!8);
          d3 = mm_aesenc d3 (rk!8);
          d0 = mm_aesenc d0 (rk!9);
          d1 = mm_aesenc d1 (rk!9);
          d2 = mm_aesenc d2 (rk!9);
          d3 = mm_aesenc d3 (rk!9);
          d0 = mm_aesenclast d0 (rk!10);
          d1 = mm_aesenclast d1 (rk!10);
          d2 = mm_aesenclast d2 (rk!10);
          d3 = mm_aesenclast d3 (rk!10)
      in [d0, d1, d2, d3])"

text \<open>
  One iteration of the unrolled loop of \<open>EcbEncBlocks\<close>: every round is applied to the eight
  blocks at \<open>k ..< k + 8\<close> before the next round.
\<close>

definition ecb_unrolled :: "AES_Key \<Rightarrow> block list \<Rightarrow> block list \<Rightarrow> nat \<Rightarrow> block list" where
  "ecb_unrolled key src dest k =
     (let rk = mRoundKey key;
          w = map (\<lambda>i. src ! (k + i) XOR rk!0) [0..<8];
          w = map (\<lambda>b. mm_aesenc b (rk!1)) w;
          w = map (\<lambda>b. mm_aesenc b (rk!2)) w;
          w = map (\<lambda>b. mm_aesenc b (rk!3)) w;
          w = map (\<lambda>b. mm_aesenc b (rk!4)) w;
          w = map (\<lambda>b. mm_aesenc b (rk!5)) w;
          w = map (\<lambda>b. mm_aesenc b (rk!6)) w;
          w = map (\<lambda>b. mm_aesenc b (rk!7)) w;
          w = map (\<lambda>b. mm_aesenc b (rk!8)) w;
          w = map (\<lambda>b. mm_aesenc b (rk!9)) w;
          w = map (\<lambda>b. mm_aesenclast b (rk!10)) w
      in blit dest k w)"

text \<open>
  The remainder loop. Its counter is a \<open>u32\<close> compared with the 64-bit \<open>size\<close>, so it need not
  end: then the value is \<open>None\<close>.
\<close>

partial_function (option) ecb_rest ::
  "AES_Key \<Rightarrow> block list \<Rightarrow> nat \<Rightarrow> block list \<Rightarrow> nat \<Rightarrow> block list option" where
  "ecb_rest key src sz dest i =
     (if i < sz
      then ecb_rest key src sz (dest[i := EcbEncBlock key (src ! i)]) ((i + 1) mod 2 ^ 32)
      else Some dest)"

definition EcbEncBlocks :: "AES_Key \<Rightarrow> block list \<Rightarrow> block list \<Rightarrow> nat \<Rightarrow> block list option" where
  "EcbEncBlocks key src dest sz =
     (let mainLoopCount = (sz mod 2 ^ 32) div 8;
          dest = fold (\<lambda>j d. ecb_unrolled key src d (8 * j)) [0..<mainLoopCount] dest
      in ecb_rest key src sz dest (mainLoopCount * 8))"

text \<open>A call whose destination is a freshly sized array of \<open>n\<close> blocks.\<close>

definition ecb_new :: "AES_Key \<Rightarrow> block list \<Rightarrow> nat \<Rightarrow> block list" where
  "ecb_new key src n = the (EcbEncBlocks key src (replicate n 0) n)"

section \<open>The instructions invert each other\<close>

lemma sbox_table: "map (\<lambda>x. inv_sbox ! unat x) sbox = map word_of_nat [0..<256]"
  by code_simp

lemma length_sbox: "length sbox = 256"
  using arg_cong [OF sbox_table, of length] by simp

lemma InvSubByte_SubByte [simp]: "InvSubByte (SubByte b) = b"
proof -
  have b: "unat b < 256" using unsigned_less [of b, where 'a = nat] by simp
  then have "InvSubByte (SubByte b) = map (\<lambda>x. inv_sbox ! unat x) sbox ! unat b"
    by (simp add: InvSubByte_def SubByte_def length_sbox)
  then show ?thesis by (simp only: sbox_table) (simp add: b)
qed

lemma upt_16: "[0..<16] = [0, 1, 2, 3, 4, 5, 6, 7, 8, 9, 10, 11, 12, 13, 14, 15 :: nat]"
  by code_simp

lemma bytes16E:
  assumes "length s = 16"
  obtains a0 a1 a2 a3 a4 a5 a6 a7 a8 a9 a10 a11 a12 a13 a14 a15 where
    "s = [a0, a1, a2, a3, a4, a5, a6, a7, a8, a9, a10, a11, a12, a13, a14, a15]"
proof -
  have "s = map ((!) s) [0..<16]"
    using map_nth [of s] assms by simp
  then show thesis by (intro that) (simp only: upt_16 list.map)
qed

lemma length_ShiftRows [simp]: "length (ShiftRows s) = 16"
  by (simp add: ShiftRows_def)

lemma InvShiftRows_ShiftRows [simp]: "length s = 16 \<Longrightarrow> InvShiftRows (ShiftRows s) = s"
  by (erule bytes16E) (simp add: InvShiftRows_def ShiftRows_def upt_16)

lemma InvShiftRows_map: "length s = 16 \<Longrightarrow> InvShiftRows (map f s) = map f (InvShiftRows s)"
  by (simp add: InvShiftRows_def)

lemma xtime_xor [simp]: "xtime (a XOR b) = xtime a XOR xtime b"
  by (rule bit_word_eqI) (auto simp: xtime_def bit_simps sel_def)

lemma mul_xor [simp]:
  "mul9 (a XOR b) = mul9 a XOR mul9 b"
  "mul11 (a XOR b) = mul11 a XOR mul11 b"
  "mul13 (a XOR b) = mul13 a XOR mul13 b"
  "mul14 (a XOR b) = mul14 a XOR mul14 b"
  by (simp_all add: mul9_def mul11_def mul13_def mul14_def xor_norm)

lemma InvMixColumns_MixColumns:
  "length s mod 4 = 0 \<Longrightarrow> InvMixColumns (MixColumns s) = s"
proof (induction s rule: MixColumns.induct)
  case (1 a b c d s)
  then have "InvMixColumns (MixColumns s) = s" by simp
  moreover have
    "mul14 (xtime a XOR xtime b XOR b XOR c XOR d) XOR mul11 (a XOR xtime b XOR xtime c XOR c XOR d)
     XOR mul13 (a XOR b XOR xtime c XOR xtime d XOR d) XOR mul9 (xtime a XOR a XOR b XOR c XOR xtime d) = a"
    "mul9 (xtime a XOR xtime b XOR b XOR c XOR d) XOR mul14 (a XOR xtime b XOR xtime c XOR c XOR d)
     XOR mul11 (a XOR b XOR xtime c XOR xtime d XOR d) XOR mul13 (xtime a XOR a XOR b XOR c XOR xtime d) = b"
    "mul13 (xtime a XOR xtime b XOR b XOR c XOR d) XOR mul9 (a XOR xtime b XOR xtime c XOR c XOR d)
     XOR mul14 (a XOR b XOR xtime c XOR xtime d XOR d) XOR mul11 (xtime a XOR a XOR b XOR c XOR xtime d) = c"
    "mul11 (xtime a XOR xtime b XOR b XOR c XOR d) XOR mul13 (a XOR xtime b XOR xtime c XOR c XOR d)
     XOR mul9 (a XOR b XOR xtime c XOR xtime d XOR d) XOR mul14 (xtime a XOR a XOR b XOR c XOR xtime d) = d"
    by (simp_all add: mul9_def mul11_def mul13_def mul14_def xor_norm)
  ultimately show ?case by simp
qed simp_all

lemma length_MixColumns: "length s mod 4 = 0 \<Longrightarrow> length (MixColumns s) = length s"
  by (induction s rule: MixColumns.induct) simp_all

lemma length_InvMixColumns: "length s mod 4 = 0 \<Longrightarrow> length (InvMixColumns s) = length s"
  by (induction s rule: InvMixColumns.induct) simp_all

lemma InvMixColumns_xor:
  "length s = length t \<Longrightarrow>
   InvMixColumns (map2 (XOR) s t) = map2 (XOR) (InvMixColumns s) (InvMixColumns t)"
proof (induction s arbitrary: t rule: InvMixColumns.induct)
  case (1 a b c d s)
  then obtain e f g h u where "t = e # f # g # h # u" "length s = length u"
    by (cases t rule: InvMixColumns.cases) auto
  then show ?case using "1.IH" [of u] by (simp add: xor_norm)
qed (auto simp: Suc_length_conv length_Suc_conv)

lemma ByteArray_xor: "ByteArray (a XOR b) = map2 (XOR) (ByteArray a) (ByteArray b)"
  by (rule nth_equalityI) (auto simp: block_bits bit_simps intro!: bit_word_eqI)

lemma mm_aesimc_xor: "mm_aesimc (a XOR b) = mm_aesimc a XOR mm_aesimc b"
proof -
  have "ByteArray (mm_aesimc (a XOR b)) = ByteArray (mm_aesimc a XOR mm_aesimc b)"
    by (simp add: mm_aesimc_def ByteArray_of_bytes ByteArray_xor InvMixColumns_xor length_InvMixColumns)
  then show ?thesis by simp
qed

text \<open>The state between the rounds of the equivalent inverse cipher.\<close>

definition sub_shift :: "block \<Rightarrow> block" where
  "sub_shift a = block_of_bytes (map SubByte (ShiftRows (ByteArray a)))"

lemma inv_sub_shift: "map InvSubByte (InvShiftRows (ByteArray (sub_shift a))) = ByteArray a"
  by (simp add: sub_shift_def ByteArray_of_bytes InvShiftRows_map comp_def)

lemma mm_aesdec_sub_shift: "mm_aesdec (sub_shift a) (mm_aesimc k) = mm_aesimc (a XOR k)"
  by (simp add: mm_aesdec_def inv_sub_shift mm_aesimc_xor) (simp add: mm_aesimc_def)

lemma mm_aesdeclast_sub_shift: "mm_aesdeclast (sub_shift a) k = a XOR k"
  by (simp add: mm_aesdeclast_def inv_sub_shift)

lemma mm_aesimc_enc: "mm_aesimc (mm_aesenc a k XOR k) = sub_shift a"
  by (simp add: mm_aesenc_def mm_aesimc_def sub_shift_def ByteArray_of_bytes length_MixColumns
      InvMixColumns_MixColumns)

lemma mm_aesdec_round: "mm_aesdec (sub_shift (mm_aesenc a k)) (mm_aesimc k) = sub_shift a"
  by (simp add: mm_aesdec_sub_shift mm_aesimc_enc)

lemma mm_aesenclast_sub_shift: "mm_aesenclast a k XOR k = sub_shift a"
  by (simp add: mm_aesenclast_def sub_shift_def)

lemma ecb_dec_enc: "EcbDecBlock (DecKeyGen k) (EcbEncBlock (EncKeyGen k) b) = b"
  by (simp add: EcbDecBlock_def EcbEncBlock_def DecKeyGen_def EncKeyGen_def Let_def
      mm_aesenclast_sub_shift mm_aesdec_round mm_aesdeclast_sub_shift)

section \<open>The batched variants encrypt block by block\<close>

lemma EcbEncTwoBlocks_eq: "EcbEncTwoBlocks key src = [EcbEncBlock key (src!0), EcbEncBlock key (src!1)]"
  by (simp add: EcbEncTwoBlocks_def EcbEncBlock_def Let_def)

lemma EcbEncFourBlocks_eq:
  "EcbEncFourBlocks key src =
     [EcbEncBlock key (src!0), EcbEncBlock key (src!1), EcbEncBlock key (src!2), EcbEncBlock key (src!3)]"
  by (simp add: EcbEncFourBlocks_def EcbEncBlock_def Let_def)

lemma ecb_unrolled_eq:
  assumes "k + 8 \<le> length src"
  shows "ecb_unrolled key src dest k = blit dest k (map (EcbEncBlock key) (take 8 (drop k src)))"
proof -
  have "map (\<lambda>i. EcbEncBlock key (src ! (k + i))) [0..<8] = map (EcbEncBlock key) (take 8 (drop k src))"
    by (rule nth_equalityI) (use assms in auto)
  then show ?thesis
    by (simp add: ecb_unrolled_def EcbEncBlock_def Let_def comp_def)
qed

lemma ecb_main_loop:
  assumes "8 * m \<le> length src" and "8 * m \<le> length dest"
  shows "fold (\<lambda>j d. ecb_unrolled key src d (8 * j)) [0..<m] dest
         = map (EcbEncBlock key) (take (8 * m) src) @ drop (8 * m) dest"
  using assms
proof (induction m)
  case (Suc m)
  then have l: "8 * m + 8 \<le> length src" and m: "length (take (8 * m) src) = 8 * m"
    and w: "length (take 8 (drop (8 * m) src)) = 8" by simp_all
  have "take (8 * m + 8) src = take (8 * m) src @ take 8 (drop (8 * m) src)" by (rule take_add)
  moreover have "fold (\<lambda>j d. ecb_unrolled key src d (8 * j)) [0..<Suc m] dest
      = blit (map (EcbEncBlock key) (take (8 * m) src) @ drop (8 * m) dest) (8 * m)
          (map (EcbEncBlock key) (take 8 (drop (8 * m) src)))"
    using Suc l by (simp add: ecb_unrolled_eq)
  ultimately show ?case
    using m w by (simp add: blit_def add.commute del: length_take)
qed simp

lemma ecb_rest_eq:
  assumes "i \<le> sz" and "sz < 2 ^ 32" and "sz \<le> length src" and "sz \<le> length dest"
  shows "ecb_rest key src sz dest i
         = Some (take i dest @ map (EcbEncBlock key) (drop i (take sz src)) @ drop sz dest)"
  using assms
proof (induction "sz - i" arbitrary: i dest)
  case 0
  then show ?case by (simp add: ecb_rest.simps)
next
  case (Suc n)
  then have i: "i < sz" by simp
  have src: "drop i (take sz src) = src ! i # drop (Suc i) (take sz src)"
    using i Suc.prems Cons_nth_drop_Suc [of i "take sz src"] by simp
  have "ecb_rest key src sz dest i
        = ecb_rest key src sz (dest[i := EcbEncBlock key (src ! i)]) (Suc i)"
    using i Suc.prems by (subst ecb_rest.simps) simp
  also have "\<dots> = Some (take (Suc i) (dest[i := EcbEncBlock key (src ! i)])
      @ map (EcbEncBlock key) (drop (Suc i) (take sz src)) @ drop sz (dest[i := EcbEncBlock key (src ! i)]))"
    by (rule Suc.hyps(1)) (use i Suc.prems Suc.hyps(2) in auto)
  also have "take (Suc i) (dest[i := EcbEncBlock key (src ! i)]) = take i dest @ [EcbEncBlock key (src ! i)]"
    using i Suc.prems by (simp add: take_Suc_conv_app_nth)
  finally show ?case using i by (simp add: src)
qed

lemma EcbEncBlocks_eq:
  assumes "sz < 2 ^ 32" and "sz \<le> length src" and "sz \<le> length dest"
  shows "EcbEncBlocks key src dest sz = Some (map (EcbEncBlock key) (take sz src) @ drop sz dest)"
proof -
  define m where "m = sz div 8"
  let ?f = "map (EcbEncBlock key)"
  let ?d = "?f (take (8 * m) src) @ drop (8 * m) dest"
  have m: "8 * m \<le> sz" by (simp add: m_def)
  then have l: "length (take (8 * m) src) = 8 * m" using assms by simp
  have "EcbEncBlocks key src dest sz = ecb_rest key src sz ?d (8 * m)"
    using ecb_main_loop [of m src dest key] m assms
    by (simp add: EcbEncBlocks_def m_def [symmetric] mult.commute)
  also have "\<dots> = Some (take (8 * m) ?d @ ?f (drop (8 * m) (take sz src)) @ drop sz ?d)"
    by (rule ecb_rest_eq) (use m assms in simp_all)
  also have "take (8 * m) ?d = ?f (take (8 * m) (take sz src))" using l m by (simp add: min_def)
  also have "drop sz ?d = drop sz dest" using l m assms by simp
  finally show ?thesis
    by (simp only: append_assoc [symmetric] map_append [symmetric] append_take_drop_id)
qed

lemma ecb_new_eq:
  "n < 2 ^ 32 \<Longrightarrow> n \<le> length src \<Longrightarrow> ecb_new key src n = map (EcbEncBlock key) (take n src)"
  by (simp add: ecb_new_def EcbEncBlocks_eq)

section \<open>The cipher as an interface\<close>

text \<open>
  What the garbled gates rely on: under the schedules of one key decryption inverts encryption.
  Clients: a cipher is injective, and two-key encryption peels off in the opposite order.
\<close>

locale block_cipher =
  fixes enc_sched :: "'k \<Rightarrow> 'es" and dec_sched :: "'k \<Rightarrow> 'ds"
    and enc :: "'es \<Rightarrow> 'b \<Rightarrow> 'b" and dec :: "'ds \<Rightarrow> 'b \<Rightarrow> 'b"
  assumes dec_enc: "dec (dec_sched k) (enc (enc_sched k) x) = x"
begin

lemma enc_inject: "enc (enc_sched k) x = enc (enc_sched k) y \<longleftrightarrow> x = y"
  by (metis dec_enc)

lemma dec_enc_two:
  "dec (dec_sched a) (dec (dec_sched b) (enc (enc_sched b) (enc (enc_sched a) x))) = x"
  by (simp add: dec_enc)

lemma distinct_counters:
  "inj_on f A \<Longrightarrow> inj_on (\<lambda>i. enc (enc_sched k) (f i)) A"
  by (simp add: inj_on_def enc_inject)

end

interpretation aes: block_cipher EncKeyGen DecKeyGen EcbEncBlock EcbDecBlock
  by unfold_locales (rule ecb_dec_enc)

section \<open>Properties\<close>

text \<open>C40. AES-128 decryption under the decryption schedule of a key (the equivalent inverse cipher
  on \<open>aesimc\<close>-transformed round keys) inverts encryption under the encryption schedule, for every
  key and block.\<close>

theorem aes_decrypt_encrypt: "EcbDecBlock (DecKeyGen k) (EcbEncBlock (EncKeyGen k) b) = b"
  by (rule ecb_dec_enc)

text \<open>\<open>EcbEncBlocks\<close> with its loop unrolled by eight, its 32-bit counters and its remainder loop
  returns for every size below \<open>2^32\<close>, writes the encryption of block \<open>i\<close> at index \<open>i\<close>, and leaves
  the destination beyond the size alone.\<close>

theorem aes_batch_correct:
  assumes "sz < 2 ^ 32" and "sz \<le> length src" and "sz \<le> length dest"
  shows "EcbEncBlocks key src dest sz = Some (map (EcbEncBlock key) (take sz src) @ drop sz dest)"
  using assms by (rule EcbEncBlocks_eq)

theorem aes_batch_correct_witness:
  "EcbEncBlocks mAesFixedKey (replicate 11 5) (replicate 12 0) 9
   = Some (map (EcbEncBlock mAesFixedKey) (take 9 (replicate 11 5)) @ drop 9 (replicate 12 0))"
  by (rule aes_batch_correct) simp_all

end
