(* ===== verification/BDX_ByteStream.thy ===== *)
theory BDX_ByteStream
  imports BDX_BitVector
begin

text \<open>
  \<open>Common/ByteStream.{h,cpp}\<close>: the buffer packed and sent over a channel. \<open>bs_data\<close> has
  length \<open>mxlen\<close>; a byte that was allocated with \<open>new u8[n]\<close> and never written is
  \<open>None\<close>. \<open>bs_w\<close> and \<open>bs_r\<close> are \<open>mWriteHead\<close> and \<open>mReadHead\<close>.
\<close>

record bytestream =
  bs_data :: "u8 option list"
  bs_w :: nat
  bs_r :: nat

definition bs_mxlen :: "bytestream \<Rightarrow> nat" where
  "bs_mxlen s = length (bs_data s)"

section \<open>Construction and capacity\<close>

definition bs_new :: "nat \<Rightarrow> bytestream" where
  "bs_new maxlen = \<lparr>bs_data = replicate maxlen None, bs_w = 0, bs_r = 0\<rparr>"

definition bs_reserve :: "bytestream \<Rightarrow> nat \<Rightarrow> bytestream" where
  "bs_reserve s l =
     (if l < bs_mxlen s then s
      else s\<lparr>bs_data := take (bs_w s) (bs_data s) @ replicate (2 * l - bs_w s) None\<rparr>)"

definition bs_clone :: "bytestream \<Rightarrow> bytestream" where
  "bs_clone os = \<lparr>bs_data = blit (replicate (bs_mxlen os) None) 0 (take (bs_w os) (bs_data os)),
                  bs_w = bs_w os, bs_r = bs_r os\<rparr>"

definition bs_assign :: "bytestream \<Rightarrow> bytestream \<Rightarrow> bytestream" where
  "bs_assign s os =
     (let d = (if bs_w os \<ge> bs_mxlen s then replicate (bs_mxlen os) None else bs_data s)
      in \<lparr>bs_data = blit d 0 (take (bs_w os) (bs_data os)), bs_w = bs_w os, bs_r = bs_r os\<rparr>)"

text \<open>Head positions, with the range checks that throw.\<close>

definition bs_setg :: "bytestream \<Rightarrow> nat \<Rightarrow> bytestream result" where
  "bs_setg s loc = (if loc > bs_w s then Inl RuntimeError else Inr (s\<lparr>bs_r := loc\<rparr>))"

definition bs_setp :: "bytestream \<Rightarrow> nat \<Rightarrow> bytestream result" where
  "bs_setp s loc =
     (if loc > bs_mxlen s then Inl RuntimeError
      else Inr (s\<lparr>bs_w := loc, bs_r := min (bs_r s) loc\<rparr>))"

definition bs_resize :: "bytestream \<Rightarrow> nat \<Rightarrow> bytestream result" where
  "bs_resize s sz = bs_setp (bs_reserve s sz) sz"

text \<open>\<open>ChannelBufferResize\<close>: room for a received message, both heads reset.\<close>

definition bs_channel_resize :: "bytestream \<Rightarrow> nat \<Rightarrow> bytestream" where
  "bs_channel_resize s len =
     s\<lparr>bs_data := (if len > bs_mxlen s then replicate (len * 2) None else bs_data s),
       bs_w := len, bs_r := 0\<rparr>"

text \<open>Writing through \<open>data()\<close>, as \<open>setp\<close> users and the network do.\<close>

definition bs_fill :: "bytestream \<Rightarrow> u8 list \<Rightarrow> bytestream" where
  "bs_fill s bytes = s\<lparr>bs_data := blit (bs_data s) 0 (map Some bytes)\<rparr>"

section \<open>Appending and consuming\<close>

definition bs_append :: "bytestream \<Rightarrow> u8 list \<Rightarrow> bytestream" where
  "bs_append s x =
     (let t = bs_reserve s (bs_w s + length x)
      in t\<lparr>bs_data := blit (bs_data t) (bs_w s) (map Some x), bs_w := bs_w s + length x\<rparr>)"

definition bs_of_bytes :: "u8 list \<Rightarrow> bytestream" where
  "bs_of_bytes x = bs_append (bs_new 0) x"

definition bs_append_block :: "bytestream \<Rightarrow> block \<Rightarrow> bytestream" where
  "bs_append_block s b = bs_append s (ByteArray b)"

definition bs_append_bitvec :: "bytestream \<Rightarrow> bitvec \<Rightarrow> bytestream" where
  "bs_append_bitvec s v = bs_append s (take (bv_sizeBytes v) (bv_data v))"

definition bs_concat :: "bytestream \<Rightarrow> bytestream \<Rightarrow> bytestream" where
  "bs_concat s os =
     (let t = bs_reserve s (bs_w s + bs_w os)
      in t\<lparr>bs_data := blit (bs_data t) (bs_w s) (take (bs_w os) (bs_data os)),
           bs_w := bs_w s + bs_w os\<rparr>)"

text \<open>The check adds in 64 bits.\<close>

definition bs_consume :: "bytestream \<Rightarrow> nat \<Rightarrow> (u8 option list \<times> bytestream) result" where
  "bs_consume s l =
     (if (bs_r s + l) mod 2 ^ 64 > bs_w s then Inl RuntimeError
      else Inr (take l (drop (bs_r s) (bs_data s)), s\<lparr>bs_r := bs_r s + l\<rparr>))"

definition bs_equals :: "bytestream \<Rightarrow> bytestream \<Rightarrow> bool" where
  "bs_equals s a =
     (if bs_w s \<noteq> bs_w a then False
      else \<forall>i\<in>set [0..<bs_w s]. bs_data s ! i = bs_data a ! i)"

section \<open>Length-prefixed fields\<close>

definition encode_u32 :: "u32 \<Rightarrow> u8 list" where
  "encode_u32 m =
     [ucast (m AND 255), ucast (drop_bit 8 m AND 255), ucast (drop_bit 16 m AND 255),
      ucast (drop_bit 24 m AND 255)]"

definition decode_u32 :: "u8 list \<Rightarrow> u32" where
  "decode_u32 b = ucast (b ! 0) + 256 * ucast (b ! 1) + 65536 * ucast (b ! 2)
                  + 16777216 * ucast (b ! 3)"

definition bs_store_bytes :: "bytestream \<Rightarrow> u8 list \<Rightarrow> bytestream" where
  "bs_store_bytes s x =
     (let t = bs_reserve s (bs_w s + 4 + length x);
          u = t\<lparr>bs_data := blit (bs_data t) (bs_w t) (map Some (encode_u32 (word_of_nat (length x)))),
                bs_w := bs_w t + 4\<rparr>
      in u\<lparr>bs_data := blit (bs_data u) (bs_w u) (map Some x), bs_w := bs_w u + length x\<rparr>)"

text \<open>
  \<open>get_bytes\<close> makes no check. The result is \<open>None\<close> where the code has undefined
  behaviour: it would read outside the allocation or use an unwritten byte as length.
\<close>

definition bs_get_bytes :: "bytestream \<Rightarrow> (u8 option list \<times> bytestream) option" where
  "bs_get_bytes s =
     (let hd4 = take 4 (drop (bs_r s) (bs_data s)) in
      if length hd4 < 4 \<or> None \<in> set hd4 then None
      else let len = unat (decode_u32 (map the hd4)); r = bs_r s + 4 in
           if r + len > bs_mxlen s then None
           else Some (take len (drop r (bs_data s)), s\<lparr>bs_r := r + len\<rparr>))"

section \<open>Invariant and abstraction\<close>

definition bs_wf :: "bytestream \<Rightarrow> bool" where
  "bs_wf s \<longleftrightarrow> bs_r s \<le> bs_w s \<and> bs_w s \<le> bs_mxlen s \<and> bs_mxlen s < 2 ^ 63"

definition bs_unread :: "bytestream \<Rightarrow> u8 option list" where
  "bs_unread s = drop (bs_r s) (take (bs_w s) (bs_data s))"

text \<open>A size that can be appended without exhausting the 64-bit address space.\<close>

definition bs_room :: "bytestream \<Rightarrow> nat \<Rightarrow> bool" where
  "bs_room s n \<longleftrightarrow> bs_w s + n < 2 ^ 62"

lemma bs_wf_new: "n < 2 ^ 63 \<Longrightarrow> bs_wf (bs_new n)"
  by (simp add: bs_wf_def bs_new_def bs_mxlen_def)

lemma bs_w_new [simp]: "bs_w (bs_new n) = 0"
  by (simp add: bs_new_def)

lemma bs_unread_new [simp]: "bs_unread (bs_new n) = []"
  by (simp add: bs_unread_def bs_new_def)

lemma bs_reserve_simps [simp]:
  "bs_w (bs_reserve s l) = bs_w s"
  "bs_r (bs_reserve s l) = bs_r s"
  by (simp_all add: bs_reserve_def)

lemma bs_reserve_capacity: "bs_wf s \<Longrightarrow> l \<le> bs_mxlen (bs_reserve s l)"
  by (auto simp: bs_reserve_def bs_mxlen_def bs_wf_def)

lemma bs_reserve_take: "bs_wf s \<Longrightarrow> n \<le> bs_w s \<Longrightarrow> take n (bs_data (bs_reserve s l)) = take n (bs_data s)"
  by (auto simp: bs_reserve_def bs_wf_def bs_mxlen_def)

lemma bs_wf_reserve: "bs_wf s \<Longrightarrow> l < 2 ^ 62 \<Longrightarrow> bs_wf (bs_reserve s l)"
  by (auto simp: bs_reserve_def bs_wf_def bs_mxlen_def)

lemma bs_unread_reserve: "bs_wf s \<Longrightarrow> bs_unread (bs_reserve s l) = bs_unread s"
  by (simp add: bs_unread_def bs_reserve_take)

text \<open>A raw write at the write head after reserving, shared by all the appending operations.\<close>

lemma blit_at_write_head:
  assumes "bs_wf t" and "bs_w t + length x \<le> bs_mxlen t"
  defines "u \<equiv> t\<lparr>bs_data := blit (bs_data t) (bs_w t) x, bs_w := bs_w t + length x\<rparr>"
  shows "bs_wf u" and "bs_unread u = bs_unread t @ x"
proof -
  show "bs_wf u" using assms by (simp add: bs_wf_def bs_mxlen_def)
  show "bs_unread u = bs_unread t @ x"
    using assms by (simp add: bs_unread_def take_blit_prefix bs_wf_def bs_mxlen_def)
qed

lemma bs_append_unread:
  assumes "bs_wf s" and "bs_room s (length x)"
  shows "bs_wf (bs_append s x)" and "bs_unread (bs_append s x) = bs_unread s @ map Some x"
proof -
  let ?t = "bs_reserve s (bs_w s + length x)"
  have w: "bs_wf ?t" using assms by (simp add: bs_wf_reserve bs_room_def)
  have c: "bs_w ?t + length (map Some x) \<le> bs_mxlen ?t"
    using bs_reserve_capacity [OF assms(1), of "bs_w s + length x"] by simp
  have eq: "bs_append s x = ?t\<lparr>bs_data := blit (bs_data ?t) (bs_w ?t) (map Some x),
      bs_w := bs_w ?t + length (map Some x)\<rparr>"
    by (simp add: bs_append_def Let_def)
  show "bs_wf (bs_append s x)" unfolding eq by (rule blit_at_write_head [OF w c])
  show "bs_unread (bs_append s x) = bs_unread s @ map Some x"
    unfolding eq using blit_at_write_head(2) [OF w c] assms(1) by (simp add: bs_unread_reserve)
qed

lemma bs_w_append [simp]: "bs_w (bs_append s x) = bs_w s + length x"
  by (simp add: bs_append_def Let_def)

lemma bs_consume_ok:
  assumes "bs_wf s" and "l \<le> length (bs_unread s)"
  shows "bs_consume s l = Inr (take l (bs_unread s), s\<lparr>bs_r := bs_r s + l\<rparr>)"
    and "bs_wf (s\<lparr>bs_r := bs_r s + l\<rparr>)"
    and "bs_unread (s\<lparr>bs_r := bs_r s + l\<rparr>) = drop l (bs_unread s)"
proof -
  have b: "bs_r s + l \<le> bs_w s" "bs_w s \<le> length (bs_data s)" "bs_w s < 2 ^ 64"
    using assms by (auto simp: bs_wf_def bs_unread_def bs_mxlen_def)
  then have "take l (drop (bs_r s) (bs_data s)) = take l (bs_unread s)"
    by (simp add: bs_unread_def drop_take)
  moreover have "(bs_r s + l) mod 2 ^ 64 = bs_r s + l" using b by simp
  ultimately show "bs_consume s l = Inr (take l (bs_unread s), s\<lparr>bs_r := bs_r s + l\<rparr>)"
    using b by (simp add: bs_consume_def)
  show "bs_wf (s\<lparr>bs_r := bs_r s + l\<rparr>)" using b assms by (simp add: bs_wf_def bs_mxlen_def)
  show "bs_unread (s\<lparr>bs_r := bs_r s + l\<rparr>) = drop l (bs_unread s)"
    by (simp add: bs_unread_def add.commute)
qed

lemma bs_consume_short:
  "bs_wf s \<Longrightarrow> length (bs_unread s) < l \<Longrightarrow> l < 2 ^ 63 \<Longrightarrow> bs_consume s l = Inl RuntimeError"
  by (auto simp: bs_consume_def bs_wf_def bs_unread_def bs_mxlen_def)

section \<open>The stream as a first-in first-out queue\<close>

text \<open>A reader that takes chunks of given lengths, stopping at the first failure.\<close>

fun get_seq :: "('s \<Rightarrow> nat \<Rightarrow> ('y list \<times> 's) result) \<Rightarrow> 's \<Rightarrow> nat list \<Rightarrow> ('y list list \<times> 's) result" where
  "get_seq get s [] = Inr ([], s)"
| "get_seq get s (l # ls) =
     bind_r (get s l) (\<lambda>(x, t). bind_r (get_seq get t ls) (\<lambda>(xs, u). Inr (x # xs, u)))"

text \<open>
  What users of a stream rely on: whatever was appended and not consumed comes out in order.
  Client: a message packed field by field is unpacked field by field.
\<close>

locale byte_fifo =
  fixes put :: "'s \<Rightarrow> 'x list \<Rightarrow> 's"
    and get :: "'s \<Rightarrow> nat \<Rightarrow> ('y list \<times> 's) result"
    and unread :: "'s \<Rightarrow> 'y list"
    and ok :: "'s \<Rightarrow> bool"
    and room :: "'s \<Rightarrow> nat \<Rightarrow> bool"
    and embed :: "'x \<Rightarrow> 'y"
  assumes put_ok: "ok s \<Longrightarrow> room s (length x) \<Longrightarrow> ok (put s x)"
    and put_unread: "ok s \<Longrightarrow> room s (length x) \<Longrightarrow> unread (put s x) = unread s @ map embed x"
    and put_room: "room s (length x + n) \<Longrightarrow> room (put s x) n"
    and room_mono: "room s (m + n) \<Longrightarrow> room s m"
    and get_unread: "ok s \<Longrightarrow> l \<le> length (unread s) \<Longrightarrow>
      \<exists>t. get s l = Inr (take l (unread s), t) \<and> ok t \<and> unread t = drop l (unread s)"
begin

lemma put_all:
  assumes "ok s" and "room s (length (concat xss))"
  shows "ok (fold (\<lambda>x t. put t x) xss s)"
    and "unread (fold (\<lambda>x t. put t x) xss s) = unread s @ map embed (concat xss)"
proof -
  have "ok (fold (\<lambda>x t. put t x) xss s) \<and>
        unread (fold (\<lambda>x t. put t x) xss s) = unread s @ map embed (concat xss)"
    using assms
  proof (induction xss arbitrary: s)
    case (Cons x xss)
    then have r: "room s (length x)" and r': "room (put s x) (length (concat xss))"
      using room_mono [of s "length x"] put_room [of s x] by simp_all
    then show ?case
      using Cons.IH [OF put_ok r'] Cons.prems by (simp add: put_unread)
  qed simp
  then show "ok (fold (\<lambda>x t. put t x) xss s)"
    and "unread (fold (\<lambda>x t. put t x) xss s) = unread s @ map embed (concat xss)"
    by simp_all
qed

lemma get_all:
  assumes "ok s" and "unread s = concat yss @ rest"
  shows "\<exists>t. get_seq get s (map length yss) = Inr (yss, t) \<and> ok t \<and> unread t = rest"
  using assms
proof (induction yss arbitrary: s)
  case (Cons y yss)
  then obtain t where t: "get s (length y) = Inr (y, t)" "ok t" "unread t = concat yss @ rest"
    using get_unread [of s "length y"] by auto
  then obtain u where "get_seq get t (map length yss) = Inr (yss, u)" "ok u" "unread u = rest"
    using Cons.IH by blast
  with t show ?case by simp
qed simp

lemma pack_unpack:
  assumes "ok s" and "unread s = []" and "room s (length (concat xss))"
  shows "\<exists>t. get_seq get (fold (\<lambda>x t. put t x) xss s) (map length xss) = Inr (map (map embed) xss, t)
             \<and> unread t = []"
  using get_all [OF put_all(1) [OF assms(1,3)], of "map (map embed) xss" "[]"]
    put_all(2) [OF assms(1,3)] assms(2)
  by (auto simp: map_concat comp_def)

end

interpretation bsq: byte_fifo bs_append bs_consume bs_unread bs_wf bs_room Some
proof unfold_locales
  fix s :: bytestream and l :: nat
  assume "bs_wf s" and "l \<le> length (bs_unread s)"
  then show "\<exists>t. bs_consume s l = Inr (take l (bs_unread s), t) \<and> bs_wf t
                 \<and> bs_unread t = drop l (bs_unread s)"
    using bs_consume_ok by blast
qed (simp_all add: bs_append_unread bs_room_def)

section \<open>Length-prefixed fields\<close>

lemma decode_encode_u32: "decode_u32 (encode_u32 m) = m"
proof -
  have w: "(256 :: u32) * x = push_bit 8 x" "(65536 :: u32) * x = push_bit 16 x"
    "(16777216 :: u32) * x = push_bit 24 x" for x
    by (simp_all add: push_bit_eq_mult)
  have m255: "(255 :: u32) = mask 8" by (simp add: mask_eq_exp_minus_1)
  define b :: "nat \<Rightarrow> u32" where "b k = ucast (ucast (drop_bit k m AND 255) :: u8)" for k
  have b: "bit (b k) n \<longleftrightarrow> n < 8 \<and> bit m (k + n)" for k n
    by (auto simp: b_def m255 bit_simps dest: bit_imp_le_length)
  have "b 0 + push_bit 8 (b 8) = b 0 OR push_bit 8 (b 8)"
    by (rule disjunctive_add) (auto simp: b bit_push_bit_iff)
  moreover have "(b 0 OR push_bit 8 (b 8)) + push_bit 16 (b 16)
      = (b 0 OR push_bit 8 (b 8)) OR push_bit 16 (b 16)"
    by (rule disjunctive_add) (auto simp: b bit_push_bit_iff bit_or_iff)
  moreover have "((b 0 OR push_bit 8 (b 8)) OR push_bit 16 (b 16)) + push_bit 24 (b 24)
      = ((b 0 OR push_bit 8 (b 8)) OR push_bit 16 (b 16)) OR push_bit 24 (b 24)"
    by (rule disjunctive_add) (auto simp: b bit_push_bit_iff bit_or_iff)
  moreover have "((b 0 OR push_bit 8 (b 8)) OR push_bit 16 (b 16)) OR push_bit 24 (b 24) = m"
  proof (rule bit_word_eqI)
    fix n assume "n < LENGTH(32)"
    then consider "n < 8" | "8 \<le> n" "n < 16" | "16 \<le> n" "n < 24" | "24 \<le> n" "n < 32"
      by fastforce
    then show "bit (((b 0 OR push_bit 8 (b 8)) OR push_bit 16 (b 16)) OR push_bit 24 (b 24)) n = bit m n"
      by cases (simp_all add: b bit_push_bit_iff bit_or_iff less_diff_conv2)
  qed
  moreover have "decode_u32 (encode_u32 m) = b 0 + 256 * b 8 + 65536 * b 16 + 16777216 * b 24"
    by (simp add: decode_u32_def encode_u32_def b_def)
  ultimately show ?thesis by (simp only: w)
qed

lemma length_encode_u32 [simp]: "length (encode_u32 m) = 4"
  by (simp add: encode_u32_def)

text \<open>\<open>store_bytes\<close> is the append of the length field and of the bytes, reserved at once.\<close>

lemma bs_store_unread:
  assumes "bs_wf s" and "bs_room s (4 + length x)"
  shows "bs_wf (bs_store_bytes s x)"
    and "bs_unread (bs_store_bytes s x)
         = bs_unread s @ map Some (encode_u32 (word_of_nat (length x))) @ map Some x"
    and "bs_w (bs_store_bytes s x) = bs_w s + 4 + length x"
    and "bs_r (bs_store_bytes s x) = bs_r s"
proof -
  let ?t = "bs_reserve s (bs_w s + 4 + length x)"
  let ?h = "map Some (encode_u32 (word_of_nat (length x)))"
  let ?u = "?t\<lparr>bs_data := blit (bs_data ?t) (bs_w ?t) ?h, bs_w := bs_w ?t + length ?h\<rparr>"
  have w: "bs_wf ?t" using assms by (simp add: bs_wf_reserve bs_room_def)
  have c: "bs_w s + 4 + length x \<le> bs_mxlen ?t"
    by (rule bs_reserve_capacity [OF assms(1)])
  have wu: "bs_wf ?u" and ru: "bs_unread ?u = bs_unread ?t @ ?h"
    using blit_at_write_head [OF w, of ?h] c by simp_all
  have eq: "bs_store_bytes s x = ?u\<lparr>bs_data := blit (bs_data ?u) (bs_w ?u) (map Some x),
      bs_w := bs_w ?u + length (map Some x)\<rparr>"
    by (simp add: bs_store_bytes_def Let_def)
  have cu: "bs_w ?u + length (map Some x) \<le> bs_mxlen ?u"
    using c by (simp add: bs_mxlen_def)
  show "bs_wf (bs_store_bytes s x)" unfolding eq by (rule blit_at_write_head [OF wu cu])
  show "bs_unread (bs_store_bytes s x) = bs_unread s @ ?h @ map Some x"
    unfolding eq using blit_at_write_head(2) [OF wu cu] ru bs_unread_reserve [OF assms(1)] by simp
  show "bs_w (bs_store_bytes s x) = bs_w s + 4 + length x"
    and "bs_r (bs_store_bytes s x) = bs_r s"
    by (simp_all add: bs_store_bytes_def Let_def)
qed

lemma bs_get_unread:
  assumes "bs_wf s" and "bs_unread s = map Some (encode_u32 (word_of_nat (length x))) @ map Some x @ rest"
    and "length x < 2 ^ 32"
  shows "bs_get_bytes s = Some (map Some x, s\<lparr>bs_r := bs_r s + 4 + length x\<rparr>)"
proof -
  let ?h = "encode_u32 (word_of_nat (length x))"
  have b: "bs_r s \<le> bs_w s" "bs_w s \<le> length (bs_data s)"
    using assms(1) by (simp_all add: bs_wf_def bs_mxlen_def)
  have tk: "take n (drop (bs_r s) (bs_data s)) = take n (bs_unread s)" if "n \<le> length (bs_unread s)" for n
    using b that by (simp add: bs_unread_def drop_take)
  have len: "bs_w s - bs_r s = 4 + length x + length rest"
    using arg_cong [OF assms(2), of length] b by (simp add: bs_unread_def)
  have h: "take 4 (drop (bs_r s) (bs_data s)) = map Some ?h"
    using tk [of 4] assms(2) by simp
  have x: "take (length x) (drop (bs_r s + 4) (bs_data s)) = map Some x"
    using arg_cong [OF tk [of "4 + length x"], of "drop 4"] assms(2)
    by (simp add: drop_take add.commute)
  have n: "unat (word_of_nat (length x) :: u32) = length x"
    using assms(3) by (simp add: unsigned_of_nat take_bit_eq_mod)
  have "(the \<circ> Some) = (id :: u8 \<Rightarrow> u8)" by auto
  then show ?thesis
    using h x n len b
    by (simp add: bs_get_bytes_def Let_def decode_encode_u32 bs_mxlen_def comp_def)
qed

lemma bs_get_store:
  assumes "bs_wf s" and "bs_unread s = []" and "bs_room s (4 + length x)" and "length x < 2 ^ 32"
  shows "\<exists>t. bs_get_bytes (bs_store_bytes s x) = Some (map Some x, t) \<and> bs_wf t \<and> bs_unread t = []"
proof -
  let ?s = "bs_store_bytes s x"
  note st = bs_store_unread [OF assms(1,3)]
  have "bs_r s = bs_w s"
    using assms(1,2) by (auto simp: bs_unread_def bs_wf_def bs_mxlen_def)
  moreover have "bs_get_bytes ?s = Some (map Some x, ?s\<lparr>bs_r := bs_r ?s + 4 + length x\<rparr>)"
    by (rule bs_get_unread [where rest = "[]"]) (use st assms in simp_all)
  ultimately show ?thesis
    using st by (simp add: bs_wf_def bs_unread_def bs_mxlen_def)
qed

section \<open>Properties\<close>

text \<open>Fields appended one after another to a drained stream are read back by consumes of the
  same lengths, unchanged, in order and all of them; the stream is drained again.\<close>

theorem bs_fields_roundtrip:
  assumes "bs_wf s" and "bs_unread s = []" and "bs_room s (length (concat xss))"
  shows "\<exists>t. get_seq bs_consume (fold (\<lambda>x t. bs_append t x) xss s) (map length xss)
             = Inr (map (map Some) xss, t) \<and> bs_unread t = []"
  using assms by (rule bsq.pack_unpack)

theorem bs_fields_roundtrip_witness:
  "\<exists>t. get_seq bs_consume (fold (\<lambda>x t. bs_append t x) [[1, 2, 3], [], [255]] (bs_new 2))
             (map length [[1, 2, 3 :: u8], [], [255]])
        = Inr (map (map Some) [[1, 2, 3], [], [255]], t) \<and> bs_unread t = []"
  by (rule bs_fields_roundtrip) (simp_all add: bs_wf_new bs_room_def)

text \<open>\<open>get_bytes\<close> after \<open>store_bytes\<close> returns the stored bytes through the 4-byte
  little-endian length field, and drains the stream, whatever the stream's capacity was.\<close>

theorem bs_store_get_roundtrip:
  assumes "bs_wf s" and "bs_unread s = []" and "bs_room s (4 + length x)" and "length x < 2 ^ 32"
  shows "\<exists>t. bs_get_bytes (bs_store_bytes s x) = Some (map Some x, t) \<and> bs_wf t \<and> bs_unread t = []"
  using assms by (rule bs_get_store)

theorem bs_store_get_roundtrip_witness:
  "\<exists>t. bs_get_bytes (bs_store_bytes (bs_new 1) [7, 8]) = Some ([Some 7, Some 8], t)
       \<and> bs_wf t \<and> bs_unread t = []"
  using bs_store_get_roundtrip [of "bs_new 1" "[7, 8]"]
  by (simp add: bs_wf_new bs_room_def)

text \<open>\<open>get_bytes\<close> reads past the write head: a stream holding only a length field of 8 yields
  eight bytes nobody wrote, and leaves the read head beyond the write head.\<close>

lemma bs_get_bytes_over_read:
  "map_option (\<lambda>(x, t). (x, bs_r t, bs_w t)) (bs_get_bytes (bs_append (bs_new 20) (encode_u32 8)))
   = Some (replicate 8 None, 12, 4)"
  by code_simp

end
