(* ===== verification/BDX_Prng.thy ===== *)
theory BDX_Prng
  imports BDX_AES BDX_ByteStream
begin

text \<open>
  \<open>Crypto/PRNG.{h,cpp}\<close> (built with \<open>USE_AES\<close>): AES in counter mode. \<open>pr_state\<close> is the 16-byte
  little-endian counter, \<open>pr_random\<close> its encryption, \<open>pr_cnt\<close> the number of bytes of \<open>pr_random\<close>
  already handed out. \<open>print_state\<close> and \<open>get_double\<close> (output, floating point) are left out.
\<close>

record prng =
  pr_seed :: block
  pr_state :: "u8 list"
  pr_random :: "u8 list"
  pr_key :: AES_Key
  pr_cnt :: nat

definition RAND_SIZE :: nat where
  "RAND_SIZE = 16"

section \<open>The generator\<close>

definition prng_hash :: "prng \<Rightarrow> prng" where
  "prng_hash g = g\<lparr>pr_random := ByteArray (EcbEncBlock (pr_key g) (block_of_bytes (pr_state g))),
                   pr_cnt := 0\<rparr>"

text \<open>The loop of \<open>next\<close>: increment a byte, carry on while it wrapped and is not the last.\<close>

fun incr_state :: "u8 list \<Rightarrow> u8 list" where
  "incr_state [] = []"
| "incr_state [x] = [x + 1]"
| "incr_state (x # y # s) = (if x + 1 = 0 then 0 # incr_state (y # s) else (x + 1) # y # s)"

definition prng_next :: "prng \<Rightarrow> prng" where
  "prng_next g = prng_hash (g\<lparr>pr_state := incr_state (pr_state g)\<rparr>)"

definition SetSeed :: "block \<Rightarrow> prng" where
  "SetSeed s = prng_next \<lparr>pr_seed = s, pr_state = replicate 16 0, pr_random = replicate 16 0,
                          pr_key = EncKeyGen s, pr_cnt = 0\<rparr>"

text \<open>
  \<open>cnt\<close> is private and never exceeds \<open>RAND_SIZE\<close>; the first branch also ends the loop for the
  values the class cannot reach.
\<close>

function get_u8s :: "prng \<Rightarrow> nat \<Rightarrow> u8 list \<times> prng" where
  "get_u8s g len =
     (if len = 0 \<or> pr_cnt g > RAND_SIZE then ([], g)
      else let step = min len (RAND_SIZE - pr_cnt g);
               bytes = take step (drop (pr_cnt g) (pr_random g));
               g1 = g\<lparr>pr_cnt := pr_cnt g + step\<rparr>;
               g2 = (if pr_cnt g1 = RAND_SIZE then prng_next g1 else g1);
               (rest, g3) = get_u8s g2 (len - step)
           in (bytes @ rest, g3))"
  by pat_completeness auto

termination
  by (relation "measure (\<lambda>(g, len). 2 * len + (if pr_cnt g = RAND_SIZE then 1 else 0))")
    (auto simp: prng_next_def prng_hash_def RAND_SIZE_def min_def)

declare get_u8s.simps [simp del]

definition get_block :: "prng \<Rightarrow> block \<times> prng" where
  "get_block g = (let (b, g1) = get_u8s g 16 in (block_of_bytes b, g1))"

definition get_uchar :: "prng \<Rightarrow> u8 \<times> prng" where
  "get_uchar g =
     (let g1 = (if pr_cnt g \<ge> RAND_SIZE then prng_next g else g)
      in (pr_random g1 ! pr_cnt g1, g1\<lparr>pr_cnt := pr_cnt g1 + 1\<rparr>))"

definition get_bit :: "prng \<Rightarrow> u8 \<times> prng" where
  "get_bit g = (let (c, g1) = get_uchar g in (c AND 1, g1))"

definition get_uint :: "prng \<Rightarrow> u32 \<times> prng" where
  "get_uint g =
     (let g1 = (if pr_cnt g > RAND_SIZE - 4 then prng_next g else g);
          c = pr_cnt g1;
          a0 = ucast (pr_random g1 ! c); a1 = ucast (pr_random g1 ! (c + 1));
          a2 = ucast (pr_random g1 ! (c + 2)); a3 = ucast (pr_random g1 ! (c + 3))
      in (a0 + push_bit 8 a1 + push_bit 16 a2 + push_bit 24 a3, g1\<lparr>pr_cnt := c + 4\<rparr>))"

definition get_u64 :: "prng \<Rightarrow> u64 \<times> prng" where
  "get_u64 g =
     (let (a, g1) = get_uint g; (b, g2) = get_uint g1
      in (push_bit 32 (ucast a) + ucast b, g2))"

text \<open>The loop of \<open>get_ByteStream\<close>, one \<open>get_uchar\<close> per byte.\<close>

fun get_uchars :: "prng \<Rightarrow> nat \<Rightarrow> u8 list \<times> prng" where
  "get_uchars g 0 = ([], g)"
| "get_uchars g (Suc n) =
     (let (c, g1) = get_uchar g; (cs, g2) = get_uchars g1 n in (c # cs, g2))"

definition get_ByteStream :: "prng \<Rightarrow> bytestream \<Rightarrow> nat \<Rightarrow> bytestream \<times> prng" where
  "get_ByteStream g ans len =
     (let (cs, g1) = get_uchars g len
      in ((bs_fill (bs_reserve ans len) cs)\<lparr>bs_w := len, bs_r := 0\<rparr>, g1))"

section \<open>Counter mode\<close>

text \<open>Byte \<open>n\<close> of the key stream of a seed: the encryptions of the counters 1, 2, \<dots> in order.\<close>

definition keystream :: "AES_Key \<Rightarrow> nat \<Rightarrow> u8" where
  "keystream k n = ByteArray (EcbEncBlock k (word_of_nat (n div 16 + 1))) ! (n mod 16)"

text \<open>The generator stands at position \<open>p\<close> of the key stream of \<open>k\<close>.\<close>

definition prng_at :: "prng \<Rightarrow> AES_Key \<Rightarrow> nat \<Rightarrow> bool" where
  "prng_at g k p \<longleftrightarrow>
     (\<exists>c\<ge>1. pr_key g = k \<and> pr_state g = ByteArray (word_of_nat c)
        \<and> pr_random g = ByteArray (EcbEncBlock k (word_of_nat c))
        \<and> pr_cnt g \<le> 16 \<and> p = 16 * (c - 1) + pr_cnt g)"

lemma length_incr_state [simp]: "length (incr_state s) = length s"
  by (induction s rule: incr_state.induct) auto

text \<open>The counter read as a number.\<close>

fun le_val :: "u8 list \<Rightarrow> nat" where
  "le_val [] = 0"
| "le_val (x # s) = unat x + 256 * le_val s"

lemma le_val_bound: "le_val s < 256 ^ length s"
proof (induction s)
  case (Cons x s)
  have "unat x < 256" using unsigned_less [of x, where 'a = nat] by simp
  then show ?case using Cons by simp
qed simp

lemma unat_suc_u8: "unat (x + 1 :: u8) = (unat x + 1) mod 256"
  by (simp add: unat_word_ariths)

lemma le_val_incr: "s \<noteq> [] \<Longrightarrow> le_val (incr_state s) = (le_val s + 1) mod 256 ^ length s"
proof (induction s rule: incr_state.induct)
  case (3 x y s)
  let ?t = "y # s"
  have u: "unat x < 256" using unsigned_less [of x, where 'a = nat] by simp
  have t: "le_val ?t < 256 ^ length ?t" by (rule le_val_bound)
  show ?case
  proof (cases "x + 1 = 0")
    case True
    then have "unat (x + 1) = 0" by simp
    then have "\<not> unat x + 1 < 256" 
      using unat_suc_u8 [of x] mod_less [of "unat x + 1" 256] by linarith
    then have "unat x = 255" using u by linarith
    then have "le_val (x # ?t) + 1 = 256 * (le_val ?t + 1)" by simp
    moreover have "le_val (incr_state (x # ?t)) = 256 * ((le_val ?t + 1) mod 256 ^ length ?t)"
      using 3 True by simp
    moreover have "256 * ((le_val ?t + 1) mod 256 ^ length ?t)
        = (256 * (le_val ?t + 1)) mod (256 * 256 ^ length ?t)" by (rule mult_mod_right)
    ultimately show ?thesis by (simp only: length_Cons power_Suc)
  next
    case False
    then have "unat (x + 1) \<noteq> 0" by (simp add: unat_eq_0)
    then have "unat x + 1 < 256" using u by (simp add: unat_suc_u8 mod_if split: if_splits)
    moreover from this have "unat (x + 1) = unat x + 1" by (simp add: unat_suc_u8)
    ultimately show ?thesis using False t by simp
  qed
qed (simp_all add: unat_suc_u8)

lemma of_bytes_Cons_add: "of_bytes (x # s) = ucast x + push_bit 8 (of_bytes s :: block)"
  by (simp, rule disjunctive_add [symmetric])
    (auto simp: bit_simps dest: bit_imp_le_length)

lemma of_bytes_le_val: "(of_bytes s :: block) = word_of_nat (le_val s)"
  by (induction s) (simp_all add: of_bytes_Cons_add push_bit_eq_mult del: of_bytes.simps(2))

lemma word_of_nat_mod_block: "(word_of_nat (n mod 2 ^ 128) :: block) = word_of_nat n"
  by (simp only: word_of_nat_eq_iff take_bit_eq_mod) simp

lemma incr_state_block:
  "length s = 16 \<Longrightarrow> block_of_bytes (incr_state s) = block_of_bytes s + 1"
  using le_val_incr [of s] word_of_nat_mod_block [of "le_val s + 1"]
  by (cases "s = []") (simp_all add: block_of_bytes_def of_bytes_le_val add.commute)

lemma incr_state_ByteArray: "incr_state (ByteArray b) = ByteArray (b + 1)"
proof -
  have "block_of_bytes (incr_state (ByteArray b)) = b + 1"
    by (simp add: incr_state_block)
  then show ?thesis by (metis ByteArray_of_bytes length_ByteArray length_incr_state)
qed

lemma prng_next_at:
  assumes "prng_at g k p" and "pr_cnt g = 16"
  shows "prng_at (prng_next g) k p" and "pr_cnt (prng_next g) = 0"
proof -
  from assms obtain c where c: "c \<ge> 1" "pr_key g = k" "pr_state g = ByteArray (word_of_nat c)"
    "p = 16 * (c - 1) + 16"
    by (auto simp: prng_at_def)
  have "pr_state (prng_next g) = ByteArray (word_of_nat (c + 1))"
    using c by (simp add: prng_next_def prng_hash_def incr_state_ByteArray add.commute)
  moreover have "pr_random (prng_next g) = ByteArray (EcbEncBlock k (word_of_nat (c + 1)))"
    using c by (simp add: prng_next_def prng_hash_def incr_state_ByteArray add.commute)
  ultimately show "prng_at (prng_next g) k p"
    unfolding prng_at_def using c
    by (intro exI [of _ "c + 1"]) (simp add: prng_next_def prng_hash_def algebra_simps)
  show "pr_cnt (prng_next g) = 0" by (simp add: prng_next_def prng_hash_def)
qed

lemma SetSeed_at: "prng_at (SetSeed s) (EncKeyGen s) 0"
proof -
  have "replicate 16 0 = ByteArray 0"
    by (rule nth_equalityI) (auto simp: block_byte_def)
  then show ?thesis
    unfolding prng_at_def SetSeed_def
    by (intro exI [of _ 1]) (simp add: prng_next_def prng_hash_def incr_state_ByteArray)
qed

text \<open>Reading inside the current block advances the position.\<close>

lemma prng_at_advance:
  assumes "prng_at g k p" and "pr_cnt g + n \<le> 16"
  shows "prng_at (g\<lparr>pr_cnt := pr_cnt g + n\<rparr>) k (p + n)"
    and "take n (drop (pr_cnt g) (pr_random g)) = map (keystream k) [p..<p + n]"
proof -
  from assms obtain c where c: "c \<ge> 1" "pr_key g = k" "pr_state g = ByteArray (word_of_nat c)"
    "pr_random g = ByteArray (EcbEncBlock k (word_of_nat c))" "p = 16 * (c - 1) + pr_cnt g"
    by (auto simp: prng_at_def)
  show "prng_at (g\<lparr>pr_cnt := pr_cnt g + n\<rparr>) k (p + n)"
    unfolding prng_at_def using c assms(2) by (intro exI [of _ c]) simp
  show "take n (drop (pr_cnt g) (pr_random g)) = map (keystream k) [p..<p + n]"
  proof (rule nth_equalityI)
    fix i assume "i < length (take n (drop (pr_cnt g) (pr_random g)))"
    then have i: "i < n" by simp
    have "(p + i) div 16 + 1 = c" and "(p + i) mod 16 = pr_cnt g + i"
      using c i assms(2) by (simp_all add: add.assoc)
    then show "take n (drop (pr_cnt g) (pr_random g)) ! i = map (keystream k) [p..<p + n] ! i"
      using i c assms(2) by (simp add: keystream_def)
  qed (use c assms(2) in simp)
qed

lemma get_u8s_at:
  assumes "prng_at g k p" and "get_u8s g len = (bs, g')"
  shows "bs = map (keystream k) [p..<p + len] \<and> prng_at g' k (p + len)"
  using assms
proof (induction g len arbitrary: p bs g' rule: get_u8s.induct)
  case (1 g len)
  have cnt: "pr_cnt g \<le> 16" using "1.prems"(1) by (auto simp: prng_at_def)
  show ?case
  proof (cases "len = 0")
    case True
    then show ?thesis using "1.prems" by (simp add: get_u8s.simps)
  next
    case False
    define step where "step = min len (RAND_SIZE - pr_cnt g)"
    define g1 where "g1 = g\<lparr>pr_cnt := pr_cnt g + step\<rparr>"
    define g2 where "g2 = (if pr_cnt g1 = RAND_SIZE then prng_next g1 else g1)"
    have le: "pr_cnt g + step \<le> 16" "step \<le> len"
      using cnt by (auto simp: step_def RAND_SIZE_def)
    have run: "\<not> (len = 0 \<or> RAND_SIZE < pr_cnt g)" using False cnt by (simp add: RAND_SIZE_def)
    note adv = prng_at_advance [OF "1.prems"(1) le(1)]
    have g2: "prng_at g2 k (p + step)"
      using adv(1) prng_next_at(1) [of g1 k "p + step"] by (simp add: g2_def g1_def RAND_SIZE_def)
    obtain rest g3 where r: "get_u8s g2 (len - step) = (rest, g3)" by fastforce
    have "get_u8s g len = (take step (drop (pr_cnt g) (pr_random g)) @ rest, g3)"
      by (subst get_u8s.simps)
        (simp only: run if_False Let_def step_def [symmetric] g1_def [symmetric] g2_def [symmetric]
          r prod.case)
    moreover have "rest = map (keystream k) [p + step..<p + len] \<and> prng_at g3 k (p + len)"
      using "1.IH" [OF run step_def refl g1_def g2_def g2 r] le by simp
    moreover have "[p..<p + len] = [p..<p + step] @ [p + step..<p + len]"
      using le upt_add_eq_append [of p "p + step" "len - step"] by simp
    ultimately show ?thesis using adv(2) "1.prems"(2) by simp
  qed
qed

lemma get_uchar_at:
  assumes "prng_at g k p" and "get_uchar g = (c, g')"
  shows "c = keystream k p \<and> prng_at g' k (p + 1)"
proof -
  define g1 where "g1 = (if pr_cnt g \<ge> RAND_SIZE then prng_next g else g)"
  have le: "pr_cnt g \<le> 16" using assms(1) by (auto simp: prng_at_def)
  have g1: "prng_at g1 k p"
    using assms(1) prng_next_at(1) [OF assms(1)] le by (simp add: g1_def RAND_SIZE_def)
  have c1: "pr_cnt g1 + 1 \<le> 16"
    using prng_next_at(2) [OF assms(1)] le by (auto simp: g1_def RAND_SIZE_def)
  note adv = prng_at_advance [OF g1 c1]
  have l: "length (pr_random g1) = 16" using g1 by (auto simp: prng_at_def)
  have "take 1 (drop (pr_cnt g1) (pr_random g1)) = [pr_random g1 ! pr_cnt g1]"
    using c1 l by (simp add: take_Suc_conv_app_nth [of 0, simplified])
  then show ?thesis
    using adv assms(2) by (auto simp: get_uchar_def g1_def [symmetric] Let_def)
qed

lemma get_uchars_at:
  assumes "prng_at g k p" and "get_uchars g n = (cs, g')"
  shows "cs = map (keystream k) [p..<p + n] \<and> prng_at g' k (p + n)"
  using assms
proof (induction n arbitrary: g p cs g')
  case (Suc n)
  obtain c g1 where c: "get_uchar g = (c, g1)" by fastforce
  obtain ds g2 where d: "get_uchars g1 n = (ds, g2)" by fastforce
  have "c = keystream k p" "prng_at g1 k (p + 1)" using get_uchar_at [OF Suc.prems(1) c] by auto
  moreover from this have "ds = map (keystream k) [p + 1..<p + 1 + n] \<and> prng_at g2 k (p + 1 + n)"
    using Suc.IH d by blast
  moreover have "[p..<p + Suc n] = p # [p + 1..<p + 1 + n]"
    by (simp add: upt_conv_Cons del: upt_Suc)
  ultimately show ?case
    using Suc.prems(2) c d by (auto simp del: upt_Suc)
qed simp

lemma get_block_at:
  assumes "prng_at g k p" and "get_block g = (b, g')"
  shows "ByteArray b = map (keystream k) [p..<p + 16]" and "prng_at g' k (p + 16)"
proof -
  obtain bs where "get_u8s g 16 = (bs, g')" "b = block_of_bytes bs"
    using assms(2) by (auto simp: get_block_def Let_def split: prod.splits)
  then show "ByteArray b = map (keystream k) [p..<p + 16]" "prng_at g' k (p + 16)"
    using get_u8s_at [OF assms(1), of 16] by (auto simp: ByteArray_of_bytes simp del: upt_Suc)
qed

lemma get_ByteStream_at:
  assumes "prng_at g k p" and "get_ByteStream g ans len = (s, g')" and "bs_wf ans"
  shows "bs_unread s = map (Some \<circ> keystream k) [p..<p + len]" and "prng_at g' k (p + len)"
proof -
  obtain cs where cs: "get_uchars g len = (cs, g')"
    and s: "s = (bs_fill (bs_reserve ans len) cs)\<lparr>bs_w := len, bs_r := 0\<rparr>"
    using assms(2) by (auto simp: get_ByteStream_def split: prod.splits)
  note at = get_uchars_at [OF assms(1) cs]
  show "prng_at g' k (p + len)" using at by simp
  have "length cs = len" using at by simp
  then show "bs_unread s = map (Some \<circ> keystream k) [p..<p + len]"
    using at by (simp add: s bs_unread_def bs_fill_def blit_def)
qed

section \<open>Properties\<close>

text \<open>The generator is AES in counter mode: however the requests are cut into calls, a request for
  \<open>len\<close> bytes at position \<open>p\<close> of the key stream returns exactly the key-stream bytes
  \<open>p ..< p + len\<close>, with the 16-byte counter incremented across byte carries, and leaves the
  generator at position \<open>p + len\<close>.\<close>

theorem prng_counter_mode:
  assumes "prng_at g k p"
  shows "fst (get_u8s g len) = map (keystream k) [p..<p + len]
         \<and> prng_at (snd (get_u8s g len)) k (p + len)"
  using get_u8s_at [OF assms prod.collapse [symmetric]] by simp

theorem prng_counter_mode_witness:
  "fst (get_u8s (SetSeed 7) 20) = map (keystream (EncKeyGen 7)) [0..<0 + 20]
   \<and> prng_at (snd (get_u8s (SetSeed 7) 20)) (EncKeyGen 7) (0 + 20)"
  by (rule prng_counter_mode) (rule SetSeed_at)

end
