(* ===== verification/BDX_Commit.thy ===== *)
theory BDX_Commit
  imports BDX_Prng
begin

text \<open>
  \<open>Crypto/Commit.{h,cpp}\<close>, \<open>Crypto/sha1.h\<close> and the hashing of \<open>Common/ByteStream.cpp\<close>. SHA-1 itself
  is Crypto++ code: it is the argument \<open>sha\<close>, a function from byte strings to digests of
  \<open>HashSize\<close> bytes. A \<open>SHA1\<close> object is the list of the bytes fed to \<open>Update\<close> so far.
\<close>

definition HashSize :: nat where
  "HashSize = 20"

definition sha1_Reset :: "u8 list" where
  "sha1_Reset = []"

definition sha1_Update :: "u8 list \<Rightarrow> u8 list \<Rightarrow> u8 list" where
  "sha1_Update ctx dataIn = ctx @ dataIn"

definition sha1_Update_block :: "u8 list \<Rightarrow> block \<Rightarrow> u8 list" where
  "sha1_Update_block ctx blk = sha1_Update ctx (ByteArray blk)"

definition digest20 :: "(u8 list \<Rightarrow> u8 list) \<Rightarrow> bool" where
  "digest20 sha \<longleftrightarrow> (\<forall>x. length (sha x) = HashSize)"

section \<open>The class \<open>Commit\<close>\<close>

text \<open>\<open>u32 buff[5]\<close>, filled through a byte pointer.\<close>

type_synonym commit = "u32 list"

fun words_of_bytes :: "u8 list \<Rightarrow> u32 list" where
  "words_of_bytes (a # b # c # d # s) = of_bytes [a, b, c, d] # words_of_bytes s"
| "words_of_bytes _ = []"

definition word_bytes :: "u32 \<Rightarrow> u8 list" where
  "word_bytes w = map (\<lambda>i. ucast (drop_bit (8 * i) w)) [0..<4]"

definition commit_hash :: "(u8 list \<Rightarrow> u8 list) \<Rightarrow> u8 list \<Rightarrow> commit" where
  "commit_hash sha data = words_of_bytes (sha (sha1_Update sha1_Reset data))"

definition commit_hash_rand :: "(u8 list \<Rightarrow> u8 list) \<Rightarrow> u8 list \<Rightarrow> block \<Rightarrow> commit" where
  "commit_hash_rand sha data rand =
     words_of_bytes (sha (sha1_Update_block (sha1_Update sha1_Reset data) rand))"

definition Commit_block :: "(u8 list \<Rightarrow> u8 list) \<Rightarrow> block \<Rightarrow> commit" where
  "Commit_block sha b = commit_hash sha (ByteArray b)"

definition Commit_block_rand :: "(u8 list \<Rightarrow> u8 list) \<Rightarrow> block \<Rightarrow> block \<Rightarrow> commit" where
  "Commit_block_rand sha b rand = commit_hash_rand sha (ByteArray b) rand"

definition Commit_block_prng ::
  "(u8 list \<Rightarrow> u8 list) \<Rightarrow> block \<Rightarrow> prng \<Rightarrow> commit \<times> prng" where
  "Commit_block_prng sha b g =
     (let (rand, g1) = get_block g in (commit_hash_rand sha (ByteArray b) rand, g1))"

definition bs_bytes :: "bytestream \<Rightarrow> u8 list" where
  "bs_bytes s = map the (take (bs_w s) (bs_data s))"

definition Commit_stream :: "(u8 list \<Rightarrow> u8 list) \<Rightarrow> bytestream \<Rightarrow> commit" where
  "Commit_stream sha s = commit_hash sha (bs_bytes s)"

definition Commit_stream_rand :: "(u8 list \<Rightarrow> u8 list) \<Rightarrow> bytestream \<Rightarrow> block \<Rightarrow> commit" where
  "Commit_stream_rand sha s rand = commit_hash_rand sha (bs_bytes s) rand"

definition Commit_eq :: "commit \<Rightarrow> commit \<Rightarrow> bool" where
  "Commit_eq a b = list_all (\<lambda>i. a ! i = b ! i) [0..<5]"

definition Commit_data :: "commit \<Rightarrow> u8 list" where
  "Commit_data c = concat (map word_bytes c)"

definition Commit_of_data :: "u8 list \<Rightarrow> commit" where
  "Commit_of_data b = words_of_bytes b"

text \<open>Commitments in a byte stream.\<close>

definition bs_append_commit :: "bytestream \<Rightarrow> commit \<Rightarrow> bytestream" where
  "bs_append_commit s c = bs_append s (Commit_data c)"

definition bs_consume_commit :: "bytestream \<Rightarrow> (commit \<times> bytestream) result" where
  "bs_consume_commit s =
     bind_r (bs_consume s HashSize) (\<lambda>(b, t). Inr (Commit_of_data (map the b), t))"

section \<open>Commitments on byte streams\<close>

definition bs_hash_to :: "(u8 list \<Rightarrow> u8 list) \<Rightarrow> bytestream \<Rightarrow> bytestream \<Rightarrow> bytestream" where
  "bs_hash_to sha s output =
     (let out = bs_reserve output HashSize;
          ctx = sha1_Update sha1_Reset (bs_bytes s)
      in (bs_fill out (sha ctx))\<lparr>bs_w := HashSize\<rparr>)"

definition bs_hash :: "(u8 list \<Rightarrow> u8 list) \<Rightarrow> bytestream \<Rightarrow> bytestream" where
  "bs_hash sha s = bs_hash_to sha s (bs_new HashSize)"

definition CommitComm ::
  "(u8 list \<Rightarrow> u8 list) \<Rightarrow> bytestream \<Rightarrow> bytestream \<Rightarrow> bytestream \<Rightarrow> prng
   \<Rightarrow> bytestream \<times> bytestream \<times> prng" where
  "CommitComm sha comm op data g =
     (let op = bs_assign op data;
          (b, g1) = get_block g;
          op = bs_append_block op b;
          comm = bs_assign comm (bs_hash sha op)
      in (comm, op, g1))"

text \<open>\<open>CommitOpen\<close>: the verdict and the new \<open>data\<close>; \<open>setp\<close> throws when \<open>open\<close> is too short.\<close>

definition CommitOpen ::
  "(u8 list \<Rightarrow> u8 list) \<Rightarrow> bytestream \<Rightarrow> bytestream \<Rightarrow> bytestream \<Rightarrow> (bool \<times> bytestream) result" where
  "CommitOpen sha data comm op =
     (let h = bs_hash sha op in
      if \<not> bs_equals h comm then Inr (False, data)
      else let data = bs_assign data op in
           bind_r (bs_setp data ((bs_w data + 2 ^ 64 - 16) mod 2 ^ 64)) (\<lambda>d. Inr (True, d)))"

definition CommitComm_block ::
  "(u8 list \<Rightarrow> u8 list) \<Rightarrow> bytestream \<Rightarrow> block \<Rightarrow> block \<Rightarrow> bytestream result" where
  "CommitComm_block sha comm rand data =
     bind_r (bs_setp comm 0) (\<lambda>comm.
       let comm = bs_append_block comm data;
           comm = bs_append_block comm rand
       in Inr (bs_assign comm (bs_hash sha comm)))"

definition CommitOpen_block ::
  "(u8 list \<Rightarrow> u8 list) \<Rightarrow> bytestream \<Rightarrow> block \<Rightarrow> block \<Rightarrow> bool result" where
  "CommitOpen_block sha comm rand data =
     bind_r (bs_setp (bs_new 512) 0) (\<lambda>h.
       let h = bs_append_block h data;
           h = bs_append_block h rand;
           h = bs_assign h (bs_hash sha h)
       in Inr (if \<not> bs_equals h comm then False else True))"

section \<open>Digests and words\<close>

lemma word_bytes_of_bytes: "word_bytes (of_bytes [a, b, c, d]) = [a, b, c, d]"
proof (rule nth_equalityI)
  fix i assume "i < length (word_bytes (of_bytes [a, b, c, d]))"
  then have i: "i < 4" by (simp add: word_bytes_def)
  show "word_bytes (of_bytes [a, b, c, d]) ! i = [a, b, c, d] ! i"
  proof (rule bit_word_eqI)
    fix j assume "j < LENGTH(8)"
    then have j: "j < 8" by simp
    then have "(8 * i + j) div 8 = i" "(8 * i + j) mod 8 = j" "8 * i + j < 32"
      using i by simp_all
    then show "bit (word_bytes (of_bytes [a, b, c, d]) ! i) j = bit ([a, b, c, d] ! i) j"
      using i j by (simp add: word_bytes_def bit_simps bit_of_bytes del: of_bytes.simps)
  qed
qed (simp add: word_bytes_def)

lemma Commit_data_words: "length s mod 4 = 0 \<Longrightarrow> Commit_data (words_of_bytes s) = s"
  by (induction s rule: words_of_bytes.induct)
    (simp_all add: Commit_data_def word_bytes_of_bytes del: of_bytes.simps)

lemma length_words_of_bytes: "length (words_of_bytes s) = length s div 4"
  by (induction s rule: words_of_bytes.induct) simp_all

lemma Commit_eq_iff: "Commit_eq a b \<longleftrightarrow> (\<forall>i<5. a ! i = b ! i)"
  unfolding Commit_eq_def list_all_iff set_upt by auto

lemma Commit_eq_words:
  assumes "length x = HashSize" and "length y = HashSize"
  shows "Commit_eq (words_of_bytes x) (words_of_bytes y) \<longleftrightarrow> x = y"
proof
  assume e: "Commit_eq (words_of_bytes x) (words_of_bytes y)"
  have l: "length (words_of_bytes x) = 5" "length (words_of_bytes y) = 5"
    "length x mod 4 = 0" "length y mod 4 = 0"
    using assms by (simp_all add: length_words_of_bytes HashSize_def)
  have "words_of_bytes x = words_of_bytes y"
    using e l unfolding Commit_eq_iff by (simp only: list_eq_iff_nth_eq)
  then show "x = y"
    using Commit_data_words [OF l(3)] Commit_data_words [OF l(4)] by metis
qed (simp add: Commit_eq_iff)

lemma digest20_length [simp]: "digest20 sha \<Longrightarrow> length (sha x) = HashSize"
  by (simp add: digest20_def)

lemma commit_eq_digest:
  "digest20 sha \<Longrightarrow>
   Commit_eq (commit_hash_rand sha d r) (commit_hash_rand sha e q)
   \<longleftrightarrow> sha (d @ ByteArray r) = sha (e @ ByteArray q)"
  by (simp add: commit_hash_rand_def sha1_Update_block_def sha1_Update_def sha1_Reset_def Commit_eq_words)

lemma bs_commit_roundtrip:
  assumes "bs_wf s" and "bs_unread s = []" and "bs_room s HashSize" and "length x = HashSize"
  shows "\<exists>t. bs_consume_commit (bs_append_commit s (words_of_bytes x)) = Inr (words_of_bytes x, t)"
proof -
  have d: "Commit_data (words_of_bytes x) = x"
    using assms(4) by (simp add: Commit_data_words HashSize_def)
  have a: "bs_wf (bs_append s x)" "bs_unread (bs_append s x) = map Some x"
    using bs_append_unread [of s x] assms by simp_all
  have "bs_consume (bs_append s x) HashSize
      = Inr (map Some x, (bs_append s x)\<lparr>bs_r := bs_r (bs_append s x) + HashSize\<rparr>)"
    using bs_consume_ok(1) [OF a(1), of HashSize] a(2) assms(4) by simp
  then show ?thesis
    by (simp add: bs_consume_commit_def bs_append_commit_def d Commit_of_data_def comp_def)
qed

section \<open>Contents of streams\<close>

abbreviation bs_content :: "bytestream \<Rightarrow> u8 option list" where
  "bs_content s \<equiv> take (bs_w s) (bs_data s)"

lemma bs_content_append:
  assumes "bs_wf s" and "bs_room s (length x)"
  shows "bs_content (bs_append s x) = bs_content s @ map Some x"
proof -
  have "bs_w s + length (map Some x) \<le> length (bs_data (bs_reserve s (bs_w s + length x)))"
    using bs_reserve_capacity [OF assms(1), of "bs_w s + length x"] by (simp add: bs_mxlen_def)
  from take_blit_prefix [OF this] show ?thesis
    using bs_reserve_take [OF assms(1), of "bs_w s"] by (simp add: bs_append_def Let_def)
qed

lemma bs_assign_content:
  assumes "bs_wf os" and "bs_wf s"
  shows "bs_content (bs_assign s os) = bs_content os" and "bs_wf (bs_assign s os)"
    and "bs_w (bs_assign s os) = bs_w os"
proof -
  let ?d = "if bs_w os \<ge> bs_mxlen s then replicate (bs_mxlen os) None else bs_data s"
  have l: "bs_w os \<le> length ?d" "length (bs_content os) = bs_w os"
    using assms by (auto simp: bs_wf_def bs_mxlen_def)
  have eq: "bs_assign s os = \<lparr>bs_data = blit ?d 0 (bs_content os), bs_w = bs_w os, bs_r = bs_r os\<rparr>"
    by (simp only: bs_assign_def Let_def)
  show "bs_w (bs_assign s os) = bs_w os" by (simp add: eq)
  show "bs_content (bs_assign s os) = bs_content os"
    unfolding eq using l take_blit_prefix [of 0 "bs_content os" ?d] by simp
  show "bs_wf (bs_assign s os)"
    unfolding eq bs_wf_def bs_mxlen_def using l assms by (auto simp: bs_wf_def bs_mxlen_def)
qed

lemma bs_hash_content:
  assumes "digest20 sha"
  shows "bs_content (bs_hash sha s) = map Some (sha (bs_bytes s))" and "bs_wf (bs_hash sha s)"
    and "bs_w (bs_hash sha s) = HashSize"
  using assms take_blit_prefix [of 0 "map Some (sha (bs_bytes s))" "bs_data (bs_reserve (bs_new HashSize) HashSize)"]
  by (simp_all add: bs_hash_def bs_hash_to_def bs_fill_def sha1_Update_def sha1_Reset_def
      bs_reserve_def bs_new_def bs_mxlen_def bs_wf_def HashSize_def Let_def)

lemma bs_equals_iff:
  assumes "bs_wf s" and "bs_wf a"
  shows "bs_equals s a \<longleftrightarrow> bs_content s = bs_content a"
proof -
  have l: "length (bs_content s) = bs_w s" "length (bs_content a) = bs_w a"
    using assms by (simp_all add: bs_wf_def bs_mxlen_def)
  then have "bs_content s = bs_content a \<Longrightarrow> bs_w s = bs_w a" by metis
  then show ?thesis
    using l by (auto simp: bs_equals_def list_eq_iff_nth_eq)
qed

lemma bs_bytes_content: "bs_bytes s = map the (bs_content s)"
  by (simp add: bs_bytes_def)

lemma map_the_Some [simp]: "map (the \<circ> Some) xs = xs"
  by (simp add: comp_def)

lemma CommitOpen_CommitComm:
  assumes "digest20 sha" and "bs_wf data" and "bs_room data 16" and "bs_wf comm" and "bs_wf op"
    and "bs_wf old"
  shows "\<exists>d. CommitOpen sha old (fst (CommitComm sha comm op data g)) (fst (snd (CommitComm sha comm op data g)))
             = Inr (True, d) \<and> bs_bytes d = bs_bytes data"
proof -
  obtain b g1 where g: "get_block g = (b, g1)" by fastforce
  define op1 where "op1 = bs_assign op data"
  define op2 where "op2 = bs_append_block op1 b"
  define comm2 where "comm2 = bs_assign comm (bs_hash sha op2)"
  have run: "CommitComm sha comm op data g = (comm2, op2, g1)"
    by (simp add: CommitComm_def g op1_def op2_def comm2_def Let_def)
  note op1 = bs_assign_content [OF assms(2,5), folded op1_def]
  have room: "bs_room op1 (length (ByteArray b))" using assms(3) op1(3) by (simp add: bs_room_def)
  have op2: "bs_content op2 = bs_content data @ map Some (ByteArray b)" "bs_wf op2"
    "bs_w op2 = bs_w data + 16"
    using bs_content_append [OF op1(2) room] bs_append_unread(1) [OF op1(2) room] op1
    by (simp_all add: op2_def bs_append_block_def)
  note h = bs_hash_content [OF assms(1), of op2]
  note comm2 = bs_assign_content [OF h(2) assms(4), folded comm2_def]
  have eq: "bs_equals (bs_hash sha op2) comm2"
    using comm2 by (simp add: bs_equals_iff [OF h(2) comm2(2)])
  define d where "d = bs_assign old op2"
  note d = bs_assign_content [OF op2(2) assms(6), folded d_def]
  have w: "(bs_w d + 2 ^ 64 - 16) mod 2 ^ 64 = bs_w data" "bs_w data \<le> bs_mxlen d" "bs_w d = bs_w data + 16"
    using d op2 assms(3) by (simp_all add: bs_room_def bs_wf_def)
  have "CommitOpen sha old comm2 op2 = Inr (True, d\<lparr>bs_w := bs_w data, bs_r := min (bs_r d) (bs_w data)\<rparr>)"
    using eq w by (simp add: CommitOpen_def d_def [symmetric] bs_setp_def)
  moreover have "take (bs_w data) (bs_data d) = bs_content data"
  proof -
    have "take (bs_w data) (bs_content d) = take (bs_w data) (bs_data d)" using w by simp
    moreover have "length (bs_content data) = bs_w data"
      using assms(2) by (simp add: bs_wf_def bs_mxlen_def)
    ultimately show ?thesis using d(1) op2(1) by (metis append_eq_conv_conj)
  qed
  ultimately show ?thesis by (simp add: run bs_bytes_content)
qed

lemma CommitOpen_accepts:
  assumes "digest20 sha" and "bs_wf comm" and "CommitOpen sha data comm op = Inr (True, d)"
  shows "bs_content comm = map Some (sha (bs_bytes op))"
proof -
  have "bs_equals (bs_hash sha op) comm"
    using assms(3) by (auto simp: CommitOpen_def Let_def split: if_splits)
  then show ?thesis
    using bs_hash_content [OF assms(1), of op] assms(2) by (simp add: bs_equals_iff)
qed

section \<open>Properties\<close>

text \<open>Whoever opens what \<open>CommitComm\<close> produced is believed and recovers exactly the committed
  bytes, whatever the previous contents and capacities of the three streams.\<close>

theorem commit_open_complete:
  assumes "digest20 sha" and "bs_wf data" and "bs_room data 16" and "bs_wf comm" and "bs_wf op"
    and "bs_wf old"
  shows "\<exists>d. CommitOpen sha old (fst (CommitComm sha comm op data g)) (fst (snd (CommitComm sha comm op data g)))
             = Inr (True, d) \<and> bs_bytes d = bs_bytes data"
  using assms by (rule CommitOpen_CommitComm)

theorem commit_open_complete_witness:
  "\<exists>d. CommitOpen (\<lambda>x. vec_resize 0 20 x) (bs_new 3)
        (fst (CommitComm (\<lambda>x. vec_resize 0 20 x) (bs_new 0) (bs_new 1) (bs_new 2) (SetSeed 5)))
        (fst (snd (CommitComm (\<lambda>x. vec_resize 0 20 x) (bs_new 0) (bs_new 1) (bs_new 2) (SetSeed 5))))
       = Inr (True, d) \<and> bs_bytes d = bs_bytes (bs_new 2)"
  by (rule commit_open_complete) (simp_all add: digest20_def HashSize_def bs_wf_new bs_room_def)

text \<open>Randomised commitments to wire labels are binding up to a hash collision: two openings
  that \<open>operator==\<close> accepts for the same commitment are the same label and randomness, or the two
  hashed strings are distinct and collide.\<close>

theorem commit_binding:
  assumes "digest20 sha" and "Commit_eq (Commit_block_rand sha b r) (Commit_block_rand sha c q)"
  shows "b = c \<and> r = q
         \<or> (ByteArray b @ ByteArray r \<noteq> ByteArray c @ ByteArray q
            \<and> sha (ByteArray b @ ByteArray r) = sha (ByteArray c @ ByteArray q))"
  using assms by (auto simp: Commit_block_rand_def commit_eq_digest)

theorem commit_binding_witness:
  "(1::block) = 1 \<and> (2::block) = 2
   \<or> (ByteArray 1 @ ByteArray 2 \<noteq> ByteArray 1 @ ByteArray 2
      \<and> (\<lambda>x. replicate 20 0) (ByteArray 1 @ ByteArray 2)
        = (\<lambda>x. replicate 20 (0::u8)) (ByteArray 1 @ ByteArray 2))"
  by (rule commit_binding) (simp_all add: digest20_def HashSize_def Commit_eq_iff)

end
