(* ===== verification/BDX_HalfGate.thy ===== *)
theory BDX_HalfGate
  imports BDX_Garbling BDX_Commit
begin

text \<open>
  \<open>Circuit/HalfGtGarbledCircuit.{h,cpp}\<close> (built with \<open>ADAPTIVE_SECURE\<close> and \<open>NDEBUG\<close>): half-gate
  garbling under fixed-key AES with masked tables. Wire labels are blocks; \<open>zeroAndGlobalOffset[x]\<close>
  is \<open>sel R x\<close>. The loops over the gates are recursions over the gate list whose arguments are
  the loop's variables: the wires, the two tweaks and the remaining masks and table entries.
\<close>

record HalfGt =
  mGlobalOffset :: block
  mInputWires :: "block list"
  mOutputWires :: "block list"
  mTables :: "(block \<times> block) list"
  mTranslationTable :: bitvec
  mAddativeSecureMaskSeed :: block

section \<open>One gate\<close>

text \<open>The four hashes \<open>H(a0), H(a1), H(b0), H(b1)\<close>, computed on four blocks at once.\<close>

definition hash_wires :: "block \<Rightarrow> block \<Rightarrow> block \<Rightarrow> block \<Rightarrow> block \<Rightarrow> block list" where
  "hash_wires R t0 t1 wa wb =
     (let hash = [slli_epi64 wa 1 XOR t0, slli_epi64 (wa XOR R) 1 XOR t0,
                  slli_epi64 wb 1 XOR t1, slli_epi64 (wb XOR R) 1 XOR t1];
          temp = EcbEncFourBlocks mAesFixedKey hash
      in [hash!0 XOR temp!0, hash!1 XOR temp!1, hash!2 XOR temp!2, hash!3 XOR temp!3])"

text \<open>Table entries (before masking) and the output label of a gate that is not an xor.\<close>

definition garble_gate ::
  "block \<Rightarrow> block \<Rightarrow> block \<Rightarrow> Gate \<Rightarrow> block \<Rightarrow> block \<Rightarrow> block \<times> block \<times> block" where
  "garble_gate R t0 t1 g wa wb =
     (let aPermuteBit = PermuteBit wa;
          bPermuteBit = PermuteBit wb;
          hash = hash_wires R t0 t1 wa wb;
          garbledTable0 = hash!0 XOR hash!1 XOR sel R (mBAlpha g \<noteq> bPermuteBit);
          garbledTable1 = hash!2 XOR hash!3 XOR wa XOR sel R (mAAlpha g);
          wc = hash!(if aPermuteBit then 1 else 0) XOR hash!(if bPermuteBit then 3 else 2)
               XOR sel R (((aPermuteBit \<noteq> mAAlpha g) \<and> (bPermuteBit \<noteq> mBAlpha g)) \<noteq> mCAlpha g)
      in (garbledTable0, garbledTable1, wc))"

definition xor_gate :: "block \<Rightarrow> Gate \<Rightarrow> block \<Rightarrow> block \<Rightarrow> block" where
  "xor_gate R g wa wb = wa XOR wb XOR sel R (odd (gt_code (mType g)))"

definition eval_gate :: "block \<Rightarrow> block \<Rightarrow> block \<Rightarrow> block \<Rightarrow> block \<times> block \<Rightarrow> block" where
  "eval_gate t0 t1 la lb garbledTable =
     (let hashs = [slli_epi64 la 1 XOR t0, slli_epi64 lb 1 XOR t1];
          temp = EcbEncTwoBlocks mAesFixedKey hashs;
          lc = (temp!0 XOR hashs!0) XOR (temp!1 XOR hashs!1);
          lc = (if PermuteBit la then lc XOR fst garbledTable else lc);
          lc = (if PermuteBit lb then lc XOR snd garbledTable XOR la else lc)
      in lc)"

section \<open>The loops over the gates\<close>

text \<open>\<open>Garble\<close>: wires appended, tables masked; returns all wires and the tables.\<close>

fun garble_gates ::
  "block \<Rightarrow> Gate list \<Rightarrow> block list \<Rightarrow> block \<Rightarrow> block \<Rightarrow> block list
   \<Rightarrow> block list \<times> (block \<times> block) list" where
  "garble_gates R [] wires t0 t1 masks = (wires, [])"
| "garble_gates R (g # gs) wires t0 t1 masks =
     (let wa = wires ! mInput0 g; wb = wires ! mInput1 g in
      if is_xor (mType g) then garble_gates R gs (wires @ [xor_gate R g wa wb]) t0 t1 masks
      else let (g0, g1, wc) = garble_gate R t0 t1 g wa wb;
               (wires', T) = garble_gates R gs (wires @ [wc]) (add_epi64 t0 OneBlock)
                               (add_epi64 t1 OneBlock) (drop 2 masks)
           in (wires', (g0 XOR masks!0, g1 XOR masks!1) # T))"

text \<open>\<open>GarbleSend\<close>: the same into a buffer of wires indexed by the gates' output wire.\<close>

fun garble_gates_send ::
  "block \<Rightarrow> Gate list \<Rightarrow> block list \<Rightarrow> block \<Rightarrow> block \<Rightarrow> block list
   \<Rightarrow> block list \<times> (block \<times> block) list" where
  "garble_gates_send R [] wires t0 t1 masks = (wires, [])"
| "garble_gates_send R (g # gs) wires t0 t1 masks =
     (let wa = wires ! mInput0 g; wb = wires ! mInput1 g in
      if is_xor (mType g)
      then garble_gates_send R gs (wires[mOutput g := xor_gate R g wa wb]) t0 t1 masks
      else let (g0, g1, wc) = garble_gate R t0 t1 g wa wb;
               (wires', T) = garble_gates_send R gs (wires[mOutput g := wc]) (add_epi64 t0 OneBlock)
                               (add_epi64 t1 OneBlock) (drop 2 masks)
           in (wires', (g0 XOR masks!0, g1 XOR masks!1) # T))"

text \<open>\<open>evaluate\<close>: unmask the next table, compute the output label in place.\<close>

fun eval_gates ::
  "Gate list \<Rightarrow> block list \<Rightarrow> block \<Rightarrow> block \<Rightarrow> block list \<Rightarrow> (block \<times> block) list \<Rightarrow> block list" where
  "eval_gates [] labels t0 t1 masks T = labels"
| "eval_gates (g # gs) labels t0 t1 masks T =
     (let la = labels ! mInput0 g; lb = labels ! mInput1 g in
      if is_xor (mType g) then eval_gates gs (labels[mOutput g := la XOR lb]) t0 t1 masks T
      else let maskedGT = hd T;
               garbledTable = (masks!0 XOR fst maskedGT, masks!1 XOR snd maskedGT);
               lc = eval_gate t0 t1 la lb garbledTable
           in eval_gates gs (labels[mOutput g := lc]) (add_epi64 t0 OneBlock)
                (add_epi64 t1 OneBlock) (drop 2 masks) (tl T))"

text \<open>\<open>Validate\<close>: recompute every table and stop at the first difference.\<close>

fun validate_gates ::
  "block \<Rightarrow> Gate list \<Rightarrow> block list \<Rightarrow> block \<Rightarrow> block \<Rightarrow> block list \<Rightarrow> (block \<times> block) list
   \<Rightarrow> block list result" where
  "validate_gates R [] wires t0 t1 masks T = Inr wires"
| "validate_gates R (g # gs) wires t0 t1 masks T =
     (let wa = wires ! mInput0 g; wb = wires ! mInput1 g in
      if is_xor (mType g) then validate_gates R gs (wires @ [xor_gate R g wa wb]) t0 t1 masks T
      else let (g0, g1, wc) = garble_gate R t0 t1 g wa wb;
               g0 = g0 XOR masks!0; g1 = g1 XOR masks!1
           in if g0 \<noteq> fst (hd T) then Inl RuntimeError
              else if g1 \<noteq> snd (hd T) then Inl RuntimeError
              else validate_gates R gs (wires @ [wc]) (add_epi64 t0 OneBlock)
                     (add_epi64 t1 OneBlock) (drop 2 masks) (tl T))"

section \<open>Operations of the class\<close>

definition free_xor_offset :: "AES_Key \<Rightarrow> block" where
  "free_xor_offset aesSeedKey =
     (let r = EcbEncBlock aesSeedKey ZeroBlock;
          r = EcbEncBlock aesSeedKey r
      in r OR 1)"

definition second_tweak :: "Circuit \<Rightarrow> block" where
  "second_tweak cd = set_epi64x 0 (word_of_nat (length (mGates cd)))"

definition seed_wires :: "Circuit \<Rightarrow> block \<Rightarrow> block list \<Rightarrow> block list" where
  "seed_wires cd seed indexArray = ecb_new (EncKeyGen seed) indexArray (InputWireCount cd)"

definition out_table :: "Circuit \<Rightarrow> block list \<Rightarrow> bitvec \<Rightarrow> bitvec" where
  "out_table cd wires tt =
     fold (\<lambda>i t. bv_put t i (PermuteBit (wires ! (mOutputs cd ! i)))) [0..<length (mOutputs cd)]
       (bv_reset tt (mOutputCount cd))"

definition Garble :: "HalfGt \<Rightarrow> Circuit \<Rightarrow> block \<Rightarrow> block list \<Rightarrow> block list \<Rightarrow> HalfGt" where
  "Garble gc cd seed indexArray tableMasks =
     (let R = free_xor_offset (EncKeyGen seed);
          inp = seed_wires cd seed indexArray;
          (wires, T) = garble_gates R (mGates cd) inp ZeroBlock (second_tweak cd) tableMasks
      in gc\<lparr>mGlobalOffset := R, mTables := T,
            mOutputWires := map ((!) wires) (mOutputs cd),
            mTranslationTable := out_table cd wires (mTranslationTable gc),
            mInputWires := vec_resize 0 (InputWireCount cd) wires\<rparr>)"

text \<open>The bytes of the tables and of the translation table, the two messages \<open>GarbleSend\<close> sends. It throws when
  one of them has no bytes: a circuit of xor gates only has no tables, a circuit without outputs no
  translation table.\<close>

definition table_bytes :: "(block \<times> block) list \<Rightarrow> u8 list" where
  "table_bytes T = concat (map (\<lambda>(g0, g1). ByteArray g0 @ ByteArray g1) T)"

definition GarbleSend ::
  "HalfGt \<Rightarrow> Circuit \<Rightarrow> block \<Rightarrow> block list \<Rightarrow> block list \<Rightarrow> block list
   \<Rightarrow> (HalfGt \<times> block list \<times> u8 list list) result" where
  "GarbleSend gc cd seed wires indexArray tableMasks =
     (let R = free_xor_offset (EncKeyGen seed);
          inp = seed_wires cd seed indexArray;
          (wires, T) = garble_gates_send R (mGates cd) (blit wires 0 inp) ZeroBlock (second_tweak cd) tableMasks;
          tt = out_table cd wires (mTranslationTable gc);
          msgs = [table_bytes T, take (bv_sizeBytes tt) (bv_data tt)]
      in bind_r (send_msgs msgs) (\<lambda>_.
           Inr (gc\<lparr>mGlobalOffset := R, mInputWires := inp,
                  mOutputWires := map ((!) wires) (mOutputs cd), mTranslationTable := tt\<rparr>, wires, msgs)))"

definition SendToEvaluator :: "HalfGt \<Rightarrow> u8 list list result" where
  "SendToEvaluator gc =
     (let buff = fold (\<lambda>(g0, g1) s. bs_append_block (bs_append_block s g0) g1) (mTables gc) (bs_new 512);
          tt = mTranslationTable gc;
          msgs = [bs_bytes buff, take (bv_sizeBytes tt) (bv_data tt)]
      in bind_r (send_msgs msgs) (\<lambda>_. Inr msgs))"

text \<open>Reading the messages back; a message of another length makes \<open>recv\<close> throw.\<close>

fun tables_of_bytes :: "nat \<Rightarrow> u8 list \<Rightarrow> (block \<times> block) list" where
  "tables_of_bytes 0 b = []"
| "tables_of_bytes (Suc n) b =
     (block_of_bytes (take 16 b), block_of_bytes (take 16 (drop 16 b))) # tables_of_bytes n (drop 32 b)"

definition ReceiveFromGarbler :: "HalfGt \<Rightarrow> Circuit \<Rightarrow> u8 list \<Rightarrow> u8 list \<Rightarrow> HalfGt result" where
  "ReceiveFromGarbler gc cd msg0 msg1 =
     (let n = mNonXorGateCount cd;
          tt = bv_reset (mTranslationTable gc) (mOutputCount cd)
      in bind_r (require (length msg0 = n * 32) BadReceiveBufferSize) (\<lambda>_.
         bind_r (require (length msg1 = bv_sizeBytes tt) BadReceiveBufferSize) (\<lambda>_.
         Inr (gc\<lparr>mTables := tables_of_bytes n msg0,
                 mTranslationTable := tt\<lparr>bv_data := blit (bv_data tt) 0 msg1\<rparr>\<rparr>))))"

definition half_evaluate :: "HalfGt \<Rightarrow> Circuit \<Rightarrow> block list \<Rightarrow> block list \<Rightarrow> block list" where
  "half_evaluate gc cd labels tableMasks =
     eval_gates (mGates cd) labels ZeroBlock (second_tweak cd) tableMasks (mTables gc)"

definition Validate ::
  "HalfGt \<Rightarrow> Circuit \<Rightarrow> block \<Rightarrow> block list \<Rightarrow> block list \<Rightarrow> HalfGt result" where
  "Validate gc cd seed indexArray tableMasks =
     (let R = free_xor_offset (EncKeyGen seed);
          inp = seed_wires cd seed indexArray
      in bind_r (validate_gates R (mGates cd) inp ZeroBlock (second_tweak cd) tableMasks (mTables gc)) (\<lambda>wires.
         bind_r (each_r (\<lambda>i. require (bv_get (mTranslationTable gc) i = PermuteBit (wires ! (mOutputs cd ! i))) RuntimeError)
                   [0..<length (mOutputs cd)]) (\<lambda>_.
         Inr (gc\<lparr>mGlobalOffset := R, mOutputWires := map ((!) wires) (mOutputs cd),
                 mInputWires := vec_resize 0 (InputWireCount cd) wires\<rparr>))))"

definition half_translate :: "HalfGt \<Rightarrow> Circuit \<Rightarrow> block list \<Rightarrow> bitvec \<Rightarrow> bitvec" where
  "half_translate gc cd labels output =
     fold (\<lambda>i out. bv_put out i (bv_get (mTranslationTable gc) i \<noteq> PermuteBit (labels ! (mOutputs cd ! i))))
       [0..<mOutputCount cd] (bv_reset output (bv_bits (mTranslationTable gc)))"

definition HalfGt_Clear :: "HalfGt \<Rightarrow> HalfGt" where
  "HalfGt_Clear gc = gc\<lparr>mInputWires := [], mOutputWires := [], mTables := [],
     mTranslationTable := bv_reset (mTranslationTable gc) 0\<rparr>"

text \<open>The move constructor: the mask seed is not moved.\<close>

definition HalfGt_move :: "HalfGt \<Rightarrow> block \<Rightarrow> HalfGt" where
  "HalfGt_move src uninit =
     \<lparr>mGlobalOffset = mGlobalOffset src, mInputWires = mInputWires src,
      mOutputWires = mOutputWires src, mTables = mTables src,
      mTranslationTable = mTranslationTable src, mAddativeSecureMaskSeed = uninit\<rparr>"

section \<open>Correctness of one gate\<close>

text \<open>The hash of a label under a tweak.\<close>

definition label_hash :: "block \<Rightarrow> block \<Rightarrow> block" where
  "label_hash t l = (slli_epi64 l 1 XOR t) XOR EcbEncBlock mAesFixedKey (slli_epi64 l 1 XOR t)"

lemma hash_wires_eq:
  "hash_wires R t0 t1 wa wb =
     [label_hash t0 wa, label_hash t0 (wa XOR R), label_hash t1 wb, label_hash t1 (wb XOR R)]"
  by (simp add: hash_wires_def EcbEncFourBlocks_eq label_hash_def)

lemma eval_gate_eq:
  "eval_gate t0 t1 la lb gt =
     label_hash t0 la XOR label_hash t1 lb XOR (if PermuteBit la then fst gt else 0)
     XOR (if PermuteBit lb then snd gt XOR la else 0)"
  by (simp add: eval_gate_def EcbEncTwoBlocks_eq label_hash_def xor_norm)

text \<open>The label that stands for a bit on a wire.\<close>

definition lab :: "block \<Rightarrow> block \<Rightarrow> bool \<Rightarrow> block" where
  "lab R w x = w XOR sel R x"

lemma lab_simps [simp]: "lab R w False = w" "lab R w True = w XOR R"
  by (simp_all add: lab_def)

lemma PermuteBit_lab: "PermuteBit R \<Longrightarrow> PermuteBit (lab R w x) = (PermuteBit w \<noteq> x)"
  by (cases x) simp_all

text \<open>The modified conjunction every gate that is not an xor is garbled as.\<close>

definition alpha_and :: "Gate \<Rightarrow> bool \<Rightarrow> bool \<Rightarrow> bool" where
  "alpha_and g x y = (((x \<noteq> mAAlpha g) \<and> (y \<noteq> mBAlpha g)) \<noteq> mCAlpha g)"

lemma sel_if: "sel R b = (if b then R else 0)"
  by (simp add: sel_def)

lemma half_gate_correct:
  assumes "PermuteBit R" and "garble_gate R t0 t1 g wa wb = (g0, g1, wc)"
  shows "eval_gate t0 t1 (lab R wa x) (lab R wb y) (g0, g1) = lab R wc (alpha_and g x y)"
proof -
  have e: "g0 = label_hash t0 wa XOR label_hash t0 (wa XOR R) XOR sel R (mBAlpha g \<noteq> PermuteBit wb)"
    "g1 = label_hash t1 wb XOR label_hash t1 (wb XOR R) XOR wa XOR sel R (mAAlpha g)"
    "wc = (if PermuteBit wa then label_hash t0 (wa XOR R) else label_hash t0 wa)
        XOR (if PermuteBit wb then label_hash t1 (wb XOR R) else label_hash t1 wb)
        XOR sel R (((PermuteBit wa \<noteq> mAAlpha g) \<and> (PermuteBit wb \<noteq> mBAlpha g)) \<noteq> mCAlpha g)"
    using assms(2) by (auto simp: garble_gate_def hash_wires_eq Let_def)
  show ?thesis
    unfolding eval_gate_eq PermuteBit_lab [OF assms(1)] e alpha_and_def fst_conv snd_conv
    by (cases x; cases y; cases "PermuteBit wa"; cases "PermuteBit wb")
      (simp_all add: xor_norm, auto simp: sel_if xor_norm)
qed

lemma xor_gate_correct:
  "is_xor (mType g) \<Longrightarrow> lab R wa x XOR lab R wb y = lab R (xor_gate R g wa wb) (gt_eval (mType g) x y)"
  by (cases x; cases y) (auto simp: is_xor_def xor_gate_def lab_def sel_if xor_norm)

section \<open>Correctness of the loops\<close>

definition nonxor :: "Gate list \<Rightarrow> nat" where
  "nonxor gs = length (filter (\<lambda>g. \<not> is_xor (mType g)) gs)"

lemma nonxor_simps [simp]:
  "nonxor [] = 0"
  "nonxor (g # gs) = (if is_xor (mType g) then nonxor gs else Suc (nonxor gs))"
  by (simp_all add: nonxor_def)

definition garblable :: "Gate list \<Rightarrow> bool" where
  "garblable gs \<longleftrightarrow> (\<forall>g\<in>set gs. is_xor (mType g) \<or> and_like (mType g))"

lemma garblable_Cons [simp]:
  "garblable (g # gs) \<longleftrightarrow> (is_xor (mType g) \<or> and_like (mType g)) \<and> garblable gs"
  by (simp add: garblable_def)

lemma alpha_and_gate:
  assumes "gates_topo n (g # gs)" and "and_like (mType g)"
  shows "alpha_and g x y = gt_eval (mType g) x y"
proof -
  have "g = mk_Gate (mInput0 g) (mInput1 g) n (mType g)" using assms(1) by simp
  then show ?thesis
    using alphas_correct [OF assms(2), of x y "mInput0 g" "mInput1 g" n] by (simp add: alpha_and_def)
qed

lemma garble_gates_shape:
  "garble_gates R gs wires t0 t1 m = (W, T) \<Longrightarrow>
   length W = length wires + length gs \<and> take (length wires) W = wires \<and> length T = nonxor gs"
proof (induction gs arbitrary: wires t0 t1 m W T)
  case (Cons g gs)
  have ih: "length W = length wires + length (g # gs) \<and> take (length wires) W = wires
      \<and> length T' = nonxor gs"
    if "garble_gates R gs (wires @ [wc]) u0 u1 n = (W, T')" for wc u0 u1 n T'
  proof -
    have w: "take (length (wires @ [wc])) W = wires @ [wc]"
      and l: "length W = length (wires @ [wc]) + length gs" "length T' = nonxor gs"
      using Cons.IH [OF that] by blast+
    have "take (length wires) W = take (length wires) (take (length (wires @ [wc])) W)"
      by (simp add: min_def)
    then show ?thesis using l by (simp only: w) simp
  qed
  show ?case
    using Cons.prems by (auto simp: Let_def split: if_splits prod.splits dest: ih)
qed simp

lemma garble_gates_prefix:
  "garble_gates R gs wires t0 t1 m = (W, T) \<Longrightarrow> i < length wires \<Longrightarrow> W ! i = wires ! i"
  using garble_gates_shape [of R gs wires t0 t1 m W T] by (metis nth_take)

text \<open>The evaluator's label of every wire is the garbler's label of the wire's value.\<close>

lemma eval_gates_correct:
  assumes "PermuteBit R" and "gates_topo (length wires) gs" and "garblable gs"
    and "garble_gates R gs wires t0 t1 m = (W, T)"
    and "length wires + length gs \<le> length L"
    and "\<And>i. i < length wires \<Longrightarrow> L ! i = lab R (wires ! i) (v i)"
  shows "length (eval_gates gs L t0 t1 m (T @ T')) = length L
    \<and> (\<forall>i < length wires + length gs.
         eval_gates gs L t0 t1 m (T @ T') ! i = lab R (W ! i) (plain_run gs v i))"
  using assms(2-)
proof (induction gs arbitrary: wires t0 t1 m W T L v)
  case (Cons g gs)
  let ?n = "length wires"
  let ?wa = "wires ! mInput0 g" and ?wb = "wires ! mInput1 g"
  let ?la = "L ! mInput0 g" and ?lb = "L ! mInput1 g"
  have o: "mOutput g = ?n" using Cons.prems(1) by (rule gates_topo_output)
  have i: "mInput0 g < ?n" "mInput1 g < ?n" "gates_topo (Suc ?n) gs" using Cons.prems(1) by simp_all
  have la: "?la = lab R ?wa (v (mInput0 g))" and lb: "?lb = lab R ?wb (v (mInput1 g))"
    using Cons.prems(5) i by blast+
  define x where "x = gate_value g v"
  have x: "x = gt_eval (mType g) (v (mInput0 g)) (v (mInput1 g))"
    by (simp add: x_def gate_value_def Gate_eval_row)
  have run: "plain_run (g # gs) v = plain_run gs (v(?n := x))"
    by (simp only: plain_run_simps o x_def)
  have next_labels: "(L[?n := lab R wc x]) ! i = lab R ((wires @ [wc]) ! i) ((v(?n := x)) i)"
    if "i < length (wires @ [wc])" for wc i
    using that Cons.prems(4,5) by (auto simp: nth_append less_Suc_eq)
  show ?case
  proof (cases "is_xor (mType g)")
    case True
    let ?wc = "xor_gate R g ?wa ?wb"
    have g: "garble_gates R gs (wires @ [?wc]) t0 t1 m = (W, T)"
      using Cons.prems(3) True by (simp add: Let_def)
    have "?la XOR ?lb = lab R ?wc x" using la lb x True by (simp add: xor_gate_correct)
    then have e: "eval_gates (g # gs) L t0 t1 m (T @ T')
        = eval_gates gs (L[?n := lab R ?wc x]) t0 t1 m (T @ T')"
      using True o by (simp add: Let_def)
    show ?thesis
      unfolding e run
      using Cons.IH [OF _ _ g _ next_labels] i(3) Cons.prems(2,4) by (simp del: fun_upd_apply)
  next
    case False
    obtain g0 g1 wc where gg: "garble_gate R t0 t1 g ?wa ?wb = (g0, g1, wc)"
      by (metis prod_cases3)
    obtain T1 where g: "garble_gates R gs (wires @ [wc]) (add_epi64 t0 OneBlock) (add_epi64 t1 OneBlock)
        (drop 2 m) = (W, T1)" and T: "T = (g0 XOR m!0, g1 XOR m!1) # T1"
      using Cons.prems(3) False gg by (auto simp: Let_def split: prod.splits)
    have "and_like (mType g)" using Cons.prems(2) False by simp
    then have "eval_gate t0 t1 ?la ?lb (g0, g1) = lab R wc x"
      using half_gate_correct [OF assms(1) gg] la lb x alpha_and_gate [OF Cons.prems(1)] by simp
    then have e: "eval_gates (g # gs) L t0 t1 m (T @ T')
        = eval_gates gs (L[?n := lab R wc x]) (add_epi64 t0 OneBlock) (add_epi64 t1 OneBlock)
            (drop 2 m) (T1 @ T')"
      using False o T by (simp add: Let_def)
    show ?thesis
      unfolding e run
      using Cons.IH [OF _ _ g _ next_labels] i(3) Cons.prems(2,4) by (simp del: fun_upd_apply)
  qed
qed simp

text \<open>The send variant computes the same tables and wires in its buffer.\<close>

lemma garble_gates_send_eq:
  assumes "gates_topo (length wires) gs" and "garble_gates R gs wires t0 t1 m = (W, T)"
    and "length wires + length gs \<le> length buf" and "take (length wires) buf = wires"
  shows "\<exists>buf'. garble_gates_send R gs buf t0 t1 m = (buf', T) \<and> length buf' = length buf
               \<and> take (length wires + length gs) buf' = W"
  using assms
proof (induction gs arbitrary: wires t0 t1 m W T buf)
  case (Cons g gs)
  let ?n = "length wires"
  have o: "mOutput g = ?n" using Cons.prems(1) by (rule gates_topo_output)
  have i: "mInput0 g < ?n" "mInput1 g < ?n" "gates_topo (Suc ?n) gs" using Cons.prems(1) by simp_all
  have buf: "buf ! k = wires ! k" if "k < ?n" for k
    using Cons.prems(4) that by (metis nth_take)
  have upd: "take (length (wires @ [wc])) (buf[?n := wc]) = wires @ [wc]" for wc
    using Cons.prems(3,4) by (simp add: take_Suc_conv_app_nth)
  show ?case
  proof (cases "is_xor (mType g)")
    case True
    then show ?thesis
      using Cons.IH [OF _ _ _ upd, of "xor_gate R g (wires ! mInput0 g) (wires ! mInput1 g)" t0 t1 m W T]
        Cons.prems i o buf
      by (auto simp: Let_def)
  next
    case False
    obtain g0 g1 wc where gg: "garble_gate R t0 t1 g (wires ! mInput0 g) (wires ! mInput1 g) = (g0, g1, wc)"
      by (metis prod_cases3)
    obtain T1 where g: "garble_gates R gs (wires @ [wc]) (add_epi64 t0 OneBlock) (add_epi64 t1 OneBlock)
        (drop 2 m) = (W, T1)" and T: "T = (g0 XOR m!0, g1 XOR m!1) # T1"
      using Cons.prems(2) False gg by (auto simp: Let_def split: prod.splits)
    show ?thesis
      using Cons.IH [OF _ g _ upd] Cons.prems(3) i o buf False gg T
      by (auto simp: Let_def)
  qed
qed simp

text \<open>\<open>Validate\<close> accepts exactly the tables garbling produces.\<close>

lemma validate_gates_iff:
  assumes "garble_gates R gs wires t0 t1 m = (W, T)" and "length T0 = nonxor gs"
  shows "validate_gates R gs wires t0 t1 m T0 = (if T0 = T then Inr W else Inl RuntimeError)"
  using assms
proof (induction gs arbitrary: wires t0 t1 m W T T0)
  case (Cons g gs)
  show ?case
  proof (cases "is_xor (mType g)")
    case True
    then show ?thesis using Cons by (simp add: Let_def)
  next
    case False
    let ?wa = "wires ! mInput0 g" and ?wb = "wires ! mInput1 g"
    obtain g0 g1 wc where gg: "garble_gate R t0 t1 g ?wa ?wb = (g0, g1, wc)"
      by (metis prod_cases3)
    obtain T1 where g: "garble_gates R gs (wires @ [wc]) (add_epi64 t0 OneBlock) (add_epi64 t1 OneBlock)
        (drop 2 m) = (W, T1)" and T: "T = (g0 XOR m!0, g1 XOR m!1) # T1"
      using Cons.prems(1) False gg by (auto simp: Let_def split: prod.splits)
    obtain h0 h1 T2 where T0: "T0 = (h0, h1) # T2" "length T2 = nonxor gs"
      using Cons.prems(2) False by (cases T0) auto
    show ?thesis
      using Cons.IH [OF g T0(2)] False gg T T0(1) by (auto simp: Let_def)
  qed
qed simp

section \<open>Correctness of the operations\<close>

text \<open>Inputs the class is used on: binary gates only, one index per input wire, two masks per table.\<close>

definition half_ok :: "Circuit \<Rightarrow> block list \<Rightarrow> block list \<Rightarrow> bool" where
  "half_ok cd indexArray tableMasks \<longleftrightarrow>
     circuit_wf cd \<and> garblable (mGates cd) \<and> InputWireCount cd < 2 ^ 32
     \<and> InputWireCount cd \<le> length indexArray \<and> 2 * mNonXorGateCount cd \<le> length tableMasks"

text \<open>All zero-labels and all masked tables of a garbling, as one value.\<close>

definition garbling :: "Circuit \<Rightarrow> block \<Rightarrow> block list \<Rightarrow> block list \<Rightarrow> block list \<times> (block \<times> block) list" where
  "garbling cd seed indexArray tableMasks =
     garble_gates (free_xor_offset (EncKeyGen seed)) (mGates cd) (seed_wires cd seed indexArray)
       ZeroBlock (second_tweak cd) tableMasks"

lemma PermuteBit_offset [simp]: "PermuteBit (free_xor_offset k)"
  by (simp add: free_xor_offset_def Let_def)

lemma length_seed_wires:
  "half_ok cd ix m \<Longrightarrow> length (seed_wires cd seed ix) = InputWireCount cd"
  by (simp add: seed_wires_def half_ok_def ecb_new_eq)

lemma garbling_shape:
  assumes "half_ok cd ix m"
  shows "length (fst (garbling cd seed ix m)) = mWireCount cd"
    and "take (InputWireCount cd) (fst (garbling cd seed ix m)) = seed_wires cd seed ix"
    and "length (snd (garbling cd seed ix m)) = mNonXorGateCount cd"
  using garble_gates_shape [OF prod.collapse [symmetric], of "free_xor_offset (EncKeyGen seed)" "mGates cd"
      "seed_wires cd seed ix" ZeroBlock "second_tweak cd" m] length_seed_wires [OF assms, of seed] assms
  by (simp_all add: garbling_def half_ok_def circuit_wf_def nonxor_def)

lemma Garble_garbling:
  "mTables (Garble gc cd seed ix m) = snd (garbling cd seed ix m)"
  "mOutputWires (Garble gc cd seed ix m) = map ((!) (fst (garbling cd seed ix m))) (mOutputs cd)"
  "mTranslationTable (Garble gc cd seed ix m)
     = out_table cd (fst (garbling cd seed ix m)) (mTranslationTable gc)"
  "mInputWires (Garble gc cd seed ix m) = vec_resize 0 (InputWireCount cd) (fst (garbling cd seed ix m))"
  "mGlobalOffset (Garble gc cd seed ix m) = free_xor_offset (EncKeyGen seed)"
  by (simp_all add: Garble_def garbling_def Let_def split: prod.splits)

lemma Garble_inputs:
  assumes "half_ok cd ix m"
  shows "mInputWires (Garble gc cd seed ix m) = seed_wires cd seed ix"
  using garbling_shape [OF assms, of seed] assms
  by (simp add: Garble_garbling vec_resize_def half_ok_def circuit_wf_def)

lemma out_table_bits:
  assumes "mOutputCount cd = length (mOutputs cd)"
  shows "bv_bits (out_table cd w tt) = mOutputCount cd" and "bv_wf (out_table cd w tt)"
    and "j < mOutputCount cd \<Longrightarrow> bv_get (out_table cd w tt) j = PermuteBit (w ! (mOutputs cd ! j))"
  using assms bva.fill_test0 [of "bv_reset tt (mOutputCount cd)" "length (mOutputs cd)"
      "\<lambda>i. PermuteBit (w ! (mOutputs cd ! i))" j]
  by (simp_all add: out_table_def bva.fill_size0 bva.fill_ok0 bv_wf_reset)

text \<open>The tables of a garbling and the permute bits of its outputs are all an evaluator needs.\<close>

lemma half_evaluate_core:
  assumes "half_ok cd ix m"
    and "mTables gc = snd (garbling cd seed ix m)"
    and "length L = mWireCount cd"
    and "\<And>i. i < InputWireCount cd \<Longrightarrow>
           L ! i = lab (free_xor_offset (EncKeyGen seed)) (seed_wires cd seed ix ! i) (x i)"
    and "w < mWireCount cd"
  shows "half_evaluate gc cd L m ! w
         = lab (free_xor_offset (EncKeyGen seed)) (fst (garbling cd seed ix m) ! w) (plain_run (mGates cd) x w)"
proof -
  let ?R = "free_xor_offset (EncKeyGen seed)" and ?I = "seed_wires cd seed ix"
  have wf: "circuit_wf cd" and g: "garblable (mGates cd)" using assms(1) by (simp_all add: half_ok_def)
  have l: "length ?I = InputWireCount cd" using assms(1) by (rule length_seed_wires)
  obtain W T where t: "garble_gates ?R (mGates cd) ?I ZeroBlock (second_tweak cd) m = (W, T)"
    by fastforce
  have "\<forall>i < length ?I + length (mGates cd).
      eval_gates (mGates cd) L ZeroBlock (second_tweak cd) m (T @ []) ! i = lab ?R (W ! i) (plain_run (mGates cd) x i)"
    using eval_gates_correct [OF PermuteBit_offset _ g t, of L x "[]"] assms(3,4) wf l
    by (auto simp: circuit_wf_def)
  then show ?thesis
    using assms(2,5) t l wf by (simp add: half_evaluate_def garbling_def circuit_wf_def)
qed

lemma half_translate_core:
  assumes "mOutputCount cd = length (mOutputs cd)" and "bv_bits (mTranslationTable gc) = mOutputCount cd"
    and "\<And>j. j < mOutputCount cd \<Longrightarrow>
      (bv_get (mTranslationTable gc) j \<noteq> PermuteBit (L ! (mOutputs cd ! j))) = y j"
  shows "bv_list (half_translate gc cd L out) = map y [0..<mOutputCount cd]"
proof (rule nth_equalityI)
  show l: "length (bv_list (half_translate gc cd L out)) = length (map y [0..<mOutputCount cd])"
    using assms by (simp add: bv_list_def half_translate_def bva.fill_size0)
  fix j assume "j < length (bv_list (half_translate gc cd L out))"
  then show "bv_list (half_translate gc cd L out) ! j = map y [0..<mOutputCount cd] ! j"
    using l assms bva.fill_test0 [of "bv_reset out (bv_bits (mTranslationTable gc))" "mOutputCount cd"
        "\<lambda>i. bv_get (mTranslationTable gc) i \<noteq> PermuteBit (L ! (mOutputs cd ! i))" j]
    by (simp add: bv_list_def half_translate_def bv_wf_reset bva.fill_size0)
qed

text \<open>Evaluation and translation are right for every object holding a garbling's tables.\<close>

definition holds_garbling :: "HalfGt \<Rightarrow> Circuit \<Rightarrow> block \<Rightarrow> block list \<Rightarrow> block list \<Rightarrow> bool" where
  "holds_garbling gc cd seed ix m \<longleftrightarrow>
     mTables gc = snd (garbling cd seed ix m)
     \<and> bv_bits (mTranslationTable gc) = mOutputCount cd
     \<and> (\<forall>j<mOutputCount cd. bv_get (mTranslationTable gc) j
          = PermuteBit (fst (garbling cd seed ix m) ! (mOutputs cd ! j)))"

lemma holds_garbling_Garble: "half_ok cd ix m \<Longrightarrow> holds_garbling (Garble gc cd seed ix m) cd seed ix m"
  by (simp add: holds_garbling_def Garble_garbling out_table_bits half_ok_def circuit_wf_def)

definition encodes :: "Circuit \<Rightarrow> block \<Rightarrow> block list \<Rightarrow> (nat \<Rightarrow> bool) \<Rightarrow> block list \<Rightarrow> bool" where
  "encodes cd seed ix x L \<longleftrightarrow>
     length L = mWireCount cd
     \<and> (\<forall>i<InputWireCount cd.
          L ! i = lab (free_xor_offset (EncKeyGen seed)) (seed_wires cd seed ix ! i) (x i))"

lemma half_gates_compute:
  assumes "half_ok cd ix m" and "holds_garbling gc cd seed ix m" and "encodes cd seed ix x L"
  shows "bv_list (half_translate gc cd (half_evaluate gc cd L m) out) = circuit_sem cd x"
proof -
  let ?R = "free_xor_offset (EncKeyGen seed)"
  let ?W = "fst (garbling cd seed ix m)" and ?L = "half_evaluate gc cd L m"
  have o: "mOutputCount cd = length (mOutputs cd)" and lt: "\<And>i. i \<in> set (mOutputs cd) \<Longrightarrow> i < mWireCount cd"
    using assms(1) unfolding half_ok_def circuit_wf_def by blast+
  have "(bv_get (mTranslationTable gc) j \<noteq> PermuteBit (?L ! (mOutputs cd ! j)))
      = plain_run (mGates cd) x (mOutputs cd ! j)" if "j < mOutputCount cd" for j
  proof -
    have w: "mOutputs cd ! j < mWireCount cd" using lt o that by simp
    have "?L ! (mOutputs cd ! j)
        = lab ?R (?W ! (mOutputs cd ! j)) (plain_run (mGates cd) x (mOutputs cd ! j))"
      by (rule half_evaluate_core [OF assms(1) _ _ _ w])
        (use assms(2,3) in \<open>simp_all add: holds_garbling_def encodes_def\<close>)
    then show ?thesis using assms(2) that by (auto simp: PermuteBit_lab holds_garbling_def)
  qed
  then have "bv_list (half_translate gc cd ?L out)
      = map (\<lambda>j. plain_run (mGates cd) x (mOutputs cd ! j)) [0..<mOutputCount cd]"
    by (intro half_translate_core) (use o assms(2) in \<open>auto simp: holds_garbling_def\<close>)
  also have "\<dots> = circuit_sem cd x"
    by (rule nth_equalityI) (simp_all add: circuit_sem_def o)
  finally show ?thesis .
qed

section \<open>Sending and receiving\<close>

lemma tables_of_table_bytes: "tables_of_bytes (length T) (table_bytes T) = T"
proof (induction T)
  case (Cons t T)
  obtain g0 g1 where t: "t = (g0, g1)" by fastforce
  show ?case using Cons by (simp add: table_bytes_def t)
qed (simp add: table_bytes_def)

lemma length_table_bytes: "length (table_bytes T) = length T * 32"
  by (induction T) (auto simp: table_bytes_def)

text \<open>A bit vector sent as its bytes and received into a vector reset to the same size.\<close>

lemma bv_bytes_received:
  fixes old :: bitvec
  assumes "bv_wf tt" and "bv_bits tt = n"
  defines "r \<equiv> bv_reset old n"
  defines "u \<equiv> r\<lparr>bv_data := blit (bv_data r) 0 (take (bv_sizeBytes tt) (bv_data tt))\<rparr>"
  shows "length (take (bv_sizeBytes tt) (bv_data tt)) = bv_sizeBytes r"
    and "bv_bits u = n" and "j < n \<Longrightarrow> bv_get u j = bv_get tt j"
proof -
  have k: "bv_sizeBytes tt \<le> length (bv_data tt)" "bv_sizeBytes r = bv_sizeBytes tt"
    using assms(1,2) by (simp_all add: bv_wf_def r_def bv_sizeBytes_def)
  then show "length (take (bv_sizeBytes tt) (bv_data tt)) = bv_sizeBytes r" by simp
  show "bv_bits u = n" by (simp add: u_def r_def)
  have r: "bv_sizeBytes r \<le> length (bv_data r)"
    using bv_wf_reset [of old n] by (simp add: r_def bv_wf_def)
  assume j: "j < n"
  then have "j div 8 < bv_sizeBytes tt"
    using assms(2) by (simp add: bv_sizeBytes_def byte_idx_less)
  then show "bv_get u j = bv_get tt j"
    using k r by (simp add: bv_get_bit u_def nth_blit)
qed

lemma out_table_cong:
  "(\<And>i. i \<in> set (mOutputs cd) \<Longrightarrow> w ! i = w' ! i) \<Longrightarrow> out_table cd w tt = out_table cd w' tt"
  unfolding out_table_def by (rule fold_cong) auto

text \<open>The circuits whose tables and translation table are messages with bytes.\<close>

definition circuit_sendable :: "Circuit \<Rightarrow> bool" where
  "circuit_sendable cd \<longleftrightarrow> 0 < mNonXorGateCount cd \<and> mOutputs cd \<noteq> []"

lemma garbling_sent:
  assumes "half_ok cd ix m"
  shows "[] \<notin> set [table_bytes (snd (garbling cd seed ix m)),
           take (bv_sizeBytes (mTranslationTable (Garble gc cd seed ix m)))
             (bv_data (mTranslationTable (Garble gc cd seed ix m)))] \<longleftrightarrow> circuit_sendable cd"
proof -
  have wf: "circuit_wf cd" using assms by (simp add: half_ok_def)
  let ?tt = "mTranslationTable (Garble gc cd seed ix m)"
  have tt: "bv_bits ?tt = length (mOutputs cd)" "bv_wf ?tt"
    using out_table_bits wf by (simp_all add: Garble_garbling circuit_wf_def)
  have "table_bytes (snd (garbling cd seed ix m)) = [] \<longleftrightarrow> mNonXorGateCount cd = 0"
    using garbling_shape(3) [OF assms, of seed] length_table_bytes [of "snd (garbling cd seed ix m)"]
    by (metis length_0_conv mult_eq_0_iff zero_neq_numeral)
  moreover have "take (bv_sizeBytes ?tt) (bv_data ?tt) = [] \<longleftrightarrow> mOutputs cd = []"
  proof -
    have "(length (mOutputs cd) + 7) div 8 = 0 \<longleftrightarrow> length (mOutputs cd) = 0" by linarith
    then have "length (take (bv_sizeBytes ?tt) (bv_data ?tt)) = 0 \<longleftrightarrow> length (mOutputs cd) = 0"
      using tt unfolding bv_wf_def bv_sizeBytes_def by simp
    then show ?thesis unfolding length_0_conv .
  qed
  ultimately show ?thesis unfolding circuit_sendable_def by auto
qed

lemma GarbleSend_result:
  assumes "half_ok cd ix m" and "mWireCount cd \<le> length wires"
  shows "\<exists>gc' wires'. GarbleSend gc cd seed wires ix m
      = (if circuit_sendable cd then
           Inr (gc', wires', [table_bytes (snd (garbling cd seed ix m)),
             take (bv_sizeBytes (mTranslationTable (Garble gc cd seed ix m)))
               (bv_data (mTranslationTable (Garble gc cd seed ix m)))])
         else Inl RuntimeError)
     \<and> mInputWires gc' = mInputWires (Garble gc cd seed ix m)
     \<and> mOutputWires gc' = mOutputWires (Garble gc cd seed ix m)
     \<and> mGlobalOffset gc' = mGlobalOffset (Garble gc cd seed ix m)"
proof -
  let ?R = "free_xor_offset (EncKeyGen seed)" and ?I = "seed_wires cd seed ix"
  let ?W = "fst (garbling cd seed ix m)" and ?T = "snd (garbling cd seed ix m)"
  have wf: "circuit_wf cd" using assms(1) by (simp add: half_ok_def)
  have l: "length ?I = InputWireCount cd" using assms(1) by (rule length_seed_wires)
  have n: "length ?I + length (mGates cd) = mWireCount cd" using wf l by (simp add: circuit_wf_def)
  have "length ?I \<le> length wires" using n assms(2) by linarith
  then have buf: "take (length ?I) (blit wires 0 ?I) = ?I" "length (blit wires 0 ?I) = length wires"
    using take_blit_prefix [of 0 ?I wires] by simp_all
  have "\<exists>buf'. garble_gates_send ?R (mGates cd) (blit wires 0 ?I) ZeroBlock (second_tweak cd) m = (buf', ?T)
      \<and> length buf' = length (blit wires 0 ?I) \<and> take (length ?I + length (mGates cd)) buf' = ?W"
    by (rule garble_gates_send_eq)
      (use wf l n buf assms(2) in \<open>simp_all add: circuit_wf_def garbling_def\<close>)
  then obtain buf' where buf': "garble_gates_send ?R (mGates cd) (blit wires 0 ?I) ZeroBlock (second_tweak cd) m
      = (buf', ?T)" "take (mWireCount cd) buf' = ?W"
    using n by auto
  have "buf' ! i = ?W ! i" if "i \<in> set (mOutputs cd)" for i
  proof -
    have "i < mWireCount cd" using that wf unfolding circuit_wf_def by blast
    then show ?thesis using buf'(2) by (metis nth_take)
  qed
  then have "map ((!) buf') (mOutputs cd) = map ((!) ?W) (mOutputs cd)"
    and "out_table cd buf' (mTranslationTable gc) = out_table cd ?W (mTranslationTable gc)"
    by (simp_all cong: out_table_cong)
  then show ?thesis
    using buf'(1) garbling_sent [OF assms(1), of seed gc, THEN iffD1] garbling_sent [OF assms(1), of seed gc, THEN iffD2]
    by (intro exI [of _ "gc\<lparr>mGlobalOffset := ?R, mInputWires := ?I, mOutputWires := map ((!) ?W) (mOutputs cd),
          mTranslationTable := out_table cd ?W (mTranslationTable gc)\<rparr>"] exI [of _ buf'])
      (simp add: GarbleSend_def Let_def Garble_garbling(1-3,5) Garble_inputs [OF assms(1)] send_msgs_cases del: list.set)
qed

lemma GarbleSend_eq:
  assumes "half_ok cd ix m" and "mWireCount cd \<le> length wires" and "circuit_sendable cd"
  shows "\<exists>gc' wires'. GarbleSend gc cd seed wires ix m
      = Inr (gc', wires', [table_bytes (snd (garbling cd seed ix m)),
           take (bv_sizeBytes (mTranslationTable (Garble gc cd seed ix m)))
             (bv_data (mTranslationTable (Garble gc cd seed ix m)))])
     \<and> mInputWires gc' = mInputWires (Garble gc cd seed ix m)
     \<and> mOutputWires gc' = mOutputWires (Garble gc cd seed ix m)
     \<and> mGlobalOffset gc' = mGlobalOffset (Garble gc cd seed ix m)"
  using GarbleSend_result [OF assms(1,2), of gc seed] assms(3) by simp

lemma ReceiveFromGarbler_holds:
  assumes "half_ok cd ix m"
  shows "\<exists>gc2. ReceiveFromGarbler gc' cd (table_bytes (snd (garbling cd seed ix m)))
            (take (bv_sizeBytes (mTranslationTable (Garble gc cd seed ix m)))
               (bv_data (mTranslationTable (Garble gc cd seed ix m)))) = Inr gc2
          \<and> holds_garbling gc2 cd seed ix m"
proof -
  let ?T = "snd (garbling cd seed ix m)" and ?tt = "mTranslationTable (Garble gc cd seed ix m)"
  have o: "mOutputCount cd = length (mOutputs cd)" using assms by (simp add: half_ok_def circuit_wf_def)
  have n: "length ?T = mNonXorGateCount cd" using assms by (rule garbling_shape)
  have tt: "bv_wf ?tt" "bv_bits ?tt = mOutputCount cd"
    and get: "\<And>j. j < mOutputCount cd \<Longrightarrow> bv_get ?tt j = PermuteBit (fst (garbling cd seed ix m) ! (mOutputs cd ! j))"
    using out_table_bits [OF o] by (simp_all add: Garble_garbling)
  show ?thesis
    using bv_bytes_received [OF tt, where old = "mTranslationTable gc'"] n get tables_of_table_bytes [of ?T]
    by (simp add: ReceiveFromGarbler_def Let_def length_table_bytes holds_garbling_def)
qed

section \<open>Validation\<close>

lemma Validate_iff:
  assumes "half_ok cd ix m" and "length (mTables gc) = mNonXorGateCount cd"
    and "bv_bits (mTranslationTable gc) = mOutputCount cd"
  shows "Validate gc cd seed ix m =
    (if holds_garbling gc cd seed ix m
     then Inr (gc\<lparr>mGlobalOffset := free_xor_offset (EncKeyGen seed),
                  mOutputWires := map ((!) (fst (garbling cd seed ix m))) (mOutputs cd),
                  mInputWires := seed_wires cd seed ix\<rparr>)
     else Inl RuntimeError)"
proof -
  let ?W = "fst (garbling cd seed ix m)" and ?T = "snd (garbling cd seed ix m)"
  let ?chk = "\<lambda>i. require (bv_get (mTranslationTable gc) i = PermuteBit (?W ! (mOutputs cd ! i))) RuntimeError"
  have wf: "circuit_wf cd" using assms(1) by (simp add: half_ok_def)
  have v: "validate_gates (free_xor_offset (EncKeyGen seed)) (mGates cd) (seed_wires cd seed ix) ZeroBlock
      (second_tweak cd) m (mTables gc) = (if mTables gc = ?T then Inr ?W else Inl RuntimeError)"
    by (rule validate_gates_iff) (use wf assms(2) in \<open>simp_all add: garbling_def circuit_wf_def nonxor_def\<close>)
  have e: "each_r ?chk xs = (if \<forall>i\<in>set xs. bv_get (mTranslationTable gc) i = PermuteBit (?W ! (mOutputs cd ! i))
      then Inr () else Inl RuntimeError)" for xs
    by (induction xs) (auto simp: require_def)
  have "vec_resize 0 (InputWireCount cd) ?W = seed_wires cd seed ix"
    using Garble_inputs [OF assms(1), of undefined seed] by (simp add: Garble_garbling)
  then show ?thesis
    using wf assms(3) v e by (auto simp: Validate_def Let_def holds_garbling_def circuit_wf_def)
qed

lemma holds_garbling_iff:
  assumes "half_ok cd ix m" and "bv_bits (mTranslationTable gc) = mOutputCount cd"
  shows "holds_garbling gc cd seed ix m \<longleftrightarrow> mTables gc = mTables (Garble gc cd seed ix m)
      \<and> bv_list (mTranslationTable gc) = bv_list (mTranslationTable (Garble gc cd seed ix m))"
proof -
  have o: "mOutputCount cd = length (mOutputs cd)" using assms(1) by (simp add: half_ok_def circuit_wf_def)
  note out = out_table_bits [OF o, where w = "fst (garbling cd seed ix m)" and tt = "mTranslationTable gc"]
  show ?thesis
    using assms(2) out by (auto simp: holds_garbling_def Garble_garbling(1,3) bv_list_def)
qed

section \<open>Tweaks\<close>

text \<open>The tweaks the loops hand to the hash, gate by gate.\<close>

fun gate_tweaks :: "Gate list \<Rightarrow> block \<Rightarrow> block \<Rightarrow> block list" where
  "gate_tweaks [] t0 t1 = []"
| "gate_tweaks (g # gs) t0 t1 =
     (if is_xor (mType g) then gate_tweaks gs t0 t1
      else t0 # t1 # gate_tweaks gs (add_epi64 t0 OneBlock) (add_epi64 t1 OneBlock))"

lemma gate_tweaks_set:
  "set (gate_tweaks gs (set_epi64x 0 (word_of_nat k)) (set_epi64x 0 (word_of_nat l)))
   = (\<lambda>i. set_epi64x 0 (word_of_nat i)) ` ({k..<k + nonxor gs} \<union> {l..<l + nonxor gs})"
proof (induction gs arbitrary: k l)
  case (Cons g gs)
  have add: "add_epi64 (set_epi64x 0 (word_of_nat k)) OneBlock = set_epi64x 0 (word_of_nat (Suc k))" for k
    by (simp add: add_epi64_def add.commute)
  have iv: "{k..<k + Suc n} = insert k {Suc k..<Suc k + n}" for k n :: nat
    by auto
  show ?case
    by (cases "is_xor (mType g)") (auto simp: Cons.IH add iv simp del: add_Suc_right of_nat_Suc)
qed simp

lemma length_gate_tweaks: "length (gate_tweaks gs t0 t1) = 2 * nonxor gs"
  by (induction gs t0 t1 rule: gate_tweaks.induct) simp_all

lemma set_epi64x_inject: "set_epi64x h l = set_epi64x h' l' \<longleftrightarrow> h = h' \<and> l = l'"
  by (metis hi64_set lo64_set)

lemma gate_tweaks_distinct:
  assumes "nonxor gs \<le> n" and "n < 2 ^ 63"
  shows "distinct (gate_tweaks gs ZeroBlock (set_epi64x 0 (word_of_nat n)))"
proof -
  let ?S = "{0..<nonxor gs} \<union> {n..<n + nonxor gs}"
  have z: "ZeroBlock = set_epi64x 0 (word_of_nat 0)" by (simp only: ZeroBlock_def semiring_1_class.of_nat_0)
  have s: "set (gate_tweaks gs ZeroBlock (set_epi64x 0 (word_of_nat n)))
      = (\<lambda>i. set_epi64x 0 (word_of_nat i)) ` ?S"
    unfolding z using gate_tweaks_set [of gs 0 n] by simp
  have "inj_on (\<lambda>i. set_epi64x 0 (word_of_nat i)) ?S"
  proof (rule inj_onI)
    fix i j assume "i \<in> ?S" "j \<in> ?S" and e: "set_epi64x 0 (word_of_nat i) = set_epi64x 0 (word_of_nat j)"
    then have b: "i < 2 ^ 64" "j < 2 ^ 64" using assms by auto
    have "unat (word_of_nat i :: u64) = unat (word_of_nat j :: u64)"
      using e by (simp add: set_epi64x_inject)
    then show "i = j" using b by (simp add: unsigned_of_nat take_bit_eq_mod)
  qed
  then have "card (set (gate_tweaks gs ZeroBlock (set_epi64x 0 (word_of_nat n)))) = card ?S"
    unfolding s by (rule card_image)
  also have "\<dots> = nonxor gs + nonxor gs"
    using assms by (subst card_Un_disjoint) auto
  finally show ?thesis by (intro card_distinct) (simp add: length_gate_tweaks)
qed

section \<open>The half-gate scheme\<close>

text \<open>Material: the seed, the index array and the table masks.\<close>

type_synonym half_material = "block \<times> block list \<times> block list"

definition half_valid :: "Circuit \<Rightarrow> half_material \<Rightarrow> bool" where
  "half_valid cd s = (case s of (seed, ix, m) \<Rightarrow> half_ok cd ix m)"

definition half_label :: "Circuit \<Rightarrow> half_material \<Rightarrow> nat \<Rightarrow> bool \<Rightarrow> block" where
  "half_label cd s i x =
     (case s of (seed, ix, m) \<Rightarrow> lab (free_xor_offset (EncKeyGen seed)) (seed_wires cd seed ix ! i) x)"

definition HalfGt_new :: HalfGt where
  "HalfGt_new = \<lparr>mGlobalOffset = 0, mInputWires = [], mOutputWires = [], mTables = [],
                 mTranslationTable = bv_empty, mAddativeSecureMaskSeed = 0\<rparr>"

definition half_run :: "Circuit \<Rightarrow> half_material \<Rightarrow> block list \<Rightarrow> bool list result" where
  "half_run cd s L =
     (case s of (seed, ix, m) \<Rightarrow>
        let gc = Garble HalfGt_new cd seed ix m;
            labels = half_evaluate gc cd (vec_resize 0 (mWireCount cd) L) m
        in Inr (bv_list (half_translate gc cd labels bv_empty)))"

lemma encodes_resize:
  assumes "half_ok cd ix m" and "length L = InputWireCount cd"
    and "\<And>i. i < InputWireCount cd \<Longrightarrow> L ! i = half_label cd (seed, ix, m) i (x i)"
  shows "encodes cd seed ix x (vec_resize 0 (mWireCount cd) L)"
  using assms by (auto simp: encodes_def half_label_def nth_vec_resize half_ok_def circuit_wf_def)

interpretation hgs: garbling_scheme half_valid half_label half_run
proof unfold_locales
  fix c :: Circuit and s :: half_material
  assume "half_valid c s"
  then show "circuit_wf c" by (auto simp: half_valid_def half_ok_def split: prod.splits)
next
  fix c :: Circuit and s :: half_material and L x
  obtain seed ix m where s: "s = (seed, ix, m)" by (metis prod_cases3)
  assume "half_valid c s" and l: "length L = InputWireCount c"
    and e: "\<And>i. i < InputWireCount c \<Longrightarrow> L ! i = half_label c s i (x i)"
  then have ok: "half_ok c ix m" by (simp add: half_valid_def s)
  show "half_run c s L = Inr (circuit_sem c x)"
    using half_gates_compute [OF ok holds_garbling_Garble [OF ok] encodes_resize [OF ok l e [unfolded s]]]
    by (simp add: half_run_def s Let_def)
qed

section \<open>Properties\<close>

text \<open>C4. Half-gate garbling is correct: for every well-formed circuit of binary gates, every seed and
  masks, evaluating the garbled circuit on the labels of any input bits (free-xor labels of the
  AES-derived input wires) and translating gives the circuit's output on those bits.\<close>

theorem half_gates_correct:
  assumes "half_ok cd ix m" and "length L = InputWireCount cd"
    and "\<forall>i<InputWireCount cd. L ! i = mInputWires (Garble gc cd seed ix m) ! i
           XOR sel (mGlobalOffset (Garble gc cd seed ix m)) (x i)"
  shows "bv_list (half_translate (Garble gc cd seed ix m) cd
           (half_evaluate (Garble gc cd seed ix m) cd (vec_resize 0 (mWireCount cd) L) m) out)
         = circuit_sem cd x"
proof -
  have "encodes cd seed ix x (vec_resize 0 (mWireCount cd) L)"
    by (rule encodes_resize [OF assms(1,2)])
      (use assms(3) in \<open>simp add: half_label_def lab_def Garble_inputs [OF assms(1)] Garble_garbling(5)\<close>)
  then show ?thesis
    by (rule half_gates_compute [OF assms(1) holds_garbling_Garble [OF assms(1)]])
qed

lemma half_adder_ok: "half_ok half_adder [a, b] [c, d]"
  by (simp add: half_ok_def half_adder_wf)
    (simp add: half_adder_def garblable_def is_xor_def and_like_def)

lemma half_adder_sendable: "circuit_sendable half_adder"
  by (simp add: circuit_sendable_def half_adder_def)

theorem half_gates_correct_witness:
  "bv_list (half_translate (Garble HalfGt_new half_adder 7 [0, 1] [5, 6]) half_adder
     (half_evaluate (Garble HalfGt_new half_adder 7 [0, 1] [5, 6]) half_adder
        (vec_resize 0 (mWireCount half_adder)
          (map (\<lambda>i. mInputWires (Garble HalfGt_new half_adder 7 [0, 1] [5, 6]) ! i
                  XOR sel (mGlobalOffset (Garble HalfGt_new half_adder 7 [0, 1] [5, 6])) True) [0..<2]))
        [5, 6]) bv_empty)
   = circuit_sem half_adder (\<lambda>i. True)"
  by (rule half_gates_correct) (simp_all add: half_adder_ok)

text \<open>C31. Garbled circuits travel. \<open>GarbleSend\<close> of a circuit without a table or without an output throws, as the
  network sends no empty message. For every other circuit it sends two messages (of less than 4 GB); \<open>ReceiveFromGarbler\<close>
  accepts them into any object, which evaluates and translates to the circuit's output on the labels
  that \<open>GarbleSend\<close> left in the sender's input wires.\<close>

theorem garble_send_receive:
  assumes "half_ok cd ix m" and "mWireCount cd \<le> length wires"
    and "32 * mNonXorGateCount cd < 2 ^ 32" and "mOutputCount cd < 2 ^ 32"
  shows "if circuit_sendable cd
     then \<exists>gc1 wires1 msg0 msg1 gc2. GarbleSend gc cd seed wires ix m = Inr (gc1, wires1, [msg0, msg1])
        \<and> ReceiveFromGarbler gc' cd msg0 msg1 = Inr gc2
        \<and> (\<forall>L x out. length L = InputWireCount cd
             \<and> (\<forall>i<InputWireCount cd. L ! i = mInputWires gc1 ! i XOR sel (mGlobalOffset gc1) (x i))
             \<longrightarrow> bv_list (half_translate gc2 cd (half_evaluate gc2 cd (vec_resize 0 (mWireCount cd) L) m) out)
                 = circuit_sem cd x)
     else GarbleSend gc cd seed wires ix m = Inl RuntimeError"
proof (cases "circuit_sendable cd")
  case True
  obtain gc1 wires1 where g: "GarbleSend gc cd seed wires ix m
      = Inr (gc1, wires1, [table_bytes (snd (garbling cd seed ix m)),
             take (bv_sizeBytes (mTranslationTable (Garble gc cd seed ix m))) (bv_data (mTranslationTable (Garble gc cd seed ix m)))])"
    "mInputWires gc1 = mInputWires (Garble gc cd seed ix m)" "mGlobalOffset gc1 = mGlobalOffset (Garble gc cd seed ix m)"
    using GarbleSend_eq [OF assms(1,2) True, of gc seed] by blast
  obtain gc2 where r: "ReceiveFromGarbler gc' cd (table_bytes (snd (garbling cd seed ix m)))
             (take (bv_sizeBytes (mTranslationTable (Garble gc cd seed ix m))) (bv_data (mTranslationTable (Garble gc cd seed ix m)))) = Inr gc2"
    "holds_garbling gc2 cd seed ix m" using ReceiveFromGarbler_holds [OF assms(1), of gc' seed gc] by blast
  have w: "mInputWires gc1 = seed_wires cd seed ix" "mGlobalOffset gc1 = free_xor_offset (EncKeyGen seed)"
    using g(2,3) Garble_inputs [OF assms(1), of gc seed] by (auto simp: Garble_garbling(5))
  have "bv_list (half_translate gc2 cd (half_evaluate gc2 cd (vec_resize 0 (mWireCount cd) L) m) out) = circuit_sem cd x"
    if "length L = InputWireCount cd"
      and "\<forall>i<InputWireCount cd. L ! i = mInputWires gc1 ! i XOR sel (mGlobalOffset gc1) (x i)" for L x out
  proof -
    have "encodes cd seed ix x (vec_resize 0 (mWireCount cd) L)"
      by (intro encodes_resize [OF assms(1) that(1)]) (use that(2) w in \<open>simp add: half_label_def lab_def\<close>)
    then show ?thesis by (rule half_gates_compute [OF assms(1) r(2)])
  qed
  then show ?thesis using g(1) r(1) True by auto
next
  case False
  then show ?thesis using GarbleSend_result [OF assms(1,2), of gc seed] by auto
qed

lemma half_adder_counts: "mWireCount half_adder \<le> length [0, 0, 0, 0 :: block]" "32 * mNonXorGateCount half_adder < 2 ^ 32"
    "mOutputCount half_adder < 2 ^ 32"
  by (simp_all add: half_adder_def)

theorem garble_send_receive_witness:
  "\<exists>gc1 wires1 msg0 msg1 gc2.
     GarbleSend HalfGt_new half_adder 7 [0, 0, 0, 0] [0, 1] [5, 6] = Inr (gc1, wires1, [msg0, msg1])
     \<and> ReceiveFromGarbler HalfGt_new half_adder msg0 msg1 = Inr gc2
     \<and> bv_list (half_translate gc2 half_adder (half_evaluate gc2 half_adder
          (vec_resize 0 (mWireCount half_adder)
             (map (\<lambda>i. mInputWires gc1 ! i XOR sel (mGlobalOffset gc1) (i = 0)) [0..<2])) [5, 6]) bv_empty)
       = circuit_sem half_adder (\<lambda>i. i = 0)"
proof -
  obtain gc1 wires1 msg0 msg1 gc2 where g:
    "GarbleSend HalfGt_new half_adder 7 [0, 0, 0, 0] [0, 1] [5, 6] = Inr (gc1, wires1, [msg0, msg1])"
    "ReceiveFromGarbler HalfGt_new half_adder msg0 msg1 = Inr gc2"
    "\<forall>L x out. length L = InputWireCount half_adder
       \<and> (\<forall>i<InputWireCount half_adder. L ! i = mInputWires gc1 ! i XOR sel (mGlobalOffset gc1) (x i))
       \<longrightarrow> bv_list (half_translate gc2 half_adder (half_evaluate gc2 half_adder (vec_resize 0 (mWireCount half_adder) L) [5, 6]) out)
           = circuit_sem half_adder x"
    using garble_send_receive [OF half_adder_ok [of 0 1 5 6] half_adder_counts, of HalfGt_new 7 HalfGt_new] half_adder_sendable
    by (simp only: if_True) fastforce
  have "bv_list (half_translate gc2 half_adder (half_evaluate gc2 half_adder
          (vec_resize 0 (mWireCount half_adder)
             (map (\<lambda>i. mInputWires gc1 ! i XOR sel (mGlobalOffset gc1) (i = 0)) [0..<2])) [5, 6]) bv_empty)
       = circuit_sem half_adder (\<lambda>i. i = 0)"
    by (rule g(3) [rule_format]) simp
  then show ?thesis using g(1,2) by blast
qed

text \<open>A received object whose only table is zero, for the instances.\<close>

definition zero_gc :: HalfGt where
  "zero_gc = HalfGt_new\<lparr>mTables := [(0, 0)], mTranslationTable := bv_reset bv_empty 2\<rparr>"

text \<open>C7. \<open>Validate\<close> accepts exactly the honest garbling of the seed: on received tables of the right
  size it returns normally, with the seed's wires filled in, when every table entry and every
  translation bit equals what \<open>Garble\<close> computes, and throws otherwise.\<close>

theorem validate_exact:
  assumes "half_ok cd ix m" and "length (mTables gc) = mNonXorGateCount cd"
    and "bv_bits (mTranslationTable gc) = mOutputCount cd"
  shows "Validate gc cd seed ix m =
    (if mTables gc = mTables (Garble gc cd seed ix m)
        \<and> bv_list (mTranslationTable gc) = bv_list (mTranslationTable (Garble gc cd seed ix m))
     then Inr (gc\<lparr>mGlobalOffset := mGlobalOffset (Garble gc cd seed ix m),
                  mOutputWires := mOutputWires (Garble gc cd seed ix m),
                  mInputWires := mInputWires (Garble gc cd seed ix m)\<rparr>)
     else Inl RuntimeError)"
  using Validate_iff [OF assms, of seed] holds_garbling_iff [OF assms(1,3), of seed]
  by (simp add: Garble_garbling(2,5) Garble_inputs [OF assms(1)])

theorem validate_exact_witness:
  "Validate zero_gc half_adder 7 [0, 1] [5, 6] =
    (if mTables zero_gc = mTables (Garble zero_gc half_adder 7 [0, 1] [5, 6])
        \<and> bv_list (mTranslationTable zero_gc)
          = bv_list (mTranslationTable (Garble zero_gc half_adder 7 [0, 1] [5, 6]))
     then Inr (zero_gc\<lparr>mGlobalOffset := mGlobalOffset (Garble zero_gc half_adder 7 [0, 1] [5, 6]),
                  mOutputWires := mOutputWires (Garble zero_gc half_adder 7 [0, 1] [5, 6]),
                  mInputWires := mInputWires (Garble zero_gc half_adder 7 [0, 1] [5, 6])\<rparr>)
     else Inl RuntimeError)"
  by (rule validate_exact [OF half_adder_ok]) (simp_all add: half_adder_def zero_gc_def)

text \<open>C5. A circuit that passed \<open>Validate\<close> is good: its received tables evaluate and translate to the
  circuit's output on the labels of the revealed seed, so a cheating garbler cannot have a wrong
  circuit pass the check.\<close>

theorem validated_circuit_correct:
  assumes "half_ok cd ix m" and "length (mTables gc) = mNonXorGateCount cd"
    and "bv_bits (mTranslationTable gc) = mOutputCount cd"
    and "Validate gc cd seed ix m = Inr gc'" and "encodes cd seed ix x L"
  shows "bv_list (half_translate gc' cd (half_evaluate gc' cd L m) out) = circuit_sem cd x"
proof -
  have "holds_garbling gc' cd seed ix m"
    using assms(4) by (auto simp: Validate_iff [OF assms(1-3)] holds_garbling_def split: if_splits)
  then show ?thesis using assms(5) by (rule half_gates_compute [OF assms(1)])
qed

theorem validated_circuit_correct_witness:
  "\<exists>gc' L. Validate (Garble HalfGt_new half_adder 7 [0, 1] [5, 6]) half_adder 7 [0, 1] [5, 6] = Inr gc'
     \<and> encodes half_adder 7 [0, 1] (\<lambda>i. True) L
     \<and> bv_list (half_translate gc' half_adder (half_evaluate gc' half_adder L [5, 6]) bv_empty)
       = circuit_sem half_adder (\<lambda>i. True)"
proof -
  let ?g = "Garble HalfGt_new half_adder 7 [0, 1] [5, 6]"
  let ?L = "vec_resize 0 (mWireCount half_adder)
      (labels_for half_adder (half_label half_adder (7, [0, 1], [5, 6])) (\<lambda>i. True))"
  have l: "length (mTables ?g) = mNonXorGateCount half_adder"
    using garbling_shape(3) [OF half_adder_ok] by (simp add: Garble_garbling(1))
  have b: "bv_bits (mTranslationTable ?g) = mOutputCount half_adder"
    by (simp add: Garble_garbling(3) out_table_bits half_adder_def)
  obtain gc' where v: "Validate ?g half_adder 7 [0, 1] [5, 6] = Inr gc'"
    using Validate_iff [OF half_adder_ok l b, of 7] holds_garbling_Garble [OF half_adder_ok] by simp
  have e: "encodes half_adder 7 [0, 1] (\<lambda>i. True) ?L"
    by (rule encodes_resize [OF half_adder_ok]) (simp_all add: labels_for_def)
  show ?thesis using validated_circuit_correct [OF half_adder_ok l b v e] v e by blast
qed

text \<open>No hash tweak is ever used twice in one garbling: the tweaks of all table-carrying gates, both
  inputs each, are pairwise distinct.\<close>

theorem tweaks_distinct:
  assumes "length (mGates cd) < 2 ^ 63"
  shows "distinct (gate_tweaks (mGates cd) ZeroBlock (second_tweak cd))"
  unfolding second_tweak_def
  by (rule gate_tweaks_distinct [OF _ assms]) (simp add: nonxor_def)

theorem tweaks_distinct_witness:
  "distinct (gate_tweaks (mGates half_adder) ZeroBlock (second_tweak half_adder))"
  by (rule tweaks_distinct) (simp add: half_adder_def)

text \<open>A unary \<open>na\<close> gate, which \<open>AddGate\<close> accepts and whose rejection in \<open>Garble\<close> is commented out, is
  garbled as a conjunction: with input bit 0 on its first wire the evaluator gets the label of 0
  where the gate's truth table says 1.\<close>

theorem na_gate_garbled_as_and:
  assumes "PermuteBit R" and "garble_gate R t0 t1 (mk_Gate i j k gt_na) wa wb = (g0, g1, wc)"
  shows "eval_gate t0 t1 (wa XOR sel R x) (wb XOR sel R y) (g0, g1) = wc XOR sel R (x \<and> y)
         \<and> gt_eval gt_na x y = (\<not> x)"
proof -
  have "alpha_and (mk_Gate i j k gt_na) x y = (x \<and> y)" by (simp add: alpha_and_def mk_Gate_def)
  moreover have "gt_eval gt_na x y = (\<not> x)"
    by (cases x; cases y) (simp_all add: gt_eval_def row_of_simps bit_nat_def)
  ultimately show ?thesis using half_gate_correct [OF assms, of x y] by (simp add: lab_def)
qed

theorem na_gate_garbled_as_and_witness:
  "eval_gate 0 1 (4 XOR sel 1 False) (8 XOR sel 1 True)
     (fst (garble_gate 1 0 1 (mk_Gate 0 1 2 gt_na) 4 8), fst (snd (garble_gate 1 0 1 (mk_Gate 0 1 2 gt_na) 4 8)))
   = snd (snd (garble_gate 1 0 1 (mk_Gate 0 1 2 gt_na) 4 8)) XOR sel 1 (False \<and> True)
   \<and> gt_eval gt_na False True = (\<not> False)"
  by (rule na_gate_garbled_as_and) (simp_all add: PermuteBit_bit)

end
