(* ===== verification/BDX_ClassicGC.thy ===== *)
theory BDX_ClassicGC
  imports BDX_HalfGate
begin

text \<open>
  \<open>Circuit/ClassicGarbledCircuit.{h,cpp}\<close>: point-and-permute garbling with four-row tables, every
  row the output label encrypted under both input labels. An object garbled locally also checks
  labels against its own wires; \<open>Validate\<close> is not implemented and throws.
\<close>

record ClassicGC =
  cg_mWires :: "block list"
  cg_mGates :: "block list list"
  cg_mTranslationTable :: bitvec
  cg_mSeedKey :: AES_Key
  cg_mNextRandIdx :: nat
  cg_mGlobalOffset :: block

section \<open>Operations\<close>

text \<open>\<open>GetNextRand\<close> for a seed key and counter; the caller increments the counter.\<close>

definition GetNextRand :: "AES_Key \<Rightarrow> nat \<Rightarrow> block" where
  "GetNextRand key idx = EcbEncBlock key (set_epi64x 0 (word_of_nat idx))"

definition swap_at :: "nat \<Rightarrow> nat \<Rightarrow> nat list \<Rightarrow> nat list" where
  "swap_at i j xs = xs[i := xs ! j, j := xs ! i]"

definition permute_rows :: "bool \<Rightarrow> bool \<Rightarrow> nat list" where
  "permute_rows pa pb =
     (let permute = [0, 1, 2, 3];
          permute = (if pa then swap_at 2 3 (swap_at 0 1 permute) else permute);
          permute = (if pb then swap_at 1 3 (swap_at 0 2 permute) else permute)
      in permute)"

definition classic_gate :: "block \<Rightarrow> Gate \<Rightarrow> block \<Rightarrow> block \<Rightarrow> block \<Rightarrow> block list" where
  "classic_gate R g wa wb wc =
     (let permute = permute_rows (PermuteBit wa) (PermuteBit wb);
          aKeys = [EncKeyGen wa, EncKeyGen (wa XOR R)];
          bKeys = [EncKeyGen wb, EncKeyGen (wb XOR R)]
      in fold (\<lambda>i table.
           let wireValue = (if bit (gt_code (mType g)) i then wc XOR R else wc)
           in table[permute ! i :=
                EcbEncBlock (bKeys ! (i div 2)) (EcbEncBlock (aKeys ! (i mod 2)) wireValue)])
         [0..<4] (replicate 4 0))"

fun classic_garble_gates ::
  "block \<Rightarrow> AES_Key \<Rightarrow> Gate list \<Rightarrow> block list \<Rightarrow> nat \<Rightarrow> block list \<times> block list list \<times> nat" where
  "classic_garble_gates R key [] wires idx = (wires, [], idx)"
| "classic_garble_gates R key (g # gs) wires idx =
     (let wires1 = wires @ [GetNextRand key idx];
          table = classic_gate R g (wires1 ! mInput0 g) (wires1 ! mInput1 g) (GetNextRand key idx);
          (wires2, tables, idx2) = classic_garble_gates R key gs wires1 (idx + 1)
      in (wires2, table # tables, idx2))"

definition classic_Garble :: "ClassicGC \<Rightarrow> Circuit \<Rightarrow> block \<Rightarrow> ClassicGC" where
  "classic_Garble gc cir seed =
     (let key = EncKeyGen seed;
          R = GetNextRand key 0 OR 1;
          inputs = map (\<lambda>i. GetNextRand key (1 + i)) [0..<InputWireCount cir];
          (wires, tables, idx) = classic_garble_gates R key (mGates cir) inputs (1 + InputWireCount cir);
          tt = fold (\<lambda>i t. bv_put t i (PermuteBit (wires ! (mOutputs cir ! i))))
                 [0..<length (mOutputs cir)] (bv_reset (cg_mTranslationTable gc) (length (mOutputs cir)))
      in \<lparr>cg_mWires = wires, cg_mGates = tables, cg_mTranslationTable = tt, cg_mSeedKey = key,
          cg_mNextRandIdx = idx, cg_mGlobalOffset = R\<rparr>)"

definition classic_eval_gate :: "block \<Rightarrow> block \<Rightarrow> block list \<Rightarrow> block" where
  "classic_eval_gate la lb garbledTable =
     (let tableIdx = (if PermuteBit la then 1 else 0) + (if PermuteBit lb then 2 else 0);
          aKey = DecKeyGen la;
          bKey = DecKeyGen lb
      in EcbDecBlock aKey (EcbDecBlock bKey (garbledTable ! tableIdx)))"

fun classic_eval_gates :: "Gate list \<Rightarrow> block list \<Rightarrow> block list list \<Rightarrow> block list" where
  "classic_eval_gates [] labels T = labels"
| "classic_eval_gates (g # gs) labels T =
     classic_eval_gates gs
       (labels @ [classic_eval_gate (labels ! mInput0 g) (labels ! mInput1 g) (hd T)]) (tl T)"

definition classic_evaluate :: "ClassicGC \<Rightarrow> Circuit \<Rightarrow> block list \<Rightarrow> block list result" where
  "classic_evaluate gc cir labels =
     bind_r (require (length labels = InputWireCount cir) RuntimeError) (\<lambda>_.
     bind_r (if cg_mWires gc \<noteq> []
             then each_r (\<lambda>i. require (\<not> (labels ! i \<noteq> cg_mWires gc ! i
                      \<and> labels ! i \<noteq> cg_mWires gc ! i XOR cg_mGlobalOffset gc)) RuntimeError)
                    [0..<InputWireCount cir]
             else Inr ()) (\<lambda>_.
     Inr (classic_eval_gates (mGates cir) labels (cg_mGates gc))))"

definition classic_Validate :: "ClassicGC \<Rightarrow> Circuit \<Rightarrow> block \<Rightarrow> bool result" where
  "classic_Validate gc cir seed = Inl NotImplemented"

definition classic_translate :: "ClassicGC \<Rightarrow> Circuit \<Rightarrow> block list \<Rightarrow> bitvec \<Rightarrow> bitvec result" where
  "classic_translate gc cir labels output =
     (let value = (\<lambda>i. bv_get (cg_mTranslationTable gc) i \<noteq> PermuteBit (labels ! (mOutputs cir ! i)));
          out = fold (\<lambda>i out. bv_put out i (value i)) [0..<length (mOutputs cir)]
                  (bv_reset output (bv_bits (cg_mTranslationTable gc)))
      in bind_r (if cg_mWires gc \<noteq> []
           then each_r (\<lambda>i. let w = mOutputs cir ! i in
                  if \<not> value i then require (labels ! w = cg_mWires gc ! w) RuntimeError
                  else require (labels ! w = cg_mWires gc ! w XOR cg_mGlobalOffset gc) RuntimeError)
                  [0..<length (mOutputs cir)]
           else Inr ()) (\<lambda>_. Inr out))"

section \<open>One gate\<close>

lemma upt_4: "[0..<4] = [0, 1, 2, 3 :: nat]"
  by (simp add: upt_rec)

lemma row_3: "Suc (Suc (Suc 0)) div Suc (Suc 0) = Suc 0" "Suc (Suc (Suc 0)) mod Suc (Suc 0) = Suc 0"
  by presburger+

text \<open>Row \<open>i\<close> lands at \<open>i\<close> xor the permute bits.\<close>

lemma classic_gate_row:
  "classic_gate R g wa wb wc
     ! ((if PermuteBit wa \<noteq> x then 1 else 0) + (if PermuteBit wb \<noteq> y then 2 else 0))
   = EcbEncBlock (EncKeyGen (lab R wb y)) (EcbEncBlock (EncKeyGen (lab R wa x))
       (lab R wc (gt_eval (mType g) x y)))"
  by (cases x; cases y; cases "PermuteBit wa"; cases "PermuteBit wb")
    (simp_all add: classic_gate_def permute_rows_def swap_at_def upt_4 gt_eval_def row_of_simps
      numeral_2_eq_2 numeral_3_eq_3 row_3 Let_def)

lemma classic_gate_correct:
  assumes "PermuteBit R"
  shows "classic_eval_gate (lab R wa x) (lab R wb y) (classic_gate R g wa wb wc)
         = lab R wc (gt_eval (mType g) x y)"
  unfolding classic_eval_gate_def Let_def PermuteBit_lab [OF assms] classic_gate_row
  by (rule aes.dec_enc_two)

section \<open>The loops\<close>

lemma classic_garble_shape:
  "classic_garble_gates R key gs wires idx = (W, T, idx') \<Longrightarrow>
   length W = length wires + length gs \<and> take (length wires) W = wires \<and> length T = length gs
   \<and> idx' = idx + length gs"
proof (induction gs arbitrary: wires idx W T)
  case (Cons g gs)
  then obtain T' where g: "classic_garble_gates R key gs (wires @ [GetNextRand key idx]) (idx + 1) = (W, T', idx')"
    and T: "length T = Suc (length T')"
    by (auto simp: Let_def split: prod.splits)
  have w: "take (length (wires @ [GetNextRand key idx])) W = wires @ [GetNextRand key idx]"
    and l: "length W = length (wires @ [GetNextRand key idx]) + length gs" "length T' = length gs"
      "idx' = idx + 1 + length gs"
    using Cons.IH [OF g] by blast+
  have "take (length wires) W = take (length wires) (take (length (wires @ [GetNextRand key idx])) W)"
    by (simp add: min_def)
  then show ?case using l T by (simp only: w) simp
qed simp

lemma classic_eval_gates_correct:
  assumes "PermuteBit R" and "gates_topo (length wires) gs"
    and "classic_garble_gates R key gs wires idx = (W, T, idx')"
    and "length L = length wires"
    and "\<And>i. i < length wires \<Longrightarrow> L ! i = lab R (wires ! i) (v i)"
  shows "length (classic_eval_gates gs L T) = length wires + length gs
    \<and> (\<forall>i < length wires + length gs.
         classic_eval_gates gs L T ! i = lab R (W ! i) (plain_run gs v i))"
  using assms(2-)
proof (induction gs arbitrary: wires idx W T L v)
  case (Cons g gs)
  let ?n = "length wires" and ?wc = "GetNextRand key idx"
  have o: "mOutput g = ?n" using Cons.prems(1) by (rule gates_topo_output)
  have i: "mInput0 g < ?n" "mInput1 g < ?n" "gates_topo (Suc ?n) gs" using Cons.prems(1) by simp_all
  obtain T1 where g: "classic_garble_gates R key gs (wires @ [?wc]) (idx + 1) = (W, T1, idx')"
    and T: "T = classic_gate R g (wires ! mInput0 g) (wires ! mInput1 g) ?wc # T1"
    using Cons.prems(2) i by (auto simp: Let_def nth_append split: prod.splits)
  define x where "x = gate_value g v"
  have "classic_eval_gate (L ! mInput0 g) (L ! mInput1 g) (hd T) = lab R ?wc x"
    using classic_gate_correct [OF assms(1)] Cons.prems(4) i T
    by (simp add: x_def gate_value_def Gate_eval_row)
  then have e: "classic_eval_gates (g # gs) L T = classic_eval_gates gs (L @ [lab R ?wc x]) T1"
    using T by simp
  have run: "plain_run (g # gs) v = plain_run gs (v(?n := x))"
    by (simp only: plain_run_simps o x_def)
  have "(L @ [lab R ?wc x]) ! k = lab R ((wires @ [?wc]) ! k) ((v(?n := x)) k)"
    if "k < length (wires @ [?wc])" for k
    using that Cons.prems(3,4) by (auto simp: nth_append less_Suc_eq)
  from Cons.IH [OF _ g _ this] show ?case
    unfolding e run using i(3) Cons.prems(3) by (simp del: fun_upd_apply)
qed simp

section \<open>Correctness of the operations\<close>

definition classic_inputs :: "Circuit \<Rightarrow> block \<Rightarrow> block list" where
  "classic_inputs cir seed =
     map (\<lambda>i. GetNextRand (EncKeyGen seed) (1 + i)) [0..<InputWireCount cir]"

definition classic_offset :: "block \<Rightarrow> block" where
  "classic_offset seed = GetNextRand (EncKeyGen seed) 0 OR 1"

lemma PermuteBit_classic_offset [simp]: "PermuteBit (classic_offset seed)"
  by (simp add: classic_offset_def)

text \<open>What an evaluator holds: the tables and permute bits of a garbling, with or without its wires.\<close>

definition classic_holds :: "ClassicGC \<Rightarrow> Circuit \<Rightarrow> block \<Rightarrow> bool" where
  "classic_holds gc cir seed \<longleftrightarrow>
     (\<exists>W T idx. classic_garble_gates (classic_offset seed) (EncKeyGen seed) (mGates cir)
          (classic_inputs cir seed) (1 + InputWireCount cir) = (W, T, idx)
        \<and> cg_mGates gc = T
        \<and> (cg_mWires gc \<noteq> [] \<longrightarrow> cg_mWires gc = W \<and> cg_mGlobalOffset gc = classic_offset seed)
        \<and> bv_bits (cg_mTranslationTable gc) = length (mOutputs cir)
        \<and> (\<forall>j<length (mOutputs cir).
             bv_get (cg_mTranslationTable gc) j = PermuteBit (W ! (mOutputs cir ! j))))"

lemma classic_Garble_holds: "classic_holds (classic_Garble gc cir seed) cir seed"
proof -
  obtain W T idx where g: "classic_garble_gates (classic_offset seed) (EncKeyGen seed) (mGates cir)
      (classic_inputs cir seed) (1 + InputWireCount cir) = (W, T, idx)"
    by (metis prod_cases3)
  have "bv_get (fold (\<lambda>i t. bv_put t i (PermuteBit (W ! (mOutputs cir ! i))))
        [0..<length (mOutputs cir)] (bv_reset t (length (mOutputs cir)))) j
      = PermuteBit (W ! (mOutputs cir ! j))" if "j < length (mOutputs cir)" for j t
    using that bva.fill_test0 [of "bv_reset t (length (mOutputs cir))" "length (mOutputs cir)"
        "\<lambda>i. PermuteBit (W ! (mOutputs cir ! i))" j] by (simp add: bv_wf_reset)
  then show ?thesis
    unfolding classic_holds_def
    by (intro exI [of _ W] exI [of _ T] exI [of _ idx])
      (use g in \<open>simp add: classic_Garble_def Let_def classic_offset_def classic_inputs_def bva.fill_size0\<close>)
qed

lemma each_r_all: "(\<And>x. x \<in> set xs \<Longrightarrow> f x = Inr ()) \<Longrightarrow> each_r f xs = Inr ()"
  by (induction xs) simp_all

lemma classic_compute:
  assumes "circuit_wf cir" and "classic_holds gc cir seed"
    and "length L = InputWireCount cir"
    and "\<And>i. i < InputWireCount cir \<Longrightarrow> L ! i = lab (classic_offset seed) (classic_inputs cir seed ! i) (x i)"
  shows "bind_r (classic_evaluate gc cir L) (\<lambda>labels. bind_r (classic_translate gc cir labels out)
           (\<lambda>o'. Inr (bv_list o'))) = Inr (circuit_sem cir x)"
proof -
  let ?R = "classic_offset seed" and ?I = "classic_inputs cir seed"
  obtain W T idx where g: "classic_garble_gates ?R (EncKeyGen seed) (mGates cir) ?I (1 + InputWireCount cir)
        = (W, T, idx)"
    and gc: "cg_mGates gc = T" "cg_mWires gc \<noteq> [] \<longrightarrow> cg_mWires gc = W \<and> cg_mGlobalOffset gc = ?R"
      "bv_bits (cg_mTranslationTable gc) = length (mOutputs cir)"
    and tt: "\<And>j. j < length (mOutputs cir) \<Longrightarrow>
      bv_get (cg_mTranslationTable gc) j = PermuteBit (W ! (mOutputs cir ! j))"
    using assms(2) unfolding classic_holds_def by blast
  have wf: "gates_topo (InputWireCount cir) (mGates cir)"
    "mWireCount cir = InputWireCount cir + length (mGates cir)"
    and lt: "\<And>i. i \<in> set (mOutputs cir) \<Longrightarrow> i < mWireCount cir"
    using assms(1) unfolding circuit_wf_def by blast+
  have lI: "length ?I = InputWireCount cir" by (simp add: classic_inputs_def)
  define E where "E = classic_eval_gates (mGates cir) L T"
  have E: "E ! i = lab ?R (W ! i) (plain_run (mGates cir) x i)" if "i < mWireCount cir" for i
    using classic_eval_gates_correct [OF PermuteBit_classic_offset _ g, of L x] wf lI assms(3,4) that
    by (simp add: E_def)
  have W: "W ! i = ?I ! i" if "i < InputWireCount cir" for i
    using classic_garble_shape [OF g] lI that by (metis nth_take)
  have ev: "classic_evaluate gc cir L = Inr E"
  proof -
    have "each_r (\<lambda>i. require (\<not> (L ! i \<noteq> cg_mWires gc ! i
          \<and> L ! i \<noteq> cg_mWires gc ! i XOR cg_mGlobalOffset gc)) RuntimeError) [0..<InputWireCount cir] = Inr ()"
      if "cg_mWires gc \<noteq> []"
      by (rule each_r_all) (use that gc(2) assms(4) W in \<open>auto simp: require_def lab_def sel_if\<close>)
    then show ?thesis using assms(3) gc(1) by (simp add: classic_evaluate_def E_def)
  qed
  define y where "y j = plain_run (mGates cir) x (mOutputs cir ! j)" for j
  have val: "(bv_get (cg_mTranslationTable gc) j \<noteq> PermuteBit (E ! (mOutputs cir ! j))) = y j"
    if "j < length (mOutputs cir)" for j
    using tt [OF that] E [OF lt [OF nth_mem [OF that]]] by (auto simp: PermuteBit_lab y_def)
  have chk: "each_r (\<lambda>i. let w = mOutputs cir ! i in
        if \<not> (bv_get (cg_mTranslationTable gc) i \<noteq> PermuteBit (E ! (mOutputs cir ! i)))
        then require (E ! w = cg_mWires gc ! w) RuntimeError
        else require (E ! w = cg_mWires gc ! w XOR cg_mGlobalOffset gc) RuntimeError)
      [0..<length (mOutputs cir)] = Inr ()" if nonempty: "cg_mWires gc \<noteq> []"
  proof (rule each_r_all)
    fix i assume "i \<in> set [0..<length (mOutputs cir)]"
    then have i: "i < length (mOutputs cir)" by simp
    have "E ! (mOutputs cir ! i) = lab ?R (W ! (mOutputs cir ! i)) (y i)"
      using E [OF lt [OF nth_mem [OF i]]] by (simp add: y_def)
    then show "(let w = mOutputs cir ! i in
        if \<not> (bv_get (cg_mTranslationTable gc) i \<noteq> PermuteBit (E ! (mOutputs cir ! i)))
        then require (E ! w = cg_mWires gc ! w) RuntimeError
        else require (E ! w = cg_mWires gc ! w XOR cg_mGlobalOffset gc) RuntimeError) = Inr ()"
      unfolding val [OF i] Let_def using gc(2) nonempty by (cases "y i") simp_all
  qed
  define o' where "o' = fold (\<lambda>i out. bv_put out i
      (bv_get (cg_mTranslationTable gc) i \<noteq> PermuteBit (E ! (mOutputs cir ! i))))
      [0..<length (mOutputs cir)] (bv_reset out (bv_bits (cg_mTranslationTable gc)))"
  have tr: "classic_translate gc cir E out = Inr o'"
    using chk by (simp add: classic_translate_def Let_def o'_def)
  have "bv_list o' = circuit_sem cir x"
  proof (rule nth_equalityI)
    show l: "length (bv_list o') = length (circuit_sem cir x)"
      by (simp add: o'_def bv_list_def bva.fill_size0 gc(3) circuit_sem_def)
    fix i assume "i < length (bv_list o')"
    then have i: "i < length (mOutputs cir)" using l by (simp add: circuit_sem_def)
    have "bv_get o' i = y i"
      unfolding o'_def using bva.fill_test0 [of "bv_reset out (bv_bits (cg_mTranslationTable gc))"
          "length (mOutputs cir)" "\<lambda>i. bv_get (cg_mTranslationTable gc) i \<noteq> PermuteBit (E ! (mOutputs cir ! i))" i]
        i val [OF i] gc(3) by (simp add: bv_wf_reset)
    then show "bv_list o' ! i = circuit_sem cir x ! i"
      using i l by (simp add: bv_list_def circuit_sem_def y_def)
  qed
  then show ?thesis by (simp add: ev tr)
qed

section \<open>The scheme and its properties\<close>

definition classic_label :: "Circuit \<Rightarrow> block \<Rightarrow> nat \<Rightarrow> bool \<Rightarrow> block" where
  "classic_label cir seed i x = lab (classic_offset seed) (classic_inputs cir seed ! i) x"

definition classic_new :: ClassicGC where
  "classic_new = \<lparr>cg_mWires = [], cg_mGates = [], cg_mTranslationTable = bv_empty,
     cg_mSeedKey = EncKeyGen 0, cg_mNextRandIdx = 0, cg_mGlobalOffset = 0\<rparr>"

definition classic_run :: "Circuit \<Rightarrow> block \<Rightarrow> block list \<Rightarrow> bool list result" where
  "classic_run cir seed L =
     (let gc = classic_Garble classic_new cir seed
      in bind_r (classic_evaluate gc cir L) (\<lambda>labels.
         bind_r (classic_translate gc cir labels bv_empty) (\<lambda>out. Inr (bv_list out))))"

interpretation cgs: garbling_scheme "\<lambda>c _. circuit_wf c" classic_label classic_run
proof unfold_locales
  fix c :: Circuit and s :: block and L x
  assume "circuit_wf c" and "length L = InputWireCount c"
    and "\<And>i. i < InputWireCount c \<Longrightarrow> L ! i = classic_label c s i (x i)"
  then show "classic_run c s L = Inr (circuit_sem c x)"
    using classic_compute [OF _ classic_Garble_holds, of c L s x classic_new bv_empty]
    by (simp add: classic_run_def Let_def classic_label_def)
qed

text \<open>C8. Classic point-and-permute garbling is correct on every well-formed circuit, any gate truth
  table included: evaluation returns (none of its label checks fires), and translation returns the
  circuit's output, on an object with its garbler's wires or without them.\<close>

theorem classic_gc_correct:
  assumes "circuit_wf cir" and "classic_holds gc cir seed"
    and "length L = InputWireCount cir"
    and "\<forall>i<InputWireCount cir. L ! i = classic_label cir seed i (x i)"
  shows "bind_r (classic_evaluate gc cir L) (\<lambda>labels. bind_r (classic_translate gc cir labels out)
           (\<lambda>o'. Inr (bv_list o'))) = Inr (circuit_sem cir x)"
  by (rule classic_compute [OF assms(1-3)]) (use assms(4) in \<open>simp add: classic_label_def\<close>)

theorem classic_gc_correct_witness:
  "bind_r (classic_evaluate (classic_Garble classic_new half_adder 3) half_adder
       (labels_for half_adder (classic_label half_adder 3) (\<lambda>i. i = 0)))
     (\<lambda>labels. bind_r (classic_translate (classic_Garble classic_new half_adder 3) half_adder labels bv_empty)
       (\<lambda>o'. Inr (bv_list o'))) = Inr (circuit_sem half_adder (\<lambda>i. i = 0))"
  by (rule classic_gc_correct [OF half_adder_wf classic_Garble_holds]) (simp_all add: labels_for_def)

text \<open>Both schemes, on the xor-shared version of a circuit and the labels of two input shares,
  compute the original function on the xor of the shares, so they agree with each other.\<close>

theorem schemes_agree_on_shares:
  assumes "circuit_wf c" and "half_valid (xorShareInputs c) s"
    and "length x0 = InputWireCount c" and "length x1 = InputWireCount c"
  shows "half_run (xorShareInputs c) s
           (labels_for (xorShareInputs c) (half_label (xorShareInputs c) s) ((!) (x0 @ x1)))
         = Inr (circuit_sem c (\<lambda>i. x0 ! i \<noteq> x1 ! i))
       \<and> classic_run (xorShareInputs c) seed
           (labels_for (xorShareInputs c) (classic_label (xorShareInputs c) seed) ((!) (x0 @ x1)))
         = Inr (circuit_sem c (\<lambda>i. x0 ! i \<noteq> x1 ! i))"
  using hgs.run_shared [OF assms(2,1,3,4)]
    cgs.run_shared [OF circuit_wf_xorShare [OF assms(1)] assms(1,3,4)]
  by simp

theorem schemes_agree_on_shares_witness:
  "half_run (xorShareInputs half_adder) (9, [0, 1, 2, 3], [4, 5])
     (labels_for (xorShareInputs half_adder) (half_label (xorShareInputs half_adder) (9, [0, 1, 2, 3], [4, 5]))
        ((!) ([True, False] @ [True, True])))
     = Inr (circuit_sem half_adder (\<lambda>i. [True, False] ! i \<noteq> [True, True] ! i))
   \<and> classic_run (xorShareInputs half_adder) 11
     (labels_for (xorShareInputs half_adder) (classic_label (xorShareInputs half_adder) 11)
        ((!) ([True, False] @ [True, True])))
     = Inr (circuit_sem half_adder (\<lambda>i. [True, False] ! i \<noteq> [True, True] ! i))"
proof (rule schemes_agree_on_shares [OF half_adder_wf])
  have "garblable (mGates (xorShareInputs half_adder))"
    by (auto simp: xorShareInputs_gates garblable_def share_gates_def half_adder_def is_xor_def and_like_def)
  then show "half_valid (xorShareInputs half_adder) (9, [0, 1, 2, 3], [4, 5])"
    by (simp add: half_valid_def half_ok_def circuit_wf_xorShare half_adder_wf)
      (simp add: half_adder_def)
qed simp_all

end
