(* ===== verification/BDX_Dag.thy ===== *)
theory BDX_Dag
  imports BDX_Circuit
begin

text \<open>
  \<open>Circuit/DagCircuit.{h,cpp}\<close> and \<open>Circuit::readBris\<close>: circuit files in the Bristol format are read into a
  doubly linked graph, whose inverters can be absorbed into the truth tables of other gates, and which
  is then traversed depth first to add its gates to a \<open>Circuit\<close>. A pointer to a node is its index: the
  nodes of \<open>mInputs\<close>, then those of \<open>mGates\<close>. Access outside the arrays, a null pointer and a number
  that cannot be read are \<open>UndefinedBehaviour\<close>.
\<close>

section \<open>Nodes\<close>

record dag_node =
  dn_input :: bool
  dn_mType :: GateType
  dn_mWireIdx :: nat
  dn_mParents :: "nat list"
  dn_mChildren :: "nat list"

record DagCircuit =
  dag_mWireCount :: nat
  dag_mNonInvertGateCount :: nat
  dag_mInputCounts :: "nat \<times> nat"
  dag_mOutputs :: "nat option list"
  dag_mNodes :: "dag_node list"

definition InputNode_new :: "nat \<Rightarrow> dag_node" where
  "InputNode_new i = \<lparr>dn_input = True, dn_mType = gt_Zero, dn_mWireIdx = i, dn_mParents = [], dn_mChildren = []\<rparr>"

definition GateNode_new :: dag_node where
  "GateNode_new = \<lparr>dn_input = False, dn_mType = gt_Zero, dn_mWireIdx = 0, dn_mParents = [], dn_mChildren = []\<rparr>"

definition dag_InputWireCount :: "DagCircuit \<Rightarrow> nat" where
  "dag_InputWireCount d = (fst (dag_mInputCounts d) + snd (dag_mInputCounts d)) mod 2 ^ 64"

definition dag_gate_count :: "DagCircuit \<Rightarrow> nat" where
  "dag_gate_count d = length (dag_mNodes d) - dag_InputWireCount d"

definition isInvert :: "dag_node \<Rightarrow> bool" where
  "isInvert n \<longleftrightarrow> \<not> dn_input n \<and> dn_mType n = gt_na \<and> length (dn_mParents n) = 1"

definition node_type :: "dag_node \<Rightarrow> GateType result" where
  "node_type n = (if dn_input n then Inl RuntimeError else Inr (dn_mType n))"

section \<open>Truth tables\<close>

definition gt_of :: "nat \<Rightarrow> GateType" where
  "gt_of s = [gt_Zero, gt_Nor, gt_nb_And, gt_nb, gt_na_And, gt_na, gt_Xor, gt_Nand,
              gt_And, gt_Nxor, gt_a, gt_nb_Or, gt_b, gt_na_Or, gt_Or, gt_One] ! s"

definition invert :: "nat \<Rightarrow> GateType \<Rightarrow> GateType result" where
  "invert i src =
     (let s = gt_code src
      in if i = 0
         then Inr (gt_of (push_bit 1 (s AND 1) OR drop_bit 1 (s AND 2) OR push_bit 1 (s AND 4) OR drop_bit 1 (s AND 8)))
         else if i = 1 then Inr (gt_of (push_bit 2 (s AND 3) OR drop_bit 2 (s AND 12)))
         else Inl RuntimeError)"

definition invert_out :: "GateType \<Rightarrow> GateType" where
  "invert_out src = gt_of (unat (NOT (word_of_nat (gt_code src) :: u8) AND 15))"

section \<open>Gates change\<close>

definition invertInput_step :: "nat list \<Rightarrow> nat \<Rightarrow> nat \<Rightarrow> GateType \<times> bool \<Rightarrow> (GateType \<times> bool) result" where
  "invertInput_step parents input i st =
     (if parents ! i = input then bind_r (invert i (fst st)) (\<lambda>t. Inr (t, True)) else Inr st)"

definition invertInput :: "nat \<Rightarrow> nat \<Rightarrow> dag_node list \<Rightarrow> dag_node list result" where
  "invertInput input child ns =
     (let n = ns ! child
      in if dn_input n then Inl RuntimeError
         else bind_r (fold_r (invertInput_step (dn_mParents n) input) [0..<length (dn_mParents n)] (dn_mType n, False))
           (\<lambda>(t, set). if set then Inr (ns[child := n\<lparr>dn_mType := t\<rparr>]) else Inl RuntimeError))"

definition invertOutput :: "nat \<Rightarrow> dag_node list \<Rightarrow> dag_node list result" where
  "invertOutput i ns =
     (let n = ns ! i
      in if dn_input n then Inl RuntimeError
         else fold_r (invertInput i) (dn_mChildren n) (ns[i := n\<lparr>dn_mType := invert_out (dn_mType n)\<rparr>]))"

text \<open>\<open>*std::find(v.begin(), v.end(), x) = v.back(); v.pop_back()\<close>\<close>

fun find_index :: "'a \<Rightarrow> 'a list \<Rightarrow> nat" where
  "find_index x [] = 0"
| "find_index x (y # ys) = (if y = x then 0 else Suc (find_index x ys))"

definition swap_remove :: "'a \<Rightarrow> 'a list \<Rightarrow> 'a list result" where
  "swap_remove x xs =
     (let i = find_index x xs
      in if i < length xs then Inr (butlast (xs[i := last xs])) else Inl UndefinedBehaviour)"

definition remove_child :: "nat \<Rightarrow> nat \<Rightarrow> dag_node list \<Rightarrow> dag_node list result" where
  "remove_child p c ns =
     bind_r (swap_remove c (dn_mChildren (ns ! p))) (\<lambda>cs. Inr (ns[p := (ns ! p)\<lparr>dn_mChildren := cs\<rparr>]))"

text \<open>A gate with inverted inputs takes the inverters' parents as its own.\<close>

definition absorb_step :: "nat \<Rightarrow> nat \<Rightarrow> dag_node list \<Rightarrow> dag_node list result" where
  "absorb_step g i ns =
     (let p = ns ! (dn_mParents (ns ! g) ! i)
      in if isInvert p
         then (let newParent = dn_mParents p ! 0
               in bind_r (invert i (dn_mType (ns ! g))) (\<lambda>t.
                    let ns = ns[g := (ns ! g)\<lparr>dn_mType := t\<rparr>]
                    in if isInvert (ns ! newParent) then Inl RuntimeError
                    else (let ns = ns[newParent := (ns ! newParent)\<lparr>dn_mChildren := dn_mChildren (ns ! newParent) @ [g]\<rparr>]
                          in Inr (ns[g := (ns ! g)\<lparr>dn_mParents := (dn_mParents (ns ! g))[i := newParent]\<rparr>]))))
         else Inr ns)"

definition reduceInvert :: "nat \<Rightarrow> dag_node list \<Rightarrow> dag_node list result" where
  "reduceInvert g ns =
     (if isInvert (ns ! g) then remove_child (dn_mParents (ns ! g) ! 0) g ns
      else fold_r (absorb_step g) [0..<length (dn_mParents (ns ! g))] ns)"

definition reduce_output :: "nat \<Rightarrow> DagCircuit \<Rightarrow> DagCircuit result" where
  "reduce_output k d =
     (case dag_mOutputs d ! k of
        None \<Rightarrow> Inl UndefinedBehaviour
      | Some o' \<Rightarrow>
          let ns = dag_mNodes d
          in if isInvert (ns ! o')
             then (let newParent = dn_mParents (ns ! o') ! 0
                   in bind_r (invertOutput newParent ns) (\<lambda>ns.
                      bind_r (require (dn_mType (ns ! o') = gt_a) RuntimeError) (\<lambda>_.
                      bind_r (remove_child newParent o' ns) (\<lambda>ns.
                        Inr (d\<lparr>dag_mNodes := ns, dag_mOutputs := (dag_mOutputs d)[k := Some (dn_mParents (ns ! o') ! 0)]\<rparr>)))))
             else Inr d)"

definition removeInvertGates :: "DagCircuit \<Rightarrow> DagCircuit result" where
  "removeInvertGates d =
     bind_r (fold_r reduce_output [0..<length (dag_mOutputs d)] d) (\<lambda>d.
     bind_r (fold_r reduceInvert [dag_InputWireCount d..<length (dag_mNodes d)] (dag_mNodes d)) (\<lambda>ns.
       Inr (d\<lparr>dag_mNodes := ns\<rparr>)))"

section \<open>From the graph to a circuit\<close>

text \<open>The state of the traversal: \<open>newWireIdx\<close>, \<open>added\<close>, the stack (its top first) and the circuit. \<open>fuel\<close> bounds
  the depth of the recursion; deeper recursion exhausts the call stack.\<close>

type_synonym dfs_state = "nat list \<times> bool list \<times> nat list \<times> Circuit"

definition is_added :: "bool list \<Rightarrow> nat \<Rightarrow> bool result" where
  "is_added added w = (if w < length added then Inr (added ! w) else Inl UndefinedBehaviour)"

definition add_node :: "dag_node \<Rightarrow> (nat \<Rightarrow> nat) \<Rightarrow> dfs_state \<Rightarrow> dfs_state result" where
  "add_node n wire st =
     (let (new, added, stack, cir) = st
      in if dn_mParents n = [] then Inl UndefinedBehaviour
         else bind_r (node_type n) (\<lambda>t.
              bind_r (if length (dn_mParents n) = 1
                      then AddGate cir (new ! wire (dn_mParents n ! 0)) 0 t
                      else AddGate cir (new ! wire (dn_mParents n ! 0)) (new ! wire (dn_mParents n ! 1)) t)
                (\<lambda>(w, cir). Inr (new[dn_mWireIdx n := w], added, stack, cir))))"

primrec depthFirstAdd :: "nat \<Rightarrow> dag_node list \<Rightarrow> bool \<Rightarrow> dfs_state \<Rightarrow> dfs_state result" where
  "depthFirstAdd 0 ns explore st = Inl UndefinedBehaviour"
| "depthFirstAdd (Suc fuel) ns explore st =
     (let (new, added, stack, cir) = st;
          node = ns ! hd stack;
          wire = (\<lambda>i. dn_mWireIdx (ns ! i));
          st = (new, added, tl stack, cir)
      in bind_r (is_added added (dn_mWireIdx node)) (\<lambda>done.
         bind_r
           (if done then Inr st
            else bind_r (fold_r (\<lambda>input (new, added, stack, cir).
                          bind_r (is_added added (wire input)) (\<lambda>done.
                          if done then Inr (new, added, stack, cir)
                          else depthFirstAdd fuel ns False (new, added, input # stack, cir)))
                        (dn_mParents node) (new, added[dn_mWireIdx node := True], tl stack, cir))
                   (add_node node wire))
           (fold_r (\<lambda>child (new, added, stack, cir).
                bind_r (is_added added (wire child)) (\<lambda>done.
                if done then Inr (new, added, stack, cir)
                else if explore then depthFirstAdd fuel ns True (new, added, child # stack, cir)
                else Inr (new, added, child # stack, cir)))
              (dn_mChildren node))))"

partial_function (option) add_loop :: "nat \<Rightarrow> dag_node list \<Rightarrow> dfs_state \<Rightarrow> dfs_state result option" where
  "add_loop fuel ns st =
     (if fst (snd (snd st)) = [] then Some (Inr st)
      else case depthFirstAdd fuel ns True st of Inl e \<Rightarrow> Some (Inl e) | Inr st \<Rightarrow> add_loop fuel ns st)"

declare add_loop.simps [code]

definition output_wire :: "DagCircuit \<Rightarrow> nat list \<Rightarrow> nat \<Rightarrow> Circuit \<Rightarrow> Circuit result" where
  "output_wire d new k cir =
     (case dag_mOutputs d ! k of
        None \<Rightarrow> Inl UndefinedBehaviour
      | Some o' \<Rightarrow>
          let idx = dn_mWireIdx (dag_mNodes d ! o')
          in if idx < length new then AddOutputWire cir (new ! idx) else Inl UndefinedBehaviour)"

definition toCircuit :: "DagCircuit \<Rightarrow> nat \<Rightarrow> Circuit \<Rightarrow> Circuit result option" where
  "toCircuit d fuel cir =
     (let n = dag_InputWireCount d;
          new = [0..<n] @ replicate (dag_mWireCount d - n) (2 ^ 64 - 1);
          added = replicate n True @ replicate (dag_mWireCount d - n) False;
          cir = cir\<lparr>mInputs := dag_mInputCounts d, mWireCount := n\<rparr>
      in case add_loop fuel (dag_mNodes d) (new, added, rev [0..<n], cir) of
           None \<Rightarrow> None
         | Some r \<Rightarrow> Some (bind_r r (\<lambda>(new, _, _, cir).
             fold_r (output_wire d new) [0..<length (dag_mOutputs d)] cir)))"

section \<open>Reading and writing\<close>

text \<open>An input stream is the list of its words.\<close>

definition is_digit :: "char \<Rightarrow> bool" where
  "is_digit c \<longleftrightarrow> 48 \<le> (of_char c :: nat) \<and> (of_char c :: nat) \<le> 57"

definition digits_val :: "string \<Rightarrow> nat" where
  "digits_val w = foldl (\<lambda>n c. 10 * n + (of_char c - 48)) 0 w"

definition read_u64 :: "string list \<Rightarrow> (nat \<times> string list) result" where
  "read_u64 ws =
     (case ws of
        [] \<Rightarrow> Inl UndefinedBehaviour
      | w # ws \<Rightarrow> if w \<noteq> [] \<and> list_all is_digit w \<and> digits_val w < 2 ^ 64 then Inr (digits_val w, ws)
                  else Inl UndefinedBehaviour)"

definition read_word :: "string list \<Rightarrow> (string \<times> string list) result" where
  "read_word ws = (case ws of [] \<Rightarrow> Inl UndefinedBehaviour | w # ws \<Rightarrow> Inr (w, ws))"

fun read_u64s :: "nat \<Rightarrow> string list \<Rightarrow> (nat list \<times> string list) result" where
  "read_u64s 0 ws = Inr ([], ws)"
| "read_u64s (Suc n) ws =
     bind_r (read_u64 ws) (\<lambda>(x, ws). bind_r (read_u64s n ws) (\<lambda>(xs, ws). Inr (x # xs, ws)))"

text \<open>The words of one gate. \<open>inputs\<close> has room for two wires; the check of \<open>fanIn\<close> comes after it is filled.\<close>

definition read_gate :: "string list \<Rightarrow> (nat list \<times> nat \<times> string \<times> string list) result" where
  "read_gate ws =
     bind_r (read_u64 ws) (\<lambda>(fanIn, ws). bind_r (read_u64 ws) (\<lambda>(fanOut, ws).
     bind_r (require (fanIn \<le> 2) UndefinedBehaviour) (\<lambda>_.
     bind_r (read_u64s fanIn ws) (\<lambda>(inputs, ws).
     bind_r (read_u64 ws) (\<lambda>(output, ws). bind_r (read_word ws) (\<lambda>(gateType, ws).
     bind_r (require (fanOut = 1) RuntimeError) (\<lambda>_. Inr (inputs, output, gateType, ws))))))))"

definition add_child :: "nat \<Rightarrow> nat \<Rightarrow> dag_node list \<Rightarrow> dag_node list" where
  "add_child g p ns = ns[p := (ns ! p)\<lparr>dn_mChildren := dn_mChildren (ns ! p) @ [g]\<rparr>]"

definition link_gate :: "nat list \<Rightarrow> nat \<Rightarrow> dag_node list \<Rightarrow> dag_node list" where
  "link_gate inputs output ns =
     fold (add_child output) inputs (ns[output := (ns ! output)\<lparr>dn_mWireIdx := output, dn_mParents := inputs\<rparr>])"

definition add_bris_gate :: "nat \<Rightarrow> nat list \<times> nat \<times> string \<Rightarrow> DagCircuit \<Rightarrow> DagCircuit result" where
  "add_bris_gate outputStartIdx gate d =
     (let (inputs, output, gateType) = gate;
          ns = dag_mNodes d
      in bind_r (require (dag_InputWireCount d \<le> output \<and> output < length ns
                   \<and> list_all (\<lambda>i. i < dag_mWireCount d \<and> i < length ns) inputs
                   \<and> (outputStartIdx \<le> output \<longrightarrow> output - outputStartIdx < length (dag_mOutputs d))) UndefinedBehaviour) (\<lambda>_.
         let d = (if outputStartIdx \<le> output
                  then d\<lparr>dag_mOutputs := (dag_mOutputs d)[output - outputStartIdx := Some output]\<rparr> else d);
             ns = link_gate inputs output ns;
             typed = (\<lambda>t. ns[output := (ns ! output)\<lparr>dn_mType := t\<rparr>])
         in if gateType = ''XOR''
            then Inr (d\<lparr>dag_mNonInvertGateCount := dag_mNonInvertGateCount d + 1, dag_mNodes := typed gt_Xor\<rparr>)
            else if gateType = ''AND''
            then Inr (d\<lparr>dag_mNonInvertGateCount := dag_mNonInvertGateCount d + 1, dag_mNodes := typed gt_And\<rparr>)
            else if gateType = ''INV'' then Inr (d\<lparr>dag_mNodes := typed gt_na\<rparr>)
            else Inl RuntimeError))"

definition read_bris_gate :: "nat \<Rightarrow> nat \<Rightarrow> DagCircuit \<times> string list \<Rightarrow> (DagCircuit \<times> string list) result" where
  "read_bris_gate outputStartIdx _ st =
     bind_r (read_gate (snd st)) (\<lambda>(inputs, output, gateType, ws).
     bind_r (add_bris_gate outputStartIdx (inputs, output, gateType) (fst st)) (\<lambda>d. Inr (d, ws)))"

definition Dag_readBris :: "bool \<Rightarrow> string list \<Rightarrow> DagCircuit result" where
  "Dag_readBris eof ws =
     bind_r (require (\<not> eof) RuntimeError) (\<lambda>_.
     bind_r (read_u64s 5 ws) (\<lambda>(hdr, ws).
     (let numGates = hdr ! 0; wireCount = hdr ! 1; in0 = hdr ! 2; in1 = hdr ! 3; outputCount = hdr ! 4;
          n = (in0 + in1) mod 2 ^ 64;
          outputStartIdx = (wireCount + 2 ^ 64 - outputCount) mod 2 ^ 64
      in bind_r (require (n \<le> wireCount) UndefinedBehaviour) (\<lambda>_.
         bind_r (fold_r (read_bris_gate outputStartIdx) [0..<numGates]
                   (\<lparr>dag_mWireCount = wireCount, dag_mNonInvertGateCount = 0, dag_mInputCounts = (in0, in1),
                     dag_mOutputs = replicate outputCount None,
                     dag_mNodes = map InputNode_new [0..<n] @ replicate numGates GateNode_new\<rparr>, ws))
           (\<lambda>(d, _). Inr d)))))"

text \<open>\<open>Circuit::readBris\<close>\<close>

definition Circuit_readBris :: "Circuit \<Rightarrow> bool \<Rightarrow> string list \<Rightarrow> bool \<Rightarrow> nat \<Rightarrow> Circuit result option" where
  "Circuit_readBris cir eof ws reduce fuel =
     (case bind_r (Dag_readBris eof ws) (\<lambda>d. if reduce then removeInvertGates d else Inr d) of
        Inl e \<Rightarrow> Some (Inl e)
      | Inr d \<Rightarrow>
          (case toCircuit d fuel cir of
             None \<Rightarrow> None
           | Some r \<Rightarrow> Some (bind_r r (\<lambda>cir.
               bind_r (require (length (mGates cir) = (if reduce then dag_mNonInvertGateCount d else dag_gate_count d)) RuntimeError)
                 (\<lambda>_. Inr cir)))))"

text \<open>\<open>operator<<\<close> of a number, and \<open>writeBris\<close>.\<close>

fun show_nat :: "nat \<Rightarrow> string" where
  "show_nat n = (if n < 10 then [char_of (48 + n)] else show_nat (n div 10) @ [char_of (48 + n mod 10)])"

declare show_nat.simps [simp del]

definition write_gate :: "dag_node list \<Rightarrow> nat \<Rightarrow> string list result" where
  "write_gate ns g =
     (let n = ns ! g;
          words = [show_nat (length (dn_mParents n)), show_nat 1] @ map (\<lambda>p. show_nat (dn_mWireIdx (ns ! p))) (dn_mParents n)
                  @ [show_nat (dn_mWireIdx n)]
      in if dn_mType n = gt_Xor then Inr (words @ [''XOR''])
         else if dn_mType n = gt_And then Inr (words @ [''AND''])
         else if isInvert n then Inr (words @ [''INV''])
         else Inl RuntimeError)"

definition Dag_writeBris :: "DagCircuit \<Rightarrow> string list result" where
  "Dag_writeBris d =
     fold_r (\<lambda>g out. bind_r (write_gate (dag_mNodes d) g) (\<lambda>ws. Inr (out @ ws)))
       [dag_InputWireCount d..<length (dag_mNodes d)]
       (map show_nat [dag_gate_count d, dag_mWireCount d, fst (dag_mInputCounts d), snd (dag_mInputCounts d),
                      length (dag_mOutputs d)])"

end
