(* ===== verification/BDX_DagAdd.thy ===== *)
theory BDX_DagAdd
  imports BDX_Dag
begin

text \<open>
  \<open>DagCircuit::toCircuit\<close>: the depth-first traversal of a linked graph without cycles adds every gate once,
  after its parents, and each wire of the circuit has the value of its node.
\<close>

section \<open>Linked graphs\<close>

text \<open>The live gates \<open>G\<close> of a graph with \<open>n\<close> inputs: links in both directions agree, \<open>rank\<close> increases from
  parents to children.\<close>

definition linked :: "dag_node list \<Rightarrow> nat \<Rightarrow> nat set \<Rightarrow> (nat \<Rightarrow> nat) \<Rightarrow> bool" where
  "linked ns n G rank \<longleftrightarrow>
     0 < n \<and> G \<subseteq> {n..<length ns} \<and> n \<le> length ns
     \<and> (\<forall>i\<in>{..<n} \<union> G. dn_mWireIdx (ns ! i) = i \<and> set (dn_mChildren (ns ! i)) = {g \<in> G. i \<in> set (dn_mParents (ns ! g))})
     \<and> (\<forall>g\<in>G. \<not> dn_input (ns ! g) \<and> addable (dn_mType (ns ! g))
          \<and> (length (dn_mParents (ns ! g)) = 1 \<or> length (dn_mParents (ns ! g)) = 2)
          \<and> set (dn_mParents (ns ! g)) \<subseteq> {..<n} \<union> G \<and> (\<forall>p\<in>set (dn_mParents (ns ! g)). rank p < rank g))"

text \<open>The values of the nodes on the inputs \<open>x\<close>; the second input of a gate with one parent is wire 0.\<close>

definition node_value :: "dag_node \<Rightarrow> (nat \<Rightarrow> bool) \<Rightarrow> (nat \<Rightarrow> bool) \<Rightarrow> bool" where
  "node_value nd x v =
     gt_eval (dn_mType nd) (v (dn_mParents nd ! 0)) (if length (dn_mParents nd) = 1 then x 0 else v (dn_mParents nd ! 1))"

definition dag_values :: "dag_node list \<Rightarrow> nat \<Rightarrow> nat set \<Rightarrow> (nat \<Rightarrow> bool) \<Rightarrow> (nat \<Rightarrow> bool) \<Rightarrow> bool" where
  "dag_values ns n G x v \<longleftrightarrow> (\<forall>i<n. v i = x i) \<and> (\<forall>g\<in>G. v g = node_value (ns ! g) x v)"

definition added_set :: "bool list \<Rightarrow> nat set" where
  "added_set added = {i. i < length added \<and> added ! i}"

text \<open>The invariant of the traversal; the gates of \<open>P\<close> are marked but not added yet.\<close>

definition dfs_ok ::
  "dag_node list \<Rightarrow> nat \<Rightarrow> nat set \<Rightarrow> (nat \<Rightarrow> bool) \<Rightarrow> (nat \<Rightarrow> bool) \<Rightarrow> nat set \<Rightarrow> dfs_state \<Rightarrow> bool" where
  "dfs_ok ns n G x v P st \<longleftrightarrow>
     (case st of (new, added, stack, cir) \<Rightarrow>
        length new = length added \<and> length ns \<le> length added
        \<and> set stack \<subseteq> {..<n} \<union> G \<and> {..<n} \<subseteq> added_set added \<and> added_set added \<subseteq> {..<n} \<union> G
        \<and> P \<subseteq> added_set added \<inter> G
        \<and> circuit_wf cir \<and> InputWireCount cir = n
        \<and> (\<forall>d\<in>added_set added - P. new ! d < mWireCount cir \<and> plain_run (mGates cir) x (new ! d) = v d)
        \<and> length (mGates cir) = card (added_set added \<inter> G - P)
        \<and> mType ` set (mGates cir) \<subseteq> (\<lambda>g. dn_mType (ns ! g)) ` G)"

text \<open>From one state to a later one: nodes are only added, the stack only grows, and the children of a new
  node are added or on the stack.\<close>

definition dfs_prog :: "dag_node list \<Rightarrow> dfs_state \<Rightarrow> dfs_state \<Rightarrow> bool" where
  "dfs_prog ns st st' \<longleftrightarrow>
     (case st of (new, added, stack, cir) \<Rightarrow> case st' of (new', added', stack', cir') \<Rightarrow>
        \<exists>xs. stack' = xs @ stack \<and> added_set added \<subseteq> added_set added'
          \<and> (\<forall>p\<in>added_set added' - added_set added. \<forall>c\<in>set (dn_mChildren (ns ! p)). c \<in> added_set added' \<union> set xs)
          \<and> (added_set added' = added_set added \<longrightarrow> xs = [])
          \<and> mInputs cir' = mInputs cir \<and> mOutputs cir' = mOutputs cir)"

lemma dfs_prog_refl: "dfs_prog ns st st"
  by (cases st) (simp add: dfs_prog_def)

lemma dfs_prog_trans:
  assumes "dfs_prog ns st st'" and "dfs_prog ns st' st''"
  shows "dfs_prog ns st st''"
proof -
  obtain new added stack cir where st: "st = (new, added, stack, cir)" by (rule prod_cases4)
  obtain new' added' stack' cir' where st': "st' = (new', added', stack', cir')" by (rule prod_cases4)
  obtain new'' added'' stack'' cir'' where st'': "st'' = (new'', added'', stack'', cir'')" by (rule prod_cases4)
  obtain xs where xs: "stack' = xs @ stack" "added_set added \<subseteq> added_set added'"
    "\<forall>p\<in>added_set added' - added_set added. \<forall>c\<in>set (dn_mChildren (ns ! p)). c \<in> added_set added' \<union> set xs"
    "added_set added' = added_set added \<longrightarrow> xs = []" "mInputs cir' = mInputs cir" "mOutputs cir' = mOutputs cir"
    using assms(1) unfolding dfs_prog_def st st' prod.case by blast
  obtain ys where ys: "stack'' = ys @ stack'" "added_set added' \<subseteq> added_set added''"
    "\<forall>p\<in>added_set added'' - added_set added'. \<forall>c\<in>set (dn_mChildren (ns ! p)). c \<in> added_set added'' \<union> set ys"
    "added_set added'' = added_set added' \<longrightarrow> ys = []" "mInputs cir'' = mInputs cir'" "mOutputs cir'' = mOutputs cir'"
    using assms(2) unfolding dfs_prog_def st' st'' prod.case by blast
  have "\<forall>p\<in>added_set added'' - added_set added. \<forall>c\<in>set (dn_mChildren (ns ! p)). c \<in> added_set added'' \<union> set (ys @ xs)"
  proof (intro ballI)
    fix p c assume p: "p \<in> added_set added'' - added_set added" and c: "c \<in> set (dn_mChildren (ns ! p))"
    show "c \<in> added_set added'' \<union> set (ys @ xs)"
    proof (cases "p \<in> added_set added'")
      case True
      then have "c \<in> added_set added' \<union> set xs" using xs(3) p c by blast
      then show ?thesis using ys(2) by auto
    next
      case False
      then have "c \<in> added_set added'' \<union> set ys" using ys(3) p c by blast
      then show ?thesis by auto
    qed
  qed
  moreover have "added_set added'' = added_set added \<longrightarrow> ys @ xs = []" using xs(2,4) ys(2,4) by auto
  moreover have "stack'' = (ys @ xs) @ stack" using xs(1) ys(1) by simp
  ultimately show ?thesis using xs(2,5,6) ys(2,5,6) unfolding dfs_prog_def st st'' prod.case by (intro exI [of _ "ys @ xs"]) auto
qed

lemma added_set_update: "w < length added \<Longrightarrow> added_set (added[w := True]) = insert w (added_set added)"
  by (auto simp: added_set_def nth_list_update)

lemma finite_added_set [simp]: "finite (added_set added)"
  by (simp add: added_set_def)

lemma is_added_eq: "w < length added \<Longrightarrow> is_added added w = Inr (w \<in> added_set added)"
  by (simp add: is_added_def added_set_def)

section \<open>One gate\<close>

lemma add_node_ok:
  assumes l: "linked ns n G rank" and v: "dag_values ns n G x v"
    and ok: "dfs_ok ns n G x v (insert g P) (new, added, stack, cir)" and g: "g \<in> G" "g \<notin> P"
    and ps: "set (dn_mParents (ns ! g)) \<subseteq> added_set added - insert g P"
  shows "\<exists>new' cir'. add_node (ns ! g) (\<lambda>i. dn_mWireIdx (ns ! i)) (new, added, stack, cir) = Inr (new', added, stack, cir')
     \<and> dfs_ok ns n G x v P (new', added, stack, cir') \<and> mInputs cir' = mInputs cir \<and> mOutputs cir' = mOutputs cir"
proof -
  let ?p = "dn_mParents (ns ! g)" and ?t = "dn_mType (ns ! g)"
  have L: "\<not> dn_input (ns ! g)" "addable ?t" "length ?p = 1 \<or> length ?p = 2" "set ?p \<subseteq> {..<n} \<union> G" "dn_mWireIdx (ns ! g) = g" "0 < n"
    "g < length ns"
    using l g(1) by (auto simp: linked_def)
  have wire: "dn_mWireIdx (ns ! i) = i" if "i \<in> set ?p" for i using l L(4) that unfolding linked_def by blast
  have O: "length new = length added" "length ns \<le> length added" "set stack \<subseteq> {..<n} \<union> G" "{..<n} \<subseteq> added_set added"
     "added_set added \<subseteq> {..<n} \<union> G" "insert g P \<subseteq> added_set added \<inter> G" "circuit_wf cir" "InputWireCount cir = n"
     "\<forall>d\<in>added_set added - insert g P. new ! d < mWireCount cir \<and> plain_run (mGates cir) x (new ! d) = v d"
     "length (mGates cir) = card (added_set added \<inter> G - insert g P)" "mType ` set (mGates cir) \<subseteq> (\<lambda>g. dn_mType (ns ! g)) ` G"
    using ok by (simp_all add: dfs_ok_def)
  have p0: "?p ! 0 \<in> set ?p" using L(3) by auto
  define j where "j = (if length ?p = 1 then 0 else new ! (?p ! 1))"
  have top: "gates_topo n (mGates cir)" "n \<le> mWireCount cir" using O(7,8) by (simp_all add: circuit_wf_def)
  have i: "new ! (?p ! 0) < mWireCount cir" "plain_run (mGates cir) x (new ! (?p ! 0)) = v (?p ! 0)" using O(9) ps p0 by auto
  have j: "j < mWireCount cir \<and> plain_run (mGates cir) x j = (if length ?p = 1 then x 0 else v (?p ! 1))"
  proof (cases "length ?p = 1")
    case True then show ?thesis using plain_run_keeps [OF top(1) L(6)] top(2) L(6) by (simp add: j_def)
  next
    case False
    then have "?p ! 1 \<in> set ?p" using L(3) by auto
    then show ?thesis using O(9) ps False by (auto simp: j_def)
  qed
  define c' where "c' = cir\<lparr>mNonXorGateCount := mNonXorGateCount cir + (if ?t \<noteq> gt_Xor \<and> ?t \<noteq> gt_Nxor then 1 else 0),
                mGates := mGates cir @ [mk_Gate (new ! (?p ! 0)) j (mWireCount cir) ?t], mWireCount := mWireCount cir + 1\<rparr>"
  note A = AddGate_ok [OF O(7) i(1) conjunct1 [OF j] L(2), folded c'_def]
  have "add_node (ns ! g) (\<lambda>i. dn_mWireIdx (ns ! i)) (new, added, stack, cir) = Inr (new[g := mWireCount cir], added, stack, c')"
  proof (cases "length ?p = 1")
    case True
    then show ?thesis using A(1) L(1,5) wire [OF p0] unfolding add_node_def node_type_def by (auto simp: j_def)
  next
    case False
    then have "?p ! 1 \<in> set ?p" "?p \<noteq> []" using L(3) by auto
    then show ?thesis using A(1) L(1,5) wire [OF p0] wire [of "?p ! 1"] False unfolding add_node_def node_type_def by (auto simp: j_def)
  qed
  moreover have "dfs_ok ns n G x v P (new[g := mWireCount cir], added, stack, c')"
  proof -
    have vg: "v g = gt_eval ?t (v (?p ! 0)) (if length ?p = 1 then x 0 else v (?p ! 1))"
      using v g(1) by (simp add: dag_values_def node_value_def)
    have keep: "plain_run (mGates c') x w = plain_run (mGates cir) x w" if "w < mWireCount cir" for w
      using that by (simp add: c'_def plain_run_append)
    have wires: "(new[g := mWireCount cir]) ! d < mWireCount c' \<and> plain_run (mGates c') x ((new[g := mWireCount cir]) ! d) = v d"
      if "d \<in> added_set added - P" for d
    proof (cases "d = g")
      case True
      have "g < length new" using O(1,6) by (auto simp: added_set_def)
      then show ?thesis using True A(3) i(2) j vg by (simp add: c'_def)
    next
      case False
      then have "new ! d < mWireCount cir" "plain_run (mGates cir) x (new ! d) = v d" using O(9) that by auto
      then show ?thesis using False keep by (simp add: c'_def)
    qed
    have eq: "added_set added \<inter> G - P = insert g (added_set added \<inter> G - insert g P)" using O(6) g(2) by auto
    have card: "card (added_set added \<inter> G - P) = Suc (card (added_set added \<inter> G - insert g P))"
      unfolding eq by (rule card_insert_disjoint) simp_all
    have "mType ` set (mGates c') \<subseteq> (\<lambda>g. dn_mType (ns ! g)) ` G" using O(11) g(1) by (simp add: c'_def)
    moreover have "InputWireCount c' = n" using O(8) by (simp add: c'_def InputWireCount_def)
    moreover have "length (mGates c') = Suc (length (mGates cir))" by (simp add: c'_def)
    ultimately show ?thesis
      using O(1-6) A(2) wires O(10) card by (simp add: dfs_ok_def)
  qed
  moreover have "mInputs c' = mInputs cir" "mOutputs c' = mOutputs cir" by (simp_all add: c'_def)
  ultimately show ?thesis by blast
qed

section \<open>The recursion\<close>

lemma linked_finite: "linked ns n G rank \<Longrightarrow> finite G"
  unfolding linked_def by (blast intro: finite_subset [of G "{n..<length ns}"])

lemma card_rest_mono:
  assumes "linked ns n G rank" and "A \<subseteq> B"
  shows "card (G - B) \<le> card (G - A)"
  using linked_finite [OF assms(1)] assms(2) by (intro card_mono) auto

lemma card_rest_insert:
  assumes "linked ns n G rank" and "g \<in> G" and "g \<notin> A" and "insert g A \<subseteq> B"
  shows "card (G - B) < card (G - A)"
  using linked_finite [OF assms(1)] assms(2-4) by (intro psubset_card_mono) auto

lemma dfs_ok_bounds:
  assumes "linked ns n G rank" and "dfs_ok ns n G x v P (new, added, stack, cir)" and "i \<in> {..<n} \<union> G"
  shows "i < length added" and "dn_mWireIdx (ns ! i) = i" and "is_added added (dn_mWireIdx (ns ! i)) = Inr (i \<in> added_set added)"
proof -
  show "i < length added" using assms by (auto simp: linked_def dfs_ok_def)
  then show "is_added added (dn_mWireIdx (ns ! i)) = Inr (i \<in> added_set added)"
    using assms(1,3) unfolding linked_def by (metis is_added_eq)
  show "dn_mWireIdx (ns ! i) = i" using assms(1,3) unfolding linked_def by blast
qed

lemma dfs_ok_stack:
  "dfs_ok ns n G x v P (new, added, stack, cir) \<Longrightarrow> set stack' \<subseteq> {..<n} \<union> G
   \<Longrightarrow> dfs_ok ns n G x v P (new, added, stack', cir)"
  by (simp add: dfs_ok_def)

text \<open>What a call without exploration does to a gate that is not added yet.\<close>

definition visits :: "nat \<Rightarrow> dag_node list \<Rightarrow> nat \<Rightarrow> nat set \<Rightarrow> (nat \<Rightarrow> nat) \<Rightarrow> (nat \<Rightarrow> bool) \<Rightarrow> (nat \<Rightarrow> bool) \<Rightarrow> bool" where
  "visits fuel ns n G rank x v \<longleftrightarrow>
     (\<forall>P new added stack cir g. dfs_ok ns n G x v P (new, added, g # stack, cir) \<and> g \<in> G \<and> g \<notin> added_set added
        \<and> (\<forall>q\<in>P. rank g < rank q) \<and> card (G - added_set added) < fuel
        \<longrightarrow> (\<exists>new' added' stack' cir'. depthFirstAdd fuel ns False (new, added, g # stack, cir) = Inr (new', added', stack', cir')
             \<and> dfs_prog ns (new, added, stack, cir) (new', added', stack', cir')
             \<and> dfs_ok ns n G x v P (new', added', stack', cir') \<and> g \<in> added_set added'))"

definition input_step :: "nat \<Rightarrow> dag_node list \<Rightarrow> nat \<Rightarrow> dfs_state \<Rightarrow> dfs_state result" where
  "input_step fuel ns input = (\<lambda>(new, added, stack, cir).
     bind_r (is_added added (dn_mWireIdx (ns ! input))) (\<lambda>done.
       if done then Inr (new, added, stack, cir)
       else depthFirstAdd fuel ns False (new, added, input # stack, cir)))"

definition child_step :: "nat \<Rightarrow> dag_node list \<Rightarrow> bool \<Rightarrow> nat \<Rightarrow> dfs_state \<Rightarrow> dfs_state result" where
  "child_step fuel ns explore child = (\<lambda>(new, added, stack, cir).
     bind_r (is_added added (dn_mWireIdx (ns ! child))) (\<lambda>done.
       if done then Inr (new, added, stack, cir)
       else if explore then depthFirstAdd fuel ns True (new, added, child # stack, cir)
       else Inr (new, added, child # stack, cir)))"

lemma input_step_eq:
  "input_step fuel ns input (new, added, stack, cir) = bind_r (is_added added (dn_mWireIdx (ns ! input))) (\<lambda>done.
     if done then Inr (new, added, stack, cir) else depthFirstAdd fuel ns False (new, added, input # stack, cir))"
  by (simp add: input_step_def)

lemma child_step_eq:
  "child_step fuel ns explore child (new, added, stack, cir) = bind_r (is_added added (dn_mWireIdx (ns ! child))) (\<lambda>done.
     if done then Inr (new, added, stack, cir)
     else if explore then depthFirstAdd fuel ns True (new, added, child # stack, cir)
     else Inr (new, added, child # stack, cir))"
  by (simp add: child_step_def)

lemma depthFirstAdd_eq:
  "depthFirstAdd (Suc fuel) ns explore (new, added, g # stack, cir) =
     bind_r (is_added added (dn_mWireIdx (ns ! g))) (\<lambda>done.
       bind_r (if done then Inr (new, added, stack, cir)
               else bind_r (fold_r (input_step fuel ns) (dn_mParents (ns ! g)) (new, added[dn_mWireIdx (ns ! g) := True], stack, cir))
                      (add_node (ns ! g) (\<lambda>i. dn_mWireIdx (ns ! i))))
         (fold_r (child_step fuel ns explore) (dn_mChildren (ns ! g))))"
  unfolding depthFirstAdd.simps Let_def prod.case list.sel input_step_def [abs_def] child_step_def [abs_def] by (rule refl)

declare depthFirstAdd.simps [simp del]

lemma inputs_ok:
  assumes l: "linked ns n G rank" and V: "visits fuel ns n G rank x v"
    and "dfs_ok ns n G x v P (new, added, stack, cir)" and "set ps \<subseteq> {..<n} \<union> G"
    and "\<forall>p\<in>set ps. \<forall>q\<in>P. rank p < rank q" and "card (G - added_set added) < fuel"
  shows "\<exists>new' added' stack' cir'. fold_r (input_step fuel ns) ps (new, added, stack, cir) = Inr (new', added', stack', cir')
     \<and> dfs_prog ns (new, added, stack, cir) (new', added', stack', cir')
     \<and> dfs_ok ns n G x v P (new', added', stack', cir') \<and> set ps \<subseteq> added_set added'"
  using assms(3-)
proof (induction ps arbitrary: new added stack cir)
  case Nil then show ?case by (simp add: dfs_prog_refl)
next
  case (Cons p ps)
  have p: "p \<in> {..<n} \<union> G" using Cons.prems(2) by simp
  have "\<exists>new1 added1 stack1 cir1. input_step fuel ns p (new, added, stack, cir) = Inr (new1, added1, stack1, cir1)
     \<and> dfs_prog ns (new, added, stack, cir) (new1, added1, stack1, cir1) \<and> dfs_ok ns n G x v P (new1, added1, stack1, cir1)
     \<and> p \<in> added_set added1"
  proof (cases "p \<in> added_set added")
    case True
    then show ?thesis
      using Cons.prems(1) dfs_ok_bounds(3) [OF l Cons.prems(1) p] by (simp add: input_step_eq dfs_prog_refl)
  next
    case False
    have "p \<in> G" using False p Cons.prems(1) by (auto simp: dfs_ok_def)
    moreover have "dfs_ok ns n G x v P (new, added, p # stack, cir)"
      by (rule dfs_ok_stack [OF Cons.prems(1)]) (use Cons.prems(1) p in \<open>simp add: dfs_ok_def\<close>)
    ultimately show ?thesis
      using V [unfolded visits_def, rule_format, of P new added p stack cir] False Cons.prems(3,4)
        dfs_ok_bounds(3) [OF l Cons.prems(1) p] by (simp add: input_step_eq)
  qed
  then obtain new1 added1 stack1 cir1 where s: "input_step fuel ns p (new, added, stack, cir) = Inr (new1, added1, stack1, cir1)"
     "dfs_prog ns (new, added, stack, cir) (new1, added1, stack1, cir1)" "dfs_ok ns n G x v P (new1, added1, stack1, cir1)"
     "p \<in> added_set added1" by blast
  have sub: "added_set added \<subseteq> added_set added1" using s(2) by (auto simp: dfs_prog_def)
  have "card (G - added_set added1) < fuel" using card_rest_mono [OF l sub] Cons.prems(4) by linarith
  then obtain new' added' stack' cir' where r: "fold_r (input_step fuel ns) ps (new1, added1, stack1, cir1) = Inr (new', added', stack', cir')"
     "dfs_prog ns (new1, added1, stack1, cir1) (new', added', stack', cir')" "dfs_ok ns n G x v P (new', added', stack', cir')"
     "set ps \<subseteq> added_set added'" using Cons.IH [OF s(3)] Cons.prems(2,3) by auto
  moreover have "added_set added1 \<subseteq> added_set added'" using r(2) by (auto simp: dfs_prog_def)
  ultimately show ?case using s(1,4) dfs_prog_trans [OF s(2) r(2)] by auto
qed

text \<open>Marking a gate, adding its parents, adding it.\<close>

lemma gate_added:
  assumes l: "linked ns n G rank" and v: "dag_values ns n G x v" and V: "visits fuel ns n G rank x v"
    and ok: "dfs_ok ns n G x v P (new, added, g # stack, cir)" and g: "g \<in> G" "g \<notin> added_set added"
    and P: "\<forall>q\<in>P. rank g < rank q" and f: "card (G - added_set added) < Suc fuel"
  shows "\<exists>new' added' stack' cir' xs.
     bind_r (fold_r (input_step fuel ns) (dn_mParents (ns ! g)) (new, added[dn_mWireIdx (ns ! g) := True], stack, cir))
        (add_node (ns ! g) (\<lambda>i. dn_mWireIdx (ns ! i))) = Inr (new', added', stack', cir')
     \<and> dfs_ok ns n G x v P (new', added', stack', cir') \<and> stack' = xs @ stack \<and> insert g (added_set added) \<subseteq> added_set added'
     \<and> (\<forall>p\<in>added_set added' - added_set added - {g}. \<forall>c\<in>set (dn_mChildren (ns ! p)). c \<in> added_set added' \<union> set xs)
     \<and> mInputs cir' = mInputs cir \<and> mOutputs cir' = mOutputs cir"
proof -
  let ?added = "added[g := True]"
  have w: "g < length added" "dn_mWireIdx (ns ! g) = g" using dfs_ok_bounds [OF l ok] g(1) by auto
  have A: "added_set ?added = insert g (added_set added)" by (rule added_set_update [OF w(1)])
  have L: "set (dn_mParents (ns ! g)) \<subseteq> {..<n} \<union> G" "\<forall>p\<in>set (dn_mParents (ns ! g)). rank p < rank g"
    using l g(1) unfolding linked_def by blast+
  have "g \<notin> P" using P by blast
  have ok1: "dfs_ok ns n G x v (insert g P) (new, ?added, stack, cir)"
  proof -
    have "insert g (added_set added) - insert g P = added_set added - P"
      "insert g (added_set added) \<inter> G - insert g P = added_set added \<inter> G - P" using g(2) \<open>g \<notin> P\<close> by auto
    then show ?thesis using ok g(1) by (auto simp: dfs_ok_def A)
  qed
  have "card (G - added_set ?added) < fuel"
    using card_rest_insert [OF l g, of "added_set ?added"] f by (simp add: A)
  moreover have "\<forall>p\<in>set (dn_mParents (ns ! g)). \<forall>q\<in>insert g P. rank p < rank q" using L(2) P by fastforce
  ultimately obtain new1 added1 stack1 cir1 where s: "fold_r (input_step fuel ns) (dn_mParents (ns ! g)) (new, ?added, stack, cir) = Inr (new1, added1, stack1, cir1)"
     "dfs_prog ns (new, ?added, stack, cir) (new1, added1, stack1, cir1)" "dfs_ok ns n G x v (insert g P) (new1, added1, stack1, cir1)"
     "set (dn_mParents (ns ! g)) \<subseteq> added_set added1"
    using inputs_ok [OF l V ok1 L(1)] by blast
  have "set (dn_mParents (ns ! g)) \<subseteq> added_set added1 - insert g P" using s(4) L(2) P by fastforce
  then obtain new' cir' where a: "add_node (ns ! g) (\<lambda>i. dn_mWireIdx (ns ! i)) (new1, added1, stack1, cir1) = Inr (new', added1, stack1, cir')"
     "dfs_ok ns n G x v P (new', added1, stack1, cir')" "mInputs cir' = mInputs cir1" "mOutputs cir' = mOutputs cir1"
    using add_node_ok [OF l v s(3) g(1) \<open>g \<notin> P\<close>] by blast
  obtain xs where xs: "stack1 = xs @ stack" "insert g (added_set added) \<subseteq> added_set added1"
     "\<forall>p\<in>added_set added1 - insert g (added_set added). \<forall>c\<in>set (dn_mChildren (ns ! p)). c \<in> added_set added1 \<union> set xs"
     "mInputs cir1 = mInputs cir" "mOutputs cir1 = mOutputs cir"
    using s(2) unfolding dfs_prog_def prod.case A by blast
  have "\<forall>p\<in>added_set added1 - added_set added - {g}. \<forall>c\<in>set (dn_mChildren (ns ! p)). c \<in> added_set added1 \<union> set xs"
    using xs(3) by blast
  then show ?thesis using s(1) a xs(1,2,4,5) by (intro exI [of _ new'] exI [of _ added1] exI [of _ stack1] exI [of _ cir'] exI [of _ xs]) (simp add: w(2))
qed

lemma dfs_progI:
  assumes "stack' = xs @ stack" and "insert g (added_set added) \<subseteq> added_set added'" and "g \<notin> added_set added"
    and "\<forall>p\<in>added_set added' - added_set added - {g}. \<forall>c\<in>set (dn_mChildren (ns ! p)). c \<in> added_set added' \<union> set xs"
    and "\<forall>c\<in>set (dn_mChildren (ns ! g)). c \<in> added_set added' \<union> set xs"
    and "mInputs cir' = mInputs cir" and "mOutputs cir' = mOutputs cir"
  shows "dfs_prog ns (new, added, stack, cir) (new', added', stack', cir')"
  using assms unfolding dfs_prog_def prod.case by blast

text \<open>Without exploration, the children that are not added go on the stack.\<close>

lemma children_pushed:
  assumes l: "linked ns n G rank"
    and "dfs_ok ns n G x v P (new, added, stack, cir)" and "set cs \<subseteq> G"
  shows "\<exists>xs. fold_r (child_step fuel ns False) cs (new, added, stack, cir) = Inr (new, added, xs @ stack, cir)
     \<and> dfs_ok ns n G x v P (new, added, xs @ stack, cir) \<and> set cs \<subseteq> added_set added \<union> set xs"
  using assms(2-)
proof (induction cs arbitrary: stack)
  case Nil then show ?case by (intro exI [of _ "[]"]) simp
next
  case (Cons c cs)
  have c: "c \<in> {..<n} \<union> G" using Cons.prems(2) by simp
  note b = dfs_ok_bounds(3) [OF l Cons.prems(1) c]
  show ?case
  proof (cases "c \<in> added_set added")
    case True
    then show ?thesis using Cons.IH [OF Cons.prems(1)] Cons.prems(2) b by (auto simp: child_step_eq)
  next
    case False
    have "dfs_ok ns n G x v P (new, added, c # stack, cir)"
      by (rule dfs_ok_stack [OF Cons.prems(1)]) (use Cons.prems(1) c in \<open>simp add: dfs_ok_def\<close>)
    then obtain xs where "fold_r (child_step fuel ns False) cs (new, added, c # stack, cir) = Inr (new, added, xs @ c # stack, cir)"
      "dfs_ok ns n G x v P (new, added, xs @ c # stack, cir)" "set cs \<subseteq> added_set added \<union> set xs"
      using Cons.IH Cons.prems(2) by (metis insert_subset list.simps(15))
    then show ?thesis using False b by (intro exI [of _ "xs @ [c]"]) (auto simp: child_step_eq)
  qed
qed

lemma linked_children:
  assumes "linked ns n G rank" and "g \<in> {..<n} \<union> G"
  shows "set (dn_mChildren (ns ! g)) \<subseteq> G"
  using assms unfolding linked_def by blast

lemma visits_all:
  assumes l: "linked ns n G rank" and v: "dag_values ns n G x v"
  shows "visits fuel ns n G rank x v"
proof (induction fuel)
  case 0 then show ?case by (simp add: visits_def)
next
  case (Suc fuel)
  show ?case unfolding visits_def
  proof (intro allI impI, elim conjE)
    fix P new added stack cir g
    assume ok: "dfs_ok ns n G x v P (new, added, g # stack, cir)" and g: "g \<in> G" "g \<notin> added_set added"
      and P: "\<forall>q\<in>P. rank g < rank q" and f: "card (G - added_set added) < Suc fuel"
    obtain new1 added1 stack1 cir1 xs where a:
      "bind_r (fold_r (input_step fuel ns) (dn_mParents (ns ! g)) (new, added[dn_mWireIdx (ns ! g) := True], stack, cir))
        (add_node (ns ! g) (\<lambda>i. dn_mWireIdx (ns ! i))) = Inr (new1, added1, stack1, cir1)"
      "dfs_ok ns n G x v P (new1, added1, stack1, cir1)" "stack1 = xs @ stack" "insert g (added_set added) \<subseteq> added_set added1"
      "\<forall>p\<in>added_set added1 - added_set added - {g}. \<forall>c\<in>set (dn_mChildren (ns ! p)). c \<in> added_set added1 \<union> set xs"
      "mInputs cir1 = mInputs cir" "mOutputs cir1 = mOutputs cir"
      using gate_added [OF l v Suc ok g P f] by blast
    obtain ys where ys: "fold_r (child_step fuel ns False) (dn_mChildren (ns ! g)) (new1, added1, stack1, cir1)
        = Inr (new1, added1, ys @ stack1, cir1)" "dfs_ok ns n G x v P (new1, added1, ys @ stack1, cir1)"
      "set (dn_mChildren (ns ! g)) \<subseteq> added_set added1 \<union> set ys"
      using children_pushed [OF l a(2) linked_children [OF l]] g(1) by blast
    have "depthFirstAdd (Suc fuel) ns False (new, added, g # stack, cir) = Inr (new1, added1, ys @ stack1, cir1)"
      using dfs_ok_bounds(3) [OF l ok, of g] g a(1) ys(1) by (simp add: depthFirstAdd_eq)
    moreover have "dfs_prog ns (new, added, stack, cir) (new1, added1, ys @ stack1, cir1)"
      by (rule dfs_progI [where xs = "ys @ xs", OF _ a(4) g(2) _ _ a(6,7)]) (use a(3,5) ys(3) in auto)
    ultimately show "\<exists>new' added' stack' cir'. depthFirstAdd (Suc fuel) ns False (new, added, g # stack, cir) = Inr (new', added', stack', cir')
        \<and> dfs_prog ns (new, added, stack, cir) (new', added', stack', cir')
        \<and> dfs_ok ns n G x v P (new', added', stack', cir') \<and> g \<in> added_set added'"
      using ys(2) a(4) by blast
  qed
qed

text \<open>With exploration, every child is added.\<close>

definition explores :: "nat \<Rightarrow> dag_node list \<Rightarrow> nat \<Rightarrow> nat set \<Rightarrow> (nat \<Rightarrow> bool) \<Rightarrow> (nat \<Rightarrow> bool) \<Rightarrow> bool" where
  "explores fuel ns n G x v \<longleftrightarrow>
     (\<forall>new added stack cir g. dfs_ok ns n G x v {} (new, added, g # stack, cir) \<and> g \<in> {..<n} \<union> G
        \<and> card (G - added_set added) + (if g \<in> added_set added then 1 else 0) < fuel
        \<longrightarrow> (\<exists>new' added' stack' cir'. depthFirstAdd fuel ns True (new, added, g # stack, cir) = Inr (new', added', stack', cir')
             \<and> dfs_prog ns (new, added, stack, cir) (new', added', stack', cir')
             \<and> dfs_ok ns n G x v {} (new', added', stack', cir')
             \<and> insert g (set (dn_mChildren (ns ! g))) \<subseteq> added_set added'))"

lemma children_explored:
  assumes l: "linked ns n G rank" and E: "explores fuel ns n G x v"
    and "dfs_ok ns n G x v {} (new, added, stack, cir)" and "set cs \<subseteq> G" and "card (G - added_set added) < fuel"
  shows "\<exists>new' added' stack' cir'. fold_r (child_step fuel ns True) cs (new, added, stack, cir) = Inr (new', added', stack', cir')
     \<and> dfs_prog ns (new, added, stack, cir) (new', added', stack', cir')
     \<and> dfs_ok ns n G x v {} (new', added', stack', cir') \<and> set cs \<subseteq> added_set added'"
  using assms(3-)
proof (induction cs arbitrary: new added stack cir)
  case Nil then show ?case by (simp add: dfs_prog_refl)
next
  case (Cons c cs)
  have c: "c \<in> {..<n} \<union> G" using Cons.prems(2) by simp
  note b = dfs_ok_bounds(3) [OF l Cons.prems(1) c]
  have "\<exists>new1 added1 stack1 cir1. child_step fuel ns True c (new, added, stack, cir) = Inr (new1, added1, stack1, cir1)
     \<and> dfs_prog ns (new, added, stack, cir) (new1, added1, stack1, cir1) \<and> dfs_ok ns n G x v {} (new1, added1, stack1, cir1)
     \<and> c \<in> added_set added1"
  proof (cases "c \<in> added_set added")
    case True
    then show ?thesis using Cons.prems(1) b by (simp add: child_step_eq dfs_prog_refl)
  next
    case False
    have "dfs_ok ns n G x v {} (new, added, c # stack, cir)"
      by (rule dfs_ok_stack [OF Cons.prems(1)]) (use Cons.prems(1) c in \<open>simp add: dfs_ok_def\<close>)
    then show ?thesis
      using E [unfolded explores_def, rule_format, of new added c stack cir] False Cons.prems(3) b c by (auto simp: child_step_eq)
  qed
  then obtain new1 added1 stack1 cir1 where s: "child_step fuel ns True c (new, added, stack, cir) = Inr (new1, added1, stack1, cir1)"
     "dfs_prog ns (new, added, stack, cir) (new1, added1, stack1, cir1)" "dfs_ok ns n G x v {} (new1, added1, stack1, cir1)"
     "c \<in> added_set added1" by blast
  have sub: "added_set added \<subseteq> added_set added1" using s(2) by (auto simp: dfs_prog_def)
  have "card (G - added_set added1) < fuel" using card_rest_mono [OF l sub] Cons.prems(3) by linarith
  then obtain new' added' stack' cir' where r: "fold_r (child_step fuel ns True) cs (new1, added1, stack1, cir1) = Inr (new', added', stack', cir')"
     "dfs_prog ns (new1, added1, stack1, cir1) (new', added', stack', cir')" "dfs_ok ns n G x v {} (new', added', stack', cir')"
     "set cs \<subseteq> added_set added'" using Cons.IH [OF s(3)] Cons.prems(2) by auto
  moreover have "added_set added1 \<subseteq> added_set added'" using r(2) by (auto simp: dfs_prog_def)
  ultimately show ?case using s(1,4) dfs_prog_trans [OF s(2) r(2)] by auto
qed

lemma explores_all:
  assumes l: "linked ns n G rank" and v: "dag_values ns n G x v"
  shows "explores fuel ns n G x v"
proof (induction fuel)
  case 0 then show ?case by (simp add: explores_def)
next
  case (Suc fuel)
  show ?case unfolding explores_def
  proof (intro allI impI, elim conjE)
    fix new added stack cir g
    assume ok: "dfs_ok ns n G x v {} (new, added, g # stack, cir)" and g: "g \<in> {..<n} \<union> G"
      and f: "card (G - added_set added) + (if g \<in> added_set added then 1 else 0) < Suc fuel"
    note ch = linked_children [OF l g] and b = dfs_ok_bounds [OF l ok g]
    show "\<exists>new' added' stack' cir'. depthFirstAdd (Suc fuel) ns True (new, added, g # stack, cir) = Inr (new', added', stack', cir')
             \<and> dfs_prog ns (new, added, stack, cir) (new', added', stack', cir')
             \<and> dfs_ok ns n G x v {} (new', added', stack', cir')
             \<and> insert g (set (dn_mChildren (ns ! g))) \<subseteq> added_set added'"
    proof (cases "g \<in> added_set added")
      case True
      have "dfs_ok ns n G x v {} (new, added, stack, cir)"
        by (rule dfs_ok_stack [OF ok]) (use ok in \<open>simp add: dfs_ok_def\<close>)
      moreover have "card (G - added_set added) < fuel" using True f by simp
      ultimately obtain new' added' stack' cir' where
        "fold_r (child_step fuel ns True) (dn_mChildren (ns ! g)) (new, added, stack, cir) = Inr (new', added', stack', cir')"
        "dfs_prog ns (new, added, stack, cir) (new', added', stack', cir')" "dfs_ok ns n G x v {} (new', added', stack', cir')"
        "set (dn_mChildren (ns ! g)) \<subseteq> added_set added'" using children_explored [OF l Suc _ ch] by blast
      then show ?thesis using True b by (auto simp: depthFirstAdd_eq dfs_prog_def)
    next
      case False
      then have gG: "g \<in> G" using g ok by (auto simp: dfs_ok_def)
      have f': "card (G - added_set added) < Suc fuel" using f False by simp
      obtain new1 added1 stack1 cir1 xs where a:
        "bind_r (fold_r (input_step fuel ns) (dn_mParents (ns ! g)) (new, added[dn_mWireIdx (ns ! g) := True], stack, cir))
          (add_node (ns ! g) (\<lambda>i. dn_mWireIdx (ns ! i))) = Inr (new1, added1, stack1, cir1)"
        "dfs_ok ns n G x v {} (new1, added1, stack1, cir1)" "stack1 = xs @ stack" "insert g (added_set added) \<subseteq> added_set added1"
        "\<forall>p\<in>added_set added1 - added_set added - {g}. \<forall>c\<in>set (dn_mChildren (ns ! p)). c \<in> added_set added1 \<union> set xs"
        "mInputs cir1 = mInputs cir" "mOutputs cir1 = mOutputs cir"
        using gate_added [OF l v visits_all [OF l v] ok gG False _ f'] by blast
      have "card (G - added_set added1) < fuel" using card_rest_insert [OF l gG False a(4)] f' by linarith
      then obtain new' added' stack' cir' where r:
        "fold_r (child_step fuel ns True) (dn_mChildren (ns ! g)) (new1, added1, stack1, cir1) = Inr (new', added', stack', cir')"
        "dfs_prog ns (new1, added1, stack1, cir1) (new', added', stack', cir')" "dfs_ok ns n G x v {} (new', added', stack', cir')"
        "set (dn_mChildren (ns ! g)) \<subseteq> added_set added'" using children_explored [OF l Suc a(2) ch] by blast
      obtain ys where ys: "stack' = ys @ stack1" "added_set added1 \<subseteq> added_set added'"
        "\<forall>p\<in>added_set added' - added_set added1. \<forall>c\<in>set (dn_mChildren (ns ! p)). c \<in> added_set added' \<union> set ys"
        "mInputs cir' = mInputs cir1" "mOutputs cir' = mOutputs cir1"
        using r(2) unfolding dfs_prog_def prod.case by blast
      have new: "c \<in> added_set added' \<union> set (ys @ xs)"
        if "p \<in> added_set added' - added_set added - {g}" "c \<in> set (dn_mChildren (ns ! p))" for p c
      proof (cases "p \<in> added_set added1")
        case True
        then have "c \<in> added_set added1 \<union> set xs" using a(5) that by blast
        then show ?thesis using ys(2) by auto
      next
        case False
        then have "c \<in> added_set added' \<union> set ys" using ys(3) that by blast
        then show ?thesis by auto
      qed
      have "dfs_prog ns (new, added, stack, cir) (new', added', stack', cir')"
      proof (rule dfs_progI [where xs = "ys @ xs" and g = g])
        show "insert g (added_set added) \<subseteq> added_set added'" using a(4) ys(2) by blast
      qed (use a(3,6,7) ys(1,4,5) r(4) False new in auto)
      moreover have "depthFirstAdd (Suc fuel) ns True (new, added, g # stack, cir) = Inr (new', added', stack', cir')"
        using a(1) r(1) b(3) False by (simp add: depthFirstAdd_eq)
      ultimately show ?thesis using r(3,4) a(4) ys(2) by blast
    qed
  qed
qed

section \<open>The whole traversal\<close>

text \<open>Between two calls: every added node is on the stack, or its children are added or on the stack.\<close>

definition pending :: "dag_node list \<Rightarrow> dfs_state \<Rightarrow> bool" where
  "pending ns st \<longleftrightarrow>
     (case st of (new, added, stack, cir) \<Rightarrow>
        \<forall>p\<in>added_set added. p \<in> set stack \<or> (\<forall>c\<in>set (dn_mChildren (ns ! p)). c \<in> added_set added \<union> set stack))"

lemma add_loop_step:
  assumes l: "linked ns n G rank" and v: "dag_values ns n G x v" and f: "card G + 1 < fuel"
    and ok: "dfs_ok ns n G x v {} (new, added, g # stack, cir)" and pd: "pending ns (new, added, g # stack, cir)"
  shows "\<exists>new' added' stack' cir'. depthFirstAdd fuel ns True (new, added, g # stack, cir) = Inr (new', added', stack', cir')
     \<and> dfs_ok ns n G x v {} (new', added', stack', cir') \<and> pending ns (new', added', stack', cir')
     \<and> mInputs cir' = mInputs cir \<and> mOutputs cir' = mOutputs cir
     \<and> (card (G - added_set added') < card (G - added_set added)
        \<or> card (G - added_set added') = card (G - added_set added) \<and> length stack' < length (g # stack))"
proof -
  have g: "g \<in> {..<n} \<union> G" using ok by (auto simp: dfs_ok_def)
  have "card (G - added_set added) \<le> card G" using linked_finite [OF l] by (intro card_mono) auto
  then have "card (G - added_set added) + (if g \<in> added_set added then 1 else 0) < fuel" using f by simp
  then obtain new' added' stack' cir' where r: "depthFirstAdd fuel ns True (new, added, g # stack, cir) = Inr (new', added', stack', cir')"
    "dfs_prog ns (new, added, stack, cir) (new', added', stack', cir')" "dfs_ok ns n G x v {} (new', added', stack', cir')"
    "insert g (set (dn_mChildren (ns ! g))) \<subseteq> added_set added'"
    using explores_all [OF l v, unfolded explores_def, rule_format, of new added g stack cir fuel] ok g by blast
  obtain xs where xs: "stack' = xs @ stack" "added_set added \<subseteq> added_set added'"
    "\<forall>p\<in>added_set added' - added_set added. \<forall>c\<in>set (dn_mChildren (ns ! p)). c \<in> added_set added' \<union> set xs"
    "added_set added' = added_set added \<longrightarrow> xs = []" "mInputs cir' = mInputs cir" "mOutputs cir' = mOutputs cir"
    using r(2) unfolding dfs_prog_def prod.case by blast
  have "pending ns (new', added', stack', cir')"
    unfolding pending_def prod.case
  proof
    fix p assume p: "p \<in> added_set added'"
    show "p \<in> set stack' \<or> (\<forall>c\<in>set (dn_mChildren (ns ! p)). c \<in> added_set added' \<union> set stack')"
    proof (cases "p \<in> added_set added")
      case False
      then show ?thesis using xs(1,3) p by auto
    next
      case True
      then consider "p = g" | "p \<in> set stack" | "\<forall>c\<in>set (dn_mChildren (ns ! p)). c \<in> added_set added \<union> insert g (set stack)"
        using pd unfolding pending_def by auto
      then show ?thesis
      proof cases
        case 1 then show ?thesis using r(4) by blast
      next
        case 2 then show ?thesis using xs(1) by simp
      next
        case 3 then show ?thesis using xs(1,2) r(4) by auto
      qed
    qed
  qed
  moreover have "card (G - added_set added') < card (G - added_set added)
      \<or> card (G - added_set added') = card (G - added_set added) \<and> length stack' < length (g # stack)"
  proof (cases "added_set added' = added_set added")
    case True then show ?thesis using xs(1,4) by simp
  next
    case False
    then obtain a where a: "a \<in> added_set added'" "a \<notin> added_set added" using xs(2) by blast
    then have "a \<in> G" using r(3) ok by (auto simp: dfs_ok_def)
    then show ?thesis using card_rest_insert [OF l _ a(2), of "added_set added'"] a(1) xs(2) by blast
  qed
  ultimately show ?thesis using r(1,3) xs(5,6) by blast
qed

lemma add_loop_ok:
  assumes l: "linked ns n G rank" and v: "dag_values ns n G x v" and f: "card G + 1 < fuel"
    and "dfs_ok ns n G x v {} (new, added, stack, cir)" and "pending ns (new, added, stack, cir)"
  shows "\<exists>new' added' cir'. add_loop fuel ns (new, added, stack, cir) = Some (Inr (new', added', [], cir'))
     \<and> dfs_ok ns n G x v {} (new', added', [], cir') \<and> pending ns (new', added', [], cir')
     \<and> mInputs cir' = mInputs cir \<and> mOutputs cir' = mOutputs cir"
  using assms(4,5)
proof (induction "(card (G - added_set added), length stack)" arbitrary: new added stack cir
    rule: wf_induct_rule [OF wf_lex_prod [OF wf_less_than wf_less_than]])
  case (1 added stack)
  show ?case
  proof (cases stack)
    case Nil
    then show ?thesis using "1.prems" by (simp add: add_loop.simps)
  next
    case (Cons g rest)
    obtain new1 added1 stack1 cir1 where s: "depthFirstAdd fuel ns True (new, added, g # rest, cir) = Inr (new1, added1, stack1, cir1)"
      "dfs_ok ns n G x v {} (new1, added1, stack1, cir1)" "pending ns (new1, added1, stack1, cir1)"
      "mInputs cir1 = mInputs cir" "mOutputs cir1 = mOutputs cir"
      "card (G - added_set added1) < card (G - added_set added)
        \<or> card (G - added_set added1) = card (G - added_set added) \<and> length stack1 < length (g # rest)"
      using add_loop_step [OF l v f] "1.prems" unfolding Cons by blast
    have "((card (G - added_set added1), length stack1), (card (G - added_set added), length stack)) \<in> less_than <*lex*> less_than"
      using s(6) unfolding Cons by auto
    from "1.hyps" [OF this s(2,3)] show ?thesis using s(1,4,5) Cons by (simp add: add_loop.simps [of _ _ "(new, added, g # rest, cir)"])
  qed
qed

text \<open>When the stack is empty every gate is added: a gate that is not has a parent that is not.\<close>

lemma all_added:
  assumes l: "linked ns n G rank" and ok: "dfs_ok ns n G x v {} (new, added, [], cir)" and pd: "pending ns (new, added, [], cir)"
  shows "added_set added = {..<n} \<union> G"
proof -
  have "g \<in> added_set added" if "g \<in> {..<n} \<union> G" for g
    using that
  proof (induction "rank g" arbitrary: g rule: less_induct)
    case less
    show ?case
    proof (cases "g \<in> G")
      case True
      then have L: "length (dn_mParents (ns ! g)) = 1 \<or> length (dn_mParents (ns ! g)) = 2" "set (dn_mParents (ns ! g)) \<subseteq> {..<n} \<union> G"
        "\<forall>p\<in>set (dn_mParents (ns ! g)). rank p < rank g" using l by (auto simp: linked_def)
      define p where "p = dn_mParents (ns ! g) ! 0"
      have p: "p \<in> set (dn_mParents (ns ! g))" unfolding p_def by (rule nth_mem) (use L(1) in auto)
      then have pa: "p \<in> added_set added" using less.hyps [of p] L by blast
      have "g \<in> set (dn_mChildren (ns ! p))" using l True p L(2) unfolding linked_def by blast
      then show ?thesis using pd pa by (auto simp: pending_def)
    next
      case False
      then show ?thesis using less.prems ok by (auto simp: dfs_ok_def)
    qed
  qed
  then show ?thesis using ok by (auto simp: dfs_ok_def)
qed

section \<open>\<open>toCircuit\<close>\<close>

definition Circuit_default :: "nat \<times> nat \<Rightarrow> Circuit" where
  "Circuit_default uninit = \<lparr>mWireCount = 0, mNonXorGateCount = 0, mOutputCount = 0, mInputs = uninit, mGates = [], mOutputs = []\<rparr>"

lemma dfs_start:
  assumes "linked ns n G rank" and "dag_values ns n G x v" and "n \<le> W" and "length ns \<le> W" and "fst ins + snd ins = n"
  shows "dfs_ok ns n G x v {} ([0..<n] @ replicate (W - n) w, replicate n True @ replicate (W - n) False, rev [0..<n],
           (Circuit_default u)\<lparr>mInputs := ins, mWireCount := n\<rparr>)"
    and "pending ns ([0..<n] @ replicate (W - n) w, replicate n True @ replicate (W - n) False, rev [0..<n], c)"
proof -
  have a: "added_set (replicate n True @ replicate (W - n) False) = {..<n}"
  proof (rule set_eqI)
    fix i
    show "i \<in> added_set (replicate n True @ replicate (W - n) False) \<longleftrightarrow> i \<in> {..<n}"
      using assms(3) by (cases "i < n"; cases "i < W") (simp_all add: added_set_def nth_append)
  qed
  have "{..<n} \<inter> G = {}" using assms(1) by (auto simp: linked_def)
  moreover have "v d = x d" if "d < n" for d using assms(2) that by (simp add: dag_values_def)
  moreover have "circuit_wf ((Circuit_default u)\<lparr>mInputs := ins, mWireCount := n\<rparr>)"
    "InputWireCount ((Circuit_default u)\<lparr>mInputs := ins, mWireCount := n\<rparr>) = n"
    using assms(5) by (simp_all add: circuit_wf_def Circuit_default_def InputWireCount_def)
  ultimately show "dfs_ok ns n G x v {} ([0..<n] @ replicate (W - n) w, replicate n True @ replicate (W - n) False, rev [0..<n],
           (Circuit_default u)\<lparr>mInputs := ins, mWireCount := n\<rparr>)"
    using assms(3,4) unfolding dfs_ok_def prod.case a by (auto simp: Circuit_default_def nth_append)
  show "pending ns ([0..<n] @ replicate (W - n) w, replicate n True @ replicate (W - n) False, rev [0..<n], c)"
    unfolding pending_def prod.case a by auto
qed

lemma add_outputs:
  assumes "circuit_wf cir" and "\<forall>k\<in>set ks. \<exists>o'. dag_mOutputs d ! k = Some o' \<and> dn_mWireIdx (dag_mNodes d ! o') = o'
      \<and> o' < length new \<and> new ! o' < mWireCount cir"
  shows "fold_r (output_wire d new) ks cir
       = Inr (cir\<lparr>mOutputs := mOutputs cir @ map (\<lambda>k. new ! the (dag_mOutputs d ! k)) ks, mOutputCount := mOutputCount cir + length ks\<rparr>)"
    and "circuit_wf (cir\<lparr>mOutputs := mOutputs cir @ map (\<lambda>k. new ! the (dag_mOutputs d ! k)) ks, mOutputCount := mOutputCount cir + length ks\<rparr>)"
proof -
  show "fold_r (output_wire d new) ks cir
       = Inr (cir\<lparr>mOutputs := mOutputs cir @ map (\<lambda>k. new ! the (dag_mOutputs d ! k)) ks, mOutputCount := mOutputCount cir + length ks\<rparr>)"
    using assms(2)
  proof (induction ks arbitrary: cir)
    case (Cons k ks)
    obtain o' where o': "dag_mOutputs d ! k = Some o'" "dn_mWireIdx (dag_mNodes d ! o') = o'" "o' < length new" "new ! o' < mWireCount cir"
      using Cons.prems by auto
    have s: "output_wire d new k cir = Inr (cir\<lparr>mOutputs := mOutputs cir @ [new ! o'], mOutputCount := mOutputCount cir + 1\<rparr>)"
      using o' by (simp add: output_wire_def AddOutputWire_def)
    show ?case using Cons.IH [of "cir\<lparr>mOutputs := mOutputs cir @ [new ! o'], mOutputCount := mOutputCount cir + 1\<rparr>"] Cons.prems s o'(1) by simp
  qed simp
  show "circuit_wf (cir\<lparr>mOutputs := mOutputs cir @ map (\<lambda>k. new ! the (dag_mOutputs d ! k)) ks, mOutputCount := mOutputCount cir + length ks\<rparr>)"
    using assms by (fastforce simp: circuit_wf_def InputWireCount_def)
qed

lemma toCircuit_ok:
  assumes l: "linked (dag_mNodes d) n G rank" and v: "\<And>x. dag_values (dag_mNodes d) n G x (v x)"
    and n: "dag_InputWireCount d = n" "fst (dag_mInputCounts d) + snd (dag_mInputCounts d) = n"
    and W: "length (dag_mNodes d) \<le> dag_mWireCount d" and f: "card G + 1 < fuel"
    and outs: "\<forall>o'\<in>set (dag_mOutputs d). \<exists>w\<in>{..<n} \<union> G. o' = Some w"
  shows "\<exists>cir. toCircuit d fuel (Circuit_default u) = Some (Inr cir) \<and> circuit_wf cir \<and> mInputs cir = dag_mInputCounts d
     \<and> length (mGates cir) = card G \<and> mType ` set (mGates cir) \<subseteq> (\<lambda>g. dn_mType (dag_mNodes d ! g)) ` G
     \<and> (\<forall>x. circuit_sem cir x = map (\<lambda>o'. v x (the o')) (dag_mOutputs d))"
proof -
  let ?ns = "dag_mNodes d" and ?W = "dag_mWireCount d" and ?w = "2 ^ 64 - 1 :: nat"
  let ?st = "([0..<n] @ replicate (?W - n) ?w, replicate n True @ replicate (?W - n) False, rev [0..<n],
           (Circuit_default u)\<lparr>mInputs := dag_mInputCounts d, mWireCount := n\<rparr>)"
  have nW: "n \<le> ?W" using l W by (auto simp: linked_def)
  have loop: "\<exists>new' added' cir'. add_loop fuel ?ns ?st = Some (Inr (new', added', [], cir'))
     \<and> dfs_ok ?ns n G x (v x) {} (new', added', [], cir') \<and> pending ?ns (new', added', [], cir')
     \<and> mInputs cir' = dag_mInputCounts d \<and> mOutputs cir' = []" for x
    using add_loop_ok [where x = x, OF l v f dfs_start(1) [where u = u, OF l v nW W n(2)] dfs_start(2) [OF l v nW W n(2)]]
    by (simp add: Circuit_default_def)
  obtain new added cir where r: "add_loop fuel ?ns ?st = Some (Inr (new, added, [], cir))"
    "mInputs cir = dag_mInputCounts d" "mOutputs cir = []" "pending ?ns (new, added, [], cir)"
    using loop by blast
  have ok: "dfs_ok ?ns n G x (v x) {} (new, added, [], cir)" for x using loop [of x] r(1) by auto
  have all: "added_set added = {..<n} \<union> G" by (rule all_added [OF l ok r(4)])
  have D: "circuit_wf cir" "length new = length added" "length (mGates cir) = card G"
    "mType ` set (mGates cir) \<subseteq> (\<lambda>g. dn_mType (?ns ! g)) ` G"
    using ok all by (simp_all add: dfs_ok_def Int_absorb1)
  have cnt: "mOutputCount cir = length (mOutputs cir)" using D(1) by (simp add: circuit_wf_def)
  have wires: "new ! i < mWireCount cir" "plain_run (mGates cir) x (new ! i) = v x i" if "i \<in> {..<n} \<union> G" for i x
    using ok [of x] that all by (auto simp: dfs_ok_def)
  have inx: "i < length new" if "i \<in> {..<n} \<union> G" for i using dfs_ok_bounds(1) [OF l ok that] D(2) by simp
  have idx: "dn_mWireIdx (?ns ! i) = i" if "i \<in> {..<n} \<union> G" for i by (rule dfs_ok_bounds(2) [OF l ok that])
  have "\<forall>k\<in>set [0..<length (dag_mOutputs d)]. \<exists>o'. dag_mOutputs d ! k = Some o' \<and> dn_mWireIdx (?ns ! o') = o'
      \<and> o' < length new \<and> new ! o' < mWireCount cir"
  proof
    fix k assume "k \<in> set [0..<length (dag_mOutputs d)]"
    then have "dag_mOutputs d ! k \<in> set (dag_mOutputs d)" by simp
    then obtain w where "w \<in> {..<n} \<union> G" "dag_mOutputs d ! k = Some w" using outs by blast
    then show "\<exists>o'. dag_mOutputs d ! k = Some o' \<and> dn_mWireIdx (?ns ! o') = o' \<and> o' < length new \<and> new ! o' < mWireCount cir"
      using wires(1) inx idx by blast
  qed
  note O = add_outputs [OF D(1) this]
  define cir' where "cir' = cir\<lparr>mOutputs := mOutputs cir @ map (\<lambda>k. new ! the (dag_mOutputs d ! k)) [0..<length (dag_mOutputs d)],
      mOutputCount := mOutputCount cir + length [0..<length (dag_mOutputs d)]\<rparr>"
  have "toCircuit d fuel (Circuit_default u) = Some (Inr cir')"
    unfolding toCircuit_def Let_def n(1) r(1) by (simp only: option.case bind_r.simps prod.case O(1) cir'_def)
  moreover have "circuit_sem cir' x = map (\<lambda>o'. v x (the o')) (dag_mOutputs d)" for x
  proof -
    have "plain_run (mGates cir) x (new ! the o') = v x (the o')" if "o' \<in> set (dag_mOutputs d)" for o'
      using outs that wires(2) [of "the o'" x] by auto
    then have "map (\<lambda>o'. plain_run (mGates cir) x (new ! the o')) (dag_mOutputs d) = map (\<lambda>o'. v x (the o')) (dag_mOutputs d)" by simp
    moreover have "map (\<lambda>k. new ! the (dag_mOutputs d ! k)) [0..<length (dag_mOutputs d)] = map (\<lambda>o'. new ! the o') (dag_mOutputs d)"
      using map_nth [of "dag_mOutputs d"] by (metis (no_types, lifting) list.map_comp comp_def map_eq_conv)
    ultimately show ?thesis by (simp add: circuit_sem_def cir'_def r(3) comp_def)
  qed
  ultimately show ?thesis using O(2) [folded cir'_def] r(2) D(3,4) by (intro exI [of _ cir']) (simp add: cir'_def)
qed

end
