(* ===== verification/BDX_DagRead.thy ===== *)
theory BDX_DagRead
  imports BDX_DagAdd
begin

text \<open>
  \<open>DagCircuit::readBris\<close> and \<open>writeBris\<close>: the graph of a well-formed file, its links and its values.
\<close>

section \<open>Words\<close>

lemma digits_val_append: "digits_val (ds @ [c]) = 10 * digits_val ds + (of_char c - 48)"
  by (simp add: digits_val_def)

lemma digit_char:
  assumes "k < 10"
  shows "(of_char (char_of (48 + k)) :: nat) = 48 + k" and "is_digit (char_of (48 + k))"
proof -
  have "(48 + k) mod 256 = 48 + k" using assms by simp
  then show "(of_char (char_of (48 + k)) :: nat) = 48 + k" by (simp add: of_char_of)
  then show "is_digit (char_of (48 + k))" using assms by (simp add: is_digit_def)
qed

lemma show_nat_ok: "digits_val (show_nat m) = m \<and> list_all is_digit (show_nat m) \<and> show_nat m \<noteq> []"
proof (induction m rule: show_nat.induct)
  case (1 m)
  show ?case
  proof (cases "m < 10")
    case True
    then show ?thesis using digit_char [OF True] by (subst (1 2 3) show_nat.simps) (simp add: digits_val_def)
  next
    case False
    have "m mod 10 < 10" by simp
    note d = digit_char [OF this]
    have "10 * (m div 10) + m mod 10 = m" by simp
    then show ?thesis using False d 1 [OF False] by (subst (1 2 3) show_nat.simps) (simp add: digits_val_append del: mult_div_mod_eq)
  qed
qed

lemma read_u64_show [simp]: "m < 2 ^ 64 \<Longrightarrow> read_u64 (show_nat m # ws) = Inr (m, ws)"
  using show_nat_ok [of m] by (simp add: read_u64_def)

lemma read_u64s_show [simp]:
  "list_all (\<lambda>m. m < 2 ^ 64) ms \<Longrightarrow> read_u64s (length ms) (map show_nat ms @ ws) = Inr (ms, ws)"
  by (induction ms) simp_all

section \<open>Files\<close>

type_synonym bris_gate = "nat list \<times> nat \<times> string"

definition gate_words :: "bris_gate \<Rightarrow> string list" where
  "gate_words g = (case g of (ins, out, k) \<Rightarrow> [show_nat (length ins), show_nat 1] @ map show_nat ins @ [show_nat out, k])"

definition bris_words :: "nat \<times> nat \<Rightarrow> nat \<Rightarrow> bris_gate list \<Rightarrow> string list" where
  "bris_words ins nout gates =
     map show_nat [length gates, fst ins + snd ins + length gates, fst ins, snd ins, nout] @ concat (map gate_words gates)"

definition gate_out :: "bris_gate \<Rightarrow> nat" where
  "gate_out g = fst (snd g)"

definition bris_type :: "string \<Rightarrow> GateType" where
  "bris_type k = (if k = ''XOR'' then gt_Xor else if k = ''AND'' then gt_And else gt_na)"

definition gate_ok :: "bris_gate \<Rightarrow> bool" where
  "gate_ok g = (case g of (ins, out, k) \<Rightarrow>
     (k = ''XOR'' \<or> k = ''AND'') \<and> length ins = 2 \<or> k = ''INV'' \<and> length ins = 1)"

text \<open>Every input of a gate is an input of the circuit or the output of an earlier gate.\<close>

fun bris_topo :: "nat \<Rightarrow> nat list \<Rightarrow> bris_gate list \<Rightarrow> bool" where
  "bris_topo n outs [] = True"
| "bris_topo n outs ((ins, out, k) # gs) \<longleftrightarrow> list_all (\<lambda>i. i < n \<or> i \<in> set outs) ins \<and> bris_topo n (outs @ [out]) gs"

definition bris_ok :: "nat \<times> nat \<Rightarrow> nat \<Rightarrow> bris_gate list \<Rightarrow> bool" where
  "bris_ok ins nout gates \<longleftrightarrow>
     (let n = fst ins + snd ins; nw = n + length gates
      in 0 < n \<and> nw < 2 ^ 64 \<and> nout \<le> length gates
         \<and> distinct (map gate_out gates) \<and> set (map gate_out gates) = {n..<nw}
         \<and> list_all gate_ok gates \<and> bris_topo n [] gates)"

text \<open>What the file means.\<close>

definition bris_op :: "string \<Rightarrow> bool list \<Rightarrow> bool" where
  "bris_op k bs = (if k = ''XOR'' then bs ! 0 \<noteq> bs ! 1 else if k = ''AND'' then bs ! 0 \<and> bs ! 1 else \<not> bs ! 0)"

definition bris_step :: "bris_gate \<Rightarrow> (nat \<Rightarrow> bool) \<Rightarrow> nat \<Rightarrow> bool" where
  "bris_step g v = (case g of (ins, out, k) \<Rightarrow> v(out := bris_op k (map v ins)))"

definition bris_run :: "bris_gate list \<Rightarrow> (nat \<Rightarrow> bool) \<Rightarrow> nat \<Rightarrow> bool" where
  "bris_run gates x = fold bris_step gates x"

definition bris_sem :: "nat \<times> nat \<Rightarrow> nat \<Rightarrow> bris_gate list \<Rightarrow> (nat \<Rightarrow> bool) \<Rightarrow> bool list" where
  "bris_sem ins nout gates x =
     (let nw = fst ins + snd ins + length gates in map (bris_run gates x) [nw - nout..<nw])"

section \<open>The graph of a file\<close>

definition gate_children :: "bris_gate list \<Rightarrow> nat \<Rightarrow> nat list" where
  "gate_children gs p = concat (map (\<lambda>(ins, out, k). replicate (count_list ins p) out) gs)"

definition find_gate :: "bris_gate list \<Rightarrow> nat \<Rightarrow> bris_gate option" where
  "find_gate gs i = find (\<lambda>g. gate_out g = i) gs"

definition node_of :: "nat \<Rightarrow> bris_gate list \<Rightarrow> nat \<Rightarrow> dag_node" where
  "node_of n gs i =
     (if i < n then InputNode_new i
      else case find_gate gs i of
             None \<Rightarrow> GateNode_new
           | Some (ins, out, k) \<Rightarrow> \<lparr>dn_input = False, dn_mType = bris_type k, dn_mWireIdx = out, dn_mParents = ins, dn_mChildren = []\<rparr>)
     \<lparr>dn_mChildren := gate_children gs i\<rparr>"

definition bris_dag :: "nat \<times> nat \<Rightarrow> nat \<Rightarrow> nat \<Rightarrow> bris_gate list \<Rightarrow> DagCircuit" where
  "bris_dag ins nout ngates gs =
     (let n = fst ins + snd ins; nw = n + ngates
      in \<lparr>dag_mWireCount = nw, dag_mNonInvertGateCount = length (filter (\<lambda>(_, _, k). k \<noteq> ''INV'') gs), dag_mInputCounts = ins,
          dag_mOutputs = map (\<lambda>i. if i \<in> set (map gate_out gs) then Some i else None) [nw - nout..<nw],
          dag_mNodes = map (node_of n gs) [0..<nw]\<rparr>)"

lemma add_children:
  assumes "list_all (\<lambda>p. p < length ns) ps"
  shows "length (fold (add_child g) ps ns) = length ns"
    and "i < length ns \<Longrightarrow> fold (add_child g) ps ns ! i
           = (ns ! i)\<lparr>dn_mChildren := dn_mChildren (ns ! i) @ replicate (count_list ps i) g\<rparr>"
proof -
  show l: "length (fold (add_child g) ps ns) = length ns" for ns
    by (induction ps arbitrary: ns) (simp_all add: add_child_def)
  show "fold (add_child g) ps ns ! i = (ns ! i)\<lparr>dn_mChildren := dn_mChildren (ns ! i) @ replicate (count_list ps i) g\<rparr>"
    if "i < length ns" using assms that
  proof (induction ps arbitrary: ns)
    case (Cons p ps)
    then show ?case by (cases "p = i") (simp_all add: add_child_def)
  qed simp
qed

lemma find_gate_append:
  "gate_out g \<notin> set (map gate_out gs) \<Longrightarrow> find_gate (gs @ [g]) i = (if i = gate_out g then Some g else find_gate gs i)"
  by (induction gs) (auto simp: find_gate_def)

lemma gate_children_append: "gate_children (gs @ [(ins, out, k)]) p = gate_children gs p @ replicate (count_list ins p) out"
  by (simp add: gate_children_def)

lemma node_of_append:
  assumes "out \<notin> set (map gate_out gs)" and "n \<le> out" and "i < N" and "list_all (\<lambda>p. p < N) ins" and "out < N"
  shows "(let ns = link_gate ins out (map (node_of n gs) [0..<N]) in ns[out := (ns ! out)\<lparr>dn_mType := bris_type k\<rparr>]) ! i
     = node_of n (gs @ [(ins, out, k)]) i"
proof -
  let ?ns = "(map (node_of n gs) [0..<N])[out := (map (node_of n gs) [0..<N] ! out)\<lparr>dn_mWireIdx := out, dn_mParents := ins\<rparr>]"
  have c: "fold (add_child out) ins ?ns ! i = (?ns ! i)\<lparr>dn_mChildren := dn_mChildren (?ns ! i) @ replicate (count_list ins i) out\<rparr>"
    if "i < N" for i using add_children(2) [of ?ns ins i out] that assms(4) by simp
  have l: "length (fold (add_child out) ins ?ns) = N" using add_children(1) [of ?ns ins] assms(4) by simp
  have f: "find_gate (gs @ [(ins, out, k)]) i = (if i = out then Some (ins, out, k) else find_gate gs i)"
    using find_gate_append [of "(ins, out, k)" gs i] assms(1) by (simp add: gate_out_def)
  have no: "find_gate gs out = None" using assms(1) by (auto simp: find_gate_def find_None_iff)
  show ?thesis
  proof (cases "i = out")
    case True
    then show ?thesis
      using assms(2,5) c [OF assms(5)] l f no
      by (simp add: link_gate_def Let_def node_of_def gate_children_append GateNode_new_def)
  next
    case False
    then show ?thesis
      using assms(3) c [OF assms(3)] l f by (simp add: link_gate_def Let_def node_of_def gate_children_append split: option.splits)
  qed
qed

lemma bris_dag_simps [simp]:
  "dag_mWireCount (bris_dag ins nout ng gs) = fst ins + snd ins + ng" "dag_mInputCounts (bris_dag ins nout ng gs) = ins"
  "dag_mNodes (bris_dag ins nout ng gs) = map (node_of (fst ins + snd ins) gs) [0..<fst ins + snd ins + ng]"
  "dag_mNonInvertGateCount (bris_dag ins nout ng gs) = length (filter (\<lambda>(_, _, k). k \<noteq> ''INV'') gs)"
  "dag_mOutputs (bris_dag ins nout ng gs)
     = map (\<lambda>i. if i \<in> set (map gate_out gs) then Some i else None) [fst ins + snd ins + ng - nout..<fst ins + snd ins + ng]"
  by (simp_all add: bris_dag_def Let_def)

lemma outputs_update:
  assumes "out < N"
  shows "(if s \<le> out then (map (\<lambda>i. if i \<in> A then Some i else None) [s..<N])[out - s := Some out]
          else map (\<lambda>i. if i \<in> A then Some i else None) [s..<N])
       = map (\<lambda>i. if i \<in> insert out A then Some i else None) [s..<N]"
  by (cases "s \<le> out") (rule nth_equalityI; use assms in \<open>auto simp: nth_list_update\<close>)+

lemma add_bris_step:
  assumes g: "gate_ok (ins, out, k)" and new: "out \<notin> set (map gate_out gs)"
    and b: "fst io + snd io \<le> out" "out < fst io + snd io + ng" "list_all (\<lambda>p. p < fst io + snd io + ng) ins"
    and n: "fst io + snd io + ng < 2 ^ 64" "nout \<le> ng"
  shows "add_bris_gate (fst io + snd io + ng - nout) (ins, out, k) (bris_dag io nout ng gs) = Inr (bris_dag io nout ng (gs @ [(ins, out, k)]))"
proof -
  let ?n = "fst io + snd io" and ?N = "fst io + snd io + ng" and ?d = "bris_dag io nout ng gs"
  have k: "k = ''XOR'' \<or> k = ''AND'' \<or> k = ''INV''" using g by (auto simp: gate_ok_def)
  have ns: "(let ns = link_gate ins out (dag_mNodes ?d) in ns[out := (ns ! out)\<lparr>dn_mType := bris_type k\<rparr>])
      = dag_mNodes (bris_dag io nout ng (gs @ [(ins, out, k)]))"
  proof (rule nth_equalityI)
    have l: "length (link_gate ins out (map (node_of ?n gs) [0..<?N])) = ?N"
      unfolding link_gate_def by (subst add_children(1)) (use b(3) in simp_all)
    then show "length (let ns = link_gate ins out (dag_mNodes ?d) in ns[out := (ns ! out)\<lparr>dn_mType := bris_type k\<rparr>])
        = length (dag_mNodes (bris_dag io nout ng (gs @ [(ins, out, k)])))" by (simp add: Let_def)
    fix i assume "i < length (let ns = link_gate ins out (dag_mNodes ?d) in ns[out := (ns ! out)\<lparr>dn_mType := bris_type k\<rparr>])"
    then have "i < ?N" using l by (simp add: Let_def)
    from node_of_append [OF new b(1) this b(3,2), of k]
    show "(let ns = link_gate ins out (dag_mNodes ?d) in ns[out := (ns ! out)\<lparr>dn_mType := bris_type k\<rparr>]) ! i
        = dag_mNodes (bris_dag io nout ng (gs @ [(ins, out, k)])) ! i" using \<open>i < ?N\<close> by simp
  qed
  have ok: "dag_InputWireCount ?d \<le> out \<and> out < length (dag_mNodes ?d)
      \<and> list_all (\<lambda>i. i < dag_mWireCount ?d \<and> i < length (dag_mNodes ?d)) ins
      \<and> (?N - nout \<le> out \<longrightarrow> out - (?N - nout) < length (dag_mOutputs ?d))"
    using b n by (auto simp: dag_InputWireCount_def list_all_iff)
  have out: "dag_mOutputs (bris_dag io nout ng (gs @ [(ins, out, k)]))
      = (if ?N - nout \<le> out then (dag_mOutputs ?d)[out - (?N - nout) := Some out] else dag_mOutputs ?d)"
  proof -
    have "set (map gate_out (gs @ [(ins, out, k)])) = insert out (set (map gate_out gs))" by (simp add: gate_out_def)
    then show ?thesis using outputs_update [OF b(2), of "?N - nout" "set (map gate_out gs)"] unfolding bris_dag_simps by presburger
  qed
  have e: "bris_dag io nout ng (gs @ [(ins, out, k)])
      = \<lparr>dag_mWireCount = dag_mWireCount ?d,
          dag_mNonInvertGateCount = dag_mNonInvertGateCount ?d + (if k = ''INV'' then 0 else 1),
          dag_mInputCounts = dag_mInputCounts ?d,
          dag_mOutputs = (if ?N - nout \<le> out then (dag_mOutputs ?d)[out - (?N - nout) := Some out] else dag_mOutputs ?d),
          dag_mNodes = (let ns = link_gate ins out (dag_mNodes ?d) in ns[out := (ns ! out)\<lparr>dn_mType := bris_type k\<rparr>])\<rparr>"
    unfolding ns using out by (simp add: bris_dag_def Let_def)
  show ?thesis
    unfolding e add_bris_gate_def Let_def prod.case using ok k
    by (auto simp: bris_type_def simp del: bris_dag_simps)
qed

lemma read_gate_words:
  assumes "gate_ok (ins, out, k)" and "list_all (\<lambda>p. p < 2 ^ 64) ins" and "out < 2 ^ 64"
  shows "read_gate (gate_words (ins, out, k) @ ws) = Inr (ins, out, k, ws)"
proof -
  have "length ins \<le> 2" using assms(1) by (auto simp: gate_ok_def)
  then show ?thesis
    using assms(2,3) by (simp add: read_gate_def gate_words_def read_word_def)
qed

lemma read_gates:
  assumes n: "fst io + snd io + ng < 2 ^ 64" "nout \<le> ng" and "length ks = length hs"
    and "list_all (\<lambda>g. gate_ok g \<and> fst io + snd io \<le> gate_out g \<and> gate_out g < fst io + snd io + ng
                 \<and> list_all (\<lambda>p. p < fst io + snd io + ng) (fst g)) hs"
    and "distinct (map gate_out (gs @ hs))"
  shows "fold_r (read_bris_gate (fst io + snd io + ng - nout)) ks (bris_dag io nout ng gs, concat (map gate_words hs) @ ws)
     = Inr (bris_dag io nout ng (gs @ hs), ws)"
  using assms(3-)
proof (induction hs arbitrary: gs ks)
  case (Cons g hs)
  obtain ins out k where g: "g = (ins, out, k)" by (rule prod_cases3)
  obtain k0 ks' where ks: "ks = k0 # ks'" "length ks' = length hs" using Cons.prems(1) by (cases ks) auto
  have h: "gate_ok (ins, out, k)" "fst io + snd io \<le> out" "out < fst io + snd io + ng" "list_all (\<lambda>p. p < fst io + snd io + ng) ins"
    using Cons.prems(2) by (simp_all add: g gate_out_def)
  have small: "list_all (\<lambda>p. p < 2 ^ 64) ins" "out < 2 ^ 64" using h(3,4) n(1) by (auto simp: list_all_iff)
  have new: "out \<notin> set (map gate_out gs)" using Cons.prems(3) by (auto simp: g gate_out_def)
  have "read_bris_gate (fst io + snd io + ng - nout) k0 (bris_dag io nout ng gs, concat (map gate_words (g # hs)) @ ws)
      = Inr (bris_dag io nout ng (gs @ [g]), concat (map gate_words hs) @ ws)"
    unfolding read_bris_gate_def using add_bris_step [OF h(1) new h(2-4) n]
    by (simp add: g read_gate_words [OF h(1) small])
  moreover have "fold_r (read_bris_gate (fst io + snd io + ng - nout)) ks' (bris_dag io nout ng (gs @ [g]), concat (map gate_words hs) @ ws)
      = Inr (bris_dag io nout ng ((gs @ [g]) @ hs), ws)"
    by (rule Cons.IH [OF ks(2)]) (use Cons.prems in simp_all)
  ultimately show ?case by (simp only: ks(1) fold_r.simps bind_r.simps append_assoc append_Cons append_Nil)
qed simp

lemma bris_topo_below:
  "bris_topo n outs gs \<Longrightarrow> list_all (\<lambda>o'. o' < N) outs \<Longrightarrow> n \<le> N \<Longrightarrow> list_all (\<lambda>g. gate_out g < N) gs
   \<Longrightarrow> list_all (\<lambda>g. list_all (\<lambda>p. p < N) (fst g)) gs"
proof (induction n outs gs rule: bris_topo.induct)
  case (2 n outs ins out k gs)
  then show ?case by (fastforce simp: list_all_iff gate_out_def)
qed simp

lemma bris_dag_start:
  "bris_dag io nout ng [] = \<lparr>dag_mWireCount = fst io + snd io + ng, dag_mNonInvertGateCount = 0, dag_mInputCounts = io,
     dag_mOutputs = replicate (min nout (fst io + snd io + ng)) None,
     dag_mNodes = map InputNode_new [0..<fst io + snd io] @ replicate ng GateNode_new\<rparr>"
proof -
  have n: "node_of n [] i = (if i < n then InputNode_new i else GateNode_new)" for n i
    by (simp add: node_of_def gate_children_def find_gate_def InputNode_new_def GateNode_new_def)
  have "map (node_of (fst io + snd io) []) [0..<fst io + snd io + ng] = map InputNode_new [0..<fst io + snd io] @ replicate ng GateNode_new"
    by (rule nth_equalityI) (auto simp: n nth_append)
  moreover have "map (\<lambda>i. None :: nat option) [fst io + snd io + ng - nout..<fst io + snd io + ng] = replicate (min nout (fst io + snd io + ng)) None"
    by (rule nth_equalityI) (auto simp: min_def)
  ultimately show ?thesis by (simp add: bris_dag_def Let_def)
qed

lemma wrap_sub: "k \<le> m \<Longrightarrow> m < M \<Longrightarrow> (m + M - k) mod M = m - (k :: nat)"
proof -
  assume "k \<le> m" "m < M"
  then have "m + M - k = (m - k) + M" "m - k < M" by linarith+
  then show "(m + M - k) mod M = m - k" by (metis mod_add_self2 mod_less)
qed

lemma readBris_ok:
  assumes ok: "bris_ok io nout gates"
  shows "Dag_readBris False (bris_words io nout gates) = Inr (bris_dag io nout (length gates) gates)"
proof -
  let ?n = "fst io + snd io" and ?N = "fst io + snd io + length gates"
  have b: "?N < 2 ^ 64" "nout \<le> length gates" "distinct (map gate_out gates)" "set (map gate_out gates) = {?n..<?N}"
    "list_all gate_ok gates" "bris_topo ?n [] gates" using ok by (simp_all add: bris_ok_def Let_def)
  have o: "list_all (\<lambda>g. ?n \<le> gate_out g \<and> gate_out g < ?N) gates"
    unfolding list_all_iff by (metis atLeastLessThan_iff b(4) image_eqI list.set_map)
  have p: "list_all (\<lambda>g. list_all (\<lambda>p. p < ?N) (fst g)) gates"
    by (rule bris_topo_below [OF b(6)]) (use o in \<open>simp_all add: list_all_iff\<close>)
  have "list_all (\<lambda>g. gate_ok g \<and> ?n \<le> gate_out g \<and> gate_out g < ?N \<and> list_all (\<lambda>p. p < ?N) (fst g)) gates"
    using b(5) o p by (auto simp: list_all_iff)
  then have r: "fold_r (read_bris_gate (?N - nout)) [0..<length gates] (bris_dag io nout (length gates) [], concat (map gate_words gates) @ [])
     = Inr (bris_dag io nout (length gates) ([] @ gates), [])"
    by (intro read_gates [OF b(1,2)]) (use b(3) in simp_all)
  have hd: "read_u64s 5 (bris_words io nout gates) = Inr ([length gates, ?N, fst io, snd io, nout], concat (map gate_words gates))"
  proof -
    have "list_all (\<lambda>m. m < 2 ^ 64) [length gates, ?N, fst io, snd io, nout]" using b(1,2) by simp
    moreover have "5 = length [length gates, ?N, fst io, snd io, nout]" by simp
    ultimately show ?thesis unfolding bris_words_def by (metis read_u64s_show)
  qed
  have s: "(?N + 2 ^ 64 - nout) mod 2 ^ 64 = ?N - nout"
    by (rule wrap_sub) (use b(1,2) in linarith)+
  then have s: "(?N + 18446744073709551616 - nout) mod 18446744073709551616 = ?N - nout" by simp
  have "min nout ?N = nout" using b(2) by simp
  then show ?thesis
    using r b(1) unfolding Dag_readBris_def hd bris_dag_start by (simp add: s Let_def)
qed

section \<open>Links and values\<close>

lemma find_gate_mem:
  assumes "distinct (map gate_out gates)" and "g \<in> set gates"
  shows "find_gate gates (gate_out g) = Some g"
  using assms
proof (induction gates)
  case (Cons h gates)
  then show ?case by (auto simp: find_gate_def image_iff)
qed simp

lemma bris_ok_gate:
  assumes "bris_ok io nout gates" and "i \<in> {fst io + snd io..<fst io + snd io + length gates}"
  obtains ins k where "(ins, i, k) \<in> set gates" and "gate_ok (ins, i, k)" and "find_gate gates i = Some (ins, i, k)"
proof -
  have "i \<in> set (map gate_out gates)" using assms by (simp add: bris_ok_def Let_def)
  then obtain g where g: "g \<in> set gates" "gate_out g = i" by auto
  obtain ins out k where e: "g = (ins, out, k)" by (rule prod_cases3)
  have "distinct (map gate_out gates)" "list_all gate_ok gates" using assms(1) by (simp_all add: bris_ok_def Let_def)
  then show thesis using that [of ins k] g e find_gate_mem [of gates g] by (auto simp: gate_out_def list_all_iff)
qed

lemma node_of_gate:
  assumes "bris_ok io nout gates" and "(ins, out, k) \<in> set gates"
  shows "node_of (fst io + snd io) gates out
       = \<lparr>dn_input = False, dn_mType = bris_type k, dn_mWireIdx = out, dn_mParents = ins, dn_mChildren = gate_children gates out\<rparr>"
    and "out \<in> {fst io + snd io..<fst io + snd io + length gates}"
proof -
  have b: "distinct (map gate_out gates)" "set (map gate_out gates) = {fst io + snd io..<fst io + snd io + length gates}"
    using assms(1) by (simp_all add: bris_ok_def Let_def)
  have "gate_out (ins, out, k) \<in> set (map gate_out gates)" using assms(2) by (simp only: list.set_map imageI)
  then show o: "out \<in> {fst io + snd io..<fst io + snd io + length gates}" unfolding b(2) by (simp add: gate_out_def)
  show "node_of (fst io + snd io) gates out
       = \<lparr>dn_input = False, dn_mType = bris_type k, dn_mWireIdx = out, dn_mParents = ins, dn_mChildren = gate_children gates out\<rparr>"
    using find_gate_mem [OF b(1) assms(2)] o by (simp add: node_of_def gate_out_def)
qed

lemma set_gate_children: "set (gate_children gates p) = {out. \<exists>ins k. (ins, out, k) \<in> set gates \<and> p \<in> set ins}"
  by (force simp: gate_children_def count_list_0_iff)

lemma bris_topo_nth:
  "bris_topo n outs gs \<Longrightarrow> j < length gs \<Longrightarrow> p \<in> set (fst (gs ! j)) \<Longrightarrow> p < n \<or> p \<in> set outs \<or> p \<in> set (map gate_out (take j gs))"
proof (induction n outs gs arbitrary: j rule: bris_topo.induct)
  case (2 n outs ins out k gs)
  show ?case
  proof (cases j)
    case 0 then show ?thesis using "2.prems" by (auto simp: list_all_iff)
  next
    case (Suc j')
    then show ?thesis using "2.IH" [of j'] "2.prems" by (auto simp: gate_out_def)
  qed
qed simp

definition bris_rank :: "bris_gate list \<Rightarrow> nat \<Rightarrow> nat" where
  "bris_rank gates i = (if i \<in> set (map gate_out gates) then Suc (find_index i (map gate_out gates)) else 0)"

lemma find_index_nth: "distinct xs \<Longrightarrow> j < length xs \<Longrightarrow> find_index (xs ! j) xs = j"
proof (induction xs arbitrary: j)
  case (Cons x xs)
  then show ?case by (cases j) auto
qed simp

lemma bris_rank_less:
  assumes "bris_ok io nout gates" and "(ins, out, k) \<in> set gates" and "p \<in> set ins"
  shows "bris_rank gates p < bris_rank gates out"
proof -
  have b: "distinct (map gate_out gates)" "bris_topo (fst io + snd io) [] gates"
    "set (map gate_out gates) = {fst io + snd io..<fst io + snd io + length gates}"
    using assms(1) by (simp_all add: bris_ok_def Let_def)
  obtain j where j: "j < length gates" "gates ! j = (ins, out, k)" using assms(2) by (auto simp: in_set_conv_nth)
  have "map gate_out gates ! j = out" using j by (simp add: gate_out_def)
  then have out: "bris_rank gates out = Suc j"
  proof -
    have l: "j < length (map gate_out gates)" using j(1) by simp
    then have "out \<in> set (map gate_out gates)" using \<open>map gate_out gates ! j = out\<close> nth_mem [OF l] by simp
    then show ?thesis using find_index_nth [OF b(1) l] \<open>map gate_out gates ! j = out\<close> by (simp add: bris_rank_def)
  qed
  have "p < fst io + snd io \<or> p \<in> set (map gate_out (take j gates))"
    using bris_topo_nth [OF b(2) j(1)] assms(3) j(2) by simp
  then show ?thesis
  proof
    assume "p < fst io + snd io"
    then have "p \<notin> set (map gate_out gates)" unfolding b(3) by simp
    then show ?thesis using out by (simp add: bris_rank_def)
  next
    assume "p \<in> set (map gate_out (take j gates))"
    then obtain i where i: "i < j" "map gate_out gates ! i = p" using j(1) by (auto simp: in_set_conv_nth)
    then have "find_index p (map gate_out gates) = i" using find_index_nth [OF b(1), of i] j(1) by simp
    then show ?thesis using out i(1) by (simp add: bris_rank_def)
  qed
qed

lemma bris_parents_below:
  assumes "bris_ok io nout gates" and "(ins, out, k) \<in> set gates" and "p \<in> set ins"
  shows "p < fst io + snd io + length gates"
proof -
  have b: "bris_topo (fst io + snd io) [] gates" "set (map gate_out gates) = {fst io + snd io..<fst io + snd io + length gates}"
    using assms(1) by (simp_all add: bris_ok_def Let_def)
  obtain j where j: "j < length gates" "gates ! j = (ins, out, k)" using assms(2) by (auto simp: in_set_conv_nth)
  have "p < fst io + snd io \<or> p \<in> set (map gate_out (take j gates))" using bris_topo_nth [OF b(1) j(1)] assms(3) j(2) by simp
  moreover have "set (map gate_out (take j gates)) \<subseteq> set (map gate_out gates)"
    using set_take_subset [of j "map gate_out gates"] by (simp add: take_map)
  ultimately show ?thesis unfolding b(2) by auto
qed

lemma bris_linked:
  assumes ok: "bris_ok io nout gates"
  shows "linked (dag_mNodes (bris_dag io nout (length gates) gates)) (fst io + snd io)
           {fst io + snd io..<fst io + snd io + length gates} (bris_rank gates)"
proof -
  let ?n = "fst io + snd io" and ?N = "fst io + snd io + length gates"
  let ?ns = "dag_mNodes (bris_dag io nout (length gates) gates)"
  have ns: "?ns ! i = node_of ?n gates i" if "i < ?N" for i using that by (simp del: upt_Suc)
  have par: "dn_mParents (?ns ! g) = ins" if "(ins, g, k) \<in> set gates" for ins g k
    using node_of_gate [OF ok that] ns by simp
  have ch: "set (dn_mChildren (?ns ! i)) = {g \<in> {?n..<?N}. i \<in> set (dn_mParents (?ns ! g))}" if "i < ?N" for i
  proof -
    have c: "dn_mChildren (?ns ! i) = gate_children gates i" using ns [OF that] by (simp add: node_of_def)
    have iff: "g \<in> {?n..<?N} \<and> i \<in> set (dn_mParents (?ns ! g)) \<longleftrightarrow> (\<exists>ins k. (ins, g, k) \<in> set gates \<and> i \<in> set ins)" for g
    proof
      assume a: "g \<in> {?n..<?N} \<and> i \<in> set (dn_mParents (?ns ! g))"
      obtain ins k where "(ins, g, k) \<in> set gates" using bris_ok_gate [OF ok conjunct1 [OF a]] by blast
      then show "\<exists>ins k. (ins, g, k) \<in> set gates \<and> i \<in> set ins" using par a by blast
    next
      assume "\<exists>ins k. (ins, g, k) \<in> set gates \<and> i \<in> set ins"
      then obtain ins k where g: "(ins, g, k) \<in> set gates" "i \<in> set ins" by blast
      show "g \<in> {?n..<?N} \<and> i \<in> set (dn_mParents (?ns ! g))" unfolding par [OF g(1)] using node_of_gate(2) [OF ok g(1)] g(2) ..
    qed
    show ?thesis unfolding c set_gate_children iff by (rule refl)
  qed
  have idx: "dn_mWireIdx (?ns ! i) = i" if i: "i < ?N" for i
  proof (cases "i < ?n")
    case True then show ?thesis using ns [OF i] by (simp add: node_of_def InputNode_new_def)
  next
    case False
    then have "i \<in> {?n..<?N}" using i by simp
    then obtain ins k where "(ins, i, k) \<in> set gates" using bris_ok_gate [OF ok] by blast
    then show ?thesis using node_of_gate(1) [OF ok] ns [OF i] by simp
  qed
  have gate: "\<not> dn_input (?ns ! g) \<and> addable (dn_mType (?ns ! g)) \<and> (length (dn_mParents (?ns ! g)) = 1 \<or> length (dn_mParents (?ns ! g)) = 2)
      \<and> set (dn_mParents (?ns ! g)) \<subseteq> {..<?n} \<union> {?n..<?N} \<and> (\<forall>p\<in>set (dn_mParents (?ns ! g)). bris_rank gates p < bris_rank gates g)"
    if i: "g \<in> {?n..<?N}" for g
  proof -
    obtain ins k where g: "(ins, g, k) \<in> set gates" "gate_ok (ins, g, k)" using bris_ok_gate [OF ok i] by blast
    have nd: "?ns ! g = \<lparr>dn_input = False, dn_mType = bris_type k, dn_mWireIdx = g, dn_mParents = ins, dn_mChildren = gate_children gates g\<rparr>"
      using node_of_gate(1) [OF ok g(1)] ns i by simp
    have "addable (bris_type k)" by (simp add: addable_def bris_type_def)
    moreover have "set ins \<subseteq> {..<?n} \<union> {?n..<?N}" using bris_parents_below [OF ok g(1)] by fastforce
    moreover have "length ins = 1 \<or> length ins = 2" using g(2) by (auto simp: gate_ok_def)
    ultimately show ?thesis using bris_rank_less [OF ok g(1)] unfolding nd by simp
  qed
  have n0: "0 < ?n" and len: "length ?ns = ?N" using ok by (simp_all add: bris_ok_def Let_def)
  have all: "i < ?N" if "i \<in> {..<?n} \<union> {?n..<?N}" for i using that by auto
  have links: "\<forall>i\<in>{..<?n} \<union> {?n..<?N}. dn_mWireIdx (?ns ! i) = i \<and> set (dn_mChildren (?ns ! i)) = {g \<in> {?n..<?N}. i \<in> set (dn_mParents (?ns ! g))}"
    by (intro ballI conjI) (rule idx, erule all, rule ch, erule all)
  show ?thesis unfolding linked_def len by (intro conjI n0 subset_refl links ballI [OF gate]) simp
qed

lemma bris_run_keeps: "i \<notin> set (map gate_out hs) \<Longrightarrow> bris_run (gs @ hs) x i = bris_run gs x i"
proof (induction hs arbitrary: gs)
  case (Cons h hs)
  have "bris_run (gs @ h # hs) x i = bris_run ((gs @ [h]) @ hs) x i" by simp
  also have "\<dots> = bris_run (gs @ [h]) x i" by (rule Cons.IH) (use Cons.prems in simp)
  also have "\<dots> = bris_run gs x i" using Cons.prems by (cases h) (simp add: bris_run_def bris_step_def gate_out_def)
  finally show ?case .
qed simp

lemma bris_run_gate:
  assumes ok: "bris_ok io nout gates" and g: "(ins, out, k) \<in> set gates"
  shows "bris_run gates x out = bris_op k (map (bris_run gates x) ins)"
proof -
  have b: "distinct (map gate_out gates)" "bris_topo (fst io + snd io) [] gates"
    "set (map gate_out gates) = {fst io + snd io..<fst io + snd io + length gates}"
    using ok by (simp_all add: bris_ok_def Let_def)
  obtain xs ys where s: "gates = xs @ (ins, out, k) # ys" using g by (auto dest: split_list)
  have o: "out \<notin> set (map gate_out ys)" using b(1) by (simp add: s gate_out_def)
  have p: "bris_run gates x p = bris_run xs x p" if "p \<in> set ins" for p
  proof -
    have "p < fst io + snd io \<or> p \<in> set (map gate_out xs)"
      using bris_topo_nth [OF b(2), of "length xs" p] that by (simp add: s)
    moreover have "p \<notin> set (map gate_out gates)" if "p < fst io + snd io" unfolding b(3) using that by simp
    ultimately have "p \<notin> set (map gate_out ((ins, out, k) # ys))"
      using b(1) unfolding s map_append distinct_append set_append by blast
    then show ?thesis unfolding s by (rule bris_run_keeps)
  qed
  have "bris_run gates x out = bris_run (xs @ [(ins, out, k)]) x out"
    using bris_run_keeps [OF o, of "xs @ [(ins, out, k)]"] by (simp add: s)
  also have "\<dots> = bris_op k (map (bris_run xs x) ins)" by (simp add: bris_run_def bris_step_def)
  also have "map (bris_run xs x) ins = map (bris_run gates x) ins" using p by simp
  finally show ?thesis .
qed

lemma gt_eval_and [simp]: "gt_eval gt_And x y = (x \<and> y)" and gt_eval_na [simp]: "gt_eval gt_na x y = (\<not> x)"
  by (cases x; cases y; simp add: gt_eval_def row_of_simps bit_nat_def)+

lemma bris_values:
  assumes ok: "bris_ok io nout gates"
  shows "dag_values (dag_mNodes (bris_dag io nout (length gates) gates)) (fst io + snd io)
           {fst io + snd io..<fst io + snd io + length gates} x (bris_run gates x)"
proof -
  let ?n = "fst io + snd io" and ?N = "fst io + snd io + length gates"
  have "bris_run gates x i = x i" if "i < ?n" for i
  proof -
    have "i \<notin> set (map gate_out gates)" using ok that by (simp add: bris_ok_def Let_def)
    then show ?thesis using bris_run_keeps [of i gates "[]" x] by (simp add: bris_run_def)
  qed
  moreover have "bris_run gates x g = node_value (dag_mNodes (bris_dag io nout (length gates) gates) ! g) x (bris_run gates x)"
    if i: "g \<in> {?n..<?N}" for g
  proof -
    obtain ins k where g: "(ins, g, k) \<in> set gates" "gate_ok (ins, g, k)" using bris_ok_gate [OF ok i] by blast
    have "dag_mNodes (bris_dag io nout (length gates) gates) ! g
        = \<lparr>dn_input = False, dn_mType = bris_type k, dn_mWireIdx = g, dn_mParents = ins, dn_mChildren = gate_children gates g\<rparr>"
      using node_of_gate(1) [OF ok g(1)] i by simp
    moreover have "bris_op k (map v ins) = gt_eval (bris_type k) (v (ins ! 0)) (if length ins = 1 then x 0 else v (ins ! 1))" for v
    proof (cases "k = ''INV''")
      case True then show ?thesis using g(2) by (simp add: gate_ok_def bris_op_def bris_type_def)
    next
      case False
      then have "length ins = 2" "k = ''XOR'' \<or> k = ''AND''" using g(2) by (auto simp: gate_ok_def)
      then show ?thesis by (auto simp: bris_op_def bris_type_def)
    qed
    ultimately show ?thesis unfolding bris_run_gate [OF ok g(1), of x] by (simp add: node_value_def)
  qed
  ultimately show ?thesis by (simp add: dag_values_def del: bris_dag_simps)
qed

end
