(* ===== verification/BDX_DagReduce.thy ===== *)
theory BDX_DagReduce
  imports BDX_DagRead
begin

text \<open>
  \<open>DagCircuit::removeInvertGates\<close>: the inverters of a graph are absorbed into the truth tables of their
  neighbours. Under the conditions of \<open>reducible\<close> the values of the outputs stay the same.
\<close>

section \<open>Truth tables\<close>

lemma gt_table: "t = gt_of (of_bool (gt_eval t False False) + 2 * of_bool (gt_eval t True False)
    + 4 * of_bool (gt_eval t False True) + 8 * of_bool (gt_eval t True True))"
  by (cases t) (simp_all add: gt_eval_def row_of_simps bit_nat_def gt_of_def)

lemma gt_eval_inj: "(\<And>x y. gt_eval t x y = gt_eval t' x y) \<Longrightarrow> t = t'"
  using gt_table [of t] gt_table [of t'] by presburger

lemma invert_tables:
  "invert 0 t = Inr (projr (invert 0 t)) \<and> gt_eval (projr (invert 0 t)) x y = gt_eval t (\<not> x) y"
  "invert 1 t = Inr (projr (invert 1 t)) \<and> gt_eval (projr (invert 1 t)) x y = gt_eval t x (\<not> y)"
  by (cases t; cases x; cases y; simp add: invert_def gt_of_def gt_eval_def row_of_simps bit_nat_def)+

lemma invert_ok:
  "\<exists>t'. invert 0 t = Inr t' \<and> (\<forall>x y. gt_eval t' x y = gt_eval t (\<not> x) y)"
  "\<exists>t'. invert 1 t = Inr t' \<and> (\<forall>x y. gt_eval t' x y = gt_eval t x (\<not> y))"
  using invert_tables [of t] by blast+

lemma invert_out_ok: "gt_eval (invert_out t) x y = (\<not> gt_eval t x y)"
  by (cases t; cases x; cases y) (simp_all add: invert_out_def gt_of_def gt_eval_def row_of_simps bit_nat_def)

lemma flipped_gates:
  assumes "\<forall>x y. gt_eval t x y = (gt_eval t0 (x \<noteq> a) (y \<noteq> b) \<noteq> c)" and "t0 = gt_Xor \<or> t0 = gt_And"
  shows "is_xor t \<or> and_like t" and "addable t"
proof -
  have "t = gt_of (of_bool (gt_eval t False False) + 2 * of_bool (gt_eval t True False)
    + 4 * of_bool (gt_eval t False True) + 8 * of_bool (gt_eval t True True))" by (rule gt_table)
  also have "\<dots> \<in> {gt_Xor, gt_Nxor, gt_Nor, gt_nb_And, gt_na_And, gt_Nand, gt_And, gt_nb_Or, gt_na_Or, gt_Or}"
    using assms by (cases a; cases b; cases c) (auto simp: gt_of_def)
  finally show "is_xor t \<or> and_like t" "addable t" by (auto simp: is_xor_def and_like_def addable_def)
qed

section \<open>Steps\<close>

lemma find_index_less: "find_index x xs < length xs \<longleftrightarrow> x \<in> set xs"
  by (induction xs) auto

lemma nth_find_index: "x \<in> set xs \<Longrightarrow> xs ! find_index x xs = x"
  by (induction xs) auto

lemma count_list_update:
  "i < length xs \<Longrightarrow> count_list (xs[i := y]) z + (if xs ! i = z then 1 else 0) = count_list xs z + (if y = z then 1 else 0)"
proof (induction xs arbitrary: i)
  case (Cons x xs)
  show ?case
  proof (cases i)
    case 0 then show ?thesis by simp
  next
    case (Suc j)
    then show ?thesis using Cons.IH [of j] Cons.prems by (auto split: if_splits)
  qed
qed simp

lemma count_list_butlast: "xs \<noteq> [] \<Longrightarrow> count_list (butlast xs) z + (if last xs = z then 1 else 0) = count_list xs z"
  by (induction xs) auto

lemma swap_remove_ok:
  assumes "x \<in> set xs"
  shows "\<exists>ys. swap_remove x xs = Inr ys \<and> (\<forall>z. count_list ys z = count_list xs z - (if z = x then 1 else 0))"
proof -
  let ?i = "find_index x xs" and ?ys = "butlast (xs[find_index x xs := last xs])"
  have i: "?i < length xs" "xs ! ?i = x" using assms find_index_less [of x xs] nth_find_index by auto
  have l: "last (xs[?i := last xs]) = last xs"
  proof -
    have "xs \<noteq> []" using i(1) by auto
    then show ?thesis by (cases "?i = length xs - 1") (simp_all add: last_list_update last_conv_nth)
  qed
  have ne: "xs[?i := last xs] \<noteq> []" using i(1) by auto
  have "count_list ?ys z + (if last xs = z then 1 else 0) + (if x = z then 1 else 0) = count_list xs z + (if last xs = z then 1 else 0)" for z
    using count_list_butlast [of "xs[?i := last xs]" z] count_list_update [OF i(1), of "last xs" z] i l ne by (auto split: if_splits)
  then have sum: "count_list ?ys z + (if x = z then 1 else 0) = count_list xs z" for z
    by (metis (no_types, lifting) add.commute add.left_commute add_right_cancel)
  have "count_list ?ys z = count_list xs z - (if z = x then 1 else 0)" for z
    using sum [of z] by (cases "z = x") simp_all
  then show ?thesis using i(1) by (simp add: swap_remove_def Let_def)
qed

lemma remove_child_ok:
  assumes "c \<in> set (dn_mChildren (ns ! p))"
  shows "\<exists>cs. remove_child p c ns = Inr (ns[p := (ns ! p)\<lparr>dn_mChildren := cs\<rparr>])
     \<and> (\<forall>z. count_list cs z = count_list (dn_mChildren (ns ! p)) z - (if z = c then 1 else 0))"
  using swap_remove_ok [OF assms] by (auto simp: remove_child_def)

text \<open>One child of an inverted gate, then all of them.\<close>

lemma invertInput_ok:
  assumes "\<not> dn_input (ns ! c)" and l: "length (dn_mParents (ns ! c)) = 1 \<or> length (dn_mParents (ns ! c)) = 2"
    and k: "count_list (dn_mParents (ns ! c)) p = 1"
  shows "\<exists>t. invertInput p c ns = Inr (ns[c := (ns ! c)\<lparr>dn_mType := t\<rparr>])
     \<and> (\<forall>x y. gt_eval t x y = gt_eval (dn_mType (ns ! c)) (x \<noteq> (dn_mParents (ns ! c) ! 0 = p))
                (y \<noteq> (length (dn_mParents (ns ! c)) = 2 \<and> dn_mParents (ns ! c) ! 1 = p)))"
proof -
  let ?t = "dn_mType (ns ! c)"
  obtain t0 where t0: "invert 0 ?t = Inr t0" "\<forall>x y. gt_eval t0 x y = gt_eval ?t (\<not> x) y" using invert_ok(1) [of ?t] by blast
  obtain t1 where t1: "invert 1 ?t = Inr t1" "\<forall>x y. gt_eval t1 x y = gt_eval ?t x (\<not> y)" using invert_ok(2) [of ?t] by blast
  show ?thesis
  proof (cases "length (dn_mParents (ns ! c)) = 1")
    case True
    then obtain a where a: "dn_mParents (ns ! c) = [a]" by (auto simp: length_Suc_conv)
    then have "a = p" using k by (auto split: if_splits)
    then show ?thesis using assms(1) a t0 by (intro exI [of _ t0]) (simp add: invertInput_def Let_def invertInput_step_def)
  next
    case False
    then obtain a b where ab: "dn_mParents (ns ! c) = [a, b]" using l by (auto simp: length_Suc_conv numeral_2_eq_2)
    have u: "[0..<2] = [0, Suc 0]" by (simp add: numeral_2_eq_2)
    consider "a = p" "b \<noteq> p" | "a \<noteq> p" "b = p" using k ab by (auto split: if_splits)
    then show ?thesis
    proof cases
      case 1 then show ?thesis using assms(1) ab t0 by (intro exI [of _ t0]) (simp add: invertInput_def Let_def invertInput_step_def u)
    next
      case 2 then show ?thesis using assms(1) ab t1 by (intro exI [of _ t1]) (simp add: invertInput_def Let_def invertInput_step_def u)
    qed
  qed
qed

lemma invert_children:
  assumes "distinct cs" and "\<forall>c\<in>set cs. c < length ns \<and> \<not> dn_input (ns ! c)
      \<and> (length (dn_mParents (ns ! c)) = 1 \<or> length (dn_mParents (ns ! c)) = 2) \<and> count_list (dn_mParents (ns ! c)) p = 1"
  shows "\<exists>ns' T. fold_r (invertInput p) cs ns = Inr ns' \<and> length ns' = length ns
     \<and> (\<forall>i. ns' ! i = (if i \<in> set cs then (ns ! i)\<lparr>dn_mType := T i\<rparr> else ns ! i))
     \<and> (\<forall>c\<in>set cs. \<forall>x y. gt_eval (T c) x y = gt_eval (dn_mType (ns ! c)) (x \<noteq> (dn_mParents (ns ! c) ! 0 = p))
                (y \<noteq> (length (dn_mParents (ns ! c)) = 2 \<and> dn_mParents (ns ! c) ! 1 = p)))"
  using assms
proof (induction cs arbitrary: ns)
  case Nil
  show ?case by simp
next
  case (Cons c cs)
  obtain t where t: "invertInput p c ns = Inr (ns[c := (ns ! c)\<lparr>dn_mType := t\<rparr>])"
    "\<forall>x y. gt_eval t x y = gt_eval (dn_mType (ns ! c)) (x \<noteq> (dn_mParents (ns ! c) ! 0 = p))
                (y \<noteq> (length (dn_mParents (ns ! c)) = 2 \<and> dn_mParents (ns ! c) ! 1 = p))"
    using invertInput_ok [of ns c p] Cons.prems(2) by auto
  let ?ns = "ns[c := (ns ! c)\<lparr>dn_mType := t\<rparr>]"
  have nc: "c \<notin> set cs" "c < length ns" using Cons.prems by auto
  have same: "?ns ! i = (if i = c then (ns ! c)\<lparr>dn_mType := t\<rparr> else ns ! i)" for i using nc(2) by simp
  have "\<forall>c\<in>set cs. c < length ?ns \<and> \<not> dn_input (?ns ! c)
      \<and> (length (dn_mParents (?ns ! c)) = 1 \<or> length (dn_mParents (?ns ! c)) = 2) \<and> count_list (dn_mParents (?ns ! c)) p = 1"
    using Cons.prems(2) nc unfolding same by auto
  from Cons.IH [OF _ this] obtain ns' T where T: "fold_r (invertInput p) cs ?ns = Inr ns'" "length ns' = length ns"
    "\<forall>i. ns' ! i = (if i \<in> set cs then (?ns ! i)\<lparr>dn_mType := T i\<rparr> else ?ns ! i)"
    "\<forall>c\<in>set cs. \<forall>x y. gt_eval (T c) x y = gt_eval (dn_mType (?ns ! c)) (x \<noteq> (dn_mParents (?ns ! c) ! 0 = p))
                (y \<noteq> (length (dn_mParents (?ns ! c)) = 2 \<and> dn_mParents (?ns ! c) ! 1 = p))"
    using Cons.prems(1) by auto
  have nth: "ns' ! i = (if i \<in> set (c # cs) then (ns ! i)\<lparr>dn_mType := (if i = c then t else T i)\<rparr> else ns ! i)" for i
    using T(3) nc(1) unfolding same by auto
  have "\<forall>a\<in>set (c # cs). \<forall>x y. gt_eval (if a = c then t else T a) x y = gt_eval (dn_mType (ns ! a)) (x \<noteq> (dn_mParents (ns ! a) ! 0 = p))
                (y \<noteq> (length (dn_mParents (ns ! a)) = 2 \<and> dn_mParents (ns ! a) ! 1 = p))"
  proof
    fix a assume a: "a \<in> set (c # cs)"
    show "\<forall>x y. gt_eval (if a = c then t else T a) x y = gt_eval (dn_mType (ns ! a)) (x \<noteq> (dn_mParents (ns ! a) ! 0 = p))
                (y \<noteq> (length (dn_mParents (ns ! a)) = 2 \<and> dn_mParents (ns ! a) ! 1 = p))"
    proof (cases "a = c")
      case True then show ?thesis using t(2) by simp
    next
      case False
      then have a: "a \<in> set cs" "?ns ! a = ns ! a" using a same by auto
      show ?thesis using bspec [OF T(4) a(1)] False unfolding a(2) by simp
    qed
  qed
  then show ?case using t(1) T(1,2) nth by (intro exI [of _ ns'] exI [of _ "\<lambda>i. if i = c then t else T i"]) simp
qed

section \<open>Graphs that can be reduced\<close>

definition inverters :: "dag_node list \<Rightarrow> nat set \<Rightarrow> nat set" where
  "inverters ns G = {g \<in> G. isInvert (ns ! g)}"

text \<open>No inverter feeds an inverter. The parent of an inverter that is an output is a gate, not an output
  itself, feeds no other inverter and no gate twice; that inverter feeds no gate.\<close>

definition reducible :: "dag_node list \<Rightarrow> nat \<Rightarrow> nat set \<Rightarrow> nat list \<Rightarrow> bool" where
  "reducible ns n G outs \<longleftrightarrow>
     (\<forall>p\<in>{..<n} \<union> G. \<forall>g. count_list (dn_mChildren (ns ! p)) g = (if g \<in> G then count_list (dn_mParents (ns ! g)) p else 0))
     \<and> (\<forall>g\<in>G - inverters ns G. length (dn_mParents (ns ! g)) = 2 \<and> (dn_mType (ns ! g) = gt_Xor \<or> dn_mType (ns ! g) = gt_And))
     \<and> (\<forall>g\<in>inverters ns G. dn_mParents (ns ! g) ! 0 \<notin> inverters ns G)
     \<and> distinct outs \<and> set outs \<subseteq> G
     \<and> (\<forall>o'\<in>set outs \<inter> inverters ns G.
          dn_mParents (ns ! o') ! 0 \<in> G \<and> dn_mParents (ns ! o') ! 0 \<notin> set outs
          \<and> (\<forall>g\<in>inverters ns G. dn_mParents (ns ! g) ! 0 = dn_mParents (ns ! o') ! 0 \<longrightarrow> g = o')
          \<and> (\<forall>g\<in>G. count_list (dn_mParents (ns ! g)) (dn_mParents (ns ! o') ! 0) \<le> 1)
          \<and> (\<forall>g\<in>G. o' \<notin> set (dn_mParents (ns ! g))))"

section \<open>Inverters that are outputs\<close>

text \<open>The nodes that carry the negation of their value once the outputs \<open>S\<close> are done.\<close>

definition flipped :: "dag_node list \<Rightarrow> nat set \<Rightarrow> nat \<Rightarrow> bool" where
  "flipped ns0 S p \<longleftrightarrow> (\<exists>o'\<in>S. dn_mParents (ns0 ! o') ! 0 = p)"

definition outs_inv :: "dag_node list \<Rightarrow> nat \<Rightarrow> nat set \<Rightarrow> nat set \<Rightarrow> dag_node list \<Rightarrow> bool" where
  "outs_inv ns0 n G S ns \<longleftrightarrow>
     length ns = length ns0
     \<and> (\<forall>i. dn_input (ns ! i) = dn_input (ns0 ! i) \<and> dn_mWireIdx (ns ! i) = dn_mWireIdx (ns0 ! i) \<and> dn_mParents (ns ! i) = dn_mParents (ns0 ! i))
     \<and> (\<forall>i\<in>S. dn_mType (ns ! i) = gt_a)
     \<and> (\<forall>i\<in>G - S. \<forall>x y. gt_eval (dn_mType (ns ! i)) x y
          = (gt_eval (dn_mType (ns0 ! i)) (x \<noteq> flipped ns0 S (dn_mParents (ns0 ! i) ! 0))
               (y \<noteq> (length (dn_mParents (ns0 ! i)) = 2 \<and> flipped ns0 S (dn_mParents (ns0 ! i) ! 1))) \<noteq> flipped ns0 S i))
     \<and> (\<forall>p\<in>{..<n} \<union> G. \<forall>g. count_list (dn_mChildren (ns ! p)) g = (if g \<in> S then 0 else count_list (dn_mChildren (ns0 ! p)) g))"

lemma outs_inv_start: "outs_inv ns0 n G {} ns0"
  by (simp add: outs_inv_def flipped_def)

lemma inverter_facts:
  assumes "linked ns n G rank" and "reducible ns n G outs" and "g \<in> inverters ns G"
  shows "g \<in> G" and "dn_mParents (ns ! g) = [dn_mParents (ns ! g) ! 0]" and "dn_mType (ns ! g) = gt_na"
    and "dn_mParents (ns ! g) ! 0 \<notin> inverters ns G" and "dn_mParents (ns ! g) ! 0 \<in> {..<n} \<union> G" and "dn_mParents (ns ! g) ! 0 \<noteq> g"
proof -
  show g: "g \<in> G" "dn_mType (ns ! g) = gt_na" using assms(3) by (simp_all add: inverters_def isInvert_def)
  show p: "dn_mParents (ns ! g) = [dn_mParents (ns ! g) ! 0]"
    using assms(3) by (auto simp: inverters_def isInvert_def length_Suc_conv)
  then have mem: "dn_mParents (ns ! g) ! 0 \<in> set (dn_mParents (ns ! g))" by (metis list.set_intros(1))
  then show "dn_mParents (ns ! g) ! 0 \<in> {..<n} \<union> G" using assms(1) g(1) unfolding linked_def by blast
  show "dn_mParents (ns ! g) ! 0 \<notin> inverters ns G" using assms(2,3) unfolding reducible_def by blast
  have "rank (dn_mParents (ns ! g) ! 0) < rank g" using assms(1) g(1) mem unfolding linked_def by blast
  then show "dn_mParents (ns ! g) ! 0 \<noteq> g" by (metis less_irrefl)
qed

lemma flipped_not_inverter:
  assumes "linked ns0 n G rank" and "reducible ns0 n G outs" and "S \<subseteq> set outs \<inter> inverters ns0 G"
  shows "flipped ns0 S p \<Longrightarrow> p \<in> G - inverters ns0 G" and "g \<in> inverters ns0 G \<Longrightarrow> flipped ns0 S (dn_mParents (ns0 ! g) ! 0) \<longleftrightarrow> g \<in> S"
proof -
  have Q: "dn_mParents (ns0 ! o') ! 0 \<in> G" "dn_mParents (ns0 ! o') ! 0 \<notin> inverters ns0 G"
      "g \<in> inverters ns0 G \<Longrightarrow> dn_mParents (ns0 ! g) ! 0 = dn_mParents (ns0 ! o') ! 0 \<Longrightarrow> g = o'" if "o' \<in> S" for o' g
  proof -
    have o': "o' \<in> set outs \<inter> inverters ns0 G" using that assms(3) by blast
    show "dn_mParents (ns0 ! o') ! 0 \<in> G" "g \<in> inverters ns0 G \<Longrightarrow> dn_mParents (ns0 ! g) ! 0 = dn_mParents (ns0 ! o') ! 0 \<Longrightarrow> g = o'"
      using assms(2) o' unfolding reducible_def by blast+
    show "dn_mParents (ns0 ! o') ! 0 \<notin> inverters ns0 G" using inverter_facts(4) [OF assms(1,2)] o' by blast
  qed
  show "p \<in> G - inverters ns0 G" if "flipped ns0 S p" using that Q(1,2) unfolding flipped_def by blast
  show "flipped ns0 S (dn_mParents (ns0 ! g) ! 0) \<longleftrightarrow> g \<in> S" if "g \<in> inverters ns0 G"
    using that Q(3) unfolding flipped_def by metis
qed

lemma outs_inv_inverter:
  assumes "linked ns0 n G rank" and "reducible ns0 n G outs" and "S \<subseteq> set outs \<inter> inverters ns0 G" and "outs_inv ns0 n G S ns" and "i \<in> G"
  shows "isInvert (ns ! i) \<longleftrightarrow> i \<in> inverters ns0 G - S"
proof -
  have same: "dn_input (ns ! i) = dn_input (ns0 ! i)" "dn_mParents (ns ! i) = dn_mParents (ns0 ! i)" using assms(4) by (auto simp: outs_inv_def)
  have in0: "\<not> dn_input (ns0 ! i)" using assms(1,5) by (simp add: linked_def)
  show ?thesis
  proof (cases "i \<in> inverters ns0 G")
    case True
    note I = inverter_facts [OF assms(1,2) True] and F = flipped_not_inverter [OF assms(1-3)]
    have l: "length (dn_mParents (ns0 ! i)) = 1" by (subst I(2)) simp
    show ?thesis
    proof (cases "i \<in> S")
      case True
      then have "dn_mType (ns ! i) = gt_a" using assms(4) by (simp add: outs_inv_def)
      then show ?thesis using True by (simp add: isInvert_def)
    next
      case False
      have "\<not> flipped ns0 S i" "\<not> flipped ns0 S (dn_mParents (ns0 ! i) ! 0)" using F(1) [of i] F(2) [OF True] True False by auto
      then have "gt_eval (dn_mType (ns ! i)) x y = gt_eval gt_na x y" for x y
        using assms(4,5) False l I(3) by (simp add: outs_inv_def)
      then have "dn_mType (ns ! i) = gt_na" by (rule gt_eval_inj)
      then show ?thesis using True False same l in0 by (simp add: isInvert_def)
    qed
  next
    case False
    then have "length (dn_mParents (ns0 ! i)) = 2" using assms(2,5) by (simp add: reducible_def)
    then show ?thesis using False same by (simp add: isInvert_def)
  qed
qed

lemma distinct_count: "(\<And>z. count_list xs z \<le> 1) \<Longrightarrow> distinct xs"
proof (induction xs)
  case (Cons x xs)
  have "count_list xs z \<le> 1" for z using Cons.prems [of z] by (simp split: if_splits)
  then have "distinct xs" by (rule Cons.IH)
  moreover have "count_list xs x = 0" using Cons.prems [of x] by simp
  ultimately show ?case by (simp add: count_list_0_iff)
qed simp

lemma gt_eval_a [simp]: "gt_eval gt_a x y = x"
  by (cases x; cases y; simp add: gt_eval_def row_of_simps bit_nat_def)

text \<open>One output: the truth table of the parent is negated, the inputs of its other children with it, and
  the inverter leaves the graph.\<close>

lemma reduce_output_step:
  assumes l: "linked ns0 n G rank" and r: "reducible ns0 n G outs" and S: "S \<subseteq> set outs \<inter> inverters ns0 G"
    and inv: "outs_inv ns0 n G S (dag_mNodes d)" and o': "o' \<in> set outs \<inter> inverters ns0 G" "o' \<notin> S"
    and k: "dag_mOutputs d ! k = Some o'"
  shows "\<exists>ns'. reduce_output k d = Inr (d\<lparr>dag_mNodes := ns', dag_mOutputs := (dag_mOutputs d)[k := Some (dn_mParents (ns0 ! o') ! 0)]\<rparr>)
     \<and> outs_inv ns0 n G (insert o' S) ns'"
proof -
  let ?ns = "dag_mNodes d"
  define p where "p = dn_mParents (ns0 ! o') ! 0"
  have oI: "o' \<in> inverters ns0 G" using o'(1) by blast
  note O = inverter_facts [OF l r oI, folded p_def]
  have R: "p \<in> G" "p \<notin> set outs" "\<And>g. g \<in> G \<Longrightarrow> count_list (dn_mParents (ns0 ! g)) p \<le> 1"
    using r o'(1) unfolding reducible_def p_def by blast+
  have same: "length ?ns = length ns0" "dn_input (?ns ! i) = dn_input (ns0 ! i)" "dn_mWireIdx (?ns ! i) = dn_mWireIdx (ns0 ! i)"
     "dn_mParents (?ns ! i) = dn_mParents (ns0 ! i)" for i using inv by (auto simp: outs_inv_def)
  have ch: "count_list (dn_mChildren (?ns ! q)) g = (if g \<in> S then 0 else if g \<in> G then count_list (dn_mParents (ns0 ! g)) q else 0)"
    if "q \<in> {..<n} \<union> G" for q g
    using inv r that unfolding outs_inv_def reducible_def by simp
  have G: "g < length ns0" "\<not> dn_input (ns0 ! g)" "length (dn_mParents (ns0 ! g)) = 1 \<or> length (dn_mParents (ns0 ! g)) = 2"
      "p' \<in> set (dn_mParents (ns0 ! g)) \<Longrightarrow> p' \<noteq> g" if "g \<in> G" for g p' using l that by (auto simp: linked_def)
  define cs where "cs = dn_mChildren (?ns ! p)"
  have pG: "p \<in> {..<n} \<union> G" using R(1) by simp
  have cnt: "count_list cs g = (if g \<in> S then 0 else if g \<in> G then count_list (dn_mParents (ns0 ! g)) p else 0)" for g
    unfolding cs_def by (rule ch [OF pG])
  have dist: "distinct cs" by (rule distinct_count) (use cnt R(3) in simp)
  have cs: "c \<in> set cs \<longleftrightarrow> c \<notin> S \<and> c \<in> G \<and> count_list (dn_mParents (ns0 ! c)) p = 1" for c
  proof -
    have "c \<in> set cs \<longleftrightarrow> count_list cs c \<noteq> 0" by (simp add: count_list_0_iff)
    also have "\<dots> \<longleftrightarrow> c \<notin> S \<and> c \<in> G \<and> count_list (dn_mParents (ns0 ! c)) p = 1"
      using R(3) [of c] by (auto simp: cnt le_Suc_eq)
    finally show ?thesis .
  qed
  have pc: "p \<notin> set cs"
  proof
    assume "p \<in> set cs"
    then have "p \<in> set (dn_mParents (ns0 ! p))" using cs [of p] by (metis count_list_0_iff zero_neq_one)
    then show False using G(4) [OF R(1)] by blast
  qed
  have oc: "o' \<in> set cs" using cs [of o'] o'(2) O(1) by (subst (asm) O(2)) simp
  have po: "p \<noteq> o'" using O(6) .
  let ?ns1 = "?ns[p := (?ns ! p)\<lparr>dn_mType := invert_out (dn_mType (?ns ! p))\<rparr>]"
  have n1: "?ns1 ! i = (if i = p then (?ns ! p)\<lparr>dn_mType := invert_out (dn_mType (?ns ! p))\<rparr> else ?ns ! i)" for i
    using G(1) [OF R(1)] same(1) by simp
  have "\<forall>c\<in>set cs. c < length ?ns1 \<and> \<not> dn_input (?ns1 ! c)
      \<and> (length (dn_mParents (?ns1 ! c)) = 1 \<or> length (dn_mParents (?ns1 ! c)) = 2) \<and> count_list (dn_mParents (?ns1 ! c)) p = 1"
  proof
    fix c assume c: "c \<in> set cs"
    then have "c \<in> G" "count_list (dn_mParents (ns0 ! c)) p = 1" "c \<noteq> p" using cs pc by auto
    then show "c < length ?ns1 \<and> \<not> dn_input (?ns1 ! c)
      \<and> (length (dn_mParents (?ns1 ! c)) = 1 \<or> length (dn_mParents (?ns1 ! c)) = 2) \<and> count_list (dn_mParents (?ns1 ! c)) p = 1"
      using G same n1 by simp
  qed
  from invert_children [OF dist this] obtain ns2 T where T: "fold_r (invertInput p) cs ?ns1 = Inr ns2" "length ns2 = length ?ns"
    "\<And>i. ns2 ! i = (if i \<in> set cs then (?ns1 ! i)\<lparr>dn_mType := T i\<rparr> else ?ns1 ! i)"
    "\<And>c x y. c \<in> set cs \<Longrightarrow> gt_eval (T c) x y = gt_eval (dn_mType (?ns1 ! c)) (x \<noteq> (dn_mParents (?ns1 ! c) ! 0 = p))
                (y \<noteq> (length (dn_mParents (?ns1 ! c)) = 2 \<and> dn_mParents (?ns1 ! c) ! 1 = p))" by auto
  have n2: "ns2 ! i = (if i = p then (?ns ! p)\<lparr>dn_mType := invert_out (dn_mType (?ns ! p))\<rparr>
      else if i \<in> set cs then (?ns ! i)\<lparr>dn_mType := T i\<rparr> else ?ns ! i)" for i
    using T(3) [of i] n1 [of i] pc by auto
  have Tc: "gt_eval (T c) x y = gt_eval (dn_mType (?ns ! c)) (x \<noteq> (dn_mParents (ns0 ! c) ! 0 = p))
                (y \<noteq> (length (dn_mParents (ns0 ! c)) = 2 \<and> dn_mParents (ns0 ! c) ! 1 = p))" if "c \<in> set cs" for c x y
  proof -
    have "?ns1 ! c = ?ns ! c" using that pc n1 by auto
    then show ?thesis using T(4) [OF that, of x y] same(4) by simp
  qed
  have oinv: "isInvert (?ns ! o')" using outs_inv_inverter [OF l r S inv O(1)] oI o'(2) by simp
  have To: "T o' = gt_a"
  proof (rule gt_eval_inj)
    fix x y
    have "length (dn_mParents (ns0 ! o')) = 1" by (subst O(2)) simp
    then show "gt_eval (T o') x y = gt_eval gt_a x y"
      using Tc [OF oc, of x y] oinv p_def by (simp add: isInvert_def)
  qed
  have ns2p: "dn_mChildren (ns2 ! p) = cs" by (simp add: n2 cs_def)
  obtain cs' where rem: "remove_child p o' ns2 = Inr (ns2[p := (ns2 ! p)\<lparr>dn_mChildren := cs'\<rparr>])"
    "\<And>z. count_list cs' z = count_list cs z - (if z = o' then 1 else 0)"
    using remove_child_ok [of o' ns2 p] oc unfolding ns2p by blast
  define ns3 where "ns3 = ns2[p := (ns2 ! p)\<lparr>dn_mChildren := cs'\<rparr>]"
  have n3: "ns3 ! i = (if i = p then (?ns ! p)\<lparr>dn_mType := invert_out (dn_mType (?ns ! p)), dn_mChildren := cs'\<rparr>
      else if i \<in> set cs then (?ns ! i)\<lparr>dn_mType := T i\<rparr> else ?ns ! i)" for i
    using G(1) [OF R(1)] same(1) T(2) n2 [of i] n2 [of p] by (simp add: ns3_def)
  have "reduce_output k d = Inr (d\<lparr>dag_mNodes := ns3, dag_mOutputs := (dag_mOutputs d)[k := Some p]\<rparr>)"
  proof -
    have "dn_mParents (?ns ! o') ! 0 = p" by (simp add: same(4) p_def)
    moreover have "invertOutput p ?ns = Inr ns2"
      using T(1) G(2) [OF R(1)] same(2) [of p] by (simp add: invertOutput_def Let_def cs_def)
    moreover have "dn_mType (ns2 ! o') = gt_a" using n2 [of o'] oc po To by simp
    moreover have "dn_mParents (ns3 ! o') ! 0 = p" using n3 [of o'] oc po same(4) by (simp add: p_def)
    ultimately show ?thesis using k oinv rem(1) [folded ns3_def] by (simp add: reduce_output_def Let_def)
  qed
  moreover have "outs_inv ns0 n G (insert o' S) ns3"
    unfolding outs_inv_def
  proof (intro conjI)
    show "length ns3 = length ns0" using T(2) same(1) by (simp add: ns3_def)
    show "\<forall>i. dn_input (ns3 ! i) = dn_input (ns0 ! i) \<and> dn_mWireIdx (ns3 ! i) = dn_mWireIdx (ns0 ! i) \<and> dn_mParents (ns3 ! i) = dn_mParents (ns0 ! i)"
      using same by (simp add: n3)
    show "\<forall>i\<in>insert o' S. dn_mType (ns3 ! i) = gt_a"
    proof
      fix i assume i: "i \<in> insert o' S"
      have "p \<notin> S" using S O(4) by (auto simp: p_def)
      then have "i \<noteq> p" using i po by auto
      show "dn_mType (ns3 ! i) = gt_a"
      proof (cases "i = o'")
        case True then show ?thesis using n3 [of i] oc po To by simp
      next
        case False
        then have "i \<in> S" "i \<notin> set cs" using i cs by auto
        then show ?thesis using n3 [of i] \<open>i \<noteq> p\<close> inv by (simp add: outs_inv_def)
      qed
    qed
    have notF: "\<not> flipped ns0 S p" using flipped_not_inverter(2) [OF l r S oI] o'(2) by (simp add: p_def)
    have F: "flipped ns0 (insert o' S) q \<longleftrightarrow> flipped ns0 S q \<noteq> (q = p)" for q
      using notF by (auto simp: flipped_def p_def)
    show "\<forall>i\<in>G - insert o' S. \<forall>x y. gt_eval (dn_mType (ns3 ! i)) x y
          = (gt_eval (dn_mType (ns0 ! i)) (x \<noteq> flipped ns0 (insert o' S) (dn_mParents (ns0 ! i) ! 0))
               (y \<noteq> (length (dn_mParents (ns0 ! i)) = 2 \<and> flipped ns0 (insert o' S) (dn_mParents (ns0 ! i) ! 1))) \<noteq> flipped ns0 (insert o' S) i)"
    proof (intro ballI allI)
      fix i x y assume i: "i \<in> G - insert o' S"
      have old: "gt_eval (dn_mType (?ns ! i)) x y
          = (gt_eval (dn_mType (ns0 ! i)) (x \<noteq> flipped ns0 S (dn_mParents (ns0 ! i) ! 0))
               (y \<noteq> (length (dn_mParents (ns0 ! i)) = 2 \<and> flipped ns0 S (dn_mParents (ns0 ! i) ! 1))) \<noteq> flipped ns0 S i)" for x y
        using inv i unfolding outs_inv_def by blast
      have iG: "i \<in> G" using i by simp
      note Gi = G [OF iG]
      have mem: "dn_mParents (ns0 ! i) ! 0 \<in> set (dn_mParents (ns0 ! i))"
        "length (dn_mParents (ns0 ! i)) = 2 \<Longrightarrow> dn_mParents (ns0 ! i) ! 1 \<in> set (dn_mParents (ns0 ! i))"
        using Gi(3) by (auto intro: nth_mem)
      have away: "flipped ns0 (insert o' S) (dn_mParents (ns0 ! i) ! 0) = flipped ns0 S (dn_mParents (ns0 ! i) ! 0)"
        "(length (dn_mParents (ns0 ! i)) = 2 \<and> flipped ns0 (insert o' S) (dn_mParents (ns0 ! i) ! 1))
         = (length (dn_mParents (ns0 ! i)) = 2 \<and> flipped ns0 S (dn_mParents (ns0 ! i) ! 1))"
        if "p \<notin> set (dn_mParents (ns0 ! i))"
        using that mem unfolding F by blast+
      show "gt_eval (dn_mType (ns3 ! i)) x y
          = (gt_eval (dn_mType (ns0 ! i)) (x \<noteq> flipped ns0 (insert o' S) (dn_mParents (ns0 ! i) ! 0))
               (y \<noteq> (length (dn_mParents (ns0 ! i)) = 2 \<and> flipped ns0 (insert o' S) (dn_mParents (ns0 ! i) ! 1))) \<noteq> flipped ns0 (insert o' S) i)"
      proof (cases "i = p")
        case True
        have np: "p \<notin> set (dn_mParents (ns0 ! i))" using Gi(4) True by blast
        have t: "dn_mType (ns3 ! i) = invert_out (dn_mType (?ns ! i))" using n3 [of i] True by simp
        have f: "flipped ns0 (insert o' S) i \<longleftrightarrow> \<not> flipped ns0 S i" using True F by blast
        show ?thesis unfolding t f invert_out_ok old away [OF np] by blast
      next
        case False
        show ?thesis
        proof (cases "i \<in> set cs")
          case True
          have a: "(x \<noteq> (P = p)) \<noteq> flipped ns0 S P \<longleftrightarrow> x \<noteq> (flipped ns0 S P \<noteq> (P = p))"
            "(y \<noteq> (L \<and> P = p)) \<noteq> (L \<and> flipped ns0 S P) \<longleftrightarrow> y \<noteq> (L \<and> (flipped ns0 S P \<noteq> (P = p)))" for P L by auto
          have e: "dn_mType (ns3 ! i) = T i" using n3 [of i] True False by simp
          show ?thesis unfolding e Tc [OF True] old F a using False by simp
        next
          case no: False
          then have np: "p \<notin> set (dn_mParents (ns0 ! i))"
            using cs [of i] i R(3) [of i] by (auto simp: le_Suc_eq count_list_0_iff)
          have t: "dn_mType (ns3 ! i) = dn_mType (?ns ! i)" using n3 [of i] False no by simp
          have f: "flipped ns0 (insert o' S) i \<longleftrightarrow> flipped ns0 S i" using False F by blast
          show ?thesis unfolding t f old away [OF np] by (rule refl)
        qed
      qed
    qed
    show "\<forall>q\<in>{..<n} \<union> G. \<forall>g. count_list (dn_mChildren (ns3 ! q)) g = (if g \<in> insert o' S then 0 else count_list (dn_mChildren (ns0 ! q)) g)"
    proof (intro ballI allI)
      fix q g assume q: "q \<in> {..<n} \<union> G"
      have r0: "count_list (dn_mChildren (ns0 ! q)) g = (if g \<in> G then count_list (dn_mParents (ns0 ! g)) q else 0)"
        using r q unfolding reducible_def by blast
      show "count_list (dn_mChildren (ns3 ! q)) g = (if g \<in> insert o' S then 0 else count_list (dn_mChildren (ns0 ! q)) g)"
      proof (cases "q = p")
        case True
        have "count_list (dn_mParents (ns0 ! o')) p = 1" by (subst O(2)) simp
        then show ?thesis using True rem(2) [of g] cnt [of g] n3 [of p] r0 o'(2) O(1) by (auto simp: p_def)
      next
        case False
        then have "dn_mChildren (ns3 ! q) = dn_mChildren (?ns ! q)" by (simp add: n3)
        moreover have "count_list (dn_mParents (ns0 ! o')) q = 0" by (subst O(2)) (use False in simp)
        ultimately show ?thesis using ch [OF q, of g] r0 by auto
      qed
    qed
  qed
  ultimately show ?thesis unfolding p_def by blast
qed

definition source :: "dag_node list \<Rightarrow> nat set \<Rightarrow> nat \<Rightarrow> nat" where
  "source ns0 I q = (if q \<in> I then dn_mParents (ns0 ! q) ! 0 else q)"

lemma outputs_reduced:
  assumes l: "linked (dag_mNodes d) n G rank" and r: "reducible (dag_mNodes d) n G outs" and o': "dag_mOutputs d = map Some outs"
  shows "\<exists>ns1. fold_r reduce_output [0..<length outs] d
       = Inr (d\<lparr>dag_mNodes := ns1, dag_mOutputs := map (Some \<circ> source (dag_mNodes d) (inverters (dag_mNodes d) G)) outs\<rparr>)
     \<and> outs_inv (dag_mNodes d) n G (set outs \<inter> inverters (dag_mNodes d) G) ns1"
proof -
  let ?ns = "dag_mNodes d" and ?I = "inverters (dag_mNodes d) G" and ?f = "Some \<circ> source (dag_mNodes d) (inverters (dag_mNodes d) G)"
  have dist: "distinct outs" and G: "set outs \<subseteq> G" using r by (simp_all add: reducible_def)
  have "\<exists>d'. fold_r reduce_output [0..<length outs] d = Inr d' \<and>
     (\<lambda>k d'. \<exists>ns1. d' = d\<lparr>dag_mNodes := ns1, dag_mOutputs := map ?f (take k outs) @ map Some (drop k outs)\<rparr>
        \<and> outs_inv ?ns n G (set (take k outs) \<inter> ?I) ns1) (length [0..<length outs]) d'"
  proof (rule fold_r_invariant)
    show "\<exists>ns1. d = d\<lparr>dag_mNodes := ns1, dag_mOutputs := map ?f (take 0 outs) @ map Some (drop 0 outs)\<rparr>
        \<and> outs_inv ?ns n G (set (take 0 outs) \<inter> ?I) ns1"
      using outs_inv_start [of ?ns n G] o' by (intro exI [of _ ?ns]) simp
    fix k d' assume k: "k < length [0..<length outs]"
      and "\<exists>ns1. d' = d\<lparr>dag_mNodes := ns1, dag_mOutputs := map ?f (take k outs) @ map Some (drop k outs)\<rparr>
        \<and> outs_inv ?ns n G (set (take k outs) \<inter> ?I) ns1"
    then obtain ns1 where d': "d' = d\<lparr>dag_mNodes := ns1, dag_mOutputs := map ?f (take k outs) @ map Some (drop k outs)\<rparr>"
      and inv: "outs_inv ?ns n G (set (take k outs) \<inter> ?I) ns1" by blast
    have kl: "k < length outs" using k by simp
    have S: "set (take k outs) \<inter> ?I \<subseteq> set outs \<inter> ?I" using set_take_subset [of k outs] by blast
    have new: "outs ! k \<notin> set (take k outs)"
      using dist kl by (auto simp: in_set_conv_nth nth_eq_iff_index_eq)
    have t: "take (Suc k) outs = take k outs @ [outs ! k]" "drop k outs = outs ! k # drop (Suc k) outs"
      using kl by (simp_all add: take_Suc_conv_app_nth Cons_nth_drop_Suc)
    have nth: "dag_mOutputs d' ! k = Some (outs ! k)" using kl by (simp add: d' t(2) nth_append)
    have upd: "(dag_mOutputs d')[k := ?f (outs ! k)] = map ?f (take (Suc k) outs) @ map Some (drop (Suc k) outs)"
      using kl by (simp add: d' t list_update_append)
    have kG: "outs ! k \<in> G" using G kl by (meson nth_mem subsetD)
    show "\<exists>d''. reduce_output ([0..<length outs] ! k) d' = Inr d'' \<and> (\<exists>ns1. d'' = d\<lparr>dag_mNodes := ns1,
        dag_mOutputs := map ?f (take (Suc k) outs) @ map Some (drop (Suc k) outs)\<rparr> \<and> outs_inv ?ns n G (set (take (Suc k) outs) \<inter> ?I) ns1)"
    proof (cases "outs ! k \<in> ?I")
      case True
      have "outs_inv ?ns n G (set (take k outs) \<inter> ?I) (dag_mNodes d')" using inv by (simp add: d')
      from reduce_output_step [OF l r S this _ _ nth] True kl new
      obtain ns' where s: "reduce_output k d' = Inr (d'\<lparr>dag_mNodes := ns', dag_mOutputs := (dag_mOutputs d')[k := Some (dn_mParents (?ns ! (outs ! k)) ! 0)]\<rparr>)"
        "outs_inv ?ns n G (insert (outs ! k) (set (take k outs) \<inter> ?I)) ns'" by auto
      have "insert (outs ! k) (set (take k outs) \<inter> ?I) = set (take (Suc k) outs) \<inter> ?I" using True by (auto simp: t(1))
      moreover have "Some (dn_mParents (?ns ! (outs ! k)) ! 0) = ?f (outs ! k)" using True by (simp add: source_def)
      ultimately show ?thesis using s kl upd by (intro exI [of _ "d'\<lparr>dag_mNodes := ns', dag_mOutputs := (dag_mOutputs d')[k := ?f (outs ! k)]\<rparr>"] exI [of _ ns'] conjI) (simp_all add: d')
    next
      case False
      have "\<not> isInvert (ns1 ! (outs ! k))" using outs_inv_inverter [OF l r S inv kG] False by simp
      then have s: "reduce_output k d' = Inr d'" using nth by (simp add: reduce_output_def d')
      have "set (take (Suc k) outs) \<inter> ?I = set (take k outs) \<inter> ?I" using False by (auto simp: t(1))
      moreover have "map ?f (take (Suc k) outs) @ map Some (drop (Suc k) outs) = dag_mOutputs d'"
        using False by (simp add: d' t source_def)
      ultimately show ?thesis using s kl inv by (intro exI [of _ d'] exI [of _ ns1] conjI) (simp_all add: d')
    qed
  qed
  then show ?thesis by auto
qed

section \<open>The other inverters\<close>

lemma absorb_step_ok:
  assumes "k < length ns" and "i < length (dn_mParents (ns ! k))" and "i < 2" and q: "q = dn_mParents (ns ! k) ! i" "q \<noteq> k"
    and r: "isInvert (ns ! q) \<Longrightarrow> r = dn_mParents (ns ! q) ! 0 \<and> r \<noteq> k \<and> r < length ns \<and> \<not> isInvert (ns ! r)"
  shows "\<exists>ns' t. absorb_step k i ns = Inr ns' \<and> length ns' = length ns
     \<and> (\<forall>j. ns' ! j = (if j = k then (ns ! k)\<lparr>dn_mType := t, dn_mParents := (dn_mParents (ns ! k))[i := if isInvert (ns ! q) then r else q]\<rparr>
                        else if isInvert (ns ! q) \<and> j = r then (ns ! j)\<lparr>dn_mChildren := dn_mChildren (ns ! j) @ [k]\<rparr> else ns ! j))
     \<and> (\<forall>x y. gt_eval t x y = gt_eval (dn_mType (ns ! k)) (x \<noteq> (isInvert (ns ! q) \<and> i = 0)) (y \<noteq> (isInvert (ns ! q) \<and> i = 1)))"
proof (cases "isInvert (ns ! q)")
  case True
  have "\<exists>t. invert i (dn_mType (ns ! k)) = Inr t \<and> (\<forall>x y. gt_eval t x y = gt_eval (dn_mType (ns ! k)) (x \<noteq> (i = 0)) (y \<noteq> (i = 1)))"
  proof (cases "i = 0")
    case True then show ?thesis using invert_ok(1) by simp
  next
    case False
    then have "i = 1" using assms(3) by simp
    then show ?thesis using invert_ok(2) by simp
  qed
  then obtain t where t: "invert i (dn_mType (ns ! k)) = Inr t"
    "\<forall>x y. gt_eval t x y = gt_eval (dn_mType (ns ! k)) (x \<noteq> (i = 0)) (y \<noteq> (i = 1))" by blast
  have R: "dn_mParents (ns ! q) ! 0 = r" "r \<noteq> k" "r < length ns" "\<not> isInvert (ns ! r)" using r [OF True] by metis+
  show ?thesis
    using True t assms(1) R q(2) unfolding absorb_step_def Let_def q(1) [symmetric]
    by (intro exI [of _ "ns[k := (ns ! k)\<lparr>dn_mType := t\<rparr>, r := (ns ! r)\<lparr>dn_mChildren := dn_mChildren (ns ! r) @ [k]\<rparr>,
          k := (ns ! k)\<lparr>dn_mType := t, dn_mParents := (dn_mParents (ns ! k))[i := r]\<rparr>]"] exI [of _ t]) simp
next
  case False
  have "(ns ! k)\<lparr>dn_mType := dn_mType (ns ! k), dn_mParents := (dn_mParents (ns ! k))[i := q]\<rparr> = ns ! k"
    using q(1) by (cases "ns ! k") simp
  then show ?thesis
    using False unfolding absorb_step_def Let_def q(1) [symmetric]
    by (intro exI [of _ ns] exI [of _ "dn_mType (ns ! k)"]) simp
qed

definition gates_inv :: "dag_node list \<Rightarrow> nat \<Rightarrow> nat set \<Rightarrow> nat set \<Rightarrow> dag_node list \<Rightarrow> nat \<Rightarrow> dag_node list \<Rightarrow> bool" where
  "gates_inv ns0 n G Q ns1 k ns \<longleftrightarrow>
     (let I = inverters ns0 G
      in length ns = length ns0
         \<and> (\<forall>i. dn_input (ns ! i) = dn_input (ns0 ! i) \<and> dn_mWireIdx (ns ! i) = dn_mWireIdx (ns0 ! i))
         \<and> (\<forall>i\<in>G. if i < k \<and> i \<notin> I
              then dn_mParents (ns ! i) = map (source ns0 I) (dn_mParents (ns0 ! i))
                   \<and> (\<forall>x y. gt_eval (dn_mType (ns ! i)) x y
                        = gt_eval (dn_mType (ns1 ! i)) (x \<noteq> (dn_mParents (ns0 ! i) ! 0 \<in> I)) (y \<noteq> (dn_mParents (ns0 ! i) ! 1 \<in> I)))
              else dn_mParents (ns ! i) = dn_mParents (ns0 ! i) \<and> dn_mType (ns ! i) = dn_mType (ns1 ! i))
         \<and> (\<forall>p\<in>{..<n} \<union> (G - I).
              (\<forall>g\<in>I. count_list (dn_mChildren (ns ! p)) g = (if g \<in> Q \<or> g < k then 0 else count_list (dn_mParents (ns0 ! g)) p))
              \<and> (\<forall>g. g \<notin> I \<longrightarrow> (g \<in> set (dn_mChildren (ns ! p))
                    \<longleftrightarrow> g \<in> G \<and> (p \<in> set (dn_mParents (ns0 ! g)) \<or> g < k \<and> p \<in> source ns0 I ` set (dn_mParents (ns0 ! g)))))))"

lemma gates_inv_start:
  assumes "linked ns0 n G rank" and r: "reducible ns0 n G outs" and inv: "outs_inv ns0 n G (set outs \<inter> inverters ns0 G) ns1"
  shows "gates_inv ns0 n G (set outs \<inter> inverters ns0 G) ns1 n ns1"
proof -
  let ?I = "inverters ns0 G"
  have lt: "\<not> g < n" if "g \<in> G" for g using assms(1) that by (auto simp: linked_def)
  have IG: "?I \<subseteq> G" by (auto simp: inverters_def)
  have c: "count_list (dn_mChildren (ns1 ! p)) g = (if g \<in> set outs \<inter> ?I then 0 else if g \<in> G then count_list (dn_mParents (ns0 ! g)) p else 0)"
    if "p \<in> {..<n} \<union> (G - ?I)" for p g
  proof -
    have p: "p \<in> {..<n} \<union> G" using that by blast
    have "count_list (dn_mChildren (ns1 ! p)) g = (if g \<in> set outs \<inter> ?I then 0 else count_list (dn_mChildren (ns0 ! p)) g)"
      using inv p unfolding outs_inv_def by blast
    moreover have "count_list (dn_mChildren (ns0 ! p)) g = (if g \<in> G then count_list (dn_mParents (ns0 ! g)) p else 0)"
      using r p unfolding reducible_def by blast
    ultimately show ?thesis by simp
  qed
  have "g \<in> set (dn_mChildren (ns1 ! p)) \<longleftrightarrow> g \<in> G \<and> p \<in> set (dn_mParents (ns0 ! g))"
    if "p \<in> {..<n} \<union> (G - ?I)" "g \<notin> ?I" for p g
    using c [OF that(1), of g] that(2) by (metis IntD2 count_list_0_iff)
  then show ?thesis
    using inv c lt IG by (auto simp: gates_inv_def Let_def outs_inv_def)
qed

lemma gates_inv_inverter:
  assumes l: "linked ns0 n G rank" and r: "reducible ns0 n G outs" and o': "outs_inv ns0 n G (set outs \<inter> inverters ns0 G) ns1"
    and inv: "gates_inv ns0 n G (set outs \<inter> inverters ns0 G) ns1 k ns" and q: "q \<in> {..<n} \<union> G" and n0: "\<forall>i<n. dn_input (ns0 ! i)"
  shows "isInvert (ns ! q) \<longleftrightarrow> q \<in> inverters ns0 G - set outs"
proof (cases "q \<in> G")
  case False
  then have "q < n" using q by simp
  then have "isInvert (ns ! q) = False" using inv n0 by (simp add: gates_inv_def Let_def isInvert_def)
  then show ?thesis using False by (simp add: inverters_def)
next
  case True
  show ?thesis
  proof (cases "q \<in> inverters ns0 G")
    case I: True
    have "dn_mParents (ns ! q) = dn_mParents (ns1 ! q)" "dn_mType (ns ! q) = dn_mType (ns1 ! q)" "dn_input (ns ! q) = dn_input (ns1 ! q)"
      using inv o' True I by (simp_all add: gates_inv_def outs_inv_def Let_def)
    then have "isInvert (ns ! q) = isInvert (ns1 ! q)" by (simp add: isInvert_def)
    then show ?thesis using outs_inv_inverter [OF l r order_refl o' True] I by simp
  next
    case False
    have two: "length (dn_mParents (ns0 ! q)) = 2" using r True False by (simp add: reducible_def)
    have "dn_mParents (ns ! q) = map (source ns0 (inverters ns0 G)) (dn_mParents (ns0 ! q)) \<or> dn_mParents (ns ! q) = dn_mParents (ns0 ! q)"
      using inv True False unfolding gates_inv_def Let_def by metis
    then have "length (dn_mParents (ns ! q)) = 2" using two by auto
    then show ?thesis using False by (simp add: isInvert_def)
  qed
qed

lemma source_facts:
  assumes l: "linked ns0 n G rank" and r: "reducible ns0 n G outs" and g: "g \<in> G" and q: "q \<in> set (dn_mParents (ns0 ! g))"
  shows "source ns0 (inverters ns0 G) q \<in> {..<n} \<union> (G - inverters ns0 G)" and "rank (source ns0 (inverters ns0 G) q) < rank g"
    and "q \<in> {..<n} \<union> G" and "q \<notin> set outs \<inter> inverters ns0 G" and "rank q < rank g"
proof -
  let ?I = "inverters ns0 G"
  show qG: "q \<in> {..<n} \<union> G" and rk: "rank q < rank g" using l g q unfolding linked_def by blast+
  show "q \<notin> set outs \<inter> ?I" using r g q unfolding reducible_def by blast
  show "source ns0 ?I q \<in> {..<n} \<union> (G - ?I)" "rank (source ns0 ?I q) < rank g"
  proof (atomize (full), cases "q \<in> ?I")
    case True
    note I = inverter_facts [OF l r True]
    have "dn_mParents (ns0 ! q) ! 0 \<in> set (dn_mParents (ns0 ! q))" by (subst I(2)) simp
    then have "rank (dn_mParents (ns0 ! q) ! 0) < rank q" using l I(1) unfolding linked_def by blast
    then show "source ns0 ?I q \<in> {..<n} \<union> (G - ?I) \<and> rank (source ns0 ?I q) < rank g"
      using True I(4,5) rk by (simp add: source_def)
  next
    case False
    then show "source ns0 ?I q \<in> {..<n} \<union> (G - ?I) \<and> rank (source ns0 ?I q) < rank g"
      using qG rk by (auto simp: source_def)
  qed
qed

lemma absorb_step_source:
  assumes k: "k < length ns" and i: "i < length (dn_mParents (ns ! k))" "i < 2" and q: "dn_mParents (ns ! k) ! i = q" "q \<noteq> k"
    and I: "isInvert (ns ! q) \<longleftrightarrow> q \<in> I" "q \<in> I \<Longrightarrow> dn_mParents (ns ! q) ! 0 = s" "q \<notin> I \<Longrightarrow> q = s"
    and s: "s \<noteq> k" "s < length ns" "\<not> isInvert (ns ! s)"
  obtains ns' t where "absorb_step k i ns = Inr ns'" "length ns' = length ns"
     "\<And>j. ns' ! j = (if j = k then (ns ! k)\<lparr>dn_mType := t, dn_mParents := (dn_mParents (ns ! k))[i := s]\<rparr>
                        else if q \<in> I \<and> j = s then (ns ! j)\<lparr>dn_mChildren := dn_mChildren (ns ! j) @ [k]\<rparr> else ns ! j)"
     "\<And>x y. gt_eval t x y = gt_eval (dn_mType (ns ! k)) (x \<noteq> (q \<in> I \<and> i = 0)) (y \<noteq> (q \<in> I \<and> i = 1))"
proof -
  have r: "s = dn_mParents (ns ! q) ! 0 \<and> s \<noteq> k \<and> s < length ns \<and> \<not> isInvert (ns ! s)" if "isInvert (ns ! q)"
    using that I(1,2) s by simp
  have e: "(if q \<in> I then s else q) = s" using I(3) by simp
  show thesis
    using absorb_step_ok [OF k i q(1) [symmetric] q(2) r] that unfolding I(1) e by blast
qed

text \<open>A gate that is not an inverter.\<close>

lemma reduce_gate:
  assumes l: "linked ns0 n G rank" and r: "reducible ns0 n G outs" and o': "outs_inv ns0 n G (set outs \<inter> inverters ns0 G) ns1"
    and inv: "gates_inv ns0 n G (set outs \<inter> inverters ns0 G) ns1 k ns" and n0: "\<forall>i<n. dn_input (ns0 ! i)"
    and k: "k \<in> G" "k \<notin> inverters ns0 G"
  obtains ns' t where "reduceInvert k ns = Inr ns'" "length ns' = length ns"
    "\<And>j. dn_input (ns' ! j) = dn_input (ns ! j)" "\<And>j. dn_mWireIdx (ns' ! j) = dn_mWireIdx (ns ! j)"
    "\<And>j. dn_mParents (ns' ! j) = (if j = k then map (source ns0 (inverters ns0 G)) (dn_mParents (ns0 ! k)) else dn_mParents (ns ! j))"
    "\<And>j. dn_mType (ns' ! j) = (if j = k then t else dn_mType (ns ! j))"
    "\<And>j g. g \<noteq> k \<Longrightarrow> count_list (dn_mChildren (ns' ! j)) g = count_list (dn_mChildren (ns ! j)) g"
    "\<And>j. k \<in> set (dn_mChildren (ns' ! j)) \<longleftrightarrow> k \<in> set (dn_mChildren (ns ! j))
       \<or> j \<in> source ns0 (inverters ns0 G) ` (set (dn_mParents (ns0 ! k)) \<inter> inverters ns0 G)"
    "\<And>x y. gt_eval t x y = gt_eval (dn_mType (ns1 ! k)) (x \<noteq> (dn_mParents (ns0 ! k) ! 0 \<in> inverters ns0 G))
        (y \<noteq> (dn_mParents (ns0 ! k) ! 1 \<in> inverters ns0 G))"
proof -
  let ?I = "inverters ns0 G"
  have len: "length ns = length ns0" "k < length ns" using inv l k(1) by (auto simp: gates_inv_def Let_def linked_def)
  have "length (dn_mParents (ns0 ! k)) = 2" using r k by (simp add: reducible_def)
  then obtain a b where ab: "dn_mParents (ns0 ! k) = [a, b]" by (auto simp: length_Suc_conv numeral_2_eq_2)
  have pk: "dn_mParents (ns ! k) = [a, b]" "dn_mType (ns ! k) = dn_mType (ns1 ! k)"
    using inv k ab by (auto simp: gates_inv_def Let_def)
  have par: "isInvert (ns ! q) \<longleftrightarrow> q \<in> ?I" "q \<noteq> k" "source ns0 ?I q \<noteq> k" "source ns0 ?I q < length ns" "\<not> isInvert (ns ! source ns0 ?I q)"
    "q \<in> ?I \<Longrightarrow> dn_mParents (ns ! q) ! 0 = source ns0 ?I q" if "q \<in> {a, b}" for q
  proof -
    have q: "q \<in> set (dn_mParents (ns0 ! k))" using that ab by simp
    note F = source_facts [OF l r k(1) q]
    show inv_q: "isInvert (ns ! q) \<longleftrightarrow> q \<in> ?I" using gates_inv_inverter [OF l r o' inv F(3) n0] F(4) by blast
    show "q \<noteq> k" "source ns0 ?I q \<noteq> k" using F(2,5) by auto
    show "source ns0 ?I q < length ns" using F(1) l len(1) by (auto simp: linked_def)
    have "source ns0 ?I q \<in> {..<n} \<union> G" "source ns0 ?I q \<notin> ?I" using F(1) l by (auto simp: inverters_def linked_def)
    then show "\<not> isInvert (ns ! source ns0 ?I q)" using gates_inv_inverter [OF l r o' inv _ n0] by blast
    show "dn_mParents (ns ! q) ! 0 = source ns0 ?I q" if "q \<in> ?I"
      using inv that by (auto simp: gates_inv_def Let_def source_def inverters_def)
  qed
  have n2: "0 < length (dn_mParents (ns ! k))" "dn_mParents (ns ! k) ! 0 = a" by (simp_all add: pk)
  have ia: "a \<in> {a, b}" "b \<in> {a, b}" by simp_all
  have src: "q \<notin> ?I \<Longrightarrow> q = source ns0 ?I q" for q by (simp add: source_def)
  obtain ns2 t2 where s2: "absorb_step k 0 ns = Inr ns2" "length ns2 = length ns"
     "\<And>j. ns2 ! j = (if j = k then (ns ! k)\<lparr>dn_mType := t2, dn_mParents := (dn_mParents (ns ! k))[0 := source ns0 ?I a]\<rparr>
          else if a \<in> ?I \<and> j = source ns0 ?I a then (ns ! j)\<lparr>dn_mChildren := dn_mChildren (ns ! j) @ [k]\<rparr> else ns ! j)"
     "\<And>x y. gt_eval t2 x y = gt_eval (dn_mType (ns ! k)) (x \<noteq> (a \<in> ?I \<and> (0::nat) = 0)) (y \<noteq> (a \<in> ?I \<and> (0::nat) = 1))"
    by (rule absorb_step_source [OF len(2) n2(1) _ n2(2) par(2) [OF ia(1)] par(1) [OF ia(1)] par(6) [OF ia(1)] src par(3) [OF ia(1)]
          par(4) [OF ia(1)] par(5) [OF ia(1)]]) (simp, assumption+, rule that)
  have p2: "dn_mParents (ns2 ! k) = [source ns0 ?I a, b]" "dn_mType (ns2 ! k) = t2" by (simp_all add: s2(3) pk)
  have i2: "isInvert (ns2 ! j) = isInvert (ns ! j)" "dn_mParents (ns2 ! j) = dn_mParents (ns ! j)" if "j \<noteq> k" for j
    using that by (simp_all add: s2(3) isInvert_def)
  have n3: "k < length ns2" "1 < length (dn_mParents (ns2 ! k))" "dn_mParents (ns2 ! k) ! 1 = b" "source ns0 ?I b < length ns2"
    using len(2) par(4) [OF ia(2)] s2(2) by (simp_all add: p2)
  have b2: "isInvert (ns2 ! b) \<longleftrightarrow> b \<in> ?I" "\<not> isInvert (ns2 ! source ns0 ?I b)" "b \<in> ?I \<Longrightarrow> dn_mParents (ns2 ! b) ! 0 = source ns0 ?I b"
    using i2 [OF par(2) [OF ia(2)]] i2 [OF par(3) [OF ia(2)]] par(1,5,6) [OF ia(2)] by simp_all
  obtain ns3 t3 where s3: "absorb_step k 1 ns2 = Inr ns3" "length ns3 = length ns2"
     "\<And>j. ns3 ! j = (if j = k then (ns2 ! k)\<lparr>dn_mType := t3, dn_mParents := (dn_mParents (ns2 ! k))[1 := source ns0 ?I b]\<rparr>
          else if b \<in> ?I \<and> j = source ns0 ?I b then (ns2 ! j)\<lparr>dn_mChildren := dn_mChildren (ns2 ! j) @ [k]\<rparr> else ns2 ! j)"
     "\<And>x y. gt_eval t3 x y = gt_eval (dn_mType (ns2 ! k)) (x \<noteq> (b \<in> ?I \<and> (1::nat) = 0)) (y \<noteq> (b \<in> ?I \<and> (1::nat) = 1))"
    by (rule absorb_step_source [OF n3(1,2) _ n3(3) par(2) [OF ia(2)] b2(1,3) src par(3) [OF ia(2)] n3(4) b2(2)]) (simp, assumption+, rule that)
  have "\<not> isInvert (ns ! k)" by (simp add: isInvert_def pk)
  moreover have "[0..<2] = [0, 1 :: nat]" by (simp add: numeral_2_eq_2)
  ultimately have run: "reduceInvert k ns = Inr ns3" using s2(1) s3(1) by (simp add: reduceInvert_def pk)
  have ch: "dn_mChildren (ns3 ! j) = dn_mChildren (ns ! j) @ (if a \<in> ?I \<and> j = source ns0 ?I a then [k] else [])
      @ (if b \<in> ?I \<and> j = source ns0 ?I b then [k] else [])" for j
    using par(3) [of a] par(3) [of b] by (auto simp: s2(3) s3(3))
  have sk: "dn_mParents (ns3 ! j) = (if j = k then map (source ns0 ?I) (dn_mParents (ns0 ! k)) else dn_mParents (ns ! j))"
    "dn_mType (ns3 ! j) = (if j = k then t3 else dn_mType (ns ! j))"
    "dn_input (ns3 ! j) = dn_input (ns ! j)" "dn_mWireIdx (ns3 ! j) = dn_mWireIdx (ns ! j)" for j
    by (simp_all add: s2(3) s3(3) ab pk)
  have mem: "k \<in> set (dn_mChildren (ns3 ! j)) \<longleftrightarrow> k \<in> set (dn_mChildren (ns ! j)) \<or> j \<in> source ns0 ?I ` (set (dn_mParents (ns0 ! k)) \<inter> ?I)" for j
    unfolding ch ab by auto
  have cnt: "count_list (dn_mChildren (ns3 ! j)) g = count_list (dn_mChildren (ns ! j)) g" if "g \<noteq> k" for j g
    using that by (simp add: ch)
  have ev: "gt_eval t3 x y = gt_eval (dn_mType (ns1 ! k)) (x \<noteq> (dn_mParents (ns0 ! k) ! 0 \<in> ?I)) (y \<noteq> (dn_mParents (ns0 ! k) ! 1 \<in> ?I))" for x y
    using s2(4) s3(4) by (simp add: ab p2(2) pk(2))
  show thesis by (rule that [OF run _ sk(3,4,1,2) cnt mem ev]) (simp add: s2(2) s3(2))
qed

end
