(* ===== verification/BDX_DagGates.thy ===== *)
theory BDX_DagGates
  imports BDX_DagReduce
begin

text \<open>
  The loop of \<open>removeInvertGates\<close> over the gates: every gate that is not an inverter takes the parents of its
  inverters as its own, and the inverters are removed from the children of their parents. The graph that is
  left is linked, has no inverter and computes the values the outputs had before.
\<close>

section \<open>One gate\<close>

lemma gates_inv_Suc:
  assumes inv: "gates_inv ns0 n G Q ns1 k ns" and len: "length ns' = length ns"
    and same: "\<And>i. dn_input (ns' ! i) = dn_input (ns ! i)" "\<And>i. dn_mWireIdx (ns' ! i) = dn_mWireIdx (ns ! i)"
    and other: "\<And>i. i \<noteq> k \<or> k \<in> inverters ns0 G \<Longrightarrow> dn_mParents (ns' ! i) = dn_mParents (ns ! i)"
      "\<And>i. i \<noteq> k \<or> k \<in> inverters ns0 G \<Longrightarrow> dn_mType (ns' ! i) = dn_mType (ns ! i)"
    and new: "k \<notin> inverters ns0 G \<Longrightarrow> dn_mParents (ns' ! k) = map (source ns0 (inverters ns0 G)) (dn_mParents (ns0 ! k))"
      "\<And>x y. k \<notin> inverters ns0 G \<Longrightarrow> gt_eval (dn_mType (ns' ! k)) x y
          = gt_eval (dn_mType (ns1 ! k)) (x \<noteq> (dn_mParents (ns0 ! k) ! 0 \<in> inverters ns0 G)) (y \<noteq> (dn_mParents (ns0 ! k) ! 1 \<in> inverters ns0 G))"
    and children: "\<And>p g. g \<noteq> k \<Longrightarrow> count_list (dn_mChildren (ns' ! p)) g = count_list (dn_mChildren (ns ! p)) g"
      "\<And>p. p \<in> {..<n} \<union> (G - inverters ns0 G) \<Longrightarrow> k \<in> inverters ns0 G \<Longrightarrow> count_list (dn_mChildren (ns' ! p)) k = 0"
      "\<And>p. p \<in> {..<n} \<union> (G - inverters ns0 G) \<Longrightarrow> k \<notin> inverters ns0 G \<Longrightarrow> k \<in> set (dn_mChildren (ns' ! p))
          \<longleftrightarrow> p \<in> set (dn_mParents (ns0 ! k)) \<or> p \<in> source ns0 (inverters ns0 G) ` set (dn_mParents (ns0 ! k))"
    and k: "k \<in> G"
  shows "gates_inv ns0 n G Q ns1 (Suc k) ns'"
proof -
  let ?I = "inverters ns0 G"
  note inv' = inv [unfolded gates_inv_def Let_def]
  have gates: "if i < Suc k \<and> i \<notin> ?I
      then dn_mParents (ns' ! i) = map (source ns0 ?I) (dn_mParents (ns0 ! i))
           \<and> (\<forall>x y. gt_eval (dn_mType (ns' ! i)) x y
                = gt_eval (dn_mType (ns1 ! i)) (x \<noteq> (dn_mParents (ns0 ! i) ! 0 \<in> ?I)) (y \<noteq> (dn_mParents (ns0 ! i) ! 1 \<in> ?I)))
      else dn_mParents (ns' ! i) = dn_mParents (ns0 ! i) \<and> dn_mType (ns' ! i) = dn_mType (ns1 ! i)" if i: "i \<in> G" for i
  proof (cases "i = k \<and> k \<notin> ?I")
    case True
    then show ?thesis using new by simp
  next
    case False
    then have keep: "dn_mParents (ns' ! i) = dn_mParents (ns ! i)" "dn_mType (ns' ! i) = dn_mType (ns ! i)"
      using other by blast+
    have c: "i < Suc k \<and> i \<notin> ?I \<longleftrightarrow> i < k \<and> i \<notin> ?I" using False by (auto simp: less_Suc_eq)
    show ?thesis unfolding keep c using inv' i by blast
  qed
  have counts: "count_list (dn_mChildren (ns' ! p)) g = (if g \<in> Q \<or> g < Suc k then 0 else count_list (dn_mParents (ns0 ! g)) p)"
    if p: "p \<in> {..<n} \<union> (G - ?I)" and g: "g \<in> ?I" for p g
  proof (cases "g = k")
    case True
    then show ?thesis using children(2) [OF p] g by simp
  next
    case False
    then have "g < Suc k \<longleftrightarrow> g < k" by auto
    moreover have "count_list (dn_mChildren (ns ! p)) g = (if g \<in> Q \<or> g < k then 0 else count_list (dn_mParents (ns0 ! g)) p)"
      using inv' p g by blast
    ultimately show ?thesis using children(1) [OF False] by simp
  qed
  have members: "g \<in> set (dn_mChildren (ns' ! p))
      \<longleftrightarrow> g \<in> G \<and> (p \<in> set (dn_mParents (ns0 ! g)) \<or> g < Suc k \<and> p \<in> source ns0 ?I ` set (dn_mParents (ns0 ! g)))"
    if p: "p \<in> {..<n} \<union> (G - ?I)" and g: "g \<notin> ?I" for p g
  proof (cases "g = k")
    case True
    then show ?thesis using children(3) [OF p] g k by simp
  next
    case False
    have "g \<in> set (dn_mChildren (ns' ! p)) \<longleftrightarrow> g \<in> set (dn_mChildren (ns ! p))"
      using children(1) [OF False, of p] by (metis count_list_0_iff)
    moreover have "g < Suc k \<longleftrightarrow> g < k" using False by auto
    moreover have "g \<in> set (dn_mChildren (ns ! p))
      \<longleftrightarrow> g \<in> G \<and> (p \<in> set (dn_mParents (ns0 ! g)) \<or> g < k \<and> p \<in> source ns0 ?I ` set (dn_mParents (ns0 ! g)))"
      using inv' p g by blast
    ultimately show ?thesis by blast
  qed
  show ?thesis unfolding gates_inv_def Let_def using inv' len same gates counts members by (intro conjI ballI allI impI) simp_all
qed

lemma reduce_inverter:
  assumes l: "linked ns0 n G rank" and r: "reducible ns0 n G outs" and o': "outs_inv ns0 n G (set outs \<inter> inverters ns0 G) ns1"
    and inv: "gates_inv ns0 n G (set outs \<inter> inverters ns0 G) ns1 k ns" and n0: "\<forall>i<n. dn_input (ns0 ! i)"
    and k: "k \<in> inverters ns0 G"
  shows "\<exists>ns'. reduceInvert k ns = Inr ns' \<and> gates_inv ns0 n G (set outs \<inter> inverters ns0 G) ns1 (Suc k) ns'"
proof -
  let ?I = "inverters ns0 G" and ?Q = "set outs \<inter> inverters ns0 G"
  define p where "p = dn_mParents (ns0 ! k) ! 0"
  note K = inverter_facts [OF l r k, folded p_def]
  have par: "dn_mParents (ns ! k) = [p]" using inv K(1,2) k by (simp add: gates_inv_def Let_def)
  have pG: "p \<in> {..<n} \<union> (G - ?I)" using K(4,5) by blast
  have kG: "k \<in> {..<n} \<union> G" using K(1) by blast
  have cnt: "count_list (dn_mChildren (ns ! q)) k = (if k \<in> ?Q then 0 else if p = q then 1 else 0)" if "q \<in> {..<n} \<union> (G - ?I)" for q
  proof -
    have "count_list (dn_mChildren (ns ! q)) k = (if k \<in> ?Q \<or> k < k then 0 else count_list (dn_mParents (ns0 ! k)) q)"
      using inv that k unfolding gates_inv_def Let_def by blast
    then show ?thesis by (subst (asm) K(2)) simp
  qed
  show ?thesis
  proof (cases "k \<in> set outs")
    case True
    then have Q: "k \<in> ?Q" using k by blast
    have "\<not> isInvert (ns ! k)" using gates_inv_inverter [OF l r o' inv kG n0] True by blast
    moreover have "\<not> isInvert (ns ! p)" using gates_inv_inverter [OF l r o' inv K(5) n0] K(4) by blast
    ultimately have "reduceInvert k ns = Inr ns" by (simp add: reduceInvert_def par absorb_step_def)
    moreover have "gates_inv ns0 n G ?Q ns1 (Suc k) ns"
      by (rule gates_inv_Suc [OF inv]) (use k K(1) Q cnt in simp_all)
    ultimately show ?thesis by blast
  next
    case False
    then have nQ: "k \<notin> ?Q" by blast
    have i: "isInvert (ns ! k)" using gates_inv_inverter [OF l r o' inv kG n0] k False by blast
    have "count_list (dn_mChildren (ns ! p)) k = 1" using cnt [OF pG] nQ by simp
    then have "k \<in> set (dn_mChildren (ns ! p))" by (metis count_list_0_iff zero_neq_one)
    from remove_child_ok [OF this] obtain cs where cs: "remove_child p k ns = Inr (ns[p := (ns ! p)\<lparr>dn_mChildren := cs\<rparr>])"
      "\<And>z. count_list cs z = count_list (dn_mChildren (ns ! p)) z - (if z = k then 1 else 0)" by blast
    let ?ns = "ns[p := (ns ! p)\<lparr>dn_mChildren := cs\<rparr>]"
    have pl: "p < length ns" using K(5) l inv by (auto simp: linked_def gates_inv_def Let_def)
    have nth: "?ns ! j = (if j = p then (ns ! p)\<lparr>dn_mChildren := cs\<rparr> else ns ! j)" for j using pl by simp
    have "reduceInvert k ns = Inr ?ns" using i cs(1) by (simp add: reduceInvert_def par)
    moreover have "gates_inv ns0 n G ?Q ns1 (Suc k) ?ns"
    proof (rule gates_inv_Suc [OF inv])
      show "count_list (dn_mChildren (?ns ! q)) k = 0" if "q \<in> {..<n} \<union> (G - ?I)" for q
        using cnt [OF that] cnt [OF pG] nQ by (simp add: nth cs(2))
    qed (use k K(1) in \<open>simp_all add: nth cs(2)\<close>)
    ultimately show ?thesis by blast
  qed
qed

lemma reduce_step:
  assumes l: "linked ns0 n G rank" and r: "reducible ns0 n G outs" and o': "outs_inv ns0 n G (set outs \<inter> inverters ns0 G) ns1"
    and inv: "gates_inv ns0 n G (set outs \<inter> inverters ns0 G) ns1 k ns" and n0: "\<forall>i<n. dn_input (ns0 ! i)"
    and k: "k \<in> G"
  shows "\<exists>ns'. reduceInvert k ns = Inr ns' \<and> gates_inv ns0 n G (set outs \<inter> inverters ns0 G) ns1 (Suc k) ns'"
proof (cases "k \<in> inverters ns0 G")
  case True
  show ?thesis by (rule reduce_inverter [OF l r o' inv n0 True])
next
  case False
  let ?I = "inverters ns0 G"
  obtain ns' t where R: "reduceInvert k ns = Inr ns'" "length ns' = length ns"
    "\<And>j. dn_input (ns' ! j) = dn_input (ns ! j)" "\<And>j. dn_mWireIdx (ns' ! j) = dn_mWireIdx (ns ! j)"
    "\<And>j. dn_mParents (ns' ! j) = (if j = k then map (source ns0 ?I) (dn_mParents (ns0 ! k)) else dn_mParents (ns ! j))"
    "\<And>j. dn_mType (ns' ! j) = (if j = k then t else dn_mType (ns ! j))"
    "\<And>j g. g \<noteq> k \<Longrightarrow> count_list (dn_mChildren (ns' ! j)) g = count_list (dn_mChildren (ns ! j)) g"
    "\<And>j. k \<in> set (dn_mChildren (ns' ! j))
       \<longleftrightarrow> k \<in> set (dn_mChildren (ns ! j)) \<or> j \<in> source ns0 ?I ` (set (dn_mParents (ns0 ! k)) \<inter> ?I)"
    "\<And>x y. gt_eval t x y = gt_eval (dn_mType (ns1 ! k)) (x \<noteq> (dn_mParents (ns0 ! k) ! 0 \<in> ?I)) (y \<noteq> (dn_mParents (ns0 ! k) ! 1 \<in> ?I))"
    by (rule reduce_gate [OF l r o' inv n0 k False]) (rule that)
  have mem: "k \<in> set (dn_mChildren (ns' ! p)) \<longleftrightarrow> p \<in> set (dn_mParents (ns0 ! k)) \<or> p \<in> source ns0 ?I ` set (dn_mParents (ns0 ! k))"
    if "p \<in> {..<n} \<union> (G - ?I)" for p
  proof -
    have "k \<in> set (dn_mChildren (ns ! p)) \<longleftrightarrow> p \<in> set (dn_mParents (ns0 ! k))"
      using inv that False k unfolding gates_inv_def Let_def by blast
    then show ?thesis unfolding R(8) by (auto simp: source_def)
  qed
  have "gates_inv ns0 n G (set outs \<inter> ?I) ns1 (Suc k) ns'"
  proof (rule gates_inv_Suc [OF inv R(2-4)])
    show "dn_mParents (ns' ! i) = dn_mParents (ns ! i)" "dn_mType (ns' ! i) = dn_mType (ns ! i)" if "i \<noteq> k \<or> k \<in> ?I" for i
      using that False unfolding R(5,6) by simp_all
    show "dn_mParents (ns' ! k) = map (source ns0 ?I) (dn_mParents (ns0 ! k))" unfolding R(5) by simp
    show "gt_eval (dn_mType (ns' ! k)) x y
        = gt_eval (dn_mType (ns1 ! k)) (x \<noteq> (dn_mParents (ns0 ! k) ! 0 \<in> ?I)) (y \<noteq> (dn_mParents (ns0 ! k) ! 1 \<in> ?I))" for x y
      unfolding R(6) using R(9) by simp
    show "count_list (dn_mChildren (ns' ! p)) k = 0" if "k \<in> ?I" for p using False that by blast
  qed (use R(7) mem k in blast)+
  then show ?thesis using R(1) by blast
qed

section \<open>The graph without inverters\<close>

lemma gates_reduced:
  assumes l: "linked ns0 n G rank" and r: "reducible ns0 n G outs" and o': "outs_inv ns0 n G (set outs \<inter> inverters ns0 G) ns1"
    and n0: "\<forall>i<n. dn_input (ns0 ! i)" and G: "G = {n..<length ns0}"
  shows "\<exists>ns'. fold_r reduceInvert [n..<length ns1] ns1 = Inr ns' \<and> gates_inv ns0 n G (set outs \<inter> inverters ns0 G) ns1 (length ns0) ns'"
proof -
  let ?P = "\<lambda>j. gates_inv ns0 n G (set outs \<inter> inverters ns0 G) ns1 (n + j)"
  have len: "length ns1 = length ns0" "n \<le> length ns0" using o' l by (simp_all add: outs_inv_def linked_def)
  have "\<exists>ns'. fold_r reduceInvert [n..<length ns1] ns1 = Inr ns' \<and> ?P (length [n..<length ns1]) ns'"
  proof (rule fold_r_invariant)
    show "?P 0 ns1" using gates_inv_start [OF l r o'] by simp
    fix j ns assume j: "j < length [n..<length ns1]" and inv: "?P j ns"
    have "n + j \<in> G" using j len by (simp add: G)
    from reduce_step [OF l r o' inv n0 this]
    show "\<exists>ns'. reduceInvert ([n..<length ns1] ! j) ns = Inr ns' \<and> ?P (Suc j) ns'" using j by simp
  qed
  then show ?thesis using len by simp
qed

text \<open>What is known of a gate that is left: its type is the old one with inputs and output negated where the
  parents or the gate itself carry negated values.\<close>

lemma reduced_gate:
  assumes l: "linked ns0 n G rank" and r: "reducible ns0 n G outs" and o': "outs_inv ns0 n G (set outs \<inter> inverters ns0 G) ns1"
    and inv: "gates_inv ns0 n G (set outs \<inter> inverters ns0 G) ns1 (length ns0) ns2" and g: "g \<in> G - inverters ns0 G"
  obtains a b where "dn_mParents (ns0 ! g) = [a, b]"
    "dn_mParents (ns2 ! g) = [source ns0 (inverters ns0 G) a, source ns0 (inverters ns0 G) b]" "\<not> dn_input (ns2 ! g)"
    "\<And>x y. gt_eval (dn_mType (ns2 ! g)) x y
       = (gt_eval (dn_mType (ns0 ! g)) (x \<noteq> ((a \<in> inverters ns0 G) \<noteq> flipped ns0 (set outs \<inter> inverters ns0 G) a))
            (y \<noteq> ((b \<in> inverters ns0 G) \<noteq> flipped ns0 (set outs \<inter> inverters ns0 G) b))
          \<noteq> flipped ns0 (set outs \<inter> inverters ns0 G) g)"
proof -
  let ?I = "inverters ns0 G" and ?Q = "set outs \<inter> inverters ns0 G"
  have gG: "g \<in> G" "g \<notin> ?I" "g < length ns0" "g \<notin> ?Q" "\<not> dn_input (ns0 ! g)" using g l by (auto simp: linked_def)
  have "length (dn_mParents (ns0 ! g)) = 2" using r g by (simp add: reducible_def)
  then obtain a b where ab: "dn_mParents (ns0 ! g) = [a, b]" by (auto simp: length_Suc_conv numeral_2_eq_2)
  have P: "dn_mParents (ns2 ! g) = [source ns0 ?I a, source ns0 ?I b]" "dn_input (ns2 ! g) = dn_input (ns0 ! g)"
    "gt_eval (dn_mType (ns2 ! g)) x y = gt_eval (dn_mType (ns1 ! g)) (x \<noteq> (a \<in> ?I)) (y \<noteq> (b \<in> ?I))" for x y
    using inv gG ab by (simp_all add: gates_inv_def Let_def)
  have T: "gt_eval (dn_mType (ns1 ! g)) x y = (gt_eval (dn_mType (ns0 ! g)) (x \<noteq> flipped ns0 ?Q a) (y \<noteq> flipped ns0 ?Q b) \<noteq> flipped ns0 ?Q g)" for x y
    using o' gG(1,4) ab by (simp add: outs_inv_def)
  have x: "((p \<noteq> q) \<noteq> s) \<longleftrightarrow> (p \<noteq> (q \<noteq> s))" for p q s by blast
  have ev: "gt_eval (dn_mType (ns2 ! g)) x y
       = (gt_eval (dn_mType (ns0 ! g)) (x \<noteq> ((a \<in> ?I) \<noteq> flipped ns0 ?Q a)) (y \<noteq> ((b \<in> ?I) \<noteq> flipped ns0 ?Q b)) \<noteq> flipped ns0 ?Q g)" for x y
    unfolding P(3) T x by (rule refl)
  show thesis by (rule that [OF ab P(1) _ ev]) (simp add: P(2) gG(5))
qed

lemma reduced_linked:
  assumes l: "linked ns0 n G rank" and r: "reducible ns0 n G outs" and o': "outs_inv ns0 n G (set outs \<inter> inverters ns0 G) ns1"
    and inv: "gates_inv ns0 n G (set outs \<inter> inverters ns0 G) ns1 (length ns0) ns2"
  shows "linked ns2 n (G - inverters ns0 G) rank"
    and "g \<in> G - inverters ns0 G \<Longrightarrow> is_xor (dn_mType (ns2 ! g)) \<or> and_like (dn_mType (ns2 ! g))"
proof -
  let ?I = "inverters ns0 G" and ?Q = "set outs \<inter> inverters ns0 G"
  have len: "length ns2 = length ns0" "G \<subseteq> {n..<length ns0}" "n \<le> length ns0" "0 < n"
    using inv l by (simp_all add: gates_inv_def Let_def linked_def)
  have type: "(is_xor (dn_mType (ns2 ! g)) \<or> and_like (dn_mType (ns2 ! g))) \<and> addable (dn_mType (ns2 ! g))" if g: "g \<in> G - ?I" for g
  proof -
    have "dn_mType (ns0 ! g) = gt_Xor \<or> dn_mType (ns0 ! g) = gt_And" using r g unfolding reducible_def by blast
    moreover obtain a b where "\<And>x y. gt_eval (dn_mType (ns2 ! g)) x y
       = (gt_eval (dn_mType (ns0 ! g)) (x \<noteq> ((a \<in> ?I) \<noteq> flipped ns0 ?Q a)) (y \<noteq> ((b \<in> ?I) \<noteq> flipped ns0 ?Q b)) \<noteq> flipped ns0 ?Q g)"
      by (rule reduced_gate [OF l r o' inv g]) (rule that)
    moreover note t = calculation
    show ?thesis using flipped_gates [OF allI [OF allI [OF t(2)]] t(1)] by blast
  qed
  then show "is_xor (dn_mType (ns2 ! g)) \<or> and_like (dn_mType (ns2 ! g))" if "g \<in> G - ?I" using that by blast
  have parents: "dn_mParents (ns2 ! g) = map (source ns0 ?I) (dn_mParents (ns0 ! g)) \<and> length (dn_mParents (ns2 ! g)) = 2 \<and> \<not> dn_input (ns2 ! g)"
    if "g \<in> G - ?I" for g
    by (rule reduced_gate [OF l r o' inv that]) simp
  have below: "p \<in> {..<n} \<union> (G - ?I) \<and> rank p < rank g" if g: "g \<in> G - ?I" and p: "p \<in> set (dn_mParents (ns2 ! g))" for g p
  proof -
    obtain q where "q \<in> set (dn_mParents (ns0 ! g))" "p = source ns0 ?I q" using p parents [OF g] by auto
    then show ?thesis using source_facts(1,2) [OF l r] g by blast
  qed
  have children: "set (dn_mChildren (ns2 ! p)) = {g \<in> G - ?I. p \<in> set (dn_mParents (ns2 ! g))}" if p: "p \<in> {..<n} \<union> (G - ?I)" for p
  proof -
    have pI: "p \<notin> ?I" using p l by (auto simp: inverters_def linked_def)
    have "g \<in> set (dn_mChildren (ns2 ! p)) \<longleftrightarrow> g \<in> G - ?I \<and> p \<in> set (dn_mParents (ns2 ! g))" for g
    proof (cases "g \<in> ?I")
      case True
      then have "g < length ns0" using len(2) by (auto simp: inverters_def)
      then have "count_list (dn_mChildren (ns2 ! p)) g = 0" using inv p True unfolding gates_inv_def Let_def by simp
      then show ?thesis using True by (simp add: count_list_0_iff)
    next
      case False
      have "g \<in> set (dn_mChildren (ns2 ! p)) \<longleftrightarrow> g \<in> G \<and> (p \<in> set (dn_mParents (ns0 ! g)) \<or> g < length ns0 \<and> p \<in> source ns0 ?I ` set (dn_mParents (ns0 ! g)))"
        using inv p False unfolding gates_inv_def Let_def by blast
      also have "\<dots> \<longleftrightarrow> g \<in> G \<and> p \<in> source ns0 ?I ` set (dn_mParents (ns0 ! g))"
        using pI len(2) by (force simp: source_def image_iff)
      finally show ?thesis using False parents [of g] by auto
    qed
    then show ?thesis by blast
  qed
  have idx: "dn_mWireIdx (ns2 ! p) = p" if "p \<in> {..<n} \<union> (G - ?I)" for p
    using inv l that by (auto simp: gates_inv_def Let_def linked_def)
  show "linked ns2 n (G - ?I) rank"
    unfolding linked_def
  proof (intro conjI ballI)
    show "0 < n" "n \<le> length ns2" using len by simp_all
    show "G - ?I \<subseteq> {n..<length ns2}" using len(1,2) by auto
    fix p assume p: "p \<in> {..<n} \<union> (G - ?I)"
    show "dn_mWireIdx (ns2 ! p) = p" by (rule idx [OF p])
    show "set (dn_mChildren (ns2 ! p)) = {g \<in> G - ?I. p \<in> set (dn_mParents (ns2 ! g))}" by (rule children [OF p])
  next
    fix g assume g: "g \<in> G - ?I"
    show "\<not> dn_input (ns2 ! g)" "addable (dn_mType (ns2 ! g))" using parents [OF g] type [OF g] by blast+
    show "length (dn_mParents (ns2 ! g)) = 1 \<or> length (dn_mParents (ns2 ! g)) = 2" using parents [OF g] by blast
    show "set (dn_mParents (ns2 ! g)) \<subseteq> {..<n} \<union> (G - ?I)" using below [OF g] by blast
    show "rank p < rank g" if "p \<in> set (dn_mParents (ns2 ! g))" for p using below [OF g that] by blast
  qed
qed

lemma flipped_output:
  assumes "reducible ns0 n G outs" and "i \<in> set outs"
  shows "\<not> flipped ns0 (set outs \<inter> inverters ns0 G) i"
  using assms unfolding flipped_def reducible_def by blast

text \<open>The values of the graph that is left: negated at the parents of inverted outputs.\<close>

lemma reduced_values:
  assumes l: "linked ns0 n G rank" and r: "reducible ns0 n G outs" and o': "outs_inv ns0 n G (set outs \<inter> inverters ns0 G) ns1"
    and inv: "gates_inv ns0 n G (set outs \<inter> inverters ns0 G) ns1 (length ns0) ns2" and v: "dag_values ns0 n G x v"
  defines "v' \<equiv> \<lambda>i. v i \<noteq> flipped ns0 (set outs \<inter> inverters ns0 G) i"
  shows "dag_values ns2 n (G - inverters ns0 G) x v'"
    and "w \<in> set outs \<Longrightarrow> v' (source ns0 (inverters ns0 G) w) = v w \<and> source ns0 (inverters ns0 G) w \<in> G - inverters ns0 G"
proof -
  let ?I = "inverters ns0 G" and ?Q = "set outs \<inter> inverters ns0 G"
  note F = flipped_not_inverter [OF l r order_refl]
  have vI: "v a = (\<not> v (dn_mParents (ns0 ! a) ! 0))" if "a \<in> ?I" for a
  proof -
    note A = inverter_facts [OF l r that]
    have "v a = node_value (ns0 ! a) x v" using v A(1) by (simp add: dag_values_def)
    then show ?thesis using A(3) by (simp add: node_value_def)
  qed
  have src: "(v' (source ns0 ?I a) \<noteq> ((a \<in> ?I) \<noteq> flipped ns0 ?Q a)) = v a" if "a \<notin> ?Q" for a
    using that vI [of a] F(1) [of a] F(2) [of a] by (auto simp: source_def v'_def)
  have "v' i = x i" if "i < n" for i
  proof -
    have "i \<notin> G" using l that by (auto simp: linked_def)
    then show ?thesis using F(1) [of i] v that by (auto simp: v'_def dag_values_def)
  qed
  moreover have "v' g = node_value (ns2 ! g) x v'" if g: "g \<in> G - ?I" for g
  proof -
    obtain a b where ab: "dn_mParents (ns0 ! g) = [a, b]"
      "dn_mParents (ns2 ! g) = [source ns0 ?I a, source ns0 ?I b]"
      "\<And>x y. gt_eval (dn_mType (ns2 ! g)) x y
       = (gt_eval (dn_mType (ns0 ! g)) (x \<noteq> ((a \<in> ?I) \<noteq> flipped ns0 ?Q a)) (y \<noteq> ((b \<in> ?I) \<noteq> flipped ns0 ?Q b)) \<noteq> flipped ns0 ?Q g)"
      by (rule reduced_gate [OF l r o' inv g]) (rule that)
    have q: "a \<notin> ?Q" "b \<notin> ?Q" using source_facts(4) [OF l r, of g] g ab(1) by auto
    have "node_value (ns2 ! g) x v' = (gt_eval (dn_mType (ns0 ! g)) (v a) (v b) \<noteq> flipped ns0 ?Q g)"
      unfolding node_value_def ab(2,3) using src [OF q(1)] src [OF q(2)] by (simp only: list.size nth_Cons_0 nth_Cons_Suc One_nat_def) simp
    moreover have "v g = gt_eval (dn_mType (ns0 ! g)) (v a) (v b)" using v g ab(1) by (simp add: dag_values_def node_value_def)
    ultimately show ?thesis by (simp add: v'_def)
  qed
  ultimately show "dag_values ns2 n (G - ?I) x v'" by (simp add: dag_values_def)
  show "v' (source ns0 ?I w) = v w \<and> source ns0 ?I w \<in> G - ?I" if w: "w \<in> set outs"
  proof (cases "w \<in> ?I")
    case True
    then have "flipped ns0 ?Q (dn_mParents (ns0 ! w) ! 0)" using F(2) [OF True] w by simp
    then show ?thesis using F(1) vI [OF True] True by (simp add: source_def v'_def)
  next
    case False
    then show ?thesis using flipped_output [OF r w] w r by (auto simp: source_def v'_def reducible_def)
  qed
qed

lemma removeInvertGates_ok:
  assumes l: "linked (dag_mNodes d) n G rank" and G: "G = {n..<length (dag_mNodes d)}" and n: "dag_InputWireCount d = n"
    and r: "reducible (dag_mNodes d) n G outs" and o': "dag_mOutputs d = map Some outs" and n0: "\<forall>i<n. dn_input (dag_mNodes d ! i)"
    and v: "\<And>x. dag_values (dag_mNodes d) n G x (v x)"
  obtains ns' v' where "removeInvertGates d
        = Inr (d\<lparr>dag_mNodes := ns', dag_mOutputs := map (Some \<circ> source (dag_mNodes d) (inverters (dag_mNodes d) G)) outs\<rparr>)"
    "linked ns' n (G - inverters (dag_mNodes d) G) rank" "length ns' = length (dag_mNodes d)"
    "\<And>x. dag_values ns' n (G - inverters (dag_mNodes d) G) x (v' x)"
    "\<And>g. g \<in> G - inverters (dag_mNodes d) G \<Longrightarrow> is_xor (dn_mType (ns' ! g)) \<or> and_like (dn_mType (ns' ! g))"
    "\<And>x w. w \<in> set outs \<Longrightarrow> v' x (source (dag_mNodes d) (inverters (dag_mNodes d) G) w) = v x w
        \<and> source (dag_mNodes d) (inverters (dag_mNodes d) G) w \<in> G - inverters (dag_mNodes d) G"
proof -
  let ?ns = "dag_mNodes d" and ?I = "inverters (dag_mNodes d) G"
  obtain ns1 where s1: "fold_r reduce_output [0..<length outs] d = Inr (d\<lparr>dag_mNodes := ns1, dag_mOutputs := map (Some \<circ> source ?ns ?I) outs\<rparr>)"
    and inv1: "outs_inv ?ns n G (set outs \<inter> ?I) ns1" using outputs_reduced [OF l r o'] by blast
  obtain ns2 where s2: "fold_r reduceInvert [n..<length ns1] ns1 = Inr ns2" and inv2: "gates_inv ?ns n G (set outs \<inter> ?I) ns1 (length ?ns) ns2"
    using gates_reduced [OF l r inv1 n0 G] by blast
  have "dag_InputWireCount (d\<lparr>dag_mNodes := ns1, dag_mOutputs := map (Some \<circ> source ?ns ?I) outs\<rparr>) = n"
    using n by (simp add: dag_InputWireCount_def)
  then have "removeInvertGates d = Inr (d\<lparr>dag_mNodes := ns2, dag_mOutputs := map (Some \<circ> source ?ns ?I) outs\<rparr>)"
    unfolding removeInvertGates_def using s1 s2 by (simp add: o')
  from that [OF this reduced_linked(1) [OF l r inv1 inv2] _ reduced_values(1) [OF l r inv1 inv2 v] reduced_linked(2) [OF l r inv1 inv2]
      reduced_values(2) [OF l r inv1 inv2 v]]
  show thesis using inv2 by (simp add: gates_inv_def Let_def)
qed

end
