(* ===== verification/BDX_DagCircuit.thy ===== *)
theory BDX_DagCircuit
  imports BDX_DagGates
begin

text \<open>
  \<open>Circuit::readBris\<close> end to end: the circuit read from a file computes what the file means, as read and
  with its inverters absorbed; what the reduction does to files it was not written for; and
  \<open>DagCircuit::writeBris\<close>.
\<close>

section \<open>Reading\<close>

lemma bris_dag_start_facts:
  assumes ok: "bris_ok io nout gates"
  shows "dag_InputWireCount (bris_dag io nout (length gates) gates) = fst io + snd io"
    and "dag_mOutputs (bris_dag io nout (length gates) gates)
       = map Some [fst io + snd io + length gates - nout..<fst io + snd io + length gates]"
    and "set [fst io + snd io + length gates - nout..<fst io + snd io + length gates] \<subseteq> {fst io + snd io..<fst io + snd io + length gates}"
proof -
  let ?n = "fst io + snd io" and ?N = "fst io + snd io + length gates"
  have b: "?N < 2 ^ 64" "nout \<le> length gates" "set (map gate_out gates) = {?n..<?N}" using ok by (simp_all add: bris_ok_def Let_def)
  show "dag_InputWireCount (bris_dag io nout (length gates) gates) = ?n"
    using b(1) unfolding dag_InputWireCount_def bris_dag_simps by (intro mod_less) linarith
  show s: "set [?N - nout..<?N] \<subseteq> {?n..<?N}" using b(2) by auto
  then show "dag_mOutputs (bris_dag io nout (length gates) gates) = map Some [?N - nout..<?N]"
    unfolding bris_dag_simps b(3) by (intro map_cong refl) (metis (no_types, lifting) in_mono)
qed

text \<open>C29. Reading a file: whatever order its gates come in, \<open>Circuit::readBris\<close> without reduction returns a
  well-formed circuit with one gate per gate of the file and its input counts, and evaluating the circuit on
  any inputs gives the values the file assigns to its last wires. The depth of the recursion is bounded by the
  number of gates.\<close>

theorem readBris_correct:
  assumes ok: "bris_ok io nout gates" and fuel: "length gates + 1 < fuel"
  shows "\<exists>cir. Circuit_readBris (Circuit_default u) False (bris_words io nout gates) False fuel = Some (Inr cir)
     \<and> circuit_wf cir \<and> mInputs cir = io \<and> length (mGates cir) = length gates
     \<and> (\<forall>x. circuit_sem cir x = bris_sem io nout gates x)"
proof -
  let ?d = "bris_dag io nout (length gates) gates" and ?n = "fst io + snd io" and ?G = "{fst io + snd io..<fst io + snd io + length gates}"
  note S = bris_dag_start_facts [OF ok]
  have "card ?G + 1 < fuel" "\<forall>o'\<in>set (dag_mOutputs ?d). \<exists>w\<in>{..<?n} \<union> ?G. o' = Some w"
    using fuel S(3) unfolding S(2) by auto
  from toCircuit_ok [where u = u, OF bris_linked [OF ok] bris_values [OF ok] S(1) _ _ this]
  obtain cir where c: "toCircuit ?d fuel (Circuit_default u) = Some (Inr cir)" "circuit_wf cir" "mInputs cir = io"
    "length (mGates cir) = card ?G" "\<forall>x. circuit_sem cir x = map (\<lambda>o'. bris_run gates x (the o')) (dag_mOutputs ?d)"
    by (simp only: bris_dag_simps simp_thms list.size length_map length_upt le_refl diff_zero) blast
  have "dag_gate_count ?d = length gates" using S(1) by (simp add: dag_gate_count_def)
  then have "Circuit_readBris (Circuit_default u) False (bris_words io nout gates) False fuel = Some (Inr cir)"
    using c(1,4) readBris_ok [OF ok] by (simp add: Circuit_readBris_def)
  moreover have "circuit_sem cir x = bris_sem io nout gates x" for x
    using c(5) by (simp add: S(2) bris_sem_def Let_def comp_def del: bris_dag_simps)
  ultimately show ?thesis using c(2-4) by auto
qed

text \<open>A full adder, its gates out of index order.\<close>

definition adder_file :: "bris_gate list" where
  "adder_file = [([0, 1], 3, ''XOR''), ([0, 1], 5, ''AND''), ([3, 2], 4, ''AND''), ([4], 6, ''INV''), ([5], 7, ''INV''),
                 ([6, 7], 8, ''AND''), ([3, 2], 9, ''XOR''), ([8], 10, ''INV'')]"

lemma readBris_correct_witness:
  "\<exists>cir. Circuit_readBris (Circuit_default (0, 0)) False (bris_words (2, 1) 2 adder_file) False 10 = Some (Inr cir)
     \<and> circuit_wf cir \<and> mInputs cir = (2, 1) \<and> length (mGates cir) = length adder_file
     \<and> (\<forall>x. circuit_sem cir x = bris_sem (2, 1) 2 adder_file x)"
proof (rule readBris_correct)
  show "bris_ok (2, 1) 2 adder_file"
    by (simp add: bris_ok_def adder_file_def gate_ok_def gate_out_def Let_def) (auto simp: atLeastLessThan_def)
  show "length adder_file + 1 < 10" by (simp add: adder_file_def)
qed

section \<open>Reading with the inverters absorbed\<close>

text \<open>The files \<open>removeInvertGates\<close> is correct for: no inverter feeds an inverter, and the gate an output inverter
  negates is not an output itself, feeds no other inverter and no gate twice; that inverter feeds no gate.\<close>

definition bris_reducible :: "nat \<times> nat \<Rightarrow> nat \<Rightarrow> bris_gate list \<Rightarrow> bool" where
  "bris_reducible io nout gates \<longleftrightarrow>
     (let n = fst io + snd io; s = n + length gates - nout;
          invs = filter (\<lambda>(_, _, k). k = ''INV'') gates
      in list_all (\<lambda>(ins, out, _). ins ! 0 \<notin> set (map gate_out invs)
           \<and> (s \<le> out \<longrightarrow> n \<le> ins ! 0 \<and> ins ! 0 < s
                \<and> list_all (\<lambda>(ins', out', _). ins' ! 0 = ins ! 0 \<longrightarrow> out' = out) invs
                \<and> list_all (\<lambda>(ins', _, _). count_list ins' (ins ! 0) \<le> 1 \<and> out \<notin> set ins') gates)) invs)"

lemma count_gate_children:
  assumes "distinct (map gate_out gates)"
  shows "(ins, g, k) \<in> set gates \<Longrightarrow> count_list (gate_children gates p) g = count_list ins p"
    and "g \<notin> set (map gate_out gates) \<Longrightarrow> count_list (gate_children gates p) g = 0"
proof -
  show none: "count_list (gate_children gs p) g = 0" if "g \<notin> set (map gate_out gs)" for gs
    using that by (induction gs) (auto simp: gate_children_def gate_out_def count_list_0_iff)
  have rep: "count_list (replicate m x) y = (if x = y then m else 0)" for m :: nat and x y :: nat
    by (induction m) auto
  have cons: "gate_children (h # gs) p = replicate (count_list (fst h) p) (gate_out h) @ gate_children gs p" for h gs
    by (cases h) (simp add: gate_children_def gate_out_def)
  show "count_list (gate_children gates p) g = count_list ins p" if "(ins, g, k) \<in> set gates"
    using assms that
  proof (induction gates)
    case (Cons h gates)
    show ?case
    proof (cases "gate_out h = g")
      case True
      then have n: "g \<notin> set (map gate_out gates)" using Cons.prems(1) by simp
      have "(ins, g, k) \<notin> set gates"
      proof
        assume "(ins, g, k) \<in> set gates"
        then have "gate_out (ins, g, k) \<in> set (map gate_out gates)" by (simp only: list.set_map imageI)
        then show False using n by (simp add: gate_out_def)
      qed
      then have "h = (ins, g, k)" using Cons.prems(2) by simp
      then show ?thesis using none [OF n] by (simp add: cons rep gate_out_def)
    next
      case False
      then have "(ins, g, k) \<in> set gates" using Cons.prems(2) by (auto simp: gate_out_def)
      then show ?thesis using Cons.IH Cons.prems(1) False by (simp add: cons rep)
    qed
  qed simp
qed

text \<open>The nodes of a file's graph in terms of the file.\<close>

lemma bris_node:
  assumes ok: "bris_ok io nout gates" and g: "(ins, out, k) \<in> set gates"
  shows "dag_mNodes (bris_dag io nout (length gates) gates) ! out
     = \<lparr>dn_input = False, dn_mType = bris_type k, dn_mWireIdx = out, dn_mParents = ins, dn_mChildren = gate_children gates out\<rparr>"
    and "gate_ok (ins, out, k)"
  using node_of_gate [OF ok g] ok g by (simp_all add: bris_ok_def Let_def list_all_iff)

lemma bris_inverters:
  assumes ok: "bris_ok io nout gates"
  shows "inverters (dag_mNodes (bris_dag io nout (length gates) gates)) {fst io + snd io..<fst io + snd io + length gates}
       = {out. \<exists>ins. (ins, out, ''INV'') \<in> set gates}" (is "?I = ?J")
proof -
  have i: "isInvert (dag_mNodes (bris_dag io nout (length gates) gates) ! out) \<longleftrightarrow> k = ''INV''" if g: "(ins, out, k) \<in> set gates" for ins out k
    unfolding bris_node(1) [OF ok g] isInvert_def using bris_node(2) [OF ok g] by (auto simp: gate_ok_def bris_type_def)
  show ?thesis
  proof (intro equalityI subsetI)
    fix out assume "out \<in> ?I"
    then have o': "out \<in> {fst io + snd io..<fst io + snd io + length gates}" "isInvert (dag_mNodes (bris_dag io nout (length gates) gates) ! out)"
      by (auto simp: inverters_def)
    obtain ins k where g: "(ins, out, k) \<in> set gates" by (rule bris_ok_gate [OF ok o'(1)])
    then show "out \<in> ?J" using i [OF g] o'(2) by auto
  next
    fix out assume "out \<in> ?J"
    then obtain ins where g: "(ins, out, ''INV'') \<in> set gates" by blast
    then show "out \<in> ?I" using i [OF g] node_of_gate(2) [OF ok g] by (simp add: inverters_def)
  qed
qed

lemma bris_gate_unique:
  assumes ok: "bris_ok io nout gates" and "(ins, out, k) \<in> set gates" and "(ins', out, k') \<in> set gates"
  shows "ins' = ins" and "k' = k"
  using node_of_gate(1) [OF ok assms(2)] node_of_gate(1) [OF ok assms(3)] find_gate_mem [of gates "(ins, out, k)"]
    find_gate_mem [of gates "(ins', out, k')"] ok assms(2,3) by (simp_all add: gate_out_def bris_ok_def Let_def)

lemma bris_dag_reducible:
  assumes ok: "bris_ok io nout gates" and red: "bris_reducible io nout gates"
  shows "reducible (dag_mNodes (bris_dag io nout (length gates) gates)) (fst io + snd io)
           {fst io + snd io..<fst io + snd io + length gates} [fst io + snd io + length gates - nout..<fst io + snd io + length gates]"
proof -
  let ?ns = "dag_mNodes (bris_dag io nout (length gates) gates)" and ?n = "fst io + snd io"
  let ?N = "fst io + snd io + length gates" and ?s = "fst io + snd io + length gates - nout"
  let ?G = "{fst io + snd io..<fst io + snd io + length gates}"
  have b: "distinct (map gate_out gates)" "set (map gate_out gates) = ?G" "nout \<le> length gates" using ok by (simp_all add: bris_ok_def Let_def)
  note I = bris_inverters [OF ok]
  have par: "dn_mParents (?ns ! out) = ins" if "(ins, out, k) \<in> set gates" for ins out k
    unfolding bris_node(1) [OF ok that] by simp
  have R: "ins ! 0 \<notin> set (map gate_out (filter (\<lambda>(_, _, k). k = ''INV'') gates))"
    "?s \<le> out \<longrightarrow> ?n \<le> ins ! 0 \<and> ins ! 0 < ?s"
    "?s \<le> out \<Longrightarrow> (ins', out', ''INV'') \<in> set gates \<Longrightarrow> ins' ! 0 = ins ! 0 \<Longrightarrow> out' = out"
    "?s \<le> out \<Longrightarrow> (ins', out', k) \<in> set gates \<Longrightarrow> count_list ins' (ins ! 0) \<le> 1 \<and> out \<notin> set ins'"
    if "(ins, out, ''INV'') \<in> set gates" for ins out ins' out' k
    using red that unfolding bris_reducible_def Let_def list_all_iff by fastforce+
  have J: "p \<in> inverters ?ns ?G \<longleftrightarrow> p \<in> set (map gate_out (filter (\<lambda>(_, _, k). k = ''INV'') gates))" for p
    unfolding I by (force simp: gate_out_def image_iff)
  have gate: "\<exists>ins k. (ins, g, k) \<in> set gates" if "g \<in> ?G" for g
    using bris_ok_gate [OF ok that] by metis
  show ?thesis
    unfolding reducible_def
  proof (intro conjI ballI allI impI)
    fix p g assume p: "p \<in> {..<?n} \<union> ?G"
    have ch: "dn_mChildren (?ns ! p) = gate_children gates p" using p by (auto simp: node_of_def)
    show "count_list (dn_mChildren (?ns ! p)) g = (if g \<in> ?G then count_list (dn_mParents (?ns ! g)) p else 0)"
    proof (cases "g \<in> ?G")
      case True
      then obtain ins k where g: "(ins, g, k) \<in> set gates" using gate by blast
      show ?thesis using count_gate_children(1) [OF b(1) g] True unfolding ch par [OF g] by simp
    next
      case False
      then have "count_list (dn_mChildren (?ns ! p)) g = 0"
        unfolding ch by (intro count_gate_children(2) [OF b(1)]) (simp only: b(2) not_False_eq_True)
      then show ?thesis unfolding if_not_P [OF False] .
    qed
  next
    fix g assume g: "g \<in> ?G - inverters ?ns ?G"
    then obtain ins k where e: "(ins, g, k) \<in> set gates" using gate by blast
    have "k \<noteq> ''INV''" using g e unfolding I by blast
    then have k: "(k = ''XOR'' \<or> k = ''AND'') \<and> length ins = 2" using bris_node(2) [OF ok e] by (simp add: gate_ok_def)
    show "length (dn_mParents (?ns ! g)) = 2" using k unfolding par [OF e] by blast
    show "dn_mType (?ns ! g) = gt_Xor \<or> dn_mType (?ns ! g) = gt_And"
      unfolding bris_node(1) [OF ok e] using k by (auto simp: bris_type_def)
  next
    fix g assume "g \<in> inverters ?ns ?G"
    then obtain ins where e: "(ins, g, ''INV'') \<in> set gates" unfolding I by blast
    show "dn_mParents (?ns ! g) ! 0 \<notin> inverters ?ns ?G" unfolding J par [OF e] by (rule R(1) [OF e])
  next
    show "distinct [?s..<?N]" "set [?s..<?N] \<subseteq> ?G" using b(3) by auto
  next
    fix o' assume "o' \<in> set [?s..<?N] \<inter> inverters ?ns ?G"
    then obtain ins where e: "(ins, o', ''INV'') \<in> set gates" and s: "?s \<le> o'" unfolding I by auto
    show "dn_mParents (?ns ! o') ! 0 \<in> ?G" "dn_mParents (?ns ! o') ! 0 \<notin> set [?s..<?N]"
      unfolding par [OF e] using R(2) [OF e] s by auto
    show "g = o'" if q: "g \<in> inverters ?ns ?G" "dn_mParents (?ns ! g) ! 0 = dn_mParents (?ns ! o') ! 0" for g
    proof -
      obtain ins' where g: "(ins', g, ''INV'') \<in> set gates" using q(1) unfolding I by blast
      show ?thesis using R(3) [OF e s g] q(2) unfolding par [OF e] par [OF g] by blast
    qed
    fix g assume "g \<in> ?G"
    then obtain ins' k where g: "(ins', g, k) \<in> set gates" using gate by blast
    show "count_list (dn_mParents (?ns ! g)) (dn_mParents (?ns ! o') ! 0) \<le> 1" "o' \<notin> set (dn_mParents (?ns ! g))"
      using R(4) [OF e s g] unfolding par [OF e] par [OF g] by blast+
  qed
qed

lemma non_inverters:
  assumes ok: "bris_ok io nout gates"
  shows "card ({fst io + snd io..<fst io + snd io + length gates}
            - inverters (dag_mNodes (bris_dag io nout (length gates) gates)) {fst io + snd io..<fst io + snd io + length gates})
       = length (filter (\<lambda>(_, _, k). k \<noteq> ''INV'') gates)"
proof -
  let ?G = "{fst io + snd io..<fst io + snd io + length gates}" and ?gs = "filter (\<lambda>(_, _, k). k \<noteq> ''INV'') gates"
  have b: "distinct (map gate_out gates)" "set (map gate_out gates) = ?G" using ok by (simp_all add: bris_ok_def Let_def)
  have "?G - inverters (dag_mNodes (bris_dag io nout (length gates) gates)) ?G = set (map gate_out ?gs)"
  proof (intro equalityI subsetI)
    fix g assume g: "g \<in> ?G - inverters (dag_mNodes (bris_dag io nout (length gates) gates)) ?G"
    obtain ins k where e: "(ins, g, k) \<in> set gates" using bris_ok_gate [OF ok] g by blast
    then have "k \<noteq> ''INV''" using g unfolding bris_inverters [OF ok] by blast
    then have "gate_out (ins, g, k) \<in> gate_out ` set ?gs" using e by (intro imageI) simp
    then show "g \<in> set (map gate_out ?gs)" by (simp add: gate_out_def)
  next
    fix g assume "g \<in> set (map gate_out ?gs)"
    then obtain ins k where e: "(ins, g, k) \<in> set gates" "k \<noteq> ''INV''" by (auto simp: gate_out_def)
    then have "g \<notin> {out. \<exists>ins. (ins, out, ''INV'') \<in> set gates}" using bris_gate_unique(2) [OF ok e(1)] by blast
    then show "g \<in> ?G - inverters (dag_mNodes (bris_dag io nout (length gates) gates)) ?G"
      using node_of_gate(2) [OF ok e(1)] unfolding bris_inverters [OF ok] by blast
  qed
  moreover have "card (set (map gate_out ?gs)) = length ?gs"
    by (rule trans [OF distinct_card [OF distinct_map_filter [OF b(1)]] length_map])
  ultimately show ?thesis by (simp only:)
qed

text \<open>C30. Reading with \<open>reduce\<close>: for a file that satisfies \<open>bris_reducible\<close>, \<open>Circuit::readBris\<close> returns a well-formed
  circuit without inverters, with as many gates as the file has XOR and AND gates, each of a type the
  garbling schemes support, and the circuit still computes what the file means on every input.\<close>

theorem readBris_reduce_correct:
  assumes ok: "bris_ok io nout gates" and red: "bris_reducible io nout gates" and fuel: "length gates + 1 < fuel"
  shows "\<exists>cir. Circuit_readBris (Circuit_default u) False (bris_words io nout gates) True fuel = Some (Inr cir)
     \<and> circuit_wf cir \<and> mInputs cir = io \<and> length (mGates cir) = length (filter (\<lambda>(_, _, k). k \<noteq> ''INV'') gates)
     \<and> (\<forall>g\<in>set (mGates cir). is_xor (mType g) \<or> and_like (mType g))
     \<and> (\<forall>x. circuit_sem cir x = bris_sem io nout gates x)"
proof -
  let ?d = "bris_dag io nout (length gates) gates" and ?n = "fst io + snd io" and ?G = "{fst io + snd io..<fst io + snd io + length gates}"
  let ?N = "fst io + snd io + length gates" and ?I = "inverters (dag_mNodes (bris_dag io nout (length gates) gates)) {fst io + snd io..<fst io + snd io + length gates}"
  let ?outs = "[fst io + snd io + length gates - nout..<fst io + snd io + length gates]"
  note S = bris_dag_start_facts [OF ok]
  have G: "?G = {?n..<length (dag_mNodes ?d)}" and n0: "\<forall>i<?n. dn_input (dag_mNodes ?d ! i)"
    by (simp_all add: node_of_def InputNode_new_def)
  obtain ns' v' where r: "removeInvertGates ?d = Inr (?d\<lparr>dag_mNodes := ns', dag_mOutputs := map (Some \<circ> source (dag_mNodes ?d) ?I) ?outs\<rparr>)"
    "linked ns' ?n (?G - ?I) (bris_rank gates)" "length ns' = length (dag_mNodes ?d)"
    "\<And>x. dag_values ns' ?n (?G - ?I) x (v' x)"
    "\<And>g. g \<in> ?G - ?I \<Longrightarrow> is_xor (dn_mType (ns' ! g)) \<or> and_like (dn_mType (ns' ! g))"
    "\<And>x w. w \<in> set ?outs \<Longrightarrow> v' x (source (dag_mNodes ?d) ?I w) = bris_run gates x w \<and> source (dag_mNodes ?d) ?I w \<in> ?G - ?I"
    by (rule removeInvertGates_ok [OF bris_linked [OF ok] G S(1) bris_dag_reducible [OF ok red] S(2) n0 bris_values [OF ok]]) (rule that)
  let ?d' = "?d\<lparr>dag_mNodes := ns', dag_mOutputs := map (Some \<circ> source (dag_mNodes ?d) ?I) ?outs\<rparr>"
  have nodes: "dag_mNodes ?d' = ns'" "dag_mOutputs ?d' = map (Some \<circ> source (dag_mNodes ?d) ?I) ?outs"
    "dag_mInputCounts ?d' = io" "dag_mWireCount ?d' = ?N" "dag_InputWireCount ?d' = ?n"
    using S(1) by (simp_all add: dag_InputWireCount_def)
  have c: "card (?G - ?I) = length (filter (\<lambda>(_, _, k). k \<noteq> ''INV'') gates)" by (rule non_inverters [OF ok])
  then have f: "card (?G - ?I) + 1 < fuel"
    using fuel length_filter_le [of "\<lambda>(_, _, k). k \<noteq> ''INV''" gates] by linarith
  have outs: "\<forall>o'\<in>set (dag_mOutputs ?d'). \<exists>w\<in>{..<?n} \<union> (?G - ?I). o' = Some w"
    unfolding nodes(2) using r(6) by auto
  have len: "length (dag_mNodes ?d') \<le> dag_mWireCount ?d'" unfolding nodes r(3) by simp
  from toCircuit_ok [where u = u and d = ?d', unfolded nodes(1), OF r(2) r(4) nodes(5) _ _ f outs]
  obtain cir where cir: "toCircuit ?d' fuel (Circuit_default u) = Some (Inr cir)" "circuit_wf cir" "mInputs cir = io"
    "length (mGates cir) = card (?G - ?I)" "mType ` set (mGates cir) \<subseteq> (\<lambda>g. dn_mType (ns' ! g)) ` (?G - ?I)"
    "\<And>x. circuit_sem cir x = map (\<lambda>o'. v' x (the o')) (map (Some \<circ> source (dag_mNodes ?d) ?I) ?outs)"
    using len unfolding nodes by blast
  have "dag_mNonInvertGateCount ?d' = length (mGates cir)" unfolding cir(4) c by simp
  then have run: "Circuit_readBris (Circuit_default u) False (bris_words io nout gates) True fuel = Some (Inr cir)"
    unfolding Circuit_readBris_def readBris_ok [OF ok] by (simp only: bind_r.simps if_True r(1) sum.case cir(1) option.case) simp
  have sem: "circuit_sem cir x = bris_sem io nout gates x" for x
    unfolding cir(6) bris_sem_def Let_def map_map by (rule map_cong [OF refl]) (use r(6) in simp)
  have types: "\<forall>g\<in>set (mGates cir). is_xor (mType g) \<or> and_like (mType g)" using cir(5) r(5) by fastforce
  show ?thesis using run cir(2-4) c types sem by (intro exI [of _ cir]) simp
qed

lemma readBris_reduce_correct_witness:
  "\<exists>cir. Circuit_readBris (Circuit_default (0, 0)) False (bris_words (2, 1) 2 adder_file) True 10 = Some (Inr cir)
     \<and> circuit_wf cir \<and> mInputs cir = (2, 1) \<and> length (mGates cir) = length (filter (\<lambda>(_, _, k). k \<noteq> ''INV'') adder_file)
     \<and> (\<forall>g\<in>set (mGates cir). is_xor (mType g) \<or> and_like (mType g))
     \<and> (\<forall>x. circuit_sem cir x = bris_sem (2, 1) 2 adder_file x)"
proof (rule readBris_reduce_correct)
  show "bris_ok (2, 1) 2 adder_file"
    by (simp add: bris_ok_def adder_file_def gate_ok_def gate_out_def Let_def) (auto simp: atLeastLessThan_def)
  show "bris_reducible (2, 1) 2 adder_file" by (simp add: bris_reducible_def adder_file_def gate_out_def Let_def)
  show "length adder_file + 1 < 10" by (simp add: adder_file_def)
qed

section \<open>Other files\<close>

text \<open>Two inverters in a row; an output that negates an input; a gate that is an output beside its negation.\<close>

definition chain_file :: "bris_gate list" where
  "chain_file = [([0], 2, ''INV''), ([2], 3, ''INV''), ([3, 1], 4, ''AND'')]"

definition negated_input_file :: "bris_gate list" where
  "negated_input_file = [([0, 1], 2, ''AND''), ([0], 3, ''INV'')]"

definition both_file :: "bris_gate list" where
  "both_file = [([0, 1], 2, ''AND''), ([2], 3, ''INV'')]"

lemma other_files_ok: "bris_ok (2, 0) 1 chain_file" "bris_ok (2, 0) 1 negated_input_file" "bris_ok (2, 0) 2 both_file"
  by (simp_all add: bris_ok_def chain_file_def negated_input_file_def both_file_def gate_ok_def gate_out_def Let_def) auto

lemmas dag_eval = bris_dag_def removeInvertGates_def reduce_output_def reduceInvert_def absorb_step_def invertOutput_def invertInput_def
  invertInput_step_def remove_child_def swap_remove_def isInvert_def dag_InputWireCount_def node_of_def InputNode_new_def GateNode_new_def
  find_gate_def gate_children_def gate_out_def bris_type_def upt_rec

lemma reduce_chain: "removeInvertGates (bris_dag (2, 0) 1 (length chain_file) chain_file) = Inl RuntimeError"
  by (simp add: chain_file_def dag_eval Let_def invert_def)

lemma reduce_negated_input: "removeInvertGates (bris_dag (2, 0) 1 (length negated_input_file) negated_input_file) = Inl RuntimeError"
  by (simp add: negated_input_file_def dag_eval Let_def invert_def)

definition both_nodes :: "dag_node list" where
  "both_nodes =
     [\<lparr>dn_input = True, dn_mType = gt_Zero, dn_mWireIdx = 0, dn_mParents = [], dn_mChildren = [2]\<rparr>,
      \<lparr>dn_input = True, dn_mType = gt_Zero, dn_mWireIdx = 1, dn_mParents = [], dn_mChildren = [2]\<rparr>,
      \<lparr>dn_input = False, dn_mType = gt_Nand, dn_mWireIdx = 2, dn_mParents = [0, 1], dn_mChildren = []\<rparr>,
      \<lparr>dn_input = False, dn_mType = gt_a, dn_mWireIdx = 3, dn_mParents = [2], dn_mChildren = []\<rparr>]"

lemma reduce_both: "removeInvertGates (bris_dag (2, 0) 2 (length both_file) both_file)
   = Inr (bris_dag (2, 0) 2 (length both_file) both_file\<lparr>dag_mNodes := both_nodes, dag_mOutputs := [Some 2, Some 2]\<rparr>)"
  by (simp add: both_file_def both_nodes_def dag_eval Let_def invert_def gt_of_def invert_out_def)

lemma both_circuit:
  assumes fuel: "2 < fuel"
  shows "\<exists>cir. Circuit_readBris (Circuit_default u) False (bris_words (2, 0) 2 both_file) True fuel = Some (Inr cir)
     \<and> (\<forall>x. circuit_sem cir x = [\<not> (x 0 \<and> x 1), \<not> (x 0 \<and> x 1)])"
proof -
  let ?d = "bris_dag (2, 0) 2 (length both_file) both_file\<lparr>dag_mNodes := both_nodes, dag_mOutputs := [Some 2, Some 2]\<rparr>"
  have d: "dag_mNodes ?d = both_nodes" "dag_mOutputs ?d = [Some 2, Some 2]" "dag_mInputCounts ?d = (2, 0)" "dag_mWireCount ?d = 4"
    "dag_InputWireCount ?d = 2" "dag_mNonInvertGateCount ?d = 1" "length both_nodes = 4"
    by (simp_all add: bris_dag_def Let_def dag_InputWireCount_def both_file_def both_nodes_def)
  have two: "{..<2} \<union> {2} = {0, 1, 2 :: nat}" by auto
  have one: "{g \<in> {2}. P g} = (if P 2 then {2} else {})" for P :: "nat \<Rightarrow> bool" by auto
  have l: "linked both_nodes 2 {2} (\<lambda>i. i)"
    unfolding linked_def two one by (simp add: both_nodes_def addable_def)
  have v: "dag_values both_nodes 2 {2} x (\<lambda>i. if i = 2 then \<not> (x 0 \<and> x 1) else x i)" for x
    by (simp add: dag_values_def both_nodes_def node_value_def gt_eval_def row_of_simps bit_nat_def)
  have s: "fst (dag_mInputCounts ?d) + snd (dag_mInputCounts ?d) = 2" "length (dag_mNodes ?d) \<le> dag_mWireCount ?d"
    "card {2 :: nat} + 1 < fuel" "\<forall>o'\<in>set (dag_mOutputs ?d). \<exists>w\<in>{..<2} \<union> {2}. o' = Some w"
    unfolding d using fuel by simp_all
  from toCircuit_ok [where u = u and d = ?d, unfolded d(1), OF l v d(5) s(1) s(2) [unfolded d(1)] s(3,4)]
  obtain cir where cir: "toCircuit ?d fuel (Circuit_default u) = Some (Inr cir)" "length (mGates cir) = card {2 :: nat}"
    "\<forall>x. circuit_sem cir x = map (\<lambda>o'. if the o' = 2 then \<not> (x 0 \<and> x 1) else x (the o')) [Some 2, Some 2]"
    unfolding d(2) by blast
  have "Circuit_readBris (Circuit_default u) False (bris_words (2, 0) 2 both_file) True fuel = Some (Inr cir)"
    unfolding Circuit_readBris_def readBris_ok [OF other_files_ok(3)]
    by (simp only: bind_r.simps if_True reduce_both sum.case cir(1) option.case d(6) cir(2)) simp
  then show ?thesis using cir(3) by simp
qed

text \<open>What the reduction does to other files: an inverter that feeds an inverter makes \<open>removeInvertGates\<close> throw,
  and so does an output that negates an input of the circuit. A gate that is an output beside its own negation
  is negated for both outputs: the circuit is returned and its first output is wrong on every input.\<close>

theorem reduce_other_files:
  "bris_ok (2, 0) 1 chain_file \<and> bris_ok (2, 0) 1 negated_input_file \<and> bris_ok (2, 0) 2 both_file
   \<and> Circuit_readBris (Circuit_default (0, 0)) False (bris_words (2, 0) 1 chain_file) True 4 = Some (Inl RuntimeError)
   \<and> Circuit_readBris (Circuit_default (0, 0)) False (bris_words (2, 0) 1 negated_input_file) True 4 = Some (Inl RuntimeError)
   \<and> (\<exists>cir. Circuit_readBris (Circuit_default (0, 0)) False (bris_words (2, 0) 2 both_file) True 4 = Some (Inr cir)
        \<and> (\<forall>x. hd (circuit_sem cir x) \<noteq> hd (bris_sem (2, 0) 2 both_file x)))"
proof (intro conjI)
  have less_two_four: "2 < (4 :: nat)" by simp
  show "bris_ok (2, 0) 1 chain_file" "bris_ok (2, 0) 1 negated_input_file" "bris_ok (2, 0) 2 both_file" by (rule other_files_ok)+
  have throws: "Circuit_readBris (Circuit_default (0, 0)) False (bris_words io nout gates) True 4 = Some (Inl RuntimeError)"
    if ok: "bris_ok io nout gates" and r: "removeInvertGates (bris_dag io nout (length gates) gates) = Inl RuntimeError" for io nout gates
    unfolding Circuit_readBris_def readBris_ok [OF ok] by (simp add: r)
  show "Circuit_readBris (Circuit_default (0, 0)) False (bris_words (2, 0) 1 chain_file) True 4 = Some (Inl RuntimeError)"
    by (rule throws [OF other_files_ok(1) reduce_chain])
  show "Circuit_readBris (Circuit_default (0, 0)) False (bris_words (2, 0) 1 negated_input_file) True 4 = Some (Inl RuntimeError)"
    by (rule throws [OF other_files_ok(2) reduce_negated_input])
  have idx: "[fst (2, 0) + snd (2, 0) + length both_file - 2..<fst (2, 0) + snd (2, 0) + length both_file] = [2, 3 :: nat]"
    by (simp add: both_file_def upt_rec)
  have sem: "bris_sem (2, 0) 2 both_file x = [x 0 \<and> x 1, \<not> (x 0 \<and> x 1)]" for x
    unfolding bris_sem_def Let_def idx by (simp add: both_file_def bris_run_def bris_step_def bris_op_def)
  obtain cir where c: "Circuit_readBris (Circuit_default (0, 0)) False (bris_words (2, 0) 2 both_file) True 4 = Some (Inr cir)"
    "\<And>x. circuit_sem cir x = [\<not> (x 0 \<and> x 1), \<not> (x 0 \<and> x 1)]"
    using both_circuit [of 4 "(0, 0)", OF less_two_four] by blast
  have "hd (circuit_sem cir x) \<noteq> hd (bris_sem (2, 0) 2 both_file x)" for x unfolding c(2) sem by simp
  then show "\<exists>cir. Circuit_readBris (Circuit_default (0, 0)) False (bris_words (2, 0) 2 both_file) True 4 = Some (Inr cir)
        \<and> (\<forall>x. hd (circuit_sem cir x) \<noteq> hd (bris_sem (2, 0) 2 both_file x))" using c(1) by blast
qed

section \<open>Writing\<close>

lemma fold_r_output:
  assumes "\<And>g. g \<in> set gs \<Longrightarrow> f g = Inr (h g)"
  shows "fold_r (\<lambda>g out. bind_r (f g) (\<lambda>ws. Inr (out @ ws))) gs out = Inr (out @ concat (map h gs))"
  using assms by (induction gs arbitrary: out) simp_all

lemma write_gate_words:
  assumes ok: "bris_ok io nout gates" and g: "(ins, out, k) \<in> set gates"
  shows "write_gate (dag_mNodes (bris_dag io nout (length gates) gates)) out = Inr (gate_words (ins, out, k))"
proof -
  let ?ns = "dag_mNodes (bris_dag io nout (length gates) gates)"
  have idx: "dn_mWireIdx (?ns ! p) = p" if "p \<in> set ins" for p
  proof -
    have "p \<in> {..<fst io + snd io} \<union> {fst io + snd io..<fst io + snd io + length gates}"
      using bris_parents_below [OF ok g that] by auto
    then show ?thesis using bris_linked [OF ok] unfolding linked_def by blast
  qed
  have wires: "map (\<lambda>p. show_nat (dn_mWireIdx (?ns ! p))) ins = map show_nat ins" using idx by simp
  show ?thesis
    using bris_node(2) [OF ok g] wires unfolding write_gate_def Let_def bris_node(1) [OF ok g]
    by (auto simp: gate_ok_def gate_words_def bris_type_def isInvert_def simp del: bris_dag_simps)
qed

text \<open>C32. Writing what was read: \<open>writeBris\<close> gives back the words of a file whose gates are in the order of their
  output wires; it writes the gates in index order, so a file in another order comes back sorted.\<close>

theorem writeBris_readBris:
  assumes ok: "bris_ok io nout gates" and order: "map gate_out gates = [fst io + snd io..<fst io + snd io + length gates]"
  shows "bind_r (Dag_readBris False (bris_words io nout gates)) Dag_writeBris = Inr (bris_words io nout gates)"
proof -
  let ?d = "bris_dag io nout (length gates) gates" and ?n = "fst io + snd io" and ?N = "fst io + snd io + length gates"
  note S = bris_dag_start_facts [OF ok]
  have at: "write_gate (dag_mNodes ?d) g = Inr (gate_words (gates ! (g - ?n)))" if "g \<in> set [?n..<?N]" for g
  proof -
    have j: "g - ?n < length gates" "map gate_out gates ! (g - ?n) = g" using that unfolding order by auto
    obtain ins out k where e: "gates ! (g - ?n) = (ins, out, k)" by (rule prod_cases3)
    have "out = g" using j e by (simp add: gate_out_def)
    moreover have "(ins, out, k) \<in> set gates" using j(1) e by (metis nth_mem)
    ultimately show ?thesis using write_gate_words [OF ok] e by simp
  qed
  have gates: "map (\<lambda>g. gate_words (gates ! (g - ?n))) [?n..<?N] = map gate_words gates"
    by (rule nth_equalityI) simp_all
  have len: "length (dag_mNodes ?d) = ?N" "dag_gate_count ?d = length gates" "length (dag_mOutputs ?d) = nout"
    using S(1) ok by (simp_all add: dag_gate_count_def bris_ok_def Let_def)
  have "Dag_writeBris ?d = Inr (bris_words io nout gates)"
    unfolding Dag_writeBris_def S(1) len by (subst fold_r_output [OF at], assumption) (simp add: gates bris_words_def)
  then show ?thesis unfolding readBris_ok [OF ok] by simp
qed

lemma writeBris_readBris_witness:
  "bind_r (Dag_readBris False (bris_words (2, 0) 2 both_file)) Dag_writeBris = Inr (bris_words (2, 0) 2 both_file)"
proof (rule writeBris_readBris)
  show "bris_ok (2, 0) 2 both_file" by (rule other_files_ok)
  show "map gate_out both_file = [fst (2, 0) + snd (2, 0)..<fst (2, 0) + snd (2, 0) + length both_file]"
    by (simp add: both_file_def gate_out_def upt_rec)
qed

end
