(* ===== verification/BDX_KProbe.thy ===== *)
theory BDX_KProbe
  imports BDX_HalfGate
begin

text \<open>
  \<open>Circuit/KProbeResistant.{h,cpp}\<close> (with \<open>ENCODABLE_KPROBE\<close>): the k-probe resistant matrix and the
  linear code it defines on input bits and on wire labels. Row \<open>i\<close> of the matrix has \<open>h\<close> bits; an
  encoding has \<open>h + n\<close> symbols, the last \<open>n\<close> of which correct the rows' parities. The polynomial
  arithmetic of NTL and the floating-point choice of the dimensions are arguments of \<open>kp_build\<close>.
\<close>

record KProbeMatrix =
  kp_mEncodingSize :: nat
  kp_mMtx :: "bitvec list"
  kp_mSignature :: u64

section \<open>Encoding and decoding\<close>

definition kp_encode :: "KProbeMatrix \<Rightarrow> bitvec \<Rightarrow> bitvec \<Rightarrow> prng \<Rightarrow> (bitvec \<times> prng) result" where
  "kp_encode M input encoding g =
     (let n = length (kp_mMtx M); m = kp_mEncodingSize M; h = m - n in
      if bv_bits input \<noteq> n then Inl RuntimeError
      else let enc = bv_reset encoding m;
               (rnd, g1) = get_u8s g (bv_sizeBytes enc);
               enc = bv_randomize enc rnd;
               enc = fold (\<lambda>i enc.
                 let projected = bv_and_assign (bv_of_bytes (bv_data enc) h) (kp_mMtx M ! i)
                 in if bv_parity projected \<noteq> bv_get input i then bv_put enc (h + i) True
                    else bv_put enc (h + i) False) [0..<n] enc
           in Inr (enc, g1))"

definition sBlockMasks :: "bool \<Rightarrow> block" where
  "sBlockMasks b = (if b then set_epi64x (-1) (-1) else ZeroBlock)"

fun blocks_of :: "nat \<Rightarrow> u8 list \<Rightarrow> block list" where
  "blocks_of 0 b = []"
| "blocks_of (Suc k) b = block_of_bytes (take 16 b) # blocks_of k (drop 16 b)"

definition kp_encode_labels :: "KProbeMatrix \<Rightarrow> block list \<Rightarrow> prng \<Rightarrow> block list \<times> prng" where
  "kp_encode_labels M originalLabels g =
     (let n = length (kp_mMtx M); m = kp_mEncodingSize M; h = m - n;
          (bytes, g1) = get_u8s g (m * 16);
          enc = blocks_of m bytes;
          enc = fold (\<lambda>i enc.
                  fold (\<lambda>j enc. enc[h + i := enc ! (h + i) XOR (enc ! j AND sBlockMasks (bv_get (kp_mMtx M ! i) j))])
                    [0..<h] (enc[h + i := originalLabels ! i])) [0..<n] enc
      in (enc, g1))"

definition kp_decode :: "KProbeMatrix \<Rightarrow> bitvec \<Rightarrow> bitvec \<Rightarrow> bitvec result" where
  "kp_decode M encoding input =
     (let n = length (kp_mMtx M); m = kp_mEncodingSize M; h = m - n in
      if bv_bits encoding \<noteq> m then Inl RuntimeError
      else Inr (fold (\<lambda>i input.
             fold (\<lambda>j input. bv_put input i (bv_get input i \<noteq> (bv_get (kp_mMtx M ! i) j \<and> bv_get encoding j)))
               [0..<h] (bv_put input i (bv_get encoding (h + i)))) [0..<n] (bv_reset input n)))"

text \<open>The iterator version writes \<open>n\<close> labels at \<open>pos\<close>; the vector version calls it on a fresh vector.\<close>

definition kp_decode_at :: "KProbeMatrix \<Rightarrow> block list \<Rightarrow> block list \<Rightarrow> nat \<Rightarrow> block list result" where
  "kp_decode_at M encoding input pos =
     (let n = length (kp_mMtx M); m = kp_mEncodingSize M; h = m - n in
      if length encoding \<noteq> m then Inl RuntimeError
      else Inr (fold (\<lambda>i input.
             input[pos + i := fold (\<lambda>j v. v XOR (encoding ! j AND sBlockMasks (bv_get (kp_mMtx M ! i) j)))
                                [0..<h] (encoding ! (h + i))]) [0..<n] input))"

definition kp_decode_labels :: "KProbeMatrix \<Rightarrow> block list \<Rightarrow> block list result" where
  "kp_decode_labels M encoding = kp_decode_at M encoding (replicate (length (kp_mMtx M)) 0) 0"

definition kp_decode_pairs :: "KProbeMatrix \<Rightarrow> (block \<times> block) list \<Rightarrow> (block \<times> block) list result" where
  "kp_decode_pairs M encoding =
     (let n = length (kp_mMtx M); m = kp_mEncodingSize M; h = m - n in
      if length encoding \<noteq> m then Inl RuntimeError
      else Inr (map (\<lambda>i. fold (\<lambda>j (v0, v1).
                  (v0 XOR (fst (encoding ! j) AND sBlockMasks (bv_get (kp_mMtx M ! i) j)),
                   v1 XOR (snd (encoding ! j) AND sBlockMasks (bv_get (kp_mMtx M ! i) j))))
                [0..<h] (encoding ! (h + i))) [0..<n]))"

section \<open>Building, saving and loading\<close>

fun draw_bits :: "prng \<Rightarrow> nat \<Rightarrow> bool list \<times> prng" where
  "draw_bits g 0 = ([], g)"
| "draw_bits g (Suc k) =
     (let (c, g1) = get_bit g; (cs, g2) = draw_bits g1 k in ((c \<noteq> 0) # cs, g2))"

text \<open>
  One row: a random polynomial with \<open>K - 1\<close> drawn coefficients, evaluated by \<open>ntl_eval\<close> at
  1, \dots, N; \<open>ntl_eval t cs x ! j\<close> is coefficient \<open>j\<close> of the value in the field of \<open>2 ^ t\<close> elements.
\<close>

definition kp_row ::
  "(nat \<Rightarrow> bool list \<Rightarrow> nat \<Rightarrow> bool list) \<Rightarrow> nat \<Rightarrow> nat \<Rightarrow> nat \<Rightarrow> prng \<Rightarrow> bitvec \<times> prng" where
  "kp_row ntl_eval t K N g =
     (let (cs, g1) = draw_bits g (K - 1);
          bits = concat (map (\<lambda>x. let v = ntl_eval t cs x in map ((!) v) [0..<t]) [1..<N + 1])
      in (fold (\<lambda>idx r. bv_put r idx (bits ! idx)) [0..<N * t] (bv_resize bv_empty (N * t)), g1))"

fun kp_rows ::
  "(nat \<Rightarrow> bool list \<Rightarrow> nat \<Rightarrow> bool list) \<Rightarrow> nat \<Rightarrow> nat \<Rightarrow> nat \<Rightarrow> nat \<Rightarrow> prng \<Rightarrow> bitvec list \<times> prng" where
  "kp_rows ntl_eval t K N 0 g = ([], g)"
| "kp_rows ntl_eval t K N (Suc k) g =
     (let (r, g1) = kp_row ntl_eval t K N g; (rs, g2) = kp_rows ntl_eval t K N k g1 in (r # rs, g2))"

text \<open>\<open>dims\<close> is the floating-point computation of \<open>t\<close> and \<open>K\<close>.\<close>

definition kp_build ::
  "(nat \<Rightarrow> nat \<Rightarrow> nat \<times> nat) \<Rightarrow> (nat \<Rightarrow> bool list \<Rightarrow> nat \<Rightarrow> bool list)
   \<Rightarrow> KProbeMatrix \<Rightarrow> nat \<Rightarrow> nat \<Rightarrow> prng \<Rightarrow> KProbeMatrix \<times> prng" where
  "kp_build dims ntl_eval M inputSize secParam g =
     (if inputSize = 0 then (M, g)
      else let (t, K) = dims inputSize secParam;
               N = K + secParam - 1;
               (rows, g1) = kp_rows ntl_eval t K N inputSize g
           in (M\<lparr>kp_mMtx := rows, kp_mEncodingSize := N * t + inputSize\<rparr>, g1))"

definition u64_bytes :: "u64 \<Rightarrow> u8 list" where
  "u64_bytes w = map (\<lambda>i. ucast (drop_bit (8 * i) w)) [0..<8]"

definition kp_save :: "KProbeMatrix \<Rightarrow> u8 list" where
  "kp_save M =
     (let n = length (kp_mMtx M); h = kp_mEncodingSize M - n
      in u64_bytes (word_of_nat n) @ u64_bytes (word_of_nat h)
         @ concat (map (\<lambda>row. take (bv_sizeBytes row) (bv_data row)) (kp_mMtx M)))"

fun kp_load_rows :: "nat \<Rightarrow> nat \<Rightarrow> u8 list \<Rightarrow> bitvec list" where
  "kp_load_rows 0 h s = []"
| "kp_load_rows (Suc k) h s =
     (let row = bv_resize bv_empty h;
          got = take (bv_sizeBytes row) s
      in row\<lparr>bv_data := blit (bv_data row) 0 got\<rparr> # kp_load_rows k h (drop (bv_sizeBytes row) s))"

text \<open>\<open>None\<close> when the two sizes are not there: the code would use uninitialised variables.\<close>

definition kp_load :: "KProbeMatrix \<Rightarrow> u8 list \<Rightarrow> KProbeMatrix option" where
  "kp_load M s =
     (if length s < 16 then None
      else let n = unat (of_bytes (take 8 s) :: u64); h = unat (of_bytes (take 8 (drop 8 s)) :: u64)
           in Some (M\<lparr>kp_mEncodingSize := h + n, kp_mMtx := kp_load_rows n h (drop 16 s)\<rparr>))"

text \<open>The signature: the first bytes of the first row; a matrix with a short first row is refused.\<close>

definition kp_signature :: "KProbeMatrix \<Rightarrow> u64 result" where
  "kp_signature M =
     (let r = kp_mMtx M ! 0 in
      if bv_bits r \<ge> 64 then Inr (of_bytes (take 8 (bv_data r)))
      else if bv_bits r \<ge> 16 then Inr (of_bytes (take 2 (bv_data r)))
      else Inl RuntimeError)"

text \<open>
  \<open>loadOrBuild\<close>: the cached file under the name made of the sizes and one drawn block, if there is
  one, or a new matrix, which is then saved. Returns the object, the generator and the file.
\<close>

definition kp_loadOrBuild ::
  "(nat \<Rightarrow> nat \<Rightarrow> nat \<times> nat) \<Rightarrow> (nat \<Rightarrow> bool list \<Rightarrow> nat \<Rightarrow> bool list)
   \<Rightarrow> (nat \<times> nat \<times> block \<Rightarrow> u8 list option) \<Rightarrow> KProbeMatrix \<Rightarrow> nat \<Rightarrow> nat \<Rightarrow> prng
   \<Rightarrow> (KProbeMatrix \<times> prng \<times> u8 list) result option" where
  "kp_loadOrBuild dims ntl_eval file M inputSize secParam g =
     (let (b, g1) = get_block g in
      case file (inputSize, secParam, b) of
        Some s \<Rightarrow> map_option (\<lambda>M1. bind_r (kp_signature M1) (\<lambda>sig. Inr (M1\<lparr>kp_mSignature := sig\<rparr>, g1, s)))
                    (kp_load M s)
      | None \<Rightarrow> (let (M1, g2) = kp_build dims ntl_eval M inputSize secParam g1
                 in Some (bind_r (kp_signature M1) (\<lambda>sig. Inr (M1\<lparr>kp_mSignature := sig\<rparr>, g2, kp_save M1)))))"

section \<open>The linear code\<close>

definition kp_h :: "KProbeMatrix \<Rightarrow> nat" where
  "kp_h M = kp_mEncodingSize M - length (kp_mMtx M)"

definition kp_wf :: "KProbeMatrix \<Rightarrow> bool" where
  "kp_wf M \<longleftrightarrow> length (kp_mMtx M) \<le> kp_mEncodingSize M \<and> bv_fits (kp_mEncodingSize M)
     \<and> (\<forall>row\<in>set (kp_mMtx M). bv_wf row \<and> bv_bits row = kp_h M)"

definition row_dot :: "bitvec \<Rightarrow> nat \<Rightarrow> (nat \<Rightarrow> bool) \<Rightarrow> bool" where
  "row_dot row h e = parity_of (map (\<lambda>j. bv_get row j \<and> e j) [0..<h])"

definition row_sum :: "bitvec \<Rightarrow> nat \<Rightarrow> (nat \<Rightarrow> block) \<Rightarrow> block" where
  "row_sum row h E = xor_fold 0 (map (\<lambda>j. sel (E j) (bv_get row j)) [0..<h])"

definition dec_bit :: "KProbeMatrix \<Rightarrow> (nat \<Rightarrow> bool) \<Rightarrow> nat \<Rightarrow> bool" where
  "dec_bit M e i = (e (kp_h M + i) \<noteq> row_dot (kp_mMtx M ! i) (kp_h M) e)"

definition dec_lab :: "KProbeMatrix \<Rightarrow> (nat \<Rightarrow> block) \<Rightarrow> nat \<Rightarrow> block" where
  "dec_lab M E i = E (kp_h M + i) XOR row_sum (kp_mMtx M ! i) (kp_h M) E"

text \<open>
  A code on bits and on labels that commute: decoding labels is linear and acts on the offsets of
  encoded labels as decoding does on the bits. Client: the label obtained by decoding the labels of
  an encoded input is the label of the decoded bit.
\<close>

locale label_code =
  fixes dbit :: "'m \<Rightarrow> (nat \<Rightarrow> bool) \<Rightarrow> nat \<Rightarrow> bool"
    and dlab :: "'m \<Rightarrow> (nat \<Rightarrow> block) \<Rightarrow> nat \<Rightarrow> block"
  assumes dlab_xor: "dlab M (\<lambda>j. E j XOR F j) i = dlab M E i XOR dlab M F i"
    and dlab_sel: "dlab M (\<lambda>j. sel R (e j)) i = sel R (dbit M e i)"
begin

lemma dlab_lab: "dlab M (\<lambda>j. lab R (E j) (e j)) i = lab R (dlab M E i) (dbit M e i)"
  by (simp add: lab_def dlab_xor dlab_sel)

lemma dbit_xor: "dbit M (\<lambda>j. e j \<noteq> f j) i = (dbit M e i \<noteq> dbit M f i)"
proof -
  have "sel 1 (dbit M (\<lambda>j. e j \<noteq> f j) i) = dlab M (\<lambda>j. sel 1 (e j) XOR sel 1 (f j)) i"
    by (simp add: dlab_sel)
  also have "\<dots> = sel 1 (dbit M e i) XOR sel 1 (dbit M f i)" by (simp only: dlab_xor dlab_sel)
  finally show ?thesis by (auto simp: sel_def split: if_splits)
qed

end

lemma row_sum_xor: "row_sum row h (\<lambda>j. E j XOR F j) = row_sum row h E XOR row_sum row h F"
proof -
  have "sel (x XOR y) b = sel x b XOR sel y b" for x y :: block and b by (simp add: sel_def)
  then show ?thesis by (simp add: row_sum_def xor_fold_map_xor)
qed

lemma row_sum_sel: "row_sum row h (\<lambda>j. sel R (e j)) = sel R (row_dot row h e)"
proof -
  have "sel (sel R x) b = sel R (b \<and> x)" for x b by (simp add: sel_def)
  then show ?thesis by (simp add: row_sum_def row_dot_def xor_fold_sel)
qed

interpretation kpc: label_code dec_bit dec_lab
proof unfold_locales
  fix M E F i
  show "dec_lab M (\<lambda>j. E j XOR F j) i = dec_lab M E i XOR dec_lab M F i"
    by (simp add: dec_lab_def row_sum_xor xor_norm)
next
  fix M R e i
  show "dec_lab M (\<lambda>j. sel R (e j)) i = sel R (dec_bit M e i)"
    by (simp add: dec_lab_def dec_bit_def row_sum_sel)
qed

section \<open>Correctness of the loops\<close>

lemma and_mask_sel: "x AND sBlockMasks b = sel x b"
proof (cases b)
  case True
  have "set_epi64x (-1) (-1) = -1" by (rule bit_word_eqI) (auto simp: block_bits)
  then show ?thesis using True by (simp add: sBlockMasks_def)
qed (simp add: sBlockMasks_def)

lemma fold_mask_sum:
  "fold (\<lambda>j v. v XOR (E j AND sBlockMasks (b j))) xs a
   = a XOR xor_fold 0 (map (\<lambda>j. sel (E j) (b j)) xs)"
proof (induction xs arbitrary: a)
  case (Cons x xs)
  then show ?case
    by (simp add: and_mask_sel xor_fold_acc [of "sel (E x) (b x)"] xor.assoc)
qed simp

lemma kp_fold_update_nth:
  assumes "pos + n \<le> length xs"
  shows "length (fold (\<lambda>i xs. xs[pos + i := f i]) [0..<n] xs) = length xs"
    and "k < length xs \<Longrightarrow> fold (\<lambda>i xs. xs[pos + i := f i]) [0..<n] xs ! k
         = (if pos \<le> k \<and> k < pos + n then f (k - pos) else xs ! k)"
proof -
  have "length (fold (\<lambda>i xs. xs[pos + i := f i]) [0..<n] xs) = length xs
      \<and> (\<forall>k<length xs. fold (\<lambda>i xs. xs[pos + i := f i]) [0..<n] xs ! k
         = (if pos \<le> k \<and> k < pos + n then f (k - pos) else xs ! k))"
    using assms by (induction n) (auto simp: nth_list_update)
  then show "length (fold (\<lambda>i xs. xs[pos + i := f i]) [0..<n] xs) = length xs"
    and "k < length xs \<Longrightarrow> fold (\<lambda>i xs. xs[pos + i := f i]) [0..<n] xs ! k
         = (if pos \<le> k \<and> k < pos + n then f (k - pos) else xs ! k)"
    by blast+
qed

lemma kp_decode_at_eq:
  assumes "length enc = kp_mEncodingSize M" and "pos + length (kp_mMtx M) \<le> length dst"
  shows "kp_decode_at M enc dst pos
         = Inr (take pos dst @ map (dec_lab M ((!) enc)) [0..<length (kp_mMtx M)]
                @ drop (pos + length (kp_mMtx M)) dst)"
proof -
  let ?n = "length (kp_mMtx M)"
  let ?r = "fold (\<lambda>i input. input[pos + i := dec_lab M ((!) enc) i]) [0..<?n] dst"
  have "kp_decode_at M enc dst pos = Inr ?r"
    using assms(1) by (simp add: kp_decode_at_def Let_def fold_mask_sum dec_lab_def row_sum_def kp_h_def)
  moreover have "?r = take pos dst @ map (dec_lab M ((!) enc)) [0..<?n] @ drop (pos + ?n) dst"
  proof (rule nth_equalityI)
    show l: "length ?r = length (take pos dst @ map (dec_lab M ((!) enc)) [0..<?n] @ drop (pos + ?n) dst)"
      using assms(2) by (simp add: kp_fold_update_nth(1))
    fix k assume "k < length ?r"
    then have k: "k < length dst" using assms(2) by (simp add: kp_fold_update_nth(1))
    show "?r ! k = (take pos dst @ map (dec_lab M ((!) enc)) [0..<?n] @ drop (pos + ?n) dst) ! k"
      using assms(2) k by (simp add: kp_fold_update_nth(2) nth_append min_def) (auto simp: add.commute)
  qed
  ultimately show ?thesis by simp
qed

lemma kp_decode_labels_eq:
  "length enc = kp_mEncodingSize M \<Longrightarrow>
   kp_decode_labels M enc = Inr (map (dec_lab M ((!) enc)) [0..<length (kp_mMtx M)])"
  by (simp add: kp_decode_labels_def kp_decode_at_eq)

text \<open>The bit versions accumulate in the target vector.\<close>

lemma fold_bit_acc:
  assumes "bv_wf u" and "i < bv_bits u"
  shows "let u' = fold (\<lambda>j u. bv_put u i (bv_get u i \<noteq> p j)) xs u in
     bv_wf u' \<and> bv_bits u' = bv_bits u
     \<and> (\<forall>k. bv_get u' k = (if k = i then bv_get u i \<noteq> parity_of (map p xs) else bv_get u k))"
  using assms
proof (induction xs arbitrary: u)
  case (Cons x xs)
  let ?u = "bv_put u i (bv_get u i \<noteq> p x)"
  have "bv_wf ?u" "i < bv_bits ?u" using Cons.prems by (simp_all add: bv_wf_put)
  from Cons.IH [OF this] show ?case
    using Cons.prems by (auto simp: Let_def bv_get_put)
qed (simp add: Let_def)

lemma kp_decode_eq:
  assumes "bv_bits enc = kp_mEncodingSize M"
  shows "\<exists>v. kp_decode M enc input = Inr v \<and> bv_wf v
             \<and> bv_list v = map (dec_bit M (bv_get enc)) [0..<length (kp_mMtx M)]"
proof -
  let ?n = "length (kp_mMtx M)" and ?h = "kp_h M"
  let ?step = "\<lambda>i input. fold (\<lambda>j input. bv_put input i (bv_get input i \<noteq> (bv_get (kp_mMtx M ! i) j \<and> bv_get enc j)))
      [0..<?h] (bv_put input i (bv_get enc (?h + i)))"
  let ?run = "\<lambda>k. fold ?step [0..<k] (bv_reset input ?n)"
  have run: "bv_wf (?run k) \<and> bv_bits (?run k) = ?n \<and> (\<forall>i<k. bv_get (?run k) i = dec_bit M (bv_get enc) i)"
    if "k \<le> ?n" for k
    using that
  proof (induction k)
    case 0
    then show ?case by (simp add: bv_wf_reset)
  next
    case (Suc k)
    let ?u = "bv_put (?run k) k (bv_get enc (?h + k))"
    have u: "bv_wf ?u" "k < bv_bits ?u" "bv_bits ?u = ?n"
      using Suc by (simp_all add: bv_wf_put)
    have get: "bv_get ?u i = (if i = k then bv_get enc (?h + k) else bv_get (?run k) i)" for i
      using Suc by (simp add: bv_get_put)
    have eq: "?run (Suc k) = ?step k (?run k)" by simp
    show ?case
      unfolding eq
      using fold_bit_acc [OF u(1,2), of "\<lambda>j. bv_get (kp_mMtx M ! k) j \<and> bv_get enc j" "[0..<?h]"] u Suc get
      by (auto simp: Let_def dec_bit_def row_dot_def less_Suc_eq)
  qed
  have "kp_decode M enc input = Inr (?run ?n)"
    using assms by (simp add: kp_decode_def Let_def kp_h_def)
  moreover have "bv_list (?run ?n) = map (dec_bit M (bv_get enc)) [0..<?n]"
    using run [OF order_refl] by (simp add: bv_list_def)
  ultimately show ?thesis using run [OF order_refl] by blast
qed

section \<open>Encoding is decoded\<close>

lemma length_get_u8s:
  "prng_at g k p \<Longrightarrow> length (fst (get_u8s g len)) = len"
  using get_u8s_at [OF _ prod.collapse [symmetric], of g k p len] by simp

lemma projected_parity:
  assumes "bv_wf enc" and "h \<le> bv_bits enc" and "bv_fits h"
  shows "bv_parity (bv_and_assign (bv_of_bytes (bv_data enc) h) row) = row_dot row h (bv_get enc)"
proof -
  have b: "(h + 7) div 8 \<le> length (bv_data enc)"
    using assms(1) bv_sizeBytes_mono [OF assms(2)] by (simp add: bv_wf_def bv_sizeBytes_def)
  have wf: "bv_wf (bv_of_bytes (bv_data enc) h)"
    unfolding bv_of_bytes_def by (rule bv_wf_append) (use assms(3) b in simp_all)
  have l: "bv_list (bv_of_bytes (bv_data enc) h) = buf_bits (bv_data enc) 0 h"
    unfolding bv_of_bytes_def
    using bv_list_append [of bv_empty h 0 "bv_data enc"] assms(3) b
    by (simp add: bv_list_def [of bv_empty])
  then have bits: "bv_bits (bv_of_bytes (bv_data enc) h) = h"
    using arg_cong [OF l, of length] by (simp add: bv_list_def)
  have get: "bv_get (bv_of_bytes (bv_data enc) h) j = bv_get enc j" if "j < h" for j
    using arg_cong [OF l, of "\<lambda>xs. xs ! j"] that bits
    by (simp add: bv_list_def nth_buf_bits bv_get_bit)
  have "bv_bits (bv_and_assign (bv_of_bytes (bv_data enc) h) row) = h"
    by (simp add: bv_and_assign_def bits)
  then have "bv_list (bv_and_assign (bv_of_bytes (bv_data enc) h) row)
      = map (\<lambda>j. bv_get row j \<and> bv_get enc j) [0..<h]"
    using bv_get_and_assign [OF wf] get bits by (auto simp: bv_list_def)
  then show ?thesis by (simp add: bv_parity_correct row_dot_def)
qed

lemma row_dot_cong: "(\<And>j. j < h \<Longrightarrow> e j = f j) \<Longrightarrow> row_dot row h e = row_dot row h f"
  unfolding row_dot_def by (rule arg_cong [of _ _ parity_of]) auto

lemma kp_encode_decodes:
  assumes "kp_wf M" and "bv_bits input = length (kp_mMtx M)" and "prng_at g k p"
  shows "\<exists>enc g'. kp_encode M input encoding g = Inr (enc, g') \<and> bv_bits enc = kp_mEncodingSize M
    \<and> map (dec_bit M (bv_get enc)) [0..<length (kp_mMtx M)] = bv_list input"
proof -
  let ?n = "length (kp_mMtx M)" and ?h = "kp_h M" and ?m = "kp_mEncodingSize M"
  have m: "?m = ?h + ?n" and fits: "bv_fits ?h" "bv_fits ?m"
    using assms(1) by (auto simp: kp_wf_def kp_h_def bv_fits_def)
  let ?e0 = "bv_reset encoding ?m"
  obtain rnd g1 where rnd: "get_u8s g (bv_sizeBytes ?e0) = (rnd, g1)" by fastforce
  let ?e1 = "bv_randomize ?e0 rnd"
  have l: "length rnd = bv_sizeBytes ?e0" using length_get_u8s [OF assms(3), of "bv_sizeBytes ?e0"] rnd by simp
  have e1: "bv_wf ?e1" "bv_bits ?e1 = ?m"
    using bv_wf_reset [of encoding ?m] l by (simp_all add: bv_randomize_def bv_wf_def bv_sizeBytes_def)
  let ?step = "\<lambda>i enc. if bv_parity (bv_and_assign (bv_of_bytes (bv_data enc) ?h) (kp_mMtx M ! i)) \<noteq> bv_get input i
      then bv_put enc (?h + i) True else bv_put enc (?h + i) False"
  let ?run = "\<lambda>k. fold ?step [0..<k] ?e1"
  let ?v = "\<lambda>i. row_dot (kp_mMtx M ! i) ?h (bv_get ?e1) \<noteq> bv_get input i"
  have run: "bv_wf (?run k) \<and> bv_bits (?run k) = ?m \<and> (\<forall>j<?h. bv_get (?run k) j = bv_get ?e1 j)
      \<and> (\<forall>i<k. bv_get (?run k) (?h + i) = ?v i)" if "k \<le> ?n" for k
    using that
  proof (induction k)
    case (Suc k)
    then have ih: "bv_wf (?run k)" "bv_bits (?run k) = ?m" "\<And>j. j < ?h \<Longrightarrow> bv_get (?run k) j = bv_get ?e1 j"
      "\<And>i. i < k \<Longrightarrow> bv_get (?run k) (?h + i) = ?v i" by simp_all
    have "bv_parity (bv_and_assign (bv_of_bytes (bv_data (?run k)) ?h) (kp_mMtx M ! k))
        = row_dot (kp_mMtx M ! k) ?h (bv_get ?e1)"
      using projected_parity [OF ih(1), of ?h] ih(2) m fits row_dot_cong [OF ih(3)] by simp
    then have s: "?run (Suc k) = bv_put (?run k) (?h + k) (?v k)" by auto
    show ?case
      unfolding s using ih Suc.prems m by (auto simp: bv_wf_put bv_get_put less_Suc_eq)
  qed (use e1 in simp)
  have enc: "kp_encode M input encoding g = Inr (?run ?n, g1)"
    using assms(2) rnd unfolding kp_encode_def Let_def kp_h_def [symmetric] by simp
  note r = run [OF order_refl]
  have "map (dec_bit M (bv_get (?run ?n))) [0..<?n] = bv_list input"
  proof -
    have "row_dot row ?h (bv_get (?run ?n)) = row_dot row ?h (bv_get ?e1)" for row
      using r by (intro row_dot_cong) simp
    then show ?thesis
      using r assms(2) by (auto simp: dec_bit_def bv_list_def)
  qed
  then show ?thesis using enc r by blast
qed

text \<open>Labels.\<close>

lemma length_blocks_of [simp]: "length (blocks_of k b) = k"
  by (induction k arbitrary: b) simp_all

lemma fold_list_acc:
  assumes "i < length u" and "\<And>j. j \<in> set xs \<Longrightarrow> j \<noteq> i"
  shows "fold (\<lambda>j u. u[i := u ! i XOR (u ! j AND sBlockMasks (b j))]) xs u
         = u[i := u ! i XOR xor_fold 0 (map (\<lambda>j. sel (u ! j) (b j)) xs)]"
  using assms
proof (induction xs arbitrary: u)
  case (Cons x xs)
  let ?u = "u[i := u ! i XOR sel (u ! x) (b x)]"
  have "map (\<lambda>j. sel (?u ! j) (b j)) xs = map (\<lambda>j. sel (u ! j) (b j)) xs"
  proof (rule map_cong [OF refl])
    fix j assume "j \<in> set xs"
    then have "j \<noteq> i" using Cons.prems(2) by simp
    then show "sel (?u ! j) (b j) = sel (u ! j) (b j)" by simp
  qed
  note m = this
  have "fold (\<lambda>j u. u[i := u ! i XOR (u ! j AND sBlockMasks (b j))]) (x # xs) u
      = fold (\<lambda>j u. u[i := u ! i XOR (u ! j AND sBlockMasks (b j))]) xs ?u"
    by (simp add: and_mask_sel)
  also have "\<dots> = ?u[i := ?u ! i XOR xor_fold 0 (map (\<lambda>j. sel (?u ! j) (b j)) xs)]"
    by (rule Cons.IH) (use Cons.prems in simp_all)
  finally show ?case
    unfolding m using Cons.prems by (simp add: xor_fold_acc [of "sel (u ! x) (b x)"] xor.assoc)
qed simp

lemma row_sum_cong: "(\<And>j. j < h \<Longrightarrow> E j = F j) \<Longrightarrow> row_sum row h E = row_sum row h F"
  unfolding row_sum_def by (rule arg_cong [of _ _ "xor_fold 0"]) auto

lemma kp_encode_labels_decodes:
  assumes "kp_wf M"
  shows "length (fst (kp_encode_labels M orig g)) = kp_mEncodingSize M"
    and "i < length (kp_mMtx M) \<Longrightarrow> dec_lab M ((!) (fst (kp_encode_labels M orig g))) i = orig ! i"
proof -
  let ?n = "length (kp_mMtx M)" and ?h = "kp_h M" and ?m = "kp_mEncodingSize M"
  have m: "?m = ?h + ?n" using assms by (auto simp: kp_wf_def kp_h_def)
  obtain bytes g1 where b: "get_u8s g (?m * 16) = (bytes, g1)" by fastforce
  let ?e = "blocks_of ?m bytes"
  let ?step = "\<lambda>i enc. fold (\<lambda>j enc. enc[?h + i := enc ! (?h + i) XOR (enc ! j AND sBlockMasks (bv_get (kp_mMtx M ! i) j))])
      [0..<?h] (enc[?h + i := orig ! i])"
  let ?run = "\<lambda>k. fold ?step [0..<k] ?e"
  have run: "length (?run k) = ?m \<and> (\<forall>j<?h. ?run k ! j = ?e ! j)
      \<and> (\<forall>i<k. ?run k ! (?h + i) = orig ! i XOR row_sum (kp_mMtx M ! i) ?h ((!) ?e))" if "k \<le> ?n" for k
    using that
  proof (induction k)
    case (Suc k)
    let ?u = "(?run k)[?h + k := orig ! k]"
    have ih: "length (?run k) = ?m" "\<And>j. j < ?h \<Longrightarrow> ?run k ! j = ?e ! j"
      "\<And>i. i < k \<Longrightarrow> ?run k ! (?h + i) = orig ! i XOR row_sum (kp_mMtx M ! i) ?h ((!) ?e)"
      using Suc by simp_all
    have u: "?h + k < length ?u" using ih(1) Suc.prems m by simp
    have "?run (Suc k) = ?step k (?run k)" by simp
    also have "\<dots> = ?u[?h + k := ?u ! (?h + k) XOR xor_fold 0 (map (\<lambda>j. sel (?u ! j) (bv_get (kp_mMtx M ! k) j)) [0..<?h])]"
      by (rule fold_list_acc [OF u]) auto
    also have "xor_fold 0 (map (\<lambda>j. sel (?u ! j) (bv_get (kp_mMtx M ! k) j)) [0..<?h])
        = row_sum (kp_mMtx M ! k) ?h ((!) ?e)"
      unfolding row_sum_def [symmetric] by (rule row_sum_cong) (simp add: ih(2))
    finally have s: "?run (Suc k) = (?run k)[?h + k := orig ! k XOR row_sum (kp_mMtx M ! k) ?h ((!) ?e)]"
      using u by simp
    show ?case unfolding s using ih Suc.prems m by (auto simp: nth_list_update less_Suc_eq)
  qed simp
  have enc: "fst (kp_encode_labels M orig g) = ?run ?n"
    using b by (simp add: kp_encode_labels_def Let_def kp_h_def)
  note r = run [OF order_refl]
  show "length (fst (kp_encode_labels M orig g)) = kp_mEncodingSize M" using enc r by simp
  assume i: "i < ?n"
  have "row_sum (kp_mMtx M ! i) ?h ((!) (?run ?n)) = row_sum (kp_mMtx M ! i) ?h ((!) ?e)"
    using r by (intro row_sum_cong) simp
  then show "dec_lab M ((!) (fst (kp_encode_labels M orig g))) i = orig ! i"
    unfolding enc dec_lab_def using r i by simp
qed

section \<open>Files\<close>

lemma of_bytes_u64: "(of_bytes (u64_bytes w) :: u64) = w"
proof (rule bit_word_eqI)
  fix i assume "i < LENGTH(64)"
  then have i: "i < 64" by simp
  then have d: "i div 8 < 8" by (simp add: div_less_iff_less_mult)
  have "8 * (i div 8) + i mod 8 = i" by simp
  then show "bit (of_bytes (u64_bytes w) :: u64) i = bit w i"
    using i d by (simp add: bit_of_bytes u64_bytes_def bit_simps)
qed

lemma length_u64_bytes [simp]: "length (u64_bytes w) = 8"
  by (simp add: u64_bytes_def)

lemma bv_read_back:
  fixes rest :: "u8 list"
  assumes "bv_wf row" and "bv_bits row = h" and "bv_fits h"
  defines "r \<equiv> bv_resize bv_empty h"
  defines "u \<equiv> r\<lparr>bv_data := blit (bv_data r) 0 (take (bv_sizeBytes r) (take (bv_sizeBytes row) (bv_data row) @ rest))\<rparr>"
  shows "bv_wf u" and "bv_bits u = h" and "bv_list u = bv_list row"
    and "take (bv_sizeBytes row) (bv_data u) = take (bv_sizeBytes row) (bv_data row)"
proof -
  have k: "bv_sizeBytes r = bv_sizeBytes row" "bv_sizeBytes row \<le> length (bv_data row)"
    using assms(1,2) by (simp_all add: bv_wf_def r_def bv_sizeBytes_def)
  have r: "bv_sizeBytes r \<le> length (bv_data r)"
    using bv_wf_resize [OF bv_wf_empty assms(3)] by (simp only: r_def bv_wf_def)
  have t: "take (bv_sizeBytes r) (take (bv_sizeBytes row) (bv_data row) @ rest) = take (bv_sizeBytes row) (bv_data row)"
    using k by simp
  have u: "u = r\<lparr>bv_data := blit (bv_data r) 0 (take (bv_sizeBytes row) (bv_data row))\<rparr>"
    unfolding u_def t ..
  show "bv_bits u = h" by (simp add: u r_def)
  then have sz: "bv_sizeBytes u = bv_sizeBytes row" using assms(2) by (simp add: bv_sizeBytes_def)
  show "bv_wf u" using r k sz by (simp add: u bv_wf_def)
  show tk: "take (bv_sizeBytes row) (bv_data u) = take (bv_sizeBytes row) (bv_data row)"
    using r k by (simp add: u blit_def)
  show "bv_list u = bv_list row"
  proof (rule bv_listI)
    fix i assume "i < length (bv_list row)"
    then have i: "i < h" using assms(2) by (simp add: bv_list_def)
    then have d: "i div 8 < bv_sizeBytes row" using assms(2) by (simp add: bv_sizeBytes_def byte_idx_less)
    have "bv_data u ! (i div 8) = bv_data row ! (i div 8)"
      using arg_cong [OF tk, of "\<lambda>xs. xs ! (i div 8)"] d by simp
    then show "bv_get u i = bv_list row ! i" using i assms(2) by (simp add: bv_list_def bv_get_bit)
  qed (simp add: \<open>bv_bits u = h\<close> assms(2) bv_list_def)
qed

definition row_bytes :: "bitvec \<Rightarrow> u8 list" where
  "row_bytes row = take (bv_sizeBytes row) (bv_data row)"

lemma kp_load_rows_save:
  assumes "\<forall>row\<in>set rows. bv_wf row \<and> bv_bits row = h" and "bv_fits h"
  shows "map bv_list (kp_load_rows (length rows) h (concat (map row_bytes rows))) = map bv_list rows
     \<and> map row_bytes (kp_load_rows (length rows) h (concat (map row_bytes rows))) = map row_bytes rows
     \<and> (\<forall>row\<in>set (kp_load_rows (length rows) h (concat (map row_bytes rows))). bv_wf row \<and> bv_bits row = h)"
  using assms(1)
proof (induction rows)
  case (Cons row rows)
  let ?rest = "concat (map row_bytes rows)"
  have w: "bv_wf row" "bv_bits row = h" using Cons.prems by simp_all
  have sz: "bv_sizeBytes (bv_resize bv_empty h) = bv_sizeBytes row" using w by (simp add: bv_sizeBytes_def)
  have l: "length (row_bytes row) = bv_sizeBytes row" using w by (simp add: row_bytes_def bv_wf_def)
  note rb = bv_read_back [OF w assms(2), of ?rest]
  let ?u = "(bv_resize bv_empty h)\<lparr>bv_data := blit (bv_data (bv_resize bv_empty h)) 0
      (take (bv_sizeBytes (bv_resize bv_empty h)) (take (bv_sizeBytes row) (bv_data row) @ ?rest))\<rparr>"
  have head: "row_bytes ?u = row_bytes row"
    using rb(2,4) w by (simp add: row_bytes_def bv_sizeBytes_def)
  have "kp_load_rows (length (row # rows)) h (concat (map row_bytes (row # rows)))
      = ?u # kp_load_rows (length rows) h ?rest"
    using l sz by (simp add: Let_def row_bytes_def)
  then show ?case using Cons rb(1-3) head by simp
qed simp

lemma kp_load_save:
  assumes "kp_wf M" and "kp_mEncodingSize M < 2 ^ 64"
  shows "\<exists>L. kp_load N (kp_save M) = Some L \<and> kp_mEncodingSize L = kp_mEncodingSize M
     \<and> map bv_list (kp_mMtx L) = map bv_list (kp_mMtx M)
     \<and> map row_bytes (kp_mMtx L) = map row_bytes (kp_mMtx M) \<and> kp_wf L"
proof -
  let ?n = "length (kp_mMtx M)" and ?h = "kp_h M"
  have m: "kp_mEncodingSize M = ?h + ?n" and f: "bv_fits ?h"
    using assms(1) by (auto simp: kp_wf_def kp_h_def bv_fits_def)
  have n: "unat (word_of_nat ?n :: u64) = ?n" "unat (word_of_nat ?h :: u64) = ?h"
    using assms(2) m by (simp_all add: unsigned_of_nat take_bit_eq_mod)
  let ?rows = "concat (map row_bytes (kp_mMtx M))"
  have s: "kp_save M = u64_bytes (word_of_nat ?n) @ u64_bytes (word_of_nat ?h) @ ?rows"
    by (simp add: kp_save_def Let_def kp_h_def row_bytes_def [abs_def])
  have ld: "kp_load N (kp_save M)
      = Some (N\<lparr>kp_mEncodingSize := ?h + ?n, kp_mMtx := kp_load_rows ?n ?h ?rows\<rparr>)"
    by (simp add: kp_load_def s of_bytes_u64 n Let_def)
  have r: "map bv_list (kp_load_rows ?n ?h ?rows) = map bv_list (kp_mMtx M)
      \<and> map row_bytes (kp_load_rows ?n ?h ?rows) = map row_bytes (kp_mMtx M)
      \<and> (\<forall>row\<in>set (kp_load_rows ?n ?h ?rows). bv_wf row \<and> bv_bits row = ?h)"
    by (rule kp_load_rows_save) (use assms(1) f in \<open>simp_all add: kp_wf_def\<close>)
  have len: "length (kp_load_rows ?n ?h ?rows) = ?n"
    using arg_cong [of _ _ length, OF conjunct1 [OF r]] by simp
  let ?L = "N\<lparr>kp_mEncodingSize := ?h + ?n, kp_mMtx := kp_load_rows ?n ?h ?rows\<rparr>"
  have size: "kp_mEncodingSize ?L = kp_mEncodingSize M" and rows: "kp_mMtx ?L = kp_load_rows ?n ?h ?rows"
    by (simp_all add: m)
  have "kp_h ?L = ?h" using len m by (simp add: kp_h_def [of ?L])
  then have wf: "kp_wf ?L"
    using assms(1) r len m unfolding kp_wf_def size rows by simp
  from wf show ?thesis unfolding ld using r size rows by metis
qed

lemma dec_bit_cong:
  assumes "kp_wf M" and "kp_wf L" and "kp_mEncodingSize L = kp_mEncodingSize M"
    and "map bv_list (kp_mMtx L) = map bv_list (kp_mMtx M)" and "i < length (kp_mMtx M)"
  shows "dec_bit L e i = dec_bit M e i" and "dec_lab L E i = dec_lab M E i"
proof -
  have l: "length (kp_mMtx L) = length (kp_mMtx M)" using arg_cong [OF assms(4), of length] by simp
  then have h: "kp_h L = kp_h M" using assms(3) by (simp add: kp_h_def)
  have b: "bv_bits (kp_mMtx L ! i) = kp_h M" "bv_bits (kp_mMtx M ! i) = kp_h M"
    using assms(1,2,5) l h by (simp_all add: kp_wf_def)
  have "bv_list (kp_mMtx L ! i) = bv_list (kp_mMtx M ! i)"
    using arg_cong [OF assms(4), of "\<lambda>xs. xs ! i"] assms(5) l by simp
  then have g: "bv_get (kp_mMtx L ! i) j = bv_get (kp_mMtx M ! i) j" if "j < kp_h M" for j
    using b that by (simp add: bv_list_def list_eq_iff_nth_eq)
  have dot: "map (\<lambda>j. bv_get (kp_mMtx L ! i) j \<and> e j) [0..<kp_h M] = map (\<lambda>j. bv_get (kp_mMtx M ! i) j \<and> e j) [0..<kp_h M]"
    using g by auto
  show "dec_bit L e i = dec_bit M e i" by (simp only: dec_bit_def row_dot_def h dot)
  have sum: "map (\<lambda>j. sel (E j) (bv_get (kp_mMtx L ! i) j)) [0..<kp_h M] = map (\<lambda>j. sel (E j) (bv_get (kp_mMtx M ! i) j)) [0..<kp_h M]"
    using g by auto
  show "dec_lab L E i = dec_lab M E i" by (simp only: dec_lab_def row_sum_def h sum)
qed

section \<open>Built matrices are well-formed\<close>

lemma kp_row_wf:
  "bv_fits (N * t) \<Longrightarrow> bv_wf (fst (kp_row ntl t K N g)) \<and> bv_bits (fst (kp_row ntl t K N g)) = N * t"
  by (simp add: kp_row_def Let_def bva.fill_ok0 bva.fill_size0 bv_wf_resize split: prod.splits)

lemma kp_rows_wf:
  assumes "bv_fits (N * t)"
  shows "length (fst (kp_rows ntl t K N k g)) = k
    \<and> (\<forall>row\<in>set (fst (kp_rows ntl t K N k g)). bv_wf row \<and> bv_bits row = N * t)"
proof (induction k arbitrary: g)
  case (Suc k)
  obtain r g1 where r: "kp_row ntl t K N g = (r, g1)" by fastforce
  obtain rs g2 where rs: "kp_rows ntl t K N k g1 = (rs, g2)" by fastforce
  show ?case using kp_row_wf [OF assms, of ntl K g] Suc.IH [of g1] r rs by simp
qed simp

lemma kp_build_wf:
  assumes "inputSize \<noteq> 0" and "dims inputSize secParam = (t, K)"
    and "bv_fits ((K + secParam - 1) * t + inputSize)"
  shows "kp_wf (fst (kp_build dims ntl M inputSize secParam g))
    \<and> length (kp_mMtx (fst (kp_build dims ntl M inputSize secParam g))) = inputSize"
proof -
  let ?N = "K + secParam - 1"
  obtain rows g1 where r: "kp_rows ntl t K ?N inputSize g = (rows, g1)" by fastforce
  have f: "bv_fits (?N * t)" using assms(3) by (simp add: bv_fits_def)
  show ?thesis
    using kp_rows_wf [OF f, of ntl K inputSize g] assms r
    by (simp add: kp_build_def kp_wf_def kp_h_def Let_def)
qed

section \<open>Properties\<close>

text \<open>C10. Encoding then decoding an input bit vector under a k-probe matrix gives the input back,
  whatever random bits the encoding drew, and throws nowhere.\<close>

theorem kprobe_encode_decode:
  assumes "kp_wf M" and "bv_bits input = length (kp_mMtx M)" and "prng_at g k p"
  shows "\<exists>enc g' v. kp_encode M input encoding g = Inr (enc, g')
    \<and> kp_decode M enc out = Inr v \<and> bv_list v = bv_list input"
  using kp_encode_decodes [OF assms, of encoding] kp_decode_eq [of _ M out] by metis

definition kp_sample :: KProbeMatrix where
  "kp_sample = \<lparr>kp_mEncodingSize = 5, kp_mMtx = [bv_put (bv_reset bv_empty 3) 1 True, bv_reset bv_empty 3],
                kp_mSignature = 0\<rparr>"

lemma kp_sample_wf: "kp_wf kp_sample" "length (kp_mMtx kp_sample) = 2" "kp_mEncodingSize kp_sample = 5"
  by (simp_all add: kp_sample_def kp_wf_def kp_h_def bv_wf_put bv_wf_reset bv_fits_def)

theorem kprobe_encode_decode_witness:
  "\<exists>enc g' v. kp_encode kp_sample (bv_put (bv_reset bv_empty 2) 0 True) bv_empty (SetSeed 3) = Inr (enc, g')
    \<and> kp_decode kp_sample enc bv_empty = Inr v \<and> bv_list v = bv_list (bv_put (bv_reset bv_empty 2) 0 True)"
  by (rule kprobe_encode_decode [OF kp_sample_wf(1) _ SetSeed_at]) (simp add: kp_sample_wf)

text \<open>C9. The garbler's encoding of zero-labels decodes to the original labels, and the labels an
  evaluator obtains for the bits of an encoded input decode to the labels of the decoded input:
  decoding commutes with labelling.\<close>

theorem kprobe_labels_decode:
  assumes "kp_wf M" and "length orig = length (kp_mMtx M)"
    and "bv_bits enc = kp_mEncodingSize M" and "kp_decode M enc out = Inr v"
  shows "kp_decode_labels M (fst (kp_encode_labels M orig g)) = Inr orig
    \<and> kp_decode_labels M (map (\<lambda>j. fst (kp_encode_labels M orig g) ! j XOR sel R (bv_get enc j))
         [0..<kp_mEncodingSize M])
      = Inr (map (\<lambda>i. orig ! i XOR sel R (bv_get v i)) [0..<length (kp_mMtx M)])"
proof -
  let ?E = "fst (kp_encode_labels M orig g)" and ?n = "length (kp_mMtx M)" and ?m = "kp_mEncodingSize M"
  let ?L = "map (\<lambda>j. ?E ! j XOR sel R (bv_get enc j)) [0..<?m]"
  note E = kp_encode_labels_decodes [OF assms(1), where orig = orig and g = g]
  have "map (dec_lab M ((!) ?E)) [0..<?n] = orig"
    using E(2) assms(2) by (intro nth_equalityI) simp_all
  then have 1: "kp_decode_labels M ?E = Inr orig" using E(1) by (simp add: kp_decode_labels_eq)
  have v: "bv_list v = map (dec_bit M (bv_get enc)) [0..<?n]"
    using kp_decode_eq [OF assms(3), of out] assms(4) by auto
  have "bv_get v i = dec_bit M (bv_get enc) i" if "i < ?n" for i
    using arg_cong [OF v, of "\<lambda>xs. xs ! i"] arg_cong [OF v, of length] that by (simp add: bv_list_def)
  moreover have "dec_lab M ((!) ?L) i = lab R (dec_lab M ((!) ?E) i) (dec_bit M (bv_get enc) i)" if "i < ?n" for i
  proof -
    have m: "?m = kp_h M + ?n" using assms(1) by (auto simp: kp_wf_def kp_h_def)
    have "row_sum row (kp_h M) ((!) ?L) = row_sum row (kp_h M) (\<lambda>j. lab R (?E ! j) (bv_get enc j))" for row
      by (rule row_sum_cong) (simp add: m lab_def)
    then have "dec_lab M ((!) ?L) i = dec_lab M (\<lambda>j. lab R (?E ! j) (bv_get enc j)) i"
      using that m by (simp add: dec_lab_def lab_def)
    then show ?thesis by (simp add: kpc.dlab_lab)
  qed
  ultimately have "map (dec_lab M ((!) ?L)) [0..<?n] = map (\<lambda>i. orig ! i XOR sel R (bv_get v i)) [0..<?n]"
    using E(2) by (simp add: lab_def)
  then show ?thesis using 1 by (simp add: kp_decode_labels_eq)
qed

theorem kprobe_labels_decode_witness:
  "\<exists>v. kp_decode_labels kp_sample (fst (kp_encode_labels kp_sample [8, 9] (SetSeed 4))) = Inr [8, 9]
    \<and> kp_decode_labels kp_sample
        (map (\<lambda>j. fst (kp_encode_labels kp_sample [8, 9] (SetSeed 4)) ! j XOR sel 77 (bv_get (bv_reset bv_empty 5) j))
           [0..<kp_mEncodingSize kp_sample])
      = Inr (map (\<lambda>i. [8, 9] ! i XOR sel 77 (bv_get v i)) [0..<length (kp_mMtx kp_sample)])"
proof -
  obtain v where v: "kp_decode kp_sample (bv_reset bv_empty 5) bv_empty = Inr v"
    using kp_decode_eq [of "bv_reset bv_empty 5" kp_sample bv_empty] by (auto simp: kp_sample_wf)
  show ?thesis
    using kprobe_labels_decode [OF kp_sample_wf(1) _ _ v, of "[8, 9]" "SetSeed 4" 77]
    by (intro exI [of _ v]) (simp add: kp_sample_wf)
qed

text \<open>A matrix built once and cached decodes like itself: what \<open>loadOrBuild\<close> reads back from the
  file it saved has the same dimensions and signature and decodes every encoding alike. The
  generator ends elsewhere, since loading draws nothing for the coefficients.\<close>

theorem kprobe_cache_faithful:
  assumes "inputSize \<noteq> 0" and "dims inputSize secParam = (t, K)"
    and "bv_fits ((K + secParam - 1) * t + inputSize)"
    and "kp_loadOrBuild dims ntl (\<lambda>_. None) M inputSize secParam g = Some (Inr (M1, g1, file))"
  shows "\<exists>M2. kp_loadOrBuild dims ntl (\<lambda>_. Some file) M' inputSize secParam g
                 = Some (Inr (M2, snd (get_block g), file))
    \<and> kp_mEncodingSize M2 = kp_mEncodingSize M1 \<and> kp_mSignature M2 = kp_mSignature M1
    \<and> map (dec_bit M2 e) [0..<inputSize] = map (dec_bit M1 e) [0..<inputSize]
    \<and> map (dec_lab M2 E) [0..<inputSize] = map (dec_lab M1 E) [0..<inputSize]"
proof -
  obtain b g0 where b: "get_block g = (b, g0)" by fastforce
  obtain B g2 where B: "kp_build dims ntl M inputSize secParam g0 = (B, g2)" by fastforce
  obtain sig where sig: "kp_signature B = Inr sig" "M1 = B\<lparr>kp_mSignature := sig\<rparr>" "file = kp_save B"
    using assms(4) b B by (cases "kp_signature B") (auto simp: kp_loadOrBuild_def Let_def)
  have wf: "kp_wf B" "length (kp_mMtx B) = inputSize"
    using kp_build_wf [of inputSize dims secParam t K ntl M g0] assms(1-3) B by simp_all
  have "kp_mEncodingSize B < 2 ^ 64" using wf(1) by (simp add: kp_wf_def bv_fits_def)
  then obtain L where L: "kp_load M' (kp_save B) = Some L" "kp_mEncodingSize L = kp_mEncodingSize B"
    "map bv_list (kp_mMtx L) = map bv_list (kp_mMtx B)" "map row_bytes (kp_mMtx L) = map row_bytes (kp_mMtx B)" "kp_wf L"
    using kp_load_save [OF wf(1)] by blast
  have len: "length (kp_mMtx L) = inputSize" using arg_cong [OF L(3), of length] wf(2) by simp
  have bits: "bv_bits (kp_mMtx L ! 0) = bv_bits (kp_mMtx B ! 0)"
    using arg_cong [OF L(3), of "\<lambda>xs. length (xs ! 0)"] len wf(2) assms(1) by (simp add: bv_list_def)
  have bytes: "row_bytes (kp_mMtx L ! 0) = row_bytes (kp_mMtx B ! 0)"
    using arg_cong [OF L(4), of "\<lambda>xs. xs ! 0"] len wf(2) assms(1) by simp
  have "take k (bv_data (kp_mMtx L ! 0)) = take k (bv_data (kp_mMtx B ! 0))"
    if "k \<le> bv_sizeBytes (kp_mMtx B ! 0)" for k
    using arg_cong [OF bytes, of "take k"] that bits by (simp add: row_bytes_def min_def bv_sizeBytes_def)
  then have "kp_signature L = Inr sig"
    using sig(1) bits by (auto simp: kp_signature_def Let_def bv_sizeBytes_def split: if_splits)
  then have run: "kp_loadOrBuild dims ntl (\<lambda>_. Some file) M' inputSize secParam g
      = Some (Inr (L\<lparr>kp_mSignature := sig\<rparr>, g0, file))"
    using L(1) b by (simp add: kp_loadOrBuild_def sig(3))
  have upd: "dec_bit (N\<lparr>kp_mSignature := x\<rparr>) = dec_bit N" "dec_lab (N\<lparr>kp_mSignature := x\<rparr>) = dec_lab N" for N x
    by (simp_all add: fun_eq_iff dec_bit_def dec_lab_def kp_h_def)
  have "map (dec_bit L e) [0..<inputSize] = map (dec_bit B e) [0..<inputSize]"
    "map (dec_lab L E) [0..<inputSize] = map (dec_lab B E) [0..<inputSize]"
    using dec_bit_cong [OF wf(1) L(5) L(2,3)] wf(2) by simp_all
  then show ?thesis using run L(2) by (simp add: sig(2) upd b)
qed

text \<open>Dimensions and an evaluation for the instance: one row of 16 bits.\<close>

theorem kprobe_cache_faithful_witness:
  "\<exists>M1 g1 file M2. kp_loadOrBuild (\<lambda>_ _. (16, 2)) (\<lambda>t cs x. replicate t True) (\<lambda>_. None) kp_sample 1 0 (SetSeed 1)
        = Some (Inr (M1, g1, file))
    \<and> kp_loadOrBuild (\<lambda>_ _. (16, 2)) (\<lambda>t cs x. replicate t True) (\<lambda>_. Some file) kp_sample 1 0 (SetSeed 1)
        = Some (Inr (M2, snd (get_block (SetSeed 1)), file))
    \<and> kp_mEncodingSize M2 = kp_mEncodingSize M1 \<and> kp_mSignature M2 = kp_mSignature M1
    \<and> map (dec_bit M2 (\<lambda>_. True)) [0..<1] = map (dec_bit M1 (\<lambda>_. True)) [0..<1]
    \<and> map (dec_lab M2 (\<lambda>_. 5)) [0..<1] = map (dec_lab M1 (\<lambda>_. 5)) [0..<1]"
proof -
  let ?d = "\<lambda>(_::nat) (_::nat). (16::nat, 2::nat)" and ?n = "\<lambda>t (cs :: bool list) (x::nat). replicate t True"
  obtain b g0 where b: "get_block (SetSeed 1) = (b, g0)" by fastforce
  obtain B g2 where B: "kp_build ?d ?n kp_sample 1 0 g0 = (B, g2)" by fastforce
  have wf: "kp_wf B" "length (kp_mMtx B) = 1" "kp_mEncodingSize B = 17"
    using kp_build_wf [of 1 ?d 0 16 2 ?n kp_sample g0] B
    by (simp_all add: bv_fits_def) (auto simp: kp_build_def Let_def split: prod.splits)
  then have "bv_bits (kp_mMtx B ! 0) = 16" by (simp add: kp_wf_def kp_h_def)
  then obtain sig where "kp_signature B = Inr sig" by (simp add: kp_signature_def Let_def)
  then have r: "kp_loadOrBuild ?d ?n (\<lambda>_. None) kp_sample 1 0 (SetSeed 1)
      = Some (Inr (B\<lparr>kp_mSignature := sig\<rparr>, g2, kp_save B))"
    using b B by (simp add: kp_loadOrBuild_def)
  have "\<exists>M2. kp_loadOrBuild ?d ?n (\<lambda>_. Some (kp_save B)) kp_sample 1 0 (SetSeed 1)
        = Some (Inr (M2, snd (get_block (SetSeed 1)), kp_save B))
    \<and> kp_mEncodingSize M2 = kp_mEncodingSize (B\<lparr>kp_mSignature := sig\<rparr>)
    \<and> kp_mSignature M2 = kp_mSignature (B\<lparr>kp_mSignature := sig\<rparr>)
    \<and> map (dec_bit M2 (\<lambda>_. True)) [0..<1] = map (dec_bit (B\<lparr>kp_mSignature := sig\<rparr>) (\<lambda>_. True)) [0..<1]
    \<and> map (dec_lab M2 (\<lambda>_. 5)) [0..<1] = map (dec_lab (B\<lparr>kp_mSignature := sig\<rparr>) (\<lambda>_. 5)) [0..<1]"
    by (rule kprobe_cache_faithful [where dims = ?d and t = 16 and K = 2, OF _ _ _ r])
      (simp_all add: bv_fits_def)
  then show ?thesis using r by blast
qed

end
