(* ===== verification/BDX_OTTools.thy ===== *)
theory BDX_OTTools
  imports BDX_Commit
begin

text \<open>
  \<open>OT/Tools.cpp\<close>: the carry-less multiplications behind the correlation check of the OT extension,
  the in-place transposition of a 128 by 128 bit matrix (Eklundh's algorithm), and the coin tossing
  of \<open>random_seed_commit\<close>. The SSE intrinsics are written out on words.
\<close>

unbundle bit_operations_syntax

section \<open>Carry-less multiplication\<close>

text \<open>The product of two words read as polynomials over GF(2).\<close>

definition clmul :: "'a::len word \<Rightarrow> 'b::len word \<Rightarrow> 'c::len word" where
  "clmul a b = xor_fold 0 (map (\<lambda>i. sel (push_bit i (ucast b)) (bit a i)) [0..<LENGTH('a)])"

definition clmulepi64_si128 :: "block \<Rightarrow> block \<Rightarrow> nat \<Rightarrow> block" where
  "clmulepi64_si128 a b imm =
     clmul (if bit imm 0 then hi64 a else lo64 a) (if bit imm 4 then hi64 b else lo64 b)"

definition slli_si128 :: "block \<Rightarrow> nat \<Rightarrow> block" where
  "slli_si128 a n = push_bit (8 * n) a"

definition srli_si128 :: "block \<Rightarrow> nat \<Rightarrow> block" where
  "srli_si128 a n = drop_bit (8 * n) a"

definition mul128 :: "block \<Rightarrow> block \<Rightarrow> block \<times> block" where
  "mul128 a b =
     (let tmp3 = clmulepi64_si128 a b 0;
          tmp4 = clmulepi64_si128 a b 16;
          tmp5 = clmulepi64_si128 a b 1;
          tmp6 = clmulepi64_si128 a b 17;
          tmp4 = tmp4 XOR tmp5;
          tmp5 = slli_si128 tmp4 8;
          tmp4 = srli_si128 tmp4 8;
          tmp3 = tmp3 XOR tmp5;
          tmp6 = tmp6 XOR tmp4
      in (tmp3, tmp6))"

text \<open>The four 32-bit lanes shifted separately.\<close>

definition lane32 :: "block \<Rightarrow> nat \<Rightarrow> u32" where
  "lane32 a i = ucast (drop_bit (32 * i) a)"

definition of_lanes32 :: "(nat \<Rightarrow> u32) \<Rightarrow> block" where
  "of_lanes32 f = xor_fold 0 (map (\<lambda>i. push_bit (32 * i) (ucast (f i))) [0..<4])"

definition slli_epi32 :: "block \<Rightarrow> nat \<Rightarrow> block" where
  "slli_epi32 a n = of_lanes32 (\<lambda>i. push_bit n (lane32 a i))"

definition srli_epi32 :: "block \<Rightarrow> nat \<Rightarrow> block" where
  "srli_epi32 a n = of_lanes32 (\<lambda>i. drop_bit n (lane32 a i))"

definition gfred128 :: "block \<Rightarrow> block \<Rightarrow> block" where
  "gfred128 tmp3 tmp6 =
     (let tmp7 = srli_epi32 tmp3 31;
          tmp8 = srli_epi32 tmp6 31;
          tmp3 = slli_epi32 tmp3 1;
          tmp6 = slli_epi32 tmp6 1;
          tmp9 = srli_si128 tmp7 12;
          tmp8 = slli_si128 tmp8 4;
          tmp7 = slli_si128 tmp7 4;
          tmp3 = tmp3 OR tmp7;
          tmp6 = tmp6 OR tmp8;
          tmp6 = tmp6 OR tmp9;
          tmp7 = slli_epi32 tmp3 31;
          tmp8 = slli_epi32 tmp3 30;
          tmp9 = slli_epi32 tmp3 25;
          tmp7 = tmp7 XOR tmp8;
          tmp7 = tmp7 XOR tmp9;
          tmp8 = srli_si128 tmp7 4;
          tmp7 = slli_si128 tmp7 12;
          tmp3 = tmp3 XOR tmp7;
          tmp2 = srli_epi32 tmp3 1;
          tmp4 = srli_epi32 tmp3 2;
          tmp5 = srli_epi32 tmp3 7;
          tmp2 = tmp2 XOR tmp4;
          tmp2 = tmp2 XOR tmp5;
          tmp2 = tmp2 XOR tmp8;
          tmp3 = tmp3 XOR tmp2
      in tmp6 XOR tmp3)"

definition gfmul128 :: "block \<Rightarrow> block \<Rightarrow> block" where
  "gfmul128 a b = (let (tmp3, tmp6) = mul128 a b in gfred128 tmp3 tmp6)"

section \<open>Transposition\<close>

definition TRANSPOSE_MASKS128 :: "(u64 \<times> u64) list" where
  "TRANSPOSE_MASKS128 =
     [(0x0000000000000000, 0xFFFFFFFFFFFFFFFF),
      (0x00000000FFFFFFFF, 0x00000000FFFFFFFF),
      (0x0000FFFF0000FFFF, 0x0000FFFF0000FFFF),
      (0x00FF00FF00FF00FF, 0x00FF00FF00FF00FF),
      (0x0F0F0F0F0F0F0F0F, 0x0F0F0F0F0F0F0F0F),
      (0x3333333333333333, 0x3333333333333333),
      (0x5555555555555555, 0x5555555555555555)]"

text \<open>The body of the innermost loop: rows \<open>i1\<close> and \<open>i2\<close> exchange their off-diagonal bits.\<close>

definition transpose_rows :: "nat \<Rightarrow> u64 \<Rightarrow> u64 \<Rightarrow> block \<Rightarrow> block \<Rightarrow> block \<times> block" where
  "transpose_rows width mask1 mask2 r1 r2 =
     (let inv_mask1 = NOT mask1; inv_mask2 = NOT mask2;
          t1 = lo64 r1; t2 = hi64 r1; tt1 = lo64 r2; tt2 = hi64 r2
      in if width < 64
         then (set_epi64x
                 ((t2 AND mask2) XOR push_bit width (tt2 AND mask2)
                    XOR drop_bit (64 - width) (tt1 AND mask1))
                 ((t1 AND mask1) XOR push_bit width (tt1 AND mask1)),
               set_epi64x
                 ((tt2 AND inv_mask2) XOR drop_bit width (t2 AND inv_mask2))
                 ((tt1 AND inv_mask1) XOR drop_bit width (t1 AND inv_mask1)
                    XOR push_bit (64 - width) (t2 AND inv_mask2)))
         else (set_epi64x
                 ((t2 AND mask2) XOR drop_bit (64 - width) (tt1 AND mask1))
                 (t1 AND mask1),
               set_epi64x
                 (tt2 AND inv_mask2)
                 ((tt1 AND inv_mask1) XOR push_bit (64 - width) (t2 AND inv_mask2))))"

definition transpose_step :: "nat \<Rightarrow> u64 \<Rightarrow> u64 \<Rightarrow> nat \<Rightarrow> nat \<Rightarrow> block list \<Rightarrow> block list" where
  "transpose_step width mask1 mask2 j k inOut =
     (let i1 = k + 2 * width * j;
          i2 = k + width + 2 * width * j;
          (r1, r2) = transpose_rows width mask1 mask2 (inOut ! i1) (inOut ! i2)
      in inOut[i1 := r1, i2 := r2])"

definition transpose_stage :: "nat \<Rightarrow> nat \<Rightarrow> u64 \<Rightarrow> u64 \<Rightarrow> block list \<Rightarrow> block list" where
  "transpose_stage width nswaps mask1 mask2 inOut =
     fold (\<lambda>j m. fold (\<lambda>k m. transpose_step width mask1 mask2 j k m) [0..<width] m)
       [0..<nswaps] inOut"

definition eklundh_transpose128 :: "block list \<Rightarrow> block list" where
  "eklundh_transpose128 inOut =
     fst (fold (\<lambda>i (m, width, nswaps).
                  (transpose_stage width nswaps (snd (TRANSPOSE_MASKS128 ! i))
                     (fst (TRANSPOSE_MASKS128 ! i)) m, width div 2, nswaps * 2))
            [0..<7] (inOut, 64, 1))"

section \<open>Coin tossing\<close>

text \<open>
  What a party sends in \<open>random_seed_commit\<close> (its commitment, then the opening) and what it computes
  from the two messages it receives.
\<close>

definition random_seed_commit_send ::
  "(u8 list \<Rightarrow> u8 list) \<Rightarrow> nat \<Rightarrow> block \<Rightarrow> bytestream \<times> bytestream \<times> bytestream" where
  "random_seed_commit_send sha len prngSeed =
     (let G = SetSeed prngSeed;
          (mySeed, G) = get_ByteStream G (bs_new 512) len;
          (myComm, myOpen, G) = CommitComm sha (bs_new 512) (bs_new 512) mySeed G
      in (mySeed, myComm, myOpen))"

definition random_seed_commit_recv ::
  "(u8 list \<Rightarrow> u8 list) \<Rightarrow> nat \<Rightarrow> bytestream \<Rightarrow> bytestream \<Rightarrow> bytestream \<Rightarrow> u8 list result" where
  "random_seed_commit_recv sha len mySeed theirComm theirOpen =
     bind_r (CommitOpen sha (bs_new 512) theirComm theirOpen) (\<lambda>(ok, theirSeed).
       if \<not> ok then Inl InvalidCommitment
       else Inr (map (\<lambda>i. the (bs_data mySeed ! i) XOR the (bs_data theirSeed ! i)) [0..<len]))"


section \<open>Multiplication is bilinear and exact\<close>

lemma sel_xor_word: "sel (x XOR y) p = sel x p XOR sel y p"
  by (cases p) simp_all

lemma push_bit_xor_word [simp]: "push_bit n (x XOR y) = push_bit n x XOR push_bit n (y :: 'a::len word)"
  by (rule bit_word_eqI) (auto simp: bit_simps)

lemma drop_bit_xor_word [simp]: "drop_bit n (x XOR y) = drop_bit n x XOR drop_bit n (y :: 'a::len word)"
  by (rule bit_word_eqI) (auto simp: bit_simps)

lemma ucast_xor_word [simp]: "(ucast (x XOR y) :: 'b::len word) = ucast x XOR ucast (y :: 'a::len word)"
  by (rule bit_word_eqI) (auto simp: bit_simps dest: bit_imp_le_length)

lemma clmul_xor_left: "(clmul (a XOR b) c :: 'c::len word) = clmul a c XOR clmul b c"
  unfolding clmul_def xor_fold_map_xor [symmetric]
  by (simp only: bit_xor_iff sel_xor)

lemma clmul_xor_right: "(clmul a (b XOR c) :: 'c::len word) = clmul a b XOR clmul a c"
  unfolding clmul_def xor_fold_map_xor [symmetric]
  by (simp only: ucast_xor_word push_bit_xor_word sel_xor_word)

lemma xor_fold_hom:
  assumes "f 0 = 0" and "\<And>x y. f (x XOR y) = f x XOR f y"
  shows "f (xor_fold 0 xs) = xor_fold 0 (map f xs)"
proof (induction xs)
  case (Cons x xs)
  have "f (xor_fold x xs) = f x XOR f (xor_fold 0 xs)"
    by (subst xor_fold_acc) (rule assms(2))
  also have "\<dots> = xor_fold (f x) (map f xs)"
    by (subst (2) xor_fold_acc) (simp add: Cons)
  finally show ?case by simp
qed (simp add: assms(1))

lemma xor_fold_0 [simp]: "xor_fold 0 (map (\<lambda>_. 0) xs) = 0"
  by (induction xs) simp_all

lemma clmul_0 [simp]: "clmul 0 b = 0"
  unfolding clmul_def by simp

lemma hi64_xor [simp]: "hi64 (a XOR b) = hi64 a XOR hi64 b"
  by (simp add: hi64_def)

lemma lo64_xor [simp]: "lo64 (a XOR b) = lo64 a XOR lo64 b"
  by (simp add: lo64_def)

lemma clmulepi64_xor_left: "clmulepi64_si128 (a XOR b) c n = clmulepi64_si128 a c n XOR clmulepi64_si128 b c n"
  by (simp add: clmulepi64_si128_def clmul_xor_left)

lemma clmulepi64_xor_right: "clmulepi64_si128 c (a XOR b) n = clmulepi64_si128 c a n XOR clmulepi64_si128 c b n"
  by (simp add: clmulepi64_si128_def clmul_xor_right)

lemma mul128_xor_left:
  "mul128 (a XOR b) c = (fst (mul128 a c) XOR fst (mul128 b c), snd (mul128 a c) XOR snd (mul128 b c))"
  by (simp add: mul128_def Let_def clmulepi64_xor_left slli_si128_def srli_si128_def xor_norm)

lemma mul128_xor_right:
  "mul128 c (a XOR b) = (fst (mul128 c a) XOR fst (mul128 c b), snd (mul128 c a) XOR snd (mul128 c b))"
  by (simp add: mul128_def Let_def clmulepi64_xor_right slli_si128_def srli_si128_def xor_norm)

text \<open>The full product, in 256 bits, in terms of the four 64-bit products.\<close>

lemma clmul_widen: "(clmul a (ucast b :: 'c::len word) :: 'c word) = clmul a b"
  unfolding clmul_def by simp

lemma clmul_push_right: "(clmul a (push_bit n b :: 'c::len word) :: 'c word) = push_bit n (clmul a b)"
proof -
  have "push_bit n (clmul a b :: 'c word)
      = xor_fold 0 (map (push_bit n) (map (\<lambda>i. sel (push_bit i (ucast b :: 'c word)) (bit a i)) [0..<LENGTH('a)]))"
    unfolding clmul_def by (rule xor_fold_hom) simp_all
  also have "map (push_bit n) (map (\<lambda>i. sel (push_bit i (ucast b :: 'c word)) (bit a i)) [0..<LENGTH('a)])
      = map (\<lambda>i. sel (push_bit i (ucast (push_bit n b) :: 'c word)) (bit a i)) [0..<LENGTH('a)]"
    by (simp add: sel_def push_bit_push_bit add.commute comp_def if_distrib [of "push_bit n"])
  finally show ?thesis by (simp add: clmul_def)
qed

lemma len_64_128: "LENGTH(64) = 64" "LENGTH(128) = 128"
  by simp_all

lemma clmul_split_left:
  "(clmul (a :: block) b :: 256 word) = clmul (lo64 a) b XOR push_bit 64 (clmul (hi64 a) b)"
proof -
  let ?g = "\<lambda>i. sel (push_bit i (ucast b :: 256 word)) (bit a i)"
  have r: "[0..<128] = [0..<64] @ map (\<lambda>i. i + 64) [0..<64]"
    by (simp add: map_add_upt upt_add_eq_append [of 0 64 64, simplified])
  have lo: "map ?g [0..<64] = map (\<lambda>i. sel (push_bit i (ucast b)) (bit (lo64 a) i)) [0..<64]"
    by (simp add: bit_lo64)
  have hi: "map ?g (map (\<lambda>i. i + 64) [0..<64])
      = map (push_bit 64) (map (\<lambda>i. sel (push_bit i (ucast b)) (bit (hi64 a) i)) [0..<64])"
    by (simp add: bit_hi64 sel_def push_bit_push_bit add.commute)
  have "(clmul a b :: 256 word) = xor_fold 0 (map ?g [0..<64]) XOR xor_fold 0 (map ?g (map (\<lambda>i. i + 64) [0..<64]))"
    unfolding clmul_def by (simp only: len_64_128 r map_append xor_fold_append) (rule xor_fold_acc)
  also have "xor_fold 0 (map ?g (map (\<lambda>i. i + 64) [0..<64])) = push_bit 64 (clmul (hi64 a) b)"
    unfolding hi clmul_def by (subst xor_fold_hom) simp_all
  finally show ?thesis unfolding lo by (simp add: clmul_def)
qed

lemma ucast_lanes: "(ucast (b :: block) :: 256 word) = ucast (lo64 b) XOR push_bit 64 (ucast (hi64 b))"
  by (rule bit_word_eqI) (auto simp: bit_simps bit_lo64 bit_hi64 dest: bit_imp_le_length)

lemma clmul_split_right:
  "(clmul a (b :: block) :: 256 word) = clmul a (lo64 b) XOR push_bit 64 (clmul a (hi64 b))"
proof -
  have "(clmul a b :: 256 word) = clmul a (ucast (lo64 b) XOR push_bit 64 (ucast (hi64 b)) :: 256 word)"
    by (metis clmul_widen ucast_lanes)
  then show ?thesis by (simp add: clmul_xor_right clmul_push_right clmul_widen)
qed

lemma clmul_narrow: "(clmul (x :: u64) (y :: u64) :: 256 word) = ucast (clmul x y :: block)"
proof -
  have "(ucast (clmul x y :: block) :: 256 word)
      = xor_fold 0 (map ucast (map (\<lambda>i. sel (push_bit i (ucast y :: block)) (bit x i)) [0..<64]))"
    unfolding clmul_def len_64_128 by (rule xor_fold_hom) simp_all
  also have "map ucast (map (\<lambda>i. sel (push_bit i (ucast y :: block)) (bit x i)) [0..<64])
      = map (\<lambda>i. sel (push_bit i (ucast y :: 256 word)) (bit x i)) [0..<64]"
  proof -
    have "(ucast (push_bit i (ucast y :: block)) :: 256 word) = push_bit i (ucast y)" if "i < 64" for i
      using that by (intro bit_word_eqI) (auto simp: bit_simps dest: bit_imp_le_length)
    then show ?thesis by (auto simp: sel_def)
  qed
  finally show ?thesis by (simp add: clmul_def)
qed

lemma wide_lanes:
  fixes l m h :: block
  shows "push_bit 128 (ucast (h XOR drop_bit 64 m)) XOR ucast (l XOR push_bit 64 m)
     = (ucast l XOR push_bit 64 (ucast m) XOR push_bit 128 (ucast h) :: 256 word)"
  by (rule bit_word_eqI) (auto simp: bit_simps dest: bit_imp_le_length)

lemma imm_bits:
  "\<not> bit (0::nat) 0" "\<not> bit (0::nat) 4" "bit (1::nat) 0" "\<not> bit (1::nat) 4"
  "\<not> bit (16::nat) 0" "bit (16::nat) 4" "bit (17::nat) 0" "bit (17::nat) 4"
  by (simp_all add: bit_iff_odd)

lemma mul128_product:
  "push_bit 128 (ucast (snd (mul128 a b))) XOR ucast (fst (mul128 a b)) = (clmul a b :: 256 word)"
proof -
  define ll lh hl hh :: block where "ll = clmul (lo64 a) (lo64 b)" and "lh = clmul (lo64 a) (hi64 b)"
    and "hl = clmul (hi64 a) (lo64 b)" and "hh = clmul (hi64 a) (hi64 b)"
  have m: "mul128 a b = (ll XOR push_bit 64 (lh XOR hl), hh XOR drop_bit 64 (lh XOR hl))"
    unfolding mul128_def clmulepi64_si128_def Let_def ll_def lh_def hl_def hh_def
      slli_si128_def srli_si128_def by (simp add: imm_bits imm_bits [simplified])
  have "(clmul a b :: 256 word)
      = (ucast ll XOR push_bit 64 (ucast lh)) XOR push_bit 64 (ucast hl XOR push_bit 64 (ucast hh))"
    unfolding ll_def lh_def hl_def hh_def clmul_narrow [symmetric]
    by (metis clmul_split_left clmul_split_right)
  also have "\<dots> = ucast ll XOR push_bit 64 (ucast (lh XOR hl)) XOR push_bit 128 (ucast hh)"
    by (simp add: push_bit_push_bit xor.assoc)
  finally have "(clmul a b :: 256 word)
      = ucast ll XOR push_bit 64 (ucast (lh XOR hl)) XOR push_bit 128 (ucast hh)" .
  then show ?thesis unfolding m fst_conv snd_conv wide_lanes by simp
qed

text \<open>Multiplication commutes: both orders are the same double sum.\<close>

lemma xor_fold_swap:
  "xor_fold 0 (map (\<lambda>i. xor_fold 0 (map (f i) ys)) xs) = xor_fold 0 (map (\<lambda>j. xor_fold 0 (map (\<lambda>i. f i j) xs)) ys)"
proof (induction xs)
  case (Cons x xs)
  have "xor_fold 0 (map (\<lambda>i. xor_fold 0 (map (f i) ys)) (x # xs))
      = xor_fold 0 (map (f x) ys) XOR xor_fold 0 (map (\<lambda>j. xor_fold 0 (map (\<lambda>i. f i j) xs)) ys)"
    by (simp add: Cons [symmetric]) (rule xor_fold_acc)
  also have "\<dots> = xor_fold 0 (map (\<lambda>j. f x j XOR xor_fold 0 (map (\<lambda>i. f i j) xs)) ys)"
    by (rule xor_fold_map_xor [symmetric])
  also have "(\<lambda>j. f x j XOR xor_fold 0 (map (\<lambda>i. f i j) xs)) = (\<lambda>j. xor_fold 0 (map (\<lambda>i. f i j) (x # xs)))"
    by (simp add: xor_fold_acc [of "f x _"])
  finally show ?case .
qed simp

lemma word_as_sum: "(ucast (b :: 'b::len word) :: 'c::len word)
    = xor_fold 0 (map (\<lambda>j. sel (push_bit j 1) (bit b j)) [0..<LENGTH('b)])"
proof -
  have "take_bit n (ucast b :: 'c word) = xor_fold 0 (map (\<lambda>j. sel (push_bit j 1) (bit b j)) [0..<n])"
    if "n \<le> LENGTH('b)" for n
    using that
  proof (induction n)
    case (Suc n)
    have "take_bit (Suc n) (ucast b :: 'c word) = take_bit n (ucast b) XOR sel (push_bit n 1) (bit b n)"
      using Suc.prems
      by (intro bit_word_eqI)
        (auto simp: bit_simps sel_def less_Suc_eq bit_1_iff dest: bit_imp_le_length)
    also have "\<dots> = xor_fold (take_bit n (ucast b)) [sel (push_bit n 1) (bit b n)]" by simp
    also have "\<dots> = xor_fold 0 (map (\<lambda>j. sel (push_bit j 1) (bit b j)) ([0..<n] @ [n]))"
      using Suc by (simp only: map_append xor_fold_append) simp
    finally show ?case by simp
  qed simp
  from this [of "LENGTH('b)"] have "take_bit LENGTH('b) (ucast b :: 'c word)
      = xor_fold 0 (map (\<lambda>j. sel (push_bit j 1) (bit b j)) [0..<LENGTH('b)])" by simp
  moreover have "take_bit LENGTH('b) (ucast b :: 'c word) = ucast b"
    by (rule bit_word_eqI) (auto simp: bit_simps dest: bit_imp_le_length)
  ultimately show ?thesis by simp
qed

lemma clmul_double_sum:
  "(clmul (a :: 'a::len word) (b :: 'b::len word) :: 'c::len word) =
     xor_fold 0 (map (\<lambda>i. xor_fold 0 (map (\<lambda>j. sel (push_bit (i + j) 1) (bit a i \<and> bit b j)) [0..<LENGTH('b)]))
                   [0..<LENGTH('a)])"
proof -
  have "sel (push_bit i (ucast b :: 'c word)) (bit a i)
      = xor_fold 0 (map (\<lambda>j. sel (push_bit (i + j) 1) (bit a i \<and> bit b j)) [0..<LENGTH('b)])" for i
  proof -
    have "sel (push_bit i (ucast b :: 'c word)) (bit a i)
        = xor_fold 0 (map (\<lambda>x. sel (push_bit i x) (bit a i))
            (map (\<lambda>j. sel (push_bit j 1) (bit b j)) [0..<LENGTH('b)]))"
      unfolding word_as_sum [of b] by (rule xor_fold_hom) (simp_all add: sel_def)
    also have "map (\<lambda>x. sel (push_bit i x) (bit a i)) (map (\<lambda>j. sel (push_bit j 1) (bit b j)) [0..<LENGTH('b)])
        = map (\<lambda>j. sel (push_bit (i + j) (1 :: 'c word)) (bit a i \<and> bit b j)) [0..<LENGTH('b)]"
      by (auto simp: sel_def push_bit_eq_mult power_add)
    finally show ?thesis .
  qed
  then show ?thesis by (simp only: clmul_def)
qed

lemma clmul_commute: "(clmul a b :: 'c::len word) = clmul b a"
  unfolding clmul_double_sum by (subst xor_fold_swap) (simp add: add.commute conj_commute)

lemma mul128_commute: "mul128 a b = mul128 b a"
proof -
  have "clmulepi64_si128 a b 0 = clmulepi64_si128 b a 0" "clmulepi64_si128 a b 17 = clmulepi64_si128 b a 17"
    "clmulepi64_si128 a b 16 = clmulepi64_si128 b a 1" "clmulepi64_si128 a b 1 = clmulepi64_si128 b a 16"
    unfolding clmulepi64_si128_def by (simp_all only: imm_bits if_True if_False) (rule clmul_commute)+
  moreover have "clmulepi64_si128 b a 1 XOR clmulepi64_si128 b a 16
      = clmulepi64_si128 b a 16 XOR clmulepi64_si128 b a 1" by (rule xor.commute)
  ultimately show ?thesis unfolding mul128_def Let_def by metis
qed

section \<open>The transposition is the transposition\<close>

text \<open>Index bits: stage \<open>e\<close> exchanges bit \<open>e\<close> of the row number with bit \<open>e\<close> of the column number.\<close>

lemma nat_flip_add: "bit (c + 2 ^ e :: nat) e \<longleftrightarrow> \<not> bit c e"
proof -
  have "(c + 2 ^ e) div 2 ^ e = Suc (c div 2 ^ e)" by (simp add: div_add_self2)
  then show ?thesis by (simp add: bit_iff_odd)
qed

lemma nat_flip_sub: "2 ^ e \<le> c \<Longrightarrow> bit (c - 2 ^ e :: nat) e \<longleftrightarrow> \<not> bit c e"
  using nat_flip_add [of "c - 2 ^ e" e] by simp

lemma nat_bit_ge: "bit (c :: nat) e \<Longrightarrow> 2 ^ e \<le> c"
  by (metis bit_iff_odd div_less even_zero not_le)

text \<open>A mask selects the columns whose bit \<open>e\<close> is clear.\<close>

definition stage_mask :: "nat \<Rightarrow> u64 \<Rightarrow> bool" where
  "stage_mask e m \<longleftrightarrow> list_all (\<lambda>c. bit m c = (\<not> odd (c div 2 ^ e))) [0..<64]"

lemma stage_masks:
  "stage_mask 5 0x00000000FFFFFFFF" "stage_mask 4 0x0000FFFF0000FFFF" "stage_mask 3 0x00FF00FF00FF00FF"
  "stage_mask 2 0x0F0F0F0F0F0F0F0F" "stage_mask 1 0x3333333333333333" "stage_mask 0 0x5555555555555555"
  by (simp_all add: stage_mask_def upt_rec bit_simps)

lemma stage_mask_bit: "stage_mask e m \<Longrightarrow> c < 64 \<Longrightarrow> bit m c \<longleftrightarrow> \<not> bit c e"
  by (simp add: stage_mask_def list_all_iff bit_iff_odd)

text \<open>What a swap of two rows does, bit by bit, in every stage.\<close>

definition row_lo :: "nat \<Rightarrow> block \<Rightarrow> block \<Rightarrow> nat \<Rightarrow> bool" where
  "row_lo e a b c = (if bit c e then bit b (c - 2 ^ e) else bit a c)"

definition row_hi :: "nat \<Rightarrow> block \<Rightarrow> block \<Rightarrow> nat \<Rightarrow> bool" where
  "row_hi e a b c = (if bit c e then bit b c else bit a (c + 2 ^ e))"

lemma transpose_rows_6:
  assumes "c < 128"
  shows "bit (fst (transpose_rows 64 (- 1) 0 a b)) c = row_lo 6 a b c"
    and "bit (snd (transpose_rows 64 (- 1) 0 a b)) c = row_hi 6 a b c"
proof -
  have "c div 64 = (if c < 64 then 0 else 1)" using assms by auto
  then have "bit c 6 \<longleftrightarrow> \<not> c < 64" by (simp add: bit_iff_odd)
  then show "bit (fst (transpose_rows 64 (- 1) 0 a b)) c = row_lo 6 a b c"
    "bit (snd (transpose_rows 64 (- 1) 0 a b)) c = row_hi 6 a b c"
    using assms by (auto simp: transpose_rows_def row_lo_def row_hi_def Let_def block_bits bit_simps)
qed

lemma pow2_le_32: "e < 6 \<Longrightarrow> (2::nat) ^ e \<le> 32"
  using power_increasing [of e 5 "2::nat"] by simp

lemma bit_64_shift:
  assumes "e < 6" and "c < 2 ^ e"
  shows "bit (c + (64 - 2 ^ e) :: nat) e"
proof -
  have "(64 :: nat) = 2 ^ (5 - e) * 2 * 2 ^ e"
    using assms(1) by (simp flip: power_add power_Suc2)
  then have "c + (64 - 2 ^ e) = c + (2 ^ (5 - e) * 2 - 1) * 2 ^ e"
    by (simp only: diff_mult_distrib mult_1)
  then have "(c + (64 - 2 ^ e)) div 2 ^ e = 2 ^ (5 - e) * 2 - 1"
    using assms(2) by simp
  then show ?thesis by (simp add: bit_iff_odd)
qed

lemma transpose_rows_small:
  assumes m: "stage_mask e m" and e: "e < 6" and c: "c < 128"
  shows "bit (fst (transpose_rows (2 ^ e) m m a b)) c = row_lo e a b c"
    and "bit (snd (transpose_rows (2 ^ e) m m a b)) c = row_hi e a b c"
proof -
  define w where "w = (2::nat) ^ e"
  have w: "0 < w" "w \<le> 32" using pow2_le_32 [OF e] by (simp_all add: w_def)
  note M = stage_mask_bit [OF m]
  have flip: "w \<le> x \<Longrightarrow> bit (x - w) e \<longleftrightarrow> \<not> bit x e" "bit (x + w) e \<longleftrightarrow> \<not> bit x e" for x
    using nat_flip_sub [of e x] nat_flip_add [of x e] by (simp_all add: w_def)
  have ge: "bit x e \<Longrightarrow> w \<le> x" for x using nat_bit_ge by (simp add: w_def)
  have cross: "x < w \<Longrightarrow> bit (x + (64 - w)) e" for x using bit_64_shift [OF e] by (simp add: w_def)
  have low: "x < w \<Longrightarrow> \<not> bit x e" for x using ge [of x] by auto
  have plus64: "bit (x + 64) e \<longleftrightarrow> bit x e" for x :: nat
  proof -
    have "(64 :: nat) = 2 ^ (5 - e) * 2 * 2 ^ e" using e by (simp flip: power_add power_Suc2)
    moreover have "(x + 2 ^ (5 - e) * 2 * 2 ^ e) div 2 ^ e = 2 ^ (5 - e) * 2 + x div 2 ^ e"
      by (rule div_mult_self1) simp
    ultimately have "(x + 64) div 2 ^ e = 2 ^ (5 - e) * 2 + x div 2 ^ e" by metis
    then show ?thesis by (simp add: bit_iff_odd)
  qed
  have run: "transpose_rows w m m a b =
      (set_epi64x ((hi64 a AND m) XOR push_bit w (hi64 b AND m) XOR drop_bit (64 - w) (lo64 b AND m))
                  ((lo64 a AND m) XOR push_bit w (lo64 b AND m)),
       set_epi64x ((hi64 b AND NOT m) XOR drop_bit w (hi64 a AND NOT m))
                  ((lo64 b AND NOT m) XOR drop_bit w (lo64 a AND NOT m) XOR push_bit (64 - w) (hi64 a AND NOT m)))"
    using w by (simp add: transpose_rows_def Let_def)
  show "bit (fst (transpose_rows (2 ^ e) m m a b)) c = row_lo e a b c"
  proof (cases "c < 64")
    case True
    then have "bit (fst (transpose_rows w m m a b)) c
        = ((bit a c \<and> \<not> bit c e) \<noteq> (w \<le> c \<and> bit b (c - w) \<and> bit c e))"
      using M [of c] M [of "c - w"] flip(1) [of c] by (auto simp: run block_bits bit_simps)
    then show ?thesis using ge [of c] by (auto simp: row_lo_def w_def)
  next
    case False
    define d where "d = c - 64"
    have d: "c = d + 64" "d < 64" using False c by (simp_all add: d_def)
    have s: "w \<le> d \<Longrightarrow> d + 64 - w = d - w + 64" by simp
    have x: "\<not> bit (lo64 b AND m) (d + (64 - w))"
      using cross [of d] M [of "d + (64 - w)"] by (cases "d < w") (auto simp: bit_simps bit_lo64)
    have "bit (fst (transpose_rows w m m a b)) c
        = ((bit a c \<and> \<not> bit d e) \<noteq> (w \<le> d \<and> bit b (c - w) \<and> bit d e))"
      using M [of d] M [of "d - w"] flip(1) [of d] d s x
      by (auto simp: run block_bits bit_simps add.commute)
    then show ?thesis using ge [of d] plus64 [of d] d by (auto simp: row_lo_def w_def)
  qed
  show "bit (snd (transpose_rows (2 ^ e) m m a b)) c = row_hi e a b c"
  proof (cases "c < 64")
    case True
    have x: "64 - w \<le> c \<Longrightarrow> bit m (c - (64 - w))"
      using True w low [of "c - (64 - w)"] M [of "c - (64 - w)"] by auto
    have y: "\<not> bit c e \<Longrightarrow> c + w < 64"
    proof (rule ccontr)
      assume n: "\<not> bit c e" and "\<not> c + w < 64"
      then have "c = (c - (64 - w)) + (64 - w)" "c - (64 - w) < w" using True w by auto
      with cross [of "c - (64 - w)"] n show False by metis
    qed
    have "bit (snd (transpose_rows w m m a b)) c
        = ((bit b c \<and> bit c e) \<noteq> (c + w < 64 \<and> bit a (c + w) \<and> \<not> bit c e))"
      using True M [of c] M [of "c + w"] flip(2) [of c] x
      by (auto simp: run block_bits bit_simps add.commute)
    then show ?thesis using y by (auto simp: row_hi_def w_def)
  next
    case False
    define d where "d = c - 64"
    have d: "c = d + 64" "d < 64" using False c by (simp_all add: d_def)
    have y: "\<not> bit d e \<Longrightarrow> d + w < 64"
    proof (rule ccontr)
      assume n: "\<not> bit d e" and "\<not> d + w < 64"
      then have "d = (d - (64 - w)) + (64 - w)" "d - (64 - w) < w" using d w by auto
      with cross [of "d - (64 - w)"] n show False by metis
    qed
    have "bit (snd (transpose_rows w m m a b)) c
        = ((bit b c \<and> bit d e) \<noteq> (d + w < 64 \<and> bit a (c + w) \<and> \<not> bit d e))"
      using M [of d] M [of "d + w"] flip(2) [of d] d
      by (auto simp: run block_bits bit_simps ac_simps)
    then show ?thesis using y plus64 [of d] d by (auto simp: row_hi_def w_def)
  qed
qed

text \<open>The two loops of a stage visit every row once: the value a row gets.\<close>

definition swapped_row :: "nat \<Rightarrow> u64 \<Rightarrow> u64 \<Rightarrow> block list \<Rightarrow> nat \<Rightarrow> block" where
  "swapped_row w m1 m2 xs r =
     (if r mod (2 * w) < w then fst (transpose_rows w m1 m2 (xs ! r) (xs ! (r + w)))
      else snd (transpose_rows w m1 m2 (xs ! (r - w)) (xs ! r)))"

lemma row_pair:
  assumes "K < w"
  shows "r div (2 * w) = j \<and> r mod w = K \<longleftrightarrow> r = K + 2 * w * j \<or> r = K + w + 2 * w * (j::nat)"
proof
  assume a: "r div (2 * w) = j \<and> r mod w = K"
  have "r = 2 * w * j + r mod (2 * w)" using a by (metis mult_div_mod_eq)
  moreover have "r mod (2 * w) = K \<or> r mod (2 * w) = K + w"
  proof -
    have "r mod (w * 2) = w * (r div w mod 2) + K" using a by (simp add: mod_mult2_eq)
    moreover have "r div w mod 2 = 0 \<or> r div w mod 2 = 1" by auto
    ultimately show ?thesis by (auto simp: mult.commute)
  qed
  ultimately show "r = K + 2 * w * j \<or> r = K + w + 2 * w * j" by linarith
next
  assume "r = K + 2 * w * j \<or> r = K + w + 2 * w * j"
  then show "r div (2 * w) = j \<and> r mod w = K"
  proof
    assume "r = K + 2 * w * j"
    then have r: "r = K + j * (2 * w)" "r = K + (2 * j) * w" by (simp_all add: ac_simps)
    have "r div (2 * w) = j" using assms by (subst r(1)) simp
    moreover have "r mod w = K" using assms by (subst r(2)) simp
    ultimately show ?thesis by simp
  next
    assume "r = K + w + 2 * w * j"
    then have r: "r = (K + w) + j * (2 * w)" "r = K + (2 * j + 1) * w" by (simp_all add: algebra_simps)
    have "r div (2 * w) = j" using assms by (subst r(1)) simp
    moreover have "r mod w = K" using assms by (subst r(2)) (simp only: mod_mult_self1 mod_less)
    ultimately show ?thesis by simp
  qed
qed

lemma length_transpose_step [simp]: "length (transpose_step w m1 m2 j k xs) = length xs"
  by (simp add: transpose_step_def Let_def split: prod.split)

lemma transpose_inner:
  assumes "K \<le> w" and "2 * w * (j + 1) \<le> length xs"
  shows "length (fold (\<lambda>k m. transpose_step w m1 m2 j k m) [0..<K] xs) = length xs
       \<and> (\<forall>r<length xs. fold (\<lambda>k m. transpose_step w m1 m2 j k m) [0..<K] xs ! r
           = (if r div (2 * w) = j \<and> r mod w < K then swapped_row w m1 m2 xs r else xs ! r))"
  using assms(1)
proof (induction K)
  case (Suc K)
  define ys where "ys = fold (\<lambda>k m. transpose_step w m1 m2 j k m) [0..<K] xs"
  have len: "length ys = length xs" and IH: "\<And>r. r < length xs \<Longrightarrow>
      ys ! r = (if r div (2 * w) = j \<and> r mod w < K then swapped_row w m1 m2 xs r else xs ! r)"
    using Suc by (simp_all add: ys_def)
  have K: "K < w" using Suc by simp
  let ?i1 = "K + 2 * w * j" and ?i2 = "K + w + 2 * w * j"
  have lt: "?i1 < length xs" "?i2 < length xs" using K assms(2) by (simp_all add: algebra_simps)
  have i: "?i1 mod w = K" "?i2 mod w = K"
    using row_pair [OF K, of ?i1 j] row_pair [OF K, of ?i2 j] by blast+
  have i2: "?i1 mod (2 * w) = K" "?i2 mod (2 * w) = K + w"
    using K by (simp_all only: mod_mult_self2) simp_all
  have e: "?i1 + w = ?i2" "?i2 - w = ?i1" and n: "\<not> K + w < w" by simp_all
  have old: "ys ! ?i1 = xs ! ?i1" "ys ! ?i2 = xs ! ?i2" using IH lt i by simp_all
  have sw: "swapped_row w m1 m2 xs ?i1 = fst (transpose_rows w m1 m2 (xs ! ?i1) (xs ! ?i2))"
    "swapped_row w m1 m2 xs ?i2 = snd (transpose_rows w m1 m2 (xs ! ?i1) (xs ! ?i2))"
    by (simp_all only: swapped_row_def i2 e K if_True n if_False)
  have fold: "fold (\<lambda>k m. transpose_step w m1 m2 j k m) [0..<Suc K] xs
      = ys[?i1 := swapped_row w m1 m2 xs ?i1, ?i2 := swapped_row w m1 m2 xs ?i2]"
  proof -
    have "fold (\<lambda>k m. transpose_step w m1 m2 j k m) [0..<Suc K] xs = transpose_step w m1 m2 j K ys"
      by (simp add: ys_def)
    also have "\<dots> = ys[?i1 := swapped_row w m1 m2 xs ?i1, ?i2 := swapped_row w m1 m2 xs ?i2]"
      unfolding transpose_step_def Let_def old sw by (simp split: prod.split)
    finally show ?thesis .
  qed
  show ?case
  proof (intro conjI allI impI)
    fix r assume r: "r < length xs"
    have "?i1 \<noteq> ?i2" using K by simp
    moreover have "r div (2 * w) = j \<and> r mod w < Suc K
        \<longleftrightarrow> (r div (2 * w) = j \<and> r mod w < K) \<or> r = ?i1 \<or> r = ?i2"
      using row_pair [OF K, of r j] by (auto simp: less_Suc_eq)
    ultimately show "fold (\<lambda>k m. transpose_step w m1 m2 j k m) [0..<Suc K] xs ! r
        = (if r div (2 * w) = j \<and> r mod w < Suc K then swapped_row w m1 m2 xs r else xs ! r)"
      unfolding fold using r lt len IH [OF r] by (auto simp: nth_list_update)
  qed (simp only: fold length_list_update len)
qed simp

lemma swapped_row_cong:
  assumes "\<And>i. i div (2 * w) = r div (2 * w) \<Longrightarrow> i < N \<Longrightarrow> xs ! i = ys ! i" and "r < N" "2 * w dvd N" "0 < w"
  shows "swapped_row w m1 m2 xs r = swapped_row w m1 m2 ys r"
proof (cases "r mod (2 * w) < w")
  case True
  have r: "r + w = r div (2 * w) * (2 * w) + (r mod (2 * w) + w)"
    by (metis add.assoc div_mult_mod_eq)
  have "(r + w) div (2 * w) = r div (2 * w)" using True assms(4) by (subst r) simp
  moreover obtain q where q: "N = q * (2 * w)" using assms(3) by (metis dvd_def mult.commute)
  ultimately have "r + w < N"
    using assms(2,4) by (metis div_less_iff_less_mult mult_pos_pos zero_less_numeral)
  then show ?thesis
    using True assms(1) [of r] assms(1) [of "r + w"] assms(2) \<open>(r + w) div (2 * w) = r div (2 * w)\<close>
    by (simp add: swapped_row_def)
next
  case False
  have r: "r - w = r div (2 * w) * (2 * w) + (r mod (2 * w) - w)"
    using False by (metis add_diff_assoc div_mult_mod_eq not_less)
  have "r mod (2 * w) < 2 * w" using assms(4) by simp
  then have "(r - w) div (2 * w) = r div (2 * w)" by (subst r) simp
  moreover have "r - w < N" using assms(2) by simp
  ultimately show ?thesis
    using False assms(1) [of r] assms(1) [of "r - w"] assms(2) by (simp add: swapped_row_def)
qed

lemma transpose_outer:
  assumes "0 < w" and "2 * w dvd length xs" and "2 * w * J \<le> length xs"
  shows "length (fold (\<lambda>j m. fold (\<lambda>k m. transpose_step w m1 m2 j k m) [0..<w] m) [0..<J] xs) = length xs
       \<and> (\<forall>r<length xs. fold (\<lambda>j m. fold (\<lambda>k m. transpose_step w m1 m2 j k m) [0..<w] m) [0..<J] xs ! r
            = (if r div (2 * w) < J then swapped_row w m1 m2 xs r else xs ! r))"
  using assms(3)
proof (induction J)
  case (Suc J)
  define ys where "ys = fold (\<lambda>j m. fold (\<lambda>k m. transpose_step w m1 m2 j k m) [0..<w] m) [0..<J] xs"
  have len: "length ys = length xs" and IH: "\<And>r. r < length xs \<Longrightarrow>
      ys ! r = (if r div (2 * w) < J then swapped_row w m1 m2 xs r else xs ! r)"
    using Suc by (simp_all add: ys_def)
  have "2 * w * (J + 1) \<le> length ys" using Suc.prems len by simp
  note inner = transpose_inner [OF le_refl this, of m1 m2]
  have fold: "fold (\<lambda>j m. fold (\<lambda>k m. transpose_step w m1 m2 j k m) [0..<w] m) [0..<Suc J] xs
      = fold (\<lambda>k m. transpose_step w m1 m2 J k m) [0..<w] ys"
    by (simp add: ys_def)
  show ?case
  proof (intro conjI allI impI)
    fix r assume r: "r < length xs"
    have eq: "swapped_row w m1 m2 ys r = swapped_row w m1 m2 xs r" if "r div (2 * w) = J"
      by (rule swapped_row_cong [of w r "length xs"]) (use that IH r assms in auto)
    show "fold (\<lambda>j m. fold (\<lambda>k m. transpose_step w m1 m2 j k m) [0..<w] m) [0..<Suc J] xs ! r
        = (if r div (2 * w) < Suc J then swapped_row w m1 m2 xs r else xs ! r)"
      unfolding fold using inner r len IH [OF r] eq assms(1) by (auto simp: less_Suc_eq)
  qed (simp only: fold inner len)
qed simp

lemma transpose_stage_nth:
  assumes "length xs = 2 * w * n" and "0 < w" and "r < length xs"
  shows "transpose_stage w n m1 m2 xs ! r = swapped_row w m1 m2 xs r"
    and "length (transpose_stage w n m1 m2 xs) = length xs"
proof -
  have "r div (2 * w) < n"
    using assms by (simp add: div_less_iff_less_mult mult.commute)
  moreover note transpose_outer [of w xs n m1 m2]
  ultimately show "transpose_stage w n m1 m2 xs ! r = swapped_row w m1 m2 xs r"
    "length (transpose_stage w n m1 m2 xs) = length xs"
    using assms by (simp_all add: transpose_stage_def)
qed

text \<open>Bit \<open>e\<close> of a pair of indices exchanged.\<close>

definition flip_e :: "nat \<Rightarrow> nat \<Rightarrow> nat" where
  "flip_e e x = (if bit x e then x - 2 ^ e else x + 2 ^ e)"

definition exch :: "nat \<Rightarrow> nat \<times> nat \<Rightarrow> nat \<times> nat" where
  "exch e p = (if bit (fst p) e = bit (snd p) e then p else (flip_e e (fst p), flip_e e (snd p)))"

lemma nat_set_bit: "\<not> bit x e \<Longrightarrow> set_bit e (x :: nat) = x + 2 ^ e"
  by (simp add: set_bit_eq)

lemma nat_unset_bit: "bit x e \<Longrightarrow> unset_bit e (x :: nat) = x - 2 ^ e"
proof -
  assume b: "bit x e"
  then have "x = set_bit e (unset_bit e x)"
    by (intro bit_eqI) (auto simp: bit_set_bit_iff bit_unset_bit_iff)
  also have "\<dots> = unset_bit e x + 2 ^ e" by (rule nat_set_bit) (simp add: bit_unset_bit_iff)
  finally show ?thesis by simp
qed

lemma bit_flip_e: "bit (flip_e e x) i \<longleftrightarrow> (if i = e then \<not> bit x e else bit x i)"
proof -
  have "flip_e e x = flip_bit e x"
    using nat_bit_ge [of x e] by (auto simp: flip_e_def flip_bit_eq_if nat_set_bit nat_unset_bit)
  then show ?thesis by (simp add: bit_flip_bit_iff)
qed

lemma bit_exch:
  "bit (fst (exch e p)) i \<longleftrightarrow> (if i = e then bit (snd p) e else bit (fst p) i)"
  "bit (snd (exch e p)) i \<longleftrightarrow> (if i = e then bit (fst p) e else bit (snd p) i)"
  by (auto simp: exch_def bit_flip_e)

lemma mod_bit: "r mod (2 * 2 ^ e) < 2 ^ e \<longleftrightarrow> \<not> bit (r :: nat) e"
proof -
  have "r mod (2 ^ e * 2) = 2 ^ e * (r div 2 ^ e mod 2) + r mod 2 ^ e" by (rule mod_mult2_eq)
  moreover have "r div 2 ^ e mod 2 = of_bool (bit r e)" by (simp add: bit_iff_odd mod2_eq_if)
  ultimately show ?thesis by (auto simp: mult.commute)
qed

definition stage_rows :: "nat \<Rightarrow> u64 \<Rightarrow> u64 \<Rightarrow> bool" where
  "stage_rows e m1 m2 \<longleftrightarrow> (\<forall>a b. \<forall>c<128.
     bit (fst (transpose_rows (2 ^ e) m1 m2 a b)) c = row_lo e a b c
     \<and> bit (snd (transpose_rows (2 ^ e) m1 m2 a b)) c = row_hi e a b c)"

lemma stage_bits:
  assumes "stage_rows e m1 m2" and "length xs = 128" and "e \<le> 6" and "r < 128" and "c < 128"
  shows "bit (transpose_stage (2 ^ e) (2 ^ (6 - e)) m1 m2 xs ! r) c
           = bit (xs ! fst (exch e (r, c))) (snd (exch e (r, c)))"
proof -
  have "length xs = 2 * 2 ^ e * 2 ^ (6 - e)"
    using assms(2,3) by (simp add: mult.assoc flip: power_add)
  then have "transpose_stage (2 ^ e) (2 ^ (6 - e)) m1 m2 xs ! r = swapped_row (2 ^ e) m1 m2 xs r"
    using assms by (intro transpose_stage_nth) simp_all
  then show ?thesis
    using assms(1,5) unfolding swapped_row_def mod_bit stage_rows_def
    by (auto simp: row_lo_def row_hi_def exch_def flip_e_def)
qed

lemma length_stage:
  assumes "length xs = 128" and "e \<le> 6"
  shows "length (transpose_stage (2 ^ e) (2 ^ (6 - e)) m1 m2 xs) = 128"
proof -
  have "length xs = 2 * 2 ^ e * 2 ^ (6 - e)"
    using assms by (simp add: mult.assoc flip: power_add)
  from transpose_stage_nth(2) [OF this, of 0] assms(1) show ?thesis by simp
qed

lemma exch_bound:
  assumes "fst p < 128" and "snd p < 128" and "e \<le> 6"
  shows "fst (exch e p) < 128 \<and> snd (exch e p) < 128"
proof -
  have small: "x < 128 \<longleftrightarrow> (\<forall>i\<ge>7. \<not> bit x i)" for x :: nat
  proof
    assume "x < 128"
    show "\<forall>i\<ge>7. \<not> bit x i"
    proof (intro allI impI notI)
      fix i :: nat assume "7 \<le> i" "bit x i"
      then have "2 ^ i \<le> x" "(2::nat) ^ 7 \<le> 2 ^ i" using nat_bit_ge by (blast, intro power_increasing) simp_all
      with \<open>x < 128\<close> show False by simp
    qed
  next
    assume "\<forall>i\<ge>7. \<not> bit x i"
    then have "take_bit 7 x = x" by (intro bit_eqI) (auto simp: bit_take_bit_iff not_le)
    then have "x mod 2 ^ 7 = x" by (simp only: take_bit_eq_mod)
    moreover have "x mod 2 ^ 7 < 2 ^ 7" by simp
    ultimately show "x < 128" by simp
  qed
  show ?thesis using assms unfolding small bit_exch by auto
qed

text \<open>The seven stages, with the masks of stage \<open>e\<close> at index \<open>6 - e\<close>.\<close>

definition stage :: "nat \<Rightarrow> block list \<Rightarrow> block list" where
  "stage e = transpose_stage (2 ^ e) (2 ^ (6 - e)) (snd (TRANSPOSE_MASKS128 ! (6 - e)))
               (fst (TRANSPOSE_MASKS128 ! (6 - e)))"

lemma eklundh_stages:
  "eklundh_transpose128 xs = stage 0 (stage 1 (stage 2 (stage 3 (stage 4 (stage 5 (stage 6 xs))))))"
proof -
  have "[0..<7] = [0, 1, 2, 3, 4, 5, 6 :: nat]" by (simp add: numeral_eq_Suc)
  then show ?thesis unfolding eklundh_transpose128_def stage_def by simp
qed

lemma stage_rows_masks:
  assumes "e \<le> 6"
  shows "stage_rows e (snd (TRANSPOSE_MASKS128 ! (6 - e))) (fst (TRANSPOSE_MASKS128 ! (6 - e)))"
proof (cases "e = 6")
  case True
  have m: "snd (TRANSPOSE_MASKS128 ! 0) = - 1" "fst (TRANSPOSE_MASKS128 ! 0) = 0" "(2::nat) ^ 6 = 64"
    by (simp_all add: TRANSPOSE_MASKS128_def)
  show ?thesis
    unfolding True diff_self_eq_0 stage_rows_def m using transpose_rows_6 by blast
next
  case False
  then have e: "e < 6" using assms by simp
  then have "e \<in> {0, 1, 2, 3, 4, 5}" by auto
  then have "stage_mask e (snd (TRANSPOSE_MASKS128 ! (6 - e)))
      \<and> fst (TRANSPOSE_MASKS128 ! (6 - e)) = snd (TRANSPOSE_MASKS128 ! (6 - e))"
    using stage_masks by (auto simp: TRANSPOSE_MASKS128_def eval_nat_numeral)
  then show ?thesis
    using transpose_rows_small [OF _ e] by (simp add: stage_rows_def)
qed

lemma stage_correct:
  assumes "length xs = 128" and "e \<le> 6"
  shows "length (stage e xs) = 128"
    and "fst p < 128 \<Longrightarrow> snd p < 128 \<Longrightarrow>
         bit (stage e xs ! fst p) (snd p) = bit (xs ! fst (exch e p)) (snd (exch e p))"
  using assms stage_bits [OF stage_rows_masks, of e xs "fst p" "snd p"] length_stage
  by (simp_all add: stage_def)

lemma exch_all:
  assumes "r < 128" and "c < 128"
  shows "exch 6 (exch 5 (exch 4 (exch 3 (exch 2 (exch 1 (exch 0 (r, c))))))) = (c, r)"
proof -
  let ?p = "exch 6 (exch 5 (exch 4 (exch 3 (exch 2 (exch 1 (exch 0 (r, c)))))))"
  have hi: "x < 128 \<Longrightarrow> 6 < i \<Longrightarrow> \<not> bit x i" for x i :: nat
    using nat_bit_ge [of x i] power_increasing [of 7 i "2::nat"] by fastforce
  have i: "i = 0 \<or> i = 1 \<or> i = 2 \<or> i = 3 \<or> i = 4 \<or> i = 5 \<or> i = 6 \<or> 6 < (i::nat)" for i by linarith
  have "fst ?p = c"
  proof (rule bit_eqI)
    fix n show "bit (fst ?p) n = bit c n"
      using i [of n] hi [OF assms(1), of n] hi [OF assms(2), of n] by (elim disjE) (simp_all add: bit_exch)
  qed
  moreover have "snd ?p = r"
  proof (rule bit_eqI)
    fix n show "bit (snd ?p) n = bit r n"
      using i [of n] hi [OF assms(1), of n] hi [OF assms(2), of n] by (elim disjE) (simp_all add: bit_exch)
  qed
  ultimately show ?thesis by (simp add: prod_eq_iff)
qed

lemma eklundh_transpose:
  assumes "length xs = 128"
  shows "length (eklundh_transpose128 xs) = 128"
    and "r < 128 \<Longrightarrow> c < 128 \<Longrightarrow> bit (eklundh_transpose128 xs ! r) c = bit (xs ! c) r"
proof -
  note len = stage_correct(1)
  show "length (eklundh_transpose128 xs) = 128"
    unfolding eklundh_stages by (simp add: len assms)
  assume rc: "r < 128" "c < 128"
  define p0 where "p0 = (r, c)"
  have b0: "fst p0 < 128 \<and> snd p0 < 128" using rc by (simp add: p0_def)
  have step: "length ys = 128 \<Longrightarrow> e \<le> 6 \<Longrightarrow> fst p < 128 \<and> snd p < 128 \<Longrightarrow>
      bit (stage e ys ! fst p) (snd p) = bit (ys ! fst (exch e p)) (snd (exch e p))" for ys e p
    using stage_correct(2) by blast
  have "bit (eklundh_transpose128 xs ! fst p0) (snd p0)
      = bit (xs ! fst (exch 6 (exch 5 (exch 4 (exch 3 (exch 2 (exch 1 (exch 0 p0))))))))
          (snd (exch 6 (exch 5 (exch 4 (exch 3 (exch 2 (exch 1 (exch 0 p0))))))))"
    unfolding eklundh_stages using b0 by (simp add: step len assms exch_bound)
  then show "bit (eklundh_transpose128 xs ! r) c = bit (xs ! c) r"
    using exch_all [OF rc] by (simp add: p0_def)
qed

lemma eklundh_involution:
  assumes "length xs = 128"
  shows "eklundh_transpose128 (eklundh_transpose128 xs) = xs"
proof (rule nth_equalityI)
  note T = eklundh_transpose
  show "length (eklundh_transpose128 (eklundh_transpose128 xs)) = length xs" by (simp add: T assms)
  fix i assume "i < length (eklundh_transpose128 (eklundh_transpose128 xs))"
  then have i: "i < 128" by (simp add: T assms)
  show "eklundh_transpose128 (eklundh_transpose128 xs) ! i = xs ! i"
    by (rule bit_word_eqI) (use i in \<open>simp add: T assms\<close>)
qed

section \<open>Coin tossing agrees\<close>

lemma get_ByteStream_bytes:
  assumes "len < 2 ^ 61" and "get_ByteStream g (bs_new 512) len = (s, g')"
  shows "bs_wf s \<and> bs_w s = len"
proof -
  obtain cs g1 where cs: "get_uchars g len = (cs, g1)" by fastforce
  have l: "length cs = len"
    using cs
  proof (induction len arbitrary: g cs g1)
    case (Suc n) then show ?case by (auto simp: split: prod.splits)
  qed simp
  have "s = (bs_fill (bs_reserve (bs_new 512) len) cs)\<lparr>bs_w := len, bs_r := 0\<rparr>"
    using assms(2) cs by (simp add: get_ByteStream_def)
  moreover have "bs_wf (bs_reserve (bs_new 512) len)"
    using assms(1) by (simp add: bs_wf_reserve bs_wf_new)
  moreover have "len \<le> length (bs_data (bs_reserve (bs_new 512) len))"
    using bs_reserve_capacity [OF bs_wf_new [of 512], of len] by (simp add: bs_mxlen_def)
  ultimately show ?thesis using l by (simp add: bs_wf_def bs_mxlen_def bs_fill_def)
qed

lemma bs_bytes_nth: "bs_wf s \<Longrightarrow> i < bs_w s \<Longrightarrow> bs_bytes s ! i = the (bs_data s ! i)"
  by (simp add: bs_bytes_def bs_wf_def bs_mxlen_def)

lemma send_parts:
  assumes "random_seed_commit_send sha len a = (s, c, op)"
  shows "\<exists>g. get_ByteStream (SetSeed a) (bs_new 512) len = (s, g)
           \<and> c = fst (CommitComm sha (bs_new 512) (bs_new 512) s g)
           \<and> op = fst (snd (CommitComm sha (bs_new 512) (bs_new 512) s g))"
proof -
  obtain t g where g: "get_ByteStream (SetSeed a) (bs_new 512) len = (t, g)" by fastforce
  obtain c1 o1 g1 where c: "CommitComm sha (bs_new 512) (bs_new 512) t g = (c1, o1, g1)"
    by (metis prod_cases3)
  have "s = t \<and> c = c1 \<and> op = o1"
    using assms by (simp only: random_seed_commit_send_def Let_def g c prod.case) simp
  with g c show ?thesis by simp
qed

lemma random_seed_commit_xor:
  assumes "digest20 sha" and "len < 2 ^ 61"
    and "random_seed_commit_send sha len a = (sa, ca, oa)"
    and "random_seed_commit_send sha len b = (sb, cb, ob)"
  shows "random_seed_commit_recv sha len sa cb ob
           = Inr (map (\<lambda>i. bs_bytes sa ! i XOR bs_bytes sb ! i) [0..<len])"
proof -
  obtain ga where ga: "get_ByteStream (SetSeed a) (bs_new 512) len = (sa, ga)"
    using send_parts [OF assms(3)] by blast
  obtain gb where gb: "get_ByteStream (SetSeed b) (bs_new 512) len = (sb, gb)"
    and "cb = fst (CommitComm sha (bs_new 512) (bs_new 512) sb gb)"
    and "ob = fst (snd (CommitComm sha (bs_new 512) (bs_new 512) sb gb))"
    using send_parts [OF assms(4)] by blast
  note A = get_ByteStream_bytes [OF assms(2) ga] and B = get_ByteStream_bytes [OF assms(2) gb]
  have w: "bs_wf (bs_new 512)" by (rule bs_wf_new) simp
  have room: "bs_room sb 16" using B assms(2) by (simp add: bs_room_def)
  obtain d where d: "CommitOpen sha (bs_new 512) cb ob = Inr (True, d)" "bs_bytes d = bs_bytes sb"
    using CommitOpen_CommitComm [OF assms(1) B [THEN conjunct1] room w w w, of gb] \<open>cb = _\<close> \<open>ob = _\<close>
    by blast
  have "i < len \<Longrightarrow> the (bs_data d ! i) = bs_bytes sb ! i" for i
  proof -
    assume i: "i < len"
    have "bs_bytes d ! i = map the (take (bs_w d) (bs_data d)) ! i" by (simp add: bs_bytes_def)
    moreover have "length (take (bs_w d) (bs_data d)) = length (bs_bytes d)" by (simp add: bs_bytes_def)
    moreover have "length (bs_bytes d) = len"
      using d(2) B by (simp add: bs_bytes_def bs_wf_def bs_mxlen_def)
    ultimately show ?thesis using i d(2) by simp
  qed
  then show ?thesis
    using d(1) A by (auto simp: random_seed_commit_recv_def bs_bytes_nth)
qed

section \<open>Properties\<close>

text \<open>C28. \<open>eklundh_transpose128\<close> transposes the bit matrix: its seven passes of masks, shifts and
  swaps over the 64-bit halves of 128 rows leave bit \<open>c\<close> of row \<open>r\<close> where bit \<open>r\<close> of row \<open>c\<close> was,
  for every matrix.\<close>

theorem transpose_correct:
  assumes "length m = 128"
  shows "eklundh_transpose128 m = map (\<lambda>r. horner_sum of_bool 2 (map (\<lambda>c. bit (m ! c) r) [0..<128])) [0..<128]"
proof (rule nth_equalityI)
  fix r assume "r < length (eklundh_transpose128 m)"
  then have r: "r < 128" by (simp add: eklundh_transpose assms)
  show "eklundh_transpose128 m ! r
      = map (\<lambda>r. horner_sum of_bool 2 (map (\<lambda>c. bit (m ! c) r) [0..<128])) [0..<128] ! r"
    by (rule bit_word_eqI) (use r in \<open>simp add: eklundh_transpose assms bit_horner_sum_bit_iff\<close>)
qed (simp add: eklundh_transpose assms)

theorem transpose_correct_witness:
  "eklundh_transpose128 (map word_of_nat [0..<128])
   = map (\<lambda>r. horner_sum of_bool 2 (map (\<lambda>c. bit (map word_of_nat [0..<128] ! c :: block) r) [0..<128])) [0..<128]"
  by (rule transpose_correct) simp

text \<open>The four 64-bit products of \<open>mul128\<close>, recombined through the byte shifts, are the low and
  high halves of the full 255-bit carry-less product of the two blocks.\<close>

theorem mul128_exact:
  "push_bit 128 (ucast (snd (mul128 a b))) XOR ucast (fst (mul128 a b)) = (clmul a b :: 256 word)"
  by (rule mul128_product)

text \<open>The coin toss succeeds and agrees: when both parties follow \<open>random_seed_commit\<close>, each
  accepts the other's opening (no \<open>invalid_commitment\<close>) and both compute the same seed, the exclusive
  or of the two committed seeds.\<close>

theorem coin_toss_agrees:
  assumes "digest20 sha" and "len < 2 ^ 61"
    and "random_seed_commit_send sha len a = (sa, ca, oa)"
    and "random_seed_commit_send sha len b = (sb, cb, ob)"
  shows "\<exists>seed. random_seed_commit_recv sha len sa cb ob = Inr seed
              \<and> random_seed_commit_recv sha len sb ca oa = Inr seed \<and> length seed = len"
  using random_seed_commit_xor [OF assms] random_seed_commit_xor [OF assms(1,2,4,3)]
  by (simp add: xor.commute)

theorem coin_toss_agrees_witness:
  "\<exists>seed. random_seed_commit_recv (vec_resize 0 20) 16
        (fst (random_seed_commit_send (vec_resize 0 20) 16 1))
        (fst (snd (random_seed_commit_send (vec_resize 0 20) 16 2)))
        (snd (snd (random_seed_commit_send (vec_resize 0 20) 16 2))) = Inr seed
     \<and> random_seed_commit_recv (vec_resize 0 20) 16
        (fst (random_seed_commit_send (vec_resize 0 20) 16 2))
        (fst (snd (random_seed_commit_send (vec_resize 0 20) 16 1)))
        (snd (snd (random_seed_commit_send (vec_resize 0 20) 16 1))) = Inr seed \<and> length seed = 16"
  by (rule coin_toss_agrees) (simp_all add: digest20_def HashSize_def)

end
