(* ===== verification/BDX_OTExt.thy ===== *)
theory BDX_OTExt
  imports BDX_OTTools BDX_BitVector
begin

text \<open>
  The OT extension of \<open>OT/OTExtReceiver.cpp\<close> and \<open>OT/OTExtSender.cpp\<close> (SHA-1 output hash, 128 base
  OTs). Each party's \<open>Extend\<close> is cut where it waits for the other: the receiver up to its last
  column block, the sender up to its seed, then the two halves of the correlation check. SHA-1 is
  the parameter \<open>sha\<close>; the messages of the channel are the arguments and results. The counter
  \<open>atomicDoneIdx\<close>, which other threads poll, is a field of each state.
\<close>

definition BASE_OT_COUNT :: nat where
  "BASE_OT_COUNT = 128"

text \<open>The first 16 bytes of the digest of a block.\<close>

definition ot_hash :: "(u8 list \<Rightarrow> u8 list) \<Rightarrow> block \<Rightarrow> block" where
  "ot_hash sha b = block_of_bytes (sha (sha1_Update_block sha1_Reset b))"

text \<open>Round up to a multiple of 128 and add 128 for the correlation check.\<close>

definition num_ot_ext :: "nat \<Rightarrow> nat" where
  "num_ot_ext otCount = (otCount + 127) div 128 * 128 + 128"

definition stop_idx :: "nat \<Rightarrow> nat \<Rightarrow> nat" where
  "stop_idx n done_idx = min BASE_OT_COUNT ((n + 2 ^ 64 - done_idx) mod 2 ^ 64)"

section \<open>The receiver\<close>

record otr_state =
  otr_gens :: "(prng \<times> prng) list"
  otr_msgs :: "block list"
  otr_corr :: "block list"
  otr_didx :: nat
  otr_done :: nat

text \<open>The columns of one block: the masks \<open>t0\<close>, the corrections \<open>u\<close>, and the advanced generators.\<close>

definition otr_columns ::
  "(prng \<times> prng) list \<Rightarrow> block \<Rightarrow> block list \<times> block list \<times> (prng \<times> prng) list" where
  "otr_columns gens choiceBlock =
     (map (\<lambda>(g0, g1). fst (get_block g0)) gens,
      map (\<lambda>(g0, g1). fst (get_block g1) XOR (fst (get_block g0) XOR choiceBlock)) gens,
      map (\<lambda>(g0, g1). (snd (get_block g0), snd (get_block g1))) gens)"

definition otr_row :: "(u8 list \<Rightarrow> u8 list) \<Rightarrow> block list \<Rightarrow> nat \<Rightarrow> otr_state \<Rightarrow> otr_state" where
  "otr_row sha t0 row st =
     st\<lparr>otr_corr := (otr_corr st)[otr_didx st := t0 ! row],
        otr_msgs := (otr_msgs st)[otr_didx st := ot_hash sha (t0 ! row)],
        otr_didx := otr_didx st + 1\<rparr>"

definition otr_extra_row :: "block list \<Rightarrow> nat \<Rightarrow> otr_state \<Rightarrow> otr_state" where
  "otr_extra_row t0 row st =
     st\<lparr>otr_corr := (otr_corr st)[otr_didx st := t0 ! row], otr_didx := otr_didx st + 1\<rparr>"

definition otr_block ::
  "(u8 list \<Rightarrow> u8 list) \<Rightarrow> block \<Rightarrow> otr_state \<Rightarrow> block list \<times> otr_state" where
  "otr_block sha choiceBlock st =
     (let (t0, u, gens) = otr_columns (otr_gens st) choiceBlock;
          t0 = eklundh_transpose128 t0;
          st = st\<lparr>otr_gens := gens\<rparr>;
          stop = stop_idx (length (otr_msgs st)) (otr_done st);
          st = fold (otr_row sha t0) [0..<stop] st;
          st = fold (otr_extra_row t0) [stop..<BASE_OT_COUNT] st
      in (u, st\<lparr>otr_done := min (otr_didx st) (length (otr_msgs st))\<rparr>))"

definition otr_blocks ::
  "(u8 list \<Rightarrow> u8 list) \<Rightarrow> (nat \<Rightarrow> block) \<Rightarrow> nat list \<Rightarrow> otr_state \<Rightarrow> block list list \<times> otr_state" where
  "otr_blocks sha choiceBlocks is st =
     fold (\<lambda>blkIdx (us, st). let (u, st) = otr_block sha (choiceBlocks blkIdx) st in (us @ [u], st)) is ([], st)"

definition choice_block :: "bitvec \<Rightarrow> nat \<Rightarrow> block" where
  "choice_block v i = block_of_bytes (drop (16 * i) (bv_data v))"

definition otr_init :: "(block \<times> block) list \<Rightarrow> nat \<Rightarrow> nat \<Rightarrow> nat \<Rightarrow> otr_state" where
  "otr_init baseOTs otCount numRows done_idx =
     \<lparr>otr_gens = map (\<lambda>(k0, k1). (SetSeed k0, SetSeed k1)) baseOTs,
      otr_msgs = replicate otCount 0, otr_corr = replicate numRows 0,
      otr_didx = 0, otr_done = done_idx\<rparr>"

text \<open>Up to the last column block: the commitment, the blocks \<open>u\<close>, and what is kept.\<close>

definition OTExtReceiver_Extend_send ::
  "(u8 list \<Rightarrow> u8 list) \<Rightarrow> (block \<times> block) list \<Rightarrow> nat \<Rightarrow> prng \<Rightarrow> bitvec \<Rightarrow> nat
   \<Rightarrow> u8 list \<times> block list list \<times> block \<times> bitvec \<times> otr_state \<times> prng" where
  "OTExtReceiver_Extend_send sha baseOTs otCount prng choiceBits done_idx =
     (let numOTExt = num_ot_ext otCount;
          choice = bv_resize choiceBits numOTExt;
          (rnd, prng) = get_u8s prng (bv_sizeBytes choice);
          choice = bv_randomize choice rnd;
          numBlocks = numOTExt div BASE_OT_COUNT;
          (seed, prng) = get_block prng;
          myComm = Commit_block sha seed;
          st = otr_init baseOTs otCount (bv_bits choice) done_idx;
          (us, st) = otr_blocks sha (choice_block choice) [0..<numBlocks] st
      in (Commit_data myComm, us, seed, choice, st, prng))"

definition otr_corr_step ::
  "bitvec \<Rightarrow> block list \<Rightarrow> nat \<Rightarrow> block \<times> block \<times> block \<times> prng \<Rightarrow> block \<times> block \<times> block \<times> prng" where
  "otr_corr_step choice corr i acc =
     (let (x, t, t2, g) = acc;
          (chij, g) = get_block g;
          x = (if bv_get choice i then x XOR chij else x);
          (ti, ti2) = mul128 (corr ! i) chij
      in (x, t XOR ti, t2 XOR ti2, g))"

text \<open>The correlation data sent, and the final messages and choice bits.\<close>

definition OTExtReceiver_Extend_finish ::
  "nat \<Rightarrow> block \<Rightarrow> bitvec \<Rightarrow> otr_state \<Rightarrow> block \<Rightarrow> (block \<times> block \<times> block) \<times> block list \<times> bitvec" where
  "OTExtReceiver_Extend_finish otCount seed choice st theirSeed =
     (let commonPrng = SetSeed (seed XOR theirSeed);
          (x, t, t2, g) = fold (otr_corr_step choice (otr_corr st)) [0..<length (otr_corr st)]
                            (ZeroBlock, ZeroBlock, ZeroBlock, commonPrng)
      in ((x, t, t2), vec_resize 0 otCount (otr_msgs st), bv_resize choice otCount))"

section \<open>The sender\<close>

record ots_state =
  ots_gens :: "prng list"
  ots_msg0 :: "block list"
  ots_msg1 :: "block list"
  ots_corr :: "block list"
  ots_iter :: nat
  ots_didx :: nat
  ots_done :: nat

definition ots_columns :: "prng list \<Rightarrow> bitvec \<Rightarrow> block list \<Rightarrow> block list \<times> prng list" where
  "ots_columns gens baseChoiceBits u =
     (map (\<lambda>i. let q = fst (get_block (gens ! i))
               in if bv_get baseChoiceBits i then q XOR u ! i else q) [0..<BASE_OT_COUNT],
      map (\<lambda>g. snd (get_block g)) gens)"

text \<open>\<open>msg[0]\<close> is read back from \<open>correlatedMessages[dIdx]\<close>, after the write through the iterator.\<close>

definition ots_row :: "(u8 list \<Rightarrow> u8 list) \<Rightarrow> block \<Rightarrow> block list \<Rightarrow> nat \<Rightarrow> ots_state \<Rightarrow> ots_state" where
  "ots_row sha delta q row st =
     (let corr = (ots_corr st)[ots_iter st := q ! row];
          msg0 = corr ! ots_didx st;
          msg1 = msg0 XOR delta
      in st\<lparr>ots_corr := corr, ots_iter := ots_iter st + 1,
            ots_msg0 := (ots_msg0 st)[ots_didx st := ot_hash sha msg0],
            ots_msg1 := (ots_msg1 st)[ots_didx st := ot_hash sha msg1],
            ots_didx := ots_didx st + 1\<rparr>)"

definition ots_extra_row :: "block list \<Rightarrow> nat \<Rightarrow> ots_state \<Rightarrow> ots_state" where
  "ots_extra_row q row st =
     st\<lparr>ots_corr := (ots_corr st)[ots_iter st := q ! row], ots_iter := ots_iter st + 1\<rparr>"

definition ots_block ::
  "(u8 list \<Rightarrow> u8 list) \<Rightarrow> bitvec \<Rightarrow> block \<Rightarrow> nat \<Rightarrow> block list \<Rightarrow> ots_state \<Rightarrow> ots_state" where
  "ots_block sha baseChoiceBits delta otCount u st =
     (let (q, gens) = ots_columns (ots_gens st) baseChoiceBits u;
          q = eklundh_transpose128 q;
          st = st\<lparr>ots_gens := gens\<rparr>;
          stop = stop_idx otCount (ots_done st);
          st = fold (ots_row sha delta q) [0..<stop] st;
          st = st\<lparr>ots_done := ots_didx st\<rparr>
      in fold (ots_extra_row q) [stop..<BASE_OT_COUNT] st)"

definition ots_init :: "block list \<Rightarrow> nat \<Rightarrow> block list \<Rightarrow> block list \<Rightarrow> nat \<Rightarrow> ots_state" where
  "ots_init baseMessages otCount msgs0 msgs1 done_idx =
     \<lparr>ots_gens = map SetSeed baseMessages,
      ots_msg0 = vec_resize 0 otCount msgs0, ots_msg1 = vec_resize 0 otCount msgs1,
      ots_corr = replicate (num_ot_ext otCount) 0, ots_iter = 0, ots_didx = 0, ots_done = done_idx\<rparr>"

definition ots_blocks ::
  "(u8 list \<Rightarrow> u8 list) \<Rightarrow> bitvec \<Rightarrow> nat \<Rightarrow> block list list \<Rightarrow> nat \<Rightarrow> ots_state \<Rightarrow> ots_state" where
  "ots_blocks sha baseChoiceBits otCount us k st =
     fold (\<lambda>blkIdx st. ots_block sha baseChoiceBits (bv_ToBlock baseChoiceBits) otCount (us ! blkIdx) st)
       [0..<k] st"

text \<open>The rows of all the blocks received, then the seed sent.\<close>

definition OTExtSender_Extend_send ::
  "(u8 list \<Rightarrow> u8 list) \<Rightarrow> block list \<Rightarrow> bitvec \<Rightarrow> nat \<Rightarrow> prng \<Rightarrow> block list \<Rightarrow> block list \<Rightarrow> nat
   \<Rightarrow> block list list \<Rightarrow> block \<times> ots_state \<times> prng" where
  "OTExtSender_Extend_send sha baseMessages baseChoiceBits otCount prng msgs0 msgs1 done_idx us =
     (let numOTExt = num_ot_ext otCount;
          st = ots_init baseMessages otCount msgs0 msgs1 done_idx;
          numBlocks = numOTExt div BASE_OT_COUNT;
          st = ots_blocks sha baseChoiceBits otCount us numBlocks st;
          (seed, prng) = get_block prng
      in (seed, st, prng))"

definition ots_corr_step :: "block list \<Rightarrow> nat \<Rightarrow> block \<times> block \<times> prng \<Rightarrow> block \<times> block \<times> prng" where
  "ots_corr_step corr i acc =
     (let (q1, q2, g) = acc;
          (chii, g) = get_block g;
          (qi, qi2) = mul128 (corr ! i) chii
      in (q1 XOR qi, q2 XOR qi2, g))"

text \<open>The commitment opened and the correlation checked; both failures throw \<open>runtime_error\<close>.\<close>

definition OTExtSender_Extend_check ::
  "(u8 list \<Rightarrow> u8 list) \<Rightarrow> bitvec \<Rightarrow> block \<Rightarrow> ots_state \<Rightarrow> u8 list \<Rightarrow> block \<Rightarrow> block \<times> block \<times> block
   \<Rightarrow> (block list \<times> block list) result" where
  "OTExtSender_Extend_check sha baseChoiceBits seed st theirSeedComm theirSeed data =
     (if \<not> Commit_eq (Commit_block sha theirSeed) (Commit_of_data theirSeedComm) then Inl RuntimeError
      else let delta = bv_ToBlock baseChoiceBits;
               commonPrng = SetSeed (seed XOR theirSeed);
               (q1, q2, g) = fold (ots_corr_step (ots_corr st)) [0..<length (ots_corr st)]
                               (ZeroBlock, ZeroBlock, commonPrng);
               (received_x, received_t, received_t2) = data;
               (t1, t2) = mul128 received_x delta;
               t1p = t1 XOR q1;
               t2p = t2 XOR q2
           in if t1p = received_t \<and> t2p = received_t2 then Inr (ots_msg0 st, ots_msg1 st)
              else Inl RuntimeError)"

definition OTExtReceiver_GetMessage :: "block list \<Rightarrow> nat \<Rightarrow> block" where
  "OTExtReceiver_GetMessage msgs i = msgs ! i"

definition OTExtSender_GetMessage :: "block list \<times> block list \<Rightarrow> nat \<Rightarrow> bool \<Rightarrow> block" where
  "OTExtSender_GetMessage pads i choice = (if choice then snd pads ! i else fst pads ! i)"

text \<open>Both parties over a channel that delivers: the messages exchanged in the order of the code.\<close>

definition OTExt_run ::
  "(u8 list \<Rightarrow> u8 list) \<Rightarrow> (block \<times> block) list \<Rightarrow> block list \<Rightarrow> bitvec \<Rightarrow> nat \<Rightarrow> prng \<Rightarrow> prng
   \<Rightarrow> ((block list \<times> bitvec) \<times> (block list \<times> block list)) result" where
  "OTExt_run sha baseOTs baseMessages baseChoiceBits otCount prngR prngS =
     (if otCount = 0 then Inr (([], bv_empty), ([], []))
      else
      let (comm, us, seedR, choice, stR, _) =
            OTExtReceiver_Extend_send sha baseOTs otCount prngR bv_empty 0;
          (seedS, stS, _) =
            OTExtSender_Extend_send sha baseMessages baseChoiceBits otCount prngS [] [] 0 us;
          (data, msgs, choice) = OTExtReceiver_Extend_finish otCount seedR choice stR seedS
      in bind_r (OTExtSender_Extend_check sha baseChoiceBits seedS stS comm seedR data)
           (\<lambda>pads. Inr ((msgs, choice), pads)))"

section \<open>Rows written block by block\<close>

text \<open>The receiver after the first \<open>d\<close> rows: \<open>T\<close> is the row with each index, \<open>n\<close> the number of OTs.\<close>

definition otr_inv :: "(u8 list \<Rightarrow> u8 list) \<Rightarrow> (nat \<Rightarrow> block) \<Rightarrow> nat \<Rightarrow> nat \<Rightarrow> nat \<Rightarrow> otr_state \<Rightarrow> bool" where
  "otr_inv sha T n N d st \<longleftrightarrow>
     length (otr_msgs st) = n \<and> length (otr_corr st) = N \<and> otr_didx st = d
     \<and> (\<forall>i<min d N. otr_corr st ! i = T i) \<and> (\<forall>i<min d n. otr_msgs st ! i = ot_hash sha (T i))"

lemma otr_row_inv:
  assumes "otr_inv sha T n N d st" and "d < n" and "t0 ! r = T d"
  shows "otr_inv sha T n N (d + 1) (otr_row sha t0 r st)"
  using assms by (auto simp: otr_inv_def otr_row_def nth_list_update less_Suc_eq)

lemma otr_extra_row_inv:
  assumes "otr_inv sha T n N d st" and "n \<le> d" and "t0 ! r = T d"
  shows "otr_inv sha T n N (d + 1) (otr_extra_row t0 r st)"
  using assms by (auto simp: otr_inv_def otr_extra_row_def nth_list_update less_Suc_eq)

lemma otr_rows_inv:
  assumes "otr_inv sha T n N (d + a) st" and "a \<le> b" and "d + b \<le> n" and "\<And>r. r < b \<Longrightarrow> t0 ! r = T (d + r)"
  shows "otr_inv sha T n N (d + b) (fold (otr_row sha t0) [a..<b] st)"
  using assms(2-4)
proof (induction b rule: dec_induct)
  case base then show ?case using assms(1) by simp
next
  case (step b)
  have "otr_inv sha T n N (d + b) (fold (otr_row sha t0) [a..<b] st)" using step by simp
  from otr_row_inv [OF this, of t0 b] step show ?case by simp
qed

lemma otr_extra_rows_inv:
  assumes "otr_inv sha T n N (d + a) st" and "a \<le> b" and "a < b \<longrightarrow> n \<le> d + a" and "\<And>r. r < b \<Longrightarrow> t0 ! r = T (d + r)"
  shows "otr_inv sha T n N (d + b) (fold (otr_extra_row t0) [a..<b] st)"
  using assms(2-4)
proof (induction b rule: dec_induct)
  case base then show ?case using assms(1) by simp
next
  case (step b)
  have "otr_inv sha T n N (d + b) (fold (otr_extra_row t0) [a..<b] st)" using step by auto
  from otr_extra_row_inv [OF this, of t0 b] step show ?case by auto
qed

lemma otr_rows_frame:
  "otr_gens (fold (otr_row sha t0) rs st) = otr_gens st" "otr_done (fold (otr_row sha t0) rs st) = otr_done st"
  "otr_gens (fold (otr_extra_row t0) rs st) = otr_gens st" "otr_done (fold (otr_extra_row t0) rs st) = otr_done st"
  "otr_msgs (fold (otr_extra_row t0) rs st) = otr_msgs st"
proof (induction rs arbitrary: st)
  case (Cons r rs)
  { case 1 show ?case using Cons(1) by (simp add: otr_row_def) }
  { case 2 show ?case using Cons(2) by (simp add: otr_row_def) }
  { case 3 show ?case using Cons(3) by (simp add: otr_extra_row_def) }
  { case 4 show ?case using Cons(4) by (simp add: otr_extra_row_def) }
  { case 5 show ?case using Cons(5) by (simp add: otr_extra_row_def) }
qed simp_all

lemma u64_sub: "(n :: nat) < 2 ^ 64 \<Longrightarrow> d \<le> n \<Longrightarrow> (n + 2 ^ 64 - d) mod 2 ^ 64 = n - d"
  by (metis Nat.add_diff_assoc2 less_imp_diff_less mod_add_self2 mod_less)

lemma stop_idx_eq:
  assumes "n < 2 ^ 64"
  shows "stop_idx n (min d n) = min 128 (n - d)"
proof -
  have "n - min d n = n - d" by simp
  then show ?thesis
    unfolding stop_idx_def BASE_OT_COUNT_def using u64_sub [OF assms, of "min d n"] by (simp only: min.cobounded2)
qed

lemma otr_block_inv:
  assumes inv: "otr_inv sha T n N (128 * k) st" and dn: "otr_done st = min (128 * k) n" and n: "n < 2 ^ 64"
    and T: "\<And>r. r < 128 \<Longrightarrow> eklundh_transpose128 (fst (otr_columns (otr_gens st) x)) ! r = T (128 * k + r)"
  shows "otr_inv sha T n N (128 * (k + 1)) (snd (otr_block sha x st))"
    and "otr_done (snd (otr_block sha x st)) = min (128 * (k + 1)) n"
    and "otr_gens (snd (otr_block sha x st)) = snd (snd (otr_columns (otr_gens st) x))"
    and "fst (otr_block sha x st) = fst (snd (otr_columns (otr_gens st) x))"
proof -
  obtain c u g where c: "otr_columns (otr_gens st) x = (c, u, g)" by (metis prod_cases3)
  define t0 where "t0 = eklundh_transpose128 c"
  define stop where "stop = min 128 (n - 128 * k)"
  define st1 where "st1 = fold (otr_row sha t0) [0..<stop] (st\<lparr>otr_gens := g\<rparr>)"
  define st2 where "st2 = fold (otr_extra_row t0) [stop..<128] st1"
  have len: "length (otr_msgs st) = n" using inv by (simp add: otr_inv_def)
  have run: "otr_block sha x st = (u, st2\<lparr>otr_done := min (otr_didx st2) (length (otr_msgs st2))\<rparr>)"
    unfolding otr_block_def c Let_def prod.case
    by (simp add: len dn stop_idx_eq [OF n] BASE_OT_COUNT_def stop_def [symmetric]
        t0_def [symmetric] st1_def [symmetric] st2_def [symmetric])
  have t0: "t0 ! r = T (128 * k + r)" if "r < 128" for r using T [OF that] c by (simp add: t0_def)
  have "otr_inv sha T n N (128 * k + 0) (st\<lparr>otr_gens := g\<rparr>)" using inv by (simp add: otr_inv_def)
  then have 1: "otr_inv sha T n N (128 * k + stop) st1" 
  proof (cases "stop = 0")
    case False
    then show ?thesis unfolding st1_def
      using \<open>otr_inv sha T n N (128 * k + 0) (st\<lparr>otr_gens := g\<rparr>)\<close> t0
      by (intro otr_rows_inv) (auto simp: stop_def)
  qed (simp add: st1_def)
  have 2: "otr_inv sha T n N (128 * k + 128) st2"
    unfolding st2_def using 1 t0 by (intro otr_extra_rows_inv) (auto simp: stop_def)
  show "otr_inv sha T n N (128 * (k + 1)) (snd (otr_block sha x st))"
    using 2 by (simp add: run otr_inv_def add.commute)
  show "otr_done (snd (otr_block sha x st)) = min (128 * (k + 1)) n"
    using 2 by (simp add: run otr_inv_def add.commute)
  show "otr_gens (snd (otr_block sha x st)) = snd (snd (otr_columns (otr_gens st) x))"
    by (simp add: run c st2_def st1_def otr_rows_frame)
  show "fst (otr_block sha x st) = fst (snd (otr_columns (otr_gens st) x))"
    by (simp add: run c)
qed

definition ots_inv ::
  "(u8 list \<Rightarrow> u8 list) \<Rightarrow> (nat \<Rightarrow> block) \<Rightarrow> block \<Rightarrow> nat \<Rightarrow> nat \<Rightarrow> nat \<Rightarrow> ots_state \<Rightarrow> bool" where
  "ots_inv sha Q delta n N d st \<longleftrightarrow>
     length (ots_msg0 st) = n \<and> length (ots_msg1 st) = n \<and> length (ots_corr st) = N
     \<and> ots_iter st = d \<and> ots_didx st = min d n
     \<and> (\<forall>i<min d N. ots_corr st ! i = Q i)
     \<and> (\<forall>i<min d n. ots_msg0 st ! i = ot_hash sha (Q i) \<and> ots_msg1 st ! i = ot_hash sha (Q i XOR delta))"

lemma ots_row_inv:
  assumes "ots_inv sha Q delta n N d st" and "d < n" and "d < N" and "q ! r = Q d"
  shows "ots_inv sha Q delta n N (d + 1) (ots_row sha delta q r st)"
  using assms by (auto simp: ots_inv_def ots_row_def Let_def nth_list_update less_Suc_eq)

lemma ots_extra_row_inv:
  assumes "ots_inv sha Q delta n N d st" and "n \<le> d" and "q ! r = Q d"
  shows "ots_inv sha Q delta n N (d + 1) (ots_extra_row q r st)"
  using assms by (auto simp: ots_inv_def ots_extra_row_def nth_list_update less_Suc_eq)

lemma ots_rows_inv:
  assumes "ots_inv sha Q delta n N (d + a) st" and "a \<le> b" and "d + b \<le> n" and "d + b \<le> N"
    and "\<And>r. r < b \<Longrightarrow> q ! r = Q (d + r)"
  shows "ots_inv sha Q delta n N (d + b) (fold (ots_row sha delta q) [a..<b] st)"
  using assms(2-5)
proof (induction b rule: dec_induct)
  case base then show ?case using assms(1) by simp
next
  case (step b)
  have "ots_inv sha Q delta n N (d + b) (fold (ots_row sha delta q) [a..<b] st)" using step by simp
  from ots_row_inv [OF this, of q b] step show ?case by simp
qed

lemma ots_extra_rows_inv:
  assumes "ots_inv sha Q delta n N (d + a) st" and "a \<le> b" and "a < b \<longrightarrow> n \<le> d + a"
    and "\<And>r. r < b \<Longrightarrow> q ! r = Q (d + r)"
  shows "ots_inv sha Q delta n N (d + b) (fold (ots_extra_row q) [a..<b] st)"
  using assms(2-4)
proof (induction b rule: dec_induct)
  case base then show ?case using assms(1) by simp
next
  case (step b)
  have "ots_inv sha Q delta n N (d + b) (fold (ots_extra_row q) [a..<b] st)" using step by auto
  from ots_extra_row_inv [OF this, of q b] step show ?case by auto
qed

lemma ots_rows_frame:
  "ots_gens (fold (ots_row sha delta q) rs st) = ots_gens st"
  "ots_gens (fold (ots_extra_row q) rs st) = ots_gens st"
  "ots_done (fold (ots_extra_row q) rs st) = ots_done st"
proof (induction rs arbitrary: st)
  case (Cons r rs)
  { case 1 show ?case using Cons(1) by (simp add: ots_row_def Let_def) }
  { case 2 show ?case using Cons(2) by (simp add: ots_extra_row_def) }
  { case 3 show ?case using Cons(3) by (simp add: ots_extra_row_def) }
qed simp_all

lemma ots_block_inv:
  assumes inv: "ots_inv sha Q delta n N (128 * k) st" and dn: "ots_done st = min (128 * k) n"
    and n: "n < 2 ^ 64" "n \<le> N" and N: "128 * (k + 1) \<le> N"
    and Q: "\<And>r. r < 128 \<Longrightarrow> eklundh_transpose128 (fst (ots_columns (ots_gens st) bits u)) ! r = Q (128 * k + r)"
  shows "ots_inv sha Q delta n N (128 * (k + 1)) (ots_block sha bits delta n u st)"
    and "ots_done (ots_block sha bits delta n u st) = min (128 * (k + 1)) n"
    and "ots_gens (ots_block sha bits delta n u st) = snd (ots_columns (ots_gens st) bits u)"
proof -
  obtain c g where c: "ots_columns (ots_gens st) bits u = (c, g)" by fastforce
  define q where "q = eklundh_transpose128 c"
  define stop where "stop = min 128 (n - 128 * k)"
  define st1 where "st1 = fold (ots_row sha delta q) [0..<stop] (st\<lparr>ots_gens := g\<rparr>)"
  define st2 where "st2 = st1\<lparr>ots_done := ots_didx st1\<rparr>"
  have run: "ots_block sha bits delta n u st = fold (ots_extra_row q) [stop..<128] st2"
    unfolding ots_block_def c Let_def prod.case
    by (simp add: dn stop_idx_eq [OF n(1)] BASE_OT_COUNT_def stop_def [symmetric]
        q_def [symmetric] st1_def [symmetric] st2_def [symmetric])
  have q: "q ! r = Q (128 * k + r)" if "r < 128" for r using Q [OF that] c by (simp add: q_def)
  have 0: "ots_inv sha Q delta n N (128 * k + 0) (st\<lparr>ots_gens := g\<rparr>)" using inv by (simp add: ots_inv_def)
  have 1: "ots_inv sha Q delta n N (128 * k + stop) st1"
  proof (cases "stop = 0")
    case False
    then show ?thesis unfolding st1_def using 0 q N
      by (intro ots_rows_inv) (auto simp: stop_def)
  next
    case True
    then show ?thesis using 0 by (simp add: st1_def)
  qed
  then have st2: "ots_inv sha Q delta n N (128 * k + stop) st2" "ots_done st2 = min (128 * (k + 1)) n"
    by (auto simp: st2_def ots_inv_def stop_def)
  have 2: "ots_inv sha Q delta n N (128 * k + 128) (fold (ots_extra_row q) [stop..<128] st2)"
    using st2(1) q by (intro ots_extra_rows_inv) (auto simp: stop_def)
  show "ots_inv sha Q delta n N (128 * (k + 1)) (ots_block sha bits delta n u st)"
    using 2 by (simp add: run add.commute)
  show "ots_done (ots_block sha bits delta n u st) = min (128 * (k + 1)) n"
    using st2(2) by (simp add: run ots_rows_frame)
  show "ots_gens (ots_block sha bits delta n u st) = snd (ots_columns (ots_gens st) bits u)"
    by (simp add: run c st2_def st1_def ots_rows_frame)
qed

section \<open>All the blocks\<close>

definition prng_after :: "block \<Rightarrow> nat \<Rightarrow> prng" where
  "prng_after s k = ((\<lambda>g. snd (get_block g)) ^^ k) (SetSeed s)"

definition seed_block :: "block \<Rightarrow> nat \<Rightarrow> block" where
  "seed_block s k = fst (get_block (prng_after s k))"

lemma prng_after_simps [simp]:
  "prng_after s 0 = SetSeed s" "prng_after s (Suc k) = snd (get_block (prng_after s k))"
  by (simp_all add: prng_after_def)

definition u_block :: "(block \<times> block) list \<Rightarrow> (nat \<Rightarrow> block) \<Rightarrow> nat \<Rightarrow> block list" where
  "u_block base X j = map (\<lambda>(k0, k1). seed_block k1 j XOR (seed_block k0 j XOR X j)) base"

definition t_row :: "(block \<times> block) list \<Rightarrow> nat \<Rightarrow> block" where
  "t_row base i = eklundh_transpose128 (map (\<lambda>(k0, k1). seed_block k0 (i div 128)) base) ! (i mod 128)"

definition q_cols :: "block list \<Rightarrow> bitvec \<Rightarrow> (nat \<Rightarrow> block list) \<Rightarrow> nat \<Rightarrow> block list" where
  "q_cols ks bits us j =
     map (\<lambda>c. if bv_get bits c then seed_block (ks ! c) j XOR us j ! c else seed_block (ks ! c) j) [0..<128]"

definition q_row :: "block list \<Rightarrow> bitvec \<Rightarrow> (nat \<Rightarrow> block list) \<Rightarrow> nat \<Rightarrow> block" where
  "q_row ks bits us i = eklundh_transpose128 (q_cols ks bits us (i div 128)) ! (i mod 128)"

lemma otr_columns_at:
  "otr_columns (map (\<lambda>(k0, k1). (prng_after k0 k, prng_after k1 k)) base) x =
     (map (\<lambda>(k0, k1). seed_block k0 k) base,
      map (\<lambda>(k0, k1). seed_block k1 k XOR (seed_block k0 k XOR x)) base,
      map (\<lambda>(k0, k1). (prng_after k0 (Suc k), prng_after k1 (Suc k))) base)"
  by (auto simp: otr_columns_def seed_block_def)

lemma ots_columns_at:
  "length ks = 128 \<Longrightarrow> ots_columns (map (\<lambda>k. prng_after k j) ks) bits (us j)
     = (q_cols ks bits us j, map (\<lambda>k. prng_after k (Suc j)) ks)"
  by (simp add: ots_columns_def q_cols_def seed_block_def BASE_OT_COUNT_def Let_def)

lemma otr_blocks_at:
  assumes "length base = 128" and "n < 2 ^ 64"
    and "otr_gens st0 = map (\<lambda>(k0, k1). (SetSeed k0, SetSeed k1)) base"
    and "otr_inv sha (t_row base) n N 0 st0" and "otr_done st0 = 0"
    and "otr_blocks sha X [0..<k] st0 = (us, st)"
  shows "us = map (u_block base X) [0..<k] \<and> otr_inv sha (t_row base) n N (128 * k) st
         \<and> otr_done st = min (128 * k) n
         \<and> otr_gens st = map (\<lambda>(k0, k1). (prng_after k0 k, prng_after k1 k)) base"
  using assms(6)
proof (induction k arbitrary: us st)
  case 0
  then show ?case using assms by (auto simp: otr_blocks_def)
next
  case (Suc k)
  obtain us1 st1 where r: "otr_blocks sha X [0..<k] st0 = (us1, st1)" by fastforce
  note IH = Suc.IH [OF r]
  have g: "otr_gens st1 = map (\<lambda>(k0, k1). (prng_after k0 k, prng_after k1 k)) base" using IH by blast
  note cols = otr_columns_at [of k base "X k", folded g]
  have T: "eklundh_transpose128 (fst (otr_columns (otr_gens st1) (X k))) ! i = t_row base (128 * k + i)"
    if "i < 128" for i
    using that by (simp add: cols t_row_def)
  note B = otr_block_inv [OF IH [THEN conjunct2, THEN conjunct1]
      IH [THEN conjunct2, THEN conjunct2, THEN conjunct1] assms(2) T]
  have "otr_blocks sha X [0..<Suc k] st0 =
      (us1 @ [fst (otr_block sha (X k) st1)], snd (otr_block sha (X k) st1))"
    using r by (simp add: otr_blocks_def split: prod.split)
  then have "us = us1 @ [fst (otr_block sha (X k) st1)]" "st = snd (otr_block sha (X k) st1)"
    using Suc.prems by simp_all
  then show ?case
    using B IH cols by (simp add: u_block_def)
qed

lemma ots_blocks_at:
  assumes "length ks = 128" and "n < 2 ^ 64" and "n \<le> N" and "128 * k \<le> N"
    and "ots_gens st0 = map SetSeed ks"
    and "ots_inv sha (q_row ks bits (\<lambda>j. us ! j)) delta n N 0 st0" and "ots_done st0 = 0"
    and "st = fold (\<lambda>j st. ots_block sha bits delta n (us ! j) st) [0..<k] st0"
  shows "ots_inv sha (q_row ks bits (\<lambda>j. us ! j)) delta n N (128 * k) st
         \<and> ots_done st = min (128 * k) n \<and> ots_gens st = map (\<lambda>s. prng_after s k) ks"
  using assms(4,8)
proof (induction k arbitrary: st)
  case 0
  then show ?case using assms by simp
next
  case (Suc k)
  define st1 where "st1 = fold (\<lambda>j st. ots_block sha bits delta n (us ! j) st) [0..<k] st0"
  have IH: "ots_inv sha (q_row ks bits (\<lambda>j. us ! j)) delta n N (128 * k) st1"
    "ots_done st1 = min (128 * k) n" "ots_gens st1 = map (\<lambda>s. prng_after s k) ks"
    using Suc.IH [OF _ st1_def] Suc.prems by simp_all
  note cols = ots_columns_at [OF assms(1), of k bits "\<lambda>j. us ! j", folded IH(3)]
  have Q: "eklundh_transpose128 (fst (ots_columns (ots_gens st1) bits (us ! k))) ! i
      = q_row ks bits (\<lambda>j. us ! j) (128 * k + i)" if "i < 128" for i
    using that by (simp add: cols q_row_def)
  have N: "128 * (k + 1) \<le> N" using Suc.prems by simp
  note B = ots_block_inv [OF IH(1,2) assms(2,3) N Q]
  have "st = ots_block sha bits delta n (us ! k) st1" using Suc.prems by (simp add: st1_def)
  then show ?case using B cols by simp
qed

section \<open>The correlation\<close>

definition base_agree :: "(block \<times> block) list \<Rightarrow> block list \<Rightarrow> bitvec \<Rightarrow> bool" where
  "base_agree base ks bits \<longleftrightarrow> length base = 128 \<and> length ks = 128 \<and> 16 \<le> length (bv_data bits)
     \<and> (\<forall>c<128. ks ! c = (if bv_get bits c then snd (base ! c) else fst (base ! c)))"

lemma bit_block_of_bytes:
  "c < 128 \<Longrightarrow> 16 \<le> length d \<Longrightarrow> bit (block_of_bytes d) c \<longleftrightarrow> bit (d ! (c div 8)) (c mod 8)"
  using less_mult_imp_div_less [of c 16 8] by (simp add: block_of_bytes_def bit_of_bytes)

lemma bit_ToBlock: "c < 128 \<Longrightarrow> 16 \<le> length (bv_data v) \<Longrightarrow> bit (bv_ToBlock v) c \<longleftrightarrow> bv_get v c"
  by (simp add: bv_ToBlock_def bit_block_of_bytes bv_get_bit)

lemma bit_choice_block:
  assumes "c < 128" and "16 * j + 16 \<le> length (bv_data v)"
  shows "bit (choice_block v j) c \<longleftrightarrow> bv_get v (128 * j + c)"
proof -
  have e: "128 * j + c = c + 16 * j * 8" by simp
  have "(128 * j + c) div 8 = 16 * j + c div 8"
    unfolding e by (rule div_mult_self1) simp
  moreover have "(128 * j + c) mod 8 = c mod 8"
    unfolding e by (rule mod_mult_self1)
  ultimately show ?thesis
    using assms by (simp add: choice_block_def bit_block_of_bytes bv_get_bit)
qed

lemma q_row_correlated:
  assumes "base_agree base ks bits" and "16 * (i div 128) + 16 \<le> length (bv_data choice)"
    and "us (i div 128) = u_block base (choice_block choice) (i div 128)"
  shows "q_row ks bits us i = t_row base i XOR sel (bv_ToBlock bits) (bv_get choice i)"
proof (rule bit_word_eqI)
  fix c :: nat assume "c < LENGTH(128)"
  then have c: "c < 128" by simp
  let ?j = "i div 128" and ?r = "i mod 128"
  have r: "?r < 128" by simp
  have base: "length base = 128" "length ks = 128" using assms(1) by (simp_all add: base_agree_def)
  obtain k0 k1 where k: "base ! c = (k0, k1)" by fastforce
  have kc: "ks ! c = (if bv_get bits c then k1 else k0)" using assms(1) c k by (simp add: base_agree_def)
  have ch: "bit (choice_block choice ?j) ?r \<longleftrightarrow> bv_get choice i"
    using bit_choice_block [OF r assms(2)] by simp
  have u: "us ?j ! c = seed_block k1 ?j XOR (seed_block k0 ?j XOR choice_block choice ?j)"
    using assms(3) c base k by (simp add: u_block_def)
  have q: "q_cols ks bits us ?j ! c
      = seed_block k0 ?j XOR sel (choice_block choice ?j) (bv_get bits c)"
    using c kc u by (simp add: q_cols_def)
  have "bit (q_row ks bits us i) c = bit (q_cols ks bits us ?j ! c) ?r"
    unfolding q_row_def using c r by (intro eklundh_transpose) (simp_all add: q_cols_def)
  moreover have "bit (t_row base i) c = bit (seed_block k0 ?j) ?r"
    unfolding t_row_def using c r base k by (subst eklundh_transpose(2)) simp_all
  ultimately show "bit (q_row ks bits us i) c
      = bit (t_row base i XOR sel (bv_ToBlock bits) (bv_get choice i)) c"
    using q ch c assms(1) by (auto simp: bit_simps sel_def bit_ToBlock base_agree_def)
qed

lemma mul128_0: "mul128 0 b = (0, 0)"
  unfolding mul128_def clmulepi64_si128_def Let_def
  by (simp only: imm_bits if_True if_False) (simp add: slli_si128_def srli_si128_def)

lemma mul128_sel_right: "mul128 a (x XOR sel c b) =
  (fst (mul128 a x) XOR sel (fst (mul128 a c)) b, snd (mul128 a x) XOR sel (snd (mul128 a c)) b)"
  by (cases b) (simp_all add: mul128_xor_right)

lemma check_sums:
  assumes "\<And>i. i < k \<Longrightarrow> cs ! i = cr ! i XOR sel delta (bv_get choice i)"
  shows "\<exists>x q1 q2 g. fold (otr_corr_step choice cr) [0..<k] (0, 0, 0, g0)
           = (x, fst (mul128 x delta) XOR q1, snd (mul128 x delta) XOR q2, g)
         \<and> fold (ots_corr_step cs) [0..<k] (0, 0, g0) = (q1, q2, g)"
  using assms
proof (induction k)
  case 0
  then show ?case by (simp add: mul128_0)
next
  case (Suc k)
  obtain x q1 q2 g where
    r: "fold (otr_corr_step choice cr) [0..<k] (0, 0, 0, g0)
           = (x, fst (mul128 x delta) XOR q1, snd (mul128 x delta) XOR q2, g)"
    and s: "fold (ots_corr_step cs) [0..<k] (0, 0, g0) = (q1, q2, g)"
    using Suc.IH Suc.prems by (metis less_SucI)
  obtain ch g' where g: "get_block g = (ch, g')" by fastforce
  obtain m1 m2 where m: "mul128 (cr ! k) ch = (m1, m2)" by fastforce
  obtain d1 d2 where d: "mul128 ch delta = (d1, d2)" by fastforce
  have cs: "mul128 (cs ! k) ch = (m1 XOR sel d1 (bv_get choice k), m2 XOR sel d2 (bv_get choice k))"
  proof -
    have "mul128 (cs ! k) ch = mul128 ch (cr ! k XOR sel delta (bv_get choice k))"
      using Suc.prems by (simp add: mul128_commute)
    moreover have "mul128 ch (cr ! k) = (m1, m2)" using m by (metis mul128_commute)
    ultimately show ?thesis using d by (simp add: mul128_sel_right)
  qed
  have step_r: "fold (otr_corr_step choice cr) [0..<Suc k] (0, 0, 0, g0)
      = (if bv_get choice k then x XOR ch else x,
         (fst (mul128 x delta) XOR q1) XOR m1, (snd (mul128 x delta) XOR q2) XOR m2, g')"
    using r m g by (simp only: upt_Suc_append zero_le fold_append comp_apply fold_simps)
      (simp add: otr_corr_step_def)
  have step_s: "fold (ots_corr_step cs) [0..<Suc k] (0, 0, g0)
      = (q1 XOR (m1 XOR sel d1 (bv_get choice k)), q2 XOR (m2 XOR sel d2 (bv_get choice k)), g')"
    using s cs g by (simp only: upt_Suc_append zero_le fold_append comp_apply fold_simps)
      (simp add: ots_corr_step_def)
  show ?case
  proof (cases "bv_get choice k")
    case True
    have "mul128 (x XOR ch) delta = (fst (mul128 x delta) XOR d1, snd (mul128 x delta) XOR d2)"
      using d by (simp add: mul128_xor_left)
    then show ?thesis unfolding step_r step_s using True by (simp add: xor_norm)
  next
    case False
    then show ?thesis unfolding step_r step_s by (simp add: xor_norm)
  qed
qed

lemma num_ot_ext_blocks:
  "128 * (num_ot_ext n div 128) = num_ot_ext n" "n \<le> num_ot_ext n"
  by (simp_all add: num_ot_ext_def)

lemma resize_randomize_length:
  assumes "bv_fits N" and "128 * j + 128 \<le> N"
  shows "16 * j + 16 \<le> length (bv_data (bv_randomize (bv_resize bv_empty N) rnd))"
proof -
  define v where "v = bv_resize bv_empty N"
  have "bv_wf v" unfolding v_def by (rule bv_wf_resize) (use assms in simp_all)
  then have wf: "bv_sizeBytes v \<le> length (bv_data v)" by (simp add: bv_wf_def)
  have "bv_sizeBytes v = (N + 7) div 8" by (simp add: bv_sizeBytes_def v_def)
  then have "16 * j + 16 \<le> bv_sizeBytes v" using assms(2) by linarith
  moreover have "length (bv_data (bv_randomize v rnd)) = length (bv_data v)"
    using wf by (simp add: bv_randomize_def)
  ultimately show ?thesis using wf by (simp add: v_def)
qed

lemma bv_bits_randomize [simp]: "bv_bits (bv_randomize v r) = bv_bits v"
  by (simp add: bv_randomize_def)

lemma receiver_send:
  assumes "length base = 128" and "n < 2 ^ 64"
    and "OTExtReceiver_Extend_send sha base n g bv_empty 0 = (comm, us, seed, choice, st, g')"
  shows "comm = Commit_data (Commit_block sha seed)
    \<and> us = map (u_block base (choice_block choice)) [0..<num_ot_ext n div 128]
    \<and> (\<exists>rnd. choice = bv_randomize (bv_resize bv_empty (num_ot_ext n)) rnd)
    \<and> otr_inv sha (t_row base) n (num_ot_ext n) (num_ot_ext n) st"
proof -
  let ?N = "num_ot_ext n"
  obtain rnd g1 where r: "get_u8s g (bv_sizeBytes (bv_resize bv_empty ?N)) = (rnd, g1)" by fastforce
  define ch where "ch = bv_randomize (bv_resize bv_empty ?N) rnd"
  obtain sd g2 where sd: "get_block g1 = (sd, g2)" by fastforce
  define st0 where "st0 = otr_init base n (bv_bits ch) 0"
  obtain us1 st1 where b: "otr_blocks sha (choice_block ch) [0..<?N div 128] st0 = (us1, st1)" by fastforce
  have run: "OTExtReceiver_Extend_send sha base n g bv_empty 0
      = (Commit_data (Commit_block sha sd), us1, sd, ch, st1, g2)"
    unfolding OTExtReceiver_Extend_send_def Let_def r prod.case ch_def [symmetric] sd BASE_OT_COUNT_def
      st0_def [symmetric] b ..
  have "otr_inv sha (t_row base) n ?N 0 st0" by (simp add: otr_inv_def st0_def otr_init_def ch_def)
  from otr_blocks_at [OF assms(1,2) _ this _ b] show ?thesis
    using assms(3) run num_ot_ext_blocks by (auto simp: st0_def otr_init_def ch_def)
qed

lemma sender_send:
  assumes "length ks = 128" and "n < 2 ^ 64"
    and "OTExtSender_Extend_send sha ks bits n g [] [] 0 us = (seed, st, g')"
  shows "ots_inv sha (q_row ks bits (\<lambda>j. us ! j)) (bv_ToBlock bits) n (num_ot_ext n) (num_ot_ext n) st"
proof -
  let ?N = "num_ot_ext n" and ?d = "bv_ToBlock bits"
  define st0 where "st0 = ots_init ks n [] [] 0"
  have "snd (OTExtSender_Extend_send sha ks bits n g [] [] 0 us)
      = (fold (\<lambda>j st. ots_block sha bits ?d n (us ! j) st) [0..<?N div 128] st0, snd (get_block g))"
    unfolding OTExtSender_Extend_send_def Let_def BASE_OT_COUNT_def st0_def ots_blocks_def by (simp split: prod.split)
  then have st: "st = fold (\<lambda>j st. ots_block sha bits ?d n (us ! j) st) [0..<?N div 128] st0"
    using assms(3) by simp
  have "ots_inv sha (q_row ks bits (\<lambda>j. us ! j)) ?d n ?N 0 st0" by (simp add: ots_inv_def st0_def ots_init_def)
  from ots_blocks_at [OF assms(1,2) num_ot_ext_blocks(2) _ _ this _ st] show ?thesis
    using num_ot_ext_blocks by (simp add: st0_def ots_init_def)
qed

lemma OTExt_run_correct:
  assumes sha: "digest20 sha" and base: "base_agree base ks bits" and n: "0 < n" "n < 2 ^ 30"
  shows "\<exists>msgs choice m0 m1 q. OTExt_run sha base ks bits n gR gS = Inr ((msgs, choice), (m0, m1))
     \<and> bv_bits choice = n \<and> bv_wf choice
     \<and> m0 = map (\<lambda>i. ot_hash sha (q i)) [0..<n]
     \<and> m1 = map (\<lambda>i. ot_hash sha (q i XOR bv_ToBlock bits)) [0..<n]
     \<and> msgs = map (\<lambda>i. OTExtSender_GetMessage (m0, m1) i (bv_get choice i)) [0..<n]"
proof -
  let ?N = "num_ot_ext n" and ?d = "bv_ToBlock bits"
  have l: "length base = 128" "length ks = 128" using base by (simp_all add: base_agree_def)
  have n64: "n < 2 ^ 64" using n by simp
  have fits: "bv_fits ?N"
  proof -
    have "?N \<le> n + 255" by (simp add: num_ot_ext_def)
    then show ?thesis using n by (simp add: bv_fits_def)
  qed
  obtain comm us seedR choice stR g1 where
    R: "OTExtReceiver_Extend_send sha base n gR bv_empty 0 = (comm, us, seedR, choice, stR, g1)"
    by (metis prod_cases6)
  note R' = receiver_send [OF l(1) n64 R]
  obtain seedS stS g2 where
    S: "OTExtSender_Extend_send sha ks bits n gS [] [] 0 us = (seedS, stS, g2)" by (metis prod_cases3)
  note S' = sender_send [OF l(2) n64 S]
  define cr where "cr = otr_corr stR"
  define cs where "cs = ots_corr stS"
  have len: "length cr = ?N" "length cs = ?N" using R' S' by (simp_all add: otr_inv_def ots_inv_def cr_def cs_def)
  obtain rnd where ch: "choice = bv_randomize (bv_resize bv_empty ?N) rnd" using R' by blast
  have q: "q_row ks bits (\<lambda>j. us ! j) i = t_row base i XOR sel ?d (bv_get choice i)" if i: "i < ?N" for i
  proof (rule q_row_correlated [OF base])
    have "128 * (i div 128) + 128 \<le> ?N"
    proof -
      have "i div 128 < ?N div 128" using i num_ot_ext_blocks(1) [of n] by (metis less_mult_imp_div_less mult.commute)
      then have "128 * (i div 128 + 1) \<le> 128 * (?N div 128)" by (intro mult_le_mono2) simp
      then show ?thesis using num_ot_ext_blocks(1) [of n] by simp
    qed
    then show "16 * (i div 128) + 16 \<le> length (bv_data choice)"
      unfolding ch by (rule resize_randomize_length [OF fits])
    have "i div 128 < ?N div 128" using i num_ot_ext_blocks(1) [of n] by (metis less_mult_imp_div_less mult.commute)
    then show "us ! (i div 128) = u_block base (choice_block choice) (i div 128)" using R' by simp
  qed
  have corr: "cs ! i = cr ! i XOR sel ?d (bv_get choice i)" if "i < ?N" for i
    using q [OF that] that R' S' by (simp add: cr_def cs_def otr_inv_def ots_inv_def)
  obtain x q1 q2 g where
    fr: "fold (otr_corr_step choice cr) [0..<?N] (0, 0, 0, SetSeed (seedR XOR seedS))
        = (x, fst (mul128 x ?d) XOR q1, snd (mul128 x ?d) XOR q2, g)"
    and fs: "fold (ots_corr_step cs) [0..<?N] (0, 0, SetSeed (seedR XOR seedS)) = (q1, q2, g)"
    using check_sums [OF corr] by blast
  have fin: "OTExtReceiver_Extend_finish n seedR choice stR seedS
      = ((x, fst (mul128 x ?d) XOR q1, snd (mul128 x ?d) XOR q2),
         vec_resize 0 n (otr_msgs stR), bv_resize choice n)"
    unfolding OTExtReceiver_Extend_finish_def Let_def cr_def [symmetric] len ZeroBlock_0 fr by simp
  have comm: "Commit_eq (Commit_block sha seedR) (Commit_of_data comm)"
    using R' sha
    by (simp add: Commit_of_data_def Commit_block_def commit_hash_def Commit_data_words HashSize_def
        Commit_eq_words)
  obtain d1 d2 where d: "mul128 x ?d = (d1, d2)" by fastforce
  have check: "OTExtSender_Extend_check sha bits seedS stS comm seedR
        (x, fst (mul128 x ?d) XOR q1, snd (mul128 x ?d) XOR q2) = Inr (ots_msg0 stS, ots_msg1 stS)"
    unfolding OTExtSender_Extend_check_def Let_def cs_def [symmetric] len ZeroBlock_0
      xor.commute [of seedS seedR] fs d using comm by (simp add: d)
  have run: "OTExt_run sha base ks bits n gR gS
      = Inr ((vec_resize 0 n (otr_msgs stR), bv_resize choice n), (ots_msg0 stS, ots_msg1 stS))"
    unfolding OTExt_run_def Let_def R prod.case S fin check using n by simp
  let ?Q = "q_row ks bits (\<lambda>j. us ! j)"
  have nN: "n \<le> ?N" by (rule num_ot_ext_blocks)
  have m0: "ots_msg0 stS = map (\<lambda>i. ot_hash sha (?Q i)) [0..<n]"
    and m1: "ots_msg1 stS = map (\<lambda>i. ot_hash sha (?Q i XOR ?d)) [0..<n]"
    using S' nN by (auto simp: ots_inv_def intro!: nth_equalityI)
  have "bv_wf (bv_resize bv_empty ?N)" by (rule bv_wf_resize) (use fits in simp_all)
  then have wfc: "bv_wf choice" unfolding ch by (simp add: bv_wf_def bv_randomize_def bv_sizeBytes_def)
  have fn: "bv_fits n" using fits nN by (rule bv_fits_mono)
  have wfr: "bv_wf (bv_resize choice n)" using wfc fn by (rule bv_wf_resize)
  have wf: "bv_get (bv_resize choice n) i = bv_get choice i" if "i < n" for i
    using wfc fn that nN by (simp add: bv_get_resize ch)
  have "vec_resize 0 n (otr_msgs stR)
      = map (\<lambda>i. OTExtSender_GetMessage (ots_msg0 stS, ots_msg1 stS) i (bv_get (bv_resize choice n) i)) [0..<n]"
  proof (rule nth_equalityI)
    fix i assume "i < length (vec_resize 0 n (otr_msgs stR))"
    then have i: "i < n" by simp
    have r: "otr_msgs stR ! i = ot_hash sha (t_row base i)" "length (otr_msgs stR) = n"
      using R' i nN by (simp_all add: otr_inv_def)
    have "?Q i = t_row base i XOR sel ?d (bv_get choice i)" using q i nN by simp
    then show "vec_resize 0 n (otr_msgs stR) ! i = map (\<lambda>i. OTExtSender_GetMessage (ots_msg0 stS, ots_msg1 stS) i
        (bv_get (bv_resize choice n) i)) [0..<n] ! i"
      using i r m0 m1 wf [OF i]
      by (cases "bv_get choice i") (simp_all add: OTExtSender_GetMessage_def nth_vec_resize)
  qed simp
  then have msgs: "vec_resize 0 n (otr_msgs stR) = map (\<lambda>i. OTExtSender_GetMessage
      (ots_msg0 stS, ots_msg1 stS) i (bv_get (bv_resize choice n) i)) [0..<n]" .
  show ?thesis
    by (intro exI [of _ "?Q"] exI conjI) (rule run, simp, rule wfr, rule m0, rule m1, rule msgs)
qed

section \<open>The interface the protocol relies on\<close>

text \<open>
  What a user of the extension may assume about a sender state and a receiver state that come out
  of the same execution: at each index the receiver holds the sender's pad of its choice. The
  derandomised transfer of a chosen message is proved once from it.
\<close>

locale ot_pads =
  fixes agreed :: "'s \<Rightarrow> 'r \<Rightarrow> nat \<Rightarrow> bool"
    and choice :: "'r \<Rightarrow> nat \<Rightarrow> bool"
    and received :: "'r \<Rightarrow> nat \<Rightarrow> block"
    and pad :: "'s \<Rightarrow> nat \<Rightarrow> bool \<Rightarrow> block"
  assumes pad_received: "agreed s r n \<Longrightarrow> i < n \<Longrightarrow> received r i = pad s i (choice r i)"
begin

lemma transfer:
  assumes "agreed s r n" and "i < n"
  shows "received r i XOR (x want XOR pad s i (want \<noteq> (choice r i \<noteq> want))) = x want"
proof -
  have "(want \<noteq> (choice r i \<noteq> want)) = choice r i" by auto
  then show ?thesis using pad_received [OF assms] by (simp add: xor.commute [of "x want"])
qed

end

text \<open>A receiver and a sender state that came out of one execution.\<close>

definition ot_agreed :: "block list \<times> block list \<Rightarrow> block list \<times> bitvec \<Rightarrow> nat \<Rightarrow> bool" where
  "ot_agreed s r n \<longleftrightarrow> (\<exists>sha base ks bits gR gS. digest20 sha \<and> base_agree base ks bits \<and> 0 < n \<and> n < 2 ^ 30
     \<and> OTExt_run sha base ks bits n gR gS = Inr (r, s))"

interpretation ote: ot_pads ot_agreed "\<lambda>r. bv_get (snd r)" "\<lambda>r. OTExtReceiver_GetMessage (fst r)"
  OTExtSender_GetMessage
proof
  fix s r n i assume "ot_agreed s r n" and i: "i < n"
  then obtain sha base ks bits gR gS where "digest20 sha" "base_agree base ks bits" "0 < n" "n < 2 ^ 30"
    and run: "OTExt_run sha base ks bits n gR gS = Inr (r, s)" unfolding ot_agreed_def by blast
  from OTExt_run_correct [OF this(1-4), of gR gS] obtain msgs choice m0 m1 where
    "OTExt_run sha base ks bits n gR gS = Inr ((msgs, choice), (m0, m1))"
    and m: "msgs = map (\<lambda>i. OTExtSender_GetMessage (m0, m1) i (bv_get choice i)) [0..<n]"
    by blast
  then have "r = (msgs, choice)" "s = (m0, m1)" using run by simp_all
  then show "OTExtReceiver_GetMessage (fst r) i = OTExtSender_GetMessage s i (bv_get (snd r) i)"
    using m i by (simp add: OTExtReceiver_GetMessage_def)
qed

lemma ot_agreed_choice:
  assumes "ot_agreed s r n"
  shows "bv_bits (snd r) = n \<and> bv_wf (snd r)"
proof -
  obtain sha base ks bits gR gS where a: "digest20 sha" "base_agree base ks bits" "0 < n" "n < 2 ^ 30"
    and run: "OTExt_run sha base ks bits n gR gS = Inr (r, s)" using assms unfolding ot_agreed_def by blast
  from OTExt_run_correct [OF a, of gR gS] run show ?thesis by auto
qed

lemma ot_agreed_exists: "0 < n \<Longrightarrow> n < 2 ^ 30 \<Longrightarrow> \<exists>s r. ot_agreed s r n"
proof -
  assume n: "0 < n" "n < 2 ^ 30"
  let ?bits = "bv_assign_block bv_empty 0"
  have "16 \<le> length (bv_data ?bits)" by (simp add: bv_assign_block_def bv_reset_def bv_empty_def Let_def)
  then have b: "base_agree (replicate 128 (1, 1)) (replicate 128 1) ?bits" by (simp add: base_agree_def)
  have sha: "digest20 (vec_resize 0 20)" by (simp add: digest20_def HashSize_def)
  from OTExt_run_correct [OF sha b n, of "SetSeed 1" "SetSeed 2"] show ?thesis
    unfolding ot_agreed_def using sha b n by blast
qed

section \<open>Properties\<close>

text \<open>C17. The OT extension is correct: when the base OTs agree with the sender's choice bits, an
  execution between two parties that follow the code succeeds (the commitment opens and the
  correlation check passes, no exception), leaves the sender with pads that hash rows \<open>q i\<close> and
  \<open>q i + delta\<close>, and leaves the receiver with \<open>n\<close> choice bits and, at every index, exactly the pad
  its choice bit selects.\<close>

theorem ot_extension_correct:
  assumes "digest20 sha" and "base_agree base ks bits" and "0 < n" and "n < 2 ^ 30"
  shows "\<exists>msgs choice m0 m1 q. OTExt_run sha base ks bits n gR gS = Inr ((msgs, choice), (m0, m1))
     \<and> bv_bits choice = n
     \<and> m0 = map (\<lambda>i. ot_hash sha (q i)) [0..<n]
     \<and> m1 = map (\<lambda>i. ot_hash sha (q i XOR bv_ToBlock bits)) [0..<n]
     \<and> msgs = map (\<lambda>i. OTExtSender_GetMessage (m0, m1) i (bv_get choice i)) [0..<n]"
  using OTExt_run_correct [OF assms] by blast

theorem ot_extension_correct_witness:
  "\<exists>msgs choice m0 m1 q. OTExt_run (vec_resize 0 20)
       (map (\<lambda>c. (word_of_nat c, word_of_nat (c + 200))) [0..<128])
       (map (\<lambda>c. if bv_get (bv_assign_block bv_empty 0xA5F0) c then word_of_nat (c + 200) else word_of_nat c) [0..<128])
       (bv_assign_block bv_empty 0xA5F0) 130 (SetSeed 3) (SetSeed 4) = Inr ((msgs, choice), (m0, m1))
     \<and> bv_bits choice = 130
     \<and> m0 = map (\<lambda>i. ot_hash (vec_resize 0 20) (q i)) [0..<130]
     \<and> m1 = map (\<lambda>i. ot_hash (vec_resize 0 20) (q i XOR bv_ToBlock (bv_assign_block bv_empty 0xA5F0))) [0..<130]
     \<and> msgs = map (\<lambda>i. OTExtSender_GetMessage (m0, m1) i (bv_get choice i)) [0..<130]"
proof (rule ot_extension_correct)
  have "16 \<le> length (bv_data (bv_assign_block bv_empty 0xA5F0))"
    by (simp add: bv_assign_block_def bv_reset_def bv_empty_def Let_def)
  then show "base_agree (map (\<lambda>c. (word_of_nat c, word_of_nat (c + 200))) [0..<128])
     (map (\<lambda>c. if bv_get (bv_assign_block bv_empty 0xA5F0) c then word_of_nat (c + 200) else word_of_nat c) [0..<128])
     (bv_assign_block bv_empty 0xA5F0)"
    by (simp add: base_agree_def)
qed (simp_all add: digest20_def HashSize_def)

text \<open>The derandomised transfer built on the extension delivers the wanted message: the sender
  masks message \<open>b\<close> with the pad of \<open>b\<close> flipped by the receiver's correction bit, and the receiver's
  own pad removes exactly the mask of the message it wants.\<close>

theorem ot_chosen_transfer:
  assumes "ot_agreed s r n" and "i < n"
  shows "OTExtReceiver_GetMessage (fst r) i
           XOR (x want XOR OTExtSender_GetMessage s i (want \<noteq> (bv_get (snd r) i \<noteq> want))) = x want"
  using assms by (rule ote.transfer)

theorem ot_chosen_transfer_witness:
  "\<exists>s r. ot_agreed s r 130 \<and> OTExtReceiver_GetMessage (fst r) 7
     XOR ((\<lambda>b. if b then 11 else 22) True XOR OTExtSender_GetMessage s 7 (True \<noteq> (bv_get (snd r) 7 \<noteq> True))) = 11"
proof -
  obtain s r where "ot_agreed s r 130" using ot_agreed_exists [of 130] by auto
  moreover from ot_chosen_transfer [OF this, of 7 "\<lambda>b. if b then 11 else 22" True]
  have "OTExtReceiver_GetMessage (fst r) 7
     XOR ((\<lambda>b. if b then 11 else 22) True XOR OTExtSender_GetMessage s 7 (True \<noteq> (bv_get (snd r) 7 \<noteq> True))) = 11"
    by simp
  ultimately show ?thesis by blast
qed

text \<open>What \<open>atomicDoneIdx\<close> announces is final: after any number of blocks the receiver's counter
  is the number of complete messages, capped by the request, and the messages below it are the ones
  the finished \<open>Extend\<close> has; a thread that polls the counter may use them at once.\<close>

theorem ot_receiver_published:
  assumes "length base = 128" and "n < 2 ^ 64" and "k \<le> num_ot_ext n div 128"
  shows "otr_done (snd (otr_blocks sha X [0..<k] (otr_init base n (num_ot_ext n) 0))) = min (128 * k) n
    \<and> take (min (128 * k) n) (otr_msgs (snd (otr_blocks sha X [0..<k] (otr_init base n (num_ot_ext n) 0))))
      = take (min (128 * k) n) (otr_msgs (snd (otr_blocks sha X [0..<num_ot_ext n div 128] (otr_init base n (num_ot_ext n) 0))))"
proof -
  let ?st0 = "otr_init base n (num_ot_ext n) 0"
  have i: "otr_inv sha (t_row base) n (num_ot_ext n) 0 ?st0" by (simp add: otr_inv_def otr_init_def)
  have *: "otr_inv sha (t_row base) n (num_ot_ext n) (128 * j) (snd (otr_blocks sha X [0..<j] ?st0))
      \<and> otr_done (snd (otr_blocks sha X [0..<j] ?st0)) = min (128 * j) n" for j
    using otr_blocks_at [OF assms(1,2) _ i _ prod.collapse [symmetric]] by (simp add: otr_init_def)
  have mono: "128 * k \<le> 128 * (num_ot_ext n div 128)" using assms(3) by simp
  show ?thesis
    using * [of k] * [of "num_ot_ext n div 128"] mono
    by (auto simp: otr_inv_def intro!: nth_equalityI)
qed

theorem ot_receiver_published_witness:
  "otr_done (snd (otr_blocks (vec_resize 0 20) (\<lambda>_. 5) [0..<1] (otr_init (replicate 128 (1, 2)) 300 (num_ot_ext 300) 0)))
     = min (128 * 1) 300
   \<and> take (min (128 * 1) 300) (otr_msgs (snd (otr_blocks (vec_resize 0 20) (\<lambda>_. 5) [0..<1]
         (otr_init (replicate 128 (1, 2)) 300 (num_ot_ext 300) 0))))
     = take (min (128 * 1) 300) (otr_msgs (snd (otr_blocks (vec_resize 0 20) (\<lambda>_. 5) [0..<num_ot_ext 300 div 128]
         (otr_init (replicate 128 (1, 2)) 300 (num_ot_ext 300) 0))))"
  by (rule ot_receiver_published) (simp_all add: num_ot_ext_def)

text \<open>The sender's check leaves no freedom in the correlation data: for given rows and seeds, a
  receiver that announces \<open>x\<close> passes with exactly one pair \<open>(t, t2)\<close>, and a seed that differs from the
  committed one never passes unless SHA-1 collides on it.\<close>

theorem ot_check_unique:
  assumes "digest20 sha"
    and "OTExtSender_Extend_check sha bits seedS st (Commit_data (Commit_block sha s0)) s1 (x, t, t2) = Inr pads"
    and "OTExtSender_Extend_check sha bits seedS st (Commit_data (Commit_block sha s0)) s1 (x, v, v2) = Inr pads'"
  shows "t = v \<and> t2 = v2 \<and> (s1 = s0 \<or> sha (ByteArray s1) = sha (ByteArray s0))"
proof -
  have c: "Commit_of_data (Commit_data (Commit_block sha s0)) = Commit_block sha s0"
    using assms(1) by (simp add: Commit_of_data_def Commit_block_def commit_hash_def Commit_data_words HashSize_def)
  have "Commit_eq (Commit_block sha s1) (Commit_block sha s0)"
    using assms(2) c by (simp add: OTExtSender_Extend_check_def split: if_splits)
  then have "sha (ByteArray s1) = sha (ByteArray s0)"
    using assms(1) by (simp add: Commit_block_def commit_hash_def Commit_eq_words sha1_Update_def sha1_Reset_def)
  then show ?thesis
    using assms(2,3) by (auto simp: OTExtSender_Extend_check_def Let_def split: if_splits prod.splits)
qed

theorem ot_check_unique_witness:
  "(0::block) = 0 \<and> (0::block) = 0 \<and> ((5::block) = 5 \<or> vec_resize (0::u8) 20 (ByteArray 5) = vec_resize 0 20 (ByteArray 5))"
proof (rule ot_check_unique)
  let ?st = "\<lparr>ots_gens = [], ots_msg0 = [1], ots_msg1 = [2], ots_corr = [], ots_iter = 0, ots_didx = 1, ots_done = 1\<rparr>"
  have sha: "digest20 (vec_resize 0 20)" by (simp add: digest20_def HashSize_def)
  then show "digest20 (vec_resize 0 20)" .
  show "OTExtSender_Extend_check (vec_resize 0 20) bv_empty 3 ?st (Commit_data (Commit_block (vec_resize 0 20) 5)) 5 (0, 0, 0)
      = Inr ([1], [2])"
    by (simp add: OTExtSender_Extend_check_def Let_def mul128_0 Commit_of_data_def Commit_block_def
        commit_hash_def Commit_data_words HashSize_def Commit_eq_words)
  then show "OTExtSender_Extend_check (vec_resize 0 20) bv_empty 3 ?st (Commit_data (Commit_block (vec_resize 0 20) 5)) 5 (0, 0, 0)
      = Inr ([1], [2])" .
qed

end
