(* ===== verification/BDX_Psi.thy ===== *)
theory BDX_Psi
  imports BDX_OTExt
begin

text \<open>
  Private set intersection on top of the OT extension: \<open>PSI/AsyncPsiSender.cpp\<close> and
  \<open>PSI/AsyncPsiReceiver.cpp\<close>, which \<open>DualEx/Bucket.h\<close> selects with \<open>ASYNC_PSI\<close>. The
  default pair is in \<open>BDX_PsiSync\<close>. Inputs are blocks of which the
  first \<open>wordSize\<close> bits count. The OT states are the outcome of \<open>OTExt_run\<close>; SHA-1 is the parameter
  \<open>sha\<close>. Received buffers are byte lists. An operation that waits on the future of the input
  commitments is cut in two where it waits.
\<close>

definition PRF :: "block \<Rightarrow> nat \<Rightarrow> block" where
  "PRF b i =
     (let tweak = set1_epi64x (word_of_nat i);
          ret = b XOR tweak;
          enc = EcbEncBlock mAesFixedKey ret
      in ret XOR enc)"

definition psi_input :: "block \<Rightarrow> nat \<Rightarrow> bitvec" where
  "psi_input inputBlk wordSize = bv_of_bytes (ByteArray inputBlk) wordSize"

text \<open>Receiving into a bit vector (\<open>ChannelBufferResize\<close> throws on another length).\<close>

definition bv_recv :: "bitvec \<Rightarrow> u8 list \<Rightarrow> bitvec result" where
  "bv_recv v msg =
     (if bv_sizeBytes v \<noteq> length msg then Inl InvalidArgument
      else Inr (v\<lparr>bv_data := blit (bv_data v) 0 msg\<rparr>))"

definition bv_message :: "bitvec \<Rightarrow> u8 list" where
  "bv_message v = take (bv_sizeBytes v) (bv_data v)"

text \<open>The decrement of \<open>mRemainingInputCommits\<close>.\<close>

definition u32_dec :: "nat \<Rightarrow> nat" where
  "u32_dec n = (n + 2 ^ 32 - 1) mod 2 ^ 32"

section \<open>The asynchronous sender\<close>

record async_psi_sender =
  aps_word :: nat
  aps_my :: "bitvec list"
  aps_their :: "bitvec list"
  aps_shares :: "(block \<times> block) list list list"
  aps_open :: "bytestream list list"
  aps_remaining :: nat
  aps_committed :: bool

definition AsyncPsi_PsiOTCount :: "nat \<Rightarrow> nat \<Rightarrow> nat" where
  "AsyncPsi_PsiOTCount inputSize wordSize = inputSize * inputSize * wordSize mod 2 ^ 64"

definition aps_share :: "block list \<times> block list \<Rightarrow> bool \<Rightarrow> nat \<Rightarrow> nat \<Rightarrow> block \<Rightarrow> block \<times> block" where
  "aps_share otSend c oti j Zi =
     (PRF (OTExtSender_GetMessage otSend oti c) j XOR Zi,
      PRF (OTExtSender_GetMessage otSend oti (\<not> c)) j XOR Zi)"

definition aps_append_commits :: "(u8 list \<Rightarrow> u8 list) \<Rightarrow> bytestream \<Rightarrow> block \<times> block \<Rightarrow> bytestream" where
  "aps_append_commits sha buff p =
     bs_append_commit (bs_append_commit buff (Commit_block sha (fst p))) (Commit_block sha (snd p))"

text \<open>The shares of one pair of inputs and the buffer of their commitments, bit by bit; the last bit
  takes the blind that makes the blinds sum to zero.\<close>

definition aps_pair ::
  "(u8 list \<Rightarrow> u8 list) \<Rightarrow> block list \<times> block list \<Rightarrow> nat \<Rightarrow> bitvec \<Rightarrow> nat \<Rightarrow> nat
   \<Rightarrow> (block \<times> block) list \<times> bytestream" where
  "aps_pair sha otSend wordSize permute j oti0 =
     (let (ZiXorSum, oti, shares, buff) =
            fold (\<lambda>b (ZiXorSum, oti, shares, buff).
                    let Zi = ZeroBlock;
                        ZiXorSum = ZiXorSum XOR Zi;
                        p = aps_share otSend (bv_get permute b) oti j Zi
                    in (ZiXorSum, oti + 1, shares @ [p], aps_append_commits sha buff p))
              [0..<wordSize - 1] (ZeroBlock, oti0, [], bs_new (HashSize * wordSize * 2));
          p = aps_share otSend (bv_get permute (wordSize - 1)) oti j ZiXorSum
      in (shares @ [p], aps_append_commits sha buff p))"

primrec aps_permutes :: "nat \<Rightarrow> nat \<Rightarrow> prng \<Rightarrow> bitvec list \<times> prng" where
  "aps_permutes wordSize 0 g = ([], g)"
| "aps_permutes wordSize (Suc n) g =
     (let v = bv_reset bv_empty wordSize;
          (rnd, g) = get_u8s g (bv_sizeBytes v);
          v = bv_randomize v rnd;
          (vs, g) = aps_permutes wordSize n g
      in (v # vs, g))"

text \<open>The new state, the commitment buffers in the order they are sent, and the next OT index.\<close>

definition AsyncPsiSender_init ::
  "(u8 list \<Rightarrow> u8 list) \<Rightarrow> nat \<Rightarrow> nat \<Rightarrow> block list \<times> block list \<Rightarrow> nat \<Rightarrow> prng
   \<Rightarrow> (async_psi_sender \<times> u8 list list \<times> nat \<times> prng) result" where
  "AsyncPsiSender_init sha inputSize wordSize otSend otIdx prng =
     (let otStartIdx = otIdx;
          otIdx = otIdx + AsyncPsi_PsiOTCount inputSize wordSize
      in if inputSize = 0 then Inl RuntimeError
         else let (permutes, prng) = aps_permutes wordSize inputSize prng;
                  rows = map (\<lambda>i. map (\<lambda>j. aps_pair sha otSend wordSize (permutes ! j) j
                                               (otStartIdx + i * wordSize)) [0..<inputSize]) [0..<inputSize]
              in Inr (\<lparr>aps_word = wordSize, aps_my = permutes, aps_their = replicate inputSize bv_empty,
                       aps_shares = map (map fst) rows,
                       aps_open = replicate inputSize (replicate inputSize (bs_new (16 * wordSize))),
                       aps_remaining = inputSize * 2 mod 2 ^ 32, aps_committed = False\<rparr>,
                      concat (map (map (\<lambda>p. bs_bytes (snd p))) rows), otIdx, prng))"

definition aps_dec :: "async_psi_sender \<Rightarrow> async_psi_sender" where
  "aps_dec st =
     (let rem = u32_dec (aps_remaining st)
      in st\<lparr>aps_remaining := rem, aps_committed := aps_committed st \<or> rem = 0\<rparr>)"

definition AsyncPsiSender_AsyncCommitSend ::
  "async_psi_sender \<Rightarrow> block \<Rightarrow> nat \<Rightarrow> u8 list \<times> async_psi_sender" where
  "AsyncPsiSender_AsyncCommitSend st inputBlk i =
     (let input = psi_input inputBlk (aps_word st);
          v = bv_xor_assign (aps_my st ! i) input;
          st = st\<lparr>aps_my := (aps_my st)[i := v]\<rparr>
      in (bv_message (bv_assign bv_empty v), aps_dec st))"

text \<open>\<open>AsyncCommitRecv\<close> before and after it waits for all the input commitments.\<close>

definition AsyncPsiSender_AsyncCommitRecv ::
  "async_psi_sender \<Rightarrow> u8 list \<Rightarrow> nat \<Rightarrow> async_psi_sender result" where
  "AsyncPsiSender_AsyncCommitRecv st msg i =
     bind_r (bv_recv (bv_reset (aps_their st ! i) (aps_word st)) msg)
       (\<lambda>v. Inr (aps_dec (st\<lparr>aps_their := (aps_their st)[i := v]\<rparr>)))"

definition aps_open_shares :: "async_psi_sender \<Rightarrow> nat \<Rightarrow> nat \<Rightarrow> bytestream" where
  "aps_open_shares st i j =
     fold (\<lambda>b buff.
             let bit = (bv_get (aps_their st ! i) b \<noteq> bv_get (aps_my st ! j) b);
                 share = aps_shares st ! i ! j ! b
             in bs_append_block buff (if bit then snd share else fst share))
       [0..<aps_word st] (aps_open st ! i ! j)"

definition AsyncPsiSender_AsyncCommitRecv_resume :: "async_psi_sender \<Rightarrow> nat \<Rightarrow> async_psi_sender" where
  "AsyncPsiSender_AsyncCommitRecv_resume st i =
     (let myInputSize = length (aps_shares st ! 0)
      in st\<lparr>aps_open := (aps_open st)[i := map (\<lambda>j. aps_open_shares st i j) [0..<myInputSize]]\<rparr>)"

definition AsyncPsiSender_open :: "async_psi_sender \<Rightarrow> nat \<Rightarrow> u8 list list" where
  "AsyncPsiSender_open st idx =
     map (\<lambda>j. bs_bytes (aps_open st ! idx ! j)) [0..<length (aps_shares st ! 0)]"

section \<open>The asynchronous receiver\<close>

record async_psi_receiver =
  apr_word :: nat
  apr_my :: "bitvec list"
  apr_their :: "bitvec list"
  apr_commits :: "(commit \<times> commit) list list list"
  apr_ot_idx :: nat
  apr_remaining :: nat
  apr_committed :: bool

definition apr_commit_pairs :: "nat \<Rightarrow> u8 list \<Rightarrow> (commit \<times> commit) list" where
  "apr_commit_pairs wordSize msg =
     map (\<lambda>b. (Commit_of_data (take HashSize (drop (b * 2 * HashSize) msg)),
               Commit_of_data (take HashSize (drop ((b * 2 + 1) * HashSize) msg)))) [0..<wordSize]"

definition AsyncPsiReceiver_init ::
  "nat \<Rightarrow> nat \<Rightarrow> block list \<times> bitvec \<Rightarrow> nat \<Rightarrow> u8 list list \<Rightarrow> (async_psi_receiver \<times> nat) result" where
  "AsyncPsiReceiver_init inputSize wordSize otRecv otIdx msgs =
     (let otIdx' = otIdx + AsyncPsi_PsiOTCount inputSize wordSize
      in if \<not> list_all (\<lambda>k. length (msgs ! k) = wordSize * HashSize * 2) [0..<inputSize * inputSize]
         then Inl BadReceiveBufferSize
         else Inr (\<lparr>apr_word = wordSize,
                    apr_my = map (\<lambda>i. bv_copy bv_empty (snd otRecv) (otIdx + i * wordSize) wordSize) [0..<inputSize],
                    apr_their = replicate inputSize (bv_reset bv_empty wordSize),
                    apr_commits = map (\<lambda>i. map (\<lambda>j. apr_commit_pairs wordSize (msgs ! (i * inputSize + j)))
                                                [0..<inputSize]) [0..<inputSize],
                    apr_ot_idx = otIdx, apr_remaining = inputSize * 2 mod 2 ^ 32, apr_committed = False\<rparr>,
                   otIdx'))"

definition apr_dec :: "async_psi_receiver \<Rightarrow> async_psi_receiver" where
  "apr_dec st =
     (let rem = u32_dec (apr_remaining st)
      in st\<lparr>apr_remaining := rem, apr_committed := apr_committed st \<or> rem = 0\<rparr>)"

definition AsyncPsiReceiver_CommitSend ::
  "async_psi_receiver \<Rightarrow> block \<Rightarrow> nat \<Rightarrow> u8 list \<times> async_psi_receiver" where
  "AsyncPsiReceiver_CommitSend st inputBlk idx =
     (let input = psi_input inputBlk (apr_word st);
          v = bv_xor_assign (apr_my st ! idx) input
      in (bv_message v, apr_dec (st\<lparr>apr_my := (apr_my st)[idx := v]\<rparr>)))"

definition AsyncPsiReceiver_CommitRecv ::
  "async_psi_receiver \<Rightarrow> u8 list \<Rightarrow> nat \<Rightarrow> async_psi_receiver result" where
  "AsyncPsiReceiver_CommitRecv st msg idx =
     bind_r (bv_recv (apr_their st ! idx) msg)
       (\<lambda>v. Inr (apr_dec (st\<lparr>apr_their := (apr_their st)[idx := v]\<rparr>)))"

text \<open>The shares of one buffer: the running sums \<open>(myPse, theirPse)\<close>.\<close>

fun apr_shares ::
  "(u8 list \<Rightarrow> u8 list) \<Rightarrow> async_psi_receiver \<Rightarrow> block list \<times> bitvec \<Rightarrow> nat \<Rightarrow> nat \<Rightarrow> u8 list
   \<Rightarrow> nat list \<Rightarrow> block \<times> block \<Rightarrow> (block \<times> block) result" where
  "apr_shares sha st otRecv idx j buff [] acc = Inr acc"
| "apr_shares sha st otRecv idx j buff (b # bs) (myPse, theirPse) =
     (let otIdx = apr_ot_idx st + idx * apr_word st + b;
          share = block_of_bytes (drop (16 * b) buff);
          theirPse = theirPse XOR share;
          myPse = myPse XOR PRF (OTExtReceiver_GetMessage (fst otRecv) otIdx) j;
          bit = (bv_get (apr_my st ! idx) b \<noteq> bv_get (apr_their st ! j) b);
          comms = apr_commits st ! idx ! j ! b
      in if \<not> Commit_eq (Commit_block sha share) (if bit then snd comms else fst comms)
         then Inl InvalidCommitment
         else apr_shares sha st otRecv idx j buff bs (myPse, theirPse))"

fun apr_open_all ::
  "(u8 list \<Rightarrow> u8 list) \<Rightarrow> async_psi_receiver \<Rightarrow> block list \<times> bitvec \<Rightarrow> nat \<Rightarrow> u8 list list
   \<Rightarrow> nat list \<Rightarrow> bool \<Rightarrow> bool result" where
  "apr_open_all sha st otRecv idx msgs [] ret = Inr ret"
| "apr_open_all sha st otRecv idx msgs (j # js) ret =
     (let buff = msgs ! j
      in if length buff \<noteq> 16 * apr_word st then Inl RuntimeError
         else bind_r (apr_shares sha st otRecv idx j buff [0..<apr_word st] (ZeroBlock, ZeroBlock))
                (\<lambda>(myPse, theirPse).
                   apr_open_all sha st otRecv idx msgs js (if myPse = theirPse then True else ret)))"

definition AsyncPsiReceiver_open ::
  "(u8 list \<Rightarrow> u8 list) \<Rightarrow> async_psi_receiver \<Rightarrow> block list \<times> bitvec \<Rightarrow> nat \<Rightarrow> u8 list list \<Rightarrow> bool result" where
  "AsyncPsiReceiver_open sha st otRecv idx msgs =
     apr_open_all sha st otRecv idx msgs [0..<length (apr_commits st ! 0)] False"

text \<open>The receiver committing to all its inputs, and receiving all the permutations, in index order.\<close>

fun apr_send_all :: "async_psi_receiver \<Rightarrow> nat \<Rightarrow> block list \<Rightarrow> u8 list list \<times> async_psi_receiver" where
  "apr_send_all st i [] = ([], st)"
| "apr_send_all st i (x # xs) =
     (let (m, st) = AsyncPsiReceiver_CommitSend st x i;
          (ms, st) = apr_send_all st (i + 1) xs
      in (m # ms, st))"

fun apr_recv_all :: "async_psi_receiver \<Rightarrow> nat \<Rightarrow> u8 list list \<Rightarrow> async_psi_receiver result" where
  "apr_recv_all st i [] = Inr st"
| "apr_recv_all st i (m # ms) =
     bind_r (AsyncPsiReceiver_CommitRecv st m i) (\<lambda>st. apr_recv_all st (i + 1) ms)"

section \<open>Every order of the sender's operations\<close>

text \<open>
  The threads of the sender run \<open>AsyncCommitSend\<close> once for each of its inputs \<open>ys\<close> and
  \<open>AsyncCommitRecv\<close> once for each message of \<open>ms\<close>, in any order; the second half of a receive runs
  only after the future is set.
\<close>

record aps_run =
  run_st :: async_psi_sender
  run_sent :: "nat set"
  run_recvd :: "nat set"
  run_done :: "nat set"

inductive aps_step :: "block list \<Rightarrow> u8 list list \<Rightarrow> aps_run \<Rightarrow> aps_run \<Rightarrow> bool" for ys ms where
  step_send: "i < length ys \<Longrightarrow> i \<notin> run_sent r \<Longrightarrow>
    aps_step ys ms r (r\<lparr>run_st := snd (AsyncPsiSender_AsyncCommitSend (run_st r) (ys ! i) i),
                        run_sent := insert i (run_sent r)\<rparr>)"
| step_recv: "i < length ys \<Longrightarrow> i \<notin> run_recvd r \<Longrightarrow>
    AsyncPsiSender_AsyncCommitRecv (run_st r) (ms ! i) i = Inr st' \<Longrightarrow>
    aps_step ys ms r (r\<lparr>run_st := st', run_recvd := insert i (run_recvd r)\<rparr>)"
| step_resume: "i \<in> run_recvd r \<Longrightarrow> i \<notin> run_done r \<Longrightarrow> aps_committed (run_st r) \<Longrightarrow>
    aps_step ys ms r (r\<lparr>run_st := AsyncPsiSender_AsyncCommitRecv_resume (run_st r) i,
                        run_done := insert i (run_done r)\<rparr>)"

inductive aps_reach :: "block list \<Rightarrow> u8 list list \<Rightarrow> async_psi_sender \<Rightarrow> aps_run \<Rightarrow> bool" for ys ms st0 where
  reach_init: "aps_reach ys ms st0 \<lparr>run_st = st0, run_sent = {}, run_recvd = {}, run_done = {}\<rparr>"
| reach_step: "aps_reach ys ms st0 r \<Longrightarrow> aps_step ys ms r r' \<Longrightarrow> aps_reach ys ms st0 r'"

section \<open>Buffers\<close>

lemma bs_bytes_append:
  assumes "bs_wf s" and "bs_room s (length x)"
  shows "bs_bytes (bs_append s x) = bs_bytes s @ x" and "bs_wf (bs_append s x)"
    and "bs_w (bs_append s x) = bs_w s + length x"
  using bs_content_append [OF assms] bs_append_unread(1) [OF assms]
  by (simp_all add: bs_bytes_content)

lemma bs_bytes_new [simp]: "bs_bytes (bs_new n) = []"
  by (simp add: bs_bytes_def)

lemma length_bs_bytes: "bs_wf s \<Longrightarrow> length (bs_bytes s) = bs_w s"
  by (simp add: bs_bytes_def bs_wf_def bs_mxlen_def)

lemma bs_append_fold:
  assumes "\<And>x. x \<in> set xs \<Longrightarrow> length (f x) = c" and "bs_wf s" and "bs_w s + length xs * c < 2 ^ 62"
  shows "bs_bytes (fold (\<lambda>x buff. bs_append buff (f x)) xs s) = bs_bytes s @ concat (map f xs)
         \<and> bs_wf (fold (\<lambda>x buff. bs_append buff (f x)) xs s)"
  using assms
proof (induction xs arbitrary: s)
  case (Cons x xs)
  have "bs_room s (length (f x))" using Cons.prems by (simp add: bs_room_def)
  note a = bs_bytes_append [OF Cons.prems(2) this]
  have "bs_w (bs_append s (f x)) + length xs * c < 2 ^ 62" using a Cons.prems by (simp add: add.commute)
  with Cons.IH [OF _ a(2)] Cons.prems(1) show ?case by (simp add: a(1))
qed simp

lemma chunk:
  assumes "\<And>x. x \<in> set xs \<Longrightarrow> length x = c" and "i < length xs"
  shows "take c (drop (i * c) (concat xs)) = xs ! i"
  using assms
proof (induction xs arbitrary: i)
  case (Cons x xs)
  then show ?case
  proof (cases i)
    case (Suc k)
    then show ?thesis using Cons by simp
  qed simp
qed simp

lemma chunk_map:
  assumes "\<And>x. length (f x) = c" and "i < length xs"
  shows "take c (drop (i * c) (concat (map f xs))) = f (xs ! i)"
  using chunk [of "map f xs" c i] assms by fastforce

lemma length_Commit_data: "digest20 sha \<Longrightarrow> length (Commit_data (Commit_block sha b)) = 20"
  by (simp add: Commit_block_def commit_hash_def Commit_data_words HashSize_def)

lemma Commit_data_inverse: "digest20 sha \<Longrightarrow> Commit_of_data (Commit_data (Commit_block sha b)) = Commit_block sha b"
  by (simp add: Commit_of_data_def Commit_block_def commit_hash_def Commit_data_words HashSize_def)

lemma Commit_eq_refl [simp]: "Commit_eq c c"
  by (simp add: Commit_eq_iff)

abbreviation commit_pair_bytes :: "(u8 list \<Rightarrow> u8 list) \<Rightarrow> block \<times> block \<Rightarrow> u8 list" where
  "commit_pair_bytes sha p \<equiv> Commit_data (Commit_block sha (fst p)) @ Commit_data (Commit_block sha (snd p))"

lemma aps_append_commits_bytes:
  assumes "digest20 sha" and "bs_wf s" and "bs_room s 40"
  shows "bs_bytes (aps_append_commits sha s p) = bs_bytes s @ commit_pair_bytes sha p"
    and "bs_wf (aps_append_commits sha s p)" and "bs_w (aps_append_commits sha s p) = bs_w s + 40"
proof -
  have r: "bs_room s (length (Commit_data (Commit_block sha (fst p))))"
    using assms by (simp add: length_Commit_data bs_room_def)
  note a = bs_bytes_append [OF assms(2) r]
  have r2: "bs_room (bs_append s (Commit_data (Commit_block sha (fst p))))
      (length (Commit_data (Commit_block sha (snd p))))"
    using assms a(3) by (simp add: length_Commit_data bs_room_def)
  note b = bs_bytes_append [OF a(2) r2]
  show "bs_bytes (aps_append_commits sha s p) = bs_bytes s @ commit_pair_bytes sha p"
    "bs_wf (aps_append_commits sha s p)" "bs_w (aps_append_commits sha s p) = bs_w s + 40"
    using a b assms(1) by (simp_all add: aps_append_commits_def bs_append_commit_def length_Commit_data)
qed

definition aps_row :: "block list \<times> block list \<Rightarrow> bitvec \<Rightarrow> nat \<Rightarrow> nat \<Rightarrow> nat \<Rightarrow> (block \<times> block) list" where
  "aps_row s v j oti k = map (\<lambda>b. aps_share s (bv_get v b) (oti + b) j 0) [0..<k]"

lemma aps_pair_eq:
  assumes "digest20 sha" and "0 < w" and "w \<le> 128"
  shows "fst (aps_pair sha s w v j oti) = aps_row s v j oti w"
    and "bs_bytes (snd (aps_pair sha s w v j oti)) = concat (map (commit_pair_bytes sha) (aps_row s v j oti w))"
proof -
  let ?step = "\<lambda>b (ZiXorSum, oti, shares, buff).
                    let Zi = ZeroBlock; ZiXorSum = ZiXorSum XOR Zi;
                        p = aps_share s (bv_get v b) oti j Zi
                    in (ZiXorSum, oti + 1, shares @ [p], aps_append_commits sha buff p)"
  let ?s0 = "(ZeroBlock, oti, [], bs_new (HashSize * w * 2))"
  have run: "\<exists>buff. fold ?step [0..<k] ?s0 = (0, oti + k, aps_row s v j oti k, buff)
      \<and> bs_wf buff \<and> bs_w buff = 40 * k \<and> bs_bytes buff = concat (map (commit_pair_bytes sha) (aps_row s v j oti k))"
    if "k \<le> w" for k
    using that
  proof (induction k)
    case 0
    have "bs_wf (bs_new (HashSize * w * 2))" using assms by (intro bs_wf_new) (simp add: HashSize_def)
    then show ?case by (simp add: aps_row_def)
  next
    case (Suc k)
    then obtain buff where f: "fold ?step [0..<k] ?s0 = (0, oti + k, aps_row s v j oti k, buff)"
      and b: "bs_wf buff" "bs_w buff = 40 * k" "bs_bytes buff = concat (map (commit_pair_bytes sha) (aps_row s v j oti k))"
      by auto
    define p where "p = aps_share s (bv_get v k) (oti + k) j 0"
    have "bs_room buff 40" using Suc.prems assms b by (simp add: bs_room_def)
    note a = aps_append_commits_bytes [OF assms(1) b(1) this, of p]
    have row: "aps_row s v j oti (Suc k) = aps_row s v j oti k @ [p]" by (simp add: aps_row_def p_def)
    have "fold ?step [0..<Suc k] ?s0 = (0, oti + Suc k, aps_row s v j oti k @ [p], aps_append_commits sha buff p)"
      using f by (simp only: upt_Suc_append zero_le fold_append comp_apply fold_simps) (simp add: p_def Let_def)
    then show ?case using a b by (simp add: row)
  qed
  from run [of "w - 1"] obtain buff where f: "fold ?step [0..<w - 1] ?s0 = (0, oti + (w - 1), aps_row s v j oti (w - 1), buff)"
    and b: "bs_wf buff" "bs_w buff = 40 * (w - 1)"
      "bs_bytes buff = concat (map (commit_pair_bytes sha) (aps_row s v j oti (w - 1)))"
    by auto
  define p where "p = aps_share s (bv_get v (w - 1)) (oti + (w - 1)) j 0"
  have "bs_room buff 40" using assms b by (simp add: bs_room_def)
  note a = aps_append_commits_bytes [OF assms(1) b(1) this, of p]
  have "[0..<w] = [0..<w - 1] @ [w - 1]" using assms(2) by (metis Suc_diff_1 upt_Suc_append zero_le)
  then have row: "aps_row s v j oti w = aps_row s v j oti (w - 1) @ [p]" by (simp add: aps_row_def p_def)
  have "aps_pair sha s w v j oti = (aps_row s v j oti (w - 1) @ [p], aps_append_commits sha buff p)"
    unfolding aps_pair_def Let_def [of "fold _ _ _"] f prod.case by (simp add: p_def Let_def)
  then show "fst (aps_pair sha s w v j oti) = aps_row s v j oti w"
    "bs_bytes (snd (aps_pair sha s w v j oti)) = concat (map (commit_pair_bytes sha) (aps_row s v j oti w))"
    using a b by (simp_all add: row)
qed

lemma apr_commit_pairs_row:
  assumes "digest20 sha" and "length row = w"
  shows "apr_commit_pairs w (concat (map (commit_pair_bytes sha) row))
           = map (\<lambda>p. (Commit_block sha (fst p), Commit_block sha (snd p))) row"
    and "length (concat (map (commit_pair_bytes sha) row)) = w * HashSize * 2"
proof -
  let ?L = "concat (map (commit_pair_bytes sha) row)"
  have c: "take 40 (drop (b * 40) ?L) = commit_pair_bytes sha (row ! b)" if "b < w" for b
    using that assms by (intro chunk_map [of "commit_pair_bytes sha" 40 b row, simplified]) (simp_all add: length_Commit_data)
  have 1: "take 20 (drop (b * 40) ?L) = Commit_data (Commit_block sha (fst (row ! b)))" if "b < w" for b
  proof -
    have "take 20 (take 40 (drop (b * 40) ?L)) = take 20 (drop (b * 40) ?L)" by simp
    then show ?thesis using c [OF that] assms(1) by (simp add: length_Commit_data)
  qed
  have 2: "take 20 (drop (b * 40 + 20) ?L) = Commit_data (Commit_block sha (snd (row ! b)))" if "b < w" for b
  proof -
    have "take 20 (drop 20 (take 40 (drop (b * 40) ?L))) = take 20 (drop (b * 40 + 20) ?L)"
      by (simp add: drop_take add.commute)
    then show ?thesis using c [OF that] assms(1) by (simp add: length_Commit_data)
  qed
  have e: "b * 2 * 20 = b * 40" "(b * 2 + 1) * 20 = b * 40 + 20" for b :: nat by simp_all
  show "apr_commit_pairs w ?L = map (\<lambda>p. (Commit_block sha (fst p), Commit_block sha (snd p))) row"
    unfolding apr_commit_pairs_def HashSize_def e
    using 1 2 assms by (intro nth_equalityI) (simp_all add: Commit_data_inverse)
  show "length ?L = w * HashSize * 2"
    using assms by (induction row arbitrary: w) (auto simp: length_Commit_data HashSize_def)
qed

section \<open>Every order gives the same openings\<close>

text \<open>A freshly initialised sender for \<open>n\<close> inputs.\<close>

definition aps_fresh :: "nat \<Rightarrow> async_psi_sender \<Rightarrow> bool" where
  "aps_fresh n st0 \<longleftrightarrow> 0 < n \<and> n < 2 ^ 31 \<and> length (aps_my st0) = n \<and> aps_their st0 = replicate n bv_empty
     \<and> length (aps_shares st0) = n \<and> (\<forall>row\<in>set (aps_shares st0). length row = n)
     \<and> length (aps_open st0) = n \<and> aps_remaining st0 = 2 * n \<and> \<not> aps_committed st0"

text \<open>What the permutation vectors become once every input is committed and received.\<close>

definition aps_my_committed :: "async_psi_sender \<Rightarrow> block list \<Rightarrow> nat \<Rightarrow> bitvec" where
  "aps_my_committed st0 ys j = bv_xor_assign (aps_my st0 ! j) (psi_input (ys ! j) (aps_word st0))"

definition aps_their_received :: "async_psi_sender \<Rightarrow> u8 list list \<Rightarrow> nat \<Rightarrow> bitvec" where
  "aps_their_received st0 ms i = (bv_reset bv_empty (aps_word st0))\<lparr>bv_data :=
     blit (bv_data (bv_reset bv_empty (aps_word st0))) 0 (ms ! i)\<rparr>"

definition aps_final :: "async_psi_sender \<Rightarrow> block list \<Rightarrow> u8 list list \<Rightarrow> async_psi_sender" where
  "aps_final st0 ys ms =
     st0\<lparr>aps_my := map (aps_my_committed st0 ys) [0..<length ys],
         aps_their := map (aps_their_received st0 ms) [0..<length ys]\<rparr>"

definition aps_inv :: "block list \<Rightarrow> u8 list list \<Rightarrow> async_psi_sender \<Rightarrow> aps_run \<Rightarrow> bool" where
  "aps_inv ys ms st0 r \<longleftrightarrow> (let n = length ys; st = run_st r in
     aps_word st = aps_word st0 \<and> aps_shares st = aps_shares st0
     \<and> run_sent r \<subseteq> {..<n} \<and> run_recvd r \<subseteq> {..<n} \<and> run_done r \<subseteq> run_recvd r
     \<and> aps_remaining st + card (run_sent r) + card (run_recvd r) = 2 * n
     \<and> (aps_committed st \<longleftrightarrow> aps_remaining st = 0)
     \<and> (run_done r \<noteq> {} \<longrightarrow> aps_committed st)
     \<and> length (aps_my st) = n \<and> length (aps_their st) = n \<and> length (aps_open st) = n
     \<and> (\<forall>j<n. aps_my st ! j = (if j \<in> run_sent r then aps_my_committed st0 ys j else aps_my st0 ! j))
     \<and> (\<forall>i<n. aps_their st ! i = (if i \<in> run_recvd r then aps_their_received st0 ms i else bv_empty))
     \<and> (\<forall>i<n. aps_open st ! i = (if i \<in> run_done r
            then map (\<lambda>j. aps_open_shares (aps_final st0 ys ms) i j) [0..<n] else aps_open st0 ! i)))"

lemma aps_inv_counts:
  assumes "aps_inv ys ms st0 r" and "aps_committed (run_st r)"
  shows "run_sent r = {..<length ys}" and "run_recvd r = {..<length ys}"
proof -
  have s: "run_sent r \<subseteq> {..<length ys}" "run_recvd r \<subseteq> {..<length ys}"
    "card (run_sent r) + card (run_recvd r) = 2 * length ys"
    using assms by (auto simp: aps_inv_def Let_def)
  have le: "card (run_sent r) \<le> length ys" "card (run_recvd r) \<le> length ys"
    using card_mono [OF _ s(1)] card_mono [OF _ s(2)] by simp_all
  show "run_sent r = {..<length ys}" by (rule card_subset_eq) (use s le in auto)
  show "run_recvd r = {..<length ys}" by (rule card_subset_eq) (use s le in auto)
qed

text \<open>An operation not yet run is still counted, so the counter is positive and decrements by one.\<close>

lemma card_missing: "s \<subseteq> {..<n} \<Longrightarrow> i \<notin> s \<Longrightarrow> i < n \<Longrightarrow> card s < n"
  by (metis card_lessThan finite_lessThan lessThan_iff psubset_card_mono psubsetI)

lemma u32_dec_pos: "0 < k \<Longrightarrow> k < 2 ^ 32 \<Longrightarrow> u32_dec k = k - 1"
proof -
  assume k: "0 < k" "k < 2 ^ 32"
  then have "k + 2 ^ 32 - 1 = (k - 1) + 2 ^ 32" by simp
  then have "u32_dec k = (k - 1) mod 2 ^ 32" unfolding u32_dec_def by (simp only: mod_add_self2)
  then show ?thesis using k by simp
qed

lemma aps_dec_simps [simp]:
  "aps_word (aps_dec st) = aps_word st" "aps_my (aps_dec st) = aps_my st"
  "aps_their (aps_dec st) = aps_their st" "aps_shares (aps_dec st) = aps_shares st"
  "aps_open (aps_dec st) = aps_open st"
  by (simp_all add: aps_dec_def Let_def)

lemma aps_dec_counter:
  assumes "0 < aps_remaining st" and "aps_remaining st < 2 ^ 32" and "aps_committed st \<longleftrightarrow> aps_remaining st = 0"
  shows "aps_remaining (aps_dec st) = aps_remaining st - 1"
    and "aps_committed (aps_dec st) \<longleftrightarrow> aps_remaining (aps_dec st) = 0"
  using assms by (simp_all add: aps_dec_def Let_def u32_dec_pos)

lemma aps_inv_send:
  assumes inv: "aps_inv ys ms st0 r" and n: "length ys < 2 ^ 31" and i: "i < length ys" "i \<notin> run_sent r"
  shows "aps_inv ys ms st0 (r\<lparr>run_st := snd (AsyncPsiSender_AsyncCommitSend (run_st r) (ys ! i) i),
                              run_sent := insert i (run_sent r)\<rparr>)"
proof -
  let ?st = "run_st r"
  let ?st1 = "?st\<lparr>aps_my := (aps_my ?st)[i := aps_my_committed st0 ys i]\<rparr>"
  have s: "run_sent r \<subseteq> {..<length ys}" "finite (run_sent r)"
    using inv by (auto simp: aps_inv_def Let_def intro: finite_subset)
  have c: "card (run_sent r) < length ys" using card_missing [OF s(1) i(2,1)] .
  have R: "run_recvd r \<subseteq> {..<length ys}" using inv by (simp add: aps_inv_def Let_def)
  have "card (run_recvd r) \<le> length ys" using card_mono [OF _ R] by simp
  then have rem: "0 < aps_remaining ?st" "aps_remaining ?st < 2 ^ 32" "aps_committed ?st \<longleftrightarrow> aps_remaining ?st = 0"
    using inv c n by (simp_all add: aps_inv_def Let_def)
  have "aps_my ?st ! i = aps_my st0 ! i" "aps_word ?st = aps_word st0"
    using inv i by (simp_all add: aps_inv_def Let_def)
  then have "snd (AsyncPsiSender_AsyncCommitSend ?st (ys ! i) i) = aps_dec ?st1"
    by (simp add: AsyncPsiSender_AsyncCommitSend_def aps_my_committed_def Let_def)
  moreover have "run_done r = {}"
    using inv rem by (auto simp: aps_inv_def Let_def)
  moreover note aps_dec_counter [of ?st1]
  ultimately show ?thesis
    using inv i s rem by (simp add: aps_inv_def Let_def nth_list_update)
qed

lemma aps_inv_recv:
  assumes inv: "aps_inv ys ms st0 r" and n: "length ys < 2 ^ 31" and i: "i < length ys" "i \<notin> run_recvd r"
    and st': "AsyncPsiSender_AsyncCommitRecv (run_st r) (ms ! i) i = Inr st'"
  shows "aps_inv ys ms st0 (r\<lparr>run_st := st', run_recvd := insert i (run_recvd r)\<rparr>)"
proof -
  let ?st = "run_st r"
  let ?st1 = "?st\<lparr>aps_their := (aps_their ?st)[i := aps_their_received st0 ms i]\<rparr>"
  have s: "run_recvd r \<subseteq> {..<length ys}" "finite (run_recvd r)"
    using inv by (auto simp: aps_inv_def Let_def intro: finite_subset)
  have c: "card (run_recvd r) < length ys" using card_missing [OF s(1) i(2,1)] .
  have S: "run_sent r \<subseteq> {..<length ys}" using inv by (simp add: aps_inv_def Let_def)
  have "card (run_sent r) \<le> length ys" using card_mono [OF _ S] by simp
  then have rem: "0 < aps_remaining ?st" "aps_remaining ?st < 2 ^ 32" "aps_committed ?st \<longleftrightarrow> aps_remaining ?st = 0"
    using inv c n by (simp_all add: aps_inv_def Let_def)
  have "aps_their ?st ! i = bv_empty" "aps_word ?st = aps_word st0"
    using inv i by (simp_all add: aps_inv_def Let_def)
  then have "st' = aps_dec ?st1"
    using st' by (auto simp: AsyncPsiSender_AsyncCommitRecv_def aps_their_received_def bv_recv_def split: if_splits)
  moreover have "run_done r = {}"
    using inv rem by (auto simp: aps_inv_def Let_def)
  moreover note aps_dec_counter [of ?st1]
  ultimately show ?thesis
    using inv i s rem by (simp add: aps_inv_def Let_def nth_list_update)
qed

lemma aps_inv_resume:
  assumes inv: "aps_inv ys ms st0 r" and fresh: "aps_fresh (length ys) st0"
    and i: "i \<in> run_recvd r" "i \<notin> run_done r" and com: "aps_committed (run_st r)"
  shows "aps_inv ys ms st0 (r\<lparr>run_st := AsyncPsiSender_AsyncCommitRecv_resume (run_st r) i,
                              run_done := insert i (run_done r)\<rparr>)"
proof -
  let ?st = "run_st r" and ?n = "length ys"
  note all = aps_inv_counts [OF inv com]
  have lt: "i < ?n" using i all by simp
  have "aps_shares st0 ! 0 \<in> set (aps_shares st0)" using fresh by (simp add: aps_fresh_def)
  then have len: "length (aps_shares ?st ! 0) = ?n"
    using inv fresh by (simp add: aps_inv_def aps_fresh_def Let_def)
  have "aps_open_shares ?st i j = aps_open_shares (aps_final st0 ys ms) i j" if "j < ?n" for j
  proof -
    have "aps_my ?st ! j = aps_my_committed st0 ys j" "aps_their ?st ! i = aps_their_received st0 ms i"
      "aps_open ?st ! i = aps_open st0 ! i" "aps_word ?st = aps_word st0" "aps_shares ?st = aps_shares st0"
      using inv that lt i all by (simp_all add: aps_inv_def Let_def)
    then show ?thesis using that lt by (simp add: aps_open_shares_def aps_final_def)
  qed
  then have eq: "map (\<lambda>j. aps_open_shares ?st i j) [0..<?n]
      = map (\<lambda>j. aps_open_shares (aps_final st0 ys ms) i j) [0..<?n]" by (intro map_cong) simp_all
  have "AsyncPsiSender_AsyncCommitRecv_resume ?st i
      = ?st\<lparr>aps_open := (aps_open ?st)[i := map (\<lambda>j. aps_open_shares (aps_final st0 ys ms) i j) [0..<?n]]\<rparr>"
    unfolding AsyncPsiSender_AsyncCommitRecv_resume_def len Let_def eq ..
  then show ?thesis using inv i com by (auto simp: aps_inv_def Let_def nth_list_update)
qed

lemma aps_reach_inv:
  assumes "aps_reach ys ms st0 r" and "aps_fresh (length ys) st0"
  shows "aps_inv ys ms st0 r"
  using assms(1)
proof (induction rule: aps_reach.induct)
  case reach_init
  then show ?case using assms(2) by (auto simp: aps_inv_def aps_fresh_def Let_def)
next
  case (reach_step r r')
  have n: "length ys < 2 ^ 31" using assms(2) by (simp add: aps_fresh_def)
  from reach_step(2) show ?case
  proof cases
    case (step_send i)
    then show ?thesis using aps_inv_send [OF reach_step.IH n] by blast
  next
    case (step_recv i st')
    then show ?thesis using aps_inv_recv [OF reach_step.IH n] by blast
  next
    case (step_resume i)
    then show ?thesis using aps_inv_resume [OF reach_step.IH assms(2)] by blast
  qed
qed

lemma aps_open_final:
  assumes "aps_reach ys ms st0 r" and fresh: "aps_fresh (length ys) st0" and "i \<in> run_done r"
  shows "AsyncPsiSender_open (run_st r) i
           = map (\<lambda>j. bs_bytes (aps_open_shares (aps_final st0 ys ms) i j)) [0..<length ys]"
proof -
  have inv: "aps_inv ys ms st0 r" by (rule aps_reach_inv [OF assms(1) fresh])
  have i: "i < length ys" using inv assms(3) by (auto simp: aps_inv_def Let_def)
  have "aps_shares st0 ! 0 \<in> set (aps_shares st0)" using fresh by (simp add: aps_fresh_def)
  then have "length (aps_shares (run_st r) ! 0) = length ys"
    using inv fresh by (simp add: aps_inv_def aps_fresh_def Let_def)
  then show ?thesis
    using inv i assms(3) by (simp add: AsyncPsiSender_open_def aps_inv_def Let_def)
qed

text \<open>No deadlock: an unfinished execution always has an enabled operation.\<close>

lemma aps_progress:
  assumes "aps_reach ys ms st0 r" and fresh: "aps_fresh (length ys) st0"
    and ms: "\<And>i. i < length ys \<Longrightarrow> length (ms ! i) = (aps_word st0 + 7) div 8"
    and unfinished: "run_done r \<noteq> {..<length ys} \<or> run_sent r \<noteq> {..<length ys}"
  shows "\<exists>r'. aps_step ys ms r r'"
proof -
  have inv: "aps_inv ys ms st0 r" by (rule aps_reach_inv [OF assms(1) fresh])
  show ?thesis
  proof (cases "aps_committed (run_st r)")
    case True
    note all = aps_inv_counts [OF inv True]
    then have "run_done r \<noteq> {..<length ys}" using unfinished by simp
    moreover have "run_done r \<subseteq> {..<length ys}" using inv all by (auto simp: aps_inv_def Let_def)
    ultimately obtain i where "i < length ys" "i \<notin> run_done r" by auto
    then show ?thesis using all True by (blast intro: step_resume)
  next
    case False
    then have "card (run_sent r) + card (run_recvd r) < 2 * length ys"
      using inv by (simp add: aps_inv_def Let_def)
    then have "run_sent r \<noteq> {..<length ys} \<or> run_recvd r \<noteq> {..<length ys}"
      by (metis card_lessThan less_irrefl mult_2)
    moreover have "run_sent r \<subseteq> {..<length ys}" "run_recvd r \<subseteq> {..<length ys}"
      using inv by (simp_all add: aps_inv_def Let_def)
    ultimately consider "\<exists>i<length ys. i \<notin> run_sent r" | "\<exists>i<length ys. i \<notin> run_recvd r" by blast
    then show ?thesis
    proof cases
      case 1
      then show ?thesis using step_send by blast
    next
      case 2
      then obtain i where i: "i < length ys" "i \<notin> run_recvd r" by blast
      have "aps_word (run_st r) = aps_word st0" using inv by (simp add: aps_inv_def Let_def)
      then obtain st' where "AsyncPsiSender_AsyncCommitRecv (run_st r) (ms ! i) i = Inr st'"
        using ms [OF i(1)] by (simp add: AsyncPsiSender_AsyncCommitRecv_def bv_recv_def)
      from step_recv [OF i this] show ?thesis by blast
    qed
  qed
qed

text \<open>Every step uses up one of the \<open>3 n\<close> operations, so every execution ends, with all of them done.\<close>

definition aps_left :: "block list \<Rightarrow> aps_run \<Rightarrow> nat" where
  "aps_left ys r = 3 * length ys - (card (run_sent r) + card (run_recvd r) + card (run_done r))"

lemma aps_step_decreases:
  assumes "aps_inv ys ms st0 r" and "aps_step ys ms r r'"
  shows "aps_left ys r' < aps_left ys r"
proof -
  have s: "run_sent r \<subseteq> {..<length ys}" "run_recvd r \<subseteq> {..<length ys}" "run_done r \<subseteq> {..<length ys}"
    using assms(1) by (auto simp: aps_inv_def Let_def)
  note fin = s [THEN finite_subset, OF finite_lessThan]
  note le = s [THEN card_mono [OF finite_lessThan], simplified]
  from assms(2) show ?thesis
  proof cases
    case (step_send i)
    then show ?thesis using card_missing [OF s(1), of i] fin le by (simp add: aps_left_def)
  next
    case (step_recv i st')
    then show ?thesis using card_missing [OF s(2), of i] fin le by (simp add: aps_left_def)
  next
    case (step_resume i)
    then show ?thesis using card_missing [OF s(3), of i] s(2) fin le by (auto simp: aps_left_def)
  qed
qed

lemma aps_completes_from:
  assumes "aps_reach ys ms st0 r" and fresh: "aps_fresh (length ys) st0"
    and ms: "\<And>i. i < length ys \<Longrightarrow> length (ms ! i) = (aps_word st0 + 7) div 8"
  shows "\<exists>r'. aps_reach ys ms st0 r' \<and> run_done r' = {..<length ys} \<and> run_sent r' = {..<length ys}"
  using assms(1)
proof (induction "aps_left ys r" arbitrary: r rule: less_induct)
  case less
  show ?case
  proof (cases "run_done r \<noteq> {..<length ys} \<or> run_sent r \<noteq> {..<length ys}")
    case True
    obtain r' where r': "aps_step ys ms r r'" using aps_progress [OF less.prems fresh ms True] by blast
    from less.hyps [OF aps_step_decreases [OF aps_reach_inv [OF less.prems fresh] r'] reach_step [OF less.prems r']]
    show ?thesis .
  qed (use less.prems in blast)
qed

lemma aps_completes:
  assumes "aps_fresh (length ys) st0" and "\<And>i. i < length ys \<Longrightarrow> length (ms ! i) = (aps_word st0 + 7) div 8"
  shows "\<exists>r. aps_reach ys ms st0 r \<and> run_done r = {..<length ys} \<and> run_sent r = {..<length ys}"
  by (rule aps_completes_from [OF reach_init assms])

section \<open>What is sent and what is checked\<close>

lemma bv_recv_message:
  assumes "bv_wf u" and "bv_wf v" and "bv_bits u = w" and "bv_bits v = w"
  shows "bv_recv u (bv_message v) = Inr (u\<lparr>bv_data := blit (bv_data u) 0 (bv_message v)\<rparr>)"
    and "b < w \<Longrightarrow> bv_get (u\<lparr>bv_data := blit (bv_data u) 0 (bv_message v)\<rparr>) b = bv_get v b"
proof -
  have sz: "bv_sizeBytes u = bv_sizeBytes v" "bv_sizeBytes v \<le> length (bv_data u)" "bv_sizeBytes v \<le> length (bv_data v)"
    using assms by (auto simp: bv_sizeBytes_def bv_wf_def)
  then have l: "length (bv_message v) = bv_sizeBytes v" by (simp add: bv_message_def)
  then show "bv_recv u (bv_message v) = Inr (u\<lparr>bv_data := blit (bv_data u) 0 (bv_message v)\<rparr>)"
    using sz by (simp add: bv_recv_def)
  assume "b < w"
  then have b: "b div 8 < bv_sizeBytes v" using byte_idx_less [of b w] assms by (simp add: bv_sizeBytes_def)
  then show "bv_get (u\<lparr>bv_data := blit (bv_data u) 0 (bv_message v)\<rparr>) b = bv_get v b"
    using l sz by (simp add: bv_get_bit nth_blit) (simp add: bv_message_def)
qed

lemma bv_bits_psi_input [simp]: "bv_bits (psi_input x w) = w"
  by (simp add: psi_input_def)

lemma psi_input_get: "w \<le> 128 \<Longrightarrow> b < w \<Longrightarrow> bv_get (psi_input x w) b = bit x b"
  using bv_of_bytes_block(1) [of w x] nth_bv_list [of b "psi_input x w"] by (simp add: psi_input_def)

lemma xor_input_get:
  "bv_wf v \<Longrightarrow> bv_bits v = w \<Longrightarrow> w \<le> 128 \<Longrightarrow> b < w \<Longrightarrow>
   bv_get (bv_xor_assign v (psi_input x w)) b = (bv_get v b \<noteq> bit x b)"
  by (simp add: bv_get_xor_assign psi_input_get)

lemma aps_permutes_wf:
  "aps_permutes w n g = (vs, g') \<Longrightarrow> length vs = n \<and> (\<forall>v\<in>set vs. bv_wf v \<and> bv_bits v = w)"
proof (induction n arbitrary: g vs g')
  case (Suc n)
  obtain rnd g1 where r: "get_u8s g (bv_sizeBytes (bv_reset bv_empty w)) = (rnd, g1)" by fastforce
  obtain us g2 where u: "aps_permutes w n g1 = (us, g2)" by fastforce
  have "vs = bv_randomize (bv_reset bv_empty w) rnd # us" using Suc.prems r u by (simp add: Let_def)
  moreover have "bv_wf (bv_randomize (bv_reset bv_empty w) rnd)"
    using bv_wf_reset [of bv_empty w] by (simp add: bv_wf_def bv_randomize_def bv_sizeBytes_def)
  ultimately show ?case using Suc.IH [OF u] by simp
qed simp

lemma bs_append_open:
  assumes "bs_wf s" and "bs_w s + 16 * length xs < 2 ^ 62"
  shows "bs_bytes (fold (\<lambda>x buff. bs_append_block buff (f x)) xs s) = bs_bytes s @ concat (map (\<lambda>x. ByteArray (f x)) xs)"
  using bs_append_fold [of xs "\<lambda>x. ByteArray (f x)" 16 s] assms
  by (simp add: bs_append_block_def mult.commute)

text \<open>What \<open>init\<close> leaves, in terms of the permutations it drew.\<close>

lemma AsyncPsiSender_init_ok:
  assumes "digest20 sha" and "0 < n" and "n < 2 ^ 31" and "0 < w" and "w \<le> 128"
    and "AsyncPsiSender_init sha n w s oti g = Inr (st0, comms, oti', g')"
  shows "aps_fresh n st0" and "aps_word st0 = w"
    and "\<And>j. j < n \<Longrightarrow> bv_wf (aps_my st0 ! j) \<and> bv_bits (aps_my st0 ! j) = w"
    and "\<And>i j. i < n \<Longrightarrow> j < n \<Longrightarrow> aps_shares st0 ! i ! j = aps_row s (aps_my st0 ! j) j (oti + i * w) w"
    and "\<And>i j. i < n \<Longrightarrow> j < n \<Longrightarrow> aps_open st0 ! i ! j = bs_new (16 * w)"
    and "comms = concat (map (\<lambda>i. map (\<lambda>j. concat (map (commit_pair_bytes sha) (aps_shares st0 ! i ! j))) [0..<n]) [0..<n])"
proof -
  obtain vs g1 where p: "aps_permutes w n g = (vs, g1)" by fastforce
  note vs = aps_permutes_wf [OF p]
  let ?rows = "map (\<lambda>i. map (\<lambda>j. aps_pair sha s w (vs ! j) j (oti + i * w)) [0..<n]) [0..<n]"
  have st0: "st0 = \<lparr>aps_word = w, aps_my = vs, aps_their = replicate n bv_empty, aps_shares = map (map fst) ?rows,
      aps_open = replicate n (replicate n (bs_new (16 * w))), aps_remaining = n * 2 mod 2 ^ 32, aps_committed = False\<rparr>"
    and comms: "comms = concat (map (map (\<lambda>p. bs_bytes (snd p))) ?rows)"
    using assms(2,6) p by (auto simp: AsyncPsiSender_init_def Let_def)
  have rem: "n * 2 mod 2 ^ 32 = 2 * n" using assms(3) by simp
  show "aps_fresh n st0" unfolding aps_fresh_def st0 using assms(2,3) vs rem by auto
  show "aps_word st0 = w" by (simp add: st0)
  show "bv_wf (aps_my st0 ! j) \<and> bv_bits (aps_my st0 ! j) = w" if "j < n" for j
    using vs that by (simp add: st0)
  show sh: "aps_shares st0 ! i ! j = aps_row s (aps_my st0 ! j) j (oti + i * w) w" if "i < n" "j < n" for i j
    using that aps_pair_eq(1) [OF assms(1,4,5)] by (simp add: st0)
  show "aps_open st0 ! i ! j = bs_new (16 * w)" if "i < n" "j < n" for i j
    using that by (simp add: st0)
  have "map (map (\<lambda>p. bs_bytes (snd p))) ?rows
      = map (\<lambda>i. map (\<lambda>j. concat (map (commit_pair_bytes sha) (aps_shares st0 ! i ! j))) [0..<n]) [0..<n]"
    using sh aps_pair_eq(2) [OF assms(1,4,5)] by (simp add: st0 comp_def aps_pair_eq(1) [OF assms(1,4,5)])
  then show "comms = concat (map (\<lambda>i. map (\<lambda>j. concat (map (commit_pair_bytes sha) (aps_shares st0 ! i ! j))) [0..<n]) [0..<n])"
    by (simp only: comms)
qed

text \<open>The share of bit \<open>b\<close> of pair \<open>(i, j)\<close> that ends up in the opening: the pad selected by the
  received permutation and the bit of the sender's input.\<close>

definition psi_opened :: "block list \<times> block list \<Rightarrow> nat \<Rightarrow> (nat \<Rightarrow> bool) \<Rightarrow> nat \<Rightarrow> nat \<Rightarrow> block" where
  "psi_opened s oti sel_bit j b = PRF (OTExtSender_GetMessage s (oti + b) (sel_bit b)) j"

lemma aps_share_sel:
  "(if x then snd (aps_share s c oti j 0) else fst (aps_share s c oti j 0))
     = PRF (OTExtSender_GetMessage s oti (c \<noteq> x)) j"
  by (cases x) (simp_all add: aps_share_def)

lemma aps_open_shares_bytes:
  assumes "w \<le> 128" and "length ys = n" and "aps_word st0 = w" and "i < n" and "j < n"
    and "bv_wf (aps_my st0 ! j)" and "bv_bits (aps_my st0 ! j) = w"
    and "aps_shares st0 ! i ! j = aps_row s (aps_my st0 ! j) j oti w"
    and "aps_open st0 ! i ! j = bs_new (16 * w)"
    and "\<And>b. b < w \<Longrightarrow> bv_get (aps_their_received st0 ms i) b = p b"
  shows "bs_bytes (aps_open_shares (aps_final st0 ys ms) i j)
           = concat (map (\<lambda>b. ByteArray (psi_opened s oti (\<lambda>b. p b \<noteq> bit (ys ! j) b) j b)) [0..<w])"
proof -
  let ?f = "aps_final st0 ys ms"
  have sel: "(if bv_get (aps_their ?f ! i) b \<noteq> bv_get (aps_my ?f ! j) b
       then snd (aps_shares ?f ! i ! j ! b) else fst (aps_shares ?f ! i ! j ! b))
     = psi_opened s oti (\<lambda>b. p b \<noteq> bit (ys ! j) b) j b" if "b < w" for b
  proof -
    have m: "bv_get (aps_my ?f ! j) b = (bv_get (aps_my st0 ! j) b \<noteq> bit (ys ! j) b)"
      using assms that by (simp add: aps_final_def aps_my_committed_def xor_input_get)
    have t: "bv_get (aps_their ?f ! i) b = p b" using assms that by (simp add: aps_final_def)
    have r: "aps_shares ?f ! i ! j ! b = aps_share s (bv_get (aps_my st0 ! j) b) (oti + b) j 0"
      using assms that by (simp add: aps_final_def aps_row_def)
    have e: "(bv_get (aps_my st0 ! j) b \<noteq> (p b \<noteq> (bv_get (aps_my st0 ! j) b \<noteq> bit (ys ! j) b)))
        = (p b \<noteq> bit (ys ! j) b)" by auto
    show ?thesis unfolding m t r aps_share_sel e psi_opened_def ..
  qed
  have w: "aps_word ?f = w" "aps_open ?f ! i ! j = bs_new (16 * w)" using assms by (simp_all add: aps_final_def)
  have "bs_bytes (aps_open_shares ?f i j) = bs_bytes (bs_new (16 * w))
      @ concat (map (\<lambda>b. ByteArray (if bv_get (aps_their ?f ! i) b \<noteq> bv_get (aps_my ?f ! j) b
          then snd (aps_shares ?f ! i ! j ! b) else fst (aps_shares ?f ! i ! j ! b))) [0..<w])"
    unfolding aps_open_shares_def Let_def w
    by (rule bs_append_open) (use assms(1) in \<open>simp_all add: bs_wf_new\<close>)
  also have "\<dots> = concat (map (\<lambda>b. ByteArray (psi_opened s oti (\<lambda>b. p b \<noteq> bit (ys ! j) b) j b)) [0..<w])"
    using sel by (auto intro!: arg_cong [where f = concat] map_cong)
  finally show ?thesis .
qed

section \<open>The receiver\<close>

lemma apr_dec_simps [simp]:
  "apr_word (apr_dec st) = apr_word st" "apr_my (apr_dec st) = apr_my st" "apr_their (apr_dec st) = apr_their st"
  "apr_commits (apr_dec st) = apr_commits st" "apr_ot_idx (apr_dec st) = apr_ot_idx st"
  by (simp_all add: apr_dec_def Let_def)

lemma apr_send_all_ok:
  assumes "apr_send_all st k xs = (ms, st')" and "k + length xs \<le> length (apr_my st)"
  shows "apr_word st' = apr_word st \<and> apr_their st' = apr_their st \<and> apr_commits st' = apr_commits st
       \<and> apr_ot_idx st' = apr_ot_idx st \<and> length (apr_my st') = length (apr_my st) \<and> length ms = length xs
       \<and> (\<forall>i<k. apr_my st' ! i = apr_my st ! i)
       \<and> (\<forall>i<length xs. apr_my st' ! (k + i) = bv_xor_assign (apr_my st ! (k + i)) (psi_input (xs ! i) (apr_word st))
            \<and> ms ! i = bv_message (apr_my st' ! (k + i)))"
  using assms
proof (induction xs arbitrary: st k ms st')
  case (Cons x xs)
  define st1 where "st1 = snd (AsyncPsiReceiver_CommitSend st x k)"
  obtain ms1 where r: "apr_send_all st1 (k + 1) xs = (ms1, st')" and
    ms: "ms = fst (AsyncPsiReceiver_CommitSend st x k) # ms1"
    using Cons.prems(1) by (auto simp: st1_def split: prod.splits)
  have st1: "st1 = apr_dec (st\<lparr>apr_my := (apr_my st)[k := bv_xor_assign (apr_my st ! k) (psi_input x (apr_word st))]\<rparr>)"
    "fst (AsyncPsiReceiver_CommitSend st x k) = bv_message (bv_xor_assign (apr_my st ! k) (psi_input x (apr_word st)))"
    by (simp_all add: st1_def AsyncPsiReceiver_CommitSend_def Let_def)
  note IH = Cons.IH [OF r]
  have "\<forall>i<length (x # xs). apr_my st' ! (k + i)
        = bv_xor_assign (apr_my st ! (k + i)) (psi_input ((x # xs) ! i) (apr_word st))
      \<and> ms ! i = bv_message (apr_my st' ! (k + i))"
  proof (intro allI impI)
    fix i assume i: "i < length (x # xs)"
    show "apr_my st' ! (k + i) = bv_xor_assign (apr_my st ! (k + i)) (psi_input ((x # xs) ! i) (apr_word st))
      \<and> ms ! i = bv_message (apr_my st' ! (k + i))"
    proof (cases i)
      case 0
      then show ?thesis using IH Cons.prems(2) st1 ms by simp
    next
      case (Suc j)
      then show ?thesis using IH Cons.prems(2) st1 ms i by simp
    qed
  qed
  then show ?case using IH Cons.prems(2) st1 ms by simp
qed simp

lemma apr_recv_all_ok:
  assumes "k + length ms \<le> length (apr_their st)"
    and "\<And>i. i < length ms \<Longrightarrow> bv_wf (apr_their st ! (k + i)) \<and> bv_bits (apr_their st ! (k + i)) = w
           \<and> bv_wf (vs i) \<and> bv_bits (vs i) = w \<and> ms ! i = bv_message (vs i)"
  shows "\<exists>st'. apr_recv_all st k ms = Inr st' \<and> apr_word st' = apr_word st \<and> apr_my st' = apr_my st
       \<and> apr_commits st' = apr_commits st \<and> apr_ot_idx st' = apr_ot_idx st
       \<and> (\<forall>i<k. apr_their st' ! i = apr_their st ! i)
       \<and> (\<forall>i<length ms. \<forall>b<w. bv_get (apr_their st' ! (k + i)) b = bv_get (vs i) b)"
  using assms
proof (induction ms arbitrary: st k vs)
  case (Cons m ms)
  have 0: "bv_wf (apr_their st ! k)" "bv_bits (apr_their st ! k) = w" "bv_wf (vs 0)" "bv_bits (vs 0) = w"
    "m = bv_message (vs 0)"
    using Cons.prems(2) [of 0] by simp_all
  define v where "v = (apr_their st ! k)\<lparr>bv_data := blit (bv_data (apr_their st ! k)) 0 (bv_message (vs 0))\<rparr>"
  define st1 where "st1 = apr_dec (st\<lparr>apr_their := (apr_their st)[k := v]\<rparr>)"
  note rm = bv_recv_message [OF 0(1,3,2,4), folded v_def]
  have s: "AsyncPsiReceiver_CommitRecv st m k = Inr st1"
    using rm(1) 0(5) by (simp add: AsyncPsiReceiver_CommitRecv_def st1_def)
  have th: "apr_their st1 = (apr_their st)[k := v]" by (simp add: st1_def)
  have "\<exists>st'. apr_recv_all st1 (k + 1) ms = Inr st' \<and> apr_word st' = apr_word st1 \<and> apr_my st' = apr_my st1
       \<and> apr_commits st' = apr_commits st1 \<and> apr_ot_idx st' = apr_ot_idx st1
       \<and> (\<forall>i<k + 1. apr_their st' ! i = apr_their st1 ! i)
       \<and> (\<forall>i<length ms. \<forall>b<w. bv_get (apr_their st' ! (k + 1 + i)) b = bv_get (vs (Suc i)) b)"
  proof (rule Cons.IH)
    show "k + 1 + length ms \<le> length (apr_their st1)" using Cons.prems(1) th by simp
    fix i assume i: "i < length ms"
    show "bv_wf (apr_their st1 ! (k + 1 + i)) \<and> bv_bits (apr_their st1 ! (k + 1 + i)) = w
           \<and> bv_wf (vs (Suc i)) \<and> bv_bits (vs (Suc i)) = w \<and> ms ! i = bv_message (vs (Suc i))"
      using Cons.prems(2) [of "Suc i"] i th by simp
  qed
  then obtain st' where st': "apr_recv_all st1 (k + 1) ms = Inr st'" "apr_word st' = apr_word st" "apr_my st' = apr_my st"
       "apr_commits st' = apr_commits st" "apr_ot_idx st' = apr_ot_idx st"
       "\<forall>i<k + 1. apr_their st' ! i = apr_their st1 ! i"
       "\<forall>i<length ms. \<forall>b<w. bv_get (apr_their st' ! (k + 1 + i)) b = bv_get (vs (Suc i)) b"
    by (auto simp: st1_def)
  have "\<forall>i<length (m # ms). \<forall>b<w. bv_get (apr_their st' ! (k + i)) b = bv_get (vs i) b"
  proof (intro allI impI)
    fix i b assume i: "i < length (m # ms)" and b: "b < w"
    show "bv_get (apr_their st' ! (k + i)) b = bv_get (vs i) b"
    proof (cases i)
      case 0
      then show ?thesis using st'(6) th rm(2) [OF b] Cons.prems(1) by simp
    next
      case (Suc j)
      then show ?thesis using st'(7) i b by simp
    qed
  qed
  then show ?case using s st' th by (simp add: nth_list_update)
qed simp

lemma grid_nth:
  "i < m \<Longrightarrow> j < n \<Longrightarrow> concat (map (\<lambda>i. map (f i) [0..<n]) [0..<m]) ! (i * n + j) = f i j"
proof (induction m)
  case (Suc m)
  let ?g = "concat (map (\<lambda>i. map (f i) [0..<n]) [0..<m])"
  have l: "length ?g = m * n" by (simp add: length_concat comp_def sum_list_triv)
  show ?case
  proof (cases "i = m")
    case True
    then show ?thesis using Suc.prems l by (simp add: nth_append)
  next
    case False
    then have "i < m" using Suc.prems by simp
    moreover from this have "i * n + j < m * n"
      using Suc.prems mult_le_mono1 [of "Suc i" m n] by simp
    ultimately show ?thesis using Suc l by (simp add: nth_append)
  qed
qed simp

lemma grid_length: "length (concat (map (\<lambda>i. map (f i) [0..<n]) [0..<m])) = m * n"
  by (simp add: length_concat comp_def sum_list_triv)

lemma bv_copy_get:
  assumes "bv_wf src" and "off + w \<le> bv_bits src" and "w \<le> 128"
  shows "bv_wf (bv_copy bv_empty src off w)
    \<and> (\<forall>b<w. bv_get (bv_copy bv_empty src off w) b = bv_get src (off + b))"
proof -
  have f: "bv_fits w" using assms(3) by (simp add: bv_fits_def)
  note cp = bv_copy_list [OF bv_wf_empty assms(1,2) f]
  have "bv_get (bv_copy bv_empty src off w) b = bv_get src (off + b)" if "b < w" for b
  proof -
    have "bv_list (bv_copy bv_empty src off w) ! b = bv_list src ! (off + b)"
      using cp(1) assms(2) that by simp
    then show ?thesis using that assms(2) by simp
  qed
  then show ?thesis using cp(2) by blast
qed

lemma AsyncPsiReceiver_init_ok:
  assumes sha: "digest20 sha" and w: "w \<le> 128" and r: "bv_wf (snd r)" "oti + n * w \<le> bv_bits (snd r)"
    and rows: "\<And>i j. i < n \<Longrightarrow> j < n \<Longrightarrow> length (rows i j) = w"
    and comms: "comms = concat (map (\<lambda>i. map (\<lambda>j. concat (map (commit_pair_bytes sha) (rows i j))) [0..<n]) [0..<n])"
  shows "\<exists>rt oti'. AsyncPsiReceiver_init n w r oti comms = Inr (rt, oti') \<and> apr_word rt = w \<and> apr_ot_idx rt = oti
     \<and> length (apr_my rt) = n \<and> length (apr_their rt) = n \<and> length (apr_commits rt) = n
     \<and> (\<forall>i<n. bv_wf (apr_my rt ! i) \<and> bv_bits (apr_my rt ! i) = w
          \<and> (\<forall>b<w. bv_get (apr_my rt ! i) b = bv_get (snd r) (oti + i * w + b)))
     \<and> (\<forall>i<n. bv_wf (apr_their rt ! i) \<and> bv_bits (apr_their rt ! i) = w)
     \<and> (\<forall>i<n. length (apr_commits rt ! i) = n \<and> (\<forall>j<n. apr_commits rt ! i ! j
          = map (\<lambda>p. (Commit_block sha (fst p), Commit_block sha (snd p))) (rows i j)))"
proof -
  have c: "comms ! (i * n + j) = concat (map (commit_pair_bytes sha) (rows i j))" if "i < n" "j < n" for i j
    using grid_nth [OF that, of "\<lambda>i j. concat (map (commit_pair_bytes sha) (rows i j))"] comms by simp
  have "length (comms ! k) = w * HashSize * 2" if "k < n * n" for k
  proof -
    have "0 < n" using that by (cases n) simp_all
    then have "k div n < n" "k mod n < n" using that by (simp_all add: less_mult_imp_div_less)
    from apr_commit_pairs_row(2) [OF sha rows [OF this]] c [OF this] show ?thesis by simp
  qed
  then have ok: "list_all (\<lambda>k. length (comms ! k) = w * HashSize * 2) [0..<n * n]" by (simp add: list_all_iff)
  have my: "bv_wf (bv_copy bv_empty (snd r) (oti + i * w) w)
      \<and> (\<forall>b<w. bv_get (bv_copy bv_empty (snd r) (oti + i * w) w) b = bv_get (snd r) (oti + i * w + b))"
    if i: "i < n" for i
  proof -
    have "i * w + w \<le> n * w" using i mult_le_mono1 [of "Suc i" n w] by (simp add: add.commute)
    then have b: "oti + i * w + w \<le> bv_bits (snd r)" using r(2) by simp
    show ?thesis by (rule bv_copy_get [OF r(1) b w])
  qed
  have pairs: "apr_commit_pairs w (comms ! (i * n + j))
      = map (\<lambda>p. (Commit_block sha (fst p), Commit_block sha (snd p))) (rows i j)" if "i < n" "j < n" for i j
    using apr_commit_pairs_row(1) [OF sha rows [OF that]] c [OF that] by simp
  show ?thesis
    unfolding AsyncPsiReceiver_init_def Let_def using ok my pairs
    by (simp add: bv_wf_reset)
qed

lemma apr_shares_ok:
  assumes "\<And>b. b \<in> set bs \<Longrightarrow> block_of_bytes (drop (16 * b) buff) = f b"
    and "\<And>b. b \<in> set bs \<Longrightarrow> Commit_eq (Commit_block sha (f b))
          (if bv_get (apr_my st ! idx) b \<noteq> bv_get (apr_their st ! j) b then snd (apr_commits st ! idx ! j ! b)
           else fst (apr_commits st ! idx ! j ! b))"
  shows "apr_shares sha st r idx j buff bs (m, t)
    = Inr (xor_fold m (map (\<lambda>b. PRF (OTExtReceiver_GetMessage (fst r) (apr_ot_idx st + idx * apr_word st + b)) j) bs),
           xor_fold t (map f bs))"
  using assms by (induction bs arbitrary: m t) (simp_all add: Let_def)

lemma apr_open_all_ok:
  assumes "\<And>j. j \<in> set js \<Longrightarrow> length (msgs ! j) = 16 * apr_word st
      \<and> apr_shares sha st r idx j (msgs ! j) [0..<apr_word st] (ZeroBlock, ZeroBlock) = Inr (mine j, theirs j)"
  shows "apr_open_all sha st r idx msgs js ret = Inr (ret \<or> list_ex (\<lambda>j. mine j = theirs j) js)"
  using assms by (induction js arbitrary: ret) (simp_all add: Let_def)

lemma block_chunk: "b < length xs \<Longrightarrow> block_of_bytes (drop (16 * b) (concat (map ByteArray xs))) = xs ! b"
proof -
  assume "b < length xs"
  then have "take 16 (drop (b * 16) (concat (map ByteArray xs))) = ByteArray (xs ! b)"
    by (intro chunk_map) simp_all
  then have "block_of_bytes (drop (b * 16) (concat (map ByteArray xs))) = block_of_bytes (ByteArray (xs ! b))"
    by (simp add: block_of_bytes_def)
  then show ?thesis by (simp add: mult.commute)
qed

section \<open>Both parties\<close>

text \<open>The sum a pair of inputs is compared by, and the receiver's own sum.\<close>

definition psi_sum :: "block list \<times> block list \<Rightarrow> nat \<Rightarrow> nat \<Rightarrow> (nat \<Rightarrow> bool) \<Rightarrow> nat \<Rightarrow> block" where
  "psi_sum s oti w sel_bit j = xor_fold 0 (map (psi_opened s oti sel_bit j) [0..<w])"

lemma async_psi_open:
  assumes sha: "digest20 sha" and n: "0 < n" "n < 2 ^ 31" and w: "0 < w" "w \<le> 128"
    and len: "length xs = n" "length ys = n" and ot: "ot_agreed s r N" "oti + n * w \<le> N"
    and snd: "AsyncPsiSender_init sha n w s oti g = Inr (st0, comms, oti1, g1)"
    and rcv: "AsyncPsiReceiver_init n w r oti comms = Inr (rt0, oti2)"
    and sent: "apr_send_all rt0 0 xs = (ms, rt1)"
    and run: "aps_reach ys ms st0 run" "i \<in> run_done run"
  shows "bind_r (apr_recv_all rt1 0 (map (\<lambda>j. bv_message (bv_assign bv_empty (aps_my_committed st0 ys j))) [0..<n]))
           (\<lambda>rt. AsyncPsiReceiver_open sha rt r i (AsyncPsiSender_open (run_st run) i))
         = Inr (list_ex (\<lambda>j. psi_sum s (oti + i * w) w (\<lambda>b. bv_get (snd r) (oti + i * w + b)) j
                  = psi_sum s (oti + i * w) w
                      (\<lambda>b. (bv_get (snd r) (oti + i * w + b) \<noteq> bit (xs ! i) b) \<noteq> bit (ys ! j) b) j) [0..<n])"
proof -
  note S = AsyncPsiSender_init_ok [OF sha n w snd]
  note fresh = S(1) [folded len(2)]
  note ch = ot_agreed_choice [OF ot(1)]
  define c where "c k b = bv_get (snd r) (oti + k * w + b)" for k b
  have rowlen: "length (aps_shares st0 ! i ! j) = w" if "i < n" "j < n" for i j
    using S(4) [OF that] by (simp add: aps_row_def)
  obtain rt oti' where R0: "AsyncPsiReceiver_init n w r oti comms = Inr (rt, oti')"
    and R: "apr_word rt = w" "apr_ot_idx rt = oti" "length (apr_my rt) = n" "length (apr_their rt) = n"
      "length (apr_commits rt) = n"
      "\<forall>i<n. bv_wf (apr_my rt ! i) \<and> bv_bits (apr_my rt ! i) = w \<and> (\<forall>b<w. bv_get (apr_my rt ! i) b = c i b)"
      "\<forall>i<n. bv_wf (apr_their rt ! i) \<and> bv_bits (apr_their rt ! i) = w"
      "\<forall>i<n. length (apr_commits rt ! i) = n \<and> (\<forall>j<n. apr_commits rt ! i ! j
          = map (\<lambda>p. (Commit_block sha (fst p), Commit_block sha (snd p))) (aps_shares st0 ! i ! j))"
    using AsyncPsiReceiver_init_ok [OF sha w(2) _ _ rowlen S(6)] ch ot(2) unfolding c_def by blast
  have rt: "rt = rt0" using R0 rcv by simp
  have "0 + length xs \<le> length (apr_my rt0)" using R len rt by simp
  note Q = apr_send_all_ok [OF sent this]
  have my1: "bv_wf (apr_my rt1 ! i) \<and> bv_bits (apr_my rt1 ! i) = w \<and> ms ! i = bv_message (apr_my rt1 ! i)
      \<and> (\<forall>b<w. bv_get (apr_my rt1 ! i) b = (c i b \<noteq> bit (xs ! i) b))" if "i < n" for i
    using Q R(1,6) that len rt w(2) by (simp add: xor_input_get)
  have i: "i < n"
    using aps_reach_inv [OF run(1) fresh] run(2) len by (auto simp: aps_inv_def Let_def)
  \<comment> \<open>what the sender received from the receiver\<close>
  have their: "bv_get (aps_their_received st0 ms i) b = (c i b \<noteq> bit (xs ! i) b)" if "b < w" for b
  proof -
    note m = my1 [OF i]
    have "bv_get (aps_their_received st0 ms i) b = bv_get (apr_my rt1 ! i) b"
      unfolding aps_their_received_def S(2) using bv_recv_message(2) [OF bv_wf_reset, of "apr_my rt1 ! i" bv_empty w w b]
        m that by simp
    then show ?thesis using m that by simp
  qed
  define opened where "opened j b = psi_opened s (oti + i * w) (\<lambda>b. (c i b \<noteq> bit (xs ! i) b) \<noteq> bit (ys ! j) b) j b" for j b
  have opens: "AsyncPsiSender_open (run_st run) i
      = map (\<lambda>j. concat (map ByteArray (map (opened j) [0..<w]))) [0..<n]"
  proof -
    have "bs_bytes (aps_open_shares (aps_final st0 ys ms) i j) = concat (map ByteArray (map (opened j) [0..<w]))"
      if "j < n" for j
      using aps_open_shares_bytes [OF w(2) len(2) S(2) i that _ _ S(4) [OF i that] S(5) [OF i that] their]
        S(3) [OF that] by (simp add: opened_def comp_def)
    then show ?thesis using aps_open_final [OF run(1) fresh run(2)] len by simp
  qed
  \<comment> \<open>what the receiver received from the sender\<close>
  let ?ss = "map (\<lambda>j. bv_message (bv_assign bv_empty (aps_my_committed st0 ys j))) [0..<n]"
  let ?v = "\<lambda>j. bv_assign bv_empty (aps_my_committed st0 ys j)"
  have v: "bv_wf (?v j) \<and> bv_bits (?v j) = w
      \<and> (\<forall>b<w. bv_get (?v j) b = (bv_get (aps_my st0 ! j) b \<noteq> bit (ys ! j) b))" if "j < n" for j
    using S(3) [OF that] w(2) by (simp add: bv_wf_assign bv_get_assign aps_my_committed_def xor_input_get S(2))
  have "\<exists>rt2. apr_recv_all rt1 0 ?ss = Inr rt2 \<and> apr_word rt2 = apr_word rt1 \<and> apr_my rt2 = apr_my rt1
       \<and> apr_commits rt2 = apr_commits rt1 \<and> apr_ot_idx rt2 = apr_ot_idx rt1
       \<and> (\<forall>i<0. apr_their rt2 ! i = apr_their rt1 ! i)
       \<and> (\<forall>i<length ?ss. \<forall>b<w. bv_get (apr_their rt2 ! (0 + i)) b = bv_get (?v i) b)"
    by (rule apr_recv_all_ok) (use Q R v rt len in auto)
  then obtain rt2 where rt2: "apr_recv_all rt1 0 ?ss = Inr rt2" "apr_word rt2 = w" "apr_my rt2 = apr_my rt1"
      "apr_commits rt2 = apr_commits rt0" "apr_ot_idx rt2 = oti"
      "\<And>j b. j < n \<Longrightarrow> b < w \<Longrightarrow> bv_get (apr_their rt2 ! j) b = (bv_get (aps_my st0 ! j) b \<noteq> bit (ys ! j) b)"
    using Q R v rt by auto
  have match: "Commit_eq (Commit_block sha (opened j b))
          (if bv_get (apr_my rt2 ! i) b \<noteq> bv_get (apr_their rt2 ! j) b then snd (apr_commits rt2 ! i ! j ! b)
           else fst (apr_commits rt2 ! i ! j ! b))" if j: "j < n" and b: "b < w" for j b
  proof -
    have sh: "aps_shares st0 ! i ! j ! b = aps_share s (bv_get (aps_my st0 ! j) b) (oti + i * w + b) j 0"
      using S(4) [OF i j] b by (simp add: aps_row_def)
    have cm: "apr_commits rt2 ! i ! j ! b = (Commit_block sha (fst (aps_shares st0 ! i ! j ! b)),
        Commit_block sha (snd (aps_shares st0 ! i ! j ! b)))"
      using R(8) rt2(4) i j b rowlen [OF i j] rt by simp
    have bits: "bv_get (apr_my rt2 ! i) b = (c i b \<noteq> bit (xs ! i) b)"
      "bv_get (apr_their rt2 ! j) b = (bv_get (aps_my st0 ! j) b \<noteq> bit (ys ! j) b)"
      using my1 [OF i] rt2 j b by simp_all
    have "(if bv_get (apr_my rt2 ! i) b \<noteq> bv_get (apr_their rt2 ! j) b then snd (apr_commits rt2 ! i ! j ! b)
           else fst (apr_commits rt2 ! i ! j ! b)) = Commit_block sha (opened j b)"
      unfolding cm bits sh opened_def psi_opened_def
      by (cases "bv_get (aps_my st0 ! j) b"; cases "bit (ys ! j) b"; cases "c i b \<noteq> bit (xs ! i) b")
        (simp_all add: aps_share_def)
    then show ?thesis by simp
  qed
  have mine: "map (\<lambda>b. PRF (OTExtReceiver_GetMessage (fst r) (oti + i * w + b)) j) [0..<w]
      = map (psi_opened s (oti + i * w) (c i) j) [0..<w]" for j
  proof -
    have "OTExtReceiver_GetMessage (fst r) (oti + i * w + b) = OTExtSender_GetMessage s (oti + i * w + b) (c i b)"
      if "b < w" for b
    proof -
      have "i * w + b < n * w" using i that mult_le_mono1 [of "Suc i" n w] by simp
      then show ?thesis using ote.pad_received [OF ot(1), of "oti + i * w + b"] ot(2) by (simp add: c_def)
    qed
    then show ?thesis by (simp add: psi_opened_def)
  qed
  have comm0: "length (apr_commits rt2 ! 0) = n" using R(5,8) rt2(4) n rt by simp
  have "AsyncPsiReceiver_open sha rt2 r i (AsyncPsiSender_open (run_st run) i)
      = Inr (False \<or> list_ex (\<lambda>j. xor_fold 0 (map (psi_opened s (oti + i * w) (c i) j) [0..<w])
                 = xor_fold 0 (map (opened j) [0..<w])) [0..<n])"
    unfolding AsyncPsiReceiver_open_def comm0
  proof (rule apr_open_all_ok)
    fix j assume "j \<in> set [0..<n]"
    then have j: "j < n" by simp
    let ?buf = "concat (map ByteArray (map (opened j) [0..<w]))"
    have b: "AsyncPsiSender_open (run_st run) i ! j = ?buf" using opens j by simp
    have l: "length ?buf = 16 * w" by (simp add: length_concat comp_def sum_list_triv)
    have ch: "block_of_bytes (drop (16 * b) ?buf) = opened j b" if "b < w" for b
      using block_chunk [of b "map (opened j) [0..<w]"] that by simp
    have "apr_shares sha rt2 r i j ?buf [0..<w] (ZeroBlock, ZeroBlock)
        = Inr (xor_fold ZeroBlock (map (\<lambda>b. PRF (OTExtReceiver_GetMessage (fst r) (apr_ot_idx rt2 + i * apr_word rt2 + b)) j) [0..<w]),
               xor_fold ZeroBlock (map (opened j) [0..<w]))"
      by (rule apr_shares_ok) (use ch match j in auto)
    then show "length (AsyncPsiSender_open (run_st run) i ! j) = 16 * apr_word rt2
      \<and> apr_shares sha rt2 r i j (AsyncPsiSender_open (run_st run) i ! j) [0..<apr_word rt2] (ZeroBlock, ZeroBlock)
        = Inr (xor_fold 0 (map (psi_opened s (oti + i * w) (c i) j) [0..<w]), xor_fold 0 (map (opened j) [0..<w]))"
      unfolding b l rt2(2,5) mine by simp
  qed
  moreover have "map (opened j) [0..<w] = map (psi_opened s (oti + i * w)
      (\<lambda>b. (bv_get (snd r) (oti + i * w + b) \<noteq> bit (xs ! i) b) \<noteq> bit (ys ! j) b) j) [0..<w]" for j
    by (rule map_cong) (simp_all add: opened_def c_def)
  moreover have "c i = (\<lambda>b. bv_get (snd r) (oti + i * w + b))" by (simp add: c_def fun_eq_iff)
  ultimately show ?thesis
    unfolding rt2(1) psi_sum_def by (simp only: bind_r.simps simp_thms)
qed

text \<open>Such executions exist for every choice of inputs.\<close>

lemma async_psi_exists:
  assumes sha: "digest20 sha" and n: "0 < n" "n < 2 ^ 31" and w: "0 < w" "w \<le> 128"
    and len: "length xs = n" "length ys = n" and ot: "ot_agreed s r N" "oti + n * w \<le> N"
  shows "\<exists>st0 comms oti1 g1 rt0 oti2 ms rt1 run. AsyncPsiSender_init sha n w s oti g = Inr (st0, comms, oti1, g1)
    \<and> AsyncPsiReceiver_init n w r oti comms = Inr (rt0, oti2) \<and> apr_send_all rt0 0 xs = (ms, rt1)
    \<and> aps_reach ys ms st0 run \<and> run_done run = {..<n}"
proof -
  obtain st0 comms oti1 g1 where snd: "AsyncPsiSender_init sha n w s oti g = Inr (st0, comms, oti1, g1)"
    using n by (cases "aps_permutes w n g") (simp add: AsyncPsiSender_init_def Let_def)
  note S = AsyncPsiSender_init_ok [OF sha n w snd]
  have rowlen: "length (aps_shares st0 ! i ! j) = w" if "i < n" "j < n" for i j
    using S(4) [OF that] by (simp add: aps_row_def)
  note ch = ot_agreed_choice [OF ot(1)]
  have b: "oti + n * w \<le> bv_bits (snd r)" using ch ot(2) by simp
  obtain rt0 oti2 where rcv: "AsyncPsiReceiver_init n w r oti comms = Inr (rt0, oti2)"
    and R: "length (apr_my rt0) = n" "\<forall>i<n. bv_wf (apr_my rt0 ! i) \<and> bv_bits (apr_my rt0 ! i) = w"
    using AsyncPsiReceiver_init_ok [OF sha w(2) _ b rowlen S(6)] ch by blast
  obtain ms rt1 where sent: "apr_send_all rt0 0 xs = (ms, rt1)" by fastforce
  have "0 + length xs \<le> length (apr_my rt0)" using R len by simp
  note Q = apr_send_all_ok [OF sent this]
  have m: "length (ms ! i) = (aps_word st0 + 7) div 8" if "i < length ys" for i
  proof -
    have "bv_wf (apr_my rt1 ! i)" "bv_bits (apr_my rt1 ! i) = w" "ms ! i = bv_message (apr_my rt1 ! i)"
      using Q R that len by simp_all
    then show ?thesis by (simp add: bv_message_def bv_wf_def bv_sizeBytes_def S(2))
  qed
  from aps_completes [OF S(1) [folded len(2)] m] obtain run where "aps_reach ys ms st0 run" "run_done run = {..<n}"
    using len by auto
  with snd rcv sent show ?thesis by blast
qed

section \<open>Properties\<close>



text \<open>The openings do not depend on the order of the operations: in every execution of a fresh
  sender, once the index \<open>i\<close> is finished the buffers opened for it are the same, because the second
  half of \<open>AsyncCommitRecv\<close> runs only after all inputs are committed and all permutations received.\<close>

theorem async_psi_schedule_independent:
  assumes "aps_fresh (length ys) st0" and "aps_reach ys ms st0 r1" and "aps_reach ys ms st0 r2"
    and "i \<in> run_done r1" and "i \<in> run_done r2"
  shows "AsyncPsiSender_open (run_st r1) i = AsyncPsiSender_open (run_st r2) i
         \<and> run_sent r1 = {..<length ys} \<and> run_recvd r1 = {..<length ys}"
proof -
  have inv: "aps_inv ys ms st0 r1" using assms by (intro aps_reach_inv)
  then have "aps_committed (run_st r1)" using assms(4) by (auto simp: aps_inv_def Let_def)
  then show ?thesis
    using aps_inv_counts [OF inv] aps_open_final [OF assms(2,1,4)] aps_open_final [OF assms(3,1,5)] by simp
qed

definition aps_sample :: async_psi_sender where
  "aps_sample = \<lparr>aps_word = 8, aps_my = replicate 2 (bv_reset bv_empty 8),
     aps_their = replicate 2 bv_empty,
     aps_shares = replicate 2 (replicate 2 (replicate 8 (1, 2))),
     aps_open = replicate 2 (replicate 2 (bs_new 128)), aps_remaining = 4, aps_committed = False\<rparr>"

lemma aps_sample_fresh: "aps_fresh (length [3, 4 :: block]) aps_sample"
proof -
  have l: "length [3, 4 :: block] = 2" by simp
  show ?thesis unfolding l aps_fresh_def aps_sample_def by simp
qed

theorem async_psi_schedule_independent_witness:
  "\<exists>r1. aps_reach [3, 4] [[1], [2]] aps_sample r1 \<and> 0 \<in> run_done r1
    \<and> AsyncPsiSender_open (run_st r1) 0 = AsyncPsiSender_open (run_st r1) 0
    \<and> run_sent r1 = {..<length [3, 4 :: block]} \<and> run_recvd r1 = {..<length [3, 4 :: block]}"
proof -
  note f = aps_sample_fresh
  have m: "length ([[1], [2]] ! i :: u8 list) = (aps_word aps_sample + 7) div 8" if "i < length [3, 4 :: block]" for i
    using that by (cases i) (simp_all add: aps_sample_def)
  obtain r where r: "aps_reach [3, 4] [[1], [2]] aps_sample r" "run_done r = {..<length [3, 4 :: block]}"
    using aps_completes [OF f m] by blast
  have d: "0 \<in> run_done r" using r(2) by simp
  from async_psi_schedule_independent [OF f r(1) r(1) d d] r(1) d show ?thesis by blast
qed

text \<open>C19. The sender's threads cannot deadlock on the future of the input commitments and always
  finish: from every reachable state every step lowers the number of operations left, and as long as
  an operation is left some step is enabled, so the execution runs to a state where all are done.\<close>

theorem async_psi_completes:
  assumes "aps_fresh (length ys) st0" and "\<And>i. i < length ys \<Longrightarrow> length (ms ! i) = (aps_word st0 + 7) div 8"
    and "aps_reach ys ms st0 r"
  shows "(\<forall>r'. aps_step ys ms r r' \<longrightarrow> aps_left ys r' < aps_left ys r)
     \<and> (run_done r = {..<length ys} \<and> run_sent r = {..<length ys} \<or> (\<exists>r'. aps_step ys ms r r'))
     \<and> (\<exists>r'. aps_reach ys ms st0 r' \<and> run_done r' = {..<length ys} \<and> run_sent r' = {..<length ys})"
  using aps_step_decreases [OF aps_reach_inv [OF assms(3,1)]] aps_progress [OF assms(3,1,2)]
    aps_completes_from [OF assms(3,1,2)] by blast

theorem async_psi_completes_witness:
  "(\<exists>r'. aps_step [3, 4] [[1], [2]] \<lparr>run_st = aps_sample, run_sent = {}, run_recvd = {}, run_done = {}\<rparr> r')
   \<and> (\<exists>r'. aps_reach [3, 4] [[1], [2]] aps_sample r' \<and> run_done r' = {..<length [3, 4 :: block]}
        \<and> run_sent r' = {..<length [3, 4 :: block]})"
proof -
  note f = aps_sample_fresh
  have m: "length ([[1], [2]] ! i :: u8 list) = (aps_word aps_sample + 7) div 8" if "i < length [3, 4 :: block]" for i
    using that by (cases i) (simp_all add: aps_sample_def)
  have "0 \<in> {..<length [3, 4 :: block]}" by simp
  then have "{} \<noteq> {..<length [3, 4 :: block]}" by blast
  then show ?thesis
    using async_psi_completes [OF f m reach_init] by simp
qed

end
