(* ===== verification/BDX_PsiSync.thy ===== *)
theory BDX_PsiSync
  imports BDX_Psi
begin

text \<open>
  The private set intersection of the default build, \<open>PSI/PSISender.cpp\<close> and
  \<open>PSI/PSIReceiver.cpp\<close>: one mask per input, hashed with the index of the other party's input. The
  operations that wait on a future (\<open>CommitSend\<close> of the sender, both \<open>open\<close>s) are modelled from the
  point where it is set. The timers are left out.
\<close>

section \<open>The sender\<close>

record psi_sender =
  pss_word :: nat
  pss_their :: "bitvec list"
  pss_vals :: "block list list"
  pss_ot_idx :: nat
  pss_remaining :: nat
  pss_remaining_vals :: nat

definition Psi_PsiOTCount :: "nat \<Rightarrow> nat \<Rightarrow> nat" where
  "Psi_PsiOTCount inputSize wordSize = inputSize * wordSize mod 2 ^ 64"

definition PsiSender_init :: "nat \<Rightarrow> nat \<Rightarrow> nat \<Rightarrow> psi_sender \<times> nat" where
  "PsiSender_init inputSize wordSize otIdx =
     (\<lparr>pss_word = wordSize, pss_their = replicate inputSize bv_empty,
       pss_vals = replicate inputSize (replicate inputSize 0), pss_ot_idx = otIdx,
       pss_remaining = inputSize mod 2 ^ 32, pss_remaining_vals = inputSize mod 2 ^ 32\<rparr>,
      otIdx + wordSize * inputSize)"

definition PsiSender_CommitRecv :: "psi_sender \<Rightarrow> u8 list \<Rightarrow> nat \<Rightarrow> psi_sender result" where
  "PsiSender_CommitRecv st msg idx =
     bind_r (bv_recv (bv_reset (pss_their st ! idx) (pss_word st)) msg)
       (\<lambda>v. Inr (st\<lparr>pss_their := (pss_their st)[idx := v], pss_remaining := u32_dec (pss_remaining st)\<rparr>))"

text \<open>The mask of one of the receiver's sets; \<open>otIdx\<close> runs on from set to set.\<close>

definition pss_mask :: "block list \<times> block list \<Rightarrow> bitvec \<Rightarrow> bitvec \<Rightarrow> nat \<Rightarrow> nat \<Rightarrow> block \<times> nat" where
  "pss_mask otSend input theirs wordSize otIdx =
     fold (\<lambda>b (mask, otIdx).
             (mask XOR OTExtSender_GetMessage otSend otIdx (bv_get input b \<noteq> bv_get theirs b), otIdx + 1))
       [0..<wordSize] (ZeroBlock, otIdx)"

definition PsiSender_CommitSend ::
  "(u8 list \<Rightarrow> u8 list) \<Rightarrow> block list \<times> block list \<Rightarrow> psi_sender \<Rightarrow> block \<Rightarrow> nat \<Rightarrow> u8 list \<times> psi_sender" where
  "PsiSender_CommitSend sha otSend st inputBlk idx =
     (let input = psi_input inputBlk (pss_word st);
          myInputSize = length (pss_their st);
          (vals, otIdx, buff) =
            fold (\<lambda>j (vals, otIdx, buff).
                    let (mask, otIdx) = pss_mask otSend input (pss_their st ! j) (pss_word st) otIdx;
                        val = PRF mask idx
                    in (vals[j := (vals ! j)[idx := val]], otIdx,
                        bs_append buff (Commit_data (Commit_block sha val))))
              [0..<myInputSize] (pss_vals st, pss_ot_idx st, bs_new (HashSize * myInputSize))
      in (bs_bytes buff,
          st\<lparr>pss_vals := vals, pss_remaining_vals := u32_dec (pss_remaining_vals st)\<rparr>))"

definition PsiSender_open :: "psi_sender \<Rightarrow> nat \<Rightarrow> u8 list" where
  "PsiSender_open st idx = concat (map ByteArray (take (length (pss_vals st ! 0)) (pss_vals st ! idx)))"

section \<open>The receiver\<close>

record psi_receiver =
  psr_word :: nat
  psr_my :: "bitvec list"
  psr_vals :: "block list list"
  psr_commits :: "commit list list"
  psr_ot_idx :: nat
  psr_remaining :: nat

definition psr_mask :: "block list \<Rightarrow> nat \<Rightarrow> nat \<Rightarrow> block \<times> nat" where
  "psr_mask msgs wordSize otIdx =
     fold (\<lambda>b (mask, otIdx). (mask XOR OTExtReceiver_GetMessage msgs otIdx, otIdx + 1))
       [0..<wordSize] (ZeroBlock, otIdx)"

definition PsiReceiver_init :: "nat \<Rightarrow> nat \<Rightarrow> block list \<times> bitvec \<Rightarrow> nat \<Rightarrow> psi_receiver \<times> nat" where
  "PsiReceiver_init inputSize wordSize otRecv otStartIdx =
     (let (my, vals, otIdx) =
            fold (\<lambda>i (my, vals, otIdx).
                    let p = bv_copy bv_empty (snd otRecv) otIdx wordSize;
                        (mask, otIdx) = psr_mask (fst otRecv) wordSize otIdx
                    in (my @ [p], vals @ [map (PRF mask) [0..<inputSize]], otIdx))
              [0..<inputSize] ([], [], otStartIdx)
      in (\<lparr>psr_word = wordSize, psr_my = my, psr_vals = vals,
           psr_commits = replicate inputSize (replicate inputSize (replicate 5 0)),
           psr_ot_idx = otStartIdx, psr_remaining = inputSize mod 2 ^ 32\<rparr>,
          otStartIdx + wordSize * inputSize))"

text \<open>With a word size of 0 the message has no bytes. (Those of the sender have an entry for each set, and
  \<open>idx\<close> is one of them.)\<close>

definition PsiReceiver_CommitSend :: "psi_receiver \<Rightarrow> block \<Rightarrow> nat \<Rightarrow> (u8 list \<times> psi_receiver) result" where
  "PsiReceiver_CommitSend st inputBlk idx =
     (let input = psi_input inputBlk (psr_word st);
          v = bv_xor_assign (psr_my st ! idx) input
      in bind_r (send_msgs [bv_message v]) (\<lambda>_. Inr (bv_message v, st\<lparr>psr_my := (psr_my st)[idx := v]\<rparr>)))"

definition PsiReceiver_CommitRecv :: "psi_receiver \<Rightarrow> u8 list \<Rightarrow> nat \<Rightarrow> psi_receiver result" where
  "PsiReceiver_CommitRecv st msg idx =
     (let theirInputSize = length (psr_commits st ! 0)
      in if length msg \<noteq> theirInputSize * HashSize then Inl BadReceiveBufferSize
         else Inr (st\<lparr>psr_commits := (psr_commits st)
                        [idx := map (\<lambda>j. Commit_of_data (take HashSize (drop (j * HashSize) msg))) [0..<theirInputSize]],
                      psr_remaining := u32_dec (psr_remaining st)\<rparr>))"

text \<open>The loop of \<open>open\<close> checks the commitments up to the first match.\<close>

fun psr_open_loop :: "(u8 list \<Rightarrow> u8 list) \<Rightarrow> psi_receiver \<Rightarrow> nat \<Rightarrow> u8 list \<Rightarrow> nat list \<Rightarrow> bool result" where
  "psr_open_loop sha st idx buff [] = Inr False"
| "psr_open_loop sha st idx buff (j # js) =
     (let theirPse = block_of_bytes (drop (16 * j) buff)
      in if \<not> Commit_eq (Commit_block sha theirPse) (psr_commits st ! j ! idx) then Inl InvalidCommitment
         else if psr_vals st ! idx ! j = theirPse then Inr True
         else psr_open_loop sha st idx buff js)"

definition PsiReceiver_open :: "(u8 list \<Rightarrow> u8 list) \<Rightarrow> psi_receiver \<Rightarrow> nat \<Rightarrow> u8 list \<Rightarrow> bool result" where
  "PsiReceiver_open sha st idx buff = psr_open_loop sha st idx buff [0..<length (psr_commits st)]"

section \<open>An execution\<close>

text \<open>The receiver commits, the sender receives (index order); the sender commits in the order \<open>js\<close>
  of its threads, and the receiver stores each buffer under its index.\<close>

fun psr_commit_all :: "psi_receiver \<Rightarrow> psi_sender \<Rightarrow> nat \<Rightarrow> block list \<Rightarrow> (psi_receiver \<times> psi_sender) result" where
  "psr_commit_all rt st i [] = Inr (rt, st)"
| "psr_commit_all rt st i (x # xs) =
     bind_r (PsiReceiver_CommitSend rt x i) (\<lambda>(m, rt).
     bind_r (PsiSender_CommitRecv st m i) (\<lambda>st. psr_commit_all rt st (i + 1) xs))"

fun pss_commit_all ::
  "(u8 list \<Rightarrow> u8 list) \<Rightarrow> block list \<times> block list \<Rightarrow> block list \<Rightarrow> psi_receiver \<Rightarrow> psi_sender \<Rightarrow> nat list
   \<Rightarrow> (psi_receiver \<times> psi_sender) result" where
  "pss_commit_all sha s ys rt st [] = Inr (rt, st)"
| "pss_commit_all sha s ys rt st (j # js) =
     (let (m, st) = PsiSender_CommitSend sha s st (ys ! j) j
      in bind_r (PsiReceiver_CommitRecv rt m j) (\<lambda>rt. pss_commit_all sha s ys rt st js))"

definition Psi_run ::
  "(u8 list \<Rightarrow> u8 list) \<Rightarrow> nat \<Rightarrow> nat \<Rightarrow> block list \<times> block list \<Rightarrow> block list \<times> bitvec \<Rightarrow> nat
   \<Rightarrow> block list \<Rightarrow> block list \<Rightarrow> nat list \<Rightarrow> nat \<Rightarrow> bool result" where
  "Psi_run sha n wordSize s r otIdx xs ys js idx =
     (let (rt, _) = PsiReceiver_init n wordSize r otIdx;
          (st, _) = PsiSender_init n wordSize otIdx
      in bind_r (psr_commit_all rt st 0 xs) (\<lambda>(rt, st).
         bind_r (pss_commit_all sha s ys rt st js) (\<lambda>(rt, st).
           PsiReceiver_open sha rt idx (PsiSender_open st idx))))"

section \<open>Masks\<close>

definition pad_sum :: "block list \<times> block list \<Rightarrow> nat \<Rightarrow> nat \<Rightarrow> (nat \<Rightarrow> bool) \<Rightarrow> block" where
  "pad_sum s oti w sel_bit = xor_fold 0 (map (\<lambda>b. OTExtSender_GetMessage s (oti + b) (sel_bit b)) [0..<w])"

lemma running_sum:
  "fold (\<lambda>b (mask, k). (mask XOR f k b, k + 1)) [0..<w] (0, oti) = (xor_fold 0 (map (\<lambda>b. f (oti + b) b) [0..<w]), oti + w)"
  by (induction w) (simp_all add: xor_fold_append)

lemma pss_mask_eq: "pss_mask s input theirs w oti
    = (pad_sum s oti w (\<lambda>b. bv_get input b \<noteq> bv_get theirs b), oti + w)"
  unfolding pss_mask_def pad_sum_def ZeroBlock_0 by (rule running_sum)

lemma psr_mask_eq: "psr_mask msgs w oti
    = (xor_fold 0 (map (\<lambda>b. OTExtReceiver_GetMessage msgs (oti + b)) [0..<w]), oti + w)"
  unfolding psr_mask_def ZeroBlock_0 by (rule running_sum)

lemma PsiReceiver_init_eq:
  "PsiReceiver_init n w r oti =
     (\<lparr>psr_word = w, psr_my = map (\<lambda>i. bv_copy bv_empty (snd r) (oti + i * w) w) [0..<n],
       psr_vals = map (\<lambda>i. map (PRF (fst (psr_mask (fst r) w (oti + i * w)))) [0..<n]) [0..<n],
       psr_commits = replicate n (replicate n (replicate 5 0)),
       psr_ot_idx = oti, psr_remaining = n mod 2 ^ 32\<rparr>, oti + w * n)"
proof -
  have "fold (\<lambda>i (my, vals, otIdx).
                    let p = bv_copy bv_empty (snd r) otIdx w;
                        (mask, otIdx) = psr_mask (fst r) w otIdx
                    in (my @ [p], vals @ [map (PRF mask) [0..<n]], otIdx)) [0..<k] ([], [], oti)
     = (map (\<lambda>i. bv_copy bv_empty (snd r) (oti + i * w) w) [0..<k],
        map (\<lambda>i. map (PRF (fst (psr_mask (fst r) w (oti + i * w)))) [0..<n]) [0..<k], oti + k * w)" for k
    by (induction k) (simp_all add: psr_mask_eq Let_def)
  then show ?thesis unfolding PsiReceiver_init_def by simp
qed

section \<open>Both rounds of commitments\<close>

lemma bv_message_Nil: "bv_wf v \<Longrightarrow> bv_message v = [] \<longleftrightarrow> bv_bits v = 0"
proof -
  assume "bv_wf v"
  then have "length (bv_message v) = (bv_bits v + 7) div 8" by (simp add: bv_message_def bv_wf_def bv_sizeBytes_def)
  moreover have "(bv_bits v + 7) div 8 = 0 \<longleftrightarrow> bv_bits v = 0" by linarith
  ultimately show ?thesis by (metis length_0_conv)
qed

lemma psr_commit_all_ok:
  assumes "k + length xs \<le> length (psr_my rt)" and "k + length xs \<le> length (pss_their st)"
    and "pss_word st = psr_word rt" and "0 < psr_word rt"
    and "\<And>i. i < length (psr_my rt) \<Longrightarrow> bv_wf (psr_my rt ! i) \<and> bv_bits (psr_my rt ! i) = psr_word rt"
  shows "\<exists>rt' st'. psr_commit_all rt st k xs = Inr (rt', st')
      \<and> psr_vals rt' = psr_vals rt \<and> psr_commits rt' = psr_commits rt
      \<and> pss_word st' = pss_word st \<and> pss_vals st' = pss_vals st \<and> pss_ot_idx st' = pss_ot_idx st
      \<and> length (pss_their st') = length (pss_their st)
      \<and> (\<forall>i<k. pss_their st' ! i = pss_their st ! i)
      \<and> (\<forall>i<length xs. \<forall>b<psr_word rt. bv_get (pss_their st' ! (k + i)) b
            = bv_get (bv_xor_assign (psr_my rt ! (k + i)) (psi_input (xs ! i) (psr_word rt))) b)"
  using assms
proof (induction xs arbitrary: k rt st)
  case (Cons x xs)
  let ?w = "psr_word rt"
  define v where "v = bv_xor_assign (psr_my rt ! k) (psi_input x ?w)"
  define rt1 where "rt1 = rt\<lparr>psr_my := (psr_my rt)[k := v]\<rparr>"
  define u where "u = (bv_reset (pss_their st ! k) ?w)\<lparr>bv_data := blit (bv_data (bv_reset (pss_their st ! k) ?w)) 0 (bv_message v)\<rparr>"
  define st1 where "st1 = st\<lparr>pss_their := (pss_their st)[k := u], pss_remaining := u32_dec (pss_remaining st)\<rparr>"
  have k: "k < length (psr_my rt)" "k < length (pss_their st)" using Cons.prems by simp_all
  have v: "bv_wf v" "bv_bits v = ?w" using Cons.prems(5) [OF k(1)] by (simp_all add: v_def)
  have ne: "bv_message v \<noteq> []" using bv_message_Nil [OF v(1)] v(2) Cons.prems(4) by simp
  note rm = bv_recv_message [OF bv_wf_reset [of "pss_their st ! k" ?w] v(1) bv_bits_reset v(2), folded u_def]
  have s1: "PsiReceiver_CommitSend rt x k = Inr (bv_message v, rt1)"
    using ne by (simp add: PsiReceiver_CommitSend_def v_def [symmetric] rt1_def Let_def send_msgs_cases)
  have s2: "PsiSender_CommitRecv st (bv_message v) k = Inr st1"
    using rm(1) Cons.prems(3) by (simp add: PsiSender_CommitRecv_def st1_def)
  have "\<exists>rt' st'. psr_commit_all rt1 st1 (k + 1) xs = Inr (rt', st')
      \<and> psr_vals rt' = psr_vals rt1 \<and> psr_commits rt' = psr_commits rt1
      \<and> pss_word st' = pss_word st1 \<and> pss_vals st' = pss_vals st1 \<and> pss_ot_idx st' = pss_ot_idx st1
      \<and> length (pss_their st') = length (pss_their st1)
      \<and> (\<forall>i<k + 1. pss_their st' ! i = pss_their st1 ! i)
      \<and> (\<forall>i<length xs. \<forall>b<psr_word rt1. bv_get (pss_their st' ! (k + 1 + i)) b
            = bv_get (bv_xor_assign (psr_my rt1 ! (k + 1 + i)) (psi_input (xs ! i) (psr_word rt1))) b)"
  proof (rule Cons.IH)
    show "k + 1 + length xs \<le> length (psr_my rt1)" "k + 1 + length xs \<le> length (pss_their st1)"
      "pss_word st1 = psr_word rt1" "0 < psr_word rt1"
      using Cons.prems by (simp_all add: rt1_def st1_def)
    fix i assume "i < length (psr_my rt1)"
    then show "bv_wf (psr_my rt1 ! i) \<and> bv_bits (psr_my rt1 ! i) = psr_word rt1"
      using Cons.prems(5) [of i] v by (cases "i = k") (simp_all add: rt1_def)
  qed
  then obtain rt' st' where r: "psr_commit_all rt1 st1 (k + 1) xs = Inr (rt', st')"
      "psr_vals rt' = psr_vals rt" "psr_commits rt' = psr_commits rt"
      "pss_word st' = pss_word st" "pss_vals st' = pss_vals st" "pss_ot_idx st' = pss_ot_idx st"
      "length (pss_their st') = length (pss_their st)"
      "\<forall>i<k + 1. pss_their st' ! i = pss_their st1 ! i"
      "\<forall>i<length xs. \<forall>b<?w. bv_get (pss_their st' ! (k + 1 + i)) b
            = bv_get (bv_xor_assign (psr_my rt ! (k + 1 + i)) (psi_input (xs ! i) ?w)) b"
    by (auto simp: rt1_def st1_def)
  have "\<forall>i<length (x # xs). \<forall>b<?w. bv_get (pss_their st' ! (k + i)) b
            = bv_get (bv_xor_assign (psr_my rt ! (k + i)) (psi_input ((x # xs) ! i) ?w)) b"
  proof (intro allI impI)
    fix i b assume i: "i < length (x # xs)" and b: "b < ?w"
    show "bv_get (pss_their st' ! (k + i)) b
            = bv_get (bv_xor_assign (psr_my rt ! (k + i)) (psi_input ((x # xs) ! i) ?w)) b"
    proof (cases i)
      case 0
      have "pss_their st' ! k = u" using r(8) k by (simp add: st1_def)
      then show ?thesis using rm(2) [OF b] 0 by (simp add: v_def)
    next
      case (Suc j)
      then show ?thesis using r(9) i b by simp
    qed
  qed
  moreover have "\<forall>i<k. pss_their st' ! i = pss_their st ! i" using r(8) by (simp add: st1_def)
  ultimately show ?case using r s1 s2 by simp
qed simp

definition psi_val :: "block list \<times> block list \<Rightarrow> psi_sender \<Rightarrow> block \<Rightarrow> nat \<Rightarrow> nat \<Rightarrow> block" where
  "psi_val s st y idx k = PRF (pad_sum s (pss_ot_idx st + k * pss_word st) (pss_word st)
     (\<lambda>b. bv_get (psi_input y (pss_word st)) b \<noteq> bv_get (pss_their st ! k) b)) idx"

lemma PsiSender_CommitSend_eq:
  assumes "digest20 sha" and "length (pss_their st) = n" and "n < 2 ^ 32" and "length (pss_vals st) = n"
  shows "PsiSender_CommitSend sha s st y idx
     = (concat (map (\<lambda>k. Commit_data (Commit_block sha (psi_val s st y idx k))) [0..<n]),
        st\<lparr>pss_vals := map (\<lambda>k. (pss_vals st ! k)[idx := psi_val s st y idx k]) [0..<n],
           pss_remaining_vals := u32_dec (pss_remaining_vals st)\<rparr>)"
proof -
  let ?w = "pss_word st" and ?V = "psi_val s st y idx"
  let ?step = "\<lambda>j (vals, otIdx, buff).
                    let (mask, otIdx) = pss_mask s (psi_input y ?w) (pss_their st ! j) ?w otIdx;
                        val = PRF mask idx
                    in (vals[j := (vals ! j)[idx := val]], otIdx,
                        bs_append buff (Commit_data (Commit_block sha val)))"
  let ?bf = "\<lambda>k. fold (\<lambda>j buff. bs_append buff (Commit_data (Commit_block sha (?V j)))) [0..<k] (bs_new (HashSize * n))"
  have run: "fold ?step [0..<k] (pss_vals st, pss_ot_idx st, bs_new (HashSize * n))
      = (map (\<lambda>j. if j < k then (pss_vals st ! j)[idx := ?V j] else pss_vals st ! j) [0..<n],
         pss_ot_idx st + k * ?w, ?bf k)" if "k \<le> n" for k
    using that
  proof (induction k)
    case 0
    have "map ((!) (pss_vals st)) [0..<n] = pss_vals st" using assms(4) map_nth by blast
    then show ?case by simp
  next
    case (Suc k)
    have m: "pss_mask s (psi_input y ?w) (pss_their st ! k) ?w (pss_ot_idx st + k * ?w)
        = (pad_sum s (pss_ot_idx st + k * ?w) ?w (\<lambda>b. bv_get (psi_input y ?w) b \<noteq> bv_get (pss_their st ! k) b),
           pss_ot_idx st + k * ?w + ?w)" by (rule pss_mask_eq)
    let ?l = "map (\<lambda>j. if j < k then (pss_vals st ! j)[idx := ?V j] else pss_vals st ! j) [0..<n]"
    have l: "?l[k := (?l ! k)[idx := ?V k]]
        = map (\<lambda>j. if j < Suc k then (pss_vals st ! j)[idx := ?V j] else pss_vals st ! j) [0..<n]"
      using Suc.prems by (intro nth_equalityI) (auto simp: nth_list_update less_Suc_eq)
    have "fold ?step [0..<Suc k] (pss_vals st, pss_ot_idx st, bs_new (HashSize * n))
        = ?step k (?l, pss_ot_idx st + k * ?w, ?bf k)"
      using Suc by (simp only: upt_Suc_append zero_le fold_append comp_apply fold_simps Suc_leD)
    also have "\<dots> = (?l[k := (?l ! k)[idx := ?V k]], pss_ot_idx st + k * ?w + ?w, ?bf (Suc k))"
      unfolding prod.case m Let_def psi_val_def by simp
    finally show ?case unfolding l by (simp add: add.commute add.left_commute)
  qed
  have b: "bs_bytes (?bf n) = concat (map (\<lambda>k. Commit_data (Commit_block sha (?V k))) [0..<n])"
    using bs_append_fold [of "[0..<n]" "\<lambda>k. Commit_data (Commit_block sha (?V k))" 20 "bs_new (HashSize * n)"]
      assms(1,3) by (simp add: length_Commit_data bs_wf_new HashSize_def)
  have e: "map (\<lambda>j. if j < n then (pss_vals st ! j)[idx := ?V j] else pss_vals st ! j) [0..<n]
      = map (\<lambda>k. (pss_vals st ! k)[idx := ?V k]) [0..<n]" by simp
  note r = run [OF order_refl, unfolded Let_def e] and b' = b [unfolded Let_def]
  show ?thesis
    unfolding PsiSender_CommitSend_def Let_def assms(2) r prod.case b' ..
qed

lemma psi_val_update [simp]: "psi_val s (st\<lparr>pss_vals := v, pss_remaining_vals := r\<rparr>) = psi_val s st"
  by (simp add: psi_val_def fun_eq_iff)

lemma PsiReceiver_CommitRecv_ok:
  assumes "digest20 sha" and "length (psr_commits rt ! 0) = n"
  shows "PsiReceiver_CommitRecv rt (concat (map (\<lambda>k. Commit_data (Commit_block sha (f k))) [0..<n])) idx
     = Inr (rt\<lparr>psr_commits := (psr_commits rt)[idx := map (\<lambda>k. Commit_block sha (f k)) [0..<n]],
               psr_remaining := u32_dec (psr_remaining rt)\<rparr>)"
proof -
  let ?msg = "concat (map (\<lambda>k. Commit_data (Commit_block sha (f k))) [0..<n])"
  have l: "length ?msg = n * HashSize"
    using assms(1) by (simp add: length_concat comp_def length_Commit_data sum_list_triv HashSize_def)
  have c: "take HashSize (drop (k * HashSize) ?msg) = Commit_data (Commit_block sha (f k))" if "k < n" for k
    using that assms(1) chunk_map [of "\<lambda>k. Commit_data (Commit_block sha (f k))" HashSize k "[0..<n]"]
    by (simp add: length_Commit_data HashSize_def mult.commute)
  have "map (\<lambda>j. Commit_of_data (take HashSize (drop (j * HashSize) ?msg))) [0..<n]
      = map (\<lambda>k. Commit_block sha (f k)) [0..<n]"
    by (rule map_cong) (simp_all only: c set_upt atLeastLessThan_iff Commit_data_inverse [OF assms(1)])
  then show ?thesis 
    by (simp only: PsiReceiver_CommitRecv_def Let_def assms(2) l simp_thms if_False)
qed

lemma pss_commit_all_ok:
  assumes "digest20 sha" and "n < 2 ^ 32" and "distinct js" and "set js \<subseteq> {..<n}"
    and "length (pss_their st) = n" and "length (pss_vals st) = n" and "\<forall>k<n. length (pss_vals st ! k) = n"
    and "length (psr_commits rt) = n" and "\<forall>j<n. length (psr_commits rt ! j) = n"
  shows "\<exists>rt' st'. pss_commit_all sha s ys rt st js = Inr (rt', st')
      \<and> psr_vals rt' = psr_vals rt \<and> length (psr_commits rt') = n
      \<and> length (pss_vals st') = n \<and> (\<forall>k<n. length (pss_vals st' ! k) = n)
      \<and> (\<forall>j<n. psr_commits rt' ! j = (if j \<in> set js then map (\<lambda>k. Commit_block sha (psi_val s st (ys ! j) j k)) [0..<n]
                                       else psr_commits rt ! j))
      \<and> (\<forall>k<n. \<forall>j<n. pss_vals st' ! k ! j = (if j \<in> set js then psi_val s st (ys ! j) j k else pss_vals st ! k ! j))"
  using assms(3-)
proof (induction js arbitrary: rt st)
  case (Cons i js)
  have i: "i < n" using Cons.prems by simp
  define st1 where "st1 = st\<lparr>pss_vals := map (\<lambda>k. (pss_vals st ! k)[i := psi_val s st (ys ! i) i k]) [0..<n],
           pss_remaining_vals := u32_dec (pss_remaining_vals st)\<rparr>"
  define rt1 where "rt1 = rt\<lparr>psr_commits := (psr_commits rt)[i := map (\<lambda>k. Commit_block sha (psi_val s st (ys ! i) i k)) [0..<n]],
               psr_remaining := u32_dec (psr_remaining rt)\<rparr>"
  have c0: "length (psr_commits rt ! 0) = n" using Cons.prems i by simp
  have pv: "psi_val s st1 = psi_val s st" by (simp add: st1_def)
  have vals1: "pss_vals st1 ! k ! j = (if j = i then psi_val s st (ys ! i) i k else pss_vals st ! k ! j)"
    if "k < n" "j < n" for k j using that Cons.prems by (simp add: st1_def nth_list_update)
  have com1: "psr_commits rt1 ! j = (if j = i then map (\<lambda>k. Commit_block sha (psi_val s st (ys ! i) i k)) [0..<n]
      else psr_commits rt ! j)" if "j < n" for j using that Cons.prems by (simp add: rt1_def nth_list_update)
  have "\<exists>rt' st'. pss_commit_all sha s ys rt1 st1 js = Inr (rt', st')
      \<and> psr_vals rt' = psr_vals rt1 \<and> length (psr_commits rt') = n
      \<and> length (pss_vals st') = n \<and> (\<forall>k<n. length (pss_vals st' ! k) = n)
      \<and> (\<forall>j<n. psr_commits rt' ! j = (if j \<in> set js then map (\<lambda>k. Commit_block sha (psi_val s st1 (ys ! j) j k)) [0..<n]
                                       else psr_commits rt1 ! j))
      \<and> (\<forall>k<n. \<forall>j<n. pss_vals st' ! k ! j = (if j \<in> set js then psi_val s st1 (ys ! j) j k else pss_vals st1 ! k ! j))"
  proof (rule Cons.IH)
    show "distinct js" "set js \<subseteq> {..<n}" "length (pss_their st1) = n" "length (pss_vals st1) = n"
      "\<forall>k<n. length (pss_vals st1 ! k) = n" "length (psr_commits rt1) = n" "\<forall>j<n. length (psr_commits rt1 ! j) = n"
      using Cons.prems com1 by (simp_all add: st1_def rt1_def)
  qed
  moreover have "pss_commit_all sha s ys rt st (i # js) = pss_commit_all sha s ys rt1 st1 js"
    using PsiSender_CommitSend_eq [OF assms(1) Cons.prems(3) assms(2) Cons.prems(4), of s "ys ! i" i]
      PsiReceiver_CommitRecv_ok [OF assms(1) c0, of "psi_val s st (ys ! i) i" i]
    by (simp add: st1_def rt1_def)
  moreover have "psr_vals rt1 = psr_vals rt" by (simp add: rt1_def)
  moreover have "i \<notin> set js" using Cons.prems by simp
  ultimately show ?case using vals1 com1 pv by (auto simp: if_distrib)
qed simp

lemma psr_open_loop_ok:
  assumes "\<And>j. j \<in> set js \<Longrightarrow> block_of_bytes (drop (16 * j) buff) = their j
      \<and> psr_commits st ! j ! idx = Commit_block sha (their j)"
  shows "psr_open_loop sha st idx buff js = Inr (list_ex (\<lambda>j. psr_vals st ! idx ! j = their j) js)"
  using assms by (induction js) simp_all

section \<open>Property\<close>

text \<open>The selection bit of the sender's mask for its \<open>j\<close>-th input in the receiver's \<open>i\<close>-th set.\<close>

abbreviation psi_sel :: "block list \<times> bitvec \<Rightarrow> nat \<Rightarrow> block \<Rightarrow> block \<Rightarrow> nat \<Rightarrow> bool" where
  "psi_sel r k x y b \<equiv> (bit y b \<noteq> (bv_get (snd r) (k + b) \<noteq> bit x b))"

lemma pad_sum_cong: "(\<And>b. b < w \<Longrightarrow> f b = g b) \<Longrightarrow> pad_sum s oti w f = pad_sum s oti w g"
  unfolding pad_sum_def by (rule arg_cong [where f = "xor_fold 0"], rule map_cong) simp_all

lemma psr_mask_pads:
  assumes "ot_agreed s r N" and "oti + w \<le> N"
  shows "fst (psr_mask (fst r) w oti) = pad_sum s oti w (\<lambda>b. bv_get (snd r) (oti + b))"
proof -
  have "map (\<lambda>b. OTExtReceiver_GetMessage (fst r) (oti + b)) [0..<w]
      = map (\<lambda>b. OTExtSender_GetMessage s (oti + b) (bv_get (snd r) (oti + b))) [0..<w]"
    using ote.pad_received [OF assms(1)] assms(2) by simp
  then show ?thesis unfolding psr_mask_eq pad_sum_def fst_conv by (rule arg_cong)
qed

lemma psi_commitments:
  assumes "digest20 sha" and "0 < n" and "n < 2 ^ 32" and "w \<le> 128" and "length xs = n" and "length ys = n"
    and "ot_agreed s r N" and "oti + n * w \<le> N" and "distinct js" and "set js = {..<n}" and "0 < w"
  shows "\<exists>rt1 st1 rt2 st2. psr_commit_all (fst (PsiReceiver_init n w r oti)) (fst (PsiSender_init n w oti)) 0 xs = Inr (rt1, st1)
     \<and> pss_commit_all sha s ys rt1 st1 js = Inr (rt2, st2)
     \<and> length (psr_commits rt2) = n \<and> length (pss_vals st2) = n \<and> (\<forall>i<n. length (pss_vals st2 ! i) = n)
     \<and> (\<forall>i<n. \<forall>j<n. psr_vals rt2 ! i ! j = PRF (pad_sum s (oti + i * w) w (\<lambda>b. bv_get (snd r) (oti + i * w + b))) j
          \<and> pss_vals st2 ! i ! j = PRF (pad_sum s (oti + i * w) w (psi_sel r (oti + i * w) (xs ! i) (ys ! j))) j
          \<and> psr_commits rt2 ! j ! i = Commit_block sha (pss_vals st2 ! i ! j))"
proof -
  define rt0 where "rt0 = fst (PsiReceiver_init n w r oti)"
  define st0 where "st0 = fst (PsiSender_init n w oti)"
  note ch = ot_agreed_choice [OF assms(7)]
  have in_set: "oti + i * w + w \<le> N" if "i < n" for i
    using mult_le_mono1 [of "Suc i" n w] that assms(8) by simp
  have st0: "pss_word st0 = w" "length (pss_their st0) = n" "pss_vals st0 = replicate n (replicate n 0)" "pss_ot_idx st0 = oti"
    by (simp_all add: st0_def PsiSender_init_def)
  have rt0: "psr_word rt0 = w" "length (psr_my rt0) = n" "psr_commits rt0 = replicate n (replicate n (replicate 5 0))"
      "psr_vals rt0 = map (\<lambda>i. map (PRF (fst (psr_mask (fst r) w (oti + i * w)))) [0..<n]) [0..<n]"
    by (simp_all add: rt0_def PsiReceiver_init_eq)
  have my: "bv_wf (psr_my rt0 ! i) \<and> bv_bits (psr_my rt0 ! i) = w
      \<and> (\<forall>b<w. bv_get (psr_my rt0 ! i) b = bv_get (snd r) (oti + i * w + b))" if "i < n" for i
    using that ch in_set [OF that] bv_copy_get [of "snd r" "oti + i * w" w] assms(4)
    by (simp add: rt0_def PsiReceiver_init_eq)
  obtain rt1 st1 where one: "psr_commit_all rt0 st0 0 xs = Inr (rt1, st1)" "psr_vals rt1 = psr_vals rt0"
      "psr_commits rt1 = psr_commits rt0" "pss_word st1 = w" "pss_vals st1 = pss_vals st0" "pss_ot_idx st1 = oti"
      "length (pss_their st1) = n"
      "\<forall>i<n. \<forall>b<w. bv_get (pss_their st1 ! i) b = bv_get (bv_xor_assign (psr_my rt0 ! i) (psi_input (xs ! i) w)) b"
    using psr_commit_all_ok [of 0 xs rt0 st0] my rt0 st0 assms(5,11) by auto
  have com: "length (psr_commits rt1) = n" "\<forall>j<n. length (psr_commits rt1 ! j) = n"
      "length (pss_vals st1) = n" "\<forall>k<n. length (pss_vals st1 ! k) = n"
    using one rt0 st0 by simp_all
  have "set js \<subseteq> {..<n}" using assms(10) by simp
  from pss_commit_all_ok [OF assms(1,3,9) this one(7) com(3,4,1,2), of s ys]
  obtain rt2 st2 where two: "pss_commit_all sha s ys rt1 st1 js = Inr (rt2, st2)"
      "psr_vals rt2 = psr_vals rt1" "length (psr_commits rt2) = n" "length (pss_vals st2) = n"
      "\<forall>k<n. length (pss_vals st2 ! k) = n"
      "\<forall>j<n. psr_commits rt2 ! j = map (\<lambda>k. Commit_block sha (psi_val s st1 (ys ! j) j k)) [0..<n]"
      "\<forall>k<n. \<forall>j<n. pss_vals st2 ! k ! j = psi_val s st1 (ys ! j) j k"
    using assms(10) by auto
  have val: "psi_val s st1 (ys ! j) j i = PRF (pad_sum s (oti + i * w) w (psi_sel r (oti + i * w) (xs ! i) (ys ! j))) j"
    if i: "i < n" for i j
  proof -
    have "bv_get (pss_their st1 ! i) b = (bv_get (snd r) (oti + i * w + b) \<noteq> bit (xs ! i) b)" if "b < w" for b
      using one(8) my [OF i] i that xor_input_get [of "psr_my rt0 ! i" w b "xs ! i"] assms(4) by simp
    then show ?thesis
      unfolding psi_val_def one(4,6) by (intro arg_cong [where f = "\<lambda>m. PRF m j"] pad_sum_cong) (simp add: psi_input_get assms(4))
  qed
  have "psr_vals rt2 ! i ! j = PRF (pad_sum s (oti + i * w) w (\<lambda>b. bv_get (snd r) (oti + i * w + b))) j"
    if "i < n" "j < n" for i j
    using that two(2) one(2) rt0(4) psr_mask_pads [OF assms(7) in_set [OF that(1)]] by simp
  with one(1) two val show ?thesis unfolding rt0_def st0_def by auto
qed

text \<open>The receiver's \<open>open\<close> after the commitments.\<close>

lemma psi_opens:
  assumes "digest20 sha" and "0 < n" and "n < 2 ^ 32" and "w \<le> 128" and "length xs = n" and "length ys = n"
    and "ot_agreed s r N" and "oti + n * w \<le> N" and "distinct js" and "set js = {..<n}" and "0 < w"
  shows "\<exists>rt1 st1 rt2 st2. psr_commit_all (fst (PsiReceiver_init n w r oti)) (fst (PsiSender_init n w oti)) 0 xs = Inr (rt1, st1)
     \<and> pss_commit_all sha s ys rt1 st1 js = Inr (rt2, st2)
     \<and> (\<forall>i<n. PsiReceiver_open sha rt2 i (PsiSender_open st2 i)
          = Inr (list_ex (\<lambda>j. PRF (pad_sum s (oti + i * w) w (\<lambda>b. bv_get (snd r) (oti + i * w + b))) j
                       = PRF (pad_sum s (oti + i * w) w (psi_sel r (oti + i * w) (xs ! i) (ys ! j))) j) [0..<n])
        \<and> (\<forall>j<n. take_bit w (xs ! i) = take_bit w (ys ! j) \<longrightarrow> PsiReceiver_open sha rt2 i (PsiSender_open st2 i) = Inr True))"
proof -
  obtain rt1 st1 rt2 st2 where e:
    "psr_commit_all (fst (PsiReceiver_init n w r oti)) (fst (PsiSender_init n w oti)) 0 xs = Inr (rt1, st1)"
    "pss_commit_all sha s ys rt1 st1 js = Inr (rt2, st2)"
    and l: "length (psr_commits rt2) = n" "length (pss_vals st2) = n" "\<forall>i<n. length (pss_vals st2 ! i) = n"
    and v: "\<forall>i<n. \<forall>j<n. psr_vals rt2 ! i ! j = PRF (pad_sum s (oti + i * w) w (\<lambda>b. bv_get (snd r) (oti + i * w + b))) j
          \<and> pss_vals st2 ! i ! j = PRF (pad_sum s (oti + i * w) w (psi_sel r (oti + i * w) (xs ! i) (ys ! j))) j
          \<and> psr_commits rt2 ! j ! i = Commit_block sha (pss_vals st2 ! i ! j)"
    using psi_commitments [OF assms] by blast
  let ?hit = "\<lambda>i j. PRF (pad_sum s (oti + i * w) w (\<lambda>b. bv_get (snd r) (oti + i * w + b))) j
      = PRF (pad_sum s (oti + i * w) w (psi_sel r (oti + i * w) (xs ! i) (ys ! j))) j"
  have open_i: "PsiReceiver_open sha rt2 i (PsiSender_open st2 i) = Inr (list_ex (?hit i) [0..<n])" if i: "i < n" for i
  proof -
    have op: "PsiSender_open st2 i = concat (map ByteArray (pss_vals st2 ! i))"
      using l assms(2) i by (simp add: PsiSender_open_def)
    have "psr_open_loop sha rt2 i (PsiSender_open st2 i) [0..<n] = Inr (list_ex (\<lambda>j. psr_vals rt2 ! i ! j = pss_vals st2 ! i ! j) [0..<n])"
      by (rule psr_open_loop_ok) (use block_chunk [of _ "pss_vals st2 ! i"] l v i op in auto)
    moreover have "list_ex (\<lambda>j. psr_vals rt2 ! i ! j = pss_vals st2 ! i ! j) [0..<n] = list_ex (?hit i) [0..<n]"
      using v i by (auto simp: list_ex_iff)
    ultimately show ?thesis by (simp add: PsiReceiver_open_def l)
  qed
  have hit: "?hit i j" if "i < n" "take_bit w (xs ! i) = take_bit w (ys ! j)" for i j
  proof -
    have "bit (xs ! i) b = bit (ys ! j) b" if "b < w" for b
      using that \<open>take_bit w (xs ! i) = take_bit w (ys ! j)\<close> by (metis bit_take_bit_iff)
    then have "psi_sel r (oti + i * w) (xs ! i) (ys ! j) b = bv_get (snd r) (oti + i * w + b)" if "b < w" for b using that by auto
    then have "pad_sum s (oti + i * w) w (psi_sel r (oti + i * w) (xs ! i) (ys ! j))
        = pad_sum s (oti + i * w) w (\<lambda>b. bv_get (snd r) (oti + i * w + b))" by (rule pad_sum_cong)
    then show ?thesis by simp
  qed
  have "PsiReceiver_open sha rt2 i (PsiSender_open st2 i) = Inr True"
    if "i < n" "j < n" "take_bit w (xs ! i) = take_bit w (ys ! j)" for i j
    using open_i [OF that(1)] hit [OF that(1,3)] that(2) by (auto simp: list_ex_iff)
  with e open_i show ?thesis by blast
qed

text \<open>C20. The default intersection is correct between honest parties, for a word size from 1 to 128 and
  messages below 4 GB: with OT pads from one execution, whatever
  order the sender's threads commit its inputs in, the receiver's \<open>open\<close> of its \<open>i\<close>-th input throws
  nothing and returns whether the hash of its own pads is, for some \<open>j\<close>, the hash of the pads
  selected by both inputs; it is true whenever the input is among the sender's.\<close>

theorem psi_correct:
  assumes "digest20 sha" and "0 < n" and "20 * n < 2 ^ 32" and "w \<le> 128" and "length xs = n" and "length ys = n"
    and "ot_agreed s r N" and "oti + n * w \<le> N" and "distinct js" and "set js = {..<n}" and "i < n"
    and "0 < w"
  shows "Psi_run sha n w s r oti xs ys js i
     = Inr (list_ex (\<lambda>j. PRF (pad_sum s (oti + i * w) w (\<lambda>b. bv_get (snd r) (oti + i * w + b))) j
                       = PRF (pad_sum s (oti + i * w) w
                           (\<lambda>b. bit (ys ! j) b \<noteq> (bv_get (snd r) (oti + i * w + b) \<noteq> bit (xs ! i) b))) j) [0..<n])
   \<and> (list_ex (\<lambda>j. take_bit w (xs ! i) = take_bit w (ys ! j)) [0..<n] \<longrightarrow> Psi_run sha n w s r oti xs ys js i = Inr True)"
proof -
  have n: "n < 2 ^ 32" using assms(3) by linarith
  obtain rt1 st1 rt2 st2 where e:
    "psr_commit_all (fst (PsiReceiver_init n w r oti)) (fst (PsiSender_init n w oti)) 0 xs = Inr (rt1, st1)"
    "pss_commit_all sha s ys rt1 st1 js = Inr (rt2, st2)"
    and o: "\<forall>i<n. PsiReceiver_open sha rt2 i (PsiSender_open st2 i)
          = Inr (list_ex (\<lambda>j. PRF (pad_sum s (oti + i * w) w (\<lambda>b. bv_get (snd r) (oti + i * w + b))) j
                       = PRF (pad_sum s (oti + i * w) w (psi_sel r (oti + i * w) (xs ! i) (ys ! j))) j) [0..<n])
        \<and> (\<forall>j<n. take_bit w (xs ! i) = take_bit w (ys ! j) \<longrightarrow> PsiReceiver_open sha rt2 i (PsiSender_open st2 i) = Inr True)"
    using psi_opens [OF assms(1,2) n assms(4-10,12)] by blast
  have "Psi_run sha n w s r oti xs ys js i = PsiReceiver_open sha rt2 i (PsiSender_open st2 i)"
    using e by (simp add: Psi_run_def split_beta)
  then show ?thesis using o assms(11) unfolding list_ex_iff by auto
qed

theorem psi_correct_witness:
  "\<exists>s r. ot_agreed s r 100 \<and> Psi_run (vec_resize 0 20) 2 8 s r 5 [3, 9] [0x109, 4] [1, 0] 1 = Inr True"
proof -
  have sha: "digest20 (vec_resize 0 20)" by (simp add: digest20_def HashSize_def)
  obtain s r where ot: "ot_agreed s r 100" using ot_agreed_exists [of 100] by auto
  have t: "take_bit 8 ([3, 9] ! 1 :: block) = take_bit 8 ([0x109, 4] ! 0)" by (simp add: take_bit_eq_mod)
  have ex: "list_ex (\<lambda>j. take_bit 8 ([3, 9] ! 1 :: block) = take_bit 8 ([0x109, 4] ! j)) [0..<2]"
    unfolding list_ex_iff using t by (intro bexI [of _ 0]) simp_all
  have c: "0 < (2::nat)" "20 * (2::nat) < 2 ^ 32" "(8::nat) \<le> 128" "length [3, 9 :: block] = 2" "length [0x109, 4 :: block] = 2"
    by simp_all
  have d: "5 + 2 * 8 \<le> (100::nat)" "distinct [1, 0 :: nat]" "set [1, 0 :: nat] = {..<2}" "1 < (2::nat)" "0 < (8::nat)" by auto
  show ?thesis using psi_correct [OF sha c ot d, THEN conjunct2, THEN mp, OF ex] ot by blast
qed

end
