(* ===== verification/BDX_Package.thy ===== *)
theory BDX_Package
  imports BDX_KProbe BDX_PsiSync
begin

text \<open>
  \<open>DualEx/CircuitPackage.{h,cpp}\<close>, built with \<open>ADAPTIVE_SECURE\<close> and \<open>NDEBUG\<close>: a garbled circuit with
  what its garbler commits to (\<open>CircuitPackage\<close>) and what the evaluator keeps of it
  (\<open>CommCircuitPackage\<close>), from the setup to the opening of the cut-and-choose. Messages are byte
  lists in the order they are sent; a message of no bytes throws when it is sent (\<open>send_msgs\<close>), and a
  receive of another length throws. The OT objects are the
  outcome of \<open>OTExt_run\<close>, SHA-1 is the parameter \<open>sha\<close>. The promises that say the OTs are set up
  are left out.
\<close>

section \<open>The garbler\<close>

record CircuitPackage =
  cp_mIdx :: nat
  cp_mCircuitSeed :: block
  cp_mKProbeWireSeed :: block
  cp_mCircuit :: HalfGt
  cp_mOTStartIdx :: nat
  cp_mKProbeInputs :: "block list"
  cp_mRecvOT :: "block list \<times> bitvec"
  cp_mOTRecvChoices :: bitvec
  cp_mAdaptiveSecureMaskSeed :: block

text \<open>The first wire of a party's inputs: \<open>start[role]\<close>.\<close>

definition input_start :: "Circuit \<Rightarrow> role \<Rightarrow> nat" where
  "input_start cir role = (if role = Second then Inputs cir First else 0)"

text \<open>The tweaks of the output hashes, \<open>_mm_set1_epi64x(k * cir.WireCount())\<close>, and the hashes of both
  labels of each output wire.\<close>

definition output_tweak :: "Circuit \<Rightarrow> nat \<Rightarrow> block" where
  "output_tweak cir k = set1_epi64x (word_of_nat (k * mWireCount cir))"

definition output_hash :: "block \<Rightarrow> block \<Rightarrow> block \<Rightarrow> block \<Rightarrow> block \<times> block" where
  "output_hash t0 t1 l0 l1 =
     (let hash = [slli_epi64 l0 1 XOR t0, slli_epi64 l1 1 XOR t1];
          enc = EcbEncTwoBlocks mAesFixedKey hash
      in (hash!0 XOR enc!0, hash!1 XOR enc!1))"

fun output_hashes :: "block \<Rightarrow> block \<Rightarrow> block \<Rightarrow> block list \<Rightarrow> (block \<times> block) list" where
  "output_hashes R t0 t1 [] = []"
| "output_hashes R t0 t1 (out # outs) =
     output_hash t0 t1 out (out XOR R) # output_hashes R (add_epi64 t0 OneBlock) (add_epi64 t1 OneBlock) outs"

definition pair_bytes :: "(block \<times> block) list \<Rightarrow> u8 list" where
  "pair_bytes ps = concat (map (\<lambda>(a, b). ByteArray a @ ByteArray b) ps)"

definition circuit_output_hashes :: "Circuit \<Rightarrow> HalfGt \<Rightarrow> (block \<times> block) list" where
  "circuit_output_hashes cir gc =
     output_hashes (mGlobalOffset gc) (output_tweak cir 2) (output_tweak cir 3) (mOutputWires gc)"

definition commitToOutputs :: "(u8 list \<Rightarrow> u8 list) \<Rightarrow> CircuitPackage \<Rightarrow> Circuit \<Rightarrow> u8 list" where
  "commitToOutputs sha pkg cir =
     Commit_data (commit_hash sha (pair_bytes (circuit_output_hashes cir (cp_mCircuit pkg))))"

text \<open>The new state, the messages sent, the wire buffer and the generator.\<close>

definition CircuitPackage_init ::
  "(u8 list \<Rightarrow> u8 list) \<Rightarrow> CircuitPackage \<Rightarrow> Circuit \<Rightarrow> prng \<Rightarrow> nat \<Rightarrow> KProbeMatrix \<Rightarrow> block list \<Rightarrow> block list
   \<Rightarrow> block list \<Rightarrow> (CircuitPackage \<times> u8 list list \<times> block list \<times> prng) result" where
  "CircuitPackage_init sha pkg cir prng idx theirKProbe wireBuff indexArray tableMasks =
     (let (circuitSeed, prng) = get_block prng;
          (maskSeed, prng) = get_block prng;
          tableMasks = ecb_new (EncKeyGen maskSeed) indexArray (length tableMasks)
      in bind_r (GarbleSend (cp_mCircuit pkg) cir circuitSeed wireBuff indexArray tableMasks) (\<lambda>(gc, wireBuff, msgs).
         (let (wireSeed, prng) = get_block prng;
              inputs = ecb_new (EncKeyGen wireSeed) indexArray (kp_mEncodingSize theirKProbe);
              commits = concat (map (\<lambda>l. Commit_data (Commit_block sha l)
                                         @ Commit_data (Commit_block sha (l XOR mGlobalOffset gc))) inputs);
              pkg = pkg\<lparr>cp_mIdx := idx, cp_mCircuitSeed := circuitSeed, cp_mAdaptiveSecureMaskSeed := maskSeed,
                        cp_mCircuit := gc, cp_mKProbeWireSeed := wireSeed, cp_mKProbeInputs := inputs\<rparr>;
              outputs = commitToOutputs sha pkg cir
          in bind_r (send_msgs [commits, outputs]) (\<lambda>_. Inr (pkg, msgs @ [commits, outputs], wireBuff, prng)))))"

text \<open>Both labels of each of the garbler's own wires, the one of the permute bit first.\<close>

definition commitToInputs ::
  "(u8 list \<Rightarrow> u8 list) \<Rightarrow> CircuitPackage \<Rightarrow> Circuit \<Rightarrow> KProbeMatrix \<Rightarrow> role \<Rightarrow> u8 list result" where
  "commitToInputs sha pkg cir myKProbe role =
     bind_r (kp_decode myKProbe (cp_mOTRecvChoices pkg) bv_empty) (\<lambda>permuteBits.
     (let commits = concat (map (\<lambda>i.
              let permute = bv_get permuteBits i;
                  label0 = mInputWires (cp_mCircuit pkg) ! (input_start cir role + i);
                  label1 = label0 XOR mGlobalOffset (cp_mCircuit pkg)
              in Commit_data (Commit_block sha (if permute then label1 else label0))
                 @ Commit_data (Commit_block sha (if permute then label0 else label1)))
            [0..<Inputs cir role])
      in bind_r (send_msgs [commits]) (\<lambda>_. Inr commits)))"

definition CircuitPackage_initOT ::
  "(u8 list \<Rightarrow> u8 list) \<Rightarrow> CircuitPackage \<Rightarrow> Circuit \<Rightarrow> role \<Rightarrow> KProbeMatrix \<Rightarrow> block list \<times> bitvec \<Rightarrow> nat
   \<Rightarrow> (CircuitPackage \<times> u8 list \<times> nat) result" where
  "CircuitPackage_initOT sha pkg cir role myKProbe recvOT firstOTIdx =
     (let pkg = pkg\<lparr>cp_mRecvOT := recvOT, cp_mOTStartIdx := firstOTIdx,
                    cp_mOTRecvChoices := bv_copy (cp_mOTRecvChoices pkg) (snd recvOT) firstOTIdx (kp_mEncodingSize myKProbe)\<rparr>
      in bind_r (commitToInputs sha pkg cir myKProbe role)
           (\<lambda>msg. Inr (pkg, msg, firstOTIdx + kp_mEncodingSize myKProbe)))"

definition OTRecvChoices :: "CircuitPackage \<Rightarrow> nat \<Rightarrow> bool" where
  "OTRecvChoices pkg idx = bv_get (cp_mOTRecvChoices pkg) idx"

definition OTRecvMsg :: "CircuitPackage \<Rightarrow> nat \<Rightarrow> block" where
  "OTRecvMsg pkg idx = OTExtReceiver_GetMessage (fst (cp_mRecvOT pkg)) (cp_mOTStartIdx pkg + idx)"

definition CircuitPackage_clear :: "CircuitPackage \<Rightarrow> CircuitPackage" where
  "CircuitPackage_clear pkg = pkg\<lparr>cp_mCircuit := HalfGt_Clear (cp_mCircuit pkg), cp_mKProbeInputs := []\<rparr>"

text \<open>The choice bits that are sent are as many as the encoding has, never none once the input labels are
  committed to.\<close>

definition CircuitPackage_open :: "CircuitPackage \<Rightarrow> block \<Rightarrow> u8 list list \<times> CircuitPackage \<times> block" where
  "CircuitPackage_open pkg OTMessageXORSum =
     ([ByteArray (cp_mCircuitSeed pkg), ByteArray (cp_mKProbeWireSeed pkg),
       ByteArray (cp_mAdaptiveSecureMaskSeed pkg), bv_message (cp_mOTRecvChoices pkg)],
      CircuitPackage_clear pkg,
      fold (\<lambda>i sum. sum XOR OTRecvMsg pkg i) [0..<bv_bits (cp_mOTRecvChoices pkg)] OTMessageXORSum)"

text \<open>The move constructor of each class names the members it keeps; the others take whatever the
  default construction leaves (\<open>src0\<close>).\<close>

definition CircuitPackage_move :: "CircuitPackage \<Rightarrow> CircuitPackage \<Rightarrow> block \<Rightarrow> CircuitPackage" where
  "CircuitPackage_move src0 src uninit =
     src0\<lparr>cp_mIdx := cp_mIdx src, cp_mCircuitSeed := cp_mCircuitSeed src,
          cp_mCircuit := HalfGt_move (cp_mCircuit src) uninit, cp_mOTStartIdx := cp_mOTStartIdx src,
          cp_mRecvOT := cp_mRecvOT src, cp_mOTRecvChoices := cp_mOTRecvChoices src,
          cp_mKProbeWireSeed := cp_mKProbeWireSeed src,
          cp_mAdaptiveSecureMaskSeed := cp_mAdaptiveSecureMaskSeed src\<rparr>"

section \<open>The evaluator\<close>

record CommCircuitPackage =
  cc_mIdx :: nat
  cc_mCircuit :: HalfGt
  cc_mOTSend :: "block list \<times> block list"
  cc_mOTStartIdx :: nat
  cc_mOTCount :: nat
  cc_mOutputCommit :: commit
  cc_mTheirInputCommits :: "(commit \<times> commit) list"
  cc_mMyKProbeInputCommit :: "(commit \<times> commit) list"

text \<open>Receiving \<open>n\<close> pairs of commitments.\<close>

definition recv_commit_pairs :: "nat \<Rightarrow> u8 list \<Rightarrow> (commit \<times> commit) list result" where
  "recv_commit_pairs n msg =
     (if length msg \<noteq> n * HashSize * 2 then Inl BadReceiveBufferSize else Inr (apr_commit_pairs n msg))"

definition CommCircuitPackage_init ::
  "CommCircuitPackage \<Rightarrow> Circuit \<Rightarrow> KProbeMatrix \<Rightarrow> u8 list list \<Rightarrow> nat \<Rightarrow> CommCircuitPackage result" where
  "CommCircuitPackage_init pkg cir myKProbe msgs idx =
     bind_r (ReceiveFromGarbler (cc_mCircuit pkg) cir (msgs!0) (msgs!1)) (\<lambda>gc.
     bind_r (recv_commit_pairs (kp_mEncodingSize myKProbe) (msgs!2)) (\<lambda>kcommits.
     bind_r (require (length (msgs!3) = HashSize) BadReceiveBufferSize) (\<lambda>_.
       Inr (pkg\<lparr>cc_mIdx := idx, cc_mCircuit := gc, cc_mMyKProbeInputCommit := kcommits,
                cc_mOutputCommit := Commit_of_data (msgs!3)\<rparr>))))"

definition CommCircuitPackage_initOT ::
  "CommCircuitPackage \<Rightarrow> u8 list \<Rightarrow> KProbeMatrix \<Rightarrow> block list \<times> block list \<Rightarrow> nat \<Rightarrow> nat
   \<Rightarrow> (CommCircuitPackage \<times> nat) result" where
  "CommCircuitPackage_initOT pkg msg kProbe sendOT otIdx theirInputSize =
     bind_r (recv_commit_pairs theirInputSize msg) (\<lambda>icommits.
       Inr (pkg\<lparr>cc_mTheirInputCommits := icommits, cc_mOTSend := sendOT, cc_mOTStartIdx := otIdx,
                cc_mOTCount := kp_mEncodingSize kProbe\<rparr>, otIdx + kp_mEncodingSize kProbe))"

definition OTSendMsg :: "CommCircuitPackage \<Rightarrow> nat \<Rightarrow> bool \<Rightarrow> block" where
  "OTSendMsg pkg idx b = OTExtSender_GetMessage (cc_mOTSend pkg) (cc_mOTStartIdx pkg + idx) b"

definition CommCircuitPackage_clear :: "CommCircuitPackage \<Rightarrow> CommCircuitPackage" where
  "CommCircuitPackage_clear pkg =
     pkg\<lparr>cc_mTheirInputCommits := [], cc_mMyKProbeInputCommit := [], cc_mCircuit := HalfGt_Clear (cc_mCircuit pkg)\<rparr>"

definition CommCircuitPackage_move :: "CommCircuitPackage \<Rightarrow> CommCircuitPackage \<Rightarrow> block \<Rightarrow> CommCircuitPackage" where
  "CommCircuitPackage_move src0 src uninit =
     src0\<lparr>cc_mIdx := cc_mIdx src, cc_mCircuit := HalfGt_move (cc_mCircuit src) uninit, cc_mOTSend := cc_mOTSend src,
          cc_mOTStartIdx := cc_mOTStartIdx src, cc_mOTCount := cc_mOTCount src,
          cc_mOutputCommit := cc_mOutputCommit src, cc_mTheirInputCommits := cc_mTheirInputCommits src,
          cc_mMyKProbeInputCommit := cc_mMyKProbeInputCommit src\<rparr>"

subsection \<open>Checking an opened package\<close>

definition check_commit_pair :: "(u8 list \<Rightarrow> u8 list) \<Rightarrow> commit \<times> commit \<Rightarrow> block \<Rightarrow> block \<Rightarrow> unit result" where
  "check_commit_pair sha c l0 l1 =
     bind_r (require (Commit_eq (fst c) (Commit_block sha l0)) InvalidCommitment) (\<lambda>_.
       require (Commit_eq (snd c) (Commit_block sha l1)) InvalidCommitment)"

definition recv_block :: "u8 list \<Rightarrow> block result" where
  "recv_block msg = bind_r (require (length msg = 16) BadReceiveBufferSize) (\<lambda>_. Inr (block_of_bytes msg))"

definition CommCircuitPackage_open ::
  "(u8 list \<Rightarrow> u8 list) \<Rightarrow> CommCircuitPackage \<Rightarrow> Circuit \<Rightarrow> KProbeMatrix \<Rightarrow> KProbeMatrix \<Rightarrow> role \<Rightarrow> u8 list list
   \<Rightarrow> block \<Rightarrow> block list \<Rightarrow> block list \<Rightarrow> (CommCircuitPackage \<times> block) result" where
  "CommCircuitPackage_open sha pkg cir theirKProbe myKProbe role msgs OTMsgXORSum indexArray blockBuff =
     bind_r (recv_block (msgs!0)) (\<lambda>circuitSeed.
     bind_r (recv_block (msgs!1)) (\<lambda>kProbeWireSeed.
     bind_r (recv_block (msgs!2)) (\<lambda>maskSeed.
     bind_r (Validate (cc_mCircuit pkg) cir circuitSeed indexArray
               (ecb_new (EncKeyGen maskSeed) indexArray (length blockBuff))) (\<lambda>gc.
     (let inputs = ecb_new (EncKeyGen kProbeWireSeed) indexArray (kp_mEncodingSize myKProbe)
      in bind_r (each_r (\<lambda>i. check_commit_pair sha (cc_mMyKProbeInputCommit pkg ! i) (inputs!i) (inputs!i XOR mGlobalOffset gc))
                   [0..<kp_mEncodingSize myKProbe]) (\<lambda>_.
         bind_r (require (Commit_eq (cc_mOutputCommit pkg)
                            (commit_hash sha (pair_bytes (circuit_output_hashes cir gc)))) InvalidCommitment) (\<lambda>_.
         bind_r (bv_recv (bv_reset bv_empty (kp_mEncodingSize theirKProbe)) (msgs!3)) (\<lambda>choices.
         (let OTMsgXORSum = fold (\<lambda>i sum. sum XOR OTSendMsg pkg i (bv_get choices i))
                              [0..<kp_mEncodingSize theirKProbe] OTMsgXORSum
          in bind_r (kp_decode theirKProbe choices bv_empty) (\<lambda>permuteBits.
             bind_r (each_r (\<lambda>i.
                       let label0 = mInputWires gc ! (input_start cir (other role) + i);
                           label1 = label0 XOR mGlobalOffset gc;
                           permute = bv_get permuteBits i
                       in check_commit_pair sha (cc_mTheirInputCommits pkg ! i)
                            (if permute then label1 else label0) (if permute then label0 else label1))
                     [0..<bv_bits permuteBits]) (\<lambda>_.
             Inr (CommCircuitPackage_clear (pkg\<lparr>cc_mCircuit := gc\<rparr>), OTMsgXORSum))))))))))))"

section \<open>An honest setup\<close>

text \<open>One package set up between an honest garbler and evaluator: the messages of \<open>init\<close> and \<open>initOT\<close>
  go from one to the other.\<close>

definition package_setup ::
  "(u8 list \<Rightarrow> u8 list) \<Rightarrow> Circuit \<Rightarrow> role \<Rightarrow> KProbeMatrix \<Rightarrow> KProbeMatrix \<Rightarrow> block list \<Rightarrow> block list \<Rightarrow> block list
   \<Rightarrow> block list \<times> bitvec \<Rightarrow> block list \<times> block list \<Rightarrow> nat \<Rightarrow> prng \<Rightarrow> nat
   \<Rightarrow> CircuitPackage \<Rightarrow> CommCircuitPackage \<Rightarrow> (CircuitPackage \<times> CommCircuitPackage) result" where
  "package_setup sha cir role Kg Ke wireBuff ix masks r s otIdx prng idx p0 c0 =
     bind_r (CircuitPackage_init sha p0 cir prng idx Ke wireBuff ix masks) (\<lambda>(p, msgs, _, _).
     bind_r (CommCircuitPackage_init c0 cir Ke msgs idx) (\<lambda>c.
     bind_r (CircuitPackage_initOT sha p cir role Kg r otIdx) (\<lambda>(p, msg, _).
     bind_r (CommCircuitPackage_initOT c msg Kg s otIdx (Inputs cir role)) (\<lambda>(c, _). Inr (p, c)))))"

text \<open>What the two objects know of each other afterwards, and what the checks and the buckets rely on.\<close>

definition cp_offset :: "CircuitPackage \<Rightarrow> block" where
  "cp_offset p = free_xor_offset (EncKeyGen (cp_mCircuitSeed p))"

definition cp_masks :: "block list \<Rightarrow> nat \<Rightarrow> CircuitPackage \<Rightarrow> block list" where
  "cp_masks ix k p = ecb_new (EncKeyGen (cp_mAdaptiveSecureMaskSeed p)) ix k"

definition cp_garbled :: "Circuit \<Rightarrow> block list \<Rightarrow> nat \<Rightarrow> CircuitPackage \<Rightarrow> CommCircuitPackage \<Rightarrow> bool" where
  "cp_garbled cir ix k p c \<longleftrightarrow>
     mGlobalOffset (cp_mCircuit p) = cp_offset p
     \<and> mInputWires (cp_mCircuit p) = seed_wires cir (cp_mCircuitSeed p) ix
     \<and> mOutputWires (cp_mCircuit p) = map ((!) (fst (garbling cir (cp_mCircuitSeed p) ix (cp_masks ix k p)))) (mOutputs cir)
     \<and> holds_garbling (cc_mCircuit c) cir (cp_mCircuitSeed p) ix (cp_masks ix k p)"

definition cp_kprobe :: "(u8 list \<Rightarrow> u8 list) \<Rightarrow> block list \<Rightarrow> KProbeMatrix \<Rightarrow> CircuitPackage \<Rightarrow> CommCircuitPackage \<Rightarrow> bool" where
  "cp_kprobe sha ix Ke p c \<longleftrightarrow>
     cp_mKProbeInputs p = ecb_new (EncKeyGen (cp_mKProbeWireSeed p)) ix (kp_mEncodingSize Ke)
     \<and> cc_mMyKProbeInputCommit c
       = map (\<lambda>l. (Commit_block sha l, Commit_block sha (l XOR cp_offset p))) (cp_mKProbeInputs p)"

definition cp_output :: "(u8 list \<Rightarrow> u8 list) \<Rightarrow> Circuit \<Rightarrow> CircuitPackage \<Rightarrow> CommCircuitPackage \<Rightarrow> bool" where
  "cp_output sha cir p c \<longleftrightarrow>
     cc_mOutputCommit c = commit_hash sha (pair_bytes (circuit_output_hashes cir (cp_mCircuit p)))"

definition cp_permute :: "KProbeMatrix \<Rightarrow> CircuitPackage \<Rightarrow> nat \<Rightarrow> bool" where
  "cp_permute Kg p i = dec_bit Kg (bv_get (cp_mOTRecvChoices p)) i"

definition cp_input_label :: "Circuit \<Rightarrow> role \<Rightarrow> CircuitPackage \<Rightarrow> nat \<Rightarrow> bool \<Rightarrow> block" where
  "cp_input_label cir role p i b = lab (cp_offset p) (mInputWires (cp_mCircuit p) ! (input_start cir role + i)) b"

definition cp_inputs :: "(u8 list \<Rightarrow> u8 list) \<Rightarrow> Circuit \<Rightarrow> role \<Rightarrow> KProbeMatrix \<Rightarrow> CircuitPackage \<Rightarrow> CommCircuitPackage \<Rightarrow> bool" where
  "cp_inputs sha cir role Kg p c \<longleftrightarrow>
     cc_mTheirInputCommits c
     = map (\<lambda>i. (Commit_block sha (cp_input_label cir role p i (cp_permute Kg p i)),
                 Commit_block sha (cp_input_label cir role p i (\<not> cp_permute Kg p i)))) [0..<Inputs cir role]"

definition cp_ots :: "KProbeMatrix \<Rightarrow> CircuitPackage \<Rightarrow> CommCircuitPackage \<Rightarrow> bool" where
  "cp_ots Kg p c \<longleftrightarrow>
     bv_wf (cp_mOTRecvChoices p) \<and> bv_bits (cp_mOTRecvChoices p) = kp_mEncodingSize Kg
     \<and> (\<forall>t<kp_mEncodingSize Kg. OTRecvMsg p t = OTSendMsg c t (OTRecvChoices p t))"

definition package_pair ::
  "(u8 list \<Rightarrow> u8 list) \<Rightarrow> Circuit \<Rightarrow> role \<Rightarrow> KProbeMatrix \<Rightarrow> KProbeMatrix \<Rightarrow> block list \<Rightarrow> nat
   \<Rightarrow> CircuitPackage \<Rightarrow> CommCircuitPackage \<Rightarrow> bool" where
  "package_pair sha cir role Kg Ke ix k p c \<longleftrightarrow>
     cp_garbled cir ix k p c \<and> cp_kprobe sha ix Ke p c \<and> cp_output sha cir p c
     \<and> cp_inputs sha cir role Kg p c \<and> cp_ots Kg p c"

lemma recv_commit_pairs_row:
  "digest20 sha \<Longrightarrow> length row = n \<Longrightarrow> recv_commit_pairs n (concat (map (commit_pair_bytes sha) row))
     = Inr (map (\<lambda>p. (Commit_block sha (fst p), Commit_block sha (snd p))) row)"
  by (simp add: recv_commit_pairs_def apr_commit_pairs_row)

lemma kp_decode_bits:
  assumes "bv_bits enc = kp_mEncodingSize M"
  shows "\<exists>v. kp_decode M enc input = Inr v \<and> bv_wf v \<and> bv_bits v = length (kp_mMtx M)
             \<and> (\<forall>i<length (kp_mMtx M). bv_get v i = dec_bit M (bv_get enc) i)"
proof -
  obtain v where v: "kp_decode M enc input = Inr v" "bv_wf v"
    "bv_list v = map (dec_bit M (bv_get enc)) [0..<length (kp_mMtx M)]"
    using kp_decode_eq [OF assms, of input] by blast
  have l: "bv_bits v = length (kp_mMtx M)" using arg_cong [OF v(3), of length] by simp
  have "bv_get v i = dec_bit M (bv_get enc) i" if "i < length (kp_mMtx M)" for i
    using arg_cong [OF v(3), of "\<lambda>xs. xs ! i"] that l by simp
  then show ?thesis using v l by blast
qed

text \<open>Only the masks of the tables matter.\<close>

lemma garble_gates_masks:
  "take (2 * nonxor gs) m = take (2 * nonxor gs) m' \<Longrightarrow> 2 * nonxor gs \<le> length m \<Longrightarrow> 2 * nonxor gs \<le> length m'
   \<Longrightarrow> garble_gates R gs w t0 t1 m = garble_gates R gs w t0 t1 m'"
proof (induction R gs w t0 t1 m arbitrary: m' rule: garble_gates.induct)
  case (2 R g gs wires t0 t1 masks)
  show ?case
  proof (cases "is_xor (mType g)")
    case True
    then show ?thesis using 2 by (simp add: Let_def)
  next
    case False
    have t: "take (2 * nonxor gs + 2) masks = take (2 * nonxor gs + 2) m'" using 2(3) False by simp
    have "masks ! 0 = m' ! 0" "masks ! 1 = m' ! 1"
      using arg_cong [OF t, of "\<lambda>xs. xs ! 0"] arg_cong [OF t, of "\<lambda>xs. xs ! 1"] by simp_all
    moreover have "take (2 * nonxor gs) (drop 2 masks) = take (2 * nonxor gs) (drop 2 m')"
      using arg_cong [OF t, of "drop 2"] by (simp add: drop_take)
    ultimately show ?thesis using 2(2,4,5) False by (simp add: Let_def split: prod.splits)
  qed
qed simp

lemma garbling_masks:
  "half_ok cd ix m \<Longrightarrow> half_ok cd ix m' \<Longrightarrow> take (2 * mNonXorGateCount cd) m = take (2 * mNonXorGateCount cd) m'
   \<Longrightarrow> garbling cd seed ix m = garbling cd seed ix m'"
  unfolding garbling_def by (rule garble_gates_masks) (simp_all add: half_ok_def circuit_wf_def nonxor_def)

text \<open>Sizes: the buffers fit the circuit and the index array, as \<open>DualExActor::init\<close> sizes them.\<close>

definition package_sizes :: "Circuit \<Rightarrow> role \<Rightarrow> KProbeMatrix \<Rightarrow> KProbeMatrix \<Rightarrow> block list \<Rightarrow> nat \<Rightarrow> bool" where
  "package_sizes cir role Kg Ke ix k \<longleftrightarrow>
     circuit_wf cir \<and> garblable (mGates cir) \<and> InputWireCount cir \<le> length ix \<and> length ix < 2 ^ 32
     \<and> 2 * mNonXorGateCount cir \<le> k \<and> k \<le> length ix
     \<and> kp_wf Kg \<and> length (kp_mMtx Kg) = Inputs cir role
     \<and> kp_wf Ke \<and> length (kp_mMtx Ke) = Inputs cir (other role) \<and> kp_mEncodingSize Ke \<le> length ix"

text \<open>What makes every message of a setup one with bytes (tables, outputs, inputs of both parties) and with a
  length that fits the 32 bits of a message header. The index array counts from 0, as \<open>init\<close> asserts.\<close>

definition package_sendable :: "Circuit \<Rightarrow> block list \<Rightarrow> bool" where
  "package_sendable cir ix \<longleftrightarrow> circuit_sendable cir \<and> 0 < Inputs cir First \<and> 0 < Inputs cir Second
     \<and> ix ! 0 = ZeroBlock \<and> 40 * length ix < 2 ^ 32"

lemma package_sendable_inputs: "package_sendable cir ix \<Longrightarrow> 0 < Inputs cir role"
  by (cases role) (simp_all add: package_sendable_def)

lemma package_sizes_half_ok: "package_sizes cir role Kg Ke ix k \<Longrightarrow> length m = k \<Longrightarrow> half_ok cir ix m"
  by (simp add: package_sizes_def half_ok_def)

lemma length_cp_masks: "package_sizes cir role Kg Ke ix k \<Longrightarrow> length (cp_masks ix k p) = k"
  by (simp add: package_sizes_def cp_masks_def ecb_new_eq)

lemma cp_masks_prefix:
  assumes "package_sizes cir role Kg Ke ix k" and "package_sizes cir role Kg Ke ix k'"
  shows "garbling cir seed ix (cp_masks ix k p) = garbling cir seed ix (cp_masks ix k' p)"
proof (rule garbling_masks)
  show "half_ok cir ix (cp_masks ix k p)" "half_ok cir ix (cp_masks ix k' p)"
    using assms by (simp_all add: package_sizes_half_ok length_cp_masks)
  show "take (2 * mNonXorGateCount cir) (cp_masks ix k p) = take (2 * mNonXorGateCount cir) (cp_masks ix k' p)"
    using assms by (simp add: package_sizes_def cp_masks_def ecb_new_eq take_map)
qed

lemma commit_pairs_sent: "digest20 sha \<Longrightarrow> concat (map (commit_pair_bytes sha) rows) = [] \<longleftrightarrow> rows = []"
proof (cases rows)
  case (Cons r rs)
  assume "digest20 sha"
  from length_Commit_data [OF this, of "fst r"] have "Commit_data (Commit_block sha (fst r)) \<noteq> []" by auto
  then show ?thesis by (simp add: Cons)
qed simp

lemma package_sizes_commits:
  assumes "package_sizes cir role Kg Ke ix k" and "package_sendable cir ix" and "digest20 sha"
  shows "concat (map (\<lambda>l. Commit_data (Commit_block sha l) @ Commit_data (Commit_block sha (l XOR R)))
           (ecb_new key ix (kp_mEncodingSize Ke))) \<noteq> []"
proof -
  have "0 < length (kp_mMtx Ke)" using assms(1) package_sendable_inputs [OF assms(2), of "other role"] by (simp add: package_sizes_def)
  moreover have "length (kp_mMtx Ke) \<le> kp_mEncodingSize Ke" using assms(1) by (simp add: package_sizes_def kp_wf_def)
  ultimately have "0 < kp_mEncodingSize Ke" by linarith
  moreover have "length (ecb_new key ix (kp_mEncodingSize Ke)) = kp_mEncodingSize Ke"
    using assms(1) by (simp add: package_sizes_def ecb_new_eq)
  ultimately have "map (\<lambda>l. (l, l XOR R)) (ecb_new key ix (kp_mEncodingSize Ke)) \<noteq> []" by auto
  from commit_pairs_sent [OF assms(3), THEN iffD1, THEN notE [OF this]] show ?thesis by (auto simp: comp_def)
qed

lemma CircuitPackage_init_sends:
  assumes sha: "digest20 sha" and sz: "package_sizes cir role Kg Ke ix (length masks)" and sd: "package_sendable cir ix"
    and wb: "mWireCount cir \<le> length wireBuff"
  shows "\<exists>p msgs wb' g'. CircuitPackage_init sha p0 cir prng idx Ke wireBuff ix masks = Inr (p, msgs, wb', g')"
proof -
  obtain seed g1 where g1: "get_block prng = (seed, g1)" by fastforce
  obtain mseed g2 where g2: "get_block g1 = (mseed, g2)" by fastforce
  obtain kseed g3 where g3: "get_block g2 = (kseed, g3)" by fastforce
  define m where "m = ecb_new (EncKeyGen mseed) ix (length masks)"
  have ok: "half_ok cir ix m" using sz by (simp add: package_sizes_def half_ok_def m_def ecb_new_eq)
  have cs: "circuit_sendable cir" using sd by (simp add: package_sendable_def)
  obtain gc w msgs where gs: "GarbleSend (cp_mCircuit p0) cir seed wireBuff ix m = Inr (gc, w, msgs)"
    using GarbleSend_eq [OF ok wb cs, of "cp_mCircuit p0" seed] by blast
  have "length (commitToOutputs sha q cir) = HashSize" for q
    using sha by (simp add: commitToOutputs_def commit_hash_def Commit_data_words HashSize_def)
  then have o: "commitToOutputs sha q cir \<noteq> []" for q by (metis HashSize_def list.size(3) zero_neq_numeral)
  show ?thesis
    unfolding CircuitPackage_init_def g1 g2 prod.case Let_def m_def [symmetric] gs bind_r.simps g3 bind_r_Inr send_msgs_Inr
    using package_sizes_commits [OF sz sd sha, of "mGlobalOffset gc" "EncKeyGen kseed", THEN not_sym] o [THEN not_sym]
    by (auto simp del: concat_eq_Nil_conv Nil_eq_concat_conv)
qed

lemma CircuitPackage_init_choices:
  assumes "CircuitPackage_init sha p0 cir prng idx Ke wireBuff ix masks = Inr (p, msgs, wb', g')"
  shows "cp_mOTRecvChoices p = cp_mOTRecvChoices p0"
proof -
  obtain s0 g0 s1 g1 where g: "get_block prng = (s0, g0)" "get_block g0 = (s1, g1)" by fastforce
  show ?thesis using assms unfolding CircuitPackage_init_def by (auto simp: g Let_def bind_r_Inr split_beta)
qed

lemma CircuitPackage_init_ok:
  assumes sha: "digest20 sha" and sz: "package_sizes cir role Kg Ke ix (length masks)"
    and wb: "mWireCount cir \<le> length wireBuff"
    and i: "CircuitPackage_init sha p0 cir prng idx Ke wireBuff ix masks = Inr (p, msgs, wb', g')"
  shows "\<exists>c. CommCircuitPackage_init c0 cir Ke msgs idx = Inr c
     \<and> cp_garbled cir ix (length masks) p c \<and> cp_kprobe sha ix Ke p c \<and> cp_output sha cir p c"
proof -
  obtain seed g1 where g1: "get_block prng = (seed, g1)" by fastforce
  obtain mseed g2 where g2: "get_block g1 = (mseed, g2)" by fastforce
  obtain kseed g3 where g3: "get_block g2 = (kseed, g3)" by fastforce
  define m where "m = ecb_new (EncKeyGen mseed) ix (length masks)"
  have ok: "half_ok cir ix m" using sz by (simp add: package_sizes_def half_ok_def m_def ecb_new_eq)
  have cs: "circuit_sendable cir"
  proof (rule ccontr)
    assume "\<not> circuit_sendable cir"
    then have "GarbleSend (cp_mCircuit p0) cir seed wireBuff ix m = Inl RuntimeError"
      using GarbleSend_result [OF ok wb, of "cp_mCircuit p0" seed] by auto
    then show False using i unfolding CircuitPackage_init_def g1 prod.case Let_def g2 m_def [symmetric] by simp
  qed
  obtain gc w where gs: "GarbleSend (cp_mCircuit p0) cir seed wireBuff ix m
      = Inr (gc, w, [table_bytes (snd (garbling cir seed ix m)),
           take (bv_sizeBytes (mTranslationTable (Garble (cp_mCircuit p0) cir seed ix m)))
             (bv_data (mTranslationTable (Garble (cp_mCircuit p0) cir seed ix m)))])"
    and gc: "mInputWires gc = seed_wires cir seed ix" "mGlobalOffset gc = free_xor_offset (EncKeyGen seed)"
      "mOutputWires gc = map ((!) (fst (garbling cir seed ix m))) (mOutputs cir)"
    using GarbleSend_eq [OF ok wb cs, of "cp_mCircuit p0" seed] unfolding Garble_inputs [OF ok] Garble_garbling(2,5) by blast
  from ReceiveFromGarbler_holds [OF ok, of "cc_mCircuit c0" seed "cp_mCircuit p0"] obtain gc2 where
    rc: "ReceiveFromGarbler (cc_mCircuit c0) cir (table_bytes (snd (garbling cir seed ix m)))
           (take (bv_sizeBytes (mTranslationTable (Garble (cp_mCircuit p0) cir seed ix m)))
             (bv_data (mTranslationTable (Garble (cp_mCircuit p0) cir seed ix m)))) = Inr gc2"
    "holds_garbling gc2 cir seed ix m" by blast
  define K where "K = ecb_new (EncKeyGen kseed) ix (kp_mEncodingSize Ke)"
  define rows where "rows = map (\<lambda>l. (l, l XOR mGlobalOffset gc)) K"
  define P where "P = p0\<lparr>cp_mIdx := idx, cp_mCircuitSeed := seed, cp_mAdaptiveSecureMaskSeed := mseed,
                    cp_mCircuit := gc, cp_mKProbeWireSeed := kseed, cp_mKProbeInputs := K\<rparr>"
  have "CircuitPackage_init sha p0 cir prng idx Ke wireBuff ix masks
      = bind_r (send_msgs [concat (map (commit_pair_bytes sha) rows), commitToOutputs sha P cir]) (\<lambda>_. Inr (P, [table_bytes (snd (garbling cir seed ix m)),
           take (bv_sizeBytes (mTranslationTable (Garble (cp_mCircuit p0) cir seed ix m)))
             (bv_data (mTranslationTable (Garble (cp_mCircuit p0) cir seed ix m))),
           concat (map (commit_pair_bytes sha) rows), commitToOutputs sha P cir], w, g3))"
    unfolding CircuitPackage_init_def g1 prod.case Let_def g2 m_def [symmetric] gs bind_r.simps g3 K_def [symmetric] P_def [symmetric]
    by (simp add: rows_def comp_def)
  note e = this [unfolded i, symmetric, unfolded bind_r_Inr sum.inject prod.inject]
  have p: "p = P" using e by blast
  have msgs: "msgs = [table_bytes (snd (garbling cir seed ix m)),
           take (bv_sizeBytes (mTranslationTable (Garble (cp_mCircuit p0) cir seed ix m)))
             (bv_data (mTranslationTable (Garble (cp_mCircuit p0) cir seed ix m))),
           concat (map (commit_pair_bytes sha) rows), commitToOutputs sha p cir]"
    unfolding p using e by blast
  have k: "recv_commit_pairs (kp_mEncodingSize Ke) (concat (map (commit_pair_bytes sha) rows))
      = Inr (map (\<lambda>l. (Commit_block sha l, Commit_block sha (l XOR mGlobalOffset gc))) K)"
    using sz by (subst recv_commit_pairs_row [OF sha]) (simp_all add: rows_def K_def package_sizes_def ecb_new_eq comp_def)
  have o: "length (commitToOutputs sha p cir) = HashSize"
    "Commit_of_data (commitToOutputs sha p cir) = commit_hash sha (pair_bytes (circuit_output_hashes cir (cp_mCircuit p)))"
    using sha by (simp_all add: commitToOutputs_def commit_hash_def Commit_of_data_def Commit_data_words HashSize_def)
  define c where "c = c0\<lparr>cc_mIdx := idx, cc_mCircuit := gc2,
      cc_mMyKProbeInputCommit := map (\<lambda>l. (Commit_block sha l, Commit_block sha (l XOR mGlobalOffset gc))) K,
      cc_mOutputCommit := commit_hash sha (pair_bytes (circuit_output_hashes cir (cp_mCircuit p)))\<rparr>"
  have "CommCircuitPackage_init c0 cir Ke msgs idx = Inr c"
    by (simp add: CommCircuitPackage_init_def msgs rc(1) k o c_def)
  moreover have "cp_garbled cir ix (length masks) p c \<and> cp_kprobe sha ix Ke p c \<and> cp_output sha cir p c"
    using gc rc(2) by (simp add: cp_garbled_def cp_kprobe_def cp_output_def c_def p P_def cp_offset_def cp_masks_def m_def K_def)
  ultimately show ?thesis by blast
qed

lemma CircuitPackage_initOT_ok:
  assumes sha: "digest20 sha" and K: "kp_wf Kg" "length (kp_mMtx Kg) = Inputs cir role" and I: "0 < Inputs cir role"
    and ot: "ot_agreed s r N" "otIdx + kp_mEncodingSize Kg \<le> N"
    and gc: "mGlobalOffset (cp_mCircuit p0) = cp_offset p0" and wf: "bv_wf (cp_mOTRecvChoices p0)"
  shows "\<exists>p msg k. CircuitPackage_initOT sha p0 cir role Kg r otIdx = Inr (p, msg, k)
     \<and> (\<exists>q. p = p0\<lparr>cp_mRecvOT := r, cp_mOTStartIdx := otIdx, cp_mOTRecvChoices := q\<rparr>)
     \<and> (\<exists>c. CommCircuitPackage_initOT c0 msg Kg s otIdx (Inputs cir role) = Inr (c, k)
          \<and> (\<exists>ic. c = c0\<lparr>cc_mTheirInputCommits := ic, cc_mOTSend := s, cc_mOTStartIdx := otIdx,
                          cc_mOTCount := kp_mEncodingSize Kg\<rparr>)
          \<and> cp_inputs sha cir role Kg p c \<and> cp_ots Kg p c)"
proof -
  let ?e = "kp_mEncodingSize Kg"
  define ch where "ch = bv_copy (cp_mOTRecvChoices p0) (snd r) otIdx ?e"
  define p where "p = p0\<lparr>cp_mRecvOT := r, cp_mOTStartIdx := otIdx, cp_mOTRecvChoices := ch\<rparr>"
  note c = ot_agreed_choice [OF ot(1)]
  have b: "otIdx + ?e \<le> bv_bits (snd r)" using c ot(2) by simp
  have f: "bv_fits ?e" using K by (simp add: kp_wf_def)
  note cp = bv_copy_list [OF wf _ b f, folded ch_def]
  have ch: "bv_wf ch" "bv_bits ch = ?e" using cp(2) c by (simp_all add: ch_def)
  have get: "bv_get ch t = bv_get (snd r) (otIdx + t)" if "t < ?e" for t
  proof -
    have "bv_list ch ! t = bv_list (snd r) ! (otIdx + t)" using cp(1) c b that by simp
    then show ?thesis using that b ch by simp
  qed
  obtain v where v: "kp_decode Kg ch bv_empty = Inr v"
      "\<forall>i<length (kp_mMtx Kg). bv_get v i = dec_bit Kg (bv_get ch) i"
    using kp_decode_bits [OF ch(2), of bv_empty] by blast
  define row where "row = map (\<lambda>i. (cp_input_label cir role p i (bv_get v i), cp_input_label cir role p i (\<not> bv_get v i)))
      [0..<Inputs cir role]"
  define msg where "msg = concat (map (commit_pair_bytes sha) row)"
  have off: "mGlobalOffset (cp_mCircuit p) = cp_offset p" using gc by (simp add: p_def cp_offset_def)
  have byt: "(let permute = bv_get v i; label0 = mInputWires (cp_mCircuit p) ! (input_start cir role + i);
            label1 = label0 XOR mGlobalOffset (cp_mCircuit p)
        in Commit_data (Commit_block sha (if permute then label1 else label0))
           @ Commit_data (Commit_block sha (if permute then label0 else label1)))
      = commit_pair_bytes sha (cp_input_label cir role p i (bv_get v i), cp_input_label cir role p i (\<not> bv_get v i))" for i
    by (cases "bv_get v i") (simp_all add: off cp_input_label_def Let_def)
  have "cp_mOTRecvChoices p = ch" by (simp add: p_def)
  moreover have "row \<noteq> []" using I by (simp add: row_def)
  then have "send_msgs [msg] = Inr ()" using commit_pairs_sent [OF sha, of row] by (auto simp: msg_def)
  ultimately have "commitToInputs sha p cir Kg role = Inr msg"
    unfolding commitToInputs_def v(1) bind_r.simps byt msg_def row_def
    by (simp only: v(1) bind_r.simps byt map_map comp_def Let_def [of "concat _"])
  then have 1: "CircuitPackage_initOT sha p0 cir role Kg r otIdx = Inr (p, msg, otIdx + ?e)"
    by (simp add: CircuitPackage_initOT_def Let_def p_def ch_def)
  define ic where "ic = map (\<lambda>q. (Commit_block sha (fst q), Commit_block sha (snd q))) row"
  define c where "c = c0\<lparr>cc_mTheirInputCommits := ic, cc_mOTSend := s, cc_mOTStartIdx := otIdx, cc_mOTCount := ?e\<rparr>"
  have 2: "CommCircuitPackage_initOT c0 msg Kg s otIdx (Inputs cir role) = Inr (c, otIdx + ?e)"
    using recv_commit_pairs_row [OF sha, of row "Inputs cir role"]
    by (simp add: CommCircuitPackage_initOT_def msg_def row_def ic_def c_def)
  have 3: "cp_inputs sha cir role Kg p c"
    using v(2) K(2) by (simp add: cp_inputs_def c_def ic_def row_def cp_permute_def p_def comp_def)
  have "OTRecvMsg p t = OTSendMsg c t (OTRecvChoices p t)" if "t < ?e" for t
    using ote.pad_received [OF ot(1), of "otIdx + t"] ot(2) that get
    by (simp add: OTRecvMsg_def OTSendMsg_def OTRecvChoices_def p_def c_def)
  then have 4: "cp_ots Kg p c" using ch by (simp add: cp_ots_def p_def)
  from 1 2 3 4 show ?thesis unfolding p_def c_def by blast
qed

section \<open>Opening\<close>

text \<open>The package an honest garbler builds from the seeds and choice bits that are revealed.\<close>

definition rebuilt_package ::
  "Circuit \<Rightarrow> KProbeMatrix \<Rightarrow> block list \<Rightarrow> nat \<Rightarrow> block \<Rightarrow> block \<Rightarrow> block \<Rightarrow> bitvec \<Rightarrow> CircuitPackage" where
  "rebuilt_package cir Ke ix k seed kseed mseed choices =
     \<lparr>cp_mIdx = 0, cp_mCircuitSeed = seed, cp_mKProbeWireSeed = kseed,
      cp_mCircuit = Garble HalfGt_new cir seed ix (ecb_new (EncKeyGen mseed) ix k), cp_mOTStartIdx = 0,
      cp_mKProbeInputs = ecb_new (EncKeyGen kseed) ix (kp_mEncodingSize Ke), cp_mRecvOT = ([], bv_empty),
      cp_mOTRecvChoices = choices, cp_mAdaptiveSecureMaskSeed = mseed\<rparr>"

text \<open>What \<open>init\<close> and \<open>initOT\<close> guarantee of a received package, whoever sent it.\<close>

definition package_received :: "Circuit \<Rightarrow> role \<Rightarrow> KProbeMatrix \<Rightarrow> CommCircuitPackage \<Rightarrow> bool" where
  "package_received cir role Ke c \<longleftrightarrow>
     length (mTables (cc_mCircuit c)) = mNonXorGateCount cir
     \<and> bv_bits (mTranslationTable (cc_mCircuit c)) = mOutputCount cir
     \<and> length (cc_mMyKProbeInputCommit c) = kp_mEncodingSize Ke
     \<and> length (cc_mTheirInputCommits c) = Inputs cir role
     \<and> length (cc_mOutputCommit c) = 5
     \<and> (\<forall>q \<in> set (cc_mMyKProbeInputCommit c) \<union> set (cc_mTheirInputCommits c). length (fst q) = 5 \<and> length (snd q) = 5)"

lemma Commit_eq_5: "length a = 5 \<Longrightarrow> length b = 5 \<Longrightarrow> Commit_eq a b \<longleftrightarrow> a = b"
  by (auto simp: Commit_eq_iff intro: nth_equalityI)

lemma length_commit_hash [simp]: "digest20 sha \<Longrightarrow> length (commit_hash sha d) = 5"
  by (simp add: commit_hash_def length_words_of_bytes HashSize_def)

lemma length_Commit_block [simp]: "digest20 sha \<Longrightarrow> length (Commit_block sha b) = 5"
  by (simp add: Commit_block_def)

lemma check_commit_pair_Inr:
  "check_commit_pair sha c l0 l1 = Inr u \<longleftrightarrow> Commit_eq (fst c) (Commit_block sha l0) \<and> Commit_eq (snd c) (Commit_block sha l1)"
  by (simp add: check_commit_pair_def bind_r_Inr)

lemma recv_block_ByteArray [simp]: "recv_block (ByteArray b) = Inr b"
  by (simp add: recv_block_def)

lemma circuit_output_hashes_cong:
  "mGlobalOffset gc = mGlobalOffset gc' \<Longrightarrow> mOutputWires gc = mOutputWires gc'
   \<Longrightarrow> circuit_output_hashes cir gc = circuit_output_hashes cir gc'"
  by (simp add: circuit_output_hashes_def)

lemma commits_as_map:
  assumes "digest20 sha" and "length cs = n" and "\<forall>q\<in>set cs. length (fst q) = 5 \<and> length (snd q) = 5"
  shows "(\<forall>i<n. Commit_eq (fst (cs ! i)) (Commit_block sha (f i)) \<and> Commit_eq (snd (cs ! i)) (Commit_block sha (g i)))
    \<longleftrightarrow> cs = map (\<lambda>i. (Commit_block sha (f i), Commit_block sha (g i))) [0..<n]"
proof -
  have "(Commit_eq (fst (cs ! i)) (Commit_block sha (f i)) \<and> Commit_eq (snd (cs ! i)) (Commit_block sha (g i)))
      \<longleftrightarrow> cs ! i = (Commit_block sha (f i), Commit_block sha (g i))" if "i < n" for i
    using assms that by (simp add: Commit_eq_5 prod_eq_iff)
  then show ?thesis using assms(2) by (auto simp: list_eq_iff_nth_eq)
qed

abbreviation opening_choices :: "KProbeMatrix \<Rightarrow> u8 list \<Rightarrow> bitvec" where
  "opening_choices Kg msg \<equiv>
     (bv_reset bv_empty (kp_mEncodingSize Kg))\<lparr>bv_data := blit (bv_data (bv_reset bv_empty (kp_mEncodingSize Kg))) 0 msg\<rparr>"

lemma open_Inr_iff:
  assumes sha: "digest20 sha" and sz: "package_sizes cir role Kg Ke ix (length buf)"
    and rc: "package_received cir role Ke c" and ch: "length ch = (kp_mEncodingSize Kg + 7) div 8"
  shows "CommCircuitPackage_open sha c cir Kg Ke (other role)
      [ByteArray seed, ByteArray kseed, ByteArray mseed, ch] acc ix buf = Inr (c', acc')
    \<longleftrightarrow> (let p = rebuilt_package cir Ke ix (length buf) seed kseed mseed (opening_choices Kg ch)
         in cp_garbled cir ix (length buf) p c \<and> cp_kprobe sha ix Ke p c \<and> cp_output sha cir p c \<and> cp_inputs sha cir role Kg p c
            \<and> c' = CommCircuitPackage_clear (c\<lparr>cc_mCircuit := (cc_mCircuit c)
                     \<lparr>mGlobalOffset := cp_offset p, mOutputWires := mOutputWires (cp_mCircuit p),
                      mInputWires := mInputWires (cp_mCircuit p)\<rparr>\<rparr>)
            \<and> acc' = fold (\<lambda>i sum. sum XOR OTSendMsg c i (bv_get (opening_choices Kg ch) i)) [0..<kp_mEncodingSize Kg] acc)"
proof -
  let ?m = "ecb_new (EncKeyGen mseed) ix (length buf)" and ?q = "opening_choices Kg ch"
  let ?R = "free_xor_offset (EncKeyGen seed)"
  let ?K = "ecb_new (EncKeyGen kseed) ix (kp_mEncodingSize Ke)"
  let ?p = "rebuilt_package cir Ke ix (length buf) seed kseed mseed ?q"
  let ?gc = "(cc_mCircuit c)\<lparr>mGlobalOffset := ?R, mOutputWires := mOutputWires (cp_mCircuit ?p),
                      mInputWires := mInputWires (cp_mCircuit ?p)\<rparr>"
  have ok: "half_ok cir ix ?m" using sz by (simp add: package_sizes_def half_ok_def ecb_new_eq)
  have p: "cp_offset ?p = ?R" "cp_masks ix (length buf) ?p = ?m" "cp_mCircuitSeed ?p = seed" "cp_mKProbeInputs ?p = ?K"
      "cp_mKProbeWireSeed ?p = kseed" "cp_mOTRecvChoices ?p = ?q" "mGlobalOffset (cp_mCircuit ?p) = ?R"
      "mInputWires (cp_mCircuit ?p) = seed_wires cir seed ix"
      "mOutputWires (cp_mCircuit ?p) = map ((!) (fst (garbling cir seed ix ?m))) (mOutputs cir)"
    by (simp_all only: rebuilt_package_def CircuitPackage.simps cp_offset_def cp_masks_def Garble_garbling(2,5) Garble_inputs [OF ok])
  have val: "Validate (cc_mCircuit c) cir seed ix ?m = Inr gc \<longleftrightarrow> cp_garbled cir ix (length buf) ?p c \<and> gc = ?gc" for gc
    using rc by (auto simp: Validate_iff [OF ok] package_received_def cp_garbled_def p)
  have kl: "length ?K = kp_mEncodingSize Ke" using sz by (simp add: package_sizes_def ecb_new_eq)
  have mk: "map f [0..<kp_mEncodingSize Ke] = map (\<lambda>l. g l) ?K" if "\<And>i. i < kp_mEncodingSize Ke \<Longrightarrow> f i = g (?K ! i)"
    for f :: "nat \<Rightarrow> commit \<times> commit" and g using that kl by (intro nth_equalityI) simp_all
  have kp: "(\<forall>i<kp_mEncodingSize Ke. Commit_eq (fst (cc_mMyKProbeInputCommit c ! i)) (Commit_block sha (?K ! i))
        \<and> Commit_eq (snd (cc_mMyKProbeInputCommit c ! i)) (Commit_block sha (?K ! i XOR ?R))) \<longleftrightarrow> cp_kprobe sha ix Ke ?p c"
    using commits_as_map [OF sha, of "cc_mMyKProbeInputCommit c" "kp_mEncodingSize Ke" "\<lambda>i. ?K ! i" "\<lambda>i. ?K ! i XOR ?R"] rc
    by (simp add: package_received_def cp_kprobe_def p mk [of _ "\<lambda>l. (Commit_block sha l, Commit_block sha (l XOR ?R))"])
  have out: "Commit_eq (cc_mOutputCommit c) (commit_hash sha (pair_bytes (circuit_output_hashes cir ?gc))) \<longleftrightarrow> cp_output sha cir ?p c"
    using rc sha circuit_output_hashes_cong [of ?gc "cp_mCircuit ?p" cir]
    by (simp add: Commit_eq_5 package_received_def cp_output_def p)
  have rv: "bv_recv (bv_reset bv_empty (kp_mEncodingSize Kg)) ch = Inr ?q"
    using ch by (simp add: bv_recv_def bv_sizeBytes_def)
  obtain v where v: "kp_decode Kg ?q bv_empty = Inr v" "bv_bits v = Inputs cir role"
      "\<forall>i<Inputs cir role. bv_get v i = dec_bit Kg (bv_get ?q) i"
    using kp_decode_bits [of ?q Kg bv_empty] sz by (auto simp: package_sizes_def)
  have lab: "(if bv_get v i then mInputWires ?gc ! (input_start cir role + i) XOR mGlobalOffset ?gc else mInputWires ?gc ! (input_start cir role + i))
        = cp_input_label cir role ?p i (cp_permute Kg ?p i)"
      "(if bv_get v i then mInputWires ?gc ! (input_start cir role + i) else mInputWires ?gc ! (input_start cir role + i) XOR mGlobalOffset ?gc)
        = cp_input_label cir role ?p i (\<not> cp_permute Kg ?p i)" if "i < Inputs cir role" for i
    using v(3) that by (simp_all add: cp_input_label_def cp_permute_def p)
  have oo: "other (other role) = role" by (cases role) simp_all
  have icl: "length (cc_mTheirInputCommits c) = Inputs cir role"
      "\<forall>q\<in>set (cc_mTheirInputCommits c). length (fst q) = 5 \<and> length (snd q) = 5"
    using rc by (simp_all add: package_received_def)
  have inp: "each_r (\<lambda>i. let label0 = mInputWires ?gc ! (input_start cir (other (other role)) + i);
                           label1 = label0 XOR mGlobalOffset ?gc; permute = bv_get v i
                       in check_commit_pair sha (cc_mTheirInputCommits c ! i)
                            (if permute then label1 else label0) (if permute then label0 else label1))
                     [0..<bv_bits v] = Inr u \<longleftrightarrow> cp_inputs sha cir role Kg ?p c" for u
    unfolding oo each_r_Inr Let_def check_commit_pair_Inr v(2) cp_inputs_def commits_as_map [OF sha icl, symmetric]
    by (simp add: lab Ball_def)
  have kp': "each_r (\<lambda>i. check_commit_pair sha (cc_mMyKProbeInputCommit c ! i) (?K!i) (?K!i XOR mGlobalOffset ?gc))
      [0..<kp_mEncodingSize Ke] = Inr u \<longleftrightarrow> cp_kprobe sha ix Ke ?p c" for u
    unfolding each_r_Inr check_commit_pair_Inr kp [symmetric] by (simp add: p Ball_def)
  have nth: "[ByteArray seed, ByteArray kseed, ByteArray mseed, ch] ! 0 = ByteArray seed"
    "[ByteArray seed, ByteArray kseed, ByteArray mseed, ch] ! 1 = ByteArray kseed"
    "[ByteArray seed, ByteArray kseed, ByteArray mseed, ch] ! 2 = ByteArray mseed"
    "[ByteArray seed, ByteArray kseed, ByteArray mseed, ch] ! 3 = ch" by simp_all
  have ex: "(\<exists>gc. (A \<and> gc = ?gc) \<and> Q gc) \<longleftrightarrow> A \<and> Q ?gc" for A Q by blast
  show ?thesis
    unfolding CommCircuitPackage_open_def nth recv_block_ByteArray bind_r.simps bind_r_Inr [of "Validate _ _ _ _ _"] val ex Let_def [of ?K]
      bind_r_Inr [of "each_r _ _"] bind_r_Inr [of "require _ _"] kp' require_Inr out rv
    unfolding Let_def [of "fold _ _ _"] v(1) bind_r.simps bind_r_Inr [of "each_r _ _"] inp
    unfolding Let_def sum.inject prod.inject p(1) by blast
qed

lemma dec_bit_arg_cong:
  assumes "kp_wf M" and "i < length (kp_mMtx M)" and "\<And>j. j < kp_mEncodingSize M \<Longrightarrow> e j = f j"
  shows "dec_bit M e i = dec_bit M f i"
proof -
  have m: "kp_mEncodingSize M = kp_h M + length (kp_mMtx M)" using assms(1) by (auto simp: kp_wf_def kp_h_def)
  have "row_dot (kp_mMtx M ! i) (kp_h M) e = row_dot (kp_mMtx M ! i) (kp_h M) f"
    by (rule row_dot_cong) (simp add: assms(3) m)
  then show ?thesis using assms(2,3) m by (simp add: dec_bit_def)
qed

lemma package_setup_ok:
  assumes sha: "digest20 sha" and sd: "package_sendable cir ix" and sz: "package_sizes cir role Kg Ke ix (length masks)"
    and wb: "mWireCount cir \<le> length wireBuff"
    and ot: "ot_agreed s r N" "otIdx + kp_mEncodingSize Kg \<le> N" and wf: "bv_wf (cp_mOTRecvChoices p0)"
  shows "\<exists>p c. package_setup sha cir role Kg Ke wireBuff ix masks r s otIdx prng idx p0 c0 = Inr (p, c)
     \<and> package_pair sha cir role Kg Ke ix (length masks) p c"
proof -
  obtain p1 msgs wb' g' where i: "CircuitPackage_init sha p0 cir prng idx Ke wireBuff ix masks = Inr (p1, msgs, wb', g')"
    using CircuitPackage_init_sends [OF sha sz sd wb] by metis
  from CircuitPackage_init_ok [OF sha sz wb i, of c0] obtain c1 where
    c1: "CommCircuitPackage_init c0 cir Ke msgs idx = Inr c1" "cp_garbled cir ix (length masks) p1 c1"
      "cp_kprobe sha ix Ke p1 c1" "cp_output sha cir p1 c1" by blast
  have wf1: "bv_wf (cp_mOTRecvChoices p1)" using wf CircuitPackage_init_choices [OF i] by simp
  have K: "kp_wf Kg" "length (kp_mMtx Kg) = Inputs cir role" using sz by (simp_all add: package_sizes_def)
  have g: "mGlobalOffset (cp_mCircuit p1) = cp_offset p1" using c1(2) by (simp add: cp_garbled_def)
  from CircuitPackage_initOT_ok [OF sha K package_sendable_inputs [OF sd] ot g wf1, of c1] obtain p msg k q c ic where
    o: "CircuitPackage_initOT sha p1 cir role Kg r otIdx = Inr (p, msg, k)"
      "p = p1\<lparr>cp_mRecvOT := r, cp_mOTStartIdx := otIdx, cp_mOTRecvChoices := q\<rparr>"
      "CommCircuitPackage_initOT c1 msg Kg s otIdx (Inputs cir role) = Inr (c, k)"
      "c = c1\<lparr>cc_mTheirInputCommits := ic, cc_mOTSend := s, cc_mOTStartIdx := otIdx, cc_mOTCount := kp_mEncodingSize Kg\<rparr>"
      "cp_inputs sha cir role Kg p c" "cp_ots Kg p c" by blast
  have "package_setup sha cir role Kg Ke wireBuff ix masks r s otIdx prng idx p0 c0 = Inr (p, c)"
    using i c1(1) o(1,3) by (simp add: package_setup_def)
  moreover have "cp_garbled cir ix (length masks) p c" "cp_kprobe sha ix Ke p c" "cp_output sha cir p c"
    using c1(2-4) by (simp_all add: o(2,4) cp_garbled_def cp_kprobe_def cp_output_def cp_offset_def cp_masks_def)
  ultimately show ?thesis using o(5,6) by (auto simp: package_pair_def)
qed

lemma package_pair_received:
  assumes sha: "digest20 sha" and sz: "package_sizes cir role Kg Ke ix k" and pp: "package_pair sha cir role Kg Ke ix k p c"
  shows "package_received cir role Ke c"
proof -
  have ok: "half_ok cir ix (cp_masks ix k p)" using sz by (simp add: package_sizes_half_ok length_cp_masks)
  have "kp_mEncodingSize Ke \<le> length ix" "length ix < 2 ^ 32" using sz by (simp_all add: package_sizes_def)
  then have "length (ecb_new (EncKeyGen (cp_mKProbeWireSeed p)) ix (kp_mEncodingSize Ke)) = kp_mEncodingSize Ke"
    by (simp add: ecb_new_eq)
  then show ?thesis
    using pp sha garbling_shape(3) [OF ok, of "cp_mCircuitSeed p"]
    by (auto simp: package_pair_def package_received_def cp_garbled_def cp_kprobe_def cp_output_def cp_inputs_def holds_garbling_def)
qed

text \<open>The opening of an honest package rebuilds it.\<close>

lemma package_pair_rebuilt:
  fixes p :: CircuitPackage
  defines "q \<equiv> \<lambda>Kg Ke cir ix k. rebuilt_package cir Ke ix k (cp_mCircuitSeed p) (cp_mKProbeWireSeed p)
      (cp_mAdaptiveSecureMaskSeed p) (opening_choices Kg (bv_message (cp_mOTRecvChoices p)))"
  assumes sz: "package_sizes cir role Kg Ke ix k" "package_sizes cir role Kg Ke ix k'"
    and pp: "package_pair sha cir role Kg Ke ix k p c"
  shows "cp_garbled cir ix k' (q Kg Ke cir ix k') c" and "cp_kprobe sha ix Ke (q Kg Ke cir ix k') c"
    and "cp_output sha cir (q Kg Ke cir ix k') c" and "cp_inputs sha cir role Kg (q Kg Ke cir ix k') c"
    and "t < kp_mEncodingSize Kg \<Longrightarrow> bv_get (opening_choices Kg (bv_message (cp_mOTRecvChoices p))) t = OTRecvChoices p t"
proof -
  let ?q = "q Kg Ke cir ix k'" and ?m = "ecb_new (EncKeyGen (cp_mAdaptiveSecureMaskSeed p)) ix k'"
  have ch: "bv_wf (cp_mOTRecvChoices p)" "bv_bits (cp_mOTRecvChoices p) = kp_mEncodingSize Kg"
    using pp by (simp_all add: package_pair_def cp_ots_def)
  note rb = bv_bytes_received(3) [OF ch, of _ bv_empty]
  show get: "bv_get (opening_choices Kg (bv_message (cp_mOTRecvChoices p))) t = OTRecvChoices p t"
    if "t < kp_mEncodingSize Kg" for t
    using rb [OF that] by (simp add: bv_message_def OTRecvChoices_def)
  have ok: "half_ok cir ix ?m" using sz(2) by (simp add: package_sizes_def half_ok_def ecb_new_eq)
  have f: "cp_offset ?q = cp_offset p" "cp_masks ix k' ?q = cp_masks ix k' p" "cp_mCircuitSeed ?q = cp_mCircuitSeed p"
      "cp_mKProbeInputs ?q = ecb_new (EncKeyGen (cp_mKProbeWireSeed p)) ix (kp_mEncodingSize Ke)"
      "cp_mKProbeWireSeed ?q = cp_mKProbeWireSeed p" "mGlobalOffset (cp_mCircuit ?q) = cp_offset p"
      "mInputWires (cp_mCircuit ?q) = seed_wires cir (cp_mCircuitSeed p) ix"
      "mOutputWires (cp_mCircuit ?q) = map ((!) (fst (garbling cir (cp_mCircuitSeed p) ix (cp_masks ix k' p)))) (mOutputs cir)"
      "cp_mOTRecvChoices ?q = opening_choices Kg (bv_message (cp_mOTRecvChoices p))"
    by (simp_all only: q_def rebuilt_package_def CircuitPackage.simps cp_offset_def cp_masks_def Garble_garbling(2,5) Garble_inputs [OF ok])
  have mk: "garbling cir (cp_mCircuitSeed p) ix (cp_masks ix k' p) = garbling cir (cp_mCircuitSeed p) ix (cp_masks ix k p)"
    by (rule cp_masks_prefix [OF sz(2,1)])
  show "cp_garbled cir ix k' ?q c" using pp by (simp add: package_pair_def cp_garbled_def f mk holds_garbling_def)
  show "cp_kprobe sha ix Ke ?q c" using pp by (simp add: package_pair_def cp_kprobe_def f)
  have "circuit_output_hashes cir (cp_mCircuit ?q) = circuit_output_hashes cir (cp_mCircuit p)"
    using pp by (intro circuit_output_hashes_cong) (simp_all add: package_pair_def cp_garbled_def f mk)
  then show "cp_output sha cir ?q c" using pp by (simp add: package_pair_def cp_output_def)
  have "cp_permute Kg ?q i = cp_permute Kg p i" if "i < Inputs cir role" for i
    unfolding cp_permute_def f
    by (rule dec_bit_arg_cong) (use sz(1) that get in \<open>auto simp: package_sizes_def OTRecvChoices_def\<close>)
  moreover have "cp_input_label cir role ?q i b = cp_input_label cir role p i b" for i b
    using pp by (simp add: cp_input_label_def f package_pair_def cp_garbled_def)
  ultimately show "cp_inputs sha cir role Kg ?q c"
    using pp by (simp add: package_pair_def cp_inputs_def)
qed

lemma fold_xor_cong: "(\<And>i. i \<in> set is \<Longrightarrow> f i = g i) \<Longrightarrow> fold (\<lambda>i acc. acc XOR f i) is a = fold (\<lambda>i acc. acc XOR g i) is (a :: block)"
  by (rule fold_cong) simp_all

lemma package_pair_opens:
  assumes sha: "digest20 sha" and sz: "package_sizes cir role Kg Ke ix k" "package_sizes cir role Kg Ke ix (length buf)"
    and pp: "package_pair sha cir role Kg Ke ix k p c"
  shows "\<exists>c'. CommCircuitPackage_open sha c cir Kg Ke (other role) (fst (CircuitPackage_open p acc)) acc ix buf
      = Inr (c', snd (snd (CircuitPackage_open p acc)))"
proof -
  have ch: "bv_wf (cp_mOTRecvChoices p)" "bv_bits (cp_mOTRecvChoices p) = kp_mEncodingSize Kg"
    "\<forall>t<kp_mEncodingSize Kg. OTRecvMsg p t = OTSendMsg c t (OTRecvChoices p t)"
    using pp by (simp_all add: package_pair_def cp_ots_def)
  have l: "length (bv_message (cp_mOTRecvChoices p)) = (kp_mEncodingSize Kg + 7) div 8"
    using ch(1,2) by (simp add: bv_message_def bv_wf_def bv_sizeBytes_def)
  note rb = package_pair_rebuilt [OF sz pp]
  have "fold (\<lambda>i acc. acc XOR OTSendMsg c i (bv_get (opening_choices Kg (bv_message (cp_mOTRecvChoices p))) i)) [0..<kp_mEncodingSize Kg] acc
      = snd (snd (CircuitPackage_open p acc))"
    unfolding CircuitPackage_open_def snd_conv ch(2) by (rule fold_xor_cong) (simp add: ch(3) rb(5))
  then show ?thesis
    unfolding CircuitPackage_open_def fst_conv
      open_Inr_iff [OF sha sz(2) package_pair_received [OF sha sz(1) pp] l] Let_def
    using rb(1-4) by simp
qed

section \<open>Properties\<close>


text \<open>A circuit and matrices for the instances: both parties have one input.\<close>

definition kp_one :: KProbeMatrix where
  "kp_one = \<lparr>kp_mEncodingSize = 3, kp_mMtx = [bv_put (bv_reset bv_empty 2) 1 True], kp_mSignature = 0\<rparr>"

definition CircuitPackage_new :: CircuitPackage where
  "CircuitPackage_new = \<lparr>cp_mIdx = 0, cp_mCircuitSeed = 0, cp_mKProbeWireSeed = 0, cp_mCircuit = HalfGt_new,
     cp_mOTStartIdx = 0, cp_mKProbeInputs = [], cp_mRecvOT = ([], bv_empty), cp_mOTRecvChoices = bv_empty,
     cp_mAdaptiveSecureMaskSeed = 0\<rparr>"

definition CommCircuitPackage_new :: CommCircuitPackage where
  "CommCircuitPackage_new = \<lparr>cc_mIdx = 0, cc_mCircuit = HalfGt_new, cc_mOTSend = ([], []), cc_mOTStartIdx = 0,
     cc_mOTCount = 0, cc_mOutputCommit = replicate 5 0, cc_mTheirInputCommits = [], cc_mMyKProbeInputCommit = []\<rparr>"

lemma half_adder_sizes: "package_sizes half_adder role kp_one kp_one [0, 1, 2, 3] (length [a :: block, b])"
proof -
  have "kp_wf kp_one" by (simp add: kp_one_def kp_wf_def kp_h_def bv_wf_put bv_wf_reset bv_fits_def)
  moreover have "Inputs half_adder q = 1" for q by (cases q) (simp_all add: Inputs_def half_adder_def)
  moreover have "half_ok half_adder [0, 1] [5, 6]" by (rule half_adder_ok)
  ultimately show ?thesis by (simp add: package_sizes_def half_ok_def kp_one_def)
qed

lemma half_adder_package: "package_sendable half_adder [0, 1, 2, 3]"
  using half_adder_sendable by (simp add: package_sendable_def Inputs_def ZeroBlock_0) (simp add: half_adder_def)



lemma CommCircuitPackage_new_rejected:
  "package_received half_adder First kp_one (CommCircuitPackage_new\<lparr>cc_mCircuit := zero_gc,
     cc_mTheirInputCommits := [(replicate 5 0, replicate 5 0)],
     cc_mMyKProbeInputCommit := replicate 3 (replicate 5 0, replicate 5 0)\<rparr>)"
  by (simp add: package_received_def CommCircuitPackage_new_def zero_gc_def half_adder_def kp_one_def Inputs_def)


end
