(* ===== verification/BDX_Bucket.thy ===== *)
theory BDX_Bucket
  imports BDX_Package
begin

text \<open>
  \<open>DualEx/Bucket.{h,cpp}\<close>, built with \<open>ADAPTIVE_SECURE\<close> and without \<open>ASYNC_PSI\<close> and
  \<open>DUALEX_DEBUG\<close>: the circuits of one execution, their setup in both directions and the online phase
  up to the PSI inputs. The circuits a bucket points to are its own members here (each circuit is in
  one bucket). An operation that waits for a future is modelled from the point where it is set.
  Messages are byte lists in the order they are sent; \<open>std::shuffle\<close> is a parameter. None of a bucket's
  messages is empty: circuits without outputs throw when they are garbled (\<open>GarbleSend\<close>), circuits in
  which a party has no input in the constructor of the actor, and the rest has a fixed size.
\<close>

record Bucket =
  bk_mTheirInputCorrection :: bitvec
  bk_mInputCorrectionString :: bitvec
  bk_mOutputs :: "bitvec list"
  bk_mMyDecodedKProbeLabels :: "block list list"
  bk_mTheirInputOffsets :: "block list list"
  bk_mPSIIdxHead :: nat
  bk_mTransCheckRemaining :: int
  bk_mOutputMissCount :: int
  bk_mPSIInputBlocks :: "block list"
  bk_mOutputLabelSeed :: block
  bk_mTheirPermutes :: "bitvec list"
  bk_mTheirCircuits :: "CommCircuitPackage list"
  bk_mMyCircuits :: "CircuitPackage list"
  bk_mTranlation :: "(block \<times> block) list list"
  bk_mCommonOutput :: "(block \<times> block) list"
  bk_mPSIInputPermutes :: "nat list"
  bk_mPsiSend :: psi_sender
  bk_mPsiRecv :: psi_receiver

section \<open>Messages\<close>

fun map_r :: "('a \<Rightarrow> 'b result) \<Rightarrow> 'a list \<Rightarrow> 'b list result" where
  "map_r f [] = Inr []"
| "map_r f (x # xs) = bind_r (f x) (\<lambda>y. bind_r (map_r f xs) (\<lambda>ys. Inr (y # ys)))"

definition recv_blocks :: "nat \<Rightarrow> u8 list \<Rightarrow> block list result" where
  "recv_blocks n msg = (if length msg \<noteq> 16 * n then Inl BadReceiveBufferSize else Inr (blocks_of n msg))"

definition pairs_of :: "block list \<Rightarrow> (block \<times> block) list" where
  "pairs_of bs = map (\<lambda>i. (bs ! (2 * i), bs ! (2 * i + 1))) [0..<length bs div 2]"

section \<open>Setup\<close>

text \<open>The values that translate the output hashes of a circuit to the bucket's common output labels.\<close>

fun translation_values ::
  "block \<Rightarrow> block \<Rightarrow> block \<Rightarrow> block list \<Rightarrow> (block \<times> block) list \<Rightarrow> (block \<times> block) list" where
  "translation_values R t0 t1 (out # outs) (co # cos) =
     (let h = output_hash t0 t1 out (out XOR R) in (fst h XOR fst co, snd h XOR snd co))
     # translation_values R (add_epi64 t0 OneBlock) (add_epi64 t1 OneBlock) outs cos"
| "translation_values R t0 t1 outs cos = []"

definition bucket_translation :: "Circuit \<Rightarrow> (block \<times> block) list \<Rightarrow> CircuitPackage \<Rightarrow> u8 list" where
  "bucket_translation cir common p =
     pair_bytes (translation_values (mGlobalOffset (cp_mCircuit p)) (output_tweak cir 2) (output_tweak cir 3)
                   (mOutputWires (cp_mCircuit p)) common)"

definition common_output :: "Circuit \<Rightarrow> block list \<Rightarrow> block \<Rightarrow> (block \<times> block) list" where
  "common_output cir indexArray seed =
     pairs_of (ecb_new (EncKeyGen seed) indexArray (length (mOutputs cir) * 2))"

definition Bucket_initSend ::
  "Bucket \<Rightarrow> Circuit \<Rightarrow> nat \<Rightarrow> nat \<Rightarrow> role \<Rightarrow> CircuitPackage list \<Rightarrow> nat list \<Rightarrow> prng \<Rightarrow> block list \<times> bitvec
   \<Rightarrow> nat \<Rightarrow> block list \<Rightarrow> Bucket \<times> u8 list list \<times> nat list \<times> prng \<times> nat" where
  "Bucket_initSend bk cir bucketSize psiSecParam role circuits cirIdxIter prng otRecv otIdx indexArray =
     (let (psi, otIdx) = PsiReceiver_init bucketSize psiSecParam otRecv otIdx;
          (seed, prng) = get_block prng;
          common = common_output cir indexArray seed;
          my = map ((!) circuits) (take bucketSize cirIdxIter);
          translations = map (bucket_translation cir common) my;
          deltas = map (\<lambda>j. bv_message (bv_xor_assign (cp_mOTRecvChoices (my!0)) (cp_mOTRecvChoices (my!j)))) [1..<bucketSize]
      in (bk\<lparr>bk_mPsiRecv := psi, bk_mTheirInputCorrection := bv_reset (bk_mTheirInputCorrection bk) (Inputs cir (other role)),
             bk_mOutputLabelSeed := seed, bk_mCommonOutput := common, bk_mMyCircuits := my\<rparr>,
          translations @ deltas, drop bucketSize cirIdxIter, prng, otIdx))"

definition recv_permute :: "KProbeMatrix \<Rightarrow> u8 list \<Rightarrow> bitvec result" where
  "recv_permute theirKProbe msg =
     bind_r (bv_recv (bv_reset bv_empty (kp_mEncodingSize theirKProbe)) msg) (\<lambda>delta. kp_decode theirKProbe delta bv_empty)"

definition Bucket_initRecv ::
  "(prng \<Rightarrow> nat list \<Rightarrow> nat list \<times> prng) \<Rightarrow> Bucket \<Rightarrow> Circuit \<Rightarrow> KProbeMatrix \<Rightarrow> nat \<Rightarrow> nat \<Rightarrow> nat list
   \<Rightarrow> CommCircuitPackage list \<Rightarrow> prng \<Rightarrow> nat \<Rightarrow> u8 list list \<Rightarrow> (Bucket \<times> nat list \<times> prng \<times> nat) result" where
  "Bucket_initRecv shuffle bk cir theirKProbe bucketSize psiSecParam cirIdxIter circuits prng otIdx msgs =
     (let (psi, otIdx) = PsiSender_init bucketSize psiSecParam otIdx
      in bind_r (map_r (\<lambda>i. recv_blocks (length (mOutputs cir) * 2) (msgs!i)) [0..<bucketSize]) (\<lambda>trans.
         let (permutes, prng) = shuffle prng [0..<bucketSize]
         in bind_r (map_r (\<lambda>i. recv_permute theirKProbe (msgs!(bucketSize + i))) [0..<bucketSize - 1]) (\<lambda>theirPermutes.
            Inr (bk\<lparr>bk_mPsiSend := psi, bk_mPSIInputBlocks := replicate bucketSize 0, bk_mPSIIdxHead := 0,
                   bk_mTransCheckRemaining := int bucketSize, bk_mPSIInputPermutes := permutes,
                   bk_mTheirCircuits := map ((!) circuits) (take bucketSize cirIdxIter),
                   bk_mOutputs := replicate bucketSize (bv_resize bv_empty (length (mOutputs cir))),
                   bk_mTranlation := map pairs_of trans, bk_mTheirPermutes := theirPermutes\<rparr>,
                 drop bucketSize cirIdxIter, prng, otIdx))))"

text \<open>The garbler's k-probe labels, masked with the pads of the circuits garbled by the other party.\<close>

definition kprobe_masked :: "KProbeMatrix \<Rightarrow> CircuitPackage \<Rightarrow> CommCircuitPackage \<Rightarrow> u8 list" where
  "kprobe_masked theirKProbe p c =
     pair_bytes (map (\<lambda>t. (OTSendMsg c t False XOR cp_mKProbeInputs p ! t,
                           OTSendMsg c t True XOR cp_mKProbeInputs p ! t XOR mGlobalOffset (cp_mCircuit p)))
                  [0..<kp_mEncodingSize theirKProbe])"

definition Bucket_initKProbeInputSend :: "Bucket \<Rightarrow> KProbeMatrix \<Rightarrow> (Bucket \<times> u8 list list) result" where
  "Bucket_initKProbeInputSend bk theirKProbe =
     (let n = 1 + length (bk_mTheirPermutes bk)
      in bind_r (map_r (\<lambda>b. kp_decode_labels theirKProbe (cp_mKProbeInputs (bk_mMyCircuits bk ! b))) [0..<n]) (\<lambda>offsets.
         Inr (bk\<lparr>bk_mTheirInputOffsets := vec_resize [] (length (bk_mMyCircuits bk)) offsets,
                 bk_mMyCircuits := map (\<lambda>p. p\<lparr>cp_mKProbeInputs := []\<rparr>) (take n (bk_mMyCircuits bk)) @ drop n (bk_mMyCircuits bk)\<rparr>,
              map (\<lambda>b. kprobe_masked theirKProbe (bk_mMyCircuits bk ! b) (bk_mTheirCircuits bk ! b)) [0..<n])))"

definition kprobe_unmasked ::
  "(u8 list \<Rightarrow> u8 list) \<Rightarrow> KProbeMatrix \<Rightarrow> CircuitPackage \<Rightarrow> CommCircuitPackage \<Rightarrow> u8 list \<Rightarrow> block list result" where
  "kprobe_unmasked sha myKProbe p c msg =
     bind_r (recv_blocks (2 * kp_mEncodingSize myKProbe) msg) (\<lambda>maskedLabels.
     (let labels = map (\<lambda>t. maskedLabels ! (2 * t + of_bool (OTRecvChoices p t)) XOR OTRecvMsg p t)
                     [0..<kp_mEncodingSize myKProbe]
      in bind_r (each_r (\<lambda>t. require (Commit_eq (Commit_block sha (labels ! t))
                                 (if OTRecvChoices p t then snd (cc_mMyKProbeInputCommit c ! t)
                                  else fst (cc_mMyKProbeInputCommit c ! t))) InvalidCommitment)
                   [0..<kp_mEncodingSize myKProbe]) (\<lambda>_. Inr labels)))"

definition Bucket_initKProbeInputRecv ::
  "(u8 list \<Rightarrow> u8 list) \<Rightarrow> Bucket \<Rightarrow> Circuit \<Rightarrow> KProbeMatrix \<Rightarrow> role \<Rightarrow> u8 list list \<Rightarrow> Bucket result" where
  "Bucket_initKProbeInputRecv sha bk cir myKProbe role msgs =
     bind_r (kp_decode myKProbe (cp_mOTRecvChoices (bk_mMyCircuits bk ! 0)) (bv_reset bv_empty (Inputs cir role))) (\<lambda>correction.
     bind_r (map_r (\<lambda>i. bind_r (kprobe_unmasked sha myKProbe (bk_mMyCircuits bk ! i) (bk_mTheirCircuits bk ! i) (msgs ! i)) (\<lambda>labels.
                       bind_r (kp_decode_at myKProbe labels (replicate (Inputs cir role) 0) 0) (\<lambda>decoded.
                       bind_r (kp_decode myKProbe (cp_mOTRecvChoices (bk_mMyCircuits bk ! i)) bv_empty) (\<lambda>_. Inr decoded))))
               [0..<length (bk_mTheirCircuits bk)]) (\<lambda>decoded.
     Inr (bk\<lparr>bk_mInputCorrectionString := correction, bk_mMyDecodedKProbeLabels := decoded\<rparr>)))"

section \<open>Online\<close>

text \<open>\<open>evaluate\<close> sends the input correction; when the other party's correction and labels have arrived it
  checks the labels against the input commitments.\<close>

definition Bucket_evaluate_send :: "Bucket \<Rightarrow> bitvec \<Rightarrow> Bucket \<times> u8 list" where
  "Bucket_evaluate_send bk input =
     (let v = bv_xor_assign (bk_mInputCorrectionString bk) input
      in (bk\<lparr>bk_mInputCorrectionString := v\<rparr>, bv_message v))"

definition Bucket_recvCorrection :: "Bucket \<Rightarrow> u8 list \<Rightarrow> Bucket result" where
  "Bucket_recvCorrection bk msg =
     bind_r (bv_recv (bk_mTheirInputCorrection bk) msg) (\<lambda>v. Inr (bk\<lparr>bk_mTheirInputCorrection := v\<rparr>))"

definition check_input_label :: "(u8 list \<Rightarrow> u8 list) \<Rightarrow> block \<Rightarrow> commit \<times> commit \<Rightarrow> bool \<Rightarrow> unit result" where
  "check_input_label sha label comm b =
     require (Commit_eq (Commit_block sha label) (if b then snd comm else fst comm)) InvalidCommitment"

definition Bucket_evaluate_check :: "(u8 list \<Rightarrow> u8 list) \<Rightarrow> Bucket \<Rightarrow> Circuit \<Rightarrow> role \<Rightarrow> block list list \<Rightarrow> unit result" where
  "Bucket_evaluate_check sha bk cir role labels =
     each_r (\<lambda>i. let wireIdx = input_start cir (other role) + i;
                     phi = bv_get (bk_mTheirInputCorrection bk) i
                 in bind_r (check_input_label sha (labels ! 0 ! wireIdx) (cc_mTheirInputCommits (bk_mTheirCircuits bk ! 0) ! i) phi) (\<lambda>_.
                    each_r (\<lambda>j. let delta = bv_get (bk_mTheirPermutes bk ! (j - 1)) i
                                in check_input_label sha (labels ! j ! wireIdx)
                                     (cc_mTheirInputCommits (bk_mTheirCircuits bk ! j) ! i) (delta \<noteq> phi))
                      [1..<length (bk_mTheirCircuits bk)]))
       [0..<Inputs cir (other role)]"

definition eval_output ::
  "Bucket \<Rightarrow> nat \<Rightarrow> Circuit \<Rightarrow> block list \<Rightarrow> nat \<Rightarrow> block \<times> block \<times> block \<times> bitvec \<Rightarrow> block \<times> block \<times> block \<times> bitvec" where
  "eval_output bk b cir labels i st =
     (let (t0, t1, psiInput, out) = st;
          label = labels ! (mOutputs cir ! i);
          hash = output_hash t0 t1 label label;
          bit = (PermuteBit label \<noteq> bv_get (mTranslationTable (cc_mCircuit (bk_mTheirCircuits bk ! b))) i);
          theirCommonOutput = (if bit then snd hash XOR snd (bk_mTranlation bk ! b ! i)
                               else fst hash XOR fst (bk_mTranlation bk ! b ! i));
          common = theirCommonOutput XOR (if bit then snd (bk_mCommonOutput bk ! i) else fst (bk_mCommonOutput bk ! i))
      in (add_epi64 t0 OneBlock, add_epi64 t1 OneBlock, psiInput XOR common, bv_put out i bit))"

definition Bucket_evalCircuit ::
  "Bucket \<Rightarrow> nat \<Rightarrow> Circuit \<Rightarrow> block list \<Rightarrow> u8 list list \<Rightarrow> block list \<Rightarrow> block list \<Rightarrow> role
   \<Rightarrow> (block \<times> block list \<times> Bucket) result" where
  "Bucket_evalCircuit bk b cir labels msgs tableMasks indexArray role =
     bind_r (recv_block (msgs!0)) (\<lambda>seed.
     bind_r (recv_blocks (Inputs cir (other role)) (msgs!1)) (\<lambda>theirs.
     bind_r (recv_blocks (Inputs cir role) (msgs!2)) (\<lambda>corrections.
     (let tableMasks = ecb_new (EncKeyGen seed) indexArray (length tableMasks);
          labels = blit labels (input_start cir (other role)) theirs;
          labels = blit labels (input_start cir role) corrections;
          decoded = bk_mMyDecodedKProbeLabels bk ! b;
          labels = fold (\<lambda>i l. l[input_start cir role + i := decoded ! i XOR l ! (input_start cir role + i)])
                     [0..<length decoded] labels;
          labels = half_evaluate (cc_mCircuit (bk_mTheirCircuits bk ! b)) cir labels tableMasks;
          (_, _, psiInput, out) = fold (eval_output bk b cir labels) [0..<length (mOutputs cir)]
                                    (output_tweak cir 2, output_tweak cir 3, ZeroBlock, bk_mOutputs bk ! b)
      in Inr (psiInput, labels, bk\<lparr>bk_mOutputs := (bk_mOutputs bk)[b := out]\<rparr>)))))"

text \<open>The circuits of one sending thread: \<open>circuitOffset, circuitOffset + circuitStep, ...\<close>.\<close>

definition circuit_range :: "nat \<Rightarrow> nat \<Rightarrow> nat \<Rightarrow> nat list" where
  "circuit_range offset step n = map (\<lambda>k. offset + k * step) [0..<(n - offset + step - 1) div step]"

definition my_labels_message :: "Bucket \<Rightarrow> Circuit \<Rightarrow> bitvec \<Rightarrow> role \<Rightarrow> nat \<Rightarrow> u8 list" where
  "my_labels_message bk cir input role cirIdx =
     (let gc = cp_mCircuit (bk_mMyCircuits bk ! cirIdx)
      in concat (map (\<lambda>i. ByteArray (mInputWires gc ! (input_start cir role + i) XOR sel (mGlobalOffset gc) (bv_get input i)))
           [0..<Inputs cir role]))"

text \<open>The corrections of the other party's labels. The buffer has room for \<open>Inputs[1 ^ role]\<close> blocks and
  its head is set for \<open>Inputs[role]\<close> blocks.\<close>

definition correction_message :: "Bucket \<Rightarrow> Circuit \<Rightarrow> role \<Rightarrow> nat \<Rightarrow> u8 list result" where
  "correction_message bk cir role cirIdx =
     bind_r (bs_setp (bs_new (Inputs cir (other role) * 16)) (Inputs cir role * 16)) (\<lambda>_.
     (let gc = cp_mCircuit (bk_mMyCircuits bk ! cirIdx)
      in Inr (take (Inputs cir role * 16) (concat (map (\<lambda>t.
           ByteArray (bk_mTheirInputOffsets bk ! cirIdx ! t XOR mInputWires gc ! (input_start cir (other role) + t)
             XOR sel (mGlobalOffset gc)
                   (if cirIdx \<noteq> 0 then bv_get (bk_mTheirInputCorrection bk) t \<noteq> bv_get (bk_mTheirPermutes bk ! (cirIdx - 1)) t
                    else bv_get (bk_mTheirInputCorrection bk) t)))
           [0..<Inputs cir (other role)])))))"

definition Bucket_sendCircuitInputs ::
  "Bucket \<Rightarrow> Circuit \<Rightarrow> bitvec \<Rightarrow> role \<Rightarrow> nat \<Rightarrow> nat \<Rightarrow> u8 list list result" where
  "Bucket_sendCircuitInputs bk cir input role circuitOffset circuitStep =
     (let range = circuit_range circuitOffset circuitStep (length (bk_mMyCircuits bk))
      in bind_r (map_r (correction_message bk cir role) range) (\<lambda>corrections.
         Inr (concat (map (\<lambda>k. [ByteArray (cp_mAdaptiveSecureMaskSeed (bk_mMyCircuits bk ! k)),
                               my_labels_message bk cir input role k]) range) @ corrections)))"

definition Bucket_openTranslation :: "Bucket \<Rightarrow> u8 list" where
  "Bucket_openTranslation bk = ByteArray (bk_mOutputLabelSeed bk)"

definition Bucket_checkTranslation :: "(u8 list \<Rightarrow> u8 list) \<Rightarrow> Bucket \<Rightarrow> Circuit \<Rightarrow> nat \<Rightarrow> block list \<Rightarrow> Bucket result" where
  "Bucket_checkTranslation sha bk cir cirIdx theirCommonOutLabels =
     (let out = map (\<lambda>i. (theirCommonOutLabels ! (2 * i) XOR fst (bk_mTranlation bk ! cirIdx ! i),
                          theirCommonOutLabels ! (2 * i + 1) XOR snd (bk_mTranlation bk ! cirIdx ! i)))
                  [0..<length (mOutputs cir)]
      in bind_r (require (Commit_eq (commit_hash sha (take (mOutputCount cir * 2 * 16) (pair_bytes out)))
                            (cc_mOutputCommit (bk_mTheirCircuits bk ! cirIdx))) InvalidCommitment) (\<lambda>_.
         Inr (bk\<lparr>bk_mTransCheckRemaining := bk_mTransCheckRemaining bk - 1\<rparr>)))"

text \<open>\<open>Clear\<close> also clears the circuits themselves, which stay with the actor.\<close>

definition Bucket_Clear :: "Bucket \<Rightarrow> Bucket \<times> CircuitPackage list \<times> CommCircuitPackage list" where
  "Bucket_Clear bk =
     (bk\<lparr>bk_mCommonOutput := [], bk_mOutputs := [], bk_mTranlation := [], bk_mMyCircuits := [], bk_mTheirCircuits := []\<rparr>,
      map CircuitPackage_clear (bk_mMyCircuits bk),
      map CommCircuitPackage_clear (take (length (bk_mMyCircuits bk)) (bk_mTheirCircuits bk)))"

section \<open>Messages are read back\<close>

lemma map_r_Inr: "(\<And>x. x \<in> set xs \<Longrightarrow> f x = Inr (g x)) \<Longrightarrow> map_r f xs = Inr (map g xs)"
  by (induction xs) simp_all

lemma blocks_of_ByteArray: "length bs = n \<Longrightarrow> blocks_of n (concat (map ByteArray bs)) = bs"
  by (induction bs arbitrary: n) auto

lemma recv_blocks_ByteArray: "length bs = n \<Longrightarrow> recv_blocks n (concat (map ByteArray bs)) = Inr bs"
  by (simp add: recv_blocks_def blocks_of_ByteArray length_concat comp_def sum_list_triv)

definition flat_pairs :: "(block \<times> block) list \<Rightarrow> block list" where
  "flat_pairs ps = concat (map (\<lambda>(a, b). [a, b]) ps)"

lemma flat_pairs_simps [simp]: "flat_pairs [] = []" "flat_pairs ((a, b) # ps) = a # b # flat_pairs ps"
  by (simp_all add: flat_pairs_def)

lemma length_flat_pairs [simp]: "length (flat_pairs ps) = 2 * length ps"
  by (induction ps) auto

lemma flat_pairs_nth: "i < length ps \<Longrightarrow> flat_pairs ps ! (2 * i) = fst (ps ! i) \<and> flat_pairs ps ! (2 * i + 1) = snd (ps ! i)"
proof (induction ps arbitrary: i)
  case (Cons q ps)
  obtain a b where q: "q = (a, b)" by fastforce
  show ?case
  proof (cases i)
    case 0
    then show ?thesis by (simp add: q)
  next
    case (Suc j)
    then have "2 * i = Suc (Suc (2 * j))" by simp
    then show ?thesis using Cons Suc by (simp add: q)
  qed
qed simp

lemma pairs_of_flat [simp]: "pairs_of (flat_pairs ps) = ps"
  unfolding pairs_of_def using flat_pairs_nth [of _ ps] by (intro nth_equalityI) (simp_all add: prod_eq_iff)

lemma pair_bytes_flat: "pair_bytes ps = concat (map ByteArray (flat_pairs ps))"
  by (induction ps) (auto simp: pair_bytes_def)

lemma recv_pairs: "length ps = n \<Longrightarrow> recv_blocks (n * 2) (pair_bytes ps) = Inr (flat_pairs ps)"
  unfolding pair_bytes_flat by (intro recv_blocks_ByteArray) (simp add: mult.commute)

lemma length_pair_bytes: "length (pair_bytes ps) = length ps * 32"
  unfolding pair_bytes_flat by (simp add: length_concat comp_def sum_list_triv)

text \<open>A bit vector sent and received into a vector of the same size.\<close>

lemma bv_recv_same:
  assumes "bv_wf v" and "bv_wf u" and "bv_bits u = bv_bits v"
  shows "\<exists>w. bv_recv u (bv_message v) = Inr w \<and> bv_wf w \<and> bv_bits w = bv_bits v \<and> (\<forall>i<bv_bits v. bv_get w i = bv_get v i)"
proof -
  let ?w = "u\<lparr>bv_data := blit (bv_data u) 0 (bv_message v)\<rparr>"
  note r = bv_recv_message [OF assms(2,1) assms(3) refl]
  have l: "length (bv_message v) \<le> length (bv_data u)"
    using assms by (simp add: bv_message_def bv_wf_def bv_sizeBytes_def)
  then have "bv_wf ?w" using assms(2) by (simp add: bv_wf_def bv_sizeBytes_def)
  then show ?thesis using r assms(3) by (intro exI [of _ ?w]) simp
qed

section \<open>Output hashes and translations\<close>

primrec tweak_at :: "block \<Rightarrow> nat \<Rightarrow> block" where
  "tweak_at t 0 = t"
| "tweak_at t (Suc i) = add_epi64 (tweak_at t i) OneBlock"

lemma tweak_at_shift [simp]: "tweak_at (add_epi64 t OneBlock) i = add_epi64 (tweak_at t i) OneBlock"
  by (induction i) simp_all

lemma output_hash_eq: "output_hash t0 t1 a b = (label_hash t0 a, label_hash t1 b)"
  by (simp add: output_hash_def label_hash_def EcbEncTwoBlocks_eq)

lemma length_output_hashes [simp]: "length (output_hashes R t0 t1 outs) = length outs"
  by (induction R t0 t1 outs rule: output_hashes.induct) simp_all

lemma output_hashes_nth:
  "i < length outs \<Longrightarrow> output_hashes R t0 t1 outs ! i
     = (label_hash (tweak_at t0 i) (outs ! i), label_hash (tweak_at t1 i) (outs ! i XOR R))"
proof (induction R t0 t1 outs arbitrary: i rule: output_hashes.induct)
  case (2 R t0 t1 out outs)
  then show ?case by (cases i) (simp_all add: output_hash_eq)
qed simp

lemma translation_values_eq:
  "translation_values R t0 t1 outs cos
     = map2 (\<lambda>h co. (fst h XOR fst co, snd h XOR snd co)) (output_hashes R t0 t1 outs) cos"
  by (induction R t0 t1 outs cos rule: translation_values.induct) (simp_all add: Let_def)

lemma length_translation_values: "length outs = length cos \<Longrightarrow> length (translation_values R t0 t1 outs cos) = length cos"
  by (simp add: translation_values_eq)

lemma translation_values_nth:
  assumes "length outs = length cos" and "i < length outs"
  shows "translation_values R t0 t1 outs cos ! i
     = (label_hash (tweak_at t0 i) (outs ! i) XOR fst (cos ! i), label_hash (tweak_at t1 i) (outs ! i XOR R) XOR snd (cos ! i))"
  using assms by (simp add: translation_values_eq output_hashes_nth)

lemma length_common_output:
  assumes "length (mOutputs cir) * 2 < 2 ^ 32" and "length (mOutputs cir) * 2 \<le> length ix"
  shows "length (common_output cir ix seed) = length (mOutputs cir)"
  using assms by (simp add: common_output_def pairs_of_def ecb_new_eq)

lemma common_output_nth:
  assumes "length (mOutputs cir) * 2 < 2 ^ 32" and "length (mOutputs cir) * 2 \<le> length ix" and "i < length (mOutputs cir)"
  shows "common_output cir ix seed ! i
     = (ecb_new (EncKeyGen seed) ix (length (mOutputs cir) * 2) ! (2 * i), ecb_new (EncKeyGen seed) ix (length (mOutputs cir) * 2) ! (2 * i + 1))"
  using assms by (simp add: common_output_def pairs_of_def ecb_new_eq)

text \<open>The label the evaluator holds goes to the bucket's label of its bit, and opening the seed proves it
  for both labels at once.\<close>

lemma checkTranslation_ok:
  assumes "mOutputCount cir = length (mOutputs cir)"
    and "length (mOutputs cir) * 2 < 2 ^ 32" and "length (mOutputs cir) * 2 \<le> length ix"
    and "length (mOutputWires (cp_mCircuit p)) = length (mOutputs cir)"
    and "cp_output sha cir p (bk_mTheirCircuits bk ! b)"
    and "bk_mTranlation bk ! b = translation_values (mGlobalOffset (cp_mCircuit p)) (output_tweak cir 2) (output_tweak cir 3)
           (mOutputWires (cp_mCircuit p)) (common_output cir ix seed)"
  shows "Bucket_checkTranslation sha bk cir b (ecb_new (EncKeyGen seed) ix (length (mOutputs cir) * 2))
     = Inr (bk\<lparr>bk_mTransCheckRemaining := bk_mTransCheckRemaining bk - 1\<rparr>)"
proof -
  let ?L = "ecb_new (EncKeyGen seed) ix (length (mOutputs cir) * 2)"
  let ?out = "map (\<lambda>i. (?L ! (2 * i) XOR fst (bk_mTranlation bk ! b ! i), ?L ! (2 * i + 1) XOR snd (bk_mTranlation bk ! b ! i)))
      [0..<length (mOutputs cir)]"
  have "?out = circuit_output_hashes cir (cp_mCircuit p)"
  proof (rule nth_equalityI)
    show "length ?out = length (circuit_output_hashes cir (cp_mCircuit p))" using assms(4) by (simp add: circuit_output_hashes_def)
    fix i assume "i < length ?out"
    then have i: "i < length (mOutputs cir)" by simp
    show "?out ! i = circuit_output_hashes cir (cp_mCircuit p) ! i"
      using i assms(4) translation_values_nth [of "mOutputWires (cp_mCircuit p)" "common_output cir ix seed" i]
      by (simp add: assms(6) length_common_output [OF assms(2,3)] common_output_nth [OF assms(2,3) i]
          circuit_output_hashes_def output_hashes_nth)
  qed
  moreover have "length (pair_bytes ?out) = mOutputCount cir * 2 * 16" by (simp add: length_pair_bytes assms(1))
  ultimately show ?thesis
    using assms(5) by (simp add: Bucket_checkTranslation_def Let_def cp_output_def)
qed

section \<open>Evaluating a circuit\<close>

definition pick :: "bool \<Rightarrow> block \<times> block \<Rightarrow> block" where
  "pick b q = (if b then snd q else fst q)"

definition common_sum :: "(block \<times> block) list \<Rightarrow> (block \<times> block) list \<Rightarrow> bool list \<Rightarrow> block" where
  "common_sum us vs ys = xor_fold 0 (map (\<lambda>i. pick (ys ! i) (us ! i) XOR pick (ys ! i) (vs ! i)) [0..<length ys])"

lemma common_sum_commute: "common_sum us vs ys = common_sum vs us ys"
  by (simp add: common_sum_def xor.commute)

lemma eval_outputs:
  assumes "length outs = length (mOutputs cir)" and "length common = length (mOutputs cir)"
    and "length ys = length (mOutputs cir)" and R: "PermuteBit R"
    and lab: "\<And>i. i < length (mOutputs cir) \<Longrightarrow> labels ! (mOutputs cir ! i) = lab R (outs ! i) (ys ! i)"
    and tt: "\<And>i. i < length (mOutputs cir) \<Longrightarrow> bv_get (mTranslationTable (cc_mCircuit (bk_mTheirCircuits bk ! b))) i = PermuteBit (outs ! i)"
    and tr: "bk_mTranlation bk ! b = translation_values R t0 t1 outs common"
    and out: "bv_wf out" "bv_bits out = length (mOutputs cir)" and k: "k \<le> length (mOutputs cir)"
  shows "\<exists>out'. fold (eval_output bk b cir labels) [0..<k] (t0, t1, z, out)
      = (tweak_at t0 k, tweak_at t1 k,
         xor_fold z (map (\<lambda>i. pick (ys ! i) (common ! i) XOR pick (ys ! i) (bk_mCommonOutput bk ! i)) [0..<k]), out')
      \<and> bv_wf out' \<and> bv_bits out' = length (mOutputs cir) \<and> (\<forall>i<k. bv_get out' i = ys ! i)"
  using k
proof (induction k)
  case 0
  then show ?case using out by simp
next
  case (Suc k)
  then obtain out' where o: "fold (eval_output bk b cir labels) [0..<k] (t0, t1, z, out)
      = (tweak_at t0 k, tweak_at t1 k,
         xor_fold z (map (\<lambda>i. pick (ys ! i) (common ! i) XOR pick (ys ! i) (bk_mCommonOutput bk ! i)) [0..<k]), out')"
      "bv_wf out'" "bv_bits out' = length (mOutputs cir)" "\<forall>i<k. bv_get out' i = ys ! i" by auto
  have k: "k < length (mOutputs cir)" using Suc by simp
  have bit: "(PermuteBit (labels ! (mOutputs cir ! k)) \<noteq> bv_get (mTranslationTable (cc_mCircuit (bk_mTheirCircuits bk ! b))) k) = ys ! k"
    using lab [OF k] tt [OF k] R by (auto simp: PermuteBit_lab)
  have tv: "bk_mTranlation bk ! b ! k = (label_hash (tweak_at t0 k) (outs ! k) XOR fst (common ! k),
      label_hash (tweak_at t1 k) (outs ! k XOR R) XOR snd (common ! k))"
    unfolding tr using assms(1,2) k by (intro translation_values_nth) simp_all
  have "eval_output bk b cir labels k (tweak_at t0 k, tweak_at t1 k, u, out')
      = (tweak_at t0 (Suc k), tweak_at t1 (Suc k),
         u XOR (pick (ys ! k) (common ! k) XOR pick (ys ! k) (bk_mCommonOutput bk ! k)), bv_put out' k (ys ! k))" for u
    unfolding eval_output_def Let_def prod.case bit tv output_hash_eq using lab [OF k]
    by (cases "ys ! k") (simp_all add: pick_def)
  then have e: "fold (eval_output bk b cir labels) [0..<Suc k] (t0, t1, z, out)
      = (tweak_at t0 (Suc k), tweak_at t1 (Suc k),
         xor_fold z (map (\<lambda>i. pick (ys ! i) (common ! i) XOR pick (ys ! i) (bk_mCommonOutput bk ! i)) [0..<Suc k]), bv_put out' k (ys ! k))"
    by (simp only: upt_Suc_append zero_le fold_append comp_apply fold_simps o(1)) (simp add: xor_fold_append)
  have "bv_wf (bv_put out' k (ys ! k))" "bv_bits (bv_put out' k (ys ! k)) = length (mOutputs cir)"
    "\<forall>i<Suc k. bv_get (bv_put out' k (ys ! k)) i = ys ! i"
    using o(2-4) k by (auto simp: bv_wf_put bv_get_put less_Suc_eq)
  with e show ?case by blast
qed

lemma fold_unmask_nth:
  "s + n \<le> length L \<Longrightarrow>
   length (fold (\<lambda>i l. l[s + i := d ! i XOR l ! (s + i)]) [0..<n] L) = length L
   \<and> (\<forall>j<length L. fold (\<lambda>i l. l[s + i := d ! i XOR l ! (s + i)]) [0..<n] L ! j
        = (if s \<le> j \<and> j < s + n then d ! (j - s) XOR L ! j else L ! (j :: nat)))" for L :: "block list"
proof (induction n)
  case (Suc n)
  let ?l = "fold (\<lambda>i l. l[s + i := d ! i XOR l ! (s + i)]) [0..<n] L"
  have e: "fold (\<lambda>i l. l[s + i := d ! i XOR l ! (s + i)]) [0..<Suc n] L = ?l[s + n := d ! n XOR ?l ! (s + n)]" by simp
  have "\<forall>j<length L. ?l ! j = (if s \<le> j \<and> j < s + n then d ! (j - s) XOR L ! j else L ! j)" "length ?l = length L"
    using Suc by simp_all
  then show ?case unfolding e using Suc.prems by (auto simp: nth_list_update less_Suc_eq)
qed auto

text \<open>The inputs of both parties as one input of the circuit.\<close>

definition joint_input :: "Circuit \<Rightarrow> (nat \<Rightarrow> bool) \<Rightarrow> (nat \<Rightarrow> bool) \<Rightarrow> nat \<Rightarrow> bool" where
  "joint_input cir x0 x1 j = (if j < Inputs cir First then x0 j else x1 (j - Inputs cir First))"

lemma input_wire_cases:
  assumes "j < InputWireCount cir"
  obtains i where "i < Inputs cir r" and "j = input_start cir r + i"
    | i where "i < Inputs cir (other r)" and "j = input_start cir (other r) + i"
proof -
  have c: "InputWireCount cir = Inputs cir First + Inputs cir Second" by (simp add: InputWireCount_def Inputs_def)
  show thesis
  proof (cases "j < Inputs cir First")
    case True
    then show thesis using that by (cases r) (simp_all add: input_start_def)
  next
    case False
    then have "j - Inputs cir First < Inputs cir Second" "j = Inputs cir First + (j - Inputs cir First)" using assms c by simp_all
    then show thesis using that by (cases r) (simp_all add: input_start_def)
  qed
qed

lemma input_start_bound: "input_start cir r + Inputs cir r \<le> InputWireCount cir"
  by (cases r) (simp_all add: input_start_def InputWireCount_def Inputs_def)

lemma input_start_disjoint:
  "i < Inputs cir r \<Longrightarrow> \<not> (input_start cir (other r) \<le> input_start cir r + i
     \<and> input_start cir r + i < input_start cir (other r) + Inputs cir (other r))"
  by (cases r) (simp_all add: input_start_def Inputs_def)

lemma joint_input_at:
  "i < Inputs cir r \<Longrightarrow> joint_input cir x0 x1 (input_start cir r + i) = (case r of First \<Rightarrow> x0 i | Second \<Rightarrow> x1 i)"
  by (cases r) (simp_all add: joint_input_def input_start_def)

text \<open>What the evaluator holds of circuit \<open>b\<close> after the setup, and the three messages of the garbler.\<close>

definition eval_ready ::
  "Bucket \<Rightarrow> nat \<Rightarrow> Circuit \<Rightarrow> role \<Rightarrow> CircuitPackage \<Rightarrow> (block \<times> block) list \<Rightarrow> (nat \<Rightarrow> block) \<Rightarrow> (nat \<Rightarrow> bool) \<Rightarrow> bool" where
  "eval_ready bk b cir e p common D q \<longleftrightarrow>
     b < length (bk_mOutputs bk) \<and> bv_wf (bk_mOutputs bk ! b) \<and> bv_bits (bk_mOutputs bk ! b) = length (mOutputs cir)
     \<and> bk_mTranlation bk ! b = translation_values (cp_offset p) (output_tweak cir 2) (output_tweak cir 3)
          (mOutputWires (cp_mCircuit p)) common
     \<and> bk_mMyDecodedKProbeLabels bk ! b = map (\<lambda>i. lab (cp_offset p) (D i) (q i)) [0..<Inputs cir e]"

definition garbler_messages ::
  "Circuit \<Rightarrow> role \<Rightarrow> CircuitPackage \<Rightarrow> (nat \<Rightarrow> bool) \<Rightarrow> (nat \<Rightarrow> bool) \<Rightarrow> (nat \<Rightarrow> block) \<Rightarrow> (nat \<Rightarrow> bool) \<Rightarrow> u8 list list" where
  "garbler_messages cir e p xg xe D q =
     [ByteArray (cp_mAdaptiveSecureMaskSeed p),
      concat (map ByteArray (map (\<lambda>i. cp_input_label cir (other e) p i (xg i)) [0..<Inputs cir (other e)])),
      concat (map ByteArray (map (\<lambda>i. D i XOR cp_input_label cir e p i (xe i \<noteq> q i)) [0..<Inputs cir e]))]"

lemma evalCircuit_ok:
  assumes sz: "package_sizes cir (other e) Kg Ke ix k" "package_sizes cir (other e) Kg Ke ix (length masks)"
    and pp: "package_pair sha cir (other e) Kg Ke ix k p (bk_mTheirCircuits bk ! b)"
    and L: "length labels = mWireCount cir" and c: "length common = length (mOutputs cir)"
    and rd: "eval_ready bk b cir e p common D q"
    and x: "x = (case e of First \<Rightarrow> joint_input cir xe xg | Second \<Rightarrow> joint_input cir xg xe)"
  shows "\<exists>labels' out. Bucket_evalCircuit bk b cir labels (garbler_messages cir e p xg xe D q) masks ix e
      = Inr (common_sum common (bk_mCommonOutput bk) (circuit_sem cir x), labels', bk\<lparr>bk_mOutputs := (bk_mOutputs bk)[b := out]\<rparr>)
     \<and> bv_wf out \<and> bv_list out = circuit_sem cir x
     \<and> (\<forall>i<Inputs cir (other e). labels' ! (input_start cir (other e) + i) = cp_input_label cir (other e) p i (xg i))"
proof -
  let ?W = "fst (garbling cir (cp_mCircuitSeed p) ix (cp_masks ix (length masks) p))" and ?R = "cp_offset p"
  let ?m = "cp_masks ix (length masks) p" and ?g = "other e" and ?gc = "cc_mCircuit (bk_mTheirCircuits bk ! b)"
  have ok: "half_ok cir ix ?m" using sz(2) by (simp add: package_sizes_half_ok length_cp_masks)
  have wf: "circuit_wf cir" using ok by (simp add: half_ok_def)
  have mk: "garbling cir (cp_mCircuitSeed p) ix (cp_masks ix k p) = garbling cir (cp_mCircuitSeed p) ix ?m"
    by (rule cp_masks_prefix [OF sz])
  have gc: "mInputWires (cp_mCircuit p) = seed_wires cir (cp_mCircuitSeed p) ix"
      "mOutputWires (cp_mCircuit p) = map ((!) ?W) (mOutputs cir)"
    and hg: "holds_garbling ?gc cir (cp_mCircuitSeed p) ix ?m"
    using pp by (simp_all add: package_pair_def cp_garbled_def mk holds_garbling_def)
  define T where "T = map (\<lambda>i. cp_input_label cir ?g p i (xg i)) [0..<Inputs cir ?g]"
  define C where "C = map (\<lambda>i. D i XOR cp_input_label cir e p i (xe i \<noteq> q i)) [0..<Inputs cir e]"
  define dec where "dec = bk_mMyDecodedKProbeLabels bk ! b"
  have dl: "dec = map (\<lambda>i. lab ?R (D i) (q i)) [0..<Inputs cir e]" using rd by (simp add: eval_ready_def dec_def)
  have nw: "InputWireCount cir \<le> length labels" using L wf by (simp add: circuit_wf_def)
  define L1 where "L1 = blit labels (input_start cir ?g) T"
  define L2 where "L2 = blit L1 (input_start cir e) C"
  define L3 where "L3 = fold (\<lambda>i l. l[input_start cir e + i := dec ! i XOR l ! (input_start cir e + i)]) [0..<length dec] L2"
  have sg: "input_start cir ?g + length T \<le> length labels" and se: "input_start cir e + length C \<le> length labels"
    using input_start_bound [of cir ?g] input_start_bound [of cir e] nw by (simp_all add: T_def C_def)
  have l1: "length L1 = length labels" using sg by (simp add: L1_def)
  have l2: "length L2 = length labels" using se l1 by (simp add: L2_def)
  have "input_start cir e + length dec \<le> length L2" using se l2 by (simp add: dl C_def)
  note f = fold_unmask_nth [OF this, of dec, folded L3_def]
  have l3: "length L3 = mWireCount cir" using f l2 L by simp
  have th: "L3 ! (input_start cir ?g + i) = cp_input_label cir ?g p i (xg i)" if i: "i < Inputs cir ?g" for i
  proof -
    have j: "input_start cir ?g + i < length labels" using i sg by (simp add: T_def)
    have d: "\<not> (input_start cir e \<le> input_start cir ?g + i \<and> input_start cir ?g + i < input_start cir e + Inputs cir e)"
      using input_start_disjoint [OF i] by (cases e) simp_all
    have "L3 ! (input_start cir ?g + i) = L2 ! (input_start cir ?g + i)"
      using f j d l2 by (metis dl length_map length_upt minus_nat.diff_0)
    also have "\<dots> = L1 ! (input_start cir ?g + i)"
      using d j l1 se unfolding L2_def by (subst nth_blit) (auto simp: C_def)
    finally show ?thesis using j i sg by (simp add: L1_def nth_blit T_def)
  qed
  have mi: "L3 ! (input_start cir e + i) = cp_input_label cir e p i (xe i)" if i: "i < Inputs cir e" for i
  proof -
    have j: "input_start cir e + i < length labels" using i se by (simp add: C_def)
    have "L3 ! (input_start cir e + i) = lab ?R (D i) (q i) XOR (D i XOR cp_input_label cir e p i (xe i \<noteq> q i))"
      using f j i l1 l2 se by (simp add: L2_def nth_blit dl C_def)
    then show ?thesis by (cases "q i"; cases "xe i") (simp_all add: cp_input_label_def lab_def sel_if xor_norm)
  qed
  have enc: "L3 ! j = lab ?R (seed_wires cir (cp_mCircuitSeed p) ix ! j) (x j)" if j: "j < InputWireCount cir" for j
    using j
  proof (rule input_wire_cases [where r = e])
    fix i assume i: "i < Inputs cir e" "j = input_start cir e + i"
    have "x j = xe i" using i(1) joint_input_at [of i cir e] unfolding x i(2) by (cases e) simp_all
    then show ?thesis using mi [OF i(1)] by (simp add: i(2) cp_input_label_def gc)
  next
    fix i assume i: "i < Inputs cir ?g" "j = input_start cir ?g + i"
    have "x j = xg i" using i(1) joint_input_at [of i cir ?g] unfolding x i(2) by (cases e) simp_all
    then show ?thesis using th [OF i(1)] by (simp add: i(2) cp_input_label_def gc)
  qed
  define L4 where "L4 = half_evaluate ?gc cir L3 ?m"
  have t: "mTables ?gc = snd (garbling cir (cp_mCircuitSeed p) ix ?m)" using hg by (simp add: holds_garbling_def)
  have ev: "L4 ! w = lab ?R (?W ! w) (plain_run (mGates cir) x w)" if "w < mWireCount cir" for w
    unfolding L4_def cp_offset_def by (rule half_evaluate_core [OF ok t l3 enc [unfolded cp_offset_def] that])
  have keep: "L4 ! (input_start cir ?g + i) = cp_input_label cir ?g p i (xg i)" if i: "i < Inputs cir ?g" for i
  proof -
    have j: "input_start cir ?g + i < InputWireCount cir" using i input_start_bound [of cir ?g] by simp
    have "?W ! (input_start cir ?g + i) = seed_wires cir (cp_mCircuitSeed p) ix ! (input_start cir ?g + i)"
      using garbling_shape(2) [OF ok, of "cp_mCircuitSeed p"] j by (metis nth_take)
    moreover have "plain_run (mGates cir) x (input_start cir ?g + i) = x (input_start cir ?g + i)"
      using wf j by (intro plain_run_keeps) (simp_all add: circuit_wf_def)
    ultimately have "L4 ! (input_start cir ?g + i) = L3 ! (input_start cir ?g + i)"
      using ev [of "input_start cir ?g + i"] enc [OF j] j nw L by simp
    then show ?thesis using th [OF i] by simp
  qed
  have o: "mOutputCount cir = length (mOutputs cir)" "\<And>i. i \<in> set (mOutputs cir) \<Longrightarrow> i < mWireCount cir"
    using wf by (auto simp: circuit_wf_def)
  have "\<exists>out'. fold (eval_output bk b cir L4) [0..<length (mOutputs cir)] (output_tweak cir 2, output_tweak cir 3, 0, bk_mOutputs bk ! b)
      = (tweak_at (output_tweak cir 2) (length (mOutputs cir)), tweak_at (output_tweak cir 3) (length (mOutputs cir)),
         xor_fold 0 (map (\<lambda>i. pick (circuit_sem cir x ! i) (common ! i) XOR pick (circuit_sem cir x ! i) (bk_mCommonOutput bk ! i))
           [0..<length (mOutputs cir)]), out')
      \<and> bv_wf out' \<and> bv_bits out' = length (mOutputs cir) \<and> (\<forall>i<length (mOutputs cir). bv_get out' i = circuit_sem cir x ! i)"
  proof (rule eval_outputs [where R = ?R and outs = "mOutputWires (cp_mCircuit p)"])
    show "PermuteBit ?R" by (simp add: cp_offset_def)
    show "bk_mTranlation bk ! b = translation_values ?R (output_tweak cir 2) (output_tweak cir 3) (mOutputWires (cp_mCircuit p)) common"
      "bv_wf (bk_mOutputs bk ! b)" "bv_bits (bk_mOutputs bk ! b) = length (mOutputs cir)"
      using rd by (simp_all add: eval_ready_def)
  qed (use c gc(2) o ev hg in \<open>auto simp: circuit_sem_def holds_garbling_def\<close>)
  then obtain out where out: "fold (eval_output bk b cir L4) [0..<length (mOutputs cir)]
        (output_tweak cir 2, output_tweak cir 3, 0, bk_mOutputs bk ! b)
      = (tweak_at (output_tweak cir 2) (length (mOutputs cir)), tweak_at (output_tweak cir 3) (length (mOutputs cir)),
         common_sum common (bk_mCommonOutput bk) (circuit_sem cir x), out)"
      "bv_wf out" "bv_bits out = length (mOutputs cir)" "\<forall>i<length (mOutputs cir). bv_get out i = circuit_sem cir x ! i"
    unfolding common_sum_def by (auto simp: circuit_sem_def)
  have "bv_list out = circuit_sem cir x"
    using out(3,4) by (intro nth_equalityI) (simp_all add: circuit_sem_def)
  moreover have rb: "recv_blocks (Inputs cir ?g) (concat (map ByteArray T)) = Inr T"
    "recv_blocks (Inputs cir e) (concat (map ByteArray C)) = Inr C"
    by (rule recv_blocks_ByteArray, simp add: T_def C_def)+
  have m: "garbler_messages cir e p xg xe D q ! 0 = ByteArray (cp_mAdaptiveSecureMaskSeed p)"
      "garbler_messages cir e p xg xe D q ! 1 = concat (map ByteArray T)"
      "garbler_messages cir e p xg xe D q ! 2 = concat (map ByteArray C)"
    by (simp_all add: garbler_messages_def T_def C_def del: map_map)
  have "Bucket_evalCircuit bk b cir labels (garbler_messages cir e p xg xe D q) masks ix e
      = Inr (common_sum common (bk_mCommonOutput bk) (circuit_sem cir x), L4, bk\<lparr>bk_mOutputs := (bk_mOutputs bk)[b := out]\<rparr>)"
    unfolding Bucket_evalCircuit_def m recv_block_ByteArray bind_r.simps rb Let_def cp_masks_def [symmetric] ZeroBlock_0
      dec_def [symmetric] L1_def [symmetric] L2_def [symmetric] L3_def [symmetric] L4_def [symmetric] out(1) prod.case ..
  ultimately show ?thesis using out(2) keep by blast
qed

section \<open>An honest setup of a bucket\<close>

text \<open>What each party brings: its circuits and those it received, the indices the cut-and-choose left
  for this bucket, generators, OTs. Both parties are given by a function of the role.\<close>

record bucket_party =
  bp_bucket :: Bucket
  bp_packages :: "CircuitPackage list"
  bp_received :: "CommCircuitPackage list"
  bp_idx :: "nat list"
  bp_their_idx :: "nat list"
  bp_send_prng :: prng
  bp_recv_prng :: prng
  bp_otRecv :: "block list \<times> bitvec"
  bp_otRecv_idx :: nat
  bp_otSend_idx :: nat

definition party_send ::
  "Circuit \<Rightarrow> nat \<Rightarrow> nat \<Rightarrow> block list \<Rightarrow> (role \<Rightarrow> bucket_party) \<Rightarrow> role \<Rightarrow> Bucket \<times> u8 list list" where
  "party_send cir n psw ix P r =
     (let (bk, msgs, _) = Bucket_initSend (bp_bucket (P r)) cir n psw r (bp_packages (P r)) (bp_idx (P r))
                            (bp_send_prng (P r)) (bp_otRecv (P r)) (bp_otRecv_idx (P r)) ix
      in (bk, msgs))"

definition party_kprobe ::
  "(prng \<Rightarrow> nat list \<Rightarrow> nat list \<times> prng) \<Rightarrow> Circuit \<Rightarrow> nat \<Rightarrow> nat \<Rightarrow> block list \<Rightarrow> (role \<Rightarrow> KProbeMatrix)
   \<Rightarrow> (role \<Rightarrow> bucket_party) \<Rightarrow> role \<Rightarrow> (Bucket \<times> u8 list list) result" where
  "party_kprobe shuffle cir n psw ix K P r =
     bind_r (Bucket_initRecv shuffle (fst (party_send cir n psw ix P r)) cir (K (other r)) n psw (bp_their_idx (P r))
               (bp_received (P r)) (bp_recv_prng (P r)) (bp_otSend_idx (P r)) (snd (party_send cir n psw ix P (other r))))
       (\<lambda>(bk, _). Bucket_initKProbeInputSend bk (K (other r)))"

definition party_offline ::
  "(u8 list \<Rightarrow> u8 list) \<Rightarrow> (prng \<Rightarrow> nat list \<Rightarrow> nat list \<times> prng) \<Rightarrow> Circuit \<Rightarrow> nat \<Rightarrow> nat \<Rightarrow> block list
   \<Rightarrow> (role \<Rightarrow> KProbeMatrix) \<Rightarrow> (role \<Rightarrow> bucket_party) \<Rightarrow> role \<Rightarrow> Bucket result" where
  "party_offline sha shuffle cir n psw ix K P r =
     bind_r (party_kprobe shuffle cir n psw ix K P r) (\<lambda>(bk, _).
     bind_r (party_kprobe shuffle cir n psw ix K P (other r)) (\<lambda>(_, msgs).
       Bucket_initKProbeInputRecv sha bk cir (K r) r msgs))"

definition bucket_packages :: "nat \<Rightarrow> (role \<Rightarrow> bucket_party) \<Rightarrow> role \<Rightarrow> CircuitPackage list" where
  "bucket_packages n P r = map ((!) (bp_packages (P r))) (take n (bp_idx (P r)))"

text \<open>The circuits garbled by \<open>r\<close>, as the other party holds them.\<close>

definition bucket_received :: "nat \<Rightarrow> (role \<Rightarrow> bucket_party) \<Rightarrow> role \<Rightarrow> CommCircuitPackage list" where
  "bucket_received n P r = map ((!) (bp_received (P (other r)))) (take n (bp_their_idx (P (other r))))"

definition bucket_seed :: "(role \<Rightarrow> bucket_party) \<Rightarrow> role \<Rightarrow> block" where
  "bucket_seed P r = fst (get_block (bp_send_prng (P r)))"

text \<open>The zero-labels the evaluator's k-probe encoding decodes to.\<close>

definition kprobe_zero :: "KProbeMatrix \<Rightarrow> CircuitPackage \<Rightarrow> nat \<Rightarrow> block" where
  "kprobe_zero Ke p i = dec_lab Ke ((!) (cp_mKProbeInputs p)) i"

definition bucket_trans :: "Circuit \<Rightarrow> block list \<Rightarrow> block \<Rightarrow> CircuitPackage \<Rightarrow> (block \<times> block) list" where
  "bucket_trans cir ix seed p = translation_values (mGlobalOffset (cp_mCircuit p)) (output_tweak cir 2) (output_tweak cir 3)
     (mOutputWires (cp_mCircuit p)) (common_output cir ix seed)"

text \<open>Honest parties: circuits that were set up between them (which have tables, outputs and inputs of both
  parties), buffers of the right size.\<close>

definition bucket_honest ::
  "(u8 list \<Rightarrow> u8 list) \<Rightarrow> Circuit \<Rightarrow> nat \<Rightarrow> block list \<Rightarrow> nat \<Rightarrow> (role \<Rightarrow> KProbeMatrix) \<Rightarrow> (role \<Rightarrow> bucket_party) \<Rightarrow> bool" where
  "bucket_honest sha cir n ix k K P \<longleftrightarrow>
     digest20 sha \<and> package_sendable cir ix \<and> 0 < n \<and> length (mOutputs cir) * 2 \<le> length ix \<and> bv_fits (length (mOutputs cir))
     \<and> (\<forall>r. package_sizes cir r (K r) (K (other r)) ix k \<and> n \<le> length (bp_idx (P r)) \<and> n \<le> length (bp_their_idx (P r))
          \<and> (\<forall>b<n. package_pair sha cir r (K r) (K (other r)) ix k (bucket_packages n P r ! b) (bucket_received n P r ! b)))"

lemma other_other [simp]: "other (other r) = r"
  by (cases r) simp_all

lemma honest_lengths:
  assumes "bucket_honest sha cir n ix k K P"
  shows "length (bucket_packages n P r) = n" and "length (bucket_received n P r) = n"
  using assms by (simp_all add: bucket_honest_def bucket_packages_def bucket_received_def)

lemma honest_pair: "bucket_honest sha cir n ix k K P \<Longrightarrow> b < n \<Longrightarrow>
    package_pair sha cir r (K r) (K (other r)) ix k (bucket_packages n P r ! b) (bucket_received n P r ! b)"
  by (simp add: bucket_honest_def)

lemma honest_sizes: "bucket_honest sha cir n ix k K P \<Longrightarrow> package_sizes cir r (K r) (K (other r)) ix k"
  by (simp add: bucket_honest_def)

lemma honest_outputs:
  assumes "bucket_honest sha cir n ix k K P" and "b < n"
  shows "length (mOutputWires (cp_mCircuit (bucket_packages n P r ! b))) = length (mOutputs cir)"
    and "length (common_output cir ix seed) = length (mOutputs cir)"
    and "length (bucket_trans cir ix seed (bucket_packages n P r ! b)) = length (mOutputs cir)"
    and "mGlobalOffset (cp_mCircuit (bucket_packages n P r ! b)) = cp_offset (bucket_packages n P r ! b)"
proof -
  have o: "length (mOutputs cir) * 2 \<le> length ix" "length ix < 2 ^ 32"
    using assms(1) honest_sizes [OF assms(1), of r] by (simp_all add: bucket_honest_def package_sizes_def)
  show 1: "length (mOutputWires (cp_mCircuit (bucket_packages n P r ! b))) = length (mOutputs cir)"
    and "mGlobalOffset (cp_mCircuit (bucket_packages n P r ! b)) = cp_offset (bucket_packages n P r ! b)"
    using honest_pair [OF assms, of r] by (simp_all add: package_pair_def cp_garbled_def)
  show 2: "length (common_output cir ix seed) = length (mOutputs cir)" using o by (simp add: length_common_output)
  show "length (bucket_trans cir ix seed (bucket_packages n P r ! b)) = length (mOutputs cir)"
    using 1 2 by (simp add: bucket_trans_def length_translation_values)
qed

lemma party_send_eq:
  "party_send cir n psw ix P r =
     ((bp_bucket (P r))\<lparr>bk_mPsiRecv := fst (PsiReceiver_init n psw (bp_otRecv (P r)) (bp_otRecv_idx (P r))),
        bk_mTheirInputCorrection := bv_reset (bk_mTheirInputCorrection (bp_bucket (P r))) (Inputs cir (other r)),
        bk_mOutputLabelSeed := bucket_seed P r, bk_mCommonOutput := common_output cir ix (bucket_seed P r),
        bk_mMyCircuits := bucket_packages n P r\<rparr>,
      map (\<lambda>p. pair_bytes (bucket_trans cir ix (bucket_seed P r) p)) (bucket_packages n P r)
      @ map (\<lambda>j. bv_message (bv_xor_assign (cp_mOTRecvChoices (bucket_packages n P r ! 0)) (cp_mOTRecvChoices (bucket_packages n P r ! j)))) [1..<n])"
  by (simp add: party_send_def Bucket_initSend_def bucket_seed_def bucket_packages_def bucket_trans_def bucket_translation_def
      Let_def split_beta)

lemma recv_permute_ok:
  assumes "kp_wf Kg" and "cp_ots Kg p c" and "cp_ots Kg p' c'"
  shows "\<exists>v. recv_permute Kg (bv_message (bv_xor_assign (cp_mOTRecvChoices p) (cp_mOTRecvChoices p'))) = Inr v
     \<and> (\<forall>i<length (kp_mMtx Kg). bv_get v i = (cp_permute Kg p i \<noteq> cp_permute Kg p' i))"
proof -
  let ?d = "bv_xor_assign (cp_mOTRecvChoices p) (cp_mOTRecvChoices p')" and ?m = "kp_mEncodingSize Kg"
  have d: "bv_wf ?d" "bv_bits ?d = ?m" using assms(2) by (simp_all add: cp_ots_def)
  obtain w where w: "bv_recv (bv_reset bv_empty ?m) (bv_message ?d) = Inr w" "bv_bits w = ?m"
      "\<forall>j<?m. bv_get w j = bv_get ?d j"
    using bv_recv_same [OF d(1) bv_wf_reset, of bv_empty ?m] d(2) by auto
  obtain v where v: "kp_decode Kg w bv_empty = Inr v" "\<forall>i<length (kp_mMtx Kg). bv_get v i = dec_bit Kg (bv_get w) i"
    using kp_decode_bits [OF w(2), of bv_empty] by blast
  have "dec_bit Kg (bv_get w) i = (cp_permute Kg p i \<noteq> cp_permute Kg p' i)" if i: "i < length (kp_mMtx Kg)" for i
  proof -
    have "dec_bit Kg (bv_get w) i = dec_bit Kg (\<lambda>j. bv_get (cp_mOTRecvChoices p) j \<noteq> bv_get (cp_mOTRecvChoices p') j) i"
      by (rule dec_bit_arg_cong [OF assms(1) i]) (use w(3) assms(2) in \<open>simp add: bv_get_xor_assign cp_ots_def\<close>)
    then show ?thesis unfolding kpc.dbit_xor cp_permute_def .
  qed
  then show ?thesis using w(1) v by (simp add: recv_permute_def)
qed

text \<open>After the garbler's part and the first evaluator's part.\<close>

definition party_keyed ::
  "Circuit \<Rightarrow> nat \<Rightarrow> block list \<Rightarrow> (role \<Rightarrow> KProbeMatrix) \<Rightarrow> (role \<Rightarrow> bucket_party) \<Rightarrow> role \<Rightarrow> Bucket \<Rightarrow> bool" where
  "party_keyed cir n ix K P r bk \<longleftrightarrow>
     bk_mMyCircuits bk = map (\<lambda>p. p\<lparr>cp_mKProbeInputs := []\<rparr>) (bucket_packages n P r)
     \<and> bk_mTheirCircuits bk = bucket_received n P (other r)
     \<and> bk_mOutputLabelSeed bk = bucket_seed P r
     \<and> bk_mCommonOutput bk = common_output cir ix (bucket_seed P r)
     \<and> bk_mTranlation bk = map (bucket_trans cir ix (bucket_seed P (other r))) (bucket_packages n P (other r))
     \<and> bk_mTheirInputOffsets bk
       = map (\<lambda>p. map (kprobe_zero (K (other r)) p) [0..<Inputs cir (other r)]) (bucket_packages n P r)
     \<and> (\<forall>b<n. 0 < b \<longrightarrow> (\<forall>i<Inputs cir (other r). bv_get (bk_mTheirPermutes bk ! (b - 1)) i
          = (cp_permute (K (other r)) (bucket_packages n P (other r) ! 0) i
             \<noteq> cp_permute (K (other r)) (bucket_packages n P (other r) ! b) i)))
     \<and> bv_wf (bk_mTheirInputCorrection bk) \<and> bv_bits (bk_mTheirInputCorrection bk) = Inputs cir (other r)
     \<and> bk_mOutputs bk = replicate n (bv_resize bv_empty (length (mOutputs cir)))"

lemma party_kprobe_ok:
  assumes h: "bucket_honest sha cir n ix k K P"
  shows "\<exists>bk. party_kprobe shuffle cir n psw ix K P r
      = Inr (bk, map (\<lambda>b. kprobe_masked (K (other r)) (bucket_packages n P r ! b) (bucket_received n P (other r) ! b)) [0..<n])
     \<and> party_keyed cir n ix K P r bk"
proof -
  let ?o = "other r" and ?ps = "bucket_packages n P r" and ?qs = "bucket_packages n P (other r)"
  let ?M = "snd (party_send cir n psw ix P ?o)" and ?sd = "bucket_seed P ?o"
  note len = honest_lengths [OF h] and n = h [unfolded bucket_honest_def, THEN conjunct2, THEN conjunct2, THEN conjunct1]
  have szo: "kp_wf (K ?o)" "length (kp_mMtx (K ?o)) = Inputs cir ?o"
    using honest_sizes [OF h, of ?o] by (simp_all add: package_sizes_def)
  have trans: "map_r (\<lambda>i. recv_blocks (length (mOutputs cir) * 2) (?M ! i)) [0..<n]
      = Inr (map (\<lambda>i. flat_pairs (bucket_trans cir ix ?sd (?qs ! i))) [0..<n])"
    using len honest_outputs(3) [OF h, of _ ?sd ?o]
    by (intro map_r_Inr) (simp add: party_send_eq nth_append recv_pairs)
  have "\<exists>v. recv_permute (K ?o) (?M ! (n + i)) = Inr v
      \<and> (\<forall>j<Inputs cir ?o. bv_get v j = (cp_permute (K ?o) (?qs ! 0) j \<noteq> cp_permute (K ?o) (?qs ! (i + 1)) j))" if "i < n - 1" for i
  proof -
    have ots: "cp_ots (K ?o) (?qs ! b) (bucket_received n P ?o ! b)" if "b < n" for b
      using honest_pair [OF h that, of ?o] by (simp add: package_pair_def)
    have "?M ! (n + i) = bv_message (bv_xor_assign (cp_mOTRecvChoices (?qs ! 0)) (cp_mOTRecvChoices (?qs ! (i + 1))))"
      using that len by (simp add: party_send_eq nth_append)
    then show ?thesis
      using recv_permute_ok [OF szo(1) ots ots, of 0 "i + 1"] that n szo(2) by simp
  qed
  then obtain V where V: "\<And>i. i < n - 1 \<Longrightarrow> recv_permute (K ?o) (?M ! (n + i)) = Inr (V i)"
      "\<And>i j. i < n - 1 \<Longrightarrow> j < Inputs cir ?o \<Longrightarrow>
        bv_get (V i) j = (cp_permute (K ?o) (?qs ! 0) j \<noteq> cp_permute (K ?o) (?qs ! (i + 1)) j)" by metis
  have perms: "map_r (\<lambda>i. recv_permute (K ?o) (?M ! (n + i))) [0..<n - 1] = Inr (map V [0..<n - 1])"
    using V(1) by (intro map_r_Inr) simp
  define bk1 where "bk1 = (fst (party_send cir n psw ix P r))\<lparr>bk_mPsiSend := fst (PsiSender_init n psw (bp_otSend_idx (P r))),
      bk_mPSIInputBlocks := replicate n 0, bk_mPSIIdxHead := 0, bk_mTransCheckRemaining := int n,
      bk_mPSIInputPermutes := fst (shuffle (bp_recv_prng (P r)) [0..<n]), bk_mTheirCircuits := bucket_received n P ?o,
      bk_mOutputs := replicate n (bv_resize bv_empty (length (mOutputs cir))),
      bk_mTranlation := map (bucket_trans cir ix ?sd) ?qs, bk_mTheirPermutes := map V [0..<n - 1]\<rparr>"
  have q: "map (\<lambda>i. bucket_trans cir ix ?sd (?qs ! i)) [0..<n] = map (bucket_trans cir ix ?sd) ?qs"
    using len by (intro nth_equalityI) simp_all
  have 1: "\<exists>x. Bucket_initRecv shuffle (fst (party_send cir n psw ix P r)) cir (K ?o) n psw (bp_their_idx (P r))
      (bp_received (P r)) (bp_recv_prng (P r)) (bp_otSend_idx (P r)) ?M = Inr (bk1, x)"
    by (simp add: Bucket_initRecv_def Let_def split_beta trans perms bk1_def comp_def q bucket_received_def del: One_nat_def)
  have my: "bk_mMyCircuits bk1 = ?ps" "length (bk_mTheirPermutes bk1) = n - 1" "bk_mTheirCircuits bk1 = bucket_received n P ?o"
    by (simp_all add: bk1_def party_send_eq)
  have n1: "1 + length (bk_mTheirPermutes bk1) = n" using n my(2) by simp
  have kl: "length (cp_mKProbeInputs (?ps ! b)) = kp_mEncodingSize (K ?o)" if "b < n" for b
    using honest_pair [OF h that, of r] honest_sizes [OF h, of r]
    by (simp add: package_pair_def cp_kprobe_def package_sizes_def ecb_new_eq)
  have dec: "map_r (\<lambda>b. kp_decode_labels (K ?o) (cp_mKProbeInputs (?ps ! b))) [0..<n]
      = Inr (map (\<lambda>b. map (kprobe_zero (K ?o) (?ps ! b)) [0..<Inputs cir ?o]) [0..<n])"
    using kl szo(2) by (intro map_r_Inr) (simp add: kp_decode_labels_eq kprobe_zero_def)
  have d: "vec_resize [] n (map (\<lambda>b. map (kprobe_zero (K ?o) (?ps ! b)) [0..<Inputs cir ?o]) [0..<n])
      = map (\<lambda>p. map (kprobe_zero (K ?o) p) [0..<Inputs cir ?o]) ?ps"
    using len by (intro nth_equalityI) (simp_all add: nth_vec_resize)
  define bk2 where "bk2 = bk1\<lparr>bk_mTheirInputOffsets := map (\<lambda>p. map (kprobe_zero (K ?o) p) [0..<Inputs cir ?o]) ?ps,
      bk_mMyCircuits := map (\<lambda>p. p\<lparr>cp_mKProbeInputs := []\<rparr>) ?ps\<rparr>"
  have 2: "Bucket_initKProbeInputSend bk1 (K ?o)
      = Inr (bk2, map (\<lambda>b. kprobe_masked (K ?o) (?ps ! b) (bucket_received n P ?o ! b)) [0..<n])"
    unfolding Bucket_initKProbeInputSend_def Let_def n1 my(1,3) dec bind_r.simps by (simp add: len d bk2_def)
  have "party_keyed cir n ix K P r bk2"
    using V(2) by (auto simp: party_keyed_def bk2_def bk1_def party_send_eq bv_wf_reset)
  then show ?thesis using 1 2 by (auto simp: party_kprobe_def)
qed

lemma dec_lab_arg_cong:
  assumes "kp_wf M" and "i < length (kp_mMtx M)" and "\<And>j. j < kp_mEncodingSize M \<Longrightarrow> E j = F j"
  shows "dec_lab M E i = dec_lab M F i"
proof -
  have m: "kp_mEncodingSize M = kp_h M + length (kp_mMtx M)" using assms(1) by (auto simp: kp_wf_def kp_h_def)
  have "row_sum (kp_mMtx M ! i) (kp_h M) E = row_sum (kp_mMtx M ! i) (kp_h M) F"
    by (rule row_sum_cong) (simp add: assms(3) m)
  then show ?thesis using assms(2,3) m by (simp add: dec_lab_def)
qed

text \<open>The evaluator unmasks the labels of its choice bits and finds them committed to.\<close>

lemma kprobe_unmasked_ok:
  assumes sha: "digest20 sha" and ots: "cp_ots Ke q d" and kp: "cp_kprobe sha ix Ke p c"
    and l: "length (cp_mKProbeInputs p) = kp_mEncodingSize Ke" and R: "mGlobalOffset (cp_mCircuit p) = cp_offset p"
  shows "kprobe_unmasked sha Ke q c (kprobe_masked Ke p d)
     = Inr (map (\<lambda>t. lab (cp_offset p) (cp_mKProbeInputs p ! t) (OTRecvChoices q t)) [0..<kp_mEncodingSize Ke])"
proof -
  let ?m = "kp_mEncodingSize Ke" and ?R = "cp_offset p" and ?K = "cp_mKProbeInputs p"
  define ps where "ps = map (\<lambda>t. (OTSendMsg d t False XOR ?K ! t, OTSendMsg d t True XOR ?K ! t XOR ?R)) [0..<?m]"
  have r: "recv_blocks (2 * ?m) (kprobe_masked Ke p d) = Inr (flat_pairs ps)"
    using recv_pairs [of ps ?m] by (simp add: kprobe_masked_def R ps_def mult.commute)
  have lb: "flat_pairs ps ! (2 * t + of_bool (OTRecvChoices q t)) XOR OTRecvMsg q t = lab ?R (?K ! t) (OTRecvChoices q t)"
    if "t < ?m" for t
    using that flat_pairs_nth [of t ps] ots by (cases "OTRecvChoices q t") (simp_all add: ps_def cp_ots_def xor_norm)
  define L where "L = map (\<lambda>t. flat_pairs ps ! (2 * t + of_bool (OTRecvChoices q t)) XOR OTRecvMsg q t) [0..<?m]"
  have L: "L = map (\<lambda>t. lab ?R (?K ! t) (OTRecvChoices q t)) [0..<?m]" using lb by (simp add: L_def)
  have "Commit_eq (Commit_block sha (L ! t)) (if OTRecvChoices q t then snd (cc_mMyKProbeInputCommit c ! t)
      else fst (cc_mMyKProbeInputCommit c ! t))" if "t < ?m" for t
    using that kp l by (cases "OTRecvChoices q t") (simp_all add: L cp_kprobe_def)
  then have "each_r (\<lambda>t. require (Commit_eq (Commit_block sha (L ! t))
                                 (if OTRecvChoices q t then snd (cc_mMyKProbeInputCommit c ! t)
                                  else fst (cc_mMyKProbeInputCommit c ! t))) InvalidCommitment) [0..<?m] = Inr ()"
    by (simp add: each_r_Inr)
  then show ?thesis
    unfolding kprobe_unmasked_def r bind_r.simps Let_def L_def [symmetric] by (simp add: L)
qed

definition party_ready ::
  "Circuit \<Rightarrow> nat \<Rightarrow> block list \<Rightarrow> (role \<Rightarrow> KProbeMatrix) \<Rightarrow> (role \<Rightarrow> bucket_party) \<Rightarrow> role \<Rightarrow> Bucket \<Rightarrow> bool" where
  "party_ready cir n ix K P r bk \<longleftrightarrow>
     party_keyed cir n ix K P r bk
     \<and> bv_wf (bk_mInputCorrectionString bk) \<and> bv_bits (bk_mInputCorrectionString bk) = Inputs cir r
     \<and> (\<forall>i<Inputs cir r. bv_get (bk_mInputCorrectionString bk) i = cp_permute (K r) (bucket_packages n P r ! 0) i)
     \<and> (\<forall>b<n. bk_mMyDecodedKProbeLabels bk ! b
          = map (\<lambda>i. lab (cp_offset (bucket_packages n P (other r) ! b)) (kprobe_zero (K r) (bucket_packages n P (other r) ! b) i)
                       (cp_permute (K r) (bucket_packages n P r ! b) i)) [0..<Inputs cir r])"

lemma party_keyed_kprobe [simp]:
  "party_keyed cir n ix K P r (bk\<lparr>bk_mInputCorrectionString := v, bk_mMyDecodedKProbeLabels := d\<rparr>) = party_keyed cir n ix K P r bk"
  by (simp add: party_keyed_def)

lemma party_offline_ok:
  assumes h: "bucket_honest sha cir n ix k K P"
  shows "\<exists>bk. party_offline sha shuffle cir n psw ix K P r = Inr bk \<and> party_ready cir n ix K P r bk"
proof -
  let ?o = "other r" and ?ps = "bucket_packages n P r" and ?qs = "bucket_packages n P (other r)" and ?m = "kp_mEncodingSize (K r)"
  note len = honest_lengths [OF h]
  have n: "0 < n" and sha: "digest20 sha" using h by (simp_all add: bucket_honest_def)
  have sz: "kp_wf (K r)" "length (kp_mMtx (K r)) = Inputs cir r"
    using honest_sizes [OF h, of r] by (simp_all add: package_sizes_def)
  obtain bk msgs where bk: "party_kprobe shuffle cir n psw ix K P r = Inr (bk, msgs)" "party_keyed cir n ix K P r bk"
    using party_kprobe_ok [OF h, of shuffle psw r] by blast
  obtain bo where bo: "party_kprobe shuffle cir n psw ix K P ?o
      = Inr (bo, map (\<lambda>b. kprobe_masked (K r) (?qs ! b) (bucket_received n P r ! b)) [0..<n])"
    using party_kprobe_ok [OF h, of shuffle psw ?o] by auto
  have my: "bk_mMyCircuits bk = map (\<lambda>p. p\<lparr>cp_mKProbeInputs := []\<rparr>) ?ps" "bk_mTheirCircuits bk = bucket_received n P ?o"
    using bk(2) by (simp_all add: party_keyed_def)
  have ots: "cp_ots (K r) (?ps ! b) (bucket_received n P r ! b)" if "b < n" for b
    using honest_pair [OF h that, of r] by (simp add: package_pair_def)
  have D: "\<exists>v. kp_decode (K r) (cp_mOTRecvChoices (?ps ! b)) u = Inr v \<and> bv_wf v \<and> bv_bits v = Inputs cir r
      \<and> (\<forall>i<Inputs cir r. bv_get v i = cp_permute (K r) (?ps ! b) i)" if "b < n" for b u
    using kp_decode_bits [of "cp_mOTRecvChoices (?ps ! b)" "K r" u] ots [OF that] sz
    by (auto simp: cp_ots_def cp_permute_def)
  obtain v0 where v0: "kp_decode (K r) (cp_mOTRecvChoices (?ps ! 0)) (bv_reset bv_empty (Inputs cir r)) = Inr v0"
      "bv_wf v0" "bv_bits v0 = Inputs cir r" "\<forall>i<Inputs cir r. bv_get v0 i = cp_permute (K r) (?ps ! 0) i"
    using D [OF n] by blast
  let ?lab = "\<lambda>b i. lab (cp_offset (?qs ! b)) (kprobe_zero (K r) (?qs ! b) i) (cp_permute (K r) (?ps ! b) i)"
  have each: "bind_r (kprobe_unmasked sha (K r) (bk_mMyCircuits bk ! b) (bk_mTheirCircuits bk ! b)
                  (map (\<lambda>b. kprobe_masked (K r) (?qs ! b) (bucket_received n P r ! b)) [0..<n] ! b)) (\<lambda>labels.
                bind_r (kp_decode_at (K r) labels (replicate (Inputs cir r) 0) 0) (\<lambda>decoded.
                bind_r (kp_decode (K r) (cp_mOTRecvChoices (bk_mMyCircuits bk ! b)) bv_empty) (\<lambda>_. Inr decoded)))
      = Inr (map (?lab b) [0..<Inputs cir r])" if b: "b < n" for b
  proof -
    let ?L = "map (\<lambda>t. lab (cp_offset (?qs ! b)) (cp_mKProbeInputs (?qs ! b) ! t) (OTRecvChoices (?ps ! b) t)) [0..<?m]"
    have pp: "package_pair sha cir ?o (K ?o) (K r) ix k (?qs ! b) (bucket_received n P ?o ! b)"
      using honest_pair [OF h b, of ?o] by simp
    have kb: "cp_kprobe sha ix (K r) (?qs ! b) (bucket_received n P ?o ! b)" using pp by (simp add: package_pair_def)
    have kl: "length (cp_mKProbeInputs (?qs ! b)) = ?m"
      using pp honest_sizes [OF h, of ?o] by (simp add: package_pair_def cp_kprobe_def package_sizes_def ecb_new_eq)
    have "kprobe_unmasked sha (K r) (?ps ! b) (bucket_received n P ?o ! b) (kprobe_masked (K r) (?qs ! b) (bucket_received n P r ! b)) = Inr ?L"
      by (rule kprobe_unmasked_ok [OF sha ots [OF b] kb kl honest_outputs(4) [OF h b]])
    moreover have "kprobe_unmasked sha (K r) (bk_mMyCircuits bk ! b) c msg = kprobe_unmasked sha (K r) (?ps ! b) c msg" for c msg
      using b len by (simp add: my kprobe_unmasked_def OTRecvChoices_def OTRecvMsg_def)
    moreover have "kp_decode_at (K r) ?L (replicate (Inputs cir r) 0) 0 = Inr (map (dec_lab (K r) ((!) ?L)) [0..<Inputs cir r])"
      using kp_decode_at_eq [of ?L "K r" 0 "replicate (Inputs cir r) 0"] sz(2) by simp
    moreover have "map (dec_lab (K r) ((!) ?L)) [0..<Inputs cir r] = map (?lab b) [0..<Inputs cir r]"
    proof (rule map_cong [OF refl])
      fix i assume "i \<in> set [0..<Inputs cir r]"
      then have i: "i < length (kp_mMtx (K r))" using sz(2) by simp
      have "dec_lab (K r) ((!) ?L) i
          = dec_lab (K r) (\<lambda>t. lab (cp_offset (?qs ! b)) (cp_mKProbeInputs (?qs ! b) ! t) (bv_get (cp_mOTRecvChoices (?ps ! b)) t)) i"
        by (rule dec_lab_arg_cong [OF sz(1) i]) (simp add: OTRecvChoices_def)
      then show "dec_lab (K r) ((!) ?L) i = ?lab b i" by (simp add: kpc.dlab_lab kprobe_zero_def cp_permute_def)
    qed
    moreover have "cp_mOTRecvChoices (bk_mMyCircuits bk ! b) = cp_mOTRecvChoices (?ps ! b)" using b len by (simp add: my)
    ultimately show ?thesis using D [OF b, of bv_empty] b len by (auto simp: my(2))
  qed
  have l: "length (bk_mTheirCircuits bk) = n" by (simp add: my len)
  have c0: "cp_mOTRecvChoices (bk_mMyCircuits bk ! 0) = cp_mOTRecvChoices (?ps ! 0)" using n len by (simp add: my)
  define bk' where "bk' = bk\<lparr>bk_mInputCorrectionString := v0, bk_mMyDecodedKProbeLabels := map (\<lambda>b. map (?lab b) [0..<Inputs cir r]) [0..<n]\<rparr>"
  have "map_r (\<lambda>i. bind_r (kprobe_unmasked sha (K r) (bk_mMyCircuits bk ! i) (bk_mTheirCircuits bk ! i)
                  (map (\<lambda>b. kprobe_masked (K r) (?qs ! b) (bucket_received n P r ! b)) [0..<n] ! i)) (\<lambda>labels.
                bind_r (kp_decode_at (K r) labels (replicate (Inputs cir r) 0) 0) (\<lambda>decoded.
                bind_r (kp_decode (K r) (cp_mOTRecvChoices (bk_mMyCircuits bk ! i)) bv_empty) (\<lambda>_. Inr decoded)))) [0..<n]
      = Inr (map (\<lambda>b. map (?lab b) [0..<Inputs cir r]) [0..<n])"
    by (rule map_r_Inr) (rule each, simp)
  then have "party_offline sha shuffle cir n psw ix K P r = Inr bk'"
    unfolding party_offline_def bk(1) bind_r.simps prod.case bo Bucket_initKProbeInputRecv_def c0 v0(1) l by (simp only: bind_r.simps bk'_def)
  moreover have "party_ready cir n ix K P r bk'" using bk(2) v0 by (simp add: party_ready_def bk'_def)
  ultimately show ?thesis by blast
qed

section \<open>An honest online phase\<close>

fun eval_all :: "(nat \<Rightarrow> Bucket \<Rightarrow> (block \<times> block list \<times> Bucket) result) \<Rightarrow> nat list \<Rightarrow> Bucket
    \<Rightarrow> (block list \<times> block list list \<times> Bucket) result" where
  "eval_all f [] bk = Inr ([], [], bk)"
| "eval_all f (b # bs) bk =
     bind_r (f b bk) (\<lambda>(psi, L, bk).
     bind_r (eval_all f bs bk) (\<lambda>(psis, Ls, bk). Inr (psi # psis, L # Ls, bk)))"

text \<open>A party's bucket once both input corrections are exchanged.\<close>

definition party_corrected :: "(role \<Rightarrow> Bucket) \<Rightarrow> (role \<Rightarrow> bitvec) \<Rightarrow> role \<Rightarrow> Bucket result" where
  "party_corrected bks inp r =
     Bucket_recvCorrection (fst (Bucket_evaluate_send (bks r) (inp r))) (snd (Bucket_evaluate_send (bks (other r)) (inp (other r))))"

text \<open>One thread per circuit on each side: the PSI inputs of the circuits, and the bucket, once the input
  labels are checked. The label buffers and mask buffers are \<open>labels\<close> and \<open>masks\<close>.\<close>

definition party_evaluated ::
  "(u8 list \<Rightarrow> u8 list) \<Rightarrow> Circuit \<Rightarrow> nat \<Rightarrow> block list \<Rightarrow> block list \<Rightarrow> block list \<Rightarrow> (role \<Rightarrow> Bucket) \<Rightarrow> (role \<Rightarrow> bitvec)
   \<Rightarrow> role \<Rightarrow> (block list \<times> Bucket) result" where
  "party_evaluated sha cir n ix masks labels bks inp r =
     bind_r (party_corrected bks inp r) (\<lambda>bk.
     bind_r (party_corrected bks inp (other r)) (\<lambda>bo.
     bind_r (eval_all (\<lambda>b bk. bind_r (Bucket_sendCircuitInputs bo cir (inp (other r)) (other r) b n)
                                (\<lambda>msgs. Bucket_evalCircuit bk b cir labels msgs masks ix r)) [0..<n] bk) (\<lambda>(psis, Ls, bk).
     bind_r (Bucket_evaluate_check sha bk cir r Ls) (\<lambda>_. Inr (psis, bk)))))"

text \<open>The other party opens its output labels; every thread checks the translation of its circuit.\<close>

definition party_translated ::
  "(u8 list \<Rightarrow> u8 list) \<Rightarrow> Circuit \<Rightarrow> nat \<Rightarrow> block list \<Rightarrow> Bucket \<Rightarrow> Bucket \<Rightarrow> Bucket result" where
  "party_translated sha cir n ix bo bk =
     bind_r (recv_block (Bucket_openTranslation bo)) (\<lambda>seed.
     bind_r (eval_all (\<lambda>b bk. bind_r (Bucket_checkTranslation sha bk cir b (ecb_new (EncKeyGen seed) ix (mOutputCount cir * 2)))
                                (\<lambda>bk. Inr (0, [], bk))) [0..<n] bk) (\<lambda>(_, _, bk). Inr bk))"

definition party_online ::
  "(u8 list \<Rightarrow> u8 list) \<Rightarrow> Circuit \<Rightarrow> nat \<Rightarrow> block list \<Rightarrow> block list \<Rightarrow> block list \<Rightarrow> (role \<Rightarrow> Bucket) \<Rightarrow> (role \<Rightarrow> bitvec)
   \<Rightarrow> role \<Rightarrow> (block list \<times> Bucket) result" where
  "party_online sha cir n ix masks labels bks inp r =
     bind_r (party_evaluated sha cir n ix masks labels bks inp r) (\<lambda>(psis, bk).
     bind_r (party_corrected bks inp (other r)) (\<lambda>bo.
     bind_r (party_translated sha cir n ix bo bk) (\<lambda>bk. Inr (psis, bk))))"

lemma circuit_range_single: "b < n \<Longrightarrow> circuit_range b n n = [b]"
proof -
  assume b: "b < n"
  have "(n - b + n - 1) div n = 1" by (rule div_nat_eqI) (use b in simp_all)
  then show ?thesis by (simp add: circuit_range_def)
qed

lemma party_corrected_ok:
  assumes "party_ready cir n ix K P r (bks r)" and "party_ready cir n ix K P (other r) (bks (other r))"
  shows "\<exists>u w. party_corrected bks inp r
      = Inr ((bks r)\<lparr>bk_mInputCorrectionString := u, bk_mTheirInputCorrection := w\<rparr>)
     \<and> (\<forall>i<Inputs cir (other r). bv_get w i = (cp_permute (K (other r)) (bucket_packages n P (other r) ! 0) i \<noteq> bv_get (inp (other r)) i))"
proof -
  let ?o = "other r"
  let ?v = "bv_xor_assign (bk_mInputCorrectionString (bks ?o)) (inp ?o)"
  have v: "bv_wf ?v" "bv_bits ?v = Inputs cir ?o" "\<forall>i<Inputs cir ?o. bv_get ?v i
      = (cp_permute (K ?o) (bucket_packages n P ?o ! 0) i \<noteq> bv_get (inp ?o) i)"
    using assms(2) by (simp_all add: party_ready_def bv_get_xor_assign)
  have t: "bv_wf (bk_mTheirInputCorrection (bks r))" "bv_bits (bk_mTheirInputCorrection (bks r)) = bv_bits ?v"
    using assms(1) v(2) by (simp_all add: party_ready_def party_keyed_def)
  obtain w where "bv_recv (bk_mTheirInputCorrection (bks r)) (bv_message ?v) = Inr w"
      "\<forall>i<bv_bits ?v. bv_get w i = bv_get ?v i"
    using bv_recv_same [OF v(1) t] by blast
  then show ?thesis
    using v by (simp add: party_corrected_def Bucket_recvCorrection_def Bucket_evaluate_send_def Let_def) blast
qed

text \<open>The garbler's messages for one circuit. Both parties need the same number of inputs.\<close>

lemma sendCircuitInputs_ok:
  assumes h: "bucket_honest sha cir n ix k K P" and b: "b < n" and eq: "Inputs cir First = Inputs cir Second"
    and k: "party_keyed cir n ix K P r bk"
    and bo: "bk' = bk\<lparr>bk_mInputCorrectionString := u, bk_mTheirInputCorrection := w\<rparr>"
    and w: "\<forall>i<Inputs cir (other r). bv_get w i = (cp_permute (K (other r)) (bucket_packages n P (other r) ! 0) i \<noteq> x i)"
  shows "Bucket_sendCircuitInputs bk' cir y r b n
     = Inr (garbler_messages cir (other r) (bucket_packages n P r ! b) (bv_get y) x
              (kprobe_zero (K (other r)) (bucket_packages n P r ! b)) (cp_permute (K (other r)) (bucket_packages n P (other r) ! b)))"
proof -
  let ?p = "bucket_packages n P r ! b" and ?o = "other r" and ?q = "bucket_packages n P (other r) ! b"
  let ?D = "kprobe_zero (K ?o) ?p"
  note len = honest_lengths [OF h]
  have I: "Inputs cir r = Inputs cir ?o" using eq by (cases r) simp_all
  have my: "bk_mMyCircuits bk' ! b = ?p\<lparr>cp_mKProbeInputs := []\<rparr>" "length (bk_mMyCircuits bk') = n"
    using k b len by (simp_all add: party_keyed_def bo)
  have off: "mGlobalOffset (cp_mCircuit ?p) = cp_offset ?p" by (rule honest_outputs(4) [OF h b])
  have sel: "(if b \<noteq> 0 then bv_get (bk_mTheirInputCorrection bk') t \<noteq> bv_get (bk_mTheirPermutes bk' ! (b - 1)) t
        else bv_get (bk_mTheirInputCorrection bk') t) = (x t \<noteq> cp_permute (K ?o) ?q t)" if "t < Inputs cir ?o" for t
    using k b w that by (auto simp: party_keyed_def bo)
  have D: "bk_mTheirInputOffsets bk' ! b ! t = ?D t" if "t < Inputs cir ?o" for t
    using k b that len by (simp add: party_keyed_def bo)
  let ?c = "concat (map (\<lambda>t. ByteArray (?D t XOR cp_input_label cir ?o ?p t (x t \<noteq> cp_permute (K ?o) ?q t))) [0..<Inputs cir ?o])"
  have bytes: "concat (map (\<lambda>t. ByteArray (bk_mTheirInputOffsets bk' ! b ! t XOR mInputWires (cp_mCircuit (bk_mMyCircuits bk' ! b)) ! (input_start cir ?o + t)
             XOR sel (mGlobalOffset (cp_mCircuit (bk_mMyCircuits bk' ! b)))
                   (if b \<noteq> 0 then bv_get (bk_mTheirInputCorrection bk') t \<noteq> bv_get (bk_mTheirPermutes bk' ! (b - 1)) t
                    else bv_get (bk_mTheirInputCorrection bk') t))) [0..<Inputs cir ?o]) = ?c"
  proof (intro arg_cong [where f = concat] map_cong [OF refl])
    fix t assume "t \<in> set [0..<Inputs cir ?o]"
    then have t: "t < Inputs cir ?o" by simp
    show "ByteArray (bk_mTheirInputOffsets bk' ! b ! t XOR mInputWires (cp_mCircuit (bk_mMyCircuits bk' ! b)) ! (input_start cir ?o + t)
             XOR sel (mGlobalOffset (cp_mCircuit (bk_mMyCircuits bk' ! b)))
                   (if b \<noteq> 0 then bv_get (bk_mTheirInputCorrection bk') t \<noteq> bv_get (bk_mTheirPermutes bk' ! (b - 1)) t
                    else bv_get (bk_mTheirInputCorrection bk') t))
        = ByteArray (?D t XOR cp_input_label cir ?o ?p t (x t \<noteq> cp_permute (K ?o) ?q t))"
      unfolding sel [OF t] D [OF t] my(1) by (simp add: cp_input_label_def lab_def off xor.assoc)
  qed
  have lc: "length ?c = Inputs cir ?o * 16" by (simp add: length_concat comp_def sum_list_triv)
  have cm: "correction_message bk' cir r b = Inr ?c"
    unfolding correction_message_def bytes Let_def I take_all [OF eq_refl [OF lc]] by (simp add: bs_setp_def bs_new_def bs_mxlen_def)
  have ml: "my_labels_message bk' cir y r b = concat (map (\<lambda>i. ByteArray (cp_input_label cir r ?p i (bv_get y i))) [0..<Inputs cir r])"
    by (simp add: my_labels_message_def Let_def my cp_input_label_def lab_def off)
  show ?thesis
    unfolding Bucket_sendCircuitInputs_def my(2) circuit_range_single [OF b] Let_def
    by (simp add: cm ml my(1) garbler_messages_def comp_def)
qed

text \<open>The input check: the labels sent are the committed ones at the permuted position.\<close>

lemma evaluate_check_ok:
  assumes h: "bucket_honest sha cir n ix k K P"
    and their: "bk_mTheirCircuits bk = bucket_received n P (other r)"
    and perm: "\<forall>b<n. 0 < b \<longrightarrow> (\<forall>i<Inputs cir (other r). bv_get (bk_mTheirPermutes bk ! (b - 1)) i
          = (cp_permute (K (other r)) (bucket_packages n P (other r) ! 0) i \<noteq> cp_permute (K (other r)) (bucket_packages n P (other r) ! b) i))"
    and w: "\<forall>i<Inputs cir (other r). bv_get (bk_mTheirInputCorrection bk) i = (cp_permute (K (other r)) (bucket_packages n P (other r) ! 0) i \<noteq> x i)"
    and L: "\<And>b i. b < n \<Longrightarrow> i < Inputs cir (other r) \<Longrightarrow>
        Ls ! b ! (input_start cir (other r) + i) = cp_input_label cir (other r) (bucket_packages n P (other r) ! b) i (x i)"
  shows "Bucket_evaluate_check sha bk cir r Ls = Inr ()"
proof -
  let ?o = "other r" and ?qs = "bucket_packages n P (other r)" and ?cs = "bucket_received n P (other r)"
  note len = honest_lengths [OF h]
  have n: "0 < n" using h by (simp add: bucket_honest_def)
  have one: "check_input_label sha (Ls ! b ! (input_start cir ?o + i)) (cc_mTheirInputCommits (?cs ! b) ! i)
      (cp_permute (K ?o) (?qs ! b) i \<noteq> x i) = Inr ()" if "b < n" "i < Inputs cir ?o" for b i
    using honest_pair [OF h that(1), of ?o] that
    by (cases "x i"; cases "cp_permute (K ?o) (?qs ! b) i") (simp_all add: check_input_label_def L package_pair_def cp_inputs_def)
  have p: "(bv_get (bk_mTheirPermutes bk ! (j - 1)) i \<noteq> bv_get (bk_mTheirInputCorrection bk) i)
      = (cp_permute (K ?o) (?qs ! j) i \<noteq> x i)" if "0 < j" "j < n" "i < Inputs cir ?o" for i j
    using perm w that by auto
  have inner: "each_r (\<lambda>j. check_input_label sha (Ls ! j ! (input_start cir ?o + i)) (cc_mTheirInputCommits (?cs ! j) ! i)
        (bv_get (bk_mTheirPermutes bk ! (j - 1)) i \<noteq> bv_get (bk_mTheirInputCorrection bk) i)) [1..<n] = Inr ()" if "i < Inputs cir ?o" for i
    unfolding each_r_Inr using p one that by auto
  show ?thesis
    unfolding Bucket_evaluate_check_def Let_def their len each_r_Inr
  proof
    fix i assume "i \<in> set [0..<Inputs cir ?o]"
    then have i: "i < Inputs cir ?o" by simp
    have f: "bv_get (bk_mTheirInputCorrection bk) i = (cp_permute (K ?o) (?qs ! 0) i \<noteq> x i)" using w i by blast
    show "bind_r (check_input_label sha (Ls ! 0 ! (input_start cir ?o + i)) (cc_mTheirInputCommits (?cs ! 0) ! i) (bv_get (bk_mTheirInputCorrection bk) i))
        (\<lambda>_. each_r (\<lambda>j. check_input_label sha (Ls ! j ! (input_start cir ?o + i)) (cc_mTheirInputCommits (?cs ! j) ! i)
          (bv_get (bk_mTheirPermutes bk ! (j - 1)) i \<noteq> bv_get (bk_mTheirInputCorrection bk) i)) [1..<n]) = Inr ()"
      unfolding inner [OF i] unfolding f one [OF n i] by simp
  qed
qed

lemma eval_all_outputs:
  assumes "\<And>b outs. b \<in> set bs \<Longrightarrow> length outs = n \<Longrightarrow> outs ! b = out0 \<Longrightarrow>
      \<exists>L out. f b (bk\<lparr>bk_mOutputs := outs\<rparr>) = Inr (v, L, bk\<lparr>bk_mOutputs := outs[b := out]\<rparr>) \<and> bv_list out = y \<and> Q b L"
    and "distinct bs" and "set bs \<subseteq> {..<n}" and "length outs = n" and "\<forall>b\<in>set bs. outs ! b = out0"
  shows "\<exists>Ls outs'. eval_all f bs (bk\<lparr>bk_mOutputs := outs\<rparr>) = Inr (replicate (length bs) v, Ls, bk\<lparr>bk_mOutputs := outs'\<rparr>)
     \<and> length outs' = n \<and> (\<forall>j<length bs. Q (bs ! j) (Ls ! j))
     \<and> (\<forall>b\<in>set bs. bv_list (outs' ! b) = y) \<and> (\<forall>b<n. b \<notin> set bs \<longrightarrow> outs' ! b = outs ! b)"
  using assms
proof (induction bs arbitrary: outs)
  case (Cons b bs)
  obtain L out where s: "f b (bk\<lparr>bk_mOutputs := outs\<rparr>) = Inr (v, L, bk\<lparr>bk_mOutputs := outs[b := out]\<rparr>)" "bv_list out = y" "Q b L"
    using Cons.prems(1) [of b outs] Cons.prems(4,5) by auto
  have "\<exists>Ls outs'. eval_all f bs (bk\<lparr>bk_mOutputs := outs[b := out]\<rparr>) = Inr (replicate (length bs) v, Ls, bk\<lparr>bk_mOutputs := outs'\<rparr>)
     \<and> length outs' = n \<and> (\<forall>j<length bs. Q (bs ! j) (Ls ! j))
     \<and> (\<forall>b\<in>set bs. bv_list (outs' ! b) = y) \<and> (\<forall>c<n. c \<notin> set bs \<longrightarrow> outs' ! c = outs[b := out] ! c)"
  proof (rule Cons.IH)
    show "\<And>c outs. c \<in> set bs \<Longrightarrow> length outs = n \<Longrightarrow> outs ! c = out0 \<Longrightarrow>
      \<exists>L out. f c (bk\<lparr>bk_mOutputs := outs\<rparr>) = Inr (v, L, bk\<lparr>bk_mOutputs := outs[c := out]\<rparr>) \<and> bv_list out = y \<and> Q c L"
      using Cons.prems(1) by simp
  next
    show "\<forall>c\<in>set bs. outs[b := out] ! c = out0"
    proof
      fix c assume c: "c \<in> set bs"
      then have "c \<noteq> b" using Cons.prems(2) by auto
      then show "outs[b := out] ! c = out0" using Cons.prems(5) c by simp
    qed
  qed (use Cons.prems in auto)
  then obtain Ls outs' where r: "eval_all f bs (bk\<lparr>bk_mOutputs := outs[b := out]\<rparr>) = Inr (replicate (length bs) v, Ls, bk\<lparr>bk_mOutputs := outs'\<rparr>)"
      "length outs' = n" "\<forall>j<length bs. Q (bs ! j) (Ls ! j)" "\<forall>b\<in>set bs. bv_list (outs' ! b) = y"
      "\<forall>c<n. c \<notin> set bs \<longrightarrow> outs' ! c = outs[b := out] ! c" by blast
  have bn: "b < n" "b \<notin> set bs" using Cons.prems by auto
  then have "outs' ! b = out" using r(5) Cons.prems(4) by simp
  moreover have "\<forall>j<length (b # bs). Q ((b # bs) ! j) ((L # Ls) ! j)" using r(3) s(3) by (auto simp: nth_Cons split: nat.split)
  ultimately show ?case using s(1,2) r(1,2,4,5) by auto
next
  case Nil
  then show ?case by (intro exI [of _ "[]"] exI [of _ outs]) simp
qed

lemma eval_all_countdown:
  assumes "\<And>b m. b \<in> set bs \<Longrightarrow> f b (bk\<lparr>bk_mTransCheckRemaining := m\<rparr>) = Inr (z, L, bk\<lparr>bk_mTransCheckRemaining := m - 1\<rparr>)"
  shows "\<exists>zs Ls. eval_all f bs (bk\<lparr>bk_mTransCheckRemaining := m\<rparr>) = Inr (zs, Ls, bk\<lparr>bk_mTransCheckRemaining := m - int (length bs)\<rparr>)"
  using assms
proof (induction bs arbitrary: m)
  case (Cons b bs)
  obtain zs Ls where "eval_all f bs (bk\<lparr>bk_mTransCheckRemaining := m - 1\<rparr>)
      = Inr (zs, Ls, bk\<lparr>bk_mTransCheckRemaining := m - 1 - int (length bs)\<rparr>)"
    using Cons.IH [of "m - 1"] Cons.prems by auto
  then show ?case using Cons.prems [of b m] by (simp add: diff_diff_eq)
qed simp

lemma party_evaluates:
  fixes e :: role
  defines "g \<equiv> other e"
  assumes h: "bucket_honest sha cir n ix k K P" and eq: "Inputs cir First = Inputs cir Second"
    and L: "length labels = mWireCount cir" and sz: "package_sizes cir g (K g) (K e) ix (length masks)"
    and ke: "party_ready cir n ix K P e bk0" and kg: "party_ready cir n ix K P g bg0"
    and bk: "bk = bk0\<lparr>bk_mInputCorrectionString := u, bk_mTheirInputCorrection := w\<rparr>"
    and bg: "bg = bg0\<lparr>bk_mInputCorrectionString := u', bk_mTheirInputCorrection := w'\<rparr>"
    and w': "\<forall>i<Inputs cir e. bv_get w' i = (cp_permute (K e) (bucket_packages n P e ! 0) i \<noteq> bv_get ye i)"
    and x: "x = (case e of First \<Rightarrow> joint_input cir (bv_get ye) (bv_get yg) | Second \<Rightarrow> joint_input cir (bv_get yg) (bv_get ye))"
    and b: "b < n" and outs: "length outs = n" "outs ! b = bv_resize bv_empty (length (mOutputs cir))"
  shows "\<exists>L out. bind_r (Bucket_sendCircuitInputs bg cir yg g b n)
                  (\<lambda>msgs. Bucket_evalCircuit (bk\<lparr>bk_mOutputs := outs\<rparr>) b cir labels msgs masks ix e)
      = Inr (common_sum (common_output cir ix (bucket_seed P g)) (common_output cir ix (bucket_seed P e)) (circuit_sem cir x),
             L, bk\<lparr>bk_mOutputs := outs[b := out]\<rparr>)
     \<and> bv_list out = circuit_sem cir x
     \<and> (\<forall>i<Inputs cir g. L ! (input_start cir g + i) = cp_input_label cir g (bucket_packages n P g ! b) i (bv_get yg i))"
proof -
  let ?p = "bucket_packages n P g ! b" and ?co = "common_output cir ix (bucket_seed P g)"
  let ?D = "kprobe_zero (K e) ?p" and ?q = "cp_permute (K e) (bucket_packages n P e ! b)"
  note len = honest_lengths [OF h]
  have og: "other g = e" by (simp add: g_def)
  have kkg: "party_keyed cir n ix K P g bg0" and kke: "party_keyed cir n ix K P e bk0"
    using ke kg by (simp_all add: party_ready_def)
  have m: "Bucket_sendCircuitInputs bg cir yg g b n = Inr (garbler_messages cir e ?p (bv_get yg) (bv_get ye) ?D ?q)"
    using sendCircuitInputs_ok [OF h b eq kkg bg, of "bv_get ye" yg] w' unfolding og by simp
  let ?bk = "bk\<lparr>bk_mOutputs := outs\<rparr>"
  have their: "bk_mTheirCircuits ?bk ! b = bucket_received n P g ! b" using kke by (simp add: bk party_keyed_def g_def)
  have pp: "package_pair sha cir g (K g) (K e) ix k ?p (bk_mTheirCircuits ?bk ! b)"
    using honest_pair [OF h b, of g] unfolding their og .
  have s0: "package_sizes cir g (K g) (K e) ix k" using honest_sizes [OF h, of g] unfolding og .
  have off: "mGlobalOffset (cp_mCircuit ?p) = cp_offset ?p" by (rule honest_outputs(4) [OF h b])
  have f: "bv_fits (length (mOutputs cir))" using h by (simp add: bucket_honest_def)
  have "bk_mTranlation bk0 ! b = bucket_trans cir ix (bucket_seed P g) ?p"
    using kke b len by (simp add: party_keyed_def g_def)
  moreover have "bk_mMyDecodedKProbeLabels bk0 ! b = map (\<lambda>i. lab (cp_offset ?p) (?D i) (?q i)) [0..<Inputs cir e]"
    using ke b by (simp add: party_ready_def g_def)
  ultimately have rd: "eval_ready ?bk b cir e ?p ?co ?D ?q"
    using outs b f by (simp add: eval_ready_def bk bucket_trans_def off bv_wf_resize bv_wf_empty)
  have c: "length ?co = length (mOutputs cir)" by (rule honest_outputs(2) [OF h b])
  have cb: "bk_mCommonOutput ?bk = common_output cir ix (bucket_seed P e)" using kke by (simp add: bk party_keyed_def)
  have t: "bk_mOutputs ?bk = outs" "bk\<lparr>bk_mOutputs := outs, bk_mOutputs := z\<rparr> = bk\<lparr>bk_mOutputs := z\<rparr>" for z by simp_all
  show ?thesis
    using evalCircuit_ok [OF s0 [unfolded g_def] sz [unfolded g_def] pp [unfolded g_def] L c [unfolded g_def] rd [unfolded g_def] x]
    unfolding g_def m [unfolded g_def] bind_r.simps cb t by blast
qed

lemma party_evaluated_ok:
  fixes e :: role
  defines "g \<equiv> other e"
  assumes h: "bucket_honest sha cir n ix k K P" and eq: "Inputs cir First = Inputs cir Second"
    and L: "length labels = mWireCount cir" and sz: "package_sizes cir g (K g) (K e) ix (length masks)"
    and rd: "\<And>r. party_ready cir n ix K P r (bks r)"
  shows "\<exists>u w outs. party_evaluated sha cir n ix masks labels bks inp e
      = Inr (replicate n (common_sum (common_output cir ix (bucket_seed P g)) (common_output cir ix (bucket_seed P e))
               (circuit_sem cir (joint_input cir (bv_get (inp First)) (bv_get (inp Second))))),
             (bks e)\<lparr>bk_mInputCorrectionString := u, bk_mTheirInputCorrection := w, bk_mOutputs := outs\<rparr>)
     \<and> length outs = n
     \<and> (\<forall>b<n. bv_list (outs ! b) = circuit_sem cir (joint_input cir (bv_get (inp First)) (bv_get (inp Second))))"
proof -
  define x where "x = joint_input cir (bv_get (inp First)) (bv_get (inp Second))"
  have og: "other g = e" by (simp add: g_def)
  have xe: "x = (case e of First \<Rightarrow> joint_input cir (bv_get (inp e)) (bv_get (inp g)) | Second \<Rightarrow> joint_input cir (bv_get (inp g)) (bv_get (inp e)))"
    by (cases e) (simp_all add: x_def g_def)
  let ?v = "common_sum (common_output cir ix (bucket_seed P g)) (common_output cir ix (bucket_seed P e)) (circuit_sem cir x)"
  let ?out0 = "bv_resize bv_empty (length (mOutputs cir))"
  obtain u w where ce: "party_corrected bks inp e = Inr ((bks e)\<lparr>bk_mInputCorrectionString := u, bk_mTheirInputCorrection := w\<rparr>)"
      "\<forall>i<Inputs cir g. bv_get w i = (cp_permute (K g) (bucket_packages n P g ! 0) i \<noteq> bv_get (inp g) i)"
    using party_corrected_ok [OF rd rd, where r = e] unfolding g_def by blast
  obtain u' w' where cg: "party_corrected bks inp g = Inr ((bks g)\<lparr>bk_mInputCorrectionString := u', bk_mTheirInputCorrection := w'\<rparr>)"
      "\<forall>i<Inputs cir e. bv_get w' i = (cp_permute (K e) (bucket_packages n P e ! 0) i \<noteq> bv_get (inp e) i)"
    using party_corrected_ok [OF rd rd, where r = g] unfolding og by blast
  define bk where "bk = (bks e)\<lparr>bk_mInputCorrectionString := u, bk_mTheirInputCorrection := w\<rparr>"
  define bg where "bg = (bks g)\<lparr>bk_mInputCorrectionString := u', bk_mTheirInputCorrection := w'\<rparr>"
  have ke: "party_keyed cir n ix K P e (bks e)" using rd by (simp add: party_ready_def)
  let ?f = "\<lambda>b bk. bind_r (Bucket_sendCircuitInputs bg cir (inp g) g b n) (\<lambda>msgs. Bucket_evalCircuit bk b cir labels msgs masks ix e)"
  let ?Q = "\<lambda>b L. \<forall>i<Inputs cir g. L ! (input_start cir g + i) = cp_input_label cir g (bucket_packages n P g ! b) i (bv_get (inp g) i)"
  have step: "\<exists>L out. ?f b (bk\<lparr>bk_mOutputs := outs\<rparr>) = Inr (?v, L, bk\<lparr>bk_mOutputs := outs[b := out]\<rparr>)
      \<and> bv_list out = circuit_sem cir x \<and> ?Q b L" if "b \<in> set [0..<n]" "length outs = n" "outs ! b = ?out0" for b outs
    using party_evaluates [OF h eq L sz [unfolded g_def] rd rd bk_def bg_def [unfolded g_def] cg(2) xe [unfolded g_def], of b outs] that
    unfolding g_def by simp
  have o0: "bk = bk\<lparr>bk_mOutputs := replicate n ?out0\<rparr>" using ke by (simp add: bk_def party_keyed_def)
  have "set [0..<n] \<subseteq> {..<n}" "length (replicate n ?out0) = n" "\<forall>b\<in>set [0..<n]. replicate n ?out0 ! b = ?out0" by auto
  note r = eval_all_outputs [OF step distinct_upt this, folded o0]
  obtain Ls outs where r': "eval_all ?f [0..<n] bk = Inr (replicate (length [0..<n]) ?v, Ls, bk\<lparr>bk_mOutputs := outs\<rparr>)"
      "length outs = n" "\<forall>j<length [0..<n]. ?Q ([0..<n] ! j) (Ls ! j)" "\<forall>b\<in>set [0..<n]. bv_list (outs ! b) = circuit_sem cir x"
    using r by blast
  have ev: "eval_all ?f [0..<n] bk = Inr (replicate n ?v, Ls, bk\<lparr>bk_mOutputs := outs\<rparr>)" "length outs = n"
      "\<And>j i. j < n \<Longrightarrow> i < Inputs cir g \<Longrightarrow> Ls ! j ! (input_start cir g + i)
         = cp_input_label cir g (bucket_packages n P g ! j) i (bv_get (inp g) i)"
      "\<forall>b<n. bv_list (outs ! b) = circuit_sem cir x"
    using r' by simp_all
  have chk: "Bucket_evaluate_check sha (bk\<lparr>bk_mOutputs := outs\<rparr>) cir e Ls = Inr ()"
    by (rule evaluate_check_ok [OF h, where x = "bv_get (inp g)"])
      (use ke ce(2) ev(3) in \<open>simp_all add: bk_def party_keyed_def g_def\<close>)
  have "party_evaluated sha cir n ix masks labels bks inp e = Inr (replicate n ?v, bk\<lparr>bk_mOutputs := outs\<rparr>)"
    unfolding party_evaluated_def g_def [symmetric] ce(1) cg(1) bind_r.simps bk_def [symmetric] bg_def [symmetric] ev(1) prod.case chk ..
  then show ?thesis using ev(2,4) unfolding x_def bk_def by blast
qed

text \<open>The translations open: the other party's seed gives the common output labels.\<close>

lemma party_translated_ok:
  assumes h: "bucket_honest sha cir n ix k K P" and sz: "package_sizes cir g (K g) (K (other g)) ix m"
    and bk: "bk_mTranlation bk = map (bucket_trans cir ix (bucket_seed P g)) (bucket_packages n P g)"
      "bk_mTheirCircuits bk = bucket_received n P g" "bk_mOutputLabelSeed bo = bucket_seed P g"
  shows "party_translated sha cir n ix bo bk = Inr (bk\<lparr>bk_mTransCheckRemaining := bk_mTransCheckRemaining bk - int n\<rparr>)"
proof -
  have sd: "recv_block (Bucket_openTranslation bo) = Inr (bucket_seed P g)"
    by (simp add: Bucket_openTranslation_def bk(3))
  have wf: "mOutputCount cir = length (mOutputs cir)" using sz by (simp add: package_sizes_def circuit_wf_def)
  have out: "length (mOutputs cir) * 2 \<le> length ix" "length (mOutputs cir) * 2 < 2 ^ 32"
    using h sz by (simp_all add: bucket_honest_def package_sizes_def)
  have tr: "Bucket_checkTranslation sha (bk\<lparr>bk_mTransCheckRemaining := m\<rparr>) cir b (ecb_new (EncKeyGen (bucket_seed P g)) ix (mOutputCount cir * 2))
      = Inr (bk\<lparr>bk_mTransCheckRemaining := m - 1\<rparr>)" if b: "b < n" for b m
  proof -
    have "bk_mTranlation bk ! b = bucket_trans cir ix (bucket_seed P g) (bucket_packages n P g ! b)"
      using b honest_lengths [OF h] by (simp add: bk(1))
    moreover have "cp_output sha cir (bucket_packages n P g ! b) (bucket_received n P g ! b)"
      using honest_pair [OF h b, of g] by (simp add: package_pair_def)
    ultimately show ?thesis
      using checkTranslation_ok [OF wf out(2,1) honest_outputs(1) [OF h b, of g], of sha "bk\<lparr>bk_mTransCheckRemaining := m\<rparr>" b "bucket_seed P g"]
      by (simp add: wf bucket_trans_def bk(2))
  qed
  let ?tf = "\<lambda>b bk. bind_r (Bucket_checkTranslation sha bk cir b (ecb_new (EncKeyGen (bucket_seed P g)) ix (mOutputCount cir * 2)))
                                (\<lambda>bk. Inr (0 :: block, [] :: block list, bk))"
  have "?tf b (bk\<lparr>bk_mTransCheckRemaining := m\<rparr>) = Inr (0, [], bk\<lparr>bk_mTransCheckRemaining := m - 1\<rparr>)"
    if "b \<in> set [0..<n]" for b m using tr that by simp
  from eval_all_countdown [of "[0..<n]" ?tf bk, OF this] obtain zs Zs where
    cd: "eval_all ?tf [0..<n] (bk\<lparr>bk_mTransCheckRemaining := bk_mTransCheckRemaining bk\<rparr>)
      = Inr (zs, Zs, bk\<lparr>bk_mTransCheckRemaining := bk_mTransCheckRemaining bk - int (length [0..<n])\<rparr>)" by blast
  have self: "bk\<lparr>bk_mTransCheckRemaining := bk_mTransCheckRemaining bk\<rparr> = bk" by simp
  show ?thesis
    unfolding party_translated_def sd bind_r.simps cd [unfolded self] prod.case length_upt diff_zero ..
qed

lemma party_online_ok:
  fixes e :: role
  defines "g \<equiv> other e"
  assumes h: "bucket_honest sha cir n ix k K P" and eq: "Inputs cir First = Inputs cir Second"
    and L: "length labels = mWireCount cir" and sz: "package_sizes cir g (K g) (K e) ix (length masks)"
    and rd: "\<And>r. party_ready cir n ix K P r (bks r)"
  shows "\<exists>bk. party_online sha cir n ix masks labels bks inp e
      = Inr (replicate n (common_sum (common_output cir ix (bucket_seed P g)) (common_output cir ix (bucket_seed P e))
               (circuit_sem cir (joint_input cir (bv_get (inp First)) (bv_get (inp Second))))), bk)
     \<and> length (bk_mOutputs bk) = n
     \<and> (\<forall>b<n. bv_list (bk_mOutputs bk ! b) = circuit_sem cir (joint_input cir (bv_get (inp First)) (bv_get (inp Second))))"
proof -
  obtain u w outs where ev: "party_evaluated sha cir n ix masks labels bks inp e
      = Inr (replicate n (common_sum (common_output cir ix (bucket_seed P g)) (common_output cir ix (bucket_seed P e))
               (circuit_sem cir (joint_input cir (bv_get (inp First)) (bv_get (inp Second))))),
             (bks e)\<lparr>bk_mInputCorrectionString := u, bk_mTheirInputCorrection := w, bk_mOutputs := outs\<rparr>)"
    "length outs = n" "\<forall>b<n. bv_list (outs ! b) = circuit_sem cir (joint_input cir (bv_get (inp First)) (bv_get (inp Second)))"
    using party_evaluated_ok [OF h eq L sz [unfolded g_def] rd, where inp = inp] unfolding g_def by blast
  obtain u' w' where cg: "party_corrected bks inp g = Inr ((bks g)\<lparr>bk_mInputCorrectionString := u', bk_mTheirInputCorrection := w'\<rparr>)"
    using party_corrected_ok [OF rd rd, where r = g] by blast
  have s: "package_sizes cir g (K g) (K (other g)) ix (length masks)" using sz by (simp add: g_def)
  have ke: "party_keyed cir n ix K P e (bks e)" and kg: "party_keyed cir n ix K P g (bks g)" using rd by (simp_all add: party_ready_def)
  let ?bk = "(bks e)\<lparr>bk_mInputCorrectionString := u, bk_mTheirInputCorrection := w, bk_mOutputs := outs\<rparr>"
  have "party_translated sha cir n ix ((bks g)\<lparr>bk_mInputCorrectionString := u', bk_mTheirInputCorrection := w'\<rparr>) ?bk
      = Inr (?bk\<lparr>bk_mTransCheckRemaining := bk_mTransCheckRemaining ?bk - int n\<rparr>)"
    by (rule party_translated_ok [OF h s]) (use ke kg in \<open>simp_all add: party_keyed_def g_def\<close>)
  then show ?thesis
    using ev(2,3) unfolding party_online_def ev(1) g_def [symmetric] bind_r.simps prod.case cg by simp
qed

text \<open>Both parties at once: all their PSI inputs are one value.\<close>

lemma party_online_both:
  assumes h: "bucket_honest sha cir n ix k K P" and "Inputs cir First = Inputs cir Second" and "length labels = mWireCount cir"
    and "\<forall>r. package_sizes cir r (K r) (K (other r)) ix (length masks)" and "\<And>r. party_ready cir n ix K P r (bks r)"
  shows "\<exists>v. \<forall>r. \<exists>bk. party_online sha cir n ix masks labels bks inp r = Inr (replicate n v, bk)
     \<and> map bv_list (bk_mOutputs bk)
       = replicate n (circuit_sem cir (joint_input cir (bv_get (inp First)) (bv_get (inp Second))))"
proof -
  let ?y = "circuit_sem cir (joint_input cir (bv_get (inp First)) (bv_get (inp Second)))"
  let ?v = "\<lambda>e. common_sum (common_output cir ix (bucket_seed P (other e))) (common_output cir ix (bucket_seed P e)) ?y"
  have on: "\<exists>bk. party_online sha cir n ix masks labels bks inp r = Inr (replicate n (?v r), bk)
      \<and> map bv_list (bk_mOutputs bk) = replicate n ?y" for r
  proof -
    have sz: "package_sizes cir (other r) (K (other r)) (K r) ix (length masks)"
      using assms(4) [rule_format, of "other r"] by simp
    obtain bk where "party_online sha cir n ix masks labels bks inp r = Inr (replicate n (?v r), bk)"
        "length (bk_mOutputs bk) = n" "\<forall>b<n. bv_list (bk_mOutputs bk ! b) = ?y"
      using party_online_ok [OF assms(1-3) sz assms(5)] by blast
    then show ?thesis by (intro exI [of _ bk]) (simp add: list_eq_iff_nth_eq)
  qed
  have "?v r = ?v First" for r by (cases r) (simp_all add: common_sum_commute)
  then show ?thesis using on by (intro exI [of _ "?v First"]) metis
qed

section \<open>Properties\<close>

text \<open>C2. Dual execution is correct when both parties have the same number of inputs: when two honest parties
  run a bucket of circuits that were set up
  between them, the setup and the online phase throw nothing on either side (the k-probe labels, the
  input labels and the translations all match their commitments), every circuit either party
  evaluates outputs the circuit's function of both inputs, and all PSI inputs of both parties are the
  same value, so that the intersection finds the output.\<close>

theorem dual_execution_correct:
  assumes "bucket_honest sha cir n ix k K P" and "Inputs cir First = Inputs cir Second"
    and "length labels = mWireCount cir" and "\<forall>r. package_sizes cir r (K r) (K (other r)) ix (length masks)"
  shows "\<exists>bks v. (\<forall>r. party_offline sha shuffle cir n psw ix K P r = Inr (bks r))
     \<and> (\<forall>r. \<exists>bk. party_online sha cir n ix masks labels bks inp r = Inr (replicate n v, bk)
          \<and> map bv_list (bk_mOutputs bk)
            = replicate n (circuit_sem cir (joint_input cir (bv_get (inp First)) (bv_get (inp Second)))))"
proof -
  obtain bks where bks: "\<And>r. party_offline sha shuffle cir n psw ix K P r = Inr (bks r)" "\<And>r. party_ready cir n ix K P r (bks r)"
    using party_offline_ok [OF assms(1), of shuffle psw] by metis
  show ?thesis using bks(1) party_online_both [OF assms bks(2), of inp] by blast
qed

definition Bucket_new :: Bucket where
  "Bucket_new =
     \<lparr>bk_mTheirInputCorrection = bv_empty, bk_mInputCorrectionString = bv_empty, bk_mOutputs = [],
      bk_mMyDecodedKProbeLabels = [], bk_mTheirInputOffsets = [], bk_mPSIIdxHead = 0, bk_mTransCheckRemaining = 0,
      bk_mOutputMissCount = 0, bk_mPSIInputBlocks = [], bk_mOutputLabelSeed = 0, bk_mTheirPermutes = [],
      bk_mTheirCircuits = [], bk_mMyCircuits = [], bk_mTranlation = [], bk_mCommonOutput = [], bk_mPSIInputPermutes = [],
      bk_mPsiSend = fst (PsiSender_init 0 0 0), bk_mPsiRecv = fst (PsiReceiver_init 0 0 ([], bv_empty) 0)\<rparr>"

text \<open>Two parties with a bucket of two half adders (the same circuit twice).\<close>

definition sample_parties :: "(role \<Rightarrow> CircuitPackage) \<Rightarrow> (role \<Rightarrow> CommCircuitPackage) \<Rightarrow> role \<Rightarrow> bucket_party" where
  "sample_parties p c r =
     \<lparr>bp_bucket = Bucket_new, bp_packages = [p r], bp_received = [c (other r)], bp_idx = [0, 0], bp_their_idx = [0, 0],
      bp_send_prng = SetSeed (of_bool (r = Second)), bp_recv_prng = SetSeed 5, bp_otRecv = ([], bv_empty),
      bp_otRecv_idx = 0, bp_otSend_idx = 0\<rparr>"

lemma sample_parties_honest:
  assumes "digest20 sha" and "\<And>r. package_pair sha half_adder r kp_one kp_one [0, 1, 2, 3] (length [a :: block, b]) (p r) (c r)"
  shows "bucket_honest sha half_adder 2 [0, 1, 2, 3] (length [a :: block, b]) (\<lambda>r. kp_one) (sample_parties p c)"
proof -
  have pk: "bucket_packages 2 (sample_parties p c) r ! i = p r" "bucket_received 2 (sample_parties p c) r ! i = c r" if "i < 2" for r i
    using that by (cases i; simp add: bucket_packages_def bucket_received_def sample_parties_def numeral_2_eq_2)+
  have "length (mOutputs half_adder) = 2" by (simp add: half_adder_def)
  then show ?thesis
    unfolding bucket_honest_def using assms half_adder_sizes half_adder_package
    by (auto simp: pk bv_fits_def) (simp_all add: sample_parties_def)
qed

theorem dual_execution_correct_witness:
  "\<exists>P bks v. (\<forall>r. party_offline (vec_resize 0 20) (\<lambda>g xs. (rev xs, g)) half_adder 2 8 [0, 1, 2, 3] (\<lambda>r. kp_one) P r = Inr (bks r))
     \<and> (\<forall>r. \<exists>bk. party_online (vec_resize 0 20) half_adder 2 [0, 1, 2, 3] [0, 0] [0, 0, 0, 0] bks (\<lambda>r. bv_put (bv_reset bv_empty 1) 0 True) r
            = Inr (replicate 2 v, bk)
          \<and> map bv_list (bk_mOutputs bk)
            = replicate 2 (circuit_sem half_adder (joint_input half_adder (bv_get (bv_put (bv_reset bv_empty 1) 0 True))
                (bv_get (bv_put (bv_reset bv_empty 1) 0 True)))))"
proof -
  have sha: "digest20 (vec_resize 0 20)" by (simp add: digest20_def HashSize_def)
  obtain s r where ot: "ot_agreed s r 100" using ot_agreed_exists [of 100] by auto
  have w: "mWireCount half_adder \<le> length [0 :: block, 0, 0, 0]" "4 + kp_mEncodingSize kp_one \<le> 100"
    "bv_wf (cp_mOTRecvChoices CircuitPackage_new)"
    by (simp_all add: half_adder_def kp_one_def CircuitPackage_new_def bv_wf_empty)
  have "\<exists>p c. package_pair (vec_resize 0 20) half_adder q kp_one kp_one [0, 1, 2, 3] (length [0 :: block, 0]) p c" for q
    using package_setup_ok [OF sha half_adder_package half_adder_sizes w(1) ot w(2,3), of q] by blast
  then obtain p c where "\<And>q. package_pair (vec_resize 0 20) half_adder q kp_one kp_one [0, 1, 2, 3] (length [0 :: block, 0]) (p q) (c q)"
    by metis
  note h = sample_parties_honest [OF sha this]
  have i: "Inputs half_adder First = Inputs half_adder Second" by (simp add: Inputs_def half_adder_def)
  have l: "length [0 :: block, 0, 0, 0] = mWireCount half_adder" by (simp add: half_adder_def)
  have z: "\<forall>r. package_sizes half_adder r kp_one kp_one [0, 1, 2, 3] (length [0 :: block, 0])" using half_adder_sizes by blast
  show ?thesis by (intro exI [of _ "sample_parties p c"]) (rule dual_execution_correct [OF h i l z])
qed

text \<open>C39. Parties with input sizes that differ cannot finish: \<open>sendCircuitInputs\<close> sizes the corrections
  by the wrong party's inputs, so the party with more inputs throws while sending, and what the party
  with fewer inputs sends makes the evaluator throw while receiving.\<close>

theorem unequal_inputs_fail:
  assumes "b < length (bk_mMyCircuits bk)"
  shows "(Inputs cir (other r) < Inputs cir r
            \<longrightarrow> Bucket_sendCircuitInputs bk cir y r b (length (bk_mMyCircuits bk)) = Inl RuntimeError)
     \<and> (Inputs cir r < Inputs cir (other r)
            \<longrightarrow> bind_r (Bucket_sendCircuitInputs bk cir y r b (length (bk_mMyCircuits bk)))
                  (\<lambda>msgs. Bucket_evalCircuit bk' c cir labels msgs masks ix (other r)) = Inl BadReceiveBufferSize)"
proof -
  let ?I = "Inputs cir r" and ?J = "Inputs cir (other r)"
  have cr: "circuit_range b (length (bk_mMyCircuits bk)) (length (bk_mMyCircuits bk)) = [b]"
    using assms by (rule circuit_range_single)
  have 1: "correction_message bk cir r b = Inl RuntimeError" if "?J < ?I"
    using that by (simp add: correction_message_def bs_setp_def bs_new_def bs_mxlen_def)
  have 2: "\<exists>m. correction_message bk cir r b = Inr m \<and> length m = 16 * ?I" if "?I < ?J"
    using that by (simp add: correction_message_def bs_setp_def bs_new_def bs_mxlen_def Let_def length_concat comp_def sum_list_triv)
  have 3: "recv_blocks ?I (my_labels_message bk cir y r b) = Inr (blocks_of ?I (my_labels_message bk cir y r b))"
    by (simp add: recv_blocks_def my_labels_message_def Let_def length_concat comp_def sum_list_triv)
  have "bind_r (Bucket_sendCircuitInputs bk cir y r b (length (bk_mMyCircuits bk)))
                  (\<lambda>msgs. Bucket_evalCircuit bk' c cir labels msgs masks ix (other r)) = Inl BadReceiveBufferSize" if lt: "?I < ?J"
  proof -
    obtain m where m: "correction_message bk cir r b = Inr m" "length m = 16 * ?I" using 2 [OF lt] by blast
    then have "recv_blocks ?J m = Inl BadReceiveBufferSize" using lt by (simp add: recv_blocks_def)
    then show ?thesis using m(1) 3 by (simp add: Bucket_sendCircuitInputs_def cr Bucket_evalCircuit_def)
  qed
  then show ?thesis using 1 by (simp add: Bucket_sendCircuitInputs_def cr)
qed

theorem unequal_inputs_fail_witness:
  "Bucket_sendCircuitInputs (Bucket_new\<lparr>bk_mMyCircuits := [CircuitPackage_new]\<rparr>) (half_adder\<lparr>mInputs := (2, 1)\<rparr>)
     bv_empty First 0 1 = Inl RuntimeError
   \<and> bind_r (Bucket_sendCircuitInputs (Bucket_new\<lparr>bk_mMyCircuits := [CircuitPackage_new]\<rparr>) (half_adder\<lparr>mInputs := (2, 1)\<rparr>)
       bv_empty Second 0 1) (\<lambda>msgs. Bucket_evalCircuit Bucket_new 0 (half_adder\<lparr>mInputs := (2, 1)\<rparr>) [0] msgs [0] [0] (other Second))
     = Inl BadReceiveBufferSize"
proof -
  let ?bk = "Bucket_new\<lparr>bk_mMyCircuits := [CircuitPackage_new]\<rparr>" and ?c = "half_adder\<lparr>mInputs := (2, 1)\<rparr>"
  have b: "0 < length (bk_mMyCircuits ?bk)" and l: "length (bk_mMyCircuits ?bk) = 1" by simp_all
  have i: "Inputs ?c First = 2" "Inputs ?c Second = 1" by (simp_all add: Inputs_def)
  show ?thesis
    using unequal_inputs_fail [OF b, of ?c First bv_empty Bucket_new 0 "[0]" "[0]" "[0]"]
      unequal_inputs_fail [OF b, of ?c Second bv_empty Bucket_new 0 "[0]" "[0]" "[0]"]
    unfolding l other.simps i by simp
qed

end
