(* ===== verification/BDX_CutChoose.thy ===== *)
theory BDX_CutChoose
  imports BDX_Bucket "HOL-Library.Multiset" "HOL-Library.Disjoint_Sets"
begin

text \<open>
  \<open>DualEx/DualExActor.{h,cpp}\<close>, first part: the actor, the choice of the circuits to open, the parameter
  check, and how \<open>init\<close> divides circuits, buckets and OTs among its threads. \<open>DEBUG\<close> assertions
  and the thread objects themselves are left out. Sizes are naturals; the products of \<open>init\<close> stay
  below \<open>2 ^ 64\<close> for every size a machine can allocate.
\<close>

record DualExActor =
  ac_mCircuit :: Circuit
  ac_mRole :: role
  ac_mNumExe :: nat
  ac_mBucketSize :: nat
  ac_mNumOpened :: nat
  ac_mNumCircuits :: nat
  ac_mPsiSecParam :: nat
  ac_mTheirKProbe :: KProbeMatrix
  ac_mMyKProbe :: KProbeMatrix
  ac_mBuckets :: "Bucket list"
  ac_mMyCnCSets :: "nat list \<times> nat list"
  ac_mTheirCncSets :: "nat list \<times> nat list"
  ac_mIndexArray :: "block list"
  ac_mNumInitThreads :: nat
  ac_mMyCircuits :: "CircuitPackage list"
  ac_mTheirCircuits :: "CommCircuitPackage list"
  ac_mOTSend :: "(block list \<times> block list) list"
  ac_mOTRecv :: "(block list \<times> bitvec) list"

section \<open>The choice of the circuits to open\<close>

text \<open>\<open>GetRandSubset\<close>: the first \<open>subsetSize\<close> elements, then each further element may change places with one of
  them. The random word is reduced modulo the index of the element.\<close>

definition subset_step :: "nat \<Rightarrow> nat \<Rightarrow> nat list \<times> nat list \<times> prng \<Rightarrow> nat list \<times> nat list \<times> prng" where
  "subset_step subsetSize i st =
     (let (subset, difference, prng) = st;
          j = i - subsetSize;
          difference = difference[j := i];
          (w, prng) = get_u64 prng;
          randIdx = unat w mod i
      in if randIdx < subsetSize
         then (subset[randIdx := difference ! j], difference[j := subset ! randIdx], prng)
         else (subset, difference, prng))"

definition GetRandSubset :: "nat \<Rightarrow> nat \<Rightarrow> prng \<Rightarrow> nat list \<times> nat list \<times> prng" where
  "GetRandSubset subsetSize setSize prng =
     (if subsetSize \<noteq> 0
      then fold (subset_step subsetSize) [subsetSize..<setSize]
             ([0..<subsetSize], replicate (setSize - subsetSize) 0, prng)
      else ([], [0..<setSize], prng))"

text \<open>The sets that \<open>init\<close> draws from a cut-and-choose seed: the circuits to open, the circuits to keep.\<close>

definition cnc_sets :: "nat \<Rightarrow> nat \<Rightarrow> block \<Rightarrow> nat list \<times> nat list" where
  "cnc_sets numOpened numCircuits seed =
     (let (opened, kept, _) = GetRandSubset numOpened numCircuits (SetSeed seed) in (opened, kept))"

text \<open>The seed is committed to before the circuits arrive and revealed after: the check of the
  decommitment, and the sets the other party opens.\<close>

definition check_cnc_seed :: "(u8 list \<Rightarrow> u8 list) \<Rightarrow> DualExActor \<Rightarrow> commit \<Rightarrow> block \<Rightarrow> DualExActor result" where
  "check_cnc_seed sha a theirCnCCommit cncSeed =
     bind_r (require (Commit_eq (Commit_block sha cncSeed) theirCnCCommit) InvalidCommitment)
       (\<lambda>_. Inr (a\<lparr>ac_mTheirCncSets := cnc_sets (ac_mNumOpened a) (ac_mNumCircuits a) cncSeed\<rparr>))"

section \<open>Construction and parameters\<close>

definition DualExActor_new ::
  "DualExActor \<Rightarrow> Circuit \<Rightarrow> role \<Rightarrow> nat \<Rightarrow> nat \<Rightarrow> nat \<Rightarrow> nat \<Rightarrow> Bucket \<Rightarrow> DualExActor result" where
  "DualExActor_new uninit cir role numExes bucketSize numOpened psiSecParam bucket0 =
     (if fst (mInputs cir) = 0 \<or> snd (mInputs cir) = 0 then Inl RuntimeError
      else Inr (uninit\<lparr>ac_mCircuit := cir, ac_mRole := role, ac_mNumExe := numExes, ac_mBucketSize := bucketSize,
                  ac_mNumOpened := numOpened,
                  ac_mNumCircuits := (numOpened + bucketSize * numExes) mod 2 ^ 64,
                  ac_mPsiSecParam := psiSecParam, ac_mBuckets := replicate numExes bucket0\<rparr>))"

text \<open>The parameters a party sends, and the ones it expects: the k-probe matrices change places.\<close>

definition actor_params :: "DualExActor \<Rightarrow> nat \<Rightarrow> nat \<Rightarrow> nat \<Rightarrow> u64 \<Rightarrow> u64 \<Rightarrow> u64 list" where
  "actor_params a numParallelInit numParallelEval numThreadsPerEval sig0 sig1 =
     [word_of_nat numParallelInit, word_of_nat numParallelEval, word_of_nat numThreadsPerEval,
      word_of_nat (ac_mNumExe a), word_of_nat (ac_mBucketSize a), word_of_nat (ac_mNumCircuits a),
      word_of_nat (ac_mPsiSecParam a), sig0, sig1]"

definition params_message :: "DualExActor \<Rightarrow> nat \<Rightarrow> nat \<Rightarrow> nat \<Rightarrow> u8 list" where
  "params_message a pInit pEval tEval =
     concat (map u64_bytes (actor_params a pInit pEval tEval
       (kp_mSignature (ac_mMyKProbe a)) (kp_mSignature (ac_mTheirKProbe a))))"

text \<open>The check reads nine words at the start of the received buffer, whatever its length; \<open>beyond\<close> is the
  memory after it.\<close>

definition check_params :: "DualExActor \<Rightarrow> nat \<Rightarrow> nat \<Rightarrow> nat \<Rightarrow> u8 list \<Rightarrow> u8 list \<Rightarrow> unit result" where
  "check_params a pInit pEval tEval msg beyond =
     (let params = (\<lambda>i. of_bytes (take 8 (drop (8 * i) (msg @ beyond))) :: u64);
          ours = actor_params a pInit pEval tEval (kp_mSignature (ac_mTheirKProbe a)) (kp_mSignature (ac_mMyKProbe a))
      in each_r (\<lambda>i. require (params i = ours ! i) RuntimeError) [0..<9])"

text \<open>The index array, \<open>0, 1, 2, ...\<close>, long enough for everything it is used for.\<close>

definition index_size :: "DualExActor \<Rightarrow> nat" where
  "index_size a = max (max (max (kp_mEncodingSize (ac_mMyKProbe a)) (kp_mEncodingSize (ac_mTheirKProbe a)))
                         (mWireCount (ac_mCircuit a))) (length (mGates (ac_mCircuit a)) * 2)"

definition index_array :: "nat \<Rightarrow> block list" where
  "index_array n = map (\<lambda>i. set_epi64x 0 (word_of_nat i)) [0..<n]"

section \<open>Division of the work\<close>

text \<open>The circuits \<open>startIdx ..< endIdx\<close> and the buckets of an init thread. Products and sums are of \<open>u64\<close>.\<close>

definition thread_start :: "DualExActor \<Rightarrow> nat \<Rightarrow> nat" where
  "thread_start a t = t * ac_mNumCircuits a mod 2 ^ 64 div ac_mNumInitThreads a"

definition thread_circuits :: "DualExActor \<Rightarrow> nat \<Rightarrow> nat list" where
  "thread_circuits a t = [thread_start a t ..< thread_start a (t + 1)]"

definition thread_buckets :: "DualExActor \<Rightarrow> nat \<Rightarrow> nat list" where
  "thread_buckets a t = circuit_range t (ac_mNumInitThreads a) (length (ac_mBuckets a))"

definition ots_per_psi :: "DualExActor \<Rightarrow> nat" where
  "ots_per_psi a = Psi_PsiOTCount (ac_mBucketSize a) (ac_mPsiSecParam a)"

text \<open>The OTs each thread is given, in one direction: \<open>numSendOTsPer\<close>, \<open>numRecvOTsPer\<close>.\<close>

definition ots_per_thread :: "DualExActor \<Rightarrow> nat \<Rightarrow> nat" where
  "ots_per_thread a enc =
     (enc * ((ac_mNumCircuits a + ac_mNumInitThreads a + (2 ^ 64 - 1)) mod 2 ^ 64) mod 2 ^ 64 div ac_mNumInitThreads a
      + ots_per_psi a * ((ac_mNumExe a + ac_mNumInitThreads a + (2 ^ 64 - 1)) mod 2 ^ 64) mod 2 ^ 64 div ac_mNumInitThreads a)
     mod 2 ^ 64"

definition numSendOTsPer :: "DualExActor \<Rightarrow> nat" where
  "numSendOTsPer a = ots_per_thread a (kp_mEncodingSize (ac_mTheirKProbe a))"

definition numRecvOTsPer :: "DualExActor \<Rightarrow> nat" where
  "numRecvOTsPer a = ots_per_thread a (kp_mEncodingSize (ac_mMyKProbe a))"

text \<open>The part of \<open>init\<close> that sizes the actor.\<close>

definition init_sizes :: "DualExActor \<Rightarrow> nat \<Rightarrow> block \<Rightarrow> DualExActor" where
  "init_sizes a numParallelInit myCnCSeed =
     a\<lparr>ac_mMyCnCSets := cnc_sets (ac_mNumOpened a) (ac_mNumCircuits a) myCnCSeed,
       ac_mIndexArray := index_array (index_size a),
       ac_mNumInitThreads := min numParallelInit (ac_mNumExe a)\<rparr>"

text \<open>A thread waits until the OT thread has published the OTs it needs; \<open>done\<close> is the last value of
  the counter, and a wait for more never ends.\<close>

definition wait_ots :: "nat \<Rightarrow> nat \<Rightarrow> unit result" where
  "wait_ots done needed = require (needed \<le> done) Blocked"

section \<open>The sets partition the circuits\<close>

lemma mset_swap: "i < length xs \<Longrightarrow> mset (xs[i := y]) = add_mset y (mset xs - {#xs ! i#})"
  by (simp add: mset_update)

definition subset_inv :: "nat \<Rightarrow> nat \<Rightarrow> nat \<Rightarrow> nat list \<times> nat list \<times> prng \<Rightarrow> bool" where
  "subset_inv k n i st \<longleftrightarrow>
     (let (s, d, g) = st in length s = k \<and> length d = n - k \<and> mset s + mset (take (i - k) d) = mset [0..<i])"

lemma subset_step_inv:
  assumes "0 < k" and "k \<le> i" and "i < n" and "subset_inv k n i st"
  shows "subset_inv k n (Suc i) (subset_step k i st)"
proof -
  obtain s d g where st: "st = (s, d, g)" by (rule prod_cases3)
  obtain w g' where w: "get_u64 g = (w, g')" by fastforce
  define x where "x = unat w mod i"
  have l: "length s = k" "length d = n - k" and m: "mset s + mset (take (i - k) d) = mset [0..<i]"
    using assms(4) by (simp_all add: subset_inv_def st)
  have t: "take (Suc i - k) (d[i - k := y]) = take (i - k) d @ [y]" for y
    using assms(2,3) l(2) by (simp add: Suc_diff_le take_Suc_conv_app_nth)
  have up: "mset [0..<Suc i] = add_mset i (mset [0..<i])" by simp
  show ?thesis
  proof (cases "x < k")
    case True
    have "mset (s[x := i]) = add_mset i (mset s - {#s ! x#})" using True l(1) by (simp add: mset_swap)
    moreover have "s ! x \<in># mset s" using True l(1) by simp
    ultimately have "mset (s[x := i]) + add_mset (s ! x) (mset (take (i - k) d)) = mset [0..<Suc i]"
      unfolding up m [symmetric] by (simp add: insert_DiffM)
    then show ?thesis
      using True l t assms(2,3) by (simp add: subset_inv_def subset_step_def st w Let_def x_def [symmetric])
  next
    case False
    then show ?thesis
      using m l t up assms(2,3) by (simp add: subset_inv_def subset_step_def st w Let_def x_def [symmetric])
  qed
qed

lemma GetRandSubset_inv:
  assumes "k \<le> n"
  shows "subset_inv k n n (GetRandSubset k n g)"
proof (cases "k = 0")
  case False
  have "subset_inv k n (k + m) (fold (subset_step k) [k..<k + m] ([0..<k], replicate (n - k) 0, g))" if "k + m \<le> n" for m
    using that
  proof (induction m)
    case (Suc m)
    have "[k..<k + Suc m] = [k..<k + m] @ [k + m]" by simp
    then show ?case using Suc subset_step_inv [of k "k + m" n] False by simp
  qed (simp add: subset_inv_def)
  from this [of "n - k"] show ?thesis using False assms by (simp add: GetRandSubset_def)
qed (simp add: GetRandSubset_def subset_inv_def)

lemma cnc_sets_partition:
  assumes "k \<le> n"
  shows "length (fst (cnc_sets k n seed)) = k" and "length (snd (cnc_sets k n seed)) = n - k"
    and "mset (fst (cnc_sets k n seed)) + mset (snd (cnc_sets k n seed)) = mset [0..<n]"
proof -
  obtain s d g where r: "GetRandSubset k n (SetSeed seed) = (s, d, g)" by (rule prod_cases3)
  have i: "length s = k \<and> length d = n - k \<and> mset s + mset (take (n - k) d) = mset [0..<n]"
    using GetRandSubset_inv [OF assms, of "SetSeed seed"] unfolding r subset_inv_def prod.case Let_def .
  then have "take (n - k) d = d" by simp
  then show "length (fst (cnc_sets k n seed)) = k" "length (snd (cnc_sets k n seed)) = n - k"
    "mset (fst (cnc_sets k n seed)) + mset (snd (cnc_sets k n seed)) = mset [0..<n]"
    using i by (simp_all only: cnc_sets_def r prod.case fst_conv snd_conv Let_def)
qed

lemma mset_partition_sets:
  assumes "mset xs + mset ys = mset [0..<n]"
  shows "distinct xs" and "distinct ys" and "set xs \<inter> set ys = {}" and "set xs \<union> set ys = {..<n}"
proof -
  have m: "mset (xs @ ys) = mset [0..<n]" using assms by simp
  have "distinct (xs @ ys)" using mset_eq_imp_distinct_iff [OF m] by simp
  then show "distinct xs" "distinct ys" "set xs \<inter> set ys = {}" by auto
  show "set xs \<union> set ys = {..<n}" using mset_eq_setD [OF m] by auto
qed

section \<open>Every thread has enough OTs\<close>

lemma div_sum_bound: "(t + 1) * n div T - t * n div T \<le> (n + T - 1) div T" if "0 < T" for n T t :: nat
proof -
  have "t * n mod T \<le> T - 1" using mod_less_divisor [OF that, of "t * n"] by linarith
  moreover have "(t + 1) * n = T * (t * n div T) + t * n mod T + n" by simp
  ultimately have "(t + 1) * n \<le> T * (t * n div T) + (n + T - 1)" using that by linarith
  then have "(t + 1) * n div T \<le> (T * (t * n div T) + (n + T - 1)) div T" by (rule div_le_mono)
  also have "\<dots> = t * n div T + (n + T - 1) div T" by (rule div_mult_self4) (use that in simp)
  finally show ?thesis by simp
qed

text \<open>Numbers for which none of these products and sums wraps.\<close>

definition work_fits :: "DualExActor \<Rightarrow> nat \<Rightarrow> bool" where
  "work_fits a enc \<longleftrightarrow>
     ac_mBucketSize a * ac_mPsiSecParam a < 2 ^ 64
     \<and> ac_mNumCircuits a + ac_mNumInitThreads a < 2 ^ 64 \<and> ac_mNumExe a + ac_mNumInitThreads a < 2 ^ 64
     \<and> ac_mNumInitThreads a * ac_mNumCircuits a < 2 ^ 64
     \<and> enc * (ac_mNumCircuits a + ac_mNumInitThreads a)
        + ac_mBucketSize a * ac_mPsiSecParam a * (ac_mNumExe a + ac_mNumInitThreads a) < 2 ^ 64"

lemma u64_pred: "0 < m \<Longrightarrow> m < 2 ^ 64 \<Longrightarrow> (m + (2 ^ 64 - 1)) mod 2 ^ 64 = (m :: nat) - 1"
proof -
  assume "0 < m" "m < 2 ^ 64"
  then have "m + (2 ^ 64 - 1) = (m - 1) + 2 ^ 64" "m - 1 < 2 ^ 64" by simp_all
  then show ?thesis by (metis mod_add_self2 mod_less)
qed

lemma ots_per_psi_fits: "work_fits a enc \<Longrightarrow> ots_per_psi a = ac_mBucketSize a * ac_mPsiSecParam a"
  by (simp add: work_fits_def ots_per_psi_def Psi_PsiOTCount_def)

lemma ots_per_thread_fits:
  assumes "0 < ac_mNumInitThreads a" and "work_fits a enc"
  shows "ots_per_thread a enc = enc * (ac_mNumCircuits a + ac_mNumInitThreads a - 1) div ac_mNumInitThreads a
     + ots_per_psi a * (ac_mNumExe a + ac_mNumInitThreads a - 1) div ac_mNumInitThreads a"
proof -
  let ?T = "ac_mNumInitThreads a" and ?p = "ots_per_psi a"
  let ?x = "enc * (ac_mNumCircuits a + ?T - 1)" and ?y = "?p * (ac_mNumExe a + ?T - 1)"
  have f: "ac_mNumCircuits a + ?T < 2 ^ 64" "ac_mNumExe a + ?T < 2 ^ 64"
      "enc * (ac_mNumCircuits a + ?T) + ?p * (ac_mNumExe a + ?T) < 2 ^ 64"
    using assms(2) ots_per_psi_fits [OF assms(2)] by (simp_all add: work_fits_def)
  have le: "?x \<le> enc * (ac_mNumCircuits a + ?T)" "?y \<le> ?p * (ac_mNumExe a + ?T)" by (intro mult_le_mono2; simp)+
  have m: "(ac_mNumCircuits a + ?T + (2 ^ 64 - 1)) mod 2 ^ 64 = ac_mNumCircuits a + ?T - 1"
      "(ac_mNumExe a + ?T + (2 ^ 64 - 1)) mod 2 ^ 64 = ac_mNumExe a + ?T - 1"
    using f(1,2) assms(1) by (intro u64_pred; simp)+
  have w: "?x mod 2 ^ 64 = ?x" "?y mod 2 ^ 64 = ?y" using le f(3) by (intro mod_less; linarith)+
  have "?x div ?T + ?y div ?T < 2 ^ 64" using div_le_dividend [of ?x ?T] div_le_dividend [of ?y ?T] le f(3) by linarith
  then show ?thesis unfolding ots_per_thread_def m w by (rule mod_less)
qed

lemma thread_start_fits: "work_fits a enc \<Longrightarrow> t \<le> ac_mNumInitThreads a \<Longrightarrow> thread_start a t = t * ac_mNumCircuits a div ac_mNumInitThreads a"
proof -
  assume "work_fits a enc" and t: "t \<le> ac_mNumInitThreads a"
  then have "ac_mNumInitThreads a * ac_mNumCircuits a < 2 ^ 64" by (simp add: work_fits_def)
  with mult_le_mono1 [OF t] have "t * ac_mNumCircuits a < 2 ^ 64" by (rule le_less_trans)
  then show ?thesis by (simp add: thread_start_def)
qed

lemma length_thread_circuits:
  assumes "work_fits a enc" and "t < ac_mNumInitThreads a"
  shows "length (thread_circuits a t) \<le> (ac_mNumCircuits a + ac_mNumInitThreads a - 1) div ac_mNumInitThreads a"
  using div_sum_bound [of "ac_mNumInitThreads a" t "ac_mNumCircuits a"] assms
    thread_start_fits [OF assms(1), of t] thread_start_fits [OF assms(1), of "t + 1"]
  by (simp add: thread_circuits_def)

lemma length_thread_buckets:
  "length (thread_buckets a t) \<le> (length (ac_mBuckets a) + ac_mNumInitThreads a - 1) div ac_mNumInitThreads a"
  by (simp add: thread_buckets_def circuit_range_def div_le_mono)

lemma ot_budget:
  assumes "t < ac_mNumInitThreads a" and "work_fits a enc" and "length (ac_mBuckets a) = ac_mNumExe a"
    and "i \<le> length (thread_circuits a t)" and "j \<le> length (thread_buckets a t)"
  shows "enc * i + ots_per_psi a * j \<le> ots_per_thread a enc"
proof -
  let ?T = "ac_mNumInitThreads a"
  have T: "0 < ?T" using assms(1) by simp
  have m: "c * ((x + ?T - 1) div ?T) \<le> c * (x + ?T - 1) div ?T" for c x :: nat
    by (metis div_mult_div_if_dvd div_mult1_eq le_add1)
  have "enc * i \<le> enc * ((ac_mNumCircuits a + ?T - 1) div ?T)"
    using assms(4) length_thread_circuits [OF assms(2,1)] by (intro mult_le_mono2) simp
  moreover have "ots_per_psi a * j \<le> ots_per_psi a * ((ac_mNumExe a + ?T - 1) div ?T)"
    using assms(3,5) length_thread_buckets [of a t] by (intro mult_le_mono2) simp
  ultimately show ?thesis
    unfolding ots_per_thread_fits [OF T assms(2)] using m [of enc "ac_mNumCircuits a"] m [of "ots_per_psi a" "ac_mNumExe a"] by linarith
qed

text \<open>The threads share out the circuits and the buckets.\<close>

lemma thread_start_mono: "work_fits a enc \<Longrightarrow> u \<le> ac_mNumInitThreads a \<Longrightarrow> t \<le> u \<Longrightarrow> thread_start a t \<le> thread_start a u"
  using thread_start_fits [of a enc t] thread_start_fits [of a enc u] by (simp add: div_le_mono)

lemma thread_start_ends:
  "thread_start a 0 = 0"
  "work_fits a enc \<Longrightarrow> 0 < ac_mNumInitThreads a \<Longrightarrow> thread_start a (ac_mNumInitThreads a) = ac_mNumCircuits a"
  by (simp_all add: thread_start_fits [of a enc "ac_mNumInitThreads a"]) (simp add: thread_start_def)

lemma thread_circuits_concat:
  assumes "work_fits a enc" and T: "0 < ac_mNumInitThreads a"
  shows "concat (map (thread_circuits a) [0..<ac_mNumInitThreads a]) = [0..<ac_mNumCircuits a]"
proof -
  have "concat (map (thread_circuits a) [0..<u]) = [0..<thread_start a u]" if "u \<le> ac_mNumInitThreads a" for u
    using that
  proof (induction u)
    case (Suc u)
    have "[0..<thread_start a (Suc u)] = [0..<thread_start a u] @ [thread_start a u..<thread_start a (Suc u)]"
      using upt_add_eq_append [of 0 "thread_start a u" "thread_start a (Suc u) - thread_start a u"]
        thread_start_mono [OF assms(1) Suc.prems, of u] by simp
    then show ?case using Suc by (simp add: thread_circuits_def)
  qed (simp add: thread_start_def)
  then show ?thesis by (simp add: thread_start_ends(2) [OF assms])
qed

lemma set_circuit_range: "0 < step \<Longrightarrow> set (circuit_range t step n) = {b. t \<le> b \<and> b < n \<and> step dvd b - t}"
proof -
  assume s: "0 < step"
  have "k < (n - t + step - 1) div step \<longleftrightarrow> t + k * step < n" for k
  proof -
    have "k < (n - t + step - 1) div step \<longleftrightarrow> k + 1 \<le> (n - t + step - 1) div step" by linarith
    also have "\<dots> \<longleftrightarrow> (k + 1) * step \<le> n - t + step - 1" using s by (rule less_eq_div_iff_mult_less_eq)
    also have "\<dots> \<longleftrightarrow> t + k * step < n" unfolding add_mult_distrib mult_1 using s by linarith
    finally show ?thesis .
  qed
  then have r: "set (circuit_range t step n) = {t + k * step | k. t + k * step < n}"
    by (auto simp: circuit_range_def)
  show ?thesis
  proof (rule set_eqI)
    fix b
    have "(\<exists>k. b = t + k * step) \<longleftrightarrow> t \<le> b \<and> step dvd b - t"
    proof
      assume "t \<le> b \<and> step dvd b - t"
      then obtain k where "b - t = step * k" "t \<le> b" by (auto elim: dvdE)
      then have "b = t + k * step" by (simp add: mult.commute)
      then show "\<exists>k. b = t + k * step" ..
    qed auto
    then show "b \<in> set (circuit_range t step n) \<longleftrightarrow> b \<in> {b. t \<le> b \<and> b < n \<and> step dvd b - t}"
      unfolding r by blast
  qed
qed

lemma set_thread_buckets:
  assumes "t < ac_mNumInitThreads a"
  shows "set (thread_buckets a t) = {b. b < length (ac_mBuckets a) \<and> b mod ac_mNumInitThreads a = t}"
proof -
  have "t \<le> b \<and> ac_mNumInitThreads a dvd b - t \<longleftrightarrow> b mod ac_mNumInitThreads a = t" for b
    using assms by (metis mod_eq_dvd_iff_nat mod_less mod_less_eq_dividend)
  then show ?thesis unfolding thread_buckets_def using assms by (subst set_circuit_range) auto
qed

lemma subset_step_forced: "0 < k \<Longrightarrow> length s = k \<Longrightarrow> k \<in> set (fst (subset_step k k (s, [x], g)))"
proof -
  assume k: "0 < k" "length s = k"
  obtain w g' where w: "get_u64 g = (w, g')" by fastforce
  have "unat w mod k < k" using k(1) by simp
  then show "k \<in> set (fst (subset_step k k (s, [x], g)))" using k by (simp add: subset_step_def w Let_def set_update_memI)
qed

lemma params_read:
  assumes "length ps = 9" and "i < 9"
  shows "(of_bytes (take 8 (drop (8 * i) (concat (map u64_bytes ps) @ beyond))) :: u64) = ps ! i"
proof -
  have l: "length (concat (map u64_bytes xs)) = 8 * length xs" for xs by (induction xs) simp_all
  have "concat (map u64_bytes ps) = concat (map u64_bytes (take i ps)) @ u64_bytes (ps ! i) @ concat (map u64_bytes (drop (Suc i) ps))"
    using assms by (metis id_take_nth_drop map_append list.map(2) concat_append concat.simps(2))
  moreover have "length (concat (map u64_bytes (take i ps))) = 8 * i" using assms by (simp add: l)
  ultimately show ?thesis by (simp add: of_bytes_u64)
qed

section \<open>Properties\<close>

text \<open>C11. Cut-and-choose: a decommitment that \<open>init\<close> accepts gives sets that partition the circuits into
  \<open>mNumOpened\<close> circuits to open and the rest to keep, and they are the sets of the seed that was
  committed to before the circuits were sent, or the two seeds collide under SHA-1.\<close>

theorem cut_and_choose_binding:
  assumes "digest20 sha" and "ac_mNumOpened a \<le> ac_mNumCircuits a"
    and "check_cnc_seed sha a (Commit_block sha seed0) seed = Inr a'"
  shows "length (fst (ac_mTheirCncSets a')) = ac_mNumOpened a
    \<and> length (snd (ac_mTheirCncSets a')) = ac_mNumCircuits a - ac_mNumOpened a
    \<and> distinct (fst (ac_mTheirCncSets a')) \<and> distinct (snd (ac_mTheirCncSets a'))
    \<and> set (fst (ac_mTheirCncSets a')) \<inter> set (snd (ac_mTheirCncSets a')) = {}
    \<and> set (fst (ac_mTheirCncSets a')) \<union> set (snd (ac_mTheirCncSets a')) = {..<ac_mNumCircuits a}
    \<and> (ac_mTheirCncSets a' = cnc_sets (ac_mNumOpened a) (ac_mNumCircuits a) seed0
       \<or> (seed \<noteq> seed0 \<and> sha (ByteArray seed) = sha (ByteArray seed0)))"
proof -
  have c: "Commit_eq (Commit_block sha seed) (Commit_block sha seed0)"
    and a': "ac_mTheirCncSets a' = cnc_sets (ac_mNumOpened a) (ac_mNumCircuits a) seed"
    using assms(3) by (auto simp: check_cnc_seed_def bind_r_Inr)
  have "sha (ByteArray seed) = sha (ByteArray seed0)"
    using c assms(1) by (simp add: Commit_block_def commit_hash_def sha1_Update_def sha1_Reset_def Commit_eq_words)
  then show ?thesis
    unfolding a' using cnc_sets_partition [OF assms(2), of seed] mset_partition_sets [OF cnc_sets_partition(3) [OF assms(2)], of seed]
    by blast
qed

definition actor_sample :: "DualExActor \<Rightarrow> DualExActor" where
  "actor_sample a = a\<lparr>ac_mNumOpened := 1, ac_mNumCircuits := 3, ac_mBucketSize := 1, ac_mNumExe := 2,
     ac_mBuckets := replicate 2 Bucket_new, ac_mNumInitThreads := 2\<rparr>"

lemma actor_sample_fields:
  "ac_mNumOpened (actor_sample a) = 1" "ac_mNumCircuits (actor_sample a) = 3" "ac_mNumInitThreads (actor_sample a) = 2"
  "ac_mNumExe (actor_sample a) = 2" "length (ac_mBuckets (actor_sample a)) = 2"
  by (simp_all add: actor_sample_def)

theorem cut_and_choose_binding_witness:
  "\<exists>a a'. check_cnc_seed (vec_resize 0 20) (actor_sample a) (Commit_block (vec_resize 0 20) 7) 7 = Inr a'
     \<and> length (fst (ac_mTheirCncSets a')) = 1 \<and> set (fst (ac_mTheirCncSets a')) \<union> set (snd (ac_mTheirCncSets a')) = {..<3}"
proof -
  fix a
  let ?a = "actor_sample a"
  have sha: "digest20 (vec_resize 0 20)" by (simp add: digest20_def HashSize_def)
  have k: "ac_mNumOpened ?a \<le> ac_mNumCircuits ?a" by (simp add: actor_sample_fields)
  obtain a' where a': "check_cnc_seed (vec_resize 0 20) ?a (Commit_block (vec_resize 0 20) 7) 7 = Inr a'"
    by (simp add: check_cnc_seed_def)
  have "length (fst (ac_mTheirCncSets a')) = 1 \<and> set (fst (ac_mTheirCncSets a')) \<union> set (snd (ac_mTheirCncSets a')) = {..<3}"
    using cut_and_choose_binding [OF sha k a', unfolded actor_sample_fields] by blast
  then show ?thesis using a' by blast
qed

text \<open>The subset of \<open>GetRandSubset\<close> is not uniform: when all circuits but one are to be opened, the last
  circuit is opened for every state of the generator, since the random word is reduced modulo the
  index and not its successor.\<close>

theorem rand_subset_forced:
  assumes "0 < k"
  shows "k \<in> set (fst (GetRandSubset k (k + 1) prng))"
proof -
  have u: "[k..<k + 1] = [k]" "k + 1 - k = Suc 0" by simp_all
  show ?thesis using subset_step_forced [OF assms, of "[0..<k]" 0 prng] assms
    unfolding GetRandSubset_def u by simp
qed

theorem rand_subset_forced_witness: "2 \<in> set (fst (GetRandSubset 2 (2 + 1) (SetSeed 5)))"
  by (rule rand_subset_forced) simp

text \<open>C13. The parameter check of \<open>init\<close> accepts the message of another party exactly when the two agree on the
  number of threads, executions, circuits per bucket and in total, the PSI parameter, and each
  party's k-probe matrix has the signature the other expects; otherwise it throws.\<close>

theorem params_checked:
  "check_params a pInit pEval tEval (params_message b qInit qEval uEval) beyond
   = (if map word_of_nat [pInit, pEval, tEval, ac_mNumExe a, ac_mBucketSize a, ac_mNumCircuits a, ac_mPsiSecParam a]
         = (map word_of_nat [qInit, qEval, uEval, ac_mNumExe b, ac_mBucketSize b, ac_mNumCircuits b, ac_mPsiSecParam b] :: u64 list)
       \<and> kp_mSignature (ac_mTheirKProbe a) = kp_mSignature (ac_mMyKProbe b)
       \<and> kp_mSignature (ac_mMyKProbe a) = kp_mSignature (ac_mTheirKProbe b)
      then Inr () else Inl RuntimeError)"
proof -
  let ?ours = "actor_params a pInit pEval tEval (kp_mSignature (ac_mTheirKProbe a)) (kp_mSignature (ac_mMyKProbe a))"
  let ?theirs = "actor_params b qInit qEval uEval (kp_mSignature (ac_mMyKProbe b)) (kp_mSignature (ac_mTheirKProbe b))"
  have l: "length ?ours = 9" "length ?theirs = 9" by (simp_all add: actor_params_def)
  have e: "each_r (\<lambda>i. require (xs ! i = ys ! i) RuntimeError) [0..<9] = (if xs = ys then Inr () else Inl RuntimeError)"
    if "length xs = 9" "length ys = 9" for xs ys :: "u64 list"
  proof (cases "xs = ys")
    case False
    have "each_r (\<lambda>i. require (xs ! i = ys ! i) RuntimeError) [0..<9] \<noteq> Inr ()"
      using False that unfolding each_r_Inr by (auto simp: list_eq_iff_nth_eq)
    moreover have "each_r (\<lambda>i. require (xs ! i = ys ! i) RuntimeError) [0..<9] = Inl e \<Longrightarrow> e = RuntimeError" for e
      using each_r_error by (fastforce simp: require_def split: if_splits)
    ultimately show ?thesis using False by (cases "each_r (\<lambda>i. require (xs ! i = ys ! i) RuntimeError) [0..<9]") auto
  qed (simp add: each_r_Inr)
  have "check_params a pInit pEval tEval (params_message b qInit qEval uEval) beyond
      = each_r (\<lambda>i. require (?theirs ! i = ?ours ! i) RuntimeError) [0..<9]"
    unfolding check_params_def params_message_def Let_def
    by (rule each_r_cong) (use params_read [OF l(2)] in simp)
  then show ?thesis unfolding e [OF l(2,1)] by (auto simp: actor_params_def)
qed

text \<open>C12. The division of the work is complete and every thread has enough OTs, for numbers whose \<open>u64\<close> products
  and sums do not wrap: the threads' circuits are all circuits in order, each bucket belongs to exactly one
  thread, and the \<open>numSendOTsPer\<close> and \<open>numRecvOTsPer\<close> OTs of a thread are enough for all its circuits and the
  PSIs of all its buckets.\<close>

theorem ots_suffice:
  assumes "0 < ac_mNumInitThreads a" and "length (ac_mBuckets a) = ac_mNumExe a"
    and "work_fits a (kp_mEncodingSize (ac_mTheirKProbe a))" and "work_fits a (kp_mEncodingSize (ac_mMyKProbe a))"
  shows "concat (map (thread_circuits a) [0..<ac_mNumInitThreads a]) = [0..<ac_mNumCircuits a]
    \<and> {b. b < ac_mNumExe a} = (\<Union>t\<in>{..<ac_mNumInitThreads a}. set (thread_buckets a t))
    \<and> disjoint_family_on (\<lambda>t. set (thread_buckets a t)) {..<ac_mNumInitThreads a}
    \<and> (\<forall>t<ac_mNumInitThreads a.
          kp_mEncodingSize (ac_mTheirKProbe a) * length (thread_circuits a t)
            + ac_mBucketSize a * ac_mPsiSecParam a * length (thread_buckets a t) \<le> numSendOTsPer a
          \<and> kp_mEncodingSize (ac_mMyKProbe a) * length (thread_circuits a t)
            + ac_mBucketSize a * ac_mPsiSecParam a * length (thread_buckets a t) \<le> numRecvOTsPer a)"
proof (intro conjI)
  show "concat (map (thread_circuits a) [0..<ac_mNumInitThreads a]) = [0..<ac_mNumCircuits a]"
    by (rule thread_circuits_concat [OF assms(3,1)])
  show "{b. b < ac_mNumExe a} = (\<Union>t\<in>{..<ac_mNumInitThreads a}. set (thread_buckets a t))"
    using assms set_thread_buckets [of _ a] by (auto simp: assms(2))
  show "disjoint_family_on (\<lambda>t. set (thread_buckets a t)) {..<ac_mNumInitThreads a}"
    by (auto simp: disjoint_family_on_def set_thread_buckets)
  show "\<forall>t<ac_mNumInitThreads a.
          kp_mEncodingSize (ac_mTheirKProbe a) * length (thread_circuits a t)
            + ac_mBucketSize a * ac_mPsiSecParam a * length (thread_buckets a t) \<le> numSendOTsPer a
          \<and> kp_mEncodingSize (ac_mMyKProbe a) * length (thread_circuits a t)
            + ac_mBucketSize a * ac_mPsiSecParam a * length (thread_buckets a t) \<le> numRecvOTsPer a"
    unfolding numSendOTsPer_def numRecvOTsPer_def ots_per_psi_fits [OF assms(3), symmetric]
    by (intro allI impI conjI ot_budget [OF _ assms(3,2) order_refl order_refl] ot_budget [OF _ assms(4,2) order_refl order_refl])
qed

theorem ots_suffice_witness:
  "\<exists>a. ac_mNumInitThreads (actor_sample a) = 2
     \<and> concat (map (thread_circuits (actor_sample a)) [0..<2]) = [0..<3]
     \<and> kp_mEncodingSize (ac_mMyKProbe (actor_sample a)) * length (thread_circuits (actor_sample a) 1)
       + 40 * length (thread_buckets (actor_sample a) 1) \<le> numRecvOTsPer (actor_sample a)"
proof -
  fix b :: DualExActor
  define a where "a = b\<lparr>ac_mMyKProbe := kp_one, ac_mTheirKProbe := kp_one, ac_mPsiSecParam := 40\<rparr>"
  have "0 < ac_mNumInitThreads (actor_sample a)" "length (ac_mBuckets (actor_sample a)) = ac_mNumExe (actor_sample a)"
    "work_fits (actor_sample a) (kp_mEncodingSize (ac_mTheirKProbe (actor_sample a)))"
    "work_fits (actor_sample a) (kp_mEncodingSize (ac_mMyKProbe (actor_sample a)))"
    by (simp_all add: actor_sample_def work_fits_def a_def kp_one_def)
  note s = ots_suffice [OF this, unfolded actor_sample_fields]
  have "ac_mBucketSize (actor_sample a) * ac_mPsiSecParam (actor_sample a) = 40" by (simp add: actor_sample_def a_def)
  then show ?thesis using s actor_sample_fields(3) [of a] by (intro exI [of _ a]) simp
qed

end
