(* ===== verification/BDX_Actor.thy ===== *)
theory BDX_Actor
  imports BDX_CutChoose
begin

text \<open>
  \<open>DualEx/DualExActor.cpp\<close>, second part: the init threads of both parties. Each of \<open>initSend\<close> and
  \<open>initRecv\<close> is split where it waits for the other threads of its party: the setup of the thread's
  circuits, the openings, the buckets, the k-probe labels. The OT threads have run
  (\<open>otDone\<close> is the last value of their counter); timers and timing files are left out.
\<close>

section \<open>Messages that order the traffic\<close>

definition dummy_message :: "u8 list" where
  "dummy_message = u64_bytes 0"

definition recv_dummy :: "u8 list \<Rightarrow> unit result" where
  "recv_dummy msg =
     bind_r (require (length msg = 8) BadReceiveBufferSize) (\<lambda>_. require ((of_bytes msg :: u64) = 0) RuntimeError)"

section \<open>The seeds of a party's threads\<close>

text \<open>\<open>init\<close> draws from its generator: the cut-and-choose seed, the seeds of the two OT threads, and a
  seed for the sending and the receiving thread of each number.\<close>

fun thread_seeds :: "nat \<Rightarrow> prng \<Rightarrow> (block \<times> block) list \<times> prng" where
  "thread_seeds 0 prng = ([], prng)"
| "thread_seeds (Suc n) prng =
     (let (sendSeed, prng) = get_block prng;
          (recvSeed, prng) = get_block prng;
          (seeds, prng) = thread_seeds n prng
      in ((sendSeed, recvSeed) # seeds, prng))"

definition actor_seeds :: "nat \<Rightarrow> prng \<Rightarrow> block \<times> block \<times> block \<times> (block \<times> block) list \<times> prng" where
  "actor_seeds numInitThreads prng =
     (let (myCnCSeed, prng) = get_block prng;
          (sendOTSeed, prng) = get_block prng;
          (recvOTSeed, prng) = get_block prng;
          (seeds, prng) = thread_seeds numInitThreads prng
      in (myCnCSeed, sendOTSeed, recvOTSeed, seeds, prng))"

section \<open>Setup of the circuits\<close>

text \<open>The sending thread garbles its circuits, then commits to its input labels over OTs: the messages of
  the circuits, a message to order the traffic, the messages of the commitments, another one.\<close>

definition garble_step ::
  "(u8 list \<Rightarrow> u8 list) \<Rightarrow> DualExActor \<Rightarrow> nat
   \<Rightarrow> CircuitPackage list \<times> u8 list list list \<times> block list \<times> prng
   \<Rightarrow> (CircuitPackage list \<times> u8 list list list \<times> block list \<times> prng) result" where
  "garble_step sha a i st =
     (let (cs, msgs, wireBuff, prng) = st
      in bind_r (CircuitPackage_init sha (cs ! i) (ac_mCircuit a) prng i (ac_mTheirKProbe a) wireBuff
                   (ac_mIndexArray a) (replicate (mNonXorGateCount (ac_mCircuit a) * 2) 0))
           (\<lambda>(p, m, wireBuff, prng). Inr (cs[i := p], msgs @ [m], wireBuff, prng)))"

definition send_ot_step ::
  "(u8 list \<Rightarrow> u8 list) \<Rightarrow> DualExActor \<Rightarrow> nat \<Rightarrow> nat \<Rightarrow> nat
   \<Rightarrow> CircuitPackage list \<times> u8 list list \<times> nat \<Rightarrow> (CircuitPackage list \<times> u8 list list \<times> nat) result" where
  "send_ot_step sha a t otDone i st =
     (let (cs, msgs, otIdx) = st
      in bind_r (wait_ots otDone (otIdx + kp_mEncodingSize (ac_mMyKProbe a))) (\<lambda>_.
         bind_r (CircuitPackage_initOT sha (cs ! i) (ac_mCircuit a) (ac_mRole a) (ac_mMyKProbe a) (ac_mOTRecv a ! t) otIdx)
           (\<lambda>(p, m, otIdx). Inr (cs[i := p], msgs @ [m], otIdx))))"

type_synonym setup_messages = "u8 list list list \<times> u8 list \<times> u8 list list \<times> u8 list"

definition initSend_setup ::
  "(u8 list \<Rightarrow> u8 list) \<Rightarrow> DualExActor \<Rightarrow> nat \<Rightarrow> nat \<Rightarrow> prng \<Rightarrow> (CircuitPackage list \<times> setup_messages \<times> prng \<times> nat) result" where
  "initSend_setup sha a t otDone prng =
     bind_r (fold_r (garble_step sha a) (thread_circuits a t)
               (ac_mMyCircuits a, [], replicate (length (ac_mIndexArray a)) 0, prng)) (\<lambda>(cs, cirMsgs, wireBuff, prng).
     bind_r (fold_r (send_ot_step sha a t otDone) (thread_circuits a t) (cs, [], 0)) (\<lambda>(cs, otMsgs, otIdx).
       Inr (cs, (cirMsgs, dummy_message, otMsgs, dummy_message), prng, otIdx)))"

text \<open>The receiving thread waits for the OTs of its own encoding before it takes those of the other
  party's.\<close>

definition recv_circuit_step ::
  "DualExActor \<Rightarrow> nat \<Rightarrow> u8 list list list \<Rightarrow> nat \<Rightarrow> CommCircuitPackage list \<Rightarrow> CommCircuitPackage list result" where
  "recv_circuit_step a t cirMsgs i cs =
     bind_r (CommCircuitPackage_init (cs ! i) (ac_mCircuit a) (ac_mMyKProbe a) (cirMsgs ! (i - thread_start a t)) i)
       (\<lambda>c. Inr (cs[i := c]))"

definition recv_ot_step ::
  "DualExActor \<Rightarrow> nat \<Rightarrow> nat \<Rightarrow> u8 list list \<Rightarrow> nat
   \<Rightarrow> CommCircuitPackage list \<times> nat \<Rightarrow> (CommCircuitPackage list \<times> nat) result" where
  "recv_ot_step a t otDone otMsgs i st =
     (let (cs, otIdx) = st
      in bind_r (wait_ots otDone (otIdx + kp_mEncodingSize (ac_mMyKProbe a))) (\<lambda>_.
         bind_r (CommCircuitPackage_initOT (cs ! i) (otMsgs ! (i - thread_start a t)) (ac_mTheirKProbe a)
                   (ac_mOTSend a ! t) otIdx (Inputs (ac_mCircuit a) (other (ac_mRole a))))
           (\<lambda>(c, otIdx). Inr (cs[i := c], otIdx))))"

definition initRecv_setup ::
  "DualExActor \<Rightarrow> nat \<Rightarrow> nat \<Rightarrow> setup_messages \<Rightarrow> (CommCircuitPackage list \<times> nat) result" where
  "initRecv_setup a t otDone msgs =
     (let (cirMsgs, dummy1, otMsgs, dummy2) = msgs
      in bind_r (fold_r (recv_circuit_step a t cirMsgs) (thread_circuits a t) (ac_mTheirCircuits a)) (\<lambda>cs.
         bind_r (recv_dummy dummy1) (\<lambda>_.
         bind_r (fold_r (recv_ot_step a t otDone otMsgs) (thread_circuits a t) (cs, 0)) (\<lambda>(cs, otIdx).
         bind_r (recv_dummy dummy2) (\<lambda>_. Inr (cs, otIdx))))))"

section \<open>Opening circuits\<close>

text \<open>The circuits of the opened set that are the thread's, in the order of the set.\<close>

definition opened_circuits :: "DualExActor \<Rightarrow> nat \<Rightarrow> nat list \<Rightarrow> nat list" where
  "opened_circuits a t sets = filter (\<lambda>i. thread_start a t \<le> i \<and> i < thread_start a (t + 1)) sets"

definition open_step ::
  "nat \<Rightarrow> CircuitPackage list \<times> u8 list list list \<times> block \<Rightarrow> CircuitPackage list \<times> u8 list list list \<times> block" where
  "open_step i st =
     (let (cs, msgs, proof) = st;
          (m, p, proof) = CircuitPackage_open (cs ! i) proof
      in (cs[i := CircuitPackage_clear p], msgs @ [m], proof))"

definition initSend_open ::
  "DualExActor \<Rightarrow> nat \<Rightarrow> CircuitPackage list \<times> u8 list list list \<times> u8 list \<times> u8 list" where
  "initSend_open a t =
     (let (cs, msgs, proof) = fold open_step (opened_circuits a t (fst (ac_mTheirCncSets a))) (ac_mMyCircuits a, [], ZeroBlock)
      in (cs, msgs, dummy_message, ByteArray proof))"

definition check_open_step ::
  "(u8 list \<Rightarrow> u8 list) \<Rightarrow> DualExActor \<Rightarrow> nat \<times> u8 list list
   \<Rightarrow> CommCircuitPackage list \<times> block \<Rightarrow> (CommCircuitPackage list \<times> block) result" where
  "check_open_step sha a im st =
     (let (i, msgs) = im; (cs, sum) = st
      in bind_r (CommCircuitPackage_open sha (cs ! i) (ac_mCircuit a) (ac_mTheirKProbe a) (ac_mMyKProbe a) (ac_mRole a) msgs sum
                   (ac_mIndexArray a)
                   (replicate (max (mNonXorGateCount (ac_mCircuit a) * 2) (kp_mEncodingSize (ac_mTheirKProbe a))) 0))
           (\<lambda>(c, sum). Inr (cs[i := CommCircuitPackage_clear c], sum)))"

definition initRecv_open ::
  "(u8 list \<Rightarrow> u8 list) \<Rightarrow> DualExActor \<Rightarrow> nat \<Rightarrow> u8 list list list \<Rightarrow> u8 list \<Rightarrow> u8 list \<Rightarrow> CommCircuitPackage list result" where
  "initRecv_open sha a t msgs dummy proofMsg =
     bind_r (fold_r (check_open_step sha a) (zip (opened_circuits a t (fst (ac_mMyCnCSets a))) msgs)
               (ac_mTheirCircuits a, ZeroBlock)) (\<lambda>(cs, theirOTMsgXORSum).
     bind_r (recv_dummy dummy) (\<lambda>_.
     bind_r (recv_block proofMsg) (\<lambda>theirOTMsgProof.
     bind_r (require (theirOTMsgProof = theirOTMsgXORSum) InvalidCommitment) (\<lambda>_. Inr cs))))"

section \<open>Buckets\<close>

text \<open>The iterator into the kept circuits starts at the thread's first bucket and skips the circuits of
  the other threads' buckets.\<close>

definition next_iter :: "DualExActor \<Rightarrow> nat \<Rightarrow> nat list \<Rightarrow> nat list" where
  "next_iter a bcktIdx evalIter =
     (if bcktIdx + ac_mNumInitThreads a < length (ac_mBuckets a)
      then drop ((ac_mNumInitThreads a - 1) * ac_mBucketSize a) evalIter else evalIter)"

definition send_bucket_step ::
  "DualExActor \<Rightarrow> nat \<Rightarrow> nat \<Rightarrow> nat \<Rightarrow> Bucket list \<times> nat list \<times> prng \<times> nat \<times> u8 list list list
   \<Rightarrow> (Bucket list \<times> nat list \<times> prng \<times> nat \<times> u8 list list list) result" where
  "send_bucket_step a t otDone bcktIdx st =
     (let (bks, evalIter, prng, otIdx, msgs) = st
      in bind_r (wait_ots otDone (otIdx + ots_per_psi a)) (\<lambda>_.
         (let (bk, m, evalIter, prng, otIdx) = Bucket_initSend (bks ! bcktIdx) (ac_mCircuit a) (ac_mBucketSize a) (ac_mPsiSecParam a)
                (ac_mRole a) (ac_mMyCircuits a) evalIter prng (ac_mOTRecv a ! t) otIdx (ac_mIndexArray a)
          in Inr (bks[bcktIdx := bk], next_iter a bcktIdx evalIter, prng, otIdx, msgs @ [m]))))"

definition initSend_buckets ::
  "DualExActor \<Rightarrow> nat \<Rightarrow> nat \<Rightarrow> prng \<Rightarrow> nat \<Rightarrow> (Bucket list \<times> u8 list list list \<times> u8 list) result" where
  "initSend_buckets a t otDone prng otIdx =
     bind_r (fold_r (send_bucket_step a t otDone) (thread_buckets a t)
               (ac_mBuckets a, drop (t * ac_mBucketSize a) (snd (ac_mTheirCncSets a)), prng, otIdx, []))
       (\<lambda>(bks, _, _, _, msgs). Inr (bks, msgs, dummy_message))"

definition recv_bucket_step ::
  "(prng \<Rightarrow> nat list \<Rightarrow> nat list \<times> prng) \<Rightarrow> DualExActor \<Rightarrow> nat \<Rightarrow> nat \<Rightarrow> nat \<times> u8 list list
   \<Rightarrow> Bucket list \<times> nat list \<times> prng \<times> nat \<Rightarrow> (Bucket list \<times> nat list \<times> prng \<times> nat) result" where
  "recv_bucket_step shuffle a t otDone bm st =
     (let (bcktIdx, msgs) = bm; (bks, evalIter, prng, otIdx) = st
      in bind_r (wait_ots otDone (otIdx + ots_per_psi a)) (\<lambda>_.
         bind_r (Bucket_initRecv shuffle (bks ! bcktIdx) (ac_mCircuit a) (ac_mTheirKProbe a) (ac_mBucketSize a) (ac_mPsiSecParam a)
                   evalIter (ac_mTheirCircuits a) prng otIdx msgs) (\<lambda>(bk, evalIter, prng, otIdx).
           Inr (bks[bcktIdx := bk], next_iter a bcktIdx evalIter, prng, otIdx))))"

definition initRecv_buckets ::
  "(prng \<Rightarrow> nat list \<Rightarrow> nat list \<times> prng) \<Rightarrow> DualExActor \<Rightarrow> nat \<Rightarrow> nat \<Rightarrow> prng \<Rightarrow> nat \<Rightarrow> u8 list list list \<Rightarrow> u8 list
   \<Rightarrow> Bucket list result" where
  "initRecv_buckets shuffle a t otDone prng otIdx msgs dummy =
     bind_r (fold_r (recv_bucket_step shuffle a t otDone) (zip (thread_buckets a t) msgs)
               (ac_mBuckets a, drop (t * ac_mBucketSize a) (snd (ac_mMyCnCSets a)), prng, otIdx))
       (\<lambda>(bks, _, _, _). bind_r (recv_dummy dummy) (\<lambda>_. Inr bks))"

text \<open>The k-probe labels of the thread's buckets.\<close>

definition send_kprobe_step ::
  "DualExActor \<Rightarrow> nat \<Rightarrow> Bucket list \<times> u8 list list list \<Rightarrow> (Bucket list \<times> u8 list list list) result" where
  "send_kprobe_step a b st =
     (let (bks, msgs) = st
      in bind_r (Bucket_initKProbeInputSend (bks ! b) (ac_mTheirKProbe a)) (\<lambda>(bk, m). Inr (bks[b := bk], msgs @ [m])))"

definition initSend_kprobe :: "DualExActor \<Rightarrow> nat \<Rightarrow> (Bucket list \<times> u8 list list list) result" where
  "initSend_kprobe a t = fold_r (send_kprobe_step a) (thread_buckets a t) (ac_mBuckets a, [])"

definition recv_kprobe_step ::
  "(u8 list \<Rightarrow> u8 list) \<Rightarrow> DualExActor \<Rightarrow> nat \<times> u8 list list \<Rightarrow> Bucket list \<Rightarrow> Bucket list result" where
  "recv_kprobe_step sha a bm bks =
     (let (b, msgs) = bm
      in bind_r (Bucket_initKProbeInputRecv sha (bks ! b) (ac_mCircuit a) (ac_mMyKProbe a) (ac_mRole a) msgs)
           (\<lambda>bk. Inr (bks[b := bk])))"

definition initRecv_kprobe ::
  "(u8 list \<Rightarrow> u8 list) \<Rightarrow> DualExActor \<Rightarrow> nat \<Rightarrow> u8 list list list \<Rightarrow> Bucket list result" where
  "initRecv_kprobe sha a t msgs = fold_r (recv_kprobe_step sha a) (zip (thread_buckets a t) msgs) (ac_mBuckets a)"

section \<open>The setup, one thread\<close>

lemma recv_dummy_message [simp]: "recv_dummy dummy_message = Inr ()"
  by (simp add: recv_dummy_def dummy_message_def of_bytes_u64)

lemma wait_ots_ok: "needed \<le> done \<Longrightarrow> wait_ots done needed = Inr ()"
  by (simp add: wait_ots_def)

lemma wires_kept: "length (fst (garble_gates_send R gs w t0 t1 m)) = length w"
proof (induction R gs w t0 t1 m rule: garble_gates_send.induct)
  case (2 R g gs wires t0 t1 masks)
  obtain g0 g1 wc where g: "garble_gate R t0 t1 g (wires ! mInput0 g) (wires ! mInput1 g) = (g0, g1, wc)" by (rule prod_cases3)
  then show ?case using 2(1) [OF refl refl] 2(2) [OF refl refl _ g [symmetric] refl refl]
    by (cases "is_xor (mType g)") (simp_all add: Let_def split_beta)
qed simp

lemma CircuitPackage_init_wires:
  assumes "package_sizes cir role Kg Ke ix k" and "mWireCount cir \<le> length wb"
    and "CircuitPackage_init sha p0 cir g i K wb ix masks = Inr (p, msgs, wb', g')"
  shows "length wb' = length wb"
proof -
  have wf: "circuit_wf cir" "InputWireCount cir \<le> length ix" "length ix < 2 ^ 32" using assms(1) by (simp_all add: package_sizes_def)
  then have "length (seed_wires cir seed ix) \<le> length wb" for seed
    using assms(2) by (simp add: seed_wires_def ecb_new_eq circuit_wf_def)
  then have "GarbleSend gc cir seed wb ix m = Inr (gc', w, ms) \<Longrightarrow> length w = length wb" for gc seed m gc' w ms
    by (auto simp: GarbleSend_def Let_def split_beta wires_kept bind_r_Inr)
  moreover obtain gc seed m gc' ms where "GarbleSend gc cir seed wb ix m = Inr (gc', wb', ms)"
    using assms(3) by (auto simp: CircuitPackage_init_def Let_def split_beta bind_r_Inr)
  ultimately show ?thesis .
qed

text \<open>What the sending thread leaves of circuit \<open>i\<close> after the garbling.\<close>

definition garbled_at ::
  "(u8 list \<Rightarrow> u8 list) \<Rightarrow> DualExActor \<Rightarrow> nat \<Rightarrow> CircuitPackage \<Rightarrow> CircuitPackage \<Rightarrow> u8 list list \<Rightarrow> bool" where
  "garbled_at sha a i p0 p m \<longleftrightarrow>
     (\<exists>g wb wb' g'. mWireCount (ac_mCircuit a) \<le> length wb
        \<and> CircuitPackage_init sha p0 (ac_mCircuit a) g i (ac_mTheirKProbe a) wb (ac_mIndexArray a)
            (replicate (mNonXorGateCount (ac_mCircuit a) * 2) 0) = Inr (p, m, wb', g'))"

lemma garble_steps:
  assumes sha: "digest20 sha" and sd: "package_sendable (ac_mCircuit a) (ac_mIndexArray a)"
    and sz: "package_sizes (ac_mCircuit a) role Kg (ac_mTheirKProbe a) (ac_mIndexArray a)
               (length (replicate (mNonXorGateCount (ac_mCircuit a) * 2) (0 :: block)))"
    and wb: "mWireCount (ac_mCircuit a) \<le> length wb" and n: "s + n \<le> length cs"
  shows "\<exists>cs' ms wb' g'. fold_r (garble_step sha a) [s..<s + n] (cs, [], wb, g) = Inr (cs', ms, wb', g')
     \<and> length wb' = length wb \<and> length cs' = length cs \<and> length ms = n
     \<and> (\<forall>i<length cs. i < s \<or> s + n \<le> i \<longrightarrow> cs' ! i = cs ! i)
     \<and> (\<forall>j<n. garbled_at sha a (s + j) (cs ! (s + j)) (cs' ! (s + j)) (ms ! j))"
  using n
proof (induction n)
  case (Suc n)
  then obtain cs1 ms1 wb1 g1 where IH: "fold_r (garble_step sha a) [s..<s + n] (cs, [], wb, g) = Inr (cs1, ms1, wb1, g1)"
    "length wb1 = length wb" "length cs1 = length cs" "length ms1 = n"
    "\<forall>i<length cs. i < s \<or> s + n \<le> i \<longrightarrow> cs1 ! i = cs ! i"
    "\<forall>j<n. garbled_at sha a (s + j) (cs ! (s + j)) (cs1 ! (s + j)) (ms1 ! j)" by auto
  obtain p m wb2 g2 where i: "CircuitPackage_init sha (cs1 ! (s + n)) (ac_mCircuit a) g1 (s + n) (ac_mTheirKProbe a) wb1
      (ac_mIndexArray a) (replicate (mNonXorGateCount (ac_mCircuit a) * 2) 0) = Inr (p, m, wb2, g2)"
    using CircuitPackage_init_sends [OF sha sz sd, of wb1] wb IH(2) by metis
  have w: "length wb2 = length wb" using CircuitPackage_init_wires [OF sz _ i] wb IH(2) by simp
  let ?cs = "cs1[s + n := p]" and ?ms = "ms1 @ [m]"
  have f: "fold_r (garble_step sha a) [s..<s + Suc n] (cs, [], wb, g) = Inr (?cs, ?ms, wb2, g2)"
    using IH(1) i by (simp add: garble_step_def fold_r_append)
  have k: "cs1 ! (s + n) = cs ! (s + n)" using IH(5) Suc.prems by simp
  have m: "garbled_at sha a (s + n) (cs ! (s + n)) p m" unfolding garbled_at_def using i wb IH(2) k by metis
  have "garbled_at sha a (s + j) (cs ! (s + j)) (?cs ! (s + j)) (?ms ! j)" if "j < Suc n" for j
    using m IH(3,4,6) Suc.prems that by (cases "j = n") (simp_all add: nth_append)
  then show ?case
    using f w IH(3,4,5) by (intro exI [of _ ?cs] exI [of _ ?ms] exI [of _ wb2] exI [of _ g2] conjI) simp_all
qed simp

text \<open>A loop that replaces the elements at given places one by one.\<close>

lemma fold_r_at:
  assumes "distinct bs" and "length xs = length bs" and "\<forall>b\<in>set bs. b < length cs"
    and "\<And>k cs'. k < length bs \<Longrightarrow> length cs' = length cs \<Longrightarrow> cs' ! (bs ! k) = cs ! (bs ! k)
         \<Longrightarrow> f (xs ! k) (cs', u k) = Inr (cs'[bs ! k := d k], u (Suc k))"
  shows "\<exists>cs'. fold_r f xs (cs, u 0) = Inr (cs', u (length bs)) \<and> length cs' = length cs
     \<and> (\<forall>i<length cs. i \<notin> set bs \<longrightarrow> cs' ! i = cs ! i) \<and> (\<forall>k<length bs. cs' ! (bs ! k) = d k)"
proof -
  define I where "I k st \<longleftrightarrow> (\<exists>cs'. st = (cs', u k) \<and> length cs' = length cs
     \<and> (\<forall>i<length cs. i \<notin> set (take k bs) \<longrightarrow> cs' ! i = cs ! i) \<and> (\<forall>j<k. cs' ! (bs ! j) = d j))" for k st
  have "\<exists>st. fold_r f xs (cs, u 0) = Inr st \<and> I (length xs) st"
  proof (rule fold_r_invariant)
    show "I 0 (cs, u 0)" by (simp add: I_def)
    fix k st assume k: "k < length xs" and "I k st"
    then obtain cs' where st: "st = (cs', u k)" "length cs' = length cs"
      "\<forall>i<length cs. i \<notin> set (take k bs) \<longrightarrow> cs' ! i = cs ! i" "\<forall>j<k. cs' ! (bs ! j) = d j"
      by (auto simp: I_def)
    have b: "k < length bs" "bs ! k < length cs" using k assms(2,3) by simp_all
    have n: "bs ! k \<notin> set (take k bs)" using assms(1) b(1) by (simp add: in_set_conv_nth nth_eq_iff_index_eq)
    have "f (xs ! k) st = Inr (cs'[bs ! k := d k], u (Suc k))" using assms(4) b st n by simp
    moreover have "\<forall>j<Suc k. cs'[bs ! k := d k] ! (bs ! j) = d j"
      using st(2,4) b assms(1) by (simp add: less_Suc_eq nth_eq_iff_index_eq nth_list_update)
    moreover have "\<forall>i<length cs. i \<notin> set (take (Suc k) bs) \<longrightarrow> cs'[bs ! k := d k] ! i = cs ! i"
      using st(2,3) b by (simp add: take_Suc_conv_app_nth)
    ultimately show "\<exists>s'. f (xs ! k) st = Inr s' \<and> I (Suc k) s'" using st(2) by (auto simp: I_def)
  qed
  then show ?thesis using assms(2) by (auto simp: I_def)
qed

lemma fold_r_pure: "fold_r (\<lambda>x s. Inr (f x s)) xs s = Inr (fold f xs s)"
  by (induction xs arbitrary: s) simp_all

lemma fold_at:
  assumes "distinct bs" and "\<forall>b\<in>set bs. b < length cs"
    and "\<And>k cs'. k < length bs \<Longrightarrow> length cs' = length cs \<Longrightarrow> cs' ! (bs ! k) = cs ! (bs ! k)
         \<Longrightarrow> f (bs ! k) (cs', u k) = (cs'[bs ! k := d k], u (Suc k))"
  shows "\<exists>cs'. fold f bs (cs, u 0) = (cs', u (length bs)) \<and> length cs' = length cs
     \<and> (\<forall>i<length cs. i \<notin> set bs \<longrightarrow> cs' ! i = cs ! i) \<and> (\<forall>k<length bs. cs' ! (bs ! k) = d k)"
  using fold_r_at [OF assms(1) refl assms(2), of "\<lambda>x s. Inr (f x s)" u d] assms(3) by (simp add: fold_r_pure)

lemma fold_r_range:
  assumes "s + n \<le> length cs"
    and "\<And>j cs'. j < n \<Longrightarrow> length cs' = length cs \<Longrightarrow> cs' ! (s + j) = cs ! (s + j)
         \<Longrightarrow> f (s + j) (cs', u j) = Inr (cs'[s + j := d j], u (Suc j))"
  shows "\<exists>cs'. fold_r f [s..<s + n] (cs, u 0) = Inr (cs', u n) \<and> length cs' = length cs
     \<and> (\<forall>i<length cs. i < s \<or> s + n \<le> i \<longrightarrow> cs' ! i = cs ! i) \<and> (\<forall>j<n. cs' ! (s + j) = d j)"
  using fold_r_at [of "[s..<s + n]" "[s..<s + n]" cs f u d] assms by auto

lemma fold_r_at1:
  assumes "distinct bs" and "length xs = length bs" and "\<forall>b\<in>set bs. b < length cs"
    and "\<And>k cs'. k < length bs \<Longrightarrow> length cs' = length cs \<Longrightarrow> cs' ! (bs ! k) = cs ! (bs ! k) \<Longrightarrow> f (xs ! k) cs' = Inr (cs'[bs ! k := d k])"
  shows "\<exists>cs'. fold_r f xs cs = Inr cs' \<and> length cs' = length cs
     \<and> (\<forall>i<length cs. i \<notin> set bs \<longrightarrow> cs' ! i = cs ! i) \<and> (\<forall>k<length bs. cs' ! (bs ! k) = d k)"
proof -
  have "fold_r (\<lambda>i (cs, u). bind_r (f i cs) (\<lambda>cs. Inr (cs, u))) xs (cs, ()) = bind_r (fold_r f xs cs) (\<lambda>cs. Inr (cs, ()))" for xs cs
  proof (induction xs arbitrary: cs)
    case (Cons x xs)
    then show ?case by (cases "f x cs") simp_all
  qed simp
  with fold_r_at [OF assms(1-3), of "\<lambda>i (cs, u). bind_r (f i cs) (\<lambda>cs. Inr (cs, u))" "\<lambda>_. ()" d] assms(4)
  show ?thesis by (auto simp: bind_r_Inr)
qed

lemma fold_r_range1:
  assumes "s + n \<le> length cs"
    and "\<And>j cs'. j < n \<Longrightarrow> length cs' = length cs \<Longrightarrow> cs' ! (s + j) = cs ! (s + j) \<Longrightarrow> f (s + j) cs' = Inr (cs'[s + j := d j])"
  shows "\<exists>cs'. fold_r f [s..<s + n] cs = Inr cs' \<and> length cs' = length cs
     \<and> (\<forall>i<length cs. i < s \<or> s + n \<le> i \<longrightarrow> cs' ! i = cs ! i) \<and> (\<forall>j<n. cs' ! (s + j) = d j)"
  using fold_r_at1 [of "[s..<s + n]" "[s..<s + n]" cs f d] assms by auto

text \<open>Two actors that are set up for each other: \<open>a\<close> and the other party \<open>b\<close> after \<open>init\<close> checked the
  parameters, with k-probe encodings of one size.\<close>

definition partners :: "DualExActor \<Rightarrow> DualExActor \<Rightarrow> bool" where
  "partners a b \<longleftrightarrow>
     ac_mCircuit b = ac_mCircuit a \<and> ac_mRole b = other (ac_mRole a)
     \<and> ac_mNumExe b = ac_mNumExe a \<and> ac_mBucketSize b = ac_mBucketSize a \<and> ac_mNumOpened b = ac_mNumOpened a
     \<and> ac_mNumCircuits b = ac_mNumCircuits a \<and> ac_mPsiSecParam b = ac_mPsiSecParam a
     \<and> ac_mNumInitThreads b = ac_mNumInitThreads a \<and> ac_mIndexArray b = ac_mIndexArray a
     \<and> ac_mTheirKProbe a = ac_mMyKProbe b \<and> ac_mTheirKProbe b = ac_mMyKProbe a
     \<and> kp_mEncodingSize (ac_mMyKProbe a) = kp_mEncodingSize (ac_mMyKProbe b)
     \<and> ac_mTheirCncSets a = ac_mMyCnCSets b \<and> ac_mTheirCncSets b = ac_mMyCnCSets a"

definition masks_size :: "DualExActor \<Rightarrow> nat" where
  "masks_size a = mNonXorGateCount (ac_mCircuit a) * 2"

definition circuit_pair :: "(u8 list \<Rightarrow> u8 list) \<Rightarrow> DualExActor \<Rightarrow> DualExActor \<Rightarrow> CircuitPackage \<Rightarrow> CommCircuitPackage \<Rightarrow> bool" where
  "circuit_pair sha a b p c \<longleftrightarrow>
     package_pair sha (ac_mCircuit a) (ac_mRole a) (ac_mMyKProbe a) (ac_mMyKProbe b) (ac_mIndexArray a) (masks_size a) p c"

definition actor_sizes :: "DualExActor \<Rightarrow> DualExActor \<Rightarrow> bool" where
  "actor_sizes a b \<longleftrightarrow>
     package_sizes (ac_mCircuit a) (ac_mRole a) (ac_mMyKProbe a) (ac_mMyKProbe b) (ac_mIndexArray a) (masks_size a)
     \<and> package_sendable (ac_mCircuit a) (ac_mIndexArray a)
     \<and> mWireCount (ac_mCircuit a) \<le> length (ac_mIndexArray a)"

text \<open>After the first loop of the two threads, and after the second.\<close>

definition circuit_received :: "(u8 list \<Rightarrow> u8 list) \<Rightarrow> DualExActor \<Rightarrow> DualExActor \<Rightarrow> CircuitPackage \<Rightarrow> CommCircuitPackage \<Rightarrow> bool" where
  "circuit_received sha a b p c \<longleftrightarrow>
     cp_garbled (ac_mCircuit a) (ac_mIndexArray a) (masks_size a) p c
     \<and> cp_kprobe sha (ac_mIndexArray a) (ac_mMyKProbe b) p c \<and> cp_output sha (ac_mCircuit a) p c"

lemma partners_thread:
  assumes "partners a b"
  shows "thread_start b t = thread_start a t" and "thread_circuits b t = thread_circuits a t"
    and "thread_circuits a t = [thread_start a t..<thread_start a t + length (thread_circuits a t)]"
    and "thread_start a t \<le> thread_start a (t + 1) \<Longrightarrow> thread_start a (t + 1) = thread_start a t + length (thread_circuits a t)"
proof -
  show "thread_start b t = thread_start a t" "thread_circuits b t = thread_circuits a t"
    using assms by (simp_all add: thread_circuits_def thread_start_def partners_def)
  show "thread_circuits a t = [thread_start a t..<thread_start a t + length (thread_circuits a t)]"
    unfolding thread_circuits_def length_upt by (cases "thread_start a t \<le> thread_start a (t + 1)") simp_all
qed (simp add: thread_circuits_def)

lemma setup_circuits:
  assumes sha: "digest20 sha" and ab: "partners a b" and sz: "actor_sizes a b"
    and mono: "thread_start a t \<le> thread_start a (t + 1)"
    and len: "thread_start a (t + 1) \<le> length (ac_mMyCircuits a)" "thread_start a (t + 1) \<le> length (ac_mTheirCircuits b)"
  defines "s \<equiv> thread_start a t" and "n \<equiv> length (thread_circuits a t)"
  shows "\<exists>cs ms wb g' ds. fold_r (garble_step sha a) [s..<s + n] (ac_mMyCircuits a, [], replicate (length (ac_mIndexArray a)) 0, g)
        = Inr (cs, ms, wb, g')
     \<and> fold_r (recv_circuit_step b t ms) [s..<s + n] (ac_mTheirCircuits b) = Inr ds
     \<and> length cs = length (ac_mMyCircuits a) \<and> length ds = length (ac_mTheirCircuits b)
     \<and> (\<forall>i<length cs. i < s \<or> s + n \<le> i \<longrightarrow> cs ! i = ac_mMyCircuits a ! i)
     \<and> (\<forall>i<length ds. i < s \<or> s + n \<le> i \<longrightarrow> ds ! i = ac_mTheirCircuits b ! i)
     \<and> (\<forall>j<n. cp_mOTRecvChoices (cs ! (s + j)) = cp_mOTRecvChoices (ac_mMyCircuits a ! (s + j)))
     \<and> (\<forall>j<n. circuit_received sha a b (cs ! (s + j)) (ds ! (s + j)))"
proof -
  let ?cir = "ac_mCircuit a" and ?Ke = "ac_mMyKProbe b" and ?ix = "ac_mIndexArray a"
  let ?my = "ac_mMyCircuits a" and ?their = "ac_mTheirCircuits b"
  have q: "package_sizes ?cir (ac_mRole a) (ac_mMyKProbe a) ?Ke ?ix (length (replicate (mNonXorGateCount ?cir * 2) (0 :: block)))"
    and sd: "package_sendable ?cir ?ix" and wc: "mWireCount ?cir \<le> length (replicate (length ?ix) (0 :: block))"
    using sz by (simp_all add: actor_sizes_def masks_size_def)
  have sn: "s + n \<le> length ?my" "s + n \<le> length ?their"
    using len partners_thread(4) [OF ab mono] by (simp_all add: s_def n_def)
  have b: "ac_mCircuit b = ?cir" "ac_mTheirKProbe a = ?Ke" "thread_start b t = s"
    using ab partners_thread(1) [OF ab, of t] by (simp_all add: partners_def s_def)
  obtain cs ms wb g' where gb: "fold_r (garble_step sha a) [s..<s + n] (?my, [], replicate (length ?ix) 0, g) = Inr (cs, ms, wb, g')"
    "length cs = length ?my" "\<forall>i<length ?my. i < s \<or> s + n \<le> i \<longrightarrow> cs ! i = ?my ! i"
    "\<forall>j<n. garbled_at sha a (s + j) (?my ! (s + j)) (cs ! (s + j)) (ms ! j)"
    using garble_steps [OF sha sd q [folded b(2)] wc sn(1), of g] by blast
  have one: "cp_mOTRecvChoices (cs ! (s + j)) = cp_mOTRecvChoices (?my ! (s + j))
      \<and> (\<exists>c. CommCircuitPackage_init (?their ! (s + j)) ?cir ?Ke (ms ! j) (s + j) = Inr c \<and> circuit_received sha a b (cs ! (s + j)) c)"
    if "j < n" for j
  proof -
    from gb(4) [rule_format, OF that, unfolded garbled_at_def b] obtain gj wb wb2 g2 where i: "mWireCount ?cir \<le> length wb"
      "CircuitPackage_init sha (?my ! (s + j)) ?cir gj (s + j) ?Ke wb ?ix (replicate (mNonXorGateCount ?cir * 2) 0)
        = Inr (cs ! (s + j), ms ! j, wb2, g2)" by blast
    have "cp_mOTRecvChoices (cs ! (s + j)) = cp_mOTRecvChoices (?my ! (s + j))"
      by (rule CircuitPackage_init_choices [OF i(2)])
    then show ?thesis
      using CircuitPackage_init_ok [OF sha q i] by (simp add: circuit_received_def masks_size_def)
  qed
  then obtain d where d: "\<And>j. j < n \<Longrightarrow> CommCircuitPackage_init (?their ! (s + j)) ?cir ?Ke (ms ! j) (s + j) = Inr (d j)"
    "\<And>j. j < n \<Longrightarrow> circuit_received sha a b (cs ! (s + j)) (d j)" by metis
  have "\<exists>ds. fold_r (recv_circuit_step b t ms) [s..<s + n] ?their = Inr ds \<and> length ds = length ?their
      \<and> (\<forall>i<length ?their. i < s \<or> s + n \<le> i \<longrightarrow> ds ! i = ?their ! i) \<and> (\<forall>j<n. ds ! (s + j) = d j)"
    by (rule fold_r_range1) (use sn d(1) in \<open>simp_all add: recv_circuit_step_def b\<close>)
  then show ?thesis using gb one d(2) by metis
qed

lemma setup_ots:
  assumes sha: "digest20 sha" and ab: "partners a b" and sz: "actor_sizes a b"
    and ot: "ot_agreed (ac_mOTSend b ! t) (ac_mOTRecv a ! t) N"
    and bud: "kp_mEncodingSize (ac_mMyKProbe a) * n \<le> N"
    and len: "s + n \<le> length cs" "s + n \<le> length ds" and s: "s = thread_start a t"
    and rc: "\<forall>j<n. bv_wf (cp_mOTRecvChoices (cs ! (s + j))) \<and> circuit_received sha a b (cs ! (s + j)) (ds ! (s + j))"
  shows "\<exists>cs' ms ds'. fold_r (send_ot_step sha a t N) [s..<s + n] (cs, [], 0) = Inr (cs', ms, kp_mEncodingSize (ac_mMyKProbe a) * n)
     \<and> fold_r (recv_ot_step b t N ms) [s..<s + n] (ds, 0) = Inr (ds', kp_mEncodingSize (ac_mMyKProbe a) * n)
     \<and> length cs' = length cs \<and> length ds' = length ds
     \<and> (\<forall>i<length cs. i < s \<or> s + n \<le> i \<longrightarrow> cs' ! i = cs ! i) \<and> (\<forall>i<length ds. i < s \<or> s + n \<le> i \<longrightarrow> ds' ! i = ds ! i)
     \<and> (\<forall>j<n. circuit_pair sha a b (cs' ! (s + j)) (ds' ! (s + j)))"
proof -
  let ?cir = "ac_mCircuit a" and ?Kg = "ac_mMyKProbe a" and ?e = "kp_mEncodingSize (ac_mMyKProbe a)"
  let ?r = "ac_mOTRecv a ! t" and ?s = "ac_mOTSend b ! t"
  have K: "kp_wf ?Kg" "length (kp_mMtx ?Kg) = Inputs ?cir (ac_mRole a)"
    using sz by (simp_all add: actor_sizes_def package_sizes_def)
  have I: "0 < Inputs ?cir (ac_mRole a)" by (rule package_sendable_inputs [of _ "ac_mIndexArray a"]) (use sz in \<open>simp add: actor_sizes_def\<close>)
  have b: "ac_mCircuit b = ?cir" "ac_mTheirKProbe b = ?Kg" "thread_start b t = s" "ac_mRole b = other (ac_mRole a)"
      "kp_mEncodingSize (ac_mMyKProbe b) = ?e"
    using ab partners_thread(1) [OF ab, of t] by (simp_all add: partners_def s)
  have bud': "?e * j + ?e \<le> N" if "j < n" for j
    using mult_le_mono2 [of "j + 1" n ?e] that bud by simp
  have "\<exists>p m c. CircuitPackage_initOT sha (cs ! (s + j)) ?cir (ac_mRole a) ?Kg ?r (?e * j) = Inr (p, m, ?e * j + ?e)
      \<and> CommCircuitPackage_initOT (ds ! (s + j)) m ?Kg ?s (?e * j) (Inputs ?cir (ac_mRole a)) = Inr (c, ?e * j + ?e)
      \<and> circuit_pair sha a b p c" if j: "j < n" for j
  proof -
    let ?p0 = "cs ! (s + j)" and ?c0 = "ds ! (s + j)"
    have r: "circuit_received sha a b ?p0 ?c0" and w: "bv_wf (cp_mOTRecvChoices ?p0)" using rc j by auto
    then have g: "mGlobalOffset (cp_mCircuit ?p0) = cp_offset ?p0" by (simp add: circuit_received_def cp_garbled_def)
    from CircuitPackage_initOT_ok [OF sha K I ot bud' [OF j] g w, of ?c0] obtain p m k q c ic where
      o: "CircuitPackage_initOT sha ?p0 ?cir (ac_mRole a) ?Kg ?r (?e * j) = Inr (p, m, k)"
      "p = ?p0\<lparr>cp_mRecvOT := ?r, cp_mOTStartIdx := ?e * j, cp_mOTRecvChoices := q\<rparr>"
      "CommCircuitPackage_initOT ?c0 m ?Kg ?s (?e * j) (Inputs ?cir (ac_mRole a)) = Inr (c, k)"
      "c = ?c0\<lparr>cc_mTheirInputCommits := ic, cc_mOTSend := ?s, cc_mOTStartIdx := ?e * j, cc_mOTCount := ?e\<rparr>"
      "cp_inputs sha ?cir (ac_mRole a) ?Kg p c" "cp_ots ?Kg p c" by blast
    have k: "k = ?e * j + ?e" using o(3) by (auto simp: CommCircuitPackage_initOT_def bind_r_Inr)
    have "circuit_pair sha a b p c"
      using r o(5,6) by (simp add: o(2,4) circuit_pair_def package_pair_def circuit_received_def cp_garbled_def cp_kprobe_def
          cp_output_def cp_offset_def cp_masks_def)
    then show ?thesis using o(1,3) unfolding k by blast
  qed
  then obtain P M D where x: "\<And>j. j < n \<Longrightarrow> CircuitPackage_initOT sha (cs ! (s + j)) ?cir (ac_mRole a) ?Kg ?r (?e * j) = Inr (P j, M j, ?e * j + ?e)"
    "\<And>j. j < n \<Longrightarrow> CommCircuitPackage_initOT (ds ! (s + j)) (M j) ?Kg ?s (?e * j) (Inputs ?cir (ac_mRole a)) = Inr (D j, ?e * j + ?e)"
    "\<And>j. j < n \<Longrightarrow> circuit_pair sha a b (P j) (D j)" by metis
  let ?M = "map M [0..<n]"
  have "\<exists>cs'. fold_r (send_ot_step sha a t N) [s..<s + n] (cs, map M [0..<0], ?e * 0) = Inr (cs', map M [0..<n], ?e * n) \<and> length cs' = length cs
      \<and> (\<forall>i<length cs. i < s \<or> s + n \<le> i \<longrightarrow> cs' ! i = cs ! i) \<and> (\<forall>j<n. cs' ! (s + j) = P j)"
    by (rule fold_r_range [where u = "\<lambda>j. (map M [0..<j], ?e * j)"])
      (use len x(1) bud' in \<open>simp_all add: send_ot_step_def wait_ots_ok algebra_simps\<close>)
  moreover have "\<exists>ds'. fold_r (recv_ot_step b t N ?M) [s..<s + n] (ds, ?e * 0) = Inr (ds', ?e * n) \<and> length ds' = length ds
      \<and> (\<forall>i<length ds. i < s \<or> s + n \<le> i \<longrightarrow> ds' ! i = ds ! i) \<and> (\<forall>j<n. ds' ! (s + j) = D j)"
    by (rule fold_r_range [where u = "\<lambda>j. ?e * j"])
      (use len x(2) bud' in \<open>simp_all add: recv_ot_step_def wait_ots_ok b algebra_simps\<close>)
  ultimately show ?thesis using x(3) by (metis mult_0_right upt_0 list.simps(8))
qed

lemma setup_thread:
  assumes sha: "digest20 sha" and ab: "partners a b" and sz: "actor_sizes a b"
    and ot: "ot_agreed (ac_mOTSend b ! t) (ac_mOTRecv a ! t) N"
    and bud: "kp_mEncodingSize (ac_mMyKProbe a) * length (thread_circuits a t) \<le> N"
    and mono: "thread_start a t \<le> thread_start a (t + 1)"
    and len: "thread_start a (t + 1) \<le> length (ac_mMyCircuits a)" "thread_start a (t + 1) \<le> length (ac_mTheirCircuits b)"
    and wf: "\<forall>i\<in>set (thread_circuits a t). bv_wf (cp_mOTRecvChoices (ac_mMyCircuits a ! i))"
  shows "\<exists>cs msgs g' ds. initSend_setup sha a t N g
        = Inr (cs, msgs, g', kp_mEncodingSize (ac_mMyKProbe a) * length (thread_circuits a t))
     \<and> initRecv_setup b t N msgs = Inr (ds, kp_mEncodingSize (ac_mMyKProbe a) * length (thread_circuits a t))
     \<and> length cs = length (ac_mMyCircuits a) \<and> length ds = length (ac_mTheirCircuits b)
     \<and> (\<forall>i<length cs. i \<notin> set (thread_circuits a t) \<longrightarrow> cs ! i = ac_mMyCircuits a ! i)
     \<and> (\<forall>i<length ds. i \<notin> set (thread_circuits a t) \<longrightarrow> ds ! i = ac_mTheirCircuits b ! i)
     \<and> (\<forall>i\<in>set (thread_circuits a t). circuit_pair sha a b (cs ! i) (ds ! i))"
proof -
  let ?s = "thread_start a t"
  define n where "n = length (thread_circuits a t)"
  have tc: "thread_circuits a t = [?s..<?s + n]" "thread_circuits b t = [?s..<?s + n]" and nl: "length [?s..<?s + n] = n"
    using partners_thread(2,3) [OF ab, of t] by (simp_all add: n_def)
  have T: "set (thread_circuits a t) = {?s..<?s + n}" by (simp add: tc)
  have sn: "?s + n \<le> length (ac_mMyCircuits a)" "?s + n \<le> length (ac_mTheirCircuits b)"
    using len partners_thread(4) [OF ab mono] by (simp_all add: n_def)
  obtain cs ms wb g' ds where c: "fold_r (garble_step sha a) [?s..<?s + n] (ac_mMyCircuits a, [], replicate (length (ac_mIndexArray a)) 0, g)
        = Inr (cs, ms, wb, g')"
     "fold_r (recv_circuit_step b t ms) [?s..<?s + n] (ac_mTheirCircuits b) = Inr ds"
     "length cs = length (ac_mMyCircuits a)" "length ds = length (ac_mTheirCircuits b)"
     "\<forall>i<length cs. i < ?s \<or> ?s + n \<le> i \<longrightarrow> cs ! i = ac_mMyCircuits a ! i"
     "\<forall>i<length ds. i < ?s \<or> ?s + n \<le> i \<longrightarrow> ds ! i = ac_mTheirCircuits b ! i"
     "\<forall>j<n. cp_mOTRecvChoices (cs ! (?s + j)) = cp_mOTRecvChoices (ac_mMyCircuits a ! (?s + j))"
     "\<forall>j<n. circuit_received sha a b (cs ! (?s + j)) (ds ! (?s + j))"
    using setup_circuits [OF sha ab sz mono len, of g] unfolding n_def [symmetric] by blast
  have "\<forall>j<n. bv_wf (cp_mOTRecvChoices (cs ! (?s + j))) \<and> circuit_received sha a b (cs ! (?s + j)) (ds ! (?s + j))"
    using c(7,8) wf T by simp
  from setup_ots [OF sha ab sz ot bud [folded n_def] _ _ refl this] obtain cs' os ds' where
    o: "fold_r (send_ot_step sha a t N) [?s..<?s + n] (cs, [], 0) = Inr (cs', os, kp_mEncodingSize (ac_mMyKProbe a) * n)"
     "fold_r (recv_ot_step b t N os) [?s..<?s + n] (ds, 0) = Inr (ds', kp_mEncodingSize (ac_mMyKProbe a) * n)"
     "length cs' = length cs" "length ds' = length ds"
     "\<forall>i<length cs. i < ?s \<or> ?s + n \<le> i \<longrightarrow> cs' ! i = cs ! i" "\<forall>i<length ds. i < ?s \<or> ?s + n \<le> i \<longrightarrow> ds' ! i = ds ! i"
     "\<forall>j<n. circuit_pair sha a b (cs' ! (?s + j)) (ds' ! (?s + j))"
    using sn c(3,4) by metis
  have "initSend_setup sha a t N g = Inr (cs', (ms, dummy_message, os, dummy_message), g', kp_mEncodingSize (ac_mMyKProbe a) * n)"
    using c(1) o(1) unfolding initSend_setup_def tc by simp
  moreover have "initRecv_setup b t N (ms, dummy_message, os, dummy_message) = Inr (ds', kp_mEncodingSize (ac_mMyKProbe a) * n)"
    using c(2) o(2) unfolding initRecv_setup_def tc by simp
  moreover have "circuit_pair sha a b (cs' ! i) (ds' ! i)" if "i \<in> set (thread_circuits a t)" for i
    using o(7) [rule_format, of "i - ?s"] that T by auto
  moreover have "\<forall>i<length cs'. i \<notin> set (thread_circuits a t) \<longrightarrow> cs' ! i = ac_mMyCircuits a ! i"
    "\<forall>i<length ds'. i \<notin> set (thread_circuits a t) \<longrightarrow> ds' ! i = ac_mTheirCircuits b ! i"
    using c(3-6) o(3-6) unfolding T by (simp_all add: not_less) (metis not_less)+
  ultimately show ?thesis using c(3,4) o(3,4) unfolding n_def [symmetric] by metis
qed

section \<open>The openings, one thread\<close>

lemma open_thread:
  assumes sha: "digest20 sha" and ab: "partners a b" and sz: "actor_sizes a b" "actor_sizes b a"
    and os: "distinct (fst (ac_mTheirCncSets a))" "\<forall>i\<in>set (fst (ac_mTheirCncSets a)). i < length (ac_mMyCircuits a) \<and> i < length (ac_mTheirCircuits b)"
    and pp: "\<forall>i\<in>set (opened_circuits a t (fst (ac_mTheirCncSets a))). circuit_pair sha a b (ac_mMyCircuits a ! i) (ac_mTheirCircuits b ! i)"
  shows "\<exists>cs msgs pf ds. initSend_open a t = (cs, msgs, dummy_message, ByteArray pf)
     \<and> initRecv_open sha b t msgs dummy_message (ByteArray pf) = Inr ds
     \<and> length cs = length (ac_mMyCircuits a) \<and> length ds = length (ac_mTheirCircuits b)
     \<and> (\<forall>i<length cs. i \<notin> set (opened_circuits a t (fst (ac_mTheirCncSets a))) \<longrightarrow> cs ! i = ac_mMyCircuits a ! i)
     \<and> (\<forall>i<length ds. i \<notin> set (opened_circuits a t (fst (ac_mTheirCncSets a))) \<longrightarrow> ds ! i = ac_mTheirCircuits b ! i)"
proof -
  let ?my = "ac_mMyCircuits a" and ?their = "ac_mTheirCircuits b" and ?cir = "ac_mCircuit a" and ?ix = "ac_mIndexArray a"
  define js where "js = opened_circuits a t (fst (ac_mTheirCncSets a))"
  have b: "opened_circuits b t (fst (ac_mMyCnCSets b)) = js" "ac_mCircuit b = ?cir" "ac_mTheirKProbe b = ac_mMyKProbe a"
      "ac_mRole b = other (ac_mRole a)" "ac_mIndexArray b = ?ix" "kp_mEncodingSize (ac_mMyKProbe b) = kp_mEncodingSize (ac_mMyKProbe a)"
    using ab partners_thread(1) [OF ab] by (simp_all add: js_def opened_circuits_def partners_def)
  have d: "distinct js" "\<forall>i\<in>set js. i < length ?my" "\<forall>i\<in>set js. i < length ?their"
    using os by (simp_all add: js_def opened_circuits_def)
  define acc where "acc k = fold (\<lambda>i x. snd (snd (CircuitPackage_open (?my ! i) x))) (take k js) 0" for k
  have acc: "acc 0 = ZeroBlock" "k < length js \<Longrightarrow> acc (Suc k) = snd (snd (CircuitPackage_open (?my ! (js ! k)) (acc k)))" for k
    by (simp_all add: acc_def take_Suc_conv_app_nth)
  define ms where "ms k = fst (CircuitPackage_open (?my ! (js ! k)) (acc k))" for k
  have "\<exists>cs. fold open_step js (?my, map ms [0..<0], acc 0) = (cs, map ms [0..<length js], acc (length js)) \<and> length cs = length ?my
      \<and> (\<forall>i<length ?my. i \<notin> set js \<longrightarrow> cs ! i = ?my ! i)
      \<and> (\<forall>k<length js. cs ! (js ! k) = CircuitPackage_clear (fst (snd (CircuitPackage_open (?my ! (js ! k)) (acc k)))))"
    by (rule fold_at [where u = "\<lambda>k. (map ms [0..<k], acc k)"])
      (use d acc(2) in \<open>simp_all add: open_step_def ms_def Let_def split_beta\<close>)
  then obtain cs where cs: "fold open_step js (?my, [], ZeroBlock) = (cs, map ms [0..<length js], acc (length js))" "length cs = length ?my"
      "\<forall>i<length ?my. i \<notin> set js \<longrightarrow> cs ! i = ?my ! i"
    using acc(1) by auto
  let ?buf = "replicate (max (mNonXorGateCount ?cir * 2) (kp_mEncodingSize (ac_mMyKProbe a))) (0 :: block)"
  have q: "package_sizes ?cir (ac_mRole a) (ac_mMyKProbe a) (ac_mMyKProbe b) ?ix (masks_size a)"
    using sz(1) by (simp add: actor_sizes_def)
  have q': "package_sizes ?cir (ac_mRole a) (ac_mMyKProbe a) (ac_mMyKProbe b) ?ix (length ?buf)"
    using q b(6) by (simp add: package_sizes_def masks_size_def)
  have "\<exists>c. CommCircuitPackage_open sha (?their ! (js ! k)) ?cir (ac_mMyKProbe a) (ac_mMyKProbe b) (other (ac_mRole a)) (ms k) (acc k) ?ix ?buf
      = Inr (c, acc (Suc k))" if k: "k < length js" for k
    using package_pair_opens [OF sha q q'] pp [folded js_def, rule_format, of "js ! k"] k acc(2)
    by (simp add: ms_def circuit_pair_def)
  then obtain D where D: "\<And>k. k < length js \<Longrightarrow> CommCircuitPackage_open sha (?their ! (js ! k)) ?cir (ac_mMyKProbe a) (ac_mMyKProbe b)
      (other (ac_mRole a)) (ms k) (acc k) ?ix ?buf = Inr (D k, acc (Suc k))" by metis
  have "\<exists>ds. fold_r (check_open_step sha b) (zip js (map ms [0..<length js])) (?their, acc 0) = Inr (ds, acc (length js))
      \<and> length ds = length ?their \<and> (\<forall>i<length ?their. i \<notin> set js \<longrightarrow> ds ! i = ?their ! i)
      \<and> (\<forall>k<length js. ds ! (js ! k) = CommCircuitPackage_clear (D k))"
    by (rule fold_r_at) (use d D in \<open>simp_all add: check_open_step_def b\<close>)
  then obtain ds where ds: "fold_r (check_open_step sha b) (zip js (map ms [0..<length js])) (?their, ZeroBlock) = Inr (ds, acc (length js))"
      "length ds = length ?their" "\<forall>i<length ?their. i \<notin> set js \<longrightarrow> ds ! i = ?their ! i"
    using acc(1) by auto
  have "initSend_open a t = (cs, map ms [0..<length js], dummy_message, ByteArray (acc (length js)))"
    using cs(1) by (simp add: initSend_open_def js_def)
  moreover have "initRecv_open sha b t (map ms [0..<length js]) dummy_message (ByteArray (acc (length js))) = Inr ds"
    using ds(1) by (simp add: initRecv_open_def b(1))
  ultimately show ?thesis using cs(2,3) ds(2,3) unfolding js_def [symmetric] by metis
qed

section \<open>The buckets, one thread\<close>

lemma thread_buckets_at:
  assumes "t < ac_mNumInitThreads a" and "k < length (thread_buckets a t)"
  shows "thread_buckets a t ! k = t + k * ac_mNumInitThreads a" and "thread_buckets a t ! k < length (ac_mBuckets a)"
proof -
  show "thread_buckets a t ! k = t + k * ac_mNumInitThreads a"
    using assms(2) by (simp add: thread_buckets_def circuit_range_def)
  show "thread_buckets a t ! k < length (ac_mBuckets a)"
    using nth_mem [OF assms(2)] set_thread_buckets [OF assms(1)] by simp
qed

lemma distinct_thread_buckets: "t < ac_mNumInitThreads a \<Longrightarrow> distinct (thread_buckets a t)"
  by (simp add: thread_buckets_def circuit_range_def distinct_map inj_on_def)

text \<open>The iterator is at \<open>bcktIdx * mBucketSize\<close> when the bucket is set up.\<close>

definition bucket_iter :: "DualExActor \<Rightarrow> nat list \<Rightarrow> nat \<Rightarrow> nat \<Rightarrow> nat list" where
  "bucket_iter a kept t k =
     (if k < length (thread_buckets a t) then drop (thread_buckets a t ! k * ac_mBucketSize a) kept
      else drop ((thread_buckets a t ! (k - 1) + 1) * ac_mBucketSize a) kept)"

lemma bucket_iter_next:
  assumes "t < ac_mNumInitThreads a" and "k < length (thread_buckets a t)"
  shows "next_iter a (thread_buckets a t ! k) (drop (ac_mBucketSize a) (bucket_iter a kept t k)) = bucket_iter a kept t (Suc k)"
proof -
  let ?T = "ac_mNumInitThreads a" and ?B = "ac_mBucketSize a" and ?b = "thread_buckets a t ! k"
  note b = thread_buckets_at [OF assms]
  have in_range: "Suc k < length (thread_buckets a t) \<longleftrightarrow> ?b + ?T < length (ac_mBuckets a)"
  proof
    assume "Suc k < length (thread_buckets a t)"
    then show "?b + ?T < length (ac_mBuckets a)" using thread_buckets_at [OF assms(1), of "Suc k"] b(1) by simp
  next
    assume "?b + ?T < length (ac_mBuckets a)"
    then have "?b + ?T \<in> set (thread_buckets a t)"
      using assms(1) b(1) by (simp add: set_thread_buckets)
    then obtain j where j: "j < length (thread_buckets a t)" "thread_buckets a t ! j = ?b + ?T" by (auto simp: in_set_conv_nth)
    then have "t + j * ?T = t + (k + 1) * ?T" using thread_buckets_at(1) [OF assms(1) j(1)] b(1) by simp
    then have "j * ?T = Suc k * ?T" by simp
    then have "j = Suc k" using assms(1) by (auto simp only: mult_cancel2)
    then show "Suc k < length (thread_buckets a t)" using j(1) by simp
  qed
  have e: "(?T - 1) * ?B + (?B + ?b * ?B) = (?b + ?T) * ?B"
    using assms(1) by (cases ?T) (simp_all add: algebra_simps)
  show ?thesis
  proof (cases "Suc k < length (thread_buckets a t)")
    case True
    then have "thread_buckets a t ! Suc k = ?b + ?T" using thread_buckets_at(1) [OF assms(1) True] b(1) by simp
    then show ?thesis using True in_range assms(2) e by (simp add: bucket_iter_def next_iter_def)
  next
    case False
    then show ?thesis using in_range assms(2) by (simp add: bucket_iter_def next_iter_def)
  qed
qed

lemma bucket_iter_0: "t < ac_mNumInitThreads a \<Longrightarrow> thread_buckets a t \<noteq> [] \<Longrightarrow> bucket_iter a kept t 0 = drop (t * ac_mBucketSize a) kept"
  using thread_buckets_at(1) [of t a 0] by (simp add: bucket_iter_def)

definition next_send_prng :: "prng \<Rightarrow> prng" where
  "next_send_prng g = snd (get_block g)"

definition next_recv_prng :: "(prng \<Rightarrow> nat list \<Rightarrow> nat list \<times> prng) \<Rightarrow> nat \<Rightarrow> prng \<Rightarrow> prng" where
  "next_recv_prng shuffle n g = snd (shuffle g [0..<n])"

lemma Bucket_initSend_rest:
  "\<exists>bk m. Bucket_initSend bk0 cir n psw r ps is g ot oi ix = (bk, m, drop n is, next_send_prng g, oi + psw * n)"
  by (simp add: Bucket_initSend_def PsiReceiver_init_def next_send_prng_def Let_def split_beta)

lemma Bucket_initRecv_rest:
  "Bucket_initRecv shuffle bk0 cir K n psw is cs g oi msgs = Inr (bk, is', g', oi')
   \<Longrightarrow> is' = drop n is \<and> g' = next_recv_prng shuffle n g \<and> oi' = oi + psw * n"
  by (auto simp: Bucket_initRecv_def PsiSender_init_def next_recv_prng_def Let_def split_beta bind_r_Inr)

text \<open>What both parties bring to bucket \<open>b\<close>, when its threads reach it. \<open>A\<close> are the actors before the buckets
  are set up, \<open>gs\<close>, \<open>gr\<close>, \<open>oi\<close> and \<open>oj\<close> the generators and OT indices of the threads.\<close>

definition bucket_parties ::
  "(prng \<Rightarrow> nat list \<Rightarrow> nat list \<times> prng) \<Rightarrow> (role \<Rightarrow> DualExActor) \<Rightarrow> (role \<Rightarrow> nat \<Rightarrow> prng) \<Rightarrow> (role \<Rightarrow> nat \<Rightarrow> prng)
   \<Rightarrow> (role \<Rightarrow> nat \<Rightarrow> nat) \<Rightarrow> (role \<Rightarrow> nat \<Rightarrow> nat) \<Rightarrow> nat \<Rightarrow> role \<Rightarrow> bucket_party" where
  "bucket_parties shuffle A gs gr oi oj b r =
     (let a = A r; t = b mod ac_mNumInitThreads a; k = b div ac_mNumInitThreads a; w = ac_mPsiSecParam a * ac_mBucketSize a
      in \<lparr>bp_bucket = ac_mBuckets a ! b, bp_packages = ac_mMyCircuits a, bp_received = ac_mTheirCircuits a,
          bp_idx = drop (b * ac_mBucketSize a) (snd (ac_mTheirCncSets a)),
          bp_their_idx = drop (b * ac_mBucketSize a) (snd (ac_mMyCnCSets a)),
          bp_send_prng = (next_send_prng ^^ k) (gs r t),
          bp_recv_prng = (next_recv_prng shuffle (ac_mBucketSize a) ^^ k) (gr r t),
          bp_otRecv = ac_mOTRecv a ! t, bp_otRecv_idx = oi r t + w * k, bp_otSend_idx = oj r t + w * k\<rparr>)"

definition actor_party_send ::
  "(role \<Rightarrow> DualExActor) \<Rightarrow> (role \<Rightarrow> bucket_party) \<Rightarrow> role \<Rightarrow> Bucket \<times> u8 list list" where
  "actor_party_send A P r =
     party_send (ac_mCircuit (A r)) (ac_mBucketSize (A r)) (ac_mPsiSecParam (A r)) (ac_mIndexArray (A r)) P r"

lemma thread_buckets_nth_mod:
  assumes "t < ac_mNumInitThreads a" and "k < length (thread_buckets a t)"
  shows "thread_buckets a t ! k mod ac_mNumInitThreads a = t" and "thread_buckets a t ! k div ac_mNumInitThreads a = k"
  using assms thread_buckets_at(1) [OF assms] by simp_all

lemma with_buckets [simp]:
  assumes "length bks = length (ac_mBuckets a)"
  shows "thread_buckets (a\<lparr>ac_mBuckets := bks\<rparr>) t = thread_buckets a t"
    and "next_iter (a\<lparr>ac_mBuckets := bks\<rparr>) b it = next_iter a b it"
  using assms by (simp_all add: thread_buckets_def next_iter_def)

lemma ots_per_psi_buckets [simp]: "ots_per_psi (a\<lparr>ac_mBuckets := bks\<rparr>) = ots_per_psi a"
  by (simp add: ots_per_psi_def)

lemma psi_room: "(k :: nat) < n \<Longrightarrow> o0 + w * n \<le> N \<Longrightarrow> o0 + w * k + w \<le> N"
  using mult_le_mono2 [of "Suc k" n w] by simp

lemma send_buckets_thread:
  fixes A r t
  defines "a \<equiv> A r" and "tb \<equiv> thread_buckets (A r) t"
  assumes t: "t < ac_mNumInitThreads (A r)" and role: "ac_mRole (A r) = r"
    and bks: "length bks = length (ac_mBuckets (A r))" "\<forall>b\<in>set tb. bks ! b = ac_mBuckets (A r) ! b"
    and w: "ots_per_psi (A r) = ac_mPsiSecParam (A r) * ac_mBucketSize (A r)"
    and room: "oi r t + ac_mPsiSecParam (A r) * ac_mBucketSize (A r) * length tb \<le> N"
  shows "\<exists>bks'. initSend_buckets ((A r)\<lparr>ac_mBuckets := bks\<rparr>) t N (gs r t) (oi r t)
      = Inr (bks', map (\<lambda>b. snd (actor_party_send A (bucket_parties shuffle A gs gr oi oj b) r)) tb, dummy_message)
     \<and> length bks' = length bks
     \<and> (\<forall>i<length bks. i \<notin> set tb \<longrightarrow> bks' ! i = bks ! i)
     \<and> (\<forall>k<length tb. bks' ! (tb ! k) = fst (actor_party_send A (bucket_parties shuffle A gs gr oi oj (tb ! k)) r))"
proof -
  let ?P = "bucket_parties shuffle A gs gr oi oj" and ?kept = "snd (ac_mTheirCncSets a)" and ?w = "ac_mPsiSecParam a * ac_mBucketSize a"
  define u where "u k = (bucket_iter a ?kept t k, (next_send_prng ^^ k) (gs r t), oi r t + ?w * k,
      map (\<lambda>b. snd (actor_party_send A (?P b) r)) (take k tb))" for k
  have step: "send_bucket_step (a\<lparr>ac_mBuckets := bks\<rparr>) t N (tb ! k) (cs, u k)
      = Inr (cs[tb ! k := fst (actor_party_send A (?P (tb ! k)) r)], u (Suc k))"
    if k: "k < length tb" and cs: "cs ! (tb ! k) = bks ! (tb ! k)" for k cs
  proof -
    have k': "k < length (thread_buckets a t)" using k by (simp add: tb_def a_def)
    have t': "t < ac_mNumInitThreads a" using t by (simp add: a_def)
    note at = thread_buckets_nth_mod [OF t' k']
    obtain bk m where i: "Bucket_initSend (cs ! (tb ! k)) (ac_mCircuit a) (ac_mBucketSize a) (ac_mPsiSecParam a) r (ac_mMyCircuits a)
        (bucket_iter a ?kept t k) ((next_send_prng ^^ k) (gs r t)) (ac_mOTRecv a ! t) (oi r t + ?w * k) (ac_mIndexArray a)
        = (bk, m, drop (ac_mBucketSize a) (bucket_iter a ?kept t k), next_send_prng ((next_send_prng ^^ k) (gs r t)), oi r t + ?w * k + ?w)"
      using Bucket_initSend_rest by (metis (no_types))
    have "actor_party_send A (?P (tb ! k)) r = (bk, m)"
      using i at k k' cs bks(2) nth_mem [OF k]
      by (simp add: actor_party_send_def party_send_def bucket_parties_def Let_def a_def tb_def bucket_iter_def)
    moreover have "wait_ots N (oi r t + ?w * k + ?w) = Inr ()"
      using psi_room [OF k, of "oi r t" ?w N] room by (simp add: wait_ots_ok a_def)
    ultimately show ?thesis
      using i role w bks(1) bucket_iter_next [OF t' k', of ?kept] k
      by (simp add: send_bucket_step_def u_def a_def tb_def take_Suc_conv_app_nth)
  qed
  have "\<exists>bks'. fold_r (send_bucket_step (a\<lparr>ac_mBuckets := bks\<rparr>) t N) tb (bks, u 0) = Inr (bks', u (length tb)) \<and> length bks' = length bks
      \<and> (\<forall>i<length bks. i \<notin> set tb \<longrightarrow> bks' ! i = bks ! i)
      \<and> (\<forall>k<length tb. bks' ! (tb ! k) = fst (actor_party_send A (?P (tb ! k)) r))"
    by (rule fold_r_at) (use step distinct_thread_buckets [OF t] set_thread_buckets [OF t] bks in \<open>simp_all add: tb_def\<close>)
  moreover have "initSend_buckets (a\<lparr>ac_mBuckets := bks\<rparr>) t N (gs r t) (oi r t)
      = bind_r (fold_r (send_bucket_step (a\<lparr>ac_mBuckets := bks\<rparr>) t N) tb (bks, u 0)) (\<lambda>(bks, _, _, _, msgs). Inr (bks, msgs, dummy_message))"
  proof (cases "tb = []")
    case False
    then have "bucket_iter a ?kept t 0 = drop (t * ac_mBucketSize a) ?kept"
      using bucket_iter_0 [of t a ?kept] t by (simp add: a_def tb_def)
    then show ?thesis using bks(1) by (simp add: initSend_buckets_def u_def a_def tb_def)
  qed (use bks(1) in \<open>simp add: initSend_buckets_def u_def a_def tb_def\<close>)
  ultimately show ?thesis by (auto simp: u_def a_def)
qed

definition actor_party_recv ::
  "(prng \<Rightarrow> nat list \<Rightarrow> nat list \<times> prng) \<Rightarrow> (role \<Rightarrow> DualExActor) \<Rightarrow> (role \<Rightarrow> bucket_party) \<Rightarrow> role
   \<Rightarrow> (Bucket \<times> nat list \<times> prng \<times> nat) result" where
  "actor_party_recv shuffle A P r =
     Bucket_initRecv shuffle (fst (actor_party_send A P r)) (ac_mCircuit (A r)) (ac_mTheirKProbe (A r)) (ac_mBucketSize (A r))
       (ac_mPsiSecParam (A r)) (bp_their_idx (P r)) (bp_received (P r)) (bp_recv_prng (P r)) (bp_otSend_idx (P r))
       (snd (actor_party_send A P (other r)))"

lemma recv_buckets_thread:
  fixes A r t
  defines "a \<equiv> A r" and "tb \<equiv> thread_buckets (A r) t"
  assumes t: "t < ac_mNumInitThreads (A r)"
    and bks: "length bks = length (ac_mBuckets (A r))"
      "\<forall>b\<in>set tb. bks ! b = fst (actor_party_send A (bucket_parties shuffle A gs gr oi oj b) r)"
    and ok: "\<forall>b\<in>set tb. actor_party_recv shuffle A (bucket_parties shuffle A gs gr oi oj b) r = Inr (G b, X b)"
    and w: "ots_per_psi (A r) = ac_mPsiSecParam (A r) * ac_mBucketSize (A r)"
    and room: "oj r t + ac_mPsiSecParam (A r) * ac_mBucketSize (A r) * length tb \<le> N"
  shows "\<exists>bks'. initRecv_buckets shuffle ((A r)\<lparr>ac_mBuckets := bks\<rparr>) t N (gr r t) (oj r t)
        (map (\<lambda>b. snd (actor_party_send A (bucket_parties shuffle A gs gr oi oj b) (other r))) tb) dummy_message = Inr bks'
     \<and> length bks' = length bks
     \<and> (\<forall>i<length bks. i \<notin> set tb \<longrightarrow> bks' ! i = bks ! i) \<and> (\<forall>k<length tb. bks' ! (tb ! k) = G (tb ! k))"
proof -
  let ?P = "bucket_parties shuffle A gs gr oi oj" and ?kept = "snd (ac_mMyCnCSets a)" and ?w = "ac_mPsiSecParam a * ac_mBucketSize a"
  let ?ms = "map (\<lambda>b. snd (actor_party_send A (?P b) (other r))) tb"
  define u where "u k = (bucket_iter a ?kept t k, (next_recv_prng shuffle (ac_mBucketSize a) ^^ k) (gr r t), oj r t + ?w * k)" for k
  have step: "recv_bucket_step shuffle (a\<lparr>ac_mBuckets := bks\<rparr>) t N (zip tb ?ms ! k) (cs, u k) = Inr (cs[tb ! k := G (tb ! k)], u (Suc k))"
    if k: "k < length tb" and cs: "cs ! (tb ! k) = bks ! (tb ! k)" for k cs
  proof -
    have k': "k < length (thread_buckets a t)" using k by (simp add: tb_def a_def)
    have t': "t < ac_mNumInitThreads a" using t by (simp add: a_def)
    note at = thread_buckets_nth_mod [OF t' k']
    have "actor_party_recv shuffle A (?P (tb ! k)) r = Bucket_initRecv shuffle (cs ! (tb ! k)) (ac_mCircuit a) (ac_mTheirKProbe a)
        (ac_mBucketSize a) (ac_mPsiSecParam a) (bucket_iter a ?kept t k) (ac_mTheirCircuits a)
        ((next_recv_prng shuffle (ac_mBucketSize a) ^^ k) (gr r t)) (oj r t + ?w * k) (?ms ! k)"
      using at k k' cs bks(2) nth_mem [OF k]
      by (simp add: actor_party_recv_def Let_def a_def tb_def bucket_iter_def bucket_parties_def [of _ _ _ _ _ _ _ r])
    then have r: "Bucket_initRecv shuffle (cs ! (tb ! k)) (ac_mCircuit a) (ac_mTheirKProbe a)
        (ac_mBucketSize a) (ac_mPsiSecParam a) (bucket_iter a ?kept t k) (ac_mTheirCircuits a)
        ((next_recv_prng shuffle (ac_mBucketSize a) ^^ k) (gr r t)) (oj r t + ?w * k) (?ms ! k) = Inr (G (tb ! k), X (tb ! k))"
      using ok nth_mem [OF k] by simp
    obtain it g oi' where X: "X (tb ! k) = (it, g, oi')" by (rule prod_cases3)
    note rest = Bucket_initRecv_rest [OF r [unfolded X]]
    have "wait_ots N (oj r t + ?w * k + ?w) = Inr ()"
      using psi_room [OF k, of "oj r t" ?w N] room by (simp add: wait_ots_ok a_def)
    then show ?thesis
      using r X rest w bks(1) bucket_iter_next [OF t' k', of ?kept] k
      by (simp add: recv_bucket_step_def u_def a_def tb_def)
  qed
  have "\<exists>bks'. fold_r (recv_bucket_step shuffle (a\<lparr>ac_mBuckets := bks\<rparr>) t N) (zip tb ?ms) (bks, u 0) = Inr (bks', u (length tb))
      \<and> length bks' = length bks
      \<and> (\<forall>i<length bks. i \<notin> set tb \<longrightarrow> bks' ! i = bks ! i) \<and> (\<forall>k<length tb. bks' ! (tb ! k) = G (tb ! k))"
    by (rule fold_r_at) (use step distinct_thread_buckets [OF t] set_thread_buckets [OF t] bks in \<open>simp_all add: tb_def\<close>)
  moreover have "initRecv_buckets shuffle (a\<lparr>ac_mBuckets := bks\<rparr>) t N (gr r t) (oj r t) ?ms dummy_message
      = bind_r (fold_r (recv_bucket_step shuffle (a\<lparr>ac_mBuckets := bks\<rparr>) t N) (zip tb ?ms) (bks, u 0)) (\<lambda>(bks, _, _, _). Inr bks)"
  proof (cases "tb = []")
    case False
    then have "bucket_iter a ?kept t 0 = drop (t * ac_mBucketSize a) ?kept"
      using bucket_iter_0 [of t a ?kept] t by (simp add: a_def tb_def)
    then show ?thesis using bks(1) by (simp add: initRecv_buckets_def u_def a_def tb_def)
  qed (use bks(1) in \<open>simp add: initRecv_buckets_def u_def a_def tb_def\<close>)
  ultimately show ?thesis by (auto simp: u_def a_def)
qed

lemma send_kprobe_thread:
  fixes a t
  defines "tb \<equiv> thread_buckets a t"
  assumes t: "t < ac_mNumInitThreads a"
    and ok: "\<forall>b\<in>set tb. Bucket_initKProbeInputSend (ac_mBuckets a ! b) (ac_mTheirKProbe a) = Inr (G b, M b)"
  shows "\<exists>bks. initSend_kprobe a t = Inr (bks, map M tb) \<and> length bks = length (ac_mBuckets a)
     \<and> (\<forall>i<length (ac_mBuckets a). i \<notin> set tb \<longrightarrow> bks ! i = ac_mBuckets a ! i) \<and> (\<forall>k<length tb. bks ! (tb ! k) = G (tb ! k))"
proof -
  define u where "u k = map M (take k tb)" for k
  have ok': "Bucket_initKProbeInputSend (ac_mBuckets a ! (tb ! k)) (ac_mTheirKProbe a) = Inr (G (tb ! k), M (tb ! k))" if "k < length tb" for k
    using ok nth_mem [OF that] by blast
  have tb: "distinct tb" "\<forall>b\<in>set tb. b < length (ac_mBuckets a)"
    using distinct_thread_buckets [OF t] set_thread_buckets [OF t] by (simp_all add: tb_def)
  have "\<exists>bks. fold_r (send_kprobe_step a) tb (ac_mBuckets a, u 0) = Inr (bks, u (length tb)) \<and> length bks = length (ac_mBuckets a)
      \<and> (\<forall>i<length (ac_mBuckets a). i \<notin> set tb \<longrightarrow> bks ! i = ac_mBuckets a ! i) \<and> (\<forall>k<length tb. bks ! (tb ! k) = G (tb ! k))"
    by (rule fold_r_at) (use ok' tb in \<open>simp_all add: send_kprobe_step_def u_def take_Suc_conv_app_nth\<close>)
  then show ?thesis by (simp add: initSend_kprobe_def tb_def u_def)
qed

lemma recv_kprobe_thread:
  fixes a t
  defines "tb \<equiv> thread_buckets a t"
  assumes t: "t < ac_mNumInitThreads a"
    and ok: "\<forall>b\<in>set tb. Bucket_initKProbeInputRecv sha (ac_mBuckets a ! b) (ac_mCircuit a) (ac_mMyKProbe a) (ac_mRole a) (M b) = Inr (G b)"
  shows "\<exists>bks. initRecv_kprobe sha a t (map M tb) = Inr bks \<and> length bks = length (ac_mBuckets a)
     \<and> (\<forall>i<length (ac_mBuckets a). i \<notin> set tb \<longrightarrow> bks ! i = ac_mBuckets a ! i) \<and> (\<forall>k<length tb. bks ! (tb ! k) = G (tb ! k))"
proof -
  have ok': "Bucket_initKProbeInputRecv sha (ac_mBuckets a ! (tb ! k)) (ac_mCircuit a) (ac_mMyKProbe a) (ac_mRole a) (M (tb ! k))
      = Inr (G (tb ! k))" if "k < length tb" for k using ok nth_mem [OF that] by blast
  have tb: "distinct tb" "\<forall>b\<in>set tb. b < length (ac_mBuckets a)"
    using distinct_thread_buckets [OF t] set_thread_buckets [OF t] by (simp_all add: tb_def)
  have "\<exists>bks. fold_r (recv_kprobe_step sha a) (zip tb (map M tb)) (ac_mBuckets a) = Inr bks \<and> length bks = length (ac_mBuckets a)
      \<and> (\<forall>i<length (ac_mBuckets a). i \<notin> set tb \<longrightarrow> bks ! i = ac_mBuckets a ! i) \<and> (\<forall>k<length tb. bks ! (tb ! k) = G (tb ! k))"
    by (rule fold_r_at1) (use ok' tb in \<open>simp_all add: recv_kprobe_step_def\<close>)
  then show ?thesis by (simp add: initRecv_kprobe_def tb_def)
qed

end
