(* ===== verification/BDX_Offline.thy ===== *)
theory BDX_Offline
  imports BDX_Actor
begin

text \<open>
  \<open>DualEx/DualExActor.cpp\<close>: the offline phase of two parties. A link is a sending thread and the
  receiving thread of the other party it is connected to; the links of a phase run in any order.
\<close>

section \<open>Links\<close>

record links =
  lk_actor :: "role \<Rightarrow> DualExActor"
  lk_prng :: "role \<Rightarrow> nat \<Rightarrow> prng"
  lk_sent :: "role \<Rightarrow> nat \<Rightarrow> nat"
  lk_recvd :: "role \<Rightarrow> nat \<Rightarrow> nat"
  lk_msgs :: "role \<Rightarrow> nat \<Rightarrow> u8 list list list"
  lk_dummy :: "role \<Rightarrow> nat \<Rightarrow> u8 list"

definition upd2 :: "(role \<Rightarrow> nat \<Rightarrow> 'a) \<Rightarrow> role \<Rightarrow> nat \<Rightarrow> 'a \<Rightarrow> role \<Rightarrow> nat \<Rightarrow> 'a" where
  "upd2 f r t x = f(r := (f r)(t := x))"

lemma upd2_simps [simp]: "upd2 f r t x r t = x" "q \<noteq> r \<or> u \<noteq> t \<Longrightarrow> upd2 f r t x q u = f q u"
  by (auto simp: upd2_def)

text \<open>Thread \<open>t\<close> sends for \<open>r\<close>; the other party's thread \<open>t\<close> receives.\<close>

definition setup_link ::
  "(u8 list \<Rightarrow> u8 list) \<Rightarrow> (role \<Rightarrow> (block \<times> block) list) \<Rightarrow> role \<times> nat \<Rightarrow> links \<Rightarrow> links result" where
  "setup_link sha seeds x l =
     (let (r, t) = x; a = lk_actor l r; b = lk_actor l (other r)
      in bind_r (initSend_setup sha a t (numRecvOTsPer a) (SetSeed (fst (seeds r ! t)))) (\<lambda>(cs, msgs, prng, sent).
         bind_r (initRecv_setup b t (numSendOTsPer b) msgs) (\<lambda>(ds, recvd).
         Inr (l\<lparr>lk_actor := (lk_actor l)(r := a\<lparr>ac_mMyCircuits := cs\<rparr>, other r := b\<lparr>ac_mTheirCircuits := ds\<rparr>),
                lk_prng := upd2 (lk_prng l) r t prng, lk_sent := upd2 (lk_sent l) r t sent,
                lk_recvd := upd2 (lk_recvd l) (other r) t recvd\<rparr>))))"

definition open_link :: "(u8 list \<Rightarrow> u8 list) \<Rightarrow> role \<times> nat \<Rightarrow> links \<Rightarrow> links result" where
  "open_link sha x l =
     (let (r, t) = x; a = lk_actor l r; b = lk_actor l (other r);
          (cs, msgs, dummy, proof) = initSend_open a t
      in bind_r (initRecv_open sha b t msgs dummy proof) (\<lambda>ds.
         Inr (l\<lparr>lk_actor := (lk_actor l)(r := a\<lparr>ac_mMyCircuits := cs\<rparr>, other r := b\<lparr>ac_mTheirCircuits := ds\<rparr>)\<rparr>)))"

text \<open>The messages of the buckets wait in the channel.\<close>

definition send_buckets_link :: "role \<times> nat \<Rightarrow> links \<Rightarrow> links result" where
  "send_buckets_link x l =
     (let (r, t) = x; a = lk_actor l r
      in bind_r (initSend_buckets a t (numRecvOTsPer a) (lk_prng l r t) (lk_sent l r t)) (\<lambda>(bks, msgs, dummy).
         Inr (l\<lparr>lk_actor := (lk_actor l)(r := a\<lparr>ac_mBuckets := bks\<rparr>), lk_msgs := upd2 (lk_msgs l) r t msgs,
                lk_dummy := upd2 (lk_dummy l) r t dummy\<rparr>)))"

definition recv_buckets_link ::
  "(prng \<Rightarrow> nat list \<Rightarrow> nat list \<times> prng) \<Rightarrow> (role \<Rightarrow> (block \<times> block) list) \<Rightarrow> role \<times> nat \<Rightarrow> links \<Rightarrow> links result" where
  "recv_buckets_link shuffle seeds x l =
     (let (r, t) = x; a = lk_actor l r
      in bind_r (initRecv_buckets shuffle a t (numSendOTsPer a) (SetSeed (snd (seeds r ! t))) (lk_recvd l r t)
                   (lk_msgs l (other r) t) (lk_dummy l (other r) t)) (\<lambda>bks.
         Inr (l\<lparr>lk_actor := (lk_actor l)(r := a\<lparr>ac_mBuckets := bks\<rparr>)\<rparr>)))"

definition send_kprobe_link :: "role \<times> nat \<Rightarrow> links \<Rightarrow> links result" where
  "send_kprobe_link x l =
     (let (r, t) = x; a = lk_actor l r
      in bind_r (initSend_kprobe a t) (\<lambda>(bks, msgs).
         Inr (l\<lparr>lk_actor := (lk_actor l)(r := a\<lparr>ac_mBuckets := bks\<rparr>), lk_msgs := upd2 (lk_msgs l) r t msgs\<rparr>)))"

definition recv_kprobe_link :: "(u8 list \<Rightarrow> u8 list) \<Rightarrow> role \<times> nat \<Rightarrow> links \<Rightarrow> links result" where
  "recv_kprobe_link sha x l =
     (let (r, t) = x; a = lk_actor l r
      in bind_r (initRecv_kprobe sha a t (lk_msgs l (other r) t)) (\<lambda>bks.
         Inr (l\<lparr>lk_actor := (lk_actor l)(r := a\<lparr>ac_mBuckets := bks\<rparr>)\<rparr>)))"

text \<open>The whole phase; \<open>ord k\<close> is the order of the links in its part \<open>k\<close>.\<close>

definition offline_phase ::
  "(u8 list \<Rightarrow> u8 list) \<Rightarrow> (prng \<Rightarrow> nat list \<Rightarrow> nat list \<times> prng) \<Rightarrow> (role \<Rightarrow> (block \<times> block) list)
   \<Rightarrow> (nat \<Rightarrow> (role \<times> nat) list) \<Rightarrow> links \<Rightarrow> links result" where
  "offline_phase sha shuffle seeds ord l =
     bind_r (fold_r (setup_link sha seeds) (ord 0) l) (\<lambda>l.
     bind_r (fold_r (open_link sha) (ord 1) l) (\<lambda>l.
     bind_r (fold_r send_buckets_link (ord 2) l) (\<lambda>l.
     bind_r (fold_r (recv_buckets_link shuffle seeds) (ord 3) l) (\<lambda>l.
     bind_r (fold_r send_kprobe_link (ord 4) l) (fold_r (recv_kprobe_link sha) (ord 5))))))"

section \<open>Two actors after the parameters are checked\<close>

text \<open>Sizes and agreements: what \<open>init\<close> has established on both sides when its threads start.\<close>

definition actors_ok ::
  "(u8 list \<Rightarrow> u8 list) \<Rightarrow> (role \<Rightarrow> DualExActor) \<Rightarrow> Circuit \<Rightarrow> (role \<Rightarrow> KProbeMatrix) \<Rightarrow> nat \<Rightarrow> nat \<Rightarrow> nat \<Rightarrow> nat
   \<Rightarrow> nat \<Rightarrow> nat   \<Rightarrow> block list \<Rightarrow> bool" where
  "actors_ok sha C cir K E B Op N T w ix \<longleftrightarrow>
     digest20 sha \<and> circuit_wf cir \<and> garblable (mGates cir) \<and> package_sendable cir ix
     \<and> 0 < T \<and> 0 < B \<and> N = Op + B * E \<and> kp_mEncodingSize (K First) = kp_mEncodingSize (K Second)
     \<and> length (mOutputs cir) * 2 \<le> length ix \<and> bv_fits (length (mOutputs cir)) \<and> B * w < 2 ^ 64
     \<and> (\<forall>r. ac_mCircuit (C r) = cir \<and> ac_mRole (C r) = r \<and> ac_mMyKProbe (C r) = K r \<and> ac_mTheirKProbe (C r) = K (other r)
          \<and> ac_mNumExe (C r) = E \<and> ac_mBucketSize (C r) = B \<and> ac_mNumCircuits (C r) = N \<and> ac_mNumInitThreads (C r) = T
          \<and> ac_mNumOpened (C r) = Op
          \<and> ac_mPsiSecParam (C r) = w \<and> ac_mIndexArray (C r) = ix
          \<and> ix = index_array (index_size (C r)) \<and> index_size (C r) < 2 ^ 32
          \<and> work_fits (C r) (kp_mEncodingSize (K r))
          \<and> kp_wf (K r) \<and> length (kp_mMtx (K r)) = Inputs cir r
          \<and> ac_mTheirCncSets (C r) = ac_mMyCnCSets (C (other r))
          \<and> (\<exists>seed. ac_mTheirCncSets (C r) = cnc_sets Op N seed)
          \<and> length (ac_mBuckets (C r)) = E \<and> length (ac_mMyCircuits (C r)) = N \<and> length (ac_mTheirCircuits (C r)) = N
          \<and> (\<forall>p\<in>set (ac_mMyCircuits (C r)). bv_wf (cp_mOTRecvChoices p))
          \<and> (\<forall>t<T. ot_agreed (ac_mOTSend (C (other r)) ! t) (ac_mOTRecv (C r) ! t) (numRecvOTsPer (C r))))"

text \<open>The actors while the phase runs: only circuits and buckets change.\<close>

definition act ::
  "(role \<Rightarrow> DualExActor) \<Rightarrow> (role \<Rightarrow> CircuitPackage list) \<Rightarrow> (role \<Rightarrow> CommCircuitPackage list) \<Rightarrow> (role \<Rightarrow> Bucket list) \<Rightarrow> role \<Rightarrow> DualExActor" where
  "act C m c bk r = (C r)\<lparr>ac_mMyCircuits := m r, ac_mTheirCircuits := c r, ac_mBuckets := bk r\<rparr>"

lemma act_fields [simp]:
  "ac_mCircuit (act C m c bk r) = ac_mCircuit (C r)" "ac_mRole (act C m c bk r) = ac_mRole (C r)"
  "ac_mMyKProbe (act C m c bk r) = ac_mMyKProbe (C r)" "ac_mTheirKProbe (act C m c bk r) = ac_mTheirKProbe (C r)"
  "ac_mNumExe (act C m c bk r) = ac_mNumExe (C r)" "ac_mBucketSize (act C m c bk r) = ac_mBucketSize (C r)"
  "ac_mNumCircuits (act C m c bk r) = ac_mNumCircuits (C r)" "ac_mNumInitThreads (act C m c bk r) = ac_mNumInitThreads (C r)"
  "ac_mPsiSecParam (act C m c bk r) = ac_mPsiSecParam (C r)" "ac_mIndexArray (act C m c bk r) = ac_mIndexArray (C r)"
  "ac_mTheirCncSets (act C m c bk r) = ac_mTheirCncSets (C r)" "ac_mMyCnCSets (act C m c bk r) = ac_mMyCnCSets (C r)"
  "ac_mOTSend (act C m c bk r) = ac_mOTSend (C r)" "ac_mOTRecv (act C m c bk r) = ac_mOTRecv (C r)"
  "ac_mNumOpened (act C m c bk r) = ac_mNumOpened (C r)"
  "ac_mMyCircuits (act C m c bk r) = m r" "ac_mTheirCircuits (act C m c bk r) = c r" "ac_mBuckets (act C m c bk r) = bk r"
  by (simp_all add: act_def)

lemma act_derived [simp]:
  "thread_start (act C m c bk r) t = thread_start (C r) t" "thread_circuits (act C m c bk r) t = thread_circuits (C r) t"
  "opened_circuits (act C m c bk r) t s = opened_circuits (C r) t s"
  "ots_per_psi (act C m c bk r) = ots_per_psi (C r)" "numRecvOTsPer (act C m c bk r) = numRecvOTsPer (C r)"
  "numSendOTsPer (act C m c bk r) = numSendOTsPer (C r)"
  "actor_sizes (act C m c bk r) (act C m c bk q) = actor_sizes (C r) (C q)"
  "partners (act C m c bk r) (act C m c bk q) = partners (C r) (C q)"
  "circuit_pair sha (act C m c bk r) (act C m c bk q) = circuit_pair sha (C r) (C q)"
  by (simp_all add: thread_start_def thread_circuits_def opened_circuits_def ots_per_psi_def numRecvOTsPer_def numSendOTsPer_def
      ots_per_thread_def actor_sizes_def partners_def circuit_pair_def masks_size_def fun_eq_iff)

lemma act_update:
  "(act C m c bk)(r := (act C m c bk r)\<lparr>ac_mMyCircuits := cs\<rparr>, other r := (act C m c bk (other r))\<lparr>ac_mTheirCircuits := ds\<rparr>)
   = act C (m(r := cs)) (c(other r := ds)) bk"
proof (rule ext)
  fix q
  have "other r \<noteq> r" by (cases r) simp_all
  then show "((act C m c bk)(r := (act C m c bk r)\<lparr>ac_mMyCircuits := cs\<rparr>, other r := (act C m c bk (other r))\<lparr>ac_mTheirCircuits := ds\<rparr>)) q
      = act C (m(r := cs)) (c(other r := ds)) bk q"
    by (cases "q = r"; cases "q = other r") (simp_all add: act_def)
qed

lemma act_update_buckets: "(act C m c bk)(r := (act C m c bk r)\<lparr>ac_mBuckets := bks\<rparr>) = act C m c (bk(r := bks))"
  by (rule ext) (simp add: act_def)

lemma other_neq [simp]: "other r \<noteq> r" "r \<noteq> other r"
  by (cases r; simp)+

lemma actors_ok_partners: "actors_ok sha C cir K E B Op N T w ix \<Longrightarrow> partners (C r) (C (other r))"
  by (cases r) (auto simp: actors_ok_def partners_def)

text \<open>The index array is long enough for everything \<open>init\<close> uses it for.\<close>

lemma actors_ok_sizes:
  assumes "actors_ok sha C cir K E B Op N T w ix"
  shows "actor_sizes (C r) (C (other r))"
proof -
  have a: "circuit_wf cir" "garblable (mGates cir)" "package_sendable cir ix" "ac_mCircuit (C r) = cir" "ac_mRole (C r) = r" "ac_mMyKProbe (C r) = K r"
    "ac_mMyKProbe (C (other r)) = K (other r)" "ac_mTheirKProbe (C r) = K (other r)" "ac_mIndexArray (C r) = ix"
    and ix: "ix = index_array (index_size (C r))" "index_size (C r) < 2 ^ 32"
    and k: "\<And>q. kp_wf (K q) \<and> length (kp_mMtx (K q)) = Inputs cir q"
    using assms unfolding actors_ok_def by blast+
  have l: "length ix = index_size (C r)" by (simp add: ix(1) index_array_def)
  have n: "mNonXorGateCount cir \<le> length (mGates cir)" "InputWireCount cir \<le> mWireCount cir"
    using a(1) by (simp_all add: circuit_wf_def)
  have "mWireCount cir \<le> length ix" "length (mGates cir) * 2 \<le> length ix" "kp_mEncodingSize (K (other r)) \<le> length ix"
    by (simp_all add: l index_size_def a)
  then show ?thesis
    using a k [of r] k [of "other r"] ix(2) n l by (simp add: actor_sizes_def package_sizes_def masks_size_def)
qed

lemma actors_ok_threads:
  assumes "actors_ok sha C cir K E B Op N T w ix" and "t < T"
  shows "thread_start (C r) (t + 1) \<le> N"
    and "kp_mEncodingSize (K q) * length (thread_circuits (C r) t) \<le> numRecvOTsPer (C r)"
    and "numSendOTsPer (C (other r)) = numRecvOTsPer (C r)" and "ots_per_psi (C r) = w * B"
    and "kp_mEncodingSize (K q) * length (thread_circuits (C r) t) + w * B * length (thread_buckets (C r) t) \<le> numRecvOTsPer (C r)"
    and "thread_circuits (C (other r)) t = thread_circuits (C r) t"
    and "thread_start (C r) t \<le> thread_start (C r) (t + 1)"
proof -
  have a: "ac_mNumInitThreads (C r) = T" "ac_mNumCircuits (C r) = N" "length (ac_mBuckets (C r)) = ac_mNumExe (C r)" "0 < T"
    "ac_mMyKProbe (C r) = K r" "B * w < 2 ^ 64" "ac_mBucketSize (C r) = B" "ac_mPsiSecParam (C r) = w"
    using assms(1) by (simp_all add: actors_ok_def)
  have wf: "work_fits (C r) (kp_mEncodingSize (K r))" using assms(1) by (simp add: actors_ok_def)
  have e: "kp_mEncodingSize (K q) = kp_mEncodingSize (K r)" using assms(1) by (cases q; cases r) (simp_all add: actors_ok_def)
  show "thread_start (C r) (t + 1) \<le> N"
    using thread_start_mono [OF wf, of T "t + 1"] thread_start_ends(2) [OF wf] assms(2) a by simp
  show "thread_start (C r) t \<le> thread_start (C r) (t + 1)"
    using thread_start_mono [OF wf, of "t + 1" t] assms(2) a by simp
  show psi: "ots_per_psi (C r) = w * B" using a by (simp add: ots_per_psi_def Psi_PsiOTCount_def mult.commute)
  show "numSendOTsPer (C (other r)) = numRecvOTsPer (C r)"
    using actors_ok_partners [OF assms(1), of r]
    by (simp add: partners_def numSendOTsPer_def numRecvOTsPer_def ots_per_thread_def ots_per_psi_def)
  show bud: "kp_mEncodingSize (K q) * length (thread_circuits (C r) t) + w * B * length (thread_buckets (C r) t) \<le> numRecvOTsPer (C r)"
    using ot_budget [OF _ wf a(3) order_refl order_refl, of t] assms(2) a e psi by (simp add: numRecvOTsPer_def)
  then show "kp_mEncodingSize (K q) * length (thread_circuits (C r) t) \<le> numRecvOTsPer (C r)" by simp
  show "thread_circuits (C (other r)) t = thread_circuits (C r) t" by (rule partners_thread(2) [OF actors_ok_partners [OF assms(1)]])
qed

lemma thread_circuits_disjoint:
  assumes wf: "work_fits a enc" and "t < ac_mNumInitThreads a" and "u < ac_mNumInitThreads a"
    and "i \<in> set (thread_circuits a t)" and "i \<in> set (thread_circuits a u)"
  shows "t = u"
proof (rule ccontr)
  assume "t \<noteq> u"
  then consider "t + 1 \<le> u" | "u + 1 \<le> t" by linarith
  then show False
  proof cases
    case 1 then show False using assms thread_start_mono [OF wf _ 1] by (simp add: thread_circuits_def)
  next
    case 2 then show False using assms thread_start_mono [OF wf _ 2] by (simp add: thread_circuits_def)
  qed
qed

lemma thread_circuits_cover:
  assumes "work_fits a enc" and "0 < ac_mNumInitThreads a" and "i < ac_mNumCircuits a"
  obtains t where "t < ac_mNumInitThreads a" and "i \<in> set (thread_circuits a t)"
proof -
  have "i \<in> set (concat (map (thread_circuits a) [0..<ac_mNumInitThreads a]))"
    unfolding thread_circuits_concat [OF assms(1,2)] using assms(3) by simp
  then show thesis using that by auto
qed

lemma fold_r_set:
  assumes "distinct xs" and "I {} s"
    and "\<And>L x s. x \<in> set xs \<Longrightarrow> x \<notin> L \<Longrightarrow> L \<subseteq> set xs \<Longrightarrow> I L s \<Longrightarrow> \<exists>s'. f x s = Inr s' \<and> I (insert x L) s'"
  shows "\<exists>s'. fold_r f xs s = Inr s' \<and> I (set xs) s'"
proof -
  have "\<exists>s'. fold_r f xs s = Inr s' \<and> I (set (take (length xs) xs)) s'"
  proof (rule fold_r_invariant [where I = "\<lambda>i. I (set (take i xs))"])
    fix i s assume i: "i < length xs" and I: "I (set (take i xs)) s"
    have "xs ! i \<notin> set (take i xs)" using assms(1) i by (simp add: in_set_conv_nth nth_eq_iff_index_eq)
    then show "\<exists>s'. f (xs ! i) s = Inr s' \<and> I (set (take (Suc i) xs)) s'"
      using assms(3) [of "xs ! i" "set (take i xs)" s] I i set_take_subset [of i xs] by (simp add: take_Suc_conv_app_nth)
  qed (simp add: assms(2))
  then show ?thesis by simp
qed

section \<open>The setup phase\<close>

definition link_ready ::
  "(u8 list \<Rightarrow> u8 list) \<Rightarrow> (role \<Rightarrow> DualExActor) \<Rightarrow> (role \<Rightarrow> CircuitPackage list) \<Rightarrow> (role \<Rightarrow> CommCircuitPackage list) \<Rightarrow> links
   \<Rightarrow> role \<Rightarrow> nat \<Rightarrow> bool" where
  "link_ready sha C m c l r t \<longleftrightarrow>
     (\<forall>i\<in>set (thread_circuits (C r) t). circuit_pair sha (C r) (C (other r)) (m r ! i) (c (other r) ! i))
     \<and> lk_sent l r t = kp_mEncodingSize (ac_mMyKProbe (C r)) * length (thread_circuits (C r) t)
     \<and> lk_recvd l (other r) t = kp_mEncodingSize (ac_mMyKProbe (C r)) * length (thread_circuits (C r) t)"

definition setup_inv ::
  "(u8 list \<Rightarrow> u8 list) \<Rightarrow> (role \<Rightarrow> DualExActor) \<Rightarrow> nat \<Rightarrow> nat \<Rightarrow> (role \<times> nat) set \<Rightarrow> links \<Rightarrow> bool" where
  "setup_inv sha C N T L l \<longleftrightarrow>
     (\<exists>m c. lk_actor l = act C m c (\<lambda>r. ac_mBuckets (C r))
        \<and> (\<forall>r. length (m r) = N \<and> length (c r) = N
             \<and> (\<forall>t<T. if (r, t) \<in> L then link_ready sha C m c l r t
                       else \<forall>i\<in>set (thread_circuits (C r) t). m r ! i = ac_mMyCircuits (C r) ! i)))"

lemma setup_link_step:
  assumes ok: "actors_ok sha C cir K E B Op N T w ix" and t: "t < T" and n: "(r, t) \<notin> L" and I: "setup_inv sha C N T L l"
  shows "\<exists>l'. setup_link sha seeds (r, t) l = Inr l' \<and> setup_inv sha C N T (insert (r, t) L) l'"
proof -
  from I obtain m c where l: "lk_actor l = act C m c (\<lambda>r. ac_mBuckets (C r))"
    and len: "\<And>q. length (m q) = N" "\<And>q. length (c q) = N"
    and rd: "\<And>q u. u < T \<Longrightarrow> if (q, u) \<in> L then link_ready sha C m c l q u
                       else \<forall>i\<in>set (thread_circuits (C q) u). m q ! i = ac_mMyCircuits (C q) ! i"
    unfolding setup_inv_def by blast
  let ?A = "act C m c (\<lambda>r. ac_mBuckets (C r))" and ?tc = "thread_circuits (C r) t" and ?n = "numRecvOTsPer (C r)"
  let ?e = "kp_mEncodingSize (ac_mMyKProbe (C r)) * length (thread_circuits (C r) t)"
  note th = actors_ok_threads [OF ok t, of r]
  have C: "digest20 sha" "ac_mMyKProbe (C r) = K r" "length (ac_mMyCircuits (C r)) = N"
      "ot_agreed (ac_mOTSend (C (other r)) ! t) (ac_mOTRecv (C r) ! t) ?n"
      "\<forall>p\<in>set (ac_mMyCircuits (C r)). bv_wf (cp_mOTRecvChoices p)"
      "work_fits (C r) (kp_mEncodingSize (K r))" "ac_mNumInitThreads (C r) = T"
    using ok t by (simp_all add: actors_ok_def)
  have "bv_wf (cp_mOTRecvChoices (m r ! i))" if "i \<in> set ?tc" for i
  proof -
    have "i < N" using that th(1) by (simp add: thread_circuits_def)
    then show ?thesis using rd [OF t, of r] n that C(3,5) by simp
  qed
  then obtain cs msgs g' ds where s:
    "initSend_setup sha (?A r) t ?n (SetSeed (fst (seeds r ! t))) = Inr (cs, msgs, g', ?e)"
    "initRecv_setup (?A (other r)) t ?n msgs = Inr (ds, ?e)" "length cs = N" "length ds = N"
    "\<forall>i<N. i \<notin> set ?tc \<longrightarrow> cs ! i = m r ! i" "\<forall>i<N. i \<notin> set ?tc \<longrightarrow> ds ! i = c (other r) ! i"
    "\<forall>i\<in>set ?tc. circuit_pair sha (C r) (C (other r)) (cs ! i) (ds ! i)"
    using setup_thread [OF C(1), of "?A r" "?A (other r)" t ?n "SetSeed (fst (seeds r ! t))"]
      actors_ok_partners [OF ok, of r] actors_ok_sizes [OF ok, of r] C(2,4) th(1,2,7) len by auto
  define l' where "l' = l\<lparr>lk_actor := act C (m(r := cs)) (c(other r := ds)) (\<lambda>r. ac_mBuckets (C r)),
      lk_prng := upd2 (lk_prng l) r t g', lk_sent := upd2 (lk_sent l) r t ?e, lk_recvd := upd2 (lk_recvd l) (other r) t ?e\<rparr>"
  have "setup_link sha seeds (r, t) l = Inr l'"
    using s(1,2) th(3) by (simp add: setup_link_def l act_update l'_def)
  moreover have each: "if (q, u) \<in> insert (r, t) L then link_ready sha C (m(r := cs)) (c(other r := ds)) l' q u
      else \<forall>i\<in>set (thread_circuits (C q) u). (m(r := cs)) q ! i = ac_mMyCircuits (C q) ! i" if u: "u < T" for q u
  proof (cases "q = r")
    case True
    have bd: "i < N" if "i \<in> set (thread_circuits (C r) u)" for i
      using that actors_ok_threads(1) [OF ok u, of r] by (simp add: thread_circuits_def)
    show ?thesis
    proof (cases "u = t")
      case True
      then show ?thesis using s(7) \<open>q = r\<close> by (simp add: link_ready_def l'_def)
    next
      case False
      then have "\<forall>i\<in>set (thread_circuits (C r) u). cs ! i = m r ! i \<and> ds ! i = c (other r) ! i"
        using s(5,6) bd thread_circuits_disjoint [OF C(6) _ _ _, of u t] C(7) u t by (metis (no_types))
      then have "link_ready sha C (m(r := cs)) (c(other r := ds)) l' r u" if "link_ready sha C m c l r u"
        using that \<open>u \<noteq> t\<close> unfolding link_ready_def l'_def by simp
      moreover have "\<forall>i\<in>set (thread_circuits (C r) u). cs ! i = ac_mMyCircuits (C r) ! i"
        if "\<forall>i\<in>set (thread_circuits (C r) u). m r ! i = ac_mMyCircuits (C r) ! i"
        using that \<open>\<forall>i\<in>set (thread_circuits (C r) u). cs ! i = m r ! i \<and> ds ! i = c (other r) ! i\<close> by simp
      ultimately show ?thesis using rd [OF u, of r] False True by (cases "(r, u) \<in> L") simp_all
    qed
  next
    case False
    then have "q = other r" by (cases q; cases r) simp_all
    then show ?thesis using rd [OF u, of q] by (auto simp: link_ready_def l'_def split: if_splits)
  qed
  moreover have "setup_inv sha C N T (insert (r, t) L) l'"
    unfolding setup_inv_def
  proof (intro exI conjI allI impI)
    show "lk_actor l' = act C (m(r := cs)) (c(other r := ds)) (\<lambda>r. ac_mBuckets (C r))" by (simp add: l'_def)
    show "length ((m(r := cs)) q) = N" "length ((c(other r := ds)) q) = N" for q using len s(3,4) by simp_all
  qed (rule each)
  ultimately show ?thesis by blast
qed

lemma setup_phase:
  assumes ok: "actors_ok sha C cir K E B Op N T w ix" and ls: "distinct ls" "set ls = UNIV \<times> {..<T}" and l: "lk_actor l = C"
  shows "\<exists>l' m c. fold_r (setup_link sha seeds) ls l = Inr l' \<and> lk_actor l' = act C m c (\<lambda>r. ac_mBuckets (C r))
     \<and> (\<forall>r. length (m r) = N \<and> length (c r) = N)
     \<and> (\<forall>r. \<forall>i<N. circuit_pair sha (C r) (C (other r)) (m r ! i) (c (other r) ! i))
     \<and> (\<forall>r. \<forall>t<T. link_ready sha C m c l' r t)"
proof -
  have "act C (\<lambda>r. ac_mMyCircuits (C r)) (\<lambda>r. ac_mTheirCircuits (C r)) (\<lambda>r. ac_mBuckets (C r)) = C" by (rule ext) (simp add: act_def)
  then have "setup_inv sha C N T {} l"
    unfolding setup_inv_def using ok l
    by (intro exI [of _ "\<lambda>r. ac_mMyCircuits (C r)"] exI [of _ "\<lambda>r. ac_mTheirCircuits (C r)"]) (simp add: actors_ok_def)
  moreover have "\<exists>l'. setup_link sha seeds x s = Inr l' \<and> setup_inv sha C N T (insert x L) l'"
    if "x \<in> set ls" "x \<notin> L" "setup_inv sha C N T L s" for x L s
    using setup_link_step [OF ok, of "snd x" "fst x" L s seeds] that ls(2) by (cases x) auto
  ultimately obtain l' where l': "fold_r (setup_link sha seeds) ls l = Inr l'" "setup_inv sha C N T (set ls) l'"
    using fold_r_set [OF ls(1), where I = "setup_inv sha C N T" and f = "setup_link sha seeds" and s = l] by blast
  from l'(2) obtain m c where m: "lk_actor l' = act C m c (\<lambda>r. ac_mBuckets (C r))" "\<forall>r. length (m r) = N \<and> length (c r) = N"
    "\<forall>r. \<forall>t<T. link_ready sha C m c l' r t"
    unfolding setup_inv_def ls(2) by auto
  have "circuit_pair sha (C r) (C (other r)) (m r ! i) (c (other r) ! i)" if i: "i < N" for r i
  proof -
    have T: "0 < ac_mNumInitThreads (C r)" "ac_mNumInitThreads (C r) = T" "ac_mNumCircuits (C r) = N"
      and wf: "work_fits (C r) (kp_mEncodingSize (K r))" using ok by (simp_all add: actors_ok_def)
    obtain t where "t < T" "i \<in> set (thread_circuits (C r) t)" using thread_circuits_cover [OF wf T(1), of i] i T(2,3) by auto
    then show ?thesis using m(3) by (simp add: link_ready_def)
  qed
  then show ?thesis using l'(1) m by blast
qed

section \<open>The openings\<close>

definition opened :: "(role \<Rightarrow> DualExActor) \<Rightarrow> role \<Rightarrow> nat list" where
  "opened C r = fst (ac_mTheirCncSets (C r))"

definition open_inv ::
  "(role \<Rightarrow> DualExActor) \<Rightarrow> nat \<Rightarrow> nat \<Rightarrow> (role \<Rightarrow> CircuitPackage list) \<Rightarrow> (role \<Rightarrow> CommCircuitPackage list) \<Rightarrow> links
   \<Rightarrow> (role \<times> nat) set \<Rightarrow> links \<Rightarrow> bool" where
  "open_inv C N T m c l0 L l \<longleftrightarrow>
     (\<forall>x\<in>L. snd x < T)
     \<and> (\<exists>m' c'. l = l0\<lparr>lk_actor := act C m' c' (\<lambda>r. ac_mBuckets (C r))\<rparr>
        \<and> (\<forall>r. length (m' r) = N \<and> length (c' r) = N
             \<and> (\<forall>i<N. (\<forall>t. (r, t) \<in> L \<longrightarrow> i \<notin> set (opened_circuits (C r) t (opened C r)))
                  \<longrightarrow> m' r ! i = m r ! i \<and> c' (other r) ! i = c (other r) ! i)))"

lemma open_link_step:
  assumes ok: "actors_ok sha C cir K E B Op N T w ix" and t: "t < T" and n: "(r, t) \<notin> L" and I: "open_inv C N T m c l0 L l"
    and pp: "\<forall>i<N. circuit_pair sha (C r) (C (other r)) (m r ! i) (c (other r) ! i)"
  shows "\<exists>l'. open_link sha (r, t) l = Inr l' \<and> open_inv C N T m c l0 (insert (r, t) L) l'"
proof -
  have LT: "u < T" if "(q, u) \<in> L" for q u using I that by (fastforce simp: open_inv_def)
  have wf: "work_fits (C r) (kp_mEncodingSize (K r))" and nT: "ac_mNumInitThreads (C r) = T" using ok by (simp_all add: actors_ok_def)
  from I obtain m' c' where l: "l = l0\<lparr>lk_actor := act C m' c' (\<lambda>r. ac_mBuckets (C r))\<rparr>"
    and len: "\<And>q. length (m' q) = N" "\<And>q. length (c' q) = N"
    and un: "\<And>q i. i < N \<Longrightarrow> \<forall>t. (q, t) \<in> L \<longrightarrow> i \<notin> set (opened_circuits (C q) t (opened C q))
             \<Longrightarrow> m' q ! i = m q ! i \<and> c' (other q) ! i = c (other q) ! i"
    unfolding open_inv_def by blast
  let ?A = "act C m' c' (\<lambda>r. ac_mBuckets (C r))" and ?os = "opened_circuits (C r) t (opened C r)"
  have k: "\<exists>seed. ac_mTheirCncSets (C r) = cnc_sets Op N seed"
    using ok unfolding actors_ok_def by blast
  have C: "digest20 sha" "actor_sizes (C r) (C (other r))" "actor_sizes (C (other r)) (C r)" "Op \<le> N"
    using ok actors_ok_sizes [OF ok, of r] actors_ok_sizes [OF ok, of "other r"] by (simp_all add: actors_ok_def)
  from k obtain seed where "ac_mTheirCncSets (C r) = cnc_sets Op N seed" by blast
  then have os: "distinct (opened C r)" "\<forall>i\<in>set (opened C r). i < N"
    using mset_partition_sets [OF cnc_sets_partition(3) [OF C(4)], of seed] by (auto simp: opened_def)
  have "circuit_pair sha (C r) (C (other r)) (m' r ! i) (c' (other r) ! i)" if i: "i \<in> set ?os" for i
  proof -
    have iN: "i < N" using i os(2) by (simp add: opened_circuits_def)
    have "i \<notin> set (opened_circuits (C r) u (opened C r))" if "(r, u) \<in> L" for u
    proof
      assume "i \<in> set (opened_circuits (C r) u (opened C r))"
      then have "i \<in> set (thread_circuits (C r) u)" "i \<in> set (thread_circuits (C r) t)"
        using i by (simp_all add: opened_circuits_def thread_circuits_def)
      then have "u = t" by (rule thread_circuits_disjoint [OF wf, rotated 2]) (use t LT [OF that] nT in simp_all)
      then show False using that n by simp
    qed
    then show ?thesis using un [OF iN, of r] pp iN by simp
  qed
  then obtain cs msgs pf ds where s: "initSend_open (?A r) t = (cs, msgs, dummy_message, ByteArray pf)"
    "initRecv_open sha (?A (other r)) t msgs dummy_message (ByteArray pf) = Inr ds" "length cs = N" "length ds = N"
    "\<forall>i<N. i \<notin> set ?os \<longrightarrow> cs ! i = m' r ! i" "\<forall>i<N. i \<notin> set ?os \<longrightarrow> ds ! i = c' (other r) ! i"
    using open_thread [OF C(1), of "?A r" "?A (other r)" t] actors_ok_partners [OF ok, of r] C(2,3) os len
    by (auto simp: opened_def)
  let ?l = "l0\<lparr>lk_actor := act C (m'(r := cs)) (c'(other r := ds)) (\<lambda>r. ac_mBuckets (C r))\<rparr>"
  have "open_link sha (r, t) l = Inr ?l" using s(1,2) by (simp add: open_link_def l act_update)
  moreover have each: "(m'(r := cs)) q ! i = m q ! i \<and> (c'(other r := ds)) (other q) ! i = c (other q) ! i"
    if i: "i < N" and u: "\<forall>t'. (q, t') \<in> insert (r, t) L \<longrightarrow> i \<notin> set (opened_circuits (C q) t' (opened C q))" for q i
  proof (cases "q = r")
    case True
    then show ?thesis using un [OF i, of r] u s(5,6) i by simp
  next
    case False
    then have "q = other r" by (cases q; cases r) simp_all
    then show ?thesis using un [OF i, of q] u by simp
  qed
  moreover have "open_inv C N T m c l0 (insert (r, t) L) ?l"
    unfolding open_inv_def
  proof (intro exI conjI allI impI)
    show "\<forall>x\<in>insert (r, t) L. snd x < T" using LT t by auto
    show "?l = l0\<lparr>lk_actor := act C (m'(r := cs)) (c'(other r := ds)) (\<lambda>r. ac_mBuckets (C r))\<rparr>" by (rule refl)
    show "length ((m'(r := cs)) q) = N" "length ((c'(other r := ds)) q) = N" for q using len s(3,4) by simp_all
  qed (use each in blast)+
  ultimately show ?thesis by blast
qed

text \<open>The circuits that are kept are as the setup left them.\<close>

lemma open_phase:
  assumes ok: "actors_ok sha C cir K E B Op N T w ix" and ls: "distinct ls" "set ls = UNIV \<times> {..<T}"
    and l: "lk_actor l = act C m c (\<lambda>r. ac_mBuckets (C r))" "\<forall>r. length (m r) = N \<and> length (c r) = N"
    and pp: "\<forall>r. \<forall>i<N. circuit_pair sha (C r) (C (other r)) (m r ! i) (c (other r) ! i)"
  shows "\<exists>m' c'. fold_r (open_link sha) ls l = Inr (l\<lparr>lk_actor := act C m' c' (\<lambda>r. ac_mBuckets (C r))\<rparr>)
     \<and> (\<forall>r. length (m' r) = N \<and> length (c' r) = N)
     \<and> (\<forall>r. \<forall>i<N. i \<notin> set (opened C r) \<longrightarrow> circuit_pair sha (C r) (C (other r)) (m' r ! i) (c' (other r) ! i))"
proof -
  have "open_inv C N T m c l {} l"
    unfolding open_inv_def using l by (intro conjI exI [of _ m] exI [of _ c]) simp_all
  moreover have "\<exists>l'. open_link sha x s = Inr l' \<and> open_inv C N T m c l (insert x L) l'"
    if "x \<in> set ls" "x \<notin> L" "open_inv C N T m c l L s" for x L s
    using open_link_step [OF ok, of "snd x" "fst x" L m c l s] that ls(2) pp by (cases x) auto
  ultimately obtain l' where l': "fold_r (open_link sha) ls l = Inr l'" "open_inv C N T m c l (set ls) l'"
    using fold_r_set [OF ls(1), where I = "open_inv C N T m c l" and f = "open_link sha" and s = l] by blast
  from l'(2) obtain m' c' where m: "l' = l\<lparr>lk_actor := act C m' c' (\<lambda>r. ac_mBuckets (C r))\<rparr>"
    "\<forall>r. length (m' r) = N \<and> length (c' r) = N"
    "\<forall>r. \<forall>i<N. (\<forall>t. (r, t) \<in> set ls \<longrightarrow> i \<notin> set (opened_circuits (C r) t (opened C r)))
                  \<longrightarrow> m' r ! i = m r ! i \<and> c' (other r) ! i = c (other r) ! i"
    unfolding open_inv_def by blast
  have "circuit_pair sha (C r) (C (other r)) (m' r ! i) (c' (other r) ! i)" if "i < N" "i \<notin> set (opened C r)" for r i
    using m(3) pp that by (simp add: opened_circuits_def)
  then show ?thesis using l'(1) m(1,2) by blast
qed

section \<open>The buckets\<close>

text \<open>A part in which the thread \<open>t\<close> of \<open>r\<close> turns each of its buckets into \<open>new r b\<close>; \<open>J\<close> holds throughout and
  \<open>D\<close> from then on.\<close>

lemma bucket_phase:
  assumes ls: "distinct ls" "set ls = UNIV \<times> {..<T}" and T: "0 < T" "\<And>r. ac_mNumInitThreads (C r) = T" "\<And>r. length (ac_mBuckets (C r)) = E"
    and l0: "lk_actor l0 = act C m c old" "\<And>r. length (old r) = E" "J l0"
    and step: "\<And>r t l bks. t < T \<Longrightarrow> lk_actor l = act C m c bks \<Longrightarrow> (\<And>q. length (bks q) = E) \<Longrightarrow> J l
      \<Longrightarrow> \<forall>b\<in>set (thread_buckets (C r) t). bks r ! b = old r ! b
      \<Longrightarrow> \<exists>l' bk. f (r, t) l = Inr l' \<and> lk_actor l' = act C m c (bks(r := bk)) \<and> length bk = E
         \<and> (\<forall>i<E. i \<notin> set (thread_buckets (C r) t) \<longrightarrow> bk ! i = bks r ! i)
         \<and> (\<forall>k<length (thread_buckets (C r) t). bk ! (thread_buckets (C r) t ! k) = new r (thread_buckets (C r) t ! k))
         \<and> J l' \<and> D r t l' \<and> (\<forall>q u. (q, u) \<noteq> (r, t) \<longrightarrow> D q u l \<longrightarrow> D q u l')"
  shows "\<exists>l'. fold_r f ls l0 = Inr l' \<and> lk_actor l' = act C m c (\<lambda>r. map (new r) [0..<E]) \<and> J l' \<and> (\<forall>q. \<forall>u<T. D q u l')"
proof -
  define I where "I L l \<longleftrightarrow> (\<exists>bks. lk_actor l = act C m c bks \<and> J l \<and> (\<forall>q. length (bks q) = E)
     \<and> (\<forall>q u. (q, u) \<in> L \<longrightarrow> D q u l)
     \<and> (\<forall>q. \<forall>b<E. bks q ! b = (if (q, b mod T) \<in> L then new q b else old q ! b)))" for L l
  have tb: "set (thread_buckets (C r) t) = {b. b < E \<and> b mod T = t}" if "t < T" for r t
    using set_thread_buckets [of t "C r"] that T(2,3) by simp
  have "\<exists>l'. fold_r f ls l0 = Inr l' \<and> I (set ls) l'"
  proof (rule fold_r_set [OF ls(1)])
    show "I {} l0" unfolding I_def using l0 by (intro exI [of _ old]) simp
    fix L x l assume x: "x \<in> set ls" "x \<notin> L" and "I L l"
    then obtain bks where b: "lk_actor l = act C m c bks" "J l" "\<And>q. length (bks q) = E" "\<And>q u. (q, u) \<in> L \<Longrightarrow> D q u l"
      "\<And>q b. b < E \<Longrightarrow> bks q ! b = (if (q, b mod T) \<in> L then new q b else old q ! b)"
      unfolding I_def by blast
    obtain r t where rt: "x = (r, t)" "t < T" using x(1) unfolding ls(2) by (cases x) simp
    have "\<forall>b\<in>set (thread_buckets (C r) t). bks r ! b = old r ! b" using b(5) x(2) rt by (simp add: tb)
    from step [OF rt(2) b(1,3,2) this] obtain l' bk where l': "f (r, t) l = Inr l'" "lk_actor l' = act C m c (bks(r := bk))" "length bk = E"
      "\<forall>i<E. i \<notin> set (thread_buckets (C r) t) \<longrightarrow> bk ! i = bks r ! i"
      "\<forall>k<length (thread_buckets (C r) t). bk ! (thread_buckets (C r) t ! k) = new r (thread_buckets (C r) t ! k)"
      "J l'" "D r t l'" "\<forall>q u. (q, u) \<noteq> (r, t) \<longrightarrow> D q u l \<longrightarrow> D q u l'" by blast
    have new: "bk ! b = new r b" if "b < E" "b mod T = t" for b
    proof -
      have "b \<in> set (thread_buckets (C r) t)" using that by (simp add: tb rt(2))
      then show ?thesis using l'(5) by (auto simp: in_set_conv_nth)
    qed
    have "(bks(r := bk)) q ! b = (if (q, b mod T) \<in> insert x L then new q b else old q ! b)" if "b < E" for q b
      using new [OF that] l'(4) b(5) [OF that] that rt tb [OF rt(2), of r] by (cases "q = r") auto
    moreover have "D q u l'" if "(q, u) \<in> insert x L" for q u
      using that l'(7,8) b(4) rt(1) by (cases "(q, u) = (r, t)") auto
    ultimately have "I (insert x L) l'"
      unfolding I_def using l'(2,3,6) b(3) by (intro exI [of _ "bks(r := bk)"]) auto
    then show "\<exists>l'. f x l = Inr l' \<and> I (insert x L) l'" using l'(1) rt(1) by blast
  qed
  then obtain l' bks where r: "fold_r f ls l0 = Inr l'" and b: "lk_actor l' = act C m c bks" "J l'" "\<And>q. length (bks q) = E"
      "\<And>q u. (q, u) \<in> set ls \<Longrightarrow> D q u l'" "\<And>q b. b < E \<Longrightarrow> bks q ! b = (if (q, b mod T) \<in> set ls then new q b else old q ! b)"
    unfolding I_def by blast
  have "bks q = map (new q) [0..<E]" for q
    using b(3,5) T(1) by (intro nth_equalityI) (simp_all add: ls(2))
  then have "bks = (\<lambda>r. map (new r) [0..<E])" ..
  then show ?thesis using r b(1,2,4) ls(2) by auto
qed

lemma act_buckets: "act C m c bks r = (act C m c bk0 r)\<lparr>ac_mBuckets := bks r\<rparr>"
  by (simp add: act_def)

text \<open>The buckets of honest parties, given the circuits that are kept.\<close>

definition kept :: "(role \<Rightarrow> DualExActor) \<Rightarrow> role \<Rightarrow> nat list" where
  "kept C r = snd (ac_mTheirCncSets (C r))"

lemma kept_circuits:
  assumes ok: "actors_ok sha C cir K E B Op N T w ix" and b: "b < E" and j: "j < B"
  shows "length (kept C r) = B * E" and "b * B + j < length (kept C r)"
    and "kept C r ! (b * B + j) < N" and "kept C r ! (b * B + j) \<notin> set (opened C r)"
    and "snd (ac_mMyCnCSets (C (other r))) = kept C r"
proof -
  have k: "\<exists>seed. ac_mTheirCncSets (C r) = cnc_sets Op N seed" and m: "ac_mTheirCncSets (C r) = ac_mMyCnCSets (C (other r))"
    using ok unfolding actors_ok_def by blast+
  have N: "N = Op + B * E" using ok by (simp add: actors_ok_def)
  from k obtain seed where s: "ac_mTheirCncSets (C r) = cnc_sets Op N seed" by blast
  then show l: "length (kept C r) = B * E" using cnc_sets_partition(2) [of Op N seed] N by (simp add: kept_def)
  have "(b + 1) * B \<le> E * B" using b by (intro mult_le_mono1) simp
  then show i: "b * B + j < length (kept C r)" using j l by (simp add: mult.commute)
  have p: "set (opened C r) \<inter> set (kept C r) = {}" "set (opened C r) \<union> set (kept C r) = {..<N}"
    using mset_partition_sets(3,4) [OF cnc_sets_partition(3) [of Op N seed]] N s by (simp_all add: opened_def kept_def)
  have "kept C r ! (b * B + j) \<in> set (kept C r)" using i by (rule nth_mem)
  then show "kept C r ! (b * B + j) < N" "kept C r ! (b * B + j) \<notin> set (opened C r)" using p by blast+
  show "snd (ac_mMyCnCSets (C (other r))) = kept C r" using m by (simp add: kept_def)
qed

lemma bucket_parties_honest:
  assumes ok: "actors_ok sha C cir K E B Op N T w ix" and b: "b < E" and len: "\<forall>r. length (m r) = N \<and> length (c r) = N"
    and pp: "\<forall>r. \<forall>i<N. i \<notin> set (opened C r) \<longrightarrow> circuit_pair sha (C r) (C (other r)) (m r ! i) (c (other r) ! i)"
  shows "bucket_honest sha cir B ix (mNonXorGateCount cir * 2) K (bucket_parties shuffle (act C m c bk) gs gr oi oj b)"
proof -
  let ?P = "bucket_parties shuffle (act C m c bk) gs gr oi oj b" and ?k = "mNonXorGateCount cir * 2"
  have B: "0 < B" and C: "\<And>r. ac_mBucketSize (C r) = B" "\<And>r. ac_mCircuit (C r) = cir" "\<And>r. ac_mRole (C r) = r" "\<And>r. ac_mMyKProbe (C r) = K r"
      "\<And>r. ac_mIndexArray (C r) = ix"
    using ok by (simp_all add: actors_ok_def)
  note sz = actors_ok_sizes [OF ok]
  note kc = kept_circuits [OF ok b]
  have idx: "bp_idx (?P r) = drop (b * B) (kept C r)" "bp_their_idx (?P (other r)) = drop (b * B) (kept C r)"
      "bp_packages (?P r) = m r" "bp_received (?P r) = c r" for r
    using kc(5) [OF B, of r] C(1) by (simp_all add: bucket_parties_def Let_def kept_def)
  have L: "B \<le> length (drop (b * B) (kept C r))" for r
    using kc(2) [of "B - 1" r] B by simp
  have pair: "package_pair sha cir r (K r) (K (other r)) ix ?k (bucket_packages B ?P r ! j) (bucket_received B ?P r ! j)" if j: "j < B" for r j
  proof -
    let ?i = "kept C r ! (b * B + j)"
    have n: "take B (drop (b * B) (kept C r)) ! j = ?i" using j kc(2) [OF j, of r] by simp
    have "bucket_packages B ?P r ! j = m r ! ?i" "bucket_received B ?P r ! j = c (other r) ! ?i"
      using j L [of r] n by (simp_all add: bucket_packages_def bucket_received_def idx)
    then show ?thesis using pp [rule_format, of ?i r] kc(3,4) [OF j, of r] C by (simp add: circuit_pair_def masks_size_def)
  qed
  have "package_sizes cir r (K r) (K (other r)) ix ?k" for r
    using sz [of r] C(2-5) by (simp add: actor_sizes_def masks_size_def)
  moreover have "B \<le> length (bp_idx (?P r)) \<and> B \<le> length (bp_their_idx (?P r))" for r
    using L [of r] L [of "other r"] idx(1) [of r] idx(2) [of "other r"] by simp
  ultimately show ?thesis
    unfolding bucket_honest_def using ok B pair by (simp add: actors_ok_def)
qed

text \<open>The thread indices of OTs leave room for the PSIs.\<close>

definition ot_room :: "(role \<Rightarrow> DualExActor) \<Rightarrow> nat \<Rightarrow> nat \<Rightarrow> (role \<Rightarrow> nat \<Rightarrow> nat) \<Rightarrow> bool" where
  "ot_room C T n o0 \<longleftrightarrow> (\<forall>r. \<forall>t<T. o0 r t + n * length (thread_buckets (C r) t) \<le> numRecvOTsPer (C r))"

lemma actors_ok_buckets:
  assumes "actors_ok sha C cir K E B Op N T w ix"
  shows "0 < T" and "ac_mNumInitThreads (C r) = T" and "length (ac_mBuckets (C r)) = E" and "ac_mRole (C r) = r"
    and "ac_mPsiSecParam (C r) = w" and "ac_mBucketSize (C r) = B" and "ots_per_psi (C r) = w * B"
    and "numSendOTsPer (C (other r)) = numRecvOTsPer (C r)" and "ac_mMyKProbe (C r) = K r" and "ac_mTheirKProbe (C r) = K (other r)"
    and "ac_mCircuit (C r) = cir" and "ac_mIndexArray (C r) = ix"
  using assms actors_ok_threads(3,4) [OF assms, of 0 r] by (simp_all add: actors_ok_def)

lemma act_thread_buckets:
  "length (bks r) = length (ac_mBuckets (C r)) \<Longrightarrow> thread_buckets (act C m c bks r) t = thread_buckets (C r) t"
  by (simp add: act_def thread_buckets_def)

lemma send_buckets_phase:
  fixes m c C shuffle gr oj
  defines "A \<equiv> act C m c (\<lambda>r. ac_mBuckets (C r))"
  assumes ok: "actors_ok sha C cir K E B Op N T w ix" and ls: "distinct ls" "set ls = UNIV \<times> {..<T}"
    and l: "lk_actor l = A" and room: "ot_room C T (w * B) (lk_sent l)"
  defines "P \<equiv> bucket_parties shuffle A (lk_prng l) gr (lk_sent l) oj"
  shows "\<exists>l'. fold_r send_buckets_link ls l = Inr l' \<and> lk_actor l' = act C m c (\<lambda>r. map (\<lambda>b. fst (actor_party_send A (P b) r)) [0..<E])
     \<and> lk_recvd l' = lk_recvd l
     \<and> (\<forall>r. \<forall>t<T. lk_msgs l' r t = map (\<lambda>b. snd (actor_party_send A (P b) r)) (thread_buckets (C r) t) \<and> lk_dummy l' r t = dummy_message)"
proof -
  note a = actors_ok_buckets [OF ok]
  let ?J = "\<lambda>l'. lk_prng l' = lk_prng l \<and> lk_sent l' = lk_sent l \<and> lk_recvd l' = lk_recvd l"
  let ?D = "\<lambda>r t l'. lk_msgs l' r t = map (\<lambda>b. snd (actor_party_send A (P b) r)) (thread_buckets (C r) t) \<and> lk_dummy l' r t = dummy_message"
  have "\<exists>l'. fold_r send_buckets_link ls l = Inr l' \<and> lk_actor l' = act C m c (\<lambda>r. map (\<lambda>b. fst (actor_party_send A (P b) r)) [0..<E])
      \<and> ?J l' \<and> (\<forall>r. \<forall>t<T. ?D r t l')"
  proof (rule bucket_phase [where old = "\<lambda>r. ac_mBuckets (C r)" and J = ?J and D = ?D, OF ls a(1-3) l [unfolded A_def]])
    show "length (ac_mBuckets (C r)) = E" for r by (rule a(3))
    fix r t bks and l1 :: links
    assume t: "t < T" and b: "lk_actor l1 = act C m c bks" "\<And>q. length (bks q) = E" and J: "?J l1"
      and old: "\<forall>b\<in>set (thread_buckets (C r) t). bks r ! b = ac_mBuckets (C r) ! b"
    have tb: "thread_buckets (A r) t = thread_buckets (C r) t" by (simp add: A_def act_thread_buckets)
    have Ar: "act C m c bks r = (A r)\<lparr>ac_mBuckets := bks r\<rparr>" by (simp add: A_def act_def)
    have "\<exists>bk. initSend_buckets ((A r)\<lparr>ac_mBuckets := bks r\<rparr>) t (numRecvOTsPer (C r)) (lk_prng l r t) (lk_sent l r t)
      = Inr (bk, map (\<lambda>b. snd (actor_party_send A (P b) r)) (thread_buckets (C r) t), dummy_message)
     \<and> length bk = length (bks r) \<and> (\<forall>i<length (bks r). i \<notin> set (thread_buckets (C r) t) \<longrightarrow> bk ! i = bks r ! i)
     \<and> (\<forall>k<length (thread_buckets (C r) t). bk ! (thread_buckets (C r) t ! k)
          = fst (actor_party_send A (P (thread_buckets (C r) t ! k)) r))"
      unfolding P_def tb [symmetric]
      by (rule send_buckets_thread) (use t a b(2) old room in \<open>simp_all add: A_def act_thread_buckets ot_room_def\<close>)
    then obtain bk where bk: "initSend_buckets (act C m c bks r) t (numRecvOTsPer (C r)) (lk_prng l r t) (lk_sent l r t)
      = Inr (bk, map (\<lambda>b. snd (actor_party_send A (P b) r)) (thread_buckets (C r) t), dummy_message)" "length bk = E"
      "\<forall>i<E. i \<notin> set (thread_buckets (C r) t) \<longrightarrow> bk ! i = bks r ! i"
      "\<forall>k<length (thread_buckets (C r) t). bk ! (thread_buckets (C r) t ! k) = fst (actor_party_send A (P (thread_buckets (C r) t ! k)) r)"
      unfolding Ar using b(2) by auto
    let ?l = "l1\<lparr>lk_actor := act C m c (bks(r := bk)),
        lk_msgs := upd2 (lk_msgs l1) r t (map (\<lambda>b. snd (actor_party_send A (P b) r)) (thread_buckets (C r) t)),
        lk_dummy := upd2 (lk_dummy l1) r t dummy_message\<rparr>"
    have "send_buckets_link (r, t) l1 = Inr ?l" using bk(1) J by (simp add: send_buckets_link_def b(1) act_update_buckets)
    then show "\<exists>l' bk. send_buckets_link (r, t) l1 = Inr l' \<and> lk_actor l' = act C m c (bks(r := bk)) \<and> length bk = E
         \<and> (\<forall>i<E. i \<notin> set (thread_buckets (C r) t) \<longrightarrow> bk ! i = bks r ! i)
         \<and> (\<forall>k<length (thread_buckets (C r) t). bk ! (thread_buckets (C r) t ! k) = fst (actor_party_send A (P (thread_buckets (C r) t ! k)) r))
         \<and> ?J l' \<and> ?D r t l' \<and> (\<forall>q u. (q, u) \<noteq> (r, t) \<longrightarrow> ?D q u l1 \<longrightarrow> ?D q u l')"
      using bk(2-4) J by (intro exI [of _ ?l] exI [of _ bk]) simp
  qed simp_all
  then show ?thesis by blast
qed

lemma recv_buckets_phase:
  fixes m c C shuffle gs oi seeds
  defines "A \<equiv> act C m c (\<lambda>r. ac_mBuckets (C r))"
  assumes ok: "actors_ok sha C cir K E B Op N T w ix" and ls: "distinct ls" "set ls = UNIV \<times> {..<T}"
    and room: "ot_room C T (w * B) (lk_recvd l)"
  defines "P \<equiv> bucket_parties shuffle A gs (\<lambda>r t. SetSeed (snd (seeds r ! t))) oi (lk_recvd l)"
  assumes l: "lk_actor l = act C m c (\<lambda>r. map (\<lambda>b. fst (actor_party_send A (P b) r)) [0..<E])"
    and ms: "\<forall>r. \<forall>t<T. lk_msgs l r t = map (\<lambda>b. snd (actor_party_send A (P b) r)) (thread_buckets (C r) t) \<and> lk_dummy l r t = dummy_message"
    and rc: "\<And>r b. b < E \<Longrightarrow> actor_party_recv shuffle A (P b) r = Inr (G r b, X r b)"
  shows "\<exists>l'. fold_r (recv_buckets_link shuffle seeds) ls l = Inr l' \<and> lk_actor l' = act C m c (\<lambda>r. map (G r) [0..<E])"
proof -
  note a = actors_ok_buckets [OF ok]
  let ?J = "\<lambda>l'. lk_recvd l' = lk_recvd l \<and> lk_msgs l' = lk_msgs l \<and> lk_dummy l' = lk_dummy l"
  have "\<exists>l'. fold_r (recv_buckets_link shuffle seeds) ls l = Inr l' \<and> lk_actor l' = act C m c (\<lambda>r. map (G r) [0..<E])
      \<and> ?J l' \<and> (\<forall>r :: role. \<forall>t<T. True)"
  proof (rule bucket_phase [where J = ?J and D = "\<lambda>r t l'. True", OF ls a(1-3) l])
    fix r t bks and l1 :: links
    assume t: "t < T" and b: "lk_actor l1 = act C m c bks" "\<And>q. length (bks q) = E" and J: "?J l1"
      and old: "\<forall>b\<in>set (thread_buckets (C r) t). bks r ! b = map (\<lambda>b. fst (actor_party_send A (P b) r)) [0..<E] ! b"
    have tb: "thread_buckets (A r) t = thread_buckets (C r) t" by (simp add: A_def act_thread_buckets)
    have tbo: "thread_buckets (C (other r)) t = thread_buckets (C r) t"
      by (simp add: thread_buckets_def a(2,3))
    have bd: "\<forall>b\<in>set (thread_buckets (C r) t). b < E" using set_thread_buckets [of t "C r"] t a(2,3) by simp
    have Ar: "act C m c bks r = (A r)\<lparr>ac_mBuckets := bks r\<rparr>" by (simp add: A_def act_def)
    have n: "numSendOTsPer (C r) = numRecvOTsPer (C r)"
      using a(8) [of "other r"] actors_ok_threads(3) [OF ok t, of r] actors_ok_partners [OF ok, of r]
      by (simp add: partners_def numSendOTsPer_def numRecvOTsPer_def)
    have "\<exists>bk. initRecv_buckets shuffle ((A r)\<lparr>ac_mBuckets := bks r\<rparr>) t (numRecvOTsPer (C r)) (SetSeed (snd (seeds r ! t))) (lk_recvd l r t)
        (map (\<lambda>b. snd (actor_party_send A (P b) (other r))) (thread_buckets (C r) t)) dummy_message = Inr bk
     \<and> length bk = length (bks r) \<and> (\<forall>i<length (bks r). i \<notin> set (thread_buckets (C r) t) \<longrightarrow> bk ! i = bks r ! i)
     \<and> (\<forall>k<length (thread_buckets (C r) t). bk ! (thread_buckets (C r) t ! k) = G r (thread_buckets (C r) t ! k))"
      unfolding P_def tb [symmetric]
    proof (rule recv_buckets_thread)
      show "\<forall>b\<in>set (thread_buckets (A r) t). actor_party_recv shuffle A
          (bucket_parties shuffle A gs (\<lambda>r t. SetSeed (snd (seeds r ! t))) oi (lk_recvd l) b) r = Inr (G r b, X r b)"
        using rc [unfolded P_def, of _ r] bd unfolding tb by blast
      show "\<forall>b\<in>set (thread_buckets (A r) t). bks r ! b
          = fst (actor_party_send A (bucket_parties shuffle A gs (\<lambda>r t. SetSeed (snd (seeds r ! t))) oi (lk_recvd l) b) r)"
        using old bd unfolding tb P_def by simp
    qed (use t a b(2) room in \<open>simp_all add: A_def act_thread_buckets ot_room_def\<close>)
    then obtain bk where bk: "initRecv_buckets shuffle (act C m c bks r) t (numRecvOTsPer (C r)) (SetSeed (snd (seeds r ! t))) (lk_recvd l r t)
        (lk_msgs l (other r) t) dummy_message = Inr bk" "length bk = E"
      "\<forall>i<E. i \<notin> set (thread_buckets (C r) t) \<longrightarrow> bk ! i = bks r ! i"
      "\<forall>k<length (thread_buckets (C r) t). bk ! (thread_buckets (C r) t ! k) = G r (thread_buckets (C r) t ! k)"
      unfolding Ar using b(2) ms t tbo by auto
    let ?l = "l1\<lparr>lk_actor := act C m c (bks(r := bk))\<rparr>"
    have "recv_buckets_link shuffle seeds (r, t) l1 = Inr ?l"
      using bk(1) J n ms t by (simp add: recv_buckets_link_def b(1) act_update_buckets)
    then show "\<exists>l' bk. recv_buckets_link shuffle seeds (r, t) l1 = Inr l' \<and> lk_actor l' = act C m c (bks(r := bk)) \<and> length bk = E
         \<and> (\<forall>i<E. i \<notin> set (thread_buckets (C r) t) \<longrightarrow> bk ! i = bks r ! i)
         \<and> (\<forall>k<length (thread_buckets (C r) t). bk ! (thread_buckets (C r) t ! k) = G r (thread_buckets (C r) t ! k))
         \<and> ?J l' \<and> True \<and> (\<forall>q u. (q, u) \<noteq> (r, t) \<longrightarrow> True \<longrightarrow> True)"
      using bk(2-4) J by (intro exI [of _ ?l] exI [of _ bk]) simp
  qed simp_all
  then show ?thesis by blast
qed

lemma send_kprobe_phase:
  assumes ok: "actors_ok sha C cir K E B Op N T w ix" and ls: "distinct ls" "set ls = UNIV \<times> {..<T}"
    and l: "lk_actor l = act C m c (\<lambda>r. map (F r) [0..<E])"
    and kp: "\<And>r b. b < E \<Longrightarrow> Bucket_initKProbeInputSend (F r b) (K (other r)) = Inr (G r b, M r b)"
  shows "\<exists>l'. fold_r send_kprobe_link ls l = Inr l' \<and> lk_actor l' = act C m c (\<lambda>r. map (G r) [0..<E])
     \<and> (\<forall>r. \<forall>t<T. lk_msgs l' r t = map (M r) (thread_buckets (C r) t))"
proof -
  note a = actors_ok_buckets [OF ok]
  let ?D = "\<lambda>r t l'. lk_msgs l' r t = map (M r) (thread_buckets (C r) t)"
  have "\<exists>l'. fold_r send_kprobe_link ls l = Inr l' \<and> lk_actor l' = act C m c (\<lambda>r. map (G r) [0..<E]) \<and> True \<and> (\<forall>r. \<forall>t<T. ?D r t l')"
  proof (rule bucket_phase [where J = "\<lambda>l'. True" and D = ?D, OF ls a(1-3) l])
    fix r t bks and l1 :: links
    assume t: "t < T" and b: "lk_actor l1 = act C m c bks" "\<And>q. length (bks q) = E"
      and old: "\<forall>b\<in>set (thread_buckets (C r) t). bks r ! b = map (F r) [0..<E] ! b"
    have tb: "thread_buckets (act C m c bks r) t = thread_buckets (C r) t" by (simp add: act_thread_buckets a(3) b(2))
    have bd: "\<forall>b\<in>set (thread_buckets (C r) t). b < E" using set_thread_buckets [of t "C r"] t a(2,3) by simp
    have "\<exists>bk. initSend_kprobe (act C m c bks r) t = Inr (bk, map (M r) (thread_buckets (act C m c bks r) t))
        \<and> length bk = length (ac_mBuckets (act C m c bks r))
        \<and> (\<forall>i<length (ac_mBuckets (act C m c bks r)). i \<notin> set (thread_buckets (act C m c bks r) t) \<longrightarrow> bk ! i = ac_mBuckets (act C m c bks r) ! i)
        \<and> (\<forall>k<length (thread_buckets (act C m c bks r) t). bk ! (thread_buckets (act C m c bks r) t ! k) = G r (thread_buckets (act C m c bks r) t ! k))"
      by (rule send_kprobe_thread) (use t a kp old bd tb in simp_all)
    then obtain bk where bk: "initSend_kprobe (act C m c bks r) t = Inr (bk, map (M r) (thread_buckets (C r) t))" "length bk = E"
      "\<forall>i<E. i \<notin> set (thread_buckets (C r) t) \<longrightarrow> bk ! i = bks r ! i"
      "\<forall>k<length (thread_buckets (C r) t). bk ! (thread_buckets (C r) t ! k) = G r (thread_buckets (C r) t ! k)"
      unfolding tb act_fields b(2) by blast
    let ?l = "l1\<lparr>lk_actor := act C m c (bks(r := bk)), lk_msgs := upd2 (lk_msgs l1) r t (map (M r) (thread_buckets (C r) t))\<rparr>"
    have "send_kprobe_link (r, t) l1 = Inr ?l" using bk(1) by (simp add: send_kprobe_link_def b(1) act_update_buckets)
    then show "\<exists>l' bk. send_kprobe_link (r, t) l1 = Inr l' \<and> lk_actor l' = act C m c (bks(r := bk)) \<and> length bk = E
         \<and> (\<forall>i<E. i \<notin> set (thread_buckets (C r) t) \<longrightarrow> bk ! i = bks r ! i)
         \<and> (\<forall>k<length (thread_buckets (C r) t). bk ! (thread_buckets (C r) t ! k) = G r (thread_buckets (C r) t ! k))
         \<and> True \<and> ?D r t l' \<and> (\<forall>q u. (q, u) \<noteq> (r, t) \<longrightarrow> ?D q u l1 \<longrightarrow> ?D q u l')"
      using bk(2-4) by (intro exI [of _ ?l] exI [of _ bk]) simp
  qed simp_all
  then show ?thesis by blast
qed

lemma recv_kprobe_phase:
  assumes ok: "actors_ok sha C cir K E B Op N T w ix" and ls: "distinct ls" "set ls = UNIV \<times> {..<T}"
    and l: "lk_actor l = act C m c (\<lambda>r. map (F r) [0..<E])"
    and ms: "\<forall>r. \<forall>t<T. lk_msgs l r t = map (M r) (thread_buckets (C r) t)"
    and kp: "\<And>r b. b < E \<Longrightarrow> Bucket_initKProbeInputRecv sha (F r b) cir (K r) r (M (other r) b) = Inr (G r b)"
  shows "\<exists>l'. fold_r (recv_kprobe_link sha) ls l = Inr l' \<and> lk_actor l' = act C m c (\<lambda>r. map (G r) [0..<E])"
proof -
  note a = actors_ok_buckets [OF ok]
  let ?J = "\<lambda>l'. lk_msgs l' = lk_msgs l"
  have "\<exists>l'. fold_r (recv_kprobe_link sha) ls l = Inr l' \<and> lk_actor l' = act C m c (\<lambda>r. map (G r) [0..<E]) \<and> ?J l' \<and> (\<forall>r :: role. \<forall>t<T. True)"
  proof (rule bucket_phase [where J = ?J and D = "\<lambda>r t l'. True", OF ls a(1-3) l])
    fix r t bks and l1 :: links
    assume t: "t < T" and b: "lk_actor l1 = act C m c bks" "\<And>q. length (bks q) = E" and J: "?J l1"
      and old: "\<forall>b\<in>set (thread_buckets (C r) t). bks r ! b = map (F r) [0..<E] ! b"
    have tb: "thread_buckets (act C m c bks r) t = thread_buckets (C r) t" by (simp add: act_thread_buckets a(3) b(2))
    have tbo: "thread_buckets (C (other r)) t = thread_buckets (C r) t" by (simp add: thread_buckets_def a(2,3))
    have bd: "\<forall>b\<in>set (thread_buckets (C r) t). b < E" using set_thread_buckets [of t "C r"] t a(2,3) by simp
    have "\<exists>bk. initRecv_kprobe sha (act C m c bks r) t (map (M (other r)) (thread_buckets (act C m c bks r) t)) = Inr bk
        \<and> length bk = length (ac_mBuckets (act C m c bks r))
        \<and> (\<forall>i<length (ac_mBuckets (act C m c bks r)). i \<notin> set (thread_buckets (act C m c bks r) t) \<longrightarrow> bk ! i = ac_mBuckets (act C m c bks r) ! i)
        \<and> (\<forall>k<length (thread_buckets (act C m c bks r) t). bk ! (thread_buckets (act C m c bks r) t ! k) = G r (thread_buckets (act C m c bks r) t ! k))"
      by (rule recv_kprobe_thread) (use t a kp old bd tb in simp_all)
    then obtain bk where bk: "initRecv_kprobe sha (act C m c bks r) t (lk_msgs l1 (other r) t) = Inr bk" "length bk = E"
      "\<forall>i<E. i \<notin> set (thread_buckets (C r) t) \<longrightarrow> bk ! i = bks r ! i"
      "\<forall>k<length (thread_buckets (C r) t). bk ! (thread_buckets (C r) t ! k) = G r (thread_buckets (C r) t ! k)"
      unfolding tb act_fields b(2) J ms [rule_format, OF t] tbo by blast
    let ?l = "l1\<lparr>lk_actor := act C m c (bks(r := bk))\<rparr>"
    have "recv_kprobe_link sha (r, t) l1 = Inr ?l" using bk(1) by (simp add: recv_kprobe_link_def b(1) act_update_buckets)
    then show "\<exists>l' bk. recv_kprobe_link sha (r, t) l1 = Inr l' \<and> lk_actor l' = act C m c (bks(r := bk)) \<and> length bk = E
         \<and> (\<forall>i<E. i \<notin> set (thread_buckets (C r) t) \<longrightarrow> bk ! i = bks r ! i)
         \<and> (\<forall>k<length (thread_buckets (C r) t). bk ! (thread_buckets (C r) t ! k) = G r (thread_buckets (C r) t ! k))
         \<and> ?J l' \<and> True \<and> (\<forall>q u. (q, u) \<noteq> (r, t) \<longrightarrow> True \<longrightarrow> True)"
      using bk(2-4) J by (intro exI [of _ ?l] exI [of _ bk]) simp
  qed simp_all
  then show ?thesis by blast
qed

section \<open>The whole phase\<close>

lemma bucket_parties_offline:
  assumes ok: "actors_ok sha C cir K E B Op N T w ix"
    and h: "bucket_honest sha cir B ix k K P" and A: "A = act C m c bk"
  shows "\<exists>g2 x2 g3 m3. actor_party_recv shuffle A P r = Inr (g2, x2) \<and> Bucket_initKProbeInputSend g2 (K (other r)) = Inr (g3, m3)
     \<and> party_kprobe shuffle cir B w ix K P r = Inr (g3, m3)"
proof -
  note a = actors_ok_buckets [OF ok]
  have s: "actor_party_send (act C m c bk) P q = party_send cir B w ix P q" for q
    by (simp add: actor_party_send_def a)
  have e: "party_kprobe shuffle cir B w ix K P r = bind_r (actor_party_recv shuffle A P r) (\<lambda>(bk, _). Bucket_initKProbeInputSend bk (K (other r)))"
    by (simp add: party_kprobe_def actor_party_recv_def s A a)
  obtain bk ms where bk: "party_kprobe shuffle cir B w ix K P r = Inr (bk, ms)" using party_kprobe_ok [OF h] by blast
  then obtain g2 x2 where "actor_party_recv shuffle A P r = Inr (g2, x2)"
    unfolding e by (cases "actor_party_recv shuffle A P r") auto
  then show ?thesis using bk e by (cases x2) auto
qed

text \<open>Both parties reach a bucket with the same OTs for each of its two PSIs.\<close>

definition psi_paired :: "(role \<Rightarrow> DualExActor) \<Rightarrow> nat \<Rightarrow> nat \<Rightarrow> nat \<Rightarrow> nat \<Rightarrow> (role \<Rightarrow> bucket_party) \<Rightarrow> bool" where
  "psi_paired C T B w b P \<longleftrightarrow>
     (\<forall>r. bp_otRecv (P r) = ac_mOTRecv (C r) ! (b mod T) \<and> bp_otSend_idx (P (other r)) = bp_otRecv_idx (P r)
        \<and> bp_otRecv_idx (P r) + B * w \<le> numRecvOTsPer (C r) \<and> bp_bucket (P r) = ac_mBuckets (C r) ! b)"

lemma bucket_parties_paired:
  assumes ok: "actors_ok sha C cir K E B Op N T w ix" and b: "b < E"
    and A: "A = act C m c (\<lambda>r. ac_mBuckets (C r))"
    and same: "\<And>r t. t < T \<Longrightarrow> oj (other r) t = oi r t"
    and room: "\<And>r t. t < T \<Longrightarrow> oi r t + w * B * length (thread_buckets (C r) t) \<le> numRecvOTsPer (C r)"
  shows "psi_paired C T B w b (bucket_parties shuffle A gs gr oi oj b)"
proof -
  note a = actors_ok_buckets [OF ok]
  let ?t = "b mod T" and ?k = "b div T"
  have t: "?t < T" using a(1) by simp
  have k: "?k < length (thread_buckets (C r) ?t)" for r
  proof -
    have "b \<in> set (thread_buckets (C r) ?t)" using b t by (simp add: set_thread_buckets a)
    then obtain j where j: "j < length (thread_buckets (C r) ?t)" "thread_buckets (C r) ?t ! j = b" by (auto simp: in_set_conv_nth)
    have "b = ?t + j * T" using thread_buckets_at(1) [OF _ j(1)] t j(2) by (simp add: a)
    then have "?k = (?t + j * T) div T" by (rule arg_cong [where f = "\<lambda>x. x div T"])
    moreover have "(?t + j * T) div T = j" using a(1) by simp
    ultimately show ?thesis using j(1) by (simp only:)
  qed
  have "oi r ?t + w * B * ?k + w * B \<le> numRecvOTsPer (C r)" for r by (rule psi_room [OF k room [OF t]])
  then show ?thesis
    using same [OF t] a by (simp add: psi_paired_def bucket_parties_def Let_def A mult.commute)
qed

lemma offline_phase_ok:
  assumes ok: "actors_ok sha C cir K E B Op N T w ix" and l: "lk_actor l = C"
    and ord: "\<forall>k<6. distinct (ord k) \<and> set (ord k) = UNIV \<times> {..<T}"
  shows "\<exists>l'. offline_phase sha shuffle seeds ord l = Inr l' \<and> (\<exists>m c bk. lk_actor l' = act C m c bk)
     \<and> (\<forall>b<E. \<exists>P. bucket_honest sha cir B ix (mNonXorGateCount cir * 2) K P \<and> psi_paired C T B w b P
          \<and> (\<forall>r. party_offline sha shuffle cir B w ix K P r = Inr (ac_mBuckets (lk_actor l' r) ! b)
               \<and> party_ready cir B ix K P r (ac_mBuckets (lk_actor l' r) ! b)))"
proof -
  have o: "distinct (ord k)" "set (ord k) = UNIV \<times> {..<T}" if "k < 6" for k using ord that by auto
  have lt: "(0 :: nat) < 6" "(1 :: nat) < 6" "(2 :: nat) < 6" "(3 :: nat) < 6" "(4 :: nat) < 6" "(5 :: nat) < 6" by simp_all
  obtain l1 m1 c1 where s: "fold_r (setup_link sha seeds) (ord 0) l = Inr l1" "lk_actor l1 = act C m1 c1 (\<lambda>r. ac_mBuckets (C r))"
    "\<forall>r. length (m1 r) = N \<and> length (c1 r) = N" "\<forall>r. \<forall>i<N. circuit_pair sha (C r) (C (other r)) (m1 r ! i) (c1 (other r) ! i)"
    "\<forall>r. \<forall>t<T. link_ready sha C m1 c1 l1 r t"
    using setup_phase [OF ok o [OF lt(1)] l] by blast
  obtain m c where p: "fold_r (open_link sha) (ord 1) l1 = Inr (l1\<lparr>lk_actor := act C m c (\<lambda>r. ac_mBuckets (C r))\<rparr>)"
    "\<forall>r. length (m r) = N \<and> length (c r) = N"
    "\<forall>r. \<forall>i<N. i \<notin> set (opened C r) \<longrightarrow> circuit_pair sha (C r) (C (other r)) (m r ! i) (c (other r) ! i)"
    using open_phase [OF ok o [OF lt(2)] s(2-4)] by blast
  define A where "A = act C m c (\<lambda>r. ac_mBuckets (C r))"
  define l2 where "l2 = l1\<lparr>lk_actor := A\<rparr>"
  note a = actors_ok_buckets [OF ok]
  have sent: "lk_sent l2 r t + w * B * length (thread_buckets (C r) t) \<le> numRecvOTsPer (C r)"
    "lk_recvd l2 r t + w * B * length (thread_buckets (C r) t) \<le> numRecvOTsPer (C r)" if t: "t < T" for r t
  proof -
    have "link_ready sha C m1 c1 l1 r t" "link_ready sha C m1 c1 l1 (other r) t" using s(5) t by auto
    then show "lk_sent l2 r t + w * B * length (thread_buckets (C r) t) \<le> numRecvOTsPer (C r)"
      "lk_recvd l2 r t + w * B * length (thread_buckets (C r) t) \<le> numRecvOTsPer (C r)"
      using actors_ok_threads(5) [OF ok t, of _ r] actors_ok_threads(6) [OF ok t, of r] a(9) by (simp_all add: link_ready_def l2_def)
  qed
  define P where "P = bucket_parties shuffle A (lk_prng l2) (\<lambda>r t. SetSeed (snd (seeds r ! t))) (lk_sent l2) (lk_recvd l2)"
  have h: "bucket_honest sha cir B ix (mNonXorGateCount cir * 2) K (P b)" if "b < E" for b
    unfolding P_def A_def by (rule bucket_parties_honest [OF ok that p(2,3)])
  have same: "lk_recvd l2 (other r) t = lk_sent l2 r t" if "t < T" for r t
    using s(5) that by (simp add: link_ready_def l2_def)
  have pp: "psi_paired C T B w b (P b)" if "b < E" for b
    unfolding P_def by (rule bucket_parties_paired [OF ok that A_def same sent(1)])
  define G2 X2 where "G2 r b = fst (projr (actor_party_recv shuffle A (P b) r))"
    and "X2 r b = snd (projr (actor_party_recv shuffle A (P b) r))" for r b
  define G3 M3 where "G3 r b = fst (projr (party_kprobe shuffle cir B w ix K (P b) r))"
    and "M3 r b = snd (projr (party_kprobe shuffle cir B w ix K (P b) r))" for r b
  have G: "actor_party_recv shuffle A (P b) r = Inr (G2 r b, X2 r b)"
    "Bucket_initKProbeInputSend (G2 r b) (K (other r)) = Inr (G3 r b, M3 r b)"
    "party_kprobe shuffle cir B w ix K (P b) r = Inr (G3 r b, M3 r b)" if "b < E" for r b
    using bucket_parties_offline [OF ok h [OF that] A_def, of shuffle r] by (auto simp: G2_def X2_def G3_def M3_def)
  define G4 where "G4 r b = projr (party_offline sha shuffle cir B w ix K (P b) r)" for r b
  have G4: "party_offline sha shuffle cir B w ix K (P b) r = Inr (G4 r b)" "party_ready cir B ix K (P b) r (G4 r b)" if "b < E" for r b
    using party_offline_ok [OF h [OF that], of shuffle w r] by (auto simp: G4_def)
  have l2: "lk_actor l2 = A" by (simp add: l2_def)
  obtain l3 where l3: "fold_r send_buckets_link (ord 2) l2 = Inr l3"
    "lk_actor l3 = act C m c (\<lambda>r. map (\<lambda>b. fst (actor_party_send A (P b) r)) [0..<E])" "lk_recvd l3 = lk_recvd l2"
    "\<forall>r. \<forall>t<T. lk_msgs l3 r t = map (\<lambda>b. snd (actor_party_send A (P b) r)) (thread_buckets (C r) t) \<and> lk_dummy l3 r t = dummy_message"
    using send_buckets_phase [OF ok o [OF lt(3)] l2 [unfolded A_def], where shuffle = shuffle and gr = "\<lambda>r t. SetSeed (snd (seeds r ! t))" and oj = "lk_recvd l2"]
      sent(1) unfolding ot_room_def P_def A_def by auto
  have r3: "ot_room C T (w * B) (lk_recvd l3)" using sent(2) by (simp add: ot_room_def l3(3))
  have P3: "P = bucket_parties shuffle (act C m c (\<lambda>r. ac_mBuckets (C r))) (lk_prng l2) (\<lambda>r t. SetSeed (snd (seeds r ! t))) (lk_sent l2) (lk_recvd l3)"
    unfolding P_def A_def l3(3) ..
  obtain l4 where l4: "fold_r (recv_buckets_link shuffle seeds) (ord 3) l3 = Inr l4" "lk_actor l4 = act C m c (\<lambda>r. map (G2 r) [0..<E])"
    using recv_buckets_phase [OF ok o [OF lt(4)] r3 l3(2,4) [unfolded P3 A_def] G(1) [unfolded P3 A_def]] by blast
  obtain l5 where l5: "fold_r send_kprobe_link (ord 4) l4 = Inr l5" "lk_actor l5 = act C m c (\<lambda>r. map (G3 r) [0..<E])"
    "\<forall>r. \<forall>t<T. lk_msgs l5 r t = map (M3 r) (thread_buckets (C r) t)"
    using send_kprobe_phase [OF ok o [OF lt(5)] l4(2) G(2)] by auto
  have kr: "Bucket_initKProbeInputRecv sha (G3 r b) cir (K r) r (M3 (other r) b) = Inr (G4 r b)" if "b < E" for r b
    using G4(1) [OF that, of r] G(3) [OF that] by (simp add: party_offline_def)
  obtain l6 where l6: "fold_r (recv_kprobe_link sha) (ord 5) l5 = Inr l6" "lk_actor l6 = act C m c (\<lambda>r. map (G4 r) [0..<E])"
    using recv_kprobe_phase [OF ok o [OF lt(6)] l5(2,3) kr] by blast
  have "offline_phase sha shuffle seeds ord l = Inr l6"
    using s(1) p(1) l3(1) l4(1) l5(1) l6(1) by (simp add: offline_phase_def l2_def A_def)
  moreover have "bucket_honest sha cir B ix (mNonXorGateCount cir * 2) K (P b) \<and> psi_paired C T B w b (P b)
      \<and> (\<forall>r. party_offline sha shuffle cir B w ix K (P b) r = Inr (ac_mBuckets (lk_actor l6 r) ! b)
           \<and> party_ready cir B ix K (P b) r (ac_mBuckets (lk_actor l6 r) ! b))" if "b < E" for b
    using h [OF that] pp [OF that] G4 [OF that] that by (simp add: l6(2))
  ultimately show ?thesis using l6(2) by blast
qed

end
