(* ===== verification/BDX_Online.thy ===== *)
theory BDX_Online
  imports BDX_Offline
begin

text \<open>
  \<open>DualEx/DualExActor.cpp\<close>: the online phase, \<open>execute\<close> with the threads it feeds (\<open>evalThreadLoop\<close>,
  \<open>sendCircuitInputLoop\<close>) and the one that opens the output labels (\<open>sendLoop\<close>), built with
  \<open>PARALLEL_PSI\<close> and without \<open>ASYNC_PSI\<close>. The loops over the circuits of a bucket are commented out in
  the code, so a thread serves one circuit only; the loops assert that there are as many threads as
  circuits, and so does the model (\<open>eval_assert\<close>). The order in which the threads of a party pass the lock on
  the PSI inputs, commit to them and deliver their outputs are arguments. Timers and files are left
  out.
\<close>

section \<open>The slots of the PSI inputs\<close>

text \<open>A thread takes the next slot of the permutation. Its value is replaced by a random one when an earlier
  slot has it already.\<close>

definition psi_filler :: "Bucket \<Rightarrow> nat \<Rightarrow> block \<times> prng \<Rightarrow> block \<times> prng" where
  "psi_filler bk i st =
     (let (psiInput, prng) = st
      in if psiInput = bk_mPSIInputBlocks bk ! (bk_mPSIInputPermutes bk ! i) then get_block prng else (psiInput, prng))"

definition psi_store :: "block \<Rightarrow> prng \<Rightarrow> Bucket \<Rightarrow> Bucket \<times> prng" where
  "psi_store psiInput prng bk =
     (let psiIdx = bk_mPSIIdxHead bk;
          psiPermuteIdx = bk_mPSIInputPermutes bk ! psiIdx;
          (psiInput, prng) = fold (psi_filler bk) [0..<psiIdx] (psiInput, prng)
      in (bk\<lparr>bk_mPSIIdxHead := psiIdx + 1, bk_mPSIInputBlocks := (bk_mPSIInputBlocks bk)[psiPermuteIdx := psiInput]\<rparr>, prng))"

definition psi_store_all :: "block list \<Rightarrow> (nat \<Rightarrow> prng) \<Rightarrow> nat list \<Rightarrow> Bucket \<Rightarrow> Bucket" where
  "psi_store_all psis gens order bk = fold (\<lambda>c bk. fst (psi_store (psis ! c) (gens c) bk)) order bk"

section \<open>The output\<close>

text \<open>A thread that finds a match sets the promise of the output; the last thread without one sets an
  exception. A promise is set once.\<close>

definition output_step ::
  "bool list \<Rightarrow> nat \<Rightarrow> Bucket \<times> bitvec result option \<Rightarrow> (Bucket \<times> bitvec result option) result" where
  "output_step matches circuitIdx st =
     (let (bk, out) = st
      in if matches ! circuitIdx
         then (if out \<noteq> None then Inl FutureError else Inr (bk, Some (Inr (bk_mOutputs bk ! circuitIdx))))
         else (let bk = bk\<lparr>bk_mOutputMissCount := bk_mOutputMissCount bk + 1\<rparr>
               in if bk_mOutputMissCount bk = int (length (bk_mTheirCircuits bk))
                  then (if out \<noteq> None then Inl FutureError else Inr (bk, Some (Inl RuntimeError)))
                  else Inr (bk, out)))"

definition get_future :: "'a result option \<Rightarrow> 'a result" where
  "get_future out = (case out of None \<Rightarrow> Inl Blocked | Some x \<Rightarrow> x)"

section \<open>The threads\<close>

text \<open>\<open>initOnlinePhase\<close> makes \<open>numParallelEval\<close> groups of \<open>min numThreadsPerEval mBucketSize\<close> threads. Every thread
  asserts that its group has one thread per circuit; \<open>execute\<close> takes its group as \<open>evalIdx\<close> modulo the number of
  groups, which is undefined when there is none. The executions of the buckets of one group are called in
  order, so that the threads of the group have come to the bucket.\<close>

definition eval_threads :: "nat \<Rightarrow> nat \<Rightarrow> nat" where
  "eval_threads numThreadsPerEval mBucketSize = min numThreadsPerEval mBucketSize"

definition eval_assert :: "nat \<Rightarrow> nat \<Rightarrow> unit result" where
  "eval_assert numThreadsPerEval mBucketSize = require (eval_threads numThreadsPerEval mBucketSize = mBucketSize) Aborted"

definition eval_group :: "nat \<Rightarrow> unit result" where
  "eval_group numParallelEval = require (0 < numParallelEval) UndefinedBehaviour"

lemma eval_checks [simp]: "eval_assert t n = Inr () \<longleftrightarrow> n \<le> t" "eval_group p = Inr () \<longleftrightarrow> 0 < p"
  by (auto simp: eval_assert_def eval_group_def eval_threads_def require_def)

section \<open>An execution\<close>

definition party_stored ::
  "(u8 list \<Rightarrow> u8 list) \<Rightarrow> Circuit \<Rightarrow> nat \<Rightarrow> block list \<Rightarrow> block list \<Rightarrow> block list \<Rightarrow> (role \<Rightarrow> Bucket) \<Rightarrow> (role \<Rightarrow> bitvec)
   \<Rightarrow> (role \<Rightarrow> nat \<Rightarrow> prng) \<Rightarrow> (role \<Rightarrow> nat list) \<Rightarrow> role \<Rightarrow> Bucket result" where
  "party_stored sha cir n ix masks labels bks inp gens os r =
     bind_r (party_evaluated sha cir n ix masks labels bks inp r) (\<lambda>(psis, bk). Inr (psi_store_all psis (gens r) (os r) bk))"

text \<open>The intersection with \<open>r\<close> as receiver: its threads commit, the other party's threads commit in the order
  \<open>js r\<close>, the translation is opened and checked, and the sender opens every slot.\<close>

definition party_matches ::
  "(u8 list \<Rightarrow> u8 list) \<Rightarrow> Circuit \<Rightarrow> nat \<Rightarrow> block list \<Rightarrow> block list \<Rightarrow> block list \<Rightarrow> (role \<Rightarrow> block list \<times> block list)
   \<Rightarrow> (role \<Rightarrow> Bucket) \<Rightarrow> (role \<Rightarrow> bitvec) \<Rightarrow> (role \<Rightarrow> nat \<Rightarrow> prng) \<Rightarrow> (role \<Rightarrow> nat list) \<Rightarrow> (role \<Rightarrow> nat list) \<Rightarrow> role
   \<Rightarrow> (bool list \<times> Bucket) result" where
  "party_matches sha cir n ix masks labels otSend bks inp gens os js r =
     bind_r (party_stored sha cir n ix masks labels bks inp gens os r) (\<lambda>bk.
     bind_r (party_stored sha cir n ix masks labels bks inp gens os (other r)) (\<lambda>bo.
     bind_r (psr_commit_all (bk_mPsiRecv bk) (bk_mPsiSend bo) 0 (bk_mPSIInputBlocks bk)) (\<lambda>(rt, st).
     bind_r (pss_commit_all sha (otSend (other r)) (bk_mPSIInputBlocks bo) rt st (js r)) (\<lambda>(rt, st).
     bind_r (party_translated sha cir n ix bo (bk\<lparr>bk_mPsiRecv := rt\<rparr>)) (\<lambda>bk.
     bind_r (map_r (\<lambda>c. PsiReceiver_open sha rt c (PsiSender_open st c)) [0..<n]) (\<lambda>matches. Inr (matches, bk)))))))"

definition DualExActor_execute ::
  "nat \<Rightarrow> nat \<Rightarrow> (u8 list \<Rightarrow> u8 list) \<Rightarrow> Circuit \<Rightarrow> nat \<Rightarrow> block list \<Rightarrow> block list \<Rightarrow> block list \<Rightarrow> (role \<Rightarrow> block list \<times> block list)
   \<Rightarrow> (role \<Rightarrow> Bucket) \<Rightarrow> (role \<Rightarrow> bitvec) \<Rightarrow> (role \<Rightarrow> nat \<Rightarrow> prng) \<Rightarrow> (role \<Rightarrow> nat list) \<Rightarrow> (role \<Rightarrow> nat list)
   \<Rightarrow> (role \<Rightarrow> nat list) \<Rightarrow> role \<Rightarrow> bitvec result" where
  "DualExActor_execute pEval tEval sha cir n ix masks labels otSend bks inp gens os js fs r =
     bind_r (eval_group pEval) (\<lambda>_.
     bind_r (eval_assert tEval n) (\<lambda>_.
     bind_r (require (bv_bits (inp r) = Inputs cir r) InvalidArgument) (\<lambda>_.
     bind_r (party_matches sha cir n ix masks labels otSend bks inp gens os js r) (\<lambda>(matches, bk).
     bind_r (fold_r (output_step matches) (fs r) (bk, None)) (\<lambda>(_, out). get_future out)))))"

section \<open>The first slot keeps the common value\<close>

definition slots_ok :: "nat \<Rightarrow> Bucket \<Rightarrow> bool" where
  "slots_ok n bk \<longleftrightarrow> distinct (bk_mPSIInputPermutes bk) \<and> set (bk_mPSIInputPermutes bk) = {..<n}
     \<and> bk_mPSIIdxHead bk = 0 \<and> length (bk_mPSIInputBlocks bk) = n"

lemma psi_store_eq:
  "\<exists>p. fst (psi_store v g bk) = bk\<lparr>bk_mPSIIdxHead := bk_mPSIIdxHead bk + 1,
      bk_mPSIInputBlocks := (bk_mPSIInputBlocks bk)[bk_mPSIInputPermutes bk ! bk_mPSIIdxHead bk := p]\<rparr>"
  by (rule exI [of _ "fst (fold (psi_filler bk) [0..<bk_mPSIIdxHead bk] (v, g))"]) (simp add: psi_store_def split_beta Let_def)

lemma psi_store_later:
  assumes "distinct (bk_mPSIInputPermutes bk)" and "length (bk_mPSIInputPermutes bk) = n"
    and "0 < bk_mPSIIdxHead bk" and "bk_mPSIIdxHead bk + length order \<le> n"
  shows "\<exists>h bl. psi_store_all psis gens order bk = bk\<lparr>bk_mPSIIdxHead := h, bk_mPSIInputBlocks := bl\<rparr>
     \<and> length bl = length (bk_mPSIInputBlocks bk)
     \<and> bl ! (bk_mPSIInputPermutes bk ! 0) = bk_mPSIInputBlocks bk ! (bk_mPSIInputPermutes bk ! 0)"
  using assms
proof (induction order arbitrary: bk)
  case Nil
  show ?case by (intro exI [of _ "bk_mPSIIdxHead bk"] exI [of _ "bk_mPSIInputBlocks bk"]) (simp add: psi_store_all_def)
next
  case (Cons c order)
  let ?h = "bk_mPSIIdxHead bk" and ?p = "bk_mPSIInputPermutes bk"
  obtain p where p: "fst (psi_store (psis ! c) (gens c) bk)
      = bk\<lparr>bk_mPSIIdxHead := ?h + 1, bk_mPSIInputBlocks := (bk_mPSIInputBlocks bk)[?p ! ?h := p]\<rparr>" using psi_store_eq by blast
  let ?bk = "bk\<lparr>bk_mPSIIdxHead := ?h + 1, bk_mPSIInputBlocks := (bk_mPSIInputBlocks bk)[?p ! ?h := p]\<rparr>"
  have "?p ! ?h \<noteq> ?p ! 0" using Cons.prems by (simp add: nth_eq_iff_index_eq)
  then have z: "(bk_mPSIInputBlocks bk)[?p ! ?h := p] ! (?p ! 0) = bk_mPSIInputBlocks bk ! (?p ! 0)" by simp
  obtain h bl where "psi_store_all psis gens order ?bk = ?bk\<lparr>bk_mPSIIdxHead := h, bk_mPSIInputBlocks := bl\<rparr>"
     "length bl = length (bk_mPSIInputBlocks ?bk)" "bl ! (bk_mPSIInputPermutes ?bk ! 0) = bk_mPSIInputBlocks ?bk ! (bk_mPSIInputPermutes ?bk ! 0)"
    using Cons.IH [of ?bk] Cons.prems by auto
  then show ?case using p z by (intro exI [of _ h] exI [of _ bl]) (simp add: psi_store_all_def)
qed

lemma psi_store_first:
  assumes "slots_ok n bk" and "distinct order" and "set order = {..<n}" and "0 < n" and "\<And>c. c < n \<Longrightarrow> psis ! c = v"
  shows "\<exists>h bl. psi_store_all psis gens order bk = bk\<lparr>bk_mPSIIdxHead := h, bk_mPSIInputBlocks := bl\<rparr>
     \<and> length bl = n \<and> bl ! (bk_mPSIInputPermutes bk ! 0) = v"
proof -
  let ?p = "bk_mPSIInputPermutes bk"
  have p: "distinct ?p" "length ?p = n" "bk_mPSIIdxHead bk = 0" "length (bk_mPSIInputBlocks bk) = n" "set ?p = {..<n}"
    using assms(1) distinct_card [of ?p] by (simp_all add: slots_ok_def)
  have lo: "length order = n" using distinct_card [OF assms(2)] assms(3) by simp
  then obtain c rest where o: "order = c # rest" using assms(4) by (cases order) auto
  have c: "psis ! c = v" using assms(3,5) o by auto
  have s: "fst (psi_store v (gens c) bk) = bk\<lparr>bk_mPSIIdxHead := 1, bk_mPSIInputBlocks := (bk_mPSIInputBlocks bk)[?p ! 0 := v]\<rparr>"
    by (simp add: psi_store_def p(3))
  let ?bk = "bk\<lparr>bk_mPSIIdxHead := 1, bk_mPSIInputBlocks := (bk_mPSIInputBlocks bk)[?p ! 0 := v]\<rparr>"
  have "?p ! 0 \<in> set ?p" using p(2) assms(4) by simp
  then have z: "?p ! 0 < n" using p(5) by simp
  obtain h bl where r: "psi_store_all psis gens rest ?bk = ?bk\<lparr>bk_mPSIIdxHead := h, bk_mPSIInputBlocks := bl\<rparr>"
     "length bl = n" "bl ! (?p ! 0) = (bk_mPSIInputBlocks bk)[?p ! 0 := v] ! (?p ! 0)"
    using psi_store_later [of ?bk n rest psis gens] p lo o by auto
  then show ?thesis using s c z p(4) by (intro exI [of _ h] exI [of _ bl]) (simp add: psi_store_all_def o)
qed

section \<open>The promise of the output\<close>

lemma output_misses:
  assumes "\<forall>c\<in>set fs. \<not> ms ! c" and "bk_mOutputMissCount bk + int (length fs) < int (length (bk_mTheirCircuits bk))"
  shows "fold_r (output_step ms) fs (bk, out) = Inr (bk\<lparr>bk_mOutputMissCount := bk_mOutputMissCount bk + int (length fs)\<rparr>, out)"
  using assms
proof (induction fs arbitrary: bk)
  case (Cons c fs)
  let ?bk = "bk\<lparr>bk_mOutputMissCount := bk_mOutputMissCount bk + 1\<rparr>"
  have "output_step ms c (bk, out) = Inr (?bk, out)" using Cons.prems by (simp add: output_step_def)
  moreover have "fold_r (output_step ms) fs (?bk, out)
      = Inr (?bk\<lparr>bk_mOutputMissCount := bk_mOutputMissCount ?bk + int (length fs)\<rparr>, out)"
    by (rule Cons.IH) (use Cons.prems in simp_all)
  ultimately show ?case by (simp add: add.assoc)
qed simp

lemma output_steps:
  assumes fs: "distinct fs" "set fs = {..<n}" and l: "length (bk_mTheirCircuits bk) = n" "bk_mOutputMissCount bk = 0"
    and ex: "\<exists>c<n. ms ! c"
  shows "card {c. c < n \<and> ms ! c} = 1 \<Longrightarrow> \<exists>bk' c. c < n \<and> ms ! c
      \<and> fold_r (output_step ms) fs (bk, None) = Inr (bk', Some (Inr (bk_mOutputs bk ! c)))"
    and "1 < card {c. c < n \<and> ms ! c} \<Longrightarrow> fold_r (output_step ms) fs (bk, None) = Inl FutureError"
proof -
  have n: "length fs = n" using distinct_card [OF fs(1)] fs(2) by simp
  obtain xs c ys where s: "fs = xs @ c # ys" "ms ! c" "\<forall>x\<in>set xs. \<not> ms ! x"
    using split_list_first_prop [of fs "(!) ms"] ex fs(2) by (metis lessThan_iff)
  have c: "c < n" "c \<notin> set ys" using s(1) fs by auto
  have lx: "int (length xs) < int n" "int (length xs) + int (length ys) < int n" using s(1) n by auto
  have first: "fold_r (output_step ms) (xs @ [c]) (bk, None)
      = Inr (bk\<lparr>bk_mOutputMissCount := int (length xs)\<rparr>, Some (Inr (bk_mOutputs bk ! c)))"
    using output_misses [OF s(3), of bk None] l lx(1) s(2) by (simp add: fold_r_append output_step_def)
  let ?bk = "bk\<lparr>bk_mOutputMissCount := int (length xs)\<rparr>"
  have run: "fold_r (output_step ms) fs (bk, None) = fold_r (output_step ms) ys (?bk, Some (Inr (bk_mOutputs bk ! c)))"
    using first fold_r_append [of "output_step ms" "xs @ [c]" ys "(bk, None)"] s(1) by simp
  show "\<exists>bk' c. c < n \<and> ms ! c \<and> fold_r (output_step ms) fs (bk, None) = Inr (bk', Some (Inr (bk_mOutputs bk ! c)))"
    if one: "card {c. c < n \<and> ms ! c} = 1"
  proof -
    obtain d where d: "{x. x < n \<and> ms ! x} = {d}" using one card_1_singletonE by blast
    have "y = c" if "y < n" "ms ! y" for y
    proof -
      have "y \<in> {x. x < n \<and> ms ! x}" "c \<in> {x. x < n \<and> ms ! x}" using that c(1) s(2) by simp_all
      then show ?thesis unfolding d by simp
    qed
    moreover have "y < n" if "y \<in> set ys" for y using that s(1) fs(2) by auto
    ultimately have "\<forall>y\<in>set ys. \<not> ms ! y" using c(2) by blast
    then have "fold_r (output_step ms) ys (?bk, Some (Inr (bk_mOutputs bk ! c)))
        = Inr (?bk\<lparr>bk_mOutputMissCount := bk_mOutputMissCount ?bk + int (length ys)\<rparr>, Some (Inr (bk_mOutputs bk ! c)))"
      by (rule output_misses) (use l lx(2) in simp)
    then show ?thesis unfolding run using c(1) s(2) by blast
  qed
  show "fold_r (output_step ms) fs (bk, None) = Inl FutureError" if two: "1 < card {c. c < n \<and> ms ! c}"
  proof -
    have "\<not> {x. x < n \<and> ms ! x} \<subseteq> {c}" using two card_mono [of "{c}" "{x. x < n \<and> ms ! x}"] by auto
    then obtain d where d: "d < n" "ms ! d" "d \<noteq> c" by auto
    then have "d \<in> set ys" using fs(2) s(1,3) by auto
    then obtain us e vs where y: "ys = us @ e # vs" "ms ! e" "\<forall>x\<in>set us. \<not> ms ! x"
      using split_list_first_prop [of ys "(!) ms"] d(2) by metis
    have "fold_r (output_step ms) us (?bk, Some (Inr (bk_mOutputs bk ! c)))
        = Inr (?bk\<lparr>bk_mOutputMissCount := bk_mOutputMissCount ?bk + int (length us)\<rparr>, Some (Inr (bk_mOutputs bk ! c)))"
      by (rule output_misses [OF y(3)]) (use l lx(2) y(1) in simp)
    then show ?thesis unfolding run y(1) by (simp add: fold_r_append output_step_def y(2))
  qed
qed

section \<open>The state of the intersections after the offline phase\<close>

lemma initKProbeInputRecv_fields:
  "Bucket_initKProbeInputRecv sha bk cir M r msgs = Inr bk'
   \<Longrightarrow> \<exists>c d. bk' = bk\<lparr>bk_mInputCorrectionString := c, bk_mMyDecodedKProbeLabels := d\<rparr>"
  unfolding Bucket_initKProbeInputRecv_def bind_r_Inr by blast

lemma initKProbeInputSend_fields:
  "Bucket_initKProbeInputSend bk M = Inr (bk', m) \<Longrightarrow> \<exists>os cs. bk' = bk\<lparr>bk_mTheirInputOffsets := os, bk_mMyCircuits := cs\<rparr>"
  by (auto simp: Bucket_initKProbeInputSend_def Let_def bind_r_Inr)

lemma initRecv_fields:
  assumes "Bucket_initRecv shuffle bk cir M n w it cs g oti msgs = Inr (bk', rest)"
  shows "bk_mPsiSend bk' = fst (PsiSender_init n w oti) \<and> bk_mPsiRecv bk' = bk_mPsiRecv bk
     \<and> bk_mPSIInputPermutes bk' = fst (shuffle g [0..<n]) \<and> bk_mPSIIdxHead bk' = 0 \<and> bk_mPSIInputBlocks bk' = replicate n 0
     \<and> bk_mOutputMissCount bk' = bk_mOutputMissCount bk"
  using assms by (auto simp: Bucket_initRecv_def bind_r_Inr split_beta)

lemma party_offline_psi:
  assumes "party_offline sha shuffle cir n w ix K P r = Inr bk"
  shows "bk_mPsiRecv bk = fst (PsiReceiver_init n w (bp_otRecv (P r)) (bp_otRecv_idx (P r)))"
    and "bk_mPsiSend bk = fst (PsiSender_init n w (bp_otSend_idx (P r)))"
    and "bk_mPSIInputPermutes bk = fst (shuffle (bp_recv_prng (P r)) [0..<n])" and "bk_mPSIIdxHead bk = 0"
    and "length (bk_mPSIInputBlocks bk) = n" and "bk_mOutputMissCount bk = bk_mOutputMissCount (bp_bucket (P r))"
proof -
  obtain b1 m1 x where 1: "party_kprobe shuffle cir n w ix K P r = Inr (b1, m1)" "Bucket_initKProbeInputRecv sha b1 cir (K r) r x = Inr bk"
    using assms by (auto simp: party_offline_def bind_r_Inr)
  obtain b2 y where 2: "Bucket_initRecv shuffle (fst (party_send cir n w ix P r)) cir (K (other r)) n w (bp_their_idx (P r))
      (bp_received (P r)) (bp_recv_prng (P r)) (bp_otSend_idx (P r)) (snd (party_send cir n w ix P (other r))) = Inr (b2, y)"
      "Bucket_initKProbeInputSend b2 (K (other r)) = Inr (b1, m1)"
    using 1(1) by (auto simp: party_kprobe_def bind_r_Inr)
  note a = initRecv_fields [OF 2(1)]
  obtain os cs where b1: "b1 = b2\<lparr>bk_mTheirInputOffsets := os, bk_mMyCircuits := cs\<rparr>" using initKProbeInputSend_fields [OF 2(2)] by blast
  obtain c d where bk: "bk = b1\<lparr>bk_mInputCorrectionString := c, bk_mMyDecodedKProbeLabels := d\<rparr>"
    using initKProbeInputRecv_fields [OF 1(2)] by blast
  have s: "bk_mPsiRecv (fst (party_send cir n w ix P r)) = fst (PsiReceiver_init n w (bp_otRecv (P r)) (bp_otRecv_idx (P r)))"
    "bk_mOutputMissCount (fst (party_send cir n w ix P r)) = bk_mOutputMissCount (bp_bucket (P r))"
    by (simp_all add: party_send_eq)
  show "bk_mPsiRecv bk = fst (PsiReceiver_init n w (bp_otRecv (P r)) (bp_otRecv_idx (P r)))"
    "bk_mPsiSend bk = fst (PsiSender_init n w (bp_otSend_idx (P r)))"
    "bk_mPSIInputPermutes bk = fst (shuffle (bp_recv_prng (P r)) [0..<n])" "bk_mPSIIdxHead bk = 0"
    "length (bk_mPSIInputBlocks bk) = n" "bk_mOutputMissCount bk = bk_mOutputMissCount (bp_bucket (P r))"
    using a s by (simp_all add: bk b1)
qed

text \<open>What the online phase needs of the two buckets, besides \<open>party_ready\<close>.\<close>

definition psi_ready :: "nat \<Rightarrow> nat \<Rightarrow> (role \<Rightarrow> block list \<times> block list) \<Rightarrow> (role \<Rightarrow> Bucket) \<Rightarrow> bool" where
  "psi_ready n w otSend bks \<longleftrightarrow>
     (\<forall>r. slots_ok n (bks r) \<and> bk_mOutputMissCount (bks r) = 0
        \<and> (\<exists>otRecv N oti. bk_mPsiRecv (bks r) = fst (PsiReceiver_init n w otRecv oti)
             \<and> bk_mPsiSend (bks (other r)) = fst (PsiSender_init n w oti)
             \<and> ot_agreed (otSend (other r)) otRecv N \<and> oti + n * w \<le> N))"

lemma psi_ready_offline:
  assumes ok: "actors_ok sha C cir K E B Op N T w ix" and pp: "psi_paired C T B w b P"
    and off: "\<And>r. party_offline sha shuffle cir B w ix K P r = Inr (bks r)"
    and sh: "\<And>g xs. mset (fst (shuffle g xs)) = mset xs" and miss: "\<And>r. bk_mOutputMissCount (ac_mBuckets (C r) ! b) = 0"
  shows "psi_ready B w (\<lambda>r. ac_mOTSend (C r) ! (b mod T)) bks"
  unfolding psi_ready_def
proof (rule allI, intro conjI)
  fix r
  note o = party_offline_psi [OF off]
  have m: "mset (bk_mPSIInputPermutes (bks r)) = mset [0..<B]" unfolding o(3) by (rule sh)
  have "distinct (bk_mPSIInputPermutes (bks r))" "set (bk_mPSIInputPermutes (bks r)) = {..<B}"
    using mset_eq_imp_distinct_iff [OF m] mset_eq_setD [OF m] by (simp_all add: lessThan_atLeast0)
  then show "slots_ok B (bks r)" using o(4,5) by (simp add: slots_ok_def)
  show "bk_mOutputMissCount (bks r) = 0" using o(6) pp miss by (simp add: psi_paired_def)
  have t: "b mod T < T" using ok by (simp add: actors_ok_def)
  have "ot_agreed (ac_mOTSend (C (other r)) ! (b mod T)) (ac_mOTRecv (C r) ! (b mod T)) (numRecvOTsPer (C r))"
    using ok t unfolding actors_ok_def by blast
  then show "\<exists>otRecv N oti. bk_mPsiRecv (bks r) = fst (PsiReceiver_init B w otRecv oti)
             \<and> bk_mPsiSend (bks (other r)) = fst (PsiSender_init B w oti)
             \<and> ot_agreed (ac_mOTSend (C (other r)) ! (b mod T)) otRecv N \<and> oti + B * w \<le> N"
    using pp o(1) [of r] o(2) [of "other r"]
    by (intro exI [of _ "ac_mOTRecv (C r) ! (b mod T)"] exI [of _ "numRecvOTsPer (C r)"] exI [of _ "bp_otRecv_idx (P r)"])
      (simp add: psi_paired_def)
qed

section \<open>An honest execution\<close>

definition orders_ok :: "nat \<Rightarrow> (role \<Rightarrow> nat list) \<Rightarrow> bool" where
  "orders_ok n os \<longleftrightarrow> (\<forall>r. distinct (os r) \<and> set (os r) = {..<n})"

lemma party_matches_ok:
  assumes h: "bucket_honest sha cir n ix k K P" and eq: "Inputs cir First = Inputs cir Second"
    and L: "length labels = mWireCount cir" and sz: "\<forall>r. package_sizes cir r (K r) (K (other r)) ix (length masks)"
    and rd: "\<And>r. party_ready cir n ix K P r (bks r)" and psi: "psi_ready n w otSend bks"
    and b: "n < 2 ^ 32" "w \<le> 128" and w: "0 < w" and os: "orders_ok n os" "orders_ok n js"
  shows "\<exists>ms bk. party_matches sha cir n ix masks labels otSend bks inp gens os js r = Inr (ms, bk)
     \<and> length ms = n \<and> (\<exists>c<n. ms ! c) \<and> length (bk_mTheirCircuits bk) = n \<and> bk_mOutputMissCount bk = 0
     \<and> (\<forall>c<n. bv_list (bk_mOutputs bk ! c) = circuit_sem cir (joint_input cir (bv_get (inp First)) (bv_get (inp Second))))"
proof -
  let ?y = "circuit_sem cir (joint_input cir (bv_get (inp First)) (bv_get (inp Second)))"
  have n: "0 < n" and sha: "digest20 sha" using h by (simp_all add: bucket_honest_def)
  define v where "v = common_sum (common_output cir ix (bucket_seed P First)) (common_output cir ix (bucket_seed P Second)) ?y"
  have vr: "common_sum (common_output cir ix (bucket_seed P (other q))) (common_output cir ix (bucket_seed P q)) ?y = v" for q
    by (cases q) (simp_all add: v_def common_sum_commute)
  have st: "\<exists>u wi outs hd' bl. party_stored sha cir n ix masks labels bks inp gens os q
      = Inr ((bks q)\<lparr>bk_mInputCorrectionString := u, bk_mTheirInputCorrection := wi, bk_mOutputs := outs,
                     bk_mPSIIdxHead := hd', bk_mPSIInputBlocks := bl\<rparr>)
     \<and> (\<forall>c<n. bv_list (outs ! c) = ?y) \<and> length bl = n \<and> bl ! (bk_mPSIInputPermutes (bks q) ! 0) = v" for q
  proof -
    have sq: "package_sizes cir (other q) (K (other q)) (K q) ix (length masks)" using sz [rule_format, of "other q"] by simp
    obtain u wi outs where ev: "party_evaluated sha cir n ix masks labels bks inp q
        = Inr (replicate n v, (bks q)\<lparr>bk_mInputCorrectionString := u, bk_mTheirInputCorrection := wi, bk_mOutputs := outs\<rparr>)"
      "\<forall>c<n. bv_list (outs ! c) = ?y"
      using party_evaluated_ok [OF h eq L sq rd, where inp = inp] unfolding vr by blast
    let ?bk = "(bks q)\<lparr>bk_mInputCorrectionString := u, bk_mTheirInputCorrection := wi, bk_mOutputs := outs\<rparr>"
    have "slots_ok n ?bk" using psi by (simp add: psi_ready_def slots_ok_def)
    from psi_store_first [OF this, of "os q" "replicate n v" v "gens q"] n os(1)
    obtain hd' bl where "psi_store_all (replicate n v) (gens q) (os q) ?bk = ?bk\<lparr>bk_mPSIIdxHead := hd', bk_mPSIInputBlocks := bl\<rparr>"
      "length bl = n" "bl ! (bk_mPSIInputPermutes ?bk ! 0) = v" by (auto simp: orders_ok_def)
    then show ?thesis
      using ev by (intro exI [of _ u] exI [of _ wi] exI [of _ outs] exI [of _ hd'] exI [of _ bl]) (simp add: party_stored_def)
  qed
  let ?o = "other r"
  obtain u wi outs hd' bl where R: "party_stored sha cir n ix masks labels bks inp gens os r
      = Inr ((bks r)\<lparr>bk_mInputCorrectionString := u, bk_mTheirInputCorrection := wi, bk_mOutputs := outs,
                     bk_mPSIIdxHead := hd', bk_mPSIInputBlocks := bl\<rparr>)"
     "\<forall>c<n. bv_list (outs ! c) = ?y" "length bl = n" "bl ! (bk_mPSIInputPermutes (bks r) ! 0) = v" using st by blast
  obtain u' wi' outs' hd'' bl' where O: "party_stored sha cir n ix masks labels bks inp gens os ?o
      = Inr ((bks ?o)\<lparr>bk_mInputCorrectionString := u', bk_mTheirInputCorrection := wi', bk_mOutputs := outs',
                     bk_mPSIIdxHead := hd'', bk_mPSIInputBlocks := bl'\<rparr>)"
     "length bl' = n" "bl' ! (bk_mPSIInputPermutes (bks ?o) ! 0) = v" using st by blast
  define bo where "bo = (bks ?o)\<lparr>bk_mInputCorrectionString := u', bk_mTheirInputCorrection := wi', bk_mOutputs := outs',
                     bk_mPSIIdxHead := hd'', bk_mPSIInputBlocks := bl'\<rparr>"
  obtain otRecv N oti where p: "bk_mPsiRecv (bks r) = fst (PsiReceiver_init n w otRecv oti)"
      "bk_mPsiSend (bks ?o) = fst (PsiSender_init n w oti)" "ot_agreed (otSend ?o) otRecv N" "oti + n * w \<le> N"
    using psi unfolding psi_ready_def by blast
  have first: "bk_mPSIInputPermutes (bks q) ! 0 < n" for q
  proof -
    have s: "distinct (bk_mPSIInputPermutes (bks q))" "set (bk_mPSIInputPermutes (bks q)) = {..<n}"
      using psi by (simp_all add: psi_ready_def slots_ok_def)
    then have "length (bk_mPSIInputPermutes (bks q)) = n" using distinct_card by fastforce
    then have "bk_mPSIInputPermutes (bks q) ! 0 \<in> set (bk_mPSIInputPermutes (bks q))" using n by simp
    then show ?thesis using s(2) by simp
  qed
  have js: "distinct (js r)" "set (js r) = {..<n}" using os(2) by (simp_all add: orders_ok_def)
  obtain rt1 st1 rt2 st2 where run:
    "psr_commit_all (bk_mPsiRecv (bks r)) (bk_mPsiSend (bks ?o)) 0 bl = Inr (rt1, st1)"
    "pss_commit_all sha (otSend ?o) bl' rt1 st1 (js r) = Inr (rt2, st2)"
    and opens: "\<forall>i<n. (\<exists>x. PsiReceiver_open sha rt2 i (PsiSender_open st2 i) = Inr x)
        \<and> (\<forall>j<n. take_bit w (bl ! i) = take_bit w (bl' ! j) \<longrightarrow> PsiReceiver_open sha rt2 i (PsiSender_open st2 i) = Inr True)"
    using psi_opens [OF sha n b R(3) O(2) p(3,4) js w] unfolding p(1,2) by blast
  define hits where "hits i = projr (PsiReceiver_open sha rt2 i (PsiSender_open st2 i))" for i
  have op: "\<forall>i<n. PsiReceiver_open sha rt2 i (PsiSender_open st2 i) = Inr (hits i)"
    using opens by (auto simp: hits_def)
  have hit: "hits i" if "i < n" "j < n" "bl ! i = bl' ! j" for i j using opens that by (auto simp: hits_def)
  let ?rb = "(bks r)\<lparr>bk_mInputCorrectionString := u, bk_mTheirInputCorrection := wi, bk_mOutputs := outs,
                     bk_mPSIIdxHead := hd', bk_mPSIInputBlocks := bl, bk_mPsiRecv := rt2\<rparr>"
  have so: "package_sizes cir ?o (K ?o) (K (other ?o)) ix (length masks)" using sz by blast
  have ke: "party_keyed cir n ix K P r (bks r)" and kg: "party_keyed cir n ix K P ?o (bks ?o)" using rd by (simp_all add: party_ready_def)
  have tr: "party_translated sha cir n ix bo ?rb = Inr (?rb\<lparr>bk_mTransCheckRemaining := bk_mTransCheckRemaining ?rb - int n\<rparr>)"
    by (rule party_translated_ok [OF h so]) (use ke kg in \<open>simp_all add: party_keyed_def bo_def\<close>)
  have ms: "map_r (\<lambda>c. PsiReceiver_open sha rt2 c (PsiSender_open st2 c)) [0..<n] = Inr (map hits [0..<n])"
    by (rule map_r_Inr) (use op in simp)
  have "party_matches sha cir n ix masks labels otSend bks inp gens os js r
      = Inr (map hits [0..<n], ?rb\<lparr>bk_mTransCheckRemaining := bk_mTransCheckRemaining ?rb - int n\<rparr>)"
    unfolding party_matches_def R(1) O(1) bo_def [symmetric] bind_r.simps
    using run tr ms by (simp add: bo_def)
  moreover have "hits (bk_mPSIInputPermutes (bks r) ! 0)"
    by (rule hit [OF first first [of ?o]]) (simp add: R(4) O(3))
  moreover have "length (bk_mTheirCircuits (bks r)) = n" "bk_mOutputMissCount (bks r) = 0"
    using ke honest_lengths [OF h] psi by (simp_all add: party_keyed_def psi_ready_def)
  ultimately show ?thesis using R(2) first [of r] by (intro exI conjI) (assumption, auto)
qed

lemma execute_ok:
  assumes h: "bucket_honest sha cir n ix k K P" and eq: "Inputs cir First = Inputs cir Second"
    and L: "length labels = mWireCount cir" and sz: "\<forall>r. package_sizes cir r (K r) (K (other r)) ix (length masks)"
    and rd: "\<And>r. party_ready cir n ix K P r (bks r)" and psi: "psi_ready n w otSend bks"
    and b: "n < 2 ^ 32" "w \<le> 128" and w: "0 < w" and os: "orders_ok n os" "orders_ok n js" "orders_ok n fs"
    and t: "0 < pEval" "n \<le> tEval" and inp: "bv_bits (inp r) = Inputs cir r"
  shows "\<exists>ms bk. party_matches sha cir n ix masks labels otSend bks inp gens os js r = Inr (ms, bk)
     \<and> length ms = n \<and> 0 < card {c. c < n \<and> ms ! c}
     \<and> (card {c. c < n \<and> ms ! c} = 1 \<longrightarrow> map_sum id bv_list (DualExActor_execute pEval tEval sha cir n ix masks labels otSend bks inp gens os js fs r)
          = Inr (circuit_sem cir (joint_input cir (bv_get (inp First)) (bv_get (inp Second)))))
     \<and> (1 < card {c. c < n \<and> ms ! c}
          \<longrightarrow> DualExActor_execute pEval tEval sha cir n ix masks labels otSend bks inp gens os js fs r = Inl FutureError)"
proof -
  obtain ms bk where m: "party_matches sha cir n ix masks labels otSend bks inp gens os js r = Inr (ms, bk)"
     "\<exists>c<n. ms ! c" "length (bk_mTheirCircuits bk) = n" "bk_mOutputMissCount bk = 0" and len: "length ms = n"
     and m5: "\<forall>c<n. bv_list (bk_mOutputs bk ! c) = circuit_sem cir (joint_input cir (bv_get (inp First)) (bv_get (inp Second)))"
    using party_matches_ok [OF h eq L sz rd psi b w os(1,2)] by blast
  have f: "distinct (fs r)" "set (fs r) = {..<n}" using os(3) by (simp_all add: orders_ok_def)
  note st = output_steps [OF f m(3,4,2)]
  have ex: "DualExActor_execute pEval tEval sha cir n ix masks labels otSend bks inp gens os js fs r
      = bind_r (fold_r (output_step ms) (fs r) (bk, None)) (\<lambda>(_, out). get_future out)"
    using inp m(1) t by (simp add: DualExActor_execute_def require_Inr eval_checks [THEN iffD2])
  have "finite {c. c < n \<and> ms ! c}" by simp
  then have "0 < card {c. c < n \<and> ms ! c}" using m(2) by (auto simp: card_gt_0_iff)
  moreover have "map_sum id bv_list (DualExActor_execute pEval tEval sha cir n ix masks labels otSend bks inp gens os js fs r)
      = Inr (circuit_sem cir (joint_input cir (bv_get (inp First)) (bv_get (inp Second))))" if "card {c. c < n \<and> ms ! c} = 1"
    using st(1) [OF that] m5 by (auto simp: ex get_future_def)
  moreover have "DualExActor_execute pEval tEval sha cir n ix masks labels otSend bks inp gens os js fs r = Inl FutureError"
    if "1 < card {c. c < n \<and> ms ! c}" using st(2) [OF that] by (simp add: ex)
  ultimately show ?thesis using m(1) len by blast
qed

text \<open>\<open>execute\<close> of the actors of two parties after the offline phase, on bucket \<open>b\<close>; \<open>labels\<close> is the buffer of
  wire labels.\<close>

definition actor_matches ::
  "nat \<Rightarrow> nat \<Rightarrow> (u8 list \<Rightarrow> u8 list) \<Rightarrow> (role \<Rightarrow> DualExActor) \<Rightarrow> nat \<Rightarrow> block list \<Rightarrow> (role \<Rightarrow> bitvec) \<Rightarrow> (role \<Rightarrow> nat \<Rightarrow> prng)
   \<Rightarrow> (role \<Rightarrow> nat list) \<Rightarrow> (role \<Rightarrow> nat list) \<Rightarrow> role \<Rightarrow> (bool list \<times> Bucket) result" where
  "actor_matches pEval tEval sha A b labels inp gens os js r =
     (let a = A r
      in bind_r (eval_group pEval) (\<lambda>_.
         bind_r (eval_assert tEval (ac_mBucketSize a)) (\<lambda>_.
         party_matches sha (ac_mCircuit a) (ac_mBucketSize a) (ac_mIndexArray a)
           (replicate (mNonXorGateCount (ac_mCircuit a) * 2) 0) labels (\<lambda>q. ac_mOTSend (A q) ! (b mod ac_mNumInitThreads a))
           (\<lambda>q. ac_mBuckets (A q) ! b) inp gens os js r)))"

definition actor_execute ::
  "nat \<Rightarrow> nat \<Rightarrow> (u8 list \<Rightarrow> u8 list) \<Rightarrow> (role \<Rightarrow> DualExActor) \<Rightarrow> nat \<Rightarrow> block list \<Rightarrow> (role \<Rightarrow> bitvec) \<Rightarrow> (role \<Rightarrow> nat \<Rightarrow> prng)
   \<Rightarrow> (role \<Rightarrow> nat list) \<Rightarrow> (role \<Rightarrow> nat list) \<Rightarrow> (role \<Rightarrow> nat list) \<Rightarrow> role \<Rightarrow> bitvec result" where
  "actor_execute pEval tEval sha A b labels inp gens os js fs r =
     (let a = A r
      in DualExActor_execute pEval tEval sha (ac_mCircuit a) (ac_mBucketSize a) (ac_mIndexArray a)
           (replicate (mNonXorGateCount (ac_mCircuit a) * 2) 0) labels (\<lambda>q. ac_mOTSend (A q) ! (b mod ac_mNumInitThreads a))
           (\<lambda>q. ac_mBuckets (A q) ! b) inp gens os js fs r)"

text \<open>The result of an execution of \<open>r\<close>, given the matches of its intersection.\<close>

definition execution_right ::
  "nat \<Rightarrow> nat \<Rightarrow> (u8 list \<Rightarrow> u8 list) \<Rightarrow> (role \<Rightarrow> DualExActor) \<Rightarrow> nat \<Rightarrow> nat \<Rightarrow> block list \<Rightarrow> (role \<Rightarrow> bitvec) \<Rightarrow> (role \<Rightarrow> nat \<Rightarrow> prng)
   \<Rightarrow> (role \<Rightarrow> nat list) \<Rightarrow> (role \<Rightarrow> nat list) \<Rightarrow> (role \<Rightarrow> nat list) \<Rightarrow> role \<Rightarrow> bool list \<Rightarrow> bool list \<Rightarrow> bool" where
  "execution_right pEval tEval sha A b n labels inp gens os js fs r ms y \<longleftrightarrow>
     length ms = n \<and> True \<in> set ms
     \<and> map_sum id fst (actor_matches pEval tEval sha A b labels inp gens os js r) = Inr ms
     \<and> (length (filter id ms) = 1 \<longrightarrow> map_sum id bv_list (actor_execute pEval tEval sha A b labels inp gens os js fs r) = Inr y)
     \<and> (1 < length (filter id ms) \<longrightarrow> actor_execute pEval tEval sha A b labels inp gens os js fs r = Inl FutureError)"

lemma card_matches: "card {c. c < length ms \<and> ms ! c} = length (filter id ms)"
  by (simp add: length_filter_conv_card)

lemma execute_after_offline:
  assumes "actors_ok sha C cir K E B Op N T w ix" and "lk_actor l = C"
    and "\<forall>k<6. distinct (ord k) \<and> set (ord k) = UNIV \<times> {..<T}"
    and "Inputs cir First = Inputs cir Second" and "length labels = mWireCount cir"
    and "\<And>g xs. mset (fst (shuffle g xs)) = mset xs" and "\<forall>r. \<forall>b<E. bk_mOutputMissCount (ac_mBuckets (C r) ! b) = 0"
    and "B < 2 ^ 32" and "w \<le> 128" and "0 < w" and "orders_ok B os" and "orders_ok B js" and "orders_ok B fs"
    and "0 < pEval" and "B \<le> tEval"
  shows "\<exists>l'. offline_phase sha shuffle seeds ord l = Inr l'
     \<and> (\<forall>b<E. \<forall>inp gens r. (\<forall>r. bv_bits (inp r) = Inputs cir r) \<longrightarrow>
          (\<exists>ms. execution_right pEval tEval sha (lk_actor l') b B labels inp gens os js fs r ms
             (circuit_sem cir (joint_input cir (bv_get (inp First)) (bv_get (inp Second))))))"
proof -
  obtain l' m c bk where l': "offline_phase sha shuffle seeds ord l = Inr l'" and act: "lk_actor l' = act C m c bk"
    and b: "\<forall>b<E. \<exists>P. bucket_honest sha cir B ix (mNonXorGateCount cir * 2) K P \<and> psi_paired C T B w b P
          \<and> (\<forall>r. party_offline sha shuffle cir B w ix K P r = Inr (ac_mBuckets (lk_actor l' r) ! b)
               \<and> party_ready cir B ix K P r (ac_mBuckets (lk_actor l' r) ! b))"
    using offline_phase_ok [OF assms(1-3), of shuffle seeds] by blast
  let ?A = "lk_actor l'"
  have A: "ac_mCircuit (?A r) = cir" "ac_mBucketSize (?A r) = B" "ac_mIndexArray (?A r) = ix" "ac_mNumInitThreads (?A r) = T"
    "ac_mOTSend (?A r) = ac_mOTSend (C r)" for r
    using actors_ok_buckets [OF assms(1)] by (simp_all add: act)
  have sz: "\<forall>r. package_sizes cir r (K r) (K (other r)) ix (length (replicate (mNonXorGateCount cir * 2) (0 :: block)))"
    using actors_ok_sizes [OF assms(1)] actors_ok_buckets [OF assms(1)] by (simp add: actor_sizes_def masks_size_def)
  have "\<exists>ms. execution_right pEval tEval sha ?A b B labels inp gens os js fs r ms
      (circuit_sem cir (joint_input cir (bv_get (inp First)) (bv_get (inp Second))))"
    if i: "b < E" "\<forall>r. bv_bits (inp r) = Inputs cir r" for b inp gens r
  proof -
    obtain P where P: "bucket_honest sha cir B ix (mNonXorGateCount cir * 2) K P" "psi_paired C T B w b P"
      "\<And>r. party_offline sha shuffle cir B w ix K P r = Inr (ac_mBuckets (?A r) ! b)"
      "\<And>r. party_ready cir B ix K P r (ac_mBuckets (?A r) ! b)" using b i(1) by blast
    have psi: "psi_ready B w (\<lambda>q. ac_mOTSend (?A q) ! (b mod T)) (\<lambda>q. ac_mBuckets (?A q) ! b)"
      using psi_ready_offline [OF assms(1) P(2,3) assms(6)] assms(7) i(1) by (simp add: A)
    have inp: "bv_bits (inp r) = Inputs cir r" using i(2) by blast
    obtain ms bk where ms: "actor_matches pEval tEval sha ?A b labels inp gens os js r = Inr (ms, bk)" "length ms = B"
      "0 < length (filter id ms)"
      "length (filter id ms) = 1 \<longrightarrow> map_sum id bv_list (actor_execute pEval tEval sha ?A b labels inp gens os js fs r)
          = Inr (circuit_sem cir (joint_input cir (bv_get (inp First)) (bv_get (inp Second))))"
      "1 < length (filter id ms) \<longrightarrow> actor_execute pEval tEval sha ?A b labels inp gens os js fs r = Inl FutureError"
      using execute_ok [where bks = "\<lambda>q. ac_mBuckets (?A q) ! b" and inp = inp and r = r and gens = gens,
          OF P(1) assms(4,5) sz P(4) psi assms(8-15) inp]
      unfolding actor_matches_def actor_execute_def Let_def A eval_checks(2) [THEN iffD2, OF assms(14)] eval_checks(1) [THEN iffD2, OF assms(15)] bind_r.simps by (auto simp flip: card_matches)
    have "True \<in> set ms" using ms(3) by (auto simp: length_filter_conv_card card_gt_0_iff in_set_conv_nth)
    then show ?thesis using ms by (intro exI [of _ ms]) (simp add: execution_right_def A)
  qed
  then show ?thesis using l' by blast
qed

end
