(* ===== verification/BDX_BaseOT.thy ===== *)
theory BDX_BaseOT
  imports BDX_OTExt
begin

text \<open>
  The base OTs: \<open>OT/BaseOT.{h,cpp}\<close> on the dual-mode encryption of \<open>OT/Math/DMC.{h,cpp}\<close> (Peikert,
  Vaikuntanathan and Waters) over the curve P-256. Big integers, the curve and the generator of the
  MIRACL library are the fields of a record \<open>M\<close>; \<open>miracl_ok\<close> states what its manual says of
  them: points form a module over the integers, and the two conversions undo each other.
  The roles are \<open>Sender\<close> and \<open>Receiver\<close>, as the program uses them (\<open>Both\<close> runs the two at once).
\<close>

record ('p, 'g) miracl =
  mi_add :: "'p \<Rightarrow> 'p \<Rightarrow> 'p"
  mi_sub :: "'p \<Rightarrow> 'p \<Rightarrow> 'p"
  mi_mul :: "int \<Rightarrow> 'p \<Rightarrow> 'p"
  mi_mul2 :: "int \<Rightarrow> 'p \<Rightarrow> int \<Rightarrow> 'p \<Rightarrow> 'p"
  mi_get :: "'p \<Rightarrow> int \<times> int"
  mi_ECn :: "int \<Rightarrow> int \<Rightarrow> 'p"
  mi_to_binary :: "int \<Rightarrow> nat \<Rightarrow> u8 list"
  mi_from_binary :: "u8 list \<Rightarrow> int"
  mi_strong_init :: "u8 list \<Rightarrow> 'g"
  mi_strong_rand :: "'g \<Rightarrow> nat \<Rightarrow> int \<times> 'g"
  mi_jacobi :: "int \<Rightarrow> int \<Rightarrow> int"
  mi_sqrt :: "int \<Rightarrow> int \<Rightarrow> int"

definition miracl_ok :: "('p, 'g) miracl \<Rightarrow> bool" where
  "miracl_ok M \<longleftrightarrow>
     (\<forall>s t P. mi_mul M s (mi_mul M t P) = mi_mul M (s * t) P)
     \<and> (\<forall>s P Q. mi_mul M s (mi_add M P Q) = mi_add M (mi_mul M s P) (mi_mul M s Q))
     \<and> (\<forall>s P t Q. mi_mul2 M s P t Q = mi_add M (mi_mul M s P) (mi_mul M t Q))
     \<and> (\<forall>P Q. mi_sub M (mi_add M P Q) P = Q)
     \<and> (\<forall>P. mi_ECn M (fst (mi_get M P)) (snd (mi_get M P)) = P)
     \<and> (\<forall>P. \<forall>z\<in>{fst (mi_get M P), snd (mi_get M P)}.
          length (mi_to_binary M z 50) \<le> 50 \<and> mi_from_binary M (mi_to_binary M z 50) = z)"

section \<open>The dual-mode cryptosystem\<close>

record 'p CRS =
  crs_g0 :: 'p
  crs_h0 :: 'p
  crs_g1 :: 'p
  crs_h1 :: 'p
  crs_num_bits :: nat

definition crs_g :: "'p CRS \<Rightarrow> bool \<Rightarrow> 'p" where
  "crs_g crs sigma = (if sigma then crs_g1 crs else crs_g0 crs)"

definition crs_h :: "'p CRS \<Rightarrow> bool \<Rightarrow> 'p" where
  "crs_h crs sigma = (if sigma then crs_h1 crs else crs_h0 crs)"

definition p256_b :: int where
  "p256_b = 0x5AC635D8AA3A93E7B3EBBD55769886BC651D06B0CC53B0F63BCE3C3E27D2604B"

definition p256_p :: int where
  "p256_p = 0xFFFFFFFF00000001000000000000000000000000FFFFFFFFFFFFFFFFFFFFFFFF"

definition curve_rhs :: "int \<Rightarrow> int" where
  "curve_rhs x = x * x * x + (- 3) * x + p256_b"

text \<open>The search for the four points with the smallest abscissas; \<open>y\<close> is the smaller root.\<close>

definition crs_point :: "('p, 'g) miracl \<Rightarrow> int \<Rightarrow> 'p" where
  "crs_point M x =
     (let y = mi_sqrt M (curve_rhs x) p256_p
      in mi_ECn M x (if y > p256_p div 2 then p256_p - y else y))"

partial_function (option) crs_search :: "('p, 'g) miracl \<Rightarrow> int \<Rightarrow> 'p list \<Rightarrow> 'p list option" where
  "crs_search M x pts =
     (if length pts < 4
      then crs_search M (x + 1) (if mi_jacobi M (curve_rhs x) p256_p = 1 then pts @ [crs_point M x] else pts)
      else Some pts)"

definition CRS_new :: "('p, 'g) miracl \<Rightarrow> 'p CRS option" where
  "CRS_new M =
     map_option (\<lambda>pts. \<lparr>crs_g0 = pts ! 0, crs_h0 = pts ! 1, crs_g1 = pts ! 2, crs_h1 = pts ! 3, crs_num_bits = 256\<rparr>)
       (crs_search M 1 [])"

definition KeyGen :: "('p, 'g) miracl \<Rightarrow> bool \<Rightarrow> 'p CRS \<Rightarrow> 'g \<Rightarrow> int \<times> ('p \<times> 'p) \<times> 'g" where
  "KeyGen M sigma crs rng =
     (let (sk, rng) = mi_strong_rand M rng (crs_num_bits crs)
      in (sk, (mi_mul M sk (crs_g crs sigma), mi_mul M sk (crs_h crs sigma)), rng))"

definition Randomize :: "('p, 'g) miracl \<Rightarrow> 'p \<Rightarrow> 'p \<Rightarrow> 'p \<Rightarrow> 'p \<Rightarrow> nat \<Rightarrow> 'g \<Rightarrow> ('p \<times> 'p) \<times> 'g" where
  "Randomize M g h gd hd' bitsize rng =
     (let (s, rng) = mi_strong_rand M rng bitsize;
          (t, rng) = mi_strong_rand M rng bitsize
      in ((mi_mul2 M s g t h, mi_mul2 M s gd t hd'), rng))"

definition PK_Encrypt :: "('p, 'g) miracl \<Rightarrow> 'p \<times> 'p \<Rightarrow> 'p \<Rightarrow> bool \<Rightarrow> 'p CRS \<Rightarrow> 'g \<Rightarrow> ('p \<times> 'p) \<times> 'g" where
  "PK_Encrypt M pk m branch crs rng =
     (let ((c0, c1), rng) = Randomize M (crs_g crs branch) (crs_h crs branch) (fst pk) (snd pk) 256 rng
      in ((c0, mi_add M c1 m), rng))"

definition SK_Decrypt :: "('p, 'g) miracl \<Rightarrow> int \<Rightarrow> 'p \<times> 'p \<Rightarrow> 'p" where
  "SK_Decrypt M sk c = mi_sub M (snd c) (mi_mul M sk (fst c))"

section \<open>Points in byte streams\<close>

definition pack_big :: "('p, 'g) miracl \<Rightarrow> bytestream \<Rightarrow> int \<Rightarrow> bytestream" where
  "pack_big M s z = bs_store_bytes s (mi_to_binary M z 50)"

text \<open>The receiver copies as many bytes as the message says into a buffer of 50.\<close>

definition unpack_big :: "('p, 'g) miracl \<Rightarrow> bytestream \<Rightarrow> (int \<times> bytestream) result" where
  "unpack_big M s =
     (case bs_get_bytes s of
        None \<Rightarrow> Inl UndefinedBehaviour
      | Some (d, s) \<Rightarrow>
          if length d > 50 \<or> None \<in> set d then Inl UndefinedBehaviour
          else Inr (mi_from_binary M (map the d), s))"

definition pack_point :: "('p, 'g) miracl \<Rightarrow> bytestream \<Rightarrow> 'p \<Rightarrow> bytestream" where
  "pack_point M s P = (let (x, y) = mi_get M P in pack_big M (pack_big M s x) y)"

definition unpack_point :: "('p, 'g) miracl \<Rightarrow> bytestream \<Rightarrow> ('p \<times> bytestream) result" where
  "unpack_point M s =
     bind_r (unpack_big M s) (\<lambda>(x, s). bind_r (unpack_big M s) (\<lambda>(y, s). Inr (mi_ECn M x y, s)))"

definition pack_points :: "('p, 'g) miracl \<Rightarrow> bytestream \<Rightarrow> 'p \<times> 'p \<Rightarrow> bytestream" where
  "pack_points M s c = pack_point M (pack_point M s (fst c)) (snd c)"

definition unpack_points :: "('p, 'g) miracl \<Rightarrow> bytestream \<Rightarrow> (('p \<times> 'p) \<times> bytestream) result" where
  "unpack_points M s =
     bind_r (unpack_point M s) (\<lambda>(P, s). bind_r (unpack_point M s) (\<lambda>(Q, s). Inr ((P, Q), s)))"

text \<open>A stream after a message arrived, and the message a stream is sent as.\<close>

definition bs_recv :: "bytestream \<Rightarrow> u8 list \<Rightarrow> bytestream" where
  "bs_recv s msg = bs_fill (bs_channel_resize s (length msg)) msg"

definition bs_message :: "bytestream \<Rightarrow> u8 list" where
  "bs_message s = map the (bs_unread s)"

section \<open>The OTs on points\<close>

text \<open>\<open>Exec_OT\<close> of the receiver up to its message: one key per choice bit, on the branch of the bit.\<close>

definition base_key_step ::
  "('p, 'g) miracl \<Rightarrow> 'p CRS \<Rightarrow> bitvec \<Rightarrow> nat \<Rightarrow> int list \<times> bytestream \<times> 'g \<Rightarrow> int list \<times> bytestream \<times> 'g" where
  "base_key_step M crs bits i st =
     (let (sks, strm, rng) = st;
          (sk, pk, rng) = KeyGen M (bv_get bits i) crs rng
      in (sks @ [sk], pack_points M strm pk, rng))"

definition base_keys ::
  "('p, 'g) miracl \<Rightarrow> 'p CRS \<Rightarrow> bitvec \<Rightarrow> 'g \<Rightarrow> int list \<times> bytestream \<times> 'g" where
  "base_keys M crs bits rng = fold (base_key_step M crs bits) [0..<bv_bits bits] ([], bs_new 512, rng)"

text \<open>The sender: two random points per OT, each encrypted on its branch under the receiver's key.\<close>

definition base_encrypt_step ::
  "('p, 'g) miracl \<Rightarrow> 'p CRS \<Rightarrow> nat \<Rightarrow> ('p \<times> 'p) list \<times> bytestream \<times> bytestream \<times> 'g
   \<Rightarrow> (('p \<times> 'p) list \<times> bytestream \<times> bytestream \<times> 'g) result" where
  "base_encrypt_step M crs i st =
     (let (inputs, strm0, strm1, rng) = st;
          (z0, rng) = mi_strong_rand M rng (crs_num_bits crs);
          m0 = mi_mul M z0 (crs_g crs False);
          (z1, rng) = mi_strong_rand M rng (crs_num_bits crs);
          m1 = mi_mul M z1 (crs_g crs False)
      in bind_r (unpack_points M strm1) (\<lambda>(pk, strm1).
         (let (c, rng) = PK_Encrypt M pk m0 False crs rng;
              strm0 = pack_points M strm0 c;
              (c, rng) = PK_Encrypt M pk m1 True crs rng;
              strm0 = pack_points M strm0 c
          in Inr (inputs @ [(m0, m1)], strm0, strm1, rng))))"

definition base_encrypt ::
  "('p, 'g) miracl \<Rightarrow> 'p CRS \<Rightarrow> nat \<Rightarrow> u8 list \<Rightarrow> 'g \<Rightarrow> (('p \<times> 'p) list \<times> u8 list) result" where
  "base_encrypt M crs n msg rng =
     bind_r (fold_r (base_encrypt_step M crs) [0..<n] ([], bs_new 512, bs_recv (bs_new 512) msg, rng))
       (\<lambda>(inputs, strm0, _, _). Inr (inputs, bs_bytes strm0))"

text \<open>The receiver decrypts the ciphertext of its choice bit.\<close>

definition base_decrypt_step ::
  "('p, 'g) miracl \<Rightarrow> bitvec \<Rightarrow> int list \<Rightarrow> nat \<Rightarrow> 'p list \<times> bytestream \<Rightarrow> ('p list \<times> bytestream) result" where
  "base_decrypt_step M bits sks i st =
     (let (outs, strm1) = st
      in bind_r (unpack_points M strm1) (\<lambda>(c0, strm1). bind_r (unpack_points M strm1) (\<lambda>(c1, strm1).
           Inr (outs @ [SK_Decrypt M (sks ! i) (if bv_get bits i then c1 else c0)], strm1))))"

definition base_decrypt :: "('p, 'g) miracl \<Rightarrow> bitvec \<Rightarrow> int list \<Rightarrow> u8 list \<Rightarrow> 'p list result" where
  "base_decrypt M bits sks msg =
     bind_r (fold_r (base_decrypt_step M bits sks) [0..<bv_bits bits] ([], bs_recv (bs_new 512) msg)) (\<lambda>(outs, _). Inr outs)"

section \<open>\<open>exec_base\<close>\<close>

text \<open>A point is hashed to a block; the stream \<open>s\<close> is used again for every point.\<close>

definition hash_point :: "(u8 list \<Rightarrow> u8 list) \<Rightarrow> ('p, 'g) miracl \<Rightarrow> bytestream \<Rightarrow> 'p \<Rightarrow> (block \<times> bytestream) result" where
  "hash_point sha M s P =
     bind_r (bs_setp s 0) (\<lambda>s. let s = pack_point M s P
       in Inr (block_of_bytes (sha (sha1_Update sha1_Reset (bs_bytes s))), s))"

fun hash_points :: "(u8 list \<Rightarrow> u8 list) \<Rightarrow> ('p, 'g) miracl \<Rightarrow> bytestream \<Rightarrow> 'p list \<Rightarrow> block list result" where
  "hash_points sha M s [] = Inr []"
| "hash_points sha M s (P # Ps) =
     bind_r (hash_point sha M s P) (\<lambda>(b, s). bind_r (hash_points sha M s Ps) (\<lambda>bs. Inr (b # bs)))"

fun hash_pairs ::
  "(u8 list \<Rightarrow> u8 list) \<Rightarrow> ('p, 'g) miracl \<Rightarrow> bytestream \<Rightarrow> ('p \<times> 'p) list \<Rightarrow> (block \<times> block) list result" where
  "hash_pairs sha M s [] = Inr []"
| "hash_pairs sha M s ((P, Q) # PQs) =
     bind_r (hash_point sha M s P) (\<lambda>(b, s). bind_r (hash_point sha M s Q) (\<lambda>(c, s).
       bind_r (hash_pairs sha M s PQs) (\<lambda>bs. Inr ((b, c) # bs))))"

definition exec_base_receiver_start ::
  "('p, 'g) miracl \<Rightarrow> 'p CRS \<Rightarrow> prng \<Rightarrow> u8 list \<times> bitvec \<times> int list \<times> prng" where
  "exec_base_receiver_start M crs G =
     (let (data, G) = get_u8s G 100;
          bits = bv_reset bv_empty BASE_OT_COUNT;
          (rnd, G) = get_u8s G (bv_sizeBytes bits);
          bits = bv_randomize bits rnd;
          (sks, strm, _) = base_keys M crs bits (mi_strong_init M data)
      in (bs_message strm, bits, sks, G))"

definition exec_base_receiver_finish ::
  "(u8 list \<Rightarrow> u8 list) \<Rightarrow> ('p, 'g) miracl \<Rightarrow> bitvec \<Rightarrow> int list \<Rightarrow> u8 list \<Rightarrow> block list result" where
  "exec_base_receiver_finish sha M bits sks msg =
     bind_r (base_decrypt M bits sks msg) (hash_points sha M (bs_new 512))"

definition exec_base_sender ::
  "(u8 list \<Rightarrow> u8 list) \<Rightarrow> ('p, 'g) miracl \<Rightarrow> 'p CRS \<Rightarrow> prng \<Rightarrow> u8 list \<Rightarrow> ((block \<times> block) list \<times> u8 list \<times> prng) result" where
  "exec_base_sender sha M crs G msg =
     (let (data, G) = get_u8s G 100
      in bind_r (base_encrypt M crs BASE_OT_COUNT msg (mi_strong_init M data)) (\<lambda>(inputs, out).
         bind_r (hash_pairs sha M (bs_new 512) inputs) (\<lambda>sender_inputs. Inr (sender_inputs, out, G))))"

text \<open>Both parties: the sender's blocks, the receiver's choice bits and blocks, the generators after.\<close>

definition BaseOT_run ::
  "(u8 list \<Rightarrow> u8 list) \<Rightarrow> ('p, 'g) miracl \<Rightarrow> 'p CRS \<Rightarrow> prng \<Rightarrow> prng
   \<Rightarrow> ((block \<times> block) list \<times> block list \<times> bitvec \<times> prng \<times> prng) result" where
  "BaseOT_run sha M crs GS GR =
     (let (msg, bits, sks, GR) = exec_base_receiver_start M crs GR
      in bind_r (exec_base_sender sha M crs GS msg) (\<lambda>(sender_inputs, out, GS).
         bind_r (exec_base_receiver_finish sha M bits sks out) (\<lambda>receiver_outputs.
           Inr (sender_inputs, receiver_outputs, bits, GS, GR))))"

text \<open>\<open>check\<close>: the sender reveals both blocks of an OT, the receiver compares its own.\<close>

definition BaseOT_check_send :: "block \<times> block \<Rightarrow> u8 list result" where
  "BaseOT_check_send inputs =
     (if fst inputs = snd inputs then Inl RuntimeError else Inr (ByteArray (fst inputs) @ ByteArray (snd inputs)))"

definition BaseOT_check_recv :: "bitvec \<Rightarrow> block list \<Rightarrow> nat \<Rightarrow> u8 list \<Rightarrow> unit result" where
  "BaseOT_check_recv bits outs i msg =
     bind_r (bs_consume (bs_recv (bs_new 512) msg) 16) (\<lambda>(d, os).
     bind_r (if bv_get bits i then bs_consume os 16 else Inr (d, os)) (\<lambda>(d, os).
       require (block_of_bytes (map the d) = outs ! i) RuntimeError))"

definition BaseOT_check :: "(block \<times> block) list \<Rightarrow> block list \<Rightarrow> bitvec \<Rightarrow> unit result" where
  "BaseOT_check inputs outs bits =
     each_r (\<lambda>i. bind_r (BaseOT_check_send (inputs ! i)) (BaseOT_check_recv bits outs i)) [0..<BASE_OT_COUNT]"

section \<open>Encryption\<close>

lemma decrypt_encrypt:
  assumes "miracl_ok M" and "KeyGen M sigma crs rng = (sk, pk, rng')"
  shows "SK_Decrypt M sk (fst (PK_Encrypt M pk m sigma crs rng'')) = m"
  using assms
  by (auto simp: miracl_ok_def KeyGen_def PK_Encrypt_def Randomize_def SK_Decrypt_def mult.commute split: prod.splits)

section \<open>Fields in byte streams\<close>

definition field :: "u8 list \<Rightarrow> u8 list" where
  "field x = encode_u32 (word_of_nat (length x)) @ x"

lemma length_field [simp]: "length (field x) = 4 + length x"
  by (simp add: field_def)

lemma store_field:
  assumes "bs_wf s" and "bs_room s (length (field x))"
  shows "bs_wf (bs_store_bytes s x)" and "bs_unread (bs_store_bytes s x) = bs_unread s @ map Some (field x)"
    and "bs_w (bs_store_bytes s x) = bs_w s + length (field x)" and "bs_r (bs_store_bytes s x) = bs_r s"
  using bs_store_unread [OF assms(1), of x] assms(2) by (simp_all add: field_def)

lemma get_field:
  assumes "bs_wf s" and "bs_unread s = map Some (field x) @ rest" and "length x < 2 ^ 32"
  shows "\<exists>t. bs_get_bytes s = Some (map Some x, t) \<and> bs_wf t \<and> bs_unread t = rest"
proof -
  have l: "4 + length x \<le> length (bs_unread s)" using assms(2) by simp
  have "bs_get_bytes s = Some (map Some x, s\<lparr>bs_r := bs_r s + (4 + length x)\<rparr>)"
    using bs_get_unread [OF assms(1) _ assms(3), of rest] assms(2) by (simp add: field_def add.assoc)
  then show ?thesis
    using bs_consume_ok(2,3) [OF assms(1) l] assms(2) by (auto simp: field_def)
qed

lemma bs_recv_unread:
  assumes "length msg < 2 ^ 62"
  shows "bs_wf (bs_recv (bs_new 512) msg)" and "bs_unread (bs_recv (bs_new 512) msg) = map Some msg"
  using assms by (auto simp: bs_recv_def bs_channel_resize_def bs_fill_def bs_new_def bs_wf_def bs_mxlen_def bs_unread_def blit_def)

definition enc_point :: "('p, 'g) miracl \<Rightarrow> 'p \<Rightarrow> u8 list" where
  "enc_point M P = field (mi_to_binary M (fst (mi_get M P)) 50) @ field (mi_to_binary M (snd (mi_get M P)) 50)"

definition enc_points :: "('p, 'g) miracl \<Rightarrow> 'p \<times> 'p \<Rightarrow> u8 list" where
  "enc_points M c = enc_point M (fst c) @ enc_point M (snd c)"

lemma length_enc_points:
  assumes "miracl_ok M"
  shows "length (enc_points M c) \<le> 216"
proof -
  have "length (mi_to_binary M (fst (mi_get M P)) 50) \<le> 50" "length (mi_to_binary M (snd (mi_get M P)) 50) \<le> 50" for P
    using assms by (simp_all add: miracl_ok_def)
  from this [of "fst c"] this [of "snd c"] show ?thesis by (simp add: enc_points_def enc_point_def)
qed

lemma pack_point_unread:
  assumes "bs_wf s" and "bs_room s (length (enc_point M P))"
  shows "bs_wf (pack_point M s P)" and "bs_unread (pack_point M s P) = bs_unread s @ map Some (enc_point M P)"
    and "bs_w (pack_point M s P) = bs_w s + length (enc_point M P)" and "bs_r (pack_point M s P) = bs_r s"
proof -
  let ?x = "mi_to_binary M (fst (mi_get M P)) 50" and ?y = "mi_to_binary M (snd (mi_get M P)) 50"
  let ?s = "bs_store_bytes s ?x"
  have r: "bs_room s (length (field ?x))" using assms(2) by (simp add: bs_room_def enc_point_def)
  note x = store_field [OF assms(1) r]
  have "bs_room ?s (length (field ?y))" using assms(2) x(3) by (simp add: bs_room_def enc_point_def)
  note y = store_field [OF x(1) this]
  have e: "pack_point M s P = bs_store_bytes ?s ?y" by (simp add: pack_point_def pack_big_def split_beta)
  show "bs_wf (pack_point M s P)" "bs_unread (pack_point M s P) = bs_unread s @ map Some (enc_point M P)"
    "bs_w (pack_point M s P) = bs_w s + length (enc_point M P)" "bs_r (pack_point M s P) = bs_r s"
    using x y by (simp_all add: e enc_point_def)
qed

lemma pack_points_unread:
  assumes "bs_wf s" and "bs_room s (length (enc_points M c))"
  shows "bs_wf (pack_points M s c)" and "bs_unread (pack_points M s c) = bs_unread s @ map Some (enc_points M c)"
    and "bs_w (pack_points M s c) = bs_w s + length (enc_points M c)" and "bs_r (pack_points M s c) = bs_r s"
proof -
  have r: "bs_room s (length (enc_point M (fst c)))" using assms(2) by (simp add: bs_room_def enc_points_def)
  note x = pack_point_unread [OF assms(1) r]
  have "bs_room (pack_point M s (fst c)) (length (enc_point M (snd c)))"
    using assms(2) x(3) by (simp add: bs_room_def enc_points_def)
  note y = pack_point_unread [OF x(1) this]
  show "bs_wf (pack_points M s c)" "bs_unread (pack_points M s c) = bs_unread s @ map Some (enc_points M c)"
    "bs_w (pack_points M s c) = bs_w s + length (enc_points M c)" "bs_r (pack_points M s c) = bs_r s"
    using x y by (simp_all add: pack_points_def enc_points_def)
qed

lemma unpack_point_ok:
  assumes "miracl_ok M" and "bs_wf s" and "bs_unread s = map Some (enc_point M P) @ rest"
  shows "\<exists>t. unpack_point M s = Inr (P, t) \<and> bs_wf t \<and> bs_unread t = rest"
proof -
  obtain x y where P: "mi_get M P = (x, y)" by fastforce
  have big: "\<exists>t. unpack_big M s = Inr (z, t) \<and> bs_wf t \<and> bs_unread t = rest"
    if "z \<in> {x, y}" "bs_wf s" "bs_unread s = map Some (field (mi_to_binary M z 50)) @ rest" for z s rest
  proof -
    have z: "length (mi_to_binary M z 50) \<le> 50" "mi_from_binary M (mi_to_binary M z 50) = z"
      using assms(1) that(1) unfolding miracl_ok_def by (metis P fst_conv snd_conv)+
    have "length (mi_to_binary M z 50) < 2 ^ 32" using z(1) by simp
    from get_field [OF that(2,3) this] show ?thesis using z by (auto simp: unpack_big_def comp_def)
  qed
  have u: "bs_unread s = map Some (field (mi_to_binary M x 50)) @ map Some (field (mi_to_binary M y 50)) @ rest"
    using assms(3) by (simp add: enc_point_def P)
  obtain t where t: "unpack_big M s = Inr (x, t)" "bs_wf t" "bs_unread t = map Some (field (mi_to_binary M y 50)) @ rest"
    using big [OF _ assms(2) u] by blast
  obtain v where v: "unpack_big M t = Inr (y, v)" "bs_wf v" "bs_unread v = rest" using big [OF _ t(2,3)] by blast
  have "mi_ECn M x y = P" using assms(1) unfolding miracl_ok_def by (metis P fst_conv snd_conv)
  then show ?thesis using t(1) v by (simp add: unpack_point_def)
qed

lemma unpack_points_ok:
  assumes "miracl_ok M" and "bs_wf s" and "bs_unread s = map Some (enc_points M c) @ rest"
  shows "\<exists>t. unpack_points M s = Inr (c, t) \<and> bs_wf t \<and> bs_unread t = rest"
proof -
  have "bs_unread s = map Some (enc_point M (fst c)) @ map Some (enc_point M (snd c)) @ rest"
    using assms(3) by (simp add: enc_points_def)
  from unpack_point_ok [OF assms(1,2) this] obtain t where
    t: "unpack_point M s = Inr (fst c, t)" "bs_wf t" "bs_unread t = map Some (enc_point M (snd c)) @ rest" by blast
  from unpack_point_ok [OF assms(1) t(2,3)] t(1) show ?thesis by (auto simp: unpack_points_def)
qed

section \<open>The OTs on points, honest parties\<close>

definition key_pair :: "('p, 'g) miracl \<Rightarrow> 'p CRS \<Rightarrow> bool \<Rightarrow> int \<Rightarrow> 'p \<times> 'p \<Rightarrow> bool" where
  "key_pair M crs sigma sk pk \<longleftrightarrow> (\<exists>rng rng'. KeyGen M sigma crs rng = (sk, pk, rng'))"

lemma decrypt_key_pair:
  "miracl_ok M \<Longrightarrow> key_pair M crs sigma sk pk \<Longrightarrow> SK_Decrypt M sk (fst (PK_Encrypt M pk m sigma crs rng)) = m"
  unfolding key_pair_def by (elim exE) (rule decrypt_encrypt)

text \<open>A stream that holds \<open>msgs\<close> and was only written to.\<close>

definition holds :: "bytestream \<Rightarrow> u8 list \<Rightarrow> bool" where
  "holds s msg \<longleftrightarrow> bs_wf s \<and> bs_r s = 0 \<and> bs_w s = length msg \<and> bs_unread s = map Some msg"

lemma holds_new: "holds (bs_new 512) []"
  by (simp add: holds_def bs_wf_new) (simp add: bs_new_def)

lemma holds_pack:
  "holds s msg \<Longrightarrow> length msg + length (enc_points M c) < 2 ^ 62 \<Longrightarrow> holds (pack_points M s c) (msg @ enc_points M c)"
  using pack_points_unread [of s M c] by (simp add: holds_def bs_room_def)

lemma holds_bytes: "holds s msg \<Longrightarrow> bs_message s = msg" "holds s msg \<Longrightarrow> bs_bytes s = msg"
  by (auto simp: holds_def bs_message_def bs_bytes_def bs_unread_def comp_def)

lemma length_concat_le: "(\<And>x. x \<in> set xs \<Longrightarrow> length (f x) \<le> k) \<Longrightarrow> length (concat (map f xs)) \<le> k * length xs"
  by (induction xs) (auto simp: add_mono)

lemma base_keys_ok:
  assumes M: "miracl_ok M" and "n \<le> 2 ^ 30"
  shows "\<exists>sks pks strm rng'. fold (base_key_step M crs bits) [0..<n] ([], bs_new 512, rng) = (sks, strm, rng')
     \<and> length sks = n \<and> length pks = n \<and> (\<forall>i<n. key_pair M crs (bv_get bits i) (sks ! i) (pks ! i))
     \<and> holds strm (concat (map (enc_points M) pks))"
  using assms(2)
proof (induction n)
  case 0
  then show ?case using holds_new by simp
next
  case (Suc n)
  then obtain sks pks strm rng' where I: "fold (base_key_step M crs bits) [0..<n] ([], bs_new 512, rng) = (sks, strm, rng')"
     "length sks = n" "length pks = n" "\<forall>i<n. key_pair M crs (bv_get bits i) (sks ! i) (pks ! i)"
     "holds strm (concat (map (enc_points M) pks))" by auto
  obtain sk pk rng'' where k: "KeyGen M (bv_get bits n) crs rng' = (sk, pk, rng'')" using prod_cases3 by blast
  have s: "fold (base_key_step M crs bits) [0..<Suc n] ([], bs_new 512, rng) = (sks @ [sk], pack_points M strm pk, rng'')"
    using I(1) k by (simp add: base_key_step_def)
  have "length (concat (map (enc_points M) pks)) \<le> 216 * n"
    using length_concat_le [of pks "enc_points M" 216] length_enc_points [OF M] I(3) by simp
  then have "length (concat (map (enc_points M) pks)) + length (enc_points M pk) < 2 ^ 62"
    using length_enc_points [OF M, of pk] Suc.prems by simp
  from holds_pack [OF I(5) this] have "holds (pack_points M strm pk) (concat (map (enc_points M) (pks @ [pk])))" by simp
  moreover have "key_pair M crs (bv_get bits n) sk pk" using k by (auto simp: key_pair_def)
  ultimately show ?case
    using s I(2-4) by (intro exI [of _ "sks @ [sk]"] exI [of _ "pks @ [pk]"] exI [of _ "pack_points M strm pk"] exI [of _ rng''])
      (simp add: nth_append less_Suc_eq)
qed

text \<open>The ciphertexts of one OT.\<close>

definition encrypted :: "('p, 'g) miracl \<Rightarrow> 'p CRS \<Rightarrow> 'p \<times> 'p \<Rightarrow> 'p \<times> 'p \<Rightarrow> ('p \<times> 'p) \<times> ('p \<times> 'p) \<Rightarrow> bool" where
  "encrypted M crs pk m c \<longleftrightarrow>
     (\<exists>r0 r1. fst c = fst (PK_Encrypt M pk (fst m) False crs r0) \<and> snd c = fst (PK_Encrypt M pk (snd m) True crs r1))"

definition enc_ciphertext :: "('p, 'g) miracl \<Rightarrow> ('p \<times> 'p) \<times> ('p \<times> 'p) \<Rightarrow> u8 list" where
  "enc_ciphertext M c = enc_points M (fst c) @ enc_points M (snd c)"

lemma length_enc_ciphertext: "miracl_ok M \<Longrightarrow> length (enc_ciphertext M c) \<le> 432"
  using length_enc_points [of M "fst c"] length_enc_points [of M "snd c"] by (simp add: enc_ciphertext_def)

lemma base_encrypt_steps:
  assumes M: "miracl_ok M" and "n \<le> length pks" and "length pks \<le> 2 ^ 30" and "bs_wf strm1"
    and "bs_unread strm1 = map Some (concat (map (enc_points M) pks))"
  shows "\<exists>inputs cs strm0 t rng'. fold_r (base_encrypt_step M crs) [0..<n] ([], bs_new 512, strm1, rng) = Inr (inputs, strm0, t, rng')
     \<and> length inputs = n \<and> length cs = n \<and> (\<forall>i<n. encrypted M crs (pks ! i) (inputs ! i) (cs ! i))
     \<and> holds strm0 (concat (map (enc_ciphertext M) cs))
     \<and> bs_wf t \<and> bs_unread t = map Some (concat (map (enc_points M) (drop n pks)))"
  using assms(2)
proof (induction n)
  case 0
  then show ?case using holds_new assms(4,5) by simp
next
  case (Suc n)
  then obtain inputs cs strm0 t rng' where I:
    "fold_r (base_encrypt_step M crs) [0..<n] ([], bs_new 512, strm1, rng) = Inr (inputs, strm0, t, rng')"
    "length inputs = n" "length cs = n" "\<forall>i<n. encrypted M crs (pks ! i) (inputs ! i) (cs ! i)"
    "holds strm0 (concat (map (enc_ciphertext M) cs))" "bs_wf t" "bs_unread t = map Some (concat (map (enc_points M) (drop n pks)))" by auto
  let ?pk = "pks ! n"
  have d: "drop n pks = ?pk # drop (Suc n) pks" using Suc.prems by (simp add: Cons_nth_drop_Suc)
  have "bs_unread t = map Some (enc_points M ?pk) @ map Some (concat (map (enc_points M) (drop (Suc n) pks)))"
    using I(7) by (simp add: d)
  from unpack_points_ok [OF M I(6) this] obtain t' where
    t': "unpack_points M t = Inr (?pk, t')" "bs_wf t'" "bs_unread t' = map Some (concat (map (enc_points M) (drop (Suc n) pks)))" by blast
  obtain z0 r1 where z0: "mi_strong_rand M rng' (crs_num_bits crs) = (z0, r1)" by fastforce
  obtain z1 r2 where z1: "mi_strong_rand M r1 (crs_num_bits crs) = (z1, r2)" by fastforce
  let ?m = "(mi_mul M z0 (crs_g crs False), mi_mul M z1 (crs_g crs False))"
  obtain c0 r3 where c0: "PK_Encrypt M ?pk (fst ?m) False crs r2 = (c0, r3)" by fastforce
  obtain c1 r4 where c1: "PK_Encrypt M ?pk (snd ?m) True crs r3 = (c1, r4)" by fastforce
  have step: "base_encrypt_step M crs n (inputs, strm0, t, rng')
      = Inr (inputs @ [?m], pack_points M (pack_points M strm0 c0) c1, t', r4)"
    using z0 z1 t'(1) c0 c1 by (simp add: base_encrypt_step_def)
  have enc: "encrypted M crs ?pk ?m (c0, c1)"
    unfolding encrypted_def using c0 c1 by (metis fst_conv snd_conv)
  have "length (concat (map (enc_ciphertext M) cs)) \<le> 432 * n"
    using length_concat_le [of cs "enc_ciphertext M" 432] length_enc_ciphertext [OF M] I(3) by simp
  then have "length (concat (map (enc_ciphertext M) cs)) + length (enc_points M c0) < 2 ^ 62"
    "length (concat (map (enc_ciphertext M) cs) @ enc_points M c0) + length (enc_points M c1) < 2 ^ 62"
    using length_enc_points [OF M, of c0] length_enc_points [OF M, of c1] Suc.prems assms(3) by simp_all
  from holds_pack [OF holds_pack [OF I(5) this(1)] this(2)]
  have "holds (pack_points M (pack_points M strm0 c0) c1) (concat (map (enc_ciphertext M) (cs @ [(c0, c1)])))"
    by (simp add: enc_ciphertext_def)
  moreover have "fold_r (base_encrypt_step M crs) [0..<Suc n] ([], bs_new 512, strm1, rng)
      = Inr (inputs @ [?m], pack_points M (pack_points M strm0 c0) c1, t', r4)"
    using I(1) step by (simp add: fold_r_append)
  ultimately show ?case
    using I(2-4) enc t'(2,3) by (intro exI [of _ "inputs @ [?m]"] exI [of _ "cs @ [(c0, c1)]"]
      exI [of _ "pack_points M (pack_points M strm0 c0) c1"] exI [of _ t'] exI [of _ r4]) (simp add: nth_append less_Suc_eq)
qed

lemma base_decrypt_steps:
  assumes M: "miracl_ok M" and "n \<le> length cs" and "bs_wf strm1" and "bs_unread strm1 = map Some (concat (map (enc_ciphertext M) cs))"
  shows "\<exists>t. fold_r (base_decrypt_step M bits sks) [0..<n] ([], strm1)
       = Inr (map (\<lambda>i. SK_Decrypt M (sks ! i) (if bv_get bits i then snd (cs ! i) else fst (cs ! i))) [0..<n], t)
     \<and> bs_wf t \<and> bs_unread t = map Some (concat (map (enc_ciphertext M) (drop n cs)))"
  using assms(2)
proof (induction n)
  case 0
  then show ?case using assms(3,4) by simp
next
  case (Suc n)
  then obtain t where I: "fold_r (base_decrypt_step M bits sks) [0..<n] ([], strm1)
       = Inr (map (\<lambda>i. SK_Decrypt M (sks ! i) (if bv_get bits i then snd (cs ! i) else fst (cs ! i))) [0..<n], t)"
    "bs_wf t" "bs_unread t = map Some (concat (map (enc_ciphertext M) (drop n cs)))" by auto
  have "drop n cs = cs ! n # drop (Suc n) cs" using Suc.prems by (simp add: Cons_nth_drop_Suc)
  then have "bs_unread t = map Some (enc_points M (fst (cs ! n))) @ map Some (enc_points M (snd (cs ! n)))
      @ map Some (concat (map (enc_ciphertext M) (drop (Suc n) cs)))" using I(3) by (simp add: enc_ciphertext_def)
  from unpack_points_ok [OF M I(2) this] obtain u where u: "unpack_points M t = Inr (fst (cs ! n), u)" "bs_wf u"
    "bs_unread u = map Some (enc_points M (snd (cs ! n))) @ map Some (concat (map (enc_ciphertext M) (drop (Suc n) cs)))" by blast
  from unpack_points_ok [OF M u(2,3)] obtain v where v: "unpack_points M u = Inr (snd (cs ! n), v)" "bs_wf v"
    "bs_unread v = map Some (concat (map (enc_ciphertext M) (drop (Suc n) cs)))" by blast
  have "base_decrypt_step M bits sks n (outs, t)
      = Inr (outs @ [SK_Decrypt M (sks ! n) (if bv_get bits n then snd (cs ! n) else fst (cs ! n))], v)" for outs
    using u(1) v(1) by (simp add: base_decrypt_step_def)
  then show ?case using I(1) v(2,3) by (simp add: fold_r_append)
qed

section \<open>Hashing the points\<close>

definition point_block :: "(u8 list \<Rightarrow> u8 list) \<Rightarrow> ('p, 'g) miracl \<Rightarrow> 'p \<Rightarrow> block" where
  "point_block sha M P = block_of_bytes (sha (enc_point M P))"

lemma hash_point_ok:
  assumes M: "miracl_ok M" and s: "bs_wf s"
  shows "\<exists>t. hash_point sha M s P = Inr (point_block sha M P, t) \<and> bs_wf t"
proof -
  let ?s = "s\<lparr>bs_w := 0, bs_r := 0\<rparr>"
  have z: "bs_setp s 0 = Inr ?s" by (simp add: bs_setp_def)
  have w: "bs_wf ?s" "bs_unread ?s = []" using s by (simp_all add: bs_wf_def bs_mxlen_def bs_unread_def)
  have "length (enc_point M P) \<le> 216" using length_enc_points [OF M, of "(P, P)"] by (simp add: enc_points_def)
  then have "bs_room ?s (length (enc_point M P))" by (simp add: bs_room_def)
  note p = pack_point_unread [OF w(1) this]
  have "bs_bytes (pack_point M ?s P) = map the (bs_unread (pack_point M ?s P))"
    using p(4) by (simp add: bs_bytes_def bs_unread_def)
  then have "bs_bytes (pack_point M ?s P) = enc_point M P" using p(2) w(2) by (simp add: comp_def)
  then show ?thesis using p(1) by (simp add: hash_point_def z point_block_def sha1_Update_def sha1_Reset_def)
qed

lemma hash_points_ok: "miracl_ok M \<Longrightarrow> bs_wf s \<Longrightarrow> hash_points sha M s Ps = Inr (map (point_block sha M) Ps)"
proof (induction Ps arbitrary: s)
  case (Cons P Ps)
  obtain t where "hash_point sha M s P = Inr (point_block sha M P, t)" "bs_wf t" using hash_point_ok [OF Cons.prems] by blast
  then show ?case using Cons by simp
qed simp

lemma hash_pairs_ok:
  "miracl_ok M \<Longrightarrow> bs_wf s \<Longrightarrow> hash_pairs sha M s PQs = Inr (map (map_prod (point_block sha M) (point_block sha M)) PQs)"
proof (induction PQs arbitrary: s)
  case (Cons PQ PQs)
  obtain P Q where PQ: "PQ = (P, Q)" by fastforce
  obtain t where t: "hash_point sha M s P = Inr (point_block sha M P, t)" "bs_wf t" using hash_point_ok [OF Cons.prems] by blast
  obtain u where "hash_point sha M t Q = Inr (point_block sha M Q, u)" "bs_wf u" using hash_point_ok [OF Cons.prems(1) t(2)] by blast
  then show ?case using Cons t PQ by simp
qed simp

section \<open>The whole base OT\<close>

lemma length_randomize_128: "16 \<le> length (bv_data (bv_randomize (bv_reset bv_empty 128) rnd))"
  by (simp add: bv_randomize_def bv_reset_def bv_empty_def bv_sizeBytes_def blit_def)

lemma BaseOT_run_ok:
  assumes M: "miracl_ok M"
  shows "\<exists>inputs outs bits GS' GR'. BaseOT_run sha M crs GS GR = Inr (inputs, outs, bits, GS', GR') \<and> base_agree inputs outs bits"
proof -
  obtain data GR1 where d: "get_u8s GR 100 = (data, GR1)" by fastforce
  let ?b0 = "bv_reset bv_empty 128"
  obtain rnd GR2 where r: "get_u8s GR1 (bv_sizeBytes ?b0) = (rnd, GR2)" by fastforce
  define bits where "bits = bv_randomize ?b0 rnd"
  have nb: "bv_bits bits = 128" by (simp add: bits_def bv_reset_def)
  obtain sks pks strm rng where k: "fold (base_key_step M crs bits) [0..<128] ([], bs_new 512, mi_strong_init M data) = (sks, strm, rng)"
     "length sks = 128" "length pks = 128" "\<forall>i<128. key_pair M crs (bv_get bits i) (sks ! i) (pks ! i)"
     "holds strm (concat (map (enc_points M) pks))"
    using base_keys_ok [OF M, of 128 crs bits "mi_strong_init M data"] by auto
  let ?msg = "concat (map (enc_points M) pks)"
  have start: "exec_base_receiver_start M crs GR = (?msg, bits, sks, GR2)"
    using d r k(1) nb holds_bytes(1) [OF k(5)] by (simp add: exec_base_receiver_start_def base_keys_def BASE_OT_COUNT_def flip: bits_def)
  obtain dataS GS1 where dS: "get_u8s GS 100 = (dataS, GS1)" by fastforce
  have "length ?msg \<le> 216 * 128" using length_concat_le [of pks "enc_points M" 216] length_enc_points [OF M] k(3) by simp
  then have "length ?msg < 2 ^ 62" by simp
  note rcv = bs_recv_unread [OF this]
  obtain ms cs strm0 t rng' where e:
    "fold_r (base_encrypt_step M crs) [0..<128] ([], bs_new 512, bs_recv (bs_new 512) ?msg, mi_strong_init M dataS) = Inr (ms, strm0, t, rng')"
    "length ms = 128" "length cs = 128" "\<forall>i<128. encrypted M crs (pks ! i) (ms ! i) (cs ! i)"
    "holds strm0 (concat (map (enc_ciphertext M) cs))"
    using base_encrypt_steps [OF M, of 128 pks "bs_recv (bs_new 512) ?msg" crs "mi_strong_init M dataS"] k(3) rcv by auto
  let ?out = "concat (map (enc_ciphertext M) cs)"
  let ?H = "point_block sha M"
  have sender: "exec_base_sender sha M crs GS ?msg = Inr (map (map_prod ?H ?H) ms, ?out, GS1)"
    using dS e(1) holds_bytes(2) [OF e(5)] hash_pairs_ok [OF M bs_wf_new, of 512 sha ms]
    by (simp add: exec_base_sender_def base_encrypt_def BASE_OT_COUNT_def)
  have "length ?out \<le> 432 * 128" using length_concat_le [of cs "enc_ciphertext M" 432] length_enc_ciphertext [OF M] e(3) by simp
  then have "length ?out < 2 ^ 62" by simp
  note rcv' = bs_recv_unread [OF this]
  let ?D = "\<lambda>i. SK_Decrypt M (sks ! i) (if bv_get bits i then snd (cs ! i) else fst (cs ! i))"
  obtain u where "fold_r (base_decrypt_step M bits sks) [0..<128] ([], bs_recv (bs_new 512) ?out) = Inr (map ?D [0..<128], u)"
    using base_decrypt_steps [OF M, of 128 cs "bs_recv (bs_new 512) ?out" bits sks] e(3) rcv' by auto
  then have fin: "exec_base_receiver_finish sha M bits sks ?out = Inr (map ?H (map ?D [0..<128]))"
    using nb hash_points_ok [OF M bs_wf_new, of 512 sha "map ?D [0..<128]"] by (simp add: exec_base_receiver_finish_def base_decrypt_def)
  have D: "?D i = (if bv_get bits i then snd (ms ! i) else fst (ms ! i))" if "i < 128" for i
  proof -
    have kp: "key_pair M crs (bv_get bits i) (sks ! i) (pks ! i)" using k(4) that by blast
    have enc: "encrypted M crs (pks ! i) (ms ! i) (cs ! i)" using e(4) that by blast
    obtain r0 r1 where "fst (cs ! i) = fst (PK_Encrypt M (pks ! i) (fst (ms ! i)) False crs r0)"
      "snd (cs ! i) = fst (PK_Encrypt M (pks ! i) (snd (ms ! i)) True crs r1)" using enc unfolding encrypted_def by blast
    then show ?thesis using decrypt_key_pair [OF M kp] by (cases "bv_get bits i") simp_all
  qed
  have "base_agree (map (map_prod ?H ?H) ms) (map ?H (map ?D [0..<128])) bits"
    using e(2) D length_randomize_128 [of rnd] by (simp add: base_agree_def bits_def BASE_OT_COUNT_def)
  then show ?thesis using start sender fin by (simp add: BaseOT_run_def)
qed

text \<open>\<open>check\<close> accepts what agrees, unless the two blocks of an OT are the same.\<close>

lemma bs_consume_recv:
  assumes "length msg < 2 ^ 62"
  shows "l \<le> length msg \<Longrightarrow> bs_consume (bs_recv (bs_new 512) msg) l
     = Inr (map Some (take l msg), (bs_recv (bs_new 512) msg)\<lparr>bs_r := bs_r (bs_recv (bs_new 512) msg) + l\<rparr>)"
  using bs_consume_ok(1) [OF bs_recv_unread(1) [OF assms], of l] bs_recv_unread(2) [OF assms] by (simp add: take_map)

lemma check_recv_ok:
  "BaseOT_check_recv bits outs i (ByteArray a @ ByteArray b)
     = require ((if bv_get bits i then b else a) = outs ! i) RuntimeError"
proof -
  let ?msg = "ByteArray a @ ByteArray b"
  let ?s = "bs_recv (bs_new 512) ?msg"
  have l: "length ?msg < 2 ^ 62" by simp
  note w = bs_recv_unread [OF l]
  have c1: "bs_consume ?s 16 = Inr (map Some (ByteArray a), ?s\<lparr>bs_r := bs_r ?s + 16\<rparr>)"
    using bs_consume_ok(1) [OF w(1), of 16] w(2) by simp
  have s1: "bs_wf (?s\<lparr>bs_r := bs_r ?s + 16\<rparr>)" "bs_unread (?s\<lparr>bs_r := bs_r ?s + 16\<rparr>) = map Some (ByteArray b)"
    using bs_consume_ok(2,3) [OF w(1), of 16] w(2) by simp_all
  have c2: "\<exists>t. bs_consume (?s\<lparr>bs_r := bs_r ?s + 16\<rparr>) 16 = Inr (map Some (ByteArray b), t)"
    using bs_consume_ok(1) [OF s1(1), of 16] s1(2) by simp
  show ?thesis using c1 c2 by (auto simp: BaseOT_check_recv_def comp_def)
qed

lemma BaseOT_check_iff:
  "BaseOT_check inputs outs bits = Inr ()
   \<longleftrightarrow> (\<forall>i<BASE_OT_COUNT. fst (inputs ! i) \<noteq> snd (inputs ! i)
        \<and> outs ! i = (if bv_get bits i then snd (inputs ! i) else fst (inputs ! i)))"
  by (auto simp: BaseOT_check_def each_r_Inr BaseOT_check_send_def check_recv_ok require_def split: if_splits)

section \<open>The search for the common reference string\<close>

definition crs_candidate :: "('p, 'g) miracl \<Rightarrow> int \<Rightarrow> bool" where
  "crs_candidate M x = (mi_jacobi M (curve_rhs x) p256_p = 1)"

lemma crs_search_ok:
  assumes "length pts \<le> 4" and "4 \<le> length pts + length (filter (crs_candidate M) [x..N])"
  shows "crs_search M x pts = Some (pts @ map (crs_point M) (take (4 - length pts) (filter (crs_candidate M) [x..N])))"
  using assms
proof (induction "nat (N + 1 - x)" arbitrary: x pts)
  case 0
  then have "[x..N] = []" by simp
  then show ?case using 0 by (subst crs_search.simps) simp
next
  case (Suc k)
  have u: "[x..N] = x # [x + 1..N]" using Suc.hyps(2) by (simp add: upto_rec1)
  let ?q = "if crs_candidate M x then pts @ [crs_point M x] else pts"
  show ?case
  proof (cases "length pts = 4")
    case True
    then show ?thesis by (subst crs_search.simps) simp
  next
    case False
    then have l: "length pts < 4" using Suc.prems(1) by simp
    have "crs_search M x pts = crs_search M (x + 1) ?q" using l by (subst crs_search.simps) (simp add: crs_candidate_def)
    also have "\<dots> = Some (?q @ map (crs_point M) (take (4 - length ?q) (filter (crs_candidate M) [x + 1..N])))"
      by (rule Suc.hyps(1)) (use Suc.hyps(2) Suc.prems l in \<open>auto simp: u\<close>)
    also have "\<dots> = Some (pts @ map (crs_point M) (take (4 - length pts) (filter (crs_candidate M) [x..N])))"
      using l by (auto simp: u take_Cons' Suc_diff_Suc)
    finally show ?thesis .
  qed
qed

section \<open>Properties\<close>

text \<open>C14. The base OTs are correct: between a sender and a receiver that follow the code, over any group
  that behaves as the manual of the library says and any reference string, the exchange throws
  nothing and stays inside its buffers, and every one of the 128 blocks of the receiver is the one of
  the sender's two blocks that its choice bit selects.\<close>

theorem base_ots_correct:
  assumes "miracl_ok M"
  shows "\<exists>inputs outs bits GS' GR'. BaseOT_run sha M crs GS GR = Inr (inputs, outs, bits, GS', GR')
     \<and> length inputs = 128 \<and> length outs = 128
     \<and> (\<forall>c<128. outs ! c = (if bv_get bits c then snd (inputs ! c) else fst (inputs ! c)))"
  using BaseOT_run_ok [OF assms, of sha crs GS GR] unfolding base_agree_def by blast

text \<open>Integers modulo 256, with one-byte encodings.\<close>

definition toy_miracl :: "(u8, nat) miracl" where
  "toy_miracl =
     \<lparr>mi_add = (+), mi_sub = (\<lambda>P Q. P - Q), mi_mul = (\<lambda>s P. of_int s * P), mi_mul2 = (\<lambda>s P t Q. of_int s * P + of_int t * Q),
      mi_get = (\<lambda>P. (uint P, 0)), mi_ECn = (\<lambda>x y. word_of_int x), mi_to_binary = (\<lambda>z n. [word_of_int z]),
      mi_from_binary = (\<lambda>d. uint (hd d)), mi_strong_init = (\<lambda>d. 1), mi_strong_rand = (\<lambda>g n. (int (7 * g), g + 1)),
      mi_jacobi = (\<lambda>a p. 1), mi_sqrt = (\<lambda>a p. 2)\<rparr>"

lemma toy_miracl_ok: "miracl_ok toy_miracl"
  by (simp add: miracl_ok_def toy_miracl_def algebra_simps)

theorem base_ots_correct_witness:
  "\<exists>inputs outs bits GS' GR'. BaseOT_run (vec_resize 0 20) toy_miracl \<lparr>crs_g0 = 3, crs_h0 = 5, crs_g1 = 7, crs_h1 = 9, crs_num_bits = 256\<rparr>
       (SetSeed 1) (SetSeed 2) = Inr (inputs, outs, bits, GS', GR')
     \<and> length inputs = 128 \<and> length outs = 128
     \<and> (\<forall>c<128. outs ! c = (if bv_get bits c then snd (inputs ! c) else fst (inputs ! c)))"
  by (rule base_ots_correct [OF toy_miracl_ok])

text \<open>C16. The search for the reference string ends as soon as the curve has four candidate abscissas, and
  returns the points of the four smallest ones, in order.\<close>

theorem crs_search_terminates:
  assumes "4 \<le> length (filter (\<lambda>x. mi_jacobi M (curve_rhs x) p256_p = 1) [1..N])"
  shows "\<exists>crs a b c d. CRS_new M = Some crs \<and> take 4 (filter (\<lambda>x. mi_jacobi M (curve_rhs x) p256_p = 1) [1..N]) = [a, b, c, d]
     \<and> crs = \<lparr>crs_g0 = crs_point M a, crs_h0 = crs_point M b, crs_g1 = crs_point M c, crs_h1 = crs_point M d, crs_num_bits = 256\<rparr>"
proof -
  have f: "(\<lambda>x. mi_jacobi M (curve_rhs x) p256_p = 1) = crs_candidate M" by (simp add: crs_candidate_def fun_eq_iff)
  let ?t = "take 4 (filter (crs_candidate M) [1..N])"
  have four: "\<exists>a b c d. xs = [a, b, c, d]" if "length xs = 4" for xs :: "int list"
    using that by (auto simp: numeral_eq_Suc length_Suc_conv)
  have "length ?t = 4" using assms unfolding f by simp
  from four [OF this] obtain a b c d where t: "?t = [a, b, c, d]" by blast
  have "crs_search M 1 [] = Some (map (crs_point M) ?t)"
    using crs_search_ok [of "[]" M 1 N] assms unfolding f by simp
  then show ?thesis unfolding f by (simp add: CRS_new_def t)
qed

theorem crs_search_terminates_witness:
  "\<exists>crs a b c d. CRS_new toy_miracl = Some crs
     \<and> take 4 (filter (\<lambda>x. mi_jacobi toy_miracl (curve_rhs x) p256_p = 1) [1..6]) = [a, b, c, d]
     \<and> crs = \<lparr>crs_g0 = crs_point toy_miracl a, crs_h0 = crs_point toy_miracl b, crs_g1 = crs_point toy_miracl c,
              crs_h1 = crs_point toy_miracl d, crs_num_bits = 256\<rparr>"
  by (rule crs_search_terminates) (simp add: toy_miracl_def)

text \<open>A length field above 50 makes \<open>unpack\<close> write past its buffer.\<close>

lemma unpack_big_overflow: "unpack_big M (bs_recv (bs_new 512) (field (replicate 51 0))) = Inl UndefinedBehaviour"
  using get_field [OF bs_recv_unread(1), of "field (replicate 51 0)" "replicate 51 0" "[]"] bs_recv_unread(2) [of "field (replicate 51 0)"]
  by (auto simp: unpack_big_def)

end
