(* ===== verification/BDX_OTThreads.thy ===== *)
theory BDX_OTThreads
  imports BDX_CutChoose BDX_BaseOT
begin

text \<open>
  \<open>getRecvOTs\<close> and \<open>getSendOTs\<close> of \<open>DualEx/DualExActor.cpp\<close>: the two threads of a party that run the
  base OTs, stretch them to one set of base OTs for each init thread, and extend each set in a thread
  of its own. The party of \<open>getRecvOTs\<close> is the sender of the base OTs.
\<close>

section \<open>Stretching the base OTs\<close>

definition extender_blocks :: "(prng \<times> prng) list \<Rightarrow> (block \<times> block) list" where
  "extender_blocks ext = map (\<lambda>(g0, g1). (fst (get_block g0), fst (get_block g1))) ext"

definition extender_next :: "(prng \<times> prng) list \<Rightarrow> (prng \<times> prng) list" where
  "extender_next ext = map (\<lambda>(g0, g1). (snd (get_block g0), snd (get_block g1))) ext"

fun recv_bases :: "nat \<Rightarrow> (prng \<times> prng) list \<Rightarrow> (block \<times> block) list list" where
  "recv_bases 0 ext = []"
| "recv_bases (Suc n) ext = extender_blocks ext # recv_bases n (extender_next ext)"

fun send_bases :: "nat \<Rightarrow> prng list \<Rightarrow> block list list" where
  "send_bases 0 ext = []"
| "send_bases (Suc n) ext = map (\<lambda>g. fst (get_block g)) ext # send_bases n (map (\<lambda>g. snd (get_block g)) ext)"

text \<open>Every thread but the last gets a generator of its own; the last uses the parent's.\<close>

fun thread_gens :: "nat \<Rightarrow> prng \<Rightarrow> prng list" where
  "thread_gens 0 prng = []"
| "thread_gens (Suc 0) prng = [prng]"
| "thread_gens (Suc (Suc n)) prng = (let (seed, prng) = get_block prng in SetSeed seed # thread_gens (Suc n) prng)"

definition getRecvOTs :: "nat \<Rightarrow> (block \<times> block) list \<Rightarrow> prng \<Rightarrow> ((block \<times> block) list list \<times> prng list) result" where
  "getRecvOTs numInit sender_inputs prng =
     (if numInit = 0 then Inl LengthError
      else Inr (recv_bases numInit (map (\<lambda>(a, b). (SetSeed a, SetSeed b)) sender_inputs), thread_gens numInit prng))"

definition getSendOTs :: "nat \<Rightarrow> block list \<Rightarrow> prng \<Rightarrow> (block list list \<times> prng list) result" where
  "getSendOTs numInit receiver_outputs prng =
     (if numInit = 0 then Inl LengthError
      else Inr (send_bases numInit (map SetSeed receiver_outputs), thread_gens numInit prng))"

text \<open>One direction: \<open>recvSeed\<close> is the seed of the party that extends as receiver, \<open>sendSeed\<close> of the other.
  The result of each thread is what the two \<open>Extend\<close>s leave in \<open>mOTRecv\<close> and in the other's \<open>mOTSend\<close>.\<close>

definition ot_threads ::
  "(u8 list \<Rightarrow> u8 list) \<Rightarrow> ('p, 'g) miracl \<Rightarrow> 'p CRS \<Rightarrow> nat \<Rightarrow> nat \<Rightarrow> block \<Rightarrow> block
   \<Rightarrow> ((block list \<times> bitvec) \<times> (block list \<times> block list)) list result" where
  "ot_threads sha M crs numInit numOTExtPer recvSeed sendSeed =
     bind_r (BaseOT_run sha M crs (SetSeed recvSeed) (SetSeed sendSeed)) (\<lambda>(sender_inputs, receiver_outputs, bits, GS, GR).
     bind_r (getRecvOTs numInit sender_inputs GS) (\<lambda>(rb, rg).
     bind_r (getSendOTs numInit receiver_outputs GR) (\<lambda>(sb, sg).
       map_r (\<lambda>t. OTExt_run sha (rb ! t) (sb ! t) bits numOTExtPer (rg ! t) (sg ! t)) [0..<numInit])))"

section \<open>Every thread's base OTs agree\<close>

lemma length_bases [simp]: "length (recv_bases n ext) = n" "length (send_bases n ks) = n"
  by (induction n arbitrary: ext ks) simp_all

definition extenders_agree :: "(prng \<times> prng) list \<Rightarrow> prng list \<Rightarrow> bitvec \<Rightarrow> bool" where
  "extenders_agree ext ks bits \<longleftrightarrow> length ext = 128 \<and> length ks = 128 \<and> 16 \<le> length (bv_data bits)
     \<and> (\<forall>c<128. ks ! c = (if bv_get bits c then snd (ext ! c) else fst (ext ! c)))"

lemma extenders_agree_step:
  assumes "extenders_agree ext ks bits"
  shows "base_agree (extender_blocks ext) (map (\<lambda>g. fst (get_block g)) ks) bits"
    and "extenders_agree (extender_next ext) (map (\<lambda>g. snd (get_block g)) ks) bits"
  using assms by (simp_all add: extenders_agree_def base_agree_def extender_blocks_def extender_next_def split_beta)

lemma bases_agree:
  "extenders_agree ext ks bits \<Longrightarrow> t < n \<Longrightarrow> base_agree (recv_bases n ext ! t) (send_bases n ks ! t) bits"
proof (induction n arbitrary: ext ks t)
  case (Suc n)
  then show ?case using extenders_agree_step [OF Suc.prems(1)] by (cases t) simp_all
qed simp

lemma extenders_start:
  "base_agree inputs outs bits
   \<Longrightarrow> extenders_agree (map (\<lambda>(a, b). (SetSeed a, SetSeed b)) inputs) (map SetSeed outs) bits"
  by (simp add: extenders_agree_def base_agree_def split_beta)

lemma ot_threads_ok:
  assumes "digest20 sha" and M: "miracl_ok M" and n: "0 < n" and N: "0 < N" "N < 2 ^ 30"
  shows "\<exists>ots. ot_threads sha M crs n N recvSeed sendSeed = Inr ots \<and> length ots = n
     \<and> (\<forall>t<n. ot_agreed (snd (ots ! t)) (fst (ots ! t)) N)"
proof -
  obtain inputs outs bits GS GR where b: "BaseOT_run sha M crs (SetSeed recvSeed) (SetSeed sendSeed) = Inr (inputs, outs, bits, GS, GR)"
    and a: "base_agree inputs outs bits" using BaseOT_run_ok [OF M, of sha crs] by blast
  let ?rb = "recv_bases n (map (\<lambda>(a, b). (SetSeed a, SetSeed b)) inputs)" and ?sb = "send_bases n (map SetSeed outs)"
  have ag: "base_agree (?rb ! t) (?sb ! t) bits" if "t < n" for t
    by (rule bases_agree [OF extenders_start [OF a] that])
  let ?run = "\<lambda>t. OTExt_run sha (?rb ! t) (?sb ! t) bits N (thread_gens n GS ! t) (thread_gens n GR ! t)"
  have run: "?run t = Inr (projr (?run t))" if "t < n" for t
    using OTExt_run_correct [OF assms(1) ag [OF that] N, of "thread_gens n GS ! t" "thread_gens n GR ! t"] by auto
  have "map_r ?run [0..<n] = Inr (map (\<lambda>t. projr (?run t)) [0..<n])" by (rule map_r_Inr) (use run in simp)
  then have e: "ot_threads sha M crs n N recvSeed sendSeed = Inr (map (\<lambda>t. projr (?run t)) [0..<n])"
    using b n by (simp add: ot_threads_def getRecvOTs_def getSendOTs_def)
  have "ot_agreed (snd (projr (?run t))) (fst (projr (?run t))) N" if "t < n" for t
    unfolding ot_agreed_def
    by (rule exI [of _ sha], rule exI [of _ "?rb ! t"], rule exI [of _ "?sb ! t"], rule exI [of _ bits],
        rule exI [of _ "thread_gens n GS ! t"], rule exI [of _ "thread_gens n GR ! t"])
      (use assms(1) ag [OF that] N run [OF that] in simp)
  then show ?thesis using e by simp
qed

section \<open>Properties\<close>

text \<open>C15. Every init thread gets correct OTs: from any two seeds, the base OTs, their stretching and the
  extensions of all threads succeed, and in each thread the receiver ends with exactly the pads that
  its choice bits select among the sender's.\<close>

theorem ot_threads_correct:
  assumes "digest20 sha" and "miracl_ok M" and "0 < n" and "0 < N" and "N < 2 ^ 30"
  shows "\<exists>ots. ot_threads sha M crs n N recvSeed sendSeed = Inr ots \<and> length ots = n
     \<and> (\<forall>t<n. bv_bits (snd (fst (ots ! t))) = N
          \<and> (\<forall>i<N. OTExtReceiver_GetMessage (fst (fst (ots ! t))) i
                  = OTExtSender_GetMessage (snd (ots ! t)) i (bv_get (snd (fst (ots ! t))) i)))"
proof -
  obtain ots where o: "ot_threads sha M crs n N recvSeed sendSeed = Inr ots" "length ots = n"
    "\<forall>t<n. ot_agreed (snd (ots ! t)) (fst (ots ! t)) N" using ot_threads_ok [OF assms] by blast
  then show ?thesis using ot_agreed_choice ote.pad_received by (intro exI [of _ ots]) blast
qed

theorem ot_threads_correct_witness:
  "\<exists>ots. ot_threads (vec_resize 0 20) toy_miracl \<lparr>crs_g0 = 3, crs_h0 = 5, crs_g1 = 7, crs_h1 = 9, crs_num_bits = 256\<rparr> 2 130 1 2 = Inr ots
     \<and> length ots = 2
     \<and> (\<forall>t<2. bv_bits (snd (fst (ots ! t))) = 130
          \<and> (\<forall>i<130. OTExtReceiver_GetMessage (fst (fst (ots ! t))) i
                  = OTExtSender_GetMessage (snd (ots ! t)) i (bv_get (snd (fst (ots ! t))) i)))"
  by (rule ot_threads_correct [OF _ toy_miracl_ok]) (simp_all add: digest20_def HashSize_def)

end
