(* ===== verification/BDX_Protocol.thy ===== *)
theory BDX_Protocol
  imports BDX_Online BDX_OTThreads
begin

text \<open>
  \<open>DualEx/DualExActor.cpp\<close>: \<open>init\<close> of two parties up to the start of their threads, and the whole protocol
  from the constructors to the outputs. The k-probe matrices \<open>K\<close> are what \<open>loadOrBuild\<close> gives both
  parties; the commitment to the cut-and-choose seed arrives before the circuits, its opening after.
\<close>

section \<open>\<open>init\<close>\<close>

text \<open>Construction, the draws from the generator, the sizes.\<close>

definition init_start ::
  "Circuit \<Rightarrow> (role \<Rightarrow> KProbeMatrix) \<Rightarrow> nat \<Rightarrow> nat \<Rightarrow> nat \<Rightarrow> nat \<Rightarrow> nat \<Rightarrow> DualExActor \<Rightarrow> prng \<Rightarrow> role
   \<Rightarrow> (DualExActor \<times> block \<times> block \<times> block \<times> (block \<times> block) list) result" where
  "init_start cir K numExe bucketSize numOpened psiSecParam numParallelInit uninit prng r =
     bind_r (DualExActor_new uninit cir r numExe bucketSize numOpened psiSecParam Bucket_new) (\<lambda>a.
     (let (cncSeed, sendOTSeed, recvOTSeed, seeds, _) = actor_seeds (min numParallelInit numExe) prng;
          a = a\<lparr>ac_mMyKProbe := K r, ac_mTheirKProbe := K (other r)\<rparr>;
          a = init_sizes a numParallelInit cncSeed
      in Inr (a\<lparr>ac_mMyCircuits := replicate (ac_mNumCircuits a) CircuitPackage_new,
                ac_mTheirCircuits := replicate (ac_mNumCircuits a) CommCircuitPackage_new\<rparr>,
              cncSeed, sendOTSeed, recvOTSeed, seeds)))"

text \<open>One party: the other party's parameters and decommitment are checked, the OT threads run in both
  directions. The result is the actor when its init threads start, and their seeds.\<close>

definition init_party ::
  "(u8 list \<Rightarrow> u8 list) \<Rightarrow> ('p, 'g) miracl \<Rightarrow> 'p CRS \<Rightarrow> Circuit \<Rightarrow> (role \<Rightarrow> KProbeMatrix) \<Rightarrow> nat \<Rightarrow> nat \<Rightarrow> nat \<Rightarrow> nat
   \<Rightarrow> nat \<Rightarrow> nat \<Rightarrow> nat \<Rightarrow> (role \<Rightarrow> DualExActor) \<Rightarrow> (role \<Rightarrow> prng) \<Rightarrow> role \<Rightarrow> (DualExActor \<times> (block \<times> block) list) result" where
  "init_party sha M crs cir K numExe bucketSize numOpened psiSecParam numParallelInit numParallelEval numThreadsPerEval uninit prngs r =
     bind_r (init_start cir K numExe bucketSize numOpened psiSecParam numParallelInit (uninit r) (prngs r) r)
       (\<lambda>(a, cnc, sendOT, recvOT, seeds).
     bind_r (init_start cir K numExe bucketSize numOpened psiSecParam numParallelInit (uninit (other r)) (prngs (other r)) (other r))
       (\<lambda>(b, cnc', sendOT', recvOT', _).
     bind_r (check_params a numParallelInit numParallelEval numThreadsPerEval
               (params_message b numParallelInit numParallelEval numThreadsPerEval) []) (\<lambda>_.
     bind_r (ot_threads sha M crs (ac_mNumInitThreads a) (numRecvOTsPer a) recvOT sendOT') (\<lambda>recvs.
     bind_r (ot_threads sha M crs (ac_mNumInitThreads a) (numSendOTsPer a) recvOT' sendOT) (\<lambda>sends.
     bind_r (check_cnc_seed sha a (Commit_block sha cnc') cnc') (\<lambda>a.
       Inr (a\<lparr>ac_mOTRecv := map fst recvs, ac_mOTSend := map snd sends\<rparr>, seeds)))))))"

text \<open>The links before the init threads run.\<close>

definition links_start :: "(role \<Rightarrow> DualExActor) \<Rightarrow> links" where
  "links_start A = \<lparr>lk_actor = A, lk_prng = \<lambda>r t. SetSeed 0, lk_sent = \<lambda>r t. 0, lk_recvd = \<lambda>r t. 0, lk_msgs = \<lambda>r t. [], lk_dummy = \<lambda>r t. []\<rparr>"

definition protocol_offline ::
  "(u8 list \<Rightarrow> u8 list) \<Rightarrow> ('p, 'g) miracl \<Rightarrow> 'p CRS \<Rightarrow> Circuit \<Rightarrow> (role \<Rightarrow> KProbeMatrix) \<Rightarrow> nat \<Rightarrow> nat \<Rightarrow> nat \<Rightarrow> nat
   \<Rightarrow> nat \<Rightarrow> nat \<Rightarrow> nat \<Rightarrow> (role \<Rightarrow> DualExActor) \<Rightarrow> (role \<Rightarrow> prng) \<Rightarrow> (prng \<Rightarrow> nat list \<Rightarrow> nat list \<times> prng)
   \<Rightarrow> (nat \<Rightarrow> (role \<times> nat) list) \<Rightarrow> (role \<Rightarrow> DualExActor) result" where
  "protocol_offline sha M crs cir K numExe bucketSize numOpened psiSecParam pInit pEval tEval uninit prngs shuffle ord =
     bind_r (init_party sha M crs cir K numExe bucketSize numOpened psiSecParam pInit pEval tEval uninit prngs First) (\<lambda>(a, sa).
     bind_r (init_party sha M crs cir K numExe bucketSize numOpened psiSecParam pInit pEval tEval uninit prngs Second) (\<lambda>(b, sb).
     bind_r (offline_phase sha shuffle (case_role sa sb) ord (links_start (case_role a b))) (\<lambda>l. Inr (lk_actor l))))"

section \<open>Two parties with the same parameters\<close>

text \<open>The inputs of \<open>init\<close>: a circuit that can be garbled and has a table and an output, inputs of one size for
  both parties, matrices for both inputs with encodings of one size. The numbers fit: the code's products
  and sums do not wrap, and no message reaches 4 GB.\<close>

definition start_actor :: "Circuit \<Rightarrow> (role \<Rightarrow> KProbeMatrix) \<Rightarrow> nat \<Rightarrow> nat \<Rightarrow> nat \<Rightarrow> nat \<Rightarrow> nat \<Rightarrow> DualExActor \<Rightarrow> block \<Rightarrow> role \<Rightarrow> DualExActor" where
  "start_actor cir K E B Op w pInit uninit cnc r =
     uninit\<lparr>ac_mCircuit := cir, ac_mRole := r, ac_mNumExe := E, ac_mBucketSize := B, ac_mNumOpened := Op,
       ac_mNumCircuits := Op + B * E, ac_mPsiSecParam := w, ac_mBuckets := replicate E Bucket_new,
       ac_mMyKProbe := K r, ac_mTheirKProbe := K (other r), ac_mMyCnCSets := cnc_sets Op (Op + B * E) cnc,
       ac_mIndexArray := index_array (max (max (max (kp_mEncodingSize (K First)) (kp_mEncodingSize (K Second))) (mWireCount cir)) (length (mGates cir) * 2)),
       ac_mNumInitThreads := min pInit E,
       ac_mMyCircuits := replicate (Op + B * E) CircuitPackage_new, ac_mTheirCircuits := replicate (Op + B * E) CommCircuitPackage_new\<rparr>"

lemma init_start_eq:
  assumes "fst (mInputs cir) \<noteq> 0" and "snd (mInputs cir) \<noteq> 0" and "Op + B * E < 2 ^ 64"
  shows "\<exists>cnc so ro seeds. init_start cir K E B Op w pInit uninit prng r = Inr (start_actor cir K E B Op w pInit uninit cnc r, cnc, so, ro, seeds)"
proof -
  obtain cnc so ro seeds g where s: "actor_seeds (min pInit E) prng = (cnc, so, ro, seeds, g)" using prod_cases5 by blast
  have ix: "max (max (max (kp_mEncodingSize (K r)) (kp_mEncodingSize (K (other r)))) (mWireCount cir)) (length (mGates cir) * 2)
      = max (max (max (kp_mEncodingSize (K First)) (kp_mEncodingSize (K Second))) (mWireCount cir)) (length (mGates cir) * 2)"
    by (cases r) (simp_all add: max.commute)
  show ?thesis
    using assms by (simp add: init_start_def DualExActor_new_def s init_sizes_def start_actor_def index_size_def ix)
qed

definition protocol_ok ::
  "Circuit \<Rightarrow> (role \<Rightarrow> KProbeMatrix) \<Rightarrow> nat \<Rightarrow> nat \<Rightarrow> nat \<Rightarrow> nat \<Rightarrow> nat \<Rightarrow> bool" where
  "protocol_ok cir K E B Op w pInit \<longleftrightarrow>
     circuit_wf cir \<and> garblable (mGates cir) \<and> circuit_sendable cir \<and> fst (mInputs cir) \<noteq> 0 \<and> fst (mInputs cir) = snd (mInputs cir)
     \<and> bv_fits (length (mOutputs cir))
     \<and> (\<forall>r. kp_wf (K r) \<and> length (kp_mMtx (K r)) = Inputs cir r \<and> kp_mEncodingSize (K r) = kp_mEncodingSize (K First))
     \<and> 0 < E \<and> 0 < B \<and> 0 < pInit \<and> 20 * B < 2 ^ 32 \<and> 0 < w \<and> w \<le> 128
     \<and> (let N = Op + B * E; T = min pInit E
        in N + T < 2 ^ 64 \<and> T * N < 2 ^ 64 \<and> kp_mEncodingSize (K First) * (N + T) + B * w * (E + T) < 2 ^ 64)
     \<and> (let ix = max (max (kp_mEncodingSize (K First)) (mWireCount cir)) (length (mGates cir) * 2);
            T = min pInit E;
            ots = kp_mEncodingSize (K First) * (Op + B * E + T - 1) div T + B * w * (E + T - 1) div T
        in length (mOutputs cir) * 2 \<le> ix \<and> 40 * ix < 2 ^ 32 \<and> 0 < ots \<and> ots < 2 ^ 30)"

lemma start_actor_fields [simp]:
  "ac_mCircuit (start_actor cir K E B Op w p u cnc r) = cir" "ac_mRole (start_actor cir K E B Op w p u cnc r) = r"
  "ac_mNumExe (start_actor cir K E B Op w p u cnc r) = E" "ac_mBucketSize (start_actor cir K E B Op w p u cnc r) = B"
  "ac_mNumOpened (start_actor cir K E B Op w p u cnc r) = Op" "ac_mNumCircuits (start_actor cir K E B Op w p u cnc r) = Op + B * E"
  "ac_mPsiSecParam (start_actor cir K E B Op w p u cnc r) = w" "ac_mBuckets (start_actor cir K E B Op w p u cnc r) = replicate E Bucket_new"
  "ac_mMyKProbe (start_actor cir K E B Op w p u cnc r) = K r" "ac_mTheirKProbe (start_actor cir K E B Op w p u cnc r) = K (other r)"
  "ac_mMyCnCSets (start_actor cir K E B Op w p u cnc r) = cnc_sets Op (Op + B * E) cnc"
  "ac_mNumInitThreads (start_actor cir K E B Op w p u cnc r) = min p E"
  "ac_mMyCircuits (start_actor cir K E B Op w p u cnc r) = replicate (Op + B * E) CircuitPackage_new"
  "ac_mTheirCircuits (start_actor cir K E B Op w p u cnc r) = replicate (Op + B * E) CommCircuitPackage_new"
  "ac_mIndexArray (start_actor cir K E B Op w p u cnc r)
     = index_array (max (max (max (kp_mEncodingSize (K First)) (kp_mEncodingSize (K Second))) (mWireCount cir)) (length (mGates cir) * 2))"
  by (simp_all add: start_actor_def)

lemma protocol_fits:
  assumes "protocol_ok cir K E B Op w pInit" and "ac_mBucketSize a = B" and "ac_mPsiSecParam a = w"
    and "ac_mNumExe a = E" and "ac_mNumCircuits a = Op + B * E" and "ac_mNumInitThreads a = min pInit E"
  shows "work_fits a (kp_mEncodingSize (K r))"
proof -
  have k: "kp_mEncodingSize (K r) = kp_mEncodingSize (K First)" "0 < B" "0 < E" "0 < pInit"
    and f: "Op + B * E + min pInit E < 2 ^ 64" "min pInit E * (Op + B * E) < 2 ^ 64"
      "kp_mEncodingSize (K First) * (Op + B * E + min pInit E) + B * w * (E + min pInit E) < 2 ^ 64"
    using assms(1) unfolding protocol_ok_def Let_def by blast+
  have "B * w * 1 \<le> B * w * (E + min pInit E)" using k(3) by (intro mult_le_mono2) simp
  then have "B * w < 2 ^ 64" using f(3) by linarith
  moreover have "1 * E \<le> B * E" using k(2) by (intro mult_le_mono1) simp
  then have "E + min pInit E < 2 ^ 64" using f(1) by linarith
  ultimately show ?thesis using f unfolding work_fits_def assms(2-6) k(1) by simp
qed

lemma start_actor_ots:
  assumes "protocol_ok cir K E B Op w pInit"
  shows "numRecvOTsPer (start_actor cir K E B Op w pInit u cnc r)
     = kp_mEncodingSize (K First) * (Op + B * E + min pInit E - 1) div min pInit E + B * w * (E + min pInit E - 1) div min pInit E"
   and "numSendOTsPer (start_actor cir K E B Op w pInit u cnc r)
     = kp_mEncodingSize (K First) * (Op + B * E + min pInit E - 1) div min pInit E + B * w * (E + min pInit E - 1) div min pInit E"
proof -
  let ?a = "start_actor cir K E B Op w pInit u cnc r"
  have k: "kp_mEncodingSize (K q) = kp_mEncodingSize (K First)" "0 < ac_mNumInitThreads ?a" for q
    using assms by (auto simp: protocol_ok_def)
  have f: "work_fits ?a (kp_mEncodingSize (K First))" by (rule protocol_fits [OF assms]) simp_all
  have o: "ots_per_thread ?a (kp_mEncodingSize (K q)) = kp_mEncodingSize (K First) * (Op + B * E + min pInit E - 1) div min pInit E
      + B * w * (E + min pInit E - 1) div min pInit E" for q
    using ots_per_thread_fits [OF k(2) f] ots_per_psi_fits [OF f] by (simp add: k(1) [of q])
  show "numRecvOTsPer ?a = kp_mEncodingSize (K First) * (Op + B * E + min pInit E - 1) div min pInit E
      + B * w * (E + min pInit E - 1) div min pInit E"
    "numSendOTsPer ?a = kp_mEncodingSize (K First) * (Op + B * E + min pInit E - 1) div min pInit E
      + B * w * (E + min pInit E - 1) div min pInit E"
    using o by (simp_all add: numRecvOTsPer_def numSendOTsPer_def)
qed

lemma check_params_same:
  assumes "actor_params a p q u s s' = actor_params b p q u s s'"
    and "s = kp_mSignature (ac_mTheirKProbe a)" and "s = kp_mSignature (ac_mMyKProbe b)"
    and "s' = kp_mSignature (ac_mMyKProbe a)" and "s' = kp_mSignature (ac_mTheirKProbe b)"
  shows "check_params a p q u (params_message b p q u) [] = Inr ()"
proof -
  have l: "length (actor_params b p q u s s') = 9" by (simp add: actor_params_def)
  have p: "params_message b p q u @ [] = concat (map u64_bytes (actor_params b p q u s s')) @ []"
    using assms by (simp add: params_message_def)
  show ?thesis
    unfolding check_params_def Let_def p each_r_Inr using params_read [OF l, of _ "[]"] assms
    by (metis atLeast_upt lessThan_iff require_Inr)
qed

lemma case_role_eta: "case_role (f First) (f Second) = f"
  by (rule ext) (simp split: role.splits)

text \<open>After \<open>init\<close>: the parties' OTs agree, the sets of each are the other's.\<close>

lemma init_party_ok:
  assumes sha: "digest20 sha" and M: "miracl_ok M" and ok: "protocol_ok cir K E B Op w pInit"
  shows "\<exists>C seeds. (\<forall>r. init_party sha M crs cir K E B Op w pInit pEval tEval uninit prngs r = Inr (C r, seeds r))
     \<and> actors_ok sha C cir K E B Op (Op + B * E) (min pInit E) w
         (index_array (max (max (kp_mEncodingSize (K First)) (mWireCount cir)) (length (mGates cir) * 2)))
     \<and> (\<forall>r. ac_mBuckets (C r) = replicate E Bucket_new)"
proof -
  define N where "N = kp_mEncodingSize (K First) * (Op + B * E + min pInit E - 1) div min pInit E + B * w * (E + min pInit E - 1) div min pInit E"
  have k: "fst (mInputs cir) \<noteq> 0" "snd (mInputs cir) \<noteq> 0" "Op + B * E < 2 ^ 64" "0 < min pInit E" "0 < N" "N < 2 ^ 30"
    and enc: "kp_mEncodingSize (K r) = kp_mEncodingSize (K First)" for r
    using ok unfolding protocol_ok_def N_def Let_def by auto
  have inq: "0 < Inputs cir q" for q using k(1,2) by (cases q) (simp_all add: Inputs_def)
  define ixn where "ixn = max (max (kp_mEncodingSize (K First)) (mWireCount cir)) (length (mGates cir) * 2)"
  have cs: "circuit_sendable cir" "length (mOutputs cir) * 2 \<le> ixn" "40 * ixn < 2 ^ 32"
    using ok by (simp_all add: protocol_ok_def Let_def ixn_def)
  then have "0 < ixn" by (cases "mOutputs cir") (simp_all add: circuit_sendable_def)
  then have sd: "package_sendable cir (index_array ixn)"
    using inq cs by (simp add: package_sendable_def index_array_def ZeroBlock_0 set_epi64x_def)
  have "\<forall>r. \<exists>cnc so ro seeds. init_start cir K E B Op w pInit (uninit r) (prngs r) r
      = Inr (start_actor cir K E B Op w pInit (uninit r) cnc r, cnc, so, ro, seeds)"
    using init_start_eq [OF k(1-3)] by blast
  then obtain cnc so ro seeds where st: "\<And>r. init_start cir K E B Op w pInit (uninit r) (prngs r) r
      = Inr (start_actor cir K E B Op w pInit (uninit r) (cnc r) r, cnc r, so r, ro r, seeds r)" by metis
  let ?S = "\<lambda>r. start_actor cir K E B Op w pInit (uninit r) (cnc r) r"
  have cp: "check_params (?S r) pInit pEval tEval (params_message (?S (other r)) pInit pEval tEval) [] = Inr ()" for r
    by (rule check_params_same [of _ _ _ _ "kp_mSignature (K (other r))" "kp_mSignature (K r)"]) (simp_all add: actor_params_def)
  have "\<forall>r. \<exists>ots. ot_threads sha M crs (min pInit E) N (ro r) (so (other r)) = Inr ots
     \<and> (\<forall>t<min pInit E. ot_agreed (snd (ots ! t)) (fst (ots ! t)) N) \<and> length ots = min pInit E"
    using ot_threads_ok [OF sha M k(4-6)] by blast
  then obtain ots where ots: "\<And>r. ot_threads sha M crs (min pInit E) N (ro r) (so (other r)) = Inr (ots r)"
     "\<And>r t. t < min pInit E \<Longrightarrow> ot_agreed (snd (ots r ! t)) (fst (ots r ! t)) N" "\<And>r. length (ots r) = min pInit E" by metis
  define C where "C r = (?S r)\<lparr>ac_mTheirCncSets := cnc_sets Op (Op + B * E) (cnc (other r)),
     ac_mOTRecv := map fst (ots r), ac_mOTSend := map snd (ots (other r))\<rparr>" for r
  have oo: "other (other r) = r" for r by (cases r) simp_all
  have n: "numRecvOTsPer (?S r) = N" "numSendOTsPer (?S r) = N" for r
    using start_actor_ots [OF ok] by (simp_all add: N_def)
  have snd: "ot_threads sha M crs (min pInit E) N (ro (other r)) (so r) = Inr (ots (other r))" for r
    using ots(1) [of "other r"] by (simp add: oo)
  have run: "init_party sha M crs cir K E B Op w pInit pEval tEval uninit prngs r = Inr (C r, seeds r)" for r
    by (simp add: init_party_def st cp n ots(1) snd check_cnc_seed_def C_def)
  have ix: "max (max (max (kp_mEncodingSize (K First)) (kp_mEncodingSize (K Second))) (mWireCount cir)) (length (mGates cir) * 2) = ixn"
    by (simp add: ixn_def enc [of Second])
  have fits: "work_fits (C r) (kp_mEncodingSize (K r))" for r
    by (rule protocol_fits [OF ok]) (simp_all add: C_def)
  have nC: "numRecvOTsPer (C r) = N" for r
    using n(1) [of r] by (simp add: numRecvOTsPer_def ots_per_thread_def ots_per_psi_def C_def)
  have nx: "index_size (C r) = ixn" for r
    by (simp add: index_size_def C_def ixn_def enc [of r] enc [of "other r"])
  have pf: "circuit_wf cir" "garblable (mGates cir)" "bv_fits (length (mOutputs cir))" "0 < B"
    and pk: "\<And>r. kp_wf (K r)" "\<And>r. length (kp_mMtx (K r)) = Inputs cir r" using ok unfolding protocol_ok_def by blast+
  have bw: "B * w < 2 ^ 64" and lx: "ixn < 2 ^ 32"
    using fits [of First] cs(3) by (simp_all add: work_fits_def C_def)
  have ic: "ac_mIndexArray (C r) = index_array ixn" for r by (simp add: C_def) (simp add: ix [symmetric] index_array_def)
  have cf: "ac_mCircuit (C r) = cir" "ac_mRole (C r) = r" "ac_mMyKProbe (C r) = K r" "ac_mTheirKProbe (C r) = K (other r)"
    "ac_mNumExe (C r) = E" "ac_mBucketSize (C r) = B" "ac_mNumCircuits (C r) = Op + B * E" "ac_mNumInitThreads (C r) = min pInit E"
    "ac_mNumOpened (C r) = Op" "ac_mPsiSecParam (C r) = w" "ac_mTheirCncSets (C r) = cnc_sets Op (Op + B * E) (cnc (other r))"
    "ac_mMyCnCSets (C r) = cnc_sets Op (Op + B * E) (cnc r)"
    "ac_mBuckets (C r) = replicate E Bucket_new" "ac_mMyCircuits (C r) = replicate (Op + B * E) CircuitPackage_new"
    "ac_mTheirCircuits (C r) = replicate (Op + B * E) CommCircuitPackage_new" for r by (simp_all add: C_def)
  have ag: "ot_agreed (ac_mOTSend (C (other r)) ! t) (ac_mOTRecv (C r) ! t) N" if "t < min pInit E" for r t
    using ots(2) [OF that, of r] that by (simp add: C_def oo ots(3))
  have li: "length (index_array ixn) = ixn" by (simp add: index_array_def)
  have "actors_ok sha C cir K E B Op (Op + B * E) (min pInit E) w (index_array ixn)"
    unfolding actors_ok_def nC nx cf ic li
    by (intro conjI allI impI ballI exI [of _ "cnc (other r)" for r])
      (use k(4) bw lx in \<open>simp_all add: sha sd cs(2) pf pk fits ag CircuitPackage_new_def bv_wf_empty enc [of Second] del: min_less_iff_conj\<close>)
  moreover have "ac_mBuckets (C r) = replicate E Bucket_new" for r by (simp add: C_def)
  ultimately show ?thesis using run unfolding ixn_def by blast
qed

section \<open>Properties\<close>

text \<open>C1. The protocol computes the circuit: two honest parties that construct their actors with the same circuit,
  k-probe matrices and numbers complete \<open>init\<close> (base OTs, OT extensions, cut-and-choose, circuits,
  buckets, corrections) in every order of their threads. The circuit has inputs of one size for the two
  parties, an output and a gate that needs a table; the numbers fit (\<open>protocol_ok\<close>), and there is an online
  thread for every circuit of a bucket (\<open>numThreadsPerEval\<close> at least the bucket size). Then, on every bucket
  and for all inputs of the circuit's sizes, the intersection of each party has a match; if there is one match, \<open>execute\<close>
  returns the circuit's output on the two inputs, and if there are more, the second thread that finds
  one throws.\<close>

theorem dual_ex_correct:
  assumes "digest20 sha" and "miracl_ok M" and "protocol_ok cir K E B Op w pInit"
    and "\<forall>k<6. distinct (ord k) \<and> set (ord k) = UNIV \<times> {..<min pInit E}"
    and "\<And>g xs. mset (fst (shuffle g xs)) = mset xs" and "length labels = mWireCount cir"
    and "orders_ok B os" and "orders_ok B js" and "orders_ok B fs" and "0 < pEval" and "B \<le> tEval"
  shows "\<exists>A. protocol_offline sha M crs cir K E B Op w pInit pEval tEval uninit prngs shuffle ord = Inr A
     \<and> (\<forall>b<E. \<forall>inp gens r. (\<forall>r. bv_bits (inp r) = Inputs cir r) \<longrightarrow>
          (\<exists>ms. execution_right pEval tEval sha A b B labels inp gens os js fs r ms
             (circuit_sem cir (joint_input cir (bv_get (inp First)) (bv_get (inp Second))))))"
proof -
  obtain C seeds where C: "\<forall>r. init_party sha M crs cir K E B Op w pInit pEval tEval uninit prngs r = Inr (C r, seeds r)"
    and ok: "actors_ok sha C cir K E B Op (Op + B * E) (min pInit E) w
         (index_array (max (max (kp_mEncodingSize (K First)) (mWireCount cir)) (length (mGates cir) * 2)))"
    and bk: "\<forall>r. ac_mBuckets (C r) = replicate E Bucket_new" using init_party_ok [OF assms(1-3)] by blast
  have eq: "Inputs cir First = Inputs cir Second" and b: "B < 2 ^ 32" "w \<le> 128" "0 < w"
    using assms(3) by (simp_all add: protocol_ok_def Inputs_def)
  have miss: "\<forall>r. \<forall>b<E. bk_mOutputMissCount (ac_mBuckets (C r) ! b) = 0" by (simp add: bk Bucket_new_def)
  have lC: "lk_actor (links_start C) = C" by (simp add: links_start_def)
  obtain l' where l': "offline_phase sha shuffle seeds ord (links_start C) = Inr l'"
    "\<forall>b<E. \<forall>inp gens r. (\<forall>r. bv_bits (inp r) = Inputs cir r) \<longrightarrow>
          (\<exists>ms. execution_right pEval tEval sha (lk_actor l') b B labels inp gens os js fs r ms
             (circuit_sem cir (joint_input cir (bv_get (inp First)) (bv_get (inp Second)))))"
    using execute_after_offline [where l = "links_start C" and seeds = seeds and shuffle = shuffle, OF ok lC assms(4) eq assms(6,5) miss b assms(7-11)]
    by blast
  have "protocol_offline sha M crs cir K E B Op w pInit pEval tEval uninit prngs shuffle ord = Inr (lk_actor l')"
    using C l'(1) by (simp add: protocol_offline_def case_role_eta)
  then show ?thesis using l'(2) by blast
qed

text \<open>Half adders with one circuit in each of two buckets: both executions give \<open>1 + 1 = 10\<close>.\<close>

lemma half_adder_protocol: "protocol_ok half_adder (\<lambda>r. kp_one) 2 1 1 8 2"
proof -
  have "kp_wf kp_one" by (simp add: kp_one_def kp_wf_def kp_h_def bv_wf_put bv_wf_reset bv_fits_def)
  moreover have "Inputs half_adder q = 1" for q by (cases q) (simp_all add: Inputs_def half_adder_def)
  moreover have "garblable (mGates half_adder)" using half_adder_ok [of 0 0 0 0] by (simp add: half_ok_def)
  ultimately show ?thesis
    by (simp add: protocol_ok_def half_adder_wf half_adder_sendable) (simp add: half_adder_def kp_one_def bv_fits_def)
qed

lemma single_match: "length ms = 1 \<Longrightarrow> True \<in> set ms \<Longrightarrow> length (filter id ms) = 1"
  by (cases ms) auto

theorem dual_ex_correct_witness:
  "\<forall>uninit. \<exists>A. protocol_offline (vec_resize 0 20) toy_miracl \<lparr>crs_g0 = 3, crs_h0 = 5, crs_g1 = 7, crs_h1 = 9, crs_num_bits = 256\<rparr>
       half_adder (\<lambda>r. kp_one) 2 1 1 8 2 2 1 uninit (\<lambda>r. SetSeed 7) (\<lambda>g xs. (rev xs, g))
       (\<lambda>k. [(Second, 1), (First, 0), (First, 1), (Second, 0)]) = Inr A
     \<and> (\<forall>b<2. \<forall>r. map_sum id bv_list (actor_execute 2 1 (vec_resize 0 20) A b [0, 0, 0, 0]
            (\<lambda>r. bv_put (bv_reset bv_empty 1) 0 True) (\<lambda>r c. SetSeed 1) (\<lambda>r. [0]) (\<lambda>r. [0]) (\<lambda>r. [0]) r) = Inr [False, True])"
proof (rule allI)
  fix uninit :: "role \<Rightarrow> DualExActor"
  let ?sha = "vec_resize 0 20 :: u8 list \<Rightarrow> u8 list" and ?in = "\<lambda>r :: role. bv_put (bv_reset bv_empty 1) 0 True"
  have sha: "digest20 ?sha" by (simp add: digest20_def HashSize_def)
  have U: "set [(Second, 1), (First, 0), (First, 1), (Second, 0)] = UNIV \<times> {..<min 2 (2 :: nat)}"
  proof -
    have "UNIV = {First, Second}" by (auto intro: role.exhaust)
    moreover have "{..<min 2 (2 :: nat)} = {0, 1}" by (auto simp: numeral_2_eq_2 lessThan_Suc)
    ultimately show ?thesis by auto
  qed
  have o: "orders_ok 1 (\<lambda>r. [0])" by (auto simp: orders_ok_def)
  have ord: "\<forall>k<(6 :: nat). distinct [(Second, 1 :: nat), (First, 0), (First, 1), (Second, 0)]
      \<and> set [(Second, 1), (First, 0), (First, 1), (Second, 0)] = UNIV \<times> {..<min 2 (2 :: nat)}" unfolding U by simp
  have sh: "mset (fst (rev xs, g)) = mset xs" for xs :: "nat list" and g :: prng by simp
  have l: "length [0, 0, 0, 0 :: block] = mWireCount half_adder" by simp
  obtain A where A: "protocol_offline ?sha toy_miracl \<lparr>crs_g0 = 3, crs_h0 = 5, crs_g1 = 7, crs_h1 = 9, crs_num_bits = 256\<rparr>
       half_adder (\<lambda>r. kp_one) 2 1 1 8 2 2 1 uninit (\<lambda>r. SetSeed 7) (\<lambda>g xs. (rev xs, g))
       (\<lambda>k. [(Second, 1), (First, 0), (First, 1), (Second, 0)]) = Inr A"
    and ex: "\<forall>b<2. \<forall>inp gens r. (\<forall>r. bv_bits (inp r) = Inputs half_adder r) \<longrightarrow>
        (\<exists>ms. execution_right 2 1 ?sha A b 1 [0, 0, 0, 0] inp gens (\<lambda>r. [0]) (\<lambda>r. [0]) (\<lambda>r. [0]) r ms
           (circuit_sem half_adder (joint_input half_adder (bv_get (inp First)) (bv_get (inp Second)))))"
    using dual_ex_correct [where labels = "[0, 0, 0, 0]" and shuffle = "\<lambda>g xs. (rev xs, g)"
        and ord = "\<lambda>k. [(Second, 1), (First, 0), (First, 1), (Second, 0)]" and pEval = 2 and tEval = 1,
        OF sha toy_miracl_ok half_adder_protocol ord sh l o o o zero_less_numeral order_refl] by blast
  have sem: "circuit_sem half_adder (joint_input half_adder (bv_get (?in First)) (bv_get (?in Second))) = [False, True]"
    by code_simp
  have "Inputs half_adder r = 1" for r by (cases r) (simp_all add: Inputs_def half_adder_def)
  then have "\<forall>r. bv_bits (?in r) = Inputs half_adder r" by simp
  then have "\<forall>b<2. \<forall>r. map_sum id bv_list (actor_execute 2 1 ?sha A b [0, 0, 0, 0] ?in (\<lambda>r c. SetSeed 1)
      (\<lambda>r. [0]) (\<lambda>r. [0]) (\<lambda>r. [0]) r) = Inr [False, True]"
    using ex sem single_match unfolding execution_right_def by metis
  then show "\<exists>A. protocol_offline ?sha toy_miracl \<lparr>crs_g0 = 3, crs_h0 = 5, crs_g1 = 7, crs_h1 = 9, crs_num_bits = 256\<rparr>
       half_adder (\<lambda>r. kp_one) 2 1 1 8 2 2 1 uninit (\<lambda>r. SetSeed 7) (\<lambda>g xs. (rev xs, g))
       (\<lambda>k. [(Second, 1), (First, 0), (First, 1), (Second, 0)]) = Inr A
     \<and> (\<forall>b<2. \<forall>r. map_sum id bv_list (actor_execute 2 1 ?sha A b [0, 0, 0, 0] ?in (\<lambda>r c. SetSeed 1)
            (\<lambda>r. [0]) (\<lambda>r. [0]) (\<lambda>r. [0]) r) = Inr [False, True])" using A by blast
qed

end
