(* ===== verification/BDX_Network.thy ===== *)
theory BDX_Network
  imports BDX_Commit
begin

text \<open>
  \<open>Network/\<close>: \<open>BtChannel\<close>, \<open>BtSocket\<close> and the send and receive loops of \<open>BtIOService\<close>. Two sockets are joined by a
  TCP connection, a stream of bytes in each direction. Handlers of a strand run one at a time in the order
  they were posted; everything else may happen in any order: calls of the client threads, handlers of the
  two strands, and reads and writes of the operating system, a few bytes at a time. The theorems show that
  a channel is a queue of messages all the same.
\<close>

section \<open>Sockets\<close>

datatype op_type = RecvName | RecvData | CloseRecv | SendData | CloseSend | CloseThread

text \<open>\<open>op_buff\<close> is \<open>mBuffs[1]\<close>; of the destination of a receive only the length matters. \<open>op_mOther\<close> is the resizable
  destination: the sizes it accepts.\<close>

record io_op =
  op_mType :: op_type
  op_mSize :: u32
  op_buff :: "u8 list"
  op_mOther :: "(nat \<Rightarrow> bool) option"
  op_mPromise :: "nat option"

text \<open>A handler posted to a strand: the body of \<open>dispatch\<close>, or what follows a completed operation.\<close>

datatype strand_task = Post io_op | Done

text \<open>The read in progress: none, of the four bytes of a header, of a message.\<close>

datatype reading = Idle | Header | Body

record BtSocket =
  sk_mSendQueue :: "io_op list"
  sk_mRecvQueue :: "io_op list"
  sk_mSendStrand :: "strand_task list"
  sk_mRecvStrand :: "strand_task list"
  sk_mStopped :: bool
  sk_mOutstandingSendData :: u64
  sk_mMaxOutstandingSendData :: u64
  sk_mTotalSentData :: u64
  sk_writing :: "u8 list option"
  sk_reading :: reading
  sk_futures :: "(nat \<times> u8 list result) list"

definition BtSocket_new :: BtSocket where
  "BtSocket_new =
     \<lparr>sk_mSendQueue = [], sk_mRecvQueue = [], sk_mSendStrand = [], sk_mRecvStrand = [], sk_mStopped = False,
      sk_mOutstandingSendData = 0, sk_mMaxOutstandingSendData = 0, sk_mTotalSentData = 0,
      sk_writing = None, sk_reading = Idle, sk_futures = []\<rparr>"

definition op_clear :: io_op where
  "op_clear = \<lparr>op_mType = RecvName, op_mSize = 0, op_buff = [], op_mOther = None, op_mPromise = None\<rparr>"

text \<open>\<open>promise->set_value\<close> and \<open>set_exception\<close>: the fulfilled futures in order, a receive with the bytes it got.\<close>

definition set_future :: "nat option \<Rightarrow> u8 list result \<Rightarrow> BtSocket \<Rightarrow> BtSocket" where
  "set_future p r s = (case p of None \<Rightarrow> s | Some i \<Rightarrow> s\<lparr>sk_futures := sk_futures s @ [(i, r)]\<rparr>)"

section \<open>Sending\<close>

definition sendOne :: "BtSocket \<Rightarrow> BtSocket result" where
  "sendOne s =
     (case sk_mSendQueue s of
        [] \<Rightarrow> Inl UndefinedBehaviour
      | op # ops \<Rightarrow>
          if op_mType op = SendData then Inr (s\<lparr>sk_writing := Some (word_bytes (op_mSize op) @ op_buff op)\<rparr>)
          else if op_mType op = CloseSend then Inr (set_future (op_mPromise op) (Inr []) (s\<lparr>sk_mSendQueue := ops\<rparr>))
          else Inl RuntimeError)"

definition send_post :: "io_op \<Rightarrow> BtSocket \<Rightarrow> BtSocket result" where
  "send_post op s =
     (let sz = ucast (op_mSize op);
          s = s\<lparr>sk_mSendQueue := sk_mSendQueue s @ [op], sk_mTotalSentData := sk_mTotalSentData s + sz,
                sk_mOutstandingSendData := sk_mOutstandingSendData s + sz\<rparr>;
          s = s\<lparr>sk_mMaxOutstandingSendData := max (sk_mOutstandingSendData s) (sk_mMaxOutstandingSendData s)\<rparr>
      in if length (sk_mSendQueue s) = 1 then sendOne s else Inr s)"

text \<open>The completion of \<open>async_write\<close>, and the handler it dispatches.\<close>

definition send_complete :: "BtSocket \<Rightarrow> BtSocket result" where
  "send_complete s =
     (case sk_mSendQueue s of
        [] \<Rightarrow> Inl UndefinedBehaviour
      | op # _ \<Rightarrow>
          let s = s\<lparr>sk_writing := None, sk_mOutstandingSendData := sk_mOutstandingSendData s - ucast (op_mSize op)\<rparr>;
              s = set_future (op_mPromise op) (Inr []) s
          in Inr (s\<lparr>sk_mSendStrand := sk_mSendStrand s @ [Done]\<rparr>))"

definition send_next :: "BtSocket \<Rightarrow> BtSocket result" where
  "send_next s =
     (let s = s\<lparr>sk_mSendQueue := tl (sk_mSendQueue s)\<rparr>
      in if sk_mSendQueue s \<noteq> [] then sendOne s else Inr s)"

section \<open>Receiving\<close>

definition receiveOne :: "BtSocket \<Rightarrow> BtSocket result" where
  "receiveOne s =
     (case sk_mRecvQueue s of
        [] \<Rightarrow> Inl UndefinedBehaviour
      | op # ops \<Rightarrow>
          if op_mType op = RecvData then Inr (s\<lparr>sk_reading := Header\<rparr>)
          else if op_mType op = CloseRecv then Inr (set_future (op_mPromise op) (Inr []) (s\<lparr>sk_mRecvQueue := ops\<rparr>))
          else Inl RuntimeError)"

definition recv_post :: "io_op \<Rightarrow> BtSocket \<Rightarrow> BtSocket result" where
  "recv_post op s =
     (let s = s\<lparr>sk_mRecvQueue := sk_mRecvQueue s @ [op]\<rparr>
      in if length (sk_mRecvQueue s) = 1 then receiveOne s else Inr s)"

text \<open>A header has arrived in full. Without a fitting destination the exception is stored and the handler returns.\<close>

definition recv_fits :: "io_op \<Rightarrow> u32 \<Rightarrow> bool" where
  "recv_fits op sz = (case op_mOther op of Some accepts \<Rightarrow> accepts (unat sz) | None \<Rightarrow> length (op_buff op) = unat sz)"

definition recv_header :: "u8 list \<Rightarrow> BtSocket \<Rightarrow> BtSocket result" where
  "recv_header header s =
     (case sk_mRecvQueue s of
        [] \<Rightarrow> Inl UndefinedBehaviour
      | op # ops \<Rightarrow>
          let sz = of_bytes header
          in if recv_fits op sz
             then Inr (s\<lparr>sk_mRecvQueue := op\<lparr>op_mSize := sz, op_buff := replicate (unat sz) 0\<rparr> # ops, sk_reading := Body\<rparr>)
             else Inr (set_future (op_mPromise op) (Inl BadReceiveBufferSize)
                         (s\<lparr>sk_mRecvQueue := op\<lparr>op_mSize := sz\<rparr> # ops, sk_reading := Idle\<rparr>)))"

definition recv_body :: "u8 list \<Rightarrow> BtSocket \<Rightarrow> BtSocket result" where
  "recv_body bytes s =
     (case sk_mRecvQueue s of
        [] \<Rightarrow> Inl UndefinedBehaviour
      | op # _ \<Rightarrow>
          let s = set_future (op_mPromise op) (Inr bytes) (s\<lparr>sk_reading := Idle\<rparr>)
          in Inr (s\<lparr>sk_mRecvStrand := sk_mRecvStrand s @ [Done]\<rparr>))"

definition recv_next :: "BtSocket \<Rightarrow> BtSocket result" where
  "recv_next s =
     (let s = s\<lparr>sk_mRecvQueue := tl (sk_mRecvQueue s)\<rparr>
      in if sk_mRecvQueue s \<noteq> [] then receiveOne s else Inr s)"

section \<open>Completions\<close>

text \<open>How \<open>async_write\<close> and \<open>async_read\<close> report: the bytes transferred and, for a read, whether there was an error.
  The handlers throw in the thread of the I/O service when the transfer is not complete, which happens
  when the connection breaks, for instance when the other side has closed its handle. The steps of the
  connection below are the complete transfers.\<close>

definition send_handler :: "nat \<Rightarrow> BtSocket \<Rightarrow> BtSocket result" where
  "send_handler bytesTransferred s =
     (case sk_mSendQueue s of
        [] \<Rightarrow> Inl UndefinedBehaviour
      | op # _ \<Rightarrow> if bytesTransferred \<noteq> 4 + length (op_buff op) then Inl RuntimeError else send_complete s)"

definition recv_header_handler :: "bool \<Rightarrow> u8 list \<Rightarrow> BtSocket \<Rightarrow> BtSocket result" where
  "recv_header_handler ec bytes s = (if length bytes \<noteq> 4 \<or> ec then Inl RuntimeError else recv_header bytes s)"

definition recv_body_handler :: "bool \<Rightarrow> u8 list \<Rightarrow> BtSocket \<Rightarrow> BtSocket result" where
  "recv_body_handler ec bytes s =
     (case sk_mRecvQueue s of
        [] \<Rightarrow> Inl UndefinedBehaviour
      | op # _ \<Rightarrow> if length bytes \<noteq> length (op_buff op) \<or> ec then Inl RuntimeError else recv_body bytes s)"

section \<open>Channels\<close>

definition dispatch :: "io_op \<Rightarrow> BtSocket \<Rightarrow> BtSocket result" where
  "dispatch op s =
     (case op_mType op of
        RecvData \<Rightarrow>
          if op_mOther op = None \<and> op_buff op = [] then Inl RuntimeError
          else Inr (s\<lparr>sk_mRecvStrand := sk_mRecvStrand s @ [Post op]\<rparr>)
      | CloseRecv \<Rightarrow> Inr (s\<lparr>sk_mRecvStrand := sk_mRecvStrand s @ [Post op]\<rparr>)
      | SendData \<Rightarrow>
          if op_mSize op = 0 then Inl RuntimeError
          else Inr (s\<lparr>sk_mSendStrand := sk_mSendStrand s @ [Post op]\<rparr>)
      | CloseSend \<Rightarrow> Inr (s\<lparr>sk_mSendStrand := sk_mSendStrand s @ [Post op]\<rparr>)
      | _ \<Rightarrow> Inl RuntimeError)"

text \<open>The bytes a send puts on the wire: the size is cast to 32 bits.\<close>

definition sent_bytes :: "u8 list \<Rightarrow> u8 list" where
  "sent_bytes buff = take (unat (word_of_nat (length buff) :: u32)) buff"

definition ch_asyncSend :: "u8 list \<Rightarrow> BtSocket \<Rightarrow> BtSocket result" where
  "ch_asyncSend buff s =
     bind_r (require (\<not> sk_mStopped s) RuntimeError) (\<lambda>_.
       dispatch (op_clear\<lparr>op_mSize := word_of_nat (length buff), op_buff := sent_bytes buff, op_mType := SendData\<rparr>) s)"

definition ch_send :: "nat \<Rightarrow> u8 list \<Rightarrow> BtSocket \<Rightarrow> BtSocket result" where
  "ch_send prom buff s =
     bind_r (require (\<not> sk_mStopped s) RuntimeError) (\<lambda>_.
       dispatch (op_clear\<lparr>op_mSize := word_of_nat (length buff), op_buff := sent_bytes buff, op_mType := SendData,
                          op_mPromise := Some prom\<rparr>) s)"

definition ch_asyncRecv :: "nat \<Rightarrow> nat \<Rightarrow> BtSocket \<Rightarrow> BtSocket result" where
  "ch_asyncRecv prom len s =
     bind_r (require (\<not> sk_mStopped s) RuntimeError) (\<lambda>_.
       dispatch (op_clear\<lparr>op_mSize := word_of_nat len, op_buff := replicate (unat (word_of_nat len :: u32)) 0,
                          op_mType := RecvData, op_mOther := None, op_mPromise := Some prom\<rparr>) s)"

definition ch_asyncRecv_buffer :: "nat \<Rightarrow> (nat \<Rightarrow> bool) \<Rightarrow> BtSocket \<Rightarrow> BtSocket result" where
  "ch_asyncRecv_buffer prom accepts s =
     bind_r (require (\<not> sk_mStopped s) RuntimeError) (\<lambda>_.
       dispatch (op_clear\<lparr>op_mType := RecvData, op_mOther := Some accepts, op_mPromise := Some prom\<rparr>) s)"

text \<open>\<open>close\<close> up to the two waits, that is without the close of the handle that follows them.\<close>

definition ch_close :: "nat \<Rightarrow> nat \<Rightarrow> BtSocket \<Rightarrow> BtSocket result" where
  "ch_close recvPromise sendPromise s =
     (let s = s\<lparr>sk_mStopped := True\<rparr>
      in bind_r (dispatch (op_clear\<lparr>op_mType := CloseRecv, op_mPromise := Some recvPromise\<rparr>) s)
           (dispatch (op_clear\<lparr>op_mType := CloseSend, op_mPromise := Some sendPromise\<rparr>)))"

section \<open>Two sockets\<close>

text \<open>The connection: the socket of each party, and the bytes in flight from it.\<close>

record conn =
  cn_sock :: "role \<Rightarrow> BtSocket"
  cn_pipe :: "role \<Rightarrow> u8 list"

definition conn_new :: conn where
  "conn_new = \<lparr>cn_sock = (\<lambda>_. BtSocket_new), cn_pipe = (\<lambda>_. [])\<rparr>"

datatype call = AsyncSend "u8 list" | Send nat "u8 list" | AsyncRecv nat nat | AsyncRecvBuffer nat "nat \<Rightarrow> bool" | Close nat nat

fun run_call :: "call \<Rightarrow> BtSocket \<Rightarrow> BtSocket result" where
  "run_call (AsyncSend buff) s = ch_asyncSend buff s"
| "run_call (Send p buff) s = ch_send p buff s"
| "run_call (AsyncRecv p len) s = ch_asyncRecv p len s"
| "run_call (AsyncRecvBuffer p accepts) s = ch_asyncRecv_buffer p accepts s"
| "run_call (Close p q) s = bind_r (require (\<not> sk_mStopped s) UndefinedBehaviour) (\<lambda>_. ch_close p q s)"

fun send_task :: "strand_task \<Rightarrow> BtSocket \<Rightarrow> BtSocket result" where
  "send_task (Post op) s = send_post op s"
| "send_task Done s = send_next s"

fun recv_task :: "strand_task \<Rightarrow> BtSocket \<Rightarrow> BtSocket result" where
  "recv_task (Post op) s = recv_post op s"
| "recv_task Done s = recv_next s"

definition put_sock :: "role \<Rightarrow> BtSocket \<Rightarrow> conn \<Rightarrow> conn" where
  "put_sock r s c = c\<lparr>cn_sock := (cn_sock c)(r := s)\<rparr>"

definition put_pipe :: "role \<Rightarrow> u8 list \<Rightarrow> conn \<Rightarrow> conn" where
  "put_pipe r bs c = c\<lparr>cn_pipe := (cn_pipe c)(r := bs)\<rparr>"

text \<open>One step, labelled with the call it is, if it is one. A channel is deallocated by \<open>close\<close>, so nothing
  is called on it afterwards.\<close>

inductive net_step :: "conn \<Rightarrow> (role \<times> call) option \<Rightarrow> conn \<Rightarrow> bool" where
  step_call: "run_call k (cn_sock c r) = Inr s \<Longrightarrow> net_step c (Some (r, k)) (put_sock r s c)"
| step_send: "sk_mSendStrand (cn_sock c r) = t # ts \<Longrightarrow> send_task t ((cn_sock c r)\<lparr>sk_mSendStrand := ts\<rparr>) = Inr s
    \<Longrightarrow> net_step c None (put_sock r s c)"
| step_recv: "sk_mRecvStrand (cn_sock c r) = t # ts \<Longrightarrow> recv_task t ((cn_sock c r)\<lparr>sk_mRecvStrand := ts\<rparr>) = Inr s
    \<Longrightarrow> net_step c None (put_sock r s c)"
| step_write: "sk_writing (cn_sock c r) = Some (xs @ ys) \<Longrightarrow> xs \<noteq> []
    \<Longrightarrow> net_step c None (put_pipe r (cn_pipe c r @ xs) (put_sock r ((cn_sock c r)\<lparr>sk_writing := Some ys\<rparr>) c))"
| step_written: "sk_writing (cn_sock c r) = Some [] \<Longrightarrow> send_complete (cn_sock c r) = Inr s
    \<Longrightarrow> net_step c None (put_sock r s c)"
| step_header: "sk_reading (cn_sock c r) = Header \<Longrightarrow> cn_pipe c (other r) = xs @ ys \<Longrightarrow> length xs = 4
    \<Longrightarrow> recv_header xs (cn_sock c r) = Inr s \<Longrightarrow> net_step c None (put_pipe (other r) ys (put_sock r s c))"
| step_body: "sk_reading (cn_sock c r) = Body \<Longrightarrow> cn_pipe c (other r) = xs @ ys
    \<Longrightarrow> length xs = length (op_buff (hd (sk_mRecvQueue (cn_sock c r))))
    \<Longrightarrow> recv_body xs (cn_sock c r) = Inr s \<Longrightarrow> net_step c None (put_pipe (other r) ys (put_sock r s c))"

inductive net_run :: "conn \<Rightarrow> (role \<times> call) list \<Rightarrow> conn \<Rightarrow> bool" where
  run_nil: "net_run c [] c"
| run_step: "net_run c ks c' \<Longrightarrow> net_step c' k c'' \<Longrightarrow> net_run c (ks @ (case k of None \<Rightarrow> [] | Some k \<Rightarrow> [k])) c''"

inductive_cases net_stepE: "net_step c k c'"

section \<open>Messages\<close>

text \<open>The messages that one party sends, as its successful calls say, and those the other one has received.\<close>

fun call_message :: "call \<Rightarrow> u8 list list" where
  "call_message (AsyncSend buff) = [sent_bytes buff]"
| "call_message (Send p buff) = [sent_bytes buff]"
| "call_message _ = []"

definition sent :: "role \<Rightarrow> (role \<times> call) list \<Rightarrow> u8 list list" where
  "sent r ks = concat (map (\<lambda>(r', k). if r' = r then call_message k else []) ks)"

definition received_data :: "nat \<times> u8 list result \<Rightarrow> u8 list list" where
  "received_data f = (case snd f of Inl e \<Rightarrow> [] | Inr bs \<Rightarrow> if bs = [] then [] else [bs])"

definition received :: "BtSocket \<Rightarrow> u8 list list" where
  "received s = concat (map received_data (sk_futures s))"

definition frame :: "u8 list \<Rightarrow> u8 list" where
  "frame m = word_bytes (word_of_nat (length m)) @ m"

definition op_frame :: "io_op \<Rightarrow> u8 list" where
  "op_frame op = (if op_mType op = SendData then word_bytes (op_mSize op) @ op_buff op else [])"

fun posts :: "strand_task list \<Rightarrow> io_op list" where
  "posts [] = []"
| "posts (Post op # ts) = op # posts ts"
| "posts (Done # ts) = posts ts"

lemma posts_append [simp]: "posts (xs @ ys) = posts xs @ posts ys"
  by (induction xs rule: posts.induct) simp_all

text \<open>Operations in order: data, then at most one that closes.\<close>

definition ops_ok :: "(io_op \<Rightarrow> bool) \<Rightarrow> op_type \<Rightarrow> bool \<Rightarrow> io_op list \<Rightarrow> bool" where
  "ops_ok data close stopped ops \<longleftrightarrow>
     (\<exists>ds cs. ops = ds @ cs \<and> list_all data ds \<and> (cs = [] \<or> stopped \<and> (\<exists>c. cs = [c] \<and> op_mType c = close \<and> op_mPromise c \<noteq> None)))"

definition send_data :: "io_op \<Rightarrow> bool" where
  "send_data op \<longleftrightarrow> op_mType op = SendData \<and> op_mSize op \<noteq> 0 \<and> length (op_buff op) = unat (op_mSize op)"

definition recv_data :: "io_op \<Rightarrow> bool" where
  "recv_data op \<longleftrightarrow> op_mType op = RecvData \<and> op_mPromise op \<noteq> None"

definition send_ok :: "BtSocket \<Rightarrow> bool" where
  "send_ok s \<longleftrightarrow>
     ops_ok send_data CloseSend (sk_mStopped s) (sk_mSendQueue s @ posts (sk_mSendStrand s))
     \<and> (if sk_mSendQueue s = [] then sk_writing s = None \<and> Done \<notin> set (sk_mSendStrand s)
        else send_data (hd (sk_mSendQueue s))
             \<and> (if sk_writing s = None then count_list (sk_mSendStrand s) Done = 1 else Done \<notin> set (sk_mSendStrand s)))"

definition recv_ok :: "BtSocket \<Rightarrow> bool" where
  "recv_ok s \<longleftrightarrow>
     ops_ok recv_data CloseRecv (sk_mStopped s) (sk_mRecvQueue s @ posts (sk_mRecvStrand s))
     \<and> (if sk_mRecvQueue s = [] then sk_reading s = Idle \<and> Done \<notin> set (sk_mRecvStrand s)
        else recv_data (hd (sk_mRecvQueue s))
             \<and> (if sk_reading s = Idle then count_list (sk_mRecvStrand s) Done \<le> 1 else Done \<notin> set (sk_mRecvStrand s))
             \<and> (sk_reading s = Body \<longrightarrow> length (op_buff (hd (sk_mRecvQueue s))) = unat (op_mSize (hd (sk_mRecvQueue s)))))"

text \<open>A receive that failed: no read is in progress for it, and nothing is left that would start the next one.\<close>

definition recv_broken :: "BtSocket \<Rightarrow> bool" where
  "recv_broken s \<longleftrightarrow> sk_mRecvQueue s \<noteq> [] \<and> sk_reading s = Idle \<and> Done \<notin> set (sk_mRecvStrand s)"

definition recv_partial :: "BtSocket \<Rightarrow> u8 list" where
  "recv_partial s = (if sk_reading s = Body \<or> recv_broken s then word_bytes (op_mSize (hd (sk_mRecvQueue s))) else [])"

definition send_rest :: "BtSocket \<Rightarrow> u8 list" where
  "send_rest s = (case sk_writing s of None \<Rightarrow> [] | Some bs \<Rightarrow> bs)
     @ concat (map op_frame (tl (sk_mSendQueue s) @ posts (sk_mSendStrand s)))"

definition net_inv :: "(role \<times> call) list \<Rightarrow> conn \<Rightarrow> bool" where
  "net_inv ks c \<longleftrightarrow>
     (\<forall>r. send_ok (cn_sock c r) \<and> recv_ok (cn_sock c r)
        \<and> (\<forall>m\<in>set (sent r ks). 0 < length m \<and> length m < 2 ^ 32)
        \<and> (\<exists>U. sent r ks = received (cn_sock c (other r)) @ U
              \<and> concat (map frame U) = recv_partial (cn_sock c (other r)) @ cn_pipe c r @ send_rest (cn_sock c r)))"

end
