(* ===== verification/BDX_NetInv.thy ===== *)
theory BDX_NetInv
  imports BDX_Network
begin

text \<open>
  The invariant of two connected sockets, handler by handler: the bytes of the messages that were sent
  and not yet received are a part of a header the receiver has read, then the bytes in flight, then those
  the sender has still to write.
\<close>

section \<open>Headers\<close>

lemma length_word_bytes [simp]: "length (word_bytes w) = 4"
  by (simp add: word_bytes_def)

lemma of_bytes_word_bytes [simp]: "(of_bytes (word_bytes w) :: u32) = w"
proof (rule bit_word_eqI)
  fix i assume "i < LENGTH(32)"
  then have i: "i < 32" by simp
  then have d: "i div 8 < 4" by (simp add: div_less_iff_less_mult)
  have "8 * (i div 8) + i mod 8 = i" by simp
  then show "bit (of_bytes (word_bytes w) :: u32) i = bit w i"
    using i d by (simp add: bit_of_bytes word_bytes_def bit_simps)
qed

lemma word_bytes_header: "length xs = 4 \<Longrightarrow> word_bytes (of_bytes xs) = xs"
  using word_bytes_of_bytes by (cases xs rule: words_of_bytes.cases) auto

lemma word_bytes_inject [simp]: "word_bytes v = word_bytes w \<longleftrightarrow> v = w"
  by (metis of_bytes_word_bytes)

lemma length_frame [simp]: "length (frame m) = 4 + length m"
  by (simp add: frame_def)

section \<open>Queues of operations\<close>

lemma ops_ok_data: "ops_ok data close False ops \<Longrightarrow> data op \<Longrightarrow> ops_ok data close stopped (ops @ [op])"
  unfolding ops_ok_def by (intro exI [of _ "ops @ [op]"] exI [of _ "[]"]) auto

lemma ops_ok_close: "ops_ok data close False ops \<Longrightarrow> op_mType op = close \<Longrightarrow> op_mPromise op \<noteq> None \<Longrightarrow> ops_ok data close True (ops @ [op])"
  unfolding ops_ok_def by auto

lemma ops_ok_tl: "ops_ok data close stopped (op # ops) \<Longrightarrow> ops_ok data close stopped ops"
  unfolding ops_ok_def
proof (elim exE conjE)
  fix ds cs assume e: "op # ops = ds @ cs" "list_all data ds"
    and c: "cs = [] \<or> stopped \<and> (\<exists>c. cs = [c] \<and> op_mType c = close \<and> op_mPromise c \<noteq> None)"
  show "\<exists>ds cs. ops = ds @ cs \<and> list_all data ds \<and> (cs = [] \<or> stopped \<and> (\<exists>c. cs = [c] \<and> op_mType c = close \<and> op_mPromise c \<noteq> None))"
    using e c by (intro exI [of _ "tl ds"] exI [of _ "if ds = [] then [] else cs"]) (cases ds; auto)
qed

lemma ops_ok_pop: "ops_ok data close stopped (ops @ ops') \<Longrightarrow> ops \<noteq> [] \<Longrightarrow> ops_ok data close stopped (tl ops @ ops')"
  by (cases ops) (auto dest: ops_ok_tl)

lemma ops_ok_hd:
  assumes "ops_ok data close stopped (op # ops)"
  obtains "data op" | "op_mType op = close" and "op_mPromise op \<noteq> None" and "ops = []"
proof -
  obtain ds cs where ds: "op # ops = ds @ cs" "list_all data ds" "cs = [] \<or> (\<exists>c. cs = [c] \<and> op_mType c = close \<and> op_mPromise c \<noteq> None)"
    using assms unfolding ops_ok_def by blast
  show thesis
  proof (cases ds)
    case Nil
    then show thesis using ds that(2) by auto
  next
    case (Cons d ds')
    then show thesis using ds that(1) by simp
  qed
qed

lemma count_Done_Cons: "count_list (t # ts) Done = (if t = Done then 1 else 0) + count_list ts Done"
  by simp

lemma count_Done_append: "count_list (ts @ [Done]) Done = Suc (count_list ts Done)"
  by simp

section \<open>Halves of a socket\<close>

definition send_half :: "BtSocket \<Rightarrow> io_op list \<times> strand_task list \<times> u8 list option \<times> bool" where
  "send_half s = (sk_mSendQueue s, sk_mSendStrand s, sk_writing s, sk_mStopped s)"

definition recv_half :: "BtSocket \<Rightarrow> io_op list \<times> strand_task list \<times> reading \<times> bool \<times> u8 list list" where
  "recv_half s = (sk_mRecvQueue s, sk_mRecvStrand s, sk_reading s, sk_mStopped s, received s)"

lemma send_half_eq:
  "send_half s' = send_half s \<Longrightarrow> send_ok s' = send_ok s"
  "send_half s' = send_half s \<Longrightarrow> send_rest s' = send_rest s"
  by (simp_all add: send_half_def send_ok_def send_rest_def)

lemma recv_half_eq:
  "recv_half s' = recv_half s \<Longrightarrow> recv_ok s' = recv_ok s"
  "recv_half s' = recv_half s \<Longrightarrow> recv_partial s' = recv_partial s"
  "recv_half s' = recv_half s \<Longrightarrow> received s' = received s"
  by (simp_all add: recv_half_def recv_ok_def recv_partial_def recv_broken_def)

lemma received_set_future [simp]:
  "received (set_future p (Inr []) s) = received s"
  "received (set_future p (Inl e) s) = received s"
  "received (set_future (Some i) (Inr xs) s) = received s @ (if xs = [] then [] else [xs])"
  by (auto simp: received_def set_future_def received_data_def split: option.splits)

lemma set_future_fields [simp]:
  "sk_mSendQueue (set_future p r s) = sk_mSendQueue s" "sk_mRecvQueue (set_future p r s) = sk_mRecvQueue s"
  "sk_mSendStrand (set_future p r s) = sk_mSendStrand s" "sk_mRecvStrand (set_future p r s) = sk_mRecvStrand s"
  "sk_mStopped (set_future p r s) = sk_mStopped s" "sk_writing (set_future p r s) = sk_writing s"
  "sk_reading (set_future p r s) = sk_reading s"
  "sk_mOutstandingSendData (set_future p r s) = sk_mOutstandingSendData s"
  "sk_mTotalSentData (set_future p r s) = sk_mTotalSentData s"
  by (simp_all add: set_future_def split: option.splits)

lemma received_update [simp]:
  "received (s\<lparr>sk_mSendQueue := q\<rparr>) = received s" "received (s\<lparr>sk_mRecvQueue := q\<rparr>) = received s"
  "received (s\<lparr>sk_mSendStrand := t\<rparr>) = received s" "received (s\<lparr>sk_mRecvStrand := t\<rparr>) = received s"
  "received (s\<lparr>sk_mStopped := b\<rparr>) = received s" "received (s\<lparr>sk_writing := w\<rparr>) = received s"
  "received (s\<lparr>sk_reading := i\<rparr>) = received s" "received (s\<lparr>sk_mOutstandingSendData := n\<rparr>) = received s"
  "received (s\<lparr>sk_mMaxOutstandingSendData := n\<rparr>) = received s" "received (s\<lparr>sk_mTotalSentData := n\<rparr>) = received s"
  by (simp_all add: received_def)

section \<open>The send handlers\<close>

text \<open>The next operation is started: the queue has one that was not started yet.\<close>

lemma sendOne_ok:
  assumes ops: "ops_ok send_data CloseSend (sk_mStopped s) (sk_mSendQueue s @ posts (sk_mSendStrand s))"
    and q: "sk_mSendQueue s \<noteq> []" and w: "sk_writing s = None" and d: "Done \<notin> set (sk_mSendStrand s)"
  shows "\<exists>s'. sendOne s = Inr s' \<and> send_ok s'
     \<and> send_rest s' = concat (map op_frame (sk_mSendQueue s @ posts (sk_mSendStrand s))) \<and> recv_half s' = recv_half s"
proof -
  obtain op q' where e: "sk_mSendQueue s = op # q'" using q by (cases "sk_mSendQueue s") auto
  have o': "ops_ok send_data CloseSend (sk_mStopped s) (op # q' @ posts (sk_mSendStrand s))" using ops by (simp add: e)
  from o' show ?thesis
  proof (cases rule: ops_ok_hd)
    case 1
    then have "op_mType op = SendData" by (simp add: send_data_def)
    then show ?thesis using 1 o' d e by (simp add: sendOne_def send_ok_def recv_half_def send_rest_def op_frame_def)
  next
    case 2
    then show ?thesis using w d e by (simp add: sendOne_def send_ok_def recv_half_def send_rest_def op_frame_def ops_ok_def)
  qed
qed

lemma send_task_ok:
  assumes ok: "send_ok s" and strand: "sk_mSendStrand s = t # ts"
  shows "\<exists>s'. send_task t (s\<lparr>sk_mSendStrand := ts\<rparr>) = Inr s' \<and> send_ok s' \<and> send_rest s' = send_rest s \<and> recv_half s' = recv_half s"
proof (cases t)
  case (Post op)
  let ?s = "s\<lparr>sk_mSendStrand := ts, sk_mSendQueue := sk_mSendQueue s @ [op],
      sk_mTotalSentData := sk_mTotalSentData s + ucast (op_mSize op), sk_mOutstandingSendData := sk_mOutstandingSendData s + ucast (op_mSize op),
      sk_mMaxOutstandingSendData := max (sk_mOutstandingSendData s + ucast (op_mSize op)) (sk_mMaxOutstandingSendData s)\<rparr>"
  have ops: "ops_ok send_data CloseSend (sk_mStopped ?s) (sk_mSendQueue ?s @ posts (sk_mSendStrand ?s))"
    using ok by (simp add: send_ok_def strand Post)
  show ?thesis
  proof (cases "sk_mSendQueue s = []")
    case True
    then have s: "sk_writing s = None" "Done \<notin> set ts" using ok strand Post by (simp_all add: send_ok_def)
    have run: "send_task t (s\<lparr>sk_mSendStrand := ts\<rparr>) = sendOne ?s" using True Post by (simp add: send_post_def Let_def)
    have "\<exists>s'. sendOne ?s = Inr s' \<and> send_ok s'
       \<and> send_rest s' = concat (map op_frame (sk_mSendQueue ?s @ posts (sk_mSendStrand ?s))) \<and> recv_half s' = recv_half ?s"
      by (rule sendOne_ok [OF ops]) (use s in simp_all)
    moreover have "recv_half ?s = recv_half s" by (simp add: recv_half_def)
    moreover have "concat (map op_frame (sk_mSendQueue ?s @ posts (sk_mSendStrand ?s))) = send_rest s"
      using True s(1) by (simp add: send_rest_def strand Post)
    ultimately show ?thesis unfolding run by (simp only:)
  next
    case False
    have run: "send_task t (s\<lparr>sk_mSendStrand := ts\<rparr>) = Inr ?s" using False Post by (simp add: send_post_def Let_def)
    have "send_ok ?s" using ok False ops strand Post by (auto simp: send_ok_def split: if_splits)
    moreover have "send_rest ?s = send_rest s" using False by (simp add: send_rest_def strand Post)
    moreover have "recv_half ?s = recv_half s" by (simp add: recv_half_def)
    ultimately show ?thesis using run by blast
  qed
next
  case Done
  let ?s = "s\<lparr>sk_mSendStrand := ts, sk_mSendQueue := tl (sk_mSendQueue s)\<rparr>"
  have q: "sk_mSendQueue s \<noteq> []" using ok strand Done by (auto simp: send_ok_def)
  then have w: "sk_writing s = None" "Done \<notin> set ts"
    using ok strand Done by (auto simp: send_ok_def count_list_0_iff split: if_splits)
  have ops: "ops_ok send_data CloseSend (sk_mStopped ?s) (sk_mSendQueue ?s @ posts (sk_mSendStrand ?s))"
    using ok q strand Done ops_ok_pop [of send_data CloseSend "sk_mStopped s" "sk_mSendQueue s"] by (simp add: send_ok_def)
  have rest: "send_rest s = concat (map op_frame (sk_mSendQueue ?s @ posts (sk_mSendStrand ?s)))"
    using w(1) by (simp add: send_rest_def strand Done)
  have half: "recv_half ?s = recv_half s" by (simp add: recv_half_def)
  show ?thesis
  proof (cases "tl (sk_mSendQueue s) = []")
    case True
    then have run: "send_task t (s\<lparr>sk_mSendStrand := ts\<rparr>) = Inr ?s" by (simp add: Done send_next_def Let_def)
    have "send_ok ?s" using True ops w by (simp add: send_ok_def)
    moreover have "send_rest ?s = send_rest s" using True w(1) rest by (simp add: send_rest_def)
    ultimately show ?thesis using run half by blast
  next
    case False
    then have run: "send_task t (s\<lparr>sk_mSendStrand := ts\<rparr>) = sendOne ?s" by (simp add: Done send_next_def Let_def)
    have "\<exists>s'. sendOne ?s = Inr s' \<and> send_ok s'
       \<and> send_rest s' = concat (map op_frame (sk_mSendQueue ?s @ posts (sk_mSendStrand ?s))) \<and> recv_half s' = recv_half ?s"
      by (rule sendOne_ok [OF ops]) (use w False in simp_all)
    then show ?thesis unfolding run rest half by blast
  qed
qed

lemma send_complete_ok:
  assumes ok: "send_ok s" and w: "sk_writing s = Some []"
  shows "\<exists>s'. send_complete s = Inr s' \<and> send_ok s' \<and> send_rest s' = send_rest s \<and> recv_half s' = recv_half s"
proof -
  obtain op q where e: "sk_mSendQueue s = op # q" using ok w by (cases "sk_mSendQueue s") (auto simp: send_ok_def)
  have d: "Done \<notin> set (sk_mSendStrand s)" using ok w e by (simp add: send_ok_def)
  then have c: "count_list (sk_mSendStrand s) Done = 0" by (simp add: count_list_0_iff)
  show ?thesis using ok w c by (simp add: send_complete_def e Let_def send_ok_def send_rest_def recv_half_def)
qed

section \<open>The receive handlers\<close>

lemma receiveOne_ok:
  assumes ops: "ops_ok recv_data CloseRecv (sk_mStopped s) (sk_mRecvQueue s @ posts (sk_mRecvStrand s))"
    and q: "sk_mRecvQueue s \<noteq> []" and w: "sk_reading s = Idle" and d: "Done \<notin> set (sk_mRecvStrand s)"
  shows "\<exists>s'. receiveOne s = Inr s' \<and> recv_ok s' \<and> recv_partial s' = [] \<and> received s' = received s \<and> send_half s' = send_half s"
proof -
  obtain op q' where e: "sk_mRecvQueue s = op # q'" using q by (cases "sk_mRecvQueue s") auto
  have o': "ops_ok recv_data CloseRecv (sk_mStopped s) (op # q' @ posts (sk_mRecvStrand s))" using ops by (simp add: e)
  from o' show ?thesis
  proof (cases rule: ops_ok_hd)
    case 1
    then have "op_mType op = RecvData" by (simp add: recv_data_def)
    then show ?thesis using 1 o' d e by (simp add: receiveOne_def recv_ok_def send_half_def recv_partial_def recv_broken_def)
  next
    case 2
    then show ?thesis using w d e
      by (simp add: receiveOne_def recv_ok_def send_half_def recv_partial_def recv_broken_def ops_ok_def)
  qed
qed

lemma recv_task_ok:
  assumes ok: "recv_ok s" and strand: "sk_mRecvStrand s = t # ts"
  shows "\<exists>s'. recv_task t (s\<lparr>sk_mRecvStrand := ts\<rparr>) = Inr s' \<and> recv_ok s' \<and> recv_partial s' = recv_partial s
     \<and> received s' = received s \<and> send_half s' = send_half s"
proof (cases t)
  case (Post op)
  let ?s = "s\<lparr>sk_mRecvStrand := ts, sk_mRecvQueue := sk_mRecvQueue s @ [op]\<rparr>"
  have ops: "ops_ok recv_data CloseRecv (sk_mStopped ?s) (sk_mRecvQueue ?s @ posts (sk_mRecvStrand ?s))"
    using ok by (simp add: recv_ok_def strand Post)
  have half: "send_half ?s = send_half s" "received ?s = received s" by (simp_all add: send_half_def)
  show ?thesis
  proof (cases "sk_mRecvQueue s = []")
    case True
    then have s: "sk_reading s = Idle" "Done \<notin> set ts" using ok strand Post by (simp_all add: recv_ok_def)
    have run: "recv_task t (s\<lparr>sk_mRecvStrand := ts\<rparr>) = receiveOne ?s" using True Post by (simp add: recv_post_def Let_def)
    have "\<exists>s'. receiveOne ?s = Inr s' \<and> recv_ok s' \<and> recv_partial s' = [] \<and> received s' = received ?s \<and> send_half s' = send_half ?s"
      by (rule receiveOne_ok [OF ops]) (use s in simp_all)
    moreover have "recv_partial s = []" using True s(1) by (simp add: recv_partial_def recv_broken_def)
    ultimately show ?thesis unfolding run half by (simp only:)
  next
    case False
    have run: "recv_task t (s\<lparr>sk_mRecvStrand := ts\<rparr>) = Inr ?s" using False Post by (simp add: recv_post_def Let_def)
    have "recv_ok ?s" using ok False ops strand Post by (auto simp: recv_ok_def split: if_splits)
    moreover have "recv_partial ?s = recv_partial s" using False by (simp add: recv_partial_def recv_broken_def strand Post)
    ultimately show ?thesis using run half by blast
  qed
next
  case Done
  let ?s = "s\<lparr>sk_mRecvStrand := ts, sk_mRecvQueue := tl (sk_mRecvQueue s)\<rparr>"
  have q: "sk_mRecvQueue s \<noteq> []" using ok strand Done by (auto simp: recv_ok_def)
  then have i: "sk_reading s = Idle" using ok strand Done by (auto simp: recv_ok_def split: if_splits)
  then have w: "Done \<notin> set ts"
    using ok q strand Done by (simp add: recv_ok_def count_list_0_iff)
  have ops: "ops_ok recv_data CloseRecv (sk_mStopped ?s) (sk_mRecvQueue ?s @ posts (sk_mRecvStrand ?s))"
    using ok q strand Done ops_ok_pop [of recv_data CloseRecv "sk_mStopped s" "sk_mRecvQueue s"] by (simp add: recv_ok_def)
  have partial: "recv_partial s = []" using i by (simp add: recv_partial_def recv_broken_def strand Done)
  have half: "send_half ?s = send_half s" "received ?s = received s" by (simp_all add: send_half_def)
  show ?thesis
  proof (cases "tl (sk_mRecvQueue s) = []")
    case True
    then have run: "recv_task t (s\<lparr>sk_mRecvStrand := ts\<rparr>) = Inr ?s" by (simp add: Done recv_next_def Let_def)
    have "recv_ok ?s" using True ops w i by (simp add: recv_ok_def)
    moreover have "recv_partial ?s = []" using True i by (simp add: recv_partial_def recv_broken_def)
    ultimately show ?thesis using run half partial by metis
  next
    case False
    then have run: "recv_task t (s\<lparr>sk_mRecvStrand := ts\<rparr>) = receiveOne ?s" by (simp add: Done recv_next_def Let_def)
    have "\<exists>s'. receiveOne ?s = Inr s' \<and> recv_ok s' \<and> recv_partial s' = [] \<and> received s' = received ?s \<and> send_half s' = send_half ?s"
      by (rule receiveOne_ok [OF ops]) (use w i False in simp_all)
    then show ?thesis unfolding run half partial .
  qed
qed

lemma ops_ok_change: "ops_ok data close stopped (op # ops) \<Longrightarrow> data op \<Longrightarrow> data op' \<Longrightarrow> op_mType op \<noteq> close \<Longrightarrow> ops_ok data close stopped (op' # ops)"
  unfolding ops_ok_def
proof (elim exE conjE)
  fix ds cs assume e: "op # ops = ds @ cs" "list_all data ds" "data op'" "op_mType op \<noteq> close"
    and c: "cs = [] \<or> stopped \<and> (\<exists>c. cs = [c] \<and> op_mType c = close \<and> op_mPromise c \<noteq> None)"
  show "\<exists>ds cs. op' # ops = ds @ cs \<and> list_all data ds \<and> (cs = [] \<or> stopped \<and> (\<exists>c. cs = [c] \<and> op_mType c = close \<and> op_mPromise c \<noteq> None))"
    using e c by (intro exI [of _ "op' # tl ds"] exI [of _ cs]) (cases ds; auto)
qed

lemma recv_header_ok:
  assumes ok: "recv_ok s" and i: "sk_reading s = Header" and xs: "length xs = 4"
  shows "\<exists>s'. recv_header xs s = Inr s' \<and> recv_ok s' \<and> recv_partial s' = xs \<and> received s' = received s \<and> send_half s' = send_half s"
proof -
  obtain op q where e: "sk_mRecvQueue s = op # q" using ok i by (cases "sk_mRecvQueue s") (auto simp: recv_ok_def)
  have s: "Done \<notin> set (sk_mRecvStrand s)" "recv_data op" "ops_ok recv_data CloseRecv (sk_mStopped s) (op # q @ posts (sk_mRecvStrand s))"
    using ok i e by (simp_all add: recv_ok_def)
  have ops: "ops_ok recv_data CloseRecv (sk_mStopped s) (op\<lparr>op_mSize := n, op_buff := b\<rparr> # q @ posts (sk_mRecvStrand s))"
    "ops_ok recv_data CloseRecv (sk_mStopped s) (op\<lparr>op_mSize := n\<rparr> # q @ posts (sk_mRecvStrand s))" for n b
    by (rule ops_ok_change [OF s(3,2)]; use s(2) in \<open>simp add: recv_data_def\<close>)+
  have c: "count_list (sk_mRecvStrand s) Done = 0" using s(1) by (simp add: count_list_0_iff)
  show ?thesis
    using s(1,2) ops c i word_bytes_header [OF xs]
    by (simp add: recv_header_def e Let_def recv_ok_def recv_partial_def recv_broken_def send_half_def recv_data_def)
qed

lemma recv_body_ok:
  assumes ok: "recv_ok s" and i: "sk_reading s = Body"
  shows "\<exists>s'. recv_body xs s = Inr s' \<and> recv_ok s' \<and> recv_partial s' = []
     \<and> received s' = received s @ (if xs = [] then [] else [xs]) \<and> send_half s' = send_half s"
proof -
  obtain op q where e: "sk_mRecvQueue s = op # q" using ok i by (cases "sk_mRecvQueue s") (auto simp: recv_ok_def)
  have s: "Done \<notin> set (sk_mRecvStrand s)" "recv_data op" "ops_ok recv_data CloseRecv (sk_mStopped s) (op # q @ posts (sk_mRecvStrand s))"
    using ok i e by (simp_all add: recv_ok_def)
  have c: "count_list (sk_mRecvStrand s) Done = 0" using s(1) by (simp add: count_list_0_iff)
  obtain p where "op_mPromise op = Some p" using s(2) by (auto simp: recv_data_def)
  then show ?thesis
    using s(2,3) c i by (simp add: recv_body_def e Let_def recv_ok_def recv_partial_def recv_broken_def send_half_def)
qed

section \<open>Calls\<close>

lemma length_sent_bytes: "length (sent_bytes buff) = unat (word_of_nat (length buff) :: u32)"
proof -
  have "unat (word_of_nat (length buff) :: u32) \<le> length buff" by (simp add: unat_of_nat)
  then show ?thesis by (simp add: sent_bytes_def)
qed

lemma frame_sent_bytes: "frame (sent_bytes buff) = word_bytes (word_of_nat (length buff)) @ sent_bytes buff"
  by (simp add: frame_def length_sent_bytes)

lemma sent_bytes_size: "(word_of_nat (length buff) :: u32) \<noteq> 0 \<Longrightarrow> 0 < length (sent_bytes buff) \<and> length (sent_bytes buff) < 2 ^ 32"
  using unsigned_less [of "word_of_nat (length buff) :: u32", where 'a = nat] by (simp add: length_sent_bytes unat_gt_0)

text \<open>A message and an expected receive are posted at the end of their strands; \<open>close\<close> posts to both.\<close>

lemma post_send:
  assumes "send_ok s" and "recv_ok s" and "\<not> sk_mStopped s" and op: "send_data op"
  defines "s' \<equiv> s\<lparr>sk_mSendStrand := sk_mSendStrand s @ [Post op]\<rparr>"
  shows "send_ok s' \<and> recv_half s' = recv_half s \<and> send_rest s' = send_rest s @ word_bytes (op_mSize op) @ op_buff op"
proof -
  have "ops_ok send_data CloseSend False ((sk_mSendQueue s @ posts (sk_mSendStrand s)) @ [op])"
    by (rule ops_ok_data) (use assms in \<open>simp_all add: send_ok_def\<close>)
  then have "send_ok s'" using assms by (auto simp: s'_def send_ok_def split: if_splits)
  then show ?thesis using op by (simp add: s'_def send_rest_def recv_half_def op_frame_def send_data_def)
qed

lemma post_recv:
  assumes "send_ok s" and "recv_ok s" and "\<not> sk_mStopped s" and op: "recv_data op"
  defines "s' \<equiv> s\<lparr>sk_mRecvStrand := sk_mRecvStrand s @ [Post op]\<rparr>"
  shows "recv_ok s' \<and> send_half s' = send_half s \<and> recv_partial s' = recv_partial s \<and> received s' = received s"
proof -
  have "ops_ok recv_data CloseRecv False ((sk_mRecvQueue s @ posts (sk_mRecvStrand s)) @ [op])"
    by (rule ops_ok_data) (use assms in \<open>simp_all add: recv_ok_def\<close>)
  then have "recv_ok s'" using assms by (auto simp: s'_def recv_ok_def split: if_splits)
  then show ?thesis by (simp add: s'_def send_half_def recv_partial_def recv_broken_def)
qed

lemma post_close:
  assumes "send_ok s" and "recv_ok s" and st: "\<not> sk_mStopped s"
  shows "\<exists>s'. ch_close p q s = Inr s' \<and> send_ok s' \<and> recv_ok s' \<and> send_rest s' = send_rest s \<and> recv_partial s' = recv_partial s
     \<and> received s' = received s"
proof -
  let ?r = "op_clear\<lparr>op_mType := CloseRecv, op_mPromise := Some p\<rparr>" and ?c = "op_clear\<lparr>op_mType := CloseSend, op_mPromise := Some q\<rparr>"
  let ?s = "s\<lparr>sk_mStopped := True, sk_mRecvStrand := sk_mRecvStrand s @ [Post ?r], sk_mSendStrand := sk_mSendStrand s @ [Post ?c]\<rparr>"
  have "ops_ok recv_data CloseRecv True ((sk_mRecvQueue s @ posts (sk_mRecvStrand s)) @ [?r])"
    by (rule ops_ok_close) (use assms in \<open>simp_all add: recv_ok_def\<close>)
  moreover have "ops_ok send_data CloseSend True ((sk_mSendQueue s @ posts (sk_mSendStrand s)) @ [?c])"
    by (rule ops_ok_close) (use assms in \<open>simp_all add: send_ok_def\<close>)
  ultimately have "send_ok ?s" "recv_ok ?s" using assms(1,2) by (auto simp: send_ok_def recv_ok_def split: if_splits)
  moreover have "ch_close p q s = Inr ?s" by (simp add: ch_close_def dispatch_def Let_def)
  moreover have "send_rest ?s = send_rest s" by (simp add: send_rest_def op_frame_def)
  moreover have "recv_partial ?s = recv_partial s" by (simp add: recv_partial_def recv_broken_def)
  ultimately show ?thesis by simp
qed

lemma run_call_ok:
  assumes ok: "send_ok s" "recv_ok s" and run: "run_call k s = Inr s'"
  shows "send_ok s' \<and> recv_ok s' \<and> send_rest s' = send_rest s @ concat (map frame (call_message k))
     \<and> recv_partial s' = recv_partial s \<and> received s' = received s
     \<and> (\<forall>m\<in>set (call_message k). 0 < length m \<and> length m < 2 ^ 32)"
proof -
  have send: "send_ok s' \<and> recv_ok s' \<and> send_rest s' = send_rest s @ frame (sent_bytes buff)
     \<and> recv_partial s' = recv_partial s \<and> received s' = received s \<and> 0 < length (sent_bytes buff) \<and> length (sent_bytes buff) < 2 ^ 32"
    if op: "op_mType op = SendData" "op_mSize op = word_of_nat (length buff)" "op_buff op = sent_bytes buff"
      and d: "\<not> sk_mStopped s" "dispatch op s = Inr s'" for op buff
  proof -
    have n: "(word_of_nat (length buff) :: u32) \<noteq> 0" and s': "s' = s\<lparr>sk_mSendStrand := sk_mSendStrand s @ [Post op]\<rparr>"
      using d(2) op by (simp_all add: dispatch_def split: if_splits)
    have "send_data op" using op n by (simp add: send_data_def length_sent_bytes)
    note P = post_send [OF ok d(1) this, folded s']
    note half = recv_half_eq [OF conjunct1 [OF conjunct2 [OF P]]]
    show ?thesis using P ok(2) sent_bytes_size [OF n] unfolding half frame_sent_bytes op(2,3) by blast
  qed
  have recv: "send_ok s' \<and> recv_ok s' \<and> send_rest s' = send_rest s \<and> recv_partial s' = recv_partial s \<and> received s' = received s"
    if op: "op_mType op = RecvData" "op_mPromise op = Some p" and d: "\<not> sk_mStopped s" "dispatch op s = Inr s'" for op p
  proof -
    have s': "s' = s\<lparr>sk_mRecvStrand := sk_mRecvStrand s @ [Post op]\<rparr>" using d(2) op by (simp add: dispatch_def split: if_splits)
    have "recv_data op" using op by (simp add: recv_data_def)
    note P = post_recv [OF ok d(1) this, folded s']
    note half = send_half_eq [OF conjunct1 [OF conjunct2 [OF P]]]
    show ?thesis using P ok(1) unfolding half by blast
  qed
  show ?thesis
  proof (cases k)
    case (AsyncSend buff)
    then show ?thesis using run send [of "op_clear\<lparr>op_mSize := word_of_nat (length buff), op_buff := sent_bytes buff, op_mType := SendData\<rparr>" buff]
      by (auto simp: ch_asyncSend_def bind_r_Inr)
  next
    case (Send p buff)
    then show ?thesis using run send [of "op_clear\<lparr>op_mSize := word_of_nat (length buff), op_buff := sent_bytes buff, op_mType := SendData,
        op_mPromise := Some p\<rparr>" buff]
      by (auto simp: ch_send_def bind_r_Inr)
  next
    case (AsyncRecv p len)
    then show ?thesis using run recv [of "op_clear\<lparr>op_mSize := word_of_nat len, op_buff := replicate (unat (word_of_nat len :: u32)) 0,
        op_mType := RecvData, op_mOther := None, op_mPromise := Some p\<rparr>" p]
      by (auto simp: ch_asyncRecv_def bind_r_Inr)
  next
    case (AsyncRecvBuffer p accepts)
    then show ?thesis using run recv [of "op_clear\<lparr>op_mType := RecvData, op_mOther := Some accepts, op_mPromise := Some p\<rparr>" p]
      by (auto simp: ch_asyncRecv_buffer_def bind_r_Inr)
  next
    case (Close p q)
    then have "\<not> sk_mStopped s" "ch_close p q s = Inr s'" using run by (simp_all add: bind_r_Inr)
    then show ?thesis using post_close [OF ok, of p q] Close by simp
  qed
qed

section \<open>Steps\<close>

lemma put_sock_simps [simp]: "cn_sock (put_sock r s c) x = (if x = r then s else cn_sock c x)" "cn_pipe (put_sock r s c) = cn_pipe c"
  by (simp_all add: put_sock_def)

lemma put_pipe_simps [simp]: "cn_pipe (put_pipe r b c) x = (if x = r then b else cn_pipe c x)" "cn_sock (put_pipe r b c) = cn_sock c"
  by (simp_all add: put_pipe_def)

lemma other_simps [simp]: "other (other r) = r" "other r \<noteq> r" "r \<noteq> other r" "other r = other r' \<longleftrightarrow> r = r'"
  by (cases r; cases r'; simp)+

lemma other_iff: "r = other r' \<longleftrightarrow> r' = other r"
  by (cases r; cases r'; simp)

lemma net_invD:
  assumes "net_inv ks c"
  shows "send_ok (cn_sock c r)" and "recv_ok (cn_sock c r)"
  using assms by (simp_all add: net_inv_def)

lemma net_inv_sock:
  assumes inv: "net_inv ks c" and s: "send_ok s" "recv_ok s" "send_rest s = send_rest (cn_sock c r)"
    "recv_partial s = recv_partial (cn_sock c r)" "received s = received (cn_sock c r)"
  shows "net_inv ks (put_sock r s c)"
  using inv s unfolding net_inv_def by (auto simp: other_iff)

lemma frames_cons:
  assumes eq: "concat (map frame U) = xs @ zs" and xs: "length xs = 4" and m: "\<forall>m\<in>set U. 0 < length m \<and> length m < 2 ^ 32"
  obtains m U' where "U = m # U'" and "xs = word_bytes (word_of_nat (length m))" and "zs = m @ concat (map frame U')"
proof (cases U)
  case Nil
  then show thesis using eq xs by auto
next
  case (Cons m U')
  then have "word_bytes (word_of_nat (length m)) @ (m @ concat (map frame U')) = xs @ zs" using eq by (simp add: frame_def)
  then have "word_bytes (word_of_nat (length m)) = xs \<and> m @ concat (map frame U') = zs"
    using xs by (intro append_eq_append_conv [THEN iffD1]) simp_all
  then show thesis using that Cons by blast
qed

text \<open>When the bytes of a message are read, they are the next message sent.\<close>

lemma net_body:
  assumes inv: "net_inv ks c" and b: "sk_reading (cn_sock c r) = Body" and p: "cn_pipe c (other r) = xs @ ys"
    and l: "length xs = length (op_buff (hd (sk_mRecvQueue (cn_sock c r))))"
  obtains U' where "sent (other r) ks = received (cn_sock c r) @ xs # U'" "ys @ send_rest (cn_sock c (other r)) = concat (map frame U')"
    and "xs \<noteq> []"
proof -
  let ?op = "hd (sk_mRecvQueue (cn_sock c r))"
  obtain U where U: "sent (other r) ks = received (cn_sock c r) @ U"
    "concat (map frame U) = word_bytes (op_mSize ?op) @ (xs @ ys @ send_rest (cn_sock c (other r)))"
    using inv b p unfolding net_inv_def by (metis append.assoc other_simps(1) recv_partial_def)
  have m: "\<forall>m\<in>set U. 0 < length m \<and> length m < 2 ^ 32" using inv U(1) unfolding net_inv_def by (metis Un_iff set_append)
  obtain msg U' where M: "U = msg # U'" "word_bytes (op_mSize ?op) = word_bytes (word_of_nat (length msg))"
    "xs @ ys @ send_rest (cn_sock c (other r)) = msg @ concat (map frame U')"
    by (rule frames_cons [OF U(2) length_word_bytes m]) (rule that)
  have len: "0 < length msg" "length msg < 2 ^ 32" using m M(1) by simp_all
  have "sk_mRecvQueue (cn_sock c r) \<noteq> []" using net_invD(2) [OF inv, of r] b by (auto simp: recv_ok_def)
  then have "length (op_buff ?op) = unat (op_mSize ?op)" using net_invD(2) [OF inv, of r] b by (simp add: recv_ok_def)
  also have "\<dots> = length msg" using M(2) len(2) by (simp add: unat_of_nat)
  finally have "length xs = length msg" using l by simp
  then have x: "xs = msg" "ys @ send_rest (cn_sock c (other r)) = concat (map frame U')" using M(3) by simp_all
  show thesis by (rule that [of U']) (use U(1) M(1) x len(1) in auto)
qed

lemma net_inv_step:
  assumes inv: "net_inv ks c" and step: "net_step c k c'"
  shows "net_inv (ks @ (case k of None \<Rightarrow> [] | Some k \<Rightarrow> [k])) c'"
  using step
proof cases
  case (step_call f r s)
  note R = run_call_ok [OF net_invD [OF inv] step_call(3)]
  have sent: "sent x (ks @ [(r, f)]) = sent x ks @ (if x = r then call_message f else [])" for x by (auto simp: sent_def)
  have dir: "\<exists>U. sent x (ks @ [(r, f)]) = received (cn_sock c' (other x)) @ U
      \<and> concat (map frame U) = recv_partial (cn_sock c' (other x)) @ cn_pipe c' x @ send_rest (cn_sock c' x)" for x
  proof -
    obtain U where U: "sent x ks = received (cn_sock c (other x)) @ U"
      "concat (map frame U) = recv_partial (cn_sock c (other x)) @ cn_pipe c x @ send_rest (cn_sock c x)"
      using inv unfolding net_inv_def by blast
    show ?thesis using U R unfolding step_call(2) sent
      by (intro exI [of _ "U @ (if x = r then call_message f else [])"]) (auto simp: other_iff)
  qed
  have "\<forall>m\<in>set (sent x (ks @ [(r, f)])). 0 < length m \<and> length m < 2 ^ 32" for x
    using inv R unfolding sent net_inv_def by auto
  then show ?thesis using inv R dir unfolding net_inv_def step_call(1,2) by simp
next
  case (step_send r t ts s)
  obtain s' where "send_task t ((cn_sock c r)\<lparr>sk_mSendStrand := ts\<rparr>) = Inr s'" "send_ok s'" "send_rest s' = send_rest (cn_sock c r)"
    and h: "recv_half s' = recv_half (cn_sock c r)" using send_task_ok [OF net_invD(1) [OF inv] step_send(3)] by blast
  then show ?thesis using step_send(1,2,4) net_inv_sock [OF inv] recv_half_eq [OF h] net_invD(2) [OF inv] by simp
next
  case (step_recv r t ts s)
  obtain s' where "recv_task t ((cn_sock c r)\<lparr>sk_mRecvStrand := ts\<rparr>) = Inr s'" "recv_ok s'" "recv_partial s' = recv_partial (cn_sock c r)"
    "received s' = received (cn_sock c r)" and h: "send_half s' = send_half (cn_sock c r)"
    using recv_task_ok [OF net_invD(2) [OF inv] step_recv(3)] by blast
  then show ?thesis using step_recv(1,2,4) net_inv_sock [OF inv] send_half_eq [OF h] net_invD(1) [OF inv] by simp
next
  case (step_written r s)
  obtain s' where "send_complete (cn_sock c r) = Inr s'" "send_ok s'" "send_rest s' = send_rest (cn_sock c r)"
    and h: "recv_half s' = recv_half (cn_sock c r)" using send_complete_ok [OF net_invD(1) [OF inv] step_written(3)] by blast
  then show ?thesis using step_written(1,2,4) net_inv_sock [OF inv] recv_half_eq [OF h] net_invD(2) [OF inv] by simp
next
  case (step_write r xs ys)
  let ?s = "(cn_sock c r)\<lparr>sk_writing := Some ys\<rparr>"
  have ok: "send_ok ?s" using net_invD(1) [OF inv, of r] step_write(3) by (auto simp: send_ok_def split: if_splits)
  have half: "recv_half ?s = recv_half (cn_sock c r)" by (simp add: recv_half_def)
  have rest: "send_rest (cn_sock c r) = xs @ send_rest ?s" by (simp add: send_rest_def step_write(3))
  have "\<exists>U. sent r ks = received (cn_sock c (other r)) @ U
      \<and> concat (map frame U) = recv_partial (cn_sock c (other r)) @ cn_pipe c r @ xs @ send_rest ?s"
    using inv unfolding net_inv_def rest [symmetric] by blast
  then show ?thesis
    using inv ok recv_half_eq [OF half] unfolding net_inv_def step_write(1,2) by (auto simp: other_iff)
next
  case (step_header r xs ys s)
  obtain s' where s': "recv_header xs (cn_sock c r) = Inr s'" "recv_ok s'" "recv_partial s' = xs"
    "received s' = received (cn_sock c r)" "send_half s' = send_half (cn_sock c r)"
    using recv_header_ok [OF net_invD(2) [OF inv] step_header(3,5)] by blast
  have s: "s = s'" using s'(1) step_header(6) by simp
  have "recv_partial (cn_sock c r) = []" using step_header(3) by (simp add: recv_partial_def recv_broken_def)
  moreover have "\<exists>U. sent (other r) ks = received (cn_sock c (other (other r))) @ U \<and> concat (map frame U)
      = recv_partial (cn_sock c (other (other r))) @ cn_pipe c (other r) @ send_rest (cn_sock c (other r))"
    using inv unfolding net_inv_def by blast
  ultimately have "\<exists>U. sent (other r) ks = received (cn_sock c r) @ U
      \<and> concat (map frame U) = xs @ ys @ send_rest (cn_sock c (other r))" using step_header(4) by simp
  then show ?thesis
    using inv s' send_half_eq [OF s'(5)] step_header(4) unfolding net_inv_def step_header(1,2) s by (auto simp: other_iff)
next
  case (step_body r xs ys s)
  obtain s' where s': "recv_body xs (cn_sock c r) = Inr s'" "recv_ok s'" "recv_partial s' = []"
    "received s' = received (cn_sock c r) @ (if xs = [] then [] else [xs])" "send_half s' = send_half (cn_sock c r)"
    using recv_body_ok [OF net_invD(2) [OF inv] step_body(3)] by blast
  have s: "s = s'" using s'(1) step_body(6) by simp
  obtain U' where U': "sent (other r) ks = received (cn_sock c r) @ xs # U'" "ys @ send_rest (cn_sock c (other r)) = concat (map frame U')" "xs \<noteq> []"
    by (rule net_body [OF inv step_body(3-5)]) (rule that)
  have "\<exists>U. sent (other r) ks = received s @ U \<and> concat (map frame U) = recv_partial s @ ys @ send_rest (cn_sock c (other r))"
    using U' s' s by (intro exI [of _ U']) simp
  then show ?thesis
    using inv s' send_half_eq [OF s'(5)] unfolding net_inv_def step_body(1,2) s by (auto simp: other_iff)
qed

lemma net_inv_start: "net_inv [] conn_new"
  by (simp add: net_inv_def conn_new_def BtSocket_new_def send_ok_def recv_ok_def ops_ok_def sent_def received_def
      recv_partial_def recv_broken_def send_rest_def)

lemma net_inv_run: "net_run c ks c' \<Longrightarrow> c = conn_new \<Longrightarrow> net_inv ks c'"
proof (induction rule: net_run.induct)
  case (run_nil c)
  then show ?case using net_inv_start by simp
next
  case (run_step c ks c' k c'')
  then show ?case using net_inv_step by blast
qed

end
