(* ===== verification/BDX_Channel.thy ===== *)
theory BDX_Channel
  imports BDX_NetInv
begin

text \<open>
  What a channel promises: messages arrive complete and in order, handlers do not throw, and once the
  threads have nothing left to do the receiver has as many messages as it asked for or as were sent. A
  receive into a buffer of the wrong size is the exception: it blocks its direction for good.
\<close>

section \<open>Receives in order\<close>

text \<open>The sizes a receive accepts, by operation and by call.\<close>

definition op_accepts :: "io_op \<Rightarrow> nat \<Rightarrow> bool" where
  "op_accepts op n = (case op_mOther op of Some accepts \<Rightarrow> accepts n | None \<Rightarrow> length (op_buff op) = n)"

fun call_accepts :: "call \<Rightarrow> (nat \<Rightarrow> bool) list" where
  "call_accepts (AsyncRecv p len) = [\<lambda>n. unat (word_of_nat len :: u32) = n]"
| "call_accepts (AsyncRecvBuffer p accepts) = [accepts]"
| "call_accepts _ = []"

definition expected :: "role \<Rightarrow> (role \<times> call) list \<Rightarrow> (nat \<Rightarrow> bool) list" where
  "expected r ks = concat (map (\<lambda>(r', k). if r' = r then call_accepts k else []) ks)"

definition open_ops :: "BtSocket \<Rightarrow> io_op list" where
  "open_ops s = filter (\<lambda>op. op_mType op = RecvData)
     ((if sk_reading s = Body \<or> Done \<in> set (sk_mRecvStrand s) then tl (sk_mRecvQueue s) else sk_mRecvQueue s) @ posts (sk_mRecvStrand s))"

definition begun :: "BtSocket \<Rightarrow> nat" where
  "begun s = length (received s) + (if sk_reading s = Body then 1 else 0)"

definition broken_ok :: "BtSocket \<Rightarrow> bool" where
  "broken_ok s \<longleftrightarrow> (recv_broken s \<longrightarrow> \<not> recv_fits (hd (sk_mRecvQueue s)) (op_mSize (hd (sk_mRecvQueue s))))"

definition order_ok :: "(nat \<Rightarrow> bool) list \<Rightarrow> BtSocket \<Rightarrow> bool" where
  "order_ok ks s \<longleftrightarrow> broken_ok s \<and> (\<exists>K. ks = K @ map op_accepts (open_ops s) \<and> length K = begun s)"

lemma recv_fits_accepts: "recv_fits op sz = op_accepts op (unat sz)"
  by (simp add: recv_fits_def op_accepts_def split: option.split)

lemma order_half:
  assumes "recv_half s' = recv_half s"
  shows "order_ok ks s' = order_ok ks s"
  using assms by (simp add: recv_half_def order_ok_def broken_ok_def open_ops_def begun_def recv_broken_def)

lemma order_receiveOne:
  assumes ops: "ops_ok recv_data CloseRecv (sk_mStopped s) (sk_mRecvQueue s @ posts (sk_mRecvStrand s))"
    and q: "sk_mRecvQueue s \<noteq> []" and i: "sk_reading s = Idle" and d: "Done \<notin> set (sk_mRecvStrand s)" and run: "receiveOne s = Inr s'"
  shows "open_ops s' = open_ops s \<and> begun s' = begun s \<and> broken_ok s'"
proof -
  obtain op q' where e: "sk_mRecvQueue s = op # q'" using q by (cases "sk_mRecvQueue s") auto
  have o': "ops_ok recv_data CloseRecv (sk_mStopped s) (op # q' @ posts (sk_mRecvStrand s))" using ops by (simp add: e)
  from o' show ?thesis
  proof (cases rule: ops_ok_hd)
    case 1
    then have "op_mType op = RecvData" by (simp add: recv_data_def)
    then show ?thesis using run d e i by (auto simp: receiveOne_def open_ops_def begun_def broken_ok_def recv_broken_def)
  next
    case 2
    then show ?thesis using run d e i by (auto simp: receiveOne_def open_ops_def begun_def broken_ok_def recv_broken_def)
  qed
qed

lemma order_recv_task:
  assumes ok: "recv_ok s" and ord: "order_ok ks s" and strand: "sk_mRecvStrand s = t # ts"
    and run: "recv_task t (s\<lparr>sk_mRecvStrand := ts\<rparr>) = Inr s'"
  shows "order_ok ks s'"
proof (cases t)
  case (Post op)
  let ?s = "s\<lparr>sk_mRecvStrand := ts, sk_mRecvQueue := sk_mRecvQueue s @ [op]\<rparr>"
  show ?thesis
  proof (cases "sk_mRecvQueue s = []")
    case True
    then have s: "sk_reading s = Idle" "Done \<notin> set ts" using ok strand Post by (simp_all add: recv_ok_def)
    have "open_ops s' = open_ops ?s \<and> begun s' = begun ?s \<and> broken_ok s'"
    proof (rule order_receiveOne)
      show "receiveOne ?s = Inr s'" using run True Post by (simp add: recv_post_def Let_def)
      show "ops_ok recv_data CloseRecv (sk_mStopped ?s) (sk_mRecvQueue ?s @ posts (sk_mRecvStrand ?s))"
        using ok by (simp add: recv_ok_def strand Post)
    qed (use s in simp_all)
    moreover have "open_ops ?s = open_ops s" "begun ?s = begun s" using True s by (simp_all add: open_ops_def begun_def strand Post)
    ultimately show ?thesis using ord by (simp add: order_ok_def)
  next
    case False
    then have s': "s' = ?s" using run Post by (simp add: recv_post_def Let_def)
    have "open_ops ?s = open_ops s" "begun ?s = begun s" "broken_ok ?s = broken_ok s"
      using False by (simp_all add: open_ops_def begun_def broken_ok_def recv_broken_def strand Post)
    then show ?thesis using ord unfolding s' by (simp add: order_ok_def)
  qed
next
  case Done
  let ?s = "s\<lparr>sk_mRecvStrand := ts, sk_mRecvQueue := tl (sk_mRecvQueue s)\<rparr>"
  have q: "sk_mRecvQueue s \<noteq> []" using ok strand Done by (auto simp: recv_ok_def)
  then have i: "sk_reading s = Idle" using ok strand Done by (auto simp: recv_ok_def split: if_splits)
  then have w: "Done \<notin> set ts" using ok q strand Done by (simp add: recv_ok_def count_list_0_iff)
  have same: "open_ops ?s = open_ops s" "begun ?s = begun s" using i w by (simp_all add: open_ops_def begun_def strand Done)
  show ?thesis
  proof (cases "tl (sk_mRecvQueue s) = []")
    case True
    then have s': "s' = ?s" using run by (simp add: Done recv_next_def Let_def)
    have "broken_ok ?s" using True by (simp add: broken_ok_def recv_broken_def)
    then show ?thesis using ord same unfolding s' by (simp add: order_ok_def)
  next
    case False
    have "open_ops s' = open_ops ?s \<and> begun s' = begun ?s \<and> broken_ok s'"
    proof (rule order_receiveOne)
      show "receiveOne ?s = Inr s'" using run False by (simp add: Done recv_next_def Let_def)
      show "ops_ok recv_data CloseRecv (sk_mStopped ?s) (sk_mRecvQueue ?s @ posts (sk_mRecvStrand ?s))"
        using ok q strand Done ops_ok_pop [of recv_data CloseRecv "sk_mStopped s" "sk_mRecvQueue s"] by (simp add: recv_ok_def)
    qed (use w i False in simp_all)
    then show ?thesis using ord same by (simp add: order_ok_def)
  qed
qed

lemma order_recv_header:
  assumes ok: "recv_ok s" and ord: "order_ok ks s" and i: "sk_reading s = Header" and run: "recv_header xs s = Inr s'"
  shows "order_ok ks s'"
proof -
  obtain op q where e: "sk_mRecvQueue s = op # q" using ok i by (cases "sk_mRecvQueue s") (auto simp: recv_ok_def)
  have s: "Done \<notin> set (sk_mRecvStrand s)" "op_mType op = RecvData" using ok i e by (simp_all add: recv_ok_def recv_data_def)
  obtain K where K: "ks = K @ map op_accepts (open_ops s)" "length K = begun s" using ord by (auto simp: order_ok_def)
  show ?thesis
  proof (cases "recv_fits op (of_bytes xs)")
    case True
    then have "ks = (K @ [op_accepts op]) @ map op_accepts (open_ops s')" "begun s' = Suc (begun s)" "broken_ok s'"
      using run K(1) e s i by (auto simp: recv_header_def Let_def open_ops_def begun_def broken_ok_def recv_broken_def)
    then show ?thesis using K(2) unfolding order_ok_def by (metis length_append_singleton)
  next
    case False
    have a: "op_accepts (op\<lparr>op_mSize := n\<rparr>) = op_accepts op" for n
      by (simp add: op_accepts_def fun_eq_iff split: option.split)
    have "\<not> recv_fits (op\<lparr>op_mSize := of_bytes xs\<rparr>) (of_bytes xs)"
      using False by (simp add: recv_fits_def split: option.splits)
    then have "map op_accepts (open_ops s') = map op_accepts (open_ops s)" "begun s' = begun s" "broken_ok s'"
      using run False e s i by (auto simp: recv_header_def Let_def open_ops_def begun_def broken_ok_def a)
    then show ?thesis using K unfolding order_ok_def by metis
  qed
qed

lemma order_recv_body:
  assumes ok: "recv_ok s" and ord: "order_ok ks s" and i: "sk_reading s = Body" and xs: "xs \<noteq> []" and run: "recv_body xs s = Inr s'"
  shows "order_ok ks s'"
proof -
  obtain op q where e: "sk_mRecvQueue s = op # q" using ok i by (cases "sk_mRecvQueue s") (auto simp: recv_ok_def)
  have d: "op_mPromise op \<noteq> None" using ok i e by (simp add: recv_ok_def recv_data_def)
  have "open_ops s' = open_ops s" "begun s' = begun s" "broken_ok s'"
    using run e i xs d by (auto simp: recv_body_def Let_def open_ops_def begun_def broken_ok_def recv_broken_def)
  then show ?thesis using ord by (simp add: order_ok_def)
qed

lemma order_call:
  assumes ok: "recv_ok s" and ord: "order_ok ks s" and run: "run_call k s = Inr s'"
  shows "order_ok (ks @ call_accepts k) s'"
proof -
  have post: "order_ok (ks @ map op_accepts (filter (\<lambda>op. op_mType op = RecvData) [op])) (s\<lparr>sk_mRecvStrand := sk_mRecvStrand s @ [Post op]\<rparr>)" for op
    using ord by (auto simp: order_ok_def open_ops_def begun_def broken_ok_def recv_broken_def)
  have half: "order_ok ks s'" if "recv_half s' = recv_half s" using ord order_half [OF that] by blast
  show ?thesis
  proof (cases k)
    case (AsyncSend buff)
    then show ?thesis using run half by (auto simp: ch_asyncSend_def bind_r_Inr dispatch_def recv_half_def split: if_splits)
  next
    case (Send p buff)
    then show ?thesis using run half by (auto simp: ch_send_def bind_r_Inr dispatch_def recv_half_def split: if_splits)
  next
    case (AsyncRecv p len)
    let ?op = "op_clear\<lparr>op_mSize := word_of_nat len, op_buff := replicate (unat (word_of_nat len :: u32)) 0,
        op_mType := RecvData, op_mOther := None, op_mPromise := Some p\<rparr>"
    have "op_accepts ?op = (\<lambda>n. unat (word_of_nat len :: u32) = n)" by (simp add: op_accepts_def fun_eq_iff)
    then show ?thesis using run AsyncRecv post [of ?op] by (auto simp: ch_asyncRecv_def bind_r_Inr dispatch_def split: if_splits)
  next
    case (AsyncRecvBuffer p accepts)
    let ?op = "op_clear\<lparr>op_mType := RecvData, op_mOther := Some accepts, op_mPromise := Some p\<rparr>"
    have "op_accepts ?op = accepts" by (simp add: op_accepts_def fun_eq_iff)
    then show ?thesis using run AsyncRecvBuffer post [of ?op] by (auto simp: ch_asyncRecv_buffer_def bind_r_Inr dispatch_def split: if_splits)
  next
    case (Close p q)
    let ?op = "op_clear\<lparr>op_mType := CloseRecv, op_mPromise := Some p\<rparr>"
    have "recv_half s' = recv_half (s\<lparr>sk_mRecvStrand := sk_mRecvStrand s @ [Post ?op], sk_mStopped := True\<rparr>)"
      using run Close by (auto simp: bind_r_Inr ch_close_def Let_def dispatch_def recv_half_def)
    then have "order_ok ks s' = order_ok ks (s\<lparr>sk_mRecvStrand := sk_mRecvStrand s @ [Post ?op], sk_mStopped := True\<rparr>)" by (rule order_half)
    moreover have "order_ok ks (s\<lparr>sk_mRecvStrand := sk_mRecvStrand s @ [Post ?op], sk_mStopped := True\<rparr>)"
      using post [of ?op] by (auto simp: order_ok_def open_ops_def begun_def broken_ok_def recv_broken_def)
    ultimately show ?thesis using Close by simp
  qed
qed

definition net_order :: "(role \<times> call) list \<Rightarrow> conn \<Rightarrow> bool" where
  "net_order ks c \<longleftrightarrow> (\<forall>r. order_ok (expected r ks) (cn_sock c r))"

lemma net_order_sock: "net_order ks c \<Longrightarrow> order_ok (expected r ks) s \<Longrightarrow> net_order ks (put_sock r s c)"
  by (simp add: net_order_def)

lemma net_order_step:
  assumes inv: "net_inv ks c" and ord: "net_order ks c" and step: "net_step c k c'"
  shows "net_order (ks @ (case k of None \<Rightarrow> [] | Some k \<Rightarrow> [k])) c'"
proof -
  note R = net_invD(2) [OF inv] and S = net_invD(1) [OF inv]
  have o': "order_ok (expected r ks) (cn_sock c r)" for r using ord by (simp add: net_order_def)
  have half: "order_ok (expected r ks) s" if "recv_half s = recv_half (cn_sock c r)" for r s
    using o' order_half [OF that] by blast
  from step show ?thesis
  proof cases
    case (step_call f r s)
    have "expected x (ks @ [(r, f)]) = expected x ks @ (if x = r then call_accepts f else [])" for x by (auto simp: expected_def)
    then show ?thesis using o' order_call [OF R o' step_call(3)] unfolding step_call(1,2) by (simp add: net_order_def)
  next
    case (step_send r t ts s)
    obtain s' where "send_task t ((cn_sock c r)\<lparr>sk_mSendStrand := ts\<rparr>) = Inr s'" and h: "recv_half s' = recv_half (cn_sock c r)"
      using send_task_ok [OF S step_send(3)] by blast
    then show ?thesis using step_send(1,2,4) net_order_sock [OF ord half [OF h]] by simp
  next
    case (step_recv r t ts s)
    then show ?thesis using net_order_sock [OF ord order_recv_task [OF R o' step_recv(3,4)]] by simp
  next
    case (step_written r s)
    obtain s' where "send_complete (cn_sock c r) = Inr s'" and h: "recv_half s' = recv_half (cn_sock c r)"
      using send_complete_ok [OF S step_written(3)] by blast
    then show ?thesis using step_written(1,2,4) net_order_sock [OF ord half [OF h]] by simp
  next
    case (step_write r xs ys)
    have h: "recv_half ((cn_sock c r)\<lparr>sk_writing := Some ys\<rparr>) = recv_half (cn_sock c r)" by (simp add: recv_half_def)
    show ?thesis using o' half [OF h] unfolding step_write(1,2) by (simp add: net_order_def)
  next
    case (step_header r xs ys s)
    then show ?thesis using o' order_recv_header [OF R o' step_header(3,6)] by (simp add: net_order_def)
  next
    case (step_body r xs ys s)
    have "xs \<noteq> []" by (rule net_body [OF inv step_body(3-5)])
    then show ?thesis using o' order_recv_body [OF R o' step_body(3) _ step_body(6)] step_body(1,2) by (simp add: net_order_def)
  qed
qed

lemma net_run_ok: "net_run c ks c' \<Longrightarrow> c = conn_new \<Longrightarrow> net_inv ks c' \<and> net_order ks c'"
proof (induction rule: net_run.induct)
  case (run_nil c)
  have "net_order [] conn_new"
    by (simp add: net_order_def order_ok_def broken_ok_def recv_broken_def open_ops_def begun_def conn_new_def BtSocket_new_def
        expected_def received_def)
  then show ?case using run_nil net_inv_start by simp
next
  case (run_step c ks c' k c'')
  then show ?case using net_inv_step net_order_step by blast
qed

section \<open>An execution\<close>

text \<open>The first party sends messages of one byte, the second receives them with a buffer of one or of two bytes.\<close>

definition duo :: "BtSocket \<Rightarrow> BtSocket \<Rightarrow> u8 list \<Rightarrow> conn" where
  "duo a b p = \<lparr>cn_sock = (\<lambda>r. case r of First \<Rightarrow> a | Second \<Rightarrow> b), cn_pipe = (\<lambda>r. case r of First \<Rightarrow> p | Second \<Rightarrow> [])\<rparr>"

lemma duo_simps [simp]:
  "cn_sock (duo a b p) First = a" "cn_sock (duo a b p) Second = b" "cn_pipe (duo a b p) First = p" "cn_pipe (duo a b p) Second = []"
  "put_sock First s (duo a b p) = duo s b p" "put_sock Second s (duo a b p) = duo a s p" "put_pipe First q (duo a b p) = duo a b q"
  by (auto simp: duo_def put_sock_def put_pipe_def fun_eq_iff split: role.splits)

lemma conn_new_duo: "conn_new = duo BtSocket_new BtSocket_new []"
  by (auto simp: conn_new_def duo_def fun_eq_iff split: role.splits)

lemma run_internal: "net_run c ks c' \<Longrightarrow> net_step c' None c'' \<Longrightarrow> net_run c ks c''"
  using run_step [of c ks c' None c''] by simp

lemma run_labelled: "net_run c ks c' \<Longrightarrow> net_step c' (Some k) c'' \<Longrightarrow> net_run c (ks @ [k]) c''"
  using run_step [of c ks c' "Some k" c''] by simp

definition demo_op :: io_op where
  "demo_op = op_clear\<lparr>op_mSize := 1, op_buff := [7], op_mType := SendData\<rparr>"

definition demo_recv :: "nat \<Rightarrow> io_op" where
  "demo_recv len = op_clear\<lparr>op_mSize := word_of_nat len, op_buff := replicate (unat (word_of_nat len :: u32)) 0,
     op_mType := RecvData, op_mOther := None, op_mPromise := Some 0\<rparr>"

definition demo_calls :: "nat \<Rightarrow> (role \<times> call) list" where
  "demo_calls len = [(First, AsyncSend [7]), (Second, AsyncRecv 0 len)]"

text \<open>The socket of the sender after its message is written, and that of the receiver waiting for a header.\<close>

definition demo_sender :: BtSocket where
  "demo_sender = BtSocket_new\<lparr>sk_mTotalSentData := 1, sk_mMaxOutstandingSendData := 1\<rparr>"

definition demo_receiver :: "nat \<Rightarrow> BtSocket" where
  "demo_receiver len = BtSocket_new\<lparr>sk_mRecvQueue := [demo_recv len], sk_reading := Header\<rparr>"

lemma demo_sent:
  assumes "len = 1 \<or> len = 2"
  shows "net_run conn_new (demo_calls len) (duo demo_sender (demo_receiver len) (frame [7]))"
proof -
  let ?a1 = "BtSocket_new\<lparr>sk_mSendStrand := [Post demo_op]\<rparr>" and ?b1 = "BtSocket_new\<lparr>sk_mRecvStrand := [Post (demo_recv len)]\<rparr>"
  let ?a2 = "BtSocket_new\<lparr>sk_mSendQueue := [demo_op], sk_mTotalSentData := 1, sk_mOutstandingSendData := 1,
      sk_mMaxOutstandingSendData := 1, sk_writing := Some (frame [7])\<rparr>"
  let ?a4 = "BtSocket_new\<lparr>sk_mSendQueue := [demo_op], sk_mSendStrand := [Done], sk_mTotalSentData := 1, sk_mMaxOutstandingSendData := 1\<rparr>"
  have n: "replicate len (0 :: u8) \<noteq> []" "unat (word_of_nat len :: u32) = len" using assms by auto
  have "net_run conn_new [] (duo BtSocket_new BtSocket_new [])" using run_nil [of conn_new] by (simp add: conn_new_duo)
  moreover have "net_step (duo BtSocket_new BtSocket_new []) (Some (First, AsyncSend [7])) (put_sock First ?a1 (duo BtSocket_new BtSocket_new []))"
    by (rule step_call) (simp add: ch_asyncSend_def dispatch_def op_clear_def BtSocket_new_def demo_op_def sent_bytes_def)
  ultimately have "net_run conn_new [(First, AsyncSend [7])] (duo ?a1 BtSocket_new [])" using run_labelled by fastforce
  moreover have "net_step (duo ?a1 BtSocket_new []) (Some (Second, AsyncRecv 0 len)) (put_sock Second ?b1 (duo ?a1 BtSocket_new []))"
    by (rule step_call) (use n in \<open>auto simp: ch_asyncRecv_def dispatch_def op_clear_def BtSocket_new_def demo_recv_def\<close>)
  ultimately have "net_run conn_new (demo_calls len) (duo ?a1 ?b1 [])"
    using run_labelled [of conn_new "[(First, AsyncSend [7])]"] by (simp add: demo_calls_def)
  moreover have "net_step (duo ?a1 ?b1 []) None (put_sock First ?a2 (duo ?a1 ?b1 []))"
    by (rule step_send [where t = "Post demo_op" and ts = "[]"])
      (simp_all add: send_post_def sendOne_def Let_def BtSocket_new_def demo_op_def op_clear_def frame_def)
  ultimately have "net_run conn_new (demo_calls len) (duo ?a2 ?b1 [])" using run_internal by fastforce
  moreover have "net_step (duo ?a2 ?b1 []) None (put_sock Second (demo_receiver len) (duo ?a2 ?b1 []))"
    by (rule step_recv [where t = "Post (demo_recv len)" and ts = "[]"])
      (simp_all add: recv_post_def receiveOne_def Let_def BtSocket_new_def demo_recv_def op_clear_def demo_receiver_def)
  ultimately have "net_run conn_new (demo_calls len) (duo ?a2 (demo_receiver len) [])" using run_internal by fastforce
  moreover have "net_step (duo ?a2 (demo_receiver len) []) None
      (put_pipe First (cn_pipe (duo ?a2 (demo_receiver len) []) First @ frame [7])
        (put_sock First ((cn_sock (duo ?a2 (demo_receiver len) []) First)\<lparr>sk_writing := Some []\<rparr>) (duo ?a2 (demo_receiver len) [])))"
    by (rule step_write) (simp_all add: frame_def)
  ultimately have "net_run conn_new (demo_calls len) (duo (?a2\<lparr>sk_writing := Some []\<rparr>) (demo_receiver len) (frame [7]))"
    using run_internal by fastforce
  moreover have "net_step (duo (?a2\<lparr>sk_writing := Some []\<rparr>) (demo_receiver len) (frame [7])) None
      (put_sock First ?a4 (duo (?a2\<lparr>sk_writing := Some []\<rparr>) (demo_receiver len) (frame [7])))"
    by (rule step_written) (simp_all add: send_complete_def Let_def BtSocket_new_def demo_op_def op_clear_def set_future_def)
  ultimately have "net_run conn_new (demo_calls len) (duo ?a4 (demo_receiver len) (frame [7]))" using run_internal by fastforce
  moreover have "net_step (duo ?a4 (demo_receiver len) (frame [7])) None (put_sock First demo_sender (duo ?a4 (demo_receiver len) (frame [7])))"
    by (rule step_send [where t = Done and ts = "[]"]) (simp_all add: send_next_def Let_def BtSocket_new_def demo_sender_def)
  ultimately show ?thesis using run_internal by fastforce
qed

section \<open>What a channel promises\<close>

text \<open>C21. A channel is a queue: in every execution, whatever the order of the calls, of the handlers and of the
  reads and writes of the operating system, the messages one party has received are the first ones the other
  party sent, complete and in order.\<close>

theorem channel_fifo:
  assumes "net_run conn_new ks c"
  shows "\<exists>later. sent r ks = received (cn_sock c (other r)) @ later"
  using net_run_ok [OF assms refl] unfolding net_inv_def by blast

text \<open>Nothing is left to do for the threads of the program and the operating system.\<close>

definition quiet :: "conn \<Rightarrow> bool" where
  "quiet c \<longleftrightarrow> (\<forall>c'. \<not> net_step c None c')"

lemma quiet_sender:
  assumes inv: "net_inv ks c" and q: "quiet c"
  shows "sk_mSendStrand (cn_sock c r) = []" and "sk_writing (cn_sock c r) = None" and "sk_mSendQueue (cn_sock c r) = []"
    and "sk_mRecvStrand (cn_sock c r) = []"
proof -
  note S = net_invD(1) [OF inv] and R = net_invD(2) [OF inv]
  show s: "sk_mSendStrand (cn_sock c r) = []"
  proof (cases "sk_mSendStrand (cn_sock c r)")
    case (Cons t ts)
    then show ?thesis using send_task_ok [OF S Cons] q step_send [OF Cons] unfolding quiet_def by blast
  qed
  show "sk_mRecvStrand (cn_sock c r) = []"
  proof (cases "sk_mRecvStrand (cn_sock c r)")
    case (Cons t ts)
    then show ?thesis using recv_task_ok [OF R Cons] q step_recv [OF Cons] unfolding quiet_def by blast
  qed
  show w: "sk_writing (cn_sock c r) = None"
  proof (cases "sk_writing (cn_sock c r)")
    case (Some bs)
    show ?thesis
    proof (cases bs)
      case Nil
      then show ?thesis using send_complete_ok [OF S] Some q step_written unfolding quiet_def by blast
    next
      case (Cons b bs')
      have "sk_writing (cn_sock c r) = Some ([b] @ bs')" using Some Cons by simp
      from step_write [OF this] show ?thesis using q unfolding quiet_def by blast
    qed
  qed
  show "sk_mSendQueue (cn_sock c r) = []" using S [of r] s w by (simp add: send_ok_def split: if_splits)
qed

lemma quiet_receiver:
  assumes inv: "net_inv ks c" and q: "quiet c"
  shows "(sk_reading (cn_sock c r) = Header \<longrightarrow> length (cn_pipe c (other r)) < 4)
     \<and> (sk_reading (cn_sock c r) = Body \<longrightarrow> length (cn_pipe c (other r)) < length (op_buff (hd (sk_mRecvQueue (cn_sock c r)))))"
proof (intro conjI impI)
  assume h: "sk_reading (cn_sock c r) = Header"
  show "length (cn_pipe c (other r)) < 4"
  proof (rule ccontr)
    assume l: "\<not> length (cn_pipe c (other r)) < 4"
    let ?xs = "take 4 (cn_pipe c (other r))"
    have xs: "length ?xs = 4" "cn_pipe c (other r) = ?xs @ drop 4 (cn_pipe c (other r))" using l by simp_all
    obtain s where "recv_header ?xs (cn_sock c r) = Inr s" using recv_header_ok [OF net_invD(2) [OF inv] h xs(1)] by blast
    from step_header [OF h xs(2,1) this] show False using q unfolding quiet_def by blast
  qed
next
  assume b: "sk_reading (cn_sock c r) = Body"
  show "length (cn_pipe c (other r)) < length (op_buff (hd (sk_mRecvQueue (cn_sock c r))))"
  proof (rule ccontr)
    let ?n = "length (op_buff (hd (sk_mRecvQueue (cn_sock c r))))"
    assume l: "\<not> length (cn_pipe c (other r)) < ?n"
    let ?xs = "take ?n (cn_pipe c (other r))"
    have xs: "length ?xs = ?n" "cn_pipe c (other r) = ?xs @ drop ?n (cn_pipe c (other r))" using l by simp_all
    obtain s where "recv_body ?xs (cn_sock c r) = Inr s" using recv_body_ok [OF net_invD(2) [OF inv] b] by blast
    from step_body [OF b xs(2,1) this] show False using q unfolding quiet_def by blast
  qed
qed

text \<open>C22. When nothing is left to do, every send has completed, and if every receive was prepared to take the message
  it is for, the receiver has got all messages it asked for: as many as its receives, or all that were sent.\<close>

theorem channel_delivers:
  assumes run: "net_run conn_new ks c" and q: "quiet c"
    and fits: "\<forall>i < length (sent r ks). i < length (expected (other r) ks) \<longrightarrow> (expected (other r) ks ! i) (length (sent r ks ! i))"
  shows "received (cn_sock c (other r)) = take (length (expected (other r) ks)) (sent r ks) \<and> sk_mSendQueue (cn_sock c r) = []"
proof -
  let ?s = "cn_sock c (other r)"
  have inv: "net_inv ks c" and "net_order ks c" using net_run_ok [OF run refl] by blast+
  then have ord: "order_ok (expected (other r) ks) ?s" by (simp add: net_order_def)
  note Q = quiet_sender [OF inv q] and P = quiet_receiver [OF inv q, of "other r"]
  have rest: "send_rest (cn_sock c r) = []" by (simp add: send_rest_def Q)
  have "\<exists>U. sent r ks = received ?s @ U \<and> concat (map frame U) = recv_partial ?s @ cn_pipe c r @ send_rest (cn_sock c r)"
    using inv unfolding net_inv_def by blast
  then obtain U where U: "sent r ks = received ?s @ U" "concat (map frame U) = recv_partial ?s @ cn_pipe c r"
    unfolding rest append_Nil2 by blast
  have m: "\<forall>m\<in>set U. 0 < length m \<and> length m < 2 ^ 32" using inv U(1) unfolding net_inv_def by (metis Un_iff set_append)
  obtain K where K: "expected (other r) ks = K @ map op_accepts (open_ops ?s)" "length K = begun ?s" "broken_ok ?s"
    using ord by (auto simp: order_ok_def)
  have R: "recv_ok ?s" by (rule net_invD(2) [OF inv])
  have read: "frame msg = word_bytes (op_mSize (hd (sk_mRecvQueue ?s))) @ msg \<and> unat (op_mSize (hd (sk_mRecvQueue ?s))) = length msg"
    if h: "recv_partial ?s = word_bytes (op_mSize (hd (sk_mRecvQueue ?s)))" "U = msg # U'" for msg U'
  proof -
    have "frame msg @ concat (map frame U') = word_bytes (op_mSize (hd (sk_mRecvQueue ?s))) @ cn_pipe c r" using U(2) h by simp
    then have e: "(word_of_nat (length msg) :: u32) = op_mSize (hd (sk_mRecvQueue ?s))" by (simp add: frame_def)
    have "length msg < 2 ^ 32" using m h(2) by simp
    then have "unat (word_of_nat (length msg) :: u32) = length msg" by (simp add: unat_of_nat)
    then show ?thesis using e by (simp add: frame_def)
  qed
  have nonempty: "U \<noteq> []" if "recv_partial ?s = word_bytes (op_mSize (hd (sk_mRecvQueue ?s)))"
  proof
    assume "U = []"
    then have "length (recv_partial ?s) = 0" using U(2) by simp
    then show False unfolding that by simp
  qed
  have "received ?s = take (length (expected (other r) ks)) (sent r ks)"
  proof (cases "sk_reading ?s")
    case Header
    then have "recv_partial ?s = []" by (simp add: recv_partial_def recv_broken_def)
    then have "length (concat (map frame U)) < 4" using U(2) P Header by simp
    then have "U = []" by (cases U) simp_all
    then show ?thesis using U(1) K by (simp add: begun_def)
  next
    case Body
    then have p: "recv_partial ?s = word_bytes (op_mSize (hd (sk_mRecvQueue ?s)))" by (simp add: recv_partial_def)
    have "U \<noteq> []" by (rule nonempty [OF p])
    then obtain msg U' where M: "U = msg # U'" by (cases U) auto
    note F = read [OF p M]
    have "sk_mRecvQueue ?s \<noteq> []" using R Body by (auto simp: recv_ok_def)
    then have "length (op_buff (hd (sk_mRecvQueue ?s))) = length msg" using R Body F by (simp add: recv_ok_def)
    moreover have "length msg \<le> length (cn_pipe c r)" using U(2) M p F 
    proof -
      have "word_bytes (op_mSize (hd (sk_mRecvQueue ?s))) @ msg @ concat (map frame U')
          = word_bytes (op_mSize (hd (sk_mRecvQueue ?s))) @ cn_pipe c r" using U(2) M p F by simp
      then have "cn_pipe c r = msg @ concat (map frame U')" by (simp only: same_append_eq)
      then show ?thesis by simp
    qed
    ultimately have False using P Body by simp
    then show ?thesis ..
  next
    case Idle
    show ?thesis
    proof (cases "sk_mRecvQueue ?s = []")
      case True
      then have "length (expected (other r) ks) = length (received ?s)" using K(1,2) Idle Q(4) by (simp add: open_ops_def begun_def)
      then show ?thesis using U(1) by simp
    next
      case False
      then have b: "recv_broken ?s" using Idle Q(4) by (simp add: recv_broken_def)
      then have p: "recv_partial ?s = word_bytes (op_mSize (hd (sk_mRecvQueue ?s)))" by (simp add: recv_partial_def)
      have "U \<noteq> []" by (rule nonempty [OF p])
      then obtain msg U' where M: "U = msg # U'" by (cases U) auto
      have d: "recv_data (hd (sk_mRecvQueue ?s))" using R False by (simp add: recv_ok_def)
      have "open_ops ?s = filter (\<lambda>op. op_mType op = RecvData) (sk_mRecvQueue ?s)" using Idle Q(4) by (simp add: open_ops_def)
      then have "open_ops ?s = hd (sk_mRecvQueue ?s) # filter (\<lambda>op. op_mType op = RecvData) (tl (sk_mRecvQueue ?s))"
        using d False by (cases "sk_mRecvQueue ?s") (simp_all add: recv_data_def)
      then have "expected (other r) ks ! length (received ?s) = op_accepts (hd (sk_mRecvQueue ?s))" "length (received ?s) < length (expected (other r) ks)"
        using K(1,2) Idle by (simp_all add: begun_def nth_append)
      then have "op_accepts (hd (sk_mRecvQueue ?s)) (length msg)"
        using fits [rule_format, of "length (received ?s)"] U(1) M by simp
      then have False using K(3) b read [OF p M] by (simp add: broken_ok_def recv_fits_accepts)
      then show ?thesis ..
    qed
  qed
  then show ?thesis using Q(3) by simp
qed

text \<open>C24. When the handlers of a channel throw: in every state that can be reached while the connection holds, the
  next handler of either strand returns, and the completion of a write or of a read throws exactly when the
  transfer was short or, for a read, had an error. A broken connection, as when the other side closes its
  handle, is thus the only thing that ends a thread of the I/O service.\<close>

theorem channel_throws:
  assumes "net_run conn_new ks c"
  shows "(\<forall>t ts. sk_mSendStrand (cn_sock c r) = t # ts \<longrightarrow> (\<exists>s. send_task t ((cn_sock c r)\<lparr>sk_mSendStrand := ts\<rparr>) = Inr s))
     \<and> (\<forall>t ts. sk_mRecvStrand (cn_sock c r) = t # ts \<longrightarrow> (\<exists>s. recv_task t ((cn_sock c r)\<lparr>sk_mRecvStrand := ts\<rparr>) = Inr s))
     \<and> (\<forall>bs n. sk_writing (cn_sock c r) = Some bs
          \<longrightarrow> ((\<exists>e. send_handler n (cn_sock c r) = Inl e) \<longleftrightarrow> n \<noteq> 4 + length (op_buff (hd (sk_mSendQueue (cn_sock c r))))))
     \<and> (\<forall>ec xs. sk_reading (cn_sock c r) = Header
          \<longrightarrow> ((\<exists>e. recv_header_handler ec xs (cn_sock c r) = Inl e) \<longleftrightarrow> ec \<or> length xs \<noteq> 4))
     \<and> (\<forall>ec xs. sk_reading (cn_sock c r) = Body
          \<longrightarrow> ((\<exists>e. recv_body_handler ec xs (cn_sock c r) = Inl e) \<longleftrightarrow> ec \<or> length xs \<noteq> length (op_buff (hd (sk_mRecvQueue (cn_sock c r))))))"
proof -
  have inv: "net_inv ks c" using net_run_ok [OF assms refl] by blast
  let ?s = "cn_sock c r"
  note S = net_invD(1) [OF inv, of r] and R = net_invD(2) [OF inv, of r]
  have w: "(\<exists>e. send_handler n ?s = Inl e) \<longleftrightarrow> n \<noteq> 4 + length (op_buff (hd (sk_mSendQueue ?s)))" if "sk_writing ?s = Some bs" for bs n
    using S that by (cases "sk_mSendQueue ?s") (auto simp: send_ok_def send_handler_def send_complete_def Let_def)
  have h: "(\<exists>e. recv_header_handler ec xs ?s = Inl e) \<longleftrightarrow> ec \<or> length xs \<noteq> 4" if "sk_reading ?s = Header" for ec xs
    using recv_header_ok [OF R that, of xs] by (auto simp: recv_header_handler_def)
  have b: "(\<exists>e. recv_body_handler ec xs ?s = Inl e) \<longleftrightarrow> ec \<or> length xs \<noteq> length (op_buff (hd (sk_mRecvQueue ?s)))"
    if "sk_reading ?s = Body" for ec xs
    using recv_body_ok [OF R that, of xs] R that by (cases "sk_mRecvQueue ?s") (auto simp: recv_ok_def recv_body_handler_def)
  have ts: "\<exists>s. send_task t (?s\<lparr>sk_mSendStrand := ts\<rparr>) = Inr s" if "sk_mSendStrand ?s = t # ts" for t ts
    using send_task_ok [OF S that] by blast
  have tr: "\<exists>s. recv_task t (?s\<lparr>sk_mRecvStrand := ts\<rparr>) = Inr s" if "sk_mRecvStrand ?s = t # ts" for t ts
    using recv_task_ok [OF R that] by blast
  show ?thesis by (intro conjI allI impI; rule ts tr w h b; assumption)
qed

section \<open>A receive that fails\<close>

lemma broken_step:
  assumes b: "recv_broken (cn_sock c r)" and step: "net_step c k c'"
  shows "recv_broken (cn_sock c' r) \<and> received (cn_sock c' r) = received (cn_sock c r)
     \<and> (\<exists>more. sk_mRecvQueue (cn_sock c' r) = sk_mRecvQueue (cn_sock c r) @ more)"
proof -
  have q: "sk_mRecvQueue (cn_sock c r) \<noteq> []" "sk_reading (cn_sock c r) = Idle" "Done \<notin> set (sk_mRecvStrand (cn_sock c r))"
    using b by (simp_all add: recv_broken_def)
  have half: ?thesis if "recv_half (cn_sock c' r) = recv_half (cn_sock c r)"
    using b that by (simp add: recv_half_def recv_broken_def)
  from step show ?thesis
  proof cases
    case (step_call f r' s)
    have post: ?thesis if "sk_mRecvQueue s = sk_mRecvQueue (cn_sock c r')" "sk_reading s = sk_reading (cn_sock c r')"
      "received s = received (cn_sock c r')" "\<exists>ps. sk_mRecvStrand s = sk_mRecvStrand (cn_sock c r') @ ps \<and> Done \<notin> set ps"
      using that q unfolding step_call(2) by (auto simp: recv_broken_def)
    show ?thesis
      by (rule post; use step_call(3) in \<open>cases f; auto simp: ch_asyncSend_def ch_send_def ch_asyncRecv_def ch_asyncRecv_buffer_def
          ch_close_def bind_r_Inr dispatch_def Let_def split: if_splits\<close>)
  next
    case (step_send r' t ts s)
    have "recv_half s = recv_half (cn_sock c r')"
      using step_send(4)
      by (cases t) (auto simp: send_post_def send_next_def sendOne_def Let_def recv_half_def split: if_splits list.splits)
    then show ?thesis by (intro half) (simp add: step_send(2))
  next
    case (step_recv r' t ts s)
    show ?thesis
    proof (cases "r' = r")
      case True
      obtain op where t: "t = Post op" "Done \<notin> set ts" using step_recv(3) q(3) True by (cases t) auto
      then have "s = (cn_sock c r)\<lparr>sk_mRecvStrand := ts, sk_mRecvQueue := sk_mRecvQueue (cn_sock c r) @ [op]\<rparr>"
        using step_recv(4) q(1) True by (simp add: recv_post_def Let_def)
      then show ?thesis using q t True by (simp add: step_recv(2) recv_broken_def)
    qed (use half step_recv(2) in simp)
  next
    case (step_write r' xs ys)
    show ?thesis by (intro half) (simp add: step_write(2) recv_half_def)
  next
    case (step_written r' s)
    have "recv_half s = recv_half (cn_sock c r')"
      using step_written(4) by (auto simp: send_complete_def Let_def recv_half_def split: list.splits)
    then show ?thesis by (intro half) (simp add: step_written(2))
  next
    case (step_header r' xs ys s)
    then have "r' \<noteq> r" using q(2) by auto
    then show ?thesis by (intro half) (simp add: step_header(2))
  next
    case (step_body r' xs ys s)
    then have "r' \<noteq> r" using q(2) by auto
    then show ?thesis by (intro half) (simp add: step_body(2))
  qed
qed

lemma broken_run:
  assumes "net_run c ks c'" and "recv_broken (cn_sock c r)"
  shows "recv_broken (cn_sock c' r) \<and> received (cn_sock c' r) = received (cn_sock c r)
     \<and> (\<exists>more. sk_mRecvQueue (cn_sock c' r) = sk_mRecvQueue (cn_sock c r) @ more)"
  using assms
proof (induction rule: net_run.induct)
  case (run_step c ks c' k c'')
  then show ?case using broken_step [of c' r k c''] by fastforce
qed simp

text \<open>The handler of a header that does not fit, in a state that can be reached.\<close>

lemma misfit_header:
  assumes ok: "recv_ok s" and h: "sk_reading s = Header" and xs: "length xs = 4" and fit: "\<not> recv_fits (hd (sk_mRecvQueue s)) (of_bytes xs)"
  shows "\<exists>s' p. recv_header xs s = Inr s' \<and> op_mPromise (hd (sk_mRecvQueue s)) = Some p
     \<and> sk_futures s' = sk_futures s @ [(p, Inl BadReceiveBufferSize)] \<and> recv_broken s'"
proof -
  obtain op q where e: "sk_mRecvQueue s = op # q" using ok h by (cases "sk_mRecvQueue s") (auto simp: recv_ok_def)
  have d: "Done \<notin> set (sk_mRecvStrand s)" "recv_data op" using ok h e by (simp_all add: recv_ok_def)
  then obtain p where "op_mPromise op = Some p" by (auto simp: recv_data_def)
  then show ?thesis using fit d(1) by (simp add: recv_header_def e Let_def set_future_def recv_broken_def)
qed

text \<open>C25. A message that does not fit its receive blocks that side of the channel for good. When the header of a
  message has come and the buffer of the first receive is of another size (or its \<open>ChannelBuffer\<close> refuses the
  size), the handler gives \<open>BadReceiveBufferSize\<close> to that receive and returns. From then on, whatever the
  parties do, no message is received, and an operation that is in the receive queue at any time stays in
  it: no later receive and no \<open>close\<close> of that side is ever completed.\<close>

theorem receive_failure_final:
  assumes "net_run conn_new ks c" and "sk_reading (cn_sock c r) = Header"
    and "cn_pipe c (other r) = xs @ ys" and "length xs = 4"
    and "\<not> recv_fits (hd (sk_mRecvQueue (cn_sock c r))) (of_bytes xs)"
  shows "\<exists>s p c1. recv_header xs (cn_sock c r) = Inr s \<and> op_mPromise (hd (sk_mRecvQueue (cn_sock c r))) = Some p
     \<and> sk_futures s = sk_futures (cn_sock c r) @ [(p, Inl BadReceiveBufferSize)]
     \<and> c1 = put_pipe (other r) ys (put_sock r s c) \<and> net_step c None c1
     \<and> (\<forall>ks1 c2. net_run c1 ks1 c2 \<longrightarrow>
          received (cn_sock c2 r) = received (cn_sock c1 r) \<and> sk_mRecvQueue (cn_sock c2 r) \<noteq> [] \<and> sk_reading (cn_sock c2 r) = Idle
          \<and> (\<forall>ks2 c3. net_run c2 ks2 c3 \<longrightarrow> (\<exists>more. sk_mRecvQueue (cn_sock c3 r) = sk_mRecvQueue (cn_sock c2 r) @ more)))"
proof -
  have R: "recv_ok (cn_sock c r)" using net_run_ok [OF assms(1) refl] net_invD(2) by blast
  obtain s p where s: "recv_header xs (cn_sock c r) = Inr s" "op_mPromise (hd (sk_mRecvQueue (cn_sock c r))) = Some p"
    "sk_futures s = sk_futures (cn_sock c r) @ [(p, Inl BadReceiveBufferSize)]" "recv_broken s"
    using misfit_header [OF R assms(2,4,5)] by blast
  let ?c = "put_pipe (other r) ys (put_sock r s c)"
  have b: "recv_broken (cn_sock ?c r)" using s(4) by simp
  have "net_step c None ?c" using step_header [OF assms(2-4) s(1)] .
  moreover have "received (cn_sock c2 r) = received (cn_sock ?c r) \<and> sk_mRecvQueue (cn_sock c2 r) \<noteq> [] \<and> sk_reading (cn_sock c2 r) = Idle
      \<and> (\<forall>ks2 c3. net_run c2 ks2 c3 \<longrightarrow> (\<exists>more. sk_mRecvQueue (cn_sock c3 r) = sk_mRecvQueue (cn_sock c2 r) @ more))"
    if "net_run ?c ks1 c2" for ks1 c2
    using broken_run [OF that b] broken_run by (auto simp: recv_broken_def)
  ultimately show ?thesis using s(1-3) by blast
qed

section \<open>The threads come to rest\<close>

definition send_measure :: "BtSocket \<Rightarrow> nat" where
  "send_measure s = (\<Sum>op\<leftarrow>tl (sk_mSendQueue s). 2 * length (op_frame op) + 4) + (\<Sum>op\<leftarrow>posts (sk_mSendStrand s). 2 * length (op_frame op) + 5)
     + (case sk_writing s of None \<Rightarrow> 0 | Some bs \<Rightarrow> 2 * length bs + 3) + count_list (sk_mSendStrand s) Done"

definition recv_measure :: "BtSocket \<Rightarrow> nat" where
  "recv_measure s = 3 * length (tl (sk_mRecvQueue s)) + 4 * length (posts (sk_mRecvStrand s))
     + (if sk_reading s = Idle then 0 else 2) + count_list (sk_mRecvStrand s) Done"

definition net_measure :: "conn \<Rightarrow> nat" where
  "net_measure c = (\<Sum>r\<leftarrow>[First, Second]. send_measure (cn_sock c r) + recv_measure (cn_sock c r) + length (cn_pipe c r))"

lemma send_measure_half: "send_half s' = send_half s \<Longrightarrow> send_measure s' = send_measure s"
  by (simp add: send_half_def send_measure_def)

lemma recv_measure_half: "recv_half s' = recv_half s \<Longrightarrow> recv_measure s' = recv_measure s"
  by (simp add: recv_half_def recv_measure_def)

lemma sendOne_measure:
  assumes "ops_ok send_data CloseSend (sk_mStopped s) (sk_mSendQueue s @ posts (sk_mSendStrand s))"
    and "sk_mSendQueue s = op # q" and "sk_writing s = None" and "sendOne s = Inr s'"
  shows "send_measure s' + 1 \<le> send_measure s + (2 * length (op_frame op) + 4)"
  using assms(2-4) by (auto simp: sendOne_def send_measure_def op_frame_def split: if_splits list.splits)
    (cases q; simp)

lemma send_task_measure:
  assumes ok: "send_ok s" and strand: "sk_mSendStrand s = t # ts" and run: "send_task t (s\<lparr>sk_mSendStrand := ts\<rparr>) = Inr s'"
  shows "send_measure s' < send_measure s"
proof (cases t)
  case (Post op)
  let ?s = "s\<lparr>sk_mSendStrand := ts, sk_mSendQueue := sk_mSendQueue s @ [op],
      sk_mTotalSentData := sk_mTotalSentData s + ucast (op_mSize op), sk_mOutstandingSendData := sk_mOutstandingSendData s + ucast (op_mSize op),
      sk_mMaxOutstandingSendData := max (sk_mOutstandingSendData s + ucast (op_mSize op)) (sk_mMaxOutstandingSendData s)\<rparr>"
  show ?thesis
  proof (cases "sk_mSendQueue s = []")
    case True
    then have w: "sk_writing ?s = None" "sk_mSendQueue ?s = op # []" using ok by (simp_all add: send_ok_def)
    have "send_measure s' + 1 \<le> send_measure ?s + (2 * length (op_frame op) + 4)"
    proof (rule sendOne_measure [OF _ w(2,1)])
      show "sendOne ?s = Inr s'" using run True Post by (simp add: send_post_def Let_def)
      show "ops_ok send_data CloseSend (sk_mStopped ?s) (sk_mSendQueue ?s @ posts (sk_mSendStrand ?s))"
        using ok by (simp add: send_ok_def strand Post)
    qed
    moreover have "send_measure ?s + (2 * length (op_frame op) + 5) = send_measure s"
      using True by (simp add: send_measure_def strand Post)
    ultimately show ?thesis by linarith
  next
    case False
    then have "s' = ?s" using run Post by (simp add: send_post_def Let_def)
    then show ?thesis using False by (simp add: send_measure_def strand Post)
  qed
next
  case Done
  let ?s = "s\<lparr>sk_mSendStrand := ts, sk_mSendQueue := tl (sk_mSendQueue s)\<rparr>"
  have q: "sk_mSendQueue s \<noteq> []" using ok strand Done by (auto simp: send_ok_def)
  then have w: "sk_writing s = None" using ok strand Done by (auto simp: send_ok_def split: if_splits)
  have ops: "ops_ok send_data CloseSend (sk_mStopped ?s) (sk_mSendQueue ?s @ posts (sk_mSendStrand ?s))"
    using ok q strand Done ops_ok_pop [of send_data CloseSend "sk_mStopped s" "sk_mSendQueue s"] by (simp add: send_ok_def)
  show ?thesis
  proof (cases "tl (sk_mSendQueue s)")
    case Nil
    then have "s' = ?s" using run by (simp add: Done send_next_def Let_def)
    then show ?thesis using Nil by (simp add: send_measure_def strand Done)
  next
    case (Cons op q')
    have "send_measure s' + 1 \<le> send_measure ?s + (2 * length (op_frame op) + 4)"
    proof (rule sendOne_measure [OF ops])
      show "sendOne ?s = Inr s'" using run Cons by (simp add: Done send_next_def Let_def)
    qed (use Cons w in simp_all)
    moreover have "send_measure ?s + (2 * length (op_frame op) + 4) + 1 = send_measure s"
      by (simp add: send_measure_def strand Done Cons w)
    ultimately show ?thesis by linarith
  qed
qed

lemma receiveOne_measure:
  assumes "sk_mRecvQueue s = op # q" and "sk_reading s = Idle" and "receiveOne s = Inr s'"
  shows "recv_measure s' \<le> recv_measure s + 2"
  using assms by (cases q) (auto simp: receiveOne_def recv_measure_def split: if_splits)

lemma recv_task_measure:
  assumes ok: "recv_ok s" and strand: "sk_mRecvStrand s = t # ts" and run: "recv_task t (s\<lparr>sk_mRecvStrand := ts\<rparr>) = Inr s'"
  shows "recv_measure s' < recv_measure s"
proof (cases t)
  case (Post op)
  let ?s = "s\<lparr>sk_mRecvStrand := ts, sk_mRecvQueue := sk_mRecvQueue s @ [op]\<rparr>"
  show ?thesis
  proof (cases "sk_mRecvQueue s = []")
    case True
    then have w: "sk_reading ?s = Idle" "sk_mRecvQueue ?s = op # []" using ok by (simp_all add: recv_ok_def)
    have "receiveOne ?s = Inr s'" using run True Post by (simp add: recv_post_def Let_def)
    then have "recv_measure s' \<le> recv_measure ?s + 2" by (rule receiveOne_measure [OF w(2,1)])
    moreover have "recv_measure ?s + 4 = recv_measure s" using True by (simp add: recv_measure_def strand Post)
    ultimately show ?thesis by linarith
  next
    case False
    then have "s' = ?s" using run Post by (simp add: recv_post_def Let_def)
    then show ?thesis using False by (simp add: recv_measure_def strand Post)
  qed
next
  case Done
  let ?s = "s\<lparr>sk_mRecvStrand := ts, sk_mRecvQueue := tl (sk_mRecvQueue s)\<rparr>"
  have q: "sk_mRecvQueue s \<noteq> []" using ok strand Done by (auto simp: recv_ok_def)
  then have i: "sk_reading ?s = Idle" using ok strand Done by (auto simp: recv_ok_def split: if_splits)
  show ?thesis
  proof (cases "tl (sk_mRecvQueue s)")
    case Nil
    then have "s' = ?s" using run by (simp add: Done recv_next_def Let_def)
    then show ?thesis using Nil by (simp add: recv_measure_def strand Done)
  next
    case (Cons op q')
    have "receiveOne ?s = Inr s'" using run Cons by (simp add: Done recv_next_def Let_def)
    then have "recv_measure s' \<le> recv_measure ?s + 2" by (intro receiveOne_measure [OF _ i]) (simp_all add: Cons)
    moreover have "recv_measure ?s + 4 = recv_measure s" by (simp add: recv_measure_def strand Done Cons)
    ultimately show ?thesis by linarith
  qed
qed

lemma net_measure_sock:
  "send_measure s + recv_measure s < send_measure (cn_sock c r) + recv_measure (cn_sock c r) \<Longrightarrow> net_measure (put_sock r s c) < net_measure c"
  by (cases r) (simp_all add: net_measure_def)

lemma net_measure_pipe:
  "send_measure s + recv_measure s + length bs < send_measure (cn_sock c r) + recv_measure (cn_sock c r) + length (cn_pipe c p)
     \<Longrightarrow> net_measure (put_pipe p bs (put_sock r s c)) < net_measure c"
  by (cases r; cases p) (simp_all add: net_measure_def)

lemma net_measure_step:
  assumes inv: "net_inv ks c" and step: "net_step c None c'"
  shows "net_measure c' < net_measure c"
proof -
  note S = net_invD(1) [OF inv] and R = net_invD(2) [OF inv]
  from step show ?thesis
  proof cases
    case (step_send r t ts s)
    obtain s' where "send_task t ((cn_sock c r)\<lparr>sk_mSendStrand := ts\<rparr>) = Inr s'" and h: "recv_half s' = recv_half (cn_sock c r)"
      using send_task_ok [OF S step_send(2)] by blast
    then show ?thesis
      using step_send(3) send_task_measure [OF S step_send(2,3)] recv_measure_half [OF h]
      unfolding step_send(1) by (intro net_measure_sock) simp
  next
    case (step_recv r t ts s)
    obtain s' where "recv_task t ((cn_sock c r)\<lparr>sk_mRecvStrand := ts\<rparr>) = Inr s'" and h: "send_half s' = send_half (cn_sock c r)"
      using recv_task_ok [OF R step_recv(2)] by blast
    then show ?thesis
      using step_recv(3) recv_task_measure [OF R step_recv(2,3)] send_measure_half [OF h]
      unfolding step_recv(1) by (intro net_measure_sock) simp
  next
    case (step_write r xs ys)
    have h: "recv_half ((cn_sock c r)\<lparr>sk_writing := Some ys\<rparr>) = recv_half (cn_sock c r)" by (simp add: recv_half_def)
    have "0 < length xs" using step_write(3) by simp
    moreover have "send_measure ((cn_sock c r)\<lparr>sk_writing := Some ys\<rparr>) + 2 * length xs = send_measure (cn_sock c r)"
      by (simp add: send_measure_def step_write(2))
    ultimately have "send_measure ((cn_sock c r)\<lparr>sk_writing := Some ys\<rparr>) + recv_measure ((cn_sock c r)\<lparr>sk_writing := Some ys\<rparr>)
        + length (cn_pipe c r @ xs) < send_measure (cn_sock c r) + recv_measure (cn_sock c r) + length (cn_pipe c r)"
      using recv_measure_half [OF h] unfolding length_append by linarith
    then show ?thesis unfolding step_write(1) by (rule net_measure_pipe)
  next
    case (step_written r s)
    have h: "recv_half s = recv_half (cn_sock c r)" and m: "send_measure s < send_measure (cn_sock c r)"
      using step_written(2,3)
      by (auto simp: send_complete_def Let_def recv_half_def send_measure_def split: list.splits)
    show ?thesis unfolding step_written(1) by (rule net_measure_sock) (use m recv_measure_half [OF h] in simp)
  next
    case (step_header r xs ys s)
    obtain s' where s': "recv_header xs (cn_sock c r) = Inr s'" and h: "send_half s' = send_half (cn_sock c r)"
      using recv_header_ok [OF R step_header(2,4)] by blast
    have "recv_measure s \<le> recv_measure (cn_sock c r)"
      using step_header(2,5) by (auto simp: recv_header_def Let_def recv_measure_def split: list.splits if_splits)
    then show ?thesis using step_header(3-5) s' send_measure_half [OF h] unfolding step_header(1) by (intro net_measure_pipe) simp
  next
    case (step_body r xs ys s)
    obtain s' where s': "recv_body xs (cn_sock c r) = Inr s'" and h: "send_half s' = send_half (cn_sock c r)"
      using recv_body_ok [OF R step_body(2)] by blast
    have "recv_measure s < recv_measure (cn_sock c r)"
      using step_body(2,5) by (auto simp: recv_body_def Let_def recv_measure_def split: list.splits if_splits)
    then show ?thesis using step_body(3-5) s' send_measure_half [OF h] unfolding step_body(1) by (intro net_measure_pipe) simp
  qed
qed

text \<open>C23. Without further calls every execution comes to rest: the number of steps the threads and the operating
  system can still take is bounded by the operations and bytes under way.\<close>

theorem channel_comes_to_rest:
  assumes "net_run conn_new ks c" and "((\<lambda>c c'. net_step c None c') ^^ m) c c'"
  shows "m \<le> net_measure c"
proof -
  have "m + net_measure c' \<le> net_measure c \<and> net_inv ks c'"
    using assms(2)
  proof (induction m arbitrary: c')
    case 0
    then show ?case using net_run_ok [OF assms(1) refl] by simp
  next
    case (Suc m)
    then obtain d where d: "((\<lambda>c c'. net_step c None c') ^^ m) c d" "net_step d None c'" by auto
    then show ?case using Suc.IH [OF d(1)] net_measure_step [of ks d c'] net_inv_step [of ks d None c'] by fastforce
  qed
  then show ?thesis by simp
qed

section \<open>Witnesses\<close>

lemma demo_sent_messages [simp]: "sent First (demo_calls len) = [[7]]" "expected Second (demo_calls len) = [\<lambda>n. unat (word_of_nat len :: u32) = n]"
  by (simp_all add: sent_def expected_def demo_calls_def sent_bytes_def)

lemma demo_header:
  "net_step (duo demo_sender (demo_receiver 1) (frame [7])) None
     (duo demo_sender (BtSocket_new\<lparr>sk_mRecvQueue := [demo_recv 1], sk_reading := Body\<rparr>) [7])"
proof -
  let ?b1 = "BtSocket_new\<lparr>sk_mRecvQueue := [demo_recv 1], sk_reading := Body\<rparr>"
  have hd: "of_bytes (take 4 (frame [7])) = (1 :: u32)" "length (take 4 (frame [7])) = 4" "drop 4 (frame [7]) = [7]"
    by (simp_all add: frame_def)
  have "net_step (duo demo_sender (demo_receiver 1) (frame [7])) None
      (put_pipe (other Second) [7] (put_sock Second ?b1 (duo demo_sender (demo_receiver 1) (frame [7]))))"
  proof (rule step_header)
    show "cn_pipe (duo demo_sender (demo_receiver 1) (frame [7])) (other Second) = take 4 (frame [7]) @ [7]"
      using hd(3) append_take_drop_id [of 4 "frame [7]"] by simp
    show "recv_header (take 4 (frame [7])) (cn_sock (duo demo_sender (demo_receiver 1) (frame [7])) Second) = Inr ?b1"
      by (simp add: recv_header_def Let_def hd demo_receiver_def demo_recv_def op_clear_def BtSocket_new_def recv_fits_def)
  qed (simp_all add: demo_receiver_def hd)
  then show ?thesis by simp
qed

lemma demo_delivered: "\<exists>c. net_run conn_new (demo_calls 1) c \<and> quiet c"
proof -
  let ?b1 = "BtSocket_new\<lparr>sk_mRecvQueue := [demo_recv 1], sk_reading := Body\<rparr>"
  let ?b2 = "BtSocket_new\<lparr>sk_mRecvQueue := [demo_recv 1], sk_mRecvStrand := [Done], sk_futures := [(0, Inr [7])]\<rparr>"
  let ?b3 = "BtSocket_new\<lparr>sk_futures := [(0, Inr [7])]\<rparr>"
  have "net_run conn_new (demo_calls 1) (duo demo_sender ?b1 [7])" using run_internal [OF demo_sent demo_header] by simp
  moreover have "net_step (duo demo_sender ?b1 [7]) None (put_pipe (other Second) [] (put_sock Second ?b2 (duo demo_sender ?b1 [7])))"
    by (rule step_body [where xs = "[7]"])
      (simp_all add: recv_body_def Let_def BtSocket_new_def demo_recv_def op_clear_def set_future_def)
  ultimately have "net_run conn_new (demo_calls 1) (duo demo_sender ?b2 [])" using run_internal by fastforce
  moreover have "net_step (duo demo_sender ?b2 []) None (put_sock Second ?b3 (duo demo_sender ?b2 []))"
    by (rule step_recv [where t = Done and ts = "[]"]) (simp_all add: recv_next_def Let_def BtSocket_new_def)
  ultimately have "net_run conn_new (demo_calls 1) (duo demo_sender ?b3 [])" using run_internal by fastforce
  moreover have "quiet (duo demo_sender ?b3 [])"
    unfolding quiet_def
  proof (intro allI notI)
    fix c' assume "net_step (duo demo_sender ?b3 []) None c'"
    then show False
    proof cases
      case (step_send r) then show ?thesis by (cases r) (simp_all add: demo_sender_def BtSocket_new_def)
    next
      case (step_recv r) then show ?thesis by (cases r) (simp_all add: demo_sender_def BtSocket_new_def)
    next
      case (step_write r) then show ?thesis by (cases r) (simp_all add: demo_sender_def BtSocket_new_def)
    next
      case (step_written r) then show ?thesis by (cases r) (simp_all add: demo_sender_def BtSocket_new_def)
    next
      case (step_header r) then show ?thesis by (cases r) (simp_all add: demo_sender_def BtSocket_new_def)
    next
      case (step_body r) then show ?thesis by (cases r) (simp_all add: demo_sender_def BtSocket_new_def)
    qed
  qed
  ultimately show ?thesis by blast
qed

lemma channel_fifo_witness: "\<exists>c later. net_run conn_new (demo_calls 1) c \<and> [[7]] = received (cn_sock c Second) @ later"
  using channel_fifo [OF demo_sent, of 1 First] demo_sent [of 1] by fastforce

lemma channel_delivers_witness: "\<exists>c. net_run conn_new (demo_calls 1) c \<and> received (cn_sock c Second) = [[7]]"
proof -
  obtain c where c: "net_run conn_new (demo_calls 1) c" "quiet c" using demo_delivered by blast
  have "received (cn_sock c (other First)) = take (length (expected (other First) (demo_calls 1))) (sent First (demo_calls 1)) \<and> sk_mSendQueue (cn_sock c First) = []"
    by (rule channel_delivers [OF c]) simp
  then show ?thesis using c(1) by (intro exI [of _ c]) simp
qed

lemma channel_throws_witness:
  "(\<exists>s. recv_header_handler False (take 4 (frame [7])) (demo_receiver 1) = Inr s)
   \<and> (\<exists>e. recv_header_handler False [1, 0] (demo_receiver 1) = Inl e)"
proof -
  have "\<forall>ec xs. (\<exists>e. recv_header_handler ec xs (demo_receiver 1) = Inl e) \<longleftrightarrow> ec \<or> length xs \<noteq> 4"
    using channel_throws [OF demo_sent, of 1 Second] by (simp add: demo_receiver_def)
  moreover have "length (take 4 (frame [7])) = 4" by (simp add: frame_def)
  ultimately have "\<nexists>e. recv_header_handler False (take 4 (frame [7])) (demo_receiver 1) = Inl e"
    "\<exists>e. recv_header_handler False [1, 0] (demo_receiver 1) = Inl e" by simp_all
  then show ?thesis by (cases "recv_header_handler False (take 4 (frame [7])) (demo_receiver 1)") blast+
qed

lemma channel_comes_to_rest_witness:
  "\<exists>c'. net_step (duo demo_sender (demo_receiver 1) (frame [7])) None c' \<and> 1 \<le> net_measure (duo demo_sender (demo_receiver 1) (frame [7]))"
proof -
  let ?c = "duo demo_sender (demo_receiver 1) (frame [7])"
  obtain c' where c': "net_step ?c None c'" using demo_header by blast
  then have "((\<lambda>c c'. net_step c None c') ^^ 1) ?c c'" by (simp only: relpowp_1)
  from channel_comes_to_rest [OF demo_sent this] c' show ?thesis by auto
qed

text \<open>The buffer of two bytes does not fit.\<close>

lemma receive_failure_final_witness:
  "\<exists>c. net_run conn_new (demo_calls 2) c \<and> sk_futures (cn_sock c Second) = [(0, Inl BadReceiveBufferSize)]
     \<and> (\<forall>ks c'. net_run c ks c' \<longrightarrow> received (cn_sock c' Second) = [])"
proof -
  let ?c = "duo demo_sender (demo_receiver 2) (frame [7])"
  have hd: "of_bytes (take 4 (frame [7])) = (1 :: u32)" "length (take 4 (frame [7])) = 4" "drop 4 (frame [7]) = [7]"
    by (simp_all add: frame_def)
  have pipe: "cn_pipe ?c (other Second) = take 4 (frame [7]) @ [7]"
    using hd(3) append_take_drop_id [of 4 "frame [7]"] by simp
  have "sk_reading (cn_sock ?c Second) = Header" by (simp add: demo_receiver_def)
  moreover have "\<not> recv_fits (hd (sk_mRecvQueue (cn_sock ?c Second))) (of_bytes (take 4 (frame [7])))"
    by (simp add: hd recv_fits_def demo_receiver_def demo_recv_def op_clear_def)
  ultimately obtain s p c1 where s: "sk_futures s = sk_futures (cn_sock ?c Second) @ [(p, Inl BadReceiveBufferSize)]"
      "op_mPromise (hd (sk_mRecvQueue (cn_sock ?c Second))) = Some p"
      "c1 = put_pipe (other Second) [7] (put_sock Second s ?c)" "net_step ?c None c1"
      "\<forall>ks1 c2. net_run c1 ks1 c2 \<longrightarrow> received (cn_sock c2 Second) = received (cn_sock c1 Second)"
    using receive_failure_final [OF demo_sent _ pipe hd(2)] by blast
  have f: "sk_futures (cn_sock c1 Second) = [(0, Inl BadReceiveBufferSize)]"
    using s(1-3) by (simp add: demo_receiver_def demo_recv_def op_clear_def BtSocket_new_def)
  then have "received (cn_sock c1 Second) = []" by (simp add: received_def received_data_def)
  then show ?thesis using run_internal [OF demo_sent s(4)] s(5) f by auto
qed

end
