(* ===== verification/BDX_Endpoint.thy ===== *)
theory BDX_Endpoint
  imports BDX_Network
begin

text \<open>
  \<open>BtEndpoint\<close>, \<open>BtAcceptor\<close> and the rest of \<open>BtIOService\<close>: how a channel gets its socket. A client connects and
  sends its names; the acceptor of the host splits them and hands the socket to the channel that has these
  names. An endpoint counts its channels and reports when it is stopped and the last one is closed.
\<close>

section \<open>Names\<close>

text \<open>\<open>split\<close> of \<open>Common/Defines.cpp\<close>: \<open>std::getline\<close> until the stream is empty.\<close>

function split_at :: "string \<Rightarrow> char \<Rightarrow> string list" where
  "split_at s delim =
     (if s = [] then []
      else case dropWhile (\<lambda>c. c \<noteq> delim) s of
             [] \<Rightarrow> [s]
           | _ # rest \<Rightarrow> takeWhile (\<lambda>c. c \<noteq> delim) s # split_at rest delim)"
  by pat_completeness auto

termination
proof (relation "measure (\<lambda>(s, _). length s)")
  fix s :: string and delim c rest
  assume "s \<noteq> []" and "dropWhile (\<lambda>c. c \<noteq> delim) s = c # rest"
  then have "length (c # rest) \<le> length s" using length_dropWhile_le [of "\<lambda>c. c \<noteq> delim" s] by simp
  then show "((rest, delim), s, delim) \<in> measure (\<lambda>(s, _). length s)" by simp
qed simp

declare split_at.simps [simp del]

definition name_sep :: char where
  "name_sep = CHR 0x60"

definition handshake :: "string \<Rightarrow> string \<Rightarrow> string \<Rightarrow> string" where
  "handshake endpoint localName remoteName = endpoint @ [name_sep] @ localName @ [name_sep] @ remoteName"

definition socket_tag :: "string \<Rightarrow> string \<Rightarrow> string \<Rightarrow> string" where
  "socket_tag endpoint localName remoteName = endpoint @ '':'' @ localName @ '':'' @ remoteName"

section \<open>Acceptors\<close>

text \<open>A promise of a socket: the socket once it is set, and whether its future was taken.\<close>

record socket_promise =
  pr_socket :: "nat option"
  pr_taken :: bool

record BtAcceptor =
  ba_mPort :: u32
  ba_mStopped :: bool
  ba_mSocketPromises :: "string \<rightharpoonup> socket_promise"

definition getSocketPromise :: "string \<Rightarrow> string \<Rightarrow> string \<Rightarrow> BtAcceptor \<Rightarrow> BtAcceptor" where
  "getSocketPromise endpointName localName remoteName a =
     (let tag = socket_tag endpointName localName remoteName
      in if ba_mSocketPromises a tag = None
         then a\<lparr>ba_mSocketPromises := (ba_mSocketPromises a)(tag \<mapsto> \<lparr>pr_socket = None, pr_taken = False\<rparr>)\<rparr>
         else a)"

text \<open>The handler of a complete handshake on a new socket.\<close>

definition accept_names :: "nat \<Rightarrow> string \<Rightarrow> BtAcceptor \<Rightarrow> BtAcceptor result" where
  "accept_names socket msg a =
     (let names = split_at msg name_sep
      in if length names < 3 then Inl UndefinedBehaviour
         else (let tag = socket_tag (names ! 0) (names ! 2) (names ! 1);
                   a = getSocketPromise (names ! 0) (names ! 2) (names ! 1) a
               in case ba_mSocketPromises a tag of
                    None \<Rightarrow> Inl UndefinedBehaviour
                  | Some p \<Rightarrow>
                      if pr_socket p \<noteq> None then Inl FutureError
                      else Inr (a\<lparr>ba_mSocketPromises := (ba_mSocketPromises a)(tag \<mapsto> p\<lparr>pr_socket := Some socket\<rparr>)\<rparr>)))"

text \<open>\<open>getSocket\<close> of a channel of the host: it waits until the promise is set.\<close>

definition getSocket :: "string \<Rightarrow> string \<Rightarrow> string \<Rightarrow> BtAcceptor \<Rightarrow> (nat \<times> BtAcceptor) result" where
  "getSocket endpointName localName remoteName a =
     (let tag = socket_tag endpointName localName remoteName;
          a = getSocketPromise endpointName localName remoteName a
      in case ba_mSocketPromises a tag of
           None \<Rightarrow> Inl UndefinedBehaviour
         | Some p \<Rightarrow>
             if pr_taken p then Inl FutureError
             else (case pr_socket p of
                     None \<Rightarrow> Inl Blocked
                   | Some s \<Rightarrow> Inr (s, a\<lparr>ba_mSocketPromises := (ba_mSocketPromises a)(tag \<mapsto> p\<lparr>pr_taken := True\<rparr>)\<rparr>)))"

section \<open>Endpoints\<close>

text \<open>\<open>ep_done\<close> says whether \<open>mDoneProm\<close> is set; the names of a channel are its local and its remote one.\<close>

record BtEndpoint =
  ep_mName :: string
  ep_mIP :: string
  ep_mPort :: u32
  ep_mHost :: bool
  ep_mStopped :: bool
  ep_mChannels :: "(string \<times> string) list"
  ep_done :: bool

definition BtEndpoint_new :: BtEndpoint where
  "BtEndpoint_new = \<lparr>ep_mName = [], ep_mIP = [], ep_mPort = 0, ep_mHost = False, ep_mStopped = True, ep_mChannels = [], ep_done = False\<rparr>"

text \<open>The acceptors of the I/O service; \<open>bind\<close> says whether the operating system lets a port be bound.\<close>

definition getAcceptor :: "(u32 \<Rightarrow> string \<Rightarrow> bool) \<Rightarrow> BtEndpoint \<Rightarrow> BtAcceptor list \<Rightarrow> (nat \<times> BtAcceptor list) result" where
  "getAcceptor bind e acceptors =
     (if \<not> ep_mHost e then Inl RuntimeError
      else case find (\<lambda>i. ba_mPort (acceptors ! i) = ep_mPort e) [0..<length acceptors] of
             Some i \<Rightarrow> Inr (i, acceptors)
           | None \<Rightarrow>
               if bind (ep_mPort e) (ep_mIP e)
               then Inr (length acceptors, acceptors @ [\<lparr>ba_mPort = ep_mPort e, ba_mStopped = False, ba_mSocketPromises = Map.empty\<rparr>])
               else Inl RuntimeError)"

text \<open>The address of a client is taken to resolve; where it does not, \<open>start\<close> throws with its fields set, as when a
  host cannot bind.\<close>

definition ep_started :: "string \<Rightarrow> u32 \<Rightarrow> bool \<Rightarrow> string \<Rightarrow> BtEndpoint \<Rightarrow> BtEndpoint" where
  "ep_started remoteIP port host name e =
     e\<lparr>ep_mIP := remoteIP, ep_mPort := port, ep_mHost := host, ep_mStopped := False, ep_mName := name\<rparr>"

definition ep_start ::
  "(u32 \<Rightarrow> string \<Rightarrow> bool) \<Rightarrow> string \<Rightarrow> u32 \<Rightarrow> bool \<Rightarrow> string \<Rightarrow> BtEndpoint \<Rightarrow> BtAcceptor list
     \<Rightarrow> (BtEndpoint \<times> BtAcceptor list) result" where
  "ep_start bind remoteIP port host name e acceptors =
     (if \<not> ep_mStopped e then Inl RuntimeError
      else let e = ep_started remoteIP port host name e
           in if host then bind_r (getAcceptor bind e acceptors) (\<lambda>(_, acceptors). Inr (e, acceptors))
              else Inr (e, acceptors))"

definition set_done :: "BtEndpoint \<Rightarrow> BtEndpoint result" where
  "set_done e = (if ep_done e then Inl FutureError else Inr (e\<lparr>ep_done := True\<rparr>))"

text \<open>The connection attempts of a client: one, then as many again as \<open>tryCount\<close>.\<close>

definition connect_loop :: "(nat \<Rightarrow> bool) \<Rightarrow> bool" where
  "connect_loop connect = (connect 0 \<or> list_ex connect [1..<10000001])"

text \<open>The entry of a channel is made under the lock. The host then gets a socket from its acceptor, the client sends
  its names on a new one.\<close>

definition add_entry :: "string \<Rightarrow> string \<Rightarrow> BtEndpoint \<Rightarrow> BtEndpoint result" where
  "add_entry localName remoteName e =
     bind_r (require (\<not> ep_mStopped e) RuntimeError)
       (\<lambda>_. Inr (e\<lparr>ep_mChannels := ep_mChannels e @ [(localName, remoteName)]\<rparr>))"

definition addChannel_host :: "string \<Rightarrow> string \<Rightarrow> BtEndpoint \<Rightarrow> BtAcceptor \<Rightarrow> (nat \<times> BtEndpoint \<times> BtAcceptor) result" where
  "addChannel_host localName remoteName e a =
     bind_r (add_entry localName remoteName e) (\<lambda>e.
     bind_r (getSocket (ep_mName e) localName remoteName a) (\<lambda>(s, a). Inr (s, e, a)))"

definition addChannel_client :: "(nat \<Rightarrow> bool) \<Rightarrow> string \<Rightarrow> string \<Rightarrow> BtEndpoint \<Rightarrow> (string \<times> BtEndpoint) result" where
  "addChannel_client connect localName remoteName e =
     bind_r (add_entry localName remoteName e) (\<lambda>e.
     bind_r (require (connect_loop connect) RuntimeError) (\<lambda>_.
       Inr (handshake (ep_mName e) localName remoteName, e)))"

text \<open>\<open>stop\<close> up to its wait.\<close>

definition ep_stop :: "BtEndpoint \<Rightarrow> BtEndpoint result" where
  "ep_stop e =
     (if ep_mStopped e then Inr e
      else let e = e\<lparr>ep_mStopped := True\<rparr>
           in if ep_mChannels e = [] then set_done e else Inr e)"

fun erase_name :: "string \<Rightarrow> (string \<times> string) list \<Rightarrow> (string \<times> string) list" where
  "erase_name name [] = []"
| "erase_name name (c # cs) = (if fst c = name then cs else c # erase_name name cs)"

definition removeChannel :: "string \<Rightarrow> BtEndpoint \<Rightarrow> BtEndpoint result" where
  "removeChannel name e =
     (let e = e\<lparr>ep_mChannels := erase_name name (ep_mChannels e)\<rparr>
      in if ep_mStopped e \<and> ep_mChannels e = [] then set_done e else Inr e)"

section \<open>The handshake\<close>

lemma split_at_append:
  assumes "delim \<notin> set xs"
  shows "split_at (xs @ delim # ys) delim = xs # split_at ys delim" and "xs \<noteq> [] \<Longrightarrow> split_at xs delim = [xs]"
proof -
  have "dropWhile (\<lambda>c. c \<noteq> delim) (xs @ delim # ys) = delim # ys" "takeWhile (\<lambda>c. c \<noteq> delim) (xs @ delim # ys) = xs"
    using assms by (induction xs) auto
  then show "split_at (xs @ delim # ys) delim = xs # split_at ys delim" by (subst split_at.simps) simp
  have "dropWhile (\<lambda>c. c \<noteq> delim) xs = []" using assms by (induction xs) auto
  then show "split_at xs delim = [xs]" if "xs \<noteq> []" using that by (subst split_at.simps) (simp only: if_False list.case)
qed

lemma split_handshake:
  assumes "name_sep \<notin> set endpoint" and "name_sep \<notin> set localName" and "name_sep \<notin> set remoteName" and "remoteName \<noteq> []"
  shows "split_at (handshake endpoint localName remoteName) name_sep = [endpoint, localName, remoteName]"
  using assms split_at_append by (simp add: handshake_def)

lemma socket_tag_inject:
  assumes "CHR '':'' \<notin> set e" and "CHR '':'' \<notin> set e'" and "CHR '':'' \<notin> set l" and "CHR '':'' \<notin> set l'"
  shows "socket_tag e l r = socket_tag e' l' r' \<longleftrightarrow> e = e' \<and> l = l' \<and> r = r'"
proof -
  have cut: "xs @ CHR '':'' # ys = xs' @ CHR '':'' # ys' \<longleftrightarrow> xs = xs' \<and> ys = ys'"
    if "CHR '':'' \<notin> set xs" "CHR '':'' \<notin> set xs'" for xs xs' ys ys' :: string
    using that
  proof (induction xs arbitrary: xs')
    case Nil
    then show ?case by (cases xs') auto
  next
    case (Cons x xs)
    then show ?case by (cases xs') auto
  qed
  show ?thesis using cut [OF assms(1,2)] cut [OF assms(3,4)] by (simp add: socket_tag_def)
qed

text \<open>C26. The handshake: when a client opens the channel \<open>localName\<close> to \<open>remoteName\<close> on an endpoint with the name of
  the host's, the host's channel with the two names swapped gets this socket, whichever of the two comes
  first, and no channel with other names does. The names must be free of the separators and the remote one
  must not be empty.\<close>

theorem handshake_finds_channel:
  assumes names: "name_sep \<notin> set endpoint" "name_sep \<notin> set localName" "name_sep \<notin> set remoteName" "remoteName \<noteq> []"
    and colon: "CHR '':'' \<notin> set endpoint" "CHR '':'' \<notin> set remoteName" "CHR '':'' \<notin> set host" "CHR '':'' \<notin> set hostName"
    and new: "ba_mSocketPromises a (socket_tag endpoint remoteName localName) = None
        \<or> ba_mSocketPromises a (socket_tag endpoint remoteName localName) = Some \<lparr>pr_socket = None, pr_taken = False\<rparr>"
  shows "\<exists>a'. accept_names s (handshake endpoint localName remoteName) a = Inr a'
     \<and> (\<exists>a''. getSocket endpoint remoteName localName a' = Inr (s, a''))
     \<and> ((host, hostName, hostRemote) \<noteq> (endpoint, remoteName, localName)
          \<longrightarrow> ba_mSocketPromises a' (socket_tag host hostName hostRemote) = ba_mSocketPromises a (socket_tag host hostName hostRemote))"
proof -
  let ?tag = "socket_tag endpoint remoteName localName"
  let ?a = "a\<lparr>ba_mSocketPromises := (ba_mSocketPromises a)(?tag \<mapsto> \<lparr>pr_socket = Some s, pr_taken = False\<rparr>)\<rparr>"
  have "accept_names s (handshake endpoint localName remoteName) a = Inr ?a"
    using new by (auto simp: accept_names_def Let_def split_handshake [OF names] getSocketPromise_def)
  moreover have "\<exists>a''. getSocket endpoint remoteName localName ?a = Inr (s, a'')"
    by (simp add: getSocket_def Let_def getSocketPromise_def)
  moreover have "socket_tag host hostName hostRemote \<noteq> ?tag" if "(host, hostName, hostRemote) \<noteq> (endpoint, remoteName, localName)"
    using that socket_tag_inject [OF colon(3,1,4,2)] by simp
  ultimately show ?thesis by (intro exI [of _ ?a]) auto
qed

lemma handshake_finds_channel_witness:
  "\<exists>a'. accept_names 5 (handshake ''e'' ''l'' ''r'') \<lparr>ba_mPort = 1212, ba_mStopped = False, ba_mSocketPromises = Map.empty\<rparr> = Inr a'
     \<and> (\<exists>a''. getSocket ''e'' ''r'' ''l'' a' = Inr (5, a''))"
  using handshake_finds_channel [of "''e''" "''l''" "''r''" "''e''" "''x''" "\<lparr>ba_mPort = 1212, ba_mStopped = False, ba_mSocketPromises = Map.empty\<rparr>" 5 "''l''"]
  by (simp add: name_sep_def) blast

section \<open>Endpoints at work\<close>

text \<open>The calls on an endpoint. A \<open>start\<close> of a running endpoint and an \<open>addChannel\<close> of a stopped one throw and change
  nothing; a \<open>start\<close> that cannot bind its port throws when the fields are set already. The caller may go on
  after these. An error of the promise ends the run.\<close>

datatype ep_call = is_Start: Start string u32 bool string | Add string string | Closed string | Stop

fun ep_run :: "(u32 \<Rightarrow> string \<Rightarrow> bool) \<Rightarrow> ep_call list \<Rightarrow> BtEndpoint \<times> BtAcceptor list \<Rightarrow> (BtEndpoint \<times> BtAcceptor list) result" where
  "ep_run bind [] st = Inr st"
| "ep_run bind (Start remoteIP port host name # ks) (e, as) =
     (case ep_start bind remoteIP port host name e as of
        Inl _ \<Rightarrow> ep_run bind ks (if ep_mStopped e then ep_started remoteIP port host name e else e, as)
      | Inr st \<Rightarrow> ep_run bind ks st)"
| "ep_run bind (Add l r # ks) (e, as) =
     (case add_entry l r e of Inl _ \<Rightarrow> ep_run bind ks (e, as) | Inr e \<Rightarrow> ep_run bind ks (e, as))"
| "ep_run bind (Closed l # ks) (e, as) =
     (if l \<in> fst ` set (ep_mChannels e) then bind_r (removeChannel l e) (\<lambda>e. ep_run bind ks (e, as)) else ep_run bind ks (e, as))"
| "ep_run bind (Stop # ks) (e, as) = bind_r (ep_stop e) (\<lambda>e. ep_run bind ks (e, as))"

fun no_restart :: "ep_call list \<Rightarrow> bool" where
  "no_restart [] = True"
| "no_restart (k # ks) = (if k = Stop then \<not> list_ex is_Start ks else no_restart ks)"

lemma ep_run_append: "ep_run bind (xs @ ys) st = bind_r (ep_run bind xs st) (ep_run bind ys)"
proof (induction bind xs st rule: ep_run.induct)
  case (3 bind l r ks e as)
  then show ?case by (cases "add_entry l r e") simp_all
next
  case (4 bind l ks e as)
  then show ?case by (cases "removeChannel l e") simp_all
next
  case (5 bind ks e as)
  then show ?case by (cases "ep_stop e") simp_all
qed (auto split: sum.splits)

lemma ep_start_cases:
  "\<not> ep_mStopped e \<Longrightarrow> ep_start bind ip port host name e as = Inl RuntimeError"
  "ep_mStopped e \<Longrightarrow> ep_start bind ip port host name e as = Inr st \<Longrightarrow> fst st = ep_started ip port host name e"
  by (auto simp: ep_start_def Let_def bind_r_Inr split: if_splits)

text \<open>Without a start: an endpoint that is done says so exactly once, one that never ran stays as it is.\<close>

lemma ep_run_running:
  assumes "\<not> list_ex is_Start ks" and "ep_done e \<longleftrightarrow> ep_mStopped e \<and> ep_mChannels e = []"
  shows "\<exists>e'. ep_run bind ks (e, as) = Inr (e', as) \<and> (ep_done e' \<longleftrightarrow> ep_mStopped e' \<and> ep_mChannels e' = [])"
  using assms
proof (induction bind ks "(e, as)" arbitrary: e rule: ep_run.induct)
  case (3 bind l r ks e)
  then show ?case by (cases "ep_mStopped e") (simp_all add: add_entry_def)
next
  case (4 bind l ks e)
  show ?case
  proof (cases "l \<in> fst ` set (ep_mChannels e)")
    case True
    then have "\<not> ep_done e" using "4.prems" by auto
    then obtain e1 where "removeChannel l e = Inr e1" "ep_done e1 \<longleftrightarrow> ep_mStopped e1 \<and> ep_mChannels e1 = []"
      by (cases "ep_mStopped e \<and> erase_name l (ep_mChannels e) = []") (auto simp: removeChannel_def set_done_def Let_def)
    then show ?thesis using "4.hyps"(1) "4.prems"(1) True by simp
  qed (use "4.hyps"(2) "4.prems" in simp)
next
  case (5 bind ks e)
  obtain e1 where "ep_stop e = Inr e1" "ep_done e1 \<longleftrightarrow> ep_mStopped e1 \<and> ep_mChannels e1 = []"
    using "5.prems" by (cases "ep_mStopped e"; cases "ep_mChannels e = []") (auto simp: ep_stop_def set_done_def Let_def)
  then show ?case using "5.hyps" "5.prems"(1) by simp
qed auto

lemma ep_run_unstarted:
  assumes "\<not> list_ex is_Start ks" and "ep_mStopped e" and "ep_mChannels e = []"
  shows "ep_run bind ks (e, as) = Inr (e, as)"
  using assms by (induction bind ks "(e, as)" rule: ep_run.induct) (auto simp: add_entry_def ep_stop_def require_def)

lemma ep_run_fresh:
  assumes "no_restart ks" and "\<not> ep_done e" and "ep_mStopped e \<longrightarrow> ep_mChannels e = []"
  shows "\<exists>e' as'. ep_run bind ks (e, as) = Inr (e', as')
     \<and> (ep_done e' \<longleftrightarrow> (list_ex is_Start ks \<or> \<not> ep_mStopped e) \<and> ep_mStopped e' \<and> ep_mChannels e' = [])"
  using assms
proof (induction ks arbitrary: e as)
  case (Cons k ks)
  show ?case
  proof (cases k)
    case (Start ip port host name)
    let ?e = "ep_started ip port host name e"
    have IH: "\<exists>e' as'. ep_run bind ks (?e, as1) = Inr (e', as') \<and> (ep_done e' \<longleftrightarrow> ep_mStopped e' \<and> ep_mChannels e' = [])" for as1
      using Cons.IH [of ?e as1] Cons.prems Start by (simp add: ep_started_def)
    show ?thesis
    proof (cases "ep_mStopped e")
      case True
      then show ?thesis
        using IH ep_start_cases(2) [of e bind ip port host name as] Start by (fastforce split: sum.split)
    next
      case False
      then show ?thesis using Cons.IH [of e as] Cons.prems Start by (simp add: ep_start_cases(1))
    qed
  next
    case (Add l r)
    then show ?thesis
      using Cons.IH [of e as] Cons.IH [of "e\<lparr>ep_mChannels := ep_mChannels e @ [(l, r)]\<rparr>" as] Cons.prems
      by (cases "ep_mStopped e") (simp_all add: add_entry_def)
  next
    case (Closed l)
    let ?e = "e\<lparr>ep_mChannels := erase_name l (ep_mChannels e)\<rparr>"
    show ?thesis
    proof (cases "l \<in> fst ` set (ep_mChannels e)")
      case True
      then have "\<not> ep_mStopped e" using Cons.prems(3) by auto
      then show ?thesis using Cons.IH [of ?e as] Cons.prems Closed True by (simp add: removeChannel_def)
    qed (use Cons.IH [of e as] Cons.prems Closed in simp)
  next
    case Stop
    then have n: "\<not> list_ex is_Start ks" using Cons.prems(1) by simp
    show ?thesis
    proof (cases "ep_mStopped e")
      case True
      then show ?thesis using ep_run_unstarted [OF n True, of bind as] Cons.prems n Stop by (simp add: ep_stop_def)
    next
      case False
      then obtain e1 where "ep_stop e = Inr e1" "ep_done e1 \<longleftrightarrow> ep_mStopped e1 \<and> ep_mChannels e1 = []"
        using Cons.prems(2) by (cases "ep_mChannels e = []") (auto simp: ep_stop_def set_done_def)
      then show ?thesis using ep_run_running [OF n, of e1 bind as] False Stop by auto
    qed
  qed
qed simp

text \<open>C27. The promise that an endpoint is done. In every order of calls in which no \<open>start\<close> follows a \<open>stop\<close> it is set
  exactly once, when a started endpoint is stopped and its last channel is closed: no call sets it a second
  time. The promise is not renewed by \<open>start\<close>, so an endpoint that is done and is started and stopped
  again throws in \<open>stop\<close>.\<close>

theorem endpoint_done_once:
  "(no_restart ks \<longrightarrow> (\<exists>e' as'. ep_run bind ks (BtEndpoint_new, as) = Inr (e', as')
      \<and> (ep_done e' \<longleftrightarrow> list_ex is_Start ks \<and> ep_mStopped e' \<and> ep_mChannels e' = [])))
   \<and> (\<forall>e as'. ep_run bind ks (BtEndpoint_new, as) = Inr (e, as') \<and> ep_done e \<and> ep_mStopped e \<and> ep_mChannels e = []
      \<longrightarrow> ep_run bind (ks @ [Start ip port host name, Stop]) (BtEndpoint_new, as) = Inl FutureError)"
proof (intro conjI allI impI)
  assume "no_restart ks"
  then show "\<exists>e' as'. ep_run bind ks (BtEndpoint_new, as) = Inr (e', as')
      \<and> (ep_done e' \<longleftrightarrow> list_ex is_Start ks \<and> ep_mStopped e' \<and> ep_mChannels e' = [])"
    using ep_run_fresh [of ks BtEndpoint_new bind as] by (simp add: BtEndpoint_new_def)
next
  fix e as'
  assume e: "ep_run bind ks (BtEndpoint_new, as) = Inr (e, as') \<and> ep_done e \<and> ep_mStopped e \<and> ep_mChannels e = []"
  then have "ep_stop (ep_started ip port host name e) = Inl FutureError"
    by (simp add: ep_stop_def ep_started_def set_done_def)
  then show "ep_run bind (ks @ [Start ip port host name, Stop]) (BtEndpoint_new, as) = Inl FutureError"
    using e ep_start_cases(2) [of e bind ip port host name as'] by (fastforce simp: ep_run_append split: sum.split)
qed

lemma endpoint_done_once_witness:
  "(\<exists>e' as'. ep_run (\<lambda>_ _. True) [Start ''ip'' 1212 True ''e'', Add ''a'' ''b'', Stop, Closed ''a''] (BtEndpoint_new, []) = Inr (e', as') \<and> ep_done e')
   \<and> ep_run (\<lambda>_ _. True) [Start ''ip'' 1212 True ''e'', Stop, Start ''ip'' 1212 True ''e'', Stop] (BtEndpoint_new, []) = Inl FutureError"
proof -
  let ?s = "Start ''ip'' 1212 True ''e''" and ?bind = "\<lambda>_ _. True"
  obtain e' as' where e: "ep_run ?bind [?s, Add ''a'' ''b'', Stop, Closed ''a''] (BtEndpoint_new, []) = Inr (e', as')"
    "ep_done e' \<longleftrightarrow> ep_mStopped e' \<and> ep_mChannels e' = []"
    using endpoint_done_once [of "[?s, Add ''a'' ''b'', Stop, Closed ''a'']" ?bind "[]", THEN conjunct1] by (simp del: ep_run.simps) blast
  moreover have "ep_mStopped e' \<and> ep_mChannels e' = []"
    using e(1) by (auto simp: BtEndpoint_new_def ep_start_def ep_started_def getAcceptor_def add_entry_def ep_stop_def removeChannel_def set_done_def Let_def)
  moreover obtain e1 as1 where r: "ep_run ?bind [?s, Stop] (BtEndpoint_new, []) = Inr (e1, as1)"
      "ep_done e1" "ep_mStopped e1" "ep_mChannels e1 = []"
    by (simp add: BtEndpoint_new_def ep_start_def ep_started_def getAcceptor_def ep_stop_def set_done_def)
  moreover have "ep_run ?bind ([?s, Stop] @ [?s, Stop]) (BtEndpoint_new, []) = Inl FutureError"
    using endpoint_done_once [of "[?s, Stop]" ?bind "[]" "''ip''" 1212 True "''e''"] r by blast
  ultimately show ?thesis by auto
qed

text \<open>An empty remote name, and a channel that is closed by the name of another one.\<close>

lemma empty_remote_name: "name_sep \<notin> set e \<Longrightarrow> name_sep \<notin> set l \<Longrightarrow> accept_names s (handshake e l []) a = Inl UndefinedBehaviour"
  using split_at_append [of name_sep e] split_at_append [of name_sep l]
  by (simp add: accept_names_def handshake_def split_at.simps [of "[]"])

lemma close_wrong_channel: "erase_name ''x'' [(''x'', ''first''), (''x'', ''second'')] = [(''x'', ''second'')]"
  by simp

end
