(* ===== verification/BDX_Zp.thy ===== *)
theory BDX_Zp
  imports BDX_ByteStream BDX_DagRead
begin

text \<open>
  \<open>OT/Math/Zp_Data.{h,cpp}\<close>: the constants of arithmetic modulo \<open>p\<close> and Montgomery's product on arrays of
  64-bit limbs. The MPIR library is the record \<open>mpir\<close>: its \<open>mpn\<close> functions take the limbs they read and the
  count, and return the limbs they write with the carry; \<open>mpn_ok\<close> and \<open>mpz_ok\<close> state what the manual of the library
  says of them. A \<open>bigint\<close> is an integer (\<open>modp.h\<close> asks for its operators only); \<open>mpz_limbs x\<close> are the limbs
  at \<open>_mp_d\<close>, \<open>mpz_size x\<close> of them. \<open>mpir_ref\<close> is an instance by schoolbook arithmetic.
\<close>

type_synonym limbs = "u64 list"

fun limbs_val :: "limbs \<Rightarrow> int" where
  "limbs_val [] = 0"
| "limbs_val (x # xs) = uint x + 2 ^ 64 * limbs_val xs"

record mpir =
  mpn_add_n :: "limbs \<Rightarrow> limbs \<Rightarrow> nat \<Rightarrow> limbs \<times> u64"
  mpn_sub_n :: "limbs \<Rightarrow> limbs \<Rightarrow> nat \<Rightarrow> limbs \<times> u64"
  mpn_sub :: "limbs \<Rightarrow> nat \<Rightarrow> limbs \<Rightarrow> nat \<Rightarrow> limbs \<times> u64"
  mpn_cmp :: "limbs \<Rightarrow> limbs \<Rightarrow> nat \<Rightarrow> int"
  mpn_mul_1 :: "limbs \<Rightarrow> nat \<Rightarrow> u64 \<Rightarrow> limbs \<times> u64"
  mpn_addmul_1 :: "limbs \<Rightarrow> limbs \<Rightarrow> nat \<Rightarrow> u64 \<Rightarrow> limbs \<times> u64"
  mpn_mul_n :: "limbs \<Rightarrow> limbs \<Rightarrow> nat \<Rightarrow> limbs"
  mpn_sqr :: "limbs \<Rightarrow> nat \<Rightarrow> limbs"
  mpn_tdiv_qr :: "limbs \<Rightarrow> nat \<Rightarrow> limbs \<Rightarrow> nat \<Rightarrow> limbs \<times> limbs"
  mpn_gcdext :: "limbs \<Rightarrow> nat \<Rightarrow> limbs \<Rightarrow> nat \<Rightarrow> limbs \<times> int"
  mpz_limbs :: "int \<Rightarrow> limbs"
  mpz_invert :: "int \<Rightarrow> int \<Rightarrow> int"
  mpz_pow_ui :: "int \<Rightarrow> nat \<Rightarrow> int"
  mpz_sizeinbase :: "int \<Rightarrow> nat \<Rightarrow> nat"
  mpz_put :: "int \<Rightarrow> string"
  mpz_get :: "string \<Rightarrow> int"

text \<open>
  The \<open>mpn\<close> functions. \<open>mpn_tdiv_qr\<close> needs a divisor with a top limb that is not zero; \<open>mpn_gcdext\<close> leaves a
  cofactor of its first operand and the number of its limbs, with the sign of the cofactor.
\<close>

definition mpn_linear_ok :: "mpir \<Rightarrow> bool" where
  "mpn_linear_ok M \<longleftrightarrow>
     (\<forall>x y n r c. n \<le> length x \<longrightarrow> n \<le> length y \<longrightarrow> mpn_add_n M x y n = (r, c) \<longrightarrow>
        length r = n \<and> limbs_val r + 2 ^ (64 * n) * uint c = limbs_val (take n x) + limbs_val (take n y))
     \<and> (\<forall>x y n r c. n \<le> length x \<longrightarrow> n \<le> length y \<longrightarrow> mpn_sub_n M x y n = (r, c) \<longrightarrow>
        length r = n \<and> limbs_val r + limbs_val (take n y) = limbs_val (take n x) + 2 ^ (64 * n) * uint c)
     \<and> (\<forall>x m y n r c. m \<le> length x \<longrightarrow> n \<le> length y \<longrightarrow> n \<le> m \<longrightarrow> mpn_sub M x m y n = (r, c) \<longrightarrow>
        length r = m \<and> limbs_val r + limbs_val (take n y) = limbs_val (take m x) + 2 ^ (64 * m) * uint c)
     \<and> (\<forall>x y n. n \<le> length x \<longrightarrow> n \<le> length y \<longrightarrow>
        sgn (mpn_cmp M x y n) = sgn (limbs_val (take n x) - limbs_val (take n y)))"

definition mpn_product_ok :: "mpir \<Rightarrow> bool" where
  "mpn_product_ok M \<longleftrightarrow>
     (\<forall>x n l r c. n \<le> length x \<longrightarrow> mpn_mul_1 M x n l = (r, c) \<longrightarrow>
        length r = n \<and> limbs_val r + 2 ^ (64 * n) * uint c = limbs_val (take n x) * uint l)
     \<and> (\<forall>z x n l r c. n \<le> length z \<longrightarrow> n \<le> length x \<longrightarrow> mpn_addmul_1 M z x n l = (r, c) \<longrightarrow>
        length r = n
        \<and> limbs_val r + 2 ^ (64 * n) * uint c = limbs_val (take n z) + limbs_val (take n x) * uint l)
     \<and> (\<forall>x y n. n \<le> length x \<longrightarrow> n \<le> length y \<longrightarrow>
        length (mpn_mul_n M x y n) = 2 * n
        \<and> limbs_val (mpn_mul_n M x y n) = limbs_val (take n x) * limbs_val (take n y))
     \<and> (\<forall>x n. n \<le> length x \<longrightarrow>
        length (mpn_sqr M x n) = 2 * n \<and> limbs_val (mpn_sqr M x n) = limbs_val (take n x) * limbs_val (take n x))"

definition mpn_division_ok :: "mpir \<Rightarrow> bool" where
  "mpn_division_ok M \<longleftrightarrow>
     (\<forall>x m y n q r. m \<le> length x \<longrightarrow> n \<le> length y \<longrightarrow> 0 < n \<longrightarrow> n \<le> m \<longrightarrow> y ! (n - 1) \<noteq> 0 \<longrightarrow>
        mpn_tdiv_qr M x m y n = (q, r) \<longrightarrow>
        length r = n \<and> limbs_val r = limbs_val (take m x) mod limbs_val (take n y))
     \<and> (\<forall>x y n s k. n \<le> length x \<longrightarrow> n \<le> length y \<longrightarrow> 0 < n \<longrightarrow> y ! (n - 1) \<noteq> 0 \<longrightarrow>
        mpn_gcdext M x n y n = (s, k) \<longrightarrow>
        length s = n + 1 \<and> nat \<bar>k\<bar> \<le> n \<and> limbs_val (take (nat \<bar>k\<bar>) s) < limbs_val (take n y)
        \<and> (k = 0 \<or> s ! (nat \<bar>k\<bar> - 1) \<noteq> 0)
        \<and> limbs_val (take n y) dvd
            limbs_val (take n x) * (sgn k * limbs_val (take (nat \<bar>k\<bar>) s)) - gcd (limbs_val (take n x)) (limbs_val (take n y)))"

definition mpn_ok :: "mpir \<Rightarrow> bool" where
  "mpn_ok M \<longleftrightarrow> mpn_linear_ok M \<and> mpn_product_ok M \<and> mpn_division_ok M"

definition mpz_ok :: "mpir \<Rightarrow> bool" where
  "mpz_ok M \<longleftrightarrow>
     (\<forall>x. limbs_val (mpz_limbs M x) = \<bar>x\<bar> \<and> (mpz_limbs M x = [] \<or> last (mpz_limbs M x) \<noteq> 0))
     \<and> (\<forall>a m. 1 < m \<longrightarrow> coprime a m \<longrightarrow> 0 < mpz_invert M a m \<and> mpz_invert M a m < m \<and> a * mpz_invert M a m mod m = 1)
     \<and> (\<forall>b e. mpz_pow_ui M b e = b ^ e)"

abbreviation mpz_size :: "mpir \<Rightarrow> int \<Rightarrow> nat" where
  "mpz_size M x \<equiv> length (mpz_limbs M x)"

section \<open>The constants\<close>

definition MAX_MOD_SZ :: nat where
  "MAX_MOD_SZ = 16"

record Zp_Data =
  zp_montgomery :: bool
  zp_R :: limbs
  zp_R2 :: limbs
  zp_R3 :: limbs
  zp_pi :: u64
  zp_prA :: limbs
  zp_t :: nat
  zp_pr :: int
  zp_mask :: "u64 option"

text \<open>
  \<open>mpn_copyi\<close> of \<open>n\<close> limbs of a big integer: it must have them. The mask is a shift of an \<open>int\<close>, which has
  32 bits; it is \<open>None\<close> where the shift is not defined. It is an unspecified value and not an error there, as
  nothing in the sources reads the mask but the copy of a \<open>Zp_Data\<close>.
\<close>

definition copy_mpz :: "mpir \<Rightarrow> int \<Rightarrow> nat \<Rightarrow> limbs result" where
  "copy_mpz M x n =
     (if n \<le> mpz_size M x then Inr (blit (replicate MAX_MOD_SZ 0) 0 (take n (mpz_limbs M x)))
      else Inl UndefinedBehaviour)"

definition shift_mask :: "nat \<Rightarrow> u64 option" where
  "shift_mask n = (if n < 31 then Some (2 ^ n - 1) else None)"

definition mont_constants :: "mpir \<Rightarrow> Zp_Data \<Rightarrow> Zp_Data result" where
  "mont_constants M zd =
     (let pr = zp_pr zd;
          r = mpz_pow_ui M 2 (zp_t zd * 8 * 8);
          pp = mpz_invert M pr r;
          pp = r - pp;
          pi = mpz_limbs M pp ! 0;
          r = r mod pr;
          n = mpz_size M r;
          r2 = (r * r) mod pr;
          r3 = (r2 * r) mod pr
      in bind_r (copy_mpz M r n) (\<lambda>R. bind_r (copy_mpz M r2 n) (\<lambda>R2. bind_r (copy_mpz M r3 n) (\<lambda>R3.
         Inr (zd\<lparr>zp_pi := pi, zp_R := R, zp_R2 := R2, zp_R3 := R3\<rparr>)))))"

definition Zp_init :: "mpir \<Rightarrow> int \<Rightarrow> bool \<Rightarrow> Zp_Data \<Rightarrow> Zp_Data result" where
  "Zp_init M p mont zd =
     (let zd = zd\<lparr>zp_pr := p, zp_mask := shift_mask ((mpz_sizeinbase M p 2 - 1) mod 64),
                  zp_montgomery := mont, zp_t := mpz_size M p\<rparr>
      in bind_r (require (zp_t zd < MAX_MOD_SZ) MaxModSzTooSmall) (\<lambda>_.
         bind_r (if mont then mont_constants M zd else Inr zd) (\<lambda>zd.
         bind_r (copy_mpz M p (zp_t zd)) (\<lambda>prA. Inr (zd\<lparr>zp_prA := prA\<rparr>)))))"

definition Zp_assign :: "Zp_Data \<Rightarrow> Zp_Data \<Rightarrow> Zp_Data" where
  "Zp_assign this_zd zp =
     (let n = zp_t zp + 1
      in this_zd\<lparr>zp_pr := zp_pr zp, zp_mask := zp_mask zp, zp_montgomery := zp_montgomery zp, zp_t := zp_t zp,
           zp_R := blit (zp_R this_zd) 0 (take n (zp_R zp)), zp_R2 := blit (zp_R2 this_zd) 0 (take n (zp_R2 zp)),
           zp_R3 := blit (zp_R3 this_zd) 0 (take n (zp_R3 zp)), zp_pi := zp_pi zp,
           zp_prA := blit (zp_prA this_zd) 0 (take n (zp_prA zp))\<rparr>)"

text \<open>
  The stream operators, on the words of a text stream. A plain modulus is written and read as its number and the flag
  alone. A failed read leaves the object in an unspecified state.
\<close>

definition limb_words :: "Zp_Data \<Rightarrow> limbs \<Rightarrow> string list" where
  "limb_words zd x = map (\<lambda>i. show_nat (unat (x ! i))) [0..<zp_t zd]"

definition Zp_write :: "mpir \<Rightarrow> Zp_Data \<Rightarrow> string list" where
  "Zp_write M zd =
     [mpz_put M (zp_pr zd), show_nat (if zp_montgomery zd then 1 else 0)]
     @ (if zp_montgomery zd
        then [show_nat (zp_t zd), show_nat (unat (zp_pi zd))] @ limb_words zd (zp_R zd) @ limb_words zd (zp_R2 zd)
             @ limb_words zd (zp_R3 zd) @ limb_words zd (zp_prA zd)
        else [])"

definition read_limbs :: "nat \<Rightarrow> string list \<Rightarrow> (limbs \<times> string list) result" where
  "read_limbs t ws =
     bind_r (read_u64s t ws) (\<lambda>(xs, ws). Inr (blit (replicate MAX_MOD_SZ 0) 0 (map word_of_nat xs), ws))"

definition Zp_read :: "mpir \<Rightarrow> Zp_Data \<Rightarrow> string list \<Rightarrow> (Zp_Data \<times> string list) result" where
  "Zp_read M zd ws =
     bind_r (read_word ws) (\<lambda>(p, ws). bind_r (read_u64 ws) (\<lambda>(mont, ws).
     bind_r (require (mont \<le> 1) UndefinedBehaviour) (\<lambda>_.
       let zd = zd\<lparr>zp_pr := mpz_get M p, zp_montgomery := (mont = 1)\<rparr>
       in if mont = 1
          then bind_r (read_u64 ws) (\<lambda>(t, ws). bind_r (require (t < 2 ^ 31) UndefinedBehaviour) (\<lambda>_.
               bind_r (read_u64 ws) (\<lambda>(pi, ws).
               bind_r (require (t < MAX_MOD_SZ) MaxModSzTooSmall) (\<lambda>_.
               bind_r (read_limbs t ws) (\<lambda>(R, ws). bind_r (read_limbs t ws) (\<lambda>(R2, ws).
               bind_r (read_limbs t ws) (\<lambda>(R3, ws). bind_r (read_limbs t ws) (\<lambda>(prA, ws).
               Inr (zd\<lparr>zp_t := t, zp_pi := word_of_nat pi, zp_R := R, zp_R2 := R2, zp_R3 := R3, zp_prA := prA\<rparr>, ws)))))))))
          else Inr (zd, ws))))"

section \<open>Montgomery's product\<close>

text \<open>The array \<open>ans\<close> grows by one limb in each round; only limbs that were written are read.\<close>

definition mont_first :: "mpir \<Rightarrow> Zp_Data \<Rightarrow> limbs \<Rightarrow> limbs \<Rightarrow> limbs" where
  "mont_first M zd x y =
     (let t = zp_t zd;
          u = x ! 0 * y ! 0 * zp_pi zd;
          (ans, c) = mpn_mul_1 M y t (x ! 0);
          (ans, d) = mpn_addmul_1 M (ans @ [c]) (zp_prA zd) (t + 1) u
      in ans @ [d])"

definition mont_step :: "mpir \<Rightarrow> Zp_Data \<Rightarrow> limbs \<Rightarrow> limbs \<Rightarrow> nat \<Rightarrow> limbs \<Rightarrow> limbs" where
  "mont_step M zd x y i ans =
     (let t = zp_t zd;
          u = (ans ! i + x ! i * y ! 0) * zp_pi zd;
          (a, c) = mpn_addmul_1 M (drop i ans) y (t + 1) (x ! i);
          (b, d) = mpn_addmul_1 M a (zp_prA zd) (t + 1) u
      in take i ans @ b @ [c + d])"

definition mont_reduce :: "mpir \<Rightarrow> Zp_Data \<Rightarrow> limbs \<Rightarrow> limbs" where
  "mont_reduce M zd ans =
     (let t = zp_t zd; hi = drop t ans
      in if mpn_cmp M hi (zp_prA zd) (t + 1) \<ge> 0 then fst (mpn_sub_n M hi (zp_prA zd) t) else take t hi)"

definition Mont_Mult :: "mpir \<Rightarrow> Zp_Data \<Rightarrow> limbs \<Rightarrow> limbs \<Rightarrow> limbs \<Rightarrow> limbs result" where
  "Mont_Mult M zd z x y =
     (let t = zp_t zd
      in bind_r (require (x ! t = 0 \<and> y ! t = 0) Aborted) (\<lambda>_.
         Inr (blit z 0 (mont_reduce M zd (fold (mont_step M zd x y) [1..<t] (mont_first M zd x y))))))"

section \<open>Limbs as numbers\<close>

lemma limbs_val_nonneg [simp]: "0 \<le> limbs_val xs"
  by (induction xs) simp_all

lemma limbs_val_append: "limbs_val (xs @ ys) = limbs_val xs + 2 ^ (64 * length xs) * limbs_val ys"
  by (induction xs) (simp_all add: algebra_simps power_add)

lemma limbs_val_zeros [simp]: "limbs_val (replicate n 0) = 0"
  by (induction n) simp_all

lemma limbs_val_bound: "limbs_val xs < 2 ^ (64 * length xs)"
proof (induction xs)
  case (Cons x xs)
  have "uint x < 2 ^ 64" using uint_lt2p [of x] by simp
  then have "limbs_val (x # xs) < 2 ^ 64 * (limbs_val xs + 1)" by simp
  also have "\<dots> \<le> 2 ^ 64 * 2 ^ (64 * length xs)" using Cons.IH by (intro mult_left_mono) simp_all
  finally show ?case by (simp add: power_add)
qed simp

lemma limbs_val_take_bound: "n \<le> length xs \<Longrightarrow> limbs_val (take n xs) < 2 ^ (64 * n)"
  using limbs_val_bound [of "take n xs"] by simp

lemma limbs_val_take_drop:
  "n \<le> length xs \<Longrightarrow> limbs_val xs = limbs_val (take n xs) + 2 ^ (64 * n) * limbs_val (drop n xs)"
  using limbs_val_append [of "take n xs" "drop n xs"] by simp

lemma limbs_val_take_Suc:
  "n < length xs \<Longrightarrow> limbs_val (take (Suc n) xs) = limbs_val (take n xs) + 2 ^ (64 * n) * uint (xs ! n)"
  by (simp add: take_Suc_conv_app_nth limbs_val_append)

lemma limbs_val_mod: "xs \<noteq> [] \<Longrightarrow> limbs_val xs mod 2 ^ 64 = uint (xs ! 0)"
  using uint_lt2p [of "hd xs"] by (cases xs) simp_all

lemma limbs_val_div: "limbs_val xs div 2 ^ 64 = limbs_val (tl xs)"
  using uint_lt2p [of "hd xs"] by (cases xs) simp_all

lemma limbs_val_inj: "length xs = length ys \<Longrightarrow> limbs_val xs = limbs_val ys \<Longrightarrow> xs = ys"
proof (induction xs arbitrary: ys)
  case (Cons x xs)
  obtain y zs where ys: "ys = y # zs" using Cons.prems(1) by (cases ys) simp_all
  have "uint x = uint y"
    using limbs_val_mod [of "x # xs"] limbs_val_mod [of "y # zs"] Cons.prems(2) unfolding ys
    by (metis list.distinct(1) nth_Cons_0)
  moreover have "limbs_val xs = limbs_val zs"
    using limbs_val_div [of "x # xs"] limbs_val_div [of "y # zs"] Cons.prems(2) ys by simp
  ultimately show ?case using Cons.IH [of zs] Cons.prems(1) ys by (simp add: word_uint_eq_iff)
qed simp

lemma limbs_val_pos: "xs \<noteq> [] \<Longrightarrow> last xs \<noteq> 0 \<Longrightarrow> 2 ^ (64 * (length xs - 1)) \<le> limbs_val xs"
proof (induction xs)
  case (Cons x xs)
  show ?case
  proof (cases "xs = []")
    case True
    have "uint x \<noteq> 0" using Cons.prems True by (simp add: word_uint_eq_iff)
    then have "1 \<le> uint x" using uint_ge_0 [of x] by linarith
    then show ?thesis using True by simp
  next
    case False
    have "2 ^ 64 * 2 ^ (64 * (length xs - 1)) \<le> 2 ^ 64 * limbs_val xs"
      using Cons.IH False Cons.prems by (intro mult_left_mono) simp_all
    moreover have "64 + 64 * (length xs - 1) = 64 * length xs" using False by (cases xs) simp_all
    ultimately have "2 ^ (64 * length xs) \<le> 2 ^ 64 * limbs_val xs" by (metis power_add)
    then show ?thesis by (simp add: add_increasing)
  qed
qed simp

lemma limbs_of_small:
  assumes "limbs_val xs < 2 ^ (64 * n)" and "xs = [] \<or> last xs \<noteq> 0"
  shows "length xs \<le> n"
proof (rule ccontr)
  assume "\<not> length xs \<le> n"
  then have "64 * n \<le> 64 * (length xs - 1)" "xs \<noteq> []" by auto
  then have "(2 :: int) ^ (64 * n) \<le> 2 ^ (64 * (length xs - 1))" by (intro power_increasing) simp_all
  then show False using limbs_val_pos [of xs] assms \<open>xs \<noteq> []\<close> by linarith
qed

text \<open>What the laws say of one call.\<close>

lemma mpn_mul_1D:
  assumes "mpn_ok M" and "mpn_mul_1 M x n l = (r, c)" and "n \<le> length x"
  shows "length r = n" and "limbs_val r + 2 ^ (64 * n) * uint c = limbs_val (take n x) * uint l"
  using assms unfolding mpn_ok_def mpn_product_ok_def by blast+

lemma mpn_addmul_1D:
  assumes "mpn_ok M" and "mpn_addmul_1 M z x n l = (r, c)" and "n \<le> length z" and "n \<le> length x"
  shows "length r = n"
    and "limbs_val r + 2 ^ (64 * n) * uint c = limbs_val (take n z) + limbs_val (take n x) * uint l"
  using assms unfolding mpn_ok_def mpn_product_ok_def by blast+

lemma mpn_sub_nD:
  assumes "mpn_ok M" and "n \<le> length x" and "n \<le> length y"
  shows "length (fst (mpn_sub_n M x y n)) = n"
    and "limbs_val (fst (mpn_sub_n M x y n)) + limbs_val (take n y)
         = limbs_val (take n x) + 2 ^ (64 * n) * uint (snd (mpn_sub_n M x y n))"
  using assms unfolding mpn_ok_def mpn_linear_ok_def by (metis prod.collapse)+

lemma mpn_subD:
  assumes "mpn_ok M" and "mpn_sub M x m y n = (r, c)" and "m \<le> length x" and "n \<le> length y" and "n \<le> m"
  shows "length r = m" and "limbs_val r + limbs_val (take n y) = limbs_val (take m x) + 2 ^ (64 * m) * uint c"
  using assms unfolding mpn_ok_def mpn_linear_ok_def by blast+

lemma mpn_add_nD:
  assumes "mpn_ok M" and "n \<le> length x" and "n \<le> length y"
  shows "length (fst (mpn_add_n M x y n)) = n"
    and "limbs_val (fst (mpn_add_n M x y n)) + 2 ^ (64 * n) * uint (snd (mpn_add_n M x y n))
         = limbs_val (take n x) + limbs_val (take n y)"
  using assms unfolding mpn_ok_def mpn_linear_ok_def by (metis prod.collapse)+

lemma mpn_cmpD:
  assumes "mpn_ok M" and "n \<le> length x" and "n \<le> length y"
  shows "mpn_cmp M x y n \<ge> 0 \<longleftrightarrow> limbs_val (take n y) \<le> limbs_val (take n x)"
    and "mpn_cmp M x y n = 0 \<longleftrightarrow> take n x = take n y"
proof -
  have s: "sgn (mpn_cmp M x y n) = sgn (limbs_val (take n x) - limbs_val (take n y))"
    using assms unfolding mpn_ok_def mpn_linear_ok_def by blast
  show "mpn_cmp M x y n \<ge> 0 \<longleftrightarrow> limbs_val (take n y) \<le> limbs_val (take n x)"
    using s by (auto simp: sgn_if split: if_splits)
  have "mpn_cmp M x y n = 0 \<longleftrightarrow> limbs_val (take n x) = limbs_val (take n y)"
    using s by (auto simp: sgn_if split: if_splits)
  then show "mpn_cmp M x y n = 0 \<longleftrightarrow> take n x = take n y"
    using limbs_val_inj [of "take n x" "take n y"] assms by auto
qed

section \<open>Montgomery's product is a product\<close>

text \<open>
  What the product needs of the constants: \<open>p\<close> has \<open>t\<close> limbs in an array with room for one more, which is zero, and
  \<open>pi\<close> is \<open>- 1 / p\<close> modulo one limb.
\<close>

definition zp_modulus :: "Zp_Data \<Rightarrow> bool" where
  "zp_modulus zd \<longleftrightarrow>
     0 < zp_t zd \<and> zp_t zd < MAX_MOD_SZ \<and> length (zp_prA zd) = MAX_MOD_SZ \<and> zp_prA zd ! zp_t zd = 0
     \<and> zp_prA zd ! (zp_t zd - 1) \<noteq> 0 \<and> 1 < zp_pr zd \<and> limbs_val (take (zp_t zd) (zp_prA zd)) = zp_pr zd"

definition zp_mont :: "Zp_Data \<Rightarrow> bool" where
  "zp_mont zd \<longleftrightarrow> (uint (zp_pi zd) * zp_pr zd + 1) mod 2 ^ 64 = 0"

lemma zp_modulus_Suc:
  "zp_modulus zd \<Longrightarrow> limbs_val (take (Suc (zp_t zd)) (zp_prA zd)) = zp_pr zd"
  by (simp add: zp_modulus_def limbs_val_take_Suc)

lemma zp_modulus_bound: "zp_modulus zd \<Longrightarrow> zp_pr zd < 2 ^ (64 * zp_t zd)"
  using limbs_val_take_bound [of "zp_t zd" "zp_prA zd"] by (simp add: zp_modulus_def)

lemma mont_digit:
  fixes P :: int and q :: u64
  assumes "(uint q * P + 1) mod 2 ^ 64 = 0"
    and "A mod 2 ^ 64 = uint a" and "Y mod 2 ^ 64 = uint y"
  shows "(A + uint x * Y + uint ((a + x * y) * q) * P) mod 2 ^ 64 = 0"
proof -
  have "uint ((a + x * y) * q) = (uint a + uint x * uint y) * uint q mod 2 ^ 64"
    by (simp add: uint_word_arith_bintrs take_bit_eq_mod mod_simps)
  then have "(A + uint x * Y + uint ((a + x * y) * q) * P) mod 2 ^ 64
        = (A mod 2 ^ 64 + uint x * (Y mod 2 ^ 64) + (uint a + uint x * uint y) * uint q * P) mod 2 ^ 64"
    by (simp only:, intro mod_add_cong) (simp_all add: mod_simps)
  also have "\<dots> = ((uint a + uint x * uint y) * ((uint q * P + 1) mod 2 ^ 64)) mod 2 ^ 64"
    unfolding assms(2,3) mod_mult_right_eq by (simp add: algebra_simps)
  finally show ?thesis using assms(1) by simp
qed

text \<open>One round: the sum of the three terms divided by one limb, without a carry out of the top limb.\<close>

lemma mont_round:
  assumes M: "mpn_ok M" and zd: "zp_modulus zd" "zp_mont zd"
    and a: "length a = Suc (zp_t zd)" "limbs_val a < 2 * zp_pr zd"
    and y: "zp_t zd < length y" "limbs_val (take (Suc (zp_t zd)) y) < zp_pr zd"
    and b: "length b = Suc (zp_t zd)"
      "limbs_val b + 2 ^ (64 * Suc (zp_t zd)) * uint c = limbs_val a + limbs_val (take (Suc (zp_t zd)) y) * uint x"
    and d: "mpn_addmul_1 M b (zp_prA zd) (Suc (zp_t zd)) ((a ! 0 + x * y ! 0) * zp_pi zd) = (d, e)"
  shows "length d = Suc (zp_t zd)"
    and "2 ^ 64 * limbs_val (tl (d @ [c + e]))
         = limbs_val a + uint x * limbs_val (take (Suc (zp_t zd)) y)
           + uint ((a ! 0 + x * y ! 0) * zp_pi zd) * zp_pr zd"
    and "limbs_val (tl (d @ [c + e])) < 2 * zp_pr zd"
proof -
  define u Y P K where "u = (a ! 0 + x * y ! 0) * zp_pi zd" and "Y = limbs_val (take (Suc (zp_t zd)) y)"
    and "P = zp_pr zd" and "K = (2 :: int) ^ (64 * Suc (zp_t zd))"
  define T where "T = limbs_val a + uint x * Y + uint u * P"
  have P: "0 < P" "P < 2 ^ (64 * zp_t zd)"
    using zd(1) zp_modulus_bound [OF zd(1)] by (simp_all add: P_def zp_modulus_def)
  have prA: "Suc (zp_t zd) \<le> length (zp_prA zd)" using zd(1) by (simp add: zp_modulus_def)
  have vb: "limbs_val b + K * uint c = limbs_val a + Y * uint x" using b(2) by (simp add: K_def Y_def)
  show ld: "length d = Suc (zp_t zd)" using mpn_addmul_1D(1) [OF M d] b(1) prA by simp
  have vd: "limbs_val d + K * uint e = limbs_val b + P * uint u"
    using mpn_addmul_1D(2) [OF M d] b(1) prA zp_modulus_Suc [OF zd(1)] by (simp add: K_def P_def u_def)
  have T: "limbs_val d + K * (uint c + uint e) = T" using vb vd by (simp add: T_def algebra_simps)
  have lt: "uint w \<le> 2 ^ 64 - 1" for w :: u64 using uint_lt2p [of w] by simp
  have "uint x * Y \<le> (2 ^ 64 - 1) * P" "uint u * P \<le> (2 ^ 64 - 1) * P"
    using lt [of x] lt [of u] y(2) P(1) by (intro mult_mono; simp add: Y_def P_def)+
  then have TB: "T < 2 ^ 64 * (2 * P)" using a(2) by (simp add: T_def P_def)
  also have "\<dots> \<le> 2 ^ 64 * (2 * 2 ^ (64 * zp_t zd))" using P(2) by (intro mult_left_mono) simp_all
  also have "\<dots> = 2 * K" by (simp add: K_def power_add)
  finally have "T < 2 * K" .
  moreover have "K * (uint c + uint e) \<le> T" using T limbs_val_nonneg [of d] by linarith
  ultimately have "K * (uint c + uint e) < K * 2" by linarith
  then have "uint c + uint e < 2" using mult_less_cancel_left_pos [of K] by (simp add: K_def)
  then have "uint (c + e) = uint c + uint e" using uint_add_lem [of c e] by simp
  then have V: "limbs_val (d @ [c + e]) = T" using T ld by (simp add: limbs_val_append K_def)
  have a0: "limbs_val a mod 2 ^ 64 = uint (a ! 0)" using limbs_val_mod [of a] a(1) by fastforce
  have y0: "Y mod 2 ^ 64 = uint (y ! 0)"
    using limbs_val_mod [of "take (Suc (zp_t zd)) y"] y(1) by (fastforce simp: Y_def)
  have "T mod 2 ^ 64 = 0"
    unfolding T_def u_def P_def by (rule mont_digit [OF zd(2) [unfolded zp_mont_def] a0 y0])
  then have "2 ^ 64 * limbs_val (tl (d @ [c + e])) = T"
    using limbs_val_div [of "d @ [c + e]"] mult_div_mod_eq [of "2 ^ 64" T] V by simp
  then show *: "2 ^ 64 * limbs_val (tl (d @ [c + e]))
         = limbs_val a + uint x * limbs_val (take (Suc (zp_t zd)) y)
           + uint ((a ! 0 + x * y ! 0) * zp_pi zd) * zp_pr zd"
    by (simp add: T_def Y_def u_def P_def)
  then show "limbs_val (tl (d @ [c + e])) < 2 * zp_pr zd"
    using TB by (simp add: T_def Y_def u_def P_def)
qed

text \<open>After \<open>k\<close> rounds the limbs from \<open>k\<close> on hold the product with the first \<open>k\<close> limbs of \<open>x\<close>, divided by \<open>2^(64 k)\<close>.\<close>

definition mont_inv :: "Zp_Data \<Rightarrow> limbs \<Rightarrow> int \<Rightarrow> nat \<Rightarrow> limbs \<Rightarrow> bool" where
  "mont_inv zd x Y k ans \<longleftrightarrow>
     length ans = zp_t zd + k + 1 \<and> limbs_val (drop k ans) < 2 * zp_pr zd
     \<and> zp_pr zd dvd 2 ^ (64 * k) * limbs_val (drop k ans) - limbs_val (take k x) * Y"

lemma mont_inv_Suc:
  assumes inv: "P dvd 2 ^ (64 * k) * V - X * Y"
    and V: "2 ^ 64 * V' = V + d * Y + u * (P :: int)"
  shows "P dvd 2 ^ (64 * Suc k) * V' - (X + 2 ^ (64 * k) * d) * Y"
proof -
  have "2 ^ (64 * Suc k) * V' = 2 ^ (64 * k) * (2 ^ 64 * V')" by (simp add: power_add)
  then have "2 ^ (64 * Suc k) * V' - (X + 2 ^ (64 * k) * d) * Y
             = (2 ^ (64 * k) * V - X * Y) + 2 ^ (64 * k) * u * P"
    unfolding V by (simp add: algebra_simps)
  then show ?thesis using inv by (simp add: dvd_add)
qed

lemma mont_first_inv:
  assumes M: "mpn_ok M" and zd: "zp_modulus zd" "zp_mont zd"
    and y: "zp_t zd < length y" "y ! zp_t zd = 0" "limbs_val (take (zp_t zd) y) < zp_pr zd" and x: "x \<noteq> []"
  shows "mont_inv zd x (limbs_val (take (zp_t zd) y)) 1 (mont_first M zd x y)"
proof -
  define t where "t = zp_t zd"
  obtain b c where b: "mpn_mul_1 M y t (x ! 0) = (b, c)" by fastforce
  obtain d e where d: "mpn_addmul_1 M (b @ [c]) (zp_prA zd) (Suc t) (x ! 0 * y ! 0 * zp_pi zd) = (d, e)" by fastforce
  have Y: "limbs_val (take (Suc t) y) = limbs_val (take t y)" using y by (simp add: t_def limbs_val_take_Suc)
  have lb: "length (b @ [c]) = Suc t" and vb: "limbs_val (b @ [c]) = limbs_val (take t y) * uint (x ! 0)"
    using mpn_mul_1D [OF M b] y(1) by (simp_all add: t_def limbs_val_append)
  note r = mont_round [where a = "replicate (Suc t) 0" and b = "b @ [c]" and c = 0 and x = "x ! 0" and y = y,
      OF M zd _ _ _ _ _ _ , of d e]
  have ans: "mont_first M zd x y = d @ [e]" using b d by (simp add: mont_first_def t_def Let_def)
  have pos: "0 < zp_pr zd" using zd(1) by (simp add: zp_modulus_def)
  have zeros: "limbs_val (replicate (Suc t) 0) = 0" by (rule limbs_val_zeros)
  have ld: "length d = Suc t"
    and v: "2 ^ 64 * limbs_val (tl (d @ [e]))
            = 0 + uint (x ! 0) * limbs_val (take t y) + uint (x ! 0 * y ! 0 * zp_pi zd) * zp_pr zd"
    and lt: "limbs_val (tl (d @ [e])) < 2 * zp_pr zd"
    using r lb vb d y pos Y zeros unfolding t_def by (simp_all del: replicate_Suc)
  have x1: "limbs_val (take 1 x) = uint (x ! 0)" using x by (cases x) simp_all
  have "zp_pr zd dvd 2 ^ (64 * Suc 0) * limbs_val (tl (d @ [e])) - (0 + 2 ^ (64 * 0) * uint (x ! 0)) * limbs_val (take t y)"
    by (rule mont_inv_Suc [OF _ v]) simp
  then show ?thesis
    using ld lt x1 by (cases d) (simp_all add: mont_inv_def ans t_def)
qed

lemma drop_Suc_prefix: "length xs = k \<Longrightarrow> drop (Suc k) (xs @ ys) = tl ys"
  by (cases ys) simp_all

lemma mont_step_inv:
  assumes M: "mpn_ok M" and zd: "zp_modulus zd" "zp_mont zd"
    and y: "zp_t zd < length y" "y ! zp_t zd = 0" "limbs_val (take (zp_t zd) y) < zp_pr zd" and x: "k < length x"
    and inv: "mont_inv zd x (limbs_val (take (zp_t zd) y)) k ans"
  shows "mont_inv zd x (limbs_val (take (zp_t zd) y)) (Suc k) (mont_step M zd x y k ans)"
proof -
  define t where "t = zp_t zd"
  let ?a = "drop k ans" and ?u = "(ans ! k + x ! k * y ! 0) * zp_pi zd"
  obtain b c where b: "mpn_addmul_1 M ?a y (Suc t) (x ! k) = (b, c)" by fastforce
  obtain d e where d: "mpn_addmul_1 M b (zp_prA zd) (Suc t) ?u = (d, e)" by fastforce
  have Y: "limbs_val (take (Suc t) y) = limbs_val (take t y)" using y by (simp add: t_def limbs_val_take_Suc)
  have a: "length ?a = Suc t" "limbs_val ?a < 2 * zp_pr zd" "?a ! 0 = ans ! k" using inv by (simp_all add: mont_inv_def t_def)
  have lb: "length b = Suc t" and vb: "limbs_val b + 2 ^ (64 * Suc t) * uint c = limbs_val ?a + limbs_val (take (Suc t) y) * uint (x ! k)"
    using mpn_addmul_1D [OF M b] a y(1) by (simp_all add: t_def)
  note r = mont_round [where a = ?a and b = b and c = c and x = "x ! k" and y = y, OF M zd, of d e]
  have ans: "mont_step M zd x y k ans = take k ans @ d @ [c + e]" using b d by (simp add: mont_step_def t_def Let_def)
  have ld: "length d = Suc t"
    and v: "2 ^ 64 * limbs_val (tl (d @ [c + e]))
            = limbs_val ?a + uint (x ! k) * limbs_val (take t y) + uint ?u * zp_pr zd"
    and lt: "limbs_val (tl (d @ [c + e])) < 2 * zp_pr zd"
    using r lb vb d y a Y unfolding t_def by simp_all
  have lk: "length (take k ans) = k" using inv by (simp add: mont_inv_def)
  have "zp_pr zd dvd 2 ^ (64 * k) * limbs_val ?a - limbs_val (take k x) * limbs_val (take t y)"
    using inv by (simp add: mont_inv_def t_def)
  from mont_inv_Suc [OF this v]
  have "zp_pr zd dvd 2 ^ (64 * Suc k) * limbs_val (tl (d @ [c + e])) - limbs_val (take (Suc k) x) * limbs_val (take t y)"
    using x by (simp add: limbs_val_take_Suc)
  moreover have "drop (Suc k) (take k ans @ d @ [c + e]) = tl (d @ [c + e])"
    by (rule drop_Suc_prefix) (rule lk)
  ultimately show ?thesis
    using ld lt lk unfolding mont_inv_def ans t_def by simp
qed

lemma mont_fold_inv:
  assumes "mpn_ok M" and "zp_modulus zd" and "zp_mont zd"
    and "zp_t zd < length y" and "y ! zp_t zd = 0" and "limbs_val (take (zp_t zd) y) < zp_pr zd"
    and "Suc k \<le> length x"
  shows "mont_inv zd x (limbs_val (take (zp_t zd) y)) (Suc k) (fold (mont_step M zd x y) [1..<Suc k] (mont_first M zd x y))"
  using assms(7)
proof (induction k)
  case 0
  then have "x \<noteq> []" by auto
  then show ?case using mont_first_inv [OF assms(1-6), of x] by simp
next
  case (Suc k)
  then show ?case using mont_step_inv [OF assms(1-6), of "Suc k" x] by simp
qed

lemma mont_reduce_ok:
  assumes M: "mpn_ok M" and zd: "zp_modulus zd"
    and ans: "length ans = 2 * zp_t zd + 1" "limbs_val (drop (zp_t zd) ans) < 2 * zp_pr zd"
  shows "length (mont_reduce M zd ans) = zp_t zd"
    and "limbs_val (mont_reduce M zd ans)
         = (if zp_pr zd \<le> limbs_val (drop (zp_t zd) ans) then limbs_val (drop (zp_t zd) ans) - zp_pr zd
            else limbs_val (drop (zp_t zd) ans))"
proof -
  define t hi P K where "t = zp_t zd" and "hi = drop t ans" and "P = zp_pr zd" and "K = (2 :: int) ^ (64 * t)"
  have hi: "length hi = Suc t" "limbs_val hi < 2 * P" using ans by (simp_all add: hi_def t_def P_def)
  have prA: "Suc t \<le> length (zp_prA zd)" "limbs_val (take t (zp_prA zd)) = P" and P: "P < K"
    using zd zp_modulus_bound [OF zd] by (simp_all add: zp_modulus_def t_def P_def K_def)
  have cmp: "mpn_cmp M hi (zp_prA zd) (Suc t) \<ge> 0 \<longleftrightarrow> P \<le> limbs_val hi"
    using mpn_cmpD(1) [OF M, of "Suc t" hi "zp_prA zd"] hi prA zp_modulus_Suc [OF zd] by (simp add: t_def P_def)
  have split: "limbs_val hi = limbs_val (take t hi) + K * uint (hi ! t)"
    using limbs_val_take_Suc [of t hi] hi(1) by (simp add: K_def)
  have lo: "limbs_val (take t hi) < K" using limbs_val_take_bound [of t hi] hi(1) by (simp add: K_def)
  let ?r = "fst (mpn_sub_n M hi (zp_prA zd) t)" and ?c = "snd (mpn_sub_n M hi (zp_prA zd) t)"
  have r: "length ?r = t" "limbs_val ?r + P = limbs_val (take t hi) + K * uint ?c"
    using mpn_sub_nD [OF M, of t hi "zp_prA zd"] hi(1) prA by (simp_all add: K_def)
  have rK: "limbs_val ?r < K" using limbs_val_bound [of ?r] r(1) by (simp add: K_def)
  have big: "limbs_val ?r = limbs_val hi - P" if "P \<le> limbs_val hi"
  proof -
    have "limbs_val hi - P < K" using hi(2) P by simp
    then have "limbs_val hi - P = (limbs_val hi - P) mod K" using that by simp
    also have "\<dots> = limbs_val ?r mod K"
    proof -
      have "limbs_val ?r = limbs_val hi - P + K * (uint ?c - uint (hi ! t))" using r(2) split by (simp add: algebra_simps)
      then show ?thesis by simp
    qed
    finally show ?thesis using rK by simp
  qed
  have small: "limbs_val (take t hi) = limbs_val hi" if "\<not> P \<le> limbs_val hi"
  proof (cases "hi ! t = 0")
    case False
    then have "uint (hi ! t) \<noteq> 0" by (simp add: word_uint_eq_iff)
    then have "1 \<le> uint (hi ! t)" using uint_ge_0 [of "hi ! t"] by linarith
    then have "K * 1 \<le> K * uint (hi ! t)" by (intro mult_left_mono) (simp_all add: K_def)
    then show ?thesis using that split P limbs_val_nonneg [of "take t hi"] by linarith
  qed (simp add: split)
  show "length (mont_reduce M zd ans) = zp_t zd"
    using r(1) hi(1) by (simp add: mont_reduce_def t_def [symmetric] hi_def [symmetric] Let_def)
  show "limbs_val (mont_reduce M zd ans)
         = (if zp_pr zd \<le> limbs_val (drop (zp_t zd) ans) then limbs_val (drop (zp_t zd) ans) - zp_pr zd
            else limbs_val (drop (zp_t zd) ans))"
    using big small cmp unfolding mont_reduce_def by (simp add: t_def [symmetric] hi_def [symmetric] P_def [symmetric] Let_def)
qed

lemma Mont_Mult_ok:
  assumes M: "mpn_ok M" and zd: "zp_modulus zd" "zp_mont zd"
    and x: "zp_t zd < length x" "x ! zp_t zd = 0"
    and y: "zp_t zd < length y" "y ! zp_t zd = 0" "limbs_val (take (zp_t zd) y) < zp_pr zd"
  obtains r where "Mont_Mult M zd z x y = Inr (blit z 0 r)" and "length r = zp_t zd" and "limbs_val r < zp_pr zd"
    and "zp_pr zd dvd 2 ^ (64 * zp_t zd) * limbs_val r - limbs_val (take (zp_t zd) x) * limbs_val (take (zp_t zd) y)"
proof -
  let ?t = "zp_t zd" and ?Y = "limbs_val (take (zp_t zd) y)"
  define ans where "ans = fold (mont_step M zd x y) [1..<?t] (mont_first M zd x y)"
  obtain k where k: "?t = Suc k" using zd(1) by (cases "?t") (simp_all add: zp_modulus_def)
  have "mont_inv zd x ?Y (Suc k) ans"
    using mont_fold_inv [OF M zd y, of k x] x(1) unfolding ans_def k by simp
  then have inv: "mont_inv zd x ?Y ?t ans" using k by simp
  then have l: "length ans = 2 * ?t + 1" "limbs_val (drop ?t ans) < 2 * zp_pr zd"
    and dv: "zp_pr zd dvd 2 ^ (64 * ?t) * limbs_val (drop ?t ans) - limbs_val (take ?t x) * ?Y"
    by (simp_all add: mont_inv_def)
  let ?r = "mont_reduce M zd ans"
  have red: "length ?r = ?t" "limbs_val ?r = limbs_val (drop ?t ans) \<or> limbs_val ?r = limbs_val (drop ?t ans) - zp_pr zd"
    "limbs_val ?r < zp_pr zd"
    using mont_reduce_ok [OF M zd(1) l] l(2) by auto
  have "zp_pr zd dvd 2 ^ (64 * ?t) * limbs_val ?r - limbs_val (take ?t x) * ?Y"
    using red(2)
  proof
    assume "limbs_val ?r = limbs_val (drop ?t ans) - zp_pr zd"
    then have "2 ^ (64 * ?t) * limbs_val ?r - limbs_val (take ?t x) * ?Y
               = (2 ^ (64 * ?t) * limbs_val (drop ?t ans) - limbs_val (take ?t x) * ?Y) - 2 ^ (64 * ?t) * zp_pr zd"
      by (simp only: right_diff_distrib)
    then show ?thesis using dv by (simp only: dvd_diff dvd_triv_right)
  qed (use dv in simp)
  then show thesis using that [of ?r] red x(2) y(2) by (simp add: Mont_Mult_def ans_def Let_def)
qed

text \<open>Montgomery's product aborts exactly on arguments with a limb too many.\<close>

lemma Mont_Mult_abort:
  "x ! zp_t zd \<noteq> 0 \<or> y ! zp_t zd \<noteq> 0 \<Longrightarrow> Mont_Mult M zd z x y = Inl Aborted"
  by (auto simp: Mont_Mult_def require_def)

section \<open>What init establishes\<close>

text \<open>An array of a number: the limbs in the first \<open>t\<close> places, and a zero after them.\<close>

definition holds_val :: "Zp_Data \<Rightarrow> limbs \<Rightarrow> int \<Rightarrow> bool" where
  "holds_val zd x v \<longleftrightarrow> length x = MAX_MOD_SZ \<and> x ! zp_t zd = 0 \<and> limbs_val (take (zp_t zd) x) = v"

definition zp_wf :: "Zp_Data \<Rightarrow> bool" where
  "zp_wf zd \<longleftrightarrow> zp_modulus zd \<and>
     (zp_montgomery zd \<longrightarrow> zp_mont zd \<and> odd (zp_pr zd)
        \<and> holds_val zd (zp_R zd) (2 ^ (64 * zp_t zd) mod zp_pr zd)
        \<and> holds_val zd (zp_R2 zd) (2 ^ (64 * zp_t zd * 2) mod zp_pr zd)
        \<and> holds_val zd (zp_R3 zd) (2 ^ (64 * zp_t zd * 3) mod zp_pr zd))"

text \<open>\<open>init\<close> copies as many limbs of \<open>R2\<close> and \<open>R3\<close> as \<open>R\<close> has.\<close>

definition mont_sizes :: "mpir \<Rightarrow> int \<Rightarrow> bool" where
  "mont_sizes M p \<longleftrightarrow>
     (let r = 2 ^ (64 * mpz_size M p) in
      mpz_size M (r ^ 2 mod p) = mpz_size M (r mod p) \<and> mpz_size M (r ^ 3 mod p) = mpz_size M (r mod p))"

lemma mpz_limbsD:
  assumes "mpz_ok M"
  shows "limbs_val (mpz_limbs M x) = \<bar>x\<bar>" and "mpz_limbs M x \<noteq> [] \<Longrightarrow> last (mpz_limbs M x) \<noteq> 0"
  using assms unfolding mpz_ok_def by blast+

lemma mpz_size_le: "mpz_ok M \<Longrightarrow> \<bar>x\<bar> < 2 ^ (64 * n) \<Longrightarrow> mpz_size M x \<le> n"
  using mpz_limbsD [of M x] by (intro limbs_of_small) auto

lemma mpz_size_pos: "mpz_ok M \<Longrightarrow> x \<noteq> 0 \<Longrightarrow> 0 < mpz_size M x"
  using mpz_limbsD(1) [of M x] by fastforce

lemma mpz_less_pow: "mpz_ok M \<Longrightarrow> \<bar>x\<bar> < 2 ^ (64 * mpz_size M x)"
  using mpz_limbsD(1) [of M x] limbs_val_bound [of "mpz_limbs M x"] by simp

lemma copy_mpz_ok:
  assumes "mpz_ok M" and "mpz_size M x = n" and "n \<le> zp_t zd" and "zp_t zd < MAX_MOD_SZ"
  shows "\<exists>a. copy_mpz M x n = Inr a \<and> holds_val zd a \<bar>x\<bar>"
proof -
  let ?a = "blit (replicate MAX_MOD_SZ 0) 0 (mpz_limbs M x)"
  have "take (zp_t zd) ?a = mpz_limbs M x @ replicate (zp_t zd - n) 0"
    using assms(2-4) by (simp add: blit_def)
  then have "holds_val zd ?a \<bar>x\<bar>"
    using mpz_limbsD(1) [OF assms(1), of x] assms(2-4)
    by (simp add: holds_val_def nth_blit limbs_val_append)
  then show ?thesis using assms(2) by (simp add: copy_mpz_def)
qed

lemma copy_mpz_residue:
  assumes "mpz_ok M" and "0 < p" and "zp_t zd = mpz_size M p" and "zp_t zd < MAX_MOD_SZ"
  shows "\<exists>a. copy_mpz M (x mod p) (mpz_size M (x mod p)) = Inr a \<and> holds_val zd a (x mod p)"
proof -
  have "0 \<le> x mod p" "x mod p < p" using assms(2) by simp_all
  then have "\<bar>x mod p\<bar> < 2 ^ (64 * mpz_size M p)" using mpz_less_pow [OF assms(1), of p] assms(2) by linarith
  from mpz_size_le [OF assms(1) this] have "mpz_size M (x mod p) \<le> zp_t zd" by (simp add: assms(3))
  then show ?thesis using copy_mpz_ok [OF assms(1) refl _ assms(4), of "x mod p"] \<open>0 \<le> x mod p\<close> by simp
qed

lemma mont_pi:
  assumes M: "mpz_ok M" and p: "1 < p" "odd p" and t: "0 < t"
  shows "(uint (mpz_limbs M (2 ^ (64 * t) - mpz_invert M p (2 ^ (64 * t))) ! 0) * p + 1) mod 2 ^ 64 = 0"
proof -
  let ?r = "(2 :: int) ^ (64 * t)"
  define v where "v = mpz_invert M p ?r"
  have r1: "1 < ?r" using t by simp
  have dr: "(2 :: int) ^ 64 dvd ?r" using t by (intro le_imp_power_dvd) simp
  have "coprime p ?r" using p(2) by simp
  then have v: "0 < v" "v < ?r" "p * v mod ?r = 1"
    using M r1 unfolding mpz_ok_def v_def by blast+
  have "limbs_val (mpz_limbs M (?r - v)) = ?r - v" using mpz_limbsD(1) [OF M, of "?r - v"] v(2) by simp
  moreover from this have "mpz_limbs M (?r - v) \<noteq> []" using v(2) by auto
  ultimately have q: "uint (mpz_limbs M (?r - v) ! 0) = (?r - v) mod 2 ^ 64" using limbs_val_mod by metis
  have "?r dvd p * v - 1" using v(3) r1 by (metis mod_eq_dvd_iff mod_less one_mod_2_pow_eq mod_mod_trivial zero_less_one mod_pos_pos_trivial zero_le_one)
  then have "2 ^ 64 dvd p * v - 1" using dr by (rule dvd_trans [rotated])
  then have "2 ^ 64 dvd ?r * p - (p * v - 1)" using dr by (simp add: dvd_diff)
  then have "((?r - v) * p + 1) mod 2 ^ 64 = 0" by (simp add: algebra_simps mod_eq_0_iff_dvd)
  moreover have "((?r - v) mod 2 ^ 64 * p + 1) mod 2 ^ 64 = ((?r - v) * p + 1) mod 2 ^ 64"
    by (intro mod_add_cong) (simp_all add: mod_simps)
  ultimately show ?thesis using q unfolding v_def by simp
qed

lemma mont_residues:
  fixes p :: int
  shows "(r mod p) * (r mod p) mod p = r ^ 2 mod p" and "(r ^ 2 mod p) * (r mod p) mod p = r ^ 3 mod p"
  by (simp_all add: mod_simps power2_eq_square power3_eq_cube)

lemma holds_val_cong: "zp_t zd = zp_t zd' \<Longrightarrow> holds_val zd a v = holds_val zd' a v"
  by (simp add: holds_val_def)

lemma mont_constants_ok:
  assumes M: "mpz_ok M" and zd: "1 < zp_pr zd" "odd (zp_pr zd)" "zp_t zd = mpz_size M (zp_pr zd)" "zp_t zd < MAX_MOD_SZ"
    and sizes: "mont_sizes M (zp_pr zd)"
  obtains q R R2 R3 where "mont_constants M zd = Inr (zd\<lparr>zp_pi := q, zp_R := R, zp_R2 := R2, zp_R3 := R3\<rparr>)"
    and "(uint q * zp_pr zd + 1) mod 2 ^ 64 = 0"
    and "holds_val zd R (2 ^ (64 * zp_t zd) mod zp_pr zd)"
    and "holds_val zd R2 (2 ^ (64 * zp_t zd * 2) mod zp_pr zd)"
    and "holds_val zd R3 (2 ^ (64 * zp_t zd * 3) mod zp_pr zd)"
proof -
  let ?p = "zp_pr zd" and ?r = "(2 :: int) ^ (64 * zp_t zd)"
  have p0: "0 < ?p" using zd(1) by simp
  have t: "0 < zp_t zd" using mpz_size_pos [OF M, of ?p] zd(1,3) by simp
  note cp = copy_mpz_residue [OF M p0 zd(3,4)]
  obtain R where R: "copy_mpz M (?r mod ?p) (mpz_size M (?r mod ?p)) = Inr R" "holds_val zd R (?r mod ?p)"
    using cp [of ?r] by blast
  have s2: "mpz_size M (?r ^ 2 mod ?p) = mpz_size M (?r mod ?p)" and s3: "mpz_size M (?r ^ 3 mod ?p) = mpz_size M (?r mod ?p)"
    using sizes zd(3) by (simp_all add: mont_sizes_def Let_def)
  obtain R2 where R2: "copy_mpz M (?r ^ 2 mod ?p) (mpz_size M (?r mod ?p)) = Inr R2" "holds_val zd R2 (?r ^ 2 mod ?p)"
    using cp [of "?r ^ 2"] s2 by metis
  obtain R3 where R3: "copy_mpz M (?r ^ 3 mod ?p) (mpz_size M (?r mod ?p)) = Inr R3" "holds_val zd R3 (?r ^ 3 mod ?p)"
    using cp [of "?r ^ 3"] s3 by metis
  have pow: "mpz_pow_ui M 2 (zp_t zd * 8 * 8) = ?r" using M by (simp add: mpz_ok_def mult.commute)
  let ?q = "mpz_limbs M (?r - mpz_invert M ?p ?r) ! 0"
  have c: "mont_constants M zd = Inr (zd\<lparr>zp_pi := ?q, zp_R := R, zp_R2 := R2, zp_R3 := R3\<rparr>)"
    unfolding mont_constants_def pow Let_def mont_residues R(1) R2(1) R3(1) by simp
  show thesis
  proof (rule that [OF c mont_pi [OF M zd(1,2) t] R(2)])
    show "holds_val zd R2 (2 ^ (64 * zp_t zd * 2) mod ?p)" using R2(2) by (simp only: power_mult)
    show "holds_val zd R3 (2 ^ (64 * zp_t zd * 3) mod ?p)" using R3(2) by (simp only: power_mult)
  qed
qed

abbreviation init_start :: "mpir \<Rightarrow> int \<Rightarrow> bool \<Rightarrow> Zp_Data \<Rightarrow> Zp_Data" where
  "init_start M p mont zd \<equiv> zd\<lparr>zp_pr := p, zp_mask := shift_mask ((mpz_sizeinbase M p 2 - 1) mod 64),
                  zp_montgomery := mont, zp_t := mpz_size M p\<rparr>"

lemma Zp_init_modulus:
  assumes M: "mpz_ok M" and p: "1 < p" "mpz_size M p < MAX_MOD_SZ"
    and c: "(if mont then mont_constants M (init_start M p mont zd) else Inr (init_start M p mont zd)) = Inr z'"
    and z': "zp_t z' = mpz_size M p" "zp_pr z' = p"
  obtains a where "Zp_init M p mont zd = Inr (z'\<lparr>zp_prA := a\<rparr>)" and "zp_modulus (z'\<lparr>zp_prA := a\<rparr>)"
proof -
  have t: "0 < mpz_size M p" using mpz_size_pos [OF M, of p] p by simp
  obtain a where a: "copy_mpz M p (mpz_size M p) = Inr a" "holds_val z' a p"
    using copy_mpz_ok [OF M refl, of p z'] p z' by auto
  have a0: "a = blit (replicate MAX_MOD_SZ 0) 0 (mpz_limbs M p)" using a(1) by (simp add: copy_mpz_def)
  have "a ! (mpz_size M p - 1) \<noteq> 0"
    using mpz_limbsD(2) [OF M, of p] t p(2) by (simp add: a0 nth_blit last_conv_nth)
  then have m: "zp_modulus (z'\<lparr>zp_prA := a\<rparr>)"
    using a(2) p t z' by (simp add: zp_modulus_def holds_val_def)
  have s: "zp_t (init_start M p mont zd) = mpz_size M p" by simp
  have "Zp_init M p mont zd = Inr (z'\<lparr>zp_prA := a\<rparr>)"
    unfolding Zp_init_def Let_def s c using p(2) a(1) z'(1) by simp
  then show thesis using that m by blast
qed

lemma Zp_init_ok:
  assumes M: "mpz_ok M" and p: "1 < p" "mpz_size M p < MAX_MOD_SZ"
    and mont: "mont \<Longrightarrow> odd p \<and> mont_sizes M p"
  obtains zd' where "Zp_init M p mont zd = Inr zd'" and "zp_wf zd'" and "zp_pr zd' = p"
    and "zp_montgomery zd' = mont" and "zp_t zd' = mpz_size M p"
proof (cases mont)
  case False
  obtain a where "Zp_init M p mont zd = Inr ((init_start M p mont zd)\<lparr>zp_prA := a\<rparr>)"
    and "zp_modulus ((init_start M p mont zd)\<lparr>zp_prA := a\<rparr>)"
    using Zp_init_modulus [OF M p, of mont zd "init_start M p mont zd"] False by auto
  then show thesis using that False by (simp add: zp_wf_def)
next
  case True
  define z where "z = init_start M p mont zd"
  have zz: "zp_pr z = p" "zp_t z = mpz_size M p" "zp_montgomery z = mont" by (simp_all add: z_def)
  obtain q R R2 R3 where c: "mont_constants M z = Inr (z\<lparr>zp_pi := q, zp_R := R, zp_R2 := R2, zp_R3 := R3\<rparr>)"
    and q: "(uint q * p + 1) mod 2 ^ 64 = 0" "holds_val z R (2 ^ (64 * zp_t z) mod p)"
      "holds_val z R2 (2 ^ (64 * zp_t z * 2) mod p)" "holds_val z R3 (2 ^ (64 * zp_t z * 3) mod p)"
    using mont_constants_ok [OF M, of z] p mont [OF True] zz by metis
  let ?z = "z\<lparr>zp_pi := q, zp_R := R, zp_R2 := R2, zp_R3 := R3\<rparr>"
  obtain a where a: "Zp_init M p mont zd = Inr (?z\<lparr>zp_prA := a\<rparr>)" "zp_modulus (?z\<lparr>zp_prA := a\<rparr>)"
    using Zp_init_modulus [OF M p, of mont zd ?z] c zz True unfolding z_def by auto
  have "zp_wf (?z\<lparr>zp_prA := a\<rparr>)"
    using a(2) q mont [OF True] zz holds_val_cong [of z "?z\<lparr>zp_prA := a\<rparr>"]
    by (simp add: zp_wf_def zp_mont_def)
  then show thesis using that [OF a(1)] zz by simp
qed

lemma Zp_init_too_large:
  "MAX_MOD_SZ \<le> mpz_size M p \<Longrightarrow> Zp_init M p mont zd = Inl MaxModSzTooSmall"
  by (simp add: Zp_init_def require_def)

text \<open>Assignment makes the target usable as the source is, whatever it held before.\<close>

lemma holds_val_blit:
  assumes "holds_val zd a v" and "zp_t zd < MAX_MOD_SZ" and "length b = MAX_MOD_SZ" and "zp_t zd' = zp_t zd"
  shows "holds_val zd' (blit b 0 (take (zp_t zd + 1) a)) v"
proof -
  have l: "length a = MAX_MOD_SZ" using assms(1) by (simp add: holds_val_def)
  have "take (zp_t zd) (blit b 0 (take (zp_t zd + 1) a)) = take (zp_t zd) a"
    using assms(2) l by (simp add: blit_def min_def)
  then show ?thesis using assms l by (simp add: holds_val_def nth_blit)
qed

lemma Zp_assign_wf:
  assumes wf: "zp_wf zp"
    and len: "length (zp_R zd) = MAX_MOD_SZ" "length (zp_R2 zd) = MAX_MOD_SZ" "length (zp_R3 zd) = MAX_MOD_SZ" "length (zp_prA zd) = MAX_MOD_SZ"
  shows "zp_wf (Zp_assign zd zp)" and "zp_pr (Zp_assign zd zp) = zp_pr zp" and "zp_t (Zp_assign zd zp) = zp_t zp"
    and "zp_montgomery (Zp_assign zd zp) = zp_montgomery zp"
proof -
  let ?z = "Zp_assign zd zp"
  have t: "zp_t zp < MAX_MOD_SZ" "zp_modulus zp" using wf by (simp_all add: zp_wf_def zp_modulus_def)
  have st: "zp_t ?z = zp_t zp" "zp_pr ?z = zp_pr zp" "zp_montgomery ?z = zp_montgomery zp" "zp_pi ?z = zp_pi zp"
    by (simp_all add: Zp_assign_def Let_def)
  note hb = holds_val_blit [OF _ t(1) _ st(1)]
  have "holds_val ?z (zp_prA ?z) (zp_pr zp)"
    using hb [of "zp_prA zp" "zp_pr zp" "zp_prA zd"] t(2) len(4)
    by (simp add: Zp_assign_def Let_def zp_modulus_def holds_val_def [of zp])
  moreover have "zp_prA ?z ! (zp_t zp - 1) = zp_prA zp ! (zp_t zp - 1)"
    using t len(4) by (auto simp: Zp_assign_def Let_def nth_blit zp_modulus_def)
  ultimately have "zp_modulus ?z" using t(2) st by (simp add: zp_modulus_def holds_val_def)
  moreover have "holds_val ?z (zp_R ?z) v" if "holds_val zp (zp_R zp) v" for v
    using hb [OF that len(1)] by (simp add: Zp_assign_def Let_def)
  moreover have "holds_val ?z (zp_R2 ?z) v" if "holds_val zp (zp_R2 zp) v" for v
    using hb [OF that len(2)] by (simp add: Zp_assign_def Let_def)
  moreover have "holds_val ?z (zp_R3 ?z) v" if "holds_val zp (zp_R3 zp) v" for v
    using hb [OF that len(3)] by (simp add: Zp_assign_def Let_def)
  ultimately show "zp_wf ?z" using wf st by (simp add: zp_wf_def zp_mont_def)
qed (simp_all add: Zp_assign_def Let_def)

section \<open>Writing and reading\<close>

text \<open>The library reads what it wrote.\<close>

definition mpz_io_ok :: "mpir \<Rightarrow> bool" where
  "mpz_io_ok M \<longleftrightarrow> (\<forall>x. 0 \<le> x \<longrightarrow> mpz_get M (mpz_put M x) = x)"

lemma read_limbs_words:
  assumes h: "holds_val zd x v" and t: "zp_t zd < MAX_MOD_SZ" and t': "zp_t zd' = zp_t zd"
  shows "\<exists>x'. read_limbs (zp_t zd) (limb_words zd x @ ws) = Inr (x', ws) \<and> holds_val zd' x' v \<and> take (zp_t zd) x' = take (zp_t zd) x"
proof -
  let ?xs = "map (\<lambda>i. unat (x ! i)) [0..<zp_t zd]"
  have lx: "length x = MAX_MOD_SZ" using h by (simp add: holds_val_def)
  have "unat w < 2 ^ 64" for w :: u64 using unsigned_less [of w] by simp
  then have "list_all (\<lambda>m. m < 2 ^ 64) ?xs" by (simp add: list_all_iff)
  moreover have "limb_words zd x = map show_nat ?xs" by (simp add: limb_words_def comp_def)
  ultimately have r: "read_u64s (zp_t zd) (limb_words zd x @ ws) = Inr (?xs, ws)"
    using read_u64s_show [of ?xs ws] by simp
  have w: "map word_of_nat ?xs = take (zp_t zd) x" using lx t by (intro nth_equalityI) simp_all
  let ?x' = "blit (replicate MAX_MOD_SZ 0) 0 (take (zp_t zd) x)"
  have tk: "take (zp_t zd) ?x' = take (zp_t zd) x" using lx t by (simp add: blit_def)
  have "holds_val zd' ?x' v" using h lx t t' tk by (simp add: holds_val_def nth_blit)
  then show ?thesis using r w tk by (simp add: read_limbs_def)
qed

text \<open>In Montgomery representation everything but the mask comes back.\<close>

lemma Zp_read_write:
  assumes io: "mpz_io_ok M" and wf: "zp_wf zd" "zp_montgomery zd"
  shows "\<exists>zd'. Zp_read M old (Zp_write M zd @ ws) = Inr (zd', ws) \<and> zp_wf zd' \<and> zp_pr zd' = zp_pr zd
           \<and> zp_t zd' = zp_t zd \<and> zp_montgomery zd' \<and> zp_mask zd' = zp_mask old"
proof -
  have m: "zp_modulus zd" "zp_t zd < MAX_MOD_SZ" "0 \<le> zp_pr zd"
    using wf by (simp_all add: zp_wf_def zp_modulus_def)
  have hs: "holds_val zd (zp_R zd) (2 ^ (64 * zp_t zd) mod zp_pr zd)" "holds_val zd (zp_R2 zd) (2 ^ (64 * zp_t zd * 2) mod zp_pr zd)"
    "holds_val zd (zp_R3 zd) (2 ^ (64 * zp_t zd * 3) mod zp_pr zd)" "holds_val zd (zp_prA zd) (zp_pr zd)"
    using wf by (simp_all add: zp_wf_def zp_modulus_def holds_val_def [of zd "zp_prA zd"])
  note rd = read_limbs_words [OF _ m(2) refl]
  obtain R where R: "read_limbs (zp_t zd) (limb_words zd (zp_R zd) @ limb_words zd (zp_R2 zd) @ limb_words zd (zp_R3 zd) @ limb_words zd (zp_prA zd) @ ws)
      = Inr (R, limb_words zd (zp_R2 zd) @ limb_words zd (zp_R3 zd) @ limb_words zd (zp_prA zd) @ ws)" "holds_val zd R (2 ^ (64 * zp_t zd) mod zp_pr zd)"
    using rd [OF hs(1)] by metis
  obtain R2 where R2: "read_limbs (zp_t zd) (limb_words zd (zp_R2 zd) @ limb_words zd (zp_R3 zd) @ limb_words zd (zp_prA zd) @ ws)
      = Inr (R2, limb_words zd (zp_R3 zd) @ limb_words zd (zp_prA zd) @ ws)" "holds_val zd R2 (2 ^ (64 * zp_t zd * 2) mod zp_pr zd)"
    using rd [OF hs(2)] by metis
  obtain R3 where R3: "read_limbs (zp_t zd) (limb_words zd (zp_R3 zd) @ limb_words zd (zp_prA zd) @ ws)
      = Inr (R3, limb_words zd (zp_prA zd) @ ws)" "holds_val zd R3 (2 ^ (64 * zp_t zd * 3) mod zp_pr zd)"
    using rd [OF hs(3)] by metis
  obtain a where a: "read_limbs (zp_t zd) (limb_words zd (zp_prA zd) @ ws) = Inr (a, ws)" "holds_val zd a (zp_pr zd)"
    "take (zp_t zd) a = take (zp_t zd) (zp_prA zd)"
    using rd [OF hs(4)] by metis
  have t: "zp_t zd < 2 ^ 31" "zp_t zd < 2 ^ 64" using m(2) by (simp_all add: MAX_MOD_SZ_def)
  have q: "unat (zp_pi zd) < 2 ^ 64" using unsigned_less [of "zp_pi zd"] by simp
  let ?z = "old\<lparr>zp_pr := zp_pr zd, zp_montgomery := True, zp_t := zp_t zd, zp_pi := zp_pi zd, zp_R := R, zp_R2 := R2, zp_R3 := R3, zp_prA := a\<rparr>"
  have "mpz_get M (mpz_put M (zp_pr zd)) = zp_pr zd" using io m(3) by (simp add: mpz_io_ok_def)
  then have run: "Zp_read M old (Zp_write M zd @ ws) = Inr (?z, ws)"
    using wf(2) t q m(2) R(1) R2(1) R3(1) a(1) by (simp add: Zp_read_def Zp_write_def read_word_def)
  have "a ! (zp_t zd - 1) = zp_prA zd ! (zp_t zd - 1)"
    using m(1) arg_cong [OF a(3), of "\<lambda>l. l ! (zp_t zd - 1)"] by (simp add: zp_modulus_def)
  then have "zp_modulus ?z" using m(1) a(2) by (simp add: zp_modulus_def holds_val_def)
  then have "zp_wf ?z"
    using wf R(2) R2(2) R3(2) holds_val_cong [of zd ?z] by (simp add: zp_wf_def zp_mont_def)
  then show ?thesis using run by simp
qed

text \<open>Without it only the number comes back: size and limbs of the modulus are those of the old object.\<close>

lemma Zp_read_plain:
  assumes "mpz_io_ok M" and "0 \<le> zp_pr zd" and "\<not> zp_montgomery zd"
  shows "Zp_read M old (Zp_write M zd @ ws) = Inr (old\<lparr>zp_pr := zp_pr zd, zp_montgomery := False\<rparr>, ws)"
  using assms by (simp add: Zp_read_def Zp_write_def read_word_def mpz_io_ok_def)

end
