(* ===== verification/BDX_Modp.thy ===== *)
theory BDX_Modp
  imports BDX_Zp
begin

text \<open>
  \<open>OT/Math/modp.{h,cpp}\<close>: numbers modulo \<open>p\<close>, plain or in Montgomery representation. A \<open>modp\<close> is its array of
  \<open>MAX_MOD_SZ\<close> limbs. An operation takes the array of its output too: limbs it does not write keep their value.
\<close>

type_synonym modp = limbs

section \<open>Operations\<close>

definition modp_new :: modp where
  "modp_new = replicate MAX_MOD_SZ 0"

definition limb_bytes :: "u64 \<Rightarrow> u8 list" where
  "limb_bytes w = map (\<lambda>i. ucast (drop_bit (8 * i) w)) [0..<8]"

definition bytes_limb :: "u8 list \<Rightarrow> u64" where
  "bytes_limb b = foldr (\<lambda>x acc. ucast x OR push_bit 8 acc) b 0"

definition modp_pack :: "modp \<Rightarrow> Zp_Data \<Rightarrow> bytestream \<Rightarrow> bytestream" where
  "modp_pack x zd s = bs_append s (concat (map limb_bytes (take (zp_t zd) x)))"

definition modp_unpack :: "modp \<Rightarrow> Zp_Data \<Rightarrow> bytestream \<Rightarrow> (modp \<times> bytestream) result" where
  "modp_unpack x zd s =
     bind_r (bs_consume s (zp_t zd * 8)) (\<lambda>(bytes, s).
     bind_r (require (None \<notin> set bytes) UndefinedBehaviour) (\<lambda>_.
       let b = map the bytes
       in Inr (blit x 0 (map (\<lambda>i. bytes_limb (take 8 (drop (8 * i) b))) [0..<zp_t zd]), s)))"

definition modp_Add :: "mpir \<Rightarrow> modp \<Rightarrow> modp \<Rightarrow> modp \<Rightarrow> Zp_Data \<Rightarrow> modp" where
  "modp_Add M ans x y zd =
     (let t = zp_t zd;
          (s, carry) = mpn_add_n M x y t;
          ans = blit ans 0 s
      in if carry \<noteq> 0 \<or> mpn_cmp M ans (zp_prA zd) t \<ge> 0
         then blit ans 0 (fst (mpn_sub_n M ans (zp_prA zd) t)) else ans)"

definition modp_Sub :: "mpir \<Rightarrow> modp \<Rightarrow> modp \<Rightarrow> modp \<Rightarrow> Zp_Data \<Rightarrow> modp" where
  "modp_Sub M ans x y zd =
     (let t = zp_t zd;
          (d, borrow) = mpn_sub_n M x y t;
          ans = blit ans 0 d
      in if borrow \<noteq> 0 then blit ans 0 (fst (mpn_add_n M ans (zp_prA zd) t)) else ans)"

definition modp_isZero :: "modp \<Rightarrow> Zp_Data \<Rightarrow> bool" where
  "modp_isZero ans zd = list_all (\<lambda>i. ans ! i = 0) [0..<zp_t zd]"

definition modp_Negate :: "mpir \<Rightarrow> modp \<Rightarrow> modp \<Rightarrow> Zp_Data \<Rightarrow> modp" where
  "modp_Negate M ans x zd =
     (if modp_isZero x zd then x else blit ans 0 (fst (mpn_sub_n M (zp_prA zd) x (zp_t zd))))"

definition modp_assignZero :: "modp \<Rightarrow> Zp_Data \<Rightarrow> modp" where
  "modp_assignZero x zd = blit x 0 (replicate (zp_t zd + 1) 0)"

definition modp_areEqual :: "mpir \<Rightarrow> modp \<Rightarrow> modp \<Rightarrow> Zp_Data \<Rightarrow> bool" where
  "modp_areEqual M x y zd = (if mpn_cmp M x y (zp_t zd) \<noteq> 0 then False else True)"

definition modp_assignOne :: "modp \<Rightarrow> Zp_Data \<Rightarrow> modp" where
  "modp_assignOne x zd =
     (if zp_montgomery zd then blit x 0 (take (zp_t zd + 1) (zp_R zd)) else (modp_assignZero x zd)[0 := 1])"

definition modp_isOne :: "mpir \<Rightarrow> modp \<Rightarrow> Zp_Data \<Rightarrow> bool" where
  "modp_isOne M x zd =
     (if zp_montgomery zd then (if mpn_cmp M x (zp_R zd) (zp_t zd) \<noteq> 0 then False else True)
      else if x ! 0 \<noteq> 1 then False
      else list_all (\<lambda>i. x ! i = 0) [1..<zp_t zd])"

text \<open>\<open>to_bigint\<close>: leading zero limbs are dropped when \<open>reduce\<close> is set. Without it a number whose top limb is zero is
  not a normal number of the library, and what the library does with it is not defined.\<close>

fun reduce_size :: "limbs \<Rightarrow> nat \<Rightarrow> nat" where
  "reduce_size a 0 = 0"
| "reduce_size a (Suc n) = (if a ! n = 0 then reduce_size a n else Suc n)"

definition to_bigint :: "mpir \<Rightarrow> modp \<Rightarrow> Zp_Data \<Rightarrow> bool \<Rightarrow> int result" where
  "to_bigint M x zd reduce =
     (let t = zp_t zd; a = replicate MAX_MOD_SZ 0; one = (replicate MAX_MOD_SZ 0)[0 := 1]
      in bind_r (if zp_montgomery zd then Mont_Mult M zd a x one else Inr (blit a 0 (take (t + 1) x))) (\<lambda>a.
         if \<not> reduce \<and> 0 < t \<and> a ! (t - 1) = 0 then Inl UndefinedBehaviour
         else Inr (limbs_val (take (if reduce then reduce_size a t else t) a))))"

text \<open>The remainder of \<open>bigint\<close> has the sign of the dividend.\<close>

definition bigint_rem :: "int \<Rightarrow> int \<Rightarrow> int" where
  "bigint_rem a b = sgn a * (\<bar>a\<bar> mod \<bar>b\<bar>)"

definition to_modp_big :: "mpir \<Rightarrow> modp \<Rightarrow> int \<Rightarrow> Zp_Data \<Rightarrow> modp result" where
  "to_modp_big M ans x zd =
     (let xx = bigint_rem x (zp_pr zd);
          xx = (if xx < 0 then xx + zp_pr zd else xx);
          ans = blit ans 0 (replicate (zp_t zd + 1) 0);
          ans = blit ans 0 (mpz_limbs M xx)
      in if zp_montgomery zd then Mont_Mult M zd ans ans (zp_R2 zd) else Inr ans)"

text \<open>An \<open>int\<close> has 32 bits; with one limb a negative one is added to \<open>p\<close> in unsigned 64-bit arithmetic.\<close>

definition to_modp_int :: "mpir \<Rightarrow> modp \<Rightarrow> int \<Rightarrow> Zp_Data \<Rightarrow> modp result" where
  "to_modp_int M ans x zd =
     (let ans = blit ans 0 (replicate (zp_t zd + 1) 0);
          finish = (\<lambda>ans. if zp_montgomery zd then Mont_Mult M zd ans ans (zp_R2 zd) else Inr ans)
      in if x \<ge> 0
         then finish (ans[0 := (if zp_t zd = 1 then word_of_int x mod zp_prA zd ! 0 else word_of_int x)])
         else if zp_t zd = 1
         then finish (ans[0 := (zp_prA zd ! 0 + word_of_int x) mod zp_prA zd ! 0])
         else to_modp_big M ans (zp_pr zd + x) zd)"

definition modp_Mul :: "mpir \<Rightarrow> modp \<Rightarrow> modp \<Rightarrow> modp \<Rightarrow> Zp_Data \<Rightarrow> modp result" where
  "modp_Mul M ans x y zd =
     (let t = zp_t zd
      in if zp_montgomery zd then Mont_Mult M zd ans x y
         else Inr (blit ans 0 (snd (mpn_tdiv_qr M (mpn_mul_n M x y t) (2 * t) (zp_prA zd) t))))"

definition modp_Sqr :: "mpir \<Rightarrow> modp \<Rightarrow> modp \<Rightarrow> Zp_Data \<Rightarrow> modp result" where
  "modp_Sqr M ans x zd =
     (let t = zp_t zd
      in if zp_montgomery zd then Mont_Mult M zd ans x x
         else Inr (blit ans 0 (snd (mpn_tdiv_qr M (mpn_sqr M x t) (2 * t) (zp_prA zd) t))))"

definition modp_Inv :: "mpir \<Rightarrow> modp \<Rightarrow> modp \<Rightarrow> Zp_Data \<Rightarrow> modp result" where
  "modp_Inv M ans x zd =
     (let t = zp_t zd;
          (s, sz) = mpn_gcdext M (take t x) t (take t (zp_prA zd)) t;
          ans = blit ans 0 s;
          ans = (if sz < 0 then blit ans 0 (fst (mpn_sub M (zp_prA zd) t ans (nat (- sz))))
                 else blit ans (nat sz) (replicate (t - nat sz) 0))
      in if zp_montgomery zd then Mont_Mult M zd ans ans (zp_R3 zd) else Inr ans)"

text \<open>Both \<open>Power\<close> functions are the same loop, on an \<open>int\<close> and on a \<open>bigint\<close>.\<close>

fun power_loop :: "mpir \<Rightarrow> Zp_Data \<Rightarrow> nat \<Rightarrow> modp \<Rightarrow> modp \<Rightarrow> modp result" where
  "power_loop M zd e ans t =
     (if e = 0 then Inr ans
      else bind_r (if odd e then modp_Mul M ans ans t zd else Inr ans) (\<lambda>ans.
           bind_r (modp_Sqr M t t zd) (\<lambda>t. power_loop M zd (e div 2) ans t)))"

declare power_loop.simps [simp del]

definition modp_Power :: "mpir \<Rightarrow> modp \<Rightarrow> modp \<Rightarrow> int \<Rightarrow> Zp_Data \<Rightarrow> modp result" where
  "modp_Power M ans x e zd =
     (if e = 1 then Inr x
      else if e = 0 then Inr (modp_assignOne ans zd)
      else if e < 0 then Inl NotImplemented
      else power_loop M zd (nat e) (modp_assignOne ans zd) x)"

section \<open>Numbers that arrays stand for\<close>

definition room :: "Zp_Data \<Rightarrow> modp \<Rightarrow> bool" where
  "room zd x \<longleftrightarrow> length x = MAX_MOD_SZ \<and> x ! zp_t zd = 0"

definition mont_form :: "Zp_Data \<Rightarrow> int \<Rightarrow> int" where
  "mont_form zd a = (if zp_montgomery zd then a * 2 ^ (64 * zp_t zd) mod zp_pr zd else a)"

definition modp_rep :: "Zp_Data \<Rightarrow> modp \<Rightarrow> int \<Rightarrow> bool" where
  "modp_rep zd x a \<longleftrightarrow> 0 \<le> a \<and> a < zp_pr zd \<and> holds_val zd x (mont_form zd a)"

lemma modp_new_room: "zp_t zd < MAX_MOD_SZ \<Longrightarrow> room zd modp_new"
  by (simp add: room_def modp_new_def)

lemma modp_rep_room: "modp_rep zd x a \<Longrightarrow> room zd x"
  by (simp add: modp_rep_def holds_val_def room_def)

lemma zp_wfD:
  assumes "zp_wf zd"
  shows "zp_modulus zd" "0 < zp_t zd" "zp_t zd < MAX_MOD_SZ" "1 < zp_pr zd" "zp_pr zd < 2 ^ (64 * zp_t zd)"
    "length (zp_prA zd) = MAX_MOD_SZ" "limbs_val (take (zp_t zd) (zp_prA zd)) = zp_pr zd"
    "zp_prA zd ! (zp_t zd - 1) \<noteq> 0"
  using assms zp_modulus_bound [of zd] by (simp_all add: zp_wf_def zp_modulus_def)

lemma zp_wf_montD:
  assumes "zp_wf zd" and "zp_montgomery zd"
  shows "zp_mont zd" "odd (zp_pr zd)" "holds_val zd (zp_R zd) (2 ^ (64 * zp_t zd) mod zp_pr zd)"
    "holds_val zd (zp_R2 zd) (2 ^ (64 * zp_t zd * 2) mod zp_pr zd)"
    "holds_val zd (zp_R3 zd) (2 ^ (64 * zp_t zd * 3) mod zp_pr zd)"
  using assms by (simp_all add: zp_wf_def)

lemma mont_form_range: "zp_wf zd \<Longrightarrow> 0 \<le> a \<Longrightarrow> a < zp_pr zd \<Longrightarrow> 0 \<le> mont_form zd a \<and> mont_form zd a < zp_pr zd"
  using zp_wfD(4) [of zd] by (simp add: mont_form_def)

lemma modp_repD:
  assumes "zp_wf zd" and "modp_rep zd x a"
  shows "length x = MAX_MOD_SZ" "x ! zp_t zd = 0" "limbs_val (take (zp_t zd) x) = mont_form zd a"
    "0 \<le> mont_form zd a" "mont_form zd a < zp_pr zd" "0 \<le> a" "a < zp_pr zd"
  using assms mont_form_range by (auto simp: modp_rep_def holds_val_def)

lemma limbs_val_eqI:
  assumes "length r = t" and "2 ^ (64 * t) dvd limbs_val r - v" and "0 \<le> v" and "v < 2 ^ (64 * t)"
  shows "limbs_val r = v"
proof -
  have "limbs_val r mod 2 ^ (64 * t) = v mod 2 ^ (64 * t)" using assms(2) by (simp add: mod_eq_dvd_iff)
  then show ?thesis using assms limbs_val_bound [of r] by simp
qed

lemma take_blit0: "length r = t \<Longrightarrow> t \<le> length z \<Longrightarrow> take t (blit z 0 r) = r"
  by (simp add: blit_def)

lemma blit0_blit0: "length r = length s \<Longrightarrow> blit (blit z 0 r) 0 s = blit z 0 s"
  by (simp add: blit_def)

lemma holds_val_result:
  assumes "room zd z" and "zp_t zd < MAX_MOD_SZ" and "length r = zp_t zd" and "limbs_val r = v"
  shows "holds_val zd (blit z 0 r) v"
  using assms by (simp add: holds_val_def room_def take_blit0 nth_blit)

text \<open>Two numbers below \<open>p\<close> that agree modulo \<open>p\<close> have the same form.\<close>

lemma mont_form_mod: "zp_montgomery zd \<Longrightarrow> mont_form zd (a mod zp_pr zd) = a * 2 ^ (64 * zp_t zd) mod zp_pr zd"
  by (simp add: mont_form_def mod_simps)

lemma mont_form_add: "(mont_form zd a + mont_form zd b) mod zp_pr zd = mont_form zd ((a + b) mod zp_pr zd)"
  by (simp add: mont_form_def mod_simps distrib_right)

lemma mont_form_diff: "(mont_form zd a - mont_form zd b) mod zp_pr zd = mont_form zd ((a - b) mod zp_pr zd)"
  by (simp add: mont_form_def mod_simps left_diff_distrib)

lemma mont_form_0 [simp]: "mont_form zd 0 = 0"
  by (simp add: mont_form_def)

lemma mont_form_inj:
  assumes wf: "zp_wf zd" and "0 \<le> a" "a < zp_pr zd" "0 \<le> b" "b < zp_pr zd" and eq: "mont_form zd a = mont_form zd b"
  shows "a = b"
proof (cases "zp_montgomery zd")
  case True
  have "coprime (zp_pr zd) (2 ^ (64 * zp_t zd))" using zp_wf_montD(2) [OF wf True] by simp
  moreover have "zp_pr zd dvd (a - b) * 2 ^ (64 * zp_t zd)"
    using eq True by (simp add: mont_form_def mod_eq_dvd_iff left_diff_distrib)
  ultimately have "zp_pr zd dvd a - b" using coprime_dvd_mult_left_iff by blast
  then have "a mod zp_pr zd = b mod zp_pr zd" by (simp add: mod_eq_dvd_iff)
  then show ?thesis using assms by simp
qed (use eq in \<open>simp add: mont_form_def\<close>)

section \<open>Addition, subtraction, negation\<close>

lemma modp_Add_ok:
  assumes M: "mpn_ok M" and wf: "zp_wf zd" and x: "modp_rep zd x a" and y: "modp_rep zd y b" and ans: "room zd ans"
  shows "modp_rep zd (modp_Add M ans x y zd) ((a + b) mod zp_pr zd)"
proof -
  define t P K X Y where "t = zp_t zd" and "P = zp_pr zd" and "K = (2 :: int) ^ (64 * t)"
    and "X = mont_form zd a" and "Y = mont_form zd b"
  note d = zp_wfD [OF wf] and X = modp_repD [OF wf x] and Y = modp_repD [OF wf y]
  obtain s c where sc: "mpn_add_n M x y t = (s, c)" by fastforce
  have s: "length s = t" "limbs_val s + K * uint c = X + Y"
    using mpn_add_nD [OF M, of t x y] sc X Y d(3) by (simp_all add: t_def K_def X_def Y_def)
  have sK: "limbs_val s < K" using limbs_val_bound [of s] s(1) by (simp add: K_def)
  have tk: "take t (blit ans 0 s) = s" using ans d(3) s(1) by (simp add: take_blit0 room_def t_def)
  have la: "length (blit ans 0 s) = MAX_MOD_SZ" using ans d(3) s(1) by (simp add: room_def t_def)
  have cmp: "mpn_cmp M (blit ans 0 s) (zp_prA zd) t \<ge> 0 \<longleftrightarrow> P \<le> limbs_val s"
    using mpn_cmpD(1) [OF M, of t "blit ans 0 s" "zp_prA zd"] la d tk by (simp add: t_def P_def)
  let ?r = "fst (mpn_sub_n M (blit ans 0 s) (zp_prA zd) t)"
  have r: "length ?r = t" "limbs_val ?r + P = limbs_val s + K * uint (snd (mpn_sub_n M (blit ans 0 s) (zp_prA zd) t))"
    using mpn_sub_nD [OF M, of t "blit ans 0 s" "zp_prA zd"] la d tk by (simp_all add: t_def P_def K_def)
  have "holds_val zd (modp_Add M ans x y zd) ((X + Y) mod P)"
  proof (cases "c \<noteq> 0 \<or> P \<le> limbs_val s")
    case True
    have "P \<le> X + Y"
    proof (cases "c = 0")
      case False
      then have "uint c \<noteq> 0" by (simp add: word_uint_eq_iff)
      then have "1 \<le> uint c" using uint_ge_0 [of c] by linarith
      then have "K * 1 \<le> K * uint c" by (intro mult_left_mono) (simp_all add: K_def)
      then show ?thesis using s(2) d(5) [folded t_def P_def, folded K_def] limbs_val_nonneg [of s] by linarith
    qed (use True s in simp)
    moreover have lt: "X + Y - P < P"
      using X(5) [folded X_def P_def] Y(5) [folded Y_def P_def] by linarith
    ultimately have "(X + Y) mod P = X + Y - P"
      using mod_pos_pos_trivial [of "X + Y - P" P] by (simp add: mod_diff_right_eq [symmetric])
    moreover have "limbs_val ?r = X + Y - P"
    proof (rule limbs_val_eqI [OF r(1)])
      have "limbs_val ?r - (X + Y - P) = K * (uint (snd (mpn_sub_n M (blit ans 0 s) (zp_prA zd) t)) - uint c)"
        using r(2) s(2) by (simp add: algebra_simps)
      then show "2 ^ (64 * t) dvd limbs_val ?r - (X + Y - P)" by (simp add: K_def)
    qed (use \<open>P \<le> X + Y\<close> lt d(5) in \<open>simp_all add: P_def t_def\<close>)
    moreover have "modp_Add M ans x y zd = blit ans 0 ?r"
      using True cmp sc r(1) s(1) by (simp add: modp_Add_def t_def Let_def blit0_blit0)
    ultimately show ?thesis using holds_val_result [OF ans d(3)] r(1) by (simp add: t_def)
  next
    case False
    then have e: "limbs_val s = X + Y" using s(2) by simp
    then have v: "limbs_val s = (X + Y) mod P"
      using False mod_pos_pos_trivial [of "X + Y" P] limbs_val_nonneg [of s] by simp
    have "modp_Add M ans x y zd = blit ans 0 s"
      using False cmp sc by (simp add: modp_Add_def t_def Let_def)
    then show ?thesis using holds_val_result [OF ans d(3) _ v] s(1) by (simp add: t_def)
  qed
  then show ?thesis using d(4) by (simp add: modp_rep_def X_def Y_def P_def mont_form_add)
qed

lemma modp_Sub_ok:
  assumes M: "mpn_ok M" and wf: "zp_wf zd" and x: "modp_rep zd x a" and y: "modp_rep zd y b" and ans: "room zd ans"
  shows "modp_rep zd (modp_Sub M ans x y zd) ((a - b) mod zp_pr zd)"
proof -
  define t P K X Y where "t = zp_t zd" and "P = zp_pr zd" and "K = (2 :: int) ^ (64 * t)"
    and "X = mont_form zd a" and "Y = mont_form zd b"
  note d = zp_wfD [OF wf] and X = modp_repD [OF wf x] and Y = modp_repD [OF wf y]
  obtain s c where sc: "mpn_sub_n M x y t = (s, c)" by fastforce
  have s: "length s = t" "limbs_val s + Y = X + K * uint c"
    using mpn_sub_nD [OF M, of t x y] sc X Y d(3) by (simp_all add: t_def K_def X_def Y_def)
  have sK: "limbs_val s < K" using limbs_val_bound [of s] s(1) by (simp add: K_def)
  have tk: "take t (blit ans 0 s) = s" using ans d(3) s(1) by (simp add: take_blit0 room_def t_def)
  have la: "length (blit ans 0 s) = MAX_MOD_SZ" using ans d(3) s(1) by (simp add: room_def t_def)
  let ?r = "fst (mpn_add_n M (blit ans 0 s) (zp_prA zd) t)"
  have r: "length ?r = t" "limbs_val ?r + K * uint (snd (mpn_add_n M (blit ans 0 s) (zp_prA zd) t)) = limbs_val s + P"
    using mpn_add_nD [OF M, of t "blit ans 0 s" "zp_prA zd"] la d tk by (simp_all add: t_def P_def K_def)
  have "holds_val zd (modp_Sub M ans x y zd) ((X - Y) mod P)"
  proof (cases "c = 0")
    case False
    then have "uint c \<noteq> 0" by (simp add: word_uint_eq_iff)
    then have "1 \<le> uint c" using uint_ge_0 [of c] by linarith
    then have "K * 1 \<le> K * uint c" by (intro mult_left_mono) (simp_all add: K_def)
    then have neg: "X - Y < 0" using s(2) sK by linarith
    have "(X - Y) mod P = (X - Y + P) mod P" by simp
    also have "\<dots> = X - Y + P" using neg X(4,5) Y(4,5) by (intro mod_pos_pos_trivial) (simp_all add: X_def Y_def P_def)
    finally have "(X - Y) mod P = X - Y + P" .
    moreover have "limbs_val ?r = X - Y + P"
    proof (rule limbs_val_eqI [OF r(1)])
      have "limbs_val ?r - (X - Y + P) = K * (uint c - uint (snd (mpn_add_n M (blit ans 0 s) (zp_prA zd) t)))"
        using r(2) s(2) by (simp add: algebra_simps)
      then show "2 ^ (64 * t) dvd limbs_val ?r - (X - Y + P)" by (simp add: K_def)
    qed (use neg X(4,5) Y(4,5) d(5) in \<open>simp_all add: P_def t_def X_def Y_def\<close>)
    moreover have "modp_Sub M ans x y zd = blit ans 0 ?r"
      using False sc r(1) s(1) by (simp add: modp_Sub_def t_def Let_def blit0_blit0)
    ultimately show ?thesis using holds_val_result [OF ans d(3)] r(1) by (simp add: t_def)
  next
    case True
    then have e: "limbs_val s = X - Y" using s(2) by simp
    then have "0 \<le> X - Y" "X - Y < P"
      using limbs_val_nonneg [of s] X(5) [folded X_def P_def] Y(4) [folded Y_def] by linarith+
    then have v: "limbs_val s = (X - Y) mod P" using e by simp
    have "modp_Sub M ans x y zd = blit ans 0 s"
      using True sc by (simp add: modp_Sub_def t_def Let_def)
    then show ?thesis using holds_val_result [OF ans d(3) _ v] s(1) by (simp add: t_def)
  qed
  then show ?thesis using d(4) by (simp add: modp_rep_def X_def Y_def P_def mont_form_diff)
qed

lemma take_eq_val: "t \<le> length x \<Longrightarrow> length r = t \<Longrightarrow> take t x = r \<longleftrightarrow> limbs_val (take t x) = limbs_val r"
  using limbs_val_inj [of "take t x" r] by auto

lemma list_all_zero: "t \<le> length x \<Longrightarrow> list_all (\<lambda>i. x ! i = 0) [0..<t] \<longleftrightarrow> take t x = replicate t (0 :: u64)"
  by (auto simp: list_all_iff list_eq_iff_nth_eq)

lemma limbs_val_one: "0 < n \<Longrightarrow> limbs_val ((replicate n 0)[0 := 1]) = 1"
  by (cases n) simp_all

lemma modp_isZero_ok:
  assumes wf: "zp_wf zd" and x: "modp_rep zd x a"
  shows "modp_isZero x zd \<longleftrightarrow> a = 0"
proof -
  note d = zp_wfD [OF wf] and X = modp_repD [OF wf x]
  have "modp_isZero x zd \<longleftrightarrow> take (zp_t zd) x = replicate (zp_t zd) 0"
    using list_all_zero [of "zp_t zd" x] X(1) d(3) by (simp add: modp_isZero_def)
  also have "\<dots> \<longleftrightarrow> mont_form zd a = 0"
    using take_eq_val [of "zp_t zd" x "replicate (zp_t zd) 0"] X(1,3) d(3) by simp
  also have "\<dots> \<longleftrightarrow> a = 0" using mont_form_inj [OF wf X(6,7), of 0] d(4) by auto
  finally show ?thesis .
qed

lemma modp_areEqual_ok:
  assumes M: "mpn_ok M" and wf: "zp_wf zd" and x: "modp_rep zd x a" and y: "modp_rep zd y b"
  shows "modp_areEqual M x y zd \<longleftrightarrow> a = b"
proof -
  note d = zp_wfD [OF wf] and X = modp_repD [OF wf x] and Y = modp_repD [OF wf y]
  have "modp_areEqual M x y zd \<longleftrightarrow> take (zp_t zd) x = take (zp_t zd) y"
    using mpn_cmpD(2) [OF M, of "zp_t zd" x y] X(1) Y(1) d(3) by (simp add: modp_areEqual_def)
  also have "\<dots> \<longleftrightarrow> mont_form zd a = mont_form zd b"
    using take_eq_val [of "zp_t zd" x "take (zp_t zd) y"] X(1,3) Y(1,3) d(3) by simp
  also have "\<dots> \<longleftrightarrow> a = b" using mont_form_inj [OF wf X(6,7) Y(6,7)] by auto
  finally show ?thesis .
qed

lemma modp_Negate_ok:
  assumes M: "mpn_ok M" and wf: "zp_wf zd" and x: "modp_rep zd x a" and ans: "room zd ans"
  shows "modp_rep zd (modp_Negate M ans x zd) ((- a) mod zp_pr zd)"
proof (cases "a = 0")
  case True
  then show ?thesis using x modp_isZero_ok [OF wf x] by (simp add: modp_Negate_def)
next
  case False
  define t P X where "t = zp_t zd" and "P = zp_pr zd" and "X = mont_form zd a"
  note d = zp_wfD [OF wf] and X = modp_repD [OF wf x, folded X_def]
  let ?r = "fst (mpn_sub_n M (zp_prA zd) x t)" and ?c = "snd (mpn_sub_n M (zp_prA zd) x t)"
  have r: "length ?r = t" "limbs_val ?r + X = P + 2 ^ (64 * t) * uint ?c"
    using mpn_sub_nD [OF M, of t "zp_prA zd" x] X d by (simp_all add: t_def P_def)
  have "X \<noteq> 0" using mont_form_inj [OF wf X(6,7), of 0] False d(4) X_def by auto
  then have v: "(- X) mod P = P - X" and "0 \<le> P - X" "P - X < 2 ^ (64 * t)"
    using X(4,5) d(5) by (simp_all add: P_def t_def zmod_zminus1_eq_if)
  then have "limbs_val ?r = (- X) mod P"
    using limbs_val_eqI [OF r(1), of "P - X"] r(2) by (simp add: algebra_simps)
  then have "holds_val zd (modp_Negate M ans x zd) ((- X) mod P)"
    using holds_val_result [OF ans d(3)] r(1) False modp_isZero_ok [OF wf x] by (simp add: modp_Negate_def t_def)
  moreover have "(- X) mod P = mont_form zd ((- a) mod P)"
    using mont_form_diff [of zd 0 a] by (simp add: X_def P_def)
  ultimately show ?thesis using d(4) by (simp add: modp_rep_def P_def)
qed

section \<open>Zero and one\<close>

lemma modp_assignZero_ok:
  assumes wf: "zp_wf zd" and x: "length x = MAX_MOD_SZ"
  shows "modp_rep zd (modp_assignZero x zd) 0"
proof -
  note d = zp_wfD [OF wf]
  have "take (zp_t zd) (modp_assignZero x zd) = replicate (zp_t zd) 0"
    using d(3) x by (simp add: modp_assignZero_def blit_def min_def del: replicate_Suc)
  then show ?thesis using d x by (simp add: modp_rep_def holds_val_def) (simp add: modp_assignZero_def nth_blit)
qed

lemma modp_assignOne_ok:
  assumes wf: "zp_wf zd" and x: "length x = MAX_MOD_SZ"
  shows "modp_rep zd (modp_assignOne x zd) 1"
proof (cases "zp_montgomery zd")
  case True
  note d = zp_wfD [OF wf]
  have "holds_val zd (modp_assignOne x zd) (2 ^ (64 * zp_t zd) mod zp_pr zd)"
    using holds_val_blit [OF zp_wf_montD(3) [OF wf True] d(3) x refl] True by (simp add: modp_assignOne_def)
  then show ?thesis using d True by (simp add: modp_rep_def mont_form_def)
next
  case False
  note d = zp_wfD [OF wf] and z = modp_assignZero_ok [OF wf x]
  have l: "length (modp_assignZero x zd) = MAX_MOD_SZ" "modp_assignZero x zd ! zp_t zd = 0"
    using z by (simp_all add: modp_rep_def holds_val_def)
  have "take (zp_t zd) (modp_assignZero x zd) = replicate (zp_t zd) 0"
    using d(3) x by (simp add: modp_assignZero_def blit_def min_def del: replicate_Suc)
  then have "take (zp_t zd) ((modp_assignZero x zd)[0 := 1]) = (replicate (zp_t zd) 0)[0 := 1]"
    by (simp add: take_update_swap)
  then show ?thesis using d l False limbs_val_one [of "zp_t zd"]
    by (simp add: modp_rep_def holds_val_def modp_assignOne_def mont_form_def)
qed

lemma modp_isOne_ok:
  assumes M: "mpn_ok M" and wf: "zp_wf zd" and x: "modp_rep zd x a"
  shows "modp_isOne M x zd \<longleftrightarrow> a = 1"
proof (cases "zp_montgomery zd")
  case True
  have "modp_rep zd (zp_R zd) 1"
    using zp_wf_montD(3) [OF wf True] zp_wfD(4) [OF wf] True by (simp add: modp_rep_def mont_form_def)
  from modp_areEqual_ok [OF M wf x this] show ?thesis using True by (simp add: modp_isOne_def modp_areEqual_def)
next
  case False
  note d = zp_wfD [OF wf] and X = modp_repD [OF wf x]
  have "modp_isOne M x zd \<longleftrightarrow> take (zp_t zd) x = (replicate (zp_t zd) 0)[0 := 1]"
    using False d(2,3) X(1)
    by (auto simp: modp_isOne_def list_all_iff list_eq_iff_nth_eq nth_list_update Suc_le_eq)
  also have "\<dots> \<longleftrightarrow> mont_form zd a = 1"
    using take_eq_val [of "zp_t zd" x "(replicate (zp_t zd) 0)[0 := 1]"] X(1,3) d(2,3) limbs_val_one [of "zp_t zd"] by simp
  finally show ?thesis using False by (simp add: mont_form_def)
qed

section \<open>Products and powers\<close>

lemma mont_cancel:
  assumes wf: "zp_wf zd" "zp_montgomery zd"
    and "zp_pr zd dvd 2 ^ (64 * zp_t zd) * v - w" and "zp_pr zd dvd 2 ^ (64 * zp_t zd) * u - w"
    and "0 \<le> v" "v < zp_pr zd" "0 \<le> u" "u < zp_pr zd"
  shows "v = u"
proof -
  let ?K = "(2 :: int) ^ (64 * zp_t zd)"
  have "(?K * v - w) - (?K * u - w) = (v - u) * ?K" by (simp add: algebra_simps)
  then have "zp_pr zd dvd (v - u) * ?K" using dvd_diff [OF assms(3,4)] by simp
  moreover have "coprime (zp_pr zd) ?K" using zp_wf_montD(2) [OF wf] by simp
  ultimately have "zp_pr zd dvd v - u" using coprime_dvd_mult_left_iff by blast
  then have "v mod zp_pr zd = u mod zp_pr zd" by (simp add: mod_eq_dvd_iff)
  then show ?thesis using assms by simp
qed

text \<open>The product of a number \<open>X\<close> below \<open>2^(64 t)\<close> and one below \<open>p\<close> is any \<open>v\<close> below \<open>p\<close> with \<open>2^(64 t) v = X Y\<close> modulo \<open>p\<close>.\<close>

lemma Mont_Mult_val:
  assumes M: "mpn_ok M" and wf: "zp_wf zd" "zp_montgomery zd"
    and x: "holds_val zd x X" and y: "holds_val zd y Y" "Y < zp_pr zd" and z: "room zd z"
    and v: "0 \<le> v" "v < zp_pr zd" "zp_pr zd dvd 2 ^ (64 * zp_t zd) * v - X * Y"
  shows "\<exists>r. Mont_Mult M zd z x y = Inr r \<and> holds_val zd r v"
proof -
  note d = zp_wfD [OF wf(1)]
  have lx: "zp_t zd < length x" "x ! zp_t zd = 0" and ly: "zp_t zd < length y" "y ! zp_t zd = 0" "limbs_val (take (zp_t zd) y) < zp_pr zd"
    using x y d(3) by (simp_all add: holds_val_def)
  obtain r where r: "Mont_Mult M zd z x y = Inr (blit z 0 r)" "length r = zp_t zd" "limbs_val r < zp_pr zd"
    and dv: "zp_pr zd dvd 2 ^ (64 * zp_t zd) * limbs_val r - limbs_val (take (zp_t zd) x) * limbs_val (take (zp_t zd) y)"
    using Mont_Mult_ok [OF M d(1) zp_wf_montD(1) [OF wf] lx ly] by metis
  have "limbs_val r = v"
    using mont_cancel [OF wf _ v(3) _ r(3) v(1,2)] dv x y by (simp add: holds_val_def)
  then show ?thesis using r(1,2) holds_val_result [OF z d(3)] by blast
qed

lemma mont_form_dvd: "zp_montgomery zd \<Longrightarrow> zp_pr zd dvd mont_form zd a - a * 2 ^ (64 * zp_t zd)"
  by (simp add: mont_form_def mod_eq_dvd_iff [symmetric])

lemma mont_product:
  fixes p :: int
  assumes "p dvd c - (a * b) * K" and "p dvd x - a * K" and "p dvd y - b * K"
  shows "p dvd K * c - x * y"
proof -
  have "K * c - x * y = K * (c - (a * b) * K) - (x - a * K) * y - a * K * (y - b * K)"
    by (simp add: algebra_simps)
  then show ?thesis using assms by (simp add: dvd_diff)
qed

lemma modp_tdiv:
  assumes M: "mpn_ok M" and wf: "zp_wf zd" "\<not> zp_montgomery zd" and z: "room zd z"
    and a: "length a = 2 * zp_t zd" "limbs_val a = v"
  shows "modp_rep zd (blit z 0 (snd (mpn_tdiv_qr M a (2 * zp_t zd) (zp_prA zd) (zp_t zd)))) (v mod zp_pr zd)"
proof -
  note d = zp_wfD [OF wf(1)]
  obtain q r where qr: "mpn_tdiv_qr M a (2 * zp_t zd) (zp_prA zd) (zp_t zd) = (q, r)" by fastforce
  have "mpn_division_ok M" using M by (simp add: mpn_ok_def)
  then have "length r = zp_t zd \<and> limbs_val r = limbs_val (take (2 * zp_t zd) a) mod limbs_val (take (zp_t zd) (zp_prA zd))"
    using qr a(1) d unfolding mpn_division_ok_def by (metis eq_imp_le le_add1 less_imp_le mult_2)
  then have "length r = zp_t zd" "limbs_val r = v mod zp_pr zd" using a d(7) by simp_all
  from holds_val_result [OF z d(3) this] show ?thesis using qr d(4) wf(2) by (simp add: modp_rep_def mont_form_def)
qed

lemma modp_Mul_ok:
  assumes M: "mpn_ok M" and wf: "zp_wf zd" and x: "modp_rep zd x a" and y: "modp_rep zd y b" and ans: "room zd ans"
  shows "\<exists>r. modp_Mul M ans x y zd = Inr r \<and> modp_rep zd r (a * b mod zp_pr zd)"
proof (cases "zp_montgomery zd")
  case False
  note d = zp_wfD [OF wf] and X = modp_repD [OF wf x] and Y = modp_repD [OF wf y]
  have "mpn_product_ok M" using M by (simp add: mpn_ok_def)
  then have "length (mpn_mul_n M x y (zp_t zd)) = 2 * zp_t zd \<and> limbs_val (mpn_mul_n M x y (zp_t zd)) = a * b"
    using X Y d(3) False unfolding mpn_product_ok_def mont_form_def by (metis less_imp_le)
  then show ?thesis using modp_tdiv [OF M wf False ans] False by (simp add: modp_Mul_def Let_def)
next
  case True
  note d = zp_wfD [OF wf] and X = modp_repD [OF wf x] and Y = modp_repD [OF wf y]
  let ?v = "mont_form zd (a * b mod zp_pr zd)"
  have v: "0 \<le> ?v" "?v < zp_pr zd" using mont_form_range [OF wf] d(4) by simp_all
  have "zp_pr zd dvd ?v - a * b * 2 ^ (64 * zp_t zd)"
    using True by (simp add: mont_form_mod mod_eq_dvd_iff [symmetric])
  from mont_product [OF this mont_form_dvd [OF True] mont_form_dvd [OF True]]
  have dv: "zp_pr zd dvd 2 ^ (64 * zp_t zd) * ?v - mont_form zd a * mont_form zd b" .
  have "holds_val zd x (mont_form zd a)" "holds_val zd y (mont_form zd b)"
    using x y by (simp_all add: modp_rep_def)
  from Mont_Mult_val [OF M wf True this Y(5) ans v dv]
  show ?thesis using True d(4) by (auto simp: modp_Mul_def modp_rep_def)
qed

lemma modp_Sqr_ok:
  assumes M: "mpn_ok M" and wf: "zp_wf zd" and x: "modp_rep zd x a" and ans: "room zd ans"
  shows "\<exists>r. modp_Sqr M ans x zd = Inr r \<and> modp_rep zd r (a * a mod zp_pr zd)"
proof (cases "zp_montgomery zd")
  case True
  then show ?thesis using modp_Mul_ok [OF M wf x x ans] by (simp add: modp_Sqr_def modp_Mul_def)
next
  case False
  note d = zp_wfD [OF wf] and X = modp_repD [OF wf x]
  have "mpn_product_ok M" using M by (simp add: mpn_ok_def)
  then have "length (mpn_sqr M x (zp_t zd)) = 2 * zp_t zd \<and> limbs_val (mpn_sqr M x (zp_t zd)) = a * a"
    using X d(3) False unfolding mpn_product_ok_def mont_form_def by (metis less_imp_le)
  then show ?thesis using modp_tdiv [OF M wf False ans] False by (simp add: modp_Sqr_def Let_def)
qed

lemma power_loop_ok:
  assumes M: "mpn_ok M" and wf: "zp_wf zd"
  shows "modp_rep zd ans a \<Longrightarrow> modp_rep zd t b \<Longrightarrow>
         \<exists>r. power_loop M zd e ans t = Inr r \<and> modp_rep zd r (a * b ^ e mod zp_pr zd)"
proof (induction e arbitrary: ans t a b rule: less_induct)
  case (less e)
  show ?case
  proof (cases "e = 0")
    case True
    then show ?thesis using less.prems modp_repD(6,7) [OF wf less.prems(1)] by (simp add: power_loop.simps)
  next
    case False
    define a' where "a' = (if odd e then a * b mod zp_pr zd else a)"
    obtain ans' where ans': "(if odd e then modp_Mul M ans ans t zd else Inr ans) = Inr ans'" "modp_rep zd ans' a'"
      using modp_Mul_ok [OF M wf less.prems modp_rep_room [OF less.prems(1)]] less.prems(1) unfolding a'_def
      by (cases "odd e") auto
    obtain t' where t': "modp_Sqr M t t zd = Inr t'" "modp_rep zd t' (b * b mod zp_pr zd)"
      using modp_Sqr_ok [OF M wf less.prems(2) modp_rep_room [OF less.prems(2)]] by auto
    have "e div 2 < e" using False by simp
    from less.IH [OF this ans'(2) t'(2)] obtain r where
      r: "power_loop M zd (e div 2) ans' t' = Inr r" "modp_rep zd r (a' * (b * b mod zp_pr zd) ^ (e div 2) mod zp_pr zd)"
      by blast
    have "(b * b) ^ (e div 2) * (if odd e then b else 1) = b ^ (2 * (e div 2)) * (if odd e then b else 1)"
      by (simp add: power_mult power2_eq_square)
    also have "\<dots> = b ^ e" by (cases "odd e") (simp_all flip: power_Suc2)
    finally have "b ^ e = (if odd e then b else 1) * (b * b) ^ (e div 2)" by (simp add: mult.commute)
    moreover have "a' * (b * b mod zp_pr zd) ^ (e div 2) mod zp_pr zd
                   = (a * (if odd e then b else 1)) * (b * b) ^ (e div 2) mod zp_pr zd"
      by (rule mod_mult_cong) (simp_all add: a'_def power_mod)
    ultimately have "a' * (b * b mod zp_pr zd) ^ (e div 2) mod zp_pr zd = a * b ^ e mod zp_pr zd"
      by (simp add: mult.assoc)
    then show ?thesis using False ans'(1) t'(1) r by (subst power_loop.simps) simp
  qed
qed

lemma modp_Power_ok:
  assumes M: "mpn_ok M" and wf: "zp_wf zd" and x: "modp_rep zd x a" and ans: "room zd ans" and e: "0 \<le> e"
  shows "\<exists>r. modp_Power M ans x e zd = Inr r \<and> modp_rep zd r (a ^ nat e mod zp_pr zd)"
proof -
  note d = zp_wfD [OF wf] and X = modp_repD [OF wf x]
  have one: "modp_rep zd (modp_assignOne ans zd) 1"
    using modp_assignOne_ok [OF wf] ans by (simp add: room_def)
  show ?thesis
    using power_loop_ok [OF M wf one x, of "nat e"] e one x X(6,7) d(4) by (auto simp: modp_Power_def)
qed

lemma modp_Power_negative: "e < 0 \<Longrightarrow> modp_Power M ans x e zd = Inl NotImplemented"
  by (simp add: modp_Power_def)

section \<open>Conversions\<close>

lemma reduce_size_val: "n \<le> length a \<Longrightarrow> limbs_val (take (reduce_size a n) a) = limbs_val (take n a)"
  by (induction n) (simp_all add: limbs_val_take_Suc)

lemma bigint_rem_mod: "1 < p \<Longrightarrow> (if bigint_rem x p < 0 then bigint_rem x p + p else bigint_rem x p) = x mod p"
proof (cases "0 \<le> x")
  case False
  assume p: "1 < p"
  have r: "bigint_rem x p = - ((- x) mod p)" using False p by (simp add: bigint_rem_def)
  have b: "0 \<le> (- x) mod p" "(- x) mod p < p" using p by simp_all
  have "x mod p = (- ((- x) mod p)) mod p" by (simp add: mod_simps)
  then show ?thesis using r b by (cases "(- x) mod p = 0") (auto simp: zmod_zminus1_eq_if)
next
  case True
  assume p: "1 < p"
  then have "\<not> x mod p < 0" by (simp add: not_less)
  moreover have "bigint_rem x p = x mod p" using True p by (simp add: bigint_rem_def sgn_if)
  ultimately show ?thesis by simp
qed

lemma top_limb_zero: "0 < n \<Longrightarrow> n \<le> length a \<Longrightarrow> a ! (n - 1) = 0 \<longleftrightarrow> limbs_val (take n a) < 2 ^ (64 * (n - 1))"
proof (cases n)
  case (Suc m)
  assume n: "n \<le> length a"
  have v: "limbs_val (take n a) = limbs_val (take m a) + uint (a ! m) * 2 ^ (64 * m)"
    using n Suc limbs_val_take_Suc [of m a] by (simp add: mult.commute)
  have b: "limbs_val (take m a) < 2 ^ (64 * m)" by (rule limbs_val_take_bound) (use n Suc in simp)
  have "1 * 2 ^ (64 * m) \<le> uint (a ! m) * 2 ^ (64 * m)" if "a ! m \<noteq> 0"
    using that by (intro mult_right_mono) (simp_all add: word_gt_0 uint_0_iff int_one_le_iff_zero_less order_less_le)
  then have "a ! m \<noteq> 0 \<Longrightarrow> \<not> limbs_val (take n a) < 2 ^ (64 * m)" using v limbs_val_nonneg [of "take m a"] by linarith
  then show ?thesis using v b Suc by auto
qed simp

lemma to_bigint_ok:
  assumes M: "mpn_ok M" and wf: "zp_wf zd" and x: "modp_rep zd x a"
  shows "to_bigint M x zd reduce = (if \<not> reduce \<and> a < 2 ^ (64 * (zp_t zd - 1)) then Inl UndefinedBehaviour else Inr a)"
proof -
  note d = zp_wfD [OF wf] and X = modp_repD [OF wf x]
  define z :: modp where "z = replicate MAX_MOD_SZ 0"
  have z: "room zd z" using d(3) by (simp add: room_def z_def)
  have "\<exists>r. (if zp_montgomery zd then Mont_Mult M zd z x (z[0 := 1]) else Inr (blit z 0 (take (zp_t zd + 1) x))) = Inr r
            \<and> holds_val zd r a"
  proof (cases "zp_montgomery zd")
    case True
    have one: "holds_val zd (z[0 := 1]) 1"
      using d limbs_val_one [of "zp_t zd"] by (simp add: holds_val_def z_def take_update_swap min_def)
    have dv: "zp_pr zd dvd 2 ^ (64 * zp_t zd) * a - mont_form zd a * 1"
      using mont_form_dvd [OF True, of a] by (simp add: dvd_diff_commute mult.commute)
    have h: "holds_val zd x (mont_form zd a)" using x by (simp add: modp_rep_def)
    show ?thesis using Mont_Mult_val [OF M wf True h one d(4) z X(6,7) dv] True by simp
  next
    case False
    have h: "holds_val zd x a" using x False by (simp add: modp_rep_def mont_form_def)
    have "holds_val zd (blit z 0 (take (zp_t zd + 1) x)) a"
      by (rule holds_val_blit [OF h d(3) _ refl]) (simp add: z_def)
    then show ?thesis using False by auto
  qed
  then obtain r where r: "(if zp_montgomery zd then Mont_Mult M zd z x (z[0 := 1]) else Inr (blit z 0 (take (zp_t zd + 1) x))) = Inr r"
    "holds_val zd r a" by blast
  have "limbs_val (take (reduce_size r (zp_t zd)) r) = a" "limbs_val (take (zp_t zd) r) = a"
    using r(2) d(3) reduce_size_val [of "zp_t zd" r] by (simp_all add: holds_val_def)
  moreover have "r ! (zp_t zd - 1) = 0 \<longleftrightarrow> a < 2 ^ (64 * (zp_t zd - 1))"
    using top_limb_zero [OF d(2), of r] r(2) d(3) by (simp add: holds_val_def)
  ultimately show ?thesis using d(2) unfolding to_bigint_def Let_def z_def [symmetric] r(1) by simp
qed

lemma mont_enter:
  assumes M: "mpn_ok M" and wf: "zp_wf zd" and h: "holds_val zd x v" and a: "v mod zp_pr zd = a"
    and plain: "\<not> zp_montgomery zd \<Longrightarrow> v = a"
  shows "\<exists>r. (if zp_montgomery zd then Mont_Mult M zd x x (zp_R2 zd) else Inr x) = Inr r \<and> modp_rep zd r a"
proof (cases "zp_montgomery zd")
  case True
  let ?K = "(2 :: int) ^ (64 * zp_t zd)" and ?p = "zp_pr zd"
  note d = zp_wfD [OF wf]
  have a0: "0 \<le> a" "a < ?p" using a d(4) by auto
  have "2 ^ (64 * zp_t zd * 2) = ?K * ?K" by (simp only: power_mult [of 2 _ 2] power2_eq_square)
  then have R2: "holds_val zd (zp_R2 zd) (?K * ?K mod ?p)" using zp_wf_montD(4) [OF wf True] by simp
  have "?p dvd ?K * mont_form zd a - v * (?K * ?K mod ?p)"
  proof -
    have "?p dvd v - a" using a by (metis mod_eq_dvd_iff mod_mod_trivial)
    moreover have "?p dvd (?K * ?K mod ?p) - ?K * ?K" by (metis mod_eq_dvd_iff mod_mod_trivial)
    moreover have "?K * mont_form zd a - v * (?K * ?K mod ?p)
      = ?K * (mont_form zd a - a * ?K) - v * ((?K * ?K mod ?p) - ?K * ?K) - (v - a) * (?K * ?K)"
      by (simp add: algebra_simps)
    ultimately show ?thesis using mont_form_dvd [OF True, of a] by (simp add: dvd_diff)
  qed
  moreover have "room zd x" using h by (simp add: holds_val_def room_def)
  moreover have "?K * ?K mod ?p < ?p" using d(4) by simp
  ultimately show ?thesis
    using Mont_Mult_val [OF M wf True h R2] mont_form_range [OF wf a0] True a0 by (auto simp: modp_rep_def)
next
  case False
  have "0 \<le> a" "a < zp_pr zd" using a zp_wfD(4) [OF wf] by auto
  then have "modp_rep zd x a" using h plain False by (simp add: modp_rep_def mont_form_def)
  then show ?thesis using False by simp
qed

lemma holds_zero_blit:
  assumes wf: "zp_wf zd" and len: "length z = MAX_MOD_SZ" "length r \<le> zp_t zd" and v: "limbs_val r = v"
  shows "holds_val zd (blit (blit z 0 (replicate (zp_t zd + 1) 0)) 0 r) v"
proof -
  note d = zp_wfD [OF wf]
  have "take (zp_t zd) (blit (blit z 0 (replicate (zp_t zd + 1) 0)) 0 r) = r @ replicate (zp_t zd - length r) 0"
    using d(3) len by (auto simp: blit_def min_def simp del: replicate_Suc)
  moreover have "blit (blit z 0 (replicate (zp_t zd + 1) 0)) 0 r ! zp_t zd = 0"
    using d(3) len by (simp add: nth_blit del: replicate_Suc)
  ultimately show ?thesis using d(3) len v by (simp add: holds_val_def limbs_val_append del: replicate_Suc)
qed

lemma to_modp_big_ok:
  assumes M: "mpn_ok M" "mpz_ok M" and wf: "zp_wf zd" and ans: "length ans = MAX_MOD_SZ"
  shows "\<exists>r. to_modp_big M ans x zd = Inr r \<and> modp_rep zd r (x mod zp_pr zd)"
proof -
  note d = zp_wfD [OF wf]
  let ?xx = "x mod zp_pr zd"
  have b: "0 \<le> ?xx" "?xx < zp_pr zd" using d(4) by simp_all
  then have "\<bar>?xx\<bar> < 2 ^ (64 * zp_t zd)" using d(5) by linarith
  from holds_zero_blit [OF wf ans mpz_size_le [OF M(2) this], of ?xx]
  have h: "holds_val zd (blit (blit ans 0 (replicate (zp_t zd + 1) 0)) 0 (mpz_limbs M ?xx)) ?xx"
    using mpz_limbsD(1) [OF M(2), of ?xx] b by simp
  show ?thesis
    using mont_enter [OF M(1) wf h, of ?xx] unfolding to_modp_big_def Let_def bigint_rem_mod [OF d(4)] by simp
qed

text \<open>
  From an \<open>int\<close>: right for all of them when \<open>p\<close> has more than one limb. With one limb a negative number below
  \<open>- p\<close> wraps around before the division.
\<close>

lemma holds_val_limb:
  assumes wf: "zp_wf zd" and len: "length z = MAX_MOD_SZ"
  shows "holds_val zd ((blit z 0 (replicate (zp_t zd + 1) 0))[0 := w]) (uint w)"
proof -
  note d = zp_wfD [OF wf]
  have "blit (blit z 0 (replicate (zp_t zd + 1) 0)) 0 [w] = (blit z 0 (replicate (zp_t zd + 1) 0))[0 := w]"
    by (simp add: blit_def)
  then show ?thesis using holds_zero_blit [OF wf len, of "[w]"] d(2) by simp
qed

lemma zp_one_limb: "zp_wf zd \<Longrightarrow> zp_t zd = 1 \<Longrightarrow> uint (zp_prA zd ! 0) = zp_pr zd"
  using zp_wfD(6,7) [of zd] limbs_val_take_Suc [of 0 "zp_prA zd"] by (simp add: MAX_MOD_SZ_def)

lemma zp_more_limbs:
  assumes "zp_wf zd" and "zp_t zd \<noteq> 1"
  shows "2 ^ 64 \<le> zp_pr zd"
proof -
  note d = zp_wfD [OF assms(1)]
  let ?l = "take (zp_t zd) (zp_prA zd)"
  have "last ?l = zp_prA zd ! (zp_t zd - 1)" using d by (subst last_conv_nth) (auto simp: min_def)
  moreover have "?l \<noteq> []" "length ?l = zp_t zd" using d by auto
  ultimately have "2 ^ (64 * (zp_t zd - 1)) \<le> zp_pr zd" using limbs_val_pos [of ?l] d by simp
  moreover have "(2 :: int) ^ 64 \<le> 2 ^ (64 * (zp_t zd - 1))" using d(2) assms(2) by (intro power_increasing) simp_all
  ultimately show ?thesis by linarith
qed

lemma to_modp_int_ok:
  assumes M: "mpn_ok M" "mpz_ok M" and wf: "zp_wf zd" and ans: "length ans = MAX_MOD_SZ"
    and x: "- (2 ^ 31) \<le> x" "x < 2 ^ 31" and small: "zp_t zd = 1 \<longrightarrow> - zp_pr zd \<le> x"
  shows "\<exists>r. to_modp_int M ans x zd = Inr r \<and> modp_rep zd r (x mod zp_pr zd)"
proof -
  note d = zp_wfD [OF wf]
  define z where "z = blit ans 0 (replicate (zp_t zd + 1) 0)"
  have lz: "length z = MAX_MOD_SZ" using ans d(3) by (simp add: z_def del: replicate_Suc)
  have go: "\<exists>r. (if zp_montgomery zd then Mont_Mult M zd (z[0 := w]) (z[0 := w]) (zp_R2 zd) else Inr (z[0 := w])) = Inr r
            \<and> modp_rep zd r (x mod zp_pr zd)" if w: "uint w = x mod zp_pr zd" for w
    unfolding z_def by (rule mont_enter [OF M(1) wf holds_val_limb [OF wf ans]]) (simp_all add: w)
  consider "0 \<le> x" "zp_t zd = 1" | "0 \<le> x" "zp_t zd \<noteq> 1" | "x < 0" "zp_t zd = 1" | "x < 0" "zp_t zd \<noteq> 1"
    by linarith
  then show ?thesis
  proof cases
    case 1
    then have "uint ((word_of_int x :: u64) mod zp_prA zd ! 0) = x mod zp_pr zd"
      using x zp_one_limb [OF wf] by (simp add: uint_mod uint_word_of_int_eq take_bit_int_eq_self)
    from go [OF this] 1 show ?thesis unfolding to_modp_int_def Let_def z_def [symmetric] by (auto split: if_splits)
  next
    case 2
    then have "uint (word_of_int x :: u64) = x mod zp_pr zd"
      using x zp_more_limbs [OF wf] by (simp add: uint_word_of_int_eq take_bit_int_eq_self)
    from go [OF this] 2 show ?thesis unfolding to_modp_int_def Let_def z_def [symmetric] by (auto split: if_splits)
  next
    case 3
    have "0 \<le> zp_pr zd + x" "zp_pr zd + x < 2 ^ 64" using 3 small d(5) by simp_all
    then have "uint (zp_prA zd ! 0 + word_of_int x) = zp_pr zd + x"
      using zp_one_limb [OF wf 3(2)]
      by (simp add: uint_word_arith_bintrs uint_word_of_int_eq take_bit_eq_mod mod_simps mod_pos_pos_trivial)
    then have "uint ((zp_prA zd ! 0 + word_of_int x) mod zp_prA zd ! 0) = x mod zp_pr zd"
      using zp_one_limb [OF wf 3(2)] by (simp add: uint_mod)
    from go [OF this] 3 show ?thesis unfolding to_modp_int_def Let_def z_def [symmetric] by (auto split: if_splits)
  next
    case 4
    from to_modp_big_ok [OF M wf lz, of "zp_pr zd + x"] 4 show ?thesis unfolding to_modp_int_def Let_def z_def [symmetric] by simp
  qed
qed

text \<open>The native format.\<close>

lemma limb_bytes_length [simp]: "length (limb_bytes w) = 8"
  by (simp add: limb_bytes_def)

lemma bit_bytes_limb:
  "n < 64 \<Longrightarrow> bit (bytes_limb bs) n \<longleftrightarrow> n div 8 < length bs \<and> bit (bs ! (n div 8)) (n mod 8)"
proof (induction bs arbitrary: n)
  case (Cons b bs)
  have "bit (bytes_limb (b # bs)) n \<longleftrightarrow> n < 8 \<and> bit b n \<or> 8 \<le> n \<and> bit (bytes_limb bs) (n - 8)"
    using Cons.prems
    by (auto simp: bytes_limb_def bit_or_iff bit_push_bit_iff bit_ucast_iff dest: bit_imp_le_length)
  also have "\<dots> \<longleftrightarrow> n div 8 < length (b # bs) \<and> bit ((b # bs) ! (n div 8)) (n mod 8)"
  proof (cases "n < 8")
    case False
    then obtain k where "n = 8 + k" using le_Suc_ex by (metis not_less)
    moreover have "(8 + k) div 8 = Suc (k div 8)" by simp
    ultimately show ?thesis using Cons.IH [of k] Cons.prems by simp
  qed simp
  finally show ?case .
qed (simp add: bytes_limb_def)

lemma bytes_limb_bytes [simp]: "bytes_limb (limb_bytes w) = w"
proof (rule bit_word_eqI)
  fix n assume "n < LENGTH(64)"
  moreover from this have "n div 8 < 8" by simp
  ultimately show "bit (bytes_limb (limb_bytes w)) n = bit w n"
    by (simp add: bit_bytes_limb limb_bytes_def bit_ucast_iff bit_drop_bit_eq)
qed

lemma chunk_limb_bytes: "i < length xs \<Longrightarrow> take 8 (drop (8 * i) (concat (map limb_bytes xs))) = limb_bytes (xs ! i)"
proof (induction xs arbitrary: i)
  case (Cons x xs)
  then show ?case by (cases i) simp_all
qed simp

lemma length_concat_limb_bytes [simp]: "length (concat (map limb_bytes xs)) = 8 * length xs"
  by (induction xs) simp_all

lemma modp_pack_unpack:
  assumes wf: "zp_wf zd" and x: "modp_rep zd x a" and y: "room zd y"
    and s: "bs_wf s" "bs_room s (8 * zp_t zd)" "bs_unread s = []"
  shows "\<exists>y' s'. modp_unpack y zd (modp_pack x zd s) = Inr (y', s') \<and> modp_rep zd y' a \<and> bs_unread s' = []"
proof -
  note d = zp_wfD [OF wf] and X = modp_repD [OF wf x]
  let ?b = "concat (map limb_bytes (take (zp_t zd) x))" and ?s = "modp_pack x zd s"
  have lb: "length ?b = 8 * zp_t zd" using X(1) d(3) by simp
  have w: "bs_wf ?s" "bs_unread ?s = map Some ?b"
    using bs_append_unread [OF s(1), of ?b] s(2,3) lb by (simp_all add: modp_pack_def)
  have "zp_t zd * 8 \<le> length (bs_unread ?s)" using w(2) lb by simp
  note c = bs_consume_ok [OF w(1) this]
  have t: "take (zp_t zd * 8) (bs_unread ?s) = map Some ?b" using w(2) lb by simp
  have "map (\<lambda>i. bytes_limb (take 8 (drop (8 * i) ?b))) [0..<zp_t zd] = take (zp_t zd) x"
    using X(1) d(3) by (intro nth_equalityI) (simp_all add: chunk_limb_bytes)
  then have u: "modp_unpack y zd ?s = Inr (blit y 0 (take (zp_t zd) x), ?s\<lparr>bs_r := bs_r ?s + zp_t zd * 8\<rparr>)"
    using c(1) unfolding t by (auto simp: modp_unpack_def comp_def)
  have "holds_val zd (blit y 0 (take (zp_t zd) x)) (mont_form zd a)"
    using holds_val_result [OF y d(3)] X d(3) by simp
  then have "modp_rep zd (blit y 0 (take (zp_t zd) x)) a" using X(6,7) by (simp add: modp_rep_def)
  moreover have "bs_unread (?s\<lparr>bs_r := bs_r ?s + zp_t zd * 8\<rparr>) = []" using c(3) w(2) lb by simp
  ultimately show ?thesis using u by blast
qed

section \<open>Inverses\<close>

text \<open>
  The library may use one limb more than the result for scratch, and \<open>Inv\<close> does not clear it; Montgomery's product
  aborts when it is not zero. \<open>gcdext_clears\<close> says that it is.
\<close>

definition gcdext_clears :: "mpir \<Rightarrow> Zp_Data \<Rightarrow> modp \<Rightarrow> bool" where
  "gcdext_clears M zd x \<longleftrightarrow>
     fst (mpn_gcdext M (take (zp_t zd) x) (zp_t zd) (take (zp_t zd) (zp_prA zd)) (zp_t zd)) ! zp_t zd = 0"

text \<open>Before the last product the array holds the inverse, modulo \<open>p\<close>, of the number in the limbs of \<open>x\<close>.\<close>

lemma gcdext_cofactor:
  assumes M: "mpn_ok M" and wf: "zp_wf zd" and x: "holds_val zd x X" "coprime X (zp_pr zd)"
    and sk: "mpn_gcdext M (take (zp_t zd) x) (zp_t zd) (take (zp_t zd) (zp_prA zd)) (zp_t zd) = (s, k)"
  shows "length s = zp_t zd + 1" and "nat \<bar>k\<bar> \<le> zp_t zd" and "limbs_val (take (nat \<bar>k\<bar>) s) < zp_pr zd"
    and "zp_pr zd dvd X * (sgn k * limbs_val (take (nat \<bar>k\<bar>) s)) - 1"
    and "k < 0 \<longrightarrow> limbs_val (take (nat \<bar>k\<bar>) s) \<noteq> 0"
proof -
  note d = zp_wfD [OF wf]
  have X: "length x = MAX_MOD_SZ" "limbs_val (take (zp_t zd) x) = X" using x(1) by (simp_all add: holds_val_def)
  have l: "length (take (zp_t zd) x) = zp_t zd" "length (take (zp_t zd) (zp_prA zd)) = zp_t zd" using X d by simp_all
  have top: "take (zp_t zd) (zp_prA zd) ! (zp_t zd - 1) \<noteq> 0" using d(2,8) by simp
  have "mpn_division_ok M" using M by (simp add: mpn_ok_def)
  then have *: "length s = zp_t zd + 1 \<and> nat \<bar>k\<bar> \<le> zp_t zd
        \<and> limbs_val (take (nat \<bar>k\<bar>) s) < limbs_val (take (zp_t zd) (take (zp_t zd) (zp_prA zd)))
        \<and> (k = 0 \<or> s ! (nat \<bar>k\<bar> - 1) \<noteq> 0)
        \<and> limbs_val (take (zp_t zd) (take (zp_t zd) (zp_prA zd))) dvd
            limbs_val (take (zp_t zd) (take (zp_t zd) x)) * (sgn k * limbs_val (take (nat \<bar>k\<bar>) s))
            - gcd (limbs_val (take (zp_t zd) (take (zp_t zd) x))) (limbs_val (take (zp_t zd) (take (zp_t zd) (zp_prA zd))))"
    using sk l top d(2) unfolding mpn_division_ok_def by (metis order_refl)
  have "limbs_val (take (nat \<bar>k\<bar>) s) \<noteq> 0" if "k < 0"
  proof -
    have n: "0 < nat \<bar>k\<bar>" "nat \<bar>k\<bar> \<le> zp_t zd" "length s = zp_t zd + 1" "s ! (nat \<bar>k\<bar> - 1) \<noteq> 0" using * that by auto
    then have ne: "take (nat \<bar>k\<bar>) s \<noteq> []" by auto
    then have "last (take (nat \<bar>k\<bar>) s) \<noteq> 0" using n by (subst last_conv_nth) (simp_all add: min_def)
    from limbs_val_pos [OF ne this] show ?thesis
      using zero_less_power [of "2 :: int" "64 * (length (take (nat \<bar>k\<bar>) s) - 1)"] by linarith
  qed
  then show "k < 0 \<longrightarrow> limbs_val (take (nat \<bar>k\<bar>) s) \<noteq> 0" by blast
  from * show "length s = zp_t zd + 1" and "nat \<bar>k\<bar> \<le> zp_t zd" and "limbs_val (take (nat \<bar>k\<bar>) s) < zp_pr zd"
    and "zp_pr zd dvd X * (sgn k * limbs_val (take (nat \<bar>k\<bar>) s)) - 1"
    using X(2) d(7) x(2) by simp_all
qed

lemma take_blit_blit:
  assumes "n \<le> length s" and "length s \<le> length z"
  shows "take n (blit z 0 s) = take n s"
  using assms by (simp add: blit_def)

lemma take_blit_fill:
  "k \<le> t \<Longrightarrow> t \<le> length b \<Longrightarrow> take t (blit b k (replicate (t - k) v)) = take k b @ replicate (t - k) v"
  by (simp add: blit_def)

lemma inv_array:
  assumes M: "mpn_ok M" and wf: "zp_wf zd" and z: "room zd z"
    and s: "length s = zp_t zd + 1" "nat \<bar>k\<bar> \<le> zp_t zd" "s ! zp_t zd = 0" and S: "limbs_val (take (nat \<bar>k\<bar>) s) < zp_pr zd"
    and pos: "k < 0 \<longrightarrow> limbs_val (take (nat \<bar>k\<bar>) s) \<noteq> 0"
    and ans: "ans = (if k < 0 then blit (blit z 0 s) 0 (fst (mpn_sub M (zp_prA zd) (zp_t zd) (blit z 0 s) (nat (- k))))
                     else blit (blit z 0 s) (nat k) (replicate (zp_t zd - nat k) 0))"
  shows "holds_val zd ans ((sgn k * limbs_val (take (nat \<bar>k\<bar>) s)) mod zp_pr zd)"
proof -
  note d = zp_wfD [OF wf]
  define b where "b = blit z 0 s"
  have lz: "length z = MAX_MOD_SZ" using z by (simp add: room_def)
  have lb: "length b = MAX_MOD_SZ" using lz s(1) d(3) by (simp add: b_def)
  have room: "room zd b" using lb lz s d(3) by (simp add: room_def b_def nth_blit)
  have tb: "take n b = take n s" if "n \<le> zp_t zd" for n
    using take_blit_blit [of n s z] that s(1) lz d(3) by (simp add: b_def)
  let ?V = "limbs_val (take (nat \<bar>k\<bar>) s)"
  show ?thesis
  proof (cases "k < 0")
    case True
    obtain r c where rc: "mpn_sub M (zp_prA zd) (zp_t zd) b (nat (- k)) = (r, c)" by fastforce
    have k: "nat (- k) \<le> zp_t zd" "nat \<bar>k\<bar> = nat (- k)" using s(2) True by simp_all
    have r: "length r = zp_t zd" "limbs_val r + ?V = zp_pr zd + 2 ^ (64 * zp_t zd) * uint c"
      using mpn_subD [OF M rc] k lb d(3,6,7) tb [OF k(1)] by simp_all
    have "limbs_val r = zp_pr zd - ?V"
    proof (rule limbs_val_eqI [OF r(1)])
      have "limbs_val r - (zp_pr zd - ?V) = 2 ^ (64 * zp_t zd) * uint c" using r(2) by simp
      then show "2 ^ (64 * zp_t zd) dvd limbs_val r - (zp_pr zd - ?V)" by simp
      show "zp_pr zd - ?V < 2 ^ (64 * zp_t zd)" using d(5) limbs_val_nonneg [of "take (nat \<bar>k\<bar>) s"] by linarith
    qed (use S in simp)
    moreover have "(sgn k * ?V) mod zp_pr zd = zp_pr zd - ?V"
      using True pos S by (simp add: zmod_zminus1_eq_if)
    ultimately show ?thesis
      using holds_val_result [OF room d(3) r(1)] True rc by (simp add: ans b_def [symmetric])
  next
    case False
    then have k: "nat k \<le> zp_t zd" "nat \<bar>k\<bar> = nat k" using s(2) by simp_all
    let ?c = "blit b (nat k) (replicate (zp_t zd - nat k) 0)"
    have "take (zp_t zd) ?c = take (nat k) s @ replicate (zp_t zd - nat k) 0"
      using take_blit_fill [OF k(1), of b 0] lb d(3) unfolding tb [OF k(1)] by (metis less_imp_le)
    then have "limbs_val (take (zp_t zd) ?c) = ?V" using k(2) by (simp add: limbs_val_append)
    moreover have "?c ! zp_t zd = 0" "length ?c = MAX_MOD_SZ"
      using room k(1) lb d(3) by (simp_all add: nth_blit room_def)
    moreover have e: "sgn k * ?V = ?V" using False k by (cases "k = 0") simp_all
    have "(sgn k * ?V) mod zp_pr zd = ?V" unfolding e using S by simp
    moreover have "ans = ?c" using False by (simp add: ans b_def)
    ultimately show ?thesis using S by (simp add: holds_val_def)
  qed
qed

lemma modp_Inv_ok:
  assumes M: "mpn_ok M" and wf: "zp_wf zd" and x: "modp_rep zd x a" and c: "coprime a (zp_pr zd)"
    and ans: "room zd ans" and clear: "gcdext_clears M zd x"
  shows "\<exists>r v. modp_Inv M ans x zd = Inr r \<and> modp_rep zd r v \<and> a * v mod zp_pr zd = 1"
proof -
  define t p X where "t = zp_t zd" and "p = zp_pr zd" and "X = mont_form zd a"
  note d = zp_wfD [OF wf]
  obtain s k where sk: "mpn_gcdext M (take t x) t (take t (zp_prA zd)) t = (s, k)" by fastforce
  have hx: "holds_val zd x X" using x by (simp add: modp_rep_def X_def)
  have "coprime X p"
  proof (cases "zp_montgomery zd")
    case True
    then have "coprime (a * 2 ^ (64 * t)) p" using c zp_wf_montD(2) [OF wf] by (simp add: p_def)
    then show ?thesis using True d(4) by (simp add: X_def mont_form_def p_def t_def coprime_mod_left_iff del: coprime_mult_left_iff)
  qed (use c in \<open>simp add: X_def mont_form_def p_def\<close>)
  note g = gcdext_cofactor [OF M wf hx this [unfolded p_def] sk [unfolded t_def]]
  have st: "s ! zp_t zd = 0" using clear sk by (simp add: gcdext_clears_def t_def)
  define b where "b = (if k < 0 then blit (blit ans 0 s) 0 (fst (mpn_sub M (zp_prA zd) (zp_t zd) (blit ans 0 s) (nat (- k))))
                     else blit (blit ans 0 s) (nat k) (replicate (zp_t zd - nat k) 0))"
  let ?S = "sgn k * limbs_val (take (nat \<bar>k\<bar>) s)"
  have b: "holds_val zd b (?S mod p)"
    unfolding p_def by (rule inv_array [OF M wf ans g(1,2) st g(3,5) b_def])
  have range: "0 \<le> ?S mod p" "?S mod p < p" using d(4) by (simp_all add: p_def)
  have XS: "X * ?S mod p = 1" using g(4) d(4) by (metis p_def mod_eq_dvd_iff mod_pos_pos_trivial zero_le_one)
  have run: "modp_Inv M ans x zd = (if zp_montgomery zd then Mont_Mult M zd b b (zp_R3 zd) else Inr b)"
    using sk by (simp add: modp_Inv_def b_def t_def Let_def)
  show ?thesis
  proof (cases "zp_montgomery zd")
    case False
    then have "modp_rep zd b (?S mod p)" using b range by (simp add: modp_rep_def mont_form_def p_def)
    moreover have "a * (?S mod p) mod p = 1" using XS False by (simp add: X_def mont_form_def mod_simps)
    ultimately show ?thesis using run False by (auto simp: p_def)
  next
    case True
    let ?K = "(2 :: int) ^ (64 * zp_t zd)"
    let ?v = "?S * ?K mod p"
    have v: "0 \<le> ?v" "?v < p" using d(4) by (simp_all add: p_def)
    have form: "mont_form zd ?v = ?S * ?K * ?K mod p" using True by (simp add: mont_form_def p_def mod_simps mult.assoc)
    have K3: "2 ^ (64 * zp_t zd * 3) = ?K * ?K * ?K" by (simp only: power_mult [of 2 _ 3] power3_eq_cube)
    have dv: "zp_pr zd dvd ?K * mont_form zd ?v - (?S mod p) * (?K * ?K * ?K mod p)"
    proof -
      have "(?K * mont_form zd ?v) mod p = ((?S mod p) * (?K * ?K * ?K mod p)) mod p"
        unfolding form by (simp add: mod_simps mult.assoc mult.left_commute)
      then show ?thesis unfolding p_def by (simp add: mod_eq_dvd_iff)
    qed
    have R3: "holds_val zd (zp_R3 zd) (?K * ?K * ?K mod p)" using zp_wf_montD(5) [OF wf True] K3 by (simp only: p_def)
    have rb: "room zd b" using b by (simp add: holds_val_def room_def)
    have vf: "0 \<le> mont_form zd ?v" "mont_form zd ?v < zp_pr zd" using mont_form_range [OF wf] v by (simp_all add: p_def)
    have "?K * ?K * ?K mod p < zp_pr zd" using d(4) by (simp add: p_def)
    from Mont_Mult_val [OF M wf True b R3 this rb vf dv]
    obtain r where r: "Mont_Mult M zd b b (zp_R3 zd) = Inr r" "holds_val zd r (mont_form zd ?v)" by (auto simp: p_def)
    have "a * ?v mod p = a * (?S * ?K) mod p" by (rule mod_mult_right_eq)
    also have "\<dots> = (a * ?K) * ?S mod p" by (simp only: mult_ac)
    also have "\<dots> = X * ?S mod p" using True by (simp add: X_def mont_form_def p_def mod_mult_left_eq)
    finally have "a * ?v mod p = X * ?S mod p" .
    then show ?thesis using run True r v XS by (auto simp: modp_rep_def p_def)
  qed
qed

end
