(* ===== verification/BDX_Field.thy ===== *)
theory BDX_Field
  imports BDX_Modp
begin

text \<open>
  What the arithmetic of \<open>OT/Math/modp\<close> promises: in both representations the operations are those of the integers
  modulo \<open>p\<close>. An instance of the library by schoolbook arithmetic on numbers shows that its laws can be met.
\<close>

section \<open>Schoolbook arithmetic\<close>

fun limbs_of :: "nat \<Rightarrow> int \<Rightarrow> limbs" where
  "limbs_of 0 x = []"
| "limbs_of (Suc n) x = word_of_int x # limbs_of n (x div 2 ^ 64)"

function limb_count :: "int \<Rightarrow> nat" where
  "limb_count x = (if x \<le> 0 then 0 else Suc (limb_count (x div 2 ^ 64)))"
  by auto
termination by (relation "measure nat") (auto simp: int_div_less_self)

declare limb_count.simps [simp del]

definition split_carry :: "nat \<Rightarrow> int \<Rightarrow> limbs \<times> u64" where
  "split_carry n v = (limbs_of n v, word_of_int (v div 2 ^ (64 * n)))"

definition split_borrow :: "nat \<Rightarrow> int \<Rightarrow> limbs \<times> u64" where
  "split_borrow n v = (limbs_of n v, if v < 0 then 1 else 0)"

definition ref_invert :: "int \<Rightarrow> int \<Rightarrow> int" where
  "ref_invert a m = fst (bezw (nat (a mod m)) (nat m)) mod m"

definition ref_gcdext :: "int \<Rightarrow> int \<Rightarrow> nat \<Rightarrow> limbs \<times> int" where
  "ref_gcdext X Y n = (let S = fst (bezw (nat X) (nat Y)) mod Y in (limbs_of (n + 1) S, int (limb_count S)))"

definition mpir_ref :: mpir where
  "mpir_ref = \<lparr>
     mpn_add_n = \<lambda>x y n. split_carry n (limbs_val (take n x) + limbs_val (take n y)),
     mpn_sub_n = \<lambda>x y n. split_borrow n (limbs_val (take n x) - limbs_val (take n y)),
     mpn_sub = \<lambda>x m y n. split_borrow m (limbs_val (take m x) - limbs_val (take n y)),
     mpn_cmp = \<lambda>x y n. limbs_val (take n x) - limbs_val (take n y),
     mpn_mul_1 = \<lambda>x n l. split_carry n (limbs_val (take n x) * uint l),
     mpn_addmul_1 = \<lambda>z x n l. split_carry n (limbs_val (take n z) + limbs_val (take n x) * uint l),
     mpn_mul_n = \<lambda>x y n. limbs_of (2 * n) (limbs_val (take n x) * limbs_val (take n y)),
     mpn_sqr = \<lambda>x n. limbs_of (2 * n) (limbs_val (take n x) * limbs_val (take n x)),
     mpn_tdiv_qr = \<lambda>x m y n. (limbs_of (m - n + 1) (limbs_val (take m x) div limbs_val (take n y)),
                              limbs_of n (limbs_val (take m x) mod limbs_val (take n y))),
     mpn_gcdext = \<lambda>x n y m. ref_gcdext (limbs_val (take n x)) (limbs_val (take m y)) n,
     mpz_limbs = \<lambda>x. limbs_of (limb_count \<bar>x\<bar>) \<bar>x\<bar>,
     mpz_invert = ref_invert,
     mpz_pow_ui = (^),
     mpz_sizeinbase = \<lambda>x b. if b = 2 then length (takeWhile (\<lambda>i. 2 ^ i \<le> \<bar>x\<bar>) [0..<64 * limb_count \<bar>x\<bar>]) else 0,
     mpz_put = \<lambda>x. show_nat (nat x),
     mpz_get = \<lambda>w. int (digits_val w)\<rparr>"

lemma length_limbs_of [simp]: "length (limbs_of n x) = n"
  by (induction n x rule: limbs_of.induct) simp_all

lemma limbs_val_of: "limbs_val (limbs_of n x) = x mod 2 ^ (64 * n)"
proof (induction n x rule: limbs_of.induct)
  case (2 n x)
  have "(2 :: int) ^ (64 * Suc n) = 2 ^ 64 * 2 ^ (64 * n)" by (simp add: power_add)
  then have "x mod 2 ^ (64 * Suc n) = 2 ^ 64 * (x div 2 ^ 64 mod 2 ^ (64 * n)) + x mod 2 ^ 64"
    by (simp only: zmod_zmult2_eq zero_le_power zero_le_numeral)
  then show ?case using 2 by (simp add: uint_word_of_int_eq take_bit_eq_mod)
qed simp

lemma take_limbs_of: "k \<le> n \<Longrightarrow> take k (limbs_of n x) = limbs_of k x"
proof (induction n x arbitrary: k rule: limbs_of.induct)
  case (2 n x)
  then show ?case by (cases k) simp_all
qed simp

lemma limb_count_bound: "0 \<le> x \<Longrightarrow> x < 2 ^ (64 * limb_count x)"
proof (induction x rule: limb_count.induct)
  case (1 x)
  show ?case
  proof (cases "x \<le> 0")
    case False
    have "x div 2 ^ 64 < 2 ^ (64 * limb_count (x div 2 ^ 64))" using 1 False by simp
    then have "x < 2 ^ 64 * 2 ^ (64 * limb_count (x div 2 ^ 64))" by (simp add: div_less_iff_less_mult mult.commute)
    then show ?thesis using False by (subst limb_count.simps) (simp add: power_add)
  qed (use 1 in \<open>simp add: limb_count.simps\<close>)
qed

lemma limbs_of_count: "0 \<le> x \<Longrightarrow> limbs_val (limbs_of (limb_count x) x) = x"
  using limb_count_bound [of x] by (simp add: limbs_val_of)

lemma limbs_of_last: "0 < x \<Longrightarrow> last (limbs_of (limb_count x) x) \<noteq> 0"
proof (induction x rule: limb_count.induct)
  case (1 x)
  show ?case
  proof (cases "x div 2 ^ 64 \<le> 0")
    case True
    then have "x < 2 ^ 64" using pos_imp_zdiv_pos_iff [of "2 ^ 64" x] by auto
    moreover have "limb_count x = 1" using True 1(2) by (simp add: limb_count.simps)
    ultimately show ?thesis using 1(2) by (simp add: word_uint_eq_iff uint_word_of_int_eq take_bit_int_eq_self)
  next
    case False
    then have "limb_count (x div 2 ^ 64) \<noteq> 0" by (simp add: limb_count.simps)
    then have "limbs_of (limb_count (x div 2 ^ 64)) (x div 2 ^ 64) \<noteq> []" by (metis length_0_conv length_limbs_of)
    moreover have "limb_count x = Suc (limb_count (x div 2 ^ 64))" using 1(2) by (subst limb_count.simps) simp
    ultimately show ?thesis using 1 False by simp
  qed
qed

lemma split_carry_ok:
  assumes "split_carry n v = (r, c)" and "0 \<le> v" and "v < 2 ^ (64 * n) * 2 ^ 64"
  shows "length r = n \<and> limbs_val r + 2 ^ (64 * n) * uint c = v"
proof -
  let ?K = "(2 :: int) ^ (64 * n)"
  have "v div ?K < 2 ^ 64"
  proof (rule ccontr)
    assume "\<not> v div ?K < 2 ^ 64"
    then have "?K * 2 ^ 64 \<le> ?K * (v div ?K)" by (intro mult_left_mono) simp_all
    moreover have "v = ?K * (v div ?K) + v mod ?K" "0 \<le> v mod ?K" by simp_all
    ultimately show False using assms(3) by linarith
  qed
  moreover have "0 \<le> v div 2 ^ (64 * n)" using assms(2) by (simp add: pos_imp_zdiv_nonneg_iff)
  ultimately have "uint c = v div 2 ^ (64 * n)"
    using assms(1) by (auto simp: split_carry_def uint_word_of_int_eq take_bit_int_eq_self)
  then show ?thesis using assms(1) by (auto simp: split_carry_def limbs_val_of)
qed

lemma split_borrow_ok:
  assumes "split_borrow n v = (r, c)" and "- (2 ^ (64 * n)) \<le> v" and "v < 2 ^ (64 * n)"
  shows "length r = n \<and> limbs_val r = v + 2 ^ (64 * n) * uint c"
proof (cases "v < 0")
  case True
  have "v mod 2 ^ (64 * n) = (v + 2 ^ (64 * n)) mod 2 ^ (64 * n)" by simp
  also have "\<dots> = v + 2 ^ (64 * n)" using True assms(2) by (intro mod_pos_pos_trivial) simp_all
  finally show ?thesis using assms(1) True by (auto simp: split_borrow_def limbs_val_of)
qed (use assms in \<open>auto simp: split_borrow_def limbs_val_of\<close>)

lemma sum_bound:
  fixes K :: int
  assumes "0 \<le> a" "a < K" "b < K"
  shows "a + b < K * 2 ^ 64"
proof -
  have "a + b < K * 2" using assms by simp
  also have "K * 2 \<le> K * 2 ^ 64" using assms by (intro mult_left_mono) simp_all
  finally show ?thesis .
qed

lemma carry_bounds:
  fixes K :: int
  assumes "0 \<le> Z" "Z < K" "0 \<le> X" "X < K"
  shows "0 \<le> Z + X * uint (l :: u64) \<and> Z + X * uint l < K * 2 ^ 64"
proof -
  have l: "uint l \<le> 2 ^ 64 - 1" using uint_lt2p [of l] by simp
  have "X * uint l \<le> (K - 1) * (2 ^ 64 - 1)" using l assms by (intro mult_mono) simp_all
  moreover have "(K - 1) * (2 ^ 64 - 1) = K * 2 ^ 64 - K - 2 ^ 64 + 1" by (simp add: algebra_simps)
  ultimately show ?thesis using assms by (smt (verit) mult_nonneg_nonneg uint_ge_0 zero_less_power)
qed

lemmas mpir_ref_simps = mpir_ref_def mpir.simps

lemma mpir_ref_linear: "mpn_linear_ok mpir_ref"
proof -
  have add: "length r = n \<and> limbs_val r + 2 ^ (64 * n) * uint c = limbs_val (take n x) + limbs_val (take n y)"
    if "n \<le> length x" "n \<le> length y" "split_carry n (limbs_val (take n x) + limbs_val (take n y)) = (r, c)" for x y n r c
  proof (rule split_carry_ok [OF that(3)])
    have "limbs_val (take n x) < 2 ^ (64 * n)" "limbs_val (take n y) < 2 ^ (64 * n)"
      using limbs_val_take_bound that by simp_all
    then show "limbs_val (take n x) + limbs_val (take n y) < 2 ^ (64 * n) * 2 ^ 64"
      by (rule sum_bound [OF limbs_val_nonneg])
  qed simp
  have sub: "length r = m \<and> limbs_val r + limbs_val (take n y) = limbs_val (take m x) + 2 ^ (64 * m) * uint c"
    if "m \<le> length x" "n \<le> length y" "n \<le> m" "split_borrow m (limbs_val (take m x) - limbs_val (take n y)) = (r, c)" for x y m n r c
  proof -
    have "limbs_val (take m x) < 2 ^ (64 * m)" using limbs_val_take_bound that by simp
    moreover have "limbs_val (take n y) < 2 ^ (64 * n)" using limbs_val_take_bound that by simp
    moreover have "(2 :: int) ^ (64 * n) \<le> 2 ^ (64 * m)" using that by (intro power_increasing) simp_all
    ultimately show ?thesis
      using split_borrow_ok [OF that(4)] limbs_val_nonneg [of "take m x"] limbs_val_nonneg [of "take n y"] by linarith
  qed
  show ?thesis unfolding mpn_linear_ok_def mpir_ref_simps using add sub by blast
qed

lemma mpir_ref_product: "mpn_product_ok mpir_ref"
proof -
  have m: "length r = n \<and> limbs_val r + 2 ^ (64 * n) * uint c = limbs_val (take n z) + limbs_val (take n x) * uint l"
    if "n \<le> length x" "n \<le> length z" "split_carry n (limbs_val (take n z) + limbs_val (take n x) * uint l) = (r, c)"
    for x z n r c and l :: u64
    using split_carry_ok [OF that(3)]
      carry_bounds [OF limbs_val_nonneg limbs_val_take_bound [OF that(2)] limbs_val_nonneg limbs_val_take_bound [OF that(1)], of l]
    by blast
  have m1: "length r = n \<and> limbs_val r + 2 ^ (64 * n) * uint c = limbs_val (take n x) * uint l"
    if "n \<le> length x" "split_carry n (limbs_val (take n x) * uint l) = (r, c)" for x n r c and l :: u64
    using m [OF that(1), of "replicate n 0" l r c] that(2) by simp
  have p: "length (limbs_of (2 * n) (limbs_val (take n x) * limbs_val (take n y))) = 2 * n
       \<and> limbs_val (limbs_of (2 * n) (limbs_val (take n x) * limbs_val (take n y))) = limbs_val (take n x) * limbs_val (take n y)"
    if "n \<le> length x" "n \<le> length y" for x y n
  proof -
    have "limbs_val (take n x) * limbs_val (take n y) < 2 ^ (64 * n) * 2 ^ (64 * n)"
      using limbs_val_take_bound [OF that(1)] limbs_val_take_bound [OF that(2)] by (intro mult_strict_mono') simp_all
    also have "(2 :: int) ^ (64 * n) * 2 ^ (64 * n) = 2 ^ (64 * (2 * n))" by (simp flip: power_add)
    finally show ?thesis by (simp add: limbs_val_of)
  qed
  show ?thesis unfolding mpn_product_ok_def mpir_ref_simps using m m1 p by blast
qed

lemma limbs_val_top: "0 < n \<Longrightarrow> n \<le> length y \<Longrightarrow> y ! (n - 1) \<noteq> 0 \<Longrightarrow> 0 < limbs_val (take n y)"
proof -
  assume a: "0 < n" "n \<le> length y" "y ! (n - 1) \<noteq> 0"
  then have ne: "take n y \<noteq> []" by auto
  then have "last (take n y) \<noteq> 0" using a by (subst last_conv_nth) (simp_all add: min_def)
  from limbs_val_pos [OF ne this] show ?thesis
    using zero_less_power [of "2 :: int" "64 * (length (take n y) - 1)"] by linarith
qed

lemma ref_gcdext_ok:
  assumes Y: "0 < Y" "Y < 2 ^ (64 * n)" and X: "0 \<le> X" and sk: "ref_gcdext X Y n = (s, k)"
  shows "length s = n + 1" and "nat \<bar>k\<bar> \<le> n" and "limbs_val (take (nat \<bar>k\<bar>) s) < Y"
    and "k = 0 \<or> s ! (nat \<bar>k\<bar> - 1) \<noteq> 0" and "Y dvd X * (sgn k * limbs_val (take (nat \<bar>k\<bar>) s)) - gcd X Y"
    and "s ! n = 0"
proof -
  define S where "S = fst (bezw (nat X) (nat Y)) mod Y"
  have S: "0 \<le> S" "S < Y" using Y(1) by (simp_all add: S_def)
  have s: "s = limbs_of (n + 1) S" and k: "k = int (limb_count S)"
    using sk by (auto simp: ref_gcdext_def S_def Let_def simp del: limbs_of.simps)
  have "S < 2 ^ (64 * n)" using S Y by linarith
  then have le: "limb_count S \<le> n"
    using limbs_of_small [of "limbs_of (limb_count S) S" n] limbs_of_count [OF S(1)] limbs_of_last [of S] S(1)
    by (cases "S = 0") (simp_all add: limb_count.simps)
  have t: "take (nat \<bar>k\<bar>) s = limbs_of (limb_count S) S"
    using le take_limbs_of [of "limb_count S" "n + 1" S] by (simp add: s k)
  then have v: "limbs_val (take (nat \<bar>k\<bar>) s) = S" using limbs_of_count [OF S(1)] by simp
  show "length s = n + 1" by (simp only: s length_limbs_of)
  show "nat \<bar>k\<bar> \<le> n" using le by (simp add: k)
  show "limbs_val (take (nat \<bar>k\<bar>) s) < Y" using v S by simp
  show "k = 0 \<or> s ! (nat \<bar>k\<bar> - 1) \<noteq> 0"
  proof (cases "S = 0")
    case False
    then have ne: "limbs_of (limb_count S) S \<noteq> []" using S(1) by (simp add: limb_count.simps)
    then have c: "0 < limb_count S" by (metis length_greater_0_conv length_limbs_of)
    have "limb_count S - 1 < limb_count S" using c by simp
    then have "s ! (limb_count S - 1) = take (nat \<bar>k\<bar>) s ! (limb_count S - 1)" by (simp add: k)
    also have "\<dots> = last (limbs_of (limb_count S) S)" unfolding t using ne by (simp add: last_conv_nth)
    finally show ?thesis using limbs_of_last [of S] False S(1) by (simp add: k)
  qed (simp add: k limb_count.simps)
  have "int (gcd (nat X) (nat Y)) = fst (bezw (nat X) (nat Y)) * X + snd (bezw (nat X) (nat Y)) * Y"
    using bezw_aux [of "nat X" "nat Y"] X Y by simp
  then have g: "gcd X Y = fst (bezw (nat X) (nat Y)) * X + snd (bezw (nat X) (nat Y)) * Y"
    using X Y by (simp add: gcd_int_def)
  have "Y dvd S - fst (bezw (nat X) (nat Y))" unfolding S_def by (metis mod_eq_dvd_iff mod_mod_trivial)
  then have "Y dvd X * (S - fst (bezw (nat X) (nat Y))) - snd (bezw (nat X) (nat Y)) * Y" by (simp add: dvd_diff)
  then have "Y dvd X * S - gcd X Y" unfolding g by (simp add: algebra_simps)
  moreover have e: "sgn k * S = S" using S(1) by (cases "S = 0") (simp_all add: k limb_count.simps)
  ultimately show "Y dvd X * (sgn k * limbs_val (take (nat \<bar>k\<bar>) s)) - gcd X Y" unfolding v e by simp
  have "limbs_val (take (Suc n) s) = S" using \<open>S < 2 ^ (64 * n)\<close> S(1) take_limbs_of [of "n + 1" "n + 1" S]
    by (simp add: s limbs_val_of power_add del: limbs_of.simps)
  moreover have "limbs_val (take n s) = S" using \<open>S < 2 ^ (64 * n)\<close> S(1) take_limbs_of [of n "n + 1" S]
    by (simp add: s limbs_val_of del: limbs_of.simps)
  ultimately have "uint (s ! n) = 0" using limbs_val_take_Suc [of n s] by (simp add: s del: limbs_of.simps)
  then show "s ! n = 0" by (simp add: word_uint_eq_iff)
qed

lemma mpir_ref_division: "mpn_division_ok mpir_ref"
proof -
  have q: "length r = n \<and> limbs_val r = limbs_val (take m x) mod limbs_val (take n y)"
    if "n \<le> length y" "0 < n" "y ! (n - 1) \<noteq> 0"
      "(limbs_of (m - n + 1) (limbs_val (take m x) div limbs_val (take n y)), limbs_of n (limbs_val (take m x) mod limbs_val (take n y))) = (q, r)"
    for x m y n q r
  proof -
    have "0 < limbs_val (take n y)" using limbs_val_top that by blast
    then have "limbs_val (take m x) mod limbs_val (take n y) < limbs_val (take n y)" "0 \<le> limbs_val (take m x) mod limbs_val (take n y)" by simp_all
    then have "limbs_val (take m x) mod limbs_val (take n y) < 2 ^ (64 * n)" using limbs_val_take_bound [OF that(1)] by linarith
    then have "limbs_val (limbs_of n (limbs_val (take m x) mod limbs_val (take n y))) = limbs_val (take m x) mod limbs_val (take n y)"
      using \<open>0 \<le> limbs_val (take m x) mod limbs_val (take n y)\<close> by (simp add: limbs_val_of)
    moreover have "r = limbs_of n (limbs_val (take m x) mod limbs_val (take n y))" using that(4) by (simp del: limbs_of.simps)
    ultimately show ?thesis by simp
  qed
  have g: "length s = n + 1 \<and> nat \<bar>k\<bar> \<le> n \<and> limbs_val (take (nat \<bar>k\<bar>) s) < limbs_val (take n y)
        \<and> (k = 0 \<or> s ! (nat \<bar>k\<bar> - 1) \<noteq> 0)
        \<and> limbs_val (take n y) dvd
            limbs_val (take n x) * (sgn k * limbs_val (take (nat \<bar>k\<bar>) s)) - gcd (limbs_val (take n x)) (limbs_val (take n y))"
    if "n \<le> length y" "0 < n" "y ! (n - 1) \<noteq> 0" "ref_gcdext (limbs_val (take n x)) (limbs_val (take n y)) n = (s, k)" for x y n s k
    using ref_gcdext_ok [OF limbs_val_top [OF that(2,1,3)] limbs_val_take_bound [OF that(1)] limbs_val_nonneg that(4)] by blast
  show ?thesis unfolding mpn_division_ok_def mpir_ref_simps using q g by blast
qed

lemma mpir_ref_ok: "mpn_ok mpir_ref"
  by (simp add: mpn_ok_def mpir_ref_linear mpir_ref_product mpir_ref_division)

lemma mpir_ref_clears: "zp_wf zd \<Longrightarrow> gcdext_clears mpir_ref zd x"
proof -
  assume wf: "zp_wf zd"
  note d = zp_wfD [OF wf]
  let ?X = "limbs_val (take (zp_t zd) (take (zp_t zd) x))"
  have Y: "limbs_val (take (zp_t zd) (take (zp_t zd) (zp_prA zd))) = zp_pr zd" using d(7) by simp
  obtain s k where sk: "ref_gcdext ?X (zp_pr zd) (zp_t zd) = (s, k)" by fastforce
  have "0 < zp_pr zd" using d(4) by simp
  from ref_gcdext_ok(6) [OF this d(5) limbs_val_nonneg sk] show ?thesis
    using sk unfolding gcdext_clears_def mpir_ref_simps Y by simp
qed

lemma ref_invert_ok:
  assumes m: "1 < m" and c: "coprime a m"
  shows "0 < ref_invert a m \<and> ref_invert a m < m \<and> a * ref_invert a m mod m = 1"
proof -
  define u where "u = fst (bezw (nat (a mod m)) (nat m))"
  have "coprime (a mod m) m" using c m by (simp add: coprime_mod_left_iff)
  then have "gcd (nat (a mod m)) (nat m) = 1" using m by (simp add: coprime_iff_gcd_eq_1 gcd_int_def)
  then have "1 = u * (a mod m) + snd (bezw (nat (a mod m)) (nat m)) * m"
    using bezw_aux [of "nat (a mod m)" "nat m"] m by (simp add: u_def)
  then have "1 mod m = (u * (a mod m) + snd (bezw (nat (a mod m)) (nat m)) * m) mod m" by simp
  then have "u * (a mod m) mod m = 1" using m by simp
  then have one: "a * (u mod m) mod m = 1" by (simp add: mod_simps mult.commute)
  have "0 \<le> u mod m" "u mod m < m" using m by simp_all
  moreover have "u mod m \<noteq> 0" using one by auto
  ultimately show ?thesis using one by (simp add: ref_invert_def u_def)
qed

lemma mpir_ref_mpz: "mpz_ok mpir_ref"
proof -
  have l: "limbs_val (limbs_of (limb_count \<bar>x\<bar>) \<bar>x\<bar>) = \<bar>x\<bar> \<and> (limbs_of (limb_count \<bar>x\<bar>) \<bar>x\<bar> = [] \<or> last (limbs_of (limb_count \<bar>x\<bar>) \<bar>x\<bar>) \<noteq> 0)" for x
    using limbs_of_count [of "\<bar>x\<bar>"] limbs_of_last [of "\<bar>x\<bar>"] by (cases "x = 0") (simp_all add: limb_count.simps)
  show ?thesis unfolding mpz_ok_def mpir_ref_simps using l ref_invert_ok by blast
qed

lemma mpir_ref_io: "mpz_io_ok mpir_ref"
  using show_nat_ok by (simp add: mpz_io_ok_def mpir_ref_simps)

text \<open>The numbers modulo 7 in Montgomery representation, one limb.\<close>

definition zp7 :: Zp_Data where
  "zp7 = \<lparr>zp_montgomery = True, zp_R = 2 # replicate 15 0, zp_R2 = 4 # replicate 15 0, zp_R3 = 1 # replicate 15 0,
          zp_pi = 10540996613548315209, zp_prA = 7 # replicate 15 0, zp_t = 1, zp_pr = 7, zp_mask = Some 3\<rparr>"

lemma zp7_wf: "zp_wf zp7"
  by (simp add: zp7_def zp_wf_def zp_modulus_def zp_mont_def holds_val_def MAX_MOD_SZ_def)

lemma zp7_rep: "modp_rep zp7 (6 # replicate 15 0) 3" "modp_rep zp7 (3 # replicate 15 0) 5" "room zp7 modp_new"
  by (simp_all add: zp7_def modp_rep_def mont_form_def holds_val_def MAX_MOD_SZ_def room_def modp_new_def)

section \<open>Arithmetic modulo p\<close>

text \<open>C33. Under the laws of the library, on arrays that stand for numbers \<open>a\<close> and \<open>b\<close> modulo \<open>p\<close> (plain, or in
  Montgomery representation), every operation of \<open>modp\<close> succeeds and its array stands for the result of
  the same operation on integers modulo \<open>p\<close>; the tests decide equality of the numbers.
\<close>
theorem modp_arithmetic:
  assumes "mpn_ok M" and "zp_wf zd" and "modp_rep zd x a" and "modp_rep zd y b" and "room zd ans"
  shows "modp_rep zd (modp_Add M ans x y zd) ((a + b) mod zp_pr zd)
         \<and> modp_rep zd (modp_Sub M ans x y zd) ((a - b) mod zp_pr zd)
         \<and> modp_rep zd (modp_Negate M ans x zd) ((- a) mod zp_pr zd)
         \<and> (\<exists>r. modp_Mul M ans x y zd = Inr r \<and> modp_rep zd r (a * b mod zp_pr zd))
         \<and> (\<exists>r. modp_Sqr M ans x zd = Inr r \<and> modp_rep zd r (a * a mod zp_pr zd))
         \<and> modp_rep zd (modp_assignZero ans zd) 0 \<and> modp_rep zd (modp_assignOne ans zd) 1
         \<and> modp_isZero x zd = (a = 0) \<and> modp_isOne M x zd = (a = 1) \<and> modp_areEqual M x y zd = (a = b)"
proof -
  have len: "length ans = MAX_MOD_SZ" using assms(5) by (simp add: room_def)
  note a = assms(1-4)
  show ?thesis
    using modp_Add_ok [OF assms] modp_Sub_ok [OF assms] modp_Negate_ok [OF assms(1-3,5)] modp_Mul_ok [OF assms]
      modp_Sqr_ok [OF assms(1-3,5)] modp_assignZero_ok [OF assms(2) len] modp_assignOne_ok [OF assms(2) len]
      modp_isZero_ok [OF assms(2,3)] modp_isOne_ok [OF assms(1-3)] modp_areEqual_ok [OF a] by blast
qed

theorem modp_arithmetic_witness:
  "modp_rep zp7 (modp_Add mpir_ref modp_new (6 # replicate 15 0) (3 # replicate 15 0) zp7) 1
   \<and> (\<exists>r. modp_Mul mpir_ref modp_new (6 # replicate 15 0) (3 # replicate 15 0) zp7 = Inr r \<and> modp_rep zp7 r 1)"
  using modp_arithmetic [OF mpir_ref_ok zp7_wf zp7_rep] by (simp add: zp7_def)

text \<open>C34. \<open>Power\<close> ends for every exponent: with one that is not negative its array stands for the power modulo \<open>p\<close>, with a
  negative one it throws \<open>not_implemented\<close>. \<open>Inv\<close> gives the inverse of a number that has one, when the library
  clears the limb after the cofactor.
\<close>
theorem modp_power_inverse:
  assumes "mpn_ok M" and "zp_wf zd" and "modp_rep zd x a" and "room zd ans"
  shows "(if e < 0 then modp_Power M ans x e zd = Inl NotImplemented
          else \<exists>r. modp_Power M ans x e zd = Inr r \<and> modp_rep zd r (a ^ nat e mod zp_pr zd))
         \<and> (coprime a (zp_pr zd) \<and> gcdext_clears M zd x \<longrightarrow>
            (\<exists>r v. modp_Inv M ans x zd = Inr r \<and> modp_rep zd r v \<and> a * v mod zp_pr zd = 1))"
  using modp_Power_ok [OF assms, of e] modp_Power_negative [of e M ans x zd] modp_Inv_ok [OF assms(1-3) _ assms(4)]
  by (cases "e < 0") auto

theorem modp_power_inverse_witness:
  "(\<exists>r. modp_Power mpir_ref modp_new (6 # replicate 15 0) 10 zp7 = Inr r \<and> modp_rep zp7 r 4)
   \<and> (\<exists>r v. modp_Inv mpir_ref modp_new (6 # replicate 15 0) zp7 = Inr r \<and> modp_rep zp7 r v \<and> 3 * v mod 7 = 1)"
proof -
  have "coprime 3 (zp_pr zp7)" unfolding zp7_def Zp_Data.simps by code_simp
  then show ?thesis
    using modp_power_inverse [OF mpir_ref_ok zp7_wf zp7_rep(1,3), of 10] mpir_ref_clears [OF zp7_wf, of "6 # replicate 15 0"]
    by (simp add: zp7_def)
qed

text \<open>C35. \<open>init\<close> succeeds for every modulus \<open>p > 1\<close> of less than \<open>MAX_MOD_SZ\<close> limbs, whatever the object held before; for
  Montgomery representation \<open>p\<close> is odd and the residues of the radix have equal sizes. Then every integer
  goes into a \<open>modp\<close> and comes back as its residue. Without \<open>reduce\<close> it does so exactly when the residue fills the
  limbs of \<open>p\<close>; otherwise the result is not a normal number of the library. A larger modulus throws.
\<close>
theorem modp_roundtrip:
  assumes "mpn_ok M" and "mpz_ok M" and "1 < p" and "mont \<longrightarrow> odd p \<and> mont_sizes M p" and "length ans = MAX_MOD_SZ"
  shows "if mpz_size M p < MAX_MOD_SZ
         then \<exists>zd' r. Zp_init M p mont zd = Inr zd' \<and> zp_wf zd' \<and> zp_pr zd' = p \<and> to_modp_big M ans x zd' = Inr r
                \<and> modp_rep zd' r (x mod p) \<and> to_bigint M r zd' True = Inr (x mod p)
                \<and> to_bigint M r zd' False
                    = (if x mod p < 2 ^ (64 * (mpz_size M p - 1)) then Inl UndefinedBehaviour else Inr (x mod p))
         else Zp_init M p mont zd = Inl MaxModSzTooSmall"
proof (cases "mpz_size M p < MAX_MOD_SZ")
  case True
  obtain zd' where zd': "Zp_init M p mont zd = Inr zd'" "zp_wf zd'" "zp_pr zd' = p" "zp_t zd' = mpz_size M p"
    using Zp_init_ok [OF assms(2,3) True] assms(4) by metis
  then show ?thesis
    using to_modp_big_ok [OF assms(1,2) zd'(2) assms(5), of x] to_bigint_ok [OF assms(1) zd'(2)] True by auto
qed (simp add: Zp_init_too_large)

theorem modp_roundtrip_witness:
  "\<exists>zd' r. Zp_init mpir_ref 7 True zp7 = Inr zd' \<and> to_modp_big mpir_ref modp_new (- 11) zd' = Inr r
         \<and> to_bigint mpir_ref r zd' True = Inr 3"
proof -
  have one: "mpz_size mpir_ref x = 1" if "0 < x" "x < 2 ^ 64" for x
  proof -
    have "limb_count x = Suc (limb_count (x div 2 ^ 64))" using that by (subst limb_count.simps) simp
    then show ?thesis using that by (simp add: mpir_ref_simps limb_count.simps)
  qed
  have "mont_sizes mpir_ref 7" using one [of 7] one [of 2] one [of 4] one [of 1] by (simp add: mont_sizes_def)
  then show ?thesis
    using modp_roundtrip [OF mpir_ref_ok mpir_ref_mpz, of 7 True modp_new zp7 "- 11"] one [of 7]
    by (auto simp: MAX_MOD_SZ_def modp_new_def)
qed

section \<open>Residues of different sizes\<close>

text \<open>
  \<open>init\<close> copies as many limbs of \<open>R2\<close> as \<open>R\<close> has. This prime of two limbs is so near to \<open>2^128\<close> that \<open>R\<close> has one limb and
  \<open>R2\<close> two.
\<close>

definition near_prime :: int where
  "near_prime = 2 ^ 128 - 2 ^ 40 - 103"

lemma mpz_size_eq:
  assumes "mpz_ok M" and "0 < n" and "2 ^ (64 * (n - 1)) \<le> x" and "x < 2 ^ (64 * n)"
  shows "mpz_size M x = n"
proof (rule antisym)
  have x: "0 < x" using assms(3) zero_less_power [of "2 :: int" "64 * (n - 1)"] by linarith
  show "mpz_size M x \<le> n" using mpz_size_le [OF assms(1), of x n] assms(4) x by simp
  show "n \<le> mpz_size M x"
  proof (rule ccontr)
    assume "\<not> n \<le> mpz_size M x"
    then have "(2 :: int) ^ (64 * mpz_size M x) \<le> 2 ^ (64 * (n - 1))" by (intro power_increasing) simp_all
    then show False using mpz_less_pow [OF assms(1), of x] assms(3) x by linarith
  qed
qed

lemma near_prime_residue:
  assumes "1099511627879 ^ k < near_prime"
  shows "(2 ^ 128) ^ k mod near_prime = 1099511627879 ^ k"
proof -
  have "(2 ^ 128) mod near_prime = 1099511627879" by (simp add: near_prime_def)
  then have "(2 ^ 128) ^ k mod near_prime = 1099511627879 ^ k mod near_prime" using power_mod [of "2 ^ 128" near_prime k] by simp
  then show ?thesis using assms by simp
qed

lemma near_prime_sizes:
  assumes M: "mpz_ok M"
  shows "mpz_size M near_prime = 2" and "mpz_size M (2 ^ 128 mod near_prime) = 1"
    and "mpz_size M ((2 ^ 128) ^ 2 mod near_prime) = 2" and "mpz_size M ((2 ^ 128) ^ 3 mod near_prime) = 2"
proof -
  have b: "1099511627879 ^ 1 < near_prime" "1099511627879 ^ 2 < near_prime" "1099511627879 ^ 3 < near_prime"
    by (simp_all add: near_prime_def)
  note r = near_prime_residue [OF b(1), unfolded power_one_right] near_prime_residue [OF b(2)] near_prime_residue [OF b(3)]
  show "mpz_size M near_prime = 2" by (rule mpz_size_eq [OF M]) (simp_all add: near_prime_def)
  show "mpz_size M (2 ^ 128 mod near_prime) = 1" unfolding r by (rule mpz_size_eq [OF M]) simp_all
  show "mpz_size M ((2 ^ 128) ^ 2 mod near_prime) = 2" unfolding r by (rule mpz_size_eq [OF M]) simp_all
  show "mpz_size M ((2 ^ 128) ^ 3 mod near_prime) = 2" unfolding r by (rule mpz_size_eq [OF M]) simp_all
qed

lemma copy_low_limb:
  assumes M: "mpz_ok M" and n: "mpz_size M x = n" "0 < n" and x: "0 \<le> x" and t: "0 < zp_t zd" "zp_t zd < MAX_MOD_SZ"
  shows "\<exists>a. copy_mpz M x 1 = Inr a \<and> holds_val zd a (x mod 2 ^ 64)"
proof -
  have ne: "mpz_limbs M x \<noteq> []" using n by auto
  then have "limbs_val (take 1 (mpz_limbs M x)) = uint (mpz_limbs M x ! 0)" by (cases "mpz_limbs M x") simp_all
  also have "\<dots> = x mod 2 ^ 64" using limbs_val_mod [OF ne] unfolding mpz_limbsD(1) [OF M] abs_of_nonneg [OF x] by (rule sym)
  finally have "limbs_val (take 1 (mpz_limbs M x)) = x mod 2 ^ 64" .
  moreover have l: "length (take 1 (mpz_limbs M x)) = 1" using ne by (cases "mpz_limbs M x") simp_all
  moreover have "take (zp_t zd) (blit (replicate MAX_MOD_SZ 0) 0 (take 1 (mpz_limbs M x)))
      = take 1 (mpz_limbs M x) @ replicate (zp_t zd - 1) 0"
    using l t by (simp add: blit_def)
  moreover have "blit (replicate MAX_MOD_SZ 0) 0 (take 1 (mpz_limbs M x)) ! zp_t zd = 0"
    using l t by (simp add: nth_blit)
  ultimately have "holds_val zd (blit (replicate MAX_MOD_SZ 0) 0 (take 1 (mpz_limbs M x))) (x mod 2 ^ 64)"
    using t by (simp add: holds_val_def limbs_val_append)
  then show ?thesis using n by (simp add: copy_mpz_def)
qed

lemma near_prime_init:
  assumes M: "mpz_ok M"
  obtains zd' where "Zp_init M near_prime True zd = Inr zd'" and "zp_modulus zd'" and "zp_mont zd'" and "zp_montgomery zd'"
    and "zp_t zd' = 2" and "zp_pr zd' = near_prime" and "holds_val zd' (zp_R2 zd') (2 ^ 256 mod near_prime mod 2 ^ 64)"
proof -
  define z where "z = init_start M near_prime True zd"
  let ?p = near_prime and ?r = "(2 :: int) ^ 128"
  note sz = near_prime_sizes [OF M]
  have p: "1 < ?p" "odd ?p" by (simp_all add: near_prime_def)
  have zz: "zp_t z = 2" "zp_pr z = ?p" "zp_montgomery z" using sz(1) by (simp_all add: z_def)
  have lim: "2 < MAX_MOD_SZ" "0 < (2 :: nat)" by (simp_all add: MAX_MOD_SZ_def)
  note low = copy_low_limb [OF M, where zd = z, unfolded zz(1), OF _ _ _ lim(2,1)]
  have nn: "0 \<le> x mod ?p" for x using p by simp
  obtain R where R: "copy_mpz M (?r mod ?p) 1 = Inr R" using low [OF sz(2)] nn by auto
  obtain R2 where R2: "copy_mpz M (?r ^ 2 mod ?p) 1 = Inr R2" "holds_val z R2 (?r ^ 2 mod ?p mod 2 ^ 64)"
    using low [OF sz(3)] nn by auto
  obtain R3 where R3: "copy_mpz M (?r ^ 3 mod ?p) 1 = Inr R3" using low [OF sz(4)] nn by auto
  have pow: "mpz_pow_ui M 2 (zp_t z * 8 * 8) = ?r" using M zz by (simp add: mpz_ok_def)
  let ?q = "mpz_limbs M (?r - mpz_invert M ?p ?r) ! 0"
  let ?z = "z\<lparr>zp_pi := ?q, zp_R := R, zp_R2 := R2, zp_R3 := R3\<rparr>"
  have c: "mont_constants M z = Inr ?z"
    unfolding mont_constants_def pow Let_def mont_residues zz(2) sz(2) R R2(1) R3 by simp
  obtain a where a: "Zp_init M ?p True zd = Inr (?z\<lparr>zp_prA := a\<rparr>)" "zp_modulus (?z\<lparr>zp_prA := a\<rparr>)"
    using Zp_init_modulus [OF M p(1), of True zd ?z] c zz sz(1) lim(1) unfolding z_def by auto
  have q: "(uint ?q * ?p + 1) mod 2 ^ 64 = 0" using mont_pi [OF M p, of 2] by simp
  have "?r ^ 2 = 2 ^ 256" by simp
  then show thesis
    using that [OF a] zz q R2(2) holds_val_cong [of z "?z\<lparr>zp_prA := a\<rparr>"] by (simp add: zp_mont_def)
qed

lemma near_prime_R2: "2 ^ 128 * (2 ^ 128 mod near_prime) mod near_prime \<noteq> 2 ^ 256 mod near_prime mod 2 ^ 64 mod near_prime"
  by (simp add: near_prime_def)

lemma near_prime_one:
  assumes M: "mpn_ok M" "mpz_ok M" and len: "length ans = MAX_MOD_SZ"
    and zd: "zp_modulus zd" "zp_mont zd" "zp_montgomery zd" "zp_t zd = 2" "zp_pr zd = near_prime"
    and R2: "holds_val zd (zp_R2 zd) (2 ^ 256 mod near_prime mod 2 ^ 64)"
  shows "\<exists>r v. to_modp_big M ans 1 zd = Inr r \<and> to_bigint M r zd True = Inr v \<and> v \<noteq> 1"
proof -
  let ?p = near_prime and ?K = "(2 :: int) ^ 128"
  have p: "1 < ?p" "2 ^ 64 < ?p" by (simp_all add: near_prime_def)
  have tm: "zp_t zd < MAX_MOD_SZ" by (simp add: zd(4) MAX_MOD_SZ_def)
  have wf: "zp_wf (zd\<lparr>zp_montgomery := False\<rparr>)" using zd by (simp add: zp_wf_def zp_modulus_def)
  define A where "A = blit (blit ans 0 (replicate (zp_t zd + 1) 0)) 0 (mpz_limbs M 1)"
  have "mpz_size M 1 \<le> zp_t zd" using mpz_size_le [OF M(2), of 1 1] zd(4) by simp
  then have A: "holds_val zd A 1"
    using holds_zero_blit [OF wf len, of "mpz_limbs M 1" 1] mpz_limbsD(1) [OF M(2), of 1]
    by (simp add: A_def holds_val_def)
  have lA: "zp_t zd < length A" "A ! zp_t zd = 0" "limbs_val (take (zp_t zd) A) = 1"
    using A tm by (simp_all add: holds_val_def)
  let ?v2 = "2 ^ 256 mod near_prime mod 2 ^ 64 :: int"
  have lR: "zp_t zd < length (zp_R2 zd)" "zp_R2 zd ! zp_t zd = 0" "limbs_val (take (zp_t zd) (zp_R2 zd)) = ?v2"
    using R2 tm by (simp_all add: holds_val_def)
  have v2: "?v2 < zp_pr zd"
  proof -
    have "?v2 < 2 ^ 64" by (rule pos_mod_bound) simp
    then show ?thesis using p(2) zd(5) by linarith
  qed
  obtain r0 where r0: "Mont_Mult M zd A A (zp_R2 zd) = Inr (blit A 0 r0)" "length r0 = zp_t zd" "limbs_val r0 < zp_pr zd"
    and d0: "zp_pr zd dvd 2 ^ (64 * zp_t zd) * limbs_val r0 - limbs_val (take (zp_t zd) A) * limbs_val (take (zp_t zd) (zp_R2 zd))"
    using Mont_Mult_ok [OF M(1) zd(1,2) lA(1,2) lR(1,2) v2 [folded lR(3)]] by metis
  have one: "to_modp_big M ans 1 zd = Inr (blit A 0 r0)"
    using r0(1) zd(3,5) p(1) unfolding to_modp_big_def Let_def zd(5) bigint_rem_mod [OF p(1)] A_def by simp
  let ?z = "replicate MAX_MOD_SZ 0 :: limbs"
  have rA: "room zd A" using A by (simp add: holds_val_def room_def)
  have r: "holds_val zd (blit A 0 r0) (limbs_val r0)" by (rule holds_val_result [OF rA tm r0(2) refl])
  have lr: "zp_t zd < length (blit A 0 r0)" "blit A 0 r0 ! zp_t zd = 0" "limbs_val (take (zp_t zd) (blit A 0 r0)) = limbs_val r0"
    using r tm by (simp_all add: holds_val_def)
  have l1: "zp_t zd < length (?z[0 := 1])" "?z[0 := 1] ! zp_t zd = 0" "limbs_val (take (zp_t zd) (?z[0 := 1])) = 1"
    using zd(4) by (simp_all add: MAX_MOD_SZ_def eval_nat_numeral)
  have p1: "1 < zp_pr zd" using p zd(5) by simp
  obtain r1 where r1: "Mont_Mult M zd ?z (blit A 0 r0) (?z[0 := 1]) = Inr (blit ?z 0 r1)" "length r1 = zp_t zd"
    and d1: "zp_pr zd dvd 2 ^ (64 * zp_t zd) * limbs_val r1
      - limbs_val (take (zp_t zd) (blit A 0 r0)) * limbs_val (take (zp_t zd) (?z[0 := 1]))"
    using Mont_Mult_ok [OF M(1) zd(1,2) lr(1,2) l1(1,2) p1 [folded l1(3)]] by metis
  have t1: "take (zp_t zd) (blit ?z 0 r1) = r1" using r1(2) tm by (simp add: take_blit0)
  have v: "to_bigint M (blit A 0 r0) zd True = Inr (limbs_val r1)"
    using r1 zd(3) tm reduce_size_val [of "zp_t zd" "blit ?z 0 r1"] unfolding to_bigint_def Let_def
    by (simp add: t1)
  have "limbs_val r1 \<noteq> 1"
  proof
    assume e: "limbs_val r1 = 1"
    have "?p dvd ?K - limbs_val r0" using d1 lr(3) l1(3) e zd(4,5) by simp
    then have "?K mod ?p = limbs_val r0 mod ?p" by (simp add: mod_eq_dvd_iff)
    then have "?K mod ?p = limbs_val r0" using r0(3) zd(5) by simp
    then have "?p dvd ?K * (?K mod ?p) - ?v2" using d0 lA(3) lR(3) zd(4,5) by simp
    then have "?K * (?K mod ?p) mod ?p = ?v2 mod ?p" by (simp only: mod_eq_dvd_iff)
    then show False using near_prime_R2 by contradiction
  qed
  then show ?thesis using one v by blast
qed

text \<open>C36. With the prime \<open>2^128 - 2^40 - 103\<close>, \<open>init\<close> succeeds in Montgomery representation but stores only the low limb of
  \<open>R2\<close>: the number 1 goes in and does not come back as 1, whatever library meets the laws.
\<close>
theorem init_truncates_R2:
  assumes "mpn_ok M" and "mpz_ok M" and "length ans = MAX_MOD_SZ"
  shows "\<exists>zd' r v. Zp_init M near_prime True zd = Inr zd' \<and> limbs_val (take 2 (zp_R2 zd')) \<noteq> 2 ^ 256 mod near_prime
           \<and> to_modp_big M ans 1 zd' = Inr r \<and> to_bigint M r zd' True = Inr v \<and> v \<noteq> 1"
proof -
  obtain zd' where z: "Zp_init M near_prime True zd = Inr zd'" "zp_modulus zd'" "zp_mont zd'" "zp_montgomery zd'"
    "zp_t zd' = 2" "zp_pr zd' = near_prime" "holds_val zd' (zp_R2 zd') (2 ^ 256 mod near_prime mod 2 ^ 64)"
    by (rule near_prime_init [OF assms(2)])
  have "limbs_val (take 2 (zp_R2 zd')) < 2 ^ 64" using z(5,7) by (simp add: holds_val_def)
  moreover have "2 ^ 64 \<le> (2 ^ 256 :: int) mod near_prime"
  proof -
    have "(2 ^ 256 :: int) mod near_prime = (2 ^ 128) ^ 2 mod near_prime" by (simp only: power_mult [symmetric]) simp
    also have "\<dots> = 1099511627879 ^ 2" by (rule near_prime_residue) (simp add: near_prime_def)
    finally show ?thesis by simp
  qed
  ultimately show ?thesis using near_prime_one [OF assms z(2-7)] z(1) by fastforce
qed

theorem init_truncates_R2_witness:
  "\<exists>zd' r v. Zp_init mpir_ref near_prime True zp7 = Inr zd' \<and> to_modp_big mpir_ref modp_new 1 zd' = Inr r
     \<and> to_bigint mpir_ref r zd' True = Inr v \<and> v \<noteq> 1"
  using init_truncates_R2 [OF mpir_ref_ok mpir_ref_mpz, of modp_new zp7] by (auto simp: modp_new_def)

end
