(* ===== verification/BDX_Bigint.thy ===== *)
theory BDX_Bigint
  imports BDX_Modp
begin

text \<open>
  \<open>OT/Math/bigint.{h,cpp}\<close>: square roots modulo a prime (Shanks), powers, logarithms and the conversion of big integers
  to bytes. The \<open>mpz\<close> functions of MPIR are the record \<open>mpz_lib\<close>, with a random generator of type \<open>'g\<close>;
  \<open>mpz_lib_ok\<close> states what its manual says of them. Loops that may not end are partial functions.
\<close>

record 'g mpz_lib =
  mz_powm :: "int \<Rightarrow> int \<Rightarrow> int \<Rightarrow> int"
  mz_invert :: "int \<Rightarrow> int \<Rightarrow> int"
  mz_tstbit :: "int \<Rightarrow> nat \<Rightarrow> bool"
  mz_even :: "int \<Rightarrow> bool"
  mz_legendre :: "int \<Rightarrow> int \<Rightarrow> int"
  mz_randinit :: "'g"
  mz_seed :: "'g \<Rightarrow> nat \<Rightarrow> 'g"
  mz_range :: "'g \<Rightarrow> int \<Rightarrow> int \<times> 'g"
  mz_import :: "u8 list \<Rightarrow> int"
  mz_export :: "int \<Rightarrow> u8 list"

text \<open>The quotient of \<open>bigint\<close> rounds towards zero.\<close>

definition bigint_quo :: "int \<Rightarrow> int \<Rightarrow> int" where
  "bigint_quo a b = sgn a * sgn b * (\<bar>a\<bar> div \<bar>b\<bar>)"

section \<open>Square roots\<close>

partial_function (option) find_nonresidue :: "'g mpz_lib \<Rightarrow> int \<Rightarrow> 'g \<Rightarrow> int option" where
  "find_nonresidue M p g =
     (if mz_legendre M (fst (mz_range M g p)) p = - 1 then Some (fst (mz_range M g p))
      else find_nonresidue M p (snd (mz_range M g p)))"

partial_function (option) split_two :: "'g mpz_lib \<Rightarrow> int \<Rightarrow> nat \<Rightarrow> (nat \<times> int) option" where
  "split_two M q e = (if mz_even M q then split_two M (bigint_quo q 2) (e + 1) else Some (e, q))"

text \<open>The inner loop: the smallest \<open>m\<close> with \<open>b^(2^m) = 1\<close>.\<close>

partial_function (option) find_m :: "int \<Rightarrow> int \<Rightarrow> nat \<Rightarrow> nat option" where
  "find_m p temp m = (if temp \<noteq> 1 then find_m p (bigint_rem (temp * temp) p) (m + 1) else Some m)"

definition square_times :: "int \<Rightarrow> nat \<Rightarrow> int \<Rightarrow> int" where
  "square_times p n t = ((\<lambda>t. bigint_rem (t * t) p) ^^ n) t"

partial_function (option) shanks_loop :: "int \<Rightarrow> int \<Rightarrow> nat \<Rightarrow> int \<Rightarrow> int \<Rightarrow> int option" where
  "shanks_loop p y r x b =
     (if b \<noteq> 1
      then Option.bind (find_m p (bigint_rem (b * b) p) 1) (\<lambda>m.
           let t = square_times p (r - m - 1) y;
               y = bigint_rem (t * t) p
           in shanks_loop p y m (bigint_rem (x * t) p) (bigint_rem (b * y) p))
      else Some x)"

definition sqrRootMod :: "'g mpz_lib \<Rightarrow> int \<Rightarrow> int \<Rightarrow> int option" where
  "sqrRootMod M a p =
     (if a = 0 then Some 0
      else if mz_tstbit M p 1 then Some (mz_powm M a (bigint_quo (p + 1) 4) p)
      else Option.bind (find_nonresidue M p (mz_seed M (mz_randinit M) 0)) (\<lambda>n.
           Option.bind (split_two M (p - 1) 0) (\<lambda>(e, q).
           let y = mz_powm M n q p;
               temp = bigint_quo (q - 1) 2;
               x = mz_powm M a temp p;
               b = bigint_rem (a * x * x) p;
               x = bigint_rem (a * x) p
           in shanks_loop p y e x b)))"

section \<open>Powers\<close>

definition powerMod :: "'g mpz_lib \<Rightarrow> int \<Rightarrow> int \<Rightarrow> int \<Rightarrow> int" where
  "powerMod M x e p =
     (if e \<ge> 0 then mz_powm M x e p
      else let ei = - e; xi = mz_invert M x p in mz_powm M xi ei p)"

text \<open>The same on \<open>int\<close>: a product outside of 32 bits is undefined.\<close>

definition int_mul_rem :: "int \<Rightarrow> int \<Rightarrow> int \<Rightarrow> int result" where
  "int_mul_rem x y p =
     (if p \<noteq> 0 \<and> - (2 ^ 31) \<le> x * y \<and> x * y < 2 ^ 31 \<and> \<not> (p = - 1 \<and> x * y = - (2 ^ 31))
      then Inr (bigint_rem (x * y) p) else Inl UndefinedBehaviour)"

fun powerMod_loop :: "nat \<Rightarrow> int \<Rightarrow> int \<Rightarrow> int \<Rightarrow> int result" where
  "powerMod_loop e ans t p =
     (if e = 0 then Inr ans
      else bind_r (if odd e then int_mul_rem ans t p else Inr ans) (\<lambda>ans.
           bind_r (int_mul_rem t t p) (\<lambda>t. powerMod_loop (e div 2) ans t p)))"

declare powerMod_loop.simps [simp del]

definition powerMod_int :: "int \<Rightarrow> int \<Rightarrow> int \<Rightarrow> int result" where
  "powerMod_int x e p =
     (if e = 1 then Inr x else if e = 0 then Inr 1 else if e < 0 then Inl NotImplemented
      else powerMod_loop (nat e) 1 x p)"

section \<open>Helpers\<close>

fun log_loop :: "nat \<Rightarrow> nat \<Rightarrow> nat \<Rightarrow> nat" where
  "log_loop x lim result = (if lim < x then log_loop (x div 2) lim (result + 1) else result)"

declare log_loop.simps [simp del]

definition CEIL_LOG2 :: "int \<Rightarrow> nat" where
  "CEIL_LOG2 x = log_loop (nat (x - 1)) 0 0"

definition FLOOR_LOG2 :: "int \<Rightarrow> nat" where
  "FLOOR_LOG2 x = log_loop (nat x) 1 0"

definition bigintFromBytes :: "'g mpz_lib \<Rightarrow> u8 list \<Rightarrow> int" where
  "bigintFromBytes M mData = mz_import M mData"

text \<open>\<open>mpz_export\<close> writes the bytes of \<open>x\<close>, most significant first; the rest of the buffer is filled with zeros.\<close>

definition bytesFromBigint :: "'g mpz_lib \<Rightarrow> int \<Rightarrow> nat \<Rightarrow> u8 list result" where
  "bytesFromBigint M x len =
     (let bytes = mz_export M x
      in bind_r (require (length bytes \<le> len) InvalidLength) (\<lambda>_.
         Inr (bytes @ replicate (len - length bytes) 0)))"

end
