(* ===== verification/BDX_Shanks.thy ===== *)
theory BDX_Shanks
  imports BDX_Bigint BDX_Field
begin

text \<open>
  \<open>sqrRootMod\<close> finds square roots: the facts on primes it rests on, the invariant of Shanks' loop, its
  termination on residues and its divergence on the others.
\<close>

section \<open>Primes\<close>

definition prime_int :: "int \<Rightarrow> bool" where
  "prime_int p \<longleftrightarrow> 1 < p \<and> (\<forall>d. 1 < d \<longrightarrow> d < p \<longrightarrow> \<not> d dvd p)"

lemma prime_int_dvd_mult:
  assumes p: "prime_int p" and d: "p dvd a * b"
  shows "p dvd a \<or> p dvd b"
proof -
  let ?g = "gcd a p"
  have p1: "1 < p" using p by (simp add: prime_int_def)
  have g: "?g dvd p" "0 < ?g" using p1 by auto
  then have "?g \<le> p" using p1 by (intro zdvd_imp_le) simp_all
  then have "?g = 1 \<or> ?g = p" using p g unfolding prime_int_def by (metis less_le linorder_not_less zless_imp_add1_zle add_0)
  then show ?thesis
  proof
    assume "?g = 1"
    then have "coprime p a" by (simp add: coprime_iff_gcd_eq_1 gcd.commute)
    then show ?thesis using d coprime_dvd_mult_right_iff by blast
  next
    assume "?g = p"
    then show ?thesis by (metis gcd_dvd1)
  qed
qed

lemma prime_int_dvd_power: "prime_int p \<Longrightarrow> p dvd a ^ n \<Longrightarrow> p dvd a"
proof (induction n)
  case 0
  then show ?case by (simp add: prime_int_def zdvd_not_zless)
next
  case (Suc n)
  then show ?case using prime_int_dvd_mult [of p a "a ^ n"] by auto
qed

lemma prime_int_coprime:
  assumes "prime_int p" and "0 < k" and "k < p"
  shows "\<not> p dvd k"
  using assms zdvd_not_zless by blast

lemma prime_dvd_choose:
  assumes p: "prime_int (int P)" and k: "0 < k" "k < P"
  shows "int P dvd int (P choose k)"
proof -
  have "k * (P choose k) = P * ((P - 1) choose (k - 1))" using k(1) by (rule times_binomial_minus1_eq)
  then have "int P dvd int k * int (P choose k)" by (metis dvd_triv_left of_nat_mult)
  from prime_int_dvd_mult [OF p this] show ?thesis using prime_int_coprime [OF p, of "int k"] k by simp
qed

lemma fermat_nat:
  assumes p: "prime_int (int P)"
  shows "int P dvd int n ^ P - int n"
proof (induction n)
  case 0
  then show ?case using p by (cases P) (simp_all add: prime_int_def)
next
  case (Suc n)
  have P0: "0 < P" using p by (simp add: prime_int_def)
  have "(int n + 1) ^ P = (\<Sum>k\<le>P. int (P choose k) * int n ^ k)"
    using binomial_ring [of "int n" 1 P] by simp
  also have "\<dots> = (\<Sum>k\<in>{0<..<P}. int (P choose k) * int n ^ k) + 1 + int n ^ P"
  proof -
    have "{..P} = insert 0 (insert P {0<..<P})" using P0 by auto
    then show ?thesis using P0 by simp
  qed
  finally have e: "int (Suc n) ^ P - int (Suc n)
      = (\<Sum>k\<in>{0<..<P}. int (P choose k) * int n ^ k) + (int n ^ P - int n)" by (simp add: add.commute)
  have "int P dvd (\<Sum>k\<in>{0<..<P}. int (P choose k) * int n ^ k)"
    using prime_dvd_choose [OF p] by (intro dvd_sum) (simp add: dvd_mult2)
  then show ?case unfolding e using Suc by (rule dvd_add)
qed

lemma fermat:
  assumes p: "prime_int p" and a: "\<not> p dvd a"
  shows "a ^ nat (p - 1) mod p = 1"
proof -
  have p1: "1 < p" using p by (simp add: prime_int_def)
  define n where "n = nat (a mod p)"
  have n: "int n = a mod p" using p1 by (simp add: n_def)
  have "p dvd (a mod p) ^ nat p - a mod p" using fermat_nat [of "nat p" n] p p1 n by simp
  moreover have "(a mod p) ^ nat p = (a mod p) * (a mod p) ^ nat (p - 1)"
    using p1 by (simp add: nat_diff_distrib' flip: power_Suc)
  ultimately have "p dvd (a mod p) * ((a mod p) ^ nat (p - 1) - 1)" by (simp add: algebra_simps)
  moreover have "\<not> p dvd a mod p" using a p1 by (simp add: dvd_mod_iff)
  ultimately have "p dvd (a mod p) ^ nat (p - 1) - 1" using prime_int_dvd_mult [OF p] by blast
  then have "(a mod p) ^ nat (p - 1) mod p = 1 mod p" by (simp only: mod_eq_dvd_iff)
  then show ?thesis using p1 by (simp add: power_mod)
qed

lemma square_one:
  assumes p: "prime_int p" and s: "a * a mod p = 1"
  shows "a mod p = 1 \<or> a mod p = p - 1"
proof -
  have p1: "1 < p" using p by (simp add: prime_int_def)
  have "p dvd a * a - 1" using s p1 by (metis mod_eq_dvd_iff mod_pos_pos_trivial zero_le_one)
  then have "p dvd (a - 1) * (a + 1)" by (simp add: algebra_simps)
  then consider "p dvd a - 1" | "p dvd a + 1" using prime_int_dvd_mult [OF p] by blast
  then show ?thesis
  proof cases
    case 1
    then have "a mod p = 1 mod p" by (simp only: mod_eq_dvd_iff)
    then show ?thesis using p1 by simp
  next
    case 2
    then have "p dvd a - (- 1)" by simp
    then have "a mod p = (- 1) mod p" by (simp only: mod_eq_dvd_iff)
    then show ?thesis using p1 by (simp add: zmod_minus1)
  qed
qed

section \<open>The library\<close>

definition bytes_val :: "u8 list \<Rightarrow> int" where
  "bytes_val = foldl (\<lambda>acc b. 256 * acc + uint b) 0"

definition mpz_lib_ok :: "'g mpz_lib \<Rightarrow> bool" where
  "mpz_lib_ok M \<longleftrightarrow>
     (\<forall>b e m. 0 \<le> e \<longrightarrow> 1 < m \<longrightarrow> mz_powm M b e m = b ^ nat e mod m)
     \<and> (\<forall>x i. 0 \<le> x \<longrightarrow> mz_tstbit M x i = bit x i)
     \<and> (\<forall>x. mz_even M x = even x)
     \<and> (\<forall>a p. prime_int p \<longrightarrow> 2 < p \<longrightarrow> mz_legendre M a p \<in> {- 1, 0, 1}
          \<and> p dvd a ^ nat ((p - 1) div 2) - mz_legendre M a p)
     \<and> (\<forall>a m. 1 < m \<longrightarrow> coprime a m \<longrightarrow> a * mz_invert M a m mod m = 1)
     \<and> (\<forall>b. mz_import M b = bytes_val b)
     \<and> (\<forall>x. bytes_val (mz_export M x) = \<bar>x\<bar>)"

lemma mpz_lib_okD:
  assumes "mpz_lib_ok M"
  shows "0 \<le> e \<Longrightarrow> 1 < m \<Longrightarrow> mz_powm M b e m = b ^ nat e mod m"
    and "0 \<le> x \<Longrightarrow> mz_tstbit M x i = bit x i"
    and "mz_even M x = even x"
    and "prime_int p \<Longrightarrow> 2 < p \<Longrightarrow> p dvd a ^ nat ((p - 1) div 2) - mz_legendre M a p"
    and "1 < m \<Longrightarrow> coprime a m \<Longrightarrow> a * mz_invert M a m mod m = 1"
    and "mz_import M bs = bytes_val bs"
    and "bytes_val (mz_export M x) = \<bar>x\<bar>"
  using assms unfolding mpz_lib_ok_def by blast+

text \<open>Exponents of Shanks' algorithm are powers of two.\<close>

lemma bigint_rem_pos: "0 \<le> x \<Longrightarrow> 0 < p \<Longrightarrow> bigint_rem x p = x mod p"
  by (cases "x = 0") (simp_all add: bigint_rem_def)

lemma pow_two_Suc: "(x :: int) ^ 2 ^ Suc n = (x * x) ^ 2 ^ n"
  by (simp add: power_mult power2_eq_square)

lemma square_times_ok:
  assumes "0 < p"
  shows "0 \<le> t \<Longrightarrow> t < p \<Longrightarrow> square_times p n t = t ^ 2 ^ n mod p"
proof (induction n arbitrary: t)
  case 0
  then show ?case by (simp add: square_times_def)
next
  case (Suc n)
  have b: "0 \<le> t * t mod p" "t * t mod p < p" using assms by simp_all
  have "square_times p (Suc n) t = square_times p n (t * t mod p)"
    using Suc.prems assms by (simp add: square_times_def funpow_Suc_right bigint_rem_pos del: funpow.simps)
  also have "\<dots> = (t * t) ^ 2 ^ n mod p" using Suc.IH [OF b] by (simp add: power_mod)
  finally show ?case by (simp only: pow_two_Suc)
qed

lemma minus_one_square: "x mod p = p - 1 \<Longrightarrow> 1 < (p :: int) \<Longrightarrow> x * x mod p = 1"
proof -
  assume x: "x mod p = p - 1" and p: "1 < p"
  have "x * x mod p = (x mod p) * (x mod p) mod p" by (simp add: mod_mult_eq)
  also have "\<dots> = ((- 1) mod p) * ((- 1) mod p) mod p" using x p by (simp add: zmod_minus1)
  also have "\<dots> = 1" using p by (simp add: mod_mult_eq)
  finally show "x * x mod p = 1" .
qed

text \<open>The inner loop returns the first \<open>k\<close> from \<open>1\<close> on with \<open>b^(2^k) = 1\<close>.\<close>

lemma find_m_ok:
  assumes p: "1 < p" and k: "b ^ 2 ^ k mod p = 1" and least: "\<And>j. j < k \<Longrightarrow> b ^ 2 ^ j mod p \<noteq> 1" and mk: "m \<le> k"
  shows "find_m p (b ^ 2 ^ m mod p) m = Some k"
  using mk
proof (induction "k - m" arbitrary: m)
  case 0
  then show ?case using k by (simp add: find_m.simps)
next
  case (Suc d)
  then have m: "m < k" "d = k - (m + 1)" by simp_all
  have "bigint_rem ((b ^ 2 ^ m mod p) * (b ^ 2 ^ m mod p)) p = b ^ 2 ^ m * b ^ 2 ^ m mod p"
    using p by (simp add: bigint_rem_pos mod_mult_eq)
  also have "b ^ 2 ^ m * b ^ 2 ^ m = b ^ 2 ^ (m + 1)" by (simp add: mult_2 flip: power_add)
  finally have e: "bigint_rem ((b ^ 2 ^ m mod p) * (b ^ 2 ^ m mod p)) p = b ^ 2 ^ (m + 1) mod p" .
  have "find_m p (b ^ 2 ^ m mod p) m = find_m p (b ^ 2 ^ (m + 1) mod p) (m + 1)"
    using least [OF m(1)] unfolding e [symmetric] by (subst find_m.simps) simp
  then show ?case using Suc.hyps(1) [OF m(2)] m(1) by simp
qed

lemma split_two_ok:
  assumes M: "mpz_lib_ok M"
  shows "odd q \<Longrightarrow> 0 < q \<Longrightarrow> split_two M (2 ^ k * q) e = Some (e + k, q)"
proof (induction k arbitrary: e)
  case 0
  then show ?case using mpz_lib_okD(3) [OF M] by (simp add: split_two.simps)
next
  case (Suc k)
  have "bigint_quo (2 ^ Suc k * q) 2 = 2 ^ k * q" using Suc.prems by (simp add: bigint_quo_def)
  then show ?case using mpz_lib_okD(3) [OF M] Suc.IH [OF Suc.prems, of "e + 1"] by (subst split_two.simps) simp
qed

lemma find_nonresidue_ok:
  assumes "mz_legendre M (fst (mz_range M (((\<lambda>g. snd (mz_range M g p)) ^^ k) g) p)) p = - 1"
  shows "\<exists>n. find_nonresidue M p g = Some n \<and> mz_legendre M n p = - 1"
  using assms
proof (induction k arbitrary: g)
  case 0
  then show ?case by (simp add: find_nonresidue.simps)
next
  case (Suc k)
  then have "\<exists>n. find_nonresidue M p (snd (mz_range M g p)) = Some n \<and> mz_legendre M n p = - 1"
    by (simp only: funpow_Suc_right comp_apply)
  then show ?case by (cases "mz_legendre M (fst (mz_range M g p)) p = - 1") (subst find_nonresidue.simps, simp)+
qed

lemma find_nonresidue_legendre:
  assumes "find_nonresidue M p g = Some n"
  shows "mz_legendre M n p = - 1"
proof -
  let ?P = "\<lambda>(M :: 'a mpz_lib) p (g :: 'a) n. mz_legendre M n p = - 1"
  have step: "?P M p g n"
    if IH: "\<And>M p g n. f M p g = Some n \<Longrightarrow> ?P M p g n"
      and eq: "(if mz_legendre M (fst (mz_range M g p)) p = - 1 then Some (fst (mz_range M g p))
                else f M p (snd (mz_range M g p))) = Some n"
    for f :: "'a mpz_lib \<Rightarrow> int \<Rightarrow> 'a \<Rightarrow> int option" and M p g n
    using eq IH [of M p] by (auto split: if_splits)
  show "?P M p g n"
  proof (rule find_nonresidue.raw_induct [of ?P M p g n])
    show "find_nonresidue M p g = Some n" by (rule assms)
  qed (rule step, assumption+)
qed

section \<open>Shanks' loop\<close>

text \<open>
  The invariant: \<open>x * x = a * b\<close>, \<open>y\<close> is a root of \<open>- 1\<close> of degree \<open>2^(r-1)\<close>, and \<open>b\<close> is a root of \<open>1\<close> of that degree.
\<close>

definition shanks_inv :: "int \<Rightarrow> int \<Rightarrow> int \<Rightarrow> nat \<Rightarrow> int \<Rightarrow> int \<Rightarrow> bool" where
  "shanks_inv p a y r x b \<longleftrightarrow>
     0 < r \<and> 0 \<le> y \<and> y < p \<and> 0 \<le> x \<and> x < p \<and> 0 \<le> b \<and> b < p \<and> x * x mod p = a * b mod p
     \<and> y ^ 2 ^ (r - 1) mod p = p - 1 \<and> b ^ 2 ^ (r - 1) mod p = 1"

lemma least_order:
  assumes p: "prime_int p" and b: "0 \<le> b" "b < p" "b \<noteq> 1" and r: "b ^ 2 ^ (r - 1) mod p = 1" "0 < r"
  obtains k where "0 < k" and "k < r" and "b ^ 2 ^ k mod p = 1" and "\<And>j. j < k \<Longrightarrow> b ^ 2 ^ j mod p \<noteq> 1"
    and "b ^ 2 ^ (k - 1) mod p = p - 1"
proof -
  define k where "k = (LEAST k. b ^ 2 ^ k mod p = 1)"
  have k: "b ^ 2 ^ k mod p = 1" unfolding k_def by (rule LeastI [of "\<lambda>k. b ^ 2 ^ k mod p = 1", OF r(1)])
  have least: "b ^ 2 ^ j mod p \<noteq> 1" if "j < k" for j using that not_less_Least unfolding k_def by blast
  have "k \<le> r - 1" unfolding k_def by (rule Least_le [of "\<lambda>k. b ^ 2 ^ k mod p = 1", OF r(1)])
  then have kr: "k < r" using r(2) by simp
  have k0: "0 < k" using k b by (cases k) simp_all
  have "(b ^ 2 ^ (k - 1)) * (b ^ 2 ^ (k - 1)) = b ^ 2 ^ k"
    using k0 by (cases k) (simp_all add: mult_2 flip: power_add)
  then have "b ^ 2 ^ (k - 1) mod p = p - 1" using square_one [OF p, of "b ^ 2 ^ (k - 1)"] k least [of "k - 1"] k0 by simp
  then show thesis using that k0 kr k least by blast
qed

lemma pow_mult_mod: "(b * c mod p) ^ n mod p = (b ^ n mod p) * (c ^ n mod p) mod (p :: int)"
  by (simp add: power_mod power_mult_distrib mod_mult_eq)

text \<open>The new values of one round.\<close>

lemma shanks_round:
  assumes p: "1 < p" and k: "0 < k" "k < r" and bk: "b ^ 2 ^ (k - 1) mod p = p - 1"
    and inv: "shanks_inv p a y r x b"
    and t: "t = square_times p (r - k - 1) y" and y': "y' = bigint_rem (t * t) p"
  shows "shanks_inv p a y' k (bigint_rem (x * t) p) (bigint_rem (b * y') p)"
proof -
  have p0: "0 < p" using p by simp
  have i: "0 \<le> y" "y < p" "0 \<le> x" "0 \<le> b" "x * x mod p = a * b mod p" "y ^ 2 ^ (r - 1) mod p = p - 1"
    using inv by (simp_all add: shanks_inv_def)
  have tv: "t = y ^ 2 ^ (r - k - 1) mod p" using square_times_ok [OF p0 i(1,2)] t by simp
  then have t0: "0 \<le> t" using p0 by simp
  have y'v: "y' = t * t mod p" using y' t0 p0 by (simp add: bigint_rem_pos)
  have y'0: "0 \<le> y'" "y' < p" using y'v p0 by simp_all
  have xv: "bigint_rem (x * t) p = x * t mod p" and bv: "bigint_rem (b * y') p = b * y' mod p"
    using i t0 y'0 p0 by (simp_all add: bigint_rem_pos)
  have "y' = y ^ 2 ^ (r - k) mod p"
  proof -
    have "y' = y ^ 2 ^ (r - k - 1) * y ^ 2 ^ (r - k - 1) mod p" using y'v tv by (simp add: mod_mult_eq)
    moreover have "2 ^ (r - k - 1) + 2 ^ (r - k - 1) = (2 :: nat) ^ (r - k)" using k by (cases "r - k") simp_all
    ultimately show ?thesis by (simp flip: power_add)
  qed
  then have "y' ^ 2 ^ (k - 1) mod p = (y ^ 2 ^ (r - k)) ^ 2 ^ (k - 1) mod p" by (simp add: power_mod)
  also have "(y ^ 2 ^ (r - k)) ^ 2 ^ (k - 1) = y ^ 2 ^ (r - 1)"
    using k by (simp flip: power_mult power_add)
  finally have yk: "y' ^ 2 ^ (k - 1) mod p = p - 1" using i(6) by simp
  have "(b * y' mod p) ^ 2 ^ (k - 1) mod p = (b ^ 2 ^ (k - 1) mod p) * (y' ^ 2 ^ (k - 1) mod p) mod p"
    by (rule pow_mult_mod)
  also have "\<dots> = ((- 1) mod p) * ((- 1) mod p) mod p" using bk yk p by (simp add: zmod_minus1)
  also have "\<dots> = 1" using p by (simp add: mod_mult_eq)
  finally have b1: "(b * y' mod p) ^ 2 ^ (k - 1) mod p = 1" .
  have "(x * t mod p) * (x * t mod p) mod p = (x * x) * (t * t) mod p" by (simp add: mod_mult_eq ac_simps)
  also have "\<dots> = (a * b) * y' mod p" unfolding y'v by (rule mod_mult_cong) (simp_all add: i(5))
  also have "\<dots> = a * (b * y' mod p) mod p" by (simp add: mod_mult_right_eq mult.assoc)
  finally have "(x * t mod p) * (x * t mod p) mod p = a * (b * y' mod p) mod p" .
  then show ?thesis using yk b1 k y'0 p0 by (simp add: shanks_inv_def xv bv)
qed

lemma find_m_first:
  assumes "1 < p" and "0 \<le> b" and "0 < k"
    and "b ^ 2 ^ k mod p = 1" and "\<And>j. j < k \<Longrightarrow> b ^ 2 ^ j mod p \<noteq> 1"
  shows "find_m p (bigint_rem (b * b) p) 1 = Some k"
proof -
  have "find_m p (b ^ 2 ^ 1 mod p) 1 = Some k" using find_m_ok [OF assms(1,4,5), of 1] assms(3) by simp
  then show ?thesis using assms(1,2) by (simp add: bigint_rem_pos power2_eq_square)
qed

lemma shanks_loop_step:
  assumes "1 < p" and "b \<noteq> 1" and "0 \<le> b" and "0 < k"
    and "b ^ 2 ^ k mod p = 1" and "\<And>j. j < k \<Longrightarrow> b ^ 2 ^ j mod p \<noteq> 1"
  shows "shanks_loop p y r x b =
    (let t = square_times p (r - k - 1) y; y = bigint_rem (t * t) p
     in shanks_loop p y k (bigint_rem (x * t) p) (bigint_rem (b * y) p))"
  using find_m_first [OF assms(1,3-6)] assms(2) by (subst shanks_loop.simps) simp

lemma shanks_loop_ok:
  assumes p: "prime_int p"
  shows "shanks_inv p a y r x b \<Longrightarrow> \<exists>z. shanks_loop p y r x b = Some z \<and> 0 \<le> z \<and> z < p \<and> z * z mod p = a mod p"
proof (induction r arbitrary: y x b rule: less_induct)
  case (less r)
  have p1: "1 < p" using p by (simp add: prime_int_def)
  show ?case
  proof (cases "b = 1")
    case True
    then show ?thesis using less.prems by (simp add: shanks_loop.simps shanks_inv_def)
  next
    case False
    have i: "0 \<le> b" "b < p" "b ^ 2 ^ (r - 1) mod p = 1" "0 < r" using less.prems by (simp_all add: shanks_inv_def)
    obtain k where k: "0 < k" "k < r" "b ^ 2 ^ k mod p = 1" "\<And>j. j < k \<Longrightarrow> b ^ 2 ^ j mod p \<noteq> 1"
      "b ^ 2 ^ (k - 1) mod p = p - 1"
      using least_order [OF p i(1,2) False i(3,4)] by blast
    have e: "shanks_loop p y r x b =
      (let t = square_times p (r - k - 1) y; y = bigint_rem (t * t) p
       in shanks_loop p y k (bigint_rem (x * t) p) (bigint_rem (b * y) p))"
      using shanks_loop_step [OF p1 False i(1) k(1,3)] k(4) by blast
    show ?thesis
      using less.IH [OF k(2) shanks_round [OF p1 k(1,2,5) less.prems refl refl]] unfolding e Let_def .
  qed
qed

text \<open>On a non-residue the exponent stays where it is and the loop never ends.\<close>

definition shanks_stuck :: "int \<Rightarrow> int \<Rightarrow> nat \<Rightarrow> int \<Rightarrow> bool" where
  "shanks_stuck p y r b \<longleftrightarrow> 0 < r \<and> 0 \<le> y \<and> 0 \<le> b \<and> y ^ 2 ^ r mod p = 1 \<and> b ^ 2 ^ (r - 1) mod p = p - 1"

lemma shanks_stuck_find_m:
  assumes p: "2 < p" and s: "shanks_stuck p y r b"
  shows "b \<noteq> 1" and "find_m p (bigint_rem (b * b) p) 1 = Some r"
proof -
  have r: "0 < r" and b: "0 \<le> b" "b ^ 2 ^ (r - 1) mod p = p - 1" using s by (simp_all add: shanks_stuck_def)
  show "b \<noteq> 1" using b(2) p by auto
  have "b ^ 2 ^ r = b ^ 2 ^ (r - 1) * b ^ 2 ^ (r - 1)" using r by (cases r) (simp_all add: mult_2 power_add)
  then have br: "b ^ 2 ^ r mod p = 1" using minus_one_square [OF b(2)] p by simp
  have nj: "b ^ 2 ^ j mod p \<noteq> 1" if j: "j < r" for j
  proof
    assume e: "b ^ 2 ^ j mod p = 1"
    have "b ^ 2 ^ (r - 1) = (b ^ 2 ^ j) ^ 2 ^ (r - 1 - j)" using j by (simp flip: power_mult power_add)
    then have "b ^ 2 ^ (r - 1) mod p = (b ^ 2 ^ j mod p) ^ 2 ^ (r - 1 - j) mod p" by (simp add: power_mod)
    then show False using e b(2) p by simp
  qed
  show "find_m p (bigint_rem (b * b) p) 1 = Some r" using find_m_first [OF _ b(1) r br nj] p by simp
qed

lemma shanks_stuck_round:
  assumes p: "2 < p" and s: "shanks_stuck p y r b"
  shows "shanks_stuck p (bigint_rem (y * y) p) r (bigint_rem (b * bigint_rem (y * y) p) p)"
proof -
  have i: "0 < r" "0 \<le> y" "0 \<le> b" "y ^ 2 ^ r mod p = 1" "b ^ 2 ^ (r - 1) mod p = p - 1"
    using s by (simp_all add: shanks_stuck_def)
  have p0: "0 < p" using p by simp
  let ?y = "y * y mod p"
  have v: "bigint_rem (y * y) p = ?y" "bigint_rem (b * ?y) p = b * ?y mod p" "0 \<le> ?y"
    using i p0 by (simp_all add: bigint_rem_pos)
  have y1: "?y ^ 2 ^ (r - 1) mod p = 1"
  proof -
    have "?y ^ 2 ^ (r - 1) mod p = (y * y) ^ 2 ^ (r - 1) mod p" by (simp add: power_mod)
    also have "(y * y) ^ 2 ^ (r - 1) = y ^ 2 ^ r" using pow_two_Suc [of y "r - 1"] i(1) by simp
    finally show ?thesis using i(4) by simp
  qed
  have "?y ^ 2 ^ r mod p = (?y ^ 2 ^ (r - 1) mod p) * (?y ^ 2 ^ (r - 1) mod p) mod p"
    using i(1) by (cases r) (simp_all add: mult_2 power_add mod_mult_eq)
  then have "?y ^ 2 ^ r mod p = 1" using y1 p by simp
  moreover have "(b * ?y mod p) ^ 2 ^ (r - 1) mod p = (b ^ 2 ^ (r - 1) mod p) * (?y ^ 2 ^ (r - 1) mod p) mod p"
    by (rule pow_mult_mod)
  ultimately show ?thesis using i(1,5) y1 v p0 p by (simp add: shanks_stuck_def zmod_minus1)
qed

lemma shanks_loop_stuck:
  assumes "2 < p" and "shanks_stuck p y r b"
  shows "shanks_loop p y r x b = None"
proof (rule ccontr)
  assume "shanks_loop p y r x b \<noteq> None"
  then obtain z where z: "shanks_loop p y r x b = Some z" by blast
  let ?P = "\<lambda>p y (r :: nat) (x :: int) b (z :: int). 2 < p \<longrightarrow> shanks_stuck p y r b \<longrightarrow> False"
  have step: "?P p y r x b z"
    if IH: "\<And>p y r x b z. loop p y r x b = Some z \<Longrightarrow> ?P p y r x b z"
      and eq: "(if b \<noteq> 1
        then Option.bind (find_m p (bigint_rem (b * b) p) 1) (\<lambda>m.
             let t = square_times p (r - m - 1) y; y = bigint_rem (t * t) p
             in loop p y m (bigint_rem (x * t) p) (bigint_rem (b * y) p))
        else Some x) = Some z"
    for loop :: "int \<Rightarrow> int \<Rightarrow> nat \<Rightarrow> int \<Rightarrow> int \<Rightarrow> int option" and p y r x b z
  proof (intro impI)
    assume h: "2 < p" "shanks_stuck p y r b"
    note m = shanks_stuck_find_m [OF h]
    have "loop p (bigint_rem (y * y) p) r (bigint_rem (x * y) p) (bigint_rem (b * bigint_rem (y * y) p) p) = Some z"
      using eq m by (simp add: square_times_def Let_def)
    then show False using IH shanks_stuck_round [OF h] h(1) by blast
  qed
  have "?P p y r x b z"
  proof (rule shanks_loop.raw_induct [of ?P "((((p, y), r), x), b)" z, unfolded prod.case])
    show "shanks_loop p y r x b = Some z" by (rule z)
  qed (rule step, assumption+)
  then show False using assms by blast
qed

section \<open>The whole function\<close>

lemma two_power_odd: "0 < (n :: int) \<Longrightarrow> \<exists>k q. n = 2 ^ k * q \<and> odd q \<and> 0 < q"
proof (induction "nat n" arbitrary: n rule: less_induct)
  case less
  show ?case
  proof (cases "odd n")
    case True
    then show ?thesis using less.prems by (intro exI [of _ 0] exI [of _ n]) simp
  next
    case False
    then obtain m where m: "n = 2 * m" by blast
    then have "0 < m" "nat m < nat n" using less.prems by simp_all
    then obtain k q where "m = 2 ^ k * q" "odd q" "0 < q" using less.hyps by blast
    then show ?thesis using m by (intro exI [of _ "Suc k"] exI [of _ q]) simp
  qed
qed

lemma prime_int_odd: "prime_int p \<Longrightarrow> 2 < p \<Longrightarrow> odd p"
  unfolding prime_int_def by force

text \<open>Euler's criterion in the directions that are used.\<close>

lemma half_twice: "odd (p :: int) \<Longrightarrow> 0 < p \<Longrightarrow> nat ((p - 1) div 2) + nat ((p - 1) div 2) = nat (p - 1)"
  by (elim oddE) simp

lemma residue_power:
  assumes p: "prime_int p" "2 < p" and s: "s * s mod p = a" and a: "a \<noteq> 0"
  shows "a ^ nat ((p - 1) div 2) mod p = 1"
proof -
  let ?h = "nat ((p - 1) div 2)"
  have odd: "odd p" using prime_int_odd p by blast
  have "2 * ?h = nat (p - 1)" using half_twice [OF odd] p(2) by simp
  then have "a ^ ?h mod p = s ^ nat (p - 1) mod p"
    using s power_mod [of "s * s" p ?h] by (metis power_mult power2_eq_square)
  moreover have "\<not> p dvd s" using s a by (metis dvd_mult mod_eq_0_iff_dvd)
  ultimately show ?thesis using fermat [OF p(1)] by simp
qed

lemma nonresidue_power:
  assumes M: "mpz_lib_ok M" and p: "prime_int p" "2 < p" and n: "mz_legendre M n p = - 1"
  shows "n ^ nat ((p - 1) div 2) mod p = p - 1"
proof -
  have "p dvd n ^ nat ((p - 1) div 2) - (- 1)" using mpz_lib_okD(4) [OF M p, of n] n by simp
  then have "n ^ nat ((p - 1) div 2) mod p = (- 1) mod p" by (simp only: mod_eq_dvd_iff)
  then show ?thesis using p(2) by (simp add: zmod_minus1)
qed

text \<open>Primes that are three modulo four: one power.\<close>

lemma sqrRootMod_three:
  assumes M: "mpz_lib_ok M" and p: "prime_int p" "2 < p" "p mod 4 = 3" and a: "0 < a" "a < p"
  shows "\<exists>x. sqrRootMod M a p = Some x \<and> 0 \<le> x \<and> x < p \<and> x * x mod p = a * a ^ nat ((p - 1) div 2) mod p"
proof -
  obtain k where k: "p = 4 * k + 3" using p(3) by (metis mult_div_mod_eq)
  have k0: "0 \<le> k" using p(2) k by simp
  have "bit p 1" unfolding k by (simp add: bit_iff_odd) presburger
  then have t: "mz_tstbit M p 1" using mpz_lib_okD(2) [OF M] p(2) by simp
  have e: "bigint_quo (p + 1) 4 = k + 1" using k k0 by (simp add: bigint_quo_def)
  let ?x = "a ^ nat (k + 1) mod p"
  have "sqrRootMod M a p = Some ?x"
    using t e a mpz_lib_okD(1) [OF M, of "k + 1" p a] p(2) k0 by (simp add: sqrRootMod_def)
  moreover have "?x * ?x mod p = a ^ (nat (k + 1) + nat (k + 1)) mod p" by (simp add: mod_mult_eq power_add)
  moreover have "nat (k + 1) + nat (k + 1) = Suc (nat ((p - 1) div 2))" using k k0 by simp
  ultimately show ?thesis using p(2) by simp
qed

text \<open>Primes that are one modulo four: what the loop starts from.\<close>

lemma sqrRootMod_start:
  assumes M: "mpz_lib_ok M" and p: "prime_int p" "2 < p" "p mod 4 \<noteq> 3" and a: "0 < a" "a < p"
    and n: "find_nonresidue M p (mz_seed M (mz_randinit M) 0) = Some n" "mz_legendre M n p = - 1"
  obtains e y x b where "sqrRootMod M a p = shanks_loop p y e x b" and "0 < e" and "0 \<le> y" "y < p" "0 \<le> x" "x < p" "0 \<le> b" "b < p"
    and "x * x mod p = a * b mod p" and "y ^ 2 ^ (e - 1) mod p = p - 1"
    and "b ^ 2 ^ (e - 1) mod p = a ^ nat ((p - 1) div 2) mod p"
proof -
  have odd: "odd p" using prime_int_odd p by blast
  obtain e q where eq: "p - 1 = 2 ^ e * q" "odd q" "0 < q" using two_power_odd [of "p - 1"] p(2) by auto
  have e0: "0 < e" using eq odd by (cases e) auto
  define Q h where "Q = nat q" and "h = nat ((p - 1) div 2)"
  have oQ: "odd Q" "int Q = q" using eq by (simp_all add: Q_def even_nat_iff)
  have "(p - 1) div 2 = 2 ^ (e - 1) * q" using e0 eq(1) by (cases e) simp_all
  then have h: "h = Q * 2 ^ (e - 1)" unfolding h_def Q_def using eq(3) by (simp add: nat_mult_distrib nat_power_eq)
  have "\<not> bit p 1" using p(3) odd by (simp add: bit_iff_odd) presburger
  then have t: "\<not> mz_tstbit M p 1" using mpz_lib_okD(2) [OF M] p(2) by simp
  have sp: "split_two M (p - 1) 0 = Some (e, q)" using split_two_ok [OF M eq(2,3), of e 0] eq(1) by simp
  have qq: "bigint_quo (q - 1) 2 = (q - 1) div 2" using eq(3) by (auto simp: bigint_quo_def sgn_if)
  define y x0 where "y = n ^ Q mod p" and "x0 = a ^ nat ((q - 1) div 2) mod p"
  define b x where "b = a * x0 * x0 mod p" and "x = a * x0 mod p"
  have p0: "0 < p" "1 < p" using p(2) by simp_all
  have x00: "0 \<le> x0" using p0 by (simp add: x0_def)
  have run: "sqrRootMod M a p = shanks_loop p y e x b"
    using t n(1) sp qq a eq(3) x00 p0 mpz_lib_okD(1) [OF M _ p0(2), of q n] mpz_lib_okD(1) [OF M _ p0(2), of "(q - 1) div 2" a]
    by (simp add: sqrRootMod_def Let_def y_def x_def b_def Q_def bigint_rem_pos flip: x0_def)
  have ex: "Q = Suc (2 * nat ((q - 1) div 2))"
  proof -
    obtain m where m: "q = 2 * m + 1" using eq(2) by (elim oddE)
    then have "0 \<le> m" using eq(3) by simp
    then show ?thesis using m by (simp add: Q_def nat_add_distrib nat_mult_distrib)
  qed
  have "b = a * (a ^ nat ((q - 1) div 2) * a ^ nat ((q - 1) div 2)) mod p"
    unfolding b_def x0_def mult.assoc by (rule mod_mult_cong [OF refl mod_mult_eq])
  also have "a * (a ^ nat ((q - 1) div 2) * a ^ nat ((q - 1) div 2)) = a ^ Q" unfolding ex by (simp add: mult_2 power_add)
  finally have bv: "b = a ^ Q mod p" .
  have be: "b ^ 2 ^ (e - 1) mod p = a ^ h mod p" unfolding bv h by (simp add: power_mod power_mult)
  have "y ^ 2 ^ (e - 1) mod p = n ^ h mod p" unfolding y_def h by (simp add: power_mod power_mult)
  then have ye: "y ^ 2 ^ (e - 1) mod p = p - 1" using nonresidue_power [OF M p(1,2) n(2)] by (simp add: h_def)
  have "x * x mod p = (a * x0) * (a * x0) mod p" unfolding x_def by (rule mod_mult_eq)
  moreover have "a * b mod p = a * (a * x0 * x0) mod p" unfolding b_def by (rule mod_mult_right_eq)
  ultimately have xx: "x * x mod p = a * b mod p" by (simp only: ac_simps)
  have range: "0 \<le> y" "y < p" "0 \<le> x" "x < p" "0 \<le> b" "b < p" using p0 by (simp_all add: y_def x_def b_def)
  show thesis by (rule that [OF run e0 range xx ye be [unfolded h_def]])
qed

text \<open>The library can be met: naturals as the states of the generator.\<close>

fun int_bytes :: "nat \<Rightarrow> u8 list" where
  "int_bytes n = (if n = 0 then [] else int_bytes (n div 256) @ [word_of_nat (n mod 256)])"

declare int_bytes.simps [simp del]

definition mpz_ref :: "nat mpz_lib" where
  "mpz_ref = \<lparr>
     mz_powm = \<lambda>b e m. b ^ nat e mod m,
     mz_invert = ref_invert,
     mz_tstbit = bit,
     mz_even = even,
     mz_legendre = \<lambda>a p. (let v = a ^ nat ((p - 1) div 2) mod p in if v = p - 1 then - 1 else v),
     mz_randinit = 0,
     mz_seed = \<lambda>g s. s,
     mz_range = \<lambda>g p. (int g mod p, g + 1),
     mz_import = bytes_val,
     mz_export = \<lambda>x. int_bytes (nat \<bar>x\<bar>)\<rparr>"

lemma bytes_val_append: "bytes_val (xs @ [b]) = 256 * bytes_val xs + uint b"
  by (simp add: bytes_val_def)

lemma bytes_val_int_bytes: "bytes_val (int_bytes n) = int n"
proof (induction n rule: int_bytes.induct)
  case (1 n)
  show ?case
  proof (cases "n = 0")
    case False
    have "uint (word_of_nat (n mod 256) :: u8) = int (n mod 256)" by (simp add: unsigned_of_nat take_bit_nat_eq_self)
    then have "bytes_val (int_bytes n) = 256 * int (n div 256) + int (n mod 256)"
      using 1 False by (subst int_bytes.simps) (simp add: bytes_val_append)
    then show ?thesis by (metis mult_div_mod_eq of_nat_add of_nat_mult of_nat_numeral)
  qed (simp add: int_bytes.simps bytes_val_def)
qed

lemma ref_legendre:
  fixes a p :: int
  assumes p: "prime_int p" "2 < p"
  defines "v \<equiv> a ^ nat ((p - 1) div 2) mod p"
  shows "v = 0 \<or> v = 1 \<or> v = p - 1"
proof (cases "p dvd a")
  case True
  have "nat ((p - 1) div 2) \<noteq> 0" using p(2) by simp
  then have "p dvd a ^ nat ((p - 1) div 2)" using True by (metis dvd_power dvd_trans not_gr_zero)
  then show ?thesis by (simp add: v_def mod_eq_0_iff_dvd)
next
  case False
  have odd: "odd p" using prime_int_odd p by blast
  have "nat ((p - 1) div 2) + nat ((p - 1) div 2) = nat (p - 1)" using half_twice [OF odd] p(2) by simp
  then have "(a ^ nat ((p - 1) div 2)) * (a ^ nat ((p - 1) div 2)) = a ^ nat (p - 1)" by (simp flip: power_add)
  then have "(a ^ nat ((p - 1) div 2)) * (a ^ nat ((p - 1) div 2)) mod p = 1" using fermat [OF p(1) False] by simp
  from square_one [OF p(1) this] show ?thesis by (simp add: v_def)
qed

lemma mpz_ref_ok: "mpz_lib_ok mpz_ref"
proof -
  have leg: "(let v = a ^ nat ((p - 1) div 2) mod p in if v = p - 1 then - 1 else v) \<in> {- 1, 0, 1}
      \<and> p dvd a ^ nat ((p - 1) div 2) - (let v = a ^ nat ((p - 1) div 2) mod p in if v = p - 1 then - 1 else v)"
    if p: "prime_int p" "2 < p" for a p
  proof -
    let ?w = "a ^ nat ((p - 1) div 2)"
    have "p dvd ?w - ?w mod p" by (metis mod_eq_dvd_iff mod_mod_trivial)
    moreover have "p dvd ?w - (- 1)" if "?w mod p = p - 1"
    proof -
      have "?w mod p = (- 1) mod p" using that p(2) by (simp add: zmod_minus1)
      then show ?thesis by (simp only: mod_eq_dvd_iff)
    qed
    ultimately show ?thesis using ref_legendre [OF p, of a] by (auto simp: Let_def)
  qed
  have ex: "bytes_val (int_bytes (nat \<bar>x\<bar>)) = \<bar>x\<bar>" for x by (simp add: bytes_val_int_bytes)
  show ?thesis unfolding mpz_lib_ok_def
  proof (intro conjI allI impI)
    fix a p :: int assume p: "prime_int p" "2 < p"
    show "mz_legendre mpz_ref a p \<in> {- 1, 0, 1}" using leg [OF p, of a] by (simp add: mpz_ref_def)
    show "p dvd a ^ nat ((p - 1) div 2) - mz_legendre mpz_ref a p" using leg [OF p, of a] by (simp add: mpz_ref_def)
  next
    fix a m :: int assume "1 < m" "coprime a m"
    then show "a * mz_invert mpz_ref a m mod m = 1" using ref_invert_ok [of m a] by (simp add: mpz_ref_def)
  qed (simp_all add: mpz_ref_def ex)
qed

section \<open>Square roots are found\<close>

text \<open>For a prime \<open>p > 2\<close> and a square \<open>a\<close> a root is returned.\<close>

lemma sqrRootMod_square:
  assumes "mpz_lib_ok M" and "prime_int p" and "2 < p" and "0 \<le> a" and "a < p" and "s * s mod p = a"
    and "mz_legendre M (fst (mz_range M (((\<lambda>g. snd (mz_range M g p)) ^^ k) (mz_seed M (mz_randinit M) 0)) p)) p = - 1"
  shows "\<exists>x. sqrRootMod M a p = Some x \<and> 0 \<le> x \<and> x < p \<and> x * x mod p = a"
proof (cases "a = 0")
  case True
  then show ?thesis using assms(3) by (simp add: sqrRootMod_def)
next
  case False
  note h = residue_power [OF assms(2,3,6) False]
  have a: "0 < a" "a < p" using False assms(4,5) by simp_all
  show ?thesis
  proof (cases "p mod 4 = 3")
    case True
    then show ?thesis using sqrRootMod_three [OF assms(1-3) True a] h a mod_mult_right_eq [of a "a ^ nat ((p - 1) div 2)" p] by simp
  next
    case False
    obtain n where n: "find_nonresidue M p (mz_seed M (mz_randinit M) 0) = Some n" "mz_legendre M n p = - 1"
      using find_nonresidue_ok [OF assms(7)] by blast
    obtain e y x b where l: "sqrRootMod M a p = shanks_loop p y e x b" and i: "shanks_inv p a y e x b"
      by (rule sqrRootMod_start [OF assms(1-3) False a n]) (simp add: shanks_inv_def h)
    show ?thesis using shanks_loop_ok [OF assms(2) i] l a by simp
  qed
qed

text \<open>On a non-residue there is no error, but a loop or a root of \<open>- a\<close>.\<close>

lemma sqrRootMod_nonresidue:
  assumes "mpz_lib_ok M" and "prime_int p" and "2 < p" and "0 < a" and "a < p" and "mz_legendre M a p = - 1"
  shows "if p mod 4 = 3 then \<exists>x. sqrRootMod M a p = Some x \<and> x * x mod p = (- a) mod p else sqrRootMod M a p = None"
proof (cases "p mod 4 = 3")
  case True
  have "a * a ^ nat ((p - 1) div 2) mod p = a * ((- 1) mod p) mod p"
    using nonresidue_power [OF assms(1-3,6)] assms(3) mod_mult_right_eq [of a "a ^ nat ((p - 1) div 2)" p]
    by (simp add: zmod_minus1)
  then have "a * a ^ nat ((p - 1) div 2) mod p = (- a) mod p" by (simp add: mod_mult_right_eq)
  then show ?thesis using sqrRootMod_three [OF assms(1-3) True assms(4,5)] True by auto
next
  case False
  show ?thesis
  proof (cases "find_nonresidue M p (mz_seed M (mz_randinit M) 0)")
    case None
    have "odd p" using prime_int_odd assms(2,3) by blast
    then have "\<not> bit p 1" using False by (simp add: bit_iff_odd) presburger
    then show ?thesis using None False assms(3,4) mpz_lib_okD(2) [OF assms(1)] by (simp add: sqrRootMod_def)
  next
    case (Some n)
    have n: "mz_legendre M n p = - 1" by (rule find_nonresidue_legendre [OF Some])
    obtain e y x b where l: "sqrRootMod M a p = shanks_loop p y e x b" and e: "0 < e"
      and i: "0 \<le> y" "0 \<le> b" "y ^ 2 ^ (e - 1) mod p = p - 1" "b ^ 2 ^ (e - 1) mod p = a ^ nat ((p - 1) div 2) mod p"
      by (rule sqrRootMod_start [OF assms(1-3) False assms(4,5) Some n]) simp
    have "(y ^ 2 ^ (e - 1)) * (y ^ 2 ^ (e - 1)) = y ^ 2 ^ e" using e by (cases e) (simp_all add: mult_2 power_add)
    then have "y ^ 2 ^ e mod p = 1" using minus_one_square [OF i(3)] assms(3) by simp
    then have "shanks_stuck p y e b"
      using e i nonresidue_power [OF assms(1-3,6)] by (simp add: shanks_stuck_def)
    from shanks_loop_stuck [OF assms(3) this] show ?thesis using l False by simp
  qed
qed

text \<open>C37. For a prime \<open>p > 2\<close> and \<open>a\<close> below it, when the generator ever draws a non-residue: if \<open>a\<close> is a square modulo \<open>p\<close>,
  \<open>sqrRootMod\<close> returns a square root of it; if \<open>a\<close> is a non-residue, it reports no error but returns a root of \<open>- a\<close>
  (\<open>p\<close> three modulo four) or never returns (\<open>p\<close> one modulo four).
\<close>
theorem sqrRootMod_exact:
  assumes M: "mpz_lib_ok M" and p: "prime_int p" "2 < p" and a: "0 \<le> a" "a < p"
    and draw: "mz_legendre M (fst (mz_range M (((\<lambda>g. snd (mz_range M g p)) ^^ k) (mz_seed M (mz_randinit M) 0)) p)) p = - 1"
  shows "((\<exists>s. s * s mod p = a) \<longrightarrow> (\<exists>x. sqrRootMod M a p = Some x \<and> 0 \<le> x \<and> x < p \<and> x * x mod p = a))
         \<and> (mz_legendre M a p = - 1 \<longrightarrow>
            (if p mod 4 = 3 then \<exists>x. sqrRootMod M a p = Some x \<and> x * x mod p = (- a) mod p else sqrRootMod M a p = None))"
proof (intro conjI impI)
  assume "\<exists>s. s * s mod p = a"
  then show "\<exists>x. sqrRootMod M a p = Some x \<and> 0 \<le> x \<and> x < p \<and> x * x mod p = a"
    using sqrRootMod_square [OF M p a _ draw] by blast
next
  assume l: "mz_legendre M a p = - 1"
  have "nat ((p - 1) div 2) \<noteq> 0" using p(2) by simp
  then have "a \<noteq> 0" using nonresidue_power [OF M p l] p(2) by (auto simp: zero_power)
  then show "if p mod 4 = 3 then \<exists>x. sqrRootMod M a p = Some x \<and> x * x mod p = (- a) mod p else sqrRootMod M a p = None"
    using sqrRootMod_nonresidue [OF M p _ a(2) l] a(1) by simp
qed

lemma prime_int_13: "prime_int 13"
proof -
  have "\<forall>d\<in>{2, 3, 4, 5, 6, 7, 8, 9, 10, 11, 12 :: int}. \<not> d dvd 13" by simp
  moreover have "d \<in> {2, 3, 4, 5, 6, 7, 8, 9, 10, 11, 12}" if "1 < d" "d < 13" for d :: int
    using that by simp presburger
  ultimately have "\<not> d dvd 13" if "1 < d" "d < 13" for d :: int using that by blast
  then show ?thesis by (simp add: prime_int_def)
qed

theorem sqrRootMod_exact_witness:
  "(\<exists>x. sqrRootMod mpz_ref 10 13 = Some x \<and> 0 \<le> x \<and> x < 13 \<and> x * x mod 13 = 10) \<and> sqrRootMod mpz_ref 2 13 = None"
proof -
  have l: "mz_legendre mpz_ref 2 13 = - 1" by (simp add: mpz_ref_def Let_def)
  then have draw: "mz_legendre mpz_ref (fst (mz_range mpz_ref (((\<lambda>g. snd (mz_range mpz_ref g 13)) ^^ 2) (mz_seed mpz_ref (mz_randinit mpz_ref) 0)) 13)) 13 = - 1"
    by (simp add: mpz_ref_def eval_nat_numeral)
  have "\<exists>s :: int. s * s mod 13 = 10" by (rule exI [of _ 6]) simp
  then show ?thesis
    using sqrRootMod_exact [OF mpz_ref_ok prime_int_13 _ _ _ draw, of 10] sqrRootMod_exact [OF mpz_ref_ok prime_int_13 _ _ _ draw, of 2] l
    by auto
qed

section \<open>Powers and conversions\<close>

lemma powerMod_nonneg: "mpz_lib_ok M \<Longrightarrow> 1 < p \<Longrightarrow> 0 \<le> e \<Longrightarrow> powerMod M x e p = x ^ nat e mod p"
  using mpz_lib_okD(1) [of M e p x] by (simp add: powerMod_def)

lemma powerMod_negative:
  assumes M: "mpz_lib_ok M" and p: "1 < p" "coprime x p" and e: "e < 0"
  shows "x ^ nat (- e) * powerMod M x e p mod p = 1"
proof -
  have "powerMod M x e p = mz_invert M x p ^ nat (- e) mod p"
    using mpz_lib_okD(1) [OF M, of "- e" p "mz_invert M x p"] e p(1) by (simp add: powerMod_def)
  then have "x ^ nat (- e) * powerMod M x e p mod p = (x * mz_invert M x p) ^ nat (- e) mod p"
    by (simp add: mod_mult_right_eq power_mult_distrib)
  also have "\<dots> = (x * mz_invert M x p mod p) ^ nat (- e) mod p" by (simp add: power_mod)
  finally show ?thesis using mpz_lib_okD(5) [OF M p] p(1) by simp
qed

text \<open>On \<open>int\<close> the products stay within 32 bits up to this modulus.\<close>

lemma int_mul_rem_ok:
  assumes "0 \<le> x" "x < p" "0 \<le> y" "y < p" "p \<le> 46341"
  shows "int_mul_rem x y p = Inr (x * y mod p)"
proof -
  have "x * y \<le> 46340 * 46340" using assms by (intro mult_mono) simp_all
  then have "x * y < 2 ^ 31" by (rule le_less_trans) simp
  moreover have n: "0 \<le> x * y" using assms by simp
  moreover have "- (2 ^ 31) \<le> x * y" by (rule order_trans [OF _ n]) simp
  ultimately show ?thesis using assms bigint_rem_pos [OF n, of p] by (simp add: int_mul_rem_def)
qed

lemma powerMod_loop_ok:
  assumes p: "1 < p" "p \<le> 46341"
  shows "0 \<le> a \<Longrightarrow> a < p \<Longrightarrow> 0 \<le> t \<Longrightarrow> t < p \<Longrightarrow> powerMod_loop e a t p = Inr (a * t ^ e mod p)"
proof (induction e arbitrary: a t rule: less_induct)
  case (less e)
  show ?case
  proof (cases "e = 0")
    case True
    then show ?thesis using less.prems by (simp add: powerMod_loop.simps)
  next
    case False
    let ?a = "if odd e then a * t mod p else a"
    have r: "0 \<le> ?a" "?a < p" "0 \<le> t * t mod p" "t * t mod p < p" using less.prems p by simp_all
    have "powerMod_loop e a t p = powerMod_loop (e div 2) ?a (t * t mod p) p"
      using False int_mul_rem_ok [OF less.prems p(2)] int_mul_rem_ok [OF less.prems(3,4,3,4) p(2)]
      by (subst powerMod_loop.simps) simp
    also have "\<dots> = Inr (?a * (t * t mod p) ^ (e div 2) mod p)" using less.IH [OF _ r] False by simp
    also have "?a * (t * t mod p) ^ (e div 2) mod p = (a * (if odd e then t else 1)) * (t * t) ^ (e div 2) mod p"
      by (rule mod_mult_cong) (simp_all add: power_mod)
    also have "(a * (if odd e then t else 1)) * (t * t) ^ (e div 2) = a * t ^ e"
    proof -
      have "(t * t) ^ (e div 2) = t ^ (2 * (e div 2))" by (simp add: power_mult power2_eq_square)
      then show ?thesis by (cases "odd e") (simp_all add: mult.assoc flip: power_Suc)
    qed
    finally show ?thesis .
  qed
qed

lemma powerMod_int_ok:
  "1 < p \<Longrightarrow> p \<le> 46341 \<Longrightarrow> 0 \<le> x \<Longrightarrow> x < p \<Longrightarrow> 0 \<le> e \<Longrightarrow> powerMod_int x e p = Inr (x ^ nat e mod p)"
  using powerMod_loop_ok [of p 1 x "nat e"] by (auto simp: powerMod_int_def)

lemma powerMod_int_overflow: "powerMod_int 46341 2 46342 = Inl UndefinedBehaviour"
  by (simp add: powerMod_int_def powerMod_loop.simps int_mul_rem_def)

text \<open>The two logarithms.\<close>

lemma log_loop_floor: "0 < x \<Longrightarrow> r \<le> log_loop x 1 r \<and> 2 ^ (log_loop x 1 r - r) \<le> x \<and> x < 2 ^ (log_loop x 1 r - r + 1)"
proof (induction x "1 :: nat" r rule: log_loop.induct)
  case (1 x r)
  show ?case
  proof (cases "1 < x")
    case True
    define l where "l = log_loop (x div 2) 1 (r + 1)"
    have h: "r + 1 \<le> l \<and> 2 ^ (l - (r + 1)) \<le> x div 2 \<and> x div 2 < 2 ^ (l - (r + 1) + 1)"
      using 1 True by (simp add: l_def)
    from h have "r + 1 \<le> l" by blast
    then have s: "l - r = Suc (l - (r + 1))" by simp
    have "log_loop x 1 r = l" using True by (subst log_loop.simps) (simp add: l_def)
    moreover have "2 ^ (l - r) \<le> x \<and> x < 2 ^ (l - r + 1)"
    proof -
      define d where "d = x div 2"
      have "2 * d \<le> x" "x < 2 * d + 2" by (simp_all add: d_def)
      then show ?thesis using h unfolding s d_def [symmetric] by simp
    qed
    ultimately show ?thesis using h by simp
  qed (use 1 in \<open>simp add: log_loop.simps\<close>)
qed

lemma FLOOR_LOG2_ok: "0 < x \<Longrightarrow> 2 ^ FLOOR_LOG2 x \<le> x \<and> x < 2 ^ (FLOOR_LOG2 x + 1)"
  using log_loop_floor [of "nat x" 0] by (simp add: FLOOR_LOG2_def le_nat_iff nat_less_iff)

lemma log_loop_ceil:
  "r \<le> log_loop x 0 r \<and> x < 2 ^ (log_loop x 0 r - r) \<and> (0 < x \<longrightarrow> r < log_loop x 0 r \<and> 2 ^ (log_loop x 0 r - r - 1) \<le> x)"
proof (induction x "0 :: nat" r rule: log_loop.induct)
  case (1 x r)
  show ?case
  proof (cases "0 < x")
    case True
    define l d where "l = log_loop (x div 2) 0 (r + 1)" and "d = x div 2"
    have h: "r + 1 \<le> l" "d < 2 ^ (l - (r + 1))" "0 < d \<longrightarrow> r + 1 < l \<and> 2 ^ (l - (r + 1) - 1) \<le> d"
      using 1 [OF True] by (simp_all add: l_def d_def)
    have e: "log_loop x 0 r = l" using True by (subst log_loop.simps) (simp add: l_def)
    have s: "l - r = Suc (l - (r + 1))" using h(1) by simp
    have x: "2 * d \<le> x" "x < 2 * d + 2" by (simp_all add: d_def)
    have lo: "2 ^ (l - (r + 1)) \<le> x"
    proof (cases "0 < d")
      case True
      then have "r + 1 < l" using h(3) by blast
      then have "l - (r + 1) = Suc (l - (r + 1) - 1)" by simp
      then have "2 ^ (l - (r + 1)) = 2 * (2 :: nat) ^ (l - (r + 1) - 1)" by (metis power_Suc)
      then show ?thesis using h(3) True x by simp
    next
      case False
      then have d0: "d = 0" by simp
      then have "log_loop d 0 (r + 1) = r + 1" by (simp add: log_loop.simps)
      then have "l = r + 1" by (simp add: l_def d_def)
      then show ?thesis using \<open>0 < x\<close> by simp
    qed
    show ?thesis unfolding e using h(1,2) x lo True s by simp
  qed (simp add: log_loop.simps)
qed

lemma CEIL_LOG2_ok: "0 < x \<Longrightarrow> x \<le> 2 ^ CEIL_LOG2 x \<and> (1 < x \<longrightarrow> 2 ^ (CEIL_LOG2 x - 1) < x)"
proof -
  assume x: "0 < x"
  let ?n = "nat (x - 1)"
  have c: "?n < 2 ^ CEIL_LOG2 x" "0 < ?n \<longrightarrow> 2 ^ (CEIL_LOG2 x - 1) \<le> ?n"
    using log_loop_ceil [of 0 ?n] by (simp_all add: CEIL_LOG2_def)
  then have "x - 1 < 2 ^ CEIL_LOG2 x" using x by (simp add: nat_less_iff)
  moreover have "2 ^ (CEIL_LOG2 x - 1) \<le> x - 1" if "1 < x" using c(2) that by (simp add: le_nat_iff)
  ultimately show ?thesis by auto
qed

text \<open>Bytes come back shifted: the zeros are at the end of the buffer, which is the least significant one.\<close>

lemma bytes_val_zeros: "bytes_val (b @ replicate n 0) = bytes_val b * 256 ^ n"
proof (induction n)
  case (Suc n)
  have "b @ replicate (Suc n) 0 = (b @ replicate n 0) @ [0 :: u8]" by (simp add: replicate_append_same)
  then show ?case using Suc by (simp only: bytes_val_append) simp
qed simp

lemma bytes_bigint_shifted:
  assumes "mpz_lib_ok M"
  shows "bytesFromBigint M x len =
    (if length (mz_export M x) \<le> len then Inr (mz_export M x @ replicate (len - length (mz_export M x)) 0) else Inl InvalidLength)"
    and "bigintFromBytes M (mz_export M x @ replicate n 0) = \<bar>x\<bar> * 256 ^ n"
  using mpz_lib_okD(6,7) [OF assms] by (simp_all add: bytesFromBigint_def bigintFromBytes_def bytes_val_zeros require_def Let_def)

end
