(* ===== verification/Spec2Isabelle.thy ===== *)
theory Spec2Isabelle
  imports BDX_ClassicGC BDX_DagCircuit BDX_Protocol BDX_Channel BDX_Endpoint BDX_Field BDX_Shanks
begin

text \<open>
  A verification of batchDualEx (\<open>libBDX\<close>): two-party computation by dual execution with batched
  cut-and-choose. Each party garbles a circuit many times and sends the garblings; some are opened and
  checked, the rest are put into buckets, one bucket for each later execution. In an execution both
  parties evaluate all circuits of a bucket; each circuit gives an output and a common label, and a
  private set intersection on the labels decides which output to believe.

  \<^bold>\<open>Parts of the program and how they interact.\<close> \<open>DualExActor\<close> runs the protocol: its \<open>init\<close> starts OT threads,
  which fill \<open>OTExtReceiver\<close> and \<open>OTExtSender\<close> objects, and garbling and receiving threads, which
  fill \<open>CircuitPackage\<close> and \<open>CommCircuitPackage\<close> objects and group them into \<open>Bucket\<close>s. A package owns a
  \<open>HalfGtGarbledCircuit\<close>, takes OTs to commit to the inputs of the other party, and encodes them with
  a \<open>KProbeMatrix\<close>. A bucket owns the sender and the receiver of a PSI, which take OTs as well. All of
  these use AES (\<open>AES128\<close>, \<open>PRNG\<close>), SHA-1 commitments (\<open>Commit\<close>), bit vectors, byte streams, and channels.

  \<^bold>\<open>Theories, from the bottom.\<close> Definitions keep the names of the code; a member \<open>mFoo\<close> of a class is a
  record field \<open>mFoo\<close> with a prefix for its class.
  \<^item> \<open>BDX_Prelude\<close>: machine words and bytes, the error type \<open>bdx_error\<close>, the result type \<open>'a result\<close> (every
    \<open>throw\<close> is an \<open>Inl\<close>), loops over results (\<open>each_r\<close>, \<open>fold_r\<close>), roles, and \<open>send_msgs\<close>, the check of the
    network that a message has bytes.
  \<^item> \<open>BDX_BitVector\<close>, \<open>BDX_ByteStream\<close> (\<open>Common/\<close>): bits over bytes, and the buffer that is sent over channels.
  \<^item> \<open>BDX_AES\<close>, \<open>BDX_Prng\<close>, \<open>BDX_Commit\<close> (\<open>Crypto/\<close>): AES-128, its counter-mode generator, commitments.
  \<^item> \<open>BDX_Circuit\<close>, \<open>BDX_Garbling\<close>, \<open>BDX_HalfGate\<close>, \<open>BDX_ClassicGC\<close> (\<open>Circuit/\<close>): circuits and their
    semantics, the contract of a garbling scheme as a locale, and the two schemes that meet it.
  \<^item> \<open>BDX_Dag\<close>, \<open>BDX_DagAdd\<close>, \<open>BDX_DagRead\<close>, \<open>BDX_DagReduce\<close>, \<open>BDX_DagGates\<close>, \<open>BDX_DagCircuit\<close>
    (\<open>Circuit/DagCircuit\<close>, \<open>Circuit::readBris\<close>): the graph of a circuit file and all its operations; the depth-first
    conversion to a circuit; reading; the reduction of inverters at the outputs and at the gates; the end-to-end
    theorems and writing.
  \<^item> \<open>BDX_KProbe\<close> (\<open>Circuit/KProbeResistant\<close>): the k-probe matrix as a linear code on bits and on labels.
  \<^item> \<open>BDX_OTTools\<close>, \<open>BDX_OTExt\<close> (\<open>OT/\<close>): OT extension with the correlation check.
  \<^item> \<open>BDX_BaseOT\<close> (\<open>OT/BaseOT\<close>, \<open>OT/Math/DMC\<close>): the base OTs on the dual-mode cryptosystem over P-256, from the
    search for the reference string to the blocks.
  \<^item> \<open>BDX_Zp\<close>, \<open>BDX_Modp\<close>, \<open>BDX_Field\<close> (\<open>OT/Math/Zp_Data\<close>, \<open>OT/Math/modp\<close>): the constants of a modulus and
    Montgomery's product on limbs; the operations on residues; their refinement of the integers modulo \<open>p\<close>.
  \<^item> \<open>BDX_Bigint\<close>, \<open>BDX_Shanks\<close> (\<open>OT/Math/bigint\<close>): square roots modulo a prime, powers, logarithms, bytes; Fermat's
    theorem and the invariant of Shanks' loop. The protocol uses none of this arithmetic.
  \<^item> \<open>BDX_Psi\<close>, \<open>BDX_PsiSync\<close> (\<open>PSI/\<close>): both private set intersections, the asynchronous one with its
    threads as a step relation.
  \<^item> \<open>BDX_Package\<close>, \<open>BDX_Bucket\<close> (\<open>DualEx/\<close>): the packages of a circuit on both sides, and a bucket of them.
  \<^item> \<open>BDX_Network\<close>, \<open>BDX_NetInv\<close>, \<open>BDX_Channel\<close>, \<open>BDX_Endpoint\<close> (\<open>Network/\<close>): two sockets with their strands and queues
    over byte streams as a step relation; its invariant; what a channel promises (the lists of messages
    of the other theories rest on it); the handshake and the channel list of an endpoint.
  \<^item> \<open>BDX_CutChoose\<close>, \<open>BDX_OTThreads\<close>, \<open>BDX_Actor\<close>, \<open>BDX_Offline\<close>, \<open>BDX_Online\<close>, \<open>BDX_Protocol\<close>
    (\<open>DualEx/DualExActor\<close>): the parameters, cut and choose and division of the work; \<open>getRecvOTs\<close> and
    \<open>getSendOTs\<close>; \<open>initSend\<close> and \<open>initRecv\<close> of one thread, then of all threads of both parties;
    \<open>execute\<close> with the threads of the online phase; \<open>init\<close> and the whole protocol.

  \<^bold>\<open>Interfaces.\<close> \<open>block_cipher\<close> (AES), \<open>bit_array\<close> (bit vectors), \<open>byte_fifo\<close> (byte streams), \<open>garbling_scheme\<close>
  (both schemes), \<open>label_code\<close> (the k-probe matrix) and \<open>ot_pads\<close> (the OT extension, used by packages and PSIs)
  are locales; each is interpreted on the model of the code.

  \<^bold>\<open>What the lemmas show.\<close> Every component has a well-formedness predicate that its operations keep, equations
  for its operations on every branch, and a correctness theorem against a reference: bit lists for the
  bit vectors, the counter stream for the generator, the boolean semantics for circuits and garblings,
  the matrix code for the k-probe encoding, equal pads for OTs, equality of inputs for the PSIs. The
  theorems on packages, buckets and actors compose them: honest parties never throw or block in \<open>init\<close>,
  every circuit of every execution outputs the function of both inputs, and \<open>execute\<close> returns it when the
  intersection has one match. This needs what the code needs and does not check: inputs of one size for the two
  parties (\<open>unequal_inputs_fail\<close> shows the failure of others), an output and a gate with a table
  (\<open>circuit_sendable\<close>), and an online thread for every circuit of a bucket (\<open>eval_assert\<close>). The checks of the protocol
  have exact characterisations: what a \<open>Validate\<close>, an opening, a correlation check or a parameter
  check accepts.

  \<^bold>\<open>Parameters.\<close> SHA-1 (Crypto++) is \<open>sha\<close>, of which only the digest length is used (\<open>digest20\<close>); the binding
  theorems exhibit a collision instead of assuming there is none. \<open>std::shuffle\<close> is \<open>shuffle\<close>. The big
  integers, curve points and generator of MIRACL are the record \<open>miracl\<close>, with the laws \<open>miracl_ok\<close>; the limb
  functions of MPIR are the record \<open>mpir\<close>, with the laws \<open>mpn_ok\<close> and \<open>mpz_ok\<close>, and its number theory the record
  \<open>mpz_lib\<close>, with the laws \<open>mpz_lib_ok\<close>. The
  polynomial arithmetic of NTL is an argument of \<open>kp_build\<close>. The AES instructions are the byte
  functions of FIPS-197.

  \<^bold>\<open>Bounds.\<close> Sizes are naturals; where the code counts in 32 or 64 bits the wrap-around is written out
  and the theorems bound the sizes (\<open>2 ^ 32\<close> blocks for \<open>EcbEncBlocks\<close>, \<open>2 ^ 30\<close> OTs). The division of circuits and OTs
  among the init threads is in \<open>u64\<close>; \<open>work_fits\<close> says when nothing wraps around. \<open>asyncSend\<close> casts the size of a
  message to 32 bits: the theories above \<open>Network/\<close> treat a message as a list of bytes, and their theorems ask
  for messages below 4 GB. An empty message throws in \<open>dispatch\<close>; an operation that may send one runs \<open>send_msgs\<close>
  on its messages, the others have an argument in their theory that theirs are not empty. Loops are folds or
  structural recursions, so no fuel is needed; the search of the reference string, the loop of
  \<open>toCircuit\<close> and the loops of \<open>sqrRootMod\<close>, which may not end, are partial functions. \<open>depthFirstAdd\<close> has the depth of its recursion as fuel:
  more than the number of gates plus one is enough.

  \<^bold>\<open>Concurrency.\<close> A thread's work is a function of the messages it receives; an operation that waits is
  modelled from the point where the wait ends, and a wait that never ends is the error \<open>Blocked\<close>. The
  orders in which threads can run are arguments (schedules of the asynchronous PSI, orders of the
  links in the offline phase, orders in which the threads of an execution take PSI slots, commit and
  deliver their output). In \<open>Network/\<close> every interleaving of client calls, strand handlers and partial reads and
  writes is an execution. Connections do not break: \<open>close\<close> is modelled up to its waits, without the close of the
  handle that follows, and a transfer that is short or has an error ends the execution with an exception in a
  thread of the I/O service (\<open>channel_throws\<close>).

  \<^bold>\<open>Assertions.\<close> \<open>assert\<close> is an error of the model where a theorem relies on it (\<open>Aborted\<close>, for the threads of a
  bucket), and a hypothesis of the theorems elsewhere (the index array of a package starts with \<open>ZeroBlock\<close>).

  \<^bold>\<open>Not modelled.\<close> Printing, timers and logs; floating-point code; what happens after a connection broke, name resolution and the
  thread pool of \<open>Network/\<close>; the test programs, the option parser, the front end, and the vendored code
  under \<open>thirdparty/\<close>.
\<close>

end
